(* ===== verification/Backip_Prelude.thy ===== *)
theory Backip_Prelude
  imports Main "HOL-Library.Word" "HOL-Library.Monad_Syntax"
begin

text \<open>
  Shared vocabulary of the development: the machine integers of the C code as words, byte
  memory with pointers as offsets, the byte-order conversions of \<open>nwbyte.h\<close>, and the
  algebra of buffer writes that the packing and unpacking proofs use.

  Two kinds of failure are kept apart everywhere.  A value the C function returns (\<open>NULL\<close>,
  \<open>-1\<close>, \<dots>) is a value of the model.  A step that has no defined meaning in C (an access
  outside the object, a null dereference) makes the whole computation \<^term>\<open>None\<close>: a theorem
  that a function returns \<open>Some\<close> is a theorem that it stays inside its buffers.
\<close>

unbundle bit_operations_syntax

section \<open>Machine integers\<close>

type_synonym u8 = "8 word"
type_synonym u16 = "16 word"
type_synonym u32 = "32 word"
type_synonym mem = "u8 list"

text \<open>The platform is little endian, as \<open>nwbyte.h\<close> assumes: \<open>htons\<close> and
  \<open>ntohs\<close> swap the two bytes of a halfword.\<close>

definition le16 :: "u8 \<Rightarrow> u8 \<Rightarrow> u16" where
  "le16 lo hi = push_bit 8 (ucast hi) OR ucast lo"

definition lo8 :: "u16 \<Rightarrow> u8" where
  "lo8 w = ucast w"

definition hi8 :: "u16 \<Rightarrow> u8" where
  "hi8 w = ucast (drop_bit 8 w)"

definition htons :: "u16 \<Rightarrow> u16" where
  "htons x = push_bit 8 x OR drop_bit 8 x"

abbreviation ntohs :: "u16 \<Rightarrow> u16" where
  "ntohs \<equiv> htons"

named_theorems byte_simps

lemma lo8_le16 [simp, byte_simps]: "lo8 (le16 l h) = l"
  by (rule bit_word_eqI) (auto simp: lo8_def le16_def bit_simps)

lemma hi8_le16 [simp, byte_simps]: "hi8 (le16 l h) = h"
  by (rule bit_word_eqI) (auto simp: hi8_def le16_def bit_simps dest: bit_imp_le_length)

lemma le16_lo8_hi8 [simp, byte_simps]: "le16 (lo8 w) (hi8 w) = w"
  by (rule bit_word_eqI) (auto simp: lo8_def hi8_def le16_def bit_simps)

lemma le16_inject [simp]: "le16 a b = le16 c d \<longleftrightarrow> a = c \<and> b = d"
  by (metis hi8_le16 lo8_le16)

lemma htons_le16 [simp, byte_simps]: "htons (le16 l h) = le16 h l"
  by (rule bit_word_eqI) (auto simp: htons_def le16_def bit_simps dest: bit_imp_le_length)

lemma htons_htons [simp, byte_simps]: "htons (htons x) = x"
  by (metis htons_le16 le16_lo8_hi8)

lemma lo8_htons [simp, byte_simps]: "lo8 (htons x) = hi8 x"
  by (metis htons_le16 le16_lo8_hi8 lo8_le16)

lemma hi8_htons [simp, byte_simps]: "hi8 (htons x) = lo8 x"
  by (metis htons_le16 le16_lo8_hi8 hi8_le16)

lemma unat_le16: "unat (le16 l h) = 256 * unat h + unat l"
proof -
  have "push_bit 8 (ucast h) AND ucast l = (0 :: u16)"
    by (rule bit_word_eqI) (auto simp: bit_simps dest: bit_imp_le_length)
  then have "le16 l h = push_bit 8 (ucast h) + ucast l"
    by (simp add: le16_def disjunctive_add_eq_or)
  moreover have "unat h < 256" "unat l < 256"
    using unsigned_less [of h] unsigned_less [of l] by simp_all
  ultimately show ?thesis
    by (simp add: unat_word_ariths push_bit_eq_mult unsigned_ucast_eq take_bit_eq_mod)
qed

section \<open>Byte memory\<close>

definition rd :: "mem \<Rightarrow> nat \<Rightarrow> u8 option" where
  "rd m p = (if p < length m then Some (m ! p) else None)"

definition wr :: "mem \<Rightarrow> nat \<Rightarrow> u8 \<Rightarrow> mem option" where
  "wr m p b = (if p < length m then Some (m[p := b]) else None)"

text \<open>\<open>memcpy\<close> and \<open>memset\<close>: a block read and a block write.\<close>

definition rdn :: "mem \<Rightarrow> nat \<Rightarrow> nat \<Rightarrow> u8 list option" where
  "rdn m p n = (if p + n \<le> length m then Some (take n (drop p m)) else None)"

definition put :: "mem \<Rightarrow> nat \<Rightarrow> u8 list \<Rightarrow> mem" where
  "put m p bs = take p m @ bs @ drop (p + length bs) m"

definition wrn :: "mem \<Rightarrow> nat \<Rightarrow> u8 list \<Rightarrow> mem option" where
  "wrn m p bs = (if p + length bs \<le> length m then Some (put m p bs) else None)"

text \<open>The chunk \<open>bs\<close> lies at offset \<open>p\<close>.\<close>

definition has_at :: "mem \<Rightarrow> nat \<Rightarrow> u8 list \<Rightarrow> bool" where
  "has_at m p bs \<longleftrightarrow> p + length bs \<le> length m \<and> take (length bs) (drop p m) = bs"

named_theorems mem_simps

lemma length_put [simp]: "p + length bs \<le> length m \<Longrightarrow> length (put m p bs) = length m"
  by (simp add: put_def)

lemma rd_Some [mem_simps]: "p < length m \<Longrightarrow> rd m p = Some (m ! p)"
  by (simp add: rd_def)

lemma wr_Some [mem_simps]: "p < length m \<Longrightarrow> wr m p b = Some (m[p := b])"
  by (simp add: wr_def)

lemma rdn_Some [mem_simps]: "p + n \<le> length m \<Longrightarrow> rdn m p n = Some (take n (drop p m))"
  by (simp add: rdn_def)

lemma wrn_Some [mem_simps]: "p + length bs \<le> length m \<Longrightarrow> wrn m p bs = Some (put m p bs)"
  by (simp add: wrn_def)

lemma wr_SomeD: "wr m p b = Some m' \<Longrightarrow> p < length m \<and> m' = m[p := b]"
  by (auto simp: wr_def split: if_splits)

lemma wrn_SomeD: "wrn m p bs = Some m' \<Longrightarrow> p + length bs \<le> length m \<and> m' = put m p bs"
  by (auto simp: wrn_def split: if_splits)

lemma put_Nil [simp]: "put m p [] = m"
  by (simp add: put_def)

lemma put_single: "p < length m \<Longrightarrow> put m p [b] = m[p := b]"
  by (simp add: put_def upd_conv_take_nth_drop)

lemma put_nth: "p + length bs \<le> length m \<Longrightarrow>
    put m p bs ! i = (if p \<le> i \<and> i < p + length bs then bs ! (i - p) else m ! i)"
  by (auto simp: put_def nth_append not_less)

lemma put_Cons: "p + length (b # bs) \<le> length m \<Longrightarrow> put m p (b # bs) = put (m[p := b]) (Suc p) bs"
  by (rule nth_equalityI) (auto simp: put_nth nth_list_update nth_Cons' not_less)

lemma put_put: "p + length xs + length ys \<le> length m \<Longrightarrow>
    put (put m p xs) (p + length xs) ys = put m p (xs @ ys)"
  by (rule nth_equalityI) (auto simp: put_nth nth_append)

lemma put_update_below: "d < p \<Longrightarrow> p + length xs \<le> length m \<Longrightarrow>
    (put m p xs)[d := v] = put (m[d := v]) p xs"
  by (rule nth_equalityI) (auto simp: put_nth nth_list_update)

lemma has_at_put [simp]: "p + length bs \<le> length m \<Longrightarrow> has_at (put m p bs) p bs"
  by (simp add: has_at_def put_def)

lemma has_at_nth: "has_at m p bs \<Longrightarrow> i < length bs \<Longrightarrow> m ! (p + i) = bs ! i"
  by (metis (no_types, lifting) add_leD1 has_at_def nth_drop nth_take)

lemma has_at_len: "has_at m p bs \<Longrightarrow> p + length bs \<le> length m"
  by (simp add: has_at_def)

lemma has_at_append: "has_at m p (xs @ ys) \<longleftrightarrow> has_at m p xs \<and> has_at m (p + length xs) ys"
proof -
  have "take (length xs + length ys) (drop p m) =
      take (length xs) (drop p m) @ take (length ys) (drop (p + length xs) m)"
    by (simp add: take_add add.commute)
  moreover have "p + (length xs + length ys) \<le> length m \<Longrightarrow> length (take (length xs) (drop p m)) = length xs"
    by simp
  ultimately show ?thesis
    unfolding has_at_def by (auto simp: add.assoc)
qed

lemma has_at_Nil [simp]: "has_at m p [] \<longleftrightarrow> p \<le> length m"
  by (simp add: has_at_def)

lemma has_at_Cons: "has_at m p (x # xs) \<longleftrightarrow> p < length m \<and> m ! p = x \<and> has_at m (Suc p) xs"
  using has_at_append [of m p "[x]" xs] by (auto simp: has_at_def take_Suc_conv_app_nth)

lemma rdn_has_at: "has_at m p bs \<Longrightarrow> rdn m p (length bs) = Some bs"
  by (simp add: has_at_def rdn_def)

lemma rd_has_at: "has_at m p (x # xs) \<Longrightarrow> rd m p = Some x"
  by (simp add: has_at_Cons rd_def)

lemma has_at_put_below: "has_at m q ys \<Longrightarrow> p + length xs \<le> q \<Longrightarrow> has_at (put m p xs) q ys"
  by (auto simp: has_at_def put_def)

lemma rdn_put: "p + length bs \<le> length m \<Longrightarrow> k + n \<le> length bs \<Longrightarrow>
    rdn (put m p bs) (p + k) n = Some (take n (drop k bs))"
  by (auto simp: rdn_def put_def)

lemma put_append:
  assumes "p + length as \<le> length xs" "length bs \<le> length ys" "bs = [] \<or> p + length as = length xs"
  shows "put (xs @ ys) p (as @ bs) = put xs p as @ put ys 0 bs"
proof (rule nth_equalityI)
  have len: "p + length (as @ bs) \<le> length (xs @ ys)" using assms by auto
  show "length (put (xs @ ys) p (as @ bs)) = length (put xs p as @ put ys 0 bs)"
    using assms len by simp
  fix i
  show "put (xs @ ys) p (as @ bs) ! i = (put xs p as @ put ys 0 bs) ! i"
    using assms len by (auto simp: put_nth nth_append)
qed

lemma take_put: "p + length bs \<le> n \<Longrightarrow> n \<le> length m \<Longrightarrow> take n (put m p bs) = put (take n m) p bs"
  by (rule nth_equalityI) (auto simp: put_nth)

text \<open>A halfword at an offset, in host (little-endian) order.\<close>

definition rd16 :: "mem \<Rightarrow> nat \<Rightarrow> u16 option" where
  "rd16 m p = do { l \<leftarrow> rd m p; h \<leftarrow> rd m (p + 1); Some (le16 l h) }"

definition wr16 :: "mem \<Rightarrow> nat \<Rightarrow> u16 \<Rightarrow> mem option" where
  "wr16 m p w = wrn m p [lo8 w, hi8 w]"

lemma rd16_Some: "p + 1 < length m \<Longrightarrow> rd16 m p = Some (le16 (m ! p) (m ! (p + 1)))"
  by (simp add: rd16_def rd_def)

lemma wr16_Some: "p + 1 < length m \<Longrightarrow> wr16 m p w = Some (m[p := lo8 w, p + 1 := hi8 w])"
  by (simp add: wr16_def wrn_def put_Cons put_single)

lemma rd16_wr16: "wr16 m p w = Some m' \<Longrightarrow> rd16 m' p = Some w"
  by (auto simp: wr16_def rd16_def rd_def wrn_def put_nth split: if_splits)


text \<open>A write that falls inside a chunk just written is a write to the chunk.\<close>

lemma put_inside: "k + length ys \<le> length xs \<Longrightarrow> p + length xs \<le> length m \<Longrightarrow>
    put (put m p xs) (p + k) ys = put m p (put xs k ys)"
  by (rule nth_equalityI) (auto simp: put_nth)

lemma wrn_inside: "k + length ys \<le> length xs \<Longrightarrow> p + length xs \<le> length m \<Longrightarrow>
    wrn (put m p xs) (p + k) ys = Some (put m p (put xs k ys))"
  by (simp add: wrn_def put_inside)

lemma wr_inside: "k < length xs \<Longrightarrow> p + length xs \<le> length m \<Longrightarrow>
    wr (put m p xs) (p + k) b = Some (put m p (xs[k := b]))"
  using put_inside [of k "[b]" xs p m] by (simp add: wr_def put_single)

lemma wr16_inside: "k + 2 \<le> length xs \<Longrightarrow> p + length xs \<le> length m \<Longrightarrow>
    wr16 (put m p xs) (p + k) w = Some (put m p (put xs k [lo8 w, hi8 w]))"
  by (simp add: wr16_def wrn_inside)

lemma rd_inside: "k < length xs \<Longrightarrow> p + length xs \<le> length m \<Longrightarrow> rd (put m p xs) (p + k) = Some (xs ! k)"
  by (simp add: rd_def put_nth)

lemma rdn_inside: "p + length xs \<le> length m \<Longrightarrow> rdn (put m p xs) p (length xs) = Some xs"
  by (simp add: rdn_def put_def)

lemma put_over: "length xs = length ys \<Longrightarrow> p + length xs \<le> length m \<Longrightarrow> put (put m p xs) p ys = put m p ys"
  by (rule nth_equalityI) (auto simp: put_nth)

lemma le16_eq_0 [simp]: "le16 l h = 0 \<longleftrightarrow> l = 0 \<and> h = 0"
proof
  assume "le16 l h = 0"
  then have "lo8 (le16 l h) = 0" "hi8 (le16 l h) = 0" by (simp_all only: lo8_def hi8_def) simp_all
  then show "l = 0 \<and> h = 0" by simp
qed (simp add: le16_def)


lemma put_self: "p + n \<le> length m \<Longrightarrow> put m p (take n (drop p m)) = m"
  by (rule nth_equalityI) (auto simp: put_nth)

end
