(* ===== verification/Iovec.thy ===== *)
theory Iovec
  imports Backip_Prelude
begin

text \<open>
  The scatter lists of \<open>support/sdk/c/blip/lib6lowpan/iovec.c\<close>: a packet's payload is a
  linked list of \<open>struct ip_iovec\<close>, here the list of its blocks.  Each block carries the
  memory its \<open>iov_base\<close> points to and the length \<open>iov_len\<close> the list claims for it.
  The lemmas show that reading and updating through the list is reading and updating the
  concatenation of the blocks.
\<close>

section \<open>Blocks\<close>

record ip_iovec =
  iov_base :: mem
  iov_len :: nat

text \<open>The first loop of \<open>iov_read\<close>: skip whole blocks before \<open>offset\<close>.  The C test
  compares the \<open>size_t\<close> sum with the \<open>int\<close> offset, so a negative offset counts as
  larger than every sum.\<close>

fun iov_seek :: "ip_iovec list \<Rightarrow> int \<Rightarrow> int \<Rightarrow> ip_iovec list \<times> int" where
  "iov_seek [] offset cur = ([], cur)"
| "iov_seek (v # vs) offset cur =
     (if offset < 0 \<or> cur + int (iov_len v) \<le> offset
      then iov_seek vs offset (cur + int (iov_len v)) else (v # vs, cur))"

text \<open>The second loop: copy from each block what it still has of the range.\<close>

fun iov_copy :: "ip_iovec list \<Rightarrow> int \<Rightarrow> int \<Rightarrow> int \<Rightarrow> u8 list option" where
  "iov_copy [] offset len cur = Some []"
| "iov_copy (v # vs) offset len cur =
     (if len > 0 then
        let start = offset - cur;
            len_here = min (int (iov_len v) - start) len
        in do {
          bs \<leftarrow> rdn (iov_base v) (nat start) (nat len_here);
          rest \<leftarrow> iov_copy vs (offset + len_here) (len - len_here) (cur + (start + len_here));
          Some (bs @ rest) }
      else Some [])"

text \<open>The bytes that \<open>iov_read\<close> stores at \<open>buf\<close>; their number is its return value.\<close>

definition iov_read :: "ip_iovec list \<Rightarrow> int \<Rightarrow> int \<Rightarrow> u8 list option" where
  "iov_read iov offset len =
     (case iov_seek iov offset 0 of (vs, cur) \<Rightarrow> iov_copy vs offset len cur)"

text \<open>The \<open>iov_len\<close> function of the source (the name is taken by the field).\<close>

fun iov_length :: "ip_iovec list \<Rightarrow> nat" where
  "iov_length [] = 0"
| "iov_length (v # vs) = iov_len v + iov_length vs"

definition iov_prefix :: "ip_iovec list \<Rightarrow> mem \<Rightarrow> nat \<Rightarrow> ip_iovec list" where
  "iov_prefix iov buf len = \<lparr>iov_base = buf, iov_len = len\<rparr> # iov"

text \<open>\<open>iov_update\<close>: find the first block that holds \<open>offset\<close> (running off the list is a
  null dereference), then write block by block.  The C variable \<open>written\<close> is compared and
  returned but never advanced.\<close>

fun iov_write :: "ip_iovec list \<Rightarrow> nat \<Rightarrow> nat \<Rightarrow> u8 list \<Rightarrow> ip_iovec list option" where
  "iov_write [] offset len buf = Some []"
| "iov_write (v # vs) offset len buf =
     (if 0 < len then
        let writelen = min (iov_len v - offset) len in do {
          bs \<leftarrow> rdn buf 0 writelen;
          base \<leftarrow> wrn (iov_base v) offset bs;
          vs' \<leftarrow> iov_write vs 0 (len - writelen) (drop writelen buf);
          Some (v\<lparr>iov_base := base\<rparr> # vs') }
      else Some (v # vs))"

fun iov_update :: "ip_iovec list \<Rightarrow> nat \<Rightarrow> nat \<Rightarrow> u8 list \<Rightarrow> (ip_iovec list \<times> int) option" where
  "iov_update [] offset len buf = None"
| "iov_update (v # vs) offset len buf =
     (if iov_len v \<le> offset
      then map_option (\<lambda>(vs', r). (v # vs', r)) (iov_update vs (offset - iov_len v) len buf)
      else map_option (\<lambda>vs'. (vs', 0)) (iov_write (v # vs) offset len buf))"

section \<open>The byte string a list stands for\<close>

definition iov_wf :: "ip_iovec list \<Rightarrow> bool" where
  "iov_wf iov \<longleftrightarrow> (\<forall>v \<in> set iov. iov_len v \<le> length (iov_base v))"

definition iov_flat :: "ip_iovec list \<Rightarrow> u8 list" where
  "iov_flat iov = concat (map (\<lambda>v. take (iov_len v) (iov_base v)) iov)"

lemma iov_wf_simps [simp]:
  "iov_wf []"
  "iov_wf (v # vs) \<longleftrightarrow> iov_len v \<le> length (iov_base v) \<and> iov_wf vs"
  by (auto simp: iov_wf_def)

lemma iov_flat_simps [simp]:
  "iov_flat [] = []"
  "iov_flat (v # vs) = take (iov_len v) (iov_base v) @ iov_flat vs"
  by (auto simp: iov_flat_def)

lemma length_iov_flat: "iov_wf iov \<Longrightarrow> length (iov_flat iov) = iov_length iov"
  by (induction iov) auto

lemma iov_copy_next:
  "iov_wf iov \<Longrightarrow> 0 \<le> len \<Longrightarrow> iov_copy iov cur len cur = Some (take (nat len) (iov_flat iov))"
proof (induction iov arbitrary: len cur)
  case (Cons v vs)
  show ?case
  proof (cases "0 < len")
    case True
    define n where "n = min (iov_len v) (nat len)"
    have n: "min (int (iov_len v)) len = int n" using True by (auto simp: n_def min_def)
    have "int n \<le> len" using True by (simp add: n_def)
    then have IH: "iov_copy vs (cur + int n) (len - int n) (cur + int n) =
        Some (take (nat (len - int n)) (iov_flat vs))"
      using Cons by (intro Cons.IH) auto
    have "take (nat len) (take (iov_len v) (iov_base v) @ iov_flat vs) =
        take n (iov_base v) @ take (nat (len - int n)) (iov_flat vs)"
    proof (cases "iov_len v \<le> nat len")
      case True
      then have "n = iov_len v" "nat (len - int n) = nat len - iov_len v" by (auto simp: n_def)
      with True Cons.prems show ?thesis by simp
    next
      case False
      then have "n = nat len" "nat (len - int n) = 0" using \<open>0 < len\<close> by (auto simp: n_def)
      with False Cons.prems show ?thesis by simp
    qed
    moreover have "n \<le> length (iov_base v)" using Cons.prems by (auto simp: n_def)
    ultimately show ?thesis using True n IH
      by (simp add: Let_def rdn_def del: min_less_iff_disj min_le_iff_disj)
  next
    case False
    with Cons.prems show ?thesis by simp
  qed
qed simp

lemma iov_seek_copy:
  "iov_wf iov \<Longrightarrow> 0 \<le> cur \<Longrightarrow> cur \<le> offset \<Longrightarrow> 0 \<le> len \<Longrightarrow>
   (case iov_seek iov offset cur of (vs, c) \<Rightarrow> iov_copy vs offset len c) =
     Some (take (nat len) (drop (nat (offset - cur)) (iov_flat iov)))"
proof (induction iov arbitrary: cur)
  case (Cons v vs)
  show ?case
  proof (cases "cur + int (iov_len v) \<le> offset")
    case True
    then have "nat (offset - cur) = iov_len v + nat (offset - (cur + int (iov_len v)))"
      by simp
    with True Cons show ?thesis by (simp add: Cons.IH)
  next
    case False
    define s where "s = nat (offset - cur)"
    have s: "offset = cur + int s" "s < iov_len v" using False Cons.prems by (auto simp: s_def)
    let ?w = "v\<lparr>iov_base := drop s (iov_base v), iov_len := iov_len v - s\<rparr>"
    have "iov_copy (v # vs) offset len cur = iov_copy (?w # vs) offset len offset"
      using Cons.prems s by (auto simp: Let_def rdn_def algebra_simps)
    also have "\<dots> = Some (take (nat len) (iov_flat (?w # vs)))"
      using Cons.prems by (intro iov_copy_next) auto
    also have "iov_flat (?w # vs) = drop s (iov_flat (v # vs))"
      using s Cons.prems by (simp add: drop_take)
    finally show ?thesis using False Cons.prems by (simp add: s_def del: iov_copy.simps)
  qed
qed simp

lemma iov_read_flat:
  assumes "iov_wf iov" "0 \<le> offset" "0 \<le> len"
  shows "iov_read iov offset len = Some (take (nat len) (drop (nat offset) (iov_flat iov)))"
  using iov_seek_copy [of iov 0 offset len] assms by (simp add: iov_read_def)

lemma iov_write_flat:
  assumes "iov_wf iov" "len \<le> length buf" "offset + len \<le> iov_length iov"
    "\<And>v. iov \<noteq> [] \<Longrightarrow> offset \<le> iov_len (hd iov)"
  shows "\<exists>iov'. iov_write iov offset len buf = Some iov' \<and> iov_wf iov' \<and>
    map iov_len iov' = map iov_len iov \<and> iov_flat iov' = put (iov_flat iov) offset (take len buf)"
  using assms
proof (induction iov arbitrary: offset len buf)
  case Nil
  then show ?case by simp
next
  case (Cons v vs)
  show ?case
  proof (cases "0 < len")
    case False
    with Cons.prems show ?thesis by simp
  next
    case True
    define w where "w = min (iov_len v - offset) len"
    have w: "w \<le> len" "w \<le> length buf" "offset + w \<le> iov_len v"
      using Cons.prems(2) Cons.prems(4) by (auto simp: w_def)
    have cut: "take len buf = take w buf @ take (len - w) (drop w buf)"
      using w by (metis le_add_diff_inverse take_add)
    have le: "len - w \<le> iov_length vs"
      using Cons.prems by (auto simp: w_def)
    have part: "take (len - w) (drop w buf) = [] \<or> offset + length (take w buf) = iov_len v"
      using w by (auto simp: w_def)
    have "\<exists>vs'. iov_write vs 0 (len - w) (drop w buf) = Some vs' \<and> iov_wf vs' \<and>
        map iov_len vs' = map iov_len vs \<and> iov_flat vs' = put (iov_flat vs) 0 (take (len - w) (drop w buf))"
      by (rule Cons.IH) (use Cons.prems w le in auto)
    then obtain vs' where vs': "iov_write vs 0 (len - w) (drop w buf) = Some vs'" "iov_wf vs'"
        "map iov_len vs' = map iov_len vs" "iov_flat vs' = put (iov_flat vs) 0 (take (len - w) (drop w buf))"
      by blast
    let ?b = "put (iov_base v) offset (take w buf)"
    have fit: "offset + length (take w buf) \<le> length (iov_base v)"
      using w Cons.prems by simp
    have "iov_write (v # vs) offset len buf = Some (v\<lparr>iov_base := ?b\<rparr> # vs')"
      using True fit vs' w by (simp add: w_def [symmetric] Let_def rdn_def wrn_def)
    moreover have "take (iov_len v) ?b @ iov_flat vs' = put (iov_flat (v # vs)) offset (take len buf)"
      using w Cons.prems part le length_iov_flat [of vs] unfolding cut vs'(4)
      by (subst take_put) (auto simp: put_append)
    ultimately show ?thesis using vs' fit Cons.prems by auto
  qed
qed

lemma iov_update_flat:
  assumes "iov_wf iov" "len \<le> length buf" "offset + len \<le> iov_length iov" "offset < iov_length iov"
  shows "\<exists>iov'. iov_update iov offset len buf = Some (iov', 0) \<and> iov_wf iov' \<and>
    map iov_len iov' = map iov_len iov \<and> iov_flat iov' = put (iov_flat iov) offset (take len buf)"
  using assms
proof (induction iov arbitrary: offset)
  case (Cons v vs)
  show ?case
  proof (cases "iov_len v \<le> offset")
    case True
    let ?o = "offset - iov_len v"
    have "\<exists>vs'. iov_update vs ?o len buf = Some (vs', 0) \<and> iov_wf vs' \<and>
        map iov_len vs' = map iov_len vs \<and> iov_flat vs' = put (iov_flat vs) ?o (take len buf)"
      by (rule Cons.IH) (use Cons.prems True in auto)
    then obtain vs' where vs': "iov_update vs ?o len buf = Some (vs', 0)" "iov_wf vs'"
        "map iov_len vs' = map iov_len vs" "iov_flat vs' = put (iov_flat vs) ?o (take len buf)"
      by blast
    have "put (take (iov_len v) (iov_base v) @ iov_flat vs) offset (take len buf) =
        take (iov_len v) (iov_base v) @ put (iov_flat vs) ?o (take len buf)"
      using True Cons.prems by (simp add: put_def)
    with vs' True Cons.prems show ?thesis by simp
  next
    case False
    then obtain vs' where "iov_write (v # vs) offset len buf = Some vs'" "iov_wf vs'"
        "map iov_len vs' = map iov_len (v # vs)" "iov_flat vs' = put (iov_flat (v # vs)) offset (take len buf)"
      using iov_write_flat [of "v # vs" len buf offset] Cons.prems by auto
    with False show ?thesis by (simp del: iov_write.simps iov_flat_simps)
  qed
qed simp


section \<open>Properties\<close>

text \<open>\<open>iov_read\<close> returns the requested slice of the concatenation, cut at its end, and
  stays inside every block.\<close>

theorem iov_read_slice:
  assumes "iov_wf iov" "0 \<le> offset" "0 \<le> len"
  shows "iov_read iov offset len = Some (take (nat len) (drop (nat offset) (iov_flat iov)))"
  by (rule iov_read_flat [OF assms])

lemma iov_read_slice_witness:
  "iov_read [\<lparr>iov_base = [1, 2, 3], iov_len = 2\<rparr>, \<lparr>iov_base = [4, 5], iov_len = 2\<rparr>] 1 2 = Some [2, 4]"
  using iov_read_slice [of "[\<lparr>iov_base = [1, 2, 3], iov_len = 2\<rparr>, \<lparr>iov_base = [4, 5], iov_len = 2\<rparr>]" 1 2]
  by simp

text \<open>Writing a range with \<open>iov_update\<close> and reading it back gives the bytes written; every
  byte outside the range, and every block length, is unchanged.  The return value is zero
  whatever was written.\<close>

theorem iov_update_read:
  assumes "iov_wf iov" "len \<le> length buf" "offset + len \<le> iov_length iov" "offset < iov_length iov"
  shows "\<exists>iov'. iov_update iov offset len buf = Some (iov', 0) \<and>
    iov_read iov' (int offset) (int len) = Some (take len buf) \<and>
    map iov_len iov' = map iov_len iov \<and>
    (\<forall>i < iov_length iov. i < offset \<or> offset + len \<le> i \<longrightarrow> iov_flat iov' ! i = iov_flat iov ! i)"
proof -
  obtain iov' where u: "iov_update iov offset len buf = Some (iov', 0)" "iov_wf iov'"
    "map iov_len iov' = map iov_len iov" "iov_flat iov' = put (iov_flat iov) offset (take len buf)"
    using iov_update_flat [OF assms] by blast
  have l: "offset + length (take len buf) \<le> length (iov_flat iov)"
    using assms by (simp add: length_iov_flat)
  have "take len (drop offset (put (iov_flat iov) offset (take len buf))) = take len buf"
    using has_at_put [OF l] assms(2) by (simp add: has_at_def)
  then have "iov_read iov' (int offset) (int len) = Some (take len buf)"
    using iov_read_flat [OF u(2), of "int offset" "int len"] by (simp add: u(4))
  with u assms l show ?thesis by (intro exI [of _ iov']) (auto simp: put_nth)
qed

lemma iov_update_read_witness:
  "\<exists>iov'. iov_update [\<lparr>iov_base = [1, 2, 3], iov_len = 2\<rparr>, \<lparr>iov_base = [4, 5], iov_len = 2\<rparr>] 1 2 [8, 9] = Some (iov', 0) \<and>
    iov_read iov' 1 2 = Some [8, 9]"
  using iov_update_read [of "[\<lparr>iov_base = [1, 2, 3], iov_len = 2\<rparr>, \<lparr>iov_base = [4, 5], iov_len = 2\<rparr>]" 2 "[8, 9]" 1]
  by (auto simp: nth_Cons' simp del: iov_update.simps)

end
