(* ===== verification/Ip6.thy ===== *)
theory Ip6
  imports Iovec
begin

text \<open>
  The packet types of \<open>ip.h\<close>: IPv6 addresses, the 40-byte header, packets, and the
  protocol numbers.  A \<open>struct in6_addr\<close> is its sixteen bytes; the union members
  \<open>s6_addr\<close> and \<open>s6_addr16\<close> are a byte and a little-endian halfword of them.
  The multi-byte fields of the header hold the halfword or word as the code loads it, that is
  network data read in host order.
\<close>

section \<open>Protocol numbers\<close>

definition IPV6_VERSION :: u8 where "IPV6_VERSION = 0x60"
definition IPV6_VERSION_MASK :: u8 where "IPV6_VERSION_MASK = 0xf0"
definition IANA_ICMP :: u8 where "IANA_ICMP = 58"
definition IANA_UDP :: u8 where "IANA_UDP = 17"
definition IANA_TCP :: u8 where "IANA_TCP = 6"
definition IPV6_HOP :: u8 where "IPV6_HOP = 0"
definition IPV6_IPV6 :: u8 where "IPV6_IPV6 = 41"
definition IPV6_ROUTING :: u8 where "IPV6_ROUTING = 43"
definition IPV6_FRAG :: u8 where "IPV6_FRAG = 44"
definition IPV6_DEST :: u8 where "IPV6_DEST = 60"
definition IPV6_MOBILITY :: u8 where "IPV6_MOBILITY = 135"
definition IPV6_TLV_PAD1 :: u8 where "IPV6_TLV_PAD1 = 0"
definition IPV6_TLV_PADN :: u8 where "IPV6_TLV_PADN = 1"

lemmas proto_defs = IPV6_VERSION_def IPV6_VERSION_MASK_def IANA_ICMP_def IANA_UDP_def IANA_TCP_def
  IPV6_HOP_def IPV6_IPV6_def IPV6_ROUTING_def IPV6_FRAG_def IPV6_DEST_def IPV6_MOBILITY_def
  IPV6_TLV_PAD1_def IPV6_TLV_PADN_def

section \<open>Words of 32 bits\<close>

definition le32 :: "u8 \<Rightarrow> u8 \<Rightarrow> u8 \<Rightarrow> u8 \<Rightarrow> u32" where
  "le32 a b c d = push_bit 16 (ucast (le16 c d)) OR ucast (le16 a b)"

definition byte32 :: "u32 \<Rightarrow> nat \<Rightarrow> u8" where
  "byte32 w i = ucast (drop_bit (8 * i) w)"

definition bytes32 :: "u32 \<Rightarrow> u8 list" where
  "bytes32 w = [byte32 w 0, byte32 w 1, byte32 w 2, byte32 w 3]"

text \<open>\<open>ntohl\<close> of \<open>utility.c\<close>; \<open>htonl\<close> is the same macro.\<close>

definition ntohl :: "u32 \<Rightarrow> u32" where
  "ntohl i =
     (let lo = ucast i :: u16;
          hi = ucast (drop_bit 16 i) :: u16;
          lo = push_bit 8 lo OR drop_bit 8 lo;
          hi = push_bit 8 hi OR drop_bit 8 hi
      in push_bit 16 (ucast lo) OR ucast hi)"

abbreviation htonl :: "u32 \<Rightarrow> u32" where
  "htonl \<equiv> ntohl"

lemma length_bytes32 [simp]: "length (bytes32 w) = 4"
  by (simp add: bytes32_def)

lemma byte32_le32 [simp, byte_simps]:
  "byte32 (le32 a b c d) 0 = a" "byte32 (le32 a b c d) (Suc 0) = b"
  "byte32 (le32 a b c d) 2 = c" "byte32 (le32 a b c d) 3 = d"
  by (rule bit_word_eqI;
      auto simp: byte32_def le32_def le16_def bit_simps dest: bit_imp_le_length)+

lemma le32_halves: "push_bit 16 (ucast (ucast (drop_bit 16 w) :: u16)) OR ucast (ucast w :: u16) = (w :: u32)"
proof (rule bit_word_eqI)
  fix n assume "n < LENGTH(32)"
  then show "bit (push_bit 16 (ucast (ucast (drop_bit 16 w) :: u16)) OR ucast (ucast w :: u16) :: u32) n = bit w n"
    by (cases "n < 16") (auto simp: bit_simps)
qed

lemma le32_byte32: "le32 (byte32 w 0) (byte32 w 1) (byte32 w 2) (byte32 w 3) = w"
proof -
  have "byte32 w 0 = lo8 (ucast w)" "byte32 w 1 = hi8 (ucast w)"
      "byte32 w 2 = lo8 (ucast (drop_bit 16 w))" "byte32 w 3 = hi8 (ucast (drop_bit 16 w))"
    by (rule bit_word_eqI; simp add: byte32_def lo8_def hi8_def bit_simps)+
  then show ?thesis by (simp add: le32_def le32_halves)
qed

lemma ntohl_le32 [simp, byte_simps]: "ntohl (le32 a b c d) = le32 d c b a"
proof -
  have "ucast (le32 a b c d) = le16 a b" "ucast (drop_bit 16 (le32 a b c d)) = le16 c d"
    by (rule bit_word_eqI; auto simp: le32_def bit_simps dest: bit_imp_le_length)+
  then show ?thesis
    by (simp add: ntohl_def Let_def le32_def flip: htons_def)
qed

lemma ntohl_ntohl [simp, byte_simps]: "ntohl (ntohl w) = w"
  by (metis le32_byte32 ntohl_le32)

lemma bytes32_le32 [simp]: "bytes32 (le32 a b c d) = [a, b, c, d]"
  by (simp add: bytes32_def)

lemma byte32_ntohl: "bytes32 (ntohl w) = rev (bytes32 w)"
  by (metis bytes32_le32 le32_byte32 ntohl_le32 rev.simps append.simps)

lemma ucast_u8_le32: "ucast (b :: u8) = le32 b 0 0 0"
  by (rule bit_word_eqI) (auto simp: le32_def le16_def bit_simps dest: bit_imp_le_length)

section \<open>Addresses, headers, packets\<close>

type_synonym in6_addr = "u8 list"

definition s6_addr16 :: "in6_addr \<Rightarrow> nat \<Rightarrow> u16" where
  "s6_addr16 a k = le16 (a ! (2 * k)) (a ! (2 * k + 1))"

record ip6_hdr =
  ip6_flow :: u32
  ip6_plen :: u16
  ip6_nxt :: u8
  ip6_hlim :: u8
  ip6_src :: in6_addr
  ip6_dst :: in6_addr

text \<open>The union member \<open>ip6_vfc\<close> is the first byte of the header.\<close>

definition ip6_vfc :: "ip6_hdr \<Rightarrow> u8" where
  "ip6_vfc h = byte32 (ip6_flow h) 0"

record ip6_packet =
  ip6_inputif :: int
  ip6_data :: "ip_iovec list"
  ip6_hdr :: ip6_hdr

definition addr_ok :: "in6_addr \<Rightarrow> bool" where
  "addr_ok a \<longleftrightarrow> length a = 16"

definition hdr_ok :: "ip6_hdr \<Rightarrow> bool" where
  "hdr_ok h \<longleftrightarrow> addr_ok (ip6_src h) \<and> addr_ok (ip6_dst h)"

text \<open>The packed layout of \<open>struct ip6_hdr\<close> in memory (40 bytes).\<close>

definition ip6_hdr_bytes :: "ip6_hdr \<Rightarrow> u8 list" where
  "ip6_hdr_bytes h = bytes32 (ip6_flow h) @ [lo8 (ip6_plen h), hi8 (ip6_plen h), ip6_nxt h, ip6_hlim h]
     @ ip6_src h @ ip6_dst h"

definition SIZEOF_IP6_HDR :: nat where "SIZEOF_IP6_HDR = 40"

lemma length_ip6_hdr_bytes: "hdr_ok h \<Longrightarrow> length (ip6_hdr_bytes h) = SIZEOF_IP6_HDR"
  by (simp add: hdr_ok_def addr_ok_def ip6_hdr_bytes_def SIZEOF_IP6_HDR_def)

text \<open>Case split of a list whose length is a small numeral.\<close>

lemma length_Suc_ex: "length xs = Suc n \<longleftrightarrow> (\<exists>y ys. xs = y # ys \<and> length ys = n)"
  by (simp add: length_Suc_conv)

lemma addr_cases:
  assumes "addr_ok a"
  obtains a0 a1 a2 a3 a4 a5 a6 a7 a8 a9 a10 a11 a12 a13 a14 a15
  where "a = [a0, a1, a2, a3, a4, a5, a6, a7, a8, a9, a10, a11, a12, a13, a14, a15]"
  using assms unfolding addr_ok_def
  by (auto simp: length_Suc_ex eval_nat_numeral)

end
