(* ===== verification/Cksum.thy ===== *)
theory Cksum
  imports Ip6
begin

text \<open>
  The Internet checksum of \<open>in_cksum.c\<close> (the branch the file compiles) and the
  pseudo-header checksum \<open>msg_cksum\<close>.  The reference is the one's-complement sum of the
  concatenated bytes taken as big-endian halfwords; the lemmas show when the block-by-block
  routine computes it, and that a datagram carrying its own checksum verifies.
\<close>

section \<open>The routine\<close>

text \<open>The body of the inner loop: \<open>i\<close> is the index of the next byte in its block of
  length \<open>len\<close>; the state is the pair \<open>sum\<close>, \<open>cur\<close>.  The \<open>goto finish\<close> for a
  trailing odd byte is the first inner branch.\<close>

fun cksum_block :: "u8 list \<Rightarrow> nat \<Rightarrow> nat \<Rightarrow> u32 \<times> u16 \<Rightarrow> u32 \<times> u16" where
  "cksum_block [] i len s = s"
| "cksum_block (b # bs) i len (sm, cur) =
     (if i mod 2 = 0 then
        let cur = cur OR push_bit 8 (ucast b)
        in if i + 1 = len then cksum_block bs (i + 1) len (sm + ucast cur, 0)
           else cksum_block bs (i + 1) len (sm, cur)
      else cksum_block bs (i + 1) len (sm + ucast (cur OR ucast b), 0))"

fun cksum_blocks :: "ip_iovec list \<Rightarrow> u32 \<times> u16 \<Rightarrow> (u32 \<times> u16) option" where
  "cksum_blocks [] s = Some s"
| "cksum_blocks (v # vs) s =
     (if iov_len v = 0 then cksum_blocks vs s
      else do { bs \<leftarrow> rdn (iov_base v) 0 (iov_len v);
                cksum_blocks vs (cksum_block bs 0 (iov_len v) s) })"

lemma unat_fold_step:
  "unat ((x AND 0xffff) + drop_bit 16 (x :: u32)) = unat x mod 65536 + unat x div 65536"
proof -
  have a: "x AND 0xffff = take_bit 16 x"
    by (simp add: take_bit_eq_mask mask_eq_exp_minus_1)
  have l: "unat (take_bit 16 x) = unat x mod 65536" and h: "unat (drop_bit 16 x) = unat x div 65536"
    by (simp_all add: unsigned_take_bit_eq take_bit_eq_mod unsigned_drop_bit_eq drop_bit_eq_div
        unat_mod_distrib unat_div_distrib)
  have "unat x < 2 ^ 32" using unsigned_less [of x] by simp
  then have "unat x mod 65536 + unat x div 65536 < 2 ^ 32" by simp
  then show ?thesis by (simp add: a unat_word_ariths l h)
qed

text \<open>\<open>while (sum > 0xffff) sum = (sum & 0xffff) + (sum >> 16)\<close>\<close>

function cksum_fold :: "u32 \<Rightarrow> u32" where
  "cksum_fold sm = (if sm > 0xffff then cksum_fold ((sm AND 0xffff) + drop_bit 16 sm) else sm)"
  by pat_completeness auto

termination
proof (relation "measure unat")
  fix sm :: u32
  assume "sm > 0xffff"
  then have "unat sm > 65535" by (simp add: word_less_nat_alt)
  then have "unat sm mod 65536 + unat sm div 65536 < unat sm"
    using div_mult_mod_eq [of "unat sm" 65536] by linarith
  then show "((sm AND 0xffff) + drop_bit 16 sm, sm) \<in> measure unat"
    by (simp add: unat_fold_step)
qed simp

declare cksum_fold.simps [simp del]

text \<open>The result is the C expression \<open>~((uint16_t)sum)\<close>: the operand is promoted to
  \<open>int\<close> before the complement, so the value is negative.\<close>

definition in_cksum :: "ip_iovec list \<Rightarrow> int option" where
  "in_cksum vec = do {
     (sm, cur) \<leftarrow> cksum_blocks vec (0, 0);
     Some (NOT (uint (ucast (cksum_fold sm) :: u16))) }"

definition msg_cksum :: "ip6_hdr \<Rightarrow> ip_iovec list \<Rightarrow> u8 \<Rightarrow> u16 option" where
  "msg_cksum iph data nxt_hdr =
     (let hdr = bytes32 (htonl (of_nat (iov_length data))) @ bytes32 (htonl (ucast nxt_hdr));
          cksum_vec = [\<lparr>iov_base = ip6_src iph, iov_len = 16\<rparr>,
                       \<lparr>iov_base = ip6_dst iph, iov_len = 16\<rparr>,
                       \<lparr>iov_base = hdr, iov_len = 8\<rparr>] @ data
      in map_option word_of_int (in_cksum cksum_vec))"

section \<open>The one's-complement sum\<close>

fun be_words :: "u8 list \<Rightarrow> nat list" where
  "be_words [] = []"
| "be_words [b] = [256 * unat b]"
| "be_words (a # b # bs) = (256 * unat a + unat b) # be_words bs"

definition oc_norm :: "nat \<Rightarrow> nat" where
  "oc_norm n = (if n = 0 then 0 else (n - 1) mod 65535 + 1)"

definition inet_sum :: "u8 list \<Rightarrow> nat" where
  "inet_sum bs = oc_norm (sum_list (be_words bs))"

text \<open>Every block but the last has an even length.\<close>

fun even_blocks :: "ip_iovec list \<Rightarrow> bool" where
  "even_blocks [] = True"
| "even_blocks [v] = True"
| "even_blocks (v # vs) = (even (iov_len v) \<and> even_blocks vs)"

lemma oc_norm_less: "oc_norm n \<le> 65535"
  by (auto simp: oc_norm_def intro: Suc_leI)

lemma oc_norm_small: "n \<le> 65535 \<Longrightarrow> oc_norm n = n"
  by (auto simp: oc_norm_def)

lemma oc_norm_shift: "oc_norm (a + 65536 * b) = oc_norm (a + b)"
proof (cases "a + b = 0")
  case False
  then obtain k where k: "a + b = Suc k" by (cases "a + b") auto
  then have "a + 65536 * b = Suc (k + b * 65535)" by simp
  then have "oc_norm (a + 65536 * b) = k mod 65535 + 1"
    by (simp only: oc_norm_def diff_Suc_1 mod_mult_self1 nat.distinct if_False)
  with k show ?thesis by (simp only: oc_norm_def diff_Suc_1 nat.distinct if_False)
qed (simp add: oc_norm_def)

lemma oc_norm_complement: "oc_norm (n + (65535 - oc_norm n)) = 65535"
proof (cases n)
  case (Suc k)
  define q r where "q = k div 65535" and "r = k mod 65535"
  have k: "k = r + q * 65535" and r: "r < 65535" by (simp_all add: q_def r_def)
  have "oc_norm n = Suc r" by (simp add: oc_norm_def Suc r_def)
  then have "n + (65535 - oc_norm n) = Suc (65534 + q * 65535)" using Suc k r by simp
  then show ?thesis by (simp add: oc_norm_def)
qed (simp add: oc_norm_def)

lemma cksum_fold_norm: "unat (cksum_fold s) = oc_norm (unat s)"
proof (induction s rule: cksum_fold.induct)
  case (1 s)
  show ?case
  proof (cases "s > 0xffff")
    case True
    have "oc_norm (unat s) = oc_norm (unat s mod 65536 + 65536 * (unat s div 65536))" by simp
    also have "\<dots> = oc_norm (unat s mod 65536 + unat s div 65536)" by (rule oc_norm_shift)
    finally show ?thesis using "1.IH" [OF True] True
      by (simp add: cksum_fold.simps [of s] unat_fold_step)
  next
    case False
    then have "unat s \<le> 65535" by (simp add: word_less_nat_alt)
    then show ?thesis using False by (simp add: cksum_fold.simps [of s] oc_norm_small)
  qed
qed

lemma ucast_le16: "(ucast (le16 l h) :: u32) = of_nat (256 * unat h + unat l)"
  by (simp only: unat_le16 [symmetric] of_nat_unat)

lemma cksum_block_even:
  "even i \<Longrightarrow> i + length bs = len \<Longrightarrow>
     cksum_block bs i len (s, 0) = (s + of_nat (sum_list (be_words bs)), 0)"
proof (induction bs arbitrary: i s rule: be_words.induct)
  case (2 b)
  have "(ucast (push_bit 8 (ucast b) :: u16) :: u32) = of_nat (256 * unat b)"
    using ucast_le16 [of 0 b] by (simp add: le16_def)
  with 2 show ?case by (simp add: Let_def)
next
  case (3 a b bs)
  have "(ucast (push_bit 8 (ucast a) OR ucast b :: u16) :: u32) = of_nat (256 * unat a + unat b)"
    using ucast_le16 [of b a] by (simp add: le16_def)
  moreover have "Suc i mod 2 \<noteq> 0" using 3 by presburger
  ultimately show ?case using 3 by (simp add: Let_def algebra_simps)
qed simp

lemma be_words_append: "even (length xs) \<Longrightarrow> be_words (xs @ ys) = be_words xs @ be_words ys"
  by (induction xs rule: be_words.induct) auto

lemma cksum_blocks_step:
  "iov_len v \<le> length (iov_base v) \<Longrightarrow> cksum_blocks (v # vs) (s, 0) =
     cksum_blocks vs (s + of_nat (sum_list (be_words (take (iov_len v) (iov_base v)))), 0)"
  by (simp add: rdn_def cksum_block_even)

lemma cksum_blocks_even:
  "iov_wf vec \<Longrightarrow> even_blocks vec \<Longrightarrow>
     cksum_blocks vec (s, 0) = Some (s + of_nat (sum_list (be_words (iov_flat vec))), 0)"
proof (induction vec arbitrary: s rule: even_blocks.induct)
  case (2 v)
  then show ?case by (simp add: rdn_def cksum_block_even)
next
  case (3 v w vs)
  let ?s = "s + of_nat (sum_list (be_words (take (iov_len v) (iov_base v))))"
  have "cksum_blocks (v # w # vs) (s, 0) = cksum_blocks (w # vs) (?s, 0)"
    by (rule cksum_blocks_step) (use 3 in auto)
  also have "\<dots> = Some (?s + of_nat (sum_list (be_words (iov_flat (w # vs)))), 0)"
    by (rule "3.IH") (use 3 in auto)
  finally show ?case
    using 3 by (simp add: iov_flat_simps(2) [of v] be_words_append add.assoc del: iov_flat_simps cksum_blocks.simps)
qed simp

lemma unat_u8_le: "unat (b :: u8) \<le> 255"
  using unsigned_less [of b, where ?'a = nat] by simp

lemma sum_be_words: "sum_list (be_words bs) \<le> 65535 * ((length bs + 1) div 2)"
proof (induction bs rule: be_words.induct)
  case (2 b)
  then show ?case using unat_u8_le [of b] by simp
next
  case (3 a b bs)
  then show ?case using unat_u8_le [of a] unat_u8_le [of b] by simp
qed simp

lemma in_cksum_spec:
  assumes "iov_wf vec" "even_blocks vec" "iov_length vec \<le> 131072"
  shows "in_cksum vec = Some (- int (inet_sum (iov_flat vec)) - 1)"
proof -
  let ?n = "sum_list (be_words (iov_flat vec))"
  have "?n \<le> 65535 * ((iov_length vec + 1) div 2)"
    using sum_be_words length_iov_flat assms(1) by metis
  also have "\<dots> < 2 ^ 32" using assms(3) by simp
  finally have n: "unat (of_nat ?n :: u32) = ?n"
    by (simp add: unsigned_of_nat take_bit_nat_eq_self)
  have "unat (cksum_fold (of_nat ?n)) = inet_sum (iov_flat vec)"
    by (simp add: cksum_fold_norm n inet_sum_def)
  moreover have "inet_sum (iov_flat vec) < 65536"
    using oc_norm_less [of "sum_list (be_words (iov_flat vec))"] by (simp add: inet_sum_def)
  ultimately have "uint (ucast (cksum_fold (of_nat ?n)) :: u16) = int (inet_sum (iov_flat vec))"
    by (simp add: unsigned_ucast_eq take_bit_eq_mod flip: uint_nat)
      (simp add: uint_nat)
  then show ?thesis
    using cksum_blocks_even [OF assms(1,2), of 0] by (simp add: in_cksum_def not_eq_complement)
qed

section \<open>Carrying and checking a checksum\<close>

lemma be_words_update:
  "even p \<Longrightarrow> Suc p < length bs \<Longrightarrow> bs ! p = 0 \<Longrightarrow> bs ! Suc p = 0 \<Longrightarrow>
     sum_list (be_words (bs[p := hi8 c, Suc p := lo8 c])) = sum_list (be_words bs) + unat c"
proof (induction bs arbitrary: p rule: be_words.induct)
  case (3 a b bs)
  show ?case
  proof (cases p)
    case 0
    have "256 * unat (hi8 c) + unat (lo8 c) = unat c" by (metis le16_lo8_hi8 unat_le16)
    with 0 "3.prems" show ?thesis by simp
  next
    case (Suc q)
    with "3.prems" obtain r where "p = Suc (Suc r)" by (cases q) auto
    with "3.prems" "3.IH" [of r] show ?thesis by simp
  qed
qed auto

lemma even_blocks_len: "map iov_len v = map iov_len w \<Longrightarrow> even_blocks v = even_blocks w"
proof (induction v arbitrary: w rule: even_blocks.induct)
  case (3 a b vs)
  then obtain c d ws where "w = c # d # ws" "iov_len a = iov_len c"
      "map iov_len (b # vs) = map iov_len (d # ws)"
    by (auto simp: Cons_eq_map_conv map_eq_Cons_conv)
  with "3.IH" [of "d # ws"] show ?case by simp
qed (auto simp: map_eq_Cons_conv Cons_eq_map_conv)

lemma iov_length_sum: "iov_length v = sum_list (map iov_len v)"
  by (induction v) auto

lemma iov_length_len: "map iov_len v = map iov_len w \<Longrightarrow> iov_length v = iov_length w"
  by (simp add: iov_length_sum)

lemma put_two: "Suc p < length m \<Longrightarrow> put m p [a, b] = m[p := a, Suc p := b]"
  by (simp add: put_Cons put_single)

lemma cksum_carried:
  assumes wf: "iov_wf vec" "even_blocks vec" "iov_length vec \<le> 131072"
    and p: "even p" "Suc p < iov_length vec"
    and zero: "iov_flat vec ! p = 0" "iov_flat vec ! Suc p = 0"
    and c: "in_cksum vec = Some x" "c = (word_of_int x :: u16)"
  shows "\<exists>vec'. iov_update vec p 2 [hi8 c, lo8 c] = Some (vec', 0) \<and> in_cksum vec' = Some (- 65536)"
proof -
  let ?s = "sum_list (be_words (iov_flat vec))"
  have x: "x = - int (inet_sum (iov_flat vec)) - 1"
    using in_cksum_spec [OF wf] c by simp
  have s: "inet_sum (iov_flat vec) \<le> 65535" by (simp add: inet_sum_def oc_norm_less)
  have "c = word_of_int (int (65535 - inet_sum (iov_flat vec)))"
  proof -
    have "word_of_int (x + 65536) = (word_of_int x :: u16)" by simp
    then show ?thesis using x s c(2) by (simp add: of_nat_diff)
  qed
  then have uc: "unat c = 65535 - inet_sum (iov_flat vec)"
    by (simp add: unsigned_of_nat take_bit_nat_eq_self del: of_nat_diff)
  obtain vec' where v: "iov_update vec p 2 [hi8 c, lo8 c] = Some (vec', 0)" "iov_wf vec'"
      "map iov_len vec' = map iov_len vec" "iov_flat vec' = put (iov_flat vec) p [hi8 c, lo8 c]"
    using iov_update_flat [of vec 2 "[hi8 c, lo8 c]" p] wf p by auto
  have "iov_flat vec' = (iov_flat vec)[p := hi8 c, Suc p := lo8 c]"
    using v(4) p length_iov_flat [OF wf(1)] by (simp add: put_two)
  then have "inet_sum (iov_flat vec') = oc_norm (?s + unat c)"
    using be_words_update [of p "iov_flat vec" c] p zero length_iov_flat [OF wf(1)]
    by (simp add: inet_sum_def)
  also have "\<dots> = 65535" using oc_norm_complement [of ?s] uc by (simp add: inet_sum_def)
  finally have "in_cksum vec' = Some (- 65536)"
    using in_cksum_spec [OF v(2)] even_blocks_len [OF v(3)] iov_length_len [OF v(3)] wf by simp
  with v show ?thesis by blast
qed

lemma msg_cksum_spec:
  assumes "hdr_ok iph" "iov_wf data" "even_blocks data" "iov_length data \<le> 65535"
  shows "msg_cksum iph data nxt =
    Some (of_nat (65535 - inet_sum (ip6_src iph @ ip6_dst iph
      @ rev (bytes32 (of_nat (iov_length data))) @ [0, 0, 0, nxt] @ iov_flat data)))"
proof -
  let ?v = "[\<lparr>iov_base = ip6_src iph, iov_len = 16\<rparr>, \<lparr>iov_base = ip6_dst iph, iov_len = 16\<rparr>,
     \<lparr>iov_base = bytes32 (htonl (of_nat (iov_length data))) @ bytes32 (htonl (ucast nxt)), iov_len = 8\<rparr>] @ data"
  have nb: "bytes32 (ucast nxt) = [nxt, 0, 0, 0]"
    by (simp add: ucast_u8_le32)
  have ok: "iov_wf ?v" "even_blocks ?v" "iov_length ?v \<le> 131072"
    using assms by (cases data; auto simp: hdr_ok_def addr_ok_def)+
  have fl: "iov_flat ?v = ip6_src iph @ ip6_dst iph
      @ rev (bytes32 (of_nat (iov_length data))) @ [0, 0, 0, nxt] @ iov_flat data"
    using assms by (simp add: hdr_ok_def addr_ok_def nb byte32_ntohl)
  let ?s = "inet_sum (iov_flat ?v)"
  have s: "?s \<le> 65535" by (simp add: inet_sum_def oc_norm_less)
  have "(word_of_int (- int ?s - 1) :: u16) = word_of_int (- int ?s - 1 + 65536)" by simp
  also have "\<dots> = of_nat (65535 - ?s)" using s by (simp add: of_nat_diff)
  finally show ?thesis
    using in_cksum_spec [OF ok] by (simp add: msg_cksum_def Let_def fl del: append_Cons append_Nil)
qed


section \<open>Properties\<close>

text \<open>C21: On a scatter list of at most 131072 bytes, where the 32-bit sum cannot wrap, whose blocks all
  have even length, the last excepted, \<open>in_cksum\<close> returns the complement of the
  one's-complement sum of the concatenated bytes, read as big-endian halfwords, whatever the split into blocks.\<close>

theorem in_cksum_ones_complement:
  assumes "iov_wf vec" "even_blocks vec" "iov_length vec \<le> 131072"
  shows "in_cksum vec = Some (- int (inet_sum (iov_flat vec)) - 1)"
  by (rule in_cksum_spec [OF assms])

lemma in_cksum_ones_complement_witness:
  "in_cksum [\<lparr>iov_base = [1, 2], iov_len = 2\<rparr>, \<lparr>iov_base = [3, 4, 255], iov_len = 3\<rparr>] =
     Some (- int (inet_sum [1, 2, 3, 4, 255]) - 1)"
  using in_cksum_ones_complement [of "[\<lparr>iov_base = [1, 2], iov_len = 2\<rparr>, \<lparr>iov_base = [3, 4, 255], iov_len = 3\<rparr>]"]
  by simp

text \<open>C25: A datagram of at most 131072 bytes, in blocks of even length but for the last, carries its own
  checksum: if the two checksum bytes are zero at an even offset, computing \<open>in_cksum\<close> and storing it there in network order with \<open>iov_update\<close> makes
  a second \<open>in_cksum\<close> of the datagram come out with all 16 low bits zero.\<close>

theorem in_cksum_verifies:
  assumes "iov_wf vec" "even_blocks vec" "iov_length vec \<le> 131072"
    and "even p" "Suc p < iov_length vec"
    and "iov_flat vec ! p = 0" "iov_flat vec ! Suc p = 0"
    and "in_cksum vec = Some x" "c = (word_of_int x :: u16)"
  shows "\<exists>vec' y. iov_update vec p 2 [hi8 c, lo8 c] = Some (vec', 0) \<and> in_cksum vec' = Some y \<and>
    (word_of_int y :: u16) = 0"
  using cksum_carried [OF assms] by fastforce

lemma in_cksum_verifies_witness:
  "\<exists>vec' y. iov_update [\<lparr>iov_base = [69, 1, 0, 0, 7], iov_len = 5\<rparr>] 2 2 [hi8 0xb3fe, lo8 0xb3fe] = Some (vec', 0) \<and>
    in_cksum vec' = Some y \<and> (word_of_int y :: u16) = 0"
proof -
  let ?v = "[\<lparr>iov_base = [69, 1, 0, 0, 7], iov_len = 5\<rparr>] :: ip_iovec list"
  have "in_cksum ?v = Some (- 19458)"
    using in_cksum_spec [of ?v] by (simp add: inet_sum_def oc_norm_small)
  then show ?thesis using in_cksum_verifies [of ?v 2 "- 19458" "0xb3fe"]
    by (simp add: nth_Cons' del: iov_update.simps)
qed

text \<open>\<open>msg_cksum\<close> is the complement of the one's-complement sum of the pseudo header
  (source, destination, 32-bit length, zeros, next header, all in network order) followed by
  the payload.\<close>

theorem msg_cksum_pseudo_header:
  assumes "hdr_ok iph" "iov_wf data" "even_blocks data" "iov_length data \<le> 65535"
  shows "msg_cksum iph data nxt =
    Some (of_nat (65535 - inet_sum (ip6_src iph @ ip6_dst iph
      @ rev (bytes32 (of_nat (iov_length data))) @ [0, 0, 0, nxt] @ iov_flat data)))"
  by (rule msg_cksum_spec [OF assms])

lemma msg_cksum_pseudo_header_witness:
  "\<exists>iph. msg_cksum iph [\<lparr>iov_base = [1, 2, 3], iov_len = 3\<rparr>] 17 =
    Some (of_nat (65535 - inet_sum (replicate 32 0 @ rev (bytes32 3) @ [0, 0, 0, 17] @ [1, 2, 3])))"
proof -
  define z :: ip6_hdr where "z = \<lparr>ip6_flow = 96, ip6_plen = 0, ip6_nxt = 0, ip6_hlim = 0,
    ip6_src = replicate 16 0, ip6_dst = replicate 16 0\<rparr>"
  have "hdr_ok z" by (simp add: hdr_ok_def z_def addr_ok_def)
  from msg_cksum_pseudo_header [OF this, of "[\<lparr>iov_base = [1, 2, 3], iov_len = 3\<rparr>]" 17]
  show ?thesis by (intro exI [of _ z]) (simp add: z_def replicate_add [symmetric] flip: append_assoc)
qed

end
