(* ===== verification/Ieee154.thy ===== *)
theory Ieee154
  imports Ip6
begin

text \<open>
  The IEEE 802.15.4 frame header of \<open>ieee154_header.c\<close>: a data-frame control word, the
  destination PAN, then destination and source addresses, short or extended.  An address is a
  two-bit mode and the eight bytes of the union; a short address is the halfword in the first
  two of them.
\<close>

type_synonym u2 = "2 word"

definition IEEE154_ADDR_NONE :: u2 where "IEEE154_ADDR_NONE = 0"
definition IEEE154_ADDR_SHORT :: u2 where "IEEE154_ADDR_SHORT = 2"
definition IEEE154_ADDR_EXT :: u2 where "IEEE154_ADDR_EXT = 3"
definition IEEE154_MIN_HDR_SZ :: nat where "IEEE154_MIN_HDR_SZ = 6"

lemmas ieee_defs = IEEE154_ADDR_NONE_def IEEE154_ADDR_SHORT_def IEEE154_ADDR_EXT_def
  IEEE154_MIN_HDR_SZ_def

record ieee154_addr =
  ieee_mode :: u2
  ieee_addr :: "u8 list"

definition i_saddr :: "ieee154_addr \<Rightarrow> u16" where
  "i_saddr a = le16 (ieee_addr a ! 0) (ieee_addr a ! 1)"

record ieee154_frame_addr =
  ieee_src :: ieee154_addr
  ieee_dst :: ieee154_addr
  ieee_dstpan :: u16

definition ieee_ok :: "ieee154_addr \<Rightarrow> bool" where
  "ieee_ok a \<longleftrightarrow> length (ieee_addr a) = 8"

definition frame_ok :: "ieee154_frame_addr \<Rightarrow> bool" where
  "frame_ok f \<longleftrightarrow> ieee_ok (ieee_src f) \<and> ieee_ok (ieee_dst f)"

section \<open>Packing and unpacking\<close>

text \<open>\<open>COPY_IEEE154_ADDR\<close>: two bytes for a short address, eight for every other mode.\<close>

definition copy_ieee154_addr :: "mem \<Rightarrow> nat \<Rightarrow> ieee154_addr \<Rightarrow> (mem \<times> nat) option" where
  "copy_ieee154_addr m p a =
     (if ieee_mode a = IEEE154_ADDR_SHORT
      then do { m \<leftarrow> wrn m p [lo8 (i_saddr a), hi8 (i_saddr a)]; Some (m, p + 2) }
      else do { m \<leftarrow> wrn m p (take 8 (ieee_addr a)); Some (m, p + 8) })"

definition ieee_fcf :: "ieee154_frame_addr \<Rightarrow> u16" where
  "ieee_fcf f = 1 OR push_bit 14 (ucast (ieee_mode (ieee_src f)))
     OR push_bit 10 (ucast (ieee_mode (ieee_dst f))) OR push_bit 6 1"

definition pack_ieee154_header :: "mem \<Rightarrow> nat \<Rightarrow> nat \<Rightarrow> ieee154_frame_addr \<Rightarrow> (mem \<times> nat) option" where
  "pack_ieee154_header m buf cnt frame = do {
     (m, p) \<leftarrow> copy_ieee154_addr m (buf + IEEE154_MIN_HDR_SZ) (ieee_dst frame);
     (m, p) \<leftarrow> copy_ieee154_addr m p (ieee_src frame);
     let fcf = ieee_fcf frame;
     m \<leftarrow> wr m (buf + 1) (lo8 (fcf AND 0xff));
     m \<leftarrow> wr m (buf + 2) (hi8 fcf);
     m \<leftarrow> wr m (buf + 4) (lo8 (ieee_dstpan frame AND 0xff));
     m \<leftarrow> wr m (buf + 5) (hi8 (ieee_dstpan frame));
     Some (m, p) }"

definition fetch_ieee154_addr :: "mem \<Rightarrow> nat \<Rightarrow> ieee154_addr \<Rightarrow> (ieee154_addr \<times> nat) option" where
  "fetch_ieee154_addr m p a =
     (if ieee_mode a = IEEE154_ADDR_SHORT then do { bs \<leftarrow> rdn m p 2; Some (a\<lparr>ieee_addr := put (ieee_addr a) 0 bs\<rparr>, p + 2) }
      else if ieee_mode a = IEEE154_ADDR_EXT then do { bs \<leftarrow> rdn m p 8; Some (a\<lparr>ieee_addr := bs\<rparr>, p + 8) }
      else Some (a, p))"

definition unpack_ieee154_hdr :: "mem \<Rightarrow> nat \<Rightarrow> ieee154_frame_addr \<Rightarrow> (ieee154_frame_addr \<times> nat) option" where
  "unpack_ieee154_hdr m buf frame = do {
     b1 \<leftarrow> rd m (buf + 1); b2 \<leftarrow> rd m (buf + 2);
     b4 \<leftarrow> rd m (buf + 4); b5 \<leftarrow> rd m (buf + 5);
     let fcf = le16 b1 b2;
     let src = (ieee_src frame)\<lparr>ieee_mode := ucast (drop_bit 14 fcf AND 3)\<rparr>;
     let dst = (ieee_dst frame)\<lparr>ieee_mode := ucast (drop_bit 10 fcf AND 3)\<rparr>;
     (dst, p) \<leftarrow> fetch_ieee154_addr m (buf + IEEE154_MIN_HDR_SZ) dst;
     (src, p) \<leftarrow> fetch_ieee154_addr m p src;
     Some (frame\<lparr>ieee_src := src, ieee_dst := dst, ieee_dstpan := le16 b4 b5\<rparr>, p) }"

section \<open>The wire format\<close>

definition ieee_addr_bytes :: "ieee154_addr \<Rightarrow> u8 list" where
  "ieee_addr_bytes a = (if ieee_mode a = IEEE154_ADDR_SHORT then take 2 (ieee_addr a) else take 8 (ieee_addr a))"

text \<open>The two addresses agree as far as the mode says they carry bytes.\<close>

definition ieee_same :: "ieee154_addr \<Rightarrow> ieee154_addr \<Rightarrow> bool" where
  "ieee_same a b \<longleftrightarrow> ieee_mode a = ieee_mode b \<and> ieee_addr_bytes a = ieee_addr_bytes b"

lemma length_ieee_addr_bytes:
  "ieee_ok a \<Longrightarrow> length (ieee_addr_bytes a) = (if ieee_mode a = IEEE154_ADDR_SHORT then 2 else 8)"
  by (simp add: ieee_ok_def ieee_addr_bytes_def)

lemma take_2: "2 \<le> length xs \<Longrightarrow> take 2 xs = [xs ! 0, xs ! 1]"
  by (cases xs; cases "tl xs") auto

lemma u2_cases: "(w :: u2) = 0 \<or> w = 1 \<or> w = 2 \<or> w = 3"
proof -
  have "unat w < 4" using unsigned_less [of w] by simp
  then have "unat w = unat (0 :: u2) \<or> unat w = unat (1 :: u2) \<or> unat w = unat (2 :: u2) \<or> unat w = unat (3 :: u2)"
    by simp arith
  then show ?thesis by (simp only: word_unat_eq_iff)
qed

lemma copy_ieee154_addr_put:
  assumes "ieee_ok a"
  shows "copy_ieee154_addr m p a =
    (if p + length (ieee_addr_bytes a) \<le> length m
     then Some (put m p (ieee_addr_bytes a), p + length (ieee_addr_bytes a)) else None)"
  using assms
  by (auto simp: copy_ieee154_addr_def ieee_addr_bytes_def ieee_ok_def i_saddr_def take_2 wrn_def)

lemma fetch_ieee154_addr_has:
  assumes "has_at m p (ieee_addr_bytes a)" "ieee_ok a" "ieee_mode a \<noteq> IEEE154_ADDR_NONE" "ieee_mode a \<noteq> 1"
    and "ieee_mode b = ieee_mode a" "length (ieee_addr b) = 8"
  shows "\<exists>b'. fetch_ieee154_addr m p b = Some (b', p + length (ieee_addr_bytes a)) \<and> ieee_same a b' \<and> ieee_ok b'"
proof -
  have md: "ieee_mode a = IEEE154_ADDR_SHORT \<or> ieee_mode a = IEEE154_ADDR_EXT"
    using u2_cases [of "ieee_mode a"] assms(3,4) by (auto simp: ieee_defs)
  have r: "rdn m p (length (ieee_addr_bytes a)) = Some (ieee_addr_bytes a)"
    using assms(1) by (rule rdn_has_at)
  from md show ?thesis
  proof
    assume "ieee_mode a = IEEE154_ADDR_SHORT"
    then show ?thesis using r assms
      by (auto simp: fetch_ieee154_addr_def ieee_same_def ieee_ok_def length_ieee_addr_bytes ieee_addr_bytes_def put_def)
  next
    assume "ieee_mode a = IEEE154_ADDR_EXT"
    then show ?thesis using r assms
      by (auto simp: fetch_ieee154_addr_def ieee_same_def ieee_ok_def ieee_addr_bytes_def ieee_defs)
  qed
qed

lemma u2_bit: "2 \<le> n \<Longrightarrow> \<not> bit (w :: u2) n"
  by (auto dest: bit_imp_le_length)

lemma ieee_fcf_modes:
  "ucast (drop_bit 14 (ieee_fcf f) AND 3) = ieee_mode (ieee_src f)"
  "ucast (drop_bit 10 (ieee_fcf f) AND 3) = ieee_mode (ieee_dst f)"
proof -
  have three: "(3 :: u16) = mask 2" by (simp add: mask_eq_exp_minus_1)
  show "ucast (drop_bit 14 (ieee_fcf f) AND 3) = ieee_mode (ieee_src f)"
    "ucast (drop_bit 10 (ieee_fcf f) AND 3) = ieee_mode (ieee_dst f)"
    by (auto intro!: bit_word_eqI simp: ieee_fcf_def three bit_simps not_less bit_1_iff u2_bit)
qed

lemma lo8_mask: "lo8 (w AND 0xff) = lo8 w"
proof -
  have "(0xff :: u16) = mask 8" by (simp add: mask_eq_exp_minus_1)
  show ?thesis unfolding \<open>0xff = mask 8\<close> by (auto intro!: bit_word_eqI simp: lo8_def bit_simps)
qed

definition ieee_carries :: "ieee154_addr \<Rightarrow> bool" where
  "ieee_carries a \<longleftrightarrow> ieee_mode a = IEEE154_ADDR_SHORT \<or> ieee_mode a = IEEE154_ADDR_EXT"

definition ieee_hdr_len :: "ieee154_frame_addr \<Rightarrow> nat" where
  "ieee_hdr_len f = IEEE154_MIN_HDR_SZ + length (ieee_addr_bytes (ieee_dst f)) + length (ieee_addr_bytes (ieee_src f))"

text \<open>What packing leaves in the buffer: length and sequence bytes (0 and 3) untouched.\<close>

lemma pack_ieee154_header_eq:
  assumes ok: "frame_ok f" and fit: "buf + ieee_hdr_len f \<le> length m"
  shows "pack_ieee154_header m buf cnt f =
    Some (let m = put m (buf + 6) (ieee_addr_bytes (ieee_dst f) @ ieee_addr_bytes (ieee_src f))
          in m[buf + 1 := lo8 (ieee_fcf f), buf + 2 := hi8 (ieee_fcf f),
               buf + 4 := lo8 (ieee_dstpan f), buf + 5 := hi8 (ieee_dstpan f)],
       buf + ieee_hdr_len f)"
  using assms put_put [of "buf + 6" "ieee_addr_bytes (ieee_dst f)" "ieee_addr_bytes (ieee_src f)" m]
  by (simp add: pack_ieee154_header_def copy_ieee154_addr_put frame_ok_def ieee_hdr_len_def
      IEEE154_MIN_HDR_SZ_def wr_def lo8_mask Let_def add.assoc)

lemma unpack_pack_ieee154:
  assumes ok: "frame_ok f" "ieee_carries (ieee_src f)" "ieee_carries (ieee_dst f)" "frame_ok g"
    and pk: "pack_ieee154_header m buf cnt f = Some (m', p)"
  shows "p = buf + ieee_hdr_len f \<and> (\<exists>f'. unpack_ieee154_hdr m' buf g = Some (f', p) \<and>
      ieee_same (ieee_src f) (ieee_src f') \<and> ieee_same (ieee_dst f) (ieee_dst f') \<and>
      ieee_dstpan f' = ieee_dstpan f)"
proof -
  let ?d = "ieee_addr_bytes (ieee_dst f)" and ?s = "ieee_addr_bytes (ieee_src f)"
  have fit: "buf + ieee_hdr_len f \<le> length m"
    using pk ok(1) by (auto simp: pack_ieee154_header_def copy_ieee154_addr_put frame_ok_def ieee_hdr_len_def
        IEEE154_MIN_HDR_SZ_def split: if_splits bind_splits)
  let ?m = "put m (buf + 6) (?d @ ?s)"
  have m': "m' = ?m[buf + 1 := lo8 (ieee_fcf f), buf + 2 := hi8 (ieee_fcf f),
      buf + 4 := lo8 (ieee_dstpan f), buf + 5 := hi8 (ieee_dstpan f)]" and p: "p = buf + ieee_hdr_len f"
    using pack_ieee154_header_eq [OF ok(1) fit, of cnt] pk by (auto simp: Let_def)
  have len: "length m' = length m" using fit by (simp add: m' ieee_hdr_len_def IEEE154_MIN_HDR_SZ_def)
  have "has_at m' (buf + 6) (?d @ ?s)"
  proof -
    have "drop (buf + 6) m' = drop (buf + 6) ?m" by (simp add: m' drop_update_cancel)
    moreover have "has_at ?m (buf + 6) (?d @ ?s)"
      using fit by (intro has_at_put) (simp add: ieee_hdr_len_def IEEE154_MIN_HDR_SZ_def)
    ultimately show ?thesis using len fit by (simp add: has_at_def ieee_hdr_len_def IEEE154_MIN_HDR_SZ_def)
  qed
  then have hd: "has_at m' (buf + 6) ?d" and hs: "has_at m' (buf + 6 + length ?d) ?s"
    by (simp_all add: has_at_append)
  have nz: "ieee_mode (ieee_src f) \<noteq> IEEE154_ADDR_NONE" "ieee_mode (ieee_src f) \<noteq> 1"
    "ieee_mode (ieee_dst f) \<noteq> IEEE154_ADDR_NONE" "ieee_mode (ieee_dst f) \<noteq> 1"
    using ok(2,3) by (auto simp: ieee_carries_def ieee_defs)
  have b: "rd m' (buf + 1) = Some (lo8 (ieee_fcf f))" "rd m' (buf + 2) = Some (hi8 (ieee_fcf f))"
    "rd m' (buf + 4) = Some (lo8 (ieee_dstpan f))" "rd m' (buf + 5) = Some (hi8 (ieee_dstpan f))"
    using fit by (simp_all add: rd_def m' ieee_hdr_len_def IEEE154_MIN_HDR_SZ_def)
  have oks: "ieee_ok (ieee_src f)" "ieee_ok (ieee_dst f)" "length (ieee_addr (ieee_src g)) = 8" "length (ieee_addr (ieee_dst g)) = 8"
    using ok(1,4) by (auto simp: frame_ok_def ieee_ok_def)
  obtain d where d: "fetch_ieee154_addr m' (buf + 6) ((ieee_dst g)\<lparr>ieee_mode := ieee_mode (ieee_dst f)\<rparr>) =
      Some (d, buf + 6 + length ?d)" "ieee_same (ieee_dst f) d"
    using fetch_ieee154_addr_has [OF hd oks(2) nz(3,4), of "(ieee_dst g)\<lparr>ieee_mode := ieee_mode (ieee_dst f)\<rparr>"] oks(4) by auto
  obtain s where s: "fetch_ieee154_addr m' (buf + 6 + length ?d) ((ieee_src g)\<lparr>ieee_mode := ieee_mode (ieee_src f)\<rparr>) =
      Some (s, buf + 6 + length ?d + length ?s)" "ieee_same (ieee_src f) s"
    using fetch_ieee154_addr_has [OF hs oks(1) nz(1,2), of "(ieee_src g)\<lparr>ieee_mode := ieee_mode (ieee_src f)\<rparr>"] oks(3) by auto
  have "unpack_ieee154_hdr m' buf g = Some (g\<lparr>ieee_src := s, ieee_dst := d, ieee_dstpan := ieee_dstpan f\<rparr>, p)"
    using d(1) s(1) by (simp add: unpack_ieee154_hdr_def b [simplified] ieee_fcf_modes IEEE154_MIN_HDR_SZ_def p ieee_hdr_len_def add.assoc Let_def)
  then show ?thesis using p d(2) s(2) by simp
qed

section \<open>Properties\<close>

text \<open>C28: Packing a frame header whose addresses are short or extended and unpacking it, into any
  frame structure, gives back both address modes and address bytes and the destination PAN;
  both sides agree on where the payload starts, \<open>ieee_hdr_len\<close> bytes behind the start.\<close>

theorem ieee154_header_roundtrip:
  assumes "frame_ok f" "ieee_carries (ieee_src f)" "ieee_carries (ieee_dst f)" "frame_ok g"
    and "pack_ieee154_header m buf cnt f = Some (m', p)"
  shows "p = buf + ieee_hdr_len f \<and> (\<exists>f'. unpack_ieee154_hdr m' buf g = Some (f', p) \<and>
      ieee_same (ieee_src f) (ieee_src f') \<and> ieee_same (ieee_dst f) (ieee_dst f') \<and>
      ieee_dstpan f' = ieee_dstpan f)"
  by (rule unpack_pack_ieee154 [OF assms])

definition sample_frame :: ieee154_frame_addr where
  "sample_frame = \<lparr>ieee_src = \<lparr>ieee_mode = 3, ieee_addr = [1, 2, 3, 4, 5, 6, 7, 8]\<rparr>,
     ieee_dst = \<lparr>ieee_mode = 2, ieee_addr = [9, 10, 0, 0, 0, 0, 0, 0]\<rparr>, ieee_dstpan = 0x1122\<rparr>"

lemma ieee154_header_roundtrip_witness:
  "\<exists>m' f'. pack_ieee154_header (replicate 20 0) 0 20 sample_frame = Some (m', 16) \<and>
    unpack_ieee154_hdr m' 0 sample_frame = Some (f', 16) \<and>
      ieee_same (ieee_src sample_frame) (ieee_src f') \<and> ieee_dstpan f' = 0x1122"
proof -
  have ok: "frame_ok sample_frame" "ieee_carries (ieee_src sample_frame)" "ieee_carries (ieee_dst sample_frame)"
    by (auto simp: frame_ok_def ieee_ok_def ieee_carries_def sample_frame_def ieee_defs)
  have l: "ieee_hdr_len sample_frame = 16"
    by (simp add: ieee_hdr_len_def ieee_addr_bytes_def sample_frame_def ieee_defs)
  obtain m' where "pack_ieee154_header (replicate 20 0) 0 20 sample_frame = Some (m', 16)"
    using pack_ieee154_header_eq [OF ok(1), of 0 "replicate 20 0" 20] l by (auto simp: Let_def)
  with ieee154_header_roundtrip [OF ok ok(1) this] l show ?thesis
    by (auto simp: sample_frame_def)
qed

end
