(* ===== verification/Iphc_Pack.thy ===== *)
theory Iphc_Pack
  imports Ieee154 Iovec
begin

text \<open>
  Header compression, the sending half of \<open>lib6lowpan.c\<close>: \<open>lowpan_pack_headers\<close> writes the
  two IPHC dispatch bytes and the inline fields of the IPv6 header, \<open>pack_nhc_chain\<close> the
  extension headers and the UDP header in front of the payload.  The output buffer is a
  memory with offsets; dispatch bytes are updated in place.  The stateful contexts come from
  the function \<open>lowpan_extern_match_context\<close> of the application, the parameter \<open>match_ctx\<close>.

  Each routine is shown equal to one write of an explicit chunk of bytes and one update of
  the dispatch byte; the receiving half is proved from those chunks.
\<close>

section \<open>Dispatch values\<close>

definition LOWPAN_DISPATCH_BYTE_MASK :: u8 where "LOWPAN_DISPATCH_BYTE_MASK = 0xe0"
definition LOWPAN_DISPATCH_BYTE_VAL :: u8 where "LOWPAN_DISPATCH_BYTE_VAL = 0x60"
definition LOWPAN_IPHC_TF_MASK :: u8 where "LOWPAN_IPHC_TF_MASK = 0x18"
definition LOWPAN_IPHC_TF_NONE :: u8 where "LOWPAN_IPHC_TF_NONE = 0x18"
definition LOWPAN_IPHC_TF_ECN_DSCP :: u8 where "LOWPAN_IPHC_TF_ECN_DSCP = 0x10"
definition LOWPAN_IPHC_TF_ECN_FL :: u8 where "LOWPAN_IPHC_TF_ECN_FL = 0x08"
definition LOWPAN_IPHC_TF_ECN_DSCP_FL :: u8 where "LOWPAN_IPHC_TF_ECN_DSCP_FL = 0"
definition LOWPAN_IPHC_NH_MASK :: u8 where "LOWPAN_IPHC_NH_MASK = 4"
definition LOWPAN_IPHC_HLIM_MASK :: u8 where "LOWPAN_IPHC_HLIM_MASK = 3"
definition LOWPAN_IPHC_HLIM_NONE :: u8 where "LOWPAN_IPHC_HLIM_NONE = 0"
definition LOWPAN_IPHC_HLIM_1 :: u8 where "LOWPAN_IPHC_HLIM_1 = 1"
definition LOWPAN_IPHC_HLIM_64 :: u8 where "LOWPAN_IPHC_HLIM_64 = 2"
definition LOWPAN_IPHC_HLIM_255 :: u8 where "LOWPAN_IPHC_HLIM_255 = 3"
definition LOWPAN_IPHC_CID_MASK :: u8 where "LOWPAN_IPHC_CID_MASK = 0x80"
definition LOWPAN_IPHC_M :: u8 where "LOWPAN_IPHC_M = 8"
definition LOWPAN_IPHC_AC_CONTEXT :: u8 where "LOWPAN_IPHC_AC_CONTEXT = 4"
definition LOWPAN_IPHC_AM_MASK :: u8 where "LOWPAN_IPHC_AM_MASK = 3"
definition LOWPAN_IPHC_AM_128 :: u8 where "LOWPAN_IPHC_AM_128 = 0"
definition LOWPAN_IPHC_AM_64 :: u8 where "LOWPAN_IPHC_AM_64 = 1"
definition LOWPAN_IPHC_AM_16 :: u8 where "LOWPAN_IPHC_AM_16 = 2"
definition LOWPAN_IPHC_AM_0 :: u8 where "LOWPAN_IPHC_AM_0 = 3"
definition LOWPAN_IPHC_AM_M :: u8 where "LOWPAN_IPHC_AM_M = 8"
definition LOWPAN_IPHC_AM_M_128 :: u8 where "LOWPAN_IPHC_AM_M_128 = 0"
definition LOWPAN_IPHC_AM_M_48 :: u8 where "LOWPAN_IPHC_AM_M_48 = 1"
definition LOWPAN_IPHC_AM_M_32 :: u8 where "LOWPAN_IPHC_AM_M_32 = 2"
definition LOWPAN_IPHC_AM_M_8 :: u8 where "LOWPAN_IPHC_AM_M_8 = 3"
definition LOWPAN_NHC_IPV6_MASK :: u8 where "LOWPAN_NHC_IPV6_MASK = 0xf0"
definition LOWPAN_NHC_IPV6_PATTERN :: u8 where "LOWPAN_NHC_IPV6_PATTERN = 0xe0"
definition LOWPAN_NHC_EID_MASK :: u8 where "LOWPAN_NHC_EID_MASK = 0xe"
definition LOWPAN_NHC_EID_HOP :: u8 where "LOWPAN_NHC_EID_HOP = 0"
definition LOWPAN_NHC_EID_ROUTING :: u8 where "LOWPAN_NHC_EID_ROUTING = 2"
definition LOWPAN_NHC_EID_FRAG :: u8 where "LOWPAN_NHC_EID_FRAG = 4"
definition LOWPAN_NHC_EID_DEST :: u8 where "LOWPAN_NHC_EID_DEST = 6"
definition LOWPAN_NHC_EID_MOBILE :: u8 where "LOWPAN_NHC_EID_MOBILE = 8"
definition LOWPAN_NHC_EID_IPV6 :: u8 where "LOWPAN_NHC_EID_IPV6 = 0xe"
definition LOWPAN_NHC_NH :: u8 where "LOWPAN_NHC_NH = 1"
definition LOWPAN_NHC_UDP_MASK :: u8 where "LOWPAN_NHC_UDP_MASK = 0xf8"
definition LOWPAN_NHC_UDP_PATTERN :: u8 where "LOWPAN_NHC_UDP_PATTERN = 0xf0"
definition LOWPAN_NHC_UDP_CKSUM :: u8 where "LOWPAN_NHC_UDP_CKSUM = 4"
definition LOWPAN_NHC_UDP_PORT_MASK :: u8 where "LOWPAN_NHC_UDP_PORT_MASK = 3"
definition LOWPAN_NHC_UDP_PORT_FULL :: u8 where "LOWPAN_NHC_UDP_PORT_FULL = 0"
definition LOWPAN_NHC_UDP_PORT_SRC_FULL :: u8 where "LOWPAN_NHC_UDP_PORT_SRC_FULL = 1"
definition LOWPAN_NHC_UDP_PORT_DST_FULL :: u8 where "LOWPAN_NHC_UDP_PORT_DST_FULL = 2"
definition LOWPAN_NHC_UDP_PORT_SHORT :: u8 where "LOWPAN_NHC_UDP_PORT_SHORT = 3"

lemmas iphc_defs = LOWPAN_DISPATCH_BYTE_MASK_def LOWPAN_DISPATCH_BYTE_VAL_def LOWPAN_IPHC_TF_MASK_def
  LOWPAN_IPHC_TF_NONE_def LOWPAN_IPHC_TF_ECN_DSCP_def LOWPAN_IPHC_TF_ECN_FL_def
  LOWPAN_IPHC_TF_ECN_DSCP_FL_def LOWPAN_IPHC_NH_MASK_def LOWPAN_IPHC_HLIM_MASK_def
  LOWPAN_IPHC_HLIM_NONE_def LOWPAN_IPHC_HLIM_1_def LOWPAN_IPHC_HLIM_64_def LOWPAN_IPHC_HLIM_255_def
  LOWPAN_IPHC_CID_MASK_def LOWPAN_IPHC_M_def LOWPAN_IPHC_AC_CONTEXT_def LOWPAN_IPHC_AM_MASK_def
  LOWPAN_IPHC_AM_128_def LOWPAN_IPHC_AM_64_def LOWPAN_IPHC_AM_16_def LOWPAN_IPHC_AM_0_def
  LOWPAN_IPHC_AM_M_def LOWPAN_IPHC_AM_M_128_def LOWPAN_IPHC_AM_M_48_def LOWPAN_IPHC_AM_M_32_def
  LOWPAN_IPHC_AM_M_8_def

lemmas nhc_defs = LOWPAN_NHC_IPV6_MASK_def LOWPAN_NHC_IPV6_PATTERN_def LOWPAN_NHC_EID_MASK_def
  LOWPAN_NHC_EID_HOP_def LOWPAN_NHC_EID_ROUTING_def LOWPAN_NHC_EID_FRAG_def LOWPAN_NHC_EID_DEST_def
  LOWPAN_NHC_EID_MOBILE_def LOWPAN_NHC_EID_IPV6_def LOWPAN_NHC_NH_def LOWPAN_NHC_UDP_MASK_def
  LOWPAN_NHC_UDP_PATTERN_def LOWPAN_NHC_UDP_CKSUM_def LOWPAN_NHC_UDP_PORT_MASK_def
  LOWPAN_NHC_UDP_PORT_FULL_def LOWPAN_NHC_UDP_PORT_SRC_FULL_def LOWPAN_NHC_UDP_PORT_DST_FULL_def
  LOWPAN_NHC_UDP_PORT_SHORT_def

section \<open>Address tests\<close>

definition IS_LINKLOCAL :: "in6_addr \<Rightarrow> bool" where
  "IS_LINKLOCAL a \<longleftrightarrow> s6_addr16 a 0 = htons 0xfe80 \<and> s6_addr16 a 1 = 0 \<and> s6_addr16 a 2 = 0 \<and> s6_addr16 a 3 = 0"

definition IS_UNSPECIFIED :: "in6_addr \<Rightarrow> bool" where
  "IS_UNSPECIFIED a \<longleftrightarrow> (\<forall>k\<in>set [0..<8]. s6_addr16 a k = 0)"

definition iid_eui_cmp :: "u8 list \<Rightarrow> u8 list \<Rightarrow> bool" where
  "iid_eui_cmp iid eui \<longleftrightarrow> iid ! 0 = eui ! 7 XOR 2 \<and> iid ! 1 = eui ! 6 \<and> iid ! 2 = eui ! 5 \<and>
     iid ! 3 = eui ! 4 \<and> iid ! 4 = eui ! 3 \<and> iid ! 5 = eui ! 2 \<and> iid ! 6 = eui ! 1 \<and> iid ! 7 = eui ! 0"

text \<open>\<open>bit_range_zero_p\<close>: true for the C result 0.  The masks are written as in the code.\<close>

definition bit_range_zero_p :: "u8 list \<Rightarrow> nat \<Rightarrow> nat \<Rightarrow> bool option" where
  "bit_range_zero_p buf start stop = do {
     let start_byte = start div 8;
     let end_byte = stop div 8;
     let start_mask = push_bit (8 - start mod 8) (0xff :: u8);
     let end_mask = push_bit (8 - stop mod 8) (0xff :: u8);
     s \<leftarrow> rd buf start_byte;
     (if s AND start_mask \<noteq> 0 then Some False
      else do {
        e \<leftarrow> rd buf end_byte;
        (if e AND end_mask \<noteq> 0 then Some False
         else Some (\<forall>i\<in>set [start_byte..<end_byte]. buf ! i = 0)) }) }"

section \<open>The IPv6 header\<close>

definition or_at :: "mem \<Rightarrow> nat \<Rightarrow> u8 \<Rightarrow> mem option" where
  "or_at m d v = do { b \<leftarrow> rd m d; wr m d (b OR v) }"

definition pack_tcfl :: "mem \<Rightarrow> nat \<Rightarrow> ip6_hdr \<Rightarrow> nat \<Rightarrow> (mem \<times> nat) option" where
  "pack_tcfl m buf hdr dispatch =
     (let flow = ntohl (ip6_flow hdr) AND 0xfffff;
          tc = (ucast (drop_bit 20 (ntohl (ip6_flow hdr))) :: u8)
      in if flow = 0 \<and> tc = 0 then do { m \<leftarrow> or_at m dispatch LOWPAN_IPHC_TF_NONE; Some (m, buf) }
         else if flow = 0 then do {
           m \<leftarrow> or_at m dispatch LOWPAN_IPHC_TF_ECN_DSCP;
           m \<leftarrow> wr m buf (drop_bit 2 tc OR push_bit 6 tc);
           Some (m, buf + 1) }
         else if tc AND 3 = tc then do {
           m \<leftarrow> or_at m dispatch LOWPAN_IPHC_TF_ECN_FL;
           m \<leftarrow> wr m buf (push_bit 6 tc OR (ucast (drop_bit 16 flow) AND 0x0f));
           m \<leftarrow> wr m (buf + 1) (ucast (drop_bit 8 flow));
           m \<leftarrow> wr m (buf + 2) (ucast flow);
           Some (m, buf + 3) }
         else do {
           m \<leftarrow> or_at m dispatch LOWPAN_IPHC_TF_ECN_DSCP_FL;
           m \<leftarrow> wr m buf (drop_bit 2 tc OR push_bit 6 tc);
           m \<leftarrow> wr m (buf + 1) (ucast (drop_bit 16 flow) AND 0x0f);
           m \<leftarrow> wr m (buf + 2) (ucast (drop_bit 8 flow));
           m \<leftarrow> wr m (buf + 3) (ucast flow);
           Some (m, buf + 4) })"

definition compressible_ext :: "u8 \<Rightarrow> bool" where
  "compressible_ext nxt \<longleftrightarrow> nxt = IPV6_HOP \<or> nxt = IPV6_ROUTING \<or> nxt = IPV6_FRAG \<or>
     nxt = IPV6_DEST \<or> nxt = IPV6_MOBILITY \<or> nxt = IPV6_IPV6"

definition pack_nh :: "mem \<Rightarrow> nat \<Rightarrow> ip6_hdr \<Rightarrow> nat \<Rightarrow> (mem \<times> nat) option" where
  "pack_nh m buf hdr dispatch =
     (let nxt = ip6_nxt hdr
      in if compressible_ext nxt \<or> nxt = IANA_UDP
         then do { m \<leftarrow> or_at m dispatch LOWPAN_IPHC_NH_MASK; Some (m, buf) }
         else do { m \<leftarrow> wr m buf nxt; Some (m, buf + 1) })"

definition pack_hlim :: "mem \<Rightarrow> nat \<Rightarrow> ip6_hdr \<Rightarrow> nat \<Rightarrow> (mem \<times> nat) option" where
  "pack_hlim m buf hdr dispatch =
     (if ip6_hlim hdr = 1 then do { m \<leftarrow> or_at m dispatch LOWPAN_IPHC_HLIM_1; Some (m, buf) }
      else if ip6_hlim hdr = 64 then do { m \<leftarrow> or_at m dispatch LOWPAN_IPHC_HLIM_64; Some (m, buf) }
      else if ip6_hlim hdr = 255 then do { m \<leftarrow> or_at m dispatch LOWPAN_IPHC_HLIM_255; Some (m, buf) }
      else do { m \<leftarrow> or_at m dispatch LOWPAN_IPHC_HLIM_NONE;
                m \<leftarrow> wr m buf (ip6_hlim hdr); Some (m, buf + 1) })"

section \<open>Addresses\<close>

text \<open>The two ways to elide a link-local interface identifier.\<close>

definition iid_from_l2 :: "in6_addr \<Rightarrow> ieee154_addr \<Rightarrow> u16 \<Rightarrow> bool" where
  "iid_from_l2 addr l2addr pan \<longleftrightarrow>
     (s6_addr16 addr 4 = htons (pan AND NOT 0x0200) \<and> s6_addr16 addr 5 = htons 0x00ff \<and>
      s6_addr16 addr 6 = htons 0xfe00 \<and>
      ieee_mode l2addr = IEEE154_ADDR_SHORT \<and> s6_addr16 addr 7 = htons (i_saddr l2addr)) \<or>
     (ieee_mode l2addr = IEEE154_ADDR_EXT \<and> iid_eui_cmp (drop 8 addr) (ieee_addr l2addr))"

text \<open>The result: buffer, next free offset, the address-mode flags.\<close>

definition pack_address ::
  "mem \<Rightarrow> nat \<Rightarrow> in6_addr \<Rightarrow> nat \<Rightarrow> ieee154_addr \<Rightarrow> u16 \<Rightarrow> (mem \<times> nat \<times> u8) option" where
  "pack_address m buf addr context_match_len l2addr pan =
     (if IS_LINKLOCAL addr then
        (if s6_addr16 addr 4 = 0 \<and> s6_addr16 addr 5 = 0 \<and> s6_addr16 addr 6 = 0
         then do { m \<leftarrow> wrn m buf (take 2 (drop 14 addr)); Some (m, buf + 2, LOWPAN_IPHC_AM_16) }
         else if iid_from_l2 addr l2addr pan then Some (m, buf, LOWPAN_IPHC_AM_0)
         else do { m \<leftarrow> wrn m buf (take 8 (drop 8 addr)); Some (m, buf + 8, LOWPAN_IPHC_AM_64) })
      else if 0 < context_match_len then
        (if context_match_len = 128 then Some (m, buf, LOWPAN_IPHC_AC_CONTEXT OR LOWPAN_IPHC_AM_0)
         else do {
           z112 \<leftarrow> bit_range_zero_p addr context_match_len 112;
           (if z112 then do { m \<leftarrow> wrn m buf (take 2 (drop 14 addr));
                              Some (m, buf + 2, LOWPAN_IPHC_AC_CONTEXT OR LOWPAN_IPHC_AM_16) }
            else do {
              z64 \<leftarrow> bit_range_zero_p addr context_match_len 64;
              (if z64 then do { m \<leftarrow> wrn m buf (take 8 (drop 8 addr));
                                Some (m, buf + 8, LOWPAN_IPHC_AC_CONTEXT OR LOWPAN_IPHC_AM_64) }
               else do { m \<leftarrow> wrn m buf (take 16 addr);
                         Some (m, buf + 16, (LOWPAN_IPHC_AC_CONTEXT OR LOWPAN_IPHC_AM_128) AND NOT LOWPAN_IPHC_AC_CONTEXT) }) }) })
      else if IS_UNSPECIFIED addr then Some (m, buf, LOWPAN_IPHC_AC_CONTEXT OR LOWPAN_IPHC_AM_128)
      else do { m \<leftarrow> wrn m buf (take 16 addr); Some (m, buf + 16, LOWPAN_IPHC_AM_128) })"

definition pack_multicast :: "mem \<Rightarrow> nat \<Rightarrow> in6_addr \<Rightarrow> (mem \<times> nat \<times> u8) option" where
  "pack_multicast m buf addr = do {
     z120 \<leftarrow> (if s6_addr16 addr 0 = htons 0xff02 then bit_range_zero_p addr 16 120 else Some False);
     (if z120 then do { m \<leftarrow> wr m buf (addr ! 15); Some (m, buf + 1, LOWPAN_IPHC_AM_M_8) }
      else do {
        z104 \<leftarrow> bit_range_zero_p addr 16 104;
        (if z104 then do { m \<leftarrow> wrn m buf (addr ! 1 # take 3 (drop 13 addr)); Some (m, buf + 4, LOWPAN_IPHC_AM_M_32) }
         else do {
           z88 \<leftarrow> bit_range_zero_p addr 16 88;
           (if z88 then do { m \<leftarrow> wrn m buf (addr ! 1 # take 5 (drop 11 addr)); Some (m, buf + 6, LOWPAN_IPHC_AM_M_48) }
            else do { m \<leftarrow> wrn m buf (take 16 addr); Some (m, buf + 16, LOWPAN_IPHC_AM_M_128) }) }) }) }"

text \<open>The length a context matches, narrowed to a byte as the code does.\<close>

definition match_length :: "(in6_addr \<Rightarrow> int) \<Rightarrow> in6_addr \<Rightarrow> nat" where
  "match_length match_ctx addr = unat (word_of_int (match_ctx addr) :: u8)"

text \<open>The outcome \<^term>\<open>(m, None)\<close> is the return value NULL.\<close>

definition lowpan_pack_headers ::
  "(in6_addr \<Rightarrow> int) \<Rightarrow> ip6_packet \<Rightarrow> ieee154_frame_addr \<Rightarrow> mem \<Rightarrow> nat \<Rightarrow> u32 \<Rightarrow> (mem \<times> nat option) option" where
  "lowpan_pack_headers match_ctx packet frame m buf cnt =
     (let hdr = ip6_hdr packet
      in if ip6_vfc hdr AND IPV6_VERSION_MASK \<noteq> IPV6_VERSION then Some (m, None)
         else do {
           let dispatch = buf;
           m \<leftarrow> wr m dispatch LOWPAN_DISPATCH_BYTE_VAL;
           m \<leftarrow> wr m (dispatch + 1) 0;
           (m, buf) \<leftarrow> pack_tcfl m (buf + 2) hdr dispatch;
           (m, buf) \<leftarrow> pack_nh m buf hdr dispatch;
           (m, buf) \<leftarrow> pack_hlim m buf hdr dispatch;
           (m, buf, fl) \<leftarrow> pack_address m buf (ip6_src hdr) (match_length match_ctx (ip6_src hdr))
                             (ieee_src frame) (ieee_dstpan frame);
           m \<leftarrow> or_at m (dispatch + 1) (push_bit 4 fl);
           (if ip6_dst hdr ! 0 \<noteq> 0xff then do {
              (m, buf, fl) \<leftarrow> pack_address m buf (ip6_dst hdr) (match_length match_ctx (ip6_dst hdr))
                                (ieee_dst frame) (ieee_dstpan frame);
              m \<leftarrow> or_at m (dispatch + 1) fl;
              Some (m, Some buf) }
            else do {
              (m, buf, fl) \<leftarrow> pack_multicast m buf (ip6_dst hdr);
              m \<leftarrow> or_at m (dispatch + 1) (fl OR LOWPAN_IPHC_AM_M);
              Some (m, Some buf) }) })"

section \<open>The header chain\<close>

text \<open>Never packs the ports.  The length field of the UDP header is elided.\<close>

definition pack_udp :: "mem \<Rightarrow> nat \<Rightarrow> u32 \<Rightarrow> ip_iovec list \<Rightarrow> int \<Rightarrow> (mem \<times> int) option" where
  "pack_udp m buf cnt data offset =
     (if cnt < 7 then Some (m, -1)
      else do {
        udp \<leftarrow> iov_read data offset 8;
        (if length udp \<noteq> 8 then Some (m, -1)
         else do {
           m \<leftarrow> wr m buf (LOWPAN_NHC_UDP_PATTERN OR LOWPAN_NHC_UDP_PORT_FULL);
           m \<leftarrow> wrn m (buf + 1) (take 4 udp);
           m \<leftarrow> wrn m (buf + 5) (drop 6 udp);
           Some (m, 7) }) })"

text \<open>The option walk of \<open>__ipnh_real_length\<close>.  The loop bound is taken from the header alone,
  while \<open>offset\<close> counts from the start of the payload.  The outcomes: \<^term>\<open>Inl ()\<close> for a
  short read, else the final offset and the end of the last option that is no padding.\<close>

lemma uint_pos_step: "- 2 < uint (w :: u8)"
  by (rule less_le_trans [of _ 0]) simp_all

function tlv_walk :: "ip_iovec list \<Rightarrow> int \<Rightarrow> int \<Rightarrow> int \<Rightarrow> (unit + int \<times> int) option" where
  "tlv_walk pkt limit offset end_offset =
     (if limit \<le> offset then Some (Inr (offset, end_offset))
      else do {
        tlv \<leftarrow> iov_read pkt offset 2;
        (if length tlv \<noteq> 2 then Some (Inl ())
         else if tlv ! 0 = IPV6_TLV_PAD1 then tlv_walk pkt limit (offset + 1) end_offset
         else let offset' = offset + 2 + uint (tlv ! 1)
              in tlv_walk pkt limit offset' (if tlv ! 0 \<noteq> IPV6_TLV_PADN then offset' else end_offset)) })"
  by pat_completeness auto
termination
  by (relation "measure (\<lambda>(pkt, limit, offset, _). nat (limit - offset))")
    (auto simp: uint_pos_step nat_less_eq_zless)

definition ipnh_real_length :: "u8 \<Rightarrow> ip_iovec list \<Rightarrow> int \<Rightarrow> u8 option" where
  "ipnh_real_length type pkt offset = do {
     ext \<leftarrow> iov_read pkt offset 2;
     (if length ext \<noteq> 2 then Some (-1)
      else let full_len = (uint (ext ! 1) + 1) * 8
           in if type \<noteq> IPV6_HOP \<and> type \<noteq> IPV6_DEST then Some (word_of_int full_len)
              else do {
                r \<leftarrow> tlv_walk pkt full_len (offset + 2) (offset + 2);
                Some (case r of
                        Inl _ \<Rightarrow> -1
                      | Inr (stop, lastopt) \<Rightarrow> if stop - offset \<noteq> full_len then 0 else word_of_int (lastopt - offset)) }) }"

definition ext_eid :: "u8 \<Rightarrow> u8 option" where
  "ext_eid type =
     (if type = IPV6_HOP then Some LOWPAN_NHC_EID_HOP
      else if type = IPV6_ROUTING then Some LOWPAN_NHC_EID_ROUTING
      else if type = IPV6_FRAG then Some LOWPAN_NHC_EID_FRAG
      else if type = IPV6_DEST then Some LOWPAN_NHC_EID_DEST
      else if type = IPV6_MOBILITY then Some LOWPAN_NHC_EID_MOBILE
      else None)"

text \<open>Result: buffer, the next header type, and the return value.\<close>

definition pack_ipnh :: "mem \<Rightarrow> nat \<Rightarrow> u32 \<Rightarrow> u8 \<Rightarrow> ip_iovec list \<Rightarrow> int \<Rightarrow> (mem \<times> u8 \<times> int) option" where
  "pack_ipnh m dest cnt type data offset = do {
     ext \<leftarrow> iov_read data offset 2;
     (if length ext \<noteq> 2 then Some (m, type, -1)
      else if ucast (ext ! 1) > cnt then Some (m, type, -1)
      else do {
        m \<leftarrow> wr m dest LOWPAN_NHC_IPV6_PATTERN;
        (case ext_eid type of
           None \<Rightarrow> Some (m, type, -1)
         | Some eid \<Rightarrow> do {
             m \<leftarrow> or_at m dest eid;
             real_len \<leftarrow> ipnh_real_length type data offset;
             (if real_len = 0 then Some (m, type, -1)
              else do {
                let nxt = ext ! 0;
                (m, dest) \<leftarrow> (if compressible_ext nxt \<or> nxt = IANA_UDP
                              then do { m \<leftarrow> or_at m dest LOWPAN_NHC_NH; Some (m, dest) }
                              else do { m \<leftarrow> wr m (dest + 1) nxt; Some (m, dest + 1) });
                m \<leftarrow> wr m (dest + 1) real_len;
                bs \<leftarrow> iov_read data (offset + 2) (uint real_len - 2);
                m \<leftarrow> wrn m (dest + 2) bs;
                Some (m, nxt, if int (length bs) \<noteq> uint real_len - 2 then -1 else (uint (ext ! 1) + 1) * 8) }) }) }) }"

text \<open>The chain; every header packed moves the offset by at least eight bytes.  The result is the
  buffer, the next free offset in it, and the return value.\<close>

partial_function (option) nhc_loop ::
  "mem \<Rightarrow> nat \<Rightarrow> u32 \<Rightarrow> u8 \<Rightarrow> ip_iovec list \<Rightarrow> int \<Rightarrow> (mem \<times> nat \<times> u32 \<times> u8 \<times> int) option" where
  "nhc_loop m dest cnt nxt data offset =
     (if compressible_ext nxt then do {
        r \<leftarrow> pack_ipnh m dest cnt nxt data offset;
        (case r of (m, nxt, rv) \<Rightarrow>
           if rv < 0 then Some (m, dest, cnt, nxt, -1)
           else do {
             b \<leftarrow> rd m dest;
             let extra = (if b AND LOWPAN_NHC_NH \<noteq> 0 then 0 else 1);
             nhc_loop m (dest + nat rv + extra) (cnt - word_of_int rv) nxt data (offset + rv) }) }
      else Some (m, dest, cnt, nxt, offset))"

definition pack_nhc_chain :: "mem \<Rightarrow> nat \<Rightarrow> u32 \<Rightarrow> ip6_packet \<Rightarrow> (mem \<times> nat \<times> int) option" where
  "pack_nhc_chain m dest cnt packet = do {
     (m, dest, cnt, nxt, offset) \<leftarrow> nhc_loop m dest cnt (ip6_nxt (ip6_hdr packet)) (ip6_data packet) 0;
     (if offset < 0 then Some (m, dest, -1)
      else if nxt = IANA_UDP then do {
        (m, rv) \<leftarrow> pack_udp m dest cnt (ip6_data packet) offset;
        (if rv < 0 then Some (m, dest, -1) else Some (m, dest + nat rv, offset + 8)) }
      else Some (m, dest, offset)) }"


section \<open>Packing as writing chunks\<close>

text \<open>A buffer built from offset \<open>d\<close> on: appending at its end, updating its first two bytes.\<close>

lemma wr_end: "q = d + length xs \<Longrightarrow> q < length m \<Longrightarrow> wr (put m d xs) q b = Some (put m d (xs @ [b]))"
  using put_put [of d xs "[b]" m] by (simp add: wr_def put_single)

lemma wrn_end:
  "q = d + length xs \<Longrightarrow> q + length ys \<le> length m \<Longrightarrow> wrn (put m d xs) q ys = Some (put m d (xs @ ys))"
  using put_put [of d xs ys m] by (simp add: wrn_def)

lemma put_upd: "d + length (x # xs) \<le> length m \<Longrightarrow> (put m d (x # xs))[d := y] = put m d (y # xs)"
  by (rule nth_equalityI) (auto simp: put_nth nth_list_update nth_Cons')

lemma put_upd1: "d + length (x # z # xs) \<le> length m \<Longrightarrow> (put m d (x # z # xs))[Suc d := y] = put m d (x # y # xs)"
  by (rule nth_equalityI) (auto simp: put_nth nth_list_update nth_Cons')

lemma or_at_0: "d + length (x # xs) \<le> length m \<Longrightarrow> or_at (put m d (x # xs)) d v = Some (put m d ((x OR v) # xs))"
  by (simp add: or_at_def rd_def wr_def put_upd put_nth)

lemma or_at_1: "d + length (x # z # xs) \<le> length m \<Longrightarrow>
    or_at (put m d (x # z # xs)) (Suc d) v = Some (put m d (x # (z OR v) # xs))"
  by (simp add: or_at_def rd_def wr_def put_upd1 put_nth)

definition tc_of :: "ip6_hdr \<Rightarrow> u8" where
  "tc_of hdr = ucast (drop_bit 20 (ntohl (ip6_flow hdr)))"

definition fl_of :: "ip6_hdr \<Rightarrow> u32" where
  "fl_of hdr = ntohl (ip6_flow hdr) AND 0xfffff"

definition tcfl_flag :: "ip6_hdr \<Rightarrow> u8" where
  "tcfl_flag hdr =
     (if fl_of hdr = 0 \<and> tc_of hdr = 0 then LOWPAN_IPHC_TF_NONE
      else if fl_of hdr = 0 then LOWPAN_IPHC_TF_ECN_DSCP
      else if tc_of hdr AND 3 = tc_of hdr then LOWPAN_IPHC_TF_ECN_FL else LOWPAN_IPHC_TF_ECN_DSCP_FL)"

definition fl_bytes :: "ip6_hdr \<Rightarrow> u8 list" where
  "fl_bytes hdr = [ucast (drop_bit 8 (fl_of hdr)), ucast (fl_of hdr)]"

definition tcfl_bytes :: "ip6_hdr \<Rightarrow> u8 list" where
  "tcfl_bytes hdr =
     (let tc = tc_of hdr; top = ucast (drop_bit 16 (fl_of hdr)) AND 0x0f
      in if fl_of hdr = 0 \<and> tc = 0 then []
         else if fl_of hdr = 0 then [drop_bit 2 tc OR push_bit 6 tc]
         else if tc AND 3 = tc then (push_bit 6 tc OR top) # fl_bytes hdr
         else (drop_bit 2 tc OR push_bit 6 tc) # top # fl_bytes hdr)"

definition nh_flag :: "ip6_hdr \<Rightarrow> u8" where
  "nh_flag hdr = (if compressible_ext (ip6_nxt hdr) \<or> ip6_nxt hdr = IANA_UDP then LOWPAN_IPHC_NH_MASK else 0)"

definition nh_bytes :: "ip6_hdr \<Rightarrow> u8 list" where
  "nh_bytes hdr = (if compressible_ext (ip6_nxt hdr) \<or> ip6_nxt hdr = IANA_UDP then [] else [ip6_nxt hdr])"

definition hlim_flag :: "ip6_hdr \<Rightarrow> u8" where
  "hlim_flag hdr = (if ip6_hlim hdr = 1 then LOWPAN_IPHC_HLIM_1 else if ip6_hlim hdr = 64 then LOWPAN_IPHC_HLIM_64
     else if ip6_hlim hdr = 255 then LOWPAN_IPHC_HLIM_255 else LOWPAN_IPHC_HLIM_NONE)"

definition hlim_bytes :: "ip6_hdr \<Rightarrow> u8 list" where
  "hlim_bytes hdr = (if ip6_hlim hdr = 1 \<or> ip6_hlim hdr = 64 \<or> ip6_hlim hdr = 255 then [] else [ip6_hlim hdr])"

lemma pack_tcfl_chunk:
  assumes "p = d + length (x # xs)" "p + length (tcfl_bytes hdr) \<le> length m"
  shows "pack_tcfl (put m d (x # xs)) p hdr d =
    Some (put m d ((x OR tcfl_flag hdr) # xs @ tcfl_bytes hdr), p + length (tcfl_bytes hdr))"
  using assms
  by (auto simp: pack_tcfl_def Let_def tcfl_flag_def tcfl_bytes_def fl_bytes_def or_at_0 wr_end
      simp flip: tc_of_def fl_of_def)

lemma pack_nh_chunk:
  assumes "p = d + length (x # xs)" "p + length (nh_bytes hdr) \<le> length m"
  shows "pack_nh (put m d (x # xs)) p hdr d =
    Some (put m d ((x OR nh_flag hdr) # xs @ nh_bytes hdr), p + length (nh_bytes hdr))"
  using assms
  by (auto simp: pack_nh_def Let_def nh_flag_def nh_bytes_def or_at_0 wr_end)

lemma pack_hlim_chunk:
  assumes "p = d + length (x # xs)" "p + length (hlim_bytes hdr) \<le> length m"
  shows "pack_hlim (put m d (x # xs)) p hdr d =
    Some (put m d ((x OR hlim_flag hdr) # xs @ hlim_bytes hdr), p + length (hlim_bytes hdr))"
  using assms
  by (auto simp: pack_hlim_def Let_def hlim_flag_def hlim_bytes_def or_at_0 wr_end LOWPAN_IPHC_HLIM_NONE_def)

text \<open>On byte-aligned ranges inside an address the bit test is a test of whole bytes.\<close>

definition zero_between :: "u8 list \<Rightarrow> nat \<Rightarrow> nat \<Rightarrow> bool" where
  "zero_between a i j \<longleftrightarrow> (\<forall>k\<in>set [i..<j]. a ! k = 0)"

lemma bit_range_aligned:
  assumes "8 dvd s" "8 dvd e" "s div 8 < length a" "e div 8 < length a"
  shows "bit_range_zero_p a s e = Some (zero_between a (s div 8) (e div 8))"
proof -
  have z: "s mod 8 = 0" "e mod 8 = 0" using assms(1,2) by (simp_all add: dvd_eq_mod_eq_0)
  have m: "push_bit (8 - 0) (0xff :: u8) = 0"
    by (rule bit_word_eqI) (simp only: bit_simps, simp)
  show ?thesis
    unfolding bit_range_zero_p_def z m Let_def using assms(3,4) by (simp add: rd_def zero_between_def)
qed

definition addr_flag :: "in6_addr \<Rightarrow> nat \<Rightarrow> ieee154_addr \<Rightarrow> u16 \<Rightarrow> u8" where
  "addr_flag a ctx l2 pan =
     (if IS_LINKLOCAL a then
        if s6_addr16 a 4 = 0 \<and> s6_addr16 a 5 = 0 \<and> s6_addr16 a 6 = 0 then LOWPAN_IPHC_AM_16
        else if iid_from_l2 a l2 pan then LOWPAN_IPHC_AM_0 else LOWPAN_IPHC_AM_64
      else if 0 < ctx then
        if ctx = 128 then LOWPAN_IPHC_AC_CONTEXT OR LOWPAN_IPHC_AM_0
        else if zero_between a (ctx div 8) 14 then LOWPAN_IPHC_AC_CONTEXT OR LOWPAN_IPHC_AM_16
        else if zero_between a (ctx div 8) 8 then LOWPAN_IPHC_AC_CONTEXT OR LOWPAN_IPHC_AM_64
        else LOWPAN_IPHC_AM_128
      else if IS_UNSPECIFIED a then LOWPAN_IPHC_AC_CONTEXT OR LOWPAN_IPHC_AM_128
      else LOWPAN_IPHC_AM_128)"

definition addr_bytes :: "in6_addr \<Rightarrow> nat \<Rightarrow> ieee154_addr \<Rightarrow> u16 \<Rightarrow> u8 list" where
  "addr_bytes a ctx l2 pan =
     (if IS_LINKLOCAL a then
        if s6_addr16 a 4 = 0 \<and> s6_addr16 a 5 = 0 \<and> s6_addr16 a 6 = 0 then drop 14 a
        else if iid_from_l2 a l2 pan then [] else drop 8 a
      else if 0 < ctx then
        if ctx = 128 then []
        else if zero_between a (ctx div 8) 14 then drop 14 a
        else if zero_between a (ctx div 8) 8 then drop 8 a
        else a
      else if IS_UNSPECIFIED a then []
      else a)"

definition mc_flag :: "in6_addr \<Rightarrow> u8" where
  "mc_flag a = (if s6_addr16 a 0 = htons 0xff02 \<and> zero_between a 2 15 then LOWPAN_IPHC_AM_M_8
     else if zero_between a 2 13 then LOWPAN_IPHC_AM_M_32
     else if zero_between a 2 11 then LOWPAN_IPHC_AM_M_48 else LOWPAN_IPHC_AM_M_128)"

definition mc_bytes :: "in6_addr \<Rightarrow> u8 list" where
  "mc_bytes a = (if s6_addr16 a 0 = htons 0xff02 \<and> zero_between a 2 15 then [a ! 15]
     else if zero_between a 2 13 then a ! 1 # drop 13 a
     else if zero_between a 2 11 then a ! 1 # drop 11 a else a)"

lemma pack_address_chunk:
  assumes "p = d + length xs" "p + length (addr_bytes a ctx l2 pan) \<le> length m"
    and "addr_ok a" "8 dvd ctx" "ctx \<le> 128"
  shows "pack_address (put m d xs) p a ctx l2 pan =
    Some (put m d (xs @ addr_bytes a ctx l2 pan), p + length (addr_bytes a ctx l2 pan), addr_flag a ctx l2 pan)"
proof -
  have l: "length a = 16" using assms(3) by (simp add: addr_ok_def)
  have z: "ctx \<noteq> 128 \<Longrightarrow> bit_range_zero_p a ctx 112 = Some (zero_between a (ctx div 8) 14)"
    "ctx \<noteq> 128 \<Longrightarrow> bit_range_zero_p a ctx 64 = Some (zero_between a (ctx div 8) 8)"
    using assms(4,5) by (simp_all add: bit_range_aligned l)
  have "take 8 (drop 8 a) = drop 8 a" "take 2 (drop 14 a) = drop 14 a" "take 16 a = a"
    using l by simp_all
  with assms(1,2) show ?thesis
    by (auto simp: pack_address_def addr_bytes_def addr_flag_def z wrn_end l iphc_defs)
qed

lemma pack_multicast_chunk:
  assumes "p = d + length xs" "p + length (mc_bytes a) \<le> length m" and "addr_ok a"
  shows "pack_multicast (put m d xs) p a = Some (put m d (xs @ mc_bytes a), p + length (mc_bytes a), mc_flag a)"
proof -
  have l: "length a = 16" using assms(3) by (simp add: addr_ok_def)
  have z: "bit_range_zero_p a 16 120 = Some (zero_between a 2 15)"
    "bit_range_zero_p a 16 104 = Some (zero_between a 2 13)"
    "bit_range_zero_p a 16 88 = Some (zero_between a 2 11)"
    by (simp_all add: bit_range_aligned l)
  have "take 3 (drop 13 a) = drop 13 a" "take 5 (drop 11 a) = drop 11 a" "take 16 a = a"
    using l by simp_all
  with assms(1,2) show ?thesis
    by (auto simp: pack_multicast_def mc_bytes_def mc_flag_def z wrn_end wr_end l)
qed


section \<open>The compressed header as a whole\<close>

definition ctx_aligned :: "(in6_addr \<Rightarrow> int) \<Rightarrow> in6_addr \<Rightarrow> bool" where
  "ctx_aligned match_ctx a \<longleftrightarrow> 8 dvd match_length match_ctx a \<and> match_length match_ctx a \<le> 128"

definition iphc_d0 :: "ip6_hdr \<Rightarrow> u8" where
  "iphc_d0 hdr = LOWPAN_DISPATCH_BYTE_VAL OR tcfl_flag hdr OR nh_flag hdr OR hlim_flag hdr"

definition is_multicast :: "in6_addr \<Rightarrow> bool" where
  "is_multicast a \<longleftrightarrow> a ! 0 = 0xff"

definition src_flag :: "(in6_addr \<Rightarrow> int) \<Rightarrow> ieee154_frame_addr \<Rightarrow> ip6_hdr \<Rightarrow> u8" where
  "src_flag mc f hdr = addr_flag (ip6_src hdr) (match_length mc (ip6_src hdr)) (ieee_src f) (ieee_dstpan f)"

definition dst_flag :: "(in6_addr \<Rightarrow> int) \<Rightarrow> ieee154_frame_addr \<Rightarrow> ip6_hdr \<Rightarrow> u8" where
  "dst_flag mc f hdr =
     (if is_multicast (ip6_dst hdr) then mc_flag (ip6_dst hdr) OR LOWPAN_IPHC_AM_M
      else addr_flag (ip6_dst hdr) (match_length mc (ip6_dst hdr)) (ieee_dst f) (ieee_dstpan f))"

definition iphc_d1 :: "(in6_addr \<Rightarrow> int) \<Rightarrow> ieee154_frame_addr \<Rightarrow> ip6_hdr \<Rightarrow> u8" where
  "iphc_d1 mc f hdr = push_bit 4 (src_flag mc f hdr) OR dst_flag mc f hdr"

definition src_bytes :: "(in6_addr \<Rightarrow> int) \<Rightarrow> ieee154_frame_addr \<Rightarrow> ip6_hdr \<Rightarrow> u8 list" where
  "src_bytes mc f hdr = addr_bytes (ip6_src hdr) (match_length mc (ip6_src hdr)) (ieee_src f) (ieee_dstpan f)"

definition dst_bytes :: "(in6_addr \<Rightarrow> int) \<Rightarrow> ieee154_frame_addr \<Rightarrow> ip6_hdr \<Rightarrow> u8 list" where
  "dst_bytes mc f hdr =
     (if is_multicast (ip6_dst hdr) then mc_bytes (ip6_dst hdr)
      else addr_bytes (ip6_dst hdr) (match_length mc (ip6_dst hdr)) (ieee_dst f) (ieee_dstpan f))"

definition iphc_bytes :: "(in6_addr \<Rightarrow> int) \<Rightarrow> ieee154_frame_addr \<Rightarrow> ip6_hdr \<Rightarrow> u8 list" where
  "iphc_bytes mc f hdr = iphc_d0 hdr # iphc_d1 mc f hdr # tcfl_bytes hdr @ nh_bytes hdr @ hlim_bytes hdr
     @ src_bytes mc f hdr @ dst_bytes mc f hdr"

definition version_ok :: "ip6_hdr \<Rightarrow> bool" where
  "version_ok hdr \<longleftrightarrow> ip6_vfc hdr AND IPV6_VERSION_MASK = IPV6_VERSION"

lemma lowpan_pack_headers_chunk:
  assumes ok: "hdr_ok (ip6_hdr pkt)" "version_ok (ip6_hdr pkt)"
    and ctx: "ctx_aligned mc (ip6_src (ip6_hdr pkt))" "ctx_aligned mc (ip6_dst (ip6_hdr pkt))"
    and fit: "d + length (iphc_bytes mc f (ip6_hdr pkt)) \<le> length m"
  shows "lowpan_pack_headers mc pkt f m d cnt =
    Some (put m d (iphc_bytes mc f (ip6_hdr pkt)), Some (d + length (iphc_bytes mc f (ip6_hdr pkt))))"
proof -
  let ?h = "ip6_hdr pkt"
  have a: "addr_ok (ip6_src ?h)" "addr_ok (ip6_dst ?h)" using ok(1) by (auto simp: hdr_ok_def)
  have "wr m d LOWPAN_DISPATCH_BYTE_VAL = Some (put m d [LOWPAN_DISPATCH_BYTE_VAL])"
    using fit by (simp add: wr_def put_single iphc_bytes_def)
  moreover have "wr (put m d [LOWPAN_DISPATCH_BYTE_VAL]) (d + 1) 0 = Some (put m d [LOWPAN_DISPATCH_BYTE_VAL, 0])"
    using fit by (subst wr_end) (simp_all add: iphc_bytes_def)
  moreover have "pack_tcfl (put m d [LOWPAN_DISPATCH_BYTE_VAL, 0]) (d + 2) ?h d =
      Some (put m d ((LOWPAN_DISPATCH_BYTE_VAL OR tcfl_flag ?h) # [0] @ tcfl_bytes ?h), d + 2 + length (tcfl_bytes ?h))"
    using fit by (intro pack_tcfl_chunk) (simp_all add: iphc_bytes_def)
  moreover have "pack_nh (put m d ((LOWPAN_DISPATCH_BYTE_VAL OR tcfl_flag ?h) # [0] @ tcfl_bytes ?h)) (d + 2 + length (tcfl_bytes ?h)) ?h d =
      Some (put m d ((LOWPAN_DISPATCH_BYTE_VAL OR tcfl_flag ?h OR nh_flag ?h) # ([0] @ tcfl_bytes ?h) @ nh_bytes ?h),
        d + 2 + length (tcfl_bytes ?h) + length (nh_bytes ?h))"
    using fit by (subst pack_nh_chunk) (simp_all add: iphc_bytes_def or.assoc)
  moreover have "pack_hlim (put m d ((LOWPAN_DISPATCH_BYTE_VAL OR tcfl_flag ?h OR nh_flag ?h) # ([0] @ tcfl_bytes ?h) @ nh_bytes ?h))
        (d + 2 + length (tcfl_bytes ?h) + length (nh_bytes ?h)) ?h d =
      Some (put m d (iphc_d0 ?h # (([0] @ tcfl_bytes ?h) @ nh_bytes ?h) @ hlim_bytes ?h),
        d + 2 + length (tcfl_bytes ?h) + length (nh_bytes ?h) + length (hlim_bytes ?h))"
    using fit by (subst pack_hlim_chunk) (simp_all add: iphc_bytes_def iphc_d0_def or.assoc)
  moreover define b where "b = tcfl_bytes ?h @ nh_bytes ?h @ hlim_bytes ?h"
  moreover have "pack_address (put m d (iphc_d0 ?h # 0 # b)) (d + 2 + length b) (ip6_src ?h)
        (match_length mc (ip6_src ?h)) (ieee_src f) (ieee_dstpan f) =
      Some (put m d ((iphc_d0 ?h # 0 # b) @ src_bytes mc f ?h), d + 2 + length b + length (src_bytes mc f ?h), src_flag mc f ?h)"
    using fit ctx(1) unfolding src_bytes_def src_flag_def
    by (intro pack_address_chunk a) (simp_all add: iphc_bytes_def b_def src_bytes_def ctx_aligned_def)
  moreover have "or_at (put m d (iphc_d0 ?h # 0 # b @ src_bytes mc f ?h)) (Suc d) (push_bit 4 (src_flag mc f ?h)) =
      Some (put m d (iphc_d0 ?h # push_bit 4 (src_flag mc f ?h) # b @ src_bytes mc f ?h))"
    using fit by (subst or_at_1) (simp_all add: iphc_bytes_def b_def)
  moreover define s where "s = b @ src_bytes mc f ?h"
  moreover have "(if ip6_dst ?h ! 0 \<noteq> 0xff
      then pack_address (put m d (iphc_d0 ?h # push_bit 4 (src_flag mc f ?h) # s)) (d + 2 + length s) (ip6_dst ?h)
        (match_length mc (ip6_dst ?h)) (ieee_dst f) (ieee_dstpan f) =
          Some (put m d (iphc_d0 ?h # push_bit 4 (src_flag mc f ?h) # s @ dst_bytes mc f ?h), d + 2 + length s + length (dst_bytes mc f ?h), dst_flag mc f ?h)
      else pack_multicast (put m d (iphc_d0 ?h # push_bit 4 (src_flag mc f ?h) # s)) (d + 2 + length s) (ip6_dst ?h) =
          Some (put m d (iphc_d0 ?h # push_bit 4 (src_flag mc f ?h) # s @ dst_bytes mc f ?h), d + 2 + length s + length (dst_bytes mc f ?h), mc_flag (ip6_dst ?h)))"
    using fit ctx(2)
      pack_address_chunk [of "d + 2 + length s" d "iphc_d0 ?h # push_bit 4 (src_flag mc f ?h) # s" "ip6_dst ?h" "match_length mc (ip6_dst ?h)" "ieee_dst f" "ieee_dstpan f" m, OF _ _ a(2)]
      pack_multicast_chunk [of "d + 2 + length s" d "iphc_d0 ?h # push_bit 4 (src_flag mc f ?h) # s" "ip6_dst ?h" m, OF _ _ a(2)]
    by (auto simp: iphc_bytes_def b_def s_def dst_bytes_def dst_flag_def is_multicast_def ctx_aligned_def)
  moreover have "or_at (put m d (iphc_d0 ?h # push_bit 4 (src_flag mc f ?h) # s @ dst_bytes mc f ?h)) (Suc d) v =
      Some (put m d (iphc_d0 ?h # (push_bit 4 (src_flag mc f ?h) OR v) # s @ dst_bytes mc f ?h))" for v
    using fit by (subst or_at_1) (simp_all add: iphc_bytes_def b_def s_def)
  ultimately show ?thesis
    using ok(2)
    by (simp add: lowpan_pack_headers_def Let_def version_ok_def iphc_bytes_def iphc_d1_def dst_flag_def is_multicast_def
        add.assoc split: if_splits)
qed

end
