(* ===== verification/Iphc_Unpack.thy ===== *)
theory Iphc_Unpack
  imports Iphc_Pack
begin

text \<open>
  Header decompression, the receiving half of \<open>lib6lowpan.c\<close>.  \<open>m\<close> is the received frame,
  \<open>r\<close> the reconstruction buffer of exactly \<open>r_size\<close> bytes; pointers into either are offsets,
  with the IPv6 header at offset 0 of \<open>r\<close> (flow 0, length 4, next header 6, hop limit 7,
  source 8, destination 24).  A returned \<^term>\<open>None\<close> pointer is NULL; the whole result is
  \<^term>\<open>None\<close> when the C code leaves one of the two buffers.  \<open>read_ctx\<close> stands for the
  application's \<open>lowpan_extern_read_context\<close>: from the address and the context number to the
  address it fills in and the prefix length it returns.
\<close>

record lowpan_reconstruct =
  r_tag :: u16
  r_source_key :: u16
  r_size :: u16
  r_buf :: "(nat \<times> mem) option"
  r_bytes_rcvd :: u16
  r_timeout :: u8
  r_app_len :: "nat option"
  r_transport_header :: nat

section \<open>Header fields\<close>

definition unpack_tcfl :: "mem \<Rightarrow> nat \<Rightarrow> u8 \<Rightarrow> mem \<Rightarrow> nat \<Rightarrow> (mem \<times> nat) option" where
  "unpack_tcfl r hdr dispatch m buf =
     (let tf = dispatch AND LOWPAN_IPHC_TF_MASK in do {
        (tc, fl2, fl1, fl0, buf) \<leftarrow>
          (if tf = LOWPAN_IPHC_TF_ECN_DSCP then do {
             b \<leftarrow> rd m buf; Some (drop_bit 6 b OR push_bit 2 b, 0, 0, 0, buf + 1) }
           else if tf = LOWPAN_IPHC_TF_ECN_FL then do {
             b \<leftarrow> rd m buf; b1 \<leftarrow> rd m (buf + 1); b2 \<leftarrow> rd m (buf + 2);
             Some (drop_bit 6 b, b AND 0x0f, b1, b2, buf + 3) }
           else if tf = LOWPAN_IPHC_TF_ECN_DSCP_FL then do {
             b \<leftarrow> rd m buf; b1 \<leftarrow> rd m (buf + 1); b2 \<leftarrow> rd m (buf + 2); b3 \<leftarrow> rd m (buf + 3);
             Some (drop_bit 6 b OR push_bit 2 b, b1 AND 0x0f, b2, b3, buf + 4) }
           else Some (0, 0, 0, 0, buf));
        let flow = htonl (push_bit 28 6 OR push_bit 20 (ucast tc) OR push_bit 16 (ucast fl2)
                          OR push_bit 8 (ucast fl1) OR ucast fl0);
        r \<leftarrow> wrn r hdr (bytes32 flow);
        Some (r, buf) })"

definition unpack_nh :: "mem \<Rightarrow> nat \<Rightarrow> u8 \<Rightarrow> mem \<Rightarrow> nat \<Rightarrow> (mem \<times> nat) option" where
  "unpack_nh r hdr dispatch m buf =
     (if dispatch AND LOWPAN_IPHC_NH_MASK = 0
      then do { b \<leftarrow> rd m buf; r \<leftarrow> wr r (hdr + 6) b; Some (r, buf + 1) }
      else Some (r, buf))"

definition unpack_hlim :: "mem \<Rightarrow> nat \<Rightarrow> u8 \<Rightarrow> mem \<Rightarrow> nat \<Rightarrow> (mem \<times> nat) option" where
  "unpack_hlim r hdr dispatch m buf =
     (let hl = dispatch AND LOWPAN_IPHC_HLIM_MASK
      in if hl = LOWPAN_IPHC_HLIM_1 then do { r \<leftarrow> wr r (hdr + 7) 1; Some (r, buf) }
         else if hl = LOWPAN_IPHC_HLIM_64 then do { r \<leftarrow> wr r (hdr + 7) 64; Some (r, buf) }
         else if hl = LOWPAN_IPHC_HLIM_255 then do { r \<leftarrow> wr r (hdr + 7) 255; Some (r, buf) }
         else do { b \<leftarrow> rd m buf; r \<leftarrow> wr r (hdr + 7) b; Some (r, buf + 1) })"

text \<open>The extended address, byte-reversed, with the universal bit flipped.\<close>

definition put_eui :: "mem \<Rightarrow> nat \<Rightarrow> ieee154_addr \<Rightarrow> mem option" where
  "put_eui r addr l2 = do {
     r \<leftarrow> wrn r (addr + 8) (rev (take 8 (ieee_addr l2)));
     b \<leftarrow> rd r (addr + 8);
     wr r (addr + 8) (b XOR 2) }"

definition unpack_address ::
  "(in6_addr \<Rightarrow> int \<Rightarrow> in6_addr \<times> int) \<Rightarrow> mem \<Rightarrow> nat \<Rightarrow> u8 \<Rightarrow> int \<Rightarrow> mem \<Rightarrow> nat \<Rightarrow>
     ieee154_addr \<Rightarrow> u16 \<Rightarrow> (mem \<times> nat option) option" where
  "unpack_address read_ctx r addr dispatch context m buf l2 pan = do {
     r \<leftarrow> wrn r addr (replicate 16 0);
     let am = dispatch AND LOWPAN_IPHC_AM_MASK;
     (if dispatch AND LOWPAN_IPHC_AC_CONTEXT = 0 then
        (if am = LOWPAN_IPHC_AM_128 then do { bs \<leftarrow> rdn m buf 16; r \<leftarrow> wrn r addr bs; Some (r, Some (buf + 16)) }
         else do {
           r \<leftarrow> wr16 r addr (htons 0xfe80);
           (if am = LOWPAN_IPHC_AM_64 then do { bs \<leftarrow> rdn m buf 8; r \<leftarrow> wrn r (addr + 8) bs; Some (r, Some (buf + 8)) }
            else if am = LOWPAN_IPHC_AM_16 then do { bs \<leftarrow> rdn m buf 2; r \<leftarrow> wrn r (addr + 14) bs; Some (r, Some (buf + 2)) }
            else if ieee_mode l2 = IEEE154_ADDR_EXT then do { r \<leftarrow> put_eui r addr l2; Some (r, Some buf) }
            else do {
              r \<leftarrow> wr16 r (addr + 8) (htons (pan AND NOT 0x0200));
              r \<leftarrow> wr r (addr + 11) 0xff;
              r \<leftarrow> wr r (addr + 12) 0xfe;
              r \<leftarrow> wr16 r (addr + 14) (htons (i_saddr l2));
              Some (r, Some buf) }) })
      else if am = LOWPAN_IPHC_AM_128 then Some (r, Some buf)
      else do {
        a \<leftarrow> rdn r addr 16;
        let (a, ctxlen) = read_ctx a context;
        r \<leftarrow> wrn r addr a;
        (if am = LOWPAN_IPHC_AM_64 then do { bs \<leftarrow> rdn m buf 8; r \<leftarrow> wrn r (addr + 8) bs; Some (r, Some (buf + 8)) }
         else if am = LOWPAN_IPHC_AM_16 then do { bs \<leftarrow> rdn m buf 2; r \<leftarrow> wrn r (addr + 14) bs; Some (r, Some (buf + 2)) }
         else if ctxlen \<le> 64 \<and> ieee_mode l2 = IEEE154_ADDR_EXT then do { r \<leftarrow> put_eui r addr l2; Some (r, Some buf) }
         else if ctxlen \<le> 112 then do {
           r \<leftarrow> wrn r (addr + 8) (replicate 8 0);
           r \<leftarrow> wr16 r (addr + 14) (htons (i_saddr l2));
           Some (r, Some buf) }
         else Some (r, Some buf)) }) }"

definition unpack_multicast :: "mem \<Rightarrow> nat \<Rightarrow> u8 \<Rightarrow> int \<Rightarrow> mem \<Rightarrow> nat \<Rightarrow> (mem \<times> nat option) option" where
  "unpack_multicast r addr dispatch context m buf = do {
     r \<leftarrow> wrn r addr (replicate 16 0);
     let am = dispatch AND LOWPAN_IPHC_AM_MASK;
     let copy = (\<lambda>amount. do {
       r \<leftarrow> wr r addr 0xff;
       b \<leftarrow> rd m buf;
       r \<leftarrow> wr r (addr + 1) b;
       bs \<leftarrow> rdn m (buf + 1) amount;
       r \<leftarrow> wrn r (addr + (16 - amount)) bs;
       Some (r, Some (buf + 1 + amount)) });
     (if dispatch AND LOWPAN_IPHC_AC_CONTEXT = 0 then
        (if am = LOWPAN_IPHC_AM_M_128 then do { bs \<leftarrow> rdn m buf 16; r \<leftarrow> wrn r addr bs; Some (r, Some (buf + 16)) }
         else if am = LOWPAN_IPHC_AM_M_48 then copy 5
         else if am = LOWPAN_IPHC_AM_M_32 then copy 3
         else do {
           r \<leftarrow> wr16 r addr (htons 0xff02);
           b \<leftarrow> rd m buf;
           r \<leftarrow> wr r (addr + 15) b;
           Some (r, Some (buf + 1)) })
      else Some (r, None)) }"

section \<open>Next headers\<close>

text \<open>\<open>struct udp_hdr\<close>: ports at 0 and 2, length at 4, checksum at 6.\<close>

definition unpack_udp :: "mem \<Rightarrow> nat \<Rightarrow> nat \<Rightarrow> mem \<Rightarrow> nat \<Rightarrow> (mem \<times> nat) option" where
  "unpack_udp r dest nxt_hdr m buf = do {
     dispatch \<leftarrow> rd m buf;
     let buf = buf + 1;
     r \<leftarrow> wr r nxt_hdr IANA_UDP;
     r \<leftarrow> wr16 r (dest + 4) 0;
     r \<leftarrow> wr16 r (dest + 6) 0;
     let port = dispatch AND LOWPAN_NHC_UDP_PORT_MASK;
     b0 \<leftarrow> rd m buf;
     (r, buf) \<leftarrow>
       (if port = LOWPAN_NHC_UDP_PORT_FULL then do {
          b1 \<leftarrow> rd m (buf + 1); b2 \<leftarrow> rd m (buf + 2); b3 \<leftarrow> rd m (buf + 3);
          r \<leftarrow> wr16 r dest (htons (le16 b1 b0));
          r \<leftarrow> wr16 r (dest + 2) (htons (le16 b3 b2));
          Some (r, buf + 4) }
        else if port = LOWPAN_NHC_UDP_PORT_SRC_FULL then do {
          b1 \<leftarrow> rd m (buf + 1); b2 \<leftarrow> rd m (buf + 2);
          r \<leftarrow> wr16 r dest (htons (le16 b1 b0));
          r \<leftarrow> wr16 r (dest + 2) (htons (le16 b2 0xf0));
          Some (r, buf + 3) }
        else if port = LOWPAN_NHC_UDP_PORT_DST_FULL then do {
          b1 \<leftarrow> rd m (buf + 1); b2 \<leftarrow> rd m (buf + 2);
          r \<leftarrow> wr16 r dest (htons (le16 b0 0xf0));
          r \<leftarrow> wr16 r (dest + 2) (htons (le16 b2 b1));
          Some (r, buf + 3) }
        else do {
          r \<leftarrow> wr16 r dest (htons (0xf0b0 OR ucast (drop_bit 4 b0)));
          r \<leftarrow> wr16 r (dest + 2) (htons (0xf0b0 OR ucast (b0 AND 0xf)));
          Some (r, buf + 1) });
     (if dispatch AND LOWPAN_NHC_UDP_CKSUM = 0 then do {
        c0 \<leftarrow> rd m buf; c1 \<leftarrow> rd m (buf + 1);
        r \<leftarrow> wr16 r (dest + 6) (htons (le16 c1 c0));
        Some (r, buf + 2) }
      else Some (r, buf)) }"

definition eid_ext :: "u8 \<Rightarrow> u8 option" where
  "eid_ext eid =
     (if eid = LOWPAN_NHC_EID_HOP then Some IPV6_HOP
      else if eid = LOWPAN_NHC_EID_ROUTING then Some IPV6_ROUTING
      else if eid = LOWPAN_NHC_EID_FRAG then Some IPV6_FRAG
      else if eid = LOWPAN_NHC_EID_DEST then Some IPV6_DEST
      else if eid = LOWPAN_NHC_EID_MOBILE then Some IPV6_MOBILITY
      else if eid = LOWPAN_NHC_EID_IPV6 then Some IPV6_IPV6
      else None)"

text \<open>The test \<open>cnt < length + extra - 2\<close> compares a \<open>size_t\<close> with an \<open>int\<close>, so a length of
  zero compares as a huge number; for a length of one the \<open>memcpy\<close> size \<open>length - 2\<close> is
  negative, which no buffer satisfies.\<close>

definition unpack_ipnh :: "mem \<Rightarrow> nat \<Rightarrow> u32 \<Rightarrow> nat \<Rightarrow> mem \<Rightarrow> nat \<Rightarrow> (mem \<times> nat option) option" where
  "unpack_ipnh r dest cnt nxt_hdr m buf = do {
     dispatch \<leftarrow> rd m buf;
     (if dispatch AND LOWPAN_NHC_IPV6_MASK = LOWPAN_NHC_IPV6_PATTERN then
        (case eid_ext (dispatch AND LOWPAN_NHC_EID_MASK) of
           None \<Rightarrow> Some (r, None)
         | Some nxt \<Rightarrow> do {
             r \<leftarrow> wr r nxt_hdr nxt;
             (r, buf) \<leftarrow> (if dispatch AND LOWPAN_NHC_NH = 0
                          then do { b \<leftarrow> rd m (buf + 1); r \<leftarrow> wr r dest b; Some (r, buf + 1) }
                          else Some (r, buf));
             len \<leftarrow> rd m (buf + 1);
             let buf = buf + 2;
             let extra = (8 - len mod 8) mod 8;
             (if cnt < word_of_int (uint len + uint extra - 2) then Some (r, None)
              else if len < 2 then None
              else do {
                bs \<leftarrow> rdn m buf (unat len - 2);
                r \<leftarrow> wrn r (dest + 2) bs;
                nx \<leftarrow> rd r nxt_hdr;
                r \<leftarrow> (if nx = IPV6_HOP \<or> nx = IPV6_DEST then
                        (if extra = 1 then wr r (dest + unat len) IPV6_TLV_PAD1
                         else if extra > 1 then do {
                           r \<leftarrow> wr r (dest + unat len) IPV6_TLV_PADN;
                           wr r (dest + unat len + 1) (extra - 2) }
                         else Some r)
                      else Some r);
                r \<leftarrow> wr r (dest + 1) (word_of_int ((uint len + uint extra) div 8 - 1));
                Some (r, Some (buf + unat len + unat extra - 2)) }) })
      else if dispatch AND LOWPAN_NHC_UDP_MASK = LOWPAN_NHC_UDP_PATTERN then do {
        (r, buf) \<leftarrow> unpack_udp r dest nxt_hdr m buf;
        Some (r, Some buf) }
      else Some (r, None)) }"

text \<open>The chain: result is the buffer, the transport header, the UDP length field if there is
  one, the end of the unpacked headers, and the input pointer.\<close>

partial_function (option) unpack_nhc_chain ::
  "mem \<Rightarrow> nat \<Rightarrow> u32 \<Rightarrow> nat \<Rightarrow> mem \<Rightarrow> nat \<Rightarrow> nat option \<Rightarrow>
     (mem \<times> nat \<times> nat option \<times> nat \<times> nat option) option" where
  "unpack_nhc_chain r dest cnt nxt_hdr m buf app_len = do {
     d \<leftarrow> rd m buf;
     res \<leftarrow> unpack_ipnh r dest cnt nxt_hdr m buf;
     (case res of
        (r, None) \<Rightarrow> Some (r, dest, app_len, dest, None)
      | (r, Some buf) \<Rightarrow>
          if d AND LOWPAN_NHC_IPV6_MASK = LOWPAN_NHC_IPV6_PATTERN then do {
            elen \<leftarrow> rd r (dest + 1);
            let step = (unat elen + 1) * 8;
            (if d AND LOWPAN_NHC_NH \<noteq> 0
             then unpack_nhc_chain r (dest + step) (cnt - of_nat step) dest m buf app_len
             else Some (r, dest, app_len, dest + step, Some buf)) }
          else if d AND LOWPAN_NHC_UDP_MASK = LOWPAN_NHC_UDP_PATTERN
          then Some (r, dest, Some (dest + 4), dest + 8, Some buf)
          else Some (r, dest, app_len, dest, Some buf)) }"

section \<open>The whole header\<close>

text \<open>The IPv6 header itself; the result says where the source continues and carries the first
  dispatch byte.\<close>

definition unpack_ip6_hdr ::
  "(in6_addr \<Rightarrow> int \<Rightarrow> in6_addr \<times> int) \<Rightarrow> mem \<Rightarrow> ieee154_frame_addr \<Rightarrow> mem \<Rightarrow> nat \<Rightarrow> (mem \<times> nat option) option" where
  "unpack_ip6_hdr read_ctx r frame m start = do {
     d0 \<leftarrow> rd m start;
     (if d0 AND LOWPAN_DISPATCH_BYTE_MASK \<noteq> LOWPAN_DISPATCH_BYTE_VAL then Some (r, None)
      else do {
        d1 \<leftarrow> rd m (start + 1);
        let buf = start + 2;
        (c0, c1, buf) \<leftarrow> (if d1 AND LOWPAN_IPHC_CID_MASK \<noteq> 0
                            then do { b \<leftarrow> rd m buf; Some (uint (drop_bit 4 b), uint (b AND 0xf), buf + 1) }
                            else Some (0, 0, buf));
        (r, buf) \<leftarrow> unpack_tcfl r 0 d0 m buf;
        (r, buf) \<leftarrow> unpack_nh r 0 d0 m buf;
        (r, buf) \<leftarrow> unpack_hlim r 0 d0 m buf;
        (r, buf) \<leftarrow> unpack_address read_ctx r 8 (drop_bit 4 d1) c0 m buf (ieee_src frame) (ieee_dstpan frame);
        (case buf of
           None \<Rightarrow> Some (r, None)
         | Some buf \<Rightarrow>
             (if d1 AND LOWPAN_IPHC_M \<noteq> 0 then unpack_multicast r 24 d1 c1 m buf
              else unpack_address read_ctx r 24 d1 c1 m buf (ieee_dst frame) (ieee_dstpan frame))) }) }"

definition lowpan_unpack_headers ::
  "(in6_addr \<Rightarrow> int \<Rightarrow> in6_addr \<times> int) \<Rightarrow> lowpan_reconstruct \<Rightarrow> mem \<Rightarrow> ieee154_frame_addr \<Rightarrow> mem \<Rightarrow> nat \<Rightarrow> nat \<Rightarrow>
     (lowpan_reconstruct \<times> mem \<times> nat option) option" where
  "lowpan_unpack_headers read_ctx recon r frame m start cnt = do {
     (r, buf) \<leftarrow> unpack_ip6_hdr read_ctx r frame m start;
     (case buf of
        None \<Rightarrow> Some (recon, r, None)
      | Some buf \<Rightarrow> do {
          d0 \<leftarrow> rd m start;
          (recon, r, dest, buf) \<leftarrow>
            (if d0 AND LOWPAN_IPHC_NH_MASK \<noteq> 0 then do {
               (r, th, al, dest, buf) \<leftarrow>
                 unpack_nhc_chain r SIZEOF_IP6_HDR (ucast (r_size recon) - 40) 6 m buf (r_app_len recon);
               Some (recon\<lparr>r_transport_header := th, r_app_len := al\<rparr>, r, dest, buf) }
             else Some (recon, r, SIZEOF_IP6_HDR, Some buf));
          (case buf of
             None \<Rightarrow> Some (recon, r, None)
           | Some buf \<Rightarrow>
               if cnt < buf - start then None
               else do {
                 bs \<leftarrow> rdn m buf (cnt - (buf - start));
                 r \<leftarrow> wrn r dest bs;
                 Some (recon, r, Some (dest + (cnt - (buf - start)))) }) }) }"


section \<open>Unpacking what was packed: traffic class, flow label, next header, hop limit\<close>

lemma rot_tc: "drop_bit 6 (drop_bit 2 tc OR push_bit 6 tc) OR push_bit 2 (drop_bit 2 tc OR push_bit 6 tc) = (tc :: u8)"
proof (rule bit_word_eqI)
  fix n assume "n < LENGTH(8)"
  then show "bit (drop_bit 6 (drop_bit 2 tc OR push_bit 6 tc) OR push_bit 2 (drop_bit 2 tc OR push_bit 6 tc)) n = bit tc n"
  proof (cases "n < 2")
    case False
    then obtain k where "n = 2 + k" by (metis le_Suc_ex not_less)
    with \<open>n < LENGTH(8)\<close> show ?thesis by (auto simp: bit_simps)
  qed (auto simp: bit_simps)
qed

lemma small_tc: "tc AND 3 = tc \<Longrightarrow> drop_bit 6 (push_bit 6 tc OR (b AND 0x0f)) = (tc :: u8)"
  for b :: u8
proof -
  assume a: "tc AND 3 = tc"
  have m: "(3 :: u8) = mask 2" "(0x0f :: u8) = mask 4" by (simp_all add: mask_eq_exp_minus_1)
  have "drop_bit 6 (push_bit 6 tc OR (b AND mask 4)) = tc AND mask 2"
    by (rule bit_word_eqI) (auto simp: bit_simps)
  with a show ?thesis by (simp only: m)
qed

lemma small_tc0: "tc AND 3 = tc \<Longrightarrow> drop_bit 6 (push_bit 6 tc) = (tc :: u8)"
  using small_tc [of tc 0] by simp

lemma small_fl: "(push_bit 6 tc OR (b AND 0x0f)) AND 0x0f = b AND (0x0f :: u8)"
proof -
  have m: "(0x0f :: u8) = mask 4" by (simp add: mask_eq_exp_minus_1)
  show ?thesis unfolding m by (rule bit_word_eqI) (auto simp: bit_simps)
qed

lemma flow_join:
  assumes v: "version_ok hdr"
  shows "htonl (push_bit 28 6 OR push_bit 20 (ucast (tc_of hdr))
      OR push_bit 16 (ucast (ucast (drop_bit 16 (fl_of hdr)) AND (0x0f :: u8)))
      OR push_bit 8 (ucast (ucast (drop_bit 8 (fl_of hdr)) :: u8)) OR ucast (ucast (fl_of hdr) :: u8)) = ip6_flow hdr"
proof -
  define w where "w = ntohl (ip6_flow hdr)"
  have vfc: "ip6_vfc hdr = ucast (drop_bit 24 w)"
  proof -
    have "ip6_flow hdr = ntohl w" by (simp add: w_def)
    then have "byte32 (ip6_flow hdr) 0 = byte32 w 3"
      by (metis byte32_le32(1) byte32_le32(4) le32_byte32 ntohl_le32)
    then show ?thesis by (simp add: ip6_vfc_def byte32_def)
  qed
  have m: "(0xf0 :: u8) = push_bit 4 (mask 4)" "(0x0f :: u8) = mask 4" "(0xfffff :: u32) = mask 20"
    by (simp_all add: mask_eq_exp_minus_1)
  have top: "bit w (28 + k) \<longleftrightarrow> bit (6 :: u32) k" if "k < 4" for k
  proof -
    have "bit (ip6_vfc hdr AND 0xf0) (4 + k) \<longleftrightarrow> bit (0x60 :: u8) (4 + k)"
      using v by (simp add: version_ok_def IPV6_VERSION_def IPV6_VERSION_MASK_def)
    moreover have "bit (ip6_vfc hdr AND 0xf0) (4 + k) \<longleftrightarrow> bit w (28 + k)"
      using that unfolding vfc m by (auto simp: bit_simps)
    moreover have "bit (0x60 :: u8) (4 + k) \<longleftrightarrow> bit (6 :: u32) k"
    proof -
      have "k = 0 \<or> k = 1 \<or> k = 2 \<or> k = 3" using that by linarith
      then show ?thesis by (elim disjE) simp_all
    qed
    ultimately show ?thesis by simp
  qed
  define six where "six = (6 :: u32)"
  have "(push_bit 28 six OR push_bit 20 (ucast (tc_of hdr))
      OR push_bit 16 (ucast (ucast (drop_bit 16 (fl_of hdr)) AND (0x0f :: u8)))
      OR push_bit 8 (ucast (ucast (drop_bit 8 (fl_of hdr)) :: u8)) OR ucast (ucast (fl_of hdr) :: u8)) = w"
  proof (rule bit_word_eqI)
    fix n assume n: "n < LENGTH(32)"
    consider "n < 8" | "8 \<le> n" "n < 16" | "16 \<le> n" "n < 20" | "20 \<le> n" "n < 28" | "28 \<le> n" by linarith
    then show "bit (push_bit 28 six OR push_bit 20 (ucast (tc_of hdr))
      OR push_bit 16 (ucast (ucast (drop_bit 16 (fl_of hdr)) AND (0x0f :: u8)))
      OR push_bit 8 (ucast (ucast (drop_bit 8 (fl_of hdr)) :: u8)) OR ucast (ucast (fl_of hdr) :: u8)) n = bit w n"
    proof cases
      case 5
      then obtain k where k: "n = 28 + k" by (metis le_Suc_ex)
      with n have "k < 4" by simp
      have "\<not> bit (tc_of hdr) (8 + k)" by (auto dest: bit_imp_le_length)
      moreover have "bit (push_bit 28 six) (28 + k) \<longleftrightarrow> bit (6 :: u32) k"
        using \<open>k < 4\<close> by (simp add: bit_push_bit_iff six_def [symmetric])
      ultimately show ?thesis using top [OF \<open>k < 4\<close>] \<open>k < 4\<close>
        by (simp add: k bit_or_iff bit_push_bit_iff bit_unsigned_iff bit_and_iff bit_mask_iff bit_drop_bit_eq del: push_bit_numeral)
    qed (unfold tc_of_def fl_of_def w_def [symmetric] m(2,3), auto simp: bit_simps n)
  qed
  then show ?thesis by (simp add: w_def six_def)
qed


lemma unpack_tcfl_chunk:
  assumes h: "has_at m p (tcfl_bytes hdr)" and tf: "D AND LOWPAN_IPHC_TF_MASK = tcfl_flag hdr"
    and v: "version_ok hdr" and r: "4 \<le> length r"
  shows "unpack_tcfl r 0 D m p = Some (put r 0 (bytes32 (ip6_flow hdr)), p + length (tcfl_bytes hdr))"
proof -
  have ne: "LOWPAN_IPHC_TF_NONE \<noteq> LOWPAN_IPHC_TF_ECN_DSCP" "LOWPAN_IPHC_TF_NONE \<noteq> LOWPAN_IPHC_TF_ECN_FL"
    "LOWPAN_IPHC_TF_NONE \<noteq> LOWPAN_IPHC_TF_ECN_DSCP_FL" "LOWPAN_IPHC_TF_ECN_FL \<noteq> LOWPAN_IPHC_TF_ECN_DSCP"
    "LOWPAN_IPHC_TF_ECN_DSCP_FL \<noteq> LOWPAN_IPHC_TF_ECN_DSCP" "LOWPAN_IPHC_TF_ECN_DSCP_FL \<noteq> LOWPAN_IPHC_TF_ECN_FL"
    by (simp_all add: iphc_defs)
  note j = flow_join [OF v]
  consider (none) "fl_of hdr = 0" "tc_of hdr = 0" | (tc) "fl_of hdr = 0" "tc_of hdr \<noteq> 0"
    | (fl) "fl_of hdr \<noteq> 0" "tc_of hdr AND 3 = tc_of hdr" | (both) "fl_of hdr \<noteq> 0" "tc_of hdr AND 3 \<noteq> tc_of hdr"
    by blast
  then show ?thesis
  proof cases
    case none
    then show ?thesis using j r ne
      by (simp add: unpack_tcfl_def tf tcfl_flag_def tcfl_bytes_def wrn_def)
  next
    case tc
    then have b: "rd m p = Some (drop_bit 2 (tc_of hdr) OR push_bit 6 (tc_of hdr))"
      using h by (auto simp: tcfl_bytes_def Let_def has_at_Cons rd_def)
    show ?thesis using j r ne tc b
      by (simp add: unpack_tcfl_def tf tcfl_flag_def tcfl_bytes_def wrn_def Let_def rot_tc rot_tc [simplified])
  next
    case fl
    have b: "rd m p = Some (push_bit 6 (tc_of hdr) OR (ucast (drop_bit 16 (fl_of hdr)) AND 0x0f))"
      "rd m (p + 1) = Some (ucast (drop_bit 8 (fl_of hdr)))" "rd m (p + 2) = Some (ucast (fl_of hdr))"
      using h fl by (auto simp: tcfl_bytes_def Let_def has_at_Cons rd_def fl_bytes_def)
    show ?thesis using j r ne fl b
      by (simp add: unpack_tcfl_def tf tcfl_flag_def tcfl_bytes_def Let_def wrn_def small_tc small_tc0 small_fl fl_bytes_def)
  next
    case both
    have b: "rd m p = Some (drop_bit 2 (tc_of hdr) OR push_bit 6 (tc_of hdr))"
      "rd m (p + 1) = Some (ucast (drop_bit 16 (fl_of hdr)) AND 0x0f)"
      "rd m (p + 2) = Some (ucast (drop_bit 8 (fl_of hdr)))" "rd m (p + 3) = Some (ucast (fl_of hdr))"
      using h both by (auto simp: tcfl_bytes_def Let_def has_at_Cons rd_def fl_bytes_def numeral_3_eq_3)
    have idem: "(x AND 0x0f) AND 0x0f = x AND (0x0f :: u8)" for x by simp
    show ?thesis using j r ne both b
      by (simp add: unpack_tcfl_def tf tcfl_flag_def tcfl_bytes_def Let_def wrn_def rot_tc rot_tc [simplified] idem fl_bytes_def)
  qed
qed

lemma unpack_nh_chunk:
  assumes h: "has_at m p (nh_bytes hdr)" and nh: "D AND LOWPAN_IPHC_NH_MASK = nh_flag hdr" and r: "40 \<le> length r"
  shows "unpack_nh r 0 D m p =
    Some (if nh_flag hdr = 0 then r[6 := ip6_nxt hdr] else r, p + length (nh_bytes hdr))"
proof (cases "compressible_ext (ip6_nxt hdr) \<or> ip6_nxt hdr = IANA_UDP")
  case True
  then have "nh_flag hdr = 4" "nh_bytes hdr = []" by (auto simp: nh_flag_def nh_bytes_def iphc_defs)
  then show ?thesis using nh by (simp add: unpack_nh_def)
next
  case False
  then have "nh_flag hdr = 0" "nh_bytes hdr = [ip6_nxt hdr]" by (auto simp: nh_flag_def nh_bytes_def)
  then show ?thesis using nh h r by (simp add: unpack_nh_def rd_has_at wr_def)
qed

lemma unpack_hlim_chunk:
  assumes h: "has_at m p (hlim_bytes hdr)" and hl: "D AND LOWPAN_IPHC_HLIM_MASK = hlim_flag hdr" and r: "40 \<le> length r"
  shows "unpack_hlim r 0 D m p = Some (r[7 := ip6_hlim hdr], p + length (hlim_bytes hdr))"
  using assms by (auto simp: unpack_hlim_def hlim_flag_def hlim_bytes_def iphc_defs wr_def rd_has_at)

text \<open>The first dispatch byte carries its three fields apart.\<close>

lemma d0_fields:
  "iphc_d0 hdr AND LOWPAN_IPHC_TF_MASK = tcfl_flag hdr"
  "iphc_d0 hdr AND LOWPAN_IPHC_NH_MASK = nh_flag hdr"
  "iphc_d0 hdr AND LOWPAN_IPHC_HLIM_MASK = hlim_flag hdr"
  "iphc_d0 hdr AND LOWPAN_DISPATCH_BYTE_MASK = LOWPAN_DISPATCH_BYTE_VAL"
proof -
  have "tcfl_flag hdr \<in> {0x18, 0x10, 8, 0}" "nh_flag hdr \<in> {4, 0}" "hlim_flag hdr \<in> {1, 2, 3, 0}"
    by (auto simp: tcfl_flag_def nh_flag_def hlim_flag_def iphc_defs)
  then show "iphc_d0 hdr AND LOWPAN_IPHC_TF_MASK = tcfl_flag hdr"
    "iphc_d0 hdr AND LOWPAN_IPHC_NH_MASK = nh_flag hdr"
    "iphc_d0 hdr AND LOWPAN_IPHC_HLIM_MASK = hlim_flag hdr"
    "iphc_d0 hdr AND LOWPAN_DISPATCH_BYTE_MASK = LOWPAN_DISPATCH_BYTE_VAL"
    by (auto simp: iphc_d0_def iphc_defs)
qed

section \<open>Unpacking what was packed: addresses\<close>

lemma eui_rev:
  assumes "length e = 8" "iid_eui_cmp [i0, i1, i2, i3, i4, i5, i6, i7] e"
  shows "rev e = [i0 XOR 2, i1, i2, i3, i4, i5, i6, i7]"
proof -
  obtain e0 e1 e2 e3 e4 e5 e6 e7 where "e = [e0, e1, e2, e3, e4, e5, e6, e7]"
    using assms(1) by (auto simp: length_Suc_ex eval_nat_numeral)
  then show ?thesis using assms(2) by (simp add: iid_eui_cmp_def xor.assoc eval_nat_numeral)
qed

text \<open>What the receiving context must say for an address the sending context matched: the first
  bytes of the address and the length of the match.\<close>

definition ctx_agree ::
  "(in6_addr \<Rightarrow> int) \<Rightarrow> (in6_addr \<Rightarrow> int \<Rightarrow> in6_addr \<times> int) \<Rightarrow> in6_addr \<Rightarrow> bool" where
  "ctx_agree match_ctx read_ctx a \<longleftrightarrow>
     (let L = match_length match_ctx a
      in 8 dvd L \<and> L \<le> 128 \<and>
         (0 < L \<longrightarrow> read_ctx (replicate 16 0) 0 = (take (L div 8) a @ replicate (16 - L div 8) 0, int L)))"

lemma addr_flag_fields:
  "addr_flag a L l2 pan AND LOWPAN_IPHC_AM_MASK \<in> {0, 1, 2, 3}"
  "addr_flag a L l2 pan < 8"
  by (auto simp: addr_flag_def iphc_defs)

lemma prefix_fill:
  assumes "length a = 16" "zero_between a n k" "n \<le> k" "k \<le> 16"
  shows "put (take n a @ replicate (16 - n) 0) k (drop k a) = a"
proof (rule nth_equalityI)
  show "length (put (take n a @ replicate (16 - n) 0) k (drop k a)) = length a"
    using assms by simp
  fix i assume "i < length (put (take n a @ replicate (16 - n) 0) k (drop k a))"
  then have i: "i < 16" using assms by simp
  have "n \<le> i \<Longrightarrow> i < k \<Longrightarrow> a ! i = 0" using assms(2) by (simp add: zero_between_def)
  then show "put (take n a @ replicate (16 - n) 0) k (drop k a) ! i = a ! i"
    using assms i by (auto simp: put_nth nth_append not_le)
qed

lemma prefix_fill_long:
  assumes "length a = 16" "k \<le> n" "n \<le> 16"
  shows "put (take n a @ replicate (16 - n) 0) k (drop k a) = a"
  using assms by (intro nth_equalityI) (auto simp: put_nth nth_append not_le)


lemma put_eui_inside:
  assumes "length xs = 16" "p + 16 \<le> length r" "length (ieee_addr l2) = 8"
  shows "put_eui (put r p xs) p l2 =
    Some (put r p ((put xs 8 (rev (ieee_addr l2)))[8 := rev (ieee_addr l2) ! 0 XOR 2]))"
  using assms
  by (simp add: put_eui_def wrn_inside rd_inside wr_inside put_nth)

text \<open>Within the first 16 bytes of a zeroed address field.\<close>

lemma unpack_address_linklocal:
  assumes a: "addr_ok a" "IS_LINKLOCAL a" and h: "has_at m p (addr_bytes a L l2 pan)"
    and D: "D AND LOWPAN_IPHC_AM_MASK = addr_flag a L l2 pan AND LOWPAN_IPHC_AM_MASK"
      "D AND LOWPAN_IPHC_AC_CONTEXT = addr_flag a L l2 pan AND LOWPAN_IPHC_AC_CONTEXT"
    and l2: "ieee_same l2 l2'" "ieee_ok l2" "ieee_ok l2'" and q: "q + 16 \<le> length r"
  shows "unpack_address rc r q D c m p l2' pan = Some (put r q a, Some (p + length (addr_bytes a L l2 pan)))"
proof -
  have fe: "htons 0xfe80 = le16 0xfe 0x80"
  proof -
    have "(0xfe80 :: u16) = le16 0x80 0xfe" by (simp add: le16_def)
    then show ?thesis by (simp only: htons_le16)
  qed
  obtain a8 a9 a10 a11 a12 a13 a14 a15 where
    aa: "a = [0xfe, 0x80, 0, 0, 0, 0, 0, 0, a8, a9, a10, a11, a12, a13, a14, a15]"
  proof (rule addr_cases [OF a(1)])
    fix a0 a1 a2 a3 a4 a5 a6 a7 a8 a9 a10 a11 a12 a13 a14 a15
    assume x: "a = [a0, a1, a2, a3, a4, a5, a6, a7, a8, a9, a10, a11, a12, a13, a14, a15]"
    have "a = [0xfe, 0x80, 0, 0, 0, 0, 0, 0, a8, a9, a10, a11, a12, a13, a14, a15]"
      using a(2) by (simp add: x IS_LINKLOCAL_def s6_addr16_def fe)
    then show ?thesis by (rule that)
  qed
  have z: "wrn r q (replicate 16 0) = Some (put r q (replicate 16 0))" using q by (simp add: wrn_def)
  have pre: "wr16 (put r q (replicate 16 0)) q (htons 0xfe80) = Some (put r q (0xfe # 0x80 # replicate 14 0))"
    using wr16_inside [of 0 "replicate 16 0" q r "htons 0xfe80"] q
    by (simp add: fe put_def eval_nat_numeral)
  show ?thesis
  proof (cases "s6_addr16 a 4 = 0 \<and> s6_addr16 a 5 = 0 \<and> s6_addr16 a 6 = 0")
    case True
    then have z8: "a8 = 0" "a9 = 0" "a10 = 0" "a11 = 0" "a12 = 0" "a13 = 0"
      by (auto simp: aa s6_addr16_def)
    have fl: "addr_flag a L l2 pan = LOWPAN_IPHC_AM_16" "addr_bytes a L l2 pan = [a14, a15]"
      using True a(2) by (auto simp: addr_flag_def addr_bytes_def aa)
    have rd: "rdn m p 2 = Some [a14, a15]" using rdn_has_at [OF h] by (simp add: fl numeral_2_eq_2)
    have "wrn (put r q (0xfe # 0x80 # replicate 14 0)) (q + 14) [a14, a15] = Some (put r q a)"
      using q by (subst wrn_inside) (simp_all add: aa z8 put_def eval_nat_numeral)
    then show ?thesis using D by (simp add: unpack_address_def z pre fl rd iphc_defs)
  next
    case n16: False
    show ?thesis
    proof (cases "iid_from_l2 a l2 pan")
      case False
      have fl: "addr_flag a L l2 pan = LOWPAN_IPHC_AM_64" "addr_bytes a L l2 pan = drop 8 a"
        using n16 False a(2) by (auto simp: addr_flag_def addr_bytes_def)
      have "length (drop 8 a) = 8" by (simp add: aa)
      then have rd: "rdn m p 8 = Some (drop 8 a)" using rdn_has_at [OF h] unfolding fl by simp
      have "wrn (put r q (0xfe # 0x80 # replicate 14 0)) (q + 8) (drop 8 a) = Some (put r q a)"
        using q by (subst wrn_inside) (simp_all add: aa put_def eval_nat_numeral)
      then show ?thesis using D by (simp add: unpack_address_def z pre fl rd iphc_defs) (simp add: aa)
    next
      case True
      have fl: "addr_flag a L l2 pan = LOWPAN_IPHC_AM_0" "addr_bytes a L l2 pan = []"
        using n16 True a(2) by (auto simp: addr_flag_def addr_bytes_def)
      show ?thesis
      proof (cases "ieee_mode l2 = IEEE154_ADDR_EXT")
        case ext: True
        have e: "ieee_addr l2' = ieee_addr l2" "length (ieee_addr l2) = 8" "ieee_mode l2' = IEEE154_ADDR_EXT"
          using l2 ext by (auto simp: ieee_same_def ieee_addr_bytes_def ieee_ok_def ieee_defs)
        have "iid_eui_cmp [a8, a9, a10, a11, a12, a13, a14, a15] (ieee_addr l2)"
          using True ext by (auto simp: iid_from_l2_def ieee_defs aa)
        from eui_rev [OF e(2) this] have re: "rev (ieee_addr l2) = [a8 XOR 2, a9, a10, a11, a12, a13, a14, a15]" .
        have "put_eui (put r q (0xfe # 0x80 # replicate 14 0)) q l2' = Some (put r q a)"
          using q e by (subst put_eui_inside) (simp_all add: re aa put_def eval_nat_numeral xor.assoc)
        then show ?thesis using D e by (simp add: unpack_address_def z pre fl iphc_defs)
      next
        case sh: False
        then have m2: "ieee_mode l2 = IEEE154_ADDR_SHORT" using True by (auto simp: iid_from_l2_def)
        have i: "i_saddr l2' = i_saddr l2" "ieee_mode l2' \<noteq> IEEE154_ADDR_EXT"
          using l2 m2 take_2 [of "ieee_addr l2"] take_2 [of "ieee_addr l2'"]
          by (auto simp: ieee_same_def ieee_addr_bytes_def ieee_ok_def i_saddr_def ieee_defs)
        have w: "le16 a8 a9 = htons (pan AND NOT 0x0200)" "a10 = 0" "a11 = 0xff" "a12 = 0xfe" "a13 = 0"
          "le16 a14 a15 = htons (i_saddr l2)"
        proof -
          have c: "htons 0x00ff = le16 0 0xff" "htons 0xfe00 = le16 0xfe 0"
          proof -
            have "(0xff :: u16) = le16 0xff 0" "(0xfe00 :: u16) = le16 0 0xfe" by (simp_all add: le16_def)
            then show "htons 0x00ff = le16 0 0xff" "htons 0xfe00 = le16 0xfe 0" by (simp_all only: htons_le16)
          qed
          show "le16 a8 a9 = htons (pan AND NOT 0x0200)" "a10 = 0" "a11 = 0xff" "a12 = 0xfe" "a13 = 0"
            "le16 a14 a15 = htons (i_saddr l2)"
            using True sh by (auto simp: iid_from_l2_def aa s6_addr16_def c)
        qed
        have b: "lo8 (htons (pan AND NOT 0x0200)) = a8" "hi8 (htons (pan AND NOT 0x0200)) = a9"
          "lo8 (htons (i_saddr l2)) = a14" "hi8 (htons (i_saddr l2)) = a15"
          by (simp_all only: w(1,6) [symmetric] lo8_le16 hi8_le16)
        let ?x = "0xfe # 0x80 # replicate 14 0 :: u8 list"
        have s1: "wr16 (put r q ?x) (q + 8) (htons (pan AND NOT 0x0200)) =
            Some (put r q [0xfe, 0x80, 0, 0, 0, 0, 0, 0, a8, a9, 0, 0, 0, 0, 0, 0])"
          using q by (subst wr16_inside) (simp_all only: b, simp_all add: put_def eval_nat_numeral)
        have s2: "wr (put r q [0xfe, 0x80, 0, 0, 0, 0, 0, 0, a8, a9, 0, 0, 0, 0, 0, 0]) (q + 11) 0xff =
            Some (put r q [0xfe, 0x80, 0, 0, 0, 0, 0, 0, a8, a9, 0, 0xff, 0, 0, 0, 0])"
          using q by (subst wr_inside) (simp_all add: eval_nat_numeral)
        have s3: "wr (put r q [0xfe, 0x80, 0, 0, 0, 0, 0, 0, a8, a9, 0, 0xff, 0, 0, 0, 0]) (q + 12) 0xfe =
            Some (put r q [0xfe, 0x80, 0, 0, 0, 0, 0, 0, a8, a9, 0, 0xff, 0xfe, 0, 0, 0])"
          using q by (subst wr_inside) (simp_all add: eval_nat_numeral)
        have s4: "wr16 (put r q [0xfe, 0x80, 0, 0, 0, 0, 0, 0, a8, a9, 0, 0xff, 0xfe, 0, 0, 0]) (q + 14) (htons (i_saddr l2)) =
            Some (put r q a)"
          using q by (subst wr16_inside) (simp_all only: b, simp_all add: put_def eval_nat_numeral aa w)
        show ?thesis using D i by (simp add: unpack_address_def z pre fl iphc_defs s1 [simplified] s2 s3 s4)
      qed
    qed
  qed
qed


lemma unpack_address_global:
  assumes a: "addr_ok a" "\<not> IS_LINKLOCAL a" and L: "L = match_length mc a" "ctx_agree mc rc a"
    and h: "has_at m p (addr_bytes a L l2 pan)"
    and D: "D AND LOWPAN_IPHC_AM_MASK = addr_flag a L l2 pan AND LOWPAN_IPHC_AM_MASK"
      "D AND LOWPAN_IPHC_AC_CONTEXT = addr_flag a L l2 pan AND LOWPAN_IPHC_AC_CONTEXT"
    and q: "q + 16 \<le> length r"
  shows "unpack_address rc r q D 0 m p l2' pan = Some (put r q a, Some (p + length (addr_bytes a L l2 pan)))"
proof -
  have len: "length a = 16" using a(1) by (simp add: addr_ok_def)
  have z: "wrn r q (replicate 16 0) = Some (put r q (replicate 16 0))" using q by (simp add: wrn_def)
  have rz: "rdn (put r q (replicate 16 0)) q 16 = Some (replicate 16 0)"
    using rdn_inside [of q "replicate 16 0" r] q by simp
  have Lb: "L \<le> 128" "8 dvd L" using L by (auto simp: ctx_agree_def Let_def)
  show ?thesis
  proof (cases "0 < L")
    case pos: True
    let ?pre = "take (L div 8) a @ replicate (16 - L div 8) 0"
    have L8: "L div 8 \<le> 16" using Lb(1) by simp
    have rc: "rc (replicate 16 0) 0 = (?pre, int L)" using L pos by (simp add: ctx_agree_def Let_def)
    have lp: "length ?pre = 16" using len L8 by simp
    have w: "wrn (put r q (replicate 16 0)) q ?pre = Some (put r q ?pre)"
      using q lp put_over [of "replicate 16 0" ?pre q r] by (simp add: wrn_def)
    have full: "put r q ?pre = put r q a" if "L = 128" using that len by simp
    have ins: "wrn (put r q ?pre) (q + k) (drop k a) = Some (put r q (put ?pre k (drop k a)))" if "k \<le> 16" for k
      using that q lp len by (intro wrn_inside) auto
    have short: "put ?pre 14 (drop 14 a) = a" if "zero_between a (L div 8) 14"
    proof (cases "L div 8 \<le> 14")
      case True
      then show ?thesis using that len by (intro prefix_fill) auto
    next
      case False
      then show ?thesis using len L8 by (intro prefix_fill_long) auto
    qed
    have wide: "put ?pre 8 (drop 8 a) = a" if "zero_between a (L div 8) 8"
    proof (cases "L div 8 \<le> 8")
      case True
      then show ?thesis using that len by (intro prefix_fill) auto
    next
      case False
      then show ?thesis using len L8 by (intro prefix_fill_long) auto
    qed
    consider (c0) "L = 128" | (c16) "L \<noteq> 128" "zero_between a (L div 8) 14"
      | (c64) "L \<noteq> 128" "\<not> zero_between a (L div 8) 14" "zero_between a (L div 8) 8"
      | (all) "L \<noteq> 128" "\<not> zero_between a (L div 8) 14" "\<not> zero_between a (L div 8) 8" by blast
    then show ?thesis
    proof cases
      case c0
      then have fl: "addr_flag a L l2 pan = LOWPAN_IPHC_AC_CONTEXT OR LOWPAN_IPHC_AM_0" "addr_bytes a L l2 pan = []"
        using a(2) by (auto simp: addr_flag_def addr_bytes_def)
      have "\<not> int L \<le> 64" "\<not> int L \<le> 112" using c0 by simp_all
      then show ?thesis using D rc w full [OF c0]
        by (simp add: unpack_address_def z rz fl iphc_defs)
    next
      case c16
      then have fl: "addr_flag a L l2 pan = LOWPAN_IPHC_AC_CONTEXT OR LOWPAN_IPHC_AM_16" "addr_bytes a L l2 pan = drop 14 a"
        using a(2) pos by (auto simp: addr_flag_def addr_bytes_def)
      have rd: "rdn m p 2 = Some (drop 14 a)" using rdn_has_at [OF h] len by (simp add: fl)
      show ?thesis using D rc w rd ins [of 14] short c16 len
        by (simp add: unpack_address_def z rz fl iphc_defs)
    next
      case c64
      then have fl: "addr_flag a L l2 pan = LOWPAN_IPHC_AC_CONTEXT OR LOWPAN_IPHC_AM_64" "addr_bytes a L l2 pan = drop 8 a"
        using a(2) pos by (auto simp: addr_flag_def addr_bytes_def)
      have rd: "rdn m p 8 = Some (drop 8 a)" using rdn_has_at [OF h] len by (simp add: fl)
      show ?thesis using D rc w rd ins [of 8] wide c64 len
        by (simp add: unpack_address_def z rz fl iphc_defs)
    next
      case all
      then have fl: "addr_flag a L l2 pan = LOWPAN_IPHC_AM_128" "addr_bytes a L l2 pan = a"
        using a(2) pos by (auto simp: addr_flag_def addr_bytes_def)
      have rd: "rdn m p 16 = Some a" using rdn_has_at [OF h] len by (simp add: fl)
      have "wrn (put r q (replicate 16 0)) q a = Some (put r q a)"
        using q len put_over [of "replicate 16 0" a q r] by (simp add: wrn_def)
      then show ?thesis using D rd len by (simp add: unpack_address_def z fl iphc_defs)
    qed
  next
    case no: False
    show ?thesis
    proof (cases "IS_UNSPECIFIED a")
      case True
      then have fl: "addr_flag a L l2 pan = LOWPAN_IPHC_AC_CONTEXT OR LOWPAN_IPHC_AM_128" "addr_bytes a L l2 pan = []"
        using a(2) no by (auto simp: addr_flag_def addr_bytes_def)
      have "a = replicate 16 0"
        using True by (rule_tac addr_cases [OF a(1)]) (simp add: IS_UNSPECIFIED_def s6_addr16_def upt_rec eval_nat_numeral)
      then have pa: "put r q (replicate 16 0) = put r q a" by simp
      show ?thesis using D by (simp add: unpack_address_def z fl iphc_defs pa)
    next
      case False
      then have fl: "addr_flag a L l2 pan = LOWPAN_IPHC_AM_128" "addr_bytes a L l2 pan = a"
        using a(2) no by (auto simp: addr_flag_def addr_bytes_def)
      have rd: "rdn m p 16 = Some a" using rdn_has_at [OF h] len by (simp add: fl)
      have "wrn (put r q (replicate 16 0)) q a = Some (put r q a)"
        using q len put_over [of "replicate 16 0" a q r] by (simp add: wrn_def)
      then show ?thesis using D rd len by (simp add: unpack_address_def z fl iphc_defs)
    qed
  qed
qed

lemma unpack_multicast_chunk:
  assumes a: "addr_ok a" "is_multicast a" and h: "has_at m p (mc_bytes a)"
    and D: "D AND LOWPAN_IPHC_AM_MASK = mc_flag a" "D AND LOWPAN_IPHC_AC_CONTEXT = 0"
    and q: "q + 16 \<le> length r"
  shows "unpack_multicast r q D c m p = Some (put r q a, Some (p + length (mc_bytes a)))"
proof -
  obtain a1 a2 a3 a4 a5 a6 a7 a8 a9 a10 a11 a12 a13 a14 a15 where
    aa: "a = [0xff, a1, a2, a3, a4, a5, a6, a7, a8, a9, a10, a11, a12, a13, a14, a15]"
    using a(2) by (rule_tac addr_cases [OF a(1)]) (simp add: is_multicast_def)
  have z: "wrn r q (replicate 16 0) = Some (put r q (replicate 16 0))" using q by (simp add: wrn_def)
  have ff: "htons 0xff02 = le16 0xff 2"
  proof -
    have "(0xff02 :: u16) = le16 2 0xff" by (simp add: le16_def)
    then show ?thesis by (simp only: htons_le16)
  qed
  have copy: "do { r \<leftarrow> wr (put r q (replicate 16 0)) q 0xff; b \<leftarrow> rd m p; r \<leftarrow> wr r (q + 1) b;
         bs \<leftarrow> rdn m (p + 1) k; r \<leftarrow> wrn r (q + (16 - k)) bs; Some (r, Some (p + 1 + k)) } =
      Some (put r q (put (0xff # a1 # replicate 14 0) (16 - k) (drop (16 - k) a)), Some (p + 1 + k))"
    if b: "has_at m p (a1 # drop (16 - k) a)" and k: "k \<le> 16" for k
  proof -
    have "rd m p = Some a1" using b by (rule rd_has_at)
    moreover have "rdn m (p + 1) k = Some (drop (16 - k) a)"
      using b k rdn_has_at [of m "p + 1" "drop (16 - k) a"] by (simp add: has_at_Cons aa)
    moreover have "wr (put r q (replicate 16 0)) q 0xff = Some (put r q (0xff # replicate 15 0))"
      using wr_inside [of 0 "replicate 16 0" q r] q by (simp add: eval_nat_numeral)
    moreover have "wr (put r q (0xff # replicate 15 0)) (q + 1) a1 = Some (put r q (0xff # a1 # replicate 14 0))"
      using wr_inside [of 1 "0xff # replicate 15 0" q r] q by (simp add: eval_nat_numeral)
    moreover have "wrn (put r q (0xff # a1 # replicate 14 0)) (q + (16 - k)) (drop (16 - k) a) =
        Some (put r q (put (0xff # a1 # replicate 14 0) (16 - k) (drop (16 - k) a)))"
      using q k by (intro wrn_inside) (auto simp: aa)
    ultimately show ?thesis by simp
  qed
  consider (m8) "s6_addr16 a 0 = htons 0xff02" "zero_between a 2 15"
    | (m32) "\<not> (s6_addr16 a 0 = htons 0xff02 \<and> zero_between a 2 15)" "zero_between a 2 13"
    | (m48) "\<not> (s6_addr16 a 0 = htons 0xff02 \<and> zero_between a 2 15)" "\<not> zero_between a 2 13" "zero_between a 2 11"
    | (all) "\<not> (s6_addr16 a 0 = htons 0xff02 \<and> zero_between a 2 15)" "\<not> zero_between a 2 13" "\<not> zero_between a 2 11"
    by blast
  then show ?thesis
  proof cases
    case m8
    then have fl: "mc_flag a = LOWPAN_IPHC_AM_M_8" "mc_bytes a = [a15]" by (auto simp: mc_flag_def mc_bytes_def aa)
    have zs: "a1 = 2" "a = 0xff # 2 # replicate 13 0 @ [a15]"
      using m8 by (auto simp: aa s6_addr16_def ff zero_between_def upt_rec eval_nat_numeral)
    have "rd m p = Some a15" using h by (simp add: fl rd_has_at)
    moreover have "wr16 (put r q (replicate 16 0)) q (htons 0xff02) = Some (put r q (0xff # 2 # replicate 14 0))"
      using wr16_inside [of 0 "replicate 16 0" q r "htons 0xff02"] q by (simp add: ff put_def eval_nat_numeral)
    moreover have "wr (put r q (0xff # 2 # replicate 14 0)) (q + 15) a15 = Some (put r q a)"
      using q by (subst wr_inside) (simp_all add: zs(2) eval_nat_numeral)
    ultimately show ?thesis using D by (simp add: unpack_multicast_def z fl iphc_defs)
  next
    case m32
    then have fl: "mc_flag a = LOWPAN_IPHC_AM_M_32" "mc_bytes a = a1 # drop 13 a" by (auto simp: mc_flag_def mc_bytes_def aa)
    have "put (0xff # a1 # replicate 14 0) 13 (drop 13 a) = a"
      using m32 by (simp add: aa zero_between_def upt_rec put_def eval_nat_numeral)
    then show ?thesis using D copy [of 3] h
      by (simp add: unpack_multicast_def z fl iphc_defs Let_def) (simp add: aa)
  next
    case m48
    then have fl: "mc_flag a = LOWPAN_IPHC_AM_M_48" "mc_bytes a = a1 # drop 11 a" by (auto simp: mc_flag_def mc_bytes_def aa)
    have "put (0xff # a1 # replicate 14 0) 11 (drop 11 a) = a"
      using m48 by (simp add: aa zero_between_def upt_rec put_def eval_nat_numeral)
    then show ?thesis using D copy [of 5] h
      by (simp add: unpack_multicast_def z fl iphc_defs Let_def) (simp add: aa)
  next
    case all
    then have fl: "mc_flag a = LOWPAN_IPHC_AM_M_128" "mc_bytes a = a" by (auto simp: mc_flag_def mc_bytes_def)
    have len: "length a = 16" by (simp add: aa)
    have rd: "rdn m p 16 = Some a" using rdn_has_at [OF h] len by (simp add: fl)
    have "wrn (put r q (replicate 16 0)) q a = Some (put r q a)"
      using q len put_over [of "replicate 16 0" a q r] by (simp add: wrn_def)
    then show ?thesis using D rd len by (simp add: unpack_multicast_def z fl iphc_defs Let_def)
  qed
qed

end
