(* ===== verification/Iphc_Roundtrip.thy ===== *)
theory Iphc_Roundtrip
  imports Iphc_Unpack
begin

text \<open>
  What the sender compresses the receiver restores: the round trip of the IPHC header, of the
  UDP header and of one extension header, and the cases in which the code of
  \<open>lib6lowpan.c\<close> cannot restore or cannot send a header.
\<close>

section \<open>The IPv6 header\<close>

text \<open>The second dispatch byte carries source flags, destination flags and the multicast bit.\<close>

lemma u8_small: "(w :: u8) < 8 \<Longrightarrow> w \<in> {0, 1, 2, 3, 4, 5, 6, 7}"
proof -
  assume "w < 8"
  then have "unat w < 8" by (simp add: word_less_nat_alt)
  then have "unat w \<in> unat ` {0 :: u8, 1, 2, 3, 4, 5, 6, 7}" by auto
  then show ?thesis by (auto simp only: inj_image_mem_iff [OF inj_on_subset [OF inj_unsigned]] word_unat_eq_iff image_iff)
qed

lemma mc_flag_small: "mc_flag a \<in> {0, 1, 2, 3}"
  by (auto simp: mc_flag_def iphc_defs)

lemma d1_fields_of:
  assumes "sf \<in> {0, 1, 2, 3, 4, 5, 6, 7 :: u8}" "df \<in> {0, 1, 2, 3, 4, 5, 6, 7, 8, 9, 10, 11 :: u8}"
  shows "(push_bit 4 sf OR df) AND LOWPAN_IPHC_CID_MASK = 0"
    "drop_bit 4 (push_bit 4 sf OR df) AND LOWPAN_IPHC_AM_MASK = sf AND LOWPAN_IPHC_AM_MASK"
    "drop_bit 4 (push_bit 4 sf OR df) AND LOWPAN_IPHC_AC_CONTEXT = sf AND LOWPAN_IPHC_AC_CONTEXT"
    "(push_bit 4 sf OR df) AND LOWPAN_IPHC_AM_MASK = df AND LOWPAN_IPHC_AM_MASK"
    "(push_bit 4 sf OR df) AND LOWPAN_IPHC_AC_CONTEXT = df AND LOWPAN_IPHC_AC_CONTEXT"
    "(push_bit 4 sf OR df) AND LOWPAN_IPHC_M = df AND LOWPAN_IPHC_M"
proof -
  have d: "df < 16" using assms(2) by auto
  have s: "sf < 8" using assms(1) by auto
  have m: "(16 :: u8) = 2 ^ 4" "(8 :: u8) = 2 ^ 3" by simp_all
  have db: "\<not> bit df n" if "4 \<le> n" for n
    using d that unfolding m by (metis bit_take_bit_iff less_mask_eq not_less take_bit_eq_mask and.commute)
  have sb: "\<not> bit sf n" if "3 \<le> n" for n
    using s that unfolding m by (metis bit_take_bit_iff less_mask_eq not_less take_bit_eq_mask and.commute)
  have dd: "drop_bit 4 (push_bit 4 sf OR df) = sf"
  proof (rule bit_word_eqI)
    fix n
    show "bit (drop_bit 4 (push_bit 4 sf OR df)) n = bit sf n"
      using db [of "4 + n"] sb [of n] by (cases "n < 3") (auto simp: bit_simps)
  qed
  show "drop_bit 4 (push_bit 4 sf OR df) AND LOWPAN_IPHC_AM_MASK = sf AND LOWPAN_IPHC_AM_MASK"
    "drop_bit 4 (push_bit 4 sf OR df) AND LOWPAN_IPHC_AC_CONTEXT = sf AND LOWPAN_IPHC_AC_CONTEXT"
    by (simp_all only: dd)
  show "(push_bit 4 sf OR df) AND LOWPAN_IPHC_CID_MASK = 0"
    "(push_bit 4 sf OR df) AND LOWPAN_IPHC_AM_MASK = df AND LOWPAN_IPHC_AM_MASK"
    "(push_bit 4 sf OR df) AND LOWPAN_IPHC_AC_CONTEXT = df AND LOWPAN_IPHC_AC_CONTEXT"
    "(push_bit 4 sf OR df) AND LOWPAN_IPHC_M = df AND LOWPAN_IPHC_M"
    using assms by (auto simp: iphc_defs)
qed

lemma src_flag_small: "src_flag mc f hdr \<in> {0, 1, 2, 3, 4, 5, 6, 7}"
  unfolding src_flag_def by (rule u8_small) (rule addr_flag_fields)

lemma dst_flag_small: "dst_flag mc f hdr \<in> {0, 1, 2, 3, 4, 5, 6, 7, 8, 9, 10, 11}"
  using mc_flag_small [of "ip6_dst hdr"] u8_small [OF addr_flag_fields(2)]
  by (auto simp: dst_flag_def LOWPAN_IPHC_AM_M_def)

lemma dst_flag_M: "dst_flag mc f hdr AND LOWPAN_IPHC_M \<noteq> 0 \<longleftrightarrow> is_multicast (ip6_dst hdr)"
  using mc_flag_small [of "ip6_dst hdr"]
    u8_small [OF addr_flag_fields(2) [of "ip6_dst hdr" "match_length mc (ip6_dst hdr)" "ieee_dst f" "ieee_dstpan f"]]
  by (auto simp: dst_flag_def LOWPAN_IPHC_AM_M_def LOWPAN_IPHC_M_def)

lemma d1_fields:
  "iphc_d1 mc f hdr AND LOWPAN_IPHC_CID_MASK = 0"
  "drop_bit 4 (iphc_d1 mc f hdr) AND LOWPAN_IPHC_AM_MASK = src_flag mc f hdr AND LOWPAN_IPHC_AM_MASK"
  "drop_bit 4 (iphc_d1 mc f hdr) AND LOWPAN_IPHC_AC_CONTEXT = src_flag mc f hdr AND LOWPAN_IPHC_AC_CONTEXT"
  "iphc_d1 mc f hdr AND LOWPAN_IPHC_AM_MASK = dst_flag mc f hdr AND LOWPAN_IPHC_AM_MASK"
  "iphc_d1 mc f hdr AND LOWPAN_IPHC_AC_CONTEXT = dst_flag mc f hdr AND LOWPAN_IPHC_AC_CONTEXT"
  "iphc_d1 mc f hdr AND LOWPAN_IPHC_M = dst_flag mc f hdr AND LOWPAN_IPHC_M"
  unfolding iphc_d1_def by (rule d1_fields_of [OF src_flag_small dst_flag_small])+

text \<open>The 40 bytes the receiver ends up with: the length is not on the wire, nor is a next
  header that is compressed itself; both stay as they were.\<close>

definition hdr_image :: "mem \<Rightarrow> ip6_hdr \<Rightarrow> u8 list" where
  "hdr_image r hdr = bytes32 (ip6_flow hdr) @ [r ! 4, r ! 5, if nh_flag hdr = 0 then ip6_nxt hdr else r ! 6, ip6_hlim hdr]
     @ ip6_src hdr @ ip6_dst hdr"

lemma length_hdr_image: "hdr_ok hdr \<Longrightarrow> length (hdr_image r hdr) = 40"
  by (simp add: hdr_image_def hdr_ok_def addr_ok_def)

lemma bytes32_nth: "i < 4 \<Longrightarrow> bytes32 w ! i = byte32 w i"
  by (auto simp: bytes32_def less_Suc_eq eval_nat_numeral)

lemma hdr_image_put:
  assumes "hdr_ok hdr" "40 \<le> length r"
  shows "put (put ((if nh_flag hdr = 0 then (put r 0 (bytes32 (ip6_flow hdr)))[6 := ip6_nxt hdr]
                    else put r 0 (bytes32 (ip6_flow hdr)))[7 := ip6_hlim hdr]) 8 (ip6_src hdr)) 24 (ip6_dst hdr)
    = put r 0 (hdr_image r hdr)"
proof (rule nth_equalityI)
  have l: "length (ip6_src hdr) = 16" "length (ip6_dst hdr) = 16" using assms(1) by (auto simp: hdr_ok_def addr_ok_def)
  let ?l = "put (put ((if nh_flag hdr = 0 then (put r 0 (bytes32 (ip6_flow hdr)))[6 := ip6_nxt hdr]
                    else put r 0 (bytes32 (ip6_flow hdr)))[7 := ip6_hlim hdr]) 8 (ip6_src hdr)) 24 (ip6_dst hdr)"
  show "length ?l = length (put r 0 (hdr_image r hdr))"
    using assms l by (simp add: length_hdr_image)
  fix i assume "i < length ?l"
  then have i: "i < length r" using assms l by (simp split: if_splits)
  show "?l ! i = put r 0 (hdr_image r hdr) ! i"
  proof (cases "i < 8")
    case True
    then have "i = 0 \<or> i = 1 \<or> i = 2 \<or> i = 3 \<or> i = 4 \<or> i = 5 \<or> i = 6 \<or> i = 7" by linarith
    then show ?thesis using assms l
      by (elim disjE) (simp_all add: put_nth length_hdr_image, simp_all add: hdr_image_def nth_append put_nth bytes32_def)
  next
    case False
    then have e: "hdr_image r hdr ! i = (ip6_src hdr @ ip6_dst hdr) ! (i - 8)"
      by (simp add: hdr_image_def nth_append nth_Cons')
    show ?thesis using assms l False e i
      by (auto simp: put_nth length_hdr_image nth_append)
  qed
qed

definition frame_match :: "ieee154_frame_addr \<Rightarrow> ieee154_frame_addr \<Rightarrow> bool" where
  "frame_match f f' \<longleftrightarrow> frame_ok f \<and> frame_ok f' \<and> ieee_same (ieee_src f) (ieee_src f') \<and>
     ieee_same (ieee_dst f) (ieee_dst f') \<and> ieee_dstpan f' = ieee_dstpan f"

lemma unpack_address_chunk:
  assumes "addr_ok a" "ctx_agree mc rc a"
    and "has_at m p (addr_bytes a (match_length mc a) l2 pan)"
    and "D AND LOWPAN_IPHC_AM_MASK = addr_flag a (match_length mc a) l2 pan AND LOWPAN_IPHC_AM_MASK"
      "D AND LOWPAN_IPHC_AC_CONTEXT = addr_flag a (match_length mc a) l2 pan AND LOWPAN_IPHC_AC_CONTEXT"
    and "ieee_same l2 l2'" "ieee_ok l2" "ieee_ok l2'" and "q + 16 \<le> length r"
  shows "unpack_address rc r q D 0 m p l2' pan = Some (put r q a, Some (p + length (addr_bytes a (match_length mc a) l2 pan)))"
proof (cases "IS_LINKLOCAL a")
  case True
  then show ?thesis by (intro unpack_address_linklocal assms)
next
  case False
  show ?thesis by (rule unpack_address_global [OF assms(1) False refl assms(2,3,4,5,9)])
qed

lemma unpack_ip6_hdr_chunk:
  assumes hdr: "hdr_ok hdr" "version_ok hdr"
    and ctx: "ctx_agree mc rc (ip6_src hdr)" "ctx_agree mc rc (ip6_dst hdr)"
    and f: "frame_match f f'" and h: "has_at m s (iphc_bytes mc f hdr)" and r: "40 \<le> length r"
  shows "unpack_ip6_hdr rc r f' m s = Some (put r 0 (hdr_image r hdr), Some (s + length (iphc_bytes mc f hdr)))"
proof -
  let ?t = "tcfl_bytes hdr" and ?n = "nh_bytes hdr" and ?l = "hlim_bytes hdr" and ?s = "src_bytes mc f hdr"
  have ats: "rd m s = Some (iphc_d0 hdr)" "rd m (s + 1) = Some (iphc_d1 mc f hdr)"
    "has_at m (s + 2) ?t" "has_at m (s + 2 + length ?t) ?n" "has_at m (s + 2 + length ?t + length ?n) ?l"
    "has_at m (s + 2 + length ?t + length ?n + length ?l) ?s"
    "has_at m (s + 2 + length ?t + length ?n + length ?l + length ?s) (dst_bytes mc f hdr)"
    using h by (auto simp: iphc_bytes_def has_at_Cons has_at_append rd_def add.assoc)
  have a: "addr_ok (ip6_src hdr)" "addr_ok (ip6_dst hdr)" "length (ip6_src hdr) = 16"
    using hdr(1) by (auto simp: hdr_ok_def addr_ok_def)
  have ff: "ieee_same (ieee_src f) (ieee_src f')" "ieee_ok (ieee_src f)" "ieee_ok (ieee_src f')"
    "ieee_same (ieee_dst f) (ieee_dst f')" "ieee_ok (ieee_dst f)" "ieee_ok (ieee_dst f')" "ieee_dstpan f' = ieee_dstpan f"
    using f by (auto simp: frame_match_def frame_ok_def)
  define r1 where "r1 = put r 0 (bytes32 (ip6_flow hdr))"
  define r2 where "r2 = (if nh_flag hdr = 0 then r1[6 := ip6_nxt hdr] else r1)"
  define r3 where "r3 = r2[7 := ip6_hlim hdr]"
  have len: "length r1 = length r" "length r2 = length r" "length r3 = length r" "length (put r3 8 (ip6_src hdr)) = length r"
    using r a by (auto simp: r1_def r2_def r3_def)
  have t: "unpack_tcfl r 0 (iphc_d0 hdr) m (s + 2) = Some (r1, s + 2 + length ?t)"
    unfolding r1_def using r by (intro unpack_tcfl_chunk ats d0_fields hdr) simp
  have n: "unpack_nh r1 0 (iphc_d0 hdr) m (s + 2 + length ?t) = Some (r2, s + 2 + length ?t + length ?n)"
    unfolding r2_def using r by (intro unpack_nh_chunk ats d0_fields) (simp add: len)
  have l: "unpack_hlim r2 0 (iphc_d0 hdr) m (s + 2 + length ?t + length ?n) = Some (r3, s + 2 + length ?t + length ?n + length ?l)"
    unfolding r3_def using r by (intro unpack_hlim_chunk ats d0_fields) (simp add: len)
  have sr: "unpack_address rc r3 8 (drop_bit 4 (iphc_d1 mc f hdr)) 0 m (s + 2 + length ?t + length ?n + length ?l) (ieee_src f') (ieee_dstpan f) =
      Some (put r3 8 (ip6_src hdr), Some (s + 2 + length ?t + length ?n + length ?l + length ?s))"
    unfolding src_bytes_def
    by (rule unpack_address_chunk [OF a(1) ctx(1) ats(6) [unfolded src_bytes_def] _ _ ff(1,2,3)])
      (use r len d1_fields [of mc f hdr] in \<open>simp_all add: src_flag_def\<close>)
  let ?p = "s + 2 + length ?t + length ?n + length ?l + length ?s"
  have fin: "put (put r3 8 (ip6_src hdr)) 24 (ip6_dst hdr) = put r 0 (hdr_image r hdr)"
    unfolding r3_def r2_def r1_def by (rule hdr_image_put [OF hdr(1) r])
  have ds: "(if iphc_d1 mc f hdr AND LOWPAN_IPHC_M \<noteq> 0
      then unpack_multicast (put r3 8 (ip6_src hdr)) 24 (iphc_d1 mc f hdr) 0 m ?p
      else unpack_address rc (put r3 8 (ip6_src hdr)) 24 (iphc_d1 mc f hdr) 0 m ?p (ieee_dst f') (ieee_dstpan f)) =
      Some (put r 0 (hdr_image r hdr), Some (?p + length (dst_bytes mc f hdr)))"
  proof (cases "is_multicast (ip6_dst hdr)")
    case True
    have mb: "dst_bytes mc f hdr = mc_bytes (ip6_dst hdr)" using True by (simp add: dst_bytes_def)
    have "mc_flag (ip6_dst hdr) OR LOWPAN_IPHC_AM_M \<in> {8, 9, 10, 11}"
      using mc_flag_small [of "ip6_dst hdr"] by (auto simp: LOWPAN_IPHC_AM_M_def)
    then have D: "iphc_d1 mc f hdr AND LOWPAN_IPHC_AM_MASK = mc_flag (ip6_dst hdr)"
      "iphc_d1 mc f hdr AND LOWPAN_IPHC_AC_CONTEXT = 0"
      using d1_fields(4,5) [of mc f hdr] True mc_flag_small [of "ip6_dst hdr"]
      by (auto simp: dst_flag_def LOWPAN_IPHC_AM_M_def LOWPAN_IPHC_AM_MASK_def LOWPAN_IPHC_AC_CONTEXT_def)
    have "unpack_multicast (put r3 8 (ip6_src hdr)) 24 (iphc_d1 mc f hdr) 0 m ?p =
        Some (put (put r3 8 (ip6_src hdr)) 24 (ip6_dst hdr), Some (?p + length (mc_bytes (ip6_dst hdr))))"
      by (rule unpack_multicast_chunk [OF a(2) True ats(7) [unfolded mb] D]) (use r len in simp)
    then show ?thesis using dst_flag_M [of mc f hdr] d1_fields(6) [of mc f hdr] True by (simp add: fin mb)
  next
    case False
    have mb: "dst_bytes mc f hdr = addr_bytes (ip6_dst hdr) (match_length mc (ip6_dst hdr)) (ieee_dst f) (ieee_dstpan f)"
      using False by (simp add: dst_bytes_def)
    have "unpack_address rc (put r3 8 (ip6_src hdr)) 24 (iphc_d1 mc f hdr) 0 m ?p (ieee_dst f') (ieee_dstpan f) =
        Some (put (put r3 8 (ip6_src hdr)) 24 (ip6_dst hdr), Some (?p + length (dst_bytes mc f hdr)))"
      unfolding mb
      by (rule unpack_address_chunk [OF a(2) ctx(2) ats(7) [unfolded mb] _ _ ff(4,5,6)])
        (use r len d1_fields [of mc f hdr] False in \<open>simp_all add: dst_flag_def\<close>)
    then show ?thesis using dst_flag_M [of mc f hdr] d1_fields(6) [of mc f hdr] False by (simp add: fin)
  qed
  have "s + length (iphc_bytes mc f hdr) = ?p + length (dst_bytes mc f hdr)" by (simp add: iphc_bytes_def)
  then show ?thesis
    using ds by (cases "iphc_d1 mc f hdr AND LOWPAN_IPHC_M \<noteq> 0")
      (simp_all add: unpack_ip6_hdr_def ats(1) ats(2) [simplified] d0_fields d1_fields(1) Let_def t [simplified add.assoc, simplified]
        n [simplified add.assoc, simplified] l [simplified add.assoc, simplified]
        sr [simplified add.assoc, simplified] ff(7) add.assoc)
qed


lemma iphc_bytes_le: "hdr_ok hdr \<Longrightarrow> length (iphc_bytes mc f hdr) \<le> 40"
proof -
  assume ok: "hdr_ok hdr"
  have t: "length (tcfl_bytes hdr) \<le> 4" by (auto simp: tcfl_bytes_def fl_bytes_def Let_def)
  have n: "length (nh_bytes hdr) \<le> 1" "length (hlim_bytes hdr) \<le> 1" by (auto simp: nh_bytes_def hlim_bytes_def)
  have a: "length (addr_bytes a L l2 pan) \<le> 16" "length (mc_bytes a) \<le> 16" if "length a = 16" for a L l2 pan
    using that by (auto simp: addr_bytes_def mc_bytes_def)
  have "length (src_bytes mc f hdr) \<le> 16" "length (dst_bytes mc f hdr) \<le> 16"
    using ok a by (auto simp: src_bytes_def dst_bytes_def hdr_ok_def addr_ok_def)
  with t n show ?thesis by (simp add: iphc_bytes_def)
qed

lemma ctx_agree_aligned: "ctx_agree mc rc a \<Longrightarrow> ctx_aligned mc a"
  by (simp add: ctx_agree_def ctx_aligned_def Let_def)

section \<open>The UDP header\<close>

lemma htons_pair [simp]: "lo8 (htons (le16 l h)) = h" "hi8 (htons (le16 l h)) = l"
  by simp_all

definition udp_chunk :: "u8 list \<Rightarrow> u8 list" where
  "udp_chunk udp = 0xf0 # take 4 udp @ drop 6 udp"

lemma pack_udp_chunk:
  assumes "iov_wf data" "0 \<le> off" "nat off + 8 \<le> length (iov_flat data)" "7 \<le> cnt"
    and "p = d + length xs" "p + 7 \<le> length m"
  shows "pack_udp (put m d xs) p cnt data off =
    Some (put m d (xs @ udp_chunk (take 8 (drop (nat off) (iov_flat data)))), 7)"
proof -
  let ?u = "take 8 (drop (nat off) (iov_flat data))"
  have u: "iov_read data off 8 = Some ?u" "length ?u = 8"
    using iov_read_flat [of data off 8] assms(1-3) by simp_all
  have 1: "wr (put m d xs) p 0xf0 = Some (put m d (xs @ [0xf0]))" using assms by (intro wr_end) simp_all
  have 2: "wrn (put m d (xs @ [0xf0])) (p + 1) (take 4 ?u) = Some (put m d ((xs @ [0xf0]) @ take 4 ?u))"
    using assms u by (intro wrn_end) simp_all
  have 3: "wrn (put m d ((xs @ [0xf0]) @ take 4 ?u)) (p + 5) (drop 6 ?u) =
      Some (put m d (((xs @ [0xf0]) @ take 4 ?u) @ drop 6 ?u))"
    using assms u by (intro wrn_end) simp_all
  show ?thesis
    using assms(4) u 1 2 3 unfolding pack_udp_def udp_chunk_def
    by (simp add: nhc_defs not_less)
qed

lemma unpack_udp_chunk:
  assumes h: "has_at m p (udp_chunk u)" and u: "length u = 8" and r: "dest + 8 \<le> length r" "nx < dest"
  shows "unpack_udp r dest nx m p =
    Some (put (r[nx := IANA_UDP]) dest (take 4 u @ [0, 0] @ drop 6 u), p + 7)"
proof -
  obtain s0 s1 d0 d1 l0 l1 c0 c1 where u8: "u = [s0, s1, d0, d1, l0, l1, c0, c1]"
    using u by (auto simp: length_Suc_ex eval_nat_numeral)
  have b: "rd m p = Some 0xf0" "rd m (p + 1) = Some s0" "rd m (p + 2) = Some s1" "rd m (p + 3) = Some d0"
    "rd m (p + 4) = Some d1" "rd m (p + 5) = Some c0" "rd m (p + 6) = Some c1"
    using h by (simp_all add: u8 udp_chunk_def has_at_Cons rd_def eval_nat_numeral)
  let ?r = "r[nx := IANA_UDP]"
  obtain x0 x1 x2 x3 x4 x5 x6 x7 where old: "take 8 (drop dest ?r) = [x0, x1, x2, x3, x4, x5, x6, x7]"
  proof -
    define xs where "xs = take 8 (drop dest ?r)"
    have "length xs = 8" using r by (simp add: xs_def)
    then obtain x0 x1 x2 x3 x4 x5 x6 x7 where "xs = [x0, x1, x2, x3, x4, x5, x6, x7]"
      by (auto simp: length_Suc_ex eval_nat_numeral)
    then show ?thesis by (rule that [folded xs_def])
  qed
  have self: "?r = put ?r dest [x0, x1, x2, x3, x4, x5, x6, x7]"
    unfolding old [symmetric] using r by (simp only: put_self length_list_update)
  have w: "wr16 (put ?r dest [y0, y1, y2, y3, y4, y5, y6, y7]) (dest + 4) w = Some (put ?r dest [y0, y1, y2, y3, lo8 w, hi8 w, y6, y7])"
    "wr16 (put ?r dest [y0, y1, y2, y3, y4, y5, y6, y7]) (dest + 6) w = Some (put ?r dest [y0, y1, y2, y3, y4, y5, lo8 w, hi8 w])"
    "wr16 (put ?r dest [y0, y1, y2, y3, y4, y5, y6, y7]) (dest + 2) w = Some (put ?r dest [y0, y1, lo8 w, hi8 w, y4, y5, y6, y7])"
    for y0 y1 y2 y3 y4 y5 y6 y7 w
    using r wr16_inside [of 4 "[y0, y1, y2, y3, y4, y5, y6, y7]" dest ?r w]
      wr16_inside [of 6 "[y0, y1, y2, y3, y4, y5, y6, y7]" dest ?r w]
      wr16_inside [of 2 "[y0, y1, y2, y3, y4, y5, y6, y7]" dest ?r w]
    by (simp_all add: put_def [of "[y0, y1, y2, y3, y4, y5, y6, y7]"] eval_nat_numeral)
  have w0: "wr16 (put ?r dest [y0, y1, y2, y3, y4, y5, y6, y7]) dest w = Some (put ?r dest [lo8 w, hi8 w, y2, y3, y4, y5, y6, y7])"
    for y0 y1 y2 y3 y4 y5 y6 y7 w
    using r wr16_inside [of 0 "[y0, y1, y2, y3, y4, y5, y6, y7]" dest ?r w] by (simp add: put_def)
  have z: "(0xf0 :: u8) AND LOWPAN_NHC_UDP_PORT_MASK = LOWPAN_NHC_UDP_PORT_FULL" "(0xf0 :: u8) AND LOWPAN_NHC_UDP_CKSUM = 0"
    by (simp_all add: nhc_defs)
  have lh: "lo8 0 = 0" "hi8 0 = 0" by (simp_all add: lo8_def hi8_def)
  have nx: "wr r nx IANA_UDP = Some (put ?r dest [x0, x1, x2, x3, x4, x5, x6, x7])"
    using r self by (simp add: wr_def)
  show ?thesis
    using b b(4) [unfolded numeral_3_eq_3]
    by (simp add: unpack_udp_def nx w w [simplified] w0 z u8 lh add.commute [of _ p])
qed


section \<open>One extension header\<close>

lemma or_at_mid: "d + length (xs @ b # ys) \<le> length m \<Longrightarrow>
    or_at (put m d (xs @ b # ys)) (d + length xs) v = Some (put m d (xs @ (b OR v) # ys))"
  using rd_inside [of "length xs" "xs @ b # ys" d m] wr_inside [of "length xs" "xs @ b # ys" d m "b OR v"]
  by (simp add: or_at_def)

lemma uint_minus_2: "2 \<le> unat w \<Longrightarrow> uint w - 2 = int (unat w - 2)"
  by (simp add: of_nat_diff)

definition nh_compressed :: "u8 \<Rightarrow> bool" where
  "nh_compressed nxt \<longleftrightarrow> compressible_ext nxt \<or> nxt = IANA_UDP"

definition ext_chunk :: "u8 \<Rightarrow> u8 \<Rightarrow> u8 \<Rightarrow> u8 list \<Rightarrow> u8 list" where
  "ext_chunk eid nxt len body =
     (if nh_compressed nxt then [0xe0 OR eid OR 1, len] else [0xe0 OR eid, nxt, len]) @ body"

lemma pack_ipnh_chunk:
  assumes wf: "iov_wf data" "0 \<le> off" and fl: "drop (nat off) (iov_flat data) = nxt # elen # rest"
    and cnt: "ucast elen \<le> cnt" and t: "ext_eid t = Some eid"
    and len: "ipnh_real_length t data off = Some len" "2 \<le> unat len" "unat len - 2 \<le> length rest"
    and p: "p = d + length xs" "p + 1 + unat len \<le> length m"
  shows "pack_ipnh (put m d xs) p cnt t data off =
    Some (put m d (xs @ ext_chunk eid nxt len (take (unat len - 2) rest)), nxt, (uint elen + 1) * 8)"
proof -
  have e: "iov_read data off 2 = Some [nxt, elen]"
    using iov_read_flat [OF wf, of 2] fl by simp
  have "nat (off + 2) = 2 + nat off" using wf(2) by simp
  then have "drop (nat (off + 2)) (iov_flat data) = drop 2 (drop (nat off) (iov_flat data))"
    by (simp only: drop_drop)
  then have "drop (nat (off + 2)) (iov_flat data) = rest" unfolding fl by simp
  moreover have "nat (uint len - 2) = unat len - 2" by (simp only: uint_minus_2 [OF len(2)] nat_int)
  ultimately have b: "iov_read data (off + 2) (uint len - 2) = Some (take (unat len - 2) rest)"
    using iov_read_flat [of data "off + 2" "uint len - 2"] wf uint_minus_2 [OF len(2)] by simp
  have lb: "int (length (take (unat len - 2) rest)) = uint len - 2"
    using len(3) by (simp add: uint_minus_2 [OF len(2)])
  have nz: "len \<noteq> 0" using len(2) by auto
  have 1: "wr (put m d xs) p 0xe0 = Some (put m d (xs @ [0xe0]))" using p len(2) by (intro wr_end) auto
  have 2: "or_at (put m d (xs @ [0xe0])) p eid = Some (put m d (xs @ [0xe0 OR eid]))"
    using or_at_mid [of d xs "0xe0" "[]" m eid] p len(2) by simp
  have le: "\<not> ucast elen > cnt" using cnt by simp
  show ?thesis
  proof (cases "nh_compressed nxt")
    case True
    have "or_at (put m d (xs @ [0xe0 OR eid])) p 1 = Some (put m d (xs @ [0xe0 OR eid OR 1]))"
      using or_at_mid [of d xs "0xe0 OR eid" "[]" m 1] p len(2) by (simp add: or.assoc)
    moreover have "wr (put m d (xs @ [0xe0 OR eid OR 1])) (p + 1) len = Some (put m d (xs @ [0xe0 OR eid OR 1] @ [len]))"
      using p len(2) by (subst wr_end) auto
    moreover have "wrn (put m d (xs @ [0xe0 OR eid OR 1] @ [len])) (p + 2) (take (unat len - 2) rest) =
        Some (put m d (xs @ [0xe0 OR eid OR 1] @ [len] @ take (unat len - 2) rest))"
      using p len(2,3) by (subst wrn_end) auto
    ultimately show ?thesis using True e b lb nz 1 2 t len(1) le
      by (simp add: pack_ipnh_def ext_chunk_def nh_compressed_def LOWPAN_NHC_IPV6_PATTERN_def LOWPAN_NHC_NH_def Let_def)
  next
    case False
    have "wr (put m d (xs @ [0xe0 OR eid])) (p + 1) nxt = Some (put m d (xs @ [0xe0 OR eid] @ [nxt]))"
      using p len(2) by (subst wr_end) auto
    moreover have "wr (put m d (xs @ [0xe0 OR eid] @ [nxt])) (p + 1 + 1) len = Some (put m d (xs @ [0xe0 OR eid] @ [nxt] @ [len]))"
      using p len(2) by (subst wr_end) auto
    moreover have "wrn (put m d (xs @ [0xe0 OR eid] @ [nxt] @ [len])) (p + 1 + 2) (take (unat len - 2) rest) =
        Some (put m d (xs @ [0xe0 OR eid] @ [nxt] @ [len] @ take (unat len - 2) rest))"
      using p len(2,3) by (subst wrn_end) auto
    ultimately show ?thesis using False e b lb nz 1 2 t len(1) le
      by (simp add: pack_ipnh_def ext_chunk_def nh_compressed_def LOWPAN_NHC_IPV6_PATTERN_def Let_def)
  qed
qed

lemma ext_eid_cases:
  "ext_eid t = Some eid \<Longrightarrow> eid \<in> {0, 2, 4, 6, 8} \<and> eid_ext eid = Some t"
  by (auto simp: ext_eid_def eid_ext_def nhc_defs split: if_splits)

lemma ext_dispatch:
  assumes "eid \<in> {0, 2, 4, 6, 8 :: u8}"
  shows "(0xe0 OR eid OR 1) AND LOWPAN_NHC_IPV6_MASK = LOWPAN_NHC_IPV6_PATTERN"
    "(0xe0 OR eid) AND LOWPAN_NHC_IPV6_MASK = LOWPAN_NHC_IPV6_PATTERN"
    "(0xe0 OR eid OR 1) AND LOWPAN_NHC_EID_MASK = eid" "(0xe0 OR eid) AND LOWPAN_NHC_EID_MASK = eid"
    "(0xe0 OR eid OR 1) AND LOWPAN_NHC_NH \<noteq> 0" "(0xe0 OR eid) AND LOWPAN_NHC_NH = 0"
  using assms by (auto simp: nhc_defs)

text \<open>A header whose length is a multiple of eight has no padding to restore.\<close>

lemma unpack_ipnh_chunk:
  assumes h: "has_at m p (ext_chunk eid nxt len body)" and t: "ext_eid t = Some eid"
    and len: "unat len = (unat elen + 1) * 8" "length body = unat len - 2"
    and cnt: "unat len - 2 \<le> unat cnt" and r: "nx < dest" "dest + unat len \<le> length r"
  shows "unpack_ipnh r dest cnt nx m p =
    Some (put (r[nx := t]) dest ((if nh_compressed nxt then r ! dest else nxt) # elen # body),
      Some (p + length (ext_chunk eid nxt len body)))"
proof -
  note ee = ext_eid_cases [OF t]
  note dd = ext_dispatch [OF ee [THEN conjunct1]]
  have l2: "2 \<le> unat len" "\<not> len < 2" using len(1) by (auto simp: word_less_nat_alt)
  have m8: "(8 - len mod 8) mod 8 = 0"
  proof -
    have "unat (len mod 8) = 0" by (simp add: unat_mod_distrib len(1))
    then have "len mod 8 = 0" by (simp add: unat_eq_0)
    then show ?thesis by simp
  qed
  have ge: "\<not> cnt < word_of_int (uint len + uint (0 :: u8) - 2)"
  proof -
    have "uint len + uint (0 :: u8) - 2 = int (unat len - 2)" using uint_minus_2 [OF l2(1)] by simp
    moreover have "unat (of_nat (unat len - 2) :: u32) = unat len - 2"
    proof -
      have "unat len < 256" using unsigned_less [of len] by simp
      then show ?thesis by (simp add: unsigned_of_nat take_bit_nat_eq_self)
    qed
    ultimately show ?thesis using cnt by (simp add: word_less_nat_alt)
  qed
  have el: "word_of_int ((uint len + uint (0 :: u8)) div 8 - 1) = elen"
  proof -
    have "int (unat len) = int ((unat elen + 1) * 8)" by (simp only: len(1))
    then have "(uint len + uint (0 :: u8)) div 8 - 1 = uint elen" by simp
    then show ?thesis by (simp only: word_of_int_uint)
  qed
  let ?r = "r[nx := t]" and ?x = "if nh_compressed nxt then r ! dest else nxt"
  have fin: "(put (?r[dest := ?x]) (dest + 2) body)[Suc dest := elen] = put ?r dest (?x # elen # body)"
  proof (rule nth_equalityI)
    show "length ((put (?r[dest := ?x]) (dest + 2) body)[Suc dest := elen]) = length (put ?r dest (?x # elen # body))"
      using r len l2 by simp
    fix i assume "i < length ((put (?r[dest := ?x]) (dest + 2) body)[Suc dest := elen])"
    then have "i < length r" using r len l2 by simp
    then show "(put (?r[dest := ?x]) (dest + 2) body)[Suc dest := elen] ! i = put ?r dest (?x # elen # body) ! i"
      using r len l2 by (auto simp: put_nth nth_list_update nth_Cons')
  qed
  have same: "nh_compressed nxt \<Longrightarrow> ?r[dest := ?x] = ?r"
    using r l2(1) by (intro nth_equalityI) (auto simp: nth_list_update)
  have wb: "wrn (?r[dest := ?x]) (dest + 2) body = Some (put (?r[dest := ?x]) (dest + 2) body)"
    using r len l2 by (simp add: wrn_def)
  have nx: "rd (put (?r[dest := ?x]) (dest + 2) body) nx = Some t"
    using r len l2 by (simp add: rd_def put_nth)
  have wl: "wr (put (?r[dest := ?x]) (dest + 2) body) (dest + 1) elen = Some (put ?r dest (?x # elen # body))"
    using r len l2 fin by (simp add: wr_def)
  have bs: "rdn m (p + (if nh_compressed nxt then 2 else 3)) (unat len - 2) = Some body"
    using h rdn_has_at [of m "p + (if nh_compressed nxt then 2 else 3)" body] len(2)
    by (auto simp: ext_chunk_def has_at_Cons eval_nat_numeral)
  show ?thesis
  proof (cases "nh_compressed nxt")
    case True
    have "rd m p = Some (0xe0 OR eid OR 1)" "rd m (p + 1) = Some len"
      using h True by (auto simp: ext_chunk_def has_at_Cons rd_def)
    then show ?thesis using True bs same wb nx wl r l2 len
      by (simp add: unpack_ipnh_def dd ee wr_def m8 ge [simplified] el [simplified] Let_def ext_chunk_def)
  next
    case False
    have "rd m p = Some (0xe0 OR eid)" "rd m (p + 1) = Some nxt" "rd m (p + 2) = Some len"
      using h False by (auto simp: ext_chunk_def has_at_Cons rd_def eval_nat_numeral)
    moreover have "wr ?r dest nxt = Some (?r[dest := nxt])" using r len l2 by (simp add: wr_def)
    moreover have "rdn m (Suc (Suc (Suc p))) (unat len - 2) = Some body"
      using bs False by (simp add: numeral_3_eq_3)
    ultimately show ?thesis using False wb nx wl r l2 len
      by (simp add: unpack_ipnh_def dd ee wr_def m8 ge [simplified] el [simplified] Let_def ext_chunk_def)
  qed
qed


section \<open>Properties\<close>

text \<open>C9: The IPHC round trip.  For every version-6 header, every pair of link-layer addresses and
  every pair of contexts that agree with the sender's, \<open>lowpan_pack_headers\<close> succeeds, writes
  at most 40 bytes, and the receiver's half of \<open>lowpan_unpack_headers\<close> reads exactly those bytes
  and rebuilds the 40-byte header: flow, hop limit, both addresses, and the next header unless
  it is compressed itself.  The payload length, which is not sent, is left alone.\<close>

theorem iphc_header_roundtrip:
  assumes "hdr_ok (ip6_hdr pkt)" "version_ok (ip6_hdr pkt)"
    and "ctx_agree mc rc (ip6_src (ip6_hdr pkt))" "ctx_agree mc rc (ip6_dst (ip6_hdr pkt))"
    and "frame_match f f'" and "d + 40 \<le> length m" and "40 \<le> length r"
  shows "\<exists>m' e. lowpan_pack_headers mc pkt f m d cnt = Some (m', Some e) \<and> e \<le> d + 40 \<and>
    unpack_ip6_hdr rc r f' m' d = Some (put r 0 (hdr_image r (ip6_hdr pkt)), Some e)"
proof -
  let ?b = "iphc_bytes mc f (ip6_hdr pkt)"
  have fit: "d + length ?b \<le> length m" using iphc_bytes_le [OF assms(1), of mc f] assms(6) by linarith
  have "has_at (put m d ?b) d ?b" using fit by simp
  from unpack_ip6_hdr_chunk [OF assms(1-5) this assms(7)]
    lowpan_pack_headers_chunk [OF assms(1,2) ctx_agree_aligned [OF assms(3)] ctx_agree_aligned [OF assms(4)] fit, of cnt]
    iphc_bytes_le [OF assms(1), of mc f]
  show ?thesis by auto
qed

definition sample_hdr :: ip6_hdr where
  "sample_hdr = \<lparr>ip6_flow = 0x60, ip6_plen = 0x0800, ip6_nxt = 58, ip6_hlim = 64,
     ip6_src = 0xfe # 0x80 # replicate 6 0 @ [10, 7, 6, 5, 4, 3, 2, 1],
     ip6_dst = 0xff # 2 # replicate 13 0 @ [1]\<rparr>"

lemma sample_hdr_ok: "hdr_ok sample_hdr" "version_ok sample_hdr"
  by (simp_all add: sample_hdr_def hdr_ok_def addr_ok_def version_ok_def ip6_vfc_def byte32_def proto_defs)

lemma sample_frame_match: "frame_match sample_frame sample_frame"
  by (simp add: frame_match_def frame_ok_def ieee_ok_def ieee_same_def sample_frame_def)

lemma no_ctx: "ctx_agree (\<lambda>_. 0) (\<lambda>a _. (a, -1)) a"
  by (simp add: ctx_agree_def match_length_def)

lemma iphc_header_roundtrip_witness:
  "\<exists>m' e. lowpan_pack_headers (\<lambda>_. 0) \<lparr>ip6_inputif = 0, ip6_data = [], ip6_hdr = sample_hdr\<rparr> sample_frame
      (replicate 127 0) 16 100 = Some (m', Some e) \<and>
    unpack_ip6_hdr (\<lambda>a _. (a, -1)) (replicate 60 0) sample_frame m' 16 =
      Some (put (replicate 60 0) 0 (hdr_image (replicate 60 0) sample_hdr), Some e)"
  using iphc_header_roundtrip [of "\<lparr>ip6_inputif = 0, ip6_data = [], ip6_hdr = sample_hdr\<rparr>" "\<lambda>_. 0" "\<lambda>a _. (a, -1)"
      sample_frame sample_frame 16 "replicate 127 0" "replicate 60 0" 100]
  by (auto simp: sample_hdr_ok sample_frame_match no_ctx)

text \<open>Packets that are not version 6 are refused on both sides: packing returns NULL without
  touching the buffer, and unpacking a frame whose first byte is no IPHC dispatch returns NULL
  without touching the reconstruction buffer.\<close>

theorem iphc_rejects:
  "(\<not> version_ok (ip6_hdr pkt) \<longrightarrow> lowpan_pack_headers mc pkt f m d cnt = Some (m, None)) \<and>
   (s < length m \<and> m ! s AND 0xe0 \<noteq> 0x60 \<longrightarrow> lowpan_unpack_headers rc recon r f m s n = Some (recon, r, None))"
  by (simp add: lowpan_pack_headers_def version_ok_def lowpan_unpack_headers_def unpack_ip6_hdr_def rd_def iphc_defs)

lemma iphc_rejects_witness:
  "lowpan_pack_headers (\<lambda>_. 0) \<lparr>ip6_inputif = 0, ip6_data = [], ip6_hdr = sample_hdr\<lparr>ip6_flow := 0x40\<rparr>\<rparr> sample_frame [] 0 0 = Some ([], None) \<and>
   (\<forall>recon. lowpan_unpack_headers (\<lambda>a _. (a, -1)) recon [] sample_frame [0x41] 0 1 = Some (recon, [], None))"
  using iphc_rejects [where pkt = "\<lparr>ip6_inputif = 0, ip6_data = [], ip6_hdr = sample_hdr\<lparr>ip6_flow := 0x40\<rparr>\<rparr>"
      and mc = "\<lambda>_. 0" and f = sample_frame and m = "[]" and d = 0 and cnt = 0]
    iphc_rejects [where m = "[0x41]" and s = 0 and rc = "\<lambda>a _. (a, -1)" and r = "[]" and f = sample_frame and n = 1]
  by (simp add: version_ok_def ip6_vfc_def byte32_def proto_defs)

text \<open>The UDP header round trip: the seven bytes \<open>pack_udp\<close> writes are read back by
  \<open>unpack_udp\<close> as the same ports and checksum, with the length zeroed for the caller to fill,
  and the next-header byte of the previous header is set to UDP.\<close>

theorem udp_header_roundtrip:
  assumes "iov_wf data" "0 \<le> off" "nat off + 8 \<le> length (iov_flat data)" "7 \<le> cnt"
    and "p + 7 \<le> length m" and "dest + 8 \<le> length r" "nx < dest"
  shows "\<exists>m'. pack_udp m p cnt data off = Some (m', 7) \<and>
    unpack_udp r dest nx m' p =
      Some (put (r[nx := IANA_UDP]) dest
        (let u = take 8 (drop (nat off) (iov_flat data)) in take 4 u @ [0, 0] @ drop 6 u), p + 7)"
proof -
  let ?u = "take 8 (drop (nat off) (iov_flat data))"
  have lu: "length ?u = 8" using assms(3) by simp
  have "pack_udp m p cnt data off = Some (put m p (udp_chunk ?u), 7)"
    using pack_udp_chunk [OF assms(1-4), of p p "[]" m] assms(5) by simp
  moreover have "has_at (put m p (udp_chunk ?u)) p (udp_chunk ?u)"
    using assms(5) lu by (intro has_at_put) (simp add: udp_chunk_def)
  ultimately show ?thesis
    using unpack_udp_chunk [OF _ lu assms(6,7)] by (auto simp: Let_def)
qed

lemma udp_header_roundtrip_witness:
  "\<exists>m'. pack_udp (replicate 9 0) 1 7 [\<lparr>iov_base = [1, 2, 3, 4, 0, 9, 5, 6, 7], iov_len = 9\<rparr>] 0 = Some (m', 7) \<and>
    unpack_udp (replicate 10 0) 1 0 m' 1 = Some (put ((replicate 10 0)[0 := IANA_UDP]) 1 [1, 2, 3, 4, 0, 0, 5, 6], 8)"
  using udp_header_roundtrip [of "[\<lparr>iov_base = [1, 2, 3, 4, 0, 9, 5, 6, 7], iov_len = 9\<rparr>]" 0 7 1 "replicate 9 0" 1 "replicate 10 0" 0]
  by (simp add: Let_def)

text \<open>C27: The extension-header round trip: a header without trailing padding that \<open>pack_ipnh\<close>
  accepts is rebuilt by \<open>unpack_ipnh\<close> with its length and contents; the previous next-header
  byte becomes the header's type, the input pointer ends where the packed bytes end, and the
  chain advances by the header's own length.\<close>

theorem ipnh_roundtrip:
  assumes "iov_wf data" "0 \<le> off" "drop (nat off) (iov_flat data) = nxt # elen # rest"
    and "ucast elen \<le> cnt" "ext_eid t = Some eid"
    and "ipnh_real_length t data off = Some len" "unat len = (unat elen + 1) * 8" "unat len - 2 \<le> length rest"
    and "p + 1 + unat len \<le> length m"
    and "unat len - 2 \<le> unat cnt'" "nx < dest" "dest + unat len \<le> length r"
  shows "\<exists>m' p'. pack_ipnh m p cnt t data off = Some (m', nxt, int (unat len)) \<and>
    unpack_ipnh r dest cnt' nx m' p =
      Some (put (r[nx := t]) dest ((if nh_compressed nxt then r ! dest else nxt) # elen # take (unat len - 2) rest), Some p') \<and>
    p' = p + unat len + (if nh_compressed nxt then 0 else 1)"
proof -
  let ?b = "take (unat len - 2) rest"
  have l2: "2 \<le> unat len" using assms(7) by simp
  have "int (unat len) = int ((unat elen + 1) * 8)" by (simp only: assms(7))
  then have rv: "(uint elen + 1) * 8 = int (unat len)" by simp
  have pk: "pack_ipnh m p cnt t data off = Some (put m p (ext_chunk eid nxt len ?b), nxt, int (unat len))"
    using pack_ipnh_chunk [OF assms(1-6) l2 assms(8), of p p "[]" m] assms(9) rv by simp
  have cl: "length (ext_chunk eid nxt len ?b) = unat len + (if nh_compressed nxt then 0 else 1)"
    using l2 assms(8) by (auto simp: ext_chunk_def)
  have "has_at (put m p (ext_chunk eid nxt len ?b)) p (ext_chunk eid nxt len ?b)"
    using assms(9) cl by (intro has_at_put) auto
  from unpack_ipnh_chunk [OF this assms(5,7) _ assms(10,11,12)] assms(8) cl pk
  show ?thesis by (auto simp: add.assoc)
qed

lemma ipnh_roundtrip_witness:
  "\<exists>m'. pack_ipnh (replicate 20 0) 1 10 IPV6_ROUTING [\<lparr>iov_base = [58, 0, 3, 4, 5, 6, 7, 8], iov_len = 8\<rparr>] 0 = Some (m', 58, 8) \<and>
    unpack_ipnh (replicate 20 0) 4 16 3 m' 1 =
      Some (put ((replicate 20 0)[3 := IPV6_ROUTING]) 4 [58, 0, 3, 4, 5, 6, 7, 8], Some 10)"
proof -
  have "ipnh_real_length IPV6_ROUTING [\<lparr>iov_base = [58, 0, 3, 4, 5, 6, 7, 8], iov_len = 8\<rparr>] 0 = Some 8"
    using iov_read_flat [of "[\<lparr>iov_base = [58, 0, 3, 4, 5, 6, 7, 8], iov_len = 8\<rparr>]" 0 2]
    by (simp add: ipnh_real_length_def proto_defs)
  with ipnh_roundtrip [of "[\<lparr>iov_base = [58, 0, 3, 4, 5, 6, 7, 8], iov_len = 8\<rparr>]" 0 58 0 "[3, 4, 5, 6, 7, 8]" 10 IPV6_ROUTING
      LOWPAN_NHC_EID_ROUTING 8 1 "replicate 20 0" 16 3 4 "replicate 20 0"]
  show ?thesis by (simp add: ext_eid_def proto_defs nh_compressed_def compressible_ext_def)
qed

text \<open>IPv6-in-IPv6 cannot be sent: the chain loop takes a next header of 41 for compressible,
  and \<open>pack_ipnh\<close> has no code for it, so \<open>pack_nhc_chain\<close> returns -1 on every such packet that
  carries the two bytes it looks at.\<close>

theorem ipv6_in_ipv6_refused:
  assumes "ip6_nxt (ip6_hdr pkt) = IPV6_IPV6" "iov_wf (ip6_data pkt)" "p < length m"
  shows "\<exists>m'. pack_nhc_chain m p cnt pkt = Some (m', p, -1)"
proof -
  obtain e where e: "iov_read (ip6_data pkt) 0 2 = Some e"
    using iov_read_flat [OF assms(2), of 0 2] by simp
  have t: "ext_eid IPV6_IPV6 = None" by (simp add: ext_eid_def proto_defs)
  have "\<exists>m'. pack_ipnh m p cnt IPV6_IPV6 (ip6_data pkt) 0 = Some (m', IPV6_IPV6, -1)"
  proof (cases "length e = 2 \<and> \<not> cnt < ucast (e ! 1)")
    case True
    then show ?thesis using assms(3) by (auto simp: pack_ipnh_def e t wr_def)
  next
    case False
    then show ?thesis using assms(3) by (auto simp: pack_ipnh_def e t wr_def)
  qed
  then obtain m' where "pack_ipnh m p cnt IPV6_IPV6 (ip6_data pkt) 0 = Some (m', IPV6_IPV6, -1)" by blast
  then have "nhc_loop m p cnt IPV6_IPV6 (ip6_data pkt) 0 = Some (m', p, cnt, IPV6_IPV6, -1)"
    by (simp add: nhc_loop.simps compressible_ext_def)
  then show ?thesis by (simp add: pack_nhc_chain_def assms(1))
qed

lemma ipv6_in_ipv6_refused_witness:
  "\<exists>m'. pack_nhc_chain [0] 0 100 \<lparr>ip6_inputif = 0, ip6_data = [], ip6_hdr = sample_hdr\<lparr>ip6_nxt := 41\<rparr>\<rparr> = Some (m', 0, -1)"
  using ipv6_in_ipv6_refused [of "\<lparr>ip6_inputif = 0, ip6_data = [], ip6_hdr = sample_hdr\<lparr>ip6_nxt := 41\<rparr>\<rparr>" 0 "[0]" 100]
  by (simp add: proto_defs)

end
