(* ===== verification/Lowpan_Headers.thy ===== *)
theory Lowpan_Headers
  imports Backip_Prelude
begin

text \<open>
  The RFC 4944 header accessors of \<open>lib6lowpan_4944.c\<close>: mesh, broadcast and fragmentation
  headers in front of a 6LoWPAN payload.  \<open>full\<close> stands for the compile-time switch
  \<open>LIB6LOWPAN_FULL\<close>, which is off in the default build; both builds are modelled.  The data
  pointer of a message is its buffer, \<^term>\<open>None\<close> for NULL.  An accessor returns its status
  byte, with the value it stores through its out pointer or the updated message; \<open>out\<close> says
  that the out pointer is not NULL.
\<close>

definition LOWMSG_MESH_LEN :: nat where "LOWMSG_MESH_LEN = 5"
definition LOWMSG_BCAST_LEN :: nat where "LOWMSG_BCAST_LEN = 2"
definition LOWMSG_FRAG1_LEN :: nat where "LOWMSG_FRAG1_LEN = 4"
definition LOWMSG_FRAGN_LEN :: nat where "LOWMSG_FRAGN_LEN = 5"
definition LOWPAN_NALP_PATTERN :: u8 where "LOWPAN_NALP_PATTERN = 0"
definition LOWPAN_MESH_PATTERN :: u8 where "LOWPAN_MESH_PATTERN = 2"
definition LOWPAN_FRAG1_PATTERN :: u8 where "LOWPAN_FRAG1_PATTERN = 0x18"
definition LOWPAN_FRAGN_PATTERN :: u8 where "LOWPAN_FRAGN_PATTERN = 0x1c"
definition LOWPAN_BCAST_PATTERN :: u8 where "LOWPAN_BCAST_PATTERN = 0x50"
definition LOWPAN_MESH_V_MASK :: u8 where "LOWPAN_MESH_V_MASK = 0x20"
definition LOWPAN_MESH_F_MASK :: u8 where "LOWPAN_MESH_F_MASK = 0x10"
definition LOWPAN_MESH_HOPS_MASK :: u8 where "LOWPAN_MESH_HOPS_MASK = 0x0f"
definition LOWMSG_MESH_HDR :: u8 where "LOWMSG_MESH_HDR = 1"
definition LOWMSG_BCAST_HDR :: u8 where "LOWMSG_BCAST_HDR = 2"
definition LOWMSG_FRAG1_HDR :: u8 where "LOWMSG_FRAG1_HDR = 4"
definition LOWMSG_FRAGN_HDR :: u8 where "LOWMSG_FRAGN_HDR = 8"
definition LOWMSG_NALP :: u8 where "LOWMSG_NALP = 16"

lemmas lowmsg_defs = LOWMSG_MESH_LEN_def LOWMSG_BCAST_LEN_def LOWMSG_FRAG1_LEN_def LOWMSG_FRAGN_LEN_def
  LOWPAN_NALP_PATTERN_def LOWPAN_MESH_PATTERN_def LOWPAN_FRAG1_PATTERN_def LOWPAN_FRAGN_PATTERN_def
  LOWPAN_BCAST_PATTERN_def LOWPAN_MESH_V_MASK_def LOWPAN_MESH_F_MASK_def LOWPAN_MESH_HOPS_MASK_def
  LOWMSG_MESH_HDR_def LOWMSG_BCAST_HDR_def LOWMSG_FRAG1_HDR_def LOWMSG_FRAGN_HDR_def LOWMSG_NALP_def

record packed_lowmsg =
  lm_headers :: u8
  lm_len :: u8
  lm_data :: "mem option"

section \<open>Header presence\<close>

definition hasMeshHeader :: "packed_lowmsg \<Rightarrow> bool" where
  "hasMeshHeader msg \<longleftrightarrow> lm_headers msg AND LOWMSG_MESH_HDR \<noteq> 0"
definition hasBcastHeader :: "packed_lowmsg \<Rightarrow> bool" where
  "hasBcastHeader msg \<longleftrightarrow> lm_headers msg AND LOWMSG_BCAST_HDR \<noteq> 0"
definition hasFrag1Header :: "packed_lowmsg \<Rightarrow> bool" where
  "hasFrag1Header msg \<longleftrightarrow> lm_headers msg AND LOWMSG_FRAG1_HDR \<noteq> 0"
definition hasFragNHeader :: "packed_lowmsg \<Rightarrow> bool" where
  "hasFragNHeader msg \<longleftrightarrow> lm_headers msg AND LOWMSG_FRAGN_HDR \<noteq> 0"

text \<open>The payload pointer, as an offset from the data pointer.\<close>

definition getLowpanPayload :: "bool \<Rightarrow> packed_lowmsg \<Rightarrow> nat" where
  "getLowpanPayload full msg =
     (if full \<and> hasMeshHeader msg then LOWMSG_MESH_LEN else 0)
     + (if full \<and> hasBcastHeader msg then LOWMSG_BCAST_LEN else 0)
     + (if hasFrag1Header msg then LOWMSG_FRAG1_LEN else 0)
     + (if hasFragNHeader msg then LOWMSG_FRAGN_LEN else 0)"

text \<open>One step of \<open>getHeaderBitmap\<close>: if the byte at the cursor matches, note the header and
  move on.  The remaining length is a signed halfword in the code; a byte minus at most
  sixteen does not leave its range.\<close>

definition note_header ::
  "mem \<Rightarrow> (u8 \<Rightarrow> bool) \<Rightarrow> u8 \<Rightarrow> nat \<Rightarrow> u16 \<times> nat \<times> int \<Rightarrow> (u16 \<times> nat \<times> int) option" where
  "note_header m matches hb hlen = (\<lambda>(headers, buf, len).
     (if 0 < len then do {
        b \<leftarrow> rd m buf;
        Some (if matches b then (headers OR ucast hb, buf + hlen, len - int hlen) else (headers, buf, len)) }
      else Some (headers, buf, len)))"

definition getHeaderBitmap :: "bool \<Rightarrow> packed_lowmsg \<Rightarrow> u16 option" where
  "getHeaderBitmap full msg =
     (case lm_data msg of None \<Rightarrow> Some 0
      | Some m \<Rightarrow> do {
          let len = int (unat (lm_len msg));
          b0 \<leftarrow> (if 0 < len then map_option Some (rd m 0) else Some None);
          (if (case b0 of None \<Rightarrow> False | Some b \<Rightarrow> drop_bit 6 b = LOWPAN_NALP_PATTERN) then Some (ucast LOWMSG_NALP)
           else if full \<and> (case b0 of None \<Rightarrow> False | Some b \<Rightarrow> drop_bit 6 b = LOWPAN_MESH_PATTERN
                 \<and> (b AND LOWPAN_MESH_V_MASK = 0 \<or> b AND LOWPAN_MESH_F_MASK = 0))
           then Some (ucast LOWMSG_NALP)
           else do {
             let s = (0, 0, len);
             s \<leftarrow> (if full then note_header m (\<lambda>b. drop_bit 6 b = LOWPAN_MESH_PATTERN) LOWMSG_MESH_HDR LOWMSG_MESH_LEN s else Some s);
             s \<leftarrow> (if full then note_header m (\<lambda>b. b = LOWPAN_BCAST_PATTERN) LOWMSG_BCAST_HDR LOWMSG_BCAST_LEN s else Some s);
             s \<leftarrow> note_header m (\<lambda>b. drop_bit 3 b = LOWPAN_FRAG1_PATTERN) LOWMSG_FRAG1_HDR LOWMSG_FRAG1_LEN s;
             s \<leftarrow> note_header m (\<lambda>b. drop_bit 3 b = LOWPAN_FRAGN_PATTERN) LOWMSG_FRAGN_HDR LOWMSG_FRAGN_LEN s;
             Some (fst s) }) })"

text \<open>One step of \<open>setupHeaders\<close>: return 1 if the header does not fit the rest of the length,
  else record it and write its dispatch byte.  The headers written so far stay in the message
  on a failure.\<close>

definition place_header ::
  "bool \<Rightarrow> u8 \<Rightarrow> nat \<Rightarrow> packed_lowmsg \<times> nat \<times> nat \<Rightarrow> u8 \<Rightarrow> (packed_lowmsg \<times> nat \<times> nat + packed_lowmsg) option" where
  "place_header wanted hb hlen s dispatch =
     (case s of (msg, buf, len) \<Rightarrow>
       (if \<not> wanted then Some (Inl (msg, buf, len))
        else if len < hlen then Some (Inr msg)
        else do {
          m \<leftarrow> lm_data msg;
          m \<leftarrow> wr m buf dispatch;
          Some (Inl (msg\<lparr>lm_headers := lm_headers msg OR hb, lm_data := Some m\<rparr>, buf + hlen, len - hlen)) }))"

definition and_then :: "('a + 'b) option \<Rightarrow> ('a \<Rightarrow> ('a + 'b) option) \<Rightarrow> ('a + 'b) option" where
  "and_then r f = do { x \<leftarrow> r; (case x of Inl s \<Rightarrow> f s | Inr e \<Rightarrow> Some (Inr e)) }"

definition setupHeaders :: "bool \<Rightarrow> packed_lowmsg \<Rightarrow> u16 \<Rightarrow> (packed_lowmsg \<times> u8) option" where
  "setupHeaders full packed headers =
     (case lm_data packed of None \<Rightarrow> Some (packed, 1)
      | Some m \<Rightarrow> do {
          r \<leftarrow> and_then (and_then (and_then
            (place_header (full \<and> headers AND ucast LOWMSG_MESH_HDR \<noteq> 0) LOWMSG_MESH_HDR LOWMSG_MESH_LEN
               (packed\<lparr>lm_headers := 0\<rparr>, 0, unat (lm_len packed))
               (push_bit 6 LOWPAN_MESH_PATTERN OR LOWPAN_MESH_V_MASK OR LOWPAN_MESH_F_MASK))
            (\<lambda>s. place_header (full \<and> headers AND ucast LOWMSG_BCAST_HDR \<noteq> 0) LOWMSG_BCAST_HDR LOWMSG_BCAST_LEN s
               LOWPAN_BCAST_PATTERN))
            (\<lambda>s. place_header (headers AND ucast LOWMSG_FRAG1_HDR \<noteq> 0) LOWMSG_FRAG1_HDR LOWMSG_FRAG1_LEN s
               (push_bit 3 LOWPAN_FRAG1_PATTERN)))
            (\<lambda>s. place_header (headers AND ucast LOWMSG_FRAGN_HDR \<noteq> 0) LOWMSG_FRAGN_HDR LOWMSG_FRAGN_LEN s
               (push_bit 3 LOWPAN_FRAGN_PATTERN));
          Some (case r of Inl (msg, _) \<Rightarrow> (msg, 0) | Inr msg \<Rightarrow> (msg, 1)) })"

section \<open>Mesh and broadcast fields\<close>

definition getMeshHopsLeft :: "bool \<Rightarrow> packed_lowmsg \<Rightarrow> (u8 \<times> u8 option) option" where
  "getMeshHopsLeft out msg =
     (case lm_data msg of
        Some m \<Rightarrow> if \<not> hasMeshHeader msg \<or> \<not> out then Some (1, None)
                  else do { b \<leftarrow> rd m 0; Some (0, Some (b AND LOWPAN_MESH_HOPS_MASK)) }
      | None \<Rightarrow> Some (1, None))"

definition getMeshAddr :: "u8 \<Rightarrow> nat \<Rightarrow> bool \<Rightarrow> packed_lowmsg \<Rightarrow> (u8 \<times> u16 option) option" where
  "getMeshAddr msk off out msg =
     (case lm_data msg of
        Some m \<Rightarrow> if \<not> hasMeshHeader msg \<or> \<not> out then Some (1, None)
                  else do { b \<leftarrow> rd m 0;
                            (if b AND msk = 0 then Some (1, None)
                             else do { w \<leftarrow> rd16 m off; Some (0, Some (ntohs w)) }) }
      | None \<Rightarrow> Some (1, None))"

definition getMeshOriginAddr :: "bool \<Rightarrow> packed_lowmsg \<Rightarrow> (u8 \<times> u16 option) option" where
  "getMeshOriginAddr = getMeshAddr LOWPAN_MESH_V_MASK 1"
definition getMeshFinalAddr :: "bool \<Rightarrow> packed_lowmsg \<Rightarrow> (u8 \<times> u16 option) option" where
  "getMeshFinalAddr = getMeshAddr LOWPAN_MESH_F_MASK 3"

definition setMeshHopsLeft :: "packed_lowmsg \<Rightarrow> u8 \<Rightarrow> (packed_lowmsg \<times> u8) option" where
  "setMeshHopsLeft msg hops =
     (case lm_data msg of
        Some m \<Rightarrow> if \<not> hasMeshHeader msg then Some (msg, 1)
                  else do { m \<leftarrow> wr m 0 (0xb0 OR (hops AND LOWPAN_MESH_HOPS_MASK));
                            Some (msg\<lparr>lm_data := Some m\<rparr>, 0) }
      | None \<Rightarrow> Some (msg, 1))"

definition setMeshAddr :: "u8 \<Rightarrow> nat \<Rightarrow> packed_lowmsg \<Rightarrow> u16 \<Rightarrow> (packed_lowmsg \<times> u8) option" where
  "setMeshAddr msk off msg addr =
     (case lm_data msg of
        Some m \<Rightarrow> if \<not> hasMeshHeader msg then Some (msg, 1)
                  else do { b \<leftarrow> rd m 0;
                            (if b AND msk = 0 then Some (msg, 1)
                             else do { m \<leftarrow> wr16 m off (htons addr); Some (msg\<lparr>lm_data := Some m\<rparr>, 0) }) }
      | None \<Rightarrow> Some (msg, 1))"

definition setMeshOriginAddr :: "packed_lowmsg \<Rightarrow> u16 \<Rightarrow> (packed_lowmsg \<times> u8) option" where
  "setMeshOriginAddr = setMeshAddr LOWPAN_MESH_V_MASK 1"
definition setMeshFinalAddr :: "packed_lowmsg \<Rightarrow> u16 \<Rightarrow> (packed_lowmsg \<times> u8) option" where
  "setMeshFinalAddr = setMeshAddr LOWPAN_MESH_F_MASK 3"

definition getBcastSeqno :: "bool \<Rightarrow> packed_lowmsg \<Rightarrow> (u8 \<times> u8 option) option" where
  "getBcastSeqno out msg =
     (case lm_data msg of
        Some m \<Rightarrow> if \<not> out \<or> \<not> hasBcastHeader msg then Some (1, None)
                  else do { let p = (if hasMeshHeader msg then LOWMSG_MESH_LEN else 0);
                            b \<leftarrow> rd m p;
                            (if b \<noteq> LOWPAN_BCAST_PATTERN then Some (2, None)
                             else do { v \<leftarrow> rd m (p + 1); Some (0, Some v) }) }
      | None \<Rightarrow> Some (1, None))"

definition setBcastSeqno :: "packed_lowmsg \<Rightarrow> u8 \<Rightarrow> (packed_lowmsg \<times> u8) option" where
  "setBcastSeqno msg seqno =
     (case lm_data msg of
        Some m \<Rightarrow> if \<not> hasBcastHeader msg then Some (msg, 1)
                  else do { let p = (if hasMeshHeader msg then LOWMSG_MESH_LEN else 0);
                            b \<leftarrow> rd m p;
                            (if b \<noteq> LOWPAN_BCAST_PATTERN then Some (msg, 2)
                             else do { m \<leftarrow> wr m (p + 1) seqno; Some (msg\<lparr>lm_data := Some m\<rparr>, 0) }) }
      | None \<Rightarrow> Some (msg, 1))"

section \<open>Fragmentation fields\<close>

text \<open>Where the fragmentation header starts, and whether a byte is its dispatch.\<close>

definition frag_base :: "bool \<Rightarrow> packed_lowmsg \<Rightarrow> nat" where
  "frag_base full msg =
     (if full \<and> hasMeshHeader msg then LOWMSG_MESH_LEN else 0)
     + (if full \<and> hasBcastHeader msg then LOWMSG_BCAST_LEN else 0)"

definition is_frag :: "u8 \<Rightarrow> bool" where
  "is_frag b \<longleftrightarrow> drop_bit 3 b = LOWPAN_FRAG1_PATTERN \<or> drop_bit 3 b = LOWPAN_FRAGN_PATTERN"

definition getFragDgramSize :: "bool \<Rightarrow> bool \<Rightarrow> packed_lowmsg \<Rightarrow> (u8 \<times> u16 option) option" where
  "getFragDgramSize full out msg =
     (case lm_data msg of
        Some m \<Rightarrow> if \<not> out then Some (1, None)
                  else do { let p = frag_base full msg;
                            b \<leftarrow> rd m p;
                            (if \<not> is_frag b then Some (1, None)
                             else do { s1 \<leftarrow> rd m (p + 1); Some (0, Some (le16 s1 (b AND 7))) }) }
      | None \<Rightarrow> Some (1, None))"

definition getFragDgramTag :: "bool \<Rightarrow> bool \<Rightarrow> packed_lowmsg \<Rightarrow> (u8 \<times> u16 option) option" where
  "getFragDgramTag full out msg =
     (case lm_data msg of
        Some m \<Rightarrow> if \<not> out then Some (1, None)
                  else do { let p = frag_base full msg;
                            b \<leftarrow> rd m p;
                            (if \<not> is_frag b then Some (1, None)
                             else do { w \<leftarrow> rd16 m (p + 2); Some (0, Some (ntohs w)) }) }
      | None \<Rightarrow> Some (1, None))"

definition getFragDgramOffset :: "bool \<Rightarrow> bool \<Rightarrow> packed_lowmsg \<Rightarrow> (u8 \<times> u8 option) option" where
  "getFragDgramOffset full out msg =
     (case lm_data msg of
        Some m \<Rightarrow> if \<not> out then Some (1, None)
                  else do { let p = frag_base full msg;
                            b \<leftarrow> rd m p;
                            (if drop_bit 3 b \<noteq> LOWPAN_FRAGN_PATTERN then Some (1, None)
                             else do { v \<leftarrow> rd m (p + 4); Some (0, Some v) }) }
      | None \<Rightarrow> Some (1, None))"

text \<open>\<open>*buf &= 0xf8; *buf |= (size >> 8)\<close>\<close>

definition size_byte :: "u8 \<Rightarrow> u16 \<Rightarrow> u8" where
  "size_byte b sz = (b AND 0xf8) OR hi8 sz"

definition setFragDgramSize :: "bool \<Rightarrow> packed_lowmsg \<Rightarrow> u16 \<Rightarrow> (packed_lowmsg \<times> u8) option" where
  "setFragDgramSize full msg sz =
     (case lm_data msg of
        Some m \<Rightarrow> do { let p = frag_base full msg;
                       b \<leftarrow> rd m p;
                       (if \<not> is_frag b then Some (msg, 1)
                        else do { let sz = sz AND 0x7ff;
                                  m \<leftarrow> wr m p (size_byte b sz);
                                  m \<leftarrow> wr m (p + 1) (lo8 sz);
                                  Some (msg\<lparr>lm_data := Some m\<rparr>, 0) }) }
      | None \<Rightarrow> Some (msg, 1))"

definition setFragDgramTag :: "bool \<Rightarrow> packed_lowmsg \<Rightarrow> u16 \<Rightarrow> (packed_lowmsg \<times> u8) option" where
  "setFragDgramTag full msg tag =
     (case lm_data msg of
        Some m \<Rightarrow> do { let p = frag_base full msg;
                       b \<leftarrow> rd m p;
                       (if \<not> is_frag b then Some (msg, 1)
                        else do { m \<leftarrow> wr m (p + 2) (hi8 tag);
                                  m \<leftarrow> wr m (p + 3) (lo8 tag);
                                  Some (msg\<lparr>lm_data := Some m\<rparr>, 0) }) }
      | None \<Rightarrow> Some (msg, 1))"

definition setFragDgramOffset :: "bool \<Rightarrow> packed_lowmsg \<Rightarrow> u8 \<Rightarrow> (packed_lowmsg \<times> u8) option" where
  "setFragDgramOffset full msg off =
     (case lm_data msg of
        Some m \<Rightarrow> do { let p = frag_base full msg;
                       b \<leftarrow> rd m p;
                       (if drop_bit 3 b \<noteq> LOWPAN_FRAGN_PATTERN then Some (msg, 1)
                        else do { m \<leftarrow> wr m (p + 4) off; Some (msg\<lparr>lm_data := Some m\<rparr>, 0) }) }
      | None \<Rightarrow> Some (msg, 1))"


section \<open>Fields that do not disturb each other\<close>

text \<open>A field of a header: storing succeeds on a valid message, keeps it valid, and loading
  gives the stored value, reduced to the width of the field.\<close>

locale header_field =
  fixes valid :: "'s \<Rightarrow> bool"
    and store :: "'s \<Rightarrow> 'v \<Rightarrow> ('s \<times> u8) option"
    and load :: "'s \<Rightarrow> (u8 \<times> 'v option) option"
    and norm :: "'v \<Rightarrow> 'v"
  assumes store_load: "valid s \<Longrightarrow> \<exists>s'. store s v = Some (s', 0) \<and> valid s' \<and> load s' = Some (0, Some (norm v))"
begin

lemma store_twice:
  assumes "valid s"
  shows "\<exists>s1 s2. store s v = Some (s1, 0) \<and> store s1 w = Some (s2, 0) \<and> load s2 = Some (0, Some (norm w))"
  using store_load [OF assms, of v] store_load by blast

end

locale header_fields =
  a: header_field valid store_a load_a norm_a + b: header_field valid store_b load_b norm_b
  for valid :: "'s \<Rightarrow> bool"
    and store_a :: "'s \<Rightarrow> 'v \<Rightarrow> ('s \<times> u8) option" and load_a norm_a
    and store_b :: "'s \<Rightarrow> 'w \<Rightarrow> ('s \<times> u8) option" and load_b norm_b +
  assumes a_keeps_b: "valid s \<Longrightarrow> store_a s v = Some (s', 0) \<Longrightarrow> load_b s' = load_b s"
    and b_keeps_a: "valid s \<Longrightarrow> store_b s w = Some (s', 0) \<Longrightarrow> load_a s' = load_a s"
begin

lemma both:
  assumes "valid s"
  shows "\<exists>s1 s2. store_a s v = Some (s1, 0) \<and> store_b s1 w = Some (s2, 0) \<and> valid s2 \<and>
    load_a s2 = Some (0, Some (norm_a v)) \<and> load_b s2 = Some (0, Some (norm_b w))"
proof -
  obtain s1 where 1: "store_a s v = Some (s1, 0)" "valid s1" "load_a s1 = Some (0, Some (norm_a v))"
    using a.store_load [OF assms] by blast
  obtain s2 where 2: "store_b s1 w = Some (s2, 0)" "valid s2" "load_b s2 = Some (0, Some (norm_b w))"
    using b.store_load [OF 1(2)] by blast
  have "load_a s2 = load_a s1" by (rule b_keeps_a [OF 1(2) 2(1)])
  with 1 2 show ?thesis by auto
qed

lemma both_swapped:
  assumes "valid s"
  shows "\<exists>s1 s2. store_b s w = Some (s1, 0) \<and> store_a s1 v = Some (s2, 0) \<and> valid s2 \<and>
    load_a s2 = Some (0, Some (norm_a v)) \<and> load_b s2 = Some (0, Some (norm_b w))"
proof -
  obtain s1 where 1: "store_b s w = Some (s1, 0)" "valid s1" "load_b s1 = Some (0, Some (norm_b w))"
    using b.store_load [OF assms] by blast
  obtain s2 where 2: "store_a s1 v = Some (s2, 0)" "valid s2" "load_a s2 = Some (0, Some (norm_a v))"
    using a.store_load [OF 1(2)] by blast
  have "load_b s2 = load_b s1" by (rule a_keeps_b [OF 1(2) 2(1)])
  with 1 2 show ?thesis by auto
qed

end

text \<open>A message whose fragmentation header is in place, with \<open>k\<close> bytes of room.\<close>

definition frag_ok :: "(u8 \<Rightarrow> bool) \<Rightarrow> nat \<Rightarrow> bool \<Rightarrow> packed_lowmsg \<Rightarrow> bool" where
  "frag_ok pat k full msg \<longleftrightarrow>
     (case lm_data msg of None \<Rightarrow> False
      | Some m \<Rightarrow> frag_base full msg + k \<le> length m \<and> pat (drop_bit 3 (m ! frag_base full msg)))"

definition any_frag :: "u8 \<Rightarrow> bool" where
  "any_frag d \<longleftrightarrow> d = LOWPAN_FRAG1_PATTERN \<or> d = LOWPAN_FRAGN_PATTERN"

definition next_frag :: "u8 \<Rightarrow> bool" where
  "next_frag d \<longleftrightarrow> d = LOWPAN_FRAGN_PATTERN"

definition size_norm :: "u16 \<Rightarrow> u16" where
  "size_norm s = s AND 0x7ff"

lemma frag_base_data [simp]: "frag_base full (msg\<lparr>lm_data := d\<rparr>) = frag_base full msg"
  by (simp add: frag_base_def hasMeshHeader_def hasBcastHeader_def)

lemma low3_mask: "(7 :: u8) = mask 3" "(0xf8 :: u8) = NOT (mask 3)" "(0x7ff :: u16) = mask 11"
  by (simp_all add: mask_eq_exp_minus_1)

lemma u8_high: "8 \<le> n \<Longrightarrow> \<not> bit (w :: u8) n"
  by (auto dest: bit_imp_le_length)

lemma dispatch_kept [simp]: "drop_bit 3 (size_byte b (s AND 0x7ff)) = drop_bit 3 b"
proof (rule bit_word_eqI)
  fix n
  assume "n < LENGTH(8)"
  show "bit (drop_bit 3 (size_byte b (s AND 0x7ff))) n \<longleftrightarrow> bit (drop_bit 3 b) n"
    using u8_high [of "3 + n" b] unfolding size_byte_def low3_mask
    by (cases "n < 5") (auto simp: hi8_def bit_simps)
qed

lemma size_high [simp]: "size_byte b (s AND 0x7ff) AND 7 = hi8 (s AND 0x7ff)"
  unfolding size_byte_def low3_mask by (auto intro!: bit_word_eqI simp: hi8_def bit_simps)

lemma unat_size_norm: "unat (size_norm s) = unat s mod 2048"
proof -
  have "size_norm s = take_bit 11 s"
    unfolding size_norm_def low3_mask by (simp add: take_bit_eq_mask)
  then have "unat (size_norm s) = take_bit 11 (unat s)" by (simp only: unsigned_take_bit_eq)
  then show ?thesis by (simp add: take_bit_eq_mod)
qed

lemma idx_3: "Suc (Suc (Suc p)) = p + 3"
  by simp

lemmas frag_simps = frag_ok_def rd_def wr_def rd16_def Let_def any_frag_def next_frag_def is_frag_def idx_3

lemma size_field: "any_frag = pat \<or> next_frag = pat \<Longrightarrow> 4 \<le> k \<Longrightarrow>
  header_field (frag_ok pat k full) (setFragDgramSize full) (getFragDgramSize full True) size_norm"
  by unfold_locales
    (auto simp: frag_simps setFragDgramSize_def getFragDgramSize_def size_norm_def split: option.splits)

lemma tag_field: "any_frag = pat \<or> next_frag = pat \<Longrightarrow> 4 \<le> k \<Longrightarrow>
  header_field (frag_ok pat k full) (setFragDgramTag full) (getFragDgramTag full True) id"
  by unfold_locales
    (auto simp: frag_simps setFragDgramTag_def getFragDgramTag_def split: option.splits)

lemma offset_field: "5 \<le> k \<Longrightarrow>
  header_field (frag_ok next_frag k full) (setFragDgramOffset full) (getFragDgramOffset full True) id"
  by unfold_locales
    (auto simp: frag_simps setFragDgramOffset_def getFragDgramOffset_def split: option.splits)

interpretation size_tag: header_fields "frag_ok any_frag 4 full"
  "setFragDgramSize full" "getFragDgramSize full True" size_norm
  "setFragDgramTag full" "getFragDgramTag full True" id for full
  by (intro header_fields.intro size_field tag_field header_fields_axioms.intro)
    (auto simp: frag_simps setFragDgramSize_def getFragDgramSize_def setFragDgramTag_def getFragDgramTag_def
      split: option.splits if_splits)

interpretation size_offset: header_fields "frag_ok next_frag 5 full"
  "setFragDgramSize full" "getFragDgramSize full True" size_norm
  "setFragDgramOffset full" "getFragDgramOffset full True" id for full
  by (intro header_fields.intro size_field offset_field header_fields_axioms.intro)
    (auto simp: frag_simps setFragDgramSize_def getFragDgramSize_def setFragDgramOffset_def getFragDgramOffset_def
      split: option.splits if_splits)

interpretation tag_offset: header_fields "frag_ok next_frag 5 full"
  "setFragDgramTag full" "getFragDgramTag full True" id
  "setFragDgramOffset full" "getFragDgramOffset full True" id for full
  by (intro header_fields.intro tag_field offset_field header_fields_axioms.intro)
    (auto simp: frag_simps setFragDgramTag_def getFragDgramTag_def setFragDgramOffset_def getFragDgramOffset_def
      split: option.splits if_splits)


section \<open>Dispatch bytes written are dispatch bytes found\<close>

definition plain_byte :: "u8 \<Rightarrow> bool" where
  "plain_byte b \<longleftrightarrow> drop_bit 6 b \<noteq> LOWPAN_NALP_PATTERN \<and> drop_bit 6 b \<noteq> LOWPAN_MESH_PATTERN \<and>
     b \<noteq> LOWPAN_BCAST_PATTERN \<and> \<not> is_frag b"

text \<open>The byte at the payload, if there is one, is no further header.\<close>

definition payload_plain :: "bool \<Rightarrow> packed_lowmsg \<Rightarrow> bool" where
  "payload_plain full msg \<longleftrightarrow>
     (case lm_data msg of None \<Rightarrow> False
      | Some m \<Rightarrow> getLowpanPayload full msg < unat (lm_len msg) \<longrightarrow> plain_byte (m ! getLowpanPayload full msg))"

lemma is_frag_push [simp]: "drop_bit 3 (push_bit 3 LOWPAN_FRAG1_PATTERN) = LOWPAN_FRAG1_PATTERN"
  "drop_bit 3 (push_bit 3 LOWPAN_FRAGN_PATTERN) = LOWPAN_FRAGN_PATTERN"
  by (simp_all add: lowmsg_defs)

lemma lowmsg_push: "push_bit 6 LOWPAN_MESH_PATTERN OR LOWPAN_MESH_V_MASK OR LOWPAN_MESH_F_MASK = 0xb0"
  "push_bit 3 LOWPAN_FRAG1_PATTERN = 0xc0" "push_bit 3 LOWPAN_FRAGN_PATTERN = 0xe0"
  by (simp_all add: lowmsg_defs)

lemma setup_bitmap:
  assumes s: "setupHeaders full msg headers = Some (msg', 0)"
    and len: "lm_data msg = Some m" "unat (lm_len msg) \<le> length m"
    and plain: "payload_plain full msg'"
  shows "getHeaderBitmap full msg' = Some (ucast (lm_headers msg'))"
proof -
  define A where "A \<longleftrightarrow> full \<and> headers AND ucast LOWMSG_MESH_HDR \<noteq> 0"
  define B where "B \<longleftrightarrow> full \<and> headers AND ucast LOWMSG_BCAST_HDR \<noteq> 0"
  define C where "C \<longleftrightarrow> headers AND ucast LOWMSG_FRAG1_HDR \<noteq> 0"
  define D where "D \<longleftrightarrow> headers AND ucast LOWMSG_FRAGN_HDR \<noteq> 0"
  have f: "\<not> full \<Longrightarrow> \<not> A \<and> \<not> B" by (simp add: A_def B_def)
  note s' = s [unfolded setupHeaders_def len(1) option.case A_def [symmetric] B_def [symmetric] C_def [symmetric] D_def [symmetric]]
  show ?thesis
    using s' len(2) plain f
    apply (cases A; cases B; cases C; cases D; cases full)
    apply (simp_all add: place_header_def and_then_def lowmsg_push wr_def len(1) split: if_splits)
    apply safe
    apply (simp_all add: payload_plain_def nth_list_update len(1)
      getLowpanPayload_def plain_byte_def is_frag_def getHeaderBitmap_def note_header_def rd_def
      hasMeshHeader_def hasBcastHeader_def hasFrag1Header_def hasFragNHeader_def lowmsg_defs Let_def
      del: of_nat_unat)
    apply (linarith | auto)+
    done
qed


text \<open>A dispatch byte put in place by \<open>setupHeaders\<close> makes the fragment fields valid.\<close>

lemma setup_frag1:
  assumes "lm_data msg = Some m" "4 \<le> unat (lm_len msg)" "unat (lm_len msg) \<le> length m"
  shows "\<exists>msg'. setupHeaders False msg (ucast LOWMSG_FRAG1_HDR) = Some (msg', 0) \<and>
    frag_ok any_frag 4 False msg' \<and> getLowpanPayload False msg' = 4"
  using assms
  by (cases m) (simp_all add: setupHeaders_def place_header_def and_then_def lowmsg_push wr_def frag_ok_def any_frag_def
    getLowpanPayload_def hasFrag1Header_def hasFragNHeader_def frag_base_def lowmsg_defs)

lemma setup_fragn:
  assumes "lm_data msg = Some m" "5 \<le> unat (lm_len msg)" "unat (lm_len msg) \<le> length m"
  shows "\<exists>msg'. setupHeaders False msg (ucast LOWMSG_FRAGN_HDR) = Some (msg', 0) \<and>
    frag_ok next_frag 5 False msg' \<and> getLowpanPayload False msg' = 5"
  using assms
  by (cases m) (simp_all add: setupHeaders_def place_header_def and_then_def lowmsg_push wr_def frag_ok_def next_frag_def
    getLowpanPayload_def hasFrag1Header_def hasFragNHeader_def frag_base_def lowmsg_defs)

section \<open>Properties\<close>

text \<open>The headers \<open>setupHeaders\<close> lays out are the headers \<open>getHeaderBitmap\<close> finds, in both
  builds and for every requested set that fits: if setup succeeds and the first payload byte is
  no dispatch byte of a further header, the bitmap of the message is its header set.\<close>

theorem setup_then_bitmap:
  assumes "setupHeaders full msg headers = Some (msg', 0)"
    and "lm_data msg = Some m" "unat (lm_len msg) \<le> length m"
    and "payload_plain full msg'"
  shows "getHeaderBitmap full msg' = Some (ucast (lm_headers msg'))"
  by (rule setup_bitmap [OF assms])

lemma setup_then_bitmap_witness:
  "\<exists>msg'. setupHeaders True \<lparr>lm_headers = 0, lm_len = 20, lm_data = Some (replicate 20 0x60)\<rparr> 7 = Some (msg', 0) \<and>
    getHeaderBitmap True msg' = Some 7"
proof -
  let ?msg = "\<lparr>lm_headers = 0, lm_len = 20, lm_data = Some (replicate 20 0x60)\<rparr>"
  define msg' where "msg' = \<lparr>lm_headers = 7, lm_len = 20,
    lm_data = Some ((replicate 20 0x60)[0 := 0xb0, 5 := 0x50, 7 := 0xc0])\<rparr>"
  have s: "setupHeaders True ?msg 7 = Some (msg', 0)"
    by (simp add: setupHeaders_def place_header_def and_then_def wr_def lowmsg_defs msg'_def)
  have "payload_plain True msg'"
    by (simp add: payload_plain_def msg'_def getLowpanPayload_def hasMeshHeader_def hasBcastHeader_def
        hasFrag1Header_def hasFragNHeader_def lowmsg_defs plain_byte_def is_frag_def)
  with setup_then_bitmap [OF s] s show ?thesis by (simp add: msg'_def)
qed

text \<open>The fields of a first-fragment header, written in the order the fragmenter writes
  them, read back: after \<open>setupHeaders\<close>, \<open>setFragDgramTag\<close> and \<open>setFragDgramSize\<close>, the getters
  return the tag and the size modulo 2048, and none of the calls fails.\<close>

theorem frag1_fields_roundtrip:
  assumes "lm_data msg = Some m" "4 \<le> unat (lm_len msg)" "unat (lm_len msg) \<le> length m"
  shows "\<exists>m1 m2 m3. setupHeaders False msg (ucast LOWMSG_FRAG1_HDR) = Some (m1, 0) \<and>
    setFragDgramTag False m1 tag = Some (m2, 0) \<and> setFragDgramSize False m2 sz = Some (m3, 0) \<and>
    getFragDgramTag False True m3 = Some (0, Some tag) \<and>
    (\<exists>s. getFragDgramSize False True m3 = Some (0, Some s) \<and> unat s = unat sz mod 2048)"
proof -
  obtain m1 where 1: "setupHeaders False msg (ucast LOWMSG_FRAG1_HDR) = Some (m1, 0)" "frag_ok any_frag 4 False m1"
    using setup_frag1 [OF assms] by blast
  from size_tag.both_swapped [OF 1(2), of tag sz] obtain m2 m3 where
    "setFragDgramTag False m1 tag = Some (m2, 0)" "setFragDgramSize False m2 sz = Some (m3, 0)"
    "getFragDgramSize False True m3 = Some (0, Some (size_norm sz))" "getFragDgramTag False True m3 = Some (0, Some tag)"
    by auto
  with 1(1) unat_size_norm [of sz] show ?thesis by auto
qed

lemma frag1_fields_roundtrip_witness:
  "\<exists>m1 m2 m3. setupHeaders False \<lparr>lm_headers = 0, lm_len = 8, lm_data = Some (replicate 8 0)\<rparr> (ucast LOWMSG_FRAG1_HDR) = Some (m1, 0) \<and>
    setFragDgramTag False m1 0x1234 = Some (m2, 0) \<and> setFragDgramSize False m2 1280 = Some (m3, 0) \<and>
    getFragDgramTag False True m3 = Some (0, Some 0x1234)"
  using frag1_fields_roundtrip [of "\<lparr>lm_headers = 0, lm_len = 8, lm_data = Some (replicate 8 0)\<rparr>" "replicate 8 0" "0x1234" 1280]
  by auto

text \<open>The fields of a later-fragment header read back: size, tag and offset are independent,
  each is returned as written (the size modulo 2048), and none of the calls fails.\<close>

theorem fragn_fields_roundtrip:
  assumes "lm_data msg = Some m" "5 \<le> unat (lm_len msg)" "unat (lm_len msg) \<le> length m"
  shows "\<exists>m1 m2 m3 m4. setupHeaders False msg (ucast LOWMSG_FRAGN_HDR) = Some (m1, 0) \<and>
    setFragDgramTag False m1 tag = Some (m2, 0) \<and> setFragDgramSize False m2 sz = Some (m3, 0) \<and>
    setFragDgramOffset False m3 off = Some (m4, 0) \<and>
    getFragDgramTag False True m4 = Some (0, Some tag) \<and> getFragDgramOffset False True m4 = Some (0, Some off) \<and>
    (\<exists>s. getFragDgramSize False True m4 = Some (0, Some s) \<and> unat s = unat sz mod 2048)"
proof -
  obtain m1 where 1: "setupHeaders False msg (ucast LOWMSG_FRAGN_HDR) = Some (m1, 0)" "frag_ok next_frag 5 False m1"
    using setup_fragn [OF assms] by blast
  obtain m2 where 2: "setFragDgramTag False m1 tag = Some (m2, 0)" "frag_ok next_frag 5 False m2"
    "getFragDgramTag False True m2 = Some (0, Some tag)"
    using tag_offset.a.store_load [OF 1(2), of tag] by auto
  from size_offset.both [OF 2(2), of sz off] obtain m3 m4 where
    3: "setFragDgramSize False m2 sz = Some (m3, 0)" "setFragDgramOffset False m3 off = Some (m4, 0)"
      "getFragDgramSize False True m4 = Some (0, Some (size_norm sz))" "getFragDgramOffset False True m4 = Some (0, Some off)"
    by auto
  obtain m3' where m3': "setFragDgramSize False m2 sz = Some (m3', 0)" "frag_ok next_frag 5 False m3'"
    using size_offset.a.store_load [OF 2(2), of sz] by auto
  with 3 have m3: "frag_ok next_frag 5 False m3" by simp
  have "getFragDgramTag False True m3 = getFragDgramTag False True m2"
    using size_tag.a_keeps_b [of False m2 sz m3] 2(2) 3(1)
    by (auto simp: frag_ok_def any_frag_def next_frag_def split: option.splits)
  moreover have "getFragDgramTag False True m4 = getFragDgramTag False True m3"
    by (rule tag_offset.b_keeps_a [OF m3 3(2)])
  ultimately show ?thesis using 1(1) 2(1,3) 3 unat_size_norm [of sz] by auto
qed

lemma fragn_fields_roundtrip_witness:
  "\<exists>m1 m2 m3 m4. setupHeaders False \<lparr>lm_headers = 0, lm_len = 8, lm_data = Some (replicate 8 0)\<rparr> (ucast LOWMSG_FRAGN_HDR) = Some (m1, 0) \<and>
    setFragDgramTag False m1 0x1234 = Some (m2, 0) \<and> setFragDgramSize False m2 1280 = Some (m3, 0) \<and>
    setFragDgramOffset False m3 12 = Some (m4, 0) \<and> getFragDgramOffset False True m4 = Some (0, Some 12)"
  using fragn_fields_roundtrip [of "\<lparr>lm_headers = 0, lm_len = 8, lm_data = Some (replicate 8 0)\<rparr>" "replicate 8 0" "0x1234" 1280 12]
  by auto

end
