(* ===== verification/Ip_Malloc.thy ===== *)
theory Ip_Malloc
  imports Backip_Prelude
begin

text \<open>
  The packet heap of \<open>ip_malloc.c\<close>: a 1500-byte array cut into blocks, each headed by a
  halfword with its length (low twelve bits, header included) and an in-use bit.  Pointers are
  offsets into the array.  The walks follow the lengths, so they need not end on a damaged
  heap: they are partial functions with \<^term>\<open>None\<close> for ``does not return''.

  The allocation loop tests the block header before it tests that the walk is still inside the
  array, so on a full heap it loads a halfword behind the array.  Every load and store is checked:
  \<open>junk\<close> says which bytes outside the array may be loaded and what they hold, and a load of any
  other byte, like a store outside the array, is \<^term>\<open>None\<close>.  With \<open>behind w\<close> those are the two
  bytes behind the array, with the empty map there are none.  The abstract heap is the list of blocks; the lemmas show that allocation is first
  fit with a split, that release merges with both neighbours, and that one undoes the other.
\<close>

section \<open>The allocator\<close>

definition IP_MALLOC_LEN :: u16 where "IP_MALLOC_LEN = 0x0fff"
definition IP_MALLOC_INUSE :: u16 where "IP_MALLOC_INUSE = 0x8000"
definition IP_MALLOC_ALIGN :: u16 where "IP_MALLOC_ALIGN = 2"
definition IP_MALLOC_HEAP_SIZE :: nat where "IP_MALLOC_HEAP_SIZE = 1500"

definition hd16 :: "(nat \<Rightarrow> u8 option) \<Rightarrow> mem \<Rightarrow> nat \<Rightarrow> u16 option" where
  "hd16 junk h p =
     (let byte = (\<lambda>q. if q < length h then Some (h ! q) else junk q)
      in do { a \<leftarrow> byte p; b \<leftarrow> byte (p + 1); Some (le16 a b) })"

definition behind :: "u8 \<times> u8 \<Rightarrow> nat \<Rightarrow> u8 option" where
  "behind w = [IP_MALLOC_HEAP_SIZE \<mapsto> fst w, IP_MALLOC_HEAP_SIZE + 1 \<mapsto> snd w]"

definition ip_malloc_init :: "mem \<Rightarrow> mem option" where
  "ip_malloc_init heap = wr16 heap 0 (of_nat IP_MALLOC_HEAP_SIZE AND IP_MALLOC_LEN)"

partial_function (option) malloc_find :: "(nat \<Rightarrow> u8 option) \<Rightarrow> mem \<Rightarrow> u16 \<Rightarrow> nat \<Rightarrow> nat option" where
  "malloc_find junk heap sz cur = do {
     w \<leftarrow> hd16 junk heap cur;
     (if ((w AND IP_MALLOC_LEN) < sz \<or> (w AND IP_MALLOC_INUSE) \<noteq> 0) \<and> cur < IP_MALLOC_HEAP_SIZE
      then malloc_find junk heap sz (cur + unat (w AND IP_MALLOC_LEN))
      else Some cur) }"

text \<open>The halfword arithmetic on the requested size, wrap-around included.\<close>

definition malloc_size :: "u16 \<Rightarrow> u16" where
  "malloc_size req = (let sz = req + 4 in sz + sz mod IP_MALLOC_ALIGN)"

definition ip_malloc :: "(nat \<Rightarrow> u8 option) \<Rightarrow> mem \<Rightarrow> u16 \<Rightarrow> (mem \<times> nat option) option" where
  "ip_malloc junk heap req = do {
     let sz = malloc_size req;
     cur \<leftarrow> malloc_find junk heap sz 0;
     (if cur < IP_MALLOC_HEAP_SIZE then do {
        w \<leftarrow> hd16 junk heap cur;
        let oldsize = w AND IP_MALLOC_LEN;
        let sz = sz - 2;
        let next = cur + unat sz;
        heap \<leftarrow> wr16 heap cur ((sz AND IP_MALLOC_LEN) OR IP_MALLOC_INUSE);
        heap \<leftarrow> wr16 heap next ((oldsize - sz) AND IP_MALLOC_LEN);
        Some (heap, Some (cur + 2)) }
      else Some (heap, None)) }"

partial_function (option) free_find ::
  "(nat \<Rightarrow> u8 option) \<Rightarrow> mem \<Rightarrow> nat \<Rightarrow> nat option \<Rightarrow> nat \<Rightarrow> (nat option \<times> nat) option" where
  "free_find junk heap ptr prev cur =
     (if cur + 2 \<noteq> ptr \<and> cur < IP_MALLOC_HEAP_SIZE
      then do { w \<leftarrow> hd16 junk heap cur; free_find junk heap ptr (Some cur) (cur + unat (w AND IP_MALLOC_LEN)) }
      else Some (prev, cur))"

text \<open>Clear the in-use bit and take in a free successor; then let a free predecessor take us in.\<close>

definition free_next :: "(nat \<Rightarrow> u8 option) \<Rightarrow> mem \<Rightarrow> nat \<Rightarrow> mem option" where
  "free_next junk heap cur = do {
     w \<leftarrow> hd16 junk heap cur;
     let next = unat (w AND IP_MALLOC_LEN) + cur;
     heap \<leftarrow> wr16 heap cur (w AND NOT IP_MALLOC_INUSE);
     (if next < IP_MALLOC_HEAP_SIZE then do {
        v \<leftarrow> hd16 junk heap next;
        (if v AND IP_MALLOC_INUSE = 0 then do {
           w \<leftarrow> hd16 junk heap cur;
           wr16 heap cur ((w AND IP_MALLOC_LEN) + (v AND IP_MALLOC_LEN)) }
         else Some heap) }
      else Some heap) }"

definition free_prev :: "(nat \<Rightarrow> u8 option) \<Rightarrow> mem \<Rightarrow> nat option \<Rightarrow> nat \<Rightarrow> mem option" where
  "free_prev junk heap prev cur =
     (case prev of
        None \<Rightarrow> Some heap
      | Some prev \<Rightarrow> do {
          v \<leftarrow> hd16 junk heap prev;
          (if v AND IP_MALLOC_INUSE = 0 then do {
             w \<leftarrow> hd16 junk heap cur;
             wr16 heap prev ((v AND IP_MALLOC_LEN) + (w AND IP_MALLOC_LEN)) }
           else Some heap) })"

definition ip_free :: "(nat \<Rightarrow> u8 option) \<Rightarrow> mem \<Rightarrow> nat \<Rightarrow> mem option" where
  "ip_free junk heap ptr = do {
     (prev, cur) \<leftarrow> free_find junk heap ptr None 0;
     (if cur + 2 = ptr then do {
        heap \<leftarrow> free_next junk heap cur;
        free_prev junk heap prev cur }
      else Some heap) }"

partial_function (option) freespace_from :: "(nat \<Rightarrow> u8 option) \<Rightarrow> mem \<Rightarrow> nat \<Rightarrow> u16 \<Rightarrow> u16 option" where
  "freespace_from junk heap cur ret =
     (if cur < IP_MALLOC_HEAP_SIZE then do {
        w \<leftarrow> hd16 junk heap cur;
        let ret = (if w AND IP_MALLOC_INUSE = 0 then ret + (w AND IP_MALLOC_LEN) else ret);
        freespace_from junk heap (cur + unat (w AND IP_MALLOC_LEN)) ret }
      else Some ret)"

definition ip_malloc_freespace :: "(nat \<Rightarrow> u8 option) \<Rightarrow> mem \<Rightarrow> u16 option" where
  "ip_malloc_freespace junk heap = freespace_from junk heap 0 0"

section \<open>The abstract heap\<close>

type_synonym blocks = "(nat \<times> bool) list"

definition block_word :: "nat \<Rightarrow> bool \<Rightarrow> u16" where
  "block_word n used = of_nat n OR (if used then IP_MALLOC_INUSE else 0)"

fun blocks_at :: "mem \<Rightarrow> nat \<Rightarrow> blocks \<Rightarrow> bool" where
  "blocks_at h p [] \<longleftrightarrow> p = IP_MALLOC_HEAP_SIZE"
| "blocks_at h p ((n, used) # bs) \<longleftrightarrow>
     2 \<le> n \<and> even n \<and> p + n \<le> IP_MALLOC_HEAP_SIZE \<and> p + 1 < length h \<and>
     le16 (h ! p) (h ! (p + 1)) = block_word n used \<and> blocks_at h (p + n) bs"

definition heap_abs :: "mem \<Rightarrow> blocks \<Rightarrow> bool" where
  "heap_abs h bs \<longleftrightarrow> length h = IP_MALLOC_HEAP_SIZE \<and> blocks_at h 0 bs"

text \<open>First fit with a split; the offset is that of the block taken.\<close>

fun amalloc :: "nat \<Rightarrow> blocks \<Rightarrow> (blocks \<times> nat) option" where
  "amalloc sz [] = None"
| "amalloc sz ((n, used) # bs) =
     (if \<not> used \<and> sz \<le> n then Some ((sz - 2, True) # (n - (sz - 2), False) # bs, 0)
      else map_option (\<lambda>(bs', off). ((n, used) # bs', n + off)) (amalloc sz bs))"

text \<open>Release of a block: merge with a free successor, then with a free predecessor.\<close>

fun free_head :: "blocks \<Rightarrow> blocks" where
  "free_head ((n, used) # (m, False) # bs) = (n + m, False) # bs"
| "free_head ((n, used) # bs) = (n, False) # bs"
| "free_head [] = []"

fun merge_prev :: "blocks \<Rightarrow> blocks" where
  "merge_prev ((n, False) # (m, used) # bs) = (n + m, False) # bs"
| "merge_prev bs = bs"

fun afree :: "nat \<Rightarrow> blocks \<Rightarrow> blocks" where
  "afree off [] = []"
| "afree off ((n, used) # bs) =
     (if off = 0 then free_head ((n, used) # bs)
      else if off = n then merge_prev ((n, used) # free_head bs)
      else (n, used) # afree (off - n) bs)"

fun free_total :: "blocks \<Rightarrow> nat" where
  "free_total [] = 0"
| "free_total ((n, used) # bs) = (if used then 0 else n) + free_total bs"

fun coalesced :: "blocks \<Rightarrow> bool" where
  "coalesced ((n, False) # (m, False) # bs) = False"
| "coalesced (b # bs) = coalesced bs"
| "coalesced [] = True"

fun block_starts :: "nat \<Rightarrow> blocks \<Rightarrow> nat list" where
  "block_starts p [] = []"
| "block_starts p ((n, used) # bs) = p # block_starts (p + n) bs"


section \<open>Segments of the heap\<close>

fun bsize :: "blocks \<Rightarrow> nat" where
  "bsize [] = 0"
| "bsize ((n, used) # bs) = n + bsize bs"

fun seg :: "mem \<Rightarrow> nat \<Rightarrow> blocks \<Rightarrow> bool" where
  "seg h p [] \<longleftrightarrow> True"
| "seg h p ((n, used) # bs) \<longleftrightarrow>
     2 \<le> n \<and> even n \<and> p + n \<le> length h \<and>
     le16 (h ! p) (h ! (p + 1)) = block_word n used \<and> seg h (p + n) bs"

lemma total_append [simp]: "bsize (xs @ ys) = bsize xs + bsize ys"
  by (induction xs rule: bsize.induct) auto

lemma seg_append [simp]: "seg h p (xs @ ys) \<longleftrightarrow> seg h p xs \<and> seg h (p + bsize xs) ys"
  by (induction xs arbitrary: p rule: bsize.induct) (auto simp: add.assoc)

lemma seg_bsize_le: "seg h p bs \<Longrightarrow> p \<le> length h \<Longrightarrow> p + bsize bs \<le> length h"
  by (induction bs arbitrary: p rule: bsize.induct) (fastforce simp: add.assoc)+

lemma blocks_at_seg:
  "length h = IP_MALLOC_HEAP_SIZE \<Longrightarrow>
   blocks_at h p bs \<longleftrightarrow> seg h p bs \<and> p + bsize bs = IP_MALLOC_HEAP_SIZE"
proof (induction bs arbitrary: p rule: bsize.induct)
  case (2 n used bs)
  show ?case
    using 2(1) [OF 2(2), of "p + n"] 2(2) by (auto simp: add.assoc)
qed auto

lemma heap_abs_seg:
  "heap_abs h bs \<longleftrightarrow> length h = IP_MALLOC_HEAP_SIZE \<and> seg h 0 bs \<and> bsize bs = IP_MALLOC_HEAP_SIZE"
  by (auto simp: heap_abs_def blocks_at_seg)

lemma seg_cong:
  "length h = length h' \<Longrightarrow> (\<And>i. p \<le> i \<Longrightarrow> i < p + bsize bs \<Longrightarrow> h ! i = h' ! i) \<Longrightarrow>
   seg h p bs \<longleftrightarrow> seg h' p bs"
proof (induction bs arbitrary: p rule: bsize.induct)
  case (2 n used bs)
  have "2 \<le> n \<Longrightarrow> h ! p = h' ! p \<and> h ! (p + 1) = h' ! (p + 1)"
    using 2(3) [of p] 2(3) [of "p + 1"] by simp
  moreover have "seg h (p + n) bs = seg h' (p + n) bs"
    using 2(2) by (intro 2(1)) (auto intro!: 2(3))
  ultimately show ?case using 2(2) by auto
qed simp

text \<open>A header store changes no segment before or behind it.\<close>

lemma seg_header_outside:
  assumes "q + 2 \<le> p \<or> p + bsize bs \<le> q"
  shows "seg (h[q := a, Suc q := b]) p bs \<longleftrightarrow> seg h p bs"
  using assms by (intro seg_cong) (auto simp: nth_list_update)

named_theorems malloc_simps

lemma HEAP_SIZE [malloc_simps]: "IP_MALLOC_HEAP_SIZE = 1500"
  by (simp add: IP_MALLOC_HEAP_SIZE_def)

lemma mask12_of_nat:
  assumes "n < 4096"
  shows "(of_nat n :: u16) AND 0xfff = of_nat n"
proof -
  have "(of_nat n :: u16) AND mask 12 = of_nat n"
    using assms by (simp flip: take_bit_eq_mask add: take_bit_of_nat take_bit_nat_eq_self)
  then show ?thesis by (simp add: mask_eq_exp_minus_1)
qed

lemma block_word_len [simp]: "n \<le> 1500 \<Longrightarrow> block_word n used AND IP_MALLOC_LEN = of_nat n"
  by (auto simp: block_word_def IP_MALLOC_LEN_def IP_MALLOC_INUSE_def mask12_of_nat bit.conj_disj_distrib2)

lemma of_nat_inuse:
  assumes "n \<le> 1500"
  shows "(of_nat n :: u16) AND IP_MALLOC_INUSE = 0"
proof -
  have "(of_nat n :: u16) = of_nat n AND 0xfff" using mask12_of_nat [of n] assms by simp
  then have "(of_nat n :: u16) AND IP_MALLOC_INUSE = (of_nat n AND 0xfff) AND IP_MALLOC_INUSE" by simp
  also have "\<dots> = 0" by (simp add: and.assoc IP_MALLOC_INUSE_def)
  finally show ?thesis .
qed

lemma block_word_inuse [simp]: "n \<le> 1500 \<Longrightarrow> block_word n used AND IP_MALLOC_INUSE = 0 \<longleftrightarrow> \<not> used"
  by (auto simp: block_word_def of_nat_inuse bit.conj_disj_distrib2) (simp add: IP_MALLOC_INUSE_def)

lemma block_word_unused [simp]: "n \<le> 1500 \<Longrightarrow> block_word n used AND NOT IP_MALLOC_INUSE = of_nat n"
proof -
  assume n: "n \<le> 1500"
  have "(of_nat n :: u16) AND NOT IP_MALLOC_INUSE = (of_nat n AND NOT IP_MALLOC_INUSE) OR (of_nat n AND IP_MALLOC_INUSE)"
    by (simp add: of_nat_inuse [OF n])
  also have "\<dots> = of_nat n"
    by (simp flip: bit.conj_disj_distrib)
  finally show ?thesis by (simp add: block_word_def bit.conj_disj_distrib2)
qed

lemma unat_of_nat_heap [simp]: "n \<le> 1500 \<Longrightarrow> unat (of_nat n :: u16) = n"
  by (simp add: unsigned_of_nat take_bit_nat_eq_self)

lemma of_nat_word_used: "n \<le> 1500 \<Longrightarrow> (of_nat n AND IP_MALLOC_LEN) OR IP_MALLOC_INUSE = block_word n True"
  by (simp add: block_word_def IP_MALLOC_LEN_def mask12_of_nat)

lemma of_nat_word_free: "of_nat n = block_word n False"
  by (simp add: block_word_def)

lemma of_nat_add_free: "of_nat m + of_nat n = block_word (m + n) False"
  by (simp add: block_word_def)

lemma hd16_seg:
  "seg h p ((n, used) # bs) \<Longrightarrow> hd16 junk h p = Some (block_word n used)"
  by (auto simp: hd16_def)


text \<open>A heap determines its blocks.\<close>

lemma block_word_inject:
  assumes "m \<le> 1500" "n \<le> 1500" "block_word m u = block_word n v"
  shows "m = n \<and> u = v"
proof -
  have "m = unat (block_word m u AND IP_MALLOC_LEN)"
    by (simp only: block_word_len [OF assms(1)] unat_of_nat_heap [OF assms(1)])
  also have "\<dots> = n" unfolding assms(3) by (simp only: block_word_len [OF assms(2)] unat_of_nat_heap [OF assms(2)])
  finally have "m = n" .
  moreover have "u = v"
    using block_word_inuse [OF assms(1), of u] block_word_inuse [OF assms(2), of v] assms(3) by simp
  ultimately show ?thesis by simp
qed

lemma seg_unique:
  "length h = 1500 \<Longrightarrow> seg h p bs \<Longrightarrow> seg h p bs' \<Longrightarrow> p + bsize bs = 1500 \<Longrightarrow> p + bsize bs' = 1500 \<Longrightarrow> bs = bs'"
proof (induction bs arbitrary: p bs' rule: bsize.induct)
  case 1
  then show ?case by (cases bs') auto
next
  case (2 n u bs)
  then obtain m v cs where bs': "bs' = (m, v) # cs" by (cases bs') auto
  have h: "p + n \<le> 1500" "p + m \<le> 1500" "block_word m v = block_word n u" "seg h (p + n) bs" "seg h (p + m) cs"
    using 2(2-4) unfolding bs' seg.simps by simp_all
  have "m \<le> 1500" "n \<le> 1500" using h(1,2) by simp_all
  from block_word_inject [OF this h(3)] have eq: "m = n" "v = u" by simp_all
  have "bs = cs"
    by (rule 2(1) [OF 2(2) h(4)]) (use h(5) 2(5,6) in \<open>simp_all add: bs' eq add.assoc\<close>)
  then show ?case by (simp add: bs' eq)
qed

lemma heap_abs_unique: "heap_abs h bs \<Longrightarrow> heap_abs h bs' \<Longrightarrow> bs = bs'"
  using seg_unique [of h 0 bs bs'] by (simp add: heap_abs_seg HEAP_SIZE)

section \<open>Allocation is first fit with a split\<close>

definition fits :: "nat \<Rightarrow> nat \<times> bool \<Rightarrow> bool" where
  "fits sz b \<longleftrightarrow> \<not> snd b \<and> sz \<le> fst b"

lemma amalloc_None: "amalloc sz bs = None \<longleftrightarrow> (\<forall>b\<in>set bs. \<not> fits sz b)"
  by (induction sz bs rule: amalloc.induct) (auto simp: fits_def)

lemma amalloc_Some:
  "amalloc sz bs = Some (bs', off) \<Longrightarrow>
   \<exists>xs n ys. bs = xs @ (n, False) # ys \<and> bs' = xs @ (sz - 2, True) # (n - (sz - 2), False) # ys \<and>
     off = bsize xs \<and> sz \<le> n \<and> (\<forall>b\<in>set xs. \<not> fits sz b)"
proof (induction sz bs arbitrary: bs' off rule: amalloc.induct)
  case (2 sz n used bs)
  show ?case
  proof (cases "\<not> used \<and> sz \<le> n")
    case True
    then show ?thesis using 2(2) by (intro exI [of _ "[]"]) auto
  next
    case False
    with 2(2) obtain bs1 off1 where r: "amalloc sz bs = Some (bs1, off1)"
      "bs' = (n, used) # bs1" "off = n + off1" by auto
    from 2(1) [OF False r(1)] obtain xs m ys where
      "bs = xs @ (m, False) # ys" "bs1 = xs @ (sz - 2, True) # (m - (sz - 2), False) # ys"
      "off1 = bsize xs" "sz \<le> m" "\<forall>b\<in>set xs. \<not> fits sz b" by blast
    then show ?thesis using r False
      by (intro exI [of _ "(n, used) # xs"] exI [of _ m] exI [of _ ys]) (auto simp: fits_def)
  qed
qed simp

lemma malloc_find_skip:
  assumes "length h = 1500"
  shows "seg h p xs \<Longrightarrow> p \<le> 1500 \<Longrightarrow> \<forall>b\<in>set xs. \<not> fits (unat sz) b \<Longrightarrow>
    malloc_find junk h sz p = malloc_find junk h sz (p + bsize xs)"
proof (induction xs arbitrary: p rule: bsize.induct)
  case (2 n used xs)
  have n: "2 \<le> n" "p + n \<le> 1500" and r: "seg h (p + n) xs" using 2(2) assms by auto
  have "malloc_find junk h sz p = malloc_find junk h sz (p + n)"
    using 2(4) n unfolding malloc_find.simps [of _ _ _ p] hd16_seg [OF 2(2)]
    by (auto simp: fits_def word_less_nat_alt HEAP_SIZE not_le)
  with 2(1) [OF r] n 2(4) show ?case by (simp add: add.assoc)
qed simp

text \<open>A search that fails ends with the load behind the array.\<close>

lemma malloc_find_None:
  assumes "heap_abs h bs" "amalloc (unat sz) bs = None"
  shows "malloc_find junk h sz 0 = (if junk 1500 = None \<or> junk 1501 = None then None else Some 1500)"
proof -
  have "length h = 1500" using assms(1) by (simp add: heap_abs_seg HEAP_SIZE)
  then have "malloc_find junk h sz 1500 = (if junk 1500 = None \<or> junk 1501 = None then None else Some 1500)"
    by (subst malloc_find.simps) (auto simp: hd16_def HEAP_SIZE)
  then show ?thesis
    using malloc_find_skip [of h 0 bs sz junk] assms by (simp add: heap_abs_seg amalloc_None malloc_simps)
qed

lemma malloc_find_Some:
  assumes "length h = 1500" "seg h 0 (xs @ (n, False) # ys)"
    and "unat sz \<le> n" "\<forall>b\<in>set xs. \<not> fits (unat sz) b"
  shows "malloc_find junk h sz 0 = Some (bsize xs)"
proof -
  from assms have n: "seg h (bsize xs) ((n, False) # ys)" by auto
  then have "n \<le> 1500" using assms(1) by auto
  then have "malloc_find junk h sz (bsize xs) = Some (bsize xs)"
    using assms(3) unfolding malloc_find.simps [of _ _ _ "bsize xs"] hd16_seg [OF n]
    by (auto simp: word_less_nat_alt HEAP_SIZE)
  with malloc_find_skip [of h 0 xs sz junk] assms show ?thesis by simp
qed

text \<open>The request is rounded up to an even size with two headers; it does not wrap below 65531.\<close>

definition block_need :: "nat \<Rightarrow> nat" where
  "block_need n = n + 4 + n mod 2"

lemma unat_malloc_size:
  assumes "unat req < 65531"
  shows "unat (malloc_size req) = block_need (unat req)"
proof -
  have a: "unat (req + 4) = unat req + 4"
    using assms by (simp add: unat_word_ariths)
  have b: "unat ((req + 4) mod 2) = unat req mod 2"
    by (simp add: unat_mod_distrib a) presburger
  show ?thesis
    using assms by (simp add: malloc_size_def Let_def IP_MALLOC_ALIGN_def unat_word_ariths(1) [of "req + 4"] a b block_need_def)
qed

lemma malloc_size_wraps: "malloc_size 65532 = 0" "malloc_size 65533 = 2" "malloc_size 65534 = 2"
  "malloc_size 65535 = 4" "malloc_size 65531 = 0"
  by (simp_all add: malloc_size_def IP_MALLOC_ALIGN_def)

lemma block_need_even [simp]: "even (block_need n)"
  by (auto simp: block_need_def)

lemma block_need_ge [simp]: "4 \<le> block_need n" "n + 4 \<le> block_need n"
  by (auto simp: block_need_def)

text \<open>The two header stores of an allocation, and what they leave alone.\<close>

definition set_header :: "mem \<Rightarrow> nat \<Rightarrow> nat \<Rightarrow> bool \<Rightarrow> mem" where
  "set_header h p n used = h[p := lo8 (block_word n used), Suc p := hi8 (block_word n used)]"

lemma length_set_header [simp]: "length (set_header h p n used) = length h"
  by (simp add: set_header_def)

lemma set_header_nth: "i \<noteq> p \<Longrightarrow> i \<noteq> Suc p \<Longrightarrow> set_header h p n used ! i = h ! i"
  by (simp add: set_header_def)

lemma wr16_header: "p + 1 < length h \<Longrightarrow> wr16 h p (block_word n used) = Some (set_header h p n used)"
  by (simp add: set_header_def wr16_Some)

lemma seg_set_header_outside [simp]:
  "q + 2 \<le> p \<or> p + bsize bs \<le> q \<Longrightarrow> seg (set_header h q n used) p bs \<longleftrightarrow> seg h p bs"
  by (simp add: set_header_def seg_header_outside)

lemma set_header_word [simp]:
  "p + 1 < length h \<Longrightarrow>
   le16 (set_header h p n used ! p) (set_header h p n used ! Suc p) = block_word n used"
  by (simp add: set_header_def)

lemma hd16_set_header [simp]:
  "p + 1 < length h \<Longrightarrow> hd16 junk (set_header h p n used) p = Some (block_word n used)"
  by (simp add: hd16_def)

lemma hd16_set_header_other:
  "p \<noteq> q \<Longrightarrow> p \<noteq> Suc q \<Longrightarrow> q \<noteq> Suc p \<Longrightarrow>
   hd16 junk (set_header h q n used) p = hd16 junk h p"
  by (auto simp: hd16_def set_header_nth)

lemma seg_set_header_Cons:
  "seg (set_header h p m v) p ((n, used) # bs) \<longleftrightarrow>
   2 \<le> n \<and> even n \<and> p + n \<le> length h \<and> block_word m v = block_word n used \<and> seg h (p + n) bs"
proof -
  have "2 \<le> n \<Longrightarrow> seg (set_header h p m v) (p + n) bs = seg h (p + n) bs" by simp
  then show ?thesis by auto
qed

lemma of_nat_diff_mask:
  "k \<le> n \<Longrightarrow> n \<le> 1500 \<Longrightarrow> (of_nat n - of_nat k :: u16) AND IP_MALLOC_LEN = block_word (n - k) False"
  by (simp flip: of_nat_diff of_nat_word_free add: mask12_of_nat IP_MALLOC_LEN_def)


lemma ip_malloc_full:
  assumes "heap_abs h bs" "unat req < 65531" "amalloc (block_need (unat req)) bs = None"
  shows "ip_malloc junk h req = (if junk 1500 = None \<or> junk 1501 = None then None else Some (h, None))"
  using malloc_find_None [OF assms(1), of "malloc_size req" junk] assms(2,3)
  by (simp add: ip_malloc_def unat_malloc_size malloc_simps)

lemma ip_malloc_behind:
  assumes "heap_abs h bs" "unat req < 65531" "amalloc (block_need (unat req)) bs = None"
  shows "ip_malloc (behind w) h req = Some (h, None)"
  using ip_malloc_full [OF assms, of "behind w"] by (simp add: behind_def HEAP_SIZE)

lemma ip_malloc_split:
  assumes h: "heap_abs h (xs @ (n, False) # ys)" and req: "unat req < 65531"
    and sz: "sz = block_need (unat req)" "sz \<le> n" and skip: "\<forall>b\<in>set xs. \<not> fits sz b"
  defines "p \<equiv> bsize xs"
  shows "ip_malloc junk h req =
      Some (set_header (set_header h p (sz - 2) True) (p + (sz - 2)) (n - (sz - 2)) False, Some (p + 2))"
    "heap_abs (set_header (set_header h p (sz - 2) True) (p + (sz - 2)) (n - (sz - 2)) False)
      (xs @ (sz - 2, True) # (n - (sz - 2), False) # ys)"
proof -
  have len: "length h = 1500" and s: "seg h 0 (xs @ (n, False) # ys)" and tot: "bsize (xs @ (n, False) # ys) = 1500"
    using h by (auto simp: heap_abs_seg malloc_simps)
  have u: "unat (malloc_size req) = sz" using req sz(1) by (simp add: unat_malloc_size)
  have f: "malloc_find junk h (malloc_size req) 0 = Some p"
    unfolding p_def using malloc_find_Some [OF len s] u sz(2) skip by simp
  have n: "seg h p ((n, False) # ys)" using s by (simp add: p_def)
  then have pn: "p + n \<le> 1500" "even n" using len by auto
  have sz4: "4 \<le> sz" "even sz" using sz(1) by auto
  have w: "malloc_size req - 2 = of_nat (sz - 2)"
    using sz4 by (simp flip: u add: of_nat_diff)
  have d: "(of_nat n - of_nat (sz - 2) :: u16) AND IP_MALLOC_LEN = block_word (n - (sz - 2)) False"
    using sz(2) pn by (intro of_nat_diff_mask) auto
  have hdw: "hd16 junk h p = Some (block_word n False)" "block_word n False AND IP_MALLOC_LEN = of_nat n"
    using hd16_seg [OF n, of junk] pn by simp_all
  have w1: "wr16 h p ((of_nat (sz - 2) AND IP_MALLOC_LEN) OR IP_MALLOC_INUSE) =
      Some (set_header h p (sz - 2) True)"
    using sz(2) sz4 pn len by (subst of_nat_word_used) (auto simp: wr16_header)
  have w2: "wr16 (set_header h p (sz - 2) True) (p + (sz - 2)) (block_word (n - (sz - 2)) False) =
      Some (set_header (set_header h p (sz - 2) True) (p + (sz - 2)) (n - (sz - 2)) False)"
    using sz(2) sz4 pn len by (intro wr16_header) auto
  have u2: "unat (of_nat (sz - 2) :: u16) = sz - 2" using sz(2) pn by simp
  show "ip_malloc junk h req =
      Some (set_header (set_header h p (sz - 2) True) (p + (sz - 2)) (n - (sz - 2)) False, Some (p + 2))"
    using pn sz(2) sz4 by (simp only: ip_malloc_def Let_def f hdw bind.bind_lunit w w1 d u2 w2) (simp add: HEAP_SIZE)
  define k m where "k = sz - 2" and "m = n - (sz - 2)"
  have km: "n = k + m" "2 \<le> k" "2 \<le> m" "even k" "even m" using sz(2) sz4 pn by (auto simp: k_def m_def)
  have "seg h (p + (k + m)) ys" using n by (simp add: km(1))
  with s n km pn show "heap_abs (set_header (set_header h p (sz - 2) True) (p + (sz - 2)) (n - (sz - 2)) False)
      (xs @ (sz - 2, True) # (n - (sz - 2), False) # ys)"
    using len tot unfolding k_def [symmetric] m_def [symmetric]
    by (simp add: heap_abs_seg malloc_simps p_def [symmetric] set_header_nth add.assoc)
qed


section \<open>Release merges with both neighbours\<close>

lemma free_find_skip:
  assumes "length h = 1500"
  shows "seg h p (xs @ [(m, v)]) \<Longrightarrow> p + bsize xs + m + 2 \<le> ptr \<Longrightarrow>
    free_find junk h ptr prev p = free_find junk h ptr (Some (p + bsize xs)) (p + bsize xs + m)"
proof (induction xs arbitrary: p prev rule: bsize.induct)
  case 1
  then have s: "seg h p [(m, v)]" and m: "2 \<le> m" "p + m \<le> 1500" using assms by auto
  show ?case
    using 1 m unfolding free_find.simps [of _ _ _ prev p] hd16_seg [OF s]
    by (auto simp: HEAP_SIZE)
next
  case (2 n used xs)
  then have s: "seg h p ((n, used) # xs @ [(m, v)])" and n: "2 \<le> n" "p + n \<le> 1500" using assms by auto
  have "free_find junk h ptr prev p = free_find junk h ptr (Some p) (p + n)"
    using 2(3) n unfolding free_find.simps [of _ _ _ prev p] hd16_seg [OF s]
    by (auto simp: HEAP_SIZE)
  with 2(1) [of "p + n" "Some p"] s 2(3) show ?case by (simp add: add.assoc)
qed

lemma free_find_here: "free_find junk h (p + 2) prev p = Some (prev, p)"
  by (simp add: free_find.simps)

lemma free_next_ok:
  assumes len: "length h = 1500" and s: "seg h p ((n, used) # ys)" and tot: "p + n + bsize ys = 1500"
  shows "\<exists>h'. (\<forall>junk. free_next junk h p = Some h') \<and> length h' = length h \<and>
    seg h' p (free_head ((n, used) # ys)) \<and> (\<forall>i. i \<noteq> p \<and> i \<noteq> Suc p \<longrightarrow> h' ! i = h ! i)"
proof -
  have n: "2 \<le> n" "even n" "p + n \<le> 1500" "seg h (p + n) ys" using s len by auto
  let ?h1 = "set_header h p n False"
  have w1: "wr16 h p (of_nat n) = Some ?h1"
    using n len by (simp add: of_nat_word_free wr16_header)
  have s1: "seg ?h1 (p + n) ys" using n by simp
  have hd1: "hd16 junk ?h1 p = Some (block_word n False)" for junk using n len by simp
  have base: "free_next junk h p =
    (if p + n < 1500 then do {
       v \<leftarrow> hd16 junk ?h1 (p + n);
       (if v AND IP_MALLOC_INUSE = 0 then wr16 ?h1 p (of_nat n + (v AND IP_MALLOC_LEN)) else Some ?h1) }
     else Some ?h1)" for junk
    using n by (simp add: free_next_def Let_def hd16_seg [OF s] w1 hd1 HEAP_SIZE add.commute [of n] cong: if_cong split del: if_split)
  show ?thesis
  proof (cases ys)
    case Nil
    then show ?thesis using base tot n len
      by (auto simp: set_header_nth)
  next
    case (Cons b zs)
    obtain k w where b: "b = (k, w)" by (cases b)
    have k: "seg ?h1 (p + n) ((k, w) # zs)" using s1 Cons b by simp
    have k': "2 \<le> k" "even k" "p + n + k \<le> 1500" using k len by auto
    have hd2: "hd16 junk ?h1 (p + n) = Some (block_word k w)" for junk by (rule hd16_seg [OF k])
    show ?thesis
    proof (cases w)
      case True
      then show ?thesis using base hd2 k k' n len Cons b s1
        by (auto simp: set_header_nth)
    next
      case False
      let ?h2 = "set_header ?h1 p (n + k) False"
      have "wr16 ?h1 p (of_nat n + of_nat k) = Some ?h2"
        using n len by (simp add: of_nat_add_free wr16_header)
      moreover have "seg ?h2 (p + (n + k)) zs"
        using k n by (simp add: add.assoc)
      ultimately show ?thesis using base hd2 k' n len Cons b False
        by (auto simp: set_header_nth)
    qed
  qed
qed

lemma free_head_Cons: "\<exists>n' ys'. free_head ((n, used) # ys) = (n', False) # ys' \<and> n \<le> n' \<and> n' + bsize ys' = n + bsize ys"
  by (cases "(n, used) # ys" rule: free_head.cases) auto


lemma free_prev_ok:
  assumes len: "length h = 1500" and s: "seg h q ((m, v) # (n, False) # ys)"
    and tot: "q + m + n + bsize ys = 1500"
  shows "\<exists>h'. (\<forall>junk. free_prev junk h (Some q) (q + m) = Some h') \<and> length h' = length h \<and>
    seg h' q (merge_prev ((m, v) # (n, False) # ys)) \<and> (\<forall>i. i \<noteq> q \<and> i \<noteq> Suc q \<longrightarrow> h' ! i = h ! i)"
proof -
  have m: "2 \<le> m" "even m" "q + m \<le> 1500" and r: "seg h (q + m) ((n, False) # ys)" using s len by auto
  then have n: "2 \<le> n" "even n" "q + m + n \<le> 1500" using len by auto
  note hds = hd16_seg [OF s] hd16_seg [OF r]
  show ?thesis
  proof (cases v)
    case True
    then show ?thesis using s m by (auto simp: free_prev_def hds)
  next
    case False
    let ?h = "set_header h q (m + n) False"
    have "wr16 h q (of_nat m + of_nat n) = Some ?h"
      using m n len by (simp add: of_nat_add_free wr16_header)
    moreover have "seg ?h (q + (m + n)) ys" using r m by (simp add: add.assoc)
    ultimately show ?thesis using m n len False
      by (auto simp: free_prev_def hds set_header_nth)
  qed
qed

lemma merge_prev_bsize: "bsize (merge_prev bs) = bsize bs"
  by (cases bs rule: merge_prev.cases) auto

lemma seg_pos: "seg h p xs \<Longrightarrow> \<forall>b\<in>set xs. 0 < fst b"
  by (induction xs arbitrary: p rule: bsize.induct) auto

lemma afree_append:
  assumes "\<forall>b\<in>set xs. 0 < fst b" "0 < m"
  shows "afree (bsize xs + m) (xs @ (m, v) # rest) = xs @ merge_prev ((m, v) # free_head rest)"
  using assms
proof (induction xs rule: bsize.induct)
  case (2 n used xs)
  have "bsize xs + m \<noteq> 0" using 2(3) by simp
  with 2 show ?case by (auto simp: add.assoc)
qed simp

lemma block_starts_ge: "x \<in> set (block_starts p bs) \<Longrightarrow> p \<le> x"
  by (induction p bs rule: block_starts.induct) auto

lemma block_starts_split:
  "off + p \<in> set (block_starts p bs) \<longleftrightarrow> (\<exists>xs n u ys. bs = xs @ (n, u) # ys \<and> off = bsize xs)"
proof (induction bs arbitrary: p off rule: bsize.induct)
  case (2 n used bs)
  note IH = 2
  show ?case
  proof
    assume "off + p \<in> set (block_starts p ((n, used) # bs))"
    then consider "off = 0" | "off + p \<in> set (block_starts (p + n) bs)" by auto
    then show "\<exists>xs n' u ys. (n, used) # bs = xs @ (n', u) # ys \<and> off = bsize xs"
    proof cases
      case 1
      then show ?thesis by (intro exI [of _ "[]"]) auto
    next
      case 2
      with block_starts_ge [OF this] have "(off - n) + (p + n) \<in> set (block_starts (p + n) bs)" "n \<le> off"
        by auto
      with IH [of "off - n" "p + n"]
      obtain xs m u ys where "bs = xs @ (m, u) # ys" "off - n = bsize xs" by blast
      with \<open>n \<le> off\<close> show ?thesis by (intro exI [of _ "(n, used) # xs"]) auto
    qed
  next
    assume "\<exists>xs n' u ys. (n, used) # bs = xs @ (n', u) # ys \<and> off = bsize xs"
    then obtain xs m u ys where x: "(n, used) # bs = xs @ (m, u) # ys" "off = bsize xs" by blast
    show "off + p \<in> set (block_starts p ((n, used) # bs))"
    proof (cases xs)
      case Nil
      then show ?thesis using x by simp
    next
      case (Cons a zs)
      then have "bs = zs @ (m, u) # ys" "off = n + bsize zs" using x by auto
      then have "bsize zs + (p + n) \<in> set (block_starts (p + n) bs)"
        using IH [of "bsize zs" "p + n"] by blast
      then show ?thesis using \<open>off = n + bsize zs\<close> by (simp add: ac_simps)
    qed
  qed
qed simp


text \<open>Release of the block at offset \<open>off\<close>: the heap becomes that of \<^const>\<open>afree\<close>, and
  only header bytes of the block or its predecessor change.\<close>

lemma ip_free_ok:
  assumes h: "heap_abs h bs" and off: "off \<in> set (block_starts 0 bs)"
  shows "\<exists>h'. (\<forall>junk. ip_free junk h (off + 2) = Some h') \<and> heap_abs h' (afree off bs) \<and>
    (\<forall>i. i \<noteq> off \<and> i \<noteq> Suc off \<and> (\<forall>s\<in>set (block_starts 0 bs). i \<noteq> s \<and> i \<noteq> Suc s) \<longrightarrow> h' ! i = h ! i)"
proof -
  obtain xs n u ys where bs: "bs = xs @ (n, u) # ys" and o: "off = bsize xs"
    using off block_starts_split [of off 0 bs] by auto
  have len: "length h = 1500" and s: "seg h 0 (xs @ (n, u) # ys)" and tot: "bsize xs + n + bsize ys = 1500"
    using h by (auto simp: bs heap_abs_seg malloc_simps)
  obtain h1 where h1: "\<And>junk. free_next junk h off = Some h1" "length h1 = 1500" "seg h1 off (free_head ((n, u) # ys))"
    "\<forall>i. i \<noteq> off \<and> i \<noteq> Suc off \<longrightarrow> h1 ! i = h ! i"
    using free_next_ok [OF len, of off n u ys] s tot len by (auto simp: o)
  obtain n' ys' where hd: "free_head ((n, u) # ys) = (n', False) # ys'" "n' + bsize ys' = n + bsize ys"
    using free_head_Cons [of n u ys] by blast
  have keep: "seg h1 0 xs"
    using s h1 len o by (subst seg_cong [of h1 h]) auto
  show ?thesis
  proof (cases xs rule: rev_cases)
    case Nil
    then have f: "ip_free junk h (off + 2) = Some h1" for junk
      using h1(1) by (simp add: ip_free_def o free_find_here [of junk h 0, simplified] free_prev_def)
    have "afree off bs = free_head ((n, u) # ys)" using Nil by (simp add: bs o)
    then show ?thesis using f h1 hd tot Nil by (auto simp: heap_abs_seg HEAP_SIZE o)
  next
    case (snoc zs b)
    obtain m v where b: "b = (m, v)" by (cases b)
    have offm: "off = bsize zs + m" using snoc b by (simp add: o)
    have find: "free_find junk h (off + 2) None 0 = Some (Some (bsize zs), off)" for junk
      using free_find_skip [OF len, of 0 zs m v "off + 2" junk None] s
      by (simp add: snoc b offm free_find_here [simplified])
    have s1: "seg h1 (bsize zs) ((m, v) # (n', False) # ys')" "seg h1 0 zs"
      using keep h1(3) hd by (auto simp: snoc b offm)
    have tot': "bsize zs + m + n' + bsize ys' = 1500" using tot hd by (simp add: snoc b)
    obtain h2 where h2: "\<And>junk. free_prev junk h1 (Some (bsize zs)) off = Some h2" "length h2 = 1500"
      "seg h2 (bsize zs) (merge_prev ((m, v) # (n', False) # ys'))"
      "\<forall>i. i \<noteq> bsize zs \<and> i \<noteq> Suc (bsize zs) \<longrightarrow> h2 ! i = h1 ! i"
      using free_prev_ok [OF h1(2) s1(1) tot'] h1(2) by (auto simp: offm)
    have f: "ip_free junk h (off + 2) = Some h2" for junk
      using h1(1) h2(1) by (simp add: ip_free_def find [simplified])
    have pos: "\<forall>b\<in>set zs. 0 < fst b" "0 < m"
      using s seg_pos [of h 0 xs] by (auto simp: snoc b)
    have "afree off bs = zs @ merge_prev ((m, v) # (n', False) # ys')"
      using afree_append [OF pos, of v "(n, u) # ys"] hd by (simp add: bs snoc b offm)
    moreover have "seg h2 0 zs"
      using s1(2) h2 h1(2) by (subst seg_cong [of h2 h1]) auto
    ultimately have "heap_abs h2 (afree off bs)"
      using h2 tot' by (simp add: heap_abs_seg HEAP_SIZE merge_prev_bsize)
    moreover have "bsize zs \<in> set (block_starts 0 bs)"
      using block_starts_split [of "bsize zs" 0 bs] by (auto simp: bs snoc b)
    ultimately show ?thesis using h1(4) h2(4) by (intro exI [of _ h2] conjI allI f) simp_all
  qed
qed


section \<open>Free space\<close>

lemma freespace_from_ok:
  assumes len: "length h = 1500"
  shows "seg h p bs \<Longrightarrow> p + bsize bs = 1500 \<Longrightarrow> unat acc + bsize bs \<le> 1500 \<Longrightarrow>
    freespace_from junk h p acc = Some (acc + of_nat (free_total bs))"
proof (induction bs arbitrary: p acc rule: bsize.induct)
  case 1
  then show ?case by (simp add: freespace_from.simps HEAP_SIZE)
next
  case (2 n used bs)
  have n: "2 \<le> n" "p + n \<le> 1500" and r: "seg h (p + n) bs" using 2(2) len by auto
  let ?acc = "if used then acc else acc + of_nat n"
  have "freespace_from junk h p acc = freespace_from junk h (p + n) ?acc"
    using n by (simp add: freespace_from.simps [of _ _ p] hd16_seg [OF 2(2)] HEAP_SIZE)
  moreover have "unat ?acc + bsize bs \<le> 1500"
    using 2(4) n by (auto simp: unat_word_ariths)
  ultimately show ?case
    using 2(1) [OF r, of ?acc] 2(3) by (simp add: add.assoc)
qed

lemma ip_malloc_freespace_ok:
  "heap_abs h bs \<Longrightarrow> ip_malloc_freespace junk h = Some (of_nat (free_total bs))"
  using freespace_from_ok [of h 0 bs 0 junk]
  by (simp add: ip_malloc_freespace_def heap_abs_seg HEAP_SIZE)

lemma free_total_le: "free_total bs \<le> bsize bs"
  by (induction bs rule: bsize.induct) auto

section \<open>The allocator as its clients see it\<close>

text \<open>The live payloads: start of the user bytes and their number.\<close>

fun live_from :: "nat \<Rightarrow> blocks \<Rightarrow> (nat \<times> nat) set" where
  "live_from p [] = {}"
| "live_from p ((n, used) # bs) = (if used then {(p + 2, n - 2)} else {}) \<union> live_from (p + n) bs"

definition live :: "blocks \<Rightarrow> (nat \<times> nat) set" where
  "live bs = live_from 0 bs"

lemma live_from_append [simp]: "live_from p (xs @ ys) = live_from p xs \<union> live_from (p + bsize xs) ys"
  by (induction xs arbitrary: p rule: bsize.induct) (auto simp: add.assoc)

lemma live_from_start: "(q, k) \<in> live_from p bs \<Longrightarrow> q - 2 \<in> set (block_starts p bs) \<and> p + 2 \<le> q"
  by (induction p bs rule: live_from.induct) (auto split: if_splits)

lemma live_from_range: "seg h p bs \<Longrightarrow> (q, k) \<in> live_from p bs \<Longrightarrow> p + 2 \<le> q \<and> q + k \<le> p + bsize bs"
  by (induction p bs rule: live_from.induct) (fastforce split: if_splits)+

lemma live_no_header:
  "seg h p bs \<Longrightarrow> (q, k) \<in> live_from p bs \<Longrightarrow> s \<in> set (block_starts p bs) \<Longrightarrow>
   s + 2 \<le> q \<or> q + k \<le> s"
proof (induction p bs rule: live_from.induct)
  case (2 p n used bs)
  have r: "seg h (p + n) bs" using 2(2) by simp
  consider "used" "q = p + 2" "k = n - 2" | "(q, k) \<in> live_from (p + n) bs"
    using 2(3) by (auto split: if_splits)
  then show ?case
  proof cases
    case 1
    then show ?thesis using 2(2,4) block_starts_ge [of s "p + n" bs] by auto
  next
    case 2
    then show ?thesis
      using \<open>seg h p ((n, used) # bs)\<close> \<open>s \<in> set (block_starts p ((n, used) # bs))\<close>
        "2.IH" [OF r 2] live_from_range [OF r 2] by auto
  qed
qed simp

lemma live_free_head: "live_from p (free_head ((n, u) # ys)) = live_from (p + n) ys"
  by (cases "(n, u) # ys" rule: free_head.cases) (auto simp: add.assoc)

lemma live_merge_prev:
  "live_from p (merge_prev ((m, v) # (n, False) # ys)) = live_from p ((m, v) # (n, False) # ys)"
  by (cases v) (auto simp: add.assoc)


text \<open>The interface: \<open>abs\<close> relates the concrete heap to the abstract one, \<open>lives\<close> names
  the live payloads.  A client is a sequence of requests and releases; it keeps the list of
  pointers it owns.\<close>

datatype heap_op = Get u16 | Drop nat

fun heap_step :: "('h \<Rightarrow> u16 \<Rightarrow> ('h \<times> nat option) option) \<Rightarrow> ('h \<Rightarrow> nat \<Rightarrow> 'h option) \<Rightarrow>
    heap_op \<Rightarrow> 'h \<times> nat list \<Rightarrow> ('h \<times> nat list) option" where
  "heap_step alloc release (Get n) (h, ps) =
     do { (h, r) \<leftarrow> alloc h n; Some (h, (case r of None \<Rightarrow> ps | Some p \<Rightarrow> p # ps)) }"
| "heap_step alloc release (Drop i) (h, ps) =
     (if i < length ps
      then do { h \<leftarrow> release h (ps ! i); Some (h, remove1 (ps ! i) ps) }
      else Some (h, ps))"

fun heap_run :: "('h \<Rightarrow> u16 \<Rightarrow> ('h \<times> nat option) option) \<Rightarrow> ('h \<Rightarrow> nat \<Rightarrow> 'h option) \<Rightarrow>
    heap_op list \<Rightarrow> 'h \<times> nat list \<Rightarrow> ('h \<times> nat list) option" where
  "heap_run alloc release [] s = Some s"
| "heap_run alloc release (c # cs) s = do { s \<leftarrow> heap_step alloc release c s; heap_run alloc release cs s }"

fun get_ok :: "(u16 \<Rightarrow> bool) \<Rightarrow> heap_op \<Rightarrow> bool" where
  "get_ok ok (Get n) = ok n"
| "get_ok ok (Drop i) = True"

locale packet_heap =
  fixes abs :: "'h \<Rightarrow> 'b \<Rightarrow> bool"
    and lives :: "'b \<Rightarrow> (nat \<times> nat) set"
    and byte :: "'h \<Rightarrow> nat \<Rightarrow> u8"
    and ok :: "u16 \<Rightarrow> bool"
    and alloc :: "'h \<Rightarrow> u16 \<Rightarrow> ('h \<times> nat option) option"
    and release :: "'h \<Rightarrow> nat \<Rightarrow> 'h option"
  assumes alloc_law: "abs h b \<Longrightarrow> ok n \<Longrightarrow>
      \<exists>h' b' r. alloc h n = Some (h', r) \<and> abs h' b' \<and>
        (case r of None \<Rightarrow> lives b' = lives b
         | Some p \<Rightarrow> p \<notin> fst ` lives b \<and> (\<exists>k. unat n \<le> k \<and> lives b' = insert (p, k) (lives b))) \<and>
        (\<forall>(q, k) \<in> lives b. \<forall>i < k. byte h' (q + i) = byte h (q + i))"
    and release_law: "abs h b \<Longrightarrow> (p, k) \<in> lives b \<Longrightarrow>
      \<exists>h' b'. release h p = Some h' \<and> abs h' b' \<and> lives b' = lives b - {(p, k)} \<and>
        (\<forall>(q, k) \<in> lives b'. \<forall>i < k. byte h' (q + i) = byte h (q + i))"
    and lives_fun: "abs h b \<Longrightarrow> (p, k) \<in> lives b \<Longrightarrow> (p, k') \<in> lives b \<Longrightarrow> k' = k"
    and lives_apart: "abs h b \<Longrightarrow> (p, k) \<in> lives b \<Longrightarrow> (q, j) \<in> lives b \<Longrightarrow> p \<noteq> q \<Longrightarrow>
      p + k \<le> q \<or> q + j \<le> p"
begin

definition owns :: "'h \<times> nat list \<Rightarrow> 'b \<Rightarrow> bool" where
  "owns s b \<longleftrightarrow> abs (fst s) b \<and> distinct (snd s) \<and> set (snd s) = fst ` lives b"

lemma step_safe:
  assumes "owns s b" "get_ok ok c"
  shows "\<exists>s' b'. heap_step alloc release c s = Some s' \<and> owns s' b' \<and>
    (\<forall>(q, k) \<in> lives b. q \<in> set (snd s') \<longrightarrow> (q, k) \<in> lives b' \<and> (\<forall>i < k. byte (fst s') (q + i) = byte (fst s) (q + i)))"
proof -
  obtain h ps where s: "s = (h, ps)" by (cases s)
  have a: "abs h b" "distinct ps" "set ps = fst ` lives b" using assms(1) by (auto simp: owns_def s)
  show ?thesis
  proof (cases c)
    case (Get n)
    then have "ok n" using assms(2) by simp
    from alloc_law [OF a(1) this] obtain h' b' r where r: "alloc h n = Some (h', r)" "abs h' b'"
      "case r of None \<Rightarrow> lives b' = lives b
         | Some p \<Rightarrow> p \<notin> fst ` lives b \<and> (\<exists>k. unat n \<le> k \<and> lives b' = insert (p, k) (lives b))"
      "\<forall>(q, k) \<in> lives b. \<forall>i < k. byte h' (q + i) = byte h (q + i)" by blast
    show ?thesis
      using r a by (cases r) (auto simp: Get s owns_def intro!: exI [of _ b'])
  next
    case (Drop i)
    show ?thesis
    proof (cases "i < length ps")
      case False
      then show ?thesis using assms(1) by (intro exI [of _ s] exI [of _ b]) (auto simp: Drop s)
    next
      case True
      then have "ps ! i \<in> fst ` lives b" using a(3) nth_mem by blast
      then obtain k where k: "(ps ! i, k) \<in> lives b" by auto
      from release_law [OF a(1) k] obtain h' b' where r: "release h (ps ! i) = Some h'" "abs h' b'"
        "lives b' = lives b - {(ps ! i, k)}"
        "\<forall>(q, k) \<in> lives b'. \<forall>i < k. byte h' (q + i) = byte h (q + i)" by blast
      have "fst ` lives b' = fst ` lives b - {ps ! i}"
        using lives_fun [OF a(1) k] by (force simp: r(3))
      then have o: "owns (h', remove1 (ps ! i) ps) b'" using a r by (simp add: owns_def)
      have in': "(q, j) \<in> lives b'" if "(q, j) \<in> lives b" "q \<in> set (remove1 (ps ! i) ps)" for q j
        using a r(3) that by auto
      have "byte h' (q + d) = byte h (q + d)"
        if "(q, j) \<in> lives b" "q \<in> set (remove1 (ps ! i) ps)" "d < j" for q j d
        using r(4) in' [OF that(1,2)] that(3) by blast
      then show ?thesis using True r(1) o in'
        by (intro exI [of _ "(h', remove1 (ps ! i) ps)"] exI [of _ b'] conjI) (auto simp: Drop s)
    qed
  qed
qed

lemma run_safe:
  "owns s b \<Longrightarrow> \<forall>c\<in>set cs. get_ok ok c \<Longrightarrow> \<exists>s' b'. heap_run alloc release cs s = Some s' \<and> owns s' b'"
proof (induction cs arbitrary: s b)
  case (Cons c cs)
  from step_safe [OF Cons(2), of c] Cons(3) obtain s1 b1 where
    "heap_step alloc release c s = Some s1" "owns s1 b1" by auto
  with Cons(1) [of s1 b1] Cons(3) show ?case by auto
qed auto

lemma run_apart:
  assumes "owns s b" "\<forall>c\<in>set cs. get_ok ok c"
  shows "\<exists>h ps b'. heap_run alloc release cs s = Some (h, ps) \<and> abs h b' \<and> distinct ps \<and>
    (\<forall>p\<in>set ps. \<exists>k. (p, k) \<in> lives b' \<and> (\<forall>(q, j)\<in>lives b'. q \<noteq> p \<longrightarrow> p + k \<le> q \<or> q + j \<le> p))"
proof -
  obtain s' b' where s': "heap_run alloc release cs s = Some s'" "owns s' b'"
    using run_safe [OF assms] by blast
  then have o: "abs (fst s') b'" "distinct (snd s')" "set (snd s') = fst ` lives b'" by (auto simp: owns_def)
  have "\<forall>p\<in>set (snd s'). \<exists>k. (p, k) \<in> lives b' \<and>
      (\<forall>(q, j)\<in>lives b'. q \<noteq> p \<longrightarrow> p + k \<le> q \<or> q + j \<le> p)"
    using o lives_apart [OF o(1)] by fastforce
  with s'(1) o show ?thesis by (cases s') auto
qed

end


text \<open>The packet heap provides this interface.\<close>

lemma live_apart:
  "seg h p bs \<Longrightarrow> (q, k) \<in> live_from p bs \<Longrightarrow> (r, j) \<in> live_from p bs \<Longrightarrow>
   (q = r \<and> k = j) \<or> q + k + 2 \<le> r \<or> r + j + 2 \<le> q"
proof (induction p bs rule: live_from.induct)
  case (2 p n used bs)
  have s: "seg h (p + n) bs" "2 \<le> n" using 2(2) by auto
  show ?case
  proof (cases "(q, k) \<in> live_from (p + n) bs \<and> (r, j) \<in> live_from (p + n) bs")
    case True
    then show ?thesis using 2(1) s by blast
  next
    case False
    then show ?thesis
      using 2(3,4) s live_from_range [OF s(1), of q k] live_from_range [OF s(1), of r j]
      by (auto split: if_splits)
  qed
qed simp

lemma live_afree:
  assumes "heap_abs h (xs @ (n, True) # ys)"
  shows "live (afree (bsize xs) (xs @ (n, True) # ys)) =
    live (xs @ (n, True) # ys) - {(bsize xs + 2, n - 2)}"
proof -
  have s: "seg h 0 xs" "seg h (bsize xs + n) ys" "2 \<le> n"
    using assms by (auto simp: heap_abs_seg)
  have "(bsize xs + 2, n - 2) \<notin> live_from 0 xs"
    using live_from_range [OF s(1), of "bsize xs + 2" "n - 2"] by auto
  moreover have "(bsize xs + 2, n - 2) \<notin> live_from (bsize xs + n) ys"
    using live_from_range [OF s(2), of "bsize xs + 2" "n - 2"] s(3) by auto
  ultimately have r: "live (xs @ (n, True) # ys) - {(bsize xs + 2, n - 2)} =
      live_from 0 xs \<union> live_from (bsize xs + n) ys"
    by (auto simp: live_def)
  show ?thesis
  proof (cases xs rule: rev_cases)
    case Nil
    then show ?thesis using r by (simp add: live_def live_free_head)
  next
    case (snoc zs b)
    obtain m v where b: "b = (m, v)" by (cases b)
    have pos: "\<forall>b\<in>set zs. 0 < fst b" "0 < m"
      using seg_pos [OF s(1)] by (auto simp: snoc b)
    obtain n' ys' where hd: "free_head ((n, True) # ys) = (n', False) # ys'"
      using free_head_Cons [of n True ys] by blast
    have "live_from (bsize xs) ((n', False) # ys') = live_from (bsize xs + n) ys"
      using live_free_head [of "bsize xs" n True ys] by (simp add: hd)
    moreover have "live_from (bsize zs) (merge_prev ((m, v) # (n', False) # ys')) =
        live_from (bsize zs) [(m, v)] \<union> live_from (bsize xs) ((n', False) # ys')"
      by (simp only: live_merge_prev) (simp add: snoc b add.assoc)
    moreover have "afree (bsize xs) (xs @ (n, True) # ys) = zs @ merge_prev ((m, v) # (n', False) # ys')"
      using afree_append [OF pos, of v "(n, True) # ys"] by (simp add: snoc b hd)
    ultimately have "live (afree (bsize xs) (xs @ (n, True) # ys)) =
        live_from 0 zs \<union> (live_from (bsize zs) [(m, v)] \<union> live_from (bsize xs + n) ys)"
      by (simp only: live_def live_from_append add_0)
    moreover have "live_from 0 xs = live_from 0 zs \<union> live_from (bsize zs) [(m, v)]"
      by (simp only: snoc b live_from_append add_0)
    ultimately show ?thesis unfolding r by blast
  qed
qed

lemma live_amalloc:
  assumes "2 \<le> k"
  shows "live (xs @ (k, True) # (m, False) # ys) =
    insert (bsize xs + 2, k - 2) (live (xs @ (k + m, False) # ys))"
  by (auto simp: live_def add.assoc)

lemma live_split:
  "seg h d bs \<Longrightarrow> (p, k) \<in> live_from d bs \<Longrightarrow>
   \<exists>xs ys. bs = xs @ (k + 2, True) # ys \<and> p = d + bsize xs + 2"
proof (induction d bs rule: live_from.induct)
  case (2 d n used bs)
  have n: "2 \<le> n" "seg h (d + n) bs" using 2(2) by auto
  consider "used" "p = d + 2" "k = n - 2" | "(p, k) \<in> live_from (d + n) bs"
    using 2(3) by (auto split: if_splits)
  then show ?case
  proof cases
    case 1
    then show ?thesis using n by (intro exI [of _ "[]"] exI [of _ bs]) auto
  next
    case c: 2
    from 2(1) [OF n(2) c] obtain xs ys where "bs = xs @ (k + 2, True) # ys" "p = d + n + bsize xs + 2"
      by blast
    then show ?thesis by (intro exI [of _ "(n, used) # xs"] exI [of _ ys]) auto
  qed
qed simp


definition heap_byte :: "mem \<Rightarrow> nat \<Rightarrow> u8" where
  "heap_byte h i = h ! i"

definition request_ok :: "u16 \<Rightarrow> bool" where
  "request_ok n \<longleftrightarrow> n < 65531"

lemma ip_malloc_law:
  assumes h: "heap_abs h bs" and ok: "request_ok req"
  shows "\<exists>h' bs' r. ip_malloc (behind w) h req = Some (h', r) \<and> heap_abs h' bs' \<and>
      (case r of None \<Rightarrow> live bs' = live bs
       | Some p \<Rightarrow> p \<notin> fst ` live bs \<and> (\<exists>k. unat req \<le> k \<and> live bs' = insert (p, k) (live bs))) \<and>
      (\<forall>(q, k) \<in> live bs. \<forall>i < k. heap_byte h' (q + i) = heap_byte h (q + i))"
proof -
  have req: "unat req < 65531" using ok by (simp add: request_ok_def word_less_nat_alt)
  show ?thesis
  proof (cases "amalloc (block_need (unat req)) bs")
    case None
    then have "ip_malloc (behind w) h req = Some (h, None)" by (rule ip_malloc_behind [OF h req])
    then show ?thesis using h by auto
  next
    case (Some r)
    then obtain bs' off where r: "amalloc (block_need (unat req)) bs = Some (bs', off)" by (cases r) auto
    let ?sz = "block_need (unat req)"
    from amalloc_Some [OF r] obtain xs n ys where x: "bs = xs @ (n, False) # ys" "?sz \<le> n"
      "\<forall>b\<in>set xs. \<not> fits ?sz b" by blast
    let ?h = "set_header (set_header h (bsize xs) (?sz - 2) True) (bsize xs + (?sz - 2)) (n - (?sz - 2)) False"
    have h': "ip_malloc (behind w) h req = Some (?h, Some (bsize xs + 2))"
      "heap_abs ?h (xs @ (?sz - 2, True) # (n - (?sz - 2), False) # ys)"
      using ip_malloc_split [OF _ req refl x(2,3)] h x(1) by auto
    have sz: "4 \<le> ?sz" "unat req + 4 \<le> ?sz" by simp_all
    have l: "live (xs @ (?sz - 2, True) # (n - (?sz - 2), False) # ys) =
        insert (bsize xs + 2, ?sz - 2 - 2) (live bs)"
    proof -
      have "2 \<le> ?sz - 2" "?sz - 2 + (n - (?sz - 2)) = n" using sz x(2) by linarith+
      with live_amalloc [of "?sz - 2" xs "n - (?sz - 2)" ys] show ?thesis by (simp only: x(1))
    qed
    have sg: "seg h 0 bs" using h by (simp add: heap_abs_seg)
    have s0: "seg h 0 xs" "seg h (bsize xs + n) ys" using sg x(1) by auto
    have n0: "q + k \<le> bsize xs \<or> bsize xs + n + 2 \<le> q" if "(q, k) \<in> live bs" for q k
      using that live_from_range [OF s0(1)] live_from_range [OF s0(2)]
      by (auto simp: live_def x(1))
    have notin: "bsize xs + 2 \<notin> fst ` live bs"
    proof
      assume "bsize xs + 2 \<in> fst ` live bs"
      then obtain k where "(bsize xs + 2, k) \<in> live bs" by auto
      then show False using n0 [of "bsize xs + 2" k] x(2) sz by auto
    qed
    have keep: "heap_byte ?h (q + i) = heap_byte h (q + i)" if "(q, k) \<in> live bs" "i < k" for q k i
      using n0 [OF that(1)] that(2) x(2) sz by (auto simp: heap_byte_def set_header_nth)
    have room: "\<exists>k. unat req \<le> k \<and> live (xs @ (?sz - 2, True) # (n - (?sz - 2), False) # ys) = insert (bsize xs + 2, k) (live bs)"
      using sz by (intro exI [of _ "?sz - 2 - 2"] conjI l) linarith
    show ?thesis
    proof (intro exI conjI)
      show "ip_malloc (behind w) h req = Some (?h, Some (bsize xs + 2))" by (rule h')
      show "heap_abs ?h (xs @ (?sz - 2, True) # (n - (?sz - 2), False) # ys)" by (rule h')
    qed (use notin keep room in auto)
  qed
qed

lemma ip_free_law:
  assumes h: "heap_abs h bs" and p: "(p, k) \<in> live bs"
  shows "\<exists>h' bs'. ip_free junk h p = Some h' \<and> heap_abs h' bs' \<and> live bs' = live bs - {(p, k)} \<and>
      (\<forall>(q, k) \<in> live bs'. \<forall>i < k. heap_byte h' (q + i) = heap_byte h (q + i))"
proof -
  have sg: "seg h 0 bs" using h by (simp add: heap_abs_seg)
  from live_split [OF sg p [unfolded live_def]] obtain xs ys
    where x: "bs = xs @ (k + 2, True) # ys" "p = bsize xs + 2" by auto
  have off: "bsize xs \<in> set (block_starts 0 bs)"
    using block_starts_split [of "bsize xs" 0 bs] by (auto simp: x(1))
  from ip_free_ok [OF h off] obtain h' where h': "ip_free junk h p = Some h'"
    "heap_abs h' (afree (bsize xs) bs)"
    "\<forall>i. i \<noteq> bsize xs \<and> i \<noteq> Suc (bsize xs) \<and> (\<forall>s\<in>set (block_starts 0 bs). i \<noteq> s \<and> i \<noteq> Suc s) \<longrightarrow> h' ! i = h ! i"
    using x(2) by auto
  have l: "live (afree (bsize xs) bs) = live bs - {(p, k)}"
    using live_afree [of h xs "k + 2" ys] h x by simp
  have "heap_byte h' (q + i) = heap_byte h (q + i)" if q: "(q, j) \<in> live bs" "i < j" for q i j
  proof -
    have "q + i \<noteq> s \<and> q + i \<noteq> Suc s" if "s \<in> set (block_starts 0 bs)" for s
      using live_no_header [OF sg _ that, of q j] q by (auto simp: live_def)
    with off h'(3) show ?thesis by (auto simp: heap_byte_def)
  qed
  with h' l show ?thesis by (intro exI [of _ h'] exI [of _ "afree (bsize xs) bs"]) auto
qed

interpretation pkt: packet_heap heap_abs live heap_byte request_ok "ip_malloc (behind w)" "ip_free (behind w)" for w
proof
  fix h bs p k k'
  assume h: "heap_abs h bs" and l: "(p, k) \<in> live bs" "(p, k') \<in> live bs"
  then show "k' = k" using live_apart [of h 0 bs p k p k'] by (auto simp: heap_abs_seg live_def)
next
  fix h bs p k q j
  assume "heap_abs h bs" "(p, k) \<in> live bs" "(q, j) \<in> live bs" "p \<noteq> q"
  then show "p + k \<le> q \<or> q + j \<le> p" using live_apart [of h 0 bs p k q j] by (auto simp: heap_abs_seg live_def)
qed (fact ip_malloc_law, fact ip_free_law)

section \<open>The heap from its initialisation on\<close>

lemma ip_malloc_init_ok:
  assumes "length h = IP_MALLOC_HEAP_SIZE"
  shows "\<exists>h'. ip_malloc_init h = Some h' \<and> heap_abs h' [(1500, False)]"
proof -
  have "ip_malloc_init h = Some (set_header h 0 1500 False)"
    using assms wr16_header [of 0 h 1500 False]
    by (simp add: ip_malloc_init_def HEAP_SIZE IP_MALLOC_LEN_def block_word_def)
  then show ?thesis using assms by (auto simp: heap_abs_seg HEAP_SIZE)
qed

lemma owns_init: "heap_abs h bs \<Longrightarrow> live bs = {} \<Longrightarrow> pkt.owns (h, []) bs"
  by (simp add: pkt.owns_def)

text \<open>Allocation followed by the release of the block gives the old list of blocks back.\<close>

lemma coalesced_append: "coalesced (xs @ ys) \<Longrightarrow> coalesced xs \<and> coalesced ys"
proof (induction xs rule: coalesced.induct)
qed (auto elim: coalesced.elims)

lemma amalloc_afree:
  assumes bs: "\<forall>b\<in>set bs. 0 < fst b" "coalesced bs" and sz: "2 < sz"
    and a: "amalloc sz bs = Some (bs', off)"
  shows "afree off bs' = bs"
proof -
  from amalloc_Some [OF a] obtain xs n ys where x: "bs = xs @ (n, False) # ys"
    "bs' = xs @ (sz - 2, True) # (n - (sz - 2), False) # ys" "off = bsize xs" "sz \<le> n" by blast
  have hd: "free_head ((sz - 2, True) # (n - (sz - 2), False) # ys) = (n, False) # ys"
    using x(4) by simp
  show ?thesis
  proof (cases xs rule: rev_cases)
    case Nil
    then show ?thesis using x hd by simp
  next
    case (snoc zs b)
    obtain m v where b: "b = (m, v)" by (cases b)
    have "coalesced ((m, v) # (n, False) # ys)"
      using coalesced_append [of zs "(m, v) # (n, False) # ys"] bs(2) by (simp add: x(1) snoc b)
    then have v: "v" by (cases v) auto
    have "afree off bs' = zs @ merge_prev ((m, v) # (n, False) # ys)"
      using afree_append [of zs m v] bs(1) hd by (auto simp: x snoc b)
    then show ?thesis using v by (simp add: x(1) snoc b)
  qed
qed


definition fresh_heap :: mem where
  "fresh_heap = set_header (replicate 1500 0) 0 1500 False"

lemma fresh_heap_abs: "heap_abs fresh_heap [(1500, False)]"
  by (simp add: fresh_heap_def heap_abs_seg HEAP_SIZE)

section \<open>What the bytes behind the array are for\<close>

text \<open>A request that finds a block loads nothing outside the array; one that finds none loads the two
  bytes behind it.\<close>

lemma ip_malloc_loads:
  assumes h: "heap_abs h bs" and req: "request_ok req"
  obtains (refused) "\<And>w. ip_malloc (behind w) h req = Some (h, None)" and "ip_malloc Map.empty h req = None"
  | (granted) h' p where "\<And>junk. ip_malloc junk h req = Some (h', Some p)"
proof (cases "amalloc (block_need (unat req)) bs")
  case None
  have req': "unat req < 65531" using req by (simp add: request_ok_def word_less_nat_alt)
  show thesis
    using ip_malloc_behind [OF h req' None] ip_malloc_full [OF h req' None, of Map.empty] by (intro refused) simp_all
next
  case (Some r)
  have req': "unat req < 65531" using req by (simp add: request_ok_def word_less_nat_alt)
  obtain bs' off where r: "r = (bs', off)" by (cases r)
  from amalloc_Some [OF Some [unfolded r]] obtain xs n ys where x: "bs = xs @ (n, False) # ys"
    "block_need (unat req) \<le> n" "\<forall>b\<in>set xs. \<not> fits (block_need (unat req)) b" by blast
  show thesis by (rule granted) (rule ip_malloc_split(1) [OF h [unfolded x(1)] req' refl x(2,3)])
qed

lemma ip_free_loads:
  assumes h: "heap_abs h bs" and p: "(p, k) \<in> live bs"
  shows "ip_free junk h p = ip_free junk' h p"
proof -
  have sg: "seg h 0 bs" using h by (simp add: heap_abs_seg)
  from live_split [OF sg p [unfolded live_def]] obtain xs ys where x: "bs = xs @ (k + 2, True) # ys" "p = bsize xs + 2" by auto
  have "bsize xs \<in> set (block_starts 0 bs)"
    using block_starts_split [of "bsize xs" 0 bs] by (auto simp: x(1))
  from ip_free_ok [OF h this] show ?thesis by (auto simp: x(2))
qed

text \<open>The first request of a session that is refused.\<close>

definition refused_in :: "heap_op list \<Rightarrow> mem \<times> nat list \<Rightarrow> bool" where
  "refused_in ops s \<longleftrightarrow> (\<exists>ops1 n ops2 h ps. ops = ops1 @ Get n # ops2 \<and>
     heap_run (ip_malloc Map.empty) (ip_free Map.empty) ops1 s = Some (h, ps) \<and>
     (\<forall>w. ip_malloc (behind w) h n = Some (h, None)))"

lemma refused_in_Cons:
  "heap_step (ip_malloc Map.empty) (ip_free Map.empty) c s = Some s' \<Longrightarrow> refused_in cs s' \<Longrightarrow> refused_in (c # cs) s"
  unfolding refused_in_def by (elim exE conjE) (rule_tac x = "c # ops1" in exI, fastforce)

lemma step_loads:
  assumes "pkt.owns (h, ps) b" "get_ok request_ok c"
  shows "(\<exists>s'. \<forall>junk. heap_step (ip_malloc junk) (ip_free junk) c (h, ps) = Some s') \<or>
    (\<forall>w. heap_step (ip_malloc (behind w)) (ip_free (behind w)) c (h, ps) = Some (h, ps)) \<and>
    refused_in (c # cs) (h, ps)"
proof -
  have a: "heap_abs h b" "set ps = fst ` live b" using assms(1) by (auto simp: pkt.owns_def)
  show ?thesis
  proof (cases c)
    case (Get n)
    then have "request_ok n" using assms(2) by simp
    from a(1) this show ?thesis
    proof (cases rule: ip_malloc_loads)
      case refused
      then have "refused_in (c # cs) (h, ps)"
        unfolding refused_in_def Get by (intro exI [of _ "[]"] exI [of _ n] exI [of _ cs] exI [of _ h] exI [of _ ps]) simp
      then show ?thesis using refused by (simp add: Get)
    qed (simp add: Get)
  next
    case (Drop i)
    show ?thesis
    proof (cases "i < length ps")
      case True
      then have "ps ! i \<in> fst ` live b" using a(2) nth_mem by blast
      then obtain k where k: "(ps ! i, k) \<in> live b" by auto
      obtain h' where h': "ip_free Map.empty h (ps ! i) = Some h'" using ip_free_law [OF a(1) k, of Map.empty] by blast
      have "ip_free junk h (ps ! i) = Some h'" for junk
        using ip_free_loads [OF a(1) k, of junk Map.empty] h' by simp
      then show ?thesis using True by (simp add: Drop)
    qed (simp add: Drop)
  qed
qed

lemma run_loads:
  assumes "pkt.owns s b" "\<forall>c\<in>set cs. get_ok request_ok c" "heap_run (ip_malloc (behind w)) (ip_free (behind w)) cs s = Some s'"
  shows "(\<forall>w. heap_run (ip_malloc (behind w)) (ip_free (behind w)) cs s = Some s') \<and>
    (heap_run (ip_malloc Map.empty) (ip_free Map.empty) cs s = Some s' \<or> refused_in cs s)"
  using assms
proof (induction cs arbitrary: s b)
  case (Cons c cs)
  obtain h ps where s: "s = (h, ps)" by (cases s)
  have ok: "get_ok request_ok c" "\<forall>c\<in>set cs. get_ok request_ok c" using Cons.prems(2) by simp_all
  obtain s1 b1 where 1: "heap_step (ip_malloc (behind w)) (ip_free (behind w)) c s = Some s1" "pkt.owns s1 b1"
    using pkt.step_safe [OF Cons.prems(1) ok(1)] by blast
  then have "heap_run (ip_malloc (behind w)) (ip_free (behind w)) cs s1 = Some s'" using Cons.prems(3) by simp
  from Cons.IH [OF 1(2) ok(2) this] have
    IH: "\<forall>w. heap_run (ip_malloc (behind w)) (ip_free (behind w)) cs s1 = Some s'"
      "heap_run (ip_malloc Map.empty) (ip_free Map.empty) cs s1 = Some s' \<or> refused_in cs s1" by blast+
  from step_loads [OF Cons.prems(1) [unfolded s] ok(1), of cs, folded s] show ?case
  proof
    assume "\<exists>s'. \<forall>junk. heap_step (ip_malloc junk) (ip_free junk) c s = Some s'"
    then have st: "heap_step (ip_malloc junk) (ip_free junk) c s = Some s1" for junk using 1(1) by auto
    have "refused_in (c # cs) s" if "refused_in cs s1" by (rule refused_in_Cons [OF st that])
    then show ?thesis using IH st by auto
  next
    assume r: "(\<forall>w. heap_step (ip_malloc (behind w)) (ip_free (behind w)) c s = Some s) \<and> refused_in (c # cs) s"
    from r have "heap_step (ip_malloc (behind w)) (ip_free (behind w)) c s = Some s" by blast
    then have "s1 = s" using 1(1) by simp
    then show ?thesis using r IH(1) by simp
  qed
qed simp

section \<open>Stores into a block\<close>

lemma seg_starts_cong:
  "seg h p bs \<Longrightarrow> length h' = length h \<Longrightarrow>
   \<forall>s\<in>set (block_starts p bs). h' ! s = h ! s \<and> h' ! Suc s = h ! Suc s \<Longrightarrow> seg h' p bs"
  by (induction p bs rule: block_starts.induct) auto

lemma store_in_block:
  assumes h: "heap_abs h bs" and p: "(p, k) \<in> live bs" and fits: "off + length xs \<le> k"
  shows "wrn h (p + off) xs = Some (put h (p + off) xs)" "heap_abs (put h (p + off) xs) bs"
    "length (put h (p + off) xs) = length h"
proof -
  have sg: "seg h 0 bs" "bsize bs = length h" using h by (simp_all add: heap_abs_seg)
  have "p + off + length xs \<le> length h"
    using live_from_range [OF sg(1) p [unfolded live_def]] sg(2) fits by simp
  then show w: "wrn h (p + off) xs = Some (put h (p + off) xs)" "length (put h (p + off) xs) = length h"
    by (simp_all add: wrn_def)
  have "put h (p + off) xs ! s = h ! s \<and> put h (p + off) xs ! Suc s = h ! Suc s" if "s \<in> set (block_starts 0 bs)" for s
  proof -
    have "s + 2 \<le> p \<or> p + k \<le> s" using live_no_header [OF sg(1) p [unfolded live_def] that] .
    moreover have "Suc s < length h"
      using that block_starts_split [of s 0 bs] sg by (auto simp: heap_abs_seg)
    ultimately show ?thesis
      using fits \<open>p + off + length xs \<le> length h\<close> by (auto simp: put_nth)
  qed
  then have "seg (put h (p + off) xs) 0 bs" by (intro seg_starts_cong [OF sg(1) w(2)]) blast
  then show "heap_abs (put h (p + off) xs) bs" using h w(2) by (simp add: heap_abs_seg)
qed

text \<open>The bytes a pointer gives access to: \<open>n\<close> bytes lie inside a block in use.\<close>

definition in_block :: "mem \<Rightarrow> nat \<Rightarrow> nat \<Rightarrow> bool" where
  "in_block h p n \<longleftrightarrow> 2 \<le> p \<and> (case hd16 Map.empty h (p - 2) of None \<Rightarrow> False
     | Some w \<Rightarrow> w AND IP_MALLOC_INUSE \<noteq> 0 \<and> n + 2 \<le> unat (w AND IP_MALLOC_LEN))"

lemma live_header:
  "seg h q bs \<Longrightarrow> length h = 1500 \<Longrightarrow> (p, k) \<in> live_from q bs \<Longrightarrow>
   2 \<le> p \<and> (\<exists>m. k = m - 2 \<and> 2 \<le> m \<and> m \<le> 1500 \<and> hd16 junk h (p - 2) = Some (block_word m True))"
proof (induction q bs rule: live_from.induct)
  case (1 q) then show ?case by simp
next
  case (2 q n used bs)
  then have s: "seg h (q + n) bs" "2 \<le> n" "n \<le> 1500" "used \<Longrightarrow> hd16 junk h q = Some (block_word n True)"
    using hd16_seg [of h q n used bs junk] by auto
  from "2.prems"(3) consider "used" "p = q + 2" "k = n - 2" | "(p, k) \<in> live_from (q + n) bs" by (auto split: if_splits)
  then show ?case
  proof cases
    case 1 then show ?thesis using s(2-4) by (intro conjI exI [of _ n]) simp_all
  next
    case 2 then show ?thesis by (rule "2.IH" [OF s(1) "2.prems"(2)])
  qed
qed

lemma in_block_live:
  assumes "heap_abs h bs" "(p, k) \<in> live bs" "n \<le> k"
  shows "in_block h p n"
proof -
  have "seg h 0 bs" "length h = 1500" "(p, k) \<in> live_from 0 bs" using assms(1,2) by (simp_all add: heap_abs_seg HEAP_SIZE live_def)
  from live_header [OF this, of Map.empty] obtain m where
    "2 \<le> p" "k = m - 2" "2 \<le> m" "m \<le> 1500" "hd16 Map.empty h (p - 2) = Some (block_word m True)" by blast
  then show ?thesis using assms(3) by (simp add: in_block_def)
qed

section \<open>Properties\<close>

text \<open>C4: Any session on the packet heap is safe, up to one load of two bytes.  From \<open>ip_malloc_init\<close>
  on, let any sequence of requests (each below 65531 bytes) and releases of owned pointers run with
  the two bytes behind the array readable.  It runs to its end, no other byte outside the array is
  loaded and none is stored, and what the two bytes hold does not matter; the heap stays a well-formed
  cover by blocks; the pointers owned at the end are distinct, each has its own payload inside the
  array, and payloads are disjoint.  With nothing behind the array readable the session runs to the
  same end, unless a request is refused: \<open>ip_malloc\<close> loads the two bytes when it returns NULL, and
  only then.\<close>

theorem heap_sessions_safe:
  assumes "length h = IP_MALLOC_HEAP_SIZE" and "list_all (get_ok request_ok) ops"
  shows "\<exists>h0 h' ps bs. ip_malloc_init h = Some h0 \<and>
    (\<forall>w. heap_run (ip_malloc (behind w)) (ip_free (behind w)) ops (h0, []) = Some (h', ps)) \<and>
    (heap_run (ip_malloc Map.empty) (ip_free Map.empty) ops (h0, []) = Some (h', ps) \<or> refused_in ops (h0, [])) \<and>
    heap_abs h' bs \<and> distinct ps \<and>
    (\<forall>p\<in>set ps. \<exists>k. (p, k) \<in> live bs \<and> p + k \<le> IP_MALLOC_HEAP_SIZE \<and>
       (\<forall>(q, j)\<in>live bs. q \<noteq> p \<longrightarrow> p + k \<le> q \<or> q + j \<le> p))"
proof -
  obtain h0 where h0: "ip_malloc_init h = Some h0" "heap_abs h0 [(1500, False)]"
    using ip_malloc_init_ok [OF assms(1)] by blast
  have owns: "pkt.owns (h0, []) [(1500, False)]" by (rule owns_init [OF h0(2)]) (simp add: live_def)
  have ok: "\<forall>c\<in>set ops. get_ok request_ok c" using assms(2) by (simp add: list_all_iff)
  from pkt.run_apart [OF owns ok, of "(0, 0)"] obtain h' ps bs where
    r: "heap_run (ip_malloc (behind (0, 0))) (ip_free (behind (0, 0))) ops (h0, []) = Some (h', ps)" "heap_abs h' bs" "distinct ps"
      "\<forall>p\<in>set ps. \<exists>k. (p, k) \<in> live bs \<and> (\<forall>(q, j)\<in>live bs. q \<noteq> p \<longrightarrow> p + k \<le> q \<or> q + j \<le> p)"
    by auto
  note loads = run_loads [OF owns ok r(1)]
  have "p + k \<le> IP_MALLOC_HEAP_SIZE" if "(p, k) \<in> live bs" for p k
    using live_from_range [of h' 0 bs p k] r(2) that by (auto simp: heap_abs_seg live_def)
  then have "\<forall>p\<in>set ps. \<exists>k. (p, k) \<in> live bs \<and> p + k \<le> IP_MALLOC_HEAP_SIZE \<and>
       (\<forall>(q, j)\<in>live bs. q \<noteq> p \<longrightarrow> p + k \<le> q \<or> q + j \<le> p)"
    using r(4) by meson
  then show ?thesis
    by (intro exI [of _ h0] exI [of _ h'] exI [of _ ps] exI [of _ bs] conjI h0(1) loads [THEN conjunct1]
        loads [THEN conjunct2] r(2,3))
qed

text \<open>The second of these requests is refused.\<close>

lemma heap_sessions_safe_witness:
  "\<exists>h0 h' ps bs. ip_malloc_init (replicate 1500 0) = Some h0 \<and>
    (\<forall>w. heap_run (ip_malloc (behind w)) (ip_free (behind w)) [Get 10, Get 2000, Get 20, Drop 1] (h0, []) = Some (h', ps)) \<and>
    heap_abs h' bs"
proof -
  have "length (replicate 1500 (0 :: u8)) = IP_MALLOC_HEAP_SIZE" "list_all (get_ok request_ok) [Get 10, Get 2000, Get 20, Drop 1]"
    by (simp_all add: HEAP_SIZE request_ok_def)
  note r = heap_sessions_safe [OF this]
  then show ?thesis by (elim ex_forward) simp
qed

text \<open>C23: Allocation refines first fit.  On a well-formed heap and for a request below 65531 bytes
  (beyond that the rounded size wraps), \<open>ip_malloc\<close> finds nothing exactly when the abstract heap has no
  free block of the rounded size: it then loads the two bytes behind the array, and if that is possible
  returns NULL and leaves the heap alone.  Otherwise it returns the payload of the first such block,
  splits it as the abstract allocator does, and writes nothing but the two headers.\<close>

theorem ip_malloc_first_fit:
  assumes h: "heap_abs h bs" and req: "request_ok req"
  shows "(case amalloc (block_need (unat req)) bs of
      None \<Rightarrow> ip_malloc junk h req =
        (if junk IP_MALLOC_HEAP_SIZE = None \<or> junk (IP_MALLOC_HEAP_SIZE + 1) = None then None else Some (h, None))
    | Some (bs', off) \<Rightarrow> \<exists>h'. ip_malloc junk h req = Some (h', Some (off + 2)) \<and> heap_abs h' bs' \<and>
        (\<forall>i. i \<notin> {off, off + 1, off + block_need (unat req) - 2, off + block_need (unat req) - 1}
             \<longrightarrow> h' ! i = h ! i))"
proof (cases "amalloc (block_need (unat req)) bs")
  case None
  then show ?thesis using ip_malloc_full [OF h] req by (simp add: request_ok_def word_less_nat_alt HEAP_SIZE)
next
  case (Some r)
  obtain bs' off where r: "r = (bs', off)" by (cases r)
  have req': "unat req < 65531" using req by (simp add: request_ok_def word_less_nat_alt)
  from amalloc_Some [OF Some [unfolded r]] obtain xs n ys where x: "bs = xs @ (n, False) # ys"
    "bs' = xs @ (block_need (unat req) - 2, True) # (n - (block_need (unat req) - 2), False) # ys"
    "off = bsize xs" "block_need (unat req) \<le> n" "\<forall>b\<in>set xs. \<not> fits (block_need (unat req)) b" by blast
  have "4 \<le> block_need (unat req)" by simp
  then show ?thesis
    using ip_malloc_split(1) [OF h [unfolded x(1)] req' refl x(4,5), of junk]
      ip_malloc_split(2) [OF h [unfolded x(1)] req' refl x(4,5)]
    by (auto simp: Some r x(2,3) set_header_nth simp del: block_need_ge)
qed

lemma ip_malloc_first_fit_witness:
  "\<exists>h'. ip_malloc Map.empty fresh_heap 10 = Some (h', Some 2) \<and> heap_abs h' [(12, True), (1488, False)] \<and>
     h' ! 2 = fresh_heap ! 2"
  using ip_malloc_first_fit [OF fresh_heap_abs, of 10 Map.empty]
  by (auto simp: request_ok_def block_need_def)

text \<open>C24: Release refines the abstract merge: clearing the block at \<open>off\<close> merges it with a free
  successor and a free predecessor, and the free space the heap reports afterwards is that of
  the abstract heap; nothing outside the array is loaded.\<close>

theorem ip_free_merges:
  assumes "heap_abs h bs" and "off \<in> set (block_starts 0 bs)"
  shows "\<exists>h'. ip_free junk h (off + 2) = Some h' \<and> heap_abs h' (afree off bs) \<and>
    ip_malloc_freespace junk h' = Some (of_nat (free_total (afree off bs)))"
  using ip_free_ok [OF assms] ip_malloc_freespace_ok by blast

text \<open>A used block between two free ones.\<close>

definition holed_heap :: mem where
  "holed_heap = set_header (set_header (set_header (replicate 1500 0) 0 100 False) 100 50 True) 150 1350 False"

lemma holed_heap_abs: "heap_abs holed_heap [(100, False), (50, True), (1350, False)]"
  by (simp add: holed_heap_def heap_abs_seg HEAP_SIZE set_header_def)

lemma ip_free_merges_witness:
  "\<exists>h'. ip_free Map.empty holed_heap 102 = Some h' \<and> heap_abs h' [(1500, False)] \<and>
    ip_malloc_freespace Map.empty h' = Some 1500"
  using ip_free_merges [OF holed_heap_abs, of 100 Map.empty] by auto

text \<open>A block that is borrowed: it has room for the request, and when it is given back, after any stores
  that leave the headers alone, the heap has the blocks it had before.  The heap may also be full.\<close>

lemma malloc_borrow:
  assumes h: "heap_abs h bs" "coalesced bs" and req: "request_ok req"
  shows "ip_malloc (behind w) h req = Some (h, None) \<or>
    (\<exists>h1 p k bs1. ip_malloc (behind w) h req = Some (h1, Some p) \<and> heap_abs h1 bs1 \<and> (p, k) \<in> live bs1 \<and> unat req \<le> k \<and>
      (\<forall>junk h'. heap_abs h' bs1 \<longrightarrow> (\<exists>h2. ip_free junk h' p = Some h2 \<and> heap_abs h2 bs)))"
proof (cases "amalloc (block_need (unat req)) bs")
  case None
  then show ?thesis using ip_malloc_behind [OF h(1)] req by (simp add: request_ok_def word_less_nat_alt)
next
  case (Some r)
  have req': "unat req < 65531" using req by (simp add: request_ok_def word_less_nat_alt)
  let ?sz = "block_need (unat req)"
  obtain bs' off where r: "r = (bs', off)" by (cases r)
  from amalloc_Some [OF Some [unfolded r]] obtain xs n ys where x: "bs = xs @ (n, False) # ys"
    "bs' = xs @ (?sz - 2, True) # (n - (?sz - 2), False) # ys" "off = bsize xs" "?sz \<le> n" "\<forall>b\<in>set xs. \<not> fits ?sz b" by blast
  obtain h1 where h1: "ip_malloc (behind w) h req = Some (h1, Some (off + 2))" "heap_abs h1 bs'"
    using ip_malloc_split(1) [OF h(1) [unfolded x(1)] req' refl x(4,5), of "behind w"]
      ip_malloc_split(2) [OF h(1) [unfolded x(1)] req' refl x(4,5)] by (auto simp: x(2,3))
  have sz: "4 \<le> ?sz" "unat req + 4 \<le> ?sz" by simp_all
  have "(off + 2, ?sz - 2 - 2) \<in> live bs'" by (simp add: live_def x(2,3))
  moreover have "unat req \<le> ?sz - 2 - 2" using sz by linarith
  moreover have "\<exists>h2. ip_free junk h' (off + 2) = Some h2 \<and> heap_abs h2 bs" if "heap_abs h' bs'" for junk h'
  proof -
    have "off \<in> set (block_starts 0 bs')" using block_starts_split [of off 0 bs'] x(2,3) by auto
    from ip_free_ok [OF that this] obtain h2 where "ip_free junk h' (off + 2) = Some h2" "heap_abs h2 (afree off bs')" by auto
    moreover have "2 < ?sz" using sz by linarith
    then have "afree off bs' = bs"
      using amalloc_afree [OF _ h(2) _ Some [unfolded r]] h(1) seg_pos [of h 0 bs] by (simp add: heap_abs_seg)
    ultimately show ?thesis by auto
  qed
  ultimately show ?thesis using h1 by blast
qed

text \<open>Releasing the block just allocated gives back the same blocks and the same free
  space, on every well-formed heap without adjacent free blocks: nothing is lost to
  fragmentation.\<close>

theorem ip_malloc_free_inverse:
  assumes h: "heap_abs h bs" "coalesced bs" and req: "request_ok req"
    and a: "ip_malloc (behind w) h req = Some (h1, Some p)"
  shows "\<exists>h2. ip_free junk h1 p = Some h2 \<and> heap_abs h2 bs \<and>
    ip_malloc_freespace junk h2 = ip_malloc_freespace junk h"
proof -
  obtain bs1 where "heap_abs h1 bs1" "\<forall>junk h'. heap_abs h' bs1 \<longrightarrow> (\<exists>h2. ip_free junk h' p = Some h2 \<and> heap_abs h2 bs)"
    using malloc_borrow [OF h req, of w] a by auto
  then obtain h2 where "ip_free junk h1 p = Some h2" "heap_abs h2 bs" by blast
  then show ?thesis using ip_malloc_freespace_ok h(1) by auto
qed

lemma ip_malloc_free_inverse_witness:
  "\<exists>h1 h2. ip_malloc (behind (0, 0)) fresh_heap 10 = Some (h1, Some 2) \<and> ip_free (behind (0, 0)) h1 2 = Some h2 \<and>
    heap_abs h2 [(1500, False)]"
proof -
  have "request_ok 10" by (simp add: request_ok_def)
  moreover obtain h1 where a: "ip_malloc (behind (0, 0)) fresh_heap 10 = Some (h1, Some 2)"
    using ip_malloc_split(1) [of fresh_heap "[]" 1500 "[]" 10 _ "behind (0, 0)", OF _ _ refl] fresh_heap_abs
    by (auto simp: block_need_def)
  ultimately show ?thesis using ip_malloc_free_inverse [OF fresh_heap_abs, of 10 "(0, 0)" h1 2 "behind (0, 0)"] by auto
qed

text \<open>A request of 65532 bytes wraps to a block size of zero: on the fresh heap the code stores
  a header 65534 bytes behind the block, outside the array.\<close>

lemma ip_malloc_wrap_escapes: "ip_malloc junk fresh_heap 65532 = None"
proof -
  have w: "malloc_size 65532 = 0" by (simp add: malloc_size_wraps)
  have hd: "hd16 junk fresh_heap 0 = Some (block_word 1500 False)" by (simp add: fresh_heap_def)
  have f: "malloc_find junk fresh_heap 0 0 = Some 0"
    by (simp add: malloc_find.simps [of _ _ _ 0] hd)
  have "length fresh_heap = 1500" by (simp add: fresh_heap_def)
  then show ?thesis
    by (simp add: ip_malloc_def w f HEAP_SIZE wr16_def wrn_def Let_def)
qed

end
