(* ===== verification/Lowpan_Frag.thy ===== *)
theory Lowpan_Frag
  imports Iphc_Roundtrip Lowpan_Headers Ip_Malloc
begin

text \<open>
  Fragmentation and reassembly (\<open>lib6lowpan_frag.c\<close>): \<open>lowpan_frag_get\<close> writes the next frame of
  a packet, \<open>lowpan_recon_start\<close> and \<open>lowpan_recon_add\<close> rebuild the packet from the frames.
  The reconstruction buffer is allocated from the packet heap of \<open>Ip_Malloc\<close>; its contents are
  kept beside the pointer as an object of exactly the requested size, so a write outside it is
  undefined instead of damage to the next block of the heap.
\<close>

definition LIB6LOWPAN_MAX_LEN :: nat where "LIB6LOWPAN_MAX_LEN = 100"
definition LOWPAN_LINK_MTU :: nat where "LOWPAN_LINK_MTU = 109"
definition LOWPAN_IPV6_PATTERN :: u8 where "LOWPAN_IPV6_PATTERN = 0x41"

record lowpan_ctx =
  ctx_tag :: u16
  ctx_offset :: u16

section \<open>The receiver\<close>

text \<open>The last part of \<open>lowpan_recon_start\<close>, after the headers are unpacked: the length fields
  that are not sent are filled in.\<close>

definition fill_lengths :: "lowpan_reconstruct \<Rightarrow> mem \<Rightarrow> mem option" where
  "fill_lengths recon r = do {
     r \<leftarrow> wr16 r 4 (htons (r_size recon - of_nat SIZEOF_IP6_HDR));
     (case r_app_len recon of
        None \<Rightarrow> Some r
      | Some al \<Rightarrow> wr16 r al (htons (r_size recon - of_nat (r_transport_header recon)))) }"

text \<open>The middle part: copy or unpack the header and the rest of the frame into the buffer.\<close>

definition recon_unpack ::
  "(in6_addr \<Rightarrow> int \<Rightarrow> in6_addr \<times> int) \<Rightarrow> lowpan_reconstruct \<Rightarrow> mem \<Rightarrow> ieee154_frame_addr \<Rightarrow> mem \<Rightarrow> nat \<Rightarrow> u32 \<Rightarrow>
     (lowpan_reconstruct \<times> mem \<times> nat option) option" where
  "recon_unpack read_ctx recon r frame pkt up len = do {
     b \<leftarrow> rd pkt up;
     (if b = LOWPAN_IPV6_PATTERN then do {
        bs \<leftarrow> rdn pkt (up + 1) (unat (len - 1));
        r \<leftarrow> wrn r 0 bs;
        Some (recon, r, Some (unat (len - 1))) }
      else lowpan_unpack_headers read_ctx recon r frame pkt up (unat len)) }"

definition lowpan_recon_start ::
  "bool \<Rightarrow> (nat \<Rightarrow> u8 option) \<Rightarrow> (in6_addr \<Rightarrow> int \<Rightarrow> in6_addr \<times> int) \<Rightarrow> mem \<Rightarrow> ieee154_frame_addr \<Rightarrow>
     lowpan_reconstruct \<Rightarrow> mem \<Rightarrow> u32 \<Rightarrow> (mem \<times> lowpan_reconstruct \<times> int) option" where
  "lowpan_recon_start full junk read_ctx heap frame recon pkt len = do {
     let msg = \<lparr>lm_headers = 0, lm_len = ucast len, lm_data = Some pkt\<rparr>;
     h \<leftarrow> getHeaderBitmap full msg;
     let msg = msg\<lparr>lm_headers := ucast h\<rparr>;
     (if lm_headers msg = LOWMSG_NALP then Some (heap, recon, -1)
      else do {
        let up = getLowpanPayload full msg;
        let len = len - of_nat up;
        recon \<leftarrow> (if hasFrag1Header msg then do {
                    (_, tag) \<leftarrow> getFragDgramTag full True msg;
                    (_, sz) \<leftarrow> getFragDgramSize full True msg;
                    Some (recon\<lparr>r_tag := case_option (r_tag recon) id tag, r_size := case_option (r_size recon) id sz\<rparr>) }
                  else Some (recon\<lparr>r_size := of_nat (LIB6LOWPAN_MAX_LEN + LOWPAN_LINK_MTU)\<rparr>));
        (heap, ptr) \<leftarrow> ip_malloc junk heap (r_size recon);
        (case ptr of
           None \<Rightarrow> Some (heap, recon\<lparr>r_buf := None\<rparr>, -2)
         | Some ptr \<Rightarrow> do {
             let r = replicate (unat (r_size recon)) 0;
             (recon, r, fin) \<leftarrow> recon_unpack read_ctx (recon\<lparr>r_app_len := None\<rparr>) r frame pkt up len;
             (case fin of
                None \<Rightarrow> do {
                  heap \<leftarrow> ip_free junk heap ptr;
                  Some (heap, recon\<lparr>r_buf := Some (ptr, r)\<rparr>, -3) }
              | Some fin \<Rightarrow> do {
                  let recon = (if hasFrag1Header msg then recon else recon\<lparr>r_size := of_nat fin\<rparr>);
                  let recon = recon\<lparr>r_bytes_rcvd := of_nat fin\<rparr>;
                  r \<leftarrow> fill_lengths recon r;
                  Some (heap, recon\<lparr>r_buf := Some (ptr, r)\<rparr>, 0) }) }) }) }"

definition lowpan_recon_add ::
  "bool \<Rightarrow> lowpan_reconstruct \<Rightarrow> mem \<Rightarrow> u32 \<Rightarrow> (lowpan_reconstruct \<times> int) option" where
  "lowpan_recon_add full recon pkt len = do {
     let msg = \<lparr>lm_headers = 0, lm_len = ucast len, lm_data = Some pkt\<rparr>;
     h \<leftarrow> getHeaderBitmap full msg;
     let msg = msg\<lparr>lm_headers := ucast h\<rparr>;
     (if lm_headers msg = LOWMSG_NALP then Some (recon, -1)
      else if \<not> hasFragNHeader msg then Some (recon, -2)
      else do {
        let buf = getLowpanPayload full msg;
        let len = len - of_nat buf;
        (if ucast (r_size recon) < ucast (r_bytes_rcvd recon) + len then Some (recon, -3)
         else do {
           (ptr, r) \<leftarrow> r_buf recon;
           bs \<leftarrow> rdn pkt buf (unat len);
           r \<leftarrow> wrn r (unat (r_bytes_rcvd recon)) bs;
           Some (recon\<lparr>r_buf := Some (ptr, r), r_bytes_rcvd := r_bytes_rcvd recon + ucast len\<rparr>, 0) }) }) }"

section \<open>The sender\<close>

text \<open>The fragmentation headers are written through a \<open>packed_lowmsg\<close> whose data pointer is
  \<open>lowpan_buf\<close>, inside the frame.\<close>

definition in_frame ::
  "mem \<Rightarrow> nat \<Rightarrow> u8 \<Rightarrow> (packed_lowmsg \<Rightarrow> (packed_lowmsg \<times> u8) option) \<Rightarrow> (mem \<times> u8) option" where
  "in_frame m lb n f =
     (if lb \<le> length m then do {
        (msg, rv) \<leftarrow> f \<lparr>lm_headers = 0, lm_len = n, lm_data = Some (drop lb m)\<rparr>;
        d \<leftarrow> lm_data msg;
        Some (take lb m @ d, rv) }
      else None)"

definition dgram_size :: "ip6_packet \<Rightarrow> u16" where
  "dgram_size packet = ntohs (ip6_plen (ip6_hdr packet)) + of_nat SIZEOF_IP6_HDR"

text \<open>The FRAG1 header; the results of the three calls are ignored.\<close>

definition frag1_header :: "bool \<Rightarrow> ip6_packet \<Rightarrow> u16 \<Rightarrow> packed_lowmsg \<Rightarrow> (packed_lowmsg \<times> u8) option" where
  "frag1_header full packet tag msg = do {
     (msg, _) \<leftarrow> setupHeaders full msg (ucast LOWMSG_FRAG1_HDR);
     (msg, _) \<leftarrow> setFragDgramSize full msg (dgram_size packet);
     (msg, _) \<leftarrow> setFragDgramTag full msg tag;
     Some (msg, 0) }"

text \<open>The FRAGN header; the second component says which setter failed (5, 6, 7), 0 for none.\<close>

definition fragn_header :: "bool \<Rightarrow> ip6_packet \<Rightarrow> lowpan_ctx \<Rightarrow> packed_lowmsg \<Rightarrow> (packed_lowmsg \<times> u8) option" where
  "fragn_header full packet ctx msg = do {
     (msg, _) \<leftarrow> setupHeaders full msg (ucast LOWMSG_FRAGN_HDR);
     (msg, e) \<leftarrow> setFragDgramSize full msg (dgram_size packet);
     (if e \<noteq> 0 then Some (msg, 5)
      else do {
        (msg, e) \<leftarrow> setFragDgramTag full msg (ctx_tag ctx);
        (if e \<noteq> 0 then Some (msg, 6)
         else do {
           (msg, e) \<leftarrow> setFragDgramOffset full msg (ucast (ctx_offset ctx div 8));
           Some (msg, if e \<noteq> 0 then 7 else 0) }) }) }"

text \<open>The first call for a packet (\<open>ctx->offset == 0\<close>).\<close>

definition frag_first ::
  "bool \<Rightarrow> (in6_addr \<Rightarrow> int) \<Rightarrow> mem \<Rightarrow> u32 \<Rightarrow> ip6_packet \<Rightarrow> ieee154_frame_addr \<Rightarrow> lowpan_ctx \<Rightarrow> nat \<Rightarrow>
     (mem \<times> lowpan_ctx \<times> int) option" where
  "frag_first full match_ctx m len packet frame ctx lowpan_buf = do {
     (m, buf) \<leftarrow> lowpan_pack_headers match_ctx packet frame m lowpan_buf (len - of_nat lowpan_buf);
     (case buf of
        None \<Rightarrow> Some (m, ctx, -1)
      | Some buf \<Rightarrow> do {
          (m, buf, offset) \<leftarrow> pack_nhc_chain m buf (len - of_nat buf) packet;
          (if offset < 0 then Some (m, ctx, -2)
           else do {
             let extra = ntohs (ip6_plen (ip6_hdr packet)) - word_of_int offset;
             (m, buf, extra) \<leftarrow>
               (if ucast extra > len - of_nat buf then do {
                  bs \<leftarrow> rdn m lowpan_buf (buf - lowpan_buf);
                  m \<leftarrow> wrn m (lowpan_buf + LOWMSG_FRAG1_LEN) bs;
                  (m, _) \<leftarrow> in_frame m lowpan_buf (of_nat LOWMSG_FRAG1_LEN) (frag1_header full packet (ctx_tag ctx));
                  let buf = buf + LOWMSG_FRAG1_LEN;
                  let extra = ucast (len - of_nat buf);
                  Some (m, buf, extra - extra mod 8) }
                else Some (m, buf, extra));
             bs \<leftarrow> iov_read (ip6_data packet) offset (uint extra);
             m \<leftarrow> wrn m buf bs;
             (if int (length bs) \<noteq> uint extra then Some (m, ctx, -3)
              else Some (m, ctx\<lparr>ctx_offset := word_of_int offset + extra + of_nat SIZEOF_IP6_HDR\<rparr>,
                         int buf + uint extra)) }) }) }"

text \<open>Every later call.\<close>

definition frag_next ::
  "bool \<Rightarrow> mem \<Rightarrow> u32 \<Rightarrow> ip6_packet \<Rightarrow> lowpan_ctx \<Rightarrow> nat \<Rightarrow> (mem \<times> lowpan_ctx \<times> int) option" where
  "frag_next full m len packet ctx lowpan_buf = do {
     (m, e) \<leftarrow> in_frame m lowpan_buf (of_nat LOWMSG_FRAGN_LEN) (fragn_header full packet ctx);
     (if e \<noteq> 0 then Some (m, ctx, - uint e)
      else do {
        let buf = lowpan_buf + LOWMSG_FRAGN_LEN;
        let extra = dgram_size packet - ctx_offset ctx;
        let extra = (if ucast extra > len - of_nat buf
                     then let x = ucast (len - of_nat buf) in x - x mod 8 else extra);
        bs \<leftarrow> iov_read (ip6_data packet) (uint (ctx_offset ctx) - int SIZEOF_IP6_HDR) (uint extra);
        m \<leftarrow> wrn m buf bs;
        (if int (length bs) \<noteq> uint extra then Some (m, ctx, -4)
         else Some (m, ctx\<lparr>ctx_offset := ctx_offset ctx + extra\<rparr>,
                    if extra = 0 then 0 else int lowpan_buf + int LOWMSG_FRAGN_LEN + uint extra)) }) }"

definition lowpan_frag_get ::
  "bool \<Rightarrow> (in6_addr \<Rightarrow> int) \<Rightarrow> mem \<Rightarrow> u32 \<Rightarrow> ip6_packet \<Rightarrow> ieee154_frame_addr \<Rightarrow> lowpan_ctx \<Rightarrow>
     (mem \<times> lowpan_ctx \<times> int) option" where
  "lowpan_frag_get full match_ctx frag len packet frame ctx = do {
     (m, lowpan_buf) \<leftarrow> pack_ieee154_header frag 0 (unat len) frame;
     (if ctx_offset ctx = 0 then frag_first full match_ctx m len packet frame ctx lowpan_buf
      else do {
        (m, lowpan_buf) \<leftarrow> pack_ieee154_header m 0 (unat len) frame;
        frag_next full m len packet ctx lowpan_buf }) }"

section \<open>The fragmentation headers as bytes\<close>

definition frag1_bytes :: "u16 \<Rightarrow> u16 \<Rightarrow> u8 list" where
  "frag1_bytes sz tag = [size_byte 0xc0 (sz AND 0x7ff), lo8 (sz AND 0x7ff), hi8 tag, lo8 tag]"

definition fragn_bytes :: "u16 \<Rightarrow> u16 \<Rightarrow> u8 \<Rightarrow> u8 list" where
  "fragn_bytes sz tag off = [size_byte 0xe0 (sz AND 0x7ff), lo8 (sz AND 0x7ff), hi8 tag, lo8 tag, off]"

lemma length_frag_bytes [simp]: "length (frag1_bytes sz tag) = 4" "length (fragn_bytes sz tag off) = 5"
  by (simp_all add: frag1_bytes_def fragn_bytes_def)

lemma in_frame_put:
  assumes "f \<lparr>lm_headers = 0, lm_len = n, lm_data = Some (drop lb m)\<rparr> = Some (msg, rv)"
    and "lm_data msg = Some (put (drop lb m) 0 xs)" "lb + length xs \<le> length m"
  shows "in_frame m lb n f = Some (put m lb xs, rv)"
  using assms by (simp add: in_frame_def put_def add.commute)

lemma frag1_header_bytes:
  assumes "4 \<le> length d"
  shows "frag1_header full pkt tag \<lparr>lm_headers = 0, lm_len = 4, lm_data = Some d\<rparr> =
    Some (\<lparr>lm_headers = 4, lm_len = 4, lm_data = Some (put d 0 (frag1_bytes (dgram_size pkt) tag))\<rparr>, 0)"
proof -
  obtain a b c e xs where d: "d = a # b # c # e # xs"
    using assms by (auto simp: Suc_le_length_iff eval_nat_numeral)
  have s: "size_byte 0xc0 (dgram_size pkt AND 0x7ff) \<in> {x. drop_bit 3 x = 0x18}" by simp
  show ?thesis using s
    by (auto simp: d frag1_header_def setupHeaders_def place_header_def and_then_def lowmsg_push wr_def rd_def
        setFragDgramSize_def setFragDgramTag_def frag_base_def hasMeshHeader_def hasBcastHeader_def is_frag_def
        frag1_bytes_def put_def lowmsg_defs Let_def)
qed

lemma fragn_header_bytes:
  assumes "5 \<le> length d"
  shows "fragn_header full pkt ctx \<lparr>lm_headers = 0, lm_len = 5, lm_data = Some d\<rparr> =
    Some (\<lparr>lm_headers = 8, lm_len = 5,
      lm_data = Some (put d 0 (fragn_bytes (dgram_size pkt) (ctx_tag ctx) (ucast (ctx_offset ctx div 8))))\<rparr>, 0)"
proof -
  obtain a b c e g xs where d: "d = a # b # c # e # g # xs"
    using assms by (auto simp: Suc_le_length_iff eval_nat_numeral)
  have s: "size_byte 0xe0 (dgram_size pkt AND 0x7ff) \<in> {x. drop_bit 3 x = 0x1c}" by simp
  show ?thesis using s
    by (auto simp: d fragn_header_def setupHeaders_def place_header_def and_then_def lowmsg_push wr_def rd_def
        setFragDgramSize_def setFragDgramTag_def setFragDgramOffset_def frag_base_def hasMeshHeader_def hasBcastHeader_def
        is_frag_def fragn_bytes_def put_def lowmsg_defs Let_def)
qed

text \<open>What the receiver finds in front of a frame.\<close>

lemma iphc_dispatch:
  assumes "b AND 0xe0 = (0x60 :: u8)"
  shows "drop_bit 6 b = 1" "drop_bit 3 b \<noteq> 0x18" "drop_bit 3 b \<noteq> 0x1c" "b \<noteq> 0x50" "b \<noteq> 0x41"
proof -
  have "drop_bit 5 (b AND 0xe0) = 3" using assms by simp
  moreover have "drop_bit 5 (b AND 0xe0) = drop_bit 5 b"
  proof (rule bit_word_eqI)
    fix n assume "n < LENGTH(8)"
    have e: "(0xe0 :: u8) = push_bit 5 (mask 3)" by (simp add: mask_eq_exp_minus_1)
    show "bit (drop_bit 5 (b AND 0xe0)) n = bit (drop_bit 5 b) n"
      unfolding e using u8_high [of "5 + n" b] by (cases "n < 3") (auto simp: bit_simps)
  qed
  ultimately have 5: "drop_bit 5 b = 3" by simp
  have "drop_bit 6 b = drop_bit 1 (drop_bit 5 b)" by (simp only: drop_bit_drop_bit) simp
  then show "drop_bit 6 b = 1" by (simp add: 5)
  have "drop_bit 5 b = drop_bit 2 (drop_bit 3 b)" by (simp only: drop_bit_drop_bit) simp
  then have 3: "drop_bit 2 x = 3" if "drop_bit 3 b = x" for x using 5 that by (simp only:)
  show "drop_bit 3 b \<noteq> 0x18" "drop_bit 3 b \<noteq> 0x1c" using 3 [of "0x18"] 3 [of "0x1c"] by auto
  show "b \<noteq> 0x50" "b \<noteq> 0x41" using 5 by auto
qed

lemma frag_dispatch:
  "drop_bit 6 (size_byte 0xc0 (s AND 0x7ff)) = 3" "size_byte 0xc0 (s AND 0x7ff) \<noteq> 0x50"
  "drop_bit 6 (size_byte 0xe0 (s AND 0x7ff)) = 3" "size_byte 0xe0 (s AND 0x7ff) \<noteq> 0x50"
proof -
  have k: "drop_bit 6 x = drop_bit 3 (drop_bit 3 x)" for x :: u8 by (simp only: drop_bit_drop_bit) simp
  show a: "drop_bit 6 (size_byte 0xc0 (s AND 0x7ff)) = 3" "drop_bit 6 (size_byte 0xe0 (s AND 0x7ff)) = 3"
    by (simp_all only: k dispatch_kept) simp_all
  have "drop_bit 6 (0x50 :: u8) = 1" by simp
  then have n: "x \<noteq> 0x50" if "drop_bit 6 x = 3" for x :: u8 using that by auto
  show "size_byte 0xc0 (s AND 0x7ff) \<noteq> 0x50" "size_byte 0xe0 (s AND 0x7ff) \<noteq> 0x50"
    by (rule n [OF a(1)], rule n [OF a(2)])
qed

lemma bitmap_iphc:
  assumes "has_at pkt 0 (b # bs)" "b AND 0xe0 = 0x60" "0 < n"
  shows "getHeaderBitmap full \<lparr>lm_headers = h, lm_len = n, lm_data = Some pkt\<rparr> = Some 0"
  using assms iphc_dispatch [OF assms(2)]
  by (simp add: getHeaderBitmap_def note_header_def has_at_Cons rd_def lowmsg_defs Let_def word_less_nat_alt)

lemma bitmap_frag1:
  assumes "has_at pkt 0 (frag1_bytes sz tag @ b # bs)" "b AND 0xe0 = 0x60" "4 \<le> n"
  shows "getHeaderBitmap full \<lparr>lm_headers = h, lm_len = n, lm_data = Some pkt\<rparr> = Some 4"
proof -
  have p: "rd pkt 0 = Some (size_byte 0xc0 (sz AND 0x7ff))" "rd pkt 4 = Some b"
    using assms(1) by (auto simp: frag1_bytes_def has_at_Cons rd_def eval_nat_numeral)
  have n: "4 \<le> uint n" using assms(3) by (simp add: word_le_def)
  show ?thesis using p n iphc_dispatch [OF assms(2)] frag_dispatch [of sz]
    by (simp add: getHeaderBitmap_def note_header_def lowmsg_defs Let_def)
qed

lemma bitmap_fragn:
  assumes "has_at pkt 0 (fragn_bytes sz tag off)" "5 \<le> n"
  shows "getHeaderBitmap full \<lparr>lm_headers = h, lm_len = n, lm_data = Some pkt\<rparr> = Some 8"
proof -
  have p: "rd pkt 0 = Some (size_byte 0xe0 (sz AND 0x7ff))"
    using assms(1) by (auto simp: fragn_bytes_def has_at_Cons rd_def eval_nat_numeral)
  have n: "5 \<le> uint n" using assms(2) by (simp add: word_le_def)
  show ?thesis using p n frag_dispatch [of sz]
    by (simp add: getHeaderBitmap_def note_header_def lowmsg_defs Let_def)
qed

section \<open>Header codecs\<close>

record lowpan_link =
  lk_match :: "in6_addr \<Rightarrow> int"
  lk_read :: "in6_addr \<Rightarrow> int \<Rightarrow> in6_addr \<times> int"
  lk_from :: ieee154_frame_addr
  lk_to :: ieee154_frame_addr

text \<open>What fragmentation needs from header compression: the sender turns the IPv6 header and the
  first \<open>eaten\<close> payload bytes into a chunk, and the receiver turns the chunk back, up to the
  length fields, which \<open>fill_lengths\<close> restores.\<close>

locale header_codec =
  fixes ok :: "lowpan_link \<Rightarrow> ip6_packet \<Rightarrow> bool"
    and chunk :: "lowpan_link \<Rightarrow> ip6_packet \<Rightarrow> u8 list"
    and eaten :: nat
  assumes payload: "ok L pkt \<Longrightarrow> hdr_ok (ip6_hdr pkt) \<and> iov_wf (ip6_data pkt) \<and>
      unat (ntohs (ip6_plen (ip6_hdr pkt))) = length (iov_flat (ip6_data pkt)) \<and> eaten \<le> length (iov_flat (ip6_data pkt))"
    and frames: "ok L pkt \<Longrightarrow> frame_ok (lk_from L)"
    and chunk_bounds: "ok L pkt \<Longrightarrow> length (chunk L pkt) \<le> 47 \<and>
      (\<exists>b bs. chunk L pkt = b # bs \<and> b AND 0xe0 = 0x60)"
    and compress: "ok L pkt \<Longrightarrow> d + length (chunk L pkt) \<le> length m \<Longrightarrow>
      \<exists>m1 b. lowpan_pack_headers (lk_match L) pkt (lk_from L) m d cnt = Some (m1, Some b) \<and>
        (\<forall>cnt'. d + length (chunk L pkt) \<le> b + unat cnt' \<longrightarrow>
           pack_nhc_chain m1 b cnt' pkt = Some (put m d (chunk L pkt), d + length (chunk L pkt), int eaten)) \<and>
        d \<le> b \<and> b \<le> d + length (chunk L pkt)"
    and decompress: "ok L pkt \<Longrightarrow> has_at m s (chunk L pkt @ rest) \<Longrightarrow> 40 + eaten + length rest \<le> n \<Longrightarrow>
      r_app_len recon = None \<Longrightarrow>
      \<exists>th al r. lowpan_unpack_headers (lk_read L) recon (replicate n 0) (lk_to L) m s (length (chunk L pkt) + length rest) =
          Some (recon\<lparr>r_transport_header := th, r_app_len := al\<rparr>, r, Some (40 + eaten + length rest)) \<and>
        (\<forall>recon'. r_size recon' = dgram_size pkt \<and> r_transport_header recon' = th \<and> r_app_len recon' = al \<longrightarrow>
           fill_lengths recon' r = Some (put (replicate n 0) 0
             (ip6_hdr_bytes (ip6_hdr pkt) @ take eaten (iov_flat (ip6_data pkt)) @ rest)))"

section \<open>The two codecs of the code: no compressed next header, and UDP\<close>

definition link_ok :: "lowpan_link \<Rightarrow> ip6_packet \<Rightarrow> bool" where
  "link_ok L pkt \<longleftrightarrow> hdr_ok (ip6_hdr pkt) \<and> version_ok (ip6_hdr pkt) \<and>
     ctx_agree (lk_match L) (lk_read L) (ip6_src (ip6_hdr pkt)) \<and>
     ctx_agree (lk_match L) (lk_read L) (ip6_dst (ip6_hdr pkt)) \<and>
     frame_match (lk_from L) (lk_to L) \<and> iov_wf (ip6_data pkt) \<and>
     unat (ntohs (ip6_plen (ip6_hdr pkt))) = length (iov_flat (ip6_data pkt))"

definition plain_ok :: "lowpan_link \<Rightarrow> ip6_packet \<Rightarrow> bool" where
  "plain_ok L pkt \<longleftrightarrow> link_ok L pkt \<and> \<not> nh_compressed (ip6_nxt (ip6_hdr pkt))"

definition plain_chunk :: "lowpan_link \<Rightarrow> ip6_packet \<Rightarrow> u8 list" where
  "plain_chunk L pkt = iphc_bytes (lk_match L) (lk_from L) (ip6_hdr pkt)"

definition udp_ok :: "lowpan_link \<Rightarrow> ip6_packet \<Rightarrow> bool" where
  "udp_ok L pkt \<longleftrightarrow> link_ok L pkt \<and> ip6_nxt (ip6_hdr pkt) = IANA_UDP \<and> 8 \<le> length (iov_flat (ip6_data pkt)) \<and>
     iov_flat (ip6_data pkt) ! 4 = lo8 (ip6_plen (ip6_hdr pkt)) \<and>
     iov_flat (ip6_data pkt) ! 5 = hi8 (ip6_plen (ip6_hdr pkt))"

definition udp_pkt_chunk :: "lowpan_link \<Rightarrow> ip6_packet \<Rightarrow> u8 list" where
  "udp_pkt_chunk L pkt = plain_chunk L pkt @ udp_chunk (take 8 (iov_flat (ip6_data pkt)))"

lemma dgram_size_plen: "htons (dgram_size pkt - 40) = ip6_plen (ip6_hdr pkt)"
  by (simp add: dgram_size_def SIZEOF_IP6_HDR_def)

lemma plain_pack:
  assumes "link_ok L pkt" "d + length (plain_chunk L pkt) \<le> length m"
  shows "lowpan_pack_headers (lk_match L) pkt (lk_from L) m d cnt =
    Some (put m d (plain_chunk L pkt), Some (d + length (plain_chunk L pkt)))"
  using assms lowpan_pack_headers_chunk [OF _ _ ctx_agree_aligned ctx_agree_aligned]
  by (auto simp: link_ok_def plain_chunk_def)

lemma iphc_bytes_head: "\<exists>b bs. iphc_bytes mc f hdr = b # bs \<and> b AND 0xe0 = 0x60"
  using d0_fields(4) [of hdr] by (simp add: iphc_bytes_def iphc_defs)

lemma plain_chunk_len: "link_ok L pkt \<Longrightarrow> length (plain_chunk L pkt) \<le> 40"
  by (simp add: plain_chunk_def link_ok_def iphc_bytes_le)

lemma length_udp_chunk: "length u = 8 \<Longrightarrow> length (udp_chunk u) = 7"
  by (simp add: udp_chunk_def)

lemma ip6_hdr_bytes_image:
  assumes "hdr_ok hdr" "40 \<le> length r" "nh_flag hdr = 0 \<or> x = ip6_nxt hdr"
  shows "hdr_image (r[4 := lo8 (ip6_plen hdr), 5 := hi8 (ip6_plen hdr), 6 := x]) hdr = ip6_hdr_bytes hdr"
  using assms by (auto simp: hdr_image_def ip6_hdr_bytes_def)

lemma unpack_plain:
  assumes "link_ok L pkt" "has_at m s (plain_chunk L pkt)" "40 \<le> length r"
  shows "unpack_ip6_hdr (lk_read L) r (lk_to L) m s =
    Some (put r 0 (hdr_image r (ip6_hdr pkt)), Some (s + length (plain_chunk L pkt)))"
  using assms unpack_ip6_hdr_chunk unfolding link_ok_def plain_chunk_def by blast


lemma put_at_end: "k = p + length xs \<Longrightarrow> p + length xs + length ys \<le> length m \<Longrightarrow> put (put m p xs) k ys = put m p (xs @ ys)"
  by (simp add: put_put)

lemma unpack_headers_split:
  assumes L: "link_ok L pkt" and h: "has_at m s (plain_chunk L pkt @ rest)" and r: "40 \<le> length r"
  shows "lowpan_unpack_headers (lk_read L) recon r (lk_to L) m s cnt = do {
     (recon, r, dest, buf) \<leftarrow>
       (if nh_flag (ip6_hdr pkt) \<noteq> 0 then do {
          (r, th, al, dest, buf) \<leftarrow> unpack_nhc_chain (put r 0 (hdr_image r (ip6_hdr pkt))) 40 (ucast (r_size recon) - 40) 6 m
             (s + length (plain_chunk L pkt)) (r_app_len recon);
          Some (recon\<lparr>r_transport_header := th, r_app_len := al\<rparr>, r, dest, buf) }
        else Some (recon, put r 0 (hdr_image r (ip6_hdr pkt)), 40, Some (s + length (plain_chunk L pkt))));
     (case buf of
        None \<Rightarrow> Some (recon, r, None)
      | Some buf \<Rightarrow>
          if cnt < buf - s then None
          else do {
            bs \<leftarrow> rdn m buf (cnt - (buf - s));
            r \<leftarrow> wrn r dest bs;
            Some (recon, r, Some (dest + (cnt - (buf - s)))) }) }"
proof -
  have u: "unpack_ip6_hdr (lk_read L) r (lk_to L) m s =
      Some (put r 0 (hdr_image r (ip6_hdr pkt)), Some (s + length (plain_chunk L pkt)))"
    using unpack_plain [OF L _ r] h by (simp add: has_at_append)
  obtain b bs where "plain_chunk L pkt = b # bs" and b: "b = iphc_d0 (ip6_hdr pkt)"
    by (simp add: plain_chunk_def iphc_bytes_def)
  with h have "rd m s = Some b" by (simp add: has_at_Cons rd_def)
  with b have "rd m s = Some (iphc_d0 (ip6_hdr pkt))" by simp
  then show ?thesis by (simp add: lowpan_unpack_headers_def u d0_fields SIZEOF_IP6_HDR_def)
qed

lemma plain_image:
  assumes "hdr_ok hdr" "nh_flag hdr = 0"
  shows "put (hdr_image r hdr @ rest) 4 [lo8 (ip6_plen hdr), hi8 (ip6_plen hdr)] = ip6_hdr_bytes hdr @ rest"
  using assms by (simp add: put_def hdr_image_def ip6_hdr_bytes_def bytes32_def)

lemma plain_decompress:
  assumes ok: "plain_ok L pkt" and h: "has_at m s (plain_chunk L pkt @ rest)" and n: "40 + length rest \<le> n"
  shows "\<exists>r. lowpan_unpack_headers (lk_read L) recon (replicate n 0) (lk_to L) m s (length (plain_chunk L pkt) + length rest) =
        Some (recon, r, Some (40 + length rest)) \<and>
      (\<forall>recon'. r_size recon' = dgram_size pkt \<and> r_app_len recon' = None \<longrightarrow>
         fill_lengths recon' r = Some (put (replicate n 0) 0 (ip6_hdr_bytes (ip6_hdr pkt) @ rest)))"
proof -
  let ?hdr = "ip6_hdr pkt" and ?r = "replicate n 0 :: mem"
  let ?H = "hdr_image ?r ?hdr"
  have L: "link_ok L pkt" and nh: "nh_flag ?hdr = 0" and hk: "hdr_ok ?hdr"
    using ok by (auto simp: plain_ok_def nh_flag_def nh_compressed_def link_ok_def)
  have lH: "length ?H = 40" using hk by (rule length_hdr_image)
  have bs: "rdn m (s + length (plain_chunk L pkt)) (length rest) = Some rest"
    using h by (simp add: has_at_append rdn_has_at)
  have w: "wrn (put ?r 0 ?H) 40 rest = Some (put ?r 0 (?H @ rest))"
    using n lH by (simp add: wrn_def put_at_end)
  have f: "wr16 (put ?r 0 (?H @ rest)) 4 (ip6_plen ?hdr) = Some (put ?r 0 (ip6_hdr_bytes ?hdr @ rest))"
    using wr16_inside [of 4 "?H @ rest" 0 ?r "ip6_plen ?hdr"] n lH plain_image [OF hk nh, of ?r rest] by simp
  show ?thesis
    using n nh bs w f dgram_size_plen [of pkt]
    by (simp add: unpack_headers_split [OF L h] fill_lengths_def SIZEOF_IP6_HDR_def)
qed


lemma udp_image:
  assumes "hdr_ok hdr" "ip6_nxt hdr = IANA_UDP" "length u = 8" "u ! 4 = lo8 (ip6_plen hdr)" "u ! 5 = hi8 (ip6_plen hdr)"
  shows "put (put ((hdr_image r hdr)[6 := IANA_UDP] @ (take 4 u @ [0, 0] @ drop 6 u) @ rest) 4 [lo8 (ip6_plen hdr), hi8 (ip6_plen hdr)])
      44 [lo8 (ip6_plen hdr), hi8 (ip6_plen hdr)] = ip6_hdr_bytes hdr @ u @ rest"
proof -
  obtain a b c d e f g h where u: "u = [a, b, c, d, e, f, g, h]"
    using assms(3) by (auto simp: length_Suc_ex eval_nat_numeral)
  have 1: "put ((hdr_image r hdr)[6 := IANA_UDP] @ x) 4 [lo8 (ip6_plen hdr), hi8 (ip6_plen hdr)] = ip6_hdr_bytes hdr @ x" for x
    using assms(2) by (simp add: put_def hdr_image_def ip6_hdr_bytes_def bytes32_def)
  have "put (ip6_hdr_bytes hdr @ x) (40 + k) y = ip6_hdr_bytes hdr @ put x k y" for x k y
    using length_ip6_hdr_bytes [OF assms(1)] by (simp add: put_def SIZEOF_IP6_HDR_def)
  from this [of _ 4] show ?thesis using assms(4,5) using length_ip6_hdr_bytes [OF assms(1)]
    by (simp only: 1) (simp add: u put_def SIZEOF_IP6_HDR_def)
qed

lemma nhc_udp_step:
  assumes h: "has_at m p (udp_chunk u)" and u: "length u = 8" and r: "48 \<le> length r"
  shows "unpack_nhc_chain r 40 cnt 6 m p al =
    Some (put (r[6 := IANA_UDP]) 40 (take 4 u @ [0, 0] @ drop 6 u), 40, Some 44, 48, Some (p + 7))"
proof -
  have d: "rd m p = Some 0xf0" using h by (simp add: udp_chunk_def has_at_Cons rd_def)
  have x: "unpack_ipnh r 40 cnt 6 m p = Some (put (r[6 := IANA_UDP]) 40 (take 4 u @ [0, 0] @ drop 6 u), Some (p + 7))"
    using unpack_udp_chunk [OF h u, of 40 r 6] r by (simp add: unpack_ipnh_def d nhc_defs)
  show ?thesis by (subst unpack_nhc_chain.simps) (simp add: d x nhc_defs)
qed

lemma udp_decompress:
  assumes ok: "udp_ok L pkt" and h: "has_at m s (udp_pkt_chunk L pkt @ rest)" and n: "48 + length rest \<le> n"
  shows "\<exists>r. lowpan_unpack_headers (lk_read L) recon (replicate n 0) (lk_to L) m s (length (udp_pkt_chunk L pkt) + length rest) =
        Some (recon\<lparr>r_transport_header := 40, r_app_len := Some 44\<rparr>, r, Some (48 + length rest)) \<and>
      (\<forall>recon'. r_size recon' = dgram_size pkt \<and> r_transport_header recon' = 40 \<and> r_app_len recon' = Some 44 \<longrightarrow>
         fill_lengths recon' r = Some (put (replicate n 0) 0
           (ip6_hdr_bytes (ip6_hdr pkt) @ take 8 (iov_flat (ip6_data pkt)) @ rest)))"
proof -
  let ?hdr = "ip6_hdr pkt" and ?r = "replicate n 0 :: mem" and ?u = "take 8 (iov_flat (ip6_data pkt))"
  let ?H = "(hdr_image ?r ?hdr)[6 := IANA_UDP]" and ?U = "take 4 ?u @ [0, 0] @ drop 6 ?u"
  have L: "link_ok L pkt" and nh: "nh_flag ?hdr \<noteq> 0" and hk: "hdr_ok ?hdr" and nx: "ip6_nxt ?hdr = IANA_UDP"
    and u: "length ?u = 8" "?u ! 4 = lo8 (ip6_plen ?hdr)" "?u ! 5 = hi8 (ip6_plen ?hdr)"
    using ok by (auto simp: udp_ok_def nh_flag_def link_ok_def iphc_defs)
  have lH: "length ?H = 40" using hk by (simp add: length_hdr_image)
  have h1: "has_at m s (plain_chunk L pkt @ udp_chunk ?u @ rest)" using h by (simp add: udp_pkt_chunk_def)
  then have hu: "has_at m (s + length (plain_chunk L pkt)) (udp_chunk ?u)" by (simp add: has_at_append)
  have bs: "rdn m (s + length (plain_chunk L pkt) + 7) (length rest) = Some rest"
    using h1 length_udp_chunk [OF u(1)] by (simp add: has_at_append rdn_has_at add.assoc)
  have six: "(put ?r 0 (hdr_image ?r ?hdr))[6 := IANA_UDP] = put ?r 0 ?H"
    using wr_inside [of 6 "hdr_image ?r ?hdr" 0 ?r IANA_UDP] n lH by (simp add: wr_def)
  have c: "unpack_nhc_chain (put ?r 0 (hdr_image ?r ?hdr)) 40 cnt 6 m (s + length (plain_chunk L pkt)) al =
      Some (put ?r 0 (?H @ ?U), 40, Some 44, 48, Some (s + length (plain_chunk L pkt) + 7))" for cnt al
    using nhc_udp_step [OF hu u(1), of "put ?r 0 (hdr_image ?r ?hdr)" cnt al] n lH u(1) six
    by (simp add: put_at_end)
  have w: "wrn (put ?r 0 (?H @ ?U)) 48 rest = Some (put ?r 0 (?H @ ?U @ rest))"
    using n lH u(1) by (simp add: wrn_def put_at_end)
  have "wr16 (put ?r 0 (?H @ ?U @ rest)) 4 (ip6_plen ?hdr) =
      Some (put ?r 0 (put (?H @ ?U @ rest) 4 [lo8 (ip6_plen ?hdr), hi8 (ip6_plen ?hdr)]))"
    using wr16_inside [of 4 "?H @ ?U @ rest" 0 ?r "ip6_plen ?hdr"] n lH u(1) by simp
  moreover have "wr16 (put ?r 0 (put (?H @ ?U @ rest) 4 [lo8 (ip6_plen ?hdr), hi8 (ip6_plen ?hdr)])) 44 (ip6_plen ?hdr) =
      Some (put ?r 0 (ip6_hdr_bytes ?hdr @ ?u @ rest))"
    using wr16_inside [of 44 "put (?H @ ?U @ rest) 4 [lo8 (ip6_plen ?hdr), hi8 (ip6_plen ?hdr)]" 0 ?r "ip6_plen ?hdr"]
      n lH u(1) udp_image [OF hk nx u, of ?r rest] by simp
  ultimately show ?thesis
    using n nh bs w c dgram_size_plen [of pkt] length_udp_chunk [OF u(1)]
    by (simp add: unpack_headers_split [OF L h1] udp_pkt_chunk_def fill_lengths_def SIZEOF_IP6_HDR_def)
qed

lemma plain_compress:
  assumes "plain_ok L pkt" "d + length (plain_chunk L pkt) \<le> length m"
  shows "pack_nhc_chain (put m d (plain_chunk L pkt)) (d + length (plain_chunk L pkt)) cnt pkt =
    Some (put m d (plain_chunk L pkt), d + length (plain_chunk L pkt), 0)"
  using assms by (simp add: pack_nhc_chain_def nhc_loop.simps plain_ok_def nh_compressed_def)

lemma udp_compress:
  assumes ok: "udp_ok L pkt" and fit: "d + length (udp_pkt_chunk L pkt) \<le> length m" and c: "7 \<le> cnt"
  shows "pack_nhc_chain (put m d (plain_chunk L pkt)) (d + length (plain_chunk L pkt)) cnt pkt =
    Some (put m d (udp_pkt_chunk L pkt), d + length (udp_pkt_chunk L pkt), 8)"
proof -
  let ?p = "d + length (plain_chunk L pkt)"
  have l: "8 \<le> length (iov_flat (ip6_data pkt))" and w: "iov_wf (ip6_data pkt)" and nx: "ip6_nxt (ip6_hdr pkt) = IANA_UDP"
    using ok by (auto simp: udp_ok_def link_ok_def)
  have lc: "length (udp_chunk (take 8 (iov_flat (ip6_data pkt)))) = 7" using l by (intro length_udp_chunk) simp
  have "pack_udp (put m d (plain_chunk L pkt)) ?p cnt (ip6_data pkt) 0 = Some (put m d (udp_pkt_chunk L pkt), 7)"
    using pack_udp_chunk [OF w, of 0 cnt ?p d "plain_chunk L pkt" m] l c fit lc by (simp add: udp_pkt_chunk_def)
  then show ?thesis
    using nx lc by (simp add: pack_nhc_chain_def nhc_loop.simps compressible_ext_def proto_defs udp_pkt_chunk_def)
qed


interpretation plain: header_codec plain_ok plain_chunk 0
proof (unfold_locales, goal_cases)
  case (1 L pkt) then show ?case by (simp add: plain_ok_def link_ok_def)
next
  case (2 L pkt) then show ?case by (simp add: plain_ok_def link_ok_def frame_match_def)
next
  case (3 L pkt)
  then show ?case using plain_chunk_len [of L pkt] iphc_bytes_head [of "lk_match L" "lk_from L" "ip6_hdr pkt"]
    by (simp add: plain_ok_def plain_chunk_def)
next
  case (4 L pkt d m cnt)
  then show ?case using plain_pack [of L pkt d m cnt] plain_compress [of L pkt d m]
    by (simp add: plain_ok_def)
next
  case (5 L pkt m s rest n recon)
  obtain r where "lowpan_unpack_headers (lk_read L) recon (replicate n 0) (lk_to L) m s (length (plain_chunk L pkt) + length rest) =
        Some (recon, r, Some (40 + length rest))"
      "\<And>recon'. r_size recon' = dgram_size pkt \<Longrightarrow> r_app_len recon' = None \<Longrightarrow>
         fill_lengths recon' r = Some (put (replicate n 0) 0 (ip6_hdr_bytes (ip6_hdr pkt) @ rest))"
    using plain_decompress [OF 5(1,2), of n recon] 5(3) by auto
  moreover have "recon = recon\<lparr>r_transport_header := r_transport_header recon, r_app_len := None\<rparr>"
    using 5(4) by (cases recon) simp
  ultimately show ?case by (intro exI [of _ "r_transport_header recon"] exI [of _ None] exI [of _ r]) auto
qed

lemma udp_chunk_bounds: "udp_ok L pkt \<Longrightarrow> length (udp_pkt_chunk L pkt) = length (plain_chunk L pkt) + 7"
  by (auto simp: udp_pkt_chunk_def udp_ok_def intro!: length_udp_chunk)

interpretation udp: header_codec udp_ok udp_pkt_chunk 8
proof (unfold_locales, goal_cases)
  case (1 L pkt) then show ?case by (simp add: udp_ok_def link_ok_def)
next
  case (2 L pkt) then show ?case by (simp add: udp_ok_def link_ok_def frame_match_def)
next
  case (3 L pkt)
  then have "link_ok L pkt" by (simp add: udp_ok_def)
  with 3 show ?case using plain_chunk_len [of L pkt] udp_chunk_bounds [of L pkt]
      iphc_bytes_head [of "lk_match L" "lk_from L" "ip6_hdr pkt"]
    by (auto simp: udp_pkt_chunk_def plain_chunk_def)
next
  case (4 L pkt d m cnt)
  have p: "lowpan_pack_headers (lk_match L) pkt (lk_from L) m d cnt =
      Some (put m d (plain_chunk L pkt), Some (d + length (plain_chunk L pkt)))"
    using plain_pack [of L pkt d m cnt] 4 udp_chunk_bounds [OF 4(1)] by (simp add: udp_ok_def)
  show ?case using p udp_compress [OF 4] udp_chunk_bounds [OF 4(1)]
    by (auto simp: word_le_nat_alt)
next
  case (5 L pkt m s rest n recon)
  show ?case using udp_decompress [OF 5(1,2), of n recon] 5(3) by auto
qed

section \<open>What the sender writes\<close>

lemma unat_of_nat_le:
  fixes w :: "'a::len word"
  assumes "n \<le> unat w"
  shows "unat (of_nat n :: 'a word) = n" "(of_nat n :: 'a word) \<le> w"
proof -
  have "unat w < 2 ^ LENGTH('a)" by (rule unsigned_less)
  with assms have "n < 2 ^ LENGTH('a)" by linarith
  then show "unat (of_nat n :: 'a word) = n" by (simp add: unsigned_of_nat take_bit_nat_eq_self)
  with assms show "(of_nat n :: 'a word) \<le> w" by (simp add: word_le_nat_alt)
qed

lemma unat_ucast_32_16 [simp]: "unat (ucast (x :: u16) :: u32) = unat x"
proof -
  have "unat x < 2 ^ LENGTH(16)" by (rule unsigned_less)
  then show ?thesis by (simp add: unsigned_ucast_eq take_bit_nat_eq_self)
qed

lemma unat_minus_of_nat: "n \<le> unat w \<Longrightarrow> unat (w - of_nat n) = unat w - n"
  using unat_sub [of "of_nat n" w] unat_of_nat_le [of n w] by simp

lemma less_minus_of_nat: "n \<le> unat w \<Longrightarrow> (x < w - of_nat n) = (unat x < unat w - n)"
  by (simp add: word_less_nat_alt unat_minus_of_nat)

lemma unat_of_nat16: "n < 65536 \<Longrightarrow> unat (of_nat n :: u16) = n"
  by (simp add: unsigned_of_nat take_bit_nat_eq_self)

lemma word16_eqI: "unat (a :: u16) = n \<Longrightarrow> a = of_nat n"
  by auto

text \<open>The room left in the frame, rounded down to whole blocks of eight.\<close>

definition blocks8 :: "nat \<Rightarrow> nat" where
  "blocks8 n = n - n mod 8"

lemma blocks8_le: "blocks8 n \<le> n" "8 dvd blocks8 n"
  by (simp_all add: blocks8_def dvd_minus_mod)

lemma unat_blocks8: "unat (x - x mod 8 :: u16) = blocks8 (unat x)"
proof -
  have "x mod 8 \<le> x" by (simp add: word_le_nat_alt unat_mod)
  then show ?thesis by (simp add: unat_sub unat_mod blocks8_def)
qed

definition packet_image :: "ip6_packet \<Rightarrow> u8 list" where
  "packet_image pkt = ip6_hdr_bytes (ip6_hdr pkt) @ iov_flat (ip6_data pkt)"

context header_codec
begin

abbreviation (input) flat :: "ip6_packet \<Rightarrow> u8 list" where
  "flat pkt \<equiv> iov_flat (ip6_data pkt)"

lemma unat_dgram: "ok L pkt \<Longrightarrow> length (packet_image pkt) < 65536 \<Longrightarrow>
    unat (dgram_size pkt) = length (packet_image pkt)"
  using payload [of L pkt] length_ip6_hdr_bytes [of "ip6_hdr pkt"]
  by (simp add: dgram_size_def packet_image_def SIZEOF_IP6_HDR_def unat_word_ariths)

lemma length_image: "ok L pkt \<Longrightarrow> length (packet_image pkt) = 40 + length (flat pkt)"
  using payload [of L pkt] length_ip6_hdr_bytes [of "ip6_hdr pkt"] by (simp add: packet_image_def SIZEOF_IP6_HDR_def)

lemma read_part:
  assumes "ok L pkt" "i + k \<le> length (flat pkt)"
  shows "iov_read (ip6_data pkt) (int i) (int k) = Some (take k (drop i (flat pkt)))"
  using assms payload [of L pkt] iov_read_flat [of "ip6_data pkt" "int i" "int k"] by simp

lemma packed:
  assumes ok: "ok L pkt" and fit: "lb + length (chunk L pkt) \<le> unat len" "unat len \<le> length m"
  obtains m1 b where "lowpan_pack_headers (lk_match L) pkt (lk_from L) m lb (len - of_nat lb) = Some (m1, Some b)"
    "pack_nhc_chain m1 b (len - of_nat b) pkt = Some (put m lb (chunk L pkt), lb + length (chunk L pkt), int eaten)"
proof -
  obtain m1 b where 1: "lowpan_pack_headers (lk_match L) pkt (lk_from L) m lb (len - of_nat lb) = Some (m1, Some b)"
    "\<And>cnt'. lb + length (chunk L pkt) \<le> b + unat cnt' \<Longrightarrow>
       pack_nhc_chain m1 b cnt' pkt = Some (put m lb (chunk L pkt), lb + length (chunk L pkt), int eaten)"
    "b \<le> lb + length (chunk L pkt)"
    using compress [OF ok, of lb m "len - of_nat lb"] fit by auto
  have "lb + length (chunk L pkt) \<le> b + unat (len - of_nat b)"
    using 1(3) fit by (simp add: unat_minus_of_nat)
  with 1 that show ?thesis by blast
qed

lemma extra_eaten: "ok L pkt \<Longrightarrow>
    unat (ntohs (ip6_plen (ip6_hdr pkt)) - of_nat eaten) = length (flat pkt) - eaten"
  using payload [of L pkt] by (simp add: unat_minus_of_nat)

lemma send_whole:
  assumes ok: "ok L pkt" and fit: "lb + length (chunk L pkt) + (length (flat pkt) - eaten) \<le> unat len" "unat len \<le> length m"
    and small: "length (packet_image pkt) < 65536"
  shows "frag_first full (lk_match L) m len pkt (lk_from L) ctx lb =
    Some (put m lb (chunk L pkt @ drop eaten (flat pkt)), ctx\<lparr>ctx_offset := dgram_size pkt\<rparr>,
      int (lb + length (chunk L pkt) + (length (flat pkt) - eaten)))"
proof -
  have f: "lb + length (chunk L pkt) \<le> unat len" using fit by linarith
  obtain m1 b where pk: "lowpan_pack_headers (lk_match L) pkt (lk_from L) m lb (len - of_nat lb) = Some (m1, Some b)"
    "pack_nhc_chain m1 b (len - of_nat b) pkt = Some (put m lb (chunk L pkt), lb + length (chunk L pkt), int eaten)"
    by (rule packed [OF ok f fit(2)])
  have e: "eaten \<le> length (flat pkt)" "unat (ntohs (ip6_plen (ip6_hdr pkt))) = length (flat pkt)"
    using payload [OF ok] by auto
  define x where "x = ntohs (ip6_plen (ip6_hdr pkt)) - of_nat eaten"
  have x: "unat x = length (flat pkt) - eaten" unfolding x_def by (rule extra_eaten [OF ok])
  have no: "\<not> len - of_nat (lb + length (chunk L pkt)) < ucast x"
    using x fit f by (simp add: word_less_nat_alt unat_minus_of_nat del: of_nat_add)
  have ux: "uint x = int (length (flat pkt) - eaten)" using x by (metis uint_nat)
  have rd: "iov_read (ip6_data pkt) (int eaten) (uint x) = Some (drop eaten (flat pkt))"
    using read_part [OF ok, of eaten "length (flat pkt) - eaten"] e(1) by (simp add: ux del: of_nat_diff)
  have wr: "wrn (put m lb (chunk L pkt)) (lb + length (chunk L pkt)) (drop eaten (flat pkt)) =
      Some (put m lb (chunk L pkt @ drop eaten (flat pkt)))"
    using fit by (simp add: wrn_def put_put)
  have o: "of_nat eaten + x + of_nat SIZEOF_IP6_HDR = dgram_size pkt"
    by (simp add: x_def dgram_size_def)
  show ?thesis using pk no rd wr o e(1)
    by (simp add: frag_first_def x_def [symmetric] Let_def ux del: of_nat_add of_nat_diff)
qed

lemma overlay:
  assumes "length h = 4" "lb + 4 + length c \<le> length m"
  shows "put (put (put m lb c) (lb + 4) c) lb h = put m lb (h @ c)"
  using assms by (intro nth_equalityI) (auto simp: put_nth nth_append)

text \<open>The first frame of a packet that does not fit one frame; the frame has room for the
  header chunk and the four bytes of the fragmentation header.\<close>

lemma send_first:
  assumes ok: "ok L pkt" and fit: "lb + length (chunk L pkt) + 4 \<le> unat len" "unat len \<le> length m" "unat len < 65536"
    and big: "unat len < lb + length (chunk L pkt) + (length (flat pkt) - eaten)"
    and k: "k = blocks8 (unat len - (lb + length (chunk L pkt) + 4))"
  shows "frag_first full (lk_match L) m len pkt (lk_from L) ctx lb =
    Some (put m lb (frag1_bytes (dgram_size pkt) (ctx_tag ctx) @ chunk L pkt @ take k (drop eaten (flat pkt))),
      ctx\<lparr>ctx_offset := of_nat (40 + eaten + k)\<rparr>, int (lb + 4 + length (chunk L pkt) + k))"
proof -
  let ?c = "chunk L pkt" and ?h = "frag1_bytes (dgram_size pkt) (ctx_tag ctx)"
  let ?b = "lb + length ?c + 4"
  have f: "lb + length ?c \<le> unat len" using fit by linarith
  obtain m1 b where pk: "lowpan_pack_headers (lk_match L) pkt (lk_from L) m lb (len - of_nat lb) = Some (m1, Some b)"
    "pack_nhc_chain m1 b (len - of_nat b) pkt = Some (put m lb ?c, lb + length ?c, int eaten)"
    by (rule packed [OF ok f fit(2)])
  define x where "x = ntohs (ip6_plen (ip6_hdr pkt)) - of_nat eaten"
  have x: "unat x = length (flat pkt) - eaten" unfolding x_def by (rule extra_eaten [OF ok])
  have yes: "len - of_nat (lb + length ?c) < ucast x"
    using x big f by (simp add: word_less_nat_alt unat_minus_of_nat del: of_nat_add)
  define y where "y = (ucast (len - of_nat ?b) :: u16)"
  have "unat (len - of_nat ?b) = unat len - ?b" using fit(1) by (rule unat_minus_of_nat)
  then have y: "unat y = unat len - ?b" unfolding y_def using fit(3) by (simp add: unsigned_ucast_eq take_bit_nat_eq_self)
  define z where "z = y - y mod 8"
  have z: "unat z = k" unfolding z_def by (simp add: unat_blocks8 y k)
  have kb: "k \<le> unat len - ?b" using blocks8_le(1) k by simp
  then have kn: "eaten + k \<le> length (flat pkt)" using big fit(1) by linarith
  have uz: "uint z = int k" using z by (metis uint_nat)
  have rd: "iov_read (ip6_data pkt) (int eaten) (int k) = Some (take k (drop eaten (flat pkt)))"
    using read_part [OF ok kn] .
  have fc: "frag1_header full pkt (ctx_tag ctx) \<lparr>lm_headers = 0, lm_len = 4, lm_data = Some (drop lb m')\<rparr> =
      Some (\<lparr>lm_headers = 4, lm_len = 4, lm_data = Some (put (drop lb m') 0 ?h)\<rparr>, 0)" if "length m' = length m" for m'
    using fit that by (intro frag1_header_bytes) simp
  have fr: "in_frame (put (put m lb ?c) (lb + 4) ?c) lb 4 (frag1_header full pkt (ctx_tag ctx)) =
      Some (put m lb (?h @ ?c), 0)"
  proof -
    have "in_frame (put (put m lb ?c) (lb + 4) ?c) lb 4 (frag1_header full pkt (ctx_tag ctx)) =
        Some (put (put (put m lb ?c) (lb + 4) ?c) lb ?h, 0)"
      by (rule in_frame_put [where msg = "\<lparr>lm_headers = 4, lm_len = 4, lm_data = Some (put (drop lb
            (put (put m lb ?c) (lb + 4) ?c)) 0 ?h)\<rparr>"]) (use fit in \<open>simp_all add: fc\<close>)
    then show ?thesis using fit overlay [of ?h lb ?c m] by simp
  qed
  have mv: "rdn (put m lb ?c) lb (length ?c) = Some ?c"
    "wrn (put m lb ?c) (lb + 4) ?c = Some (put (put m lb ?c) (lb + 4) ?c)"
    using fit by (simp_all add: rdn_inside wrn_def)
  have wr: "wrn (put m lb (?h @ ?c)) ?b (take k (drop eaten (flat pkt))) = Some (put m lb (?h @ ?c @ take k (drop eaten (flat pkt))))"
    using fit kb kn by (simp add: wrn_def put_at_end)
  have o: "of_nat eaten + z + of_nat SIZEOF_IP6_HDR = of_nat (40 + eaten + k)"
    using word16_eqI [OF z] by (simp add: SIZEOF_IP6_HDR_def)
  show ?thesis using pk yes mv fr rd wr o kn
    by (simp add: frag_first_def x_def [symmetric] Let_def lowmsg_defs y_def [symmetric] z_def [symmetric] uz
      del: of_nat_add of_nat_diff)
qed

definition next_size :: "nat \<Rightarrow> nat \<Rightarrow> nat" where
  "next_size left room = (if room < left then blocks8 room else left)"

lemma next_size_le: "next_size left room \<le> left" "next_size left room \<le> room"
  using blocks8_le(1) [of room] by (auto simp: next_size_def)

lemma next_size_pos: "0 < left \<Longrightarrow> 8 \<le> room \<Longrightarrow> 0 < next_size left room"
  by (simp add: next_size_def blocks8_def) (metis mod_less_divisor less_le_trans zero_less_numeral)

text \<open>A later frame.\<close>

lemma send_next:
  assumes ok: "ok L pkt" and small: "length (packet_image pkt) < 65536"
    and fit: "lb + 5 \<le> unat len" "unat len \<le> length m" "unat len < 65536"
    and o: "40 \<le> unat (ctx_offset ctx)" "unat (ctx_offset ctx) \<le> length (packet_image pkt)"
    and k: "k = next_size (length (packet_image pkt) - unat (ctx_offset ctx)) (unat len - (lb + 5))"
  shows "frag_next full m len pkt ctx lb =
    Some (put m lb (fragn_bytes (dgram_size pkt) (ctx_tag ctx) (ucast (ctx_offset ctx div 8)) @
        take k (drop (unat (ctx_offset ctx)) (packet_image pkt))),
      ctx\<lparr>ctx_offset := of_nat (unat (ctx_offset ctx) + k)\<rparr>, if k = 0 then 0 else int (lb + 5 + k))"
proof -
  let ?o = "unat (ctx_offset ctx)" and ?h = "fragn_bytes (dgram_size pkt) (ctx_tag ctx) (ucast (ctx_offset ctx div 8))"
  define x where "x = dgram_size pkt - ctx_offset ctx"
  have "ctx_offset ctx \<le> dgram_size pkt" using o(2) unat_dgram [OF ok small] by (simp add: word_le_nat_alt)
  then have x: "unat x = length (packet_image pkt) - ?o"
    by (simp add: x_def unat_sub unat_dgram [OF ok small])
  define y where "y = (ucast (len - of_nat (lb + 5)) :: u16)"
  have r: "unat (len - of_nat (lb + 5)) = unat len - (lb + 5)" using fit(1) by (rule unat_minus_of_nat)
  then have y: "unat y = unat len - (lb + 5)" unfolding y_def using fit(3) by (simp add: unsigned_ucast_eq take_bit_nat_eq_self)
  define z where "z = (if len - of_nat (lb + 5) < ucast x then y - y mod 8 else x)"
  have z: "unat z = k"
    using x r by (simp add: z_def k next_size_def word_less_nat_alt unat_blocks8 y del: of_nat_add)
  have uz: "uint z = int k" using z by (metis uint_nat)
  have zz: "z = 0 \<longleftrightarrow> k = 0" using z by (simp add: unat_eq_zero [symmetric])
  have kl: "k \<le> length (packet_image pkt) - ?o" "k \<le> unat len - (lb + 5)" using next_size_le k by auto
  have p: "take k (drop ?o (packet_image pkt)) = take k (drop (?o - 40) (flat pkt))"
    using o(1) payload [OF ok] length_ip6_hdr_bytes [of "ip6_hdr pkt"] by (simp add: packet_image_def SIZEOF_IP6_HDR_def)
  have "iov_read (ip6_data pkt) (int (?o - 40)) (int k) = Some (take k (drop ?o (packet_image pkt)))"
    unfolding p using kl(1) o length_image [OF ok] by (intro read_part [OF ok]) linarith
  then have rd: "iov_read (ip6_data pkt) (uint (ctx_offset ctx) - int SIZEOF_IP6_HDR) (int k) =
      Some (take k (drop ?o (packet_image pkt)))"
    using o(1) by (simp add: SIZEOF_IP6_HDR_def of_nat_diff)
  have fr: "in_frame m lb 5 (fragn_header full pkt ctx) = Some (put m lb ?h, 0)"
    by (rule in_frame_put [where msg = "\<lparr>lm_headers = 8, lm_len = 5, lm_data = Some (put (drop lb m) 0 ?h)\<rparr>"])
      (use fit in \<open>simp_all add: fragn_header_bytes\<close>)
  have lt: "length (take k (drop ?o (packet_image pkt))) = k" using kl(1) by simp
  have wr: "wrn (put m lb ?h) (lb + 5) (take k (drop ?o (packet_image pkt))) =
      Some (put m lb (?h @ take k (drop ?o (packet_image pkt))))"
    using fit kl(2) lt by (simp add: wrn_def put_at_end)
  have of: "ctx_offset ctx + z = of_nat (?o + k)" using word16_eqI [OF z] by simp
  have "frag_next full m len pkt ctx lb = do {
     (m, e) \<leftarrow> in_frame m lb (of_nat 5) (fragn_header full pkt ctx);
     (if e \<noteq> 0 then Some (m, ctx, - uint e)
      else do {
        bs \<leftarrow> iov_read (ip6_data pkt) (uint (ctx_offset ctx) - int SIZEOF_IP6_HDR) (uint z);
        m \<leftarrow> wrn m (lb + 5) bs;
        (if int (length bs) \<noteq> uint z then Some (m, ctx, -4)
         else Some (m, ctx\<lparr>ctx_offset := ctx_offset ctx + z\<rparr>,
                    if z = 0 then 0 else int lb + int 5 + uint z)) }) }"
    by (simp only: frag_next_def x_def y_def z_def Let_def lowmsg_defs)
  moreover have "uint (of_nat k :: u16) = int k" "(of_nat k :: u16) = 0 \<longleftrightarrow> k = 0"
    using uz zz word16_eqI [OF z] by simp_all
  ultimately show ?thesis using fr rd wr of lt
    by (simp add: uz zz del: of_nat_diff)
qed

end

section \<open>What the receiver rebuilds\<close>

lemma frag1_getters:
  assumes "has_at F 0 (frag1_bytes sz tag)"
  shows "getFragDgramTag full True \<lparr>lm_headers = 4, lm_len = n, lm_data = Some F\<rparr> = Some (0, Some tag)"
    "getFragDgramSize full True \<lparr>lm_headers = 4, lm_len = n, lm_data = Some F\<rparr> = Some (0, Some (sz AND 0x7ff))"
proof -
  have r: "rd F 0 = Some (size_byte 0xc0 (sz AND 0x7ff))" "rd F 1 = Some (lo8 (sz AND 0x7ff))"
    "rd F 2 = Some (hi8 tag)" "rd F 3 = Some (lo8 tag)"
    using assms by (auto simp: frag1_bytes_def has_at_Cons rd_def eval_nat_numeral)
  have b: "frag_base full \<lparr>lm_headers = 4, lm_len = n, lm_data = Some F\<rparr> = 0"
    by (simp add: frag_base_def hasMeshHeader_def hasBcastHeader_def lowmsg_defs)
  have f: "is_frag (size_byte 0xc0 (sz AND 0x7ff))" by (simp add: is_frag_def lowmsg_defs)
  show "getFragDgramTag full True \<lparr>lm_headers = 4, lm_len = n, lm_data = Some F\<rparr> = Some (0, Some tag)"
    "getFragDgramSize full True \<lparr>lm_headers = 4, lm_len = n, lm_data = Some F\<rparr> = Some (0, Some (sz AND 0x7ff))"
    using r f by (simp_all add: getFragDgramTag_def getFragDgramSize_def b rd16_def Let_def eval_nat_numeral)
qed

lemma size_keep: "unat sz < 2048 \<Longrightarrow> sz AND 0x7ff = (sz :: u16)"
proof -
  assume "unat sz < 2048"
  then have "unat (size_norm sz) = unat sz" by (simp add: unat_size_norm)
  then show ?thesis by (simp add: size_norm_def word_unat_eq_iff)
qed

lemma small_len: "unat (len :: u32) \<le> 255 \<Longrightarrow> unat (ucast len :: u8) = unat len"
  by (simp add: unsigned_ucast_eq take_bit_nat_eq_self)

lemma unat_minus_num: "unat len = a + n \<Longrightarrow> unat ((len :: u32) - of_nat a) = n"
  by (simp add: unat_minus_of_nat)

context header_codec
begin

lemma image_parts: "ok L pkt \<Longrightarrow>
    ip6_hdr_bytes (ip6_hdr pkt) @ take eaten (flat pkt) @ take k (drop eaten (flat pkt)) = take (40 + eaten + k) (packet_image pkt)"
  using payload [of L pkt] length_ip6_hdr_bytes [of "ip6_hdr pkt"]
  by (simp add: packet_image_def SIZEOF_IP6_HDR_def take_add add.assoc)

lemma fetched:
  assumes ok: "ok L pkt" and h: "has_at F s (chunk L pkt @ rest)" and rest: "rest = take k (drop eaten (flat pkt))"
    and k: "eaten + k \<le> length (flat pkt)" and n: "40 + eaten + k \<le> n" and al: "r_app_len recon = None"
    and len: "unat len = length (chunk L pkt) + k"
  shows "\<exists>th al r. recon_unpack (lk_read L) recon (replicate n 0) (lk_to L) F s len =
        Some (recon\<lparr>r_transport_header := th, r_app_len := al\<rparr>, r, Some (40 + eaten + k)) \<and>
      (\<forall>recon'. r_size recon' = dgram_size pkt \<and> r_transport_header recon' = th \<and> r_app_len recon' = al \<longrightarrow>
         fill_lengths recon' r = Some (put (replicate n 0) 0 (take (40 + eaten + k) (packet_image pkt))))"
proof -
  have lr: "length rest = k" using rest k by simp
  obtain b bs where c: "chunk L pkt = b # bs" "b AND 0xe0 = 0x60" using chunk_bounds [OF ok] by auto
  have "rd F s = Some b" using h c(1) by (simp add: has_at_Cons rd_def)
  moreover have "b \<noteq> LOWPAN_IPV6_PATTERN" using iphc_dispatch(5) [OF c(2)] by (simp add: LOWPAN_IPV6_PATTERN_def)
  moreover have "unat len = length (chunk L pkt) + length rest" using len lr by simp
  ultimately have e: "recon_unpack (lk_read L) recon (replicate n 0) (lk_to L) F s len =
      lowpan_unpack_headers (lk_read L) recon (replicate n 0) (lk_to L) F s (length (chunk L pkt) + length rest)"
    by (simp add: recon_unpack_def)
  show ?thesis unfolding e image_parts [OF ok, symmetric]
    using decompress [OF ok h _ al, of n] n lr rest by auto
qed

lemma recv_whole:
  assumes ok: "ok L pkt" and h: "has_at F 0 (chunk L pkt @ drop eaten (flat pkt))"
    and len: "unat len = length (chunk L pkt) + (length (flat pkt) - eaten)" "unat len \<le> 255"
    and small: "length (packet_image pkt) \<le> 209" and heap: "ip_malloc junk heap 209 = Some (heap', Some ptr)"
  shows "\<exists>recon'. lowpan_recon_start full junk (lk_read L) heap (lk_to L) recon F len = Some (heap', recon', 0) \<and>
    r_buf recon' = Some (ptr, put (replicate 209 0) 0 (packet_image pkt)) \<and>
    unat (r_size recon') = length (packet_image pkt) \<and> r_bytes_rcvd recon' = r_size recon'"
proof -
  obtain b bs where c: "chunk L pkt = b # bs" "b AND 0xe0 = 0x60" using chunk_bounds [OF ok] by auto
  have pos: "0 < (ucast len :: u8)" using small_len [OF len(2)] len(1) c(1) by (simp add: word_less_nat_alt)
  have bm: "getHeaderBitmap full \<lparr>lm_headers = 0, lm_len = ucast len, lm_data = Some F\<rparr> = Some 0"
    using bitmap_iphc [OF _ c(2) pos] h c(1) by simp
  let ?k = "length (flat pkt) - eaten" and ?recon = "recon\<lparr>r_size := 209, r_app_len := None\<rparr>"
  have e: "eaten \<le> length (flat pkt)" using payload [OF ok] by simp
  have S: "40 + eaten + ?k = length (packet_image pkt)" using e length_image [OF ok] by simp
  obtain th al r where u: "recon_unpack (lk_read L) ?recon (replicate 209 0) (lk_to L) F 0 len =
        Some (?recon\<lparr>r_transport_header := th, r_app_len := al\<rparr>, r, Some (length (packet_image pkt)))"
      "\<And>recon'. r_size recon' = dgram_size pkt \<Longrightarrow> r_transport_header recon' = th \<Longrightarrow> r_app_len recon' = al \<Longrightarrow>
         fill_lengths recon' r = Some (put (replicate 209 0) 0 (packet_image pkt))"
    using fetched [OF ok h, of ?k 209 ?recon len] len e small S by auto
  have d: "of_nat (length (packet_image pkt)) = dgram_size pkt"
    using word16_eqI [OF unat_dgram [OF ok]] small by simp
  show ?thesis
    using u(1) heap small
    by (simp add: lowpan_recon_start_def Let_def bm hasFrag1Header_def hasFragNHeader_def hasMeshHeader_def hasBcastHeader_def
        getLowpanPayload_def lowmsg_defs LIB6LOWPAN_MAX_LEN_def LOWPAN_LINK_MTU_def u(2) d unat_dgram [OF ok])
qed

lemma recv_first:
  assumes ok: "ok L pkt" and h: "has_at F 0 (frag1_bytes (dgram_size pkt) tag @ chunk L pkt @ take k (drop eaten (flat pkt)))"
    and len: "unat len = 4 + length (chunk L pkt) + k" "unat len \<le> 255"
    and k: "eaten + k \<le> length (flat pkt)" and small: "length (packet_image pkt) < 2048"
    and heap: "ip_malloc junk heap (dgram_size pkt) = Some (heap', Some ptr)"
  shows "\<exists>recon'. lowpan_recon_start full junk (lk_read L) heap (lk_to L) recon F len = Some (heap', recon', 0) \<and>
    r_buf recon' = Some (ptr, put (replicate (length (packet_image pkt)) 0) 0 (take (40 + eaten + k) (packet_image pkt))) \<and>
    r_size recon' = dgram_size pkt \<and> r_bytes_rcvd recon' = of_nat (40 + eaten + k) \<and> r_tag recon' = tag"
proof -
  let ?r = "take k (drop eaten (flat pkt))" and ?S = "length (packet_image pkt)"
  obtain b bs where c: "chunk L pkt = b # bs" "b AND 0xe0 = 0x60" using chunk_bounds [OF ok] by auto
  have n: "4 \<le> (ucast len :: u8)" using small_len [OF len(2)] len(1) by (simp add: word_le_nat_alt)
  have bm: "getHeaderBitmap full \<lparr>lm_headers = 0, lm_len = ucast len, lm_data = Some F\<rparr> = Some 4"
    using bitmap_frag1 [OF _ c(2) n] h c(1) by simp
  have hf: "has_at F 0 (frag1_bytes (dgram_size pkt) tag)" and hc: "has_at F 4 (chunk L pkt @ ?r)"
    using h by (simp_all add: has_at_append)
  have sz: "dgram_size pkt AND 0x7ff = dgram_size pkt" "unat (dgram_size pkt) = ?S"
    using unat_dgram [OF ok] small by (simp_all add: size_keep)
  let ?recon = "recon\<lparr>r_tag := tag, r_size := dgram_size pkt, r_app_len := None\<rparr>"
  have up: "unat (len - of_nat 4) = length (chunk L pkt) + k"
    using len(1) by (intro unat_minus_num) simp
  obtain th al r where u: "recon_unpack (lk_read L) ?recon (replicate ?S 0) (lk_to L) F 4 (len - 4) =
        Some (?recon\<lparr>r_transport_header := th, r_app_len := al\<rparr>, r, Some (40 + eaten + k))"
      "\<And>recon'. r_size recon' = dgram_size pkt \<Longrightarrow> r_transport_header recon' = th \<Longrightarrow> r_app_len recon' = al \<Longrightarrow>
         fill_lengths recon' r = Some (put (replicate ?S 0) 0 (take (40 + eaten + k) (packet_image pkt)))"
    using fetched [OF ok hc refl k, of ?S ?recon "len - 4"] up k length_image [OF ok] by auto
  have rt: "recon\<lparr>r_tag := tag, r_size := dgram_size pkt\<rparr>\<lparr>r_app_len := None\<rparr> = ?recon" by simp
  show ?thesis
    using u(1) heap
    by (simp add: lowpan_recon_start_def Let_def bm frag1_getters [OF hf] sz u(2) hasFrag1Header_def hasFragNHeader_def
        hasMeshHeader_def hasBcastHeader_def getLowpanPayload_def lowmsg_defs)
qed

lemma recv_next:
  assumes h: "has_at F 0 (fragn_bytes sz tag off @ take k (drop n img))"
    and len: "unat len = 5 + k" "unat len \<le> 255" and k: "n + k \<le> length img" "length img < 65536"
    and st: "r_buf recon = Some (ptr, put (replicate (length img) 0) 0 (take n img))"
      "unat (r_size recon) = length img" "r_bytes_rcvd recon = of_nat n"
  shows "lowpan_recon_add full recon F len =
    Some (recon\<lparr>r_buf := Some (ptr, put (replicate (length img) 0) 0 (take (n + k) img)), r_bytes_rcvd := of_nat (n + k)\<rparr>, 0)"
proof -
  have n: "5 \<le> (ucast len :: u8)" using small_len [OF len(2)] len(1) by (simp add: word_le_nat_alt)
  have hf: "has_at F 0 (fragn_bytes sz tag off)" and hd: "has_at F 5 (take k (drop n img))"
    using h by (simp_all add: has_at_append)
  have bm: "getHeaderBitmap full \<lparr>lm_headers = 0, lm_len = ucast len, lm_data = Some F\<rparr> = Some 8"
    by (rule bitmap_fragn [OF hf n])
  have up: "unat (len - of_nat 5) = k" using len(1) by (intro unat_minus_num) simp
  have up5: "unat (len - 5) = k" using up by simp
  have un: "unat (of_nat n :: u16) = n" using k by (intro unat_of_nat16) simp
  have ul: "ucast (len - 5) = (of_nat k :: u16)"
  proof (rule word16_eqI)
    show "unat (ucast (len - 5) :: u16) = k" using up5 k by (simp add: unsigned_ucast_eq take_bit_nat_eq_self)
  qed
  have room: "\<not> ucast (r_size recon) < ucast (r_bytes_rcvd recon) + (len - 5)"
  proof -
    have "unat (ucast (r_bytes_rcvd recon) + (len - 5) :: u32) = n + k"
      using k un st(3) up5 by (subst unat_word_ariths) simp
    then show ?thesis using k(1) st(2) by (simp add: word_less_nat_alt)
  qed
  have rd: "rdn F 5 k = Some (take k (drop n img))" using rdn_has_at [OF hd] k by simp
  have wr: "wrn (put (replicate (length img) 0) 0 (take n img)) n (take k (drop n img)) =
      Some (put (replicate (length img) 0) 0 (take (n + k) img))"
    using k by (simp add: wrn_def put_at_end take_add)
  show ?thesis
    using rd wr room up5
    by (simp add: lowpan_recon_add_def Let_def bm hasFrag1Header_def hasFragNHeader_def
        hasMeshHeader_def hasBcastHeader_def getLowpanPayload_def lowmsg_defs st(1,3) un ul)
qed

end

end
