(* ===== verification/Lowpan_Session.thy ===== *)
theory Lowpan_Session
  imports Lowpan_Frag
begin

text \<open>
  A whole datagram from sender to receiver: \<open>lowpan_frag_get\<close> is called until it returns 0 and
  every frame goes through the receiver's path, \<open>unpack_ieee154_hdr\<close>, then
  \<open>lowpan_recon_start\<close> for the first frame and \<open>lowpan_recon_add\<close> for the others.
\<close>

section \<open>Frames on the air\<close>

text \<open>The receiver's view of a frame of \<open>rv\<close> bytes: the link header is unpacked into \<open>g\<close> and the
  rest of the frame is the payload.\<close>

definition receive_frame :: "mem \<Rightarrow> int \<Rightarrow> ieee154_frame_addr \<Rightarrow> (ieee154_frame_addr \<times> mem) option" where
  "receive_frame m rv g = do {
     (f, p) \<leftarrow> unpack_ieee154_hdr m 0 g;
     Some (f, drop p (take (nat rv) m)) }"

lemma put_swap:
  assumes "p + length xs \<le> q" "q + length ys \<le> length m"
  shows "put (put m q ys) p xs = put (put m p xs) q ys"
  using assms by (intro nth_equalityI) (auto simp: put_nth)

definition stamp :: "ieee154_frame_addr \<Rightarrow> mem \<Rightarrow> mem" where
  "stamp f m = (put m 6 (ieee_addr_bytes (ieee_dst f) @ ieee_addr_bytes (ieee_src f)))
     [1 := lo8 (ieee_fcf f), 2 := hi8 (ieee_fcf f), 4 := lo8 (ieee_dstpan f), 5 := hi8 (ieee_dstpan f)]"

lemma pack_stamp:
  assumes "frame_ok f" "ieee_hdr_len f \<le> length m"
  shows "pack_ieee154_header m 0 cnt f = Some (stamp f m, ieee_hdr_len f)"
  using pack_ieee154_header_eq [OF assms(1), of 0 m cnt] assms(2) by (simp add: stamp_def Let_def numeral_2_eq_2)

lemma length_stamp: "ieee_hdr_len f \<le> length m \<Longrightarrow> length (stamp f m) = length m"
  by (simp add: stamp_def ieee_hdr_len_def IEEE154_MIN_HDR_SZ_def)

lemma stamp_put:
  assumes "ieee_hdr_len f \<le> q" "q + length ys \<le> length m"
  shows "stamp f (put m q ys) = put (stamp f m) q ys"
proof -
  have q: "6 + length (ieee_addr_bytes (ieee_dst f) @ ieee_addr_bytes (ieee_src f)) \<le> q"
    using assms(1) by (simp add: ieee_hdr_len_def IEEE154_MIN_HDR_SZ_def)
  show ?thesis using q assms(2) unfolding stamp_def put_swap [OF q assms(2)]
    by (simp add: put_update_below)
qed

lemma ieee_hdr_len_le: "frame_ok f \<Longrightarrow> ieee_hdr_len f \<le> 22"
  by (auto simp: ieee_hdr_len_def frame_ok_def length_ieee_addr_bytes IEEE154_MIN_HDR_SZ_def)

lemma fetch_ok: "fetch_ieee154_addr m p a = Some (a', p') \<Longrightarrow> ieee_ok a \<Longrightarrow> ieee_ok a'"
  by (auto simp: fetch_ieee154_addr_def ieee_ok_def rdn_def split: if_splits bind_splits)

lemma unpack_ok: "unpack_ieee154_hdr m b g = Some (f', p) \<Longrightarrow> frame_ok g \<Longrightarrow> frame_ok f'"
  by (auto simp: unpack_ieee154_hdr_def frame_ok_def Let_def split: bind_splits dest!: fetch_ok)
    (simp_all add: ieee_ok_def)

lemma received:
  assumes f: "frame_ok f" "ieee_carries (ieee_src f)" "ieee_carries (ieee_dst f)" "frame_ok g"
    and fit: "ieee_hdr_len f + length ys \<le> length m"
  shows "\<exists>f'. receive_frame (put (stamp f m) (ieee_hdr_len f) ys) (int (ieee_hdr_len f + length ys)) g = Some (f', ys) \<and>
    frame_match f f'"
proof -
  let ?h = "ieee_hdr_len f"
  have pk: "pack_ieee154_header (put m ?h ys) 0 0 f = Some (stamp f (put m ?h ys), ?h)"
    using fit by (intro pack_stamp f) simp
  have st: "stamp f (put m ?h ys) = put (stamp f m) ?h ys" using fit by (intro stamp_put) simp_all
  from unpack_pack_ieee154 [OF f pk] obtain f' where
    u: "unpack_ieee154_hdr (put (stamp f m) ?h ys) 0 g = Some (f', ?h)" "ieee_same (ieee_src f) (ieee_src f')"
      "ieee_same (ieee_dst f) (ieee_dst f')" "ieee_dstpan f' = ieee_dstpan f"
    by (auto simp: st)
  have "take (?h + length ys) (put (stamp f m) ?h ys) = take ?h (stamp f m) @ ys"
    using fit length_stamp [of f m] by (simp add: put_def)
  then have "drop ?h (take (nat (int (?h + length ys))) (put (stamp f m) ?h ys)) = ys"
    using fit length_stamp [of f m] by (simp del: of_nat_add)
  then show ?thesis using u unpack_ok [OF u(1) f(4)] f(1)
    by (auto simp: receive_frame_def frame_match_def simp del: of_nat_add)
qed

lemma unat_small32: "n \<le> 255 \<Longrightarrow> unat (of_nat n :: u32) = n"
  by (simp add: unsigned_of_nat take_bit_nat_eq_self)

section \<open>The transfer\<close>

text \<open>The frames after the first; \<open>fuel\<close> bounds their number.\<close>

fun transfer_rest ::
  "nat \<Rightarrow> bool \<Rightarrow> (in6_addr \<Rightarrow> int) \<Rightarrow> mem \<Rightarrow> u32 \<Rightarrow> ip6_packet \<Rightarrow> ieee154_frame_addr \<Rightarrow> ieee154_frame_addr \<Rightarrow>
     lowpan_ctx \<Rightarrow> lowpan_reconstruct \<Rightarrow> (lowpan_ctx \<times> lowpan_reconstruct) option" where
  "transfer_rest 0 full mc m len pkt f g ctx recon = None"
| "transfer_rest (Suc fuel) full mc m len pkt f g ctx recon = do {
     (m, ctx, rv) \<leftarrow> lowpan_frag_get full mc m len pkt f ctx;
     (if rv = 0 then Some (ctx, recon)
      else if rv < 0 then None
      else do {
        (_, pay) \<leftarrow> receive_frame m rv g;
        (recon, e) \<leftarrow> lowpan_recon_add full recon pay (of_nat (length pay));
        (if e = 0 then transfer_rest fuel full mc m len pkt f g ctx recon else None) }) }"

definition transfer ::
  "nat \<Rightarrow> bool \<Rightarrow> (nat \<Rightarrow> u8 option) \<Rightarrow> lowpan_link \<Rightarrow> mem \<Rightarrow> mem \<Rightarrow> u32 \<Rightarrow> ip6_packet \<Rightarrow> u16 \<Rightarrow> lowpan_reconstruct \<Rightarrow>
     (mem \<times> lowpan_ctx \<times> lowpan_reconstruct) option" where
  "transfer fuel full junk L heap m len pkt tag recon = do {
     (m, ctx, rv) \<leftarrow> lowpan_frag_get full (lk_match L) m len pkt (lk_from L) \<lparr>ctx_tag = tag, ctx_offset = 0\<rparr>;
     (if rv \<le> 0 then None
      else do {
        (f, pay) \<leftarrow> receive_frame m rv (lk_to L);
        (heap, recon, e) \<leftarrow> lowpan_recon_start full junk (lk_read L) heap f recon pay (of_nat (length pay));
        (if e \<noteq> 0 then None
         else do {
           (ctx, recon) \<leftarrow> transfer_rest fuel full (lk_match L) m len pkt (lk_from L) (lk_to L) ctx recon;
           Some (heap, ctx, recon) }) }) }"

locale link_codec = header_codec ok chunk eaten
  for ok :: "lowpan_link \<Rightarrow> ip6_packet \<Rightarrow> bool" and chunk eaten +
  assumes retarget: "ok L pkt \<Longrightarrow> frame_match (lk_from L) f' \<Longrightarrow>
    ok (L\<lparr>lk_to := f'\<rparr>) pkt \<and> chunk (L\<lparr>lk_to := f'\<rparr>) pkt = chunk L pkt"
    and eaten_le: "eaten \<le> 40"
begin

abbreviation (input) room_ok :: "lowpan_link \<Rightarrow> ip6_packet \<Rightarrow> mem \<Rightarrow> u32 \<Rightarrow> bool" where
  "room_ok L pkt m len \<equiv> 81 \<le> unat len \<and> unat len \<le> 127 \<and> unat len \<le> length m \<and>
     length (packet_image pkt) < 2048 \<and> ieee_carries (ieee_src (lk_from L)) \<and> ieee_carries (ieee_dst (lk_from L)) \<and>
     frame_ok (lk_to L)"

lemma first_call:
  assumes ok: "ok L pkt" and fit: "ieee_hdr_len (lk_from L) \<le> length m" and o: "ctx_offset ctx = 0"
  shows "lowpan_frag_get full (lk_match L) m len pkt (lk_from L) ctx =
    frag_first full (lk_match L) (stamp (lk_from L) m) len pkt (lk_from L) ctx (ieee_hdr_len (lk_from L))"
  using o by (simp add: lowpan_frag_get_def pack_stamp [OF frames [OF ok] fit])

lemma later_call:
  assumes ok: "ok L pkt" and room: "room_ok L pkt m len"
    and o: "40 \<le> unat (ctx_offset ctx)" "unat (ctx_offset ctx) \<le> length (packet_image pkt)"
    and k: "k = next_size (length (packet_image pkt) - unat (ctx_offset ctx)) (unat len - (ieee_hdr_len (lk_from L) + 5))"
  shows "lowpan_frag_get full mc m len pkt (lk_from L) ctx =
    Some (put (stamp (lk_from L) (stamp (lk_from L) m)) (ieee_hdr_len (lk_from L))
        (fragn_bytes (dgram_size pkt) (ctx_tag ctx) (ucast (ctx_offset ctx div 8)) @
         take k (drop (unat (ctx_offset ctx)) (packet_image pkt))),
      ctx\<lparr>ctx_offset := of_nat (unat (ctx_offset ctx) + k)\<rparr>, if k = 0 then 0 else int (ieee_hdr_len (lk_from L) + 5 + k))"
proof -
  let ?h = "ieee_hdr_len (lk_from L)" and ?m = "stamp (lk_from L) (stamp (lk_from L) m)"
  have f: "frame_ok (lk_from L)" using frames [OF ok] .
  have h: "?h \<le> 22" by (rule ieee_hdr_len_le [OF f])
  then have lm: "?h \<le> length m" "length (stamp (lk_from L) m) = length m" "length ?m = length m"
    using room by (auto simp: length_stamp)
  have off: "ctx_offset ctx \<noteq> 0" using o by auto
  show ?thesis using send_next [OF ok _ _ _ _ o k, of ?m full] room h lm off
    by (simp add: lowpan_frag_get_def pack_stamp [OF f])
qed

lemma rest_done:
  assumes ok: "ok L pkt" and room: "room_ok L pkt m len" and o: "unat (ctx_offset ctx) = length (packet_image pkt)"
  shows "transfer_rest (Suc fuel) full mc m len pkt (lk_from L) g ctx recon = Some (ctx, recon)"
proof -
  have "40 \<le> unat (ctx_offset ctx)" using o length_image [OF ok] by simp
  moreover have "of_nat (unat (ctx_offset ctx)) = ctx_offset ctx" by simp
  ultimately show ?thesis using later_call [OF ok room, of ctx 0 full mc] o by (simp add: next_size_def)
qed

lemma rest_delivered:
  assumes ok: "ok L pkt" and room: "room_ok L pkt m len"
    and n: "unat (ctx_offset ctx) = n" "40 \<le> n" "n \<le> length (packet_image pkt)"
    and st: "r_buf recon = Some (ptr, put (replicate (length (packet_image pkt)) 0) 0 (take n (packet_image pkt)))"
      "r_size recon = dgram_size pkt" "r_bytes_rcvd recon = of_nat n"
    and fuel: "length (packet_image pkt) - n < fuel"
  shows "\<exists>ctx' recon'. transfer_rest fuel full mc m len pkt (lk_from L) (lk_to L) ctx recon = Some (ctx', recon') \<and>
    r_buf recon' = Some (ptr, packet_image pkt) \<and> r_size recon' = dgram_size pkt \<and> r_bytes_rcvd recon' = dgram_size pkt"
  using room n st fuel
proof (induction fuel arbitrary: m ctx recon n)
  case 0 then show ?case by simp
next
  case (Suc fuel)
  let ?S = "length (packet_image pkt)" and ?h = "ieee_hdr_len (lk_from L)"
  have f: "frame_ok (lk_from L)" using frames [OF ok] .
  have h: "?h \<le> 22" by (rule ieee_hdr_len_le [OF f])
  have S: "?S < 65536" "unat (dgram_size pkt) = ?S" using Suc.prems(1) unat_dgram [OF ok] by auto
  show ?case
  proof (cases "n = ?S")
    case True
    have "of_nat n = dgram_size pkt" using S(2) True by (metis word16_eqI)
    then show ?thesis using rest_done [OF ok Suc.prems(1), of ctx fuel full mc "lk_to L" recon] Suc.prems(2,5-7) True
      by (simp add: put_def)
  next
    case False
    define k where "k = next_size (?S - n) (unat len - (?h + 5))"
    let ?x = "fragn_bytes (dgram_size pkt) (ctx_tag ctx) (ucast (ctx_offset ctx div 8)) @ take k (drop n (packet_image pkt))"
    let ?m = "stamp (lk_from L) (stamp (lk_from L) m)"
    have lm: "?h \<le> length m" "length (stamp (lk_from L) m) = length m" "length ?m = length m"
      using Suc.prems(1) h by (auto simp: length_stamp)
    have k: "k \<le> ?S - n" "k \<le> unat len - (?h + 5)" unfolding k_def by (rule next_size_le)+
    have lx: "length ?x = 5 + k" using k(1) by simp
    have pos: "0 < k" unfolding k_def using False Suc.prems(1,4) h by (intro next_size_pos) auto
    have fg: "lowpan_frag_get full mc m len pkt (lk_from L) ctx = Some (put ?m ?h ?x, ctx\<lparr>ctx_offset := of_nat (n + k)\<rparr>,
        int (?h + 5 + k))"
      using later_call [OF ok Suc.prems(1), of ctx k full mc] Suc.prems(2-4) k_def pos by simp
    have fit: "?h + length ?x \<le> length (stamp (lk_from L) m)" using k(2) lx Suc.prems(1) h lm by linarith
    obtain f' where rf: "receive_frame (put ?m ?h ?x) (int (?h + length ?x)) (lk_to L) = Some (f', ?x)"
      using received [OF f _ _ _ fit, of "lk_to L"] Suc.prems(1) by auto
    have small: "5 + k \<le> 255" using k(2) Suc.prems(1) h by linarith
    then have lenx: "unat (of_nat (length ?x) :: u32) = 5 + k" unfolding lx by (rule unat_small32)
    have nk: "unat (of_nat (n + k) :: u16) = n + k" using k(1) S(1) Suc.prems(4) by (intro unat_of_nat16) simp
    have ra: "lowpan_recon_add full recon ?x (of_nat (length ?x)) =
        Some (recon\<lparr>r_buf := Some (ptr, put (replicate ?S 0) 0 (take (n + k) (packet_image pkt))), r_bytes_rcvd := of_nat (n + k)\<rparr>, 0)"
      using k(1) Suc.prems(4-7) S lenx small
      by (intro recv_next [where sz = "dgram_size pkt" and tag = "ctx_tag ctx" and off = "ucast (ctx_offset ctx div 8)"])
        (simp_all add: has_at_def)
    define recon' where "recon' = recon\<lparr>r_buf := Some (ptr, put (replicate ?S 0) 0 (take (n + k) (packet_image pkt))), r_bytes_rcvd := of_nat (n + k)\<rparr>"
    define ctx' where "ctx' = ctx\<lparr>ctx_offset := of_nat (n + k)\<rparr>"
    have step: "transfer_rest (Suc fuel) full mc m len pkt (lk_from L) (lk_to L) ctx recon =
        transfer_rest fuel full mc (put ?m ?h ?x) len pkt (lk_from L) (lk_to L) ctx' recon'"
      using fg rf ra pos lx by (simp add: recon'_def ctx'_def add.assoc del: of_nat_add)
    show ?thesis unfolding step
      by (rule Suc.IH [where n = "n + k"])
        (use Suc.prems k pos S lm fit nk in \<open>simp_all add: recon'_def ctx'_def del: of_nat_add\<close>)
  qed
qed

text \<open>The two cases of the first frame.\<close>

lemma delivered_whole:
  assumes ok: "ok L pkt" and room: "room_ok L pkt m len"
    and fits: "ieee_hdr_len (lk_from L) + length (chunk L pkt) + (length (flat pkt) - eaten) \<le> unat len"
    and heap: "ip_malloc junk heap 209 = Some (heap', Some ptr)"
  shows "\<exists>ctx recon'. transfer (Suc fuel) full junk L heap m len pkt tag recon = Some (heap', ctx, recon') \<and>
    r_buf recon' = Some (ptr, put (replicate 209 0) 0 (packet_image pkt)) \<and>
    r_size recon' = dgram_size pkt \<and> r_bytes_rcvd recon' = dgram_size pkt \<and> length (packet_image pkt) \<le> 209"
proof -
  let ?f = "lk_from L" and ?h = "ieee_hdr_len (lk_from L)" and ?S = "length (packet_image pkt)"
  let ?x = "chunk L pkt @ drop eaten (flat pkt)" and ?ctx = "\<lparr>ctx_tag = tag, ctx_offset = 0\<rparr>"
  have f: "frame_ok ?f" using frames [OF ok] .
  have h: "?h \<le> 22" "6 \<le> ?h" using ieee_hdr_len_le [OF f] by (simp_all add: ieee_hdr_len_def IEEE154_MIN_HDR_SZ_def)
  have lm: "?h \<le> length m" "length (stamp ?f m) = length m" using room h by (auto simp: length_stamp)
  have lx: "length ?x = length (chunk L pkt) + (length (flat pkt) - eaten)" by simp
  have S: "?S \<le> 209" using length_image [OF ok] fits room h eaten_le by linarith
  have d: "unat (dgram_size pkt) = ?S" using room by (intro unat_dgram [OF ok]) simp
  have fg: "lowpan_frag_get full (lk_match L) m len pkt ?f ?ctx =
      Some (put (stamp ?f m) ?h ?x, ?ctx\<lparr>ctx_offset := dgram_size pkt\<rparr>, int (?h + length ?x))"
    using send_whole [OF ok fits, of "stamp ?f m" full ?ctx] room lm
    by (simp add: first_call [OF ok lm(1)] lx add.assoc)
  obtain f' where rf: "receive_frame (put (stamp ?f m) ?h ?x) (int (?h + length ?x)) (lk_to L) = Some (f', ?x)" "frame_match ?f f'"
    using received [OF f, of "lk_to L" ?x m] room lm lx fits by auto
  have ok': "ok (L\<lparr>lk_to := f'\<rparr>) pkt" "chunk (L\<lparr>lk_to := f'\<rparr>) pkt = chunk L pkt"
    using retarget [OF ok rf(2)] by auto
  have small: "length ?x \<le> 255" using lx fits room by linarith
  then have ux: "unat (of_nat (length ?x) :: u32) = length ?x" by (rule unat_small32)
  obtain recon' where rs: "lowpan_recon_start full junk (lk_read L) heap f' recon ?x (of_nat (length ?x)) = Some (heap', recon', 0)"
    "r_buf recon' = Some (ptr, put (replicate 209 0) 0 (packet_image pkt))"
    "unat (r_size recon') = ?S" "r_bytes_rcvd recon' = r_size recon'"
    using recv_whole [OF ok'(1), of ?x "of_nat (length ?x)" junk heap heap' ptr full recon] ok'(2) ux lx small S heap
    by (auto simp: has_at_def simp del: of_nat_add)
  have rsz: "r_size recon' = dgram_size pkt" using rs(3) d by (simp add: word_unat_eq_iff)
  have rest: "transfer_rest (Suc fuel) full (lk_match L) (put (stamp ?f m) ?h ?x) len pkt ?f (lk_to L)
      (?ctx\<lparr>ctx_offset := dgram_size pkt\<rparr>) recon' = Some (?ctx\<lparr>ctx_offset := dgram_size pkt\<rparr>, recon')"
    using room lm lx fits d by (intro rest_done [OF ok]) auto
  have "0 < ?h" using h by simp
  then show ?thesis using fg rf(1) rs rsz rest S
    by (simp add: transfer_def del: transfer_rest.simps of_nat_add)
qed

lemma delivered_fragments:
  assumes ok: "ok L pkt" and room: "room_ok L pkt m len"
    and big: "unat len < ieee_hdr_len (lk_from L) + length (chunk L pkt) + (length (flat pkt) - eaten)"
    and heap: "ip_malloc junk heap (dgram_size pkt) = Some (heap', Some ptr)"
    and fuel: "length (packet_image pkt) \<le> fuel"
  shows "\<exists>ctx recon'. transfer fuel full junk L heap m len pkt tag recon = Some (heap', ctx, recon') \<and>
    r_buf recon' = Some (ptr, packet_image pkt) \<and> r_size recon' = dgram_size pkt \<and> r_bytes_rcvd recon' = dgram_size pkt"
proof -
  let ?f = "lk_from L" and ?h = "ieee_hdr_len (lk_from L)" and ?S = "length (packet_image pkt)"
  let ?ctx = "\<lparr>ctx_tag = tag, ctx_offset = 0\<rparr>"
  define k where "k = blocks8 (unat len - (?h + length (chunk L pkt) + 4))"
  let ?x = "frag1_bytes (dgram_size pkt) tag @ chunk L pkt @ take k (drop eaten (flat pkt))"
  have f: "frame_ok ?f" using frames [OF ok] .
  have h: "?h \<le> 22" "length (chunk L pkt) \<le> 47" using ieee_hdr_len_le [OF f] chunk_bounds [OF ok] by auto
  have lm: "?h \<le> length m" "length (stamp ?f m) = length m" using room h by (auto simp: length_stamp)
  have kl: "k \<le> unat len - (?h + length (chunk L pkt) + 4)" unfolding k_def by (rule blocks8_le)
  have kn: "eaten + k \<le> length (flat pkt)" "?h + length (chunk L pkt) + 4 + k \<le> unat len"
    using kl big room h by linarith+
  have lx: "length ?x = 4 + length (chunk L pkt) + k" using kn by simp
  have fg: "lowpan_frag_get full (lk_match L) m len pkt ?f ?ctx =
      Some (put (stamp ?f m) ?h ?x, ?ctx\<lparr>ctx_offset := of_nat (40 + eaten + k)\<rparr>, int (?h + length ?x))"
    using send_first [OF ok _ _ _ big k_def, of "stamp ?f m" full ?ctx] room lm h unfolding lx
    by (simp add: first_call [OF ok lm(1)] add.assoc del: of_nat_add)
  obtain f' where rf: "receive_frame (put (stamp ?f m) ?h ?x) (int (?h + length ?x)) (lk_to L) = Some (f', ?x)" "frame_match ?f f'"
    using received [OF f, of "lk_to L" ?x m] room lm lx kn by auto
  have ok': "ok (L\<lparr>lk_to := f'\<rparr>) pkt" "chunk (L\<lparr>lk_to := f'\<rparr>) pkt = chunk L pkt"
    using retarget [OF ok rf(2)] by auto
  have small: "length ?x \<le> 255" unfolding lx using kn(2) room by linarith
  then have ux: "unat (of_nat (length ?x) :: u32) = length ?x" by (rule unat_small32)
  obtain recon' where rs: "lowpan_recon_start full junk (lk_read L) heap f' recon ?x (of_nat (length ?x)) = Some (heap', recon', 0)"
    "r_buf recon' = Some (ptr, put (replicate ?S 0) 0 (take (40 + eaten + k) (packet_image pkt)))"
    "r_size recon' = dgram_size pkt" "r_bytes_rcvd recon' = of_nat (40 + eaten + k)"
    using recv_first [OF ok'(1), of ?x tag k "of_nat (length ?x)" junk heap heap' ptr full recon] ok'(2) ux lx small kn(1) room heap
    by (auto simp: has_at_def simp del: of_nat_add)
  have S: "40 + eaten + k \<le> ?S" using kn(1) length_image [OF ok] by simp
  have fu: "?S - (40 + eaten + k) < fuel" using S fuel by linarith
  have o: "unat (of_nat (40 + eaten + k) :: u16) = 40 + eaten + k" using S room by (intro unat_of_nat16) simp
  obtain ctx' recon'' where rest: "transfer_rest fuel full (lk_match L) (put (stamp ?f m) ?h ?x) len pkt ?f (lk_to L)
      (?ctx\<lparr>ctx_offset := of_nat (40 + eaten + k)\<rparr>) recon' = Some (ctx', recon'')"
    "r_buf recon'' = Some (ptr, packet_image pkt)" "r_size recon'' = dgram_size pkt" "r_bytes_rcvd recon'' = dgram_size pkt"
    using rest_delivered [OF ok, where m = "put (stamp ?f m) ?h ?x" and len = len
        and ctx = "?ctx\<lparr>ctx_offset := of_nat (40 + eaten + k)\<rparr>" and n = "40 + eaten + k" and recon = recon'
        and ptr = ptr and fuel = fuel and full = full and mc = "lk_match L"] room lm lx kn rs o S fu
    by (auto simp del: of_nat_add)
  have "0 < int (?h + length ?x)" unfolding lx by simp
  then show ?thesis using fg rf(1) rs(1) rest
    by (simp add: transfer_def del: of_nat_add append.simps)
qed

end


interpretation plain_link: link_codec plain_ok plain_chunk 0
proof (intro link_codec.intro link_codec_axioms.intro plain.header_codec_axioms)
qed (simp_all add: plain_ok_def link_ok_def plain_chunk_def)

interpretation udp_link: link_codec udp_ok udp_pkt_chunk 8
proof (intro link_codec.intro link_codec_axioms.intro udp.header_codec_axioms)
qed (simp_all add: udp_ok_def link_ok_def plain_chunk_def udp_pkt_chunk_def)


section \<open>Reassembly stays inside its buffer\<close>

definition recon_inv :: "lowpan_reconstruct \<Rightarrow> bool" where
  "recon_inv recon \<longleftrightarrow> (\<exists>ptr r. r_buf recon = Some (ptr, r) \<and> length r = unat (r_size recon)) \<and>
     r_bytes_rcvd recon \<le> r_size recon"

lemma bitmap_total:
  assumes "unat len \<le> length F"
  shows "\<exists>h. getHeaderBitmap False \<lparr>lm_headers = hs, lm_len = ucast (len :: u32), lm_data = Some F\<rparr> = Some h"
proof -
  have "unat (ucast len :: u8) \<le> unat len"
    by (simp add: unsigned_ucast_eq take_bit_nat_less_eq_self)
  then have l: "unat (ucast len :: u8) \<le> length F" using assms by linarith
  show ?thesis
  proof (cases "ucast len = (0 :: u8)")
    case True then show ?thesis by (simp add: getHeaderBitmap_def note_header_def Let_def)
  next
    case False
    then have p: "0 < unat (ucast len :: u8)" by (simp add: unat_gt_0)
    then have "0 < length F" using l by linarith
    then have r: "rd F 0 = Some (F ! 0)" by (simp add: rd_def)
    have r4: "4 < int (unat (ucast len :: u8)) \<Longrightarrow> rd F 4 = Some (F ! 4)" using l by (simp add: rd_def del: of_nat_unat)
    show ?thesis using p r r4
      by (auto simp: getHeaderBitmap_def note_header_def Let_def lowmsg_defs simp del: of_nat_unat)
  qed
qed

lemma bitmap_bits:
  "getHeaderBitmap False \<lparr>lm_headers = hs, lm_len = n, lm_data = Some F\<rparr> = Some h \<Longrightarrow> h \<in> {0, 4, 8, 12, 16}"
  by (auto simp: getHeaderBitmap_def note_header_def Let_def lowmsg_defs split: if_splits bind_splits)


lemma recon_add_inside:
  assumes inv: "recon_inv recon" and len: "9 \<le> unat len" "unat len \<le> length F" "unat len < 65536"
  shows "\<exists>recon' e. lowpan_recon_add False recon F len = Some (recon', e) \<and> recon_inv recon' \<and>
    r_size recon' = r_size recon \<and> (e = 0 \<or> recon' = recon \<and> e \<in> {-1, -2, -3})"
proof -
  obtain h where h: "getHeaderBitmap False \<lparr>lm_headers = 0, lm_len = ucast len, lm_data = Some F\<rparr> = Some h"
    using bitmap_total [OF len(2)] by blast
  have hb: "h \<in> {0, 4, 8, 12, 16}" by (rule bitmap_bits [OF h])
  obtain ptr r where b: "r_buf recon = Some (ptr, r)" "length r = unat (r_size recon)" "r_bytes_rcvd recon \<le> r_size recon"
    using inv by (auto simp: recon_inv_def)
  define up where "up = getLowpanPayload False \<lparr>lm_headers = ucast h, lm_len = ucast len, lm_data = Some F\<rparr>"
  have up: "up \<le> 9" unfolding up_def by (simp add: getLowpanPayload_def lowmsg_defs)
  have ul: "unat (len - of_nat up) = unat len - up" using len(1) up by (intro unat_minus_of_nat) simp
  have rc: "unat (r_bytes_rcvd recon) < 65536" using unsigned_less [of "r_bytes_rcvd recon"] by simp
  have sum: "unat (ucast (r_bytes_rcvd recon) + (len - of_nat up) :: u32) = unat (r_bytes_rcvd recon) + (unat len - up)"
    using rc len(3) by (subst unat_word_ariths) (simp add: ul)
  show ?thesis
  proof (cases "ucast (r_size recon) < ucast (r_bytes_rcvd recon) + (len - of_nat up)")
    case True
    then show ?thesis using hb inv
      by (auto simp: lowpan_recon_add_def h up_def Let_def)
  next
    case False
    define k where "k = unat len - up"
    have fit: "unat (r_bytes_rcvd recon) + k \<le> unat (r_size recon)"
      using False sum by (simp add: word_less_nat_alt k_def)
    have rd: "rdn F up (unat (len - of_nat up)) = Some (take k (drop up F))"
      using len up by (simp add: rdn_def ul k_def)
    have lk: "length (take k (drop up F)) = k" using len up by (simp add: k_def)
    have wr: "wrn r (unat (r_bytes_rcvd recon)) (take k (drop up F)) = Some (put r (unat (r_bytes_rcvd recon)) (take k (drop up F)))"
      using fit b(2) lk by (simp add: wrn_def)
    have uc: "ucast (len - of_nat up) = (of_nat k :: u16)"
    proof (rule word16_eqI)
      show "unat (ucast (len - of_nat up) :: u16) = k"
        using len(3) by (simp add: unsigned_ucast_eq ul k_def take_bit_nat_eq_self)
    qed
    have "unat (of_nat k :: u16) = k" using len(3) by (intro unat_of_nat16) (simp add: k_def)
    then have nr: "unat (r_bytes_rcvd recon + of_nat k) = unat (r_bytes_rcvd recon) + k"
    proof -
      have "unat (r_size recon) < 2 ^ LENGTH(16)" by (rule unsigned_less)
      then have "unat (r_bytes_rcvd recon) + k < 2 ^ LENGTH(16)" using fit by linarith
      then show ?thesis using \<open>unat (of_nat k :: u16) = k\<close> by (simp add: unat_word_ariths)
    qed
    show ?thesis using hb inv False rd wr b fit lk nr
      by (auto simp: lowpan_recon_add_def h up_def [symmetric] Let_def recon_inv_def uc word_le_nat_alt)
  qed
qed

section \<open>Properties\<close>

text \<open>C1: End to end delivery.  Take any packet of version 6 and at most 2047 bytes, with its payload length
  in the header, whose next header is one that is not compressed, or UDP with at least eight bytes and
  the length of the payload in the UDP header; any link frame size from 81 to 127 bytes; and short or extended
  link-layer addresses, the same at both ends.  Let both ends have the same contexts, and
  let the packet heap of the receiver grant what reassembly asks for: the 209 bytes for a packet in
  one frame and the size of the packet for one in fragments (the empty heap of 1500 bytes does so up to
  1496 bytes).  Then calling \<open>lowpan_frag_get\<close> until it returns 0 and feeding each frame
  through \<open>unpack_ieee154_hdr\<close>, \<open>lowpan_recon_start\<close> and \<open>lowpan_recon_add\<close> terminates within
  as many calls as the packet has bytes, with no call failing and no access outside a buffer,
  and leaves in the reconstruction buffer exactly the packet that was sent, lengths included,
  and marked complete.\<close>

theorem datagram_delivered:
  assumes "plain_ok L pkt \<or> udp_ok L pkt"
    and "81 \<le> unat len" "unat len \<le> 127" "unat len \<le> length m" "length (packet_image pkt) < 2048"
    and "ieee_carries (ieee_src (lk_from L))" "ieee_carries (ieee_dst (lk_from L))" "frame_ok (lk_to L)"
    and "ip_malloc junk heap 209 = Some (h1, Some p1)" "ip_malloc junk heap (dgram_size pkt) = Some (h2, Some p2)"
    and "length (packet_image pkt) \<le> fuel"
  shows "\<exists>heap' ctx recon' ptr buf. transfer fuel full junk L heap m len pkt tag recon = Some (heap', ctx, recon') \<and>
    r_buf recon' = Some (ptr, buf) \<and> take (length (packet_image pkt)) buf = packet_image pkt \<and>
    unat (r_size recon') = length (packet_image pkt) \<and> r_bytes_rcvd recon' = r_size recon'"
proof -
  have "0 < fuel" using assms(1,11) plain.length_image [of L pkt] udp.length_image [of L pkt] by auto
  then obtain n where n: "fuel = Suc n" by (cases fuel) auto
  note hp = assms(9,10)
  have sz: "unat (dgram_size pkt) = length (packet_image pkt)"
    using assms(1,5) plain.unat_dgram [of L pkt] udp.unat_dgram [of L pkt] by auto
  note room = assms(2-8)
  have "\<exists>heap' ctx recon' ptr buf. transfer fuel full junk L heap m len pkt tag recon = Some (heap', ctx, recon') \<and>
    r_buf recon' = Some (ptr, buf) \<and> take (length (packet_image pkt)) buf = packet_image pkt \<and>
    r_size recon' = dgram_size pkt \<and> r_bytes_rcvd recon' = dgram_size pkt"
    using assms(1)
  proof
    assume ok: "plain_ok L pkt"
    show ?thesis
      using plain_link.delivered_whole [OF ok _ _ hp(1), where m = m and len = len and fuel = n and full = full and tag = tag and recon = recon]
        plain_link.delivered_fragments [OF ok _ _ hp(2) assms(11), where m = m and len = len and full = full and tag = tag and recon = recon] room n
      by (cases "ieee_hdr_len (lk_from L) + length (plain_chunk L pkt) + (length (iov_flat (ip6_data pkt)) - 0) \<le> unat len")
        (fastforce simp: put_def)+
  next
    assume ok: "udp_ok L pkt"
    show ?thesis
      using udp_link.delivered_whole [OF ok _ _ hp(1), where m = m and len = len and fuel = n and full = full and tag = tag and recon = recon]
        udp_link.delivered_fragments [OF ok _ _ hp(2) assms(11), where m = m and len = len and full = full and tag = tag and recon = recon] room n
      by (cases "ieee_hdr_len (lk_from L) + length (udp_pkt_chunk L pkt) + (length (iov_flat (ip6_data pkt)) - 8) \<le> unat len")
        (fastforce simp: put_def)+
  qed
  then show ?thesis using sz by fastforce
qed

definition sample_pkt :: ip6_packet where
  "sample_pkt = \<lparr>ip6_inputif = 0, ip6_data = [\<lparr>iov_base = replicate 200 7, iov_len = 200\<rparr>],
     ip6_hdr = sample_hdr\<lparr>ip6_plen := htons 200\<rparr>\<rparr>"

definition sample_link :: lowpan_link where
  "sample_link = \<lparr>lk_match = \<lambda>_. 0, lk_read = \<lambda>a _. (a, -1), lk_from = sample_frame, lk_to = sample_frame\<rparr>"

lemma sample_plain_ok: "plain_ok sample_link sample_pkt"
proof -
  have "iov_wf [\<lparr>iov_base = replicate 200 7, iov_len = 200\<rparr>]" by simp
  moreover have "version_ok (sample_hdr\<lparr>ip6_plen := htons 200\<rparr>)" "hdr_ok (sample_hdr\<lparr>ip6_plen := htons 200\<rparr>)"
    using sample_hdr_ok by (simp_all add: version_ok_def hdr_ok_def ip6_vfc_def)
  ultimately show ?thesis
    by (simp add: plain_ok_def link_ok_def sample_pkt_def sample_link_def no_ctx sample_frame_match
        nh_compressed_def compressible_ext_def proto_defs sample_hdr_def)
qed

lemma fresh_malloc:
  assumes "unat req \<le> 1400"
  shows "\<exists>h. ip_malloc junk fresh_heap req = Some (h, Some 2)"
proof -
  have "block_need (unat req) \<le> 1500" using assms by (simp add: block_need_def)
  then show ?thesis
    using ip_malloc_split(1) [of fresh_heap "[]" 1500 "[]" req _ junk, OF _ _ refl] fresh_heap_abs assms by simp
qed

lemma datagram_delivered_witness:
  "\<exists>heap' ctx recon' ptr buf.
    transfer 300 False Map.empty sample_link fresh_heap (replicate 127 0) 100 sample_pkt 0x1234
      \<lparr>r_tag = 0, r_source_key = 0, r_size = 0, r_buf = None, r_bytes_rcvd = 0, r_timeout = 0, r_app_len = None,
        r_transport_header = 0\<rparr> = Some (heap', ctx, recon') \<and>
    r_buf recon' = Some (ptr, buf) \<and> take (length (packet_image sample_pkt)) buf = packet_image sample_pkt \<and>
    unat (r_size recon') = length (packet_image sample_pkt) \<and> r_bytes_rcvd recon' = r_size recon'"
proof -
  have S: "length (packet_image sample_pkt) = 240"
    by (simp add: plain.length_image [OF sample_plain_ok]) (simp add: sample_pkt_def)
  have d: "unat (dgram_size sample_pkt) = 240" using plain.unat_dgram [OF sample_plain_ok] S by simp
  obtain h1 h2 where h: "ip_malloc Map.empty fresh_heap 209 = Some (h1, Some 2)"
    "ip_malloc Map.empty fresh_heap (dgram_size sample_pkt) = Some (h2, Some 2)"
    using fresh_malloc [of 209 Map.empty] fresh_malloc [of "dgram_size sample_pkt" Map.empty] d by auto
  have c: "ieee_carries (ieee_src (lk_from sample_link))" "ieee_carries (ieee_dst (lk_from sample_link))"
    "frame_ok (lk_to sample_link)"
    by (simp_all add: sample_link_def ieee_carries_def sample_frame_def ieee_defs frame_ok_def ieee_ok_def)
  show ?thesis
    by (rule datagram_delivered [OF disjI1 [OF sample_plain_ok] _ _ _ _ c h]) (simp_all add: S)
qed

text \<open>C29: Reassembly never writes outside its buffer: if the buffer has the announced size and the
  received count does not exceed it, \<open>lowpan_recon_add\<close> is defined on every frame of at least
  nine bytes, whatever its contents, keeps that invariant and the announced size, and changes
  nothing when it reports an error.\<close>

theorem recon_add_safe:
  assumes "recon_inv recon" "9 \<le> unat len" "unat len \<le> length F" "unat len < 65536"
  shows "\<exists>recon' e. lowpan_recon_add False recon F len = Some (recon', e) \<and> recon_inv recon' \<and>
    r_size recon' = r_size recon \<and> (e = 0 \<or> recon' = recon \<and> e \<in> {-1, -2, -3})"
  by (rule recon_add_inside [OF assms])

lemma recon_add_safe_witness:
  "\<exists>recon' e. lowpan_recon_add False \<lparr>r_tag = 0, r_source_key = 0, r_size = 20, r_buf = Some (2, replicate 20 0), r_bytes_rcvd = 8,
      r_timeout = 0, r_app_len = None, r_transport_header = 0\<rparr> (0xe0 # replicate 12 9) 13 = Some (recon', e) \<and> recon_inv recon'"
  using recon_add_safe [of "\<lparr>r_tag = 0, r_source_key = 0, r_size = 20, r_buf = Some (2, replicate 20 0), r_bytes_rcvd = 8,
      r_timeout = 0, r_app_len = None, r_transport_header = 0\<rparr>" 13 "0xe0 # replicate 12 9"]
  by (auto simp: recon_inv_def)

text \<open>The bound of nine bytes is not idle: on a four-byte frame that carries only the first
  bytes of a FRAGN header the payload length wraps to \<open>2^32 - 1\<close>, the size test wraps with it, and
  \<open>memcpy\<close> leaves every buffer.\<close>

theorem recon_add_short_frame:
  assumes "recon_inv recon" "0 < r_bytes_rcvd recon" "length F = 4" "drop_bit 3 (F ! 0) = LOWPAN_FRAGN_PATTERN"
  shows "lowpan_recon_add False recon F 4 = None"
proof -
  obtain ptr r where b: "r_buf recon = Some (ptr, r)" "r_bytes_rcvd recon \<le> r_size recon"
    using assms(1) by (auto simp: recon_inv_def)
  have "drop_bit 6 (F ! 0) = 3"
  proof -
    have "drop_bit 6 (F ! 0) = drop_bit 3 (drop_bit 3 (F ! 0))" by (simp only: drop_bit_drop_bit) simp
    then show ?thesis using assms(4) by (simp add: lowmsg_defs)
  qed
  then have h: "getHeaderBitmap False \<lparr>lm_headers = 0, lm_len = 4, lm_data = Some F\<rparr> = Some 8"
    using assms(3,4) by (simp add: getHeaderBitmap_def note_header_def rd_def Let_def lowmsg_defs)
  have "unat (ucast (r_bytes_rcvd recon) + (4 - 5) :: u32) = unat (r_bytes_rcvd recon) - 1"
    using assms(2) unat_minus_of_nat [of 1 "ucast (r_bytes_rcvd recon) :: u32"] by (simp add: word_less_nat_alt)
  then have "\<not> ucast (r_size recon) < (ucast (r_bytes_rcvd recon) + (4 - 5) :: u32)"
    using b(2) by (simp add: word_less_nat_alt word_le_nat_alt)
  then show ?thesis using h assms(3) b
    by (simp add: lowpan_recon_add_def Let_def hasFragNHeader_def hasFrag1Header_def hasMeshHeader_def hasBcastHeader_def
        getLowpanPayload_def lowmsg_defs rdn_def)
qed


lemma recon_add_short_frame_witness:
  "lowpan_recon_add False \<lparr>r_tag = 0, r_source_key = 0, r_size = 20, r_buf = Some (2, replicate 20 0), r_bytes_rcvd = 8,
      r_timeout = 0, r_app_len = None, r_transport_header = 0\<rparr> [0xe0, 20, 0, 0] 4 = None"
  by (rule recon_add_short_frame) (simp_all add: recon_inv_def lowmsg_defs)

end
