(* ===== verification/Sim_Heap.thy ===== *)
theory Sim_Heap
  imports Backip_Prelude "HOL-Library.Multiset"
begin

text \<open>
  The array heap of the simulator (\<open>tos/lib/tossim/heap.c\<close>): a resizable array of nodes,
  a priority queue on their keys.  The data pointers are of an arbitrary type.  Keys are
  \<open>long long\<close> values that the code only compares and copies; they are integers here.  The
  contents of memory fresh from \<open>malloc\<close> are an arbitrary function \<open>junk\<close>; \<open>malloc\<close> is taken to
  succeed, as the code takes it to.
\<close>

section \<open>The array\<close>

record 'a node =
  nd_data :: "'a option"
  nd_key :: int

record 'a heap_t =
  hp_size :: nat
  hp_data :: "'a node list"
  hp_private_size :: nat

definition STARTING_SIZE :: nat where "STARTING_SIZE = 511"

definition init_node :: "'a node" where
  "init_node = \<lparr>nd_data = None, nd_key = -1\<rparr>"

definition init_heap :: "(nat \<Rightarrow> 'a node) \<Rightarrow> 'a heap_t" where
  "init_heap junk = \<lparr>hp_size = 0, hp_data = map junk [0..<STARTING_SIZE], hp_private_size = STARTING_SIZE\<rparr>"

definition heap_size :: "'a heap_t \<Rightarrow> nat" where
  "heap_size heap = hp_size heap"

definition is_empty :: "'a heap_t \<Rightarrow> bool" where
  "is_empty heap \<longleftrightarrow> hp_size heap = 0"

definition heap_is_empty :: "'a heap_t \<Rightarrow> bool" where
  "heap_is_empty heap = is_empty heap"

text \<open>\<open>HEAP_NODE\<close>: an access outside the array is undefined.\<close>

definition heap_node :: "'a heap_t \<Rightarrow> nat \<Rightarrow> 'a node option" where
  "heap_node heap i = (if i < length (hp_data heap) then Some (hp_data heap ! i) else None)"

definition heap_get_min_key :: "'a heap_t \<Rightarrow> int option" where
  "heap_get_min_key heap = (if is_empty heap then Some (-1) else do { n \<leftarrow> heap_node heap 0; Some (nd_key n) })"

definition heap_peek_min_data :: "'a heap_t \<Rightarrow> 'a option option" where
  "heap_peek_min_data heap = (if is_empty heap then Some None else do { n \<leftarrow> heap_node heap 0; Some (nd_data n) })"

definition swap :: "'a heap_t \<Rightarrow> nat \<Rightarrow> nat \<Rightarrow> 'a heap_t" where
  "swap heap i j = heap\<lparr>hp_data := (hp_data heap)[i := hp_data heap ! j, j := hp_data heap ! i]\<rparr>"

lemma swap_sel [simp]: "hp_size (swap heap i j) = hp_size heap" "length (hp_data (swap heap i j)) = length (hp_data heap)"
  "hp_private_size (swap heap i j) = hp_private_size heap"
  by (simp_all add: swap_def)

function down_heap :: "'a heap_t \<Rightarrow> nat \<Rightarrow> 'a heap_t option" where
  "down_heap heap findex =
     (let right = (findex + 1) * 2; left = findex * 2 + 1
      in if right < hp_size heap then
           (case (heap_node heap left, heap_node heap right, heap_node heap findex) of
              (Some l, Some r, Some f) \<Rightarrow>
                let m = (if nd_key l < nd_key r then left else right);
                    mk = (if nd_key l < nd_key r then nd_key l else nd_key r)
                in if mk < nd_key f then down_heap (swap heap findex m) m else Some heap
            | _ \<Rightarrow> None)
         else if left \<ge> hp_size heap then Some heap
         else (case (heap_node heap left, heap_node heap findex) of
                 (Some l, Some f) \<Rightarrow> if nd_key l < nd_key f then Some (swap heap findex left) else Some heap
               | _ \<Rightarrow> None))"
  by pat_completeness auto
termination
  by (relation "measure (\<lambda>(heap, i). hp_size heap - i)") (auto simp: swap_def split: if_splits)

function up_heap :: "'a heap_t \<Rightarrow> nat \<Rightarrow> 'a heap_t option" where
  "up_heap heap findex =
     (if findex = 0 then Some heap
      else (let parent = (findex - 1) div 2
            in case (heap_node heap parent, heap_node heap findex) of
                 (Some p, Some f) \<Rightarrow> if nd_key p > nd_key f then up_heap (swap heap findex parent) parent else Some heap
               | _ \<Rightarrow> None))"
  by pat_completeness auto
termination
  by (relation "measure snd") auto

declare down_heap.simps [simp del] up_heap.simps [simp del]

text \<open>Popping an empty heap reads the node in front of the array.\<close>

definition heap_pop_min_data :: "'a heap_t \<Rightarrow> ('a heap_t \<times> 'a option \<times> int) option" where
  "heap_pop_min_data heap =
     (if hp_size heap = 0 then None
      else do {
        top \<leftarrow> heap_node heap 0;
        final \<leftarrow> heap_node heap (hp_size heap - 1);
        heap \<leftarrow> down_heap (heap\<lparr>hp_data := (hp_data heap)[0 := final], hp_size := hp_size heap - 1\<rparr>) 0;
        Some (heap, nd_data top, nd_key top) })"

text \<open>The size is an \<open>int\<close>; doubling it must not overflow.\<close>

definition expand_heap :: "(nat \<Rightarrow> 'a node) \<Rightarrow> 'a heap_t \<Rightarrow> 'a heap_t option" where
  "expand_heap junk heap =
     (let new_size = hp_private_size heap * 2 + 1
      in if new_size < 2 ^ 31 \<and> hp_private_size heap \<le> length (hp_data heap)
         then Some (heap\<lparr>hp_data := take (hp_private_size heap) (hp_data heap) @ map junk [hp_private_size heap..<new_size],
                         hp_private_size := new_size\<rparr>)
         else None)"

definition heap_insert :: "(nat \<Rightarrow> 'a node) \<Rightarrow> 'a heap_t \<Rightarrow> 'a option \<Rightarrow> int \<Rightarrow> 'a heap_t option" where
  "heap_insert junk heap data key = do {
     heap \<leftarrow> (if hp_size heap = hp_private_size heap then expand_heap junk heap else Some heap);
     let findex = hp_size heap;
     _ \<leftarrow> heap_node heap findex;
     heap \<leftarrow> up_heap (heap\<lparr>hp_data := (hp_data heap)[findex := \<lparr>nd_data = data, nd_key = key\<rparr>]\<rparr>) findex;
     Some (heap\<lparr>hp_size := hp_size heap + 1\<rparr>) }"

section \<open>A priority queue\<close>

text \<open>What the event queue needs from the heap.  \<open>items\<close> is the abstract content.\<close>

locale priority_queue =
  fixes inv :: "'q \<Rightarrow> bool"
    and items :: "'q \<Rightarrow> (int \<times> 'd) multiset"
    and insert :: "'q \<Rightarrow> 'd \<Rightarrow> int \<Rightarrow> 'q option"
    and pop :: "'q \<Rightarrow> ('q \<times> 'd \<times> int) option"
    and limit :: nat
  assumes insert_law: "inv q \<Longrightarrow> size (items q) < limit \<Longrightarrow>
      \<exists>q'. insert q d k = Some q' \<and> inv q' \<and> items q' = add_mset (k, d) (items q)"
    and pop_law: "inv q \<Longrightarrow> items q \<noteq> {#} \<Longrightarrow>
      \<exists>q' d k. pop q = Some (q', d, k) \<and> inv q' \<and> items q = add_mset (k, d) (items q') \<and>
        (\<forall>x \<in># items q'. k \<le> fst x)"
    and pop_empty: "inv q \<Longrightarrow> items q = {#} \<Longrightarrow> pop q = None"
begin

fun insert_all :: "'q \<Rightarrow> (int \<times> 'd) list \<Rightarrow> 'q option" where
  "insert_all q [] = Some q"
| "insert_all q ((k, d) # xs) = do { q \<leftarrow> insert q d k; insert_all q xs }"

fun drain :: "nat \<Rightarrow> 'q \<Rightarrow> ('q \<times> (int \<times> 'd) list) option" where
  "drain 0 q = Some (q, [])"
| "drain (Suc n) q = do { (q, d, k) \<leftarrow> pop q; (q, xs) \<leftarrow> drain n q; Some (q, (k, d) # xs) }"

lemma insert_all_law:
  "inv q \<Longrightarrow> size (items q) + length xs \<le> limit \<Longrightarrow>
    \<exists>q'. insert_all q xs = Some q' \<and> inv q' \<and> items q' = items q + mset xs"
proof (induction xs arbitrary: q)
  case (Cons x xs)
  obtain k d where x: "x = (k, d)" by (cases x)
  from Cons.prems obtain q1 where 1: "insert q d k = Some q1" "inv q1" "items q1 = add_mset (k, d) (items q)"
    using insert_law [of q d k] by auto
  with Cons.IH [of q1] Cons.prems show ?case by (auto simp: x)
qed simp

lemma drain_law:
  "inv q \<Longrightarrow> size (items q) = n \<Longrightarrow>
    \<exists>q' xs. drain n q = Some (q', xs) \<and> inv q' \<and> items q' = {#} \<and> mset xs = items q \<and> sorted (map fst xs)"
proof (induction n arbitrary: q)
  case (Suc n)
  then have "items q \<noteq> {#}" by auto
  then obtain q1 d k where 1: "pop q = Some (q1, d, k)" "inv q1" "items q = add_mset (k, d) (items q1)"
    "\<forall>x \<in># items q1. k \<le> fst x" using pop_law [OF Suc.prems(1)] by blast
  from Suc.IH [OF 1(2)] 1(3) Suc.prems(2) obtain q2 xs where
    2: "drain n q1 = Some (q2, xs)" "inv q2" "items q2 = {#}" "mset xs = items q1" "sorted (map fst xs)" by auto
  from 1(4) 2(4) have "\<forall>x \<in> set xs. k \<le> fst x" by (metis set_mset_mset)
  with 1 2 show ?case by auto
qed simp

end

section \<open>Heap order\<close>

definition heap_ok :: "'a node list \<Rightarrow> nat \<Rightarrow> bool" where
  "heap_ok xs n \<longleftrightarrow> (\<forall>j. 0 < j \<and> j < n \<longrightarrow> nd_key (xs ! ((j - 1) div 2)) \<le> nd_key (xs ! j))"

text \<open>Heap order but for the node \<open>i\<close>: against its parent, or against its children.\<close>

definition up_ok :: "'a node list \<Rightarrow> nat \<Rightarrow> nat \<Rightarrow> bool" where
  "up_ok xs n i \<longleftrightarrow>
     (\<forall>j. 0 < j \<and> j < n \<and> j \<noteq> i \<longrightarrow> nd_key (xs ! ((j - 1) div 2)) \<le> nd_key (xs ! j)) \<and>
     (\<forall>j. 0 < j \<and> j < n \<and> (j - 1) div 2 = i \<and> 0 < i \<longrightarrow> nd_key (xs ! ((i - 1) div 2)) \<le> nd_key (xs ! j))"

definition down_ok :: "'a node list \<Rightarrow> nat \<Rightarrow> nat \<Rightarrow> bool" where
  "down_ok xs n i \<longleftrightarrow>
     (\<forall>j. 0 < j \<and> j < n \<and> (j - 1) div 2 \<noteq> i \<longrightarrow> nd_key (xs ! ((j - 1) div 2)) \<le> nd_key (xs ! j)) \<and>
     (\<forall>j. 0 < j \<and> j < n \<and> (j - 1) div 2 = i \<and> 0 < i \<longrightarrow> nd_key (xs ! ((i - 1) div 2)) \<le> nd_key (xs ! j))"

definition heap_inv :: "'a heap_t \<Rightarrow> bool" where
  "heap_inv heap \<longleftrightarrow> hp_private_size heap = length (hp_data heap) \<and> hp_size heap \<le> hp_private_size heap \<and>
     hp_private_size heap < 2 ^ 31 \<and> heap_ok (hp_data heap) (hp_size heap)"

definition node_item :: "'a node \<Rightarrow> int \<times> 'a option" where
  "node_item n = (nd_key n, nd_data n)"

definition heap_items :: "'a heap_t \<Rightarrow> (int \<times> 'a option) multiset" where
  "heap_items heap = image_mset node_item (mset (take (hp_size heap) (hp_data heap)))"

lemma parent_less: "0 < (j :: nat) \<Longrightarrow> (j - 1) div 2 < j"
  by simp

lemma child_cases: "(j - 1) div 2 = i \<Longrightarrow> 0 < j \<Longrightarrow> j = 2 * i + 1 \<or> j = 2 * i + (2 :: nat)"
  by presburger

lemma heap_min: "heap_ok xs n \<Longrightarrow> i < n \<Longrightarrow> nd_key (xs ! 0) \<le> nd_key (xs ! i)"
proof (induction i rule: less_induct)
  case (less i)
  show ?case
  proof (cases "i = 0")
    case False
    then have "nd_key (xs ! ((i - 1) div 2)) \<le> nd_key (xs ! i)" using less.prems by (simp add: heap_ok_def)
    moreover have "nd_key (xs ! 0) \<le> nd_key (xs ! ((i - 1) div 2))"
      using False less.prems parent_less [of i] by (intro less.IH) auto
    ultimately show ?thesis by linarith
  qed simp
qed

lemma swap_nth:
  assumes "i < length (hp_data h)" "j < length (hp_data h)"
  shows "hp_data (swap h i j) ! k = (if k = i then hp_data h ! j else if k = j then hp_data h ! i else hp_data h ! k)"
  using assms by (auto simp: swap_def nth_list_update)

lemma swap_items:
  assumes "i < n" "j < n" "n \<le> length (hp_data h)"
  shows "mset (take n (hp_data (swap h i j))) = mset (take n (hp_data h))"
proof -
  have "take n (hp_data (swap h i j)) = (take n (hp_data h))[i := take n (hp_data h) ! j, j := take n (hp_data h) ! i]"
    using assms by (simp add: swap_def take_update_swap)
  then show ?thesis using mset_swap [of j "take n (hp_data h)" i] assms by simp
qed

lemma up_ok_swap:
  assumes ok: "up_ok xs n i" and i: "0 < i" "i < n" "n \<le> length xs" and p: "p = (i - 1) div 2"
    and gt: "nd_key (xs ! i) < nd_key (xs ! p)" and ys: "ys = xs[i := xs ! p, p := xs ! i]"
  shows "up_ok ys n p"
proof -
  have pi: "p < i" using p i(1) by simp
  have nth: "ys ! k = (if k = i then xs ! p else if k = p then xs ! i else xs ! k)" for k
    using i pi by (auto simp: ys nth_list_update)
  have edge: "nd_key (xs ! ((j - 1) div 2)) \<le> nd_key (xs ! j)" if "0 < j" "j < n" "j \<noteq> i" for j
    using ok that unfolding up_ok_def by blast
  have grand: "nd_key (xs ! p) \<le> nd_key (xs ! j)" if "0 < j" "j < n" "(j - 1) div 2 = i" for j
    using ok that i(1) p unfolding up_ok_def by blast
  have a: "nd_key (ys ! ((j - 1) div 2)) \<le> nd_key (ys ! j)" if j: "0 < j" "j < n" "j \<noteq> p" for j
  proof (cases "j = i")
    case True then show ?thesis using gt pi p by (simp add: nth)
  next
    case ji: False
    then have e: "nd_key (xs ! ((j - 1) div 2)) \<le> nd_key (xs ! j)" using edge j by blast
    consider "(j - 1) div 2 = i" | "(j - 1) div 2 = p" | "(j - 1) div 2 \<noteq> i" "(j - 1) div 2 \<noteq> p" by blast
    then show ?thesis
    proof cases
      case 1 then show ?thesis using grand [of j] j ji pi by (simp add: nth)
    next
      case 2 then show ?thesis using e gt j ji pi by (simp add: nth)
    next
      case 3 then show ?thesis using e j ji by (simp add: nth)
    qed
  qed
  have b: "nd_key (ys ! ((p - 1) div 2)) \<le> nd_key (ys ! j)" if j: "0 < j" "j < n" "(j - 1) div 2 = p" "0 < p" for j
  proof -
    have pp: "(p - 1) div 2 < p" using j(4) by simp
    have up: "nd_key (xs ! ((p - 1) div 2)) \<le> nd_key (xs ! p)" using edge [of p] j(4) pi i(2) by simp
    have jp: "j \<noteq> p" using j(1,3) parent_less [of j] by auto
    show ?thesis
    proof (cases "j = i")
      case True then show ?thesis using up pp pi by (simp add: nth)
    next
      case ji: False
      then have "nd_key (xs ! p) \<le> nd_key (xs ! j)" using edge [of j] j by simp
      then show ?thesis using up pp pi ji jp by (simp add: nth)
    qed
  qed
  from a b show ?thesis unfolding up_ok_def by blast
qed

lemma up_heap_ok:
  assumes "up_ok (hp_data h) n i" "i < n" "n \<le> length (hp_data h)"
  shows "\<exists>h'. up_heap h i = Some h' \<and> heap_ok (hp_data h') n \<and> length (hp_data h') = length (hp_data h) \<and>
    hp_size h' = hp_size h \<and> hp_private_size h' = hp_private_size h \<and>
    mset (take n (hp_data h')) = mset (take n (hp_data h))"
  using assms
proof (induction i arbitrary: h rule: less_induct)
  case (less i)
  let ?xs = "hp_data h"
  define p where "p = (i - 1) div 2"
  show ?case
  proof (cases "i = 0")
    case True
    then show ?thesis using less.prems by (subst up_heap.simps) (auto simp: up_ok_def heap_ok_def)
  next
    case False
    then have pi: "p < i" by (simp add: p_def)
    have nodes: "heap_node h p = Some (?xs ! p)" "heap_node h i = Some (?xs ! i)"
      using less.prems(2,3) pi by (auto simp: heap_node_def)
    have unf: "up_heap h i = (if nd_key (?xs ! p) > nd_key (?xs ! i) then up_heap (swap h i p) p else Some h)"
      using False by (subst up_heap.simps) (simp only: Let_def p_def [symmetric] nodes option.case prod.case if_False)
    show ?thesis
    proof (cases "nd_key (?xs ! p) > nd_key (?xs ! i)")
      case gt: True
      have "up_ok (hp_data (swap h i p)) n p"
        using up_ok_swap [OF less.prems(1) _ less.prems(2,3) p_def gt refl] False by (simp add: swap_def)
      from less.IH [OF pi this] less.prems(2,3) pi gt show ?thesis
        by (auto simp: unf swap_items)
    next
      case le: False
      then have "heap_ok ?xs n" using less.prems(1) unfolding up_ok_def heap_ok_def p_def by (metis not_less)
      then show ?thesis using le by (simp add: unf)
    qed
  qed
qed

lemma down_ok_swap:
  assumes ok: "down_ok xs n i" and m: "0 < m" "(m - 1) div 2 = i" "m < n" "n \<le> length xs"
    and gt: "nd_key (xs ! m) < nd_key (xs ! i)"
    and least: "\<And>j. 0 < j \<Longrightarrow> j < n \<Longrightarrow> (j - 1) div 2 = i \<Longrightarrow> nd_key (xs ! m) \<le> nd_key (xs ! j)"
    and ys: "ys = xs[i := xs ! m, m := xs ! i]"
  shows "down_ok ys n m"
proof -
  have im: "i < m" using m(1,2) parent_less by blast
  have nth: "ys ! k = (if k = i then xs ! m else if k = m then xs ! i else xs ! k)" for k
    using m im by (auto simp: ys nth_list_update)
  have edge: "nd_key (xs ! ((j - 1) div 2)) \<le> nd_key (xs ! j)" if "0 < j" "j < n" "(j - 1) div 2 \<noteq> i" for j
    using ok that unfolding down_ok_def by blast
  have a: "nd_key (ys ! ((j - 1) div 2)) \<le> nd_key (ys ! j)" if j: "0 < j" "j < n" "(j - 1) div 2 \<noteq> m" for j
  proof (cases "(j - 1) div 2 = i")
    case True
    then have "j \<noteq> i" using j(1) parent_less [of j] by auto
    then show ?thesis using True least [of j] gt j im by (cases "j = m") (auto simp: nth)
  next
    case False
    have e: "nd_key (xs ! ((j - 1) div 2)) \<le> nd_key (xs ! j)" using edge [of j] j False by blast
    have jm: "j \<noteq> m" using False m(2) by auto
    show ?thesis
    proof (cases "j = i")
      case True
      have "nd_key (xs ! ((i - 1) div 2)) \<le> nd_key (xs ! m)"
        using ok m True j(1) unfolding down_ok_def by blast
      moreover have "(i - 1) div 2 < i" using True j(1) by simp
      ultimately show ?thesis using True im by (simp add: nth)
    next
      case ji: False then show ?thesis using e jm False j by (simp add: nth)
    qed
  qed
  have b: "nd_key (ys ! ((m - 1) div 2)) \<le> nd_key (ys ! j)" if j: "0 < j" "j < n" "(j - 1) div 2 = m" for j
  proof -
    have "j \<noteq> m" "j \<noteq> i" using j(1,3) parent_less [of j] im by auto
    moreover have "nd_key (xs ! m) \<le> nd_key (xs ! j)" using edge [of j] j im by auto
    ultimately show ?thesis using m(2) by (simp add: nth)
  qed
  from a b show ?thesis unfolding down_ok_def by blast
qed

lemma down_ok_leaf:
  assumes "down_ok xs n i" "\<And>j. 0 < j \<Longrightarrow> j < n \<Longrightarrow> (j - 1) div 2 = i \<Longrightarrow> nd_key (xs ! i) \<le> nd_key (xs ! j)"
  shows "heap_ok xs n"
  using assms unfolding down_ok_def heap_ok_def by metis

lemma down_heap_ok:
  assumes "down_ok (hp_data h) (hp_size h) i" "hp_size h \<le> length (hp_data h)" "i < hp_size h \<or> hp_size h = 0"
  shows "\<exists>h'. down_heap h i = Some h' \<and> heap_ok (hp_data h') (hp_size h) \<and> length (hp_data h') = length (hp_data h) \<and>
    hp_size h' = hp_size h \<and> hp_private_size h' = hp_private_size h \<and>
    mset (take (hp_size h) (hp_data h')) = mset (take (hp_size h) (hp_data h))"
  using assms
proof (induction "hp_size h - i" arbitrary: h i rule: less_induct)
  case (less h i)
  let ?xs = "hp_data h" and ?n = "hp_size h"
  define l r where lr: "l = i * 2 + 1" "r = (i + 1) * 2"
  have par: "(l - 1) div 2 = i" "(r - 1) div 2 = i" "0 < l" "0 < r" "i < l" "l < r" by (simp_all add: lr)
  have child: "j = l \<or> j = r" if "0 < j" "(j - 1) div 2 = i" for j
    using child_cases [OF that(2,1)] by (auto simp: lr)
  show ?case
  proof (cases "l < ?n")
    case False
    then have "heap_ok ?xs ?n" using child by (intro down_ok_leaf [OF less.prems(1)]) (auto simp: lr)
    then show ?thesis using False by (subst down_heap.simps) (auto simp: Let_def lr)
  next
    case True
    then have i: "i < ?n" using par by linarith
    have nl: "heap_node h l = Some (?xs ! l)" "heap_node h i = Some (?xs ! i)"
      using True i less.prems(2) by (auto simp: heap_node_def)
    define m where "m = (if r < ?n \<and> \<not> nd_key (?xs ! l) < nd_key (?xs ! r) then r else l)"
    have m: "0 < m" "(m - 1) div 2 = i" "m < ?n" "i < m" using par True by (auto simp: m_def)
    have least: "nd_key (?xs ! m) \<le> nd_key (?xs ! j)" if "0 < j" "j < ?n" "(j - 1) div 2 = i" for j
      using child [OF that(1,3)] that(2) par by (auto simp: m_def)
    have unf: "down_heap h i = (if nd_key (?xs ! m) < nd_key (?xs ! i) then
        (if r < ?n then down_heap (swap h i m) m else Some (swap h i m)) else Some h)"
    proof (cases "r < ?n")
      case True
      then have "heap_node h r = Some (?xs ! r)" using less.prems(2) by (simp add: heap_node_def)
      then show ?thesis using True
        by (subst down_heap.simps)
          (simp only: Let_def lr [symmetric] nl option.case prod.case if_True m_def, auto)
    next
      case False
      then show ?thesis using \<open>l < ?n\<close>
        by (subst down_heap.simps)
          (simp only: Let_def lr [symmetric] nl option.case prod.case if_False m_def, auto)
    qed
    show ?thesis
    proof (cases "nd_key (?xs ! m) < nd_key (?xs ! i)")
      case gt: True
      have ok: "down_ok (hp_data (swap h i m)) ?n m"
        using down_ok_swap [OF less.prems(1) m(1,2,3) less.prems(2) gt least refl] by (simp add: swap_def)
      show ?thesis
      proof (cases "r < ?n")
        case True
        have "\<exists>h'. down_heap (swap h i m) m = Some h' \<and> heap_ok (hp_data h') ?n \<and> length (hp_data h') = length ?xs \<and>
            hp_size h' = ?n \<and> hp_private_size h' = hp_private_size h \<and>
            mset (take ?n (hp_data h')) = mset (take ?n (hp_data (swap h i m)))"
          using less.hyps [of "swap h i m" m] ok m i less.prems(2) by simp
        then show ?thesis using True gt i m less.prems(2) by (auto simp: unf swap_items)
      next
        case False
        then have ml: "m = l" by (simp add: m_def)
        have "heap_ok (hp_data (swap h i m)) ?n"
        proof (rule down_ok_leaf [OF ok])
          fix j assume j: "0 < j" "j < ?n" "(j - 1) div 2 = m"
          then have "j = 2 * m + 1 \<or> j = 2 * m + 2" by (metis child_cases)
          then have False using j(2) False ml by (auto simp: lr)
          then show "nd_key (hp_data (swap h i m) ! m) \<le> nd_key (hp_data (swap h i m) ! j)" ..
        qed
        then show ?thesis using False gt i m less.prems(2) by (simp add: unf swap_items)
      qed
    next
      case False
      have "heap_ok ?xs ?n"
      proof (rule down_ok_leaf [OF less.prems(1)])
        fix j assume "0 < j" "j < ?n" "(j - 1) div 2 = i"
        from least [OF this] False show "nd_key (?xs ! i) \<le> nd_key (?xs ! j)" by linarith
      qed
      then show ?thesis using False by (simp add: unf)
    qed
  qed
qed


section \<open>The heap is a priority queue\<close>

lemma heap_ok_update_end: "heap_ok xs n \<Longrightarrow> n < length xs \<Longrightarrow> up_ok (xs[n := v]) (Suc n) n"
proof -
  assume ok: "heap_ok xs n" and n: "n < length xs"
  have "nd_key (xs[n := v] ! ((j - 1) div 2)) \<le> nd_key (xs[n := v] ! j)" if "0 < j" "j < Suc n" "j \<noteq> n" for j
  proof -
    have "(j - 1) div 2 < n" using that by simp
    then show ?thesis using ok that unfolding heap_ok_def by (simp add: nth_list_update)
  qed
  moreover have False if "0 < j" "j < Suc n" "(j - 1) div 2 = n" for j
    using parent_less [OF that(1)] that by simp
  ultimately show ?thesis unfolding up_ok_def by blast
qed

lemma heap_ok_append: "heap_ok xs n \<Longrightarrow> n \<le> length xs \<Longrightarrow> heap_ok (xs @ ys) n"
  by (auto simp: heap_ok_def nth_append)

definition heap_limit :: nat where
  "heap_limit = 2 ^ 30 - 1"

lemma size_heap_items: "heap_inv h \<Longrightarrow> size (heap_items h) = hp_size h"
  by (simp add: heap_items_def heap_inv_def)

lemma make_room:
  assumes inv: "heap_inv h" and room: "hp_size h < heap_limit"
  shows "\<exists>h'. (if hp_size h = hp_private_size h then expand_heap junk h else Some h) = Some h' \<and>
    heap_inv h' \<and> heap_items h' = heap_items h \<and> hp_size h' = hp_size h \<and> hp_size h < length (hp_data h')"
proof (cases "hp_size h = hp_private_size h")
  case True
  have "hp_size h * 2 + 1 < 2 ^ 31" using room by (simp add: heap_limit_def)
  then show ?thesis using True inv
    by (auto simp: heap_inv_def expand_heap_def Let_def heap_items_def heap_ok_append)
next
  case False
  then show ?thesis using inv by (auto simp: heap_inv_def)
qed

lemma heap_insert_law:
  assumes inv: "heap_inv h" and room: "hp_size h < heap_limit"
  shows "\<exists>h'. heap_insert junk h d k = Some h' \<and> heap_inv h' \<and> heap_items h' = add_mset (k, d) (heap_items h)"
proof -
  obtain g where g: "(if hp_size h = hp_private_size h then expand_heap junk h else Some h) = Some g" "heap_inv g"
    "heap_items g = heap_items h" "hp_size g = hp_size h" "hp_size h < length (hp_data g)"
    using make_room [OF inv room] by blast
  let ?n = "hp_size g" and ?v = "\<lparr>nd_data = d, nd_key = k\<rparr>"
  let ?g = "g\<lparr>hp_data := (hp_data g)[?n := ?v]\<rparr>"
  have "up_ok (hp_data ?g) (Suc ?n) ?n"
    using heap_ok_update_end [of "hp_data g" ?n ?v] g by (simp add: heap_inv_def)
  then obtain u where u: "up_heap ?g ?n = Some u" "heap_ok (hp_data u) (Suc ?n)" "length (hp_data u) = length (hp_data g)"
    "hp_size u = ?n" "hp_private_size u = hp_private_size g"
    "mset (take (Suc ?n) (hp_data u)) = mset (take (Suc ?n) (hp_data ?g))"
    using up_heap_ok [of ?g "Suc ?n" ?n] g by auto
  have "take (Suc ?n) (hp_data ?g) = take ?n (hp_data g) @ [?v]"
    using g by (simp add: take_Suc_conv_app_nth)
  then have "mset (take (Suc ?n) (hp_data u)) = add_mset ?v (mset (take ?n (hp_data g)))" using u(6) by simp
  then have "heap_items (u\<lparr>hp_size := ?n + 1\<rparr>) = add_mset (k, d) (heap_items h)"
    using g(3) by (simp add: heap_items_def node_item_def)
  moreover have "heap_insert junk h d k = Some (u\<lparr>hp_size := ?n + 1\<rparr>)"
    using g u(1,4) by (simp add: heap_insert_def heap_node_def Let_def)
  moreover have "heap_inv (u\<lparr>hp_size := ?n + 1\<rparr>)" using u g by (simp add: heap_inv_def)
  ultimately show ?thesis by blast
qed

lemma heap_pop_law:
  assumes inv: "heap_inv h" and ne: "heap_items h \<noteq> {#}"
  shows "\<exists>h' d k. heap_pop_min_data h = Some (h', d, k) \<and> heap_inv h' \<and> heap_items h = add_mset (k, d) (heap_items h') \<and>
    (\<forall>x \<in># heap_items h'. k \<le> fst x)"
proof -
  let ?xs = "hp_data h" and ?n = "hp_size h"
  have n: "?n \<le> length ?xs" "heap_ok ?xs ?n" "?n \<noteq> 0" using inv ne by (auto simp: heap_inv_def heap_items_def)
  then have l: "?n - 1 < length ?xs" "0 < length ?xs" by linarith+
  let ?f = "?xs ! (?n - 1)"
  let ?g = "h\<lparr>hp_data := ?xs[0 := ?f], hp_size := ?n - 1\<rparr>"
  have xs: "take ?n ?xs = take (?n - 1) ?xs @ [?f]"
    using n l by (metis Suc_diff_1 neq0_conv take_Suc_conv_app_nth)
  have "down_ok (hp_data ?g) (hp_size ?g) 0"
    using n by (auto simp: down_ok_def heap_ok_def nth_list_update)
  then obtain u where u: "down_heap ?g 0 = Some u" "heap_ok (hp_data u) (?n - 1)" "length (hp_data u) = length ?xs"
    "hp_size u = ?n - 1" "hp_private_size u = hp_private_size h"
    "mset (take (?n - 1) (hp_data u)) = mset (take (?n - 1) (?xs[0 := ?f]))"
  proof -
    have "0 < hp_size ?g \<or> hp_size ?g = 0" "hp_size ?g \<le> length (hp_data ?g)" using n by auto
    from down_heap_ok [OF \<open>down_ok (hp_data ?g) (hp_size ?g) 0\<close> this(2,1)] show ?thesis using that by auto
  qed
  have "add_mset (?xs ! 0) (mset (take (?n - 1) (?xs[0 := ?f]))) = mset (take ?n ?xs)"
  proof (cases "?n = 1")
    case True then show ?thesis using xs by (simp add: take_Suc_conv_app_nth l)
  next
    case False
    then have "0 < ?n - 1" using n by simp
    then obtain a ys where "take (?n - 1) ?xs = a # ys" "a = ?xs ! 0"
      using l by (cases ?xs; cases "?n - 1") auto
    then show ?thesis using xs \<open>0 < ?n - 1\<close> by (simp add: take_update_swap)
  qed
  then have it: "heap_items h = add_mset (node_item (?xs ! 0)) (heap_items u)"
    using u(4,6) by (simp add: heap_items_def flip: image_mset_add_mset)
  have "heap_pop_min_data h = Some (u, nd_data (?xs ! 0), nd_key (?xs ! 0))"
    using n l u(1) by (simp add: heap_pop_min_data_def heap_node_def)
  moreover have "heap_inv u"
  proof -
    have "?n - 1 \<le> length ?xs" using n(1) by linarith
    then show ?thesis using u inv by (simp add: heap_inv_def)
  qed
  moreover have "nd_key (?xs ! 0) \<le> fst x" if "x \<in># heap_items u" for x
  proof -
    have "x \<in># heap_items h" using that it by simp
    then obtain i where "i < ?n" "x = node_item (?xs ! i)"
      using n(1) by (auto simp: heap_items_def in_set_conv_nth)
    then show ?thesis using heap_min [OF n(2)] by (simp add: node_item_def)
  qed
  ultimately show ?thesis using it by (auto simp: node_item_def)
qed

interpretation evq: priority_queue heap_inv heap_items "heap_insert junk" heap_pop_min_data heap_limit for junk
proof (unfold_locales, goal_cases)
  case (1 q d k) then show ?case using heap_insert_law [of q junk d k] size_heap_items [of q] by simp
next
  case (2 q) then show ?case by (rule heap_pop_law)
next
  case (3 q)
  then have "hp_size q = 0" using size_heap_items [of q] by simp
  then show ?case by (simp add: heap_pop_min_data_def)
qed

lemma init_heap_inv: "heap_inv (init_heap junk)" "heap_items (init_heap junk) = {#}"
  by (simp_all add: heap_inv_def init_heap_def STARTING_SIZE_def heap_ok_def heap_items_def)

section \<open>Properties\<close>

text \<open>Insertion refines the multiset: on a heap-ordered array with fewer than \<open>2^30 - 1\<close> nodes
  \<open>heap_insert\<close> never leaves the array, restores heap order, and adds exactly the new item,
  growing the array when it is full.\<close>

theorem heap_insert_refines:
  assumes "heap_inv h" "hp_size h < heap_limit"
  shows "\<exists>h'. heap_insert junk h d k = Some h' \<and> heap_inv h' \<and> heap_size h' = heap_size h + 1 \<and>
    heap_items h' = add_mset (k, d) (heap_items h)"
proof -
  obtain h' where h: "heap_insert junk h d k = Some h'" "heap_inv h'" "heap_items h' = add_mset (k, d) (heap_items h)"
    using heap_insert_law [OF assms] by blast
  have "size (heap_items h') = size (heap_items h) + 1" using h(3) by simp
  then show ?thesis using h size_heap_items [OF assms(1)] size_heap_items [OF h(2)] by (simp add: heap_size_def)
qed

lemma heap_insert_refines_witness:
  "\<exists>h'. heap_insert (\<lambda>_. init_node) (init_heap (\<lambda>_. init_node)) (Some (5 :: nat)) 7 = Some h' \<and> heap_inv h' \<and>
    heap_size h' = 1 \<and> heap_items h' = {#(7, Some 5)#}"
proof -
  have s: "hp_size (init_heap (\<lambda>_. init_node) :: nat heap_t) = 0" by (simp add: init_heap_def)
  then have "hp_size (init_heap (\<lambda>_. init_node) :: nat heap_t) < heap_limit" by (simp add: heap_limit_def)
  from heap_insert_refines [OF init_heap_inv(1) this, of "\<lambda>_. init_node" "Some 5" 7] s show ?thesis
    using init_heap_inv(2) [of "\<lambda>_. init_node :: nat node"] by (simp add: heap_size_def)
qed

text \<open>C20: Removal refines the multiset: on a non-empty heap-ordered array \<open>heap_pop_min_data\<close> never
  leaves the array, restores heap order, and removes one item whose key is least; the peek
  functions announce that item.\<close>

theorem heap_pop_refines:
  assumes "heap_inv h" "\<not> heap_is_empty h"
  shows "\<exists>h' d k. heap_pop_min_data h = Some (h', d, k) \<and> heap_inv h' \<and> heap_items h = add_mset (k, d) (heap_items h') \<and>
    (\<forall>x \<in># heap_items h'. k \<le> fst x) \<and> heap_get_min_key h = Some k \<and> heap_peek_min_data h = Some d"
proof -
  have n: "hp_size h \<noteq> 0" using assms(2) by (simp add: heap_is_empty_def is_empty_def)
  then have "heap_items h \<noteq> {#}" using size_heap_items [OF assms(1)] by auto
  then obtain h' d k where p: "heap_pop_min_data h = Some (h', d, k)" "heap_inv h'" "heap_items h = add_mset (k, d) (heap_items h')"
    "\<forall>x \<in># heap_items h'. k \<le> fst x" using heap_pop_law [OF assms(1)] by blast
  have "heap_node h 0 = Some (hp_data h ! 0)" "d = nd_data (hp_data h ! 0)" "k = nd_key (hp_data h ! 0)"
    using p(1) n by (auto simp: heap_pop_min_data_def heap_node_def split: if_splits bind_splits)
  then show ?thesis using p n by (auto simp: heap_get_min_key_def heap_peek_min_data_def is_empty_def)
qed

definition sample_heap :: "nat heap_t" where
  "sample_heap = \<lparr>hp_size = 3, hp_data = [\<lparr>nd_data = Some 1, nd_key = 2\<rparr>, \<lparr>nd_data = Some 2, nd_key = 9\<rparr>,
     \<lparr>nd_data = Some 3, nd_key = 4\<rparr>, init_node], hp_private_size = 4\<rparr>"

lemma heap_pop_refines_witness:
  "\<exists>h'. heap_pop_min_data sample_heap = Some (h', Some 1, 2) \<and> heap_inv h' \<and> heap_get_min_key sample_heap = Some 2"
proof -
  have k: "j = 1 \<or> j = 2" if "0 < j" "j < 3" for j :: nat using that by linarith
  have "heap_inv sample_heap" by (auto simp: heap_inv_def heap_ok_def sample_heap_def dest!: k)
  moreover have "\<not> heap_is_empty sample_heap" by (simp add: heap_is_empty_def is_empty_def sample_heap_def)
  ultimately obtain h' d k where "heap_pop_min_data sample_heap = Some (h', d, k)" "heap_inv h'"
    "heap_get_min_key sample_heap = Some k" "heap_peek_min_data sample_heap = Some d"
    using heap_pop_refines by blast
  then show ?thesis
    by (auto simp: heap_get_min_key_def heap_peek_min_data_def is_empty_def heap_node_def sample_heap_def)
qed

end
