(* ===== verification/Sim_Queue.thy ===== *)
theory Sim_Queue
  imports Sim_Heap "HOL-Library.Signed_Division"
begin

text \<open>
  The event queue and the event loop of the simulator (\<open>sim_event_queue.c\<close>,
  \<open>sim_tossim.c\<close>).  Events live in an explicit store, so that freeing one and touching it
  afterwards is visible; an access to an event that is not in the store is undefined.  The
  handlers are code of the simulated application and the power state of a mote is kept by its
  generated code: both are parameters.
\<close>

section \<open>State\<close>

datatype cleanup_fn = cleanup_none | cleanup_event | cleanup_data | cleanup_total

record sim_event =
  ev_time :: int
  ev_mote :: u32
  ev_force :: bool
  ev_cancelled :: bool
  ev_data :: "nat option"
  ev_handle :: "nat option"
  ev_cleanup :: "cleanup_fn option"

record sim_state =
  eventHeap :: "nat heap_t"
  sim_events :: "nat \<Rightarrow> sim_event option"
  sim_blocks :: "nat set"
  sim_ticks :: int
  current_node :: u32
  TOS_NODE_ID :: u16
  sim_seed :: u32

section \<open>The queue\<close>

definition sim_queue_init :: "(nat \<Rightarrow> nat node) \<Rightarrow> sim_state \<Rightarrow> sim_state" where
  "sim_queue_init junk s = s\<lparr>eventHeap := init_heap junk\<rparr>"

definition sim_queue_insert :: "(nat \<Rightarrow> nat node) \<Rightarrow> nat \<Rightarrow> sim_state \<Rightarrow> sim_state option" where
  "sim_queue_insert junk e s = do {
     ev \<leftarrow> sim_events s e;
     h \<leftarrow> heap_insert junk (eventHeap s) (Some e) (ev_time ev);
     Some (s\<lparr>eventHeap := h\<rparr>) }"

definition sim_queue_pop :: "sim_state \<Rightarrow> (sim_state \<times> nat option) option" where
  "sim_queue_pop s = do {
     (h, d, _) \<leftarrow> heap_pop_min_data (eventHeap s);
     Some (s\<lparr>eventHeap := h\<rparr>, d) }"

definition sim_queue_is_empty :: "sim_state \<Rightarrow> bool" where
  "sim_queue_is_empty s = heap_is_empty (eventHeap s)"

definition sim_queue_peek_time :: "sim_state \<Rightarrow> int option" where
  "sim_queue_peek_time s = (if heap_is_empty (eventHeap s) then Some (-1) else heap_get_min_key (eventHeap s))"

text \<open>\<open>free\<close> of NULL does nothing; freeing what is not allocated is undefined.\<close>

definition free_block :: "nat option \<Rightarrow> sim_state \<Rightarrow> sim_state option" where
  "free_block p s = (case p of None \<Rightarrow> Some s
     | Some b \<Rightarrow> if b \<in> sim_blocks s then Some (s\<lparr>sim_blocks := sim_blocks s - {b}\<rparr>) else None)"

definition free_event :: "nat \<Rightarrow> sim_state \<Rightarrow> sim_state option" where
  "free_event e s = (if sim_events s e = None then None else Some (s\<lparr>sim_events := (sim_events s)(e := None)\<rparr>))"

definition sim_queue_cleanup_none :: "nat \<Rightarrow> sim_state \<Rightarrow> sim_state option" where
  "sim_queue_cleanup_none e s = Some s"

definition sim_queue_cleanup_event :: "nat \<Rightarrow> sim_state \<Rightarrow> sim_state option" where
  "sim_queue_cleanup_event e s = free_event e s"

definition sim_queue_cleanup_data :: "nat \<Rightarrow> sim_state \<Rightarrow> sim_state option" where
  "sim_queue_cleanup_data e s = do {
     ev \<leftarrow> sim_events s e;
     s \<leftarrow> free_block (ev_data ev) s;
     Some (s\<lparr>sim_events := (sim_events s)(e \<mapsto> ev\<lparr>ev_data := None\<rparr>)\<rparr>) }"

definition sim_queue_cleanup_total :: "nat \<Rightarrow> sim_state \<Rightarrow> sim_state option" where
  "sim_queue_cleanup_total e s = do { s \<leftarrow> sim_queue_cleanup_data e s; free_event e s }"

text \<open>\<open>addr\<close> is the address \<open>malloc\<close> returns.\<close>

definition sim_queue_allocate_event :: "nat \<Rightarrow> sim_state \<Rightarrow> sim_state \<times> nat" where
  "sim_queue_allocate_event addr s =
     (s\<lparr>sim_events := (sim_events s)(addr \<mapsto> \<lparr>ev_time = 0, ev_mote = current_node s, ev_force = False, ev_cancelled = False,
        ev_data = None, ev_handle = None, ev_cleanup = None\<rparr>)\<rparr>, addr)"

section \<open>Time, node and random numbers\<close>

definition sim_time :: "sim_state \<Rightarrow> int" where
  "sim_time s = sim_ticks s"

definition sim_set_time :: "int \<Rightarrow> sim_state \<Rightarrow> sim_state" where
  "sim_set_time t s = s\<lparr>sim_ticks := t\<rparr>"

definition sim_ticks_per_sec :: int where
  "sim_ticks_per_sec = 10000000000"

definition sim_node :: "sim_state \<Rightarrow> u32" where
  "sim_node s = current_node s"

definition sim_set_node :: "u32 \<Rightarrow> sim_state \<Rightarrow> sim_state" where
  "sim_set_node node s = s\<lparr>current_node := node, TOS_NODE_ID := ucast node\<rparr>"

definition sim_random_seed :: "u32 \<Rightarrow> sim_state \<Rightarrow> sim_state" where
  "sim_random_seed seed s = s\<lparr>sim_seed := (if seed = 0 then 1 else seed)\<rparr>"

text \<open>The seed is a signed \<open>int\<close>, so it is sign-extended to 64 bits.\<close>

definition next_seed :: "u32 \<Rightarrow> u32" where
  "next_seed seed =
     (let tmpseed = (33614 :: 64 word) * scast seed;
          q = drop_bit 1 (ucast tmpseed :: u32);
          p = (ucast (drop_bit 32 tmpseed) :: u32);
          mlcg = p + q
      in if mlcg AND 0x80000000 \<noteq> 0 then (mlcg AND 0x7fffffff) + 1 else mlcg)"

definition sim_random :: "sim_state \<Rightarrow> sim_state \<times> u32" where
  "sim_random s = (s\<lparr>sim_seed := next_seed (sim_seed s)\<rparr>, next_seed (sim_seed s))"

section \<open>The event loop\<close>

definition run_cleanup :: "cleanup_fn \<Rightarrow> nat \<Rightarrow> sim_state \<Rightarrow> sim_state option" where
  "run_cleanup c e s = (case c of
     cleanup_none \<Rightarrow> sim_queue_cleanup_none e s
   | cleanup_event \<Rightarrow> sim_queue_cleanup_event e s
   | cleanup_data \<Rightarrow> sim_queue_cleanup_data e s
   | cleanup_total \<Rightarrow> sim_queue_cleanup_total e s)"

definition sim_run_next_event ::
  "(sim_state \<Rightarrow> u32 \<Rightarrow> bool) \<Rightarrow> (nat \<Rightarrow> nat \<Rightarrow> sim_state \<Rightarrow> sim_state option) \<Rightarrow> sim_state \<Rightarrow> (sim_state \<times> bool) option" where
  "sim_run_next_event is_on run s =
     (if sim_queue_is_empty s then Some (s, False)
      else do {
        (s, d) \<leftarrow> sim_queue_pop s;
        e \<leftarrow> d;
        ev \<leftarrow> sim_events s e;
        let s = sim_set_node (ev_mote ev) (sim_set_time (ev_time ev) s);
        (s, result) \<leftarrow>
          (if is_on s (ev_mote ev) \<or> ev_force ev
           then (case ev_handle ev of None \<Rightarrow> Some (s, False) | Some h \<Rightarrow> do { s \<leftarrow> run h e s; Some (s, True) })
           else Some (s, False));
        ev \<leftarrow> sim_events s e;
        s \<leftarrow> (case ev_cleanup ev of None \<Rightarrow> Some s | Some c \<Rightarrow> run_cleanup c e s);
        Some (s, result) })"


text \<open>\<open>sim_init\<close>: the log and the noise model are initialised elsewhere; the seed comes from the
  clock.\<close>

definition sim_init :: "(nat \<Rightarrow> nat node) \<Rightarrow> u32 \<Rightarrow> u32 \<Rightarrow> sim_state \<Rightarrow> sim_state" where
  "sim_init junk tv_sec tv_usec s =
     (let s = sim_queue_init junk s
      in if tv_usec \<noteq> 0 then sim_random_seed tv_usec s else sim_random_seed tv_sec s)"

definition sim_end :: "(nat \<Rightarrow> nat node) \<Rightarrow> sim_state \<Rightarrow> sim_state" where
  "sim_end junk s = sim_queue_init junk s"

text \<open>The numbers \<open>sim_print_time\<close> prints: hours, minutes, seconds and billionths.  The quotient is
  cast to \<open>int\<close>; division and remainder truncate, here on values that are not negative.\<close>

definition sim_print_time :: "int \<Rightarrow> int \<times> int \<times> int \<times> int" where
  "sim_print_time ftime =
     (let secondBillionths = ftime smod sim_ticks_per_sec;
          secondBillionths = (if sim_ticks_per_sec > 1000000000
                              then secondBillionths sdiv (sim_ticks_per_sec sdiv 1000000000)
                              else secondBillionths * (1000000000 sdiv sim_ticks_per_sec));
          seconds = sint (word_of_int (ftime sdiv sim_ticks_per_sec) :: u32);
          minutes = seconds sdiv 60;
          hours = minutes sdiv 60
      in (hours, minutes smod 60, seconds smod 60, secondBillionths))"

definition sim_print_now :: "sim_state \<Rightarrow> int \<times> int \<times> int \<times> int" where
  "sim_print_now s = sim_print_time (sim_time s)"

section \<open>The invariant of the event loop\<close>

definition queued :: "sim_state \<Rightarrow> nat option multiset" where
  "queued s = image_mset snd (heap_items (eventHeap s))"

definition frees_data :: "sim_event \<Rightarrow> bool" where
  "frees_data ev \<longleftrightarrow> ev_cleanup ev = Some cleanup_data \<or> ev_cleanup ev = Some cleanup_total"

definition frees_event :: "sim_event \<Rightarrow> bool" where
  "frees_event ev \<longleftrightarrow> ev_cleanup ev = Some cleanup_event \<or> ev_cleanup ev = Some cleanup_total"

text \<open>Every queued pointer is an allocated event, queued once, under its own time, which is not in
  the past; event data that a cleanup will free is allocated and has one owner.\<close>

definition items_ok :: "sim_state \<Rightarrow> bool" where
  "items_ok s \<longleftrightarrow> (\<forall>x \<in># heap_items (eventHeap s). \<exists>e ev. snd x = Some e \<and> sim_events s e = Some ev \<and>
     ev_time ev = fst x \<and> sim_ticks s \<le> fst x)"

definition data_ok :: "sim_state \<Rightarrow> bool" where
  "data_ok s \<longleftrightarrow> (\<forall>e ev b. sim_events s e = Some ev \<and> ev_data ev = Some b \<and> frees_data ev \<longrightarrow>
     b \<in> sim_blocks s \<and> (\<forall>e' ev'. e' \<noteq> e \<and> sim_events s e' = Some ev' \<and> frees_data ev' \<longrightarrow> ev_data ev' \<noteq> Some b))"

definition queue_inv :: "sim_state \<Rightarrow> bool" where
  "queue_inv s \<longleftrightarrow> heap_inv (eventHeap s) \<and> (\<forall>d. count (queued s) d \<le> 1) \<and> items_ok s \<and> data_ok s"

text \<open>What the loop relies on: a handler returns, keeps the invariant and the clock, does not free
  the event it was called with, and does not queue it again if its cleanup frees it.\<close>

definition handler_ok :: "(nat \<Rightarrow> nat \<Rightarrow> sim_state \<Rightarrow> sim_state option) \<Rightarrow> bool" where
  "handler_ok run \<longleftrightarrow> (\<forall>h e s. queue_inv s \<and> Some e \<notin># queued s \<and> sim_events s e \<noteq> None \<longrightarrow>
     (\<exists>s' ev. run h e s = Some s' \<and> queue_inv s' \<and> sim_ticks s' = sim_ticks s \<and> sim_events s' e = Some ev \<and>
        (frees_event ev \<longrightarrow> Some e \<notin># queued s')))"

lemma free_event_inv:
  assumes "queue_inv s" "Some e \<notin># queued s" "sim_events s e \<noteq> None"
  shows "\<exists>s'. free_event e s = Some s' \<and> queue_inv s' \<and> sim_ticks s' = sim_ticks s"
proof -
  let ?s = "s\<lparr>sim_events := (sim_events s)(e := None)\<rparr>"
  have "items_ok ?s" unfolding items_ok_def
  proof
    fix x assume x: "x \<in># heap_items (eventHeap ?s)"
    then obtain e' ev where e': "snd x = Some e'" "sim_events s e' = Some ev" "ev_time ev = fst x" "sim_ticks s \<le> fst x"
      using assms(1) by (auto simp: queue_inv_def items_ok_def)
    have "snd x \<in># queued s" using x by (simp add: queued_def)
    then have "e' \<noteq> e" using e'(1) assms(2) by auto
    then show "\<exists>e ev. snd x = Some e \<and> sim_events ?s e = Some ev \<and> ev_time ev = fst x \<and> sim_ticks ?s \<le> fst x"
      using e' by auto
  qed
  moreover have "data_ok ?s" using assms(1) by (auto simp: queue_inv_def data_ok_def)
  ultimately show ?thesis using assms by (simp add: free_event_def queue_inv_def queued_def)
qed

lemma cleanup_data_inv:
  assumes "queue_inv s" "sim_events s e = Some ev" "frees_data ev"
  shows "\<exists>s'. sim_queue_cleanup_data e s = Some s' \<and> queue_inv s' \<and> sim_ticks s' = sim_ticks s \<and>
    queued s' = queued s \<and> sim_events s' e = Some (ev\<lparr>ev_data := None\<rparr>)"
proof -
  obtain bs where f: "free_block (ev_data ev) s = Some (s\<lparr>sim_blocks := bs\<rparr>)"
    "bs = (case ev_data ev of None \<Rightarrow> sim_blocks s | Some b \<Rightarrow> sim_blocks s - {b})"
    using assms by (cases "ev_data ev") (auto simp: free_block_def queue_inv_def data_ok_def)
  let ?s = "s\<lparr>sim_blocks := bs, sim_events := (sim_events s)(e \<mapsto> ev\<lparr>ev_data := None\<rparr>)\<rparr>"
  have "items_ok ?s" using assms unfolding queue_inv_def items_ok_def by fastforce
  moreover have "data_ok ?s" unfolding data_ok_def
  proof (intro allI impI)
    fix e1 ev1 b assume a: "sim_events ?s e1 = Some ev1 \<and> ev_data ev1 = Some b \<and> frees_data ev1"
    then have e1: "e1 \<noteq> e" "sim_events s e1 = Some ev1" by (auto split: if_splits)
    then have b: "b \<in> sim_blocks s" "\<And>e' ev'. e' \<noteq> e1 \<Longrightarrow> sim_events s e' = Some ev' \<Longrightarrow> frees_data ev' \<Longrightarrow> ev_data ev' \<noteq> Some b"
      using assms(1) a unfolding queue_inv_def data_ok_def by blast+
    then have "ev_data ev \<noteq> Some b" using e1 assms(2,3) by metis
    then have "b \<in> bs" using b(1) f(2) by (auto split: option.splits)
    then show "b \<in> sim_blocks ?s \<and> (\<forall>e' ev'. e' \<noteq> e1 \<and> sim_events ?s e' = Some ev' \<and> frees_data ev' \<longrightarrow> ev_data ev' \<noteq> Some b)"
      using b(2) by auto
  qed
  ultimately show ?thesis using assms f(1) by (simp add: sim_queue_cleanup_data_def queue_inv_def queued_def)
qed

lemma cleanup_inv:
  assumes "queue_inv s" "sim_events s e = Some ev" "frees_event ev \<longrightarrow> Some e \<notin># queued s" "ev_cleanup ev = Some c"
  shows "\<exists>s'. run_cleanup c e s = Some s' \<and> queue_inv s' \<and> sim_ticks s' = sim_ticks s"
proof (cases c)
  case cleanup_none then show ?thesis using assms by (simp add: run_cleanup_def sim_queue_cleanup_none_def)
next
  case cleanup_event then show ?thesis using assms free_event_inv [of s e]
    by (simp add: run_cleanup_def sim_queue_cleanup_event_def frees_event_def)
next
  case cleanup_data then show ?thesis using assms cleanup_data_inv [of s e ev]
    by (auto simp: run_cleanup_def frees_data_def)
next
  case cleanup_total
  then obtain s1 where 1: "sim_queue_cleanup_data e s = Some s1" "queue_inv s1" "sim_ticks s1 = sim_ticks s"
    "queued s1 = queued s" "sim_events s1 e = Some (ev\<lparr>ev_data := None\<rparr>)"
    using cleanup_data_inv [OF assms(1,2)] assms(4) by (auto simp: frees_data_def)
  then show ?thesis using free_event_inv [of s1 e] assms(3,4) cleanup_total
    by (simp add: run_cleanup_def sim_queue_cleanup_total_def frees_event_def)
qed

lemma pop_inv:
  assumes inv: "queue_inv s" and ne: "\<not> sim_queue_is_empty s"
  shows "\<exists>s1 e ev. sim_queue_pop s = Some (s1, Some e) \<and> sim_events s1 = sim_events s \<and> sim_ticks s1 = sim_ticks s \<and>
    sim_events s e = Some ev \<and> sim_queue_peek_time s = Some (ev_time ev) \<and> sim_ticks s \<le> ev_time ev \<and>
    Some e \<notin># queued s1 \<and> queue_inv (s1\<lparr>sim_ticks := ev_time ev\<rparr>)"
proof -
  have h: "heap_inv (eventHeap s)" "\<not> heap_is_empty (eventHeap s)" using inv ne by (simp_all add: queue_inv_def sim_queue_is_empty_def)
  then have n: "hp_size (eventHeap s) \<noteq> 0" by (simp add: heap_is_empty_def is_empty_def)
  then have "heap_items (eventHeap s) \<noteq> {#}" using size_heap_items [OF h(1)] by auto
  from heap_pop_law [OF h(1) this] obtain h' d k where
    p: "heap_pop_min_data (eventHeap s) = Some (h', d, k)" "heap_inv h'" "heap_items (eventHeap s) = add_mset (k, d) (heap_items h')"
      "\<forall>x \<in># heap_items h'. k \<le> fst x" by blast
  from p(3) obtain e ev where e: "d = Some e" "sim_events s e = Some ev" "ev_time ev = k" "sim_ticks s \<le> k"
    using inv by (fastforce simp: queue_inv_def items_ok_def)
  have "k = nd_key (hp_data (eventHeap s) ! 0)"
    using p(1) n by (auto simp: heap_pop_min_data_def heap_node_def split: if_splits bind_splits)
  moreover have "0 < length (hp_data (eventHeap s))" using h(1) n by (auto simp: heap_inv_def)
  ultimately have peek: "sim_queue_peek_time s = Some k"
    using h(2) by (simp add: sim_queue_peek_time_def heap_get_min_key_def heap_is_empty_def heap_node_def)
  let ?s1 = "s\<lparr>eventHeap := h'\<rparr>"
  have q: "queued s = add_mset d (queued ?s1)" using p(3) by (simp add: queued_def)
  have cnt: "count (queued s) x \<le> 1" for x using inv by (simp add: queue_inv_def)
  have "count (queued ?s1) d = 0" using cnt [of d] q by simp
  then have nd: "d \<notin># queued ?s1" by (simp add: not_in_iff)
  have "count (queued ?s1) x \<le> 1" for x using cnt [of x] q by (simp split: if_splits)
  moreover have "items_ok (?s1\<lparr>sim_ticks := k\<rparr>)"
    using inv p(3,4) by (fastforce simp: queue_inv_def items_ok_def)
  moreover have "data_ok (?s1\<lparr>sim_ticks := k\<rparr>) = data_ok s" by (simp add: data_ok_def)
  ultimately have "queue_inv (?s1\<lparr>sim_ticks := k\<rparr>)"
    using inv p(2) by (simp add: queue_inv_def queued_def)
  then show ?thesis using p(1) e peek nd by (auto simp: sim_queue_pop_def)
qed

lemma inv_irrelevant [simp]:
  "queue_inv (s\<lparr>current_node := a, TOS_NODE_ID := b\<rparr>) = queue_inv s"
  "queued (s\<lparr>current_node := a, TOS_NODE_ID := b\<rparr>) = queued s"
  "queued (s\<lparr>sim_ticks := t\<rparr>) = queued s"
  by (simp_all add: queue_inv_def queued_def items_ok_def data_ok_def)

lemma run_next_inv:
  assumes inv: "queue_inv s" and run: "handler_ok run"
  shows "\<exists>s' r. sim_run_next_event is_on run s = Some (s', r) \<and> queue_inv s' \<and> sim_ticks s \<le> sim_ticks s' \<and>
    (\<not> sim_queue_is_empty s \<longrightarrow> sim_queue_peek_time s = Some (sim_ticks s')) \<and> (sim_queue_is_empty s \<longrightarrow> s' = s \<and> \<not> r)"
proof (cases "sim_queue_is_empty s")
  case True then show ?thesis using inv by (auto simp: sim_run_next_event_def)
next
  case False
  obtain s1 e ev where p: "sim_queue_pop s = Some (s1, Some e)" "sim_events s1 = sim_events s"
    "sim_events s e = Some ev" "sim_queue_peek_time s = Some (ev_time ev)" "sim_ticks s \<le> ev_time ev"
    "Some e \<notin># queued s1" "queue_inv (s1\<lparr>sim_ticks := ev_time ev\<rparr>)"
    using pop_inv [OF inv False] by blast
  define s2 where "s2 = sim_set_node (ev_mote ev) (sim_set_time (ev_time ev) s1)"
  have s2: "queue_inv s2" "Some e \<notin># queued s2" "sim_events s2 = sim_events s" "sim_ticks s2 = ev_time ev"
    using p by (simp_all add: s2_def sim_set_node_def sim_set_time_def)
  let ?run = "if is_on s2 (ev_mote ev) \<or> ev_force ev
           then (case ev_handle ev of None \<Rightarrow> Some (s2, False) | Some h \<Rightarrow> do { s \<leftarrow> run h e s2; Some (s, True) })
           else Some (s2, False)"
  have "\<exists>s3 r ev3. ?run = Some (s3, r) \<and> queue_inv s3 \<and> sim_ticks s3 = ev_time ev \<and> sim_events s3 e = Some ev3 \<and>
      (frees_event ev3 \<longrightarrow> Some e \<notin># queued s3)"
  proof (cases "(is_on s2 (ev_mote ev) \<or> ev_force ev) \<and> ev_handle ev \<noteq> None")
    case True
    then obtain h where "ev_handle ev = Some h" by auto
    moreover have "sim_events s2 e \<noteq> None" using s2(3) p(3) by simp
    then obtain s3 ev3 where "run h e s2 = Some s3" "queue_inv s3" "sim_ticks s3 = sim_ticks s2" "sim_events s3 e = Some ev3"
      "frees_event ev3 \<longrightarrow> Some e \<notin># queued s3" using run s2(1,2) unfolding handler_ok_def by blast
    ultimately show ?thesis using True s2(4) by auto
  next
    case False
    then have "?run = Some (s2, False)" by (auto split: option.splits)
    then show ?thesis using s2 p(3) by auto
  qed
  then obtain s3 r ev3 where 3: "?run = Some (s3, r)" "queue_inv s3" "sim_ticks s3 = ev_time ev"
    "sim_events s3 e = Some ev3" "frees_event ev3 \<longrightarrow> Some e \<notin># queued s3" by blast
  obtain s4 where 4: "(case ev_cleanup ev3 of None \<Rightarrow> Some s3 | Some c \<Rightarrow> run_cleanup c e s3) = Some s4"
    "queue_inv s4" "sim_ticks s4 = ev_time ev"
    using cleanup_inv [OF 3(2,4,5)] 3(2,3) by (cases "ev_cleanup ev3") auto
  have "sim_run_next_event is_on run s = Some (s4, r)"
    unfolding sim_run_next_event_def Let_def
    using False p(2,3) by (simp only: p(1) s2_def [symmetric] 3(1) 3(4) 4(1) if_False bind.bind_lunit option.case prod.case not_False_eq_True if_True)
  then show ?thesis using False p(4,5) 4(2,3) by simp
qed

section \<open>Runs of the simulator\<close>

inductive sim_run ::
  "(sim_state \<Rightarrow> u32 \<Rightarrow> bool) \<Rightarrow> (nat \<Rightarrow> nat \<Rightarrow> sim_state \<Rightarrow> sim_state option) \<Rightarrow> sim_state \<Rightarrow> sim_state \<Rightarrow> bool"
  for is_on run where
  run_start: "sim_run is_on run s s"
| run_event: "sim_run is_on run s t \<Longrightarrow> sim_run_next_event is_on run t = Some (u, r) \<Longrightarrow> sim_run is_on run s u"

lemma sim_run_inv:
  assumes "sim_run is_on run s t" "handler_ok run" "queue_inv s"
  shows "queue_inv t \<and> sim_ticks s \<le> sim_ticks t"
  using assms(1,3)
proof (induction rule: sim_run.induct)
  case (run_start s) then show ?case by simp
next
  case (run_event s t u r)
  then show ?case using run_next_inv [OF _ assms(2), of t is_on] by fastforce
qed

section \<open>The random number generator\<close>

lemma fold31:
  fixes w :: u32
  shows "unat (if w AND 0x80000000 \<noteq> 0 then (w AND 0x7fffffff) + 1 else w) =
    (if 2 ^ 31 \<le> unat w then unat w - (2 ^ 31 - 1) else unat w)"
proof -
  have u: "unat w < 2 ^ 32" using unsigned_less [of w] by simp
  have "(0x80000000 :: u32) = 2 ^ 31" by simp
  then have "w AND 0x80000000 \<noteq> 0 \<longleftrightarrow> bit w 31" by (simp only: and_exp_eq_0_iff_not_bit not_not)
  also have "\<dots> \<longleftrightarrow> odd (unat w div 2 ^ 31)" by (metis bit_iff_odd bit_unsigned_iff possible_bit_nat)
  also have "\<dots> \<longleftrightarrow> 2 ^ 31 \<le> unat w"
  proof (cases "2 ^ 31 \<le> unat w")
    case True
    then have "unat w div 2 ^ 31 = 1" using u by (simp add: div_nat_eqI)
    then show ?thesis using True by simp
  next
    case False then show ?thesis by simp
  qed
  finally have b: "w AND 0x80000000 \<noteq> 0 \<longleftrightarrow> 2 ^ 31 \<le> unat w" .
  have "(0x7fffffff :: u32) = mask 31" by (simp add: mask_eq_exp_minus_1)
  then have "w AND 0x7fffffff = take_bit 31 w" by (simp only: take_bit_eq_mask)
  then have "unat (w AND 0x7fffffff) = take_bit 31 (unat w)" by (simp only: unsigned_take_bit_eq)
  then have m: "unat (w AND 0x7fffffff) = unat w mod 2 ^ 31" by (simp only: take_bit_eq_mod)
  show ?thesis
  proof (cases "2 ^ 31 \<le> unat w")
    case True
    then have "unat w mod 2 ^ 31 = unat w - 2 ^ 31" using u by (simp add: mod_if)
    then have "unat ((w AND 0x7fffffff) + 1) = unat w - 2 ^ 31 + 1"
      using u m True by (simp add: unat_word_ariths)
    then show ?thesis using b True by simp
  next
    case False then show ?thesis using b by simp
  qed
qed

lemma carta_step:
  fixes x :: nat
  assumes "x < 2 ^ 46" "\<not> (2 ^ 31 - 1) dvd x"
  defines "m \<equiv> x div 2 ^ 31 + x mod 2 ^ 31"
  shows "(if 2 ^ 31 \<le> m then m - (2 ^ 31 - 1) else m) = x mod (2 ^ 31 - 1)"
proof -
  let ?P = "2 ^ 31 - 1 :: nat"
  have P: "2 ^ 31 = ?P + 1" by simp
  have "x = (?P + 1) * (x div 2 ^ 31) + x mod 2 ^ 31" by (simp add: mult_div_mod_eq)
  then have x: "x = ?P * (x div 2 ^ 31) + m" unfolding m_def by (simp add: algebra_simps)
  have d: "x div 2 ^ 31 < 2 ^ 15" using assms(1) by (simp add: div_less_iff_less_mult)
  have mp: "x mod ?P = m mod ?P" by (subst x) (simp only: mod_mult_self4)
  have ne: "x mod ?P \<noteq> 0" using assms(2) by (simp add: dvd_eq_mod_eq_0)
  have "x mod 2 ^ 31 < 2 ^ 31" by simp
  then have ml: "m < 2 ^ 31 + 2 ^ 15" unfolding m_def using d by linarith
  show ?thesis
  proof (cases "2 ^ 31 \<le> m")
    case True
    then have "m mod ?P = m - ?P" using ml by (simp add: mod_if)
    then show ?thesis using True mp by simp
  next
    case False
    then have "m \<le> ?P" by simp
    moreover have "m \<noteq> ?P" using ne mp by auto
    ultimately show ?thesis using False mp by simp
  qed
qed

lemma seed_not_multiple:
  assumes "0 < (s :: nat)" "s < 2 ^ 31 - 1"
  shows "\<not> (2 ^ 31 - 1) dvd 16807 * s"
proof
  assume "(2 ^ 31 - 1) dvd 16807 * s"
  then have "(2 ^ 31 - 1) dvd 1407677000 * (16807 * s)" by (rule dvd_mult)
  moreover have "1407677000 * (16807 * s) = (2 ^ 31 - 1) * (11017 * s) + s" by simp
  ultimately have "(2 ^ 31 - 1) dvd s" by (metis dvd_add_right_iff dvd_triv_left)
  then show False using assms by (auto dest: dvd_imp_le)
qed

lemma unat_of_nat64: "n < 2 ^ 64 \<Longrightarrow> unat (of_nat n :: 64 word) = n"
  by (simp add: unsigned_of_nat take_bit_nat_eq_self)

lemma next_seed_val:
  assumes "0 < unat s" "unat s < 2 ^ 31 - 1"
  shows "unat (next_seed s) = 16807 * unat s mod (2 ^ 31 - 1)"
proof -
  let ?x = "16807 * unat s"
  define t where "t = (33614 :: 64 word) * scast s"
  have "int (unat s) < 2 ^ 31" using assms(2) by (simp del: of_nat_unat)
  then have "uint s < 2 ^ 31" by (simp only: of_nat_unat)
  then have si: "sint s = int (unat s)"
  proof -
    assume u: "uint s < 2 ^ 31"
    have "- (2 ^ 31) \<le> uint s" by (rule order_trans [of _ 0]) simp_all
    then have "signed_take_bit 31 (uint s) = uint s" using u by (rule signed_take_bit_int_eq_self)
    then show ?thesis by (simp add: sint_uint)
  qed
  have sc: "(scast s :: 64 word) = of_nat (unat s)"
    by (simp only: scast_eq si of_int_of_nat_eq)
  have t: "unat t = 2 * ?x"
  proof -
    have "unat (of_nat (unat s) :: 64 word) = unat s" using assms(2) by (intro unat_of_nat64) simp
    then show ?thesis using assms(2) unfolding t_def sc
      by (simp only: unat_word_ariths(2)) (simp add: mod_less)
  qed
  have q: "unat (drop_bit 1 (ucast t :: u32)) = ?x mod 2 ^ 31"
  proof -
    have "unat (drop_bit 1 (ucast t :: u32)) = unat (ucast t :: u32) div 2"
      by (simp only: drop_bit_eq_div unat_div_distrib power_one_right) simp
    also have "unat (ucast t :: u32) = (2 * ?x) mod 2 ^ 32" by (simp add: unsigned_ucast_eq take_bit_eq_mod t)
    also have "(2 * ?x) mod 2 ^ 32 = 2 * (?x mod 2 ^ 31)" by (simp add: mult_mod_right)
    finally show ?thesis by simp
  qed
  have p: "unat (ucast (drop_bit 32 t) :: u32) = ?x div 2 ^ 31"
  proof -
    have "unat (drop_bit 32 t) = 2 * ?x div 2 ^ 32" by (simp only: drop_bit_eq_div unat_div_distrib t) simp
    also have "\<dots> = ?x div 2 ^ 31" by simp
    finally show ?thesis using assms(2) by (simp add: unsigned_ucast_eq take_bit_nat_eq_self)
  qed
  have "unat (ucast (drop_bit 32 t) + drop_bit 1 (ucast t) :: u32) = ?x div 2 ^ 31 + ?x mod 2 ^ 31"
  proof -
    have "?x div 2 ^ 31 < 16807" "?x mod 2 ^ 31 < 2 ^ 31" using assms(2) by (simp_all add: div_less_iff_less_mult)
    then have "?x div 2 ^ 31 + ?x mod 2 ^ 31 < 2 ^ LENGTH(32)" by simp
    then show ?thesis using p q by (simp only: unat_word_ariths) (simp only: mod_less)
  qed
  then show ?thesis
    using carta_step [of ?x] seed_not_multiple [OF assms] assms(2)
    by (simp only: next_seed_def Let_def t_def [symmetric] fold31) simp
qed


section \<open>Properties\<close>

text \<open>C8: The event loop is safe and its clock is monotone.  The handlers are assumed to keep this
  contract: they return, they keep the clock and the consistency of the queue, they leave their own
  event allocated, and they do not put it into the queue again when its cleanup function is one that frees
  the event afterwards.  Then from any state whose queue is consistent every call of
  \<open>sim_run_next_event\<close> in a run of any length succeeds (no event is used after it was freed,
  freed twice, or read outside the heap), keeps the queue consistent, never sets the clock
  back, and sets it to the time that \<open>sim_queue_peek_time\<close> announced.\<close>

theorem sim_loop_safe:
  assumes "handler_ok run" "queue_inv s" "sim_run is_on run s t"
  shows "queue_inv t \<and> sim_ticks s \<le> sim_ticks t \<and>
    (\<exists>u r. sim_run_next_event is_on run t = Some (u, r) \<and> sim_ticks t \<le> sim_ticks u \<and>
       (\<not> sim_queue_is_empty t \<longrightarrow> sim_queue_peek_time t = Some (sim_ticks u)) \<and>
       (sim_queue_is_empty t \<longrightarrow> u = t \<and> \<not> r))"
  using sim_run_inv [OF assms(3,1,2)] run_next_inv [of t run is_on] assms(1) by blast

text \<open>Two events: the first is freed after it ran, the second stays.  The handlers store their number.\<close>

definition busy_sim :: sim_state where
  "busy_sim = \<lparr>eventHeap = \<lparr>hp_size = 2, hp_data = [\<lparr>nd_data = Some 3, nd_key = 5\<rparr>, \<lparr>nd_data = Some 4, nd_key = 9\<rparr>], hp_private_size = 2\<rparr>,
     sim_events = [3 \<mapsto> \<lparr>ev_time = 5, ev_mote = 1, ev_force = False, ev_cancelled = False, ev_data = None, ev_handle = Some 6,
                        ev_cleanup = Some cleanup_event\<rparr>,
                   4 \<mapsto> \<lparr>ev_time = 9, ev_mote = 2, ev_force = False, ev_cancelled = False, ev_data = None, ev_handle = Some 7,
                        ev_cleanup = Some cleanup_none\<rparr>],
     sim_blocks = {}, sim_ticks = 0, current_node = 0, TOS_NODE_ID = 0, sim_seed = 1\<rparr>"

definition demo_run :: "nat \<Rightarrow> nat \<Rightarrow> sim_state \<Rightarrow> sim_state option" where
  "demo_run h e s = Some (s\<lparr>sim_seed := of_nat h\<rparr>)"

lemma demo_run_ok: "handler_ok demo_run"
  by (auto simp: handler_ok_def demo_run_def queue_inv_def queued_def items_ok_def data_ok_def)

lemma busy_inv: "queue_inv busy_sim"
proof -
  have "heap_inv (eventHeap busy_sim)"
    by (simp add: busy_sim_def heap_inv_def heap_ok_def)
  moreover have it: "heap_items (eventHeap busy_sim) = {#(5, Some 3), (9, Some 4)#}"
    by (simp add: busy_sim_def heap_items_def node_item_def)
  then have "items_ok busy_sim" by (auto simp: items_ok_def) (simp_all add: busy_sim_def)
  moreover have "count (queued busy_sim) x \<le> 1" for x using it by (auto simp: queued_def)
  moreover have "data_ok busy_sim" by (auto simp: data_ok_def busy_sim_def split: if_splits)
  ultimately show ?thesis by (simp add: queue_inv_def)
qed

lemma sim_loop_safe_witness:
  "\<exists>t u r. sim_run_next_event (\<lambda>_ _. True) demo_run busy_sim = Some (t, True) \<and> sim_ticks t = 5 \<and> sim_seed t = 6 \<and>
    sim_events t 3 = None \<and> queue_inv t \<and> \<not> sim_queue_is_empty t \<and>
    sim_run_next_event (\<lambda>_ _. True) demo_run t = Some (u, r) \<and> sim_ticks u = 9"
proof -
  obtain t where t: "sim_run_next_event (\<lambda>_ _. True) demo_run busy_sim = Some (t, True)" "sim_ticks t = 5" "sim_seed t = 6"
    "sim_events t 3 = None" "\<not> sim_queue_is_empty t" "sim_queue_peek_time t = Some 9"
    by (simp add: busy_sim_def demo_run_def sim_run_next_event_def sim_queue_is_empty_def heap_is_empty_def is_empty_def
        sim_queue_pop_def heap_pop_min_data_def heap_node_def down_heap.simps Let_def sim_set_time_def sim_set_node_def
        run_cleanup_def sim_queue_cleanup_event_def free_event_def sim_queue_peek_time_def heap_get_min_key_def)
  have "sim_run (\<lambda>_ _. True) demo_run busy_sim t" by (rule run_event [OF run_start t(1)])
  from sim_loop_safe [OF demo_run_ok busy_inv this] show ?thesis using t by auto
qed

definition idle_sim :: sim_state where
  "idle_sim = \<lparr>eventHeap = init_heap (\<lambda>_. init_node), sim_events = Map.empty, sim_blocks = {}, sim_ticks = 0,
     current_node = 0, TOS_NODE_ID = 0, sim_seed = 1\<rparr>"

lemma idle_inv: "queue_inv idle_sim"
  by (simp add: idle_sim_def queue_inv_def init_heap_inv queued_def items_ok_def data_ok_def)

text \<open>Scheduling keeps the loop safe: an event allocated at an address that is not in use, given a
  time that is not in the past and any cleanup that frees no data, is queued without error,
  the queue stays consistent, and the queue is not empty afterwards.\<close>

theorem schedule_keeps_inv:
  assumes "queue_inv s" "sim_events s addr = None" "sim_ticks s \<le> t" "hp_size (eventHeap s) < heap_limit"
  shows "\<exists>s2. (case sim_queue_allocate_event addr s of (s1, e) \<Rightarrow>
      sim_queue_insert junk e (s1\<lparr>sim_events := (sim_events s1)(e := map_option (\<lambda>ev. ev\<lparr>ev_time := t, ev_handle := h, ev_cleanup := c\<rparr>)
        (sim_events s1 e))\<rparr>)) = Some s2 \<and>
    queue_inv s2 \<and> \<not> sim_queue_is_empty s2 \<and> queued s2 = add_mset (Some addr) (queued s)"
proof -
  define ev where "ev = \<lparr>ev_time = t, ev_mote = current_node s, ev_force = False, ev_cancelled = False,
        ev_data = None, ev_handle = h, ev_cleanup = c\<rparr>"
  let ?s1 = "s\<lparr>sim_events := (sim_events s)(addr \<mapsto> ev)\<rparr>"
  obtain g where g: "heap_insert junk (eventHeap s) (Some addr) t = Some g" "heap_inv g"
    "heap_items g = add_mset (t, Some addr) (heap_items (eventHeap s))"
    using heap_insert_law [of "eventHeap s" junk "Some addr" t] assms(1,4) by (auto simp: queue_inv_def)
  let ?s2 = "?s1\<lparr>eventHeap := g\<rparr>"
  have new: "Some addr \<notin># queued s"
  proof
    assume "Some addr \<in># queued s"
    then obtain x where "x \<in># heap_items (eventHeap s)" "snd x = Some addr" by (auto simp: queued_def)
    then show False using assms(1,2) by (fastforce simp: queue_inv_def items_ok_def)
  qed
  have q: "queued ?s2 = add_mset (Some addr) (queued s)" using g(3) by (simp add: queued_def)
  have "count (queued ?s2) d \<le> 1" for d
    using assms(1) new q by (cases "d = Some addr") (simp_all add: queue_inv_def not_in_iff)
  moreover have "items_ok ?s2" unfolding items_ok_def
  proof
    fix x assume "x \<in># heap_items (eventHeap ?s2)"
    then consider "x = (t, Some addr)" | "x \<in># heap_items (eventHeap s)" using g(3) by auto
    then show "\<exists>e ev. snd x = Some e \<and> sim_events ?s2 e = Some ev \<and> ev_time ev = fst x \<and> sim_ticks ?s2 \<le> fst x"
    proof cases
      case 1 then show ?thesis using assms(3) by (simp add: ev_def)
    next
      case 2
      then obtain e ev' where "snd x = Some e" "sim_events s e = Some ev'" "ev_time ev' = fst x" "sim_ticks s \<le> fst x"
        using assms(1) by (auto simp: queue_inv_def items_ok_def)
      then show ?thesis using assms(2) by (intro exI [of _ e] exI [of _ ev']) auto
    qed
  qed
  moreover have "data_ok ?s2" using assms(1) by (auto simp: queue_inv_def data_ok_def ev_def)
  moreover have "\<not> sim_queue_is_empty ?s2"
    using size_heap_items [OF g(2)] g(3) by (simp add: sim_queue_is_empty_def heap_is_empty_def is_empty_def)
  ultimately show ?thesis using g(1,2) q
    by (simp add: sim_queue_allocate_event_def sim_queue_insert_def queue_inv_def ev_def)
qed

lemma schedule_keeps_inv_witness:
  "\<exists>s1 s2. sim_queue_allocate_event 5 idle_sim = (s1, 5) \<and>
    sim_queue_insert (\<lambda>_. init_node) 5 (s1\<lparr>sim_events := (sim_events s1)(5 := map_option
        (\<lambda>ev. ev\<lparr>ev_time := 3, ev_handle := None, ev_cleanup := Some cleanup_event\<rparr>) (sim_events s1 5))\<rparr>) = Some s2 \<and>
    queue_inv s2 \<and> queued s2 = {#Some 5#}"
proof -
  have "queued idle_sim = {#}" by (simp add: queued_def idle_sim_def init_heap_inv)
  moreover have "sim_events idle_sim 5 = None" "sim_ticks idle_sim \<le> 3" "hp_size (eventHeap idle_sim) < heap_limit"
    by (simp_all add: idle_sim_def init_heap_def heap_limit_def)
  ultimately show ?thesis
    using schedule_keeps_inv [OF idle_inv, where addr = 5 and t = 3 and junk = "\<lambda>_. init_node" and h = None and c = "Some cleanup_event"]
    by (auto simp: sim_queue_allocate_event_def)
qed

text \<open>C30: Carta's generator: from every seed in \<open>1 .. 2^31 - 2\<close> the shift-and-add code of \<open>sim_random\<close>
  computes \<open>16807 * seed mod (2^31 - 1)\<close>, without the division, and the new seed is in that
  range again, so the sequence never wedges at zero.\<close>

theorem sim_random_carta:
  assumes "0 < unat (sim_seed s)" "unat (sim_seed s) < 2 ^ 31 - 1"
  shows "\<exists>s'. sim_random s = (s', sim_seed s') \<and> unat (sim_seed s') = 16807 * unat (sim_seed s) mod (2 ^ 31 - 1) \<and>
    0 < unat (sim_seed s') \<and> unat (sim_seed s') < 2 ^ 31 - 1"
proof -
  have v: "unat (next_seed (sim_seed s)) = 16807 * unat (sim_seed s) mod (2 ^ 31 - 1)" by (rule next_seed_val [OF assms])
  have "16807 * unat (sim_seed s) mod (2 ^ 31 - 1) \<noteq> 0"
    using seed_not_multiple [OF assms] by (simp only: dvd_eq_mod_eq_0) simp
  moreover have "16807 * unat (sim_seed s) mod (2 ^ 31 - 1) < 2 ^ 31 - 1" by simp
  ultimately show ?thesis using v by (simp add: sim_random_def)
qed

lemma sim_random_carta_witness:
  "\<exists>s'. sim_random idle_sim = (s', sim_seed s') \<and> unat (sim_seed s') = 16807"
  using sim_random_carta [of idle_sim] by (auto simp: idle_sim_def)

text \<open>The printed time is the clock: for every time of less than \<open>2^31\<close> seconds the four numbers of
  \<open>sim_print_time\<close> are in range and add up to the time in nanoseconds, rounded down.\<close>

theorem sim_print_time_exact:
  assumes "0 \<le> t" "t < 2 ^ 31 * sim_ticks_per_sec"
  shows "case sim_print_time t of (h, m, s, b) \<Rightarrow>
    0 \<le> h \<and> 0 \<le> m \<and> m < 60 \<and> 0 \<le> s \<and> s < 60 \<and> 0 \<le> b \<and> b < 1000000000 \<and>
    ((h * 60 + m) * 60 + s) * 1000000000 + b = t div 10"
proof -
  let ?q = "t div 10000000000"
  have q: "0 \<le> ?q" "?q < 2 ^ 31" using assms by (simp_all add: sim_ticks_per_sec_def div_less_iff_less_mult pos_imp_zdiv_nonneg_iff)
  have s: "sint (word_of_int ?q :: u32) = ?q"
    using q by (simp add: sint_uint signed_take_bit_int_eq_self unsigned_of_int take_bit_int_eq_self)
  define q where "q = ?q"
  have q0: "0 \<le> q" using q(1) by (simp only: q_def)
  have pos: "x sdiv y = x div y" "x smod y = x mod y" if "0 \<le> x" "0 < y" for x y :: int
    using that by (simp_all add: signed_divide_int_def signed_modulo_int_def sgn_if)
  have r: "0 \<le> q div 60" "0 \<le> q div 60 div 60" "0 \<le> q div 60 mod 60" "q div 60 mod 60 < 60" "0 \<le> q mod 60" "q mod 60 < 60"
    using q0 by (simp_all add: pos_imp_zdiv_nonneg_iff)
  have e: "t sdiv sim_ticks_per_sec = q" "t smod sim_ticks_per_sec = t mod 10000000000"
    "sim_ticks_per_sec sdiv 1000000000 = 10" "(1000000000 :: int) < sim_ticks_per_sec"
    using assms(1) pos [of t 10000000000] pos [of 10000000000 1000000000] by (simp_all add: sim_ticks_per_sec_def q_def)
  have m: "0 \<le> t mod 10000000000" by simp
  have "sim_print_time t = (q sdiv 60 sdiv 60, q sdiv 60 smod 60, q smod 60, (t mod 10000000000) sdiv 10)"
    unfolding sim_print_time_def Let_def e using e(4) s by (simp only: q_def [symmetric] if_True)
  then have v: "sim_print_time t = (q div 60 div 60, q div 60 mod 60, q mod 60, t mod 10000000000 div 10)"
    by (simp only: pos [of q 60, OF q0 zero_less_numeral] pos [of "q div 60" 60, OF r(1) zero_less_numeral]
        pos [of "t mod 10000000000" 10, OF m zero_less_numeral])
  have hms: "(q div 60 div 60 * 60 + q div 60 mod 60) * 60 + q mod 60 = q" by (simp only: div_mult_mod_eq)
  have n: "q * 1000000000 + t mod 10000000000 div 10 = t div 10"
  proof -
    have "t = t mod 10000000000 + (q * 1000000000) * 10" unfolding q_def by simp
    then have "t div 10 = (t mod 10000000000 + (q * 1000000000) * 10) div 10" by simp
    also have "\<dots> = q * 1000000000 + t mod 10000000000 div 10" by (rule div_mult_self1) simp
    finally show ?thesis by simp
  qed
  have b: "0 \<le> t mod 10000000000 div 10" "t mod 10000000000 div 10 < 1000000000"
    by (simp_all add: pos_imp_zdiv_nonneg_iff div_less_iff_less_mult)
  show ?thesis unfolding v prod.case hms n using r b by blast
qed

lemma sim_print_time_exact_witness: "sim_print_time 36620000000070 = (1, 1, 2, 7)"
  using sim_print_time_exact [of 36620000000070]
  by (simp add: sim_print_time_def sim_ticks_per_sec_def Let_def signed_divide_int_def signed_modulo_int_def)

end
