(* ===== verification/Circ_Buf.thy ===== *)
theory Circ_Buf
  imports Iovec
begin


text \<open>
  The circular transmit buffer of the TCP library (\<open>circ.c\<close>).  The structure sits at the start
  of the memory it manages; \<open>cb_data\<close> is the memory behind it, from \<open>data_start\<close> on, and
  \<open>data_head\<close> is the offset of the head pointer from \<open>data_start\<close>.  The byte with sequence
  number \<open>head_seqno + k\<close> is \<open>k\<close> bytes behind the head, modulo the length.
\<close>

section \<open>The code\<close>

record circ_buf =
  cb_data :: mem
  data_head :: int
  data_len :: u16
  head_seqno :: u32

text \<open>The structure has two pointers, a halfword, two bytes of padding and a word.\<close>

definition SIZEOF_CIRC_BUF :: int where "SIZEOF_CIRC_BUF = 16"

text \<open>The length is compared as an unsigned number, as \<open>sizeof\<close> is one.\<close>

definition circ_buf_init :: "circ_buf \<Rightarrow> int \<Rightarrow> u32 \<Rightarrow> circ_buf \<times> int" where
  "circ_buf_init b len seqno =
     (if (word_of_int len :: u32) < word_of_int SIZEOF_CIRC_BUF then (b, -1)
      else (b\<lparr>data_head := 0, data_len := word_of_int (len - SIZEOF_CIRC_BUF), head_seqno := seqno\<rparr>, 0))"

definition circ_get_seqno :: "circ_buf \<Rightarrow> u32" where
  "circ_get_seqno b = head_seqno b"

definition circ_set_seqno :: "circ_buf \<Rightarrow> u32 \<Rightarrow> circ_buf" where
  "circ_set_seqno b seqno = b\<lparr>head_seqno := seqno\<rparr>"

definition get_ptr_off_1 :: "circ_buf \<Rightarrow> u32 \<Rightarrow> int \<Rightarrow> int \<times> int" where
  "get_ptr_off_1 b sseqno len =
     (let endptr = uint (data_len b);
          offset = sint (sseqno - head_seqno b);
          writeptr = (if data_head b + offset < endptr then data_head b + offset
                      else offset - (endptr - data_head b));
          w_len = (if writeptr + len > endptr then endptr - writeptr else len)
      in (writeptr, w_len))"

text \<open>The loop of \<open>circ_shorten_head\<close>; with an empty buffer it does not return.\<close>

function wrap_head :: "int \<Rightarrow> int \<Rightarrow> int option" where
  "wrap_head len p = (if p > len then if len = 0 then None else if 0 < len then wrap_head len (p - len) else None else Some p)"
  by pat_completeness auto
termination by (relation "measure (\<lambda>(len, p). nat p)") auto

declare wrap_head.simps [simp del]

definition circ_shorten_head :: "circ_buf \<Rightarrow> u32 \<Rightarrow> (circ_buf \<times> int) option" where
  "circ_shorten_head b seqno = do {
     let offset = sint (seqno - head_seqno b);
     h \<leftarrow> wrap_head (uint (data_len b)) (data_head b + offset);
     Some (b\<lparr>head_seqno := seqno, data_head := h\<rparr>, 0) }"

text \<open>\<open>memcpy\<close> out of a block and into a block, with pointer and length as the code computes them.\<close>

definition copy_from :: "mem \<Rightarrow> int \<Rightarrow> int \<Rightarrow> u8 list option" where
  "copy_from m p n = (if 0 \<le> p \<and> 0 \<le> n then rdn m (nat p) (nat n) else None)"

definition copy_to :: "mem \<Rightarrow> int \<Rightarrow> u8 list \<Rightarrow> mem option" where
  "copy_to m p bs = (if 0 \<le> p then wrn m (nat p) bs else None)"

text \<open>The bytes written to \<open>data\<close>, and the return value.\<close>

definition circ_buf_read :: "circ_buf \<Rightarrow> u32 \<Rightarrow> int \<Rightarrow> (u8 list \<times> int) option" where
  "circ_buf_read b sseqno len = do {
     let (readptr, r_len) = get_ptr_off_1 b sseqno len;
     d \<leftarrow> copy_from (cb_data b) readptr r_len;
     (if r_len \<noteq> len then do {
        let r2 = min (len - r_len) (data_head b);
        d2 \<leftarrow> copy_from (cb_data b) 0 r2;
        Some (d @ d2, r_len + r2) }
      else Some (d, r_len)) }"

definition circ_buf_write :: "circ_buf \<Rightarrow> u32 \<Rightarrow> u8 list \<Rightarrow> int \<Rightarrow> (circ_buf \<times> int) option" where
  "circ_buf_write b sseqno data len =
     (if sseqno > head_seqno b + ucast (data_len b) then Some (b, -1)
      else if len = 0 then Some (b, 0)
      else do {
        let (writeptr, w_len) = get_ptr_off_1 b sseqno len;
        d \<leftarrow> copy_from data 0 w_len;
        m \<leftarrow> copy_to (cb_data b) writeptr d;
        (if w_len \<noteq> len then do {
           let w2 = min (len - w_len) (data_head b);
           d \<leftarrow> copy_from data w_len w2;
           m \<leftarrow> copy_to m 0 d;
           Some (b\<lparr>cb_data := m\<rparr>, 0) }
         else Some (b\<lparr>cb_data := m\<rparr>, 0)) })"

section \<open>The window\<close>

definition cb_len :: "circ_buf \<Rightarrow> nat" where
  "cb_len b = unat (data_len b)"

definition circ_ok :: "circ_buf \<Rightarrow> bool" where
  "circ_ok b \<longleftrightarrow> 0 < cb_len b \<and> cb_len b \<le> length (cb_data b) \<and> 0 \<le> data_head b \<and> data_head b \<le> int (cb_len b)"

text \<open>What the buffer holds, in sequence order from the head.\<close>

definition window :: "circ_buf \<Rightarrow> u8 list" where
  "window b = map (\<lambda>k. cb_data b ! ((nat (data_head b) + k) mod cb_len b)) [0..<cb_len b]"

lemma length_window [simp]: "length (window b) = cb_len b"
  by (simp add: window_def)

lemma cb_len_less: "cb_len b < 65536"
  using unsigned_less [of "data_len b"] by (simp add: cb_len_def)

lemma uint_data_len: "uint (data_len b) = int (cb_len b)"
  by (simp add: cb_len_def)

lemma sint_small:
  assumes "k < 2 ^ 31"
  shows "sint (of_nat k :: u32) = int k"
proof -
  have "uint (of_nat k :: u32) = int k" using assms by (simp add: unsigned_of_nat take_bit_nat_eq_self)
  then have "sint (of_nat k :: u32) = signed_take_bit 31 (int k)" by (simp add: sint_uint)
  also have "\<dots> = int k" by (rule signed_take_bit_int_eq_self) (use assms in auto)
  finally show ?thesis .
qed

lemma offset_of: "k \<le> 65536 \<Longrightarrow> sint (s + of_nat k - s :: u32) = int k"
  using sint_small [of k] by simp

lemma window_nth: "k < cb_len b \<Longrightarrow> window b ! k = cb_data b ! ((nat (data_head b) + k) mod cb_len b)"
  by (simp add: window_def)

lemma circ_okE:
  assumes "circ_ok b"
  obtains h where "data_head b = int h" "h \<le> cb_len b" "cb_len b \<le> length (cb_data b)" "0 < cb_len b"
    "\<And>k. k < cb_len b \<Longrightarrow> window b ! k = cb_data b ! (if h + k < cb_len b then h + k else h + k - cb_len b)"
proof -
  obtain h where h: "data_head b = int h" using assms nonneg_int_cases by (auto simp: circ_ok_def)
  then have "h \<le> cb_len b" using assms by (simp add: circ_ok_def)
  moreover from this have "(h + k) mod cb_len b = (if h + k < cb_len b then h + k else h + k - cb_len b)" if "k < cb_len b" for k
    using that by (auto simp: mod_if)
  ultimately show ?thesis using that h assms by (simp add: circ_ok_def window_nth)
qed

lemma circ_ok_nth:
  assumes "circ_ok b" "data_head b = int h" "cb_len b = n" "k < n"
  shows "window b ! k = cb_data b ! (if h + k < n then h + k else h + k - n)"
  using assms by (auto elim: circ_okE)

text \<open>The pointer arithmetic in closed form.\<close>

lemma get_ptr:
  assumes h: "data_head b = int h" "h \<le> cb_len b" and kn: "k + n \<le> cb_len b"
  shows "get_ptr_off_1 b (head_seqno b + of_nat k) (int n) =
    (if h + k < cb_len b then (int (h + k), int (min n (cb_len b - (h + k)))) else (int (h + k - cb_len b), int n))"
proof -
  define L where "L = cb_len b"
  have s: "sint (head_seqno b + of_nat k - head_seqno b) = int k"
    using kn cb_len_less [of b] by (intro offset_of) simp
  have g: "get_ptr_off_1 b (head_seqno b + of_nat k) (int n) =
    (let w = (if int h + int k < int L then int h + int k else int k - (int L - int h))
     in (w, if w + int n > int L then int L - w else int n))"
    unfolding get_ptr_off_1_def Let_def s h(1) uint_data_len L_def by simp
  show ?thesis
  proof (cases "h + k < L")
    case True
    then have "int h + int k < int L" by linarith
    then show ?thesis using True unfolding g L_def [symmetric] by (auto simp: Let_def min_def of_nat_diff)
  next
    case False
    then have "\<not> int h + int k < int L" by linarith
    moreover have "int k - (int L - int h) = int (h + k - L)" using False by simp
    moreover have "\<not> int (h + k - L) + int n > int L" using False h(2) kn unfolding L_def [symmetric] by linarith
    ultimately show ?thesis using False unfolding g L_def [symmetric] by (simp add: Let_def)
  qed
qed

lemma copy_from_nat [simp]: "p + n \<le> length m \<Longrightarrow> copy_from m (int p) (int n) = Some (take n (drop p m))"
  by (simp add: copy_from_def rdn_def)

lemma copy_to_nat [simp]: "p + length bs \<le> length m \<Longrightarrow> copy_to m (int p) bs = Some (put m p bs)"
  by (simp add: copy_to_def wrn_def)

lemma read_window:
  assumes ok: "circ_ok b" and kn: "k + n \<le> cb_len b"
  shows "circ_buf_read b (head_seqno b + of_nat k) (int n) = Some (take n (drop k (window b)), int n)"
proof -
  let ?L = "cb_len b" and ?m = "cb_data b"
  obtain h where h: "data_head b = int h" "h \<le> ?L" "?L \<le> length ?m" "0 < ?L"
    and w: "\<And>i. i < ?L \<Longrightarrow> window b ! i = ?m ! (if h + i < ?L then h + i else h + i - ?L)"
    using circ_okE [OF ok] by blast
  note p = get_ptr [OF h(1,2) kn]
  show ?thesis
  proof (cases "h + k < ?L \<and> ?L < h + k + n")
    case True
    let ?r = "?L - (h + k)"
    have r: "?r < n" "n - ?r \<le> h" using True kn by linarith+
    have "get_ptr_off_1 b (head_seqno b + of_nat k) (int n) = (int (h + k), int ?r)"
      unfolding p using True r by simp
    moreover have "min (int n - int ?r) (int h) = int (n - ?r)" using r by simp
    moreover have "take n (drop k (window b)) = take ?r (drop (h + k) ?m) @ take (n - ?r) ?m"
      using True kn h by (intro nth_equalityI) (auto simp: nth_append w ac_simps)
    moreover have "copy_from ?m (int (h + k)) (int ?r) = Some (take ?r (drop (h + k) ?m))" using h True by (intro copy_from_nat) simp
    moreover have "copy_from ?m 0 (int (n - ?r)) = Some (take (n - ?r) ?m)" using copy_from_nat [of 0 "n - ?r" ?m] h r by simp
    moreover have "int ?r \<noteq> int n" "int ?r + int (n - ?r) = int n" using r by linarith+
    ultimately show ?thesis
      by (simp only: circ_buf_read_def Let_def h(1)) simp
  next
    case False
    let ?q = "if h + k < ?L then h + k else h + k - ?L"
    have g: "get_ptr_off_1 b (head_seqno b + of_nat k) (int n) = (int ?q, int n)"
      unfolding p using False by auto
    have c: "copy_from ?m (int ?q) (int n) = Some (take n (drop ?q ?m))" using False h kn by (intro copy_from_nat) auto
    have "take n (drop k (window b)) = take n (drop ?q ?m)"
      using False kn h by (intro nth_equalityI) (auto simp: w ac_simps)
    then show ?thesis unfolding circ_buf_read_def g Let_def prod.case c by simp
  qed
qed

lemma window_eqI:
  assumes ok: "circ_ok b" and len: "length m = length (cb_data b)" "length w = cb_len b"
    and nth: "\<And>i. i < cb_len b \<Longrightarrow> w ! i =
      m ! (if nat (data_head b) + i < cb_len b then nat (data_head b) + i else nat (data_head b) + i - cb_len b)"
  shows "circ_ok (b\<lparr>cb_data := m\<rparr>) \<and> window (b\<lparr>cb_data := m\<rparr>) = w"
proof
  show ok': "circ_ok (b\<lparr>cb_data := m\<rparr>)" using ok len by (simp add: circ_ok_def cb_len_def)
  show "window (b\<lparr>cb_data := m\<rparr>) = w"
  proof (rule nth_equalityI)
    show "length (window (b\<lparr>cb_data := m\<rparr>)) = length w" using len by (simp add: cb_len_def)
    fix i assume "i < length (window (b\<lparr>cb_data := m\<rparr>))"
    then have i: "i < cb_len b" by (simp add: cb_len_def)
    have l: "cb_len (b\<lparr>cb_data := m\<rparr>) = cb_len b" by (simp add: cb_len_def)
    have "data_head b = int (nat (data_head b))" using ok by (simp add: circ_ok_def)
    then show "window (b\<lparr>cb_data := m\<rparr>) ! i = w ! i" using circ_ok_nth [OF ok' _ l i, of "nat (data_head b)"] nth [OF i] by simp
  qed
qed

text \<open>The guard of the write compares sequence numbers as plain numbers: it is only right when
  the window does not wrap around \<open>2^32\<close>.\<close>

lemma write_guard:
  assumes "k \<le> cb_len b" "unat (head_seqno b) + cb_len b < 2 ^ 32"
  shows "\<not> head_seqno b + ucast (data_len b) < head_seqno b + of_nat k"
proof -
  have u: "unat (ucast (data_len b) :: u32) = cb_len b" "unat (of_nat k :: u32) = k"
    using cb_len_less [of b] assms(1) by (simp_all add: cb_len_def unsigned_ucast_eq unsigned_of_nat take_bit_nat_eq_self)
  then show ?thesis using assms by (simp add: word_less_nat_alt unat_word_ariths)
qed

lemma write_window:
  assumes ok: "circ_ok b" and kn: "k + length d \<le> cb_len b" and nw: "unat (head_seqno b) + cb_len b < 2 ^ 32"
  shows "\<exists>m. circ_buf_write b (head_seqno b + of_nat k) d (int (length d)) = Some (b\<lparr>cb_data := m\<rparr>, 0) \<and>
    circ_ok (b\<lparr>cb_data := m\<rparr>) \<and> window (b\<lparr>cb_data := m\<rparr>) = put (window b) k d"
proof -
  let ?L = "cb_len b" and ?m = "cb_data b" and ?n = "length d"
  obtain h where h: "data_head b = int h" "h \<le> ?L" "?L \<le> length ?m" "0 < ?L"
    and w: "\<And>i. i < ?L \<Longrightarrow> window b ! i = ?m ! (if h + i < ?L then h + i else h + i - ?L)"
    using circ_okE [OF ok] by blast
  note p = get_ptr [OF h(1,2) kn]
  have guard: "\<not> head_seqno b + ucast (data_len b) < head_seqno b + of_nat k" using kn nw by (intro write_guard) simp_all
  consider "d = []" | "d \<noteq> []" "h + k < ?L \<and> ?L < h + k + ?n" | "d \<noteq> []" "\<not> (h + k < ?L \<and> ?L < h + k + ?n)" by blast
  then show ?thesis
  proof cases
    case 1
    have "b\<lparr>cb_data := ?m\<rparr> = b" by simp
    then show ?thesis using 1 guard ok by (intro exI [of _ ?m]) (simp add: circ_buf_write_def)
  next
    case 2
    let ?r = "?L - (h + k)"
    let ?m1 = "put ?m (h + k) (take ?r d)"
    let ?m2 = "put ?m1 0 (drop ?r d)"
    have r: "?r < ?n" "?n - ?r \<le> h" "?n - ?r \<le> h + k" using 2 kn by linarith+
    have lens: "length ?m1 = length ?m" "length ?m2 = length ?m" using r 2 h by simp_all
    have g: "get_ptr_off_1 b (head_seqno b + of_nat k) (int ?n) = (int (h + k), int ?r)" unfolding p using 2 r by simp
    have c1: "copy_from d 0 (int ?r) = Some (take ?r d)" using copy_from_nat [of 0 ?r d] r by simp
    have c2: "copy_from d (int ?r) (int (?n - ?r)) = Some (drop ?r d)" using copy_from_nat [of ?r "?n - ?r" d] r by simp
    have c3: "copy_to ?m (int (h + k)) (take ?r d) = Some ?m1" using 2 h r by (intro copy_to_nat) simp
    have c4: "copy_to ?m1 0 (drop ?r d) = Some ?m2" using copy_to_nat [of 0 "drop ?r d" ?m1] r h lens by simp
    have mi: "min (int ?n - int ?r) (int h) = int (?n - ?r)" "int ?r \<noteq> int ?n" "int ?n \<noteq> 0" using r 2 by simp_all
    have "circ_buf_write b (head_seqno b + of_nat k) d (int ?n) = Some (b\<lparr>cb_data := ?m2\<rparr>, 0)"
      unfolding circ_buf_write_def g Let_def prod.case c1 h(1) using guard mi c2 c3 c4 by simp
    moreover have "circ_ok (b\<lparr>cb_data := ?m2\<rparr>) \<and> window (b\<lparr>cb_data := ?m2\<rparr>) = put (window b) k d"
    proof (rule window_eqI [OF ok lens(2)])
      show "length (put (window b) k d) = ?L" using kn by simp
      fix i assume i: "i < ?L"
      have "put (window b) k d ! i = (if k \<le> i \<and> i < k + ?n then d ! (i - k) else window b ! i)" using kn by (simp add: put_nth)
      moreover have "?m2 ! j = (if j < ?n - ?r then d ! (?r + j) else if h + k \<le> j \<and> j < ?L then d ! (j - (h + k)) else ?m ! j)" for j
        using r 2 h by (simp add: put_nth lens) (auto simp: ac_simps)
      ultimately show "put (window b) k d ! i = ?m2 ! (if nat (data_head b) + i < ?L then nat (data_head b) + i else nat (data_head b) + i - ?L)"
        using i h r 2 w [OF i] by (auto simp: ac_simps)
    qed
    ultimately show ?thesis by blast
  next
    case 3
    let ?q = "if h + k < ?L then h + k else h + k - ?L"
    let ?m1 = "put ?m ?q d"
    have q: "?q + ?n \<le> length ?m" "?q + ?n \<le> ?L" using 3 h kn by auto
    have g: "get_ptr_off_1 b (head_seqno b + of_nat k) (int ?n) = (int ?q, int ?n)" unfolding p using 3 by auto
    have c1: "copy_from d 0 (int ?n) = Some d" using copy_from_nat [of 0 ?n d] by simp
    have c2: "copy_to ?m (int ?q) d = Some ?m1" using q(1) by (rule copy_to_nat)
    have "circ_buf_write b (head_seqno b + of_nat k) d (int ?n) = Some (b\<lparr>cb_data := ?m1\<rparr>, 0)"
      unfolding circ_buf_write_def g Let_def prod.case c1 using guard 3 c2 by simp
    moreover have "circ_ok (b\<lparr>cb_data := ?m1\<rparr>) \<and> window (b\<lparr>cb_data := ?m1\<rparr>) = put (window b) k d"
    proof (rule window_eqI [OF ok length_put [OF q(1)]])
      show "length (put (window b) k d) = ?L" using kn by simp
      fix i assume i: "i < ?L"
      have "put (window b) k d ! i = (if k \<le> i \<and> i < k + ?n then d ! (i - k) else window b ! i)" using kn by (simp add: put_nth)
      moreover have "?m1 ! j = (if ?q \<le> j \<and> j < ?q + ?n then d ! (j - ?q) else ?m ! j)" for j
        using q(1) by (rule put_nth)
      ultimately show "put (window b) k d ! i = ?m1 ! (if nat (data_head b) + i < ?L then nat (data_head b) + i else nat (data_head b) + i - ?L)"
        using i h kn 3 w [OF i] by (auto split: if_splits simp: ac_simps)
    qed
    ultimately show ?thesis by blast
  qed
qed

lemma shorten_window:
  assumes ok: "circ_ok b" and k: "k \<le> cb_len b"
  shows "\<exists>b'. circ_shorten_head b (head_seqno b + of_nat k) = Some (b', 0) \<and> circ_ok b' \<and>
    window b' = drop k (window b) @ take k (window b) \<and> cb_len b' = cb_len b \<and>
    head_seqno b' = head_seqno b + of_nat k"
proof -
  let ?L = "cb_len b" and ?m = "cb_data b"
  obtain h where h: "data_head b = int h" "h \<le> ?L" "?L \<le> length ?m" "0 < ?L"
    and w: "\<And>i. i < ?L \<Longrightarrow> window b ! i = ?m ! (if h + i < ?L then h + i else h + i - ?L)"
    using circ_okE [OF ok] by blast
  have o: "sint (head_seqno b + of_nat k - head_seqno b) = int k" using k cb_len_less [of b] by (intro offset_of) simp
  define h' where "h' = (if h + k > ?L then h + k - ?L else h + k)"
  have h'L: "h' \<le> ?L" using h k by (auto simp: h'_def)
  have wr: "wrap_head (int ?L) (int h + int k) = Some (int h')"
    using h k by (subst wrap_head.simps) (subst wrap_head.simps, auto simp: h'_def of_nat_diff)
  let ?b = "b\<lparr>head_seqno := head_seqno b + of_nat k, data_head := int h'\<rparr>"
  have l: "cb_len ?b = ?L" by (simp add: cb_len_def)
  have ok': "circ_ok ?b" using ok h'L by (simp add: circ_ok_def l)
  have "window ?b = drop k (window b) @ take k (window b)"
  proof (rule nth_equalityI)
    show "length (window ?b) = length (drop k (window b) @ take k (window b))" using k by (simp add: cb_len_def)
    fix i assume "i < length (window ?b)"
    then have i: "i < ?L" by (simp add: cb_len_def)
    have "window ?b ! i = ?m ! (if h' + i < ?L then h' + i else h' + i - ?L)"
      using circ_ok_nth [OF ok' _ l i, of h'] by simp
    moreover have "(drop k (window b) @ take k (window b)) ! i = window b ! (if i < ?L - k then k + i else i - (?L - k))"
      using i k by (simp add: nth_append)
    ultimately show "window ?b ! i = (drop k (window b) @ take k (window b)) ! i"
      using i k h h'L by (auto simp: w h'_def ac_simps)
  qed
  then show ?thesis using ok' wr unfolding circ_shorten_head_def Let_def o h(1) uint_data_len
    by (intro exI [of _ ?b]) (simp add: cb_len_def)
qed

lemma init_ok:
  assumes "16 < len" "len - 16 < 65536" "nat len - 16 \<le> length (cb_data b)"
  shows "\<exists>b'. circ_buf_init b len seqno = (b', 0) \<and> circ_ok b' \<and> cb_len b' = nat len - 16 \<and>
    head_seqno b' = seqno \<and> cb_data b' = cb_data b"
proof -
  have u: "uint (word_of_int len :: u32) = len" "uint (word_of_int (len - 16) :: u16) = len - 16"
    using assms by (simp_all only: unsigned_of_int take_bit_int_eq_self) (simp_all add: take_bit_int_eq_self)
  let ?b = "b\<lparr>data_head := 0, data_len := word_of_int (len - 16), head_seqno := seqno\<rparr>"
  have "cb_len ?b = nat (uint (word_of_int (len - 16) :: u16))" by (simp only: cb_len_def circ_buf.simps nat_uint_eq) simp
  then have "cb_len ?b = nat (len - 16)" by (simp only: u(2))
  moreover have "circ_buf_init b len seqno = (?b, 0)"
    using assms(1) by (simp only: circ_buf_init_def SIZEOF_CIRC_BUF_def word_less_def u(1)) simp
  ultimately show ?thesis using assms by (simp add: circ_ok_def nat_diff_distrib)
qed


section \<open>The interface the sender relies on\<close>

text \<open>A sender writes behind the bytes that are not acknowledged yet, reads them again for a
  retransmission, and drops them from the head.  \<open>unacked w q\<close>: the window \<open>w\<close> starts with
  the queue \<open>q\<close>.\<close>

definition unacked :: "u8 list \<Rightarrow> u8 list \<Rightarrow> bool" where
  "unacked w q \<longleftrightarrow> length q \<le> length w \<and> take (length q) w = q"

datatype tx_op = Tx_write mem | Tx_read nat nat | Tx_ack nat

text \<open>The reference: a plain byte queue of bounded length.\<close>

fun queue_step :: "nat \<Rightarrow> mem \<Rightarrow> tx_op \<Rightarrow> (mem \<times> mem) option" where
  "queue_step cap q (Tx_write d) = (if length q + length d \<le> cap then Some (q @ d, []) else None)"
| "queue_step cap q (Tx_read k n) = (if k + n \<le> length q then Some (q, take n (drop k q)) else None)"
| "queue_step cap q (Tx_ack k) = (if k \<le> length q then Some (drop k q, []) else None)"

fun queue_run :: "nat \<Rightarrow> mem \<Rightarrow> tx_op list \<Rightarrow> (mem \<times> mem list) option" where
  "queue_run cap q [] = Some (q, [])"
| "queue_run cap q (x # xs) = do { (q, d) \<leftarrow> queue_step cap q x; (q, ds) \<leftarrow> queue_run cap q xs; Some (q, d # ds) }"

text \<open>The client: it keeps the next sequence number beside the buffer, as a socket does.\<close>

fun buf_step :: "('b \<Rightarrow> u32) \<Rightarrow> ('b \<Rightarrow> u32 \<Rightarrow> int \<Rightarrow> (u8 list \<times> int) option) \<Rightarrow> ('b \<Rightarrow> u32 \<Rightarrow> u8 list \<Rightarrow> int \<Rightarrow> ('b \<times> int) option) \<Rightarrow>
    ('b \<Rightarrow> u32 \<Rightarrow> ('b \<times> int) option) \<Rightarrow> 'b \<times> u32 \<Rightarrow> tx_op \<Rightarrow> (('b \<times> u32) \<times> mem) option" where
  "buf_step base rdf wrf ack (b, s) (Tx_write d) = do {
     (b, rc) \<leftarrow> wrf b s d (int (length d));
     (if rc = 0 then Some ((b, s + of_nat (length d)), []) else None) }"
| "buf_step base rdf wrf ack (b, s) (Tx_read k n) = do {
     (d, rc) \<leftarrow> rdf b (base b + of_nat k) (int n);
     (if rc = int n then Some ((b, s), d) else None) }"
| "buf_step base rdf wrf ack (b, s) (Tx_ack k) = do {
     (b, rc) \<leftarrow> ack b (base b + of_nat k);
     Some ((b, s), []) }"

fun buf_run :: "('b \<Rightarrow> u32) \<Rightarrow> ('b \<Rightarrow> u32 \<Rightarrow> int \<Rightarrow> (u8 list \<times> int) option) \<Rightarrow> ('b \<Rightarrow> u32 \<Rightarrow> u8 list \<Rightarrow> int \<Rightarrow> ('b \<times> int) option) \<Rightarrow>
    ('b \<Rightarrow> u32 \<Rightarrow> ('b \<times> int) option) \<Rightarrow> 'b \<times> u32 \<Rightarrow> tx_op list \<Rightarrow> (('b \<times> u32) \<times> mem list) option" where
  "buf_run base rdf wrf ack bs [] = Some (bs, [])"
| "buf_run base rdf wrf ack bs (x # xs) = do {
     (bs, d) \<leftarrow> buf_step base rdf wrf ack bs x;
     (bs, ds) \<leftarrow> buf_run base rdf wrf ack bs xs;
     Some (bs, d # ds) }"

fun acked :: "tx_op list \<Rightarrow> nat" where
  "acked [] = 0"
| "acked (Tx_ack k # xs) = k + acked xs"
| "acked (_ # xs) = acked xs"

lemma unacked_append: "unacked w q \<Longrightarrow> length q + length d \<le> length w \<Longrightarrow> unacked (put w (length q) d) (q @ d)"
  by (simp add: unacked_def put_def)

lemma unacked_slice:
  assumes "unacked w q" "k + n \<le> length q"
  shows "take n (drop k w) = take n (drop k q)"
proof (rule nth_equalityI)
  show "length (take n (drop k w)) = length (take n (drop k q))" using assms by (auto simp: unacked_def min_def)
  fix i assume "i < length (take n (drop k w))"
  then have "i < n" by simp
  then show "take n (drop k w) ! i = take n (drop k q) ! i"
    using assms by (simp add: unacked_def) (metis add.commute less_diff_conv less_le_trans nth_take add_less_cancel_left)
qed

lemma unacked_drop: "unacked w q \<Longrightarrow> k \<le> length q \<Longrightarrow> unacked (drop k w @ take k w) (drop k q)"
  using unacked_slice [of w q k "length q - k"] by (auto simp: unacked_def)

locale stream_buffer =
  fixes ok :: "'b \<Rightarrow> bool" and win :: "'b \<Rightarrow> u8 list" and base :: "'b \<Rightarrow> u32"
    and rdf :: "'b \<Rightarrow> u32 \<Rightarrow> int \<Rightarrow> (u8 list \<times> int) option"
    and wrf :: "'b \<Rightarrow> u32 \<Rightarrow> u8 list \<Rightarrow> int \<Rightarrow> ('b \<times> int) option"
    and ack :: "'b \<Rightarrow> u32 \<Rightarrow> ('b \<times> int) option"
  assumes read_law: "ok b \<Longrightarrow> k + n \<le> length (win b) \<Longrightarrow>
      rdf b (base b + of_nat k) (int n) = Some (take n (drop k (win b)), int n)"
    and write_law: "ok b \<Longrightarrow> k + length d \<le> length (win b) \<Longrightarrow> unat (base b) + length (win b) < 2 ^ 32 \<Longrightarrow>
      \<exists>b'. wrf b (base b + of_nat k) d (int (length d)) = Some (b', 0) \<and> ok b' \<and> win b' = put (win b) k d \<and> base b' = base b"
    and ack_law: "ok b \<Longrightarrow> k \<le> length (win b) \<Longrightarrow>
      \<exists>b'. ack b (base b + of_nat k) = Some (b', 0) \<and> ok b' \<and> win b' = drop k (win b) @ take k (win b) \<and>
        base b' = base b + of_nat k"
begin

definition sim :: "nat \<Rightarrow> 'b \<times> u32 \<Rightarrow> mem \<Rightarrow> bool" where
  "sim cap bs q \<longleftrightarrow> ok (fst bs) \<and> unacked (win (fst bs)) q \<and> length (win (fst bs)) = cap \<and>
     snd bs = base (fst bs) + of_nat (length q)"

lemma write_sim:
  assumes "sim cap (b, s) q" "length q + length d \<le> cap" "unat (base b) + cap < 2 ^ 32"
  shows "\<exists>b'. wrf b s d (int (length d)) = Some (b', 0) \<and> sim cap (b', s + of_nat (length d)) (q @ d) \<and> base b' = base b"
proof -
  from assms obtain b' where b': "wrf b s d (int (length d)) = Some (b', 0)" "ok b'" "win b' = put (win b) (length q) d" "base b' = base b"
    using write_law [of b "length q" d] by (auto simp: sim_def)
  then show ?thesis using assms unacked_append [of "win b" q d] by (auto simp: sim_def unacked_def)
qed

lemma read_sim:
  assumes "sim cap (b, s) q" "k + n \<le> length q"
  shows "rdf b (base b + of_nat k) (int n) = Some (take n (drop k q), int n)"
  using assms read_law [of b k n] unacked_slice [of "win b" q k n] by (auto simp: sim_def unacked_def)

lemma ack_sim:
  assumes "sim cap (b, s) q" "k \<le> length q"
  shows "\<exists>b'. ack b (base b + of_nat k) = Some (b', 0) \<and> sim cap (b', s) (drop k q) \<and> base b' = base b + of_nat k"
proof -
  from assms obtain b' where b': "ack b (base b + of_nat k) = Some (b', 0)" "ok b'"
    "win b' = drop k (win b) @ take k (win b)" "base b' = base b + of_nat k"
    using ack_law [of b k] by (auto simp: sim_def unacked_def)
  then show ?thesis using assms unacked_drop [of "win b" q k] by (auto simp: sim_def of_nat_diff)
qed

lemma run_sim:
  assumes "sim cap bs q" "queue_run cap q ops = Some (q', obs)" "unat (base (fst bs)) + cap + acked ops < 2 ^ 32"
  shows "\<exists>bs'. buf_run base rdf wrf ack bs ops = Some (bs', obs) \<and> sim cap bs' q'"
  using assms
proof (induction ops arbitrary: bs q obs)
  case Nil then show ?case by simp
next
  case (Cons x ops)
  obtain b s where bs: "bs = (b, s)" by fastforce
  obtain q1 d obs1 where q1: "queue_step cap q x = Some (q1, d)" "queue_run cap q1 ops = Some (q', obs1)" "obs = d # obs1"
    using Cons.prems(2) by (auto split: bind_splits)
  have sq: "sim cap (b, s) q" using Cons.prems(1) bs by simp
  have room: "unat (base b) + cap < 2 ^ 32" using Cons.prems(3) bs by simp
  have "\<exists>b1 s1. buf_step base rdf wrf ack (b, s) x = Some ((b1, s1), d) \<and> sim cap (b1, s1) q1 \<and>
      unat (base b1) + cap + acked ops < 2 ^ 32"
  proof (cases x)
    case (Tx_write w)
    then have w: "length q + length w \<le> cap" "q1 = q @ w" "d = []" using q1(1) by (auto split: if_splits)
    show ?thesis using write_sim [OF sq w(1) room] w Tx_write Cons.prems(3) bs by auto
  next
    case (Tx_read k n)
    then have k: "k + n \<le> length q" "q1 = q" "d = take n (drop k q)" using q1(1) by (auto split: if_splits)
    show ?thesis using read_sim [OF sq k(1)] k Tx_read Cons.prems(3) bs sq by auto
  next
    case (Tx_ack k)
    then have k: "k \<le> length q" "q1 = drop k q" "d = []" using q1(1) by (auto split: if_splits)
    obtain b1 where b1: "ack b (base b + of_nat k) = Some (b1, 0)" "sim cap (b1, s) q1" "base b1 = base b + of_nat k"
      using ack_sim [OF sq k(1)] k(2) by blast
    have "unat (base b1) \<le> unat (base b) + k"
      unfolding b1(3) by (simp add: unat_word_ariths unsigned_of_nat take_bit_eq_mod mod_add_right_eq)
    then show ?thesis using b1 k Tx_ack Cons.prems(3) bs by auto
  qed
  then obtain bs1 where "buf_step base rdf wrf ack bs x = Some (bs1, d)" "sim cap bs1 q1" "unat (base (fst bs1)) + cap + acked ops < 2 ^ 32"
    using bs by auto
  then show ?case using Cons.IH [of bs1 q1 obs1] q1 by auto
qed

end

interpretation circ: stream_buffer circ_ok window head_seqno circ_buf_read circ_buf_write circ_shorten_head
proof (unfold_locales, goal_cases)
  case (1 b k n) then show ?case by (simp add: read_window)
next
  case (2 b k d) then show ?case using write_window [of b k d] by force
next
  case (3 b k) then show ?case using shorten_window [of b k] by auto
qed

section \<open>Properties\<close>

text \<open>C17: The circular buffer is a byte queue.  Whatever sequence of writes, reads and acknowledgements
  a bounded byte queue accepts, a freshly initialised buffer of that capacity performs it
  inside its memory, and every read returns the bytes the queue would return, as long as the
  sequence numbers do not pass \<open>2^32\<close>.\<close>

theorem circ_refines_queue:
  assumes "16 < len" "len - 16 < 65536" "nat len - 16 \<le> length (cb_data b)"
    and "queue_run (nat len - 16) [] ops = Some (q, obs)" "unat seqno + (nat len - 16) + acked ops < 2 ^ 32"
  shows "\<exists>b1 b2 s. circ_buf_init b len seqno = (b1, 0) \<and>
    buf_run head_seqno circ_buf_read circ_buf_write circ_shorten_head (b1, seqno) ops = Some ((b2, s), obs) \<and>
    circ_ok b2 \<and> unacked (window b2) q \<and> s = circ_get_seqno b2 + of_nat (length q)"
proof -
  obtain b1 where b1: "circ_buf_init b len seqno = (b1, 0)" "circ_ok b1" "cb_len b1 = nat len - 16" "head_seqno b1 = seqno"
    using init_ok [OF assms(1-3), of seqno] by blast
  then have "circ.sim (nat len - 16) (b1, seqno) []" by (simp add: circ.sim_def unacked_def)
  from circ.run_sim [OF this assms(4)] b1(4) assms(5) obtain b2 s where
    "buf_run head_seqno circ_buf_read circ_buf_write circ_shorten_head (b1, seqno) ops = Some ((b2, s), obs)"
    "circ.sim (nat len - 16) (b2, s) q" by auto
  then show ?thesis using b1(1) by (auto simp: circ.sim_def circ_get_seqno_def)
qed

definition demo_buf :: circ_buf where
  "demo_buf = \<lparr>cb_data = replicate 8 0, data_head = 0, data_len = 0, head_seqno = 0\<rparr>"

lemma circ_refines_queue_witness:
  "\<exists>b1 b2 s. circ_buf_init demo_buf 24 0xcafebabf = (b1, 0) \<and>
    buf_run head_seqno circ_buf_read circ_buf_write circ_shorten_head (b1, 0xcafebabf)
      [Tx_write [1, 2, 3, 4, 5, 6], Tx_ack 4, Tx_write [7, 8, 9], Tx_read 1 4] = Some ((b2, s), [[], [], [], [6, 7, 8, 9]])"
  using circ_refines_queue [where b = demo_buf and len = 24 and seqno = "0xcafebabf" and
      ops = "[Tx_write [1, 2, 3, 4, 5, 6], Tx_ack 4, Tx_write [7, 8, 9], Tx_read 1 4]" and
      q = "[5, 6, 7, 8, 9]" and obs = "[[], [], [], [6, 7, 8, 9]]"]
  by (auto simp: demo_buf_def)

text \<open>Sequence numbers are compared as plain numbers.  When the window of a buffer wraps around
  \<open>2^32\<close>, a write of any length right behind the unacknowledged bytes, where there is room, is
  refused with \<open>-1\<close>.\<close>

theorem circ_write_refused_at_wrap:
  assumes "2 ^ 32 \<le> unat (head_seqno b) + cb_len b" "unat (head_seqno b) + k < 2 ^ 32" "k < cb_len b"
  shows "circ_buf_write b (head_seqno b + of_nat k) data len = Some (b, -1)"
proof -
  have c: "unat (ucast (data_len b) :: u32) = cb_len b" "unat (of_nat k :: u32) = k"
    using cb_len_less [of b] assms(3) by (simp_all add: cb_len_def unsigned_ucast_eq unsigned_of_nat take_bit_nat_eq_self)
  have h: "unat (head_seqno b) < 2 ^ 32" using unsigned_less [of "head_seqno b"] by simp
  have "unat (head_seqno b + of_nat k) = unat (head_seqno b) + k" using assms(2) c(2) by (simp add: unat_word_ariths)
  moreover have "unat (head_seqno b + ucast (data_len b)) = unat (head_seqno b) + cb_len b - 2 ^ 32"
    using assms(1) h c(1) cb_len_less [of b] by (simp add: unat_word_ariths mod_if)
  ultimately have "head_seqno b + ucast (data_len b) < head_seqno b + of_nat k"
    using assms cb_len_less [of b] h by (simp add: word_less_nat_alt)
  then show ?thesis by (simp add: circ_buf_write_def)
qed

lemma circ_write_refused_at_wrap_witness:
  "circ_buf_write \<lparr>cb_data = replicate 8 0, data_head = 0, data_len = 8, head_seqno = 0xfffffffb\<rparr> (0xfffffffb + of_nat 2) [1, 2] 2 =
     Some (\<lparr>cb_data = replicate 8 0, data_head = 0, data_len = 8, head_seqno = 0xfffffffb\<rparr>, -1)"
  using circ_write_refused_at_wrap [of "\<lparr>cb_data = replicate 8 0, data_head = 0, data_len = 8, head_seqno = 0xfffffffb\<rparr>" 2 "[1, 2]" 2]
  by (simp add: cb_len_def)

end
