(* ===== verification/Tcp.thy ===== *)
theory Tcp
  imports Circ_Buf Ip_Malloc Ip6
begin


text \<open>
  The TCP library (\<open>tcplib.c\<close>), in the build for a mote (\<open>PC\<close> not defined), with pointers,
  \<open>int\<close> and \<open>size_t\<close> of 32 bits.  Sockets and transmit buffers are objects in two stores,
  named by their addresses; the chain of \<open>next\<close> pointers from \<open>conns\<close> is the list of the
  addresses on it.  Packets are allocated from the heap of \<open>ip_malloc.c\<close> and freed again.  A packet
  under construction is its block: every store of the library into it is a store into the heap, which
  is undefined unless it stays inside the block.  Beside the block a
  record has the values of the header fields that were stored.  What the library calls out to is a
  record of functions on the whole state: they may do anything, also call the library again.
  \<open>tcplib_send_out\<close> is the log \<open>sent\<close> of the packets handed to it, with their data as loaded from the
  heap.  The timer \<open>retx\<close>, an \<open>int8_t\<close>, is set to at most 6 and counted down while positive, so it is an
  integer here.
\<close>

section \<open>Data\<close>

datatype tcplib_sock_state = TCP_CLOSED | TCP_LISTEN | TCP_SYN_RCVD | TCP_SYN_SENT | TCP_ESTABLISHED
  | TCP_CLOSE_WAIT | TCP_LAST_ACK | TCP_FIN_WAIT_1 | TCP_FIN_WAIT_2 | TCP_CLOSING | TCP_TIME_WAIT

definition TCP_FLAG_FIN :: u8 where "TCP_FLAG_FIN = 0x1"
definition TCP_FLAG_SYN :: u8 where "TCP_FLAG_SYN = 0x2"
definition TCP_FLAG_RST :: u8 where "TCP_FLAG_RST = 0x4"
definition TCP_FLAG_ACK :: u8 where "TCP_FLAG_ACK = 0x10"

definition TCP_ACKPENDING :: u8 where "TCP_ACKPENDING = 0x3"
definition TCP_DUPACKS :: u8 where "TCP_DUPACKS = 0x3c"
definition TCP_DUPACKS_OFF :: nat where "TCP_DUPACKS_OFF = 2"
definition TCP_CONNECTDONE :: u8 where "TCP_CONNECTDONE = 0x40"
definition TCP_ACKSENT :: u8 where "TCP_ACKSENT = 0x80"

definition TCPLIB_TIMEWAIT_LEN :: int where "TCPLIB_TIMEWAIT_LEN = 1"
definition TCPLIB_2MSL :: int where "TCPLIB_2MSL = 4"
definition TCPLIB_GIVEUP :: u16 where "TCPLIB_GIVEUP = 6"

lemmas tcp_consts = TCP_FLAG_FIN_def TCP_FLAG_SYN_def TCP_FLAG_RST_def TCP_FLAG_ACK_def
  TCP_ACKPENDING_def TCP_DUPACKS_def TCP_DUPACKS_OFF_def TCP_CONNECTDONE_def TCP_ACKSENT_def

definition GET_ACK_COUNT :: "u8 \<Rightarrow> u8" where
  "GET_ACK_COUNT x = drop_bit TCP_DUPACKS_OFF (x AND TCP_DUPACKS)"

definition UNSET_ACK_COUNT :: "u8 \<Rightarrow> u8" where
  "UNSET_ACK_COUNT x = x AND NOT TCP_DUPACKS"

definition INCR_ACK_COUNT :: "u8 \<Rightarrow> u8" where
  "INCR_ACK_COUNT x = x + push_bit TCP_DUPACKS_OFF 1"

record sockaddr_in6 =
  sin6_port :: u16
  sin6_addr :: in6_addr

definition zero_ep :: sockaddr_in6 where
  "zero_ep = \<lparr>sin6_port = 0, sin6_addr = replicate 16 0\<rparr>"

text \<open>The multi-byte fields hold what the code loads: network data in host order.\<close>

record tcp_hdr =
  th_srcport :: u16
  th_dstport :: u16
  th_seqno :: u32
  th_ackno :: u32
  th_offset :: u8
  th_flags :: u8
  th_window :: u16
  th_chksum :: u16
  th_urgent :: u16

record tcplib_sock =
  sk_flags :: u8
  l_ep :: sockaddr_in6
  r_ep :: sockaddr_in6
  sk_state :: tcplib_sock_state
  tx_buf :: "nat option"
  tx_buf_len :: int
  mss :: u16
  my_wind :: u16
  r_wind :: u16
  cwnd :: u16
  ssthresh :: u16
  sk_seqno :: u32
  sk_ackno :: u32
  retx :: int
  retxcnt :: u16

text \<open>A packet: its address in the packet heap, its IPv6 header, its TCP header, the number of its data
  bytes, and these bytes once they are sent.\<close>

record tcp_msg =
  msg_ptr :: nat
  msg_ip :: ip6_hdr
  msg_tcp :: tcp_hdr
  msg_len :: nat
  msg_data :: mem

record tcp_state =
  conns :: "nat list"
  socks :: "nat \<Rightarrow> tcplib_sock option"
  tx_bufs :: "nat \<Rightarrow> circ_buf option"
  pkt_heap :: mem
  sent :: "tcp_msg list"

text \<open>The environment; \<open>env_junk\<close> is what the two bytes behind the packet heap hold.\<close>

record tcp_env =
  env_junk :: "u8 \<times> u8"
  ext_recv :: "nat \<Rightarrow> mem \<Rightarrow> int \<Rightarrow> tcp_state \<Rightarrow> tcp_state option"
  ext_closed :: "nat \<Rightarrow> tcp_state \<Rightarrow> tcp_state option"
  ext_closedone :: "nat \<Rightarrow> tcp_state \<Rightarrow> tcp_state option"
  ext_acked :: "nat \<Rightarrow> tcp_state \<Rightarrow> tcp_state option"
  ext_connectdone :: "nat \<Rightarrow> int \<Rightarrow> tcp_state \<Rightarrow> tcp_state option"
  ext_accept :: "nat \<Rightarrow> sockaddr_in6 \<Rightarrow> tcp_state \<Rightarrow> (tcp_state \<times> nat option) option"

section \<open>Access to the stores\<close>

definition upd_sock :: "nat \<Rightarrow> (tcplib_sock \<Rightarrow> tcplib_sock) \<Rightarrow> tcp_state \<Rightarrow> tcp_state option" where
  "upd_sock c f s = do { k \<leftarrow> socks s c; Some (s\<lparr>socks := (socks s)(c \<mapsto> f k)\<rparr>) }"

definition get_buf :: "nat \<Rightarrow> tcp_state \<Rightarrow> circ_buf option" where
  "get_buf c s = do { k \<leftarrow> socks s c; p \<leftarrow> tx_buf k; tx_bufs s p }"

definition set_buf :: "nat \<Rightarrow> circ_buf \<Rightarrow> tcp_state \<Rightarrow> tcp_state option" where
  "set_buf c b s = do { k \<leftarrow> socks s c; p \<leftarrow> tx_buf k; Some (s\<lparr>tx_bufs := (tx_bufs s)(p \<mapsto> b)\<rparr>) }"

section \<open>Connections\<close>

definition ONE_SEGMENT :: "tcplib_sock \<Rightarrow> u16" where
  "ONE_SEGMENT k = mss k"

definition alloc_local_port :: u16 where
  "alloc_local_port = 21310"

definition conn_add_once :: "nat \<Rightarrow> tcp_state \<Rightarrow> tcp_state" where
  "conn_add_once c s = (if c \<in> set (conns s) then s else s\<lparr>conns := c # conns s\<rparr>)"

definition isInaddrAny :: "in6_addr \<Rightarrow> bool" where
  "isInaddrAny a = list_all (\<lambda>i. s6_addr16 a i = 0) [0..<8]"

fun conn_lookup_from :: "tcp_state \<Rightarrow> ip6_hdr \<Rightarrow> tcp_hdr \<Rightarrow> nat list \<Rightarrow> nat option option" where
  "conn_lookup_from s iph tcph [] = Some None"
| "conn_lookup_from s iph tcph (c # cs) = do {
     k \<leftarrow> socks s c;
     (if (ip6_dst iph = sin6_addr (l_ep k) \<or> isInaddrAny (sin6_addr (l_ep k))) \<and>
         th_dstport tcph = sin6_port (l_ep k) \<and>
         (sin6_port (r_ep k) = 0 \<or>
          (ip6_src iph = sin6_addr (r_ep k) \<and> th_srcport tcph = sin6_port (r_ep k)))
      then Some (Some c)
      else conn_lookup_from s iph tcph cs) }"

definition conn_lookup :: "tcp_state \<Rightarrow> ip6_hdr \<Rightarrow> tcp_hdr \<Rightarrow> nat option option" where
  "conn_lookup s iph tcph = conn_lookup_from s iph tcph (conns s)"

fun conn_checkport_from :: "tcp_state \<Rightarrow> u16 \<Rightarrow> nat list \<Rightarrow> int option" where
  "conn_checkport_from s port [] = Some 0"
| "conn_checkport_from s port (c # cs) = do {
     k \<leftarrow> socks s c;
     (if sin6_port (l_ep k) = port then Some (-1) else conn_checkport_from s port cs) }"

definition conn_checkport :: "tcp_state \<Rightarrow> u16 \<Rightarrow> int option" where
  "conn_checkport s port = conn_checkport_from s port (conns s)"

section \<open>Sending packets\<close>

definition SIZEOF_IP6_PACKET :: nat where "SIZEOF_IP6_PACKET = 48"
definition SIZEOF_TCP_HDR :: nat where "SIZEOF_TCP_HDR = 20"
definition SIZEOF_IP_IOVEC :: nat where "SIZEOF_IP_IOVEC = 12"

definition zero_tcp_hdr :: tcp_hdr where
  "zero_tcp_hdr = \<lparr>th_srcport = 0, th_dstport = 0, th_seqno = 0, th_ackno = 0, th_offset = 0, th_flags = 0,
     th_window = 0, th_chksum = 0, th_urgent = 0\<rparr>"

text \<open>Stores into a packet.  \<open>struct ip6_packet\<close> has the interface at 0, the pointer to the data at 4 and the
  IPv6 header at 8, with the payload length at 12, the next header at 14 and the destination at 32; the
  TCP header is behind it, then the data, and at the end the \<open>struct ip_iovec\<close>.  A pointer is stored
  as the offset it has in the heap.\<close>

definition heap_store :: "nat \<Rightarrow> nat \<Rightarrow> mem \<Rightarrow> tcp_state \<Rightarrow> tcp_state option" where
  "heap_store p off bs s =
     (if in_block (pkt_heap s) p (off + length bs)
      then do { h \<leftarrow> wrn (pkt_heap s) (p + off) bs; Some (s\<lparr>pkt_heap := h\<rparr>) }
      else None)"

definition in6_bytes :: "in6_addr \<Rightarrow> mem" where
  "in6_bytes a = map (\<lambda>i. if i < length a then a ! i else 0) [0..<16]"

definition tcp_hdr_bytes :: "tcp_hdr \<Rightarrow> mem" where
  "tcp_hdr_bytes th = [lo8 (th_srcport th), hi8 (th_srcport th), lo8 (th_dstport th), hi8 (th_dstport th)] @
     bytes32 (th_seqno th) @ bytes32 (th_ackno th) @
     [th_offset th, th_flags th, lo8 (th_window th), hi8 (th_window th), lo8 (th_chksum th), hi8 (th_chksum th),
      lo8 (th_urgent th), hi8 (th_urgent th)]"

definition store_dst :: "tcp_msg \<Rightarrow> tcp_state \<Rightarrow> tcp_state option" where
  "store_dst msg s = heap_store (msg_ptr msg) 32 (in6_bytes (ip6_dst (msg_ip msg))) s"

definition store_tcp_hdr :: "tcp_msg \<Rightarrow> tcp_state \<Rightarrow> tcp_state option" where
  "store_tcp_hdr msg s = heap_store (msg_ptr msg) SIZEOF_IP6_PACKET (tcp_hdr_bytes (msg_tcp msg)) s"

definition get_ipmsg :: "tcp_env \<Rightarrow> int \<Rightarrow> tcp_state \<Rightarrow> (tcp_state \<times> tcp_msg option) option" where
  "get_ipmsg env plen s = do {
     let alen = int (SIZEOF_IP6_PACKET + SIZEOF_TCP_HDR + SIZEOF_IP_IOVEC) + plen;
     (h, buf) \<leftarrow> ip_malloc (behind (env_junk env)) (pkt_heap s) (word_of_int alen);
     let s = s\<lparr>pkt_heap := h\<rparr>;
     (case buf of
        None \<Rightarrow> Some (s, None)
      | Some p \<Rightarrow> do {
          let iov = nat (alen - int SIZEOF_IP_IOVEC);
          let ip6_plen = htons (word_of_int (int SIZEOF_TCP_HDR + plen));
          s \<leftarrow> heap_store p 0 (replicate (SIZEOF_IP6_PACKET + SIZEOF_TCP_HDR) 0) s;
          s \<leftarrow> heap_store p 14 [IANA_TCP] s;
          s \<leftarrow> heap_store p 12 [lo8 ip6_plen, hi8 ip6_plen] s;
          s \<leftarrow> heap_store p 4 (bytes32 (of_nat (p + iov))) s;
          s \<leftarrow> heap_store p (iov + 8) (bytes32 0) s;
          s \<leftarrow> heap_store p (iov + 4) (bytes32 (word_of_int (plen + int SIZEOF_TCP_HDR))) s;
          s \<leftarrow> heap_store p iov (bytes32 (of_nat (p + SIZEOF_IP6_PACKET))) s;
          Some (s, Some
            \<lparr>msg_ptr = p,
             msg_ip = \<lparr>ip6_flow = 0, ip6_plen = ip6_plen, ip6_nxt = IANA_TCP,
                       ip6_hlim = 0, ip6_src = replicate 16 0, ip6_dst = replicate 16 0\<rparr>,
             msg_tcp = zero_tcp_hdr, msg_len = nat plen, msg_data = []\<rparr>) }) }"

definition free_msg :: "tcp_env \<Rightarrow> tcp_msg \<Rightarrow> tcp_state \<Rightarrow> tcp_state option" where
  "free_msg env msg s = do {
     h \<leftarrow> ip_free (behind (env_junk env)) (pkt_heap s) (msg_ptr msg);
     Some (s\<lparr>pkt_heap := h\<rparr>) }"

definition tcplib_send_out :: "tcp_msg \<Rightarrow> tcp_state \<Rightarrow> tcp_state option" where
  "tcplib_send_out msg s = do {
     d \<leftarrow> rdn (pkt_heap s) (msg_ptr msg + SIZEOF_IP6_PACKET + SIZEOF_TCP_HDR) (msg_len msg);
     Some (s\<lparr>sent := sent s @ [msg\<lparr>msg_data := d\<rparr>]\<rparr>) }"

text \<open>\<open>__tcplib_send\<close>; the first part of the packet's data is its TCP header when the next
  header says so (\<open>find_tcp_hdr\<close>).\<close>

definition find_tcp_hdr :: "tcp_msg \<Rightarrow> tcp_hdr option" where
  "find_tcp_hdr msg = (if ip6_nxt (msg_ip msg) = IANA_TCP then Some (msg_tcp msg) else None)"

definition tcplib_transmit :: "nat \<Rightarrow> tcp_msg \<Rightarrow> tcp_state \<Rightarrow> tcp_state option" where
  "tcplib_transmit c msg s =
     (case find_tcp_hdr msg of
        None \<Rightarrow> Some s
      | Some tcph \<Rightarrow> do {
          k \<leftarrow> socks s c;
          let msg = msg\<lparr>msg_ip := (msg_ip msg)\<lparr>ip6_dst := sin6_addr (r_ep k)\<rparr>\<rparr>;
          s \<leftarrow> store_dst msg s;
          s \<leftarrow> upd_sock c (\<lambda>k. k\<lparr>sk_flags := sk_flags k AND NOT TCP_ACKPENDING\<rparr>) s;
          let tcph = tcph\<lparr>th_srcport := sin6_port (l_ep k), th_dstport := sin6_port (r_ep k),
                th_offset := of_nat SIZEOF_TCP_HDR * 4, th_window := htons (my_wind k), th_chksum := 0, th_urgent := 0\<rparr>;
          let msg = msg\<lparr>msg_tcp := tcph\<rparr>;
          s \<leftarrow> store_tcp_hdr msg s;
          tcplib_send_out msg s })"

definition tcplib_send_ack :: "tcp_env \<Rightarrow> nat \<Rightarrow> bool \<Rightarrow> u8 \<Rightarrow> tcp_state \<Rightarrow> tcp_state option" where
  "tcplib_send_ack env c fin_seqno flags s = do {
     (s, m) \<leftarrow> get_ipmsg env 0 s;
     (case m of
        None \<Rightarrow> Some s
      | Some msg \<Rightarrow> do {
          k \<leftarrow> socks s c;
          let msg = msg\<lparr>msg_tcp := (msg_tcp msg)\<lparr>th_flags := flags, th_seqno := htonl (sk_seqno k),
                th_ackno := htonl (sk_ackno k + (if fin_seqno then 1 else 0))\<rparr>\<rparr>;
          s \<leftarrow> store_tcp_hdr msg s;
          s \<leftarrow> tcplib_transmit c msg s;
          free_msg env msg s }) }"

definition tcplib_send_rst :: "tcp_env \<Rightarrow> ip6_hdr \<Rightarrow> tcp_hdr \<Rightarrow> tcp_state \<Rightarrow> tcp_state option" where
  "tcplib_send_rst env iph tcph s = do {
     (s, m) \<leftarrow> get_ipmsg env 0 s;
     (case m of
        None \<Rightarrow> Some s
      | Some msg \<Rightarrow> do {
          let msg = msg\<lparr>msg_ip := (msg_ip msg)\<lparr>ip6_dst := ip6_src iph\<rparr>,
                msg_tcp := \<lparr>th_srcport = th_dstport tcph, th_dstport = th_srcport tcph,
                  th_seqno = th_ackno tcph, th_ackno = htonl (ntohl (th_seqno tcph) + 1),
                  th_offset = of_nat SIZEOF_TCP_HDR * 4, th_flags = TCP_FLAG_RST OR TCP_FLAG_ACK,
                  th_window = 0, th_chksum = 0, th_urgent = 0\<rparr>\<rparr>;
          s \<leftarrow> store_dst msg s;
          s \<leftarrow> store_tcp_hdr msg s;
          s \<leftarrow> tcplib_send_out msg s;
          free_msg env msg s }) }"

text \<open>\<open>tcplib_output\<close>: the loop, and the sizes it starts with.  \<open>min\<close> is the macro: between a
  \<open>uint32_t\<close> and a halfword it compares unsigned words.\<close>

definition seg_min :: "u32 \<Rightarrow> u16 \<Rightarrow> int" where
  "seg_min a b = sint (if a > ucast b then ucast b else a)"

definition output_segment :: "tcp_env \<Rightarrow> nat \<Rightarrow> u32 \<Rightarrow> int \<Rightarrow> tcp_state \<Rightarrow> (tcp_state \<times> int) option" where
  "output_segment env c sseqno seg_size s = do {
     (s, m) \<leftarrow> get_ipmsg env seg_size s;
     (case m of
        None \<Rightarrow> Some (s, -1)
      | Some msg \<Rightarrow> do {
          k \<leftarrow> socks s c;
          b \<leftarrow> get_buf c s;
          let msg = msg\<lparr>msg_tcp := (msg_tcp msg)\<lparr>th_flags := TCP_FLAG_ACK, th_seqno := htonl sseqno, th_ackno := htonl (sk_ackno k)\<rparr>\<rparr>;
          s \<leftarrow> store_tcp_hdr msg s;
          (d, rc) \<leftarrow> circ_buf_read b sseqno seg_size;
          s \<leftarrow> heap_store (msg_ptr msg) (SIZEOF_IP6_PACKET + SIZEOF_TCP_HDR) d s;
          s \<leftarrow> tcplib_transmit c msg s;
          s \<leftarrow> free_msg env msg s;
          Some (s, 0) }) }"

partial_function (option) output_loop :: "tcp_env \<Rightarrow> nat \<Rightarrow> u32 \<Rightarrow> int \<Rightarrow> tcp_state \<Rightarrow> (tcp_state \<times> int) option" where
  "output_loop env c sseqno seg_size s = do {
     k \<leftarrow> socks s c;
     (if seg_size > 0 \<and> sk_seqno k > sseqno then do {
        (s, rc) \<leftarrow> output_segment env c sseqno seg_size s;
        (if rc < 0 then Some (s, -1)
         else do {
           k \<leftarrow> socks s c;
           let sseqno = sseqno + word_of_int seg_size;
           output_loop env c sseqno (seg_min (sk_seqno k - sseqno) (mss k)) s }) }
      else Some (s, 0)) }"

definition tcplib_output :: "tcp_env \<Rightarrow> nat \<Rightarrow> u32 \<Rightarrow> tcp_state \<Rightarrow> (tcp_state \<times> int) option" where
  "tcplib_output env c sseqno s = do {
     k \<leftarrow> socks s c;
     let seg_size = seg_min (sk_seqno k - sseqno) (r_wind k);
     let seg_size = min seg_size (uint (cwnd k));
     output_loop env c sseqno seg_size s }"

definition tcplib_init_sock :: "nat \<Rightarrow> tcp_state \<Rightarrow> tcp_state option" where
  "tcplib_init_sock c s = do {
     s \<leftarrow> upd_sock c (\<lambda>k. \<lparr>sk_flags = 0, l_ep = zero_ep, r_ep = zero_ep, sk_state = TCP_CLOSED, tx_buf = None,
            tx_buf_len = 0, mss = 200, my_wind = 200, r_wind = 0, cwnd = 200, ssthresh = 0xffff, sk_seqno = 0,
            sk_ackno = 0, retx = 0, retxcnt = 0\<rparr>) s;
     Some (conn_add_once c s) }"

end
