(* ===== verification/Tcp_Process.thy ===== *)
theory Tcp_Process
  imports Tcp
begin


text \<open>
  The event handlers of the TCP library: a segment arrives (\<open>tcplib_process\<close>), the application
  calls (\<open>tcplib_bind\<close>, \<open>tcplib_connect\<close>, \<open>tcplib_send\<close>, \<open>tcplib_close\<close>,
  \<open>tcplib_abort\<close>), the timer ticks (\<open>tcplib_timer_process\<close>).
\<close>

section \<open>A segment arrives\<close>

text \<open>The TCP header as the code overlays it on the payload.\<close>

definition rd32 :: "mem \<Rightarrow> nat \<Rightarrow> u32 option" where
  "rd32 m p = do { a \<leftarrow> rd m p; b \<leftarrow> rd m (p + 1); c \<leftarrow> rd m (p + 2); d \<leftarrow> rd m (p + 3); Some (le32 a b c d) }"

definition tcp_hdr_at :: "mem \<Rightarrow> tcp_hdr option" where
  "tcp_hdr_at m = do {
     sp \<leftarrow> rd16 m 0; dp \<leftarrow> rd16 m 2; sn \<leftarrow> rd32 m 4; an \<leftarrow> rd32 m 8;
     ofs \<leftarrow> rd m 12; fl \<leftarrow> rd m 13; w \<leftarrow> rd16 m 14; ck \<leftarrow> rd16 m 16; ur \<leftarrow> rd16 m 18;
     Some \<lparr>th_srcport = sp, th_dstport = dp, th_seqno = sn, th_ackno = an, th_offset = ofs, th_flags = fl,
       th_window = w, th_chksum = ck, th_urgent = ur\<rparr> }"

definition receive_data :: "tcp_env \<Rightarrow> nat \<Rightarrow> mem \<Rightarrow> tcp_hdr \<Rightarrow> int \<Rightarrow> tcp_state \<Rightarrow> (tcp_state \<times> int) option" where
  "receive_data env c payload tcph len s = do {
     let ptr = drop (unat (th_offset tcph) div 4) payload;
     let payload_len = len - uint (th_offset tcph) div 4;
     s \<leftarrow> upd_sock c (\<lambda>k. k\<lparr>sk_ackno := ntohl (th_seqno tcph) + word_of_int payload_len\<rparr>) s;
     s \<leftarrow> (if payload_len > 0 then ext_recv env c ptr payload_len s else Some s);
     Some (s, payload_len) }"

definition reset_ssthresh :: "nat \<Rightarrow> tcp_state \<Rightarrow> tcp_state option" where
  "reset_ssthresh c s = upd_sock c (\<lambda>k.
     let new_ssthresh = (if cwnd k > r_wind k then r_wind k else cwnd k) div 2;
         new_ssthresh = (if uint new_ssthresh < 2 * uint (ONE_SEGMENT k) then 2 * ONE_SEGMENT k else new_ssthresh)
     in k\<lparr>ssthresh := new_ssthresh\<rparr>) s"

text \<open>The acknowledgement number is looked at: new data is acknowledged, or a duplicate is counted.\<close>

text \<open>The product is an \<open>int\<close> of 32 bits that wraps around; its division cuts towards zero.\<close>

definition grow_cwnd :: "tcplib_sock \<Rightarrow> u16" where
  "grow_cwnd k =
     (if cwnd k \<le> ssthresh k then cwnd k + ONE_SEGMENT k
      else (let prod = sint (ucast (ONE_SEGMENT k) * ucast (ONE_SEGMENT k) :: u32);
                q = \<bar>prod\<bar> div uint (cwnd k)
            in cwnd k + word_of_int (if prod < 0 then - q else q)))"

definition process_ackno :: "tcp_env \<Rightarrow> nat \<Rightarrow> u32 \<Rightarrow> tcp_state \<Rightarrow> tcp_state option" where
  "process_ackno env c hdr_ackno s = do {
     k \<leftarrow> socks s c;
     b \<leftarrow> get_buf c s;
     (if hdr_ackno > circ_get_seqno b then do {
        s \<leftarrow> upd_sock c (\<lambda>k. k\<lparr>cwnd := grow_cwnd k, sk_flags := UNSET_ACK_COUNT (sk_flags k)\<rparr>) s;
        (b, rc) \<leftarrow> circ_shorten_head b hdr_ackno;
        s \<leftarrow> set_buf c b s;
        (if sk_seqno k = hdr_ackno then ext_acked env c s else Some s) }
      else if sk_seqno k > circ_get_seqno b then do {
        s \<leftarrow> upd_sock c (\<lambda>k. k\<lparr>sk_flags := INCR_ACK_COUNT (sk_flags k)\<rparr>) s;
        k \<leftarrow> socks s c;
        (if GET_ACK_COUNT (sk_flags k) = 2 then do {
           s \<leftarrow> upd_sock c (\<lambda>k. k\<lparr>sk_flags := UNSET_ACK_COUNT (sk_flags k)\<rparr>) s;
           s \<leftarrow> reset_ssthresh c s;
           (s, rc) \<leftarrow> tcplib_output env c (circ_get_seqno b) s;
           upd_sock c (\<lambda>k. k\<lparr>retx := 6\<rparr>) s }
         else Some s) }
      else Some s) }"

text \<open>The sequence number is looked at: the data is taken, or an answer says where we are.\<close>

definition process_seqno :: "tcp_env \<Rightarrow> nat \<Rightarrow> ip6_hdr \<Rightarrow> mem \<Rightarrow> tcp_hdr \<Rightarrow> tcp_state \<Rightarrow> tcp_state option" where
  "process_seqno env c iph payload tcph s = do {
     k \<leftarrow> socks s c;
     let hdr_seqno = ntohl (th_seqno tcph);
     (if hdr_seqno \<noteq> sk_ackno k then
        (if hdr_seqno > sk_ackno k + ucast (my_wind k) \<or> hdr_seqno < sk_ackno k - ucast (my_wind k)
         then tcplib_send_rst env iph tcph s
         else do {
           s \<leftarrow> tcplib_send_ack env c False TCP_FLAG_ACK s;
           upd_sock c (\<lambda>k. k\<lparr>sk_flags := sk_flags k OR TCP_ACKSENT\<rparr>) s })
      else do {
        (s, n) \<leftarrow> receive_data env c payload tcph (uint (ntohs (ip6_plen iph))) s;
        k \<leftarrow> socks s c;
        (if n > 0 \<and> sk_flags k AND TCP_ACKSENT \<noteq> 0 then do {
           s \<leftarrow> upd_sock c (\<lambda>k. k\<lparr>sk_flags := sk_flags k AND NOT TCP_ACKSENT\<rparr>) s;
           tcplib_send_ack env c False TCP_FLAG_ACK s }
         else Some s) }) }"

definition payload_length :: "ip6_hdr \<Rightarrow> tcp_hdr \<Rightarrow> int" where
  "payload_length iph tcph = uint (ntohs (ip6_plen iph)) - uint (th_offset tcph) div 4"

text \<open>The code behind the label \<open>ESTABLISHED\<close>, up to the case of \<open>TIME_WAIT\<close>.\<close>

definition process_established :: "tcp_env \<Rightarrow> nat \<Rightarrow> ip6_hdr \<Rightarrow> mem \<Rightarrow> tcp_hdr \<Rightarrow> bool \<Rightarrow> tcp_state \<Rightarrow> tcp_state option" where
  "process_established env c iph payload tcph connect_done s = do {
     k \<leftarrow> socks s c;
     s \<leftarrow> (if sk_state k = TCP_ESTABLISHED \<or> sk_state k = TCP_FIN_WAIT_1 then do {
        s \<leftarrow> (if payload_length iph tcph > 0 then upd_sock c (\<lambda>k. k\<lparr>sk_flags := sk_flags k + 1\<rparr>) s else Some s);
        s \<leftarrow> process_ackno env c (ntohl (th_ackno tcph)) s;
        s \<leftarrow> process_seqno env c iph payload tcph s;
        upd_sock c (\<lambda>k. if retx k = 0 then k\<lparr>retx := 6\<rparr> else k) s }
      else Some s);
     k \<leftarrow> socks s c;
     (if connect_done \<and> sk_flags k AND TCP_CONNECTDONE = 0 then do {
        s \<leftarrow> upd_sock c (\<lambda>k. k\<lparr>sk_flags := sk_flags k OR TCP_CONNECTDONE\<rparr>) s;
        ext_connectdone env c 0 s }
      else Some s) }"

text \<open>The case of \<open>TIME_WAIT\<close>, into which the one before falls through.\<close>

definition process_ack :: "tcp_env \<Rightarrow> nat \<Rightarrow> ip6_hdr \<Rightarrow> tcp_hdr \<Rightarrow> tcp_state \<Rightarrow> tcp_state option" where
  "process_ack env c iph tcph s = do {
     k \<leftarrow> socks s c;
     let payload_len = payload_length iph tcph;
     let fin = (th_flags tcph AND TCP_FLAG_FIN \<noteq> 0);
     (if (payload_len > 0 \<and> sk_flags k AND TCP_ACKPENDING \<ge> 1) \<or> fin then do {
        s \<leftarrow> tcplib_send_ack env c (payload_len = 0 \<and> fin) TCP_FLAG_ACK s;
        k \<leftarrow> socks s c;
        (if sk_state k = TCP_ESTABLISHED \<and> fin \<and> ntohl (th_seqno tcph) = sk_ackno k then do {
           s \<leftarrow> upd_sock c (\<lambda>k. k\<lparr>sk_state := TCP_CLOSE_WAIT\<rparr>) s;
           ext_closed env c s }
         else Some s) }
      else Some s) }"

definition established :: "tcp_env \<Rightarrow> nat \<Rightarrow> ip6_hdr \<Rightarrow> mem \<Rightarrow> tcp_hdr \<Rightarrow> bool \<Rightarrow> tcp_state \<Rightarrow> tcp_state option" where
  "established env c iph payload tcph connect_done s = do {
     s \<leftarrow> process_established env c iph payload tcph connect_done s;
     process_ack env c iph tcph s }"

text \<open>\<open>FIN_WAIT_1\<close>: our FIN may be acknowledged.\<close>

definition process_fin_wait_1 :: "nat \<Rightarrow> tcp_hdr \<Rightarrow> tcp_state \<Rightarrow> tcp_state option" where
  "process_fin_wait_1 c tcph s = do {
     k \<leftarrow> socks s c;
     (if th_flags tcph AND TCP_FLAG_ACK \<noteq> 0 \<and> ntohl (th_ackno tcph) = sk_seqno k + 1 then
        (if th_flags tcph AND TCP_FLAG_FIN \<noteq> 0
         then upd_sock c (\<lambda>k. k\<lparr>sk_seqno := sk_seqno k + 1, sk_state := TCP_TIME_WAIT, retx := TCPLIB_TIMEWAIT_LEN\<rparr>) s
         else upd_sock c (\<lambda>k. k\<lparr>retx := TCPLIB_2MSL, sk_state := TCP_FIN_WAIT_2\<rparr>) s)
      else Some s) }"

definition init_tx :: "nat \<Rightarrow> tcp_state \<Rightarrow> tcp_state option" where
  "init_tx c s = do {
     k \<leftarrow> socks s c;
     b \<leftarrow> get_buf c s;
     set_buf c (fst (circ_buf_init b (tx_buf_len k) (0xcafebabe + 1))) s }"

text \<open>\<open>LISTEN\<close>: the application is asked for a socket; None means that it has none and the
  peer was sent a reset.\<close>

definition accept_syn :: "tcp_env \<Rightarrow> nat \<Rightarrow> ip6_hdr \<Rightarrow> tcp_hdr \<Rightarrow> tcp_state \<Rightarrow> (tcp_state \<times> nat option) option" where
  "accept_syn env c iph tcph s = do {
     let peer = \<lparr>sin6_port = th_srcport tcph, sin6_addr = ip6_src iph\<rparr>;
     s \<leftarrow> upd_sock c (\<lambda>k. k\<lparr>r_ep := peer\<rparr>) s;
     (s, new_sock) \<leftarrow> ext_accept env c peer s;
     s \<leftarrow> (if new_sock \<noteq> Some c then do {
        s \<leftarrow> upd_sock c (\<lambda>k. k\<lparr>r_ep := zero_ep\<rparr>) s;
        (case new_sock of
           None \<Rightarrow> Some s
         | Some n \<Rightarrow> do { s \<leftarrow> upd_sock n (\<lambda>k. k\<lparr>r_ep := peer\<rparr>) s; Some (conn_add_once n s) }) }
      else Some s);
     (case new_sock of
        None \<Rightarrow> do { s \<leftarrow> tcplib_send_rst env iph tcph s; Some (s, None) }
      | Some n \<Rightarrow> do {
          s \<leftarrow> upd_sock n (\<lambda>k. k\<lparr>l_ep := \<lparr>sin6_port = th_dstport tcph, sin6_addr = ip6_dst iph\<rparr>,
                 sk_ackno := ntohl (th_seqno tcph) + 1\<rparr>) s;
          s \<leftarrow> init_tx n s;
          Some (s, Some n) }) }"

definition answer_syn :: "tcp_env \<Rightarrow> nat \<Rightarrow> tcp_state \<Rightarrow> tcp_state option" where
  "answer_syn env n s = do {
     s \<leftarrow> upd_sock n (\<lambda>k. k\<lparr>sk_seqno := 0xcafebabe + 1, sk_state := TCP_SYN_RCVD\<rparr>) s;
     s \<leftarrow> tcplib_send_ack env n False (TCP_FLAG_ACK OR TCP_FLAG_SYN) s;
     upd_sock n (\<lambda>k. k\<lparr>sk_seqno := sk_seqno k + 1\<rparr>) s }"

text \<open>\<open>SYN_RCVD\<close> and \<open>LISTEN\<close>; the flag tells whether the code falls through to the next case.\<close>

definition process_listen :: "tcp_env \<Rightarrow> nat \<Rightarrow> ip6_hdr \<Rightarrow> tcp_hdr \<Rightarrow> tcp_state \<Rightarrow> (tcp_state \<times> bool) option" where
  "process_listen env c iph tcph s = do {
     k \<leftarrow> socks s c;
     (s, go) \<leftarrow> (if th_flags tcph AND TCP_FLAG_SYN \<noteq> 0 then do {
          (s, new_sock) \<leftarrow> (if sk_state k = TCP_LISTEN then accept_syn env c iph tcph s else Some (s, Some c));
          (case new_sock of
             None \<Rightarrow> Some (s, False)
           | Some n \<Rightarrow> do { s \<leftarrow> answer_syn env n s; Some (s, True) }) }
        else if sk_state k = TCP_LISTEN then do { s \<leftarrow> tcplib_send_rst env iph tcph s; Some (s, False) }
        else Some (s, True));
     (if go then do {
        s \<leftarrow> (if th_flags tcph AND TCP_FLAG_ACK \<noteq> 0 then upd_sock c (\<lambda>k. k\<lparr>sk_state := TCP_ESTABLISHED\<rparr>) s else Some s);
        Some (s, True) }
      else Some (s, False)) }"

definition listen_then_established :: "tcp_env \<Rightarrow> nat \<Rightarrow> ip6_hdr \<Rightarrow> mem \<Rightarrow> tcp_hdr \<Rightarrow> bool \<Rightarrow> tcp_state \<Rightarrow> tcp_state option" where
  "listen_then_established env c iph payload tcph connect_done s = do {
     (s, go) \<leftarrow> process_listen env c iph tcph s;
     (if go then established env c iph payload tcph connect_done s else Some s) }"

definition process_syn_sent :: "tcp_env \<Rightarrow> nat \<Rightarrow> ip6_hdr \<Rightarrow> mem \<Rightarrow> tcp_hdr \<Rightarrow> tcp_state \<Rightarrow> tcp_state option" where
  "process_syn_sent env c iph payload tcph s =
     (if th_flags tcph AND (TCP_FLAG_SYN OR TCP_FLAG_ACK) \<noteq> 0 then do {
        s \<leftarrow> upd_sock c (\<lambda>k. k\<lparr>sk_state := TCP_ESTABLISHED, sk_ackno := ntohl (th_seqno tcph) + 1\<rparr>) s;
        established env c iph payload tcph True s }
      else if th_flags tcph AND TCP_FLAG_SYN \<noteq> 0 then do {
        s \<leftarrow> upd_sock c (\<lambda>k. k\<lparr>sk_state := TCP_SYN_RCVD\<rparr>) s;
        listen_then_established env c iph payload tcph True s }
      else tcplib_send_rst env iph tcph s)"

text \<open>The switch over the state of the connection; returns \<open>rc\<close>.\<close>

definition process_state :: "tcp_env \<Rightarrow> nat \<Rightarrow> ip6_hdr \<Rightarrow> mem \<Rightarrow> tcp_hdr \<Rightarrow> tcp_state \<Rightarrow> (tcp_state \<times> int) option" where
  "process_state env c iph payload tcph s = do {
     k \<leftarrow> socks s c;
     let ok = map_option (\<lambda>s. (s, 0 :: int));
     (case sk_state k of
        TCP_LAST_ACK \<Rightarrow>
          if th_flags tcph AND TCP_FLAG_ACK \<noteq> 0 \<and> ntohl (th_ackno tcph) = sk_seqno k + 1 then ok (do {
            s \<leftarrow> upd_sock c (\<lambda>k. k\<lparr>sk_state := TCP_CLOSED\<rparr>) s;
            ext_closedone env c s })
          else ok (do {
            s \<leftarrow> process_fin_wait_1 c tcph s;
            established env c iph payload tcph False s })
      | TCP_FIN_WAIT_1 \<Rightarrow> ok (do {
            s \<leftarrow> process_fin_wait_1 c tcph s;
            established env c iph payload tcph False s })
      | TCP_FIN_WAIT_2 \<Rightarrow>
          if th_flags tcph AND TCP_FLAG_FIN \<noteq> 0 then ok (do {
            s \<leftarrow> upd_sock c (\<lambda>k. k\<lparr>sk_seqno := sk_seqno k + 1, sk_state := TCP_TIME_WAIT, retx := TCPLIB_TIMEWAIT_LEN\<rparr>) s;
            tcplib_send_ack env c False TCP_FLAG_ACK s })
          else ok (Some s)
      | TCP_SYN_SENT \<Rightarrow> ok (process_syn_sent env c iph payload tcph s)
      | TCP_SYN_RCVD \<Rightarrow> ok (listen_then_established env c iph payload tcph False s)
      | TCP_LISTEN \<Rightarrow> ok (listen_then_established env c iph payload tcph False s)
      | TCP_CLOSE_WAIT \<Rightarrow> ok (established env c iph payload tcph False s)
      | TCP_ESTABLISHED \<Rightarrow> ok (established env c iph payload tcph False s)
      | TCP_TIME_WAIT \<Rightarrow> ok (process_ack env c iph tcph s)
      | _ \<Rightarrow> Some (s, -1)) }"

definition tcplib_process :: "tcp_env \<Rightarrow> ip6_hdr \<Rightarrow> mem \<Rightarrow> tcp_state \<Rightarrow> (tcp_state \<times> int) option" where
  "tcplib_process env iph payload s = do {
     tcph \<leftarrow> tcp_hdr_at payload;
     this_conn \<leftarrow> conn_lookup s iph tcph;
     (case this_conn of
        None \<Rightarrow> do { s \<leftarrow> tcplib_send_rst env iph tcph s; Some (s, 0) }
      | Some c \<Rightarrow>
          if th_flags tcph AND TCP_FLAG_RST \<noteq> 0 then do { s \<leftarrow> ext_closedone env c s; Some (s, 0) }
          else do {
            s \<leftarrow> upd_sock c (\<lambda>k. k\<lparr>r_wind := ntohs (th_window tcph)\<rparr>) s;
            process_state env c iph payload tcph s }) }"

section \<open>Calls of the application\<close>

definition tcplib_bind :: "nat \<Rightarrow> sockaddr_in6 \<Rightarrow> tcp_state \<Rightarrow> (tcp_state \<times> int) option" where
  "tcplib_bind c addr s = do {
     rc \<leftarrow> conn_checkport s (sin6_port addr);
     (if rc \<noteq> 0 then Some (s, -1)
      else do { s \<leftarrow> upd_sock c (\<lambda>k. k\<lparr>l_ep := addr, sk_state := TCP_LISTEN\<rparr>) s; Some (s, 0) }) }"

definition tcplib_connect :: "tcp_env \<Rightarrow> nat \<Rightarrow> sockaddr_in6 \<Rightarrow> tcp_state \<Rightarrow> (tcp_state \<times> int) option" where
  "tcplib_connect env c serv_addr s = do {
     k \<leftarrow> socks s c;
     (if tx_buf k = None then Some (s, -1)
      else if sk_state k \<noteq> TCP_CLOSED \<and> sk_state k \<noteq> TCP_LISTEN then Some (s, -1)
      else do {
        s \<leftarrow> (if sk_state k = TCP_CLOSED then upd_sock c (\<lambda>k. k\<lparr>l_ep := zero_ep\<lparr>sin6_port := htons alloc_local_port\<rparr>\<rparr>) s else Some s);
        s \<leftarrow> init_tx c s;
        s \<leftarrow> upd_sock c (\<lambda>k. k\<lparr>sk_ackno := 0, sk_seqno := 0xcafebabe, r_ep := serv_addr\<rparr>) s;
        s \<leftarrow> tcplib_send_ack env c False TCP_FLAG_SYN s;
        s \<leftarrow> upd_sock c (\<lambda>k. k\<lparr>sk_state := TCP_SYN_SENT, sk_seqno := sk_seqno k + 1, retx := 6\<rparr>) s;
        Some (s, 0) }) }"

definition tcplib_send :: "nat \<Rightarrow> mem \<Rightarrow> int \<Rightarrow> tcp_state \<Rightarrow> (tcp_state \<times> int) option" where
  "tcplib_send c data len s = do {
     k \<leftarrow> socks s c;
     (if sk_state k \<noteq> TCP_ESTABLISHED then Some (s, -1)
      else do {
        b \<leftarrow> get_buf c s;
        (if sk_seqno k - circ_get_seqno b + word_of_int len > word_of_int (tx_buf_len k) then Some (s, -1)
         else do {
           (b, rc) \<leftarrow> circ_buf_write b (sk_seqno k) data len;
           s \<leftarrow> set_buf c b s;
           (if rc < 0 then Some (s, -1)
            else do {
              s \<leftarrow> upd_sock c (\<lambda>k. k\<lparr>sk_seqno := sk_seqno k + word_of_int len, retx := 1\<rparr>) s;
              Some (s, 0) }) }) }) }"

definition tcplib_abort :: "tcp_env \<Rightarrow> nat \<Rightarrow> tcp_state \<Rightarrow> (tcp_state \<times> int) option" where
  "tcplib_abort env c s = do {
     k \<leftarrow> socks s c;
     (if sk_state k = TCP_CLOSED \<or> sk_state k = TCP_LISTEN then Some (s, 0)
      else do {
        s \<leftarrow> tcplib_send_ack env c False TCP_FLAG_RST s;
        s \<leftarrow> upd_sock c (\<lambda>k. k\<lparr>l_ep := zero_ep, r_ep := zero_ep, sk_state := TCP_CLOSED\<rparr>) s;
        Some (s, 0) }) }"

definition tcplib_close :: "tcp_env \<Rightarrow> nat \<Rightarrow> tcp_state \<Rightarrow> (tcp_state \<times> int) option" where
  "tcplib_close env c s = do {
     k \<leftarrow> socks s c;
     (case sk_state k of
        TCP_CLOSE_WAIT \<Rightarrow> do {
          s \<leftarrow> tcplib_send_ack env c True (TCP_FLAG_ACK OR TCP_FLAG_FIN) s;
          s \<leftarrow> upd_sock c (\<lambda>k. k\<lparr>retx := 6, sk_state := TCP_LAST_ACK\<rparr>) s;
          Some (s, 0) }
      | TCP_ESTABLISHED \<Rightarrow> do {
          s \<leftarrow> tcplib_send_ack env c False (TCP_FLAG_ACK OR TCP_FLAG_FIN) s;
          s \<leftarrow> upd_sock c (\<lambda>k. k\<lparr>retx := TCPLIB_2MSL, sk_state := TCP_FIN_WAIT_1\<rparr>) s;
          Some (s, 0) }
      | TCP_SYN_SENT \<Rightarrow> do { s \<leftarrow> upd_sock c (\<lambda>k. k\<lparr>sk_state := TCP_CLOSED\<rparr>) s; Some (s, 0) }
      | _ \<Rightarrow> Some (s, -1)) }"

section \<open>The timer\<close>

definition retx_state :: "tcp_env \<Rightarrow> nat \<Rightarrow> tcp_state \<Rightarrow> tcp_state option" where
  "retx_state env c s = do {
     k \<leftarrow> socks s c;
     (case sk_state k of
        TCP_ESTABLISHED \<Rightarrow> do {
          b \<leftarrow> get_buf c s;
          (if circ_get_seqno b \<noteq> sk_seqno k then do {
             s \<leftarrow> reset_ssthresh c s;
             s \<leftarrow> upd_sock c (\<lambda>k. k\<lparr>cwnd := ONE_SEGMENT k\<rparr>) s;
             (s, rc) \<leftarrow> tcplib_output env c (circ_get_seqno b) s;
             upd_sock c (\<lambda>k. k\<lparr>retx := 6\<rparr>) s }
           else upd_sock c (\<lambda>k. k\<lparr>retxcnt := retxcnt k - 1\<rparr>) s) }
      | TCP_SYN_SENT \<Rightarrow> do {
          s \<leftarrow> tcplib_send_ack env c False TCP_FLAG_SYN s;
          upd_sock c (\<lambda>k. k\<lparr>retx := 6\<rparr>) s }
      | TCP_LAST_ACK \<Rightarrow> do {
          s \<leftarrow> tcplib_send_ack env c True (TCP_FLAG_ACK OR TCP_FLAG_FIN) s;
          upd_sock c (\<lambda>k. k\<lparr>retx := TCPLIB_2MSL\<rparr>) s }
      | TCP_FIN_WAIT_1 \<Rightarrow> do {
          s \<leftarrow> tcplib_send_ack env c True (TCP_FLAG_ACK OR TCP_FLAG_FIN) s;
          upd_sock c (\<lambda>k. k\<lparr>retx := TCPLIB_2MSL\<rparr>) s }
      | TCP_FIN_WAIT_2 \<Rightarrow> do {
          s \<leftarrow> upd_sock c (\<lambda>k. k\<lparr>sk_state := TCP_CLOSED\<rparr>) s;
          ext_closedone env c s }
      | TCP_TIME_WAIT \<Rightarrow> do {
          s \<leftarrow> upd_sock c (\<lambda>k. k\<lparr>sk_state := TCP_CLOSED\<rparr>) s;
          ext_closedone env c s }
      | _ \<Rightarrow> Some s) }"

definition tcplib_retx_expire :: "tcp_env \<Rightarrow> nat \<Rightarrow> tcp_state \<Rightarrow> tcp_state option" where
  "tcplib_retx_expire env c s = do {
     s \<leftarrow> upd_sock c (\<lambda>k. k\<lparr>retxcnt := retxcnt k + 1\<rparr>) s;
     s \<leftarrow> retx_state env c s;
     k \<leftarrow> socks s c;
     (if retxcnt k > TCPLIB_GIVEUP
      then upd_sock c (\<lambda>k. k\<lparr>sk_state := TCP_TIME_WAIT, retx := TCPLIB_TIMEWAIT_LEN\<rparr>) s
      else Some s) }"

definition timer_tick :: "tcp_env \<Rightarrow> nat \<Rightarrow> tcp_state \<Rightarrow> tcp_state option" where
  "timer_tick env c s = do {
     k \<leftarrow> socks s c;
     s \<leftarrow> (if retx k > 0 then do {
        s \<leftarrow> upd_sock c (\<lambda>k. k\<lparr>retx := retx k - 1\<rparr>) s;
        (if retx k - 1 = 0 then tcplib_retx_expire env c s else Some s) }
      else Some s);
     k \<leftarrow> socks s c;
     (if sk_flags k AND TCP_ACKPENDING \<ge> 2 then tcplib_send_ack env c False TCP_FLAG_ACK s else Some s) }"

text \<open>The walk over the list: a connection that a handler adds goes to the front, behind the walk.\<close>

fun timer_from :: "tcp_env \<Rightarrow> nat list \<Rightarrow> tcp_state \<Rightarrow> tcp_state option" where
  "timer_from env [] s = Some s"
| "timer_from env (c # cs) s = do { s \<leftarrow> timer_tick env c s; timer_from env cs s }"

definition tcplib_timer_process :: "tcp_env \<Rightarrow> tcp_state \<Rightarrow> (tcp_state \<times> int) option" where
  "tcplib_timer_process env s = do { s \<leftarrow> timer_from env (conns s) s; Some (s, 0) }"

end
