(* ===== verification/Tcp_Inv.thy ===== *)
theory Tcp_Inv
  imports Tcp_Process
begin


text \<open>
  Safety of the TCP library: an invariant over the sockets, their transmit buffers and the
  packet heap, under which no handler dereferences a null pointer, leaves a buffer or the block of
  a packet, uses a freed packet or runs forever, whatever segment arrives.  The upcalls may do
  anything that keeps the invariant.  If they also give back the packets they take, the packet heap
  has the same blocks after every handler: none is lost.
\<close>

section \<open>The invariant\<close>

definition good_heap :: "mem \<Rightarrow> bool" where
  "good_heap h \<longleftrightarrow> (\<exists>bs. heap_abs h bs \<and> coalesced bs)"

text \<open>The heap has the blocks it had; it has no others, since a heap determines its blocks.\<close>

definition same_blocks :: "mem \<Rightarrow> mem \<Rightarrow> bool" where
  "same_blocks h h' \<longleftrightarrow> (\<forall>bs. heap_abs h bs \<longrightarrow> heap_abs h' bs)"

lemma same_blocks_refl [simp]: "same_blocks h h"
  by (simp add: same_blocks_def)

lemma same_blocks_trans: "same_blocks h h1 \<Longrightarrow> same_blocks h1 h2 \<Longrightarrow> same_blocks h h2"
  by (simp add: same_blocks_def)

lemma same_blocksI: "heap_abs h bs \<Longrightarrow> heap_abs h' bs \<Longrightarrow> same_blocks h h'"
  using heap_abs_unique by (auto simp: same_blocks_def)

text \<open>The states in which the transmit buffer is used.\<close>

definition active :: "tcplib_sock \<Rightarrow> bool" where
  "active k \<longleftrightarrow> sk_state k \<in> {TCP_SYN_SENT, TCP_SYN_RCVD, TCP_ESTABLISHED, TCP_FIN_WAIT_1}"

definition FIRST_SEQNO :: u32 where "FIRST_SEQNO = 0xcafebabe + 1"

definition buf_ok :: "tcplib_sock \<Rightarrow> circ_buf \<Rightarrow> bool" where
  "buf_ok k b \<longleftrightarrow> circ_ok b \<and> 1 < cb_len b \<and> cb_len b \<le> 65000 \<and> unat (mss k) \<le> 65000 \<and> 2 ^ 31 \<le> unat (head_seqno b) \<and>
     unat (head_seqno b) \<le> unat (sk_seqno k) \<and> unat (sk_seqno k) \<le> unat (head_seqno b) + cb_len b \<and>
     (sk_state k = TCP_SYN_RCVD \<longrightarrow> head_seqno b = FIRST_SEQNO \<and> unat (sk_seqno k) \<le> unat FIRST_SEQNO + 1)"

definition sock_ok :: "(nat \<Rightarrow> circ_buf option) \<Rightarrow> tcplib_sock \<Rightarrow> bool" where
  "sock_ok bufs k \<longleftrightarrow> (active k \<longrightarrow> (\<exists>p b. tx_buf k = Some p \<and> bufs p = Some b \<and> buf_ok k b))"

definition socks_ok :: "(nat \<Rightarrow> tcplib_sock option) \<Rightarrow> (nat \<Rightarrow> circ_buf option) \<Rightarrow> bool" where
  "socks_ok sk bufs \<longleftrightarrow> (\<forall>c k. sk c = Some k \<longrightarrow> sock_ok bufs k) \<and>
     (\<forall>c d k k'. sk c = Some k \<and> sk d = Some k' \<and> c \<noteq> d \<and> active k \<and> active k' \<longrightarrow> tx_buf k \<noteq> tx_buf k')"

definition tcp_inv :: "tcp_state \<Rightarrow> bool" where
  "tcp_inv s \<longleftrightarrow> good_heap (pkt_heap s) \<and> (\<forall>c\<in>set (conns s). socks s c \<noteq> None) \<and> socks_ok (socks s) (tx_bufs s)"

text \<open>The sockets that exist stay; with \<open>tidy\<close>, so do the blocks of the packet heap.\<close>

definition keeps :: "bool \<Rightarrow> tcp_state \<Rightarrow> tcp_state \<Rightarrow> bool" where
  "keeps tidy s s' \<longleftrightarrow> tcp_inv s' \<and> (\<forall>d. socks s d \<noteq> None \<longrightarrow> socks s' d \<noteq> None) \<and>
     (tidy \<longrightarrow> same_blocks (pkt_heap s) (pkt_heap s'))"

lemma keeps_refl [simp]: "tcp_inv s \<Longrightarrow> keeps tidy s s"
  by (simp add: keeps_def)

lemma keeps_trans: "keeps tidy s t \<Longrightarrow> keeps tidy t u \<Longrightarrow> keeps tidy s u"
  by (auto simp: keeps_def intro: same_blocks_trans)

lemma keepsD: "keeps tidy s t \<Longrightarrow> tcp_inv t" "keeps tidy s t \<Longrightarrow> socks s c = Some k \<Longrightarrow> \<exists>k'. socks t c = Some k'"
  by (auto simp: keeps_def)

text \<open>Changing one socket, and perhaps its buffer.\<close>

lemma socks_ok_upd:
  assumes ok: "socks_ok sk bufs" "sk c = Some k"
    and k': "active k' \<Longrightarrow> active k \<and> tx_buf k' = tx_buf k" "sock_ok bufs k'"
  shows "socks_ok (sk(c \<mapsto> k')) bufs"
  using ok k' unfolding socks_ok_def by (auto split: if_splits) metis+

lemma socks_ok_buf:
  assumes ok: "socks_ok sk bufs" "sk c = Some k" "active k" "tx_buf k = Some p"
    and k': "tx_buf k' = Some p" "buf_ok k' b"
  shows "socks_ok (sk(c \<mapsto> k')) (bufs(p \<mapsto> b))"
proof -
  have "sock_ok (bufs(p \<mapsto> b)) k2" if "(sk(c \<mapsto> k')) d = Some k2" for d k2
  proof (cases "d = c")
    case True then show ?thesis using that k' by (simp add: sock_ok_def)
  next
    case False
    then have "sk d = Some k2" using that by simp
    then have "sock_ok bufs k2" "active k2 \<longrightarrow> tx_buf k2 \<noteq> Some p" using ok False unfolding socks_ok_def by metis+
    then show ?thesis by (auto simp: sock_ok_def)
  qed
  moreover have "tx_buf k1 \<noteq> tx_buf k2"
    if "(sk(c \<mapsto> k')) d = Some k1" "(sk(c \<mapsto> k')) e = Some k2" "d \<noteq> e" "active k1" "active k2" for d e k1 k2
    using that ok k' unfolding socks_ok_def by (auto split: if_splits) metis+
  ultimately show ?thesis unfolding socks_ok_def by blast
qed

lemma active_buf:
  assumes "tcp_inv s" "socks s c = Some k" "active k"
  obtains p b where "tx_buf k = Some p" "tx_bufs s p = Some b" "buf_ok k b" "get_buf c s = Some b"
proof -
  have "sock_ok (tx_bufs s) k" using assms(1,2) by (auto simp: tcp_inv_def socks_ok_def)
  then obtain p b where "tx_buf k = Some p" "tx_bufs s p = Some b" "buf_ok k b" using assms(3) by (auto simp: sock_ok_def)
  then show ?thesis using that assms(2) by (simp add: get_buf_def)
qed

lemma tcp_inv_upd:
  assumes "tcp_inv s" "socks s c = Some k" "good_heap h" "same_blocks (pkt_heap s) h"
    and "active k' \<Longrightarrow> active k \<and> tx_buf k' = tx_buf k" "sock_ok (tx_bufs s) k'"
  shows "keeps tidy s (s\<lparr>socks := (socks s)(c \<mapsto> k'), pkt_heap := h, sent := ms\<rparr>)"
  using assms socks_ok_upd [of "socks s" "tx_bufs s" c k k'] by (auto simp: keeps_def tcp_inv_def)

text \<open>Fields the invariant does not look at.\<close>

definition same_tx :: "tcplib_sock \<Rightarrow> tcplib_sock \<Rightarrow> bool" where
  "same_tx k k' \<longleftrightarrow> sk_state k' = sk_state k \<and> tx_buf k' = tx_buf k \<and> sk_seqno k' = sk_seqno k \<and> mss k' = mss k"

lemma same_tx_ok: "same_tx k k' \<Longrightarrow> active k' = active k" "same_tx k k' \<Longrightarrow> sock_ok bufs k' = sock_ok bufs k"
  by (simp_all add: same_tx_def active_def sock_ok_def buf_ok_def)

lemma upd_same:
  assumes "tcp_inv s" "socks s c = Some k" "same_tx k (f k)"
  shows "\<exists>s'. upd_sock c f s = Some s' \<and> keeps tidy s s' \<and> s' = s\<lparr>socks := (socks s)(c \<mapsto> f k)\<rparr>"
proof -
  have "sock_ok (tx_bufs s) k" using assms(1,2) by (auto simp: tcp_inv_def socks_ok_def)
  then have "socks_ok ((socks s)(c \<mapsto> f k)) (tx_bufs s)"
    using assms same_tx_ok [OF assms(3)] by (intro socks_ok_upd) (auto simp: tcp_inv_def same_tx_def)
  then show ?thesis using assms(1,2) by (auto simp: upd_sock_def keeps_def tcp_inv_def)
qed

text \<open>Leaving the active states.\<close>

lemma upd_inactive:
  assumes "tcp_inv s" "socks s c = Some k" "\<not> active (f k)"
  shows "\<exists>s'. upd_sock c f s = Some s' \<and> keeps tidy s s' \<and> s' = s\<lparr>socks := (socks s)(c \<mapsto> f k)\<rparr>"
proof -
  have "socks_ok ((socks s)(c \<mapsto> f k)) (tx_bufs s)"
    using assms by (intro socks_ok_upd) (auto simp: tcp_inv_def sock_ok_def)
  then show ?thesis using assms(1,2) by (auto simp: upd_sock_def keeps_def tcp_inv_def)
qed

section \<open>Sending\<close>

text \<open>A packet comes from the heap and goes back to it.  While it is held, its block has room for \<open>n\<close> bytes
  of data, stores into the block leave the other blocks alone, and its release gives the old blocks.\<close>

definition held :: "blocks \<Rightarrow> blocks \<Rightarrow> nat \<Rightarrow> nat \<Rightarrow> mem \<Rightarrow> bool" where
  "held bs bs1 p n h \<longleftrightarrow> heap_abs h bs1 \<and> (\<exists>k. (p, k) \<in> live bs1 \<and> 80 + n \<le> k) \<and>
     (\<forall>junk h'. heap_abs h' bs1 \<longrightarrow> (\<exists>h2. ip_free junk h' p = Some h2 \<and> heap_abs h2 bs))"

lemma held_store:
  assumes "held bs bs1 p n (pkt_heap s)" "off + length xs \<le> 80 + n"
  shows "heap_store p off xs s = Some (s\<lparr>pkt_heap := put (pkt_heap s) (p + off) xs\<rparr>)"
    "held bs bs1 p n (put (pkt_heap s) (p + off) xs)"
    "has_at (put (pkt_heap s) (p + off) xs) (p + off) xs"
proof -
  obtain k where k: "heap_abs (pkt_heap s) bs1" "(p, k) \<in> live bs1" "80 + n \<le> k" using assms(1) by (auto simp: held_def)
  have fits: "off + length xs \<le> k" using assms(2) k(3) by simp
  note st = store_in_block [OF k(1,2) fits]
  show "heap_store p off xs s = Some (s\<lparr>pkt_heap := put (pkt_heap s) (p + off) xs\<rparr>)" using st(1) in_block_live [OF k(1,2) fits] by (simp add: heap_store_def)
  show "held bs bs1 p n (put (pkt_heap s) (p + off) xs)" using assms(1) st(2) by (simp add: held_def)
  show "has_at (put (pkt_heap s) (p + off) xs) (p + off) xs" using st(1) by (simp add: wrn_def split: if_splits)
qed

lemma held_free:
  assumes "held bs bs1 (msg_ptr m) n (pkt_heap s)"
  shows "\<exists>h. free_msg env m s = Some (s\<lparr>pkt_heap := h\<rparr>) \<and> heap_abs h bs"
proof -
  obtain h where "ip_free (behind (env_junk env)) (pkt_heap s) (msg_ptr m) = Some h" "heap_abs h bs"
    using assms unfolding held_def by blast
  then show ?thesis by (intro exI [of _ h]) (simp add: free_msg_def)
qed

lemma get_ipmsg_ok:
  assumes "heap_abs (pkt_heap s) bs" "coalesced bs" "0 \<le> plen" "plen \<le> 65000"
  shows "get_ipmsg env plen s = Some (s, None) \<or>
    (\<exists>h m bs1. get_ipmsg env plen s = Some (s\<lparr>pkt_heap := h\<rparr>, Some m) \<and> ip6_nxt (msg_ip m) = IANA_TCP \<and>
      ip6_plen (msg_ip m) = htons (word_of_int (20 + plen)) \<and> msg_len m = nat plen \<and> held bs bs1 (msg_ptr m) (nat plen) h)"
proof -
  let ?r = "word_of_int (80 + plen) :: u16"
  have "uint ?r = 80 + plen"
    by (simp only: uint_word_of_int_eq) (rule take_bit_int_eq_self, use assms(3,4) in simp_all)
  then have r: "unat ?r = nat (80 + plen)" by (simp only: flip: nat_uint_eq)
  then have "request_ok ?r" using assms(3,4) by (simp add: request_ok_def word_less_nat_alt)
  from malloc_borrow [OF assms(1,2) this, of "env_junk env"] show ?thesis
  proof
    assume "ip_malloc (behind (env_junk env)) (pkt_heap s) ?r = Some (pkt_heap s, None)"
    then show ?thesis by (simp add: get_ipmsg_def SIZEOF_IP6_PACKET_def SIZEOF_TCP_HDR_def SIZEOF_IP_IOVEC_def)
  next
    assume "\<exists>h1 p k bs1. ip_malloc (behind (env_junk env)) (pkt_heap s) ?r = Some (h1, Some p) \<and> heap_abs h1 bs1 \<and>
      (p, k) \<in> live bs1 \<and> unat ?r \<le> k \<and> (\<forall>junk h'. heap_abs h' bs1 \<longrightarrow> (\<exists>h2. ip_free junk h' p = Some h2 \<and> heap_abs h2 bs))"
    then obtain h1 p k bs1 where m: "ip_malloc (behind (env_junk env)) (pkt_heap s) ?r = Some (h1, Some p)"
      and h1: "heap_abs h1 bs1" "(p, k) \<in> live bs1" "unat ?r \<le> k"
        "\<forall>junk h'. heap_abs h' bs1 \<longrightarrow> (\<exists>h2. ip_free junk h' p = Some h2 \<and> heap_abs h2 bs)" by blast
    define n where "n = nat plen"
    have n: "plen = int n" using assms(3) by (simp add: n_def)
    have "held bs bs1 p n h1" using h1 r by (auto simp: held_def n nat_add_distrib)
    then have h0: "held bs bs1 p n (pkt_heap (s\<lparr>pkt_heap := h1\<rparr>))" by simp
    let ?l = "htons (word_of_int (20 + plen))"
    let ?run = "\<lambda>s. do {
       s \<leftarrow> heap_store p 0 (replicate 68 0) s;
       s \<leftarrow> heap_store p 14 [IANA_TCP] s;
       s \<leftarrow> heap_store p 12 [lo8 ?l, hi8 ?l] s;
       s \<leftarrow> heap_store p 4 (bytes32 (of_nat (p + (68 + n)))) s;
       s \<leftarrow> heap_store p (76 + n) (bytes32 0) s;
       s \<leftarrow> heap_store p (72 + n) (bytes32 (word_of_int (plen + 20))) s;
       heap_store p (68 + n) (bytes32 (of_nat (p + 48))) s }"
    have step: "\<exists>h'. (do { s \<leftarrow> heap_store p off xs (s\<lparr>pkt_heap := h\<rparr>); f s }) = Some (s\<lparr>pkt_heap := h'\<rparr>) \<and> held bs bs1 p n h'"
      if "held bs bs1 p n h" "off + length xs \<le> 80 + n"
        and "\<And>h. held bs bs1 p n h \<Longrightarrow> \<exists>h'. f (s\<lparr>pkt_heap := h\<rparr>) = Some (s\<lparr>pkt_heap := h'\<rparr>) \<and> held bs bs1 p n h'"
      for off xs h and f :: "tcp_state \<Rightarrow> tcp_state option"
      using held_store [of bs bs1 p n "s\<lparr>pkt_heap := h\<rparr>" off xs] that by auto
    have last: "\<exists>h'. heap_store p off xs (s\<lparr>pkt_heap := h\<rparr>) = Some (s\<lparr>pkt_heap := h'\<rparr>) \<and> held bs bs1 p n h'"
      if "held bs bs1 p n h" "off + length xs \<le> 80 + n" for off xs h
      using held_store [of bs bs1 p n "s\<lparr>pkt_heap := h\<rparr>" off xs] that by auto
    have "held bs bs1 p n h1" using h1 r by (auto simp: held_def n nat_add_distrib)
    then have "\<exists>h'. ?run (s\<lparr>pkt_heap := h1\<rparr>) = Some (s\<lparr>pkt_heap := h'\<rparr>) \<and> held bs bs1 p n h'"
      by (intro step last) simp_all
    then obtain h' where "?run (s\<lparr>pkt_heap := h1\<rparr>) = Some (s\<lparr>pkt_heap := h'\<rparr>)" "held bs bs1 p n h'" by blast
    moreover define msg where "msg = \<lparr>msg_ptr = p, msg_ip = \<lparr>ip6_flow = 0, ip6_plen = ?l, ip6_nxt = IANA_TCP, ip6_hlim = 0,
      ip6_src = replicate 16 0, ip6_dst = replicate 16 0\<rparr>, msg_tcp = zero_tcp_hdr, msg_len = nat plen, msg_data = []\<rparr>"
    have "get_ipmsg env plen s = ?run (s\<lparr>pkt_heap := h1\<rparr>) \<bind> (\<lambda>s. Some (s, Some msg))"
      using m unfolding msg_def n
      by (simp add: get_ipmsg_def SIZEOF_IP6_PACKET_def SIZEOF_TCP_HDR_def SIZEOF_IP_IOVEC_def Let_def nat_add_distrib ac_simps)
    ultimately have "get_ipmsg env plen s = Some (s\<lparr>pkt_heap := h'\<rparr>, Some msg)" by simp
    then show ?thesis using \<open>held bs bs1 p n h'\<close> by (intro disjI2 exI [of _ h'] exI [of _ msg] exI [of _ bs1]) (simp add: msg_def n_def)
  qed
qed

text \<open>The segment a socket sends: its ports, numbers and window.\<close>

definition is_segment :: "tcplib_sock \<Rightarrow> u32 \<Rightarrow> u32 \<Rightarrow> u8 \<Rightarrow> mem \<Rightarrow> tcp_msg \<Rightarrow> bool" where
  "is_segment k seq ackn fl d m \<longleftrightarrow>
     msg_tcp m = \<lparr>th_srcport = sin6_port (l_ep k), th_dstport = sin6_port (r_ep k), th_seqno = htonl seq,
       th_ackno = htonl ackn, th_offset = 80, th_flags = fl, th_window = htons (my_wind k), th_chksum = 0, th_urgent = 0\<rparr> \<and>
     ip6_dst (msg_ip m) = sin6_addr (r_ep k) \<and> ip6_plen (msg_ip m) = htons (20 + of_nat (length d)) \<and> msg_data m = d"

definition no_pending :: "tcplib_sock \<Rightarrow> tcplib_sock" where
  "no_pending k = k\<lparr>sk_flags := sk_flags k AND NOT TCP_ACKPENDING\<rparr>"

text \<open>The last stores, the hand over with the data loaded from the block, and the block still held.\<close>

lemma transmit_ok:
  fixes m :: tcp_msg and k :: tcplib_sock
  assumes h: "held bs bs1 (msg_ptr m) (msg_len m) (pkt_heap s)" and k: "socks s c = Some k"
    and m: "ip6_nxt (msg_ip m) = IANA_TCP" and d: "has_at (pkt_heap s) (msg_ptr m + 68) d" "length d = msg_len m"
  defines "m2 \<equiv> m\<lparr>msg_ip := (msg_ip m)\<lparr>ip6_dst := sin6_addr (r_ep k)\<rparr>,
      msg_tcp := (msg_tcp m)\<lparr>th_srcport := sin6_port (l_ep k), th_dstport := sin6_port (r_ep k),
                th_offset := of_nat SIZEOF_TCP_HDR * 4, th_window := htons (my_wind k), th_chksum := 0, th_urgent := 0\<rparr>,
      msg_data := d\<rparr>"
  shows "\<exists>h. tcplib_transmit c m s =
      Some (s\<lparr>socks := (socks s)(c \<mapsto> no_pending k), pkt_heap := h, sent := sent s @ [m2]\<rparr>) \<and>
    held bs bs1 (msg_ptr m) (msg_len m) h"
proof -
  define x where "x = in6_bytes (sin6_addr (r_ep k))"
  define y where "y = tcp_hdr_bytes (msg_tcp m2)"
  have l: "length x = 16" "length y = 20" by (simp_all add: x_def y_def in6_bytes_def tcp_hdr_bytes_def bytes32_def)
  let ?h1 = "put (pkt_heap s) (msg_ptr m + 32) x"
  let ?h2 = "put ?h1 (msg_ptr m + 48) y"
  note st1 = held_store [OF h, of 32 x]
  have s1: "heap_store (msg_ptr m) 32 x s = Some (s\<lparr>pkt_heap := ?h1\<rparr>)" "held bs bs1 (msg_ptr m) (msg_len m) ?h1"
    using st1(1,2) l by simp_all
  let ?s1 = "s\<lparr>pkt_heap := ?h1, socks := (socks s)(c \<mapsto> no_pending k)\<rparr>"
  have s2: "heap_store (msg_ptr m) 48 y ?s1 = Some (?s1\<lparr>pkt_heap := ?h2\<rparr>)" "held bs bs1 (msg_ptr m) (msg_len m) ?h2"
    using held_store [of bs bs1 "msg_ptr m" "msg_len m" ?s1 48 y] s1(2) l by simp_all
  have "has_at ?h1 (msg_ptr m + 68) d" by (rule has_at_put_below) (simp_all add: d(1) l)
  then have "has_at ?h2 (msg_ptr m + 68) d" by (rule has_at_put_below) (simp add: l)
  then have "rdn ?h2 (msg_ptr m + 68) (msg_len m) = Some d" using rdn_has_at d(2) by metis
  then have "tcplib_transmit c m s =
      Some (s\<lparr>socks := (socks s)(c \<mapsto> no_pending k), pkt_heap := ?h2, sent := sent s @ [m2]\<rparr>)"
    using s1(1) s2(1) k m
    by (simp add: tcplib_transmit_def find_tcp_hdr_def store_dst_def store_tcp_hdr_def upd_sock_def tcplib_send_out_def
        no_pending_def Let_def SIZEOF_IP6_PACKET_def SIZEOF_TCP_HDR_def x_def [symmetric] add.commute m2_def y_def)
  then show ?thesis using s2(2) by blast
qed

lemma tcp_hdr_len [simp]: "length (tcp_hdr_bytes th) = 20"
  by (simp add: tcp_hdr_bytes_def bytes32_def)

lemma in6_len [simp]: "length (in6_bytes a) = 16"
  by (simp add: in6_bytes_def)

lemma store_tcp_hdr_ok:
  assumes "held bs bs1 (msg_ptr m) n (pkt_heap s)"
  shows "\<exists>h. store_tcp_hdr m s = Some (s\<lparr>pkt_heap := h\<rparr>) \<and> held bs bs1 (msg_ptr m) n h"
  using held_store [OF assms, of 48 "tcp_hdr_bytes (msg_tcp m)"] by (auto simp: store_tcp_hdr_def SIZEOF_IP6_PACKET_def)

lemma held_end:
  assumes "held bs bs1 p n h"
  shows "p + 68 + n \<le> length h"
proof -
  obtain k where k: "heap_abs h bs1" "(p, k) \<in> live bs1" "68 + length (replicate n (0 :: u8)) \<le> k"
    using assms by (auto simp: held_def)
  show ?thesis using store_in_block(1) [OF k] by (auto simp: wrn_def split: if_splits)
qed

text \<open>The heap stays good and keeps its blocks when the packet is given back.\<close>

lemma given_back:
  assumes "heap_abs h bs" "coalesced bs" "heap_abs h' bs"
  shows "good_heap h' \<and> same_blocks h h'"
  using assms same_blocksI by (auto simp: good_heap_def)

lemma send_ack_ok:
  assumes "good_heap (pkt_heap s)" "socks s c = Some k"
  shows "\<exists>h k' ms. tcplib_send_ack env c fin fl s = Some (s\<lparr>socks := (socks s)(c \<mapsto> k'), pkt_heap := h, sent := sent s @ ms\<rparr>) \<and>
    (good_heap h \<and> same_blocks (pkt_heap s) h) \<and> (ms = [] \<and> k' = k \<or>
      (\<exists>m. ms = [m] \<and> is_segment k (sk_seqno k) (sk_ackno k + (if fin then 1 else 0)) fl [] m \<and> k' = no_pending k))"
proof -
  obtain bs where bs: "heap_abs (pkt_heap s) bs" "coalesced bs" using assms(1) by (auto simp: good_heap_def)
  from get_ipmsg_ok [OF bs order_refl zero_le_numeral, of env] show ?thesis
  proof (elim disjE exE conjE)
    assume "get_ipmsg env 0 s = Some (s, None)"
    then have "tcplib_send_ack env c fin fl s = Some (s\<lparr>socks := (socks s)(c \<mapsto> k), pkt_heap := pkt_heap s, sent := sent s @ []\<rparr>)"
      using assms(2) by (simp add: tcplib_send_ack_def fun_upd_idem)
    then show ?thesis using assms(1) same_blocks_refl by blast
  next
    fix h1 :: mem and m :: tcp_msg and bs1 :: blocks
    let ?m = "m\<lparr>msg_tcp := (msg_tcp m)\<lparr>th_flags := fl, th_seqno := htonl (sk_seqno k), th_ackno := htonl (sk_ackno k + (if fin then 1 else 0))\<rparr>\<rparr>"
    assume g: "get_ipmsg env 0 s = Some (s\<lparr>pkt_heap := h1\<rparr>, Some m)" "ip6_nxt (msg_ip m) = IANA_TCP"
      "ip6_plen (msg_ip m) = htons (word_of_int (20 + 0))" "msg_len m = nat 0" "held bs bs1 (msg_ptr m) (nat 0) h1"
    obtain h2 where h2: "store_tcp_hdr ?m (s\<lparr>pkt_heap := h1\<rparr>) = Some (s\<lparr>pkt_heap := h2\<rparr>)" "held bs bs1 (msg_ptr m) 0 h2"
      using store_tcp_hdr_ok [of bs bs1 ?m 0 "s\<lparr>pkt_heap := h1\<rparr>"] g(5) by auto
    have "has_at h2 (msg_ptr m + 68) []" using held_end [OF h2(2)] by (simp add: has_at_def)
    then obtain h3 m2 where t: "tcplib_transmit c ?m (s\<lparr>pkt_heap := h2\<rparr>) =
        Some (s\<lparr>socks := (socks s)(c \<mapsto> no_pending k), pkt_heap := h3, sent := sent s @ [m2]\<rparr>)" "held bs bs1 (msg_ptr m) 0 h3"
      and m2: "is_segment k (sk_seqno k) (sk_ackno k + (if fin then 1 else 0)) fl [] m2"
      using transmit_ok [of bs bs1 ?m "s\<lparr>pkt_heap := h2\<rparr>" c k "[]"] g(2-4) h2(2) assms(2)
      by (auto simp: is_segment_def SIZEOF_TCP_HDR_def)
    let ?s3 = "s\<lparr>socks := (socks s)(c \<mapsto> no_pending k), pkt_heap := h3, sent := sent s @ [m2]\<rparr>"
    obtain h4 where h4: "free_msg env ?m ?s3 = Some (?s3\<lparr>pkt_heap := h4\<rparr>)" "heap_abs h4 bs"
      using held_free [of bs bs1 ?m 0 ?s3 env] t(2) by auto
    have "tcplib_send_ack env c fin fl s = Some (s\<lparr>socks := (socks s)(c \<mapsto> no_pending k), pkt_heap := h4, sent := sent s @ [m2]\<rparr>)"
      using g(1) assms(2) h2(1) t(1) h4(1) by (simp add: tcplib_send_ack_def Let_def)
    then show ?thesis using m2 given_back [OF bs h4(2)] by blast
  qed
qed

lemma same_no_pending [simp]: "same_tx k (no_pending k)"
  by (simp add: same_tx_def no_pending_def)

lemma send_ack_inv:
  assumes "tcp_inv s" "socks s c = Some k"
  shows "\<exists>s'. tcplib_send_ack env c fin fl s = Some s' \<and> keeps tidy s s'"
proof -
  have g: "good_heap (pkt_heap s)" "sock_ok (tx_bufs s) k" using assms by (auto simp: tcp_inv_def socks_ok_def)
  from send_ack_ok [OF g(1) assms(2), of env fin fl] obtain h k' ms where
    e: "tcplib_send_ack env c fin fl s = Some (s\<lparr>socks := (socks s)(c \<mapsto> k'), pkt_heap := h, sent := sent s @ ms\<rparr>)"
      "good_heap h" "same_blocks (pkt_heap s) h" and k': "k' = k \<or> k' = no_pending k" by blast
  from k' have st: "same_tx k k'" by (auto simp: same_tx_def no_pending_def)
  then have "keeps tidy s (s\<lparr>socks := (socks s)(c \<mapsto> k'), pkt_heap := h, sent := sent s @ ms\<rparr>)"
    using same_tx_ok [OF st] g(2) st by (intro tcp_inv_upd [OF assms e(2,3)]) (simp_all add: same_tx_def)
  then show ?thesis using e(1) by blast
qed

lemma send_rst_ok:
  assumes "good_heap (pkt_heap s)"
  shows "\<exists>h ms. tcplib_send_rst env iph tcph s = Some (s\<lparr>pkt_heap := h, sent := sent s @ ms\<rparr>) \<and>
    (good_heap h \<and> same_blocks (pkt_heap s) h) \<and>
    (ms = [] \<or> (\<exists>m. ms = [m] \<and> ip6_dst (msg_ip m) = ip6_src iph \<and> th_flags (msg_tcp m) = TCP_FLAG_RST OR TCP_FLAG_ACK \<and>
      th_srcport (msg_tcp m) = th_dstport tcph \<and> th_dstport (msg_tcp m) = th_srcport tcph \<and>
      th_seqno (msg_tcp m) = th_ackno tcph \<and> ntohl (th_ackno (msg_tcp m)) = ntohl (th_seqno tcph) + 1))"
proof -
  obtain bs where bs: "heap_abs (pkt_heap s) bs" "coalesced bs" using assms by (auto simp: good_heap_def)
  from get_ipmsg_ok [OF bs order_refl zero_le_numeral, of env] show ?thesis
  proof (elim disjE exE conjE)
    assume "get_ipmsg env 0 s = Some (s, None)"
    then have "tcplib_send_rst env iph tcph s = Some (s\<lparr>pkt_heap := pkt_heap s, sent := sent s @ []\<rparr>)"
      by (simp add: tcplib_send_rst_def)
    then show ?thesis using assms same_blocks_refl by blast
  next
    fix h1 :: mem and m :: tcp_msg and bs1 :: blocks
    let ?m = "m\<lparr>msg_ip := (msg_ip m)\<lparr>ip6_dst := ip6_src iph\<rparr>,
                msg_tcp := \<lparr>th_srcport = th_dstport tcph, th_dstport = th_srcport tcph,
                  th_seqno = th_ackno tcph, th_ackno = htonl (ntohl (th_seqno tcph) + 1),
                  th_offset = of_nat SIZEOF_TCP_HDR * 4, th_flags = TCP_FLAG_RST OR TCP_FLAG_ACK,
                  th_window = 0, th_chksum = 0, th_urgent = 0\<rparr>\<rparr>"
    assume g: "get_ipmsg env 0 s = Some (s\<lparr>pkt_heap := h1\<rparr>, Some m)" "msg_len m = nat 0" "held bs bs1 (msg_ptr m) (nat 0) h1"
    have h1: "held bs bs1 (msg_ptr m) 0 (pkt_heap (s\<lparr>pkt_heap := h1\<rparr>))" using g(3) by simp
    obtain h2 where h2: "store_dst ?m (s\<lparr>pkt_heap := h1\<rparr>) = Some (s\<lparr>pkt_heap := h2\<rparr>)" "held bs bs1 (msg_ptr m) 0 h2"
      using held_store [OF h1, of 32 "in6_bytes (ip6_src iph)"] by (auto simp: store_dst_def)
    obtain h3 where h3: "store_tcp_hdr ?m (s\<lparr>pkt_heap := h2\<rparr>) = Some (s\<lparr>pkt_heap := h3\<rparr>)" "held bs bs1 (msg_ptr m) 0 h3"
      using store_tcp_hdr_ok [of bs bs1 ?m 0 "s\<lparr>pkt_heap := h2\<rparr>"] h2(2) by auto
    have "rdn h3 (msg_ptr m + 68) 0 = Some []" using held_end [OF h3(2)] by (simp add: rdn_def)
    then have o: "tcplib_send_out ?m (s\<lparr>pkt_heap := h3\<rparr>) = Some (s\<lparr>pkt_heap := h3, sent := sent s @ [?m\<lparr>msg_data := []\<rparr>]\<rparr>)"
      using g(2) by (simp add: tcplib_send_out_def SIZEOF_IP6_PACKET_def SIZEOF_TCP_HDR_def add.commute)
    let ?s3 = "s\<lparr>pkt_heap := h3, sent := sent s @ [?m\<lparr>msg_data := []\<rparr>]\<rparr>"
    obtain h4 where h4: "free_msg env ?m ?s3 = Some (?s3\<lparr>pkt_heap := h4\<rparr>)" "heap_abs h4 bs"
      using held_free [of bs bs1 ?m 0 ?s3 env] h3(2) by auto
    have "tcplib_send_rst env iph tcph s = Some (s\<lparr>pkt_heap := h4, sent := sent s @ [?m\<lparr>msg_data := []\<rparr>]\<rparr>)"
      using g(1) h2(1) h3(1) o h4(1) by (simp add: tcplib_send_rst_def Let_def)
    then show ?thesis using given_back [OF bs h4(2)] by (intro exI [of _ h4] exI [of _ "[?m\<lparr>msg_data := []\<rparr>]"]) simp
  qed
qed

lemma send_rst_inv:
  assumes "tcp_inv s"
  shows "\<exists>s'. tcplib_send_rst env iph tcph s = Some s' \<and> keeps tidy s s'"
proof -
  have "good_heap (pkt_heap s)" using assms by (simp add: tcp_inv_def)
  from send_rst_ok [OF this, of env iph tcph] assms show ?thesis by (auto simp: keeps_def tcp_inv_def)
qed

section \<open>The output loop\<close>

lemma seg_min_val: "seg_min a b = int (min (unat a) (unat b))"
proof -
  have b: "unat b < 65536" using unsigned_less [of b] by simp
  then have ub: "unat (ucast b :: u32) = unat b" by (simp add: unsigned_ucast_eq take_bit_nat_eq_self)
  have "(if a > ucast b then ucast b else a) = (of_nat (min (unat a) (unat b)) :: u32)"
    using ub by (auto simp: word_less_nat_alt min_def)
  then show ?thesis using sint_small [of "min (unat a) (unat b)"] b by (simp add: seg_min_def)
qed

lemma output_segment_ok:
  assumes "good_heap (pkt_heap s)" "socks s c = Some k" "tx_buf k = Some p" "tx_bufs s p = Some b" "circ_ok b"
    and "i + n \<le> cb_len b" "n \<le> 65000"
  shows "\<exists>h k' ms rc. output_segment env c (head_seqno b + of_nat i) (int n) s =
      Some (s\<lparr>socks := (socks s)(c \<mapsto> k'), pkt_heap := h, sent := sent s @ ms\<rparr>, rc) \<and>
      (good_heap h \<and> same_blocks (pkt_heap s) h) \<and>
      (rc = -1 \<and> ms = [] \<and> k' = k \<or> rc = 0 \<and> k' = no_pending k \<and>
        (\<exists>m. ms = [m] \<and> is_segment k (head_seqno b + of_nat i) (sk_ackno k) TCP_FLAG_ACK (take n (drop i (window b))) m))"
proof -
  obtain bs where bs: "heap_abs (pkt_heap s) bs" "coalesced bs" using assms(1) by (auto simp: good_heap_def)
  have "int n \<le> 65000" using assms(7) by simp
  from get_ipmsg_ok [OF bs of_nat_0_le_iff this, of env] show ?thesis
  proof (elim disjE exE conjE)
    assume "get_ipmsg env (int n) s = Some (s, None)"
    then have "output_segment env c (head_seqno b + of_nat i) (int n) s =
        Some (s\<lparr>socks := (socks s)(c \<mapsto> k), pkt_heap := pkt_heap s, sent := sent s @ []\<rparr>, -1)"
      using assms(2) by (simp add: output_segment_def fun_upd_idem)
    then show ?thesis using assms(1) same_blocks_refl by blast
  next
    fix h1 :: mem and m :: tcp_msg and bs1 :: blocks
    let ?d = "take n (drop i (window b))"
    let ?seq = "head_seqno b + of_nat i"
    let ?m = "m\<lparr>msg_tcp := (msg_tcp m)\<lparr>th_flags := TCP_FLAG_ACK, th_seqno := htonl ?seq, th_ackno := htonl (sk_ackno k)\<rparr>\<rparr>"
    assume g: "get_ipmsg env (int n) s = Some (s\<lparr>pkt_heap := h1\<rparr>, Some m)" "ip6_nxt (msg_ip m) = IANA_TCP"
      "ip6_plen (msg_ip m) = htons (word_of_int (20 + int n))" "msg_len m = nat (int n)" "held bs bs1 (msg_ptr m) (nat (int n)) h1"
    have d: "length ?d = n" using assms(6) by simp
    have r: "circ_buf_read b ?seq (int n) = Some (?d, int n)" by (rule read_window [OF assms(5,6)])
    have gb: "get_buf c (s\<lparr>pkt_heap := h\<rparr>) = Some b" for h using assms(2-4) by (simp add: get_buf_def)
    obtain h2 where h2: "store_tcp_hdr ?m (s\<lparr>pkt_heap := h1\<rparr>) = Some (s\<lparr>pkt_heap := h2\<rparr>)" "held bs bs1 (msg_ptr m) n h2"
      using store_tcp_hdr_ok [of bs bs1 ?m n "s\<lparr>pkt_heap := h1\<rparr>"] g(5) by auto
    have h2': "held bs bs1 (msg_ptr m) n (pkt_heap (s\<lparr>pkt_heap := h2\<rparr>))" "68 + length ?d \<le> 80 + n" using h2(2) d by simp_all
    let ?h3 = "put h2 (msg_ptr m + 68) ?d"
    have h3: "heap_store (msg_ptr m) 68 ?d (s\<lparr>pkt_heap := h2\<rparr>) = Some (s\<lparr>pkt_heap := ?h3\<rparr>)"
      "held bs bs1 (msg_ptr m) n ?h3" "has_at ?h3 (msg_ptr m + 68) ?d"
      using held_store [OF h2'] by simp_all
    obtain h4 m2 where t: "tcplib_transmit c ?m (s\<lparr>pkt_heap := ?h3\<rparr>) =
        Some (s\<lparr>socks := (socks s)(c \<mapsto> no_pending k), pkt_heap := h4, sent := sent s @ [m2]\<rparr>)" "held bs bs1 (msg_ptr m) n h4"
      and m2: "is_segment k ?seq (sk_ackno k) TCP_FLAG_ACK ?d m2"
      using transmit_ok [of bs bs1 ?m "s\<lparr>pkt_heap := ?h3\<rparr>" c k ?d] g(2-4) h3(2,3) assms(2) d
      by (auto simp: is_segment_def SIZEOF_TCP_HDR_def)
    let ?s4 = "s\<lparr>socks := (socks s)(c \<mapsto> no_pending k), pkt_heap := h4, sent := sent s @ [m2]\<rparr>"
    obtain h5 where h5: "free_msg env ?m ?s4 = Some (?s4\<lparr>pkt_heap := h5\<rparr>)" "heap_abs h5 bs"
      using held_free [of bs bs1 ?m n ?s4 env] t(2) by auto
    have "heap_store (msg_ptr ?m) (SIZEOF_IP6_PACKET + SIZEOF_TCP_HDR) ?d (s\<lparr>pkt_heap := h2\<rparr>) = Some (s\<lparr>pkt_heap := ?h3\<rparr>)"
      using h3(1) by (simp add: SIZEOF_IP6_PACKET_def SIZEOF_TCP_HDR_def add.commute)
    then have "output_segment env c ?seq (int n) s =
        Some (s\<lparr>socks := (socks s)(c \<mapsto> no_pending k), pkt_heap := h5, sent := sent s @ [m2]\<rparr>, 0)"
      using g(1) gb r assms(2) h2(1) t(1) h5(1) by (simp add: output_segment_def Let_def)
    then show ?thesis using m2 given_back [OF bs h5(2)] by blast
  qed
qed

text \<open>What the loop sends: first \<open>n\<close> bytes, then at most a segment at a time.\<close>

function segments :: "nat \<Rightarrow> nat \<Rightarrow> u32 \<Rightarrow> mem \<Rightarrow> (u32 \<times> mem) list" where
  "segments m n seq q = (if n = 0 \<or> q = [] then []
     else (seq, take n q) # segments m (min (length (drop n q)) m) (seq + of_nat n) (drop n q))"
  by pat_completeness auto
termination by (relation "measure (\<lambda>(m, n, seq, q). length q)") auto

declare segments.simps [simp del]

text \<open>The messages sent are the segments, all of them unless the packet heap was full.\<close>

definition sends_all :: "tcplib_sock \<Rightarrow> (u32 \<times> mem) list \<Rightarrow> tcp_msg list \<Rightarrow> bool" where
  "sends_all k sg ms \<longleftrightarrow> list_all2 (\<lambda>(seq, d) m. \<exists>k'. same_tx k k' \<and> is_segment k seq (sk_ackno k) TCP_FLAG_ACK d m) sg ms"

lemma sk_seqno_no_pending [simp]: "sk_seqno (no_pending k) = sk_seqno k" "mss (no_pending k) = mss k"
  "tx_buf (no_pending k) = tx_buf k" "sk_ackno (no_pending k) = sk_ackno k"
  by (simp_all add: no_pending_def)

lemma is_segment_no_pending [simp]: "is_segment (no_pending k) = is_segment k"
  by (intro ext) (simp add: is_segment_def no_pending_def)

lemma unat_add_small: "unat w + n < 2 ^ 32 \<Longrightarrow> unat (w + of_nat n :: u32) = unat w + n"
  by (simp add: unat_word_ariths unsigned_of_nat take_bit_eq_mod mod_add_right_eq)

lemma unat_lt32: "unat (w :: u32) < 2 ^ 32"
proof -
  have "unat w < 2 ^ LENGTH(32)" by (rule unsigned_less)
  then show ?thesis by simp
qed

lemma output_loop_ok:
  assumes "good_heap (pkt_heap s)" "socks s c = Some k" "tx_buf k = Some p" "tx_bufs s p = Some b" "circ_ok b"
    and "i + length q \<le> cb_len b" "q = take (length q) (drop i (window b))"
    and "unat (head_seqno b) + (i + length q) = unat (sk_seqno k)" "n \<le> length q" "n \<le> 65000" "unat (mss k) \<le> 65000"
  shows "\<exists>h k' ms rc. output_loop env c (head_seqno b + of_nat i) (int n) s =
      Some (s\<lparr>socks := (socks s)(c \<mapsto> k'), pkt_heap := h, sent := sent s @ ms\<rparr>, rc) \<and> (good_heap h \<and> same_blocks (pkt_heap s) h) \<and>
      (k' = k \<or> k' = no_pending k) \<and> (rc = 0 \<or> rc = -1) \<and>
      (\<exists>j. list_all2 (\<lambda>(seq, d). is_segment k seq (sk_ackno k) TCP_FLAG_ACK d)
          (take j (segments (unat (mss k)) n (head_seqno b + of_nat i) q)) ms \<and>
        (rc = 0 \<longrightarrow> j = length (segments (unat (mss k)) n (head_seqno b + of_nat i) q)))"
  using assms
proof (induction "length q" arbitrary: i q n s k rule: less_induct)
  case less
  let ?seq = "head_seqno b + of_nat i"
  have bnd: "unat (head_seqno b) + (i + length q) < 2 ^ 32" using less.prems(8) unat_lt32 [of "sk_seqno k"] by simp
  have sq: "unat ?seq = unat (head_seqno b) + i" using bnd by (intro unat_add_small) simp
  show ?case
  proof (cases "n = 0")
    case True
    then have "output_loop env c ?seq (int n) s = Some (s\<lparr>socks := (socks s)(c \<mapsto> k), pkt_heap := pkt_heap s, sent := sent s @ []\<rparr>, 0)"
      using less.prems(2) by (subst output_loop.simps) (simp add: fun_upd_idem)
    moreover have "segments (unat (mss k)) n ?seq q = []" using True by (simp add: segments.simps)
    ultimately show ?thesis using less.prems(1) by fastforce
  next
    case False
    then have gt: "sk_seqno k > ?seq" using sq less.prems(8,9) by (simp add: word_less_nat_alt)
    have "i + n \<le> cb_len b" using less.prems(6,9) by simp
    from output_segment_ok [OF less.prems(1-5) this less.prems(10), of env] obtain h k1 ms rc where
      o: "output_segment env c ?seq (int n) s = Some (s\<lparr>socks := (socks s)(c \<mapsto> k1), pkt_heap := h, sent := sent s @ ms\<rparr>, rc)"
        "good_heap h" "same_blocks (pkt_heap s) h" and cs: "rc = -1 \<and> ms = [] \<and> k1 = k \<or> rc = 0 \<and> k1 = no_pending k \<and>
        (\<exists>m. ms = [m] \<and> is_segment k ?seq (sk_ackno k) TCP_FLAG_ACK (take n (drop i (window b))) m)" by blast
    from cs show ?thesis
    proof (elim disjE conjE exE)
      assume "rc = -1" "ms = []" "k1 = k"
      then have "output_loop env c ?seq (int n) s = Some (s\<lparr>socks := (socks s)(c \<mapsto> k), pkt_heap := h, sent := sent s @ []\<rparr>, -1)"
        using less.prems(2) False gt o(1) by (subst output_loop.simps) simp
      then show ?thesis using o(2,3) by (intro exI conjI) (auto intro: exI [of _ 0])
    next
      fix m
      assume rc: "rc = 0" "k1 = no_pending k" "ms = [m]"
        and m: "is_segment k ?seq (sk_ackno k) TCP_FLAG_ACK (take n (drop i (window b))) m"
      let ?s1 = "s\<lparr>socks := (socks s)(c \<mapsto> no_pending k), pkt_heap := h, sent := sent s @ [m]\<rparr>"
      let ?q = "drop n q" and ?i = "i + n" and ?n = "min (length (drop n q)) (unat (mss k))"
      have seq1: "?seq + word_of_int (int n) = head_seqno b + of_nat ?i" by simp
      have "unat (sk_seqno k - (head_seqno b + of_nat ?i)) = length ?q"
      proof -
        have "unat (head_seqno b + of_nat ?i) = unat (head_seqno b) + ?i" using bnd less.prems(9) by (intro unat_add_small) simp
        moreover from this have "head_seqno b + of_nat ?i \<le> sk_seqno k" using less.prems(8,9) by (simp only: word_le_nat_alt)
        ultimately show ?thesis using less.prems(8,9) by (simp only: unat_sub) simp
      qed
      then have sm: "seg_min (sk_seqno k - (head_seqno b + of_nat ?i)) (mss k) = int ?n" by (simp only: seg_min_val)
      have loop: "output_loop env c ?seq (int n) s = output_loop env c (head_seqno b + of_nat ?i) (int ?n) ?s1"
        using False gt o(1) rc sm less.prems(2) seq1
        by (subst output_loop.simps) (simp only: bind.bind_lunit prod.case Let_def if_True if_False simp_thms
            of_nat_0_less_iff neq0_conv tcp_state.simps fun_upd_same sk_seqno_no_pending; simp)
      have qt: "take n (drop i (window b)) = take n q"
        using less.prems(7,9) by (metis min.absorb1 take_take)
      have "?q = take (length ?q) (drop ?i (window b))"
      proof -
        have "drop n q = drop n (take (length q) (drop i (window b)))" using less.prems(7) by simp
        also have "\<dots> = take (length ?q) (drop ?i (window b))" by (simp only: drop_take drop_drop length_drop add.commute)
        finally show ?thesis .
      qed
      moreover have "length ?q < length q" using False less.prems(9) by simp
      moreover have "?n \<le> 65000" using less.prems(11) by simp
      ultimately have "\<exists>h' k' ms' rc'. output_loop env c (head_seqno b + of_nat ?i) (int ?n) ?s1 =
          Some (?s1\<lparr>socks := (socks ?s1)(c \<mapsto> k'), pkt_heap := h', sent := sent ?s1 @ ms'\<rparr>, rc') \<and> (good_heap h' \<and> same_blocks (pkt_heap ?s1) h') \<and>
          (k' = no_pending k \<or> k' = no_pending (no_pending k)) \<and> (rc' = 0 \<or> rc' = -1) \<and>
          (\<exists>j. list_all2 (\<lambda>(seq, d). is_segment (no_pending k) seq (sk_ackno (no_pending k)) TCP_FLAG_ACK d)
              (take j (segments (unat (mss (no_pending k))) ?n (head_seqno b + of_nat ?i) ?q)) ms' \<and>
            (rc' = 0 \<longrightarrow> j = length (segments (unat (mss (no_pending k))) ?n (head_seqno b + of_nat ?i) ?q)))"
        using less.prems o(2) by (intro less.hyps) simp_all
      then obtain h' k' ms' rc' j where r: "output_loop env c (head_seqno b + of_nat ?i) (int ?n) ?s1 =
          Some (?s1\<lparr>socks := (socks ?s1)(c \<mapsto> k'), pkt_heap := h', sent := sent ?s1 @ ms'\<rparr>, rc')" "good_heap h'" "same_blocks (pkt_heap ?s1) h'"
          "k' = no_pending k \<or> k' = no_pending (no_pending k)" "rc' = 0 \<or> rc' = -1"
          and j: "list_all2 (\<lambda>(seq, d). is_segment k seq (sk_ackno k) TCP_FLAG_ACK d)
              (take j (segments (unat (mss k)) ?n (head_seqno b + of_nat ?i) ?q)) ms'"
            "rc' = 0 \<longrightarrow> j = length (segments (unat (mss k)) ?n (head_seqno b + of_nat ?i) ?q)"
        unfolding sk_seqno_no_pending is_segment_no_pending by (elim exE conjE) (rule that; assumption)
      have sg: "segments (unat (mss k)) n ?seq q = (?seq, take n q) # segments (unat (mss k)) ?n (head_seqno b + of_nat ?i) ?q"
        using False less.prems(9) by (subst segments.simps) (auto simp: add.assoc)
      have "no_pending (no_pending k) = no_pending k" by (simp add: no_pending_def and.assoc)
      then have "output_loop env c ?seq (int n) s =
          Some (s\<lparr>socks := (socks s)(c \<mapsto> no_pending k), pkt_heap := h', sent := sent s @ (m # ms')\<rparr>, rc')"
        using r(1,4) loop by auto
      moreover have "list_all2 (\<lambda>(seq, d). is_segment k seq (sk_ackno k) TCP_FLAG_ACK d)
          (take (Suc j) (segments (unat (mss k)) n ?seq q)) (m # ms')"
        using j(1) m unfolding sg qt by simp
      moreover have "good_heap h' \<and> same_blocks (pkt_heap s) h'" using r(2,3) same_blocks_trans [OF o(3), of h'] by simp
      ultimately show ?thesis using r(5) j(2) unfolding sg
        by (intro exI [of _ h'] exI [of _ "no_pending k"] exI [of _ "m # ms'"] exI [of _ rc'] exI [of _ "Suc j"] conjI) auto
    qed
  qed
qed

lemma tcplib_output_ok:
  assumes g: "good_heap (pkt_heap s)" and k: "socks s c = Some k" "tx_buf k = Some p" "tx_bufs s p = Some b" and b: "buf_ok k b"
  defines "q \<equiv> take (unat (sk_seqno k) - unat (head_seqno b)) (window b)"
  defines "sg \<equiv> segments (unat (mss k)) (min (min (length q) (unat (r_wind k))) (unat (cwnd k))) (head_seqno b) q"
  shows "\<exists>h k' ms rc j. tcplib_output env c (head_seqno b) s =
      Some (s\<lparr>socks := (socks s)(c \<mapsto> k'), pkt_heap := h, sent := sent s @ ms\<rparr>, rc) \<and> (good_heap h \<and> same_blocks (pkt_heap s) h) \<and>
      (k' = k \<or> k' = no_pending k) \<and> (rc = 0 \<or> rc = -1) \<and>
      list_all2 (\<lambda>(seq, d). is_segment k seq (sk_ackno k) TCP_FLAG_ACK d) (take j sg) ms \<and> (rc = 0 \<longrightarrow> j = length sg)"
proof -
  have ok: "circ_ok b" "cb_len b \<le> 65000" "unat (mss k) \<le> 65000" "unat (head_seqno b) \<le> unat (sk_seqno k)"
    "unat (sk_seqno k) \<le> unat (head_seqno b) + cb_len b" using b by (simp_all add: buf_ok_def)
  have lq: "length q = unat (sk_seqno k) - unat (head_seqno b)" using ok(5) by (simp add: q_def)
  have "head_seqno b \<le> sk_seqno k" using ok(4) by (simp only: word_le_nat_alt)
  then have "unat (sk_seqno k - head_seqno b) = length q" unfolding lq by (rule unat_sub)
  then have n: "min (seg_min (sk_seqno k - head_seqno b) (r_wind k)) (uint (cwnd k)) =
      int (min (min (length q) (unat (r_wind k))) (unat (cwnd k)))"
    by (simp add: seg_min_val of_nat_min)
  have "q = take (length q) (drop 0 (window b))" unfolding lq by (simp add: q_def)
  moreover have "0 + length q \<le> cb_len b" "unat (head_seqno b) + (0 + length q) = unat (sk_seqno k)" using ok(4,5) by (simp_all add: lq)
  moreover have "min (min (length q) (unat (r_wind k))) (unat (cwnd k)) \<le> 65000" using ok(2,5) by (simp add: lq)
  ultimately have "\<exists>h k' ms rc. output_loop env c (head_seqno b + of_nat 0) (int (min (min (length q) (unat (r_wind k))) (unat (cwnd k)))) s =
      Some (s\<lparr>socks := (socks s)(c \<mapsto> k'), pkt_heap := h, sent := sent s @ ms\<rparr>, rc) \<and> (good_heap h \<and> same_blocks (pkt_heap s) h) \<and>
      (k' = k \<or> k' = no_pending k) \<and> (rc = 0 \<or> rc = -1) \<and>
      (\<exists>j. list_all2 (\<lambda>(seq, d). is_segment k seq (sk_ackno k) TCP_FLAG_ACK d)
          (take j (segments (unat (mss k)) (min (min (length q) (unat (r_wind k))) (unat (cwnd k))) (head_seqno b + of_nat 0) q)) ms \<and>
        (rc = 0 \<longrightarrow> j = length (segments (unat (mss k)) (min (min (length q) (unat (r_wind k))) (unat (cwnd k))) (head_seqno b + of_nat 0) q)))"
    by (intro output_loop_ok [OF g k ok(1)]) (simp_all add: ok(3))
  then show ?thesis
    unfolding tcplib_output_def k(1) bind.bind_lunit Let_def n sg_def by simp
qed

end
