(* ===== verification/Tcp_Safe.thy ===== *)
theory Tcp_Safe
  imports Tcp_Inv
begin


text \<open>
  Every handler of the TCP library keeps the invariant of \<open>Tcp_Inv\<close> and gives back the packets it takes:
  \<open>tidy\<close> says whether the upcalls do that, too, and so whether the blocks of the packet heap stay the same.
\<close>

section \<open>What the upcalls may do\<close>

definition upcall_ok :: "bool \<Rightarrow> (tcp_state \<Rightarrow> tcp_state option) \<Rightarrow> bool" where
  "upcall_ok tidy f \<longleftrightarrow> (\<forall>s. tcp_inv s \<longrightarrow> (\<exists>s'. f s = Some s' \<and> keeps tidy s s'))"

text \<open>A socket that is handed out for a new connection has a buffer of its own, of the length it
  says.\<close>

definition accept_ok :: "bool \<Rightarrow> (tcp_state \<Rightarrow> (tcp_state \<times> nat option) option) \<Rightarrow> bool" where
  "accept_ok tidy f \<longleftrightarrow> (\<forall>s. tcp_inv s \<longrightarrow> (\<exists>s' r. f s = Some (s', r) \<and> keeps tidy s s' \<and>
     (\<forall>d k. socks s d = Some k \<longrightarrow> (\<exists>k'. socks s' d = Some k' \<and> sk_state k' = sk_state k \<and>
        (r \<noteq> Some d \<longrightarrow> tx_buf k' = tx_buf k))) \<and>
     (\<forall>n. r = Some n \<longrightarrow> (\<exists>k p b. socks s' n = Some k \<and> \<not> active k \<and> tx_buf k = Some p \<and> tx_bufs s' p = Some b \<and>
        17 < tx_buf_len k \<and> tx_buf_len k \<le> 65000 \<and> nat (tx_buf_len k) - 16 \<le> length (cb_data b) \<and> unat (mss k) \<le> 65000 \<and>
        (\<forall>d k2. d \<noteq> n \<and> socks s' d = Some k2 \<and> active k2 \<longrightarrow> tx_buf k2 \<noteq> Some p)))))"

definition env_ok :: "bool \<Rightarrow> tcp_env \<Rightarrow> bool" where
  "env_ok tidy env \<longleftrightarrow> (\<forall>c d n. upcall_ok tidy (ext_recv env c d n)) \<and> (\<forall>c. upcall_ok tidy (ext_closed env c)) \<and>
     (\<forall>c. upcall_ok tidy (ext_closedone env c)) \<and> (\<forall>c. upcall_ok tidy (ext_acked env c)) \<and>
     (\<forall>c e. upcall_ok tidy (ext_connectdone env c e)) \<and> (\<forall>c a. accept_ok tidy (ext_accept env c a))"

lemma upcallE:
  assumes "upcall_ok tidy f" "tcp_inv s"
  obtains s' where "f s = Some s'" "keeps tidy s s'"
  using assms unfolding upcall_ok_def by blast

lemma env_okD:
  assumes "env_ok tidy env" "tcp_inv s"
  shows "\<exists>s'. ext_recv env c d n s = Some s' \<and> keeps tidy s s'" "\<exists>s'. ext_closed env c s = Some s' \<and> keeps tidy s s'"
    "\<exists>s'. ext_closedone env c s = Some s' \<and> keeps tidy s s'" "\<exists>s'. ext_acked env c s = Some s' \<and> keeps tidy s s'"
    "\<exists>s'. ext_connectdone env c e s = Some s' \<and> keeps tidy s s'"
  using assms unfolding env_ok_def upcall_ok_def by blast+

section \<open>The pieces of the receive path\<close>

text \<open>\<open>safe tidy c f\<close>: on a good state with a socket \<open>c\<close> the step \<open>f\<close> returns, in a good state.\<close>

definition safe :: "bool \<Rightarrow> nat \<Rightarrow> (tcp_state \<Rightarrow> tcp_state option) \<Rightarrow> bool" where
  "safe tidy c f \<longleftrightarrow> (\<forall>s. tcp_inv s \<and> socks s c \<noteq> None \<longrightarrow> (\<exists>s'. f s = Some s' \<and> keeps tidy s s'))"

lemma safeI: "(\<And>s k. tcp_inv s \<Longrightarrow> socks s c = Some k \<Longrightarrow> \<exists>s'. f s = Some s' \<and> keeps tidy s s') \<Longrightarrow> safe tidy c f"
  by (auto simp: safe_def)

lemma safeE:
  assumes "safe tidy c f" "tcp_inv s" "socks s c = Some k"
  obtains s' k' where "f s = Some s'" "keeps tidy s s'" "tcp_inv s'" "socks s' c = Some k'"
proof -
  obtain s' where s': "f s = Some s'" "keeps tidy s s'" using assms unfolding safe_def by blast
  moreover obtain k' where "socks s' c = Some k'" using keepsD(2) [OF s'(2) assms(3)] by blast
  ultimately show ?thesis using that keepsD(1) by blast
qed

lemma safe_bind:
  assumes "safe tidy c f" "safe tidy c g"
  shows "safe tidy c (\<lambda>s. do { s \<leftarrow> f s; g s })"
proof (rule safeI)
  fix s k assume s: "tcp_inv s" "socks s c = Some k"
  from assms(1) s obtain s1 k1 where 1: "f s = Some s1" "keeps tidy s s1" "tcp_inv s1" "socks s1 c = Some k1" by (rule safeE)
  from assms(2) 1(3,4) obtain s2 k2 where "g s1 = Some s2" "keeps tidy s1 s2" "tcp_inv s2" "socks s2 c = Some k2" by (rule safeE)
  then show "\<exists>s'. (do { s \<leftarrow> f s; g s }) = Some s' \<and> keeps tidy s s'"
    using 1(1) keeps_trans [OF 1(2)] by simp
qed

lemma safe_read:
  assumes "\<And>k. safe tidy c (f k)"
  shows "safe tidy c (\<lambda>s. do { k \<leftarrow> socks s c; f k s })"
  using assms unfolding safe_def by auto

lemma safe_if: "safe tidy c f \<Longrightarrow> safe tidy c g \<Longrightarrow> safe tidy c (\<lambda>s. if b then f s else g s)"
  by (cases b) (simp_all add: safe_def)

lemma safe_skip [simp, intro]: "safe tidy c Some"
  by (simp add: safe_def)

lemma safe_upcall: "upcall_ok tidy f \<Longrightarrow> safe tidy c f"
  by (auto simp: safe_def upcall_ok_def)

lemma safe_send_ack [simp, intro]: "safe tidy c (tcplib_send_ack env c fin fl)"
  by (rule safeI) (rule send_ack_inv)

lemma safe_send_rst [simp, intro]: "safe tidy c (tcplib_send_rst env iph tcph)"
  by (rule safeI) (rule send_rst_inv)

lemma safe_upd_same: "(\<And>k. same_tx k (f k)) \<Longrightarrow> safe tidy c (upd_sock c f)"
  by (rule safeI) (use upd_same in blast)

lemma safe_upd_inactive: "(\<And>k. \<not> active (f k)) \<Longrightarrow> safe tidy c (upd_sock c f)"
  by (rule safeI) (use upd_inactive in blast)

lemmas safe_rules = safe_read safe_bind safe_if safe_send_ack safe_send_rst safe_skip

lemma safe_receive_data:
  assumes "env_ok tidy env"
  shows "tcp_inv s \<Longrightarrow> socks s c = Some k \<Longrightarrow>
    \<exists>s' n. receive_data env c payload tcph len s = Some (s', n) \<and> keeps tidy s s'"
proof -
  assume s: "tcp_inv s" "socks s c = Some k"
  let ?n = "len - uint (th_offset tcph) div 4"
  have "safe tidy c (upd_sock c (\<lambda>k. k\<lparr>sk_ackno := ntohl (th_seqno tcph) + word_of_int ?n\<rparr>))"
    by (rule safe_upd_same) (simp add: same_tx_def)
  from this s obtain s1 k1 where 1: "upd_sock c (\<lambda>k. k\<lparr>sk_ackno := ntohl (th_seqno tcph) + word_of_int ?n\<rparr>) s = Some s1"
    "keeps tidy s s1" "tcp_inv s1" by (rule safeE)
  obtain s2 where "ext_recv env c (drop (unat (th_offset tcph) div 4) payload) ?n s1 = Some s2" "keeps tidy s1 s2"
    using env_okD(1) [OF assms 1(3)] by blast
  then show ?thesis using 1 by (auto simp: receive_data_def Let_def intro: keeps_trans)
qed

lemma safe_process_seqno:
  assumes "env_ok tidy env"
  shows "safe tidy c (process_seqno env c iph payload tcph)"
proof (rule safeI)
  fix s k assume s: "tcp_inv s" "socks s c = Some k"
  have a: "safe tidy c (\<lambda>s. do { s \<leftarrow> tcplib_send_ack env c False TCP_FLAG_ACK s; upd_sock c (\<lambda>k. k\<lparr>sk_flags := sk_flags k OR TCP_ACKSENT\<rparr>) s })"
    by (intro safe_rules safe_upd_same) (simp add: same_tx_def)
  have b: "safe tidy c (\<lambda>s. do { k \<leftarrow> socks s c;
        (if n > 0 \<and> sk_flags k AND TCP_ACKSENT \<noteq> 0 then do {
           s \<leftarrow> upd_sock c (\<lambda>k. k\<lparr>sk_flags := sk_flags k AND NOT TCP_ACKSENT\<rparr>) s;
           tcplib_send_ack env c False TCP_FLAG_ACK s }
         else Some s) })" for n :: int
    by (intro safe_rules safe_upd_same) (simp add: same_tx_def)
  show "\<exists>s'. process_seqno env c iph payload tcph s = Some s' \<and> keeps tidy s s'"
  proof (cases "ntohl (th_seqno tcph) = sk_ackno k")
    case True
    obtain s1 n where 1: "receive_data env c payload tcph (uint (ntohs (ip6_plen iph))) s = Some (s1, n)" "keeps tidy s s1"
      using safe_receive_data [OF assms s] by blast
    obtain k1 where "tcp_inv s1" "socks s1 c = Some k1" using 1(2) s(2) keepsD by blast
    from b [of n] this obtain s2 where "(do { k \<leftarrow> socks s1 c;
        (if n > 0 \<and> sk_flags k AND TCP_ACKSENT \<noteq> 0 then do {
           s \<leftarrow> upd_sock c (\<lambda>k. k\<lparr>sk_flags := sk_flags k AND NOT TCP_ACKSENT\<rparr>) s1;
           tcplib_send_ack env c False TCP_FLAG_ACK s }
         else Some s1) }) = Some s2" "keeps tidy s1 s2" by (rule safeE)
    moreover from this have "keeps tidy s s2" by (intro keeps_trans [OF 1(2)])
    ultimately show ?thesis using True s 1(1) by (simp add: process_seqno_def Let_def)
  next
    case False
    from a s show ?thesis
      by (rule safeE [of _ _ _ s]) (use False s send_rst_inv [OF s(1), of env iph tcph] in \<open>auto simp: process_seqno_def Let_def\<close>)
  qed
qed

lemma safe_output:
  assumes "tcp_inv s" "socks s c = Some k" "active k" "tx_buf k = Some p" "tx_bufs s p = Some b"
  shows "\<exists>s' rc. tcplib_output env c (head_seqno b) s = Some (s', rc) \<and> keeps tidy s s'"
proof -
  obtain b' where "tx_bufs s p = Some b'" "buf_ok k b'" using active_buf [OF assms(1-3)] assms(4) by auto
  then have bk: "buf_ok k b" using assms(5) by simp
  have g: "good_heap (pkt_heap s)" "sock_ok (tx_bufs s) k" using assms(1,2) by (auto simp: tcp_inv_def socks_ok_def)
  from tcplib_output_ok [OF g(1) assms(2,4,5) bk, of env] obtain h k' ms rc where
    o: "tcplib_output env c (head_seqno b) s = Some (s\<lparr>socks := (socks s)(c \<mapsto> k'), pkt_heap := h, sent := sent s @ ms\<rparr>, rc)"
      "good_heap h" "same_blocks (pkt_heap s) h" "k' = k \<or> k' = no_pending k" by blast
  have st: "same_tx k k'" using o(4) by (auto simp: same_tx_def no_pending_def)
  have "keeps tidy s (s\<lparr>socks := (socks s)(c \<mapsto> k'), pkt_heap := h, sent := sent s @ ms\<rparr>)"
    using same_tx_ok [OF st] g(2) st by (intro tcp_inv_upd [OF assms(1,2) o(2,3)]) (simp_all add: same_tx_def)
  then show ?thesis using o(1) by blast
qed

lemma reset_ssthresh_upd:
  "\<exists>f. (\<forall>k. same_tx k (f k)) \<and> reset_ssthresh c = upd_sock c f"
  by (rule exI, rule conjI [rotated], rule ext, rule reset_ssthresh_def) (simp add: same_tx_def Let_def)

lemma safe_reset_ssthresh: "safe tidy c (reset_ssthresh c)"
  using reset_ssthresh_upd [of c] safe_upd_same by metis

text \<open>Updates that keep the transmit state also keep the buffer where it is.\<close>

lemma upd_same_buf:
  assumes "tcp_inv s" "socks s c = Some k" "tx_buf k = Some p" "tx_bufs s p = Some b" "\<And>k. same_tx k (f k)"
  shows "\<exists>s'. upd_sock c f s = Some s' \<and> keeps tidy s s' \<and> socks s' c = Some (f k) \<and> tx_buf (f k) = Some p \<and>
    tx_bufs s' p = Some b \<and> active (f k) = active k"
  using upd_same [OF assms(1,2), of f, OF assms(5) [of k]] assms(3,4) same_tx_ok(1) [OF assms(5)] assms(5) [of k] by (auto simp: same_tx_def)

lemma safe_fast_retransmit:
  assumes "tcp_inv s" "socks s c = Some k" "active k" "tx_buf k = Some p" "tx_bufs s p = Some b"
  shows "\<exists>s'. (do { s \<leftarrow> upd_sock c (\<lambda>k. k\<lparr>sk_flags := UNSET_ACK_COUNT (sk_flags k)\<rparr>) s;
           s \<leftarrow> reset_ssthresh c s;
           (s, rc) \<leftarrow> tcplib_output env c (head_seqno b) s;
           upd_sock c (\<lambda>k. k\<lparr>retx := 6\<rparr>) s }) = Some s' \<and> keeps tidy s s'"
proof -
  have f1: "same_tx k (k\<lparr>sk_flags := UNSET_ACK_COUNT (sk_flags k)\<rparr>)" for k by (simp add: same_tx_def)
  obtain s1 where 1: "upd_sock c (\<lambda>k. k\<lparr>sk_flags := UNSET_ACK_COUNT (sk_flags k)\<rparr>) s = Some s1" "keeps tidy s s1"
    "socks s1 c = Some (k\<lparr>sk_flags := UNSET_ACK_COUNT (sk_flags k)\<rparr>)" "tx_bufs s1 p = Some b"
    using upd_same_buf [OF assms(1,2,4,5) f1] by blast
  obtain f where f: "\<And>k. same_tx k (f k)" "reset_ssthresh c = upd_sock c f" using reset_ssthresh_upd by blast
  let ?k1 = "k\<lparr>sk_flags := UNSET_ACK_COUNT (sk_flags k)\<rparr>"
  have k1: "tx_buf ?k1 = Some p" "active ?k1" using assms(3,4) by (simp_all add: active_def)
  obtain s2 where 2: "upd_sock c f s1 = Some s2" "keeps tidy s1 s2" "socks s2 c = Some (f ?k1)" "tx_buf (f ?k1) = Some p"
    "tx_bufs s2 p = Some b" "active (f ?k1)"
    using upd_same_buf [OF keepsD(1) [OF 1(2)] 1(3) k1(1) 1(4) f(1)] k1(2) by blast
  obtain s3 rc where 3: "tcplib_output env c (head_seqno b) s2 = Some (s3, rc)" "keeps tidy s2 s3"
    using safe_output [OF keepsD(1) [OF 2(2)] 2(3,6,4,5)] by blast
  obtain k3 where k3: "socks s3 c = Some k3" using keepsD(2) [OF 3(2) 2(3)] by blast
  have "safe tidy c (upd_sock c (\<lambda>k. k\<lparr>retx := 6\<rparr>))" by (rule safe_upd_same) (simp add: same_tx_def)
  from this keepsD(1) [OF 3(2)] k3 obtain s4 where 4: "upd_sock c (\<lambda>k. k\<lparr>retx := 6\<rparr>) s3 = Some s4" "keeps tidy s3 s4" by (rule safeE)
  have "keeps tidy s s4" using 1(2) 2(2) 3(2) 4(2) keeps_trans by blast
  then show ?thesis using 1(1) 2(1) 3(1) 4(1) f(2) by simp
qed

lemma shorten_state:
  assumes s: "tcp_inv s" "socks s c = Some k" "active k" "tx_buf k = Some p" "tx_bufs s p = Some b"
    and st: "sk_state k \<noteq> TCP_SYN_RCVD" and a: "a > head_seqno b" "unat a \<le> unat (sk_seqno k)" and k': "same_tx k k'"
  shows "\<exists>b'. circ_shorten_head b a = Some (b', 0) \<and>
    keeps tidy s (s\<lparr>socks := (socks s)(c \<mapsto> k'), tx_bufs := (tx_bufs s)(p \<mapsto> b')\<rparr>)"
proof -
  obtain b0 where "tx_bufs s p = Some b0" "buf_ok k b0" using active_buf [OF s(1-3)] s(4) by auto
  then have bk: "buf_ok k b" using s(5) by simp
  define d where "d = unat a - unat (head_seqno b)"
  have d: "unat a = unat (head_seqno b) + d" "d \<le> cb_len b"
    using a bk unfolding d_def word_less_nat_alt buf_ok_def by linarith+
  have ad: "a = head_seqno b + of_nat d"
    using d(1) unat_add_small [of "head_seqno b" d] unat_lt32 [of a] by (simp add: word_eq_iff_unsigned [where 'a = nat] del: unsigned_less)
  from shorten_window [OF _ d(2)] bk obtain b' where b': "circ_shorten_head b a = Some (b', 0)" "circ_ok b'" "cb_len b' = cb_len b"
    "head_seqno b' = a" by (auto simp: buf_ok_def ad)
  have so: "socks_ok (socks s) (tx_bufs s)" using s(1) by (simp add: tcp_inv_def)
  have "buf_ok k' b'" using bk b'(2-4) a st k' d by (auto simp: buf_ok_def same_tx_def)
  moreover have "tx_buf k' = Some p" using k' s(4) by (simp add: same_tx_def)
  ultimately have "socks_ok ((socks s)(c \<mapsto> k')) ((tx_bufs s)(p \<mapsto> b'))"
    by (intro socks_ok_buf [OF so s(2,3,4)])
  then show ?thesis using b'(1) s(1,2) by (auto simp: keeps_def tcp_inv_def)
qed

lemma safe_process_ackno:
  assumes "env_ok tidy env" and s: "tcp_inv s" "socks s c = Some k" "active k" "sk_state k \<noteq> TCP_SYN_RCVD"
    and a: "unat a \<le> unat (sk_seqno k)"
  shows "\<exists>s'. process_ackno env c a s = Some s' \<and> keeps tidy s s'"
proof -
  obtain p b where b: "tx_buf k = Some p" "tx_bufs s p = Some b" "get_buf c s = Some b" using active_buf [OF s(1-3)] by blast
  show ?thesis
  proof (cases "a > head_seqno b")
    case True
    let ?k1 = "k\<lparr>cwnd := grow_cwnd k, sk_flags := UNSET_ACK_COUNT (sk_flags k)\<rparr>"
    have "same_tx k ?k1" by (simp add: same_tx_def)
    from shorten_state [OF s(1-3) b(1,2) s(4) True a this] obtain b' where b': "circ_shorten_head b a = Some (b', 0)"
      "keeps tidy s (s\<lparr>socks := (socks s)(c \<mapsto> ?k1), tx_bufs := (tx_bufs s)(p \<mapsto> b')\<rparr>)" by blast
    let ?s1 = "s\<lparr>socks := (socks s)(c \<mapsto> ?k1), tx_bufs := (tx_bufs s)(p \<mapsto> b')\<rparr>"
    obtain s2 where s2: "ext_acked env c ?s1 = Some s2" "keeps tidy ?s1 s2"
      using env_okD(4) [OF assms(1) keepsD(1) [OF b'(2)]] by blast
    have "process_ackno env c a s = (if sk_seqno k = a then ext_acked env c ?s1 else Some ?s1)"
      using s(2) b b'(1) True by (simp add: process_ackno_def circ_get_seqno_def upd_sock_def set_buf_def)
    then show ?thesis using s2(1) b'(2) keeps_trans [OF b'(2) s2(2)] by (cases "sk_seqno k = a") simp_all
  next
    case False
    let ?k1 = "k\<lparr>sk_flags := INCR_ACK_COUNT (sk_flags k)\<rparr>"
    have f1: "same_tx k (k\<lparr>sk_flags := INCR_ACK_COUNT (sk_flags k)\<rparr>)" for k by (simp add: same_tx_def)
    obtain s1 where 1: "upd_sock c (\<lambda>k. k\<lparr>sk_flags := INCR_ACK_COUNT (sk_flags k)\<rparr>) s = Some s1" "keeps tidy s s1"
      "socks s1 c = Some ?k1" "tx_buf ?k1 = Some p" "tx_bufs s1 p = Some b" "active ?k1"
      using upd_same_buf [OF s(1,2) b(1,2) f1] s(3) by blast
    obtain s2 where "(do { s \<leftarrow> upd_sock c (\<lambda>k. k\<lparr>sk_flags := UNSET_ACK_COUNT (sk_flags k)\<rparr>) s1;
           s \<leftarrow> reset_ssthresh c s;
           (s, rc) \<leftarrow> tcplib_output env c (head_seqno b) s;
           upd_sock c (\<lambda>k. k\<lparr>retx := 6\<rparr>) s }) = Some s2" "keeps tidy s1 s2"
      using safe_fast_retransmit [OF keepsD(1) [OF 1(2)] 1(3,6,4,5)] by blast
    moreover from this have "keeps tidy s s2" by (intro keeps_trans [OF 1(2)])
    ultimately show ?thesis using False s(1,2) b(3) 1(1-3)
      by (simp add: process_ackno_def circ_get_seqno_def)
  qed
qed

lemma safe_process_ack:
  assumes "env_ok tidy env"
  shows "safe tidy c (process_ack env c iph tcph)"
proof (rule safeI)
  fix s k assume s: "tcp_inv s" "socks s c = Some k"
  let ?fin = "th_flags tcph AND TCP_FLAG_FIN \<noteq> 0" and ?n = "payload_length iph tcph"
  have cl: "safe tidy c (\<lambda>s. do { s \<leftarrow> upd_sock c (\<lambda>k. k\<lparr>sk_state := TCP_CLOSE_WAIT\<rparr>) s; ext_closed env c s })"
    using assms by (intro safe_rules safe_upd_inactive safe_upcall) (simp_all add: active_def env_ok_def)
  have "safe tidy c (\<lambda>s. do { s \<leftarrow> tcplib_send_ack env c (?n = 0 \<and> ?fin) TCP_FLAG_ACK s;
        k \<leftarrow> socks s c;
        (if sk_state k = TCP_ESTABLISHED \<and> ?fin \<and> ntohl (th_seqno tcph) = sk_ackno k then do {
           s \<leftarrow> upd_sock c (\<lambda>k. k\<lparr>sk_state := TCP_CLOSE_WAIT\<rparr>) s;
           ext_closed env c s }
         else Some s) })"
    by (intro safe_rules cl)
  from this s obtain s' where "(do { s \<leftarrow> tcplib_send_ack env c (?n = 0 \<and> ?fin) TCP_FLAG_ACK s;
        k \<leftarrow> socks s c;
        (if sk_state k = TCP_ESTABLISHED \<and> ?fin \<and> ntohl (th_seqno tcph) = sk_ackno k then do {
           s \<leftarrow> upd_sock c (\<lambda>k. k\<lparr>sk_state := TCP_CLOSE_WAIT\<rparr>) s;
           ext_closed env c s }
         else Some s) }) = Some s'" "keeps tidy s s'" by (rule safeE)
  then show "\<exists>s'. process_ack env c iph tcph s = Some s' \<and> keeps tidy s s'"
    using s unfolding process_ack_def Let_def by (cases "?n > 0 \<and> sk_flags k AND TCP_ACKPENDING \<ge> 1 \<or> ?fin") simp_all
qed

text \<open>The acknowledgement number covers nothing that was not sent.\<close>

definition ack_covered :: "tcplib_sock \<Rightarrow> tcp_hdr \<Rightarrow> bool" where
  "ack_covered k tcph \<longleftrightarrow> (sk_state k = TCP_ESTABLISHED \<or> sk_state k = TCP_FIN_WAIT_1 \<longrightarrow>
     unat (ntohl (th_ackno tcph)) \<le> unat (sk_seqno k))"

lemma safe_connectdone:
  assumes "env_ok tidy env"
  shows "safe tidy c (\<lambda>s. do { k \<leftarrow> socks s c;
     (if connect_done \<and> sk_flags k AND TCP_CONNECTDONE = 0 then do {
        s \<leftarrow> upd_sock c (\<lambda>k. k\<lparr>sk_flags := sk_flags k OR TCP_CONNECTDONE\<rparr>) s;
        ext_connectdone env c 0 s }
      else Some s) })"
  using assms by (intro safe_rules safe_upd_same safe_upcall) (simp_all add: same_tx_def env_ok_def)

lemma safe_established:
  assumes env: "env_ok tidy env" and s: "tcp_inv s" "socks s c = Some k" and a: "ack_covered k tcph"
  shows "\<exists>s'. established env c iph payload tcph connect_done s = Some s' \<and> keeps tidy s s'"
proof -
  let ?blk = "\<lambda>s. if sk_state k = TCP_ESTABLISHED \<or> sk_state k = TCP_FIN_WAIT_1 then do {
        s \<leftarrow> (if payload_length iph tcph > 0 then upd_sock c (\<lambda>k. k\<lparr>sk_flags := sk_flags k + 1\<rparr>) s else Some s);
        s \<leftarrow> process_ackno env c (ntohl (th_ackno tcph)) s;
        s \<leftarrow> process_seqno env c iph payload tcph s;
        upd_sock c (\<lambda>k. if retx k = 0 then k\<lparr>retx := 6\<rparr> else k) s }
      else Some s"
  have "\<exists>s1. ?blk s = Some s1 \<and> keeps tidy s s1"
  proof (cases "sk_state k = TCP_ESTABLISHED \<or> sk_state k = TCP_FIN_WAIT_1")
    case False then show ?thesis using s by simp
  next
    case True
    define k1 where "k1 = (if payload_length iph tcph > 0 then k\<lparr>sk_flags := sk_flags k + 1\<rparr> else k)"
    have f1: "same_tx k (k\<lparr>sk_flags := sk_flags k + 1\<rparr>)" by (simp add: same_tx_def)
    obtain s1 where 1: "(if payload_length iph tcph > 0 then upd_sock c (\<lambda>k. k\<lparr>sk_flags := sk_flags k + 1\<rparr>) s else Some s) = Some s1"
      "keeps tidy s s1" "socks s1 c = Some k1"
      using upd_same [OF s, of "\<lambda>k. k\<lparr>sk_flags := sk_flags k + 1\<rparr>", OF f1] s
      by (cases "payload_length iph tcph > 0") (auto simp: k1_def)
    have k1: "active k1" "sk_state k1 \<noteq> TCP_SYN_RCVD" "unat (ntohl (th_ackno tcph)) \<le> unat (sk_seqno k1)"
      using True a by (auto simp: k1_def active_def ack_covered_def)
    obtain s2 where 2: "process_ackno env c (ntohl (th_ackno tcph)) s1 = Some s2" "keeps tidy s1 s2"
      using safe_process_ackno [OF env keepsD(1) [OF 1(2)] 1(3) k1] by blast
    have ps: "safe tidy c (\<lambda>s. do { s \<leftarrow> process_seqno env c iph payload tcph s; upd_sock c (\<lambda>k. if retx k = 0 then k\<lparr>retx := 6\<rparr> else k) s })"
      by (intro safe_bind safe_process_seqno [OF env] safe_upd_same) (simp add: same_tx_def)
    obtain k2 where k2: "socks s2 c = Some k2" using keepsD(2) [OF 2(2) 1(3)] by blast
    from ps keepsD(1) [OF 2(2)] k2 obtain s3 where "(do { s \<leftarrow> process_seqno env c iph payload tcph s2; upd_sock c (\<lambda>k. if retx k = 0 then k\<lparr>retx := 6\<rparr> else k) s }) = Some s3"
      "keeps tidy s2 s3" by (rule safeE)
    then show ?thesis using True 1(1) 2 keeps_trans [OF 1(2) keeps_trans [OF 2(2)]] by simp
  qed
  then obtain s1 where 1: "?blk s = Some s1" "keeps tidy s s1" by blast
  obtain k1 where k1: "socks s1 c = Some k1" using keepsD(2) [OF 1(2) s(2)] by blast
  have "safe tidy c (\<lambda>s. do { s \<leftarrow> (do { k \<leftarrow> socks s c;
     (if connect_done \<and> sk_flags k AND TCP_CONNECTDONE = 0 then do {
        s \<leftarrow> upd_sock c (\<lambda>k. k\<lparr>sk_flags := sk_flags k OR TCP_CONNECTDONE\<rparr>) s;
        ext_connectdone env c 0 s }
      else Some s) }); process_ack env c iph tcph s })"
    by (intro safe_bind safe_connectdone safe_process_ack env)
  from this keepsD(1) [OF 1(2)] k1 obtain s2 where 2: "(do { s \<leftarrow> (do { k \<leftarrow> socks s1 c;
     (if connect_done \<and> sk_flags k AND TCP_CONNECTDONE = 0 then do {
        s \<leftarrow> upd_sock c (\<lambda>k. k\<lparr>sk_flags := sk_flags k OR TCP_CONNECTDONE\<rparr>) s1;
        ext_connectdone env c 0 s }
      else Some s1) }); process_ack env c iph tcph s }) = Some s2" "keeps tidy s1 s2" by (rule safeE)
  have "established env c iph payload tcph connect_done s = Some s2"
    using s(2) 1(1) 2(1) by (simp add: established_def process_established_def)
  then show ?thesis using keeps_trans [OF 1(2) 2(2)] by blast
qed

section \<open>Opening a connection\<close>

lemma socks_ok_activate:
  assumes ok: "socks_ok sk bufs" and k': "tx_buf k' = Some p" "bufs p = Some b" "buf_ok k' b"
    and own: "\<forall>d k2. d \<noteq> n \<and> sk d = Some k2 \<and> active k2 \<longrightarrow> tx_buf k2 \<noteq> Some p"
  shows "socks_ok (sk(n \<mapsto> k')) bufs"
proof -
  have "sock_ok bufs k2" if "(sk(n \<mapsto> k')) d = Some k2" for d k2
  proof (cases "d = n")
    case True then show ?thesis using that k' by (simp add: sock_ok_def)
  next
    case False then show ?thesis using that ok by (auto simp: socks_ok_def)
  qed
  moreover have "tx_buf k1 \<noteq> tx_buf k2"
    if "(sk(n \<mapsto> k')) d = Some k1" "(sk(n \<mapsto> k')) e = Some k2" "d \<noteq> e" "active k1" "active k2" for d e k1 k2
    using that ok own k'(1) unfolding socks_ok_def by (cases "d = n"; cases "e = n") (auto dest: sym)
  ultimately show ?thesis unfolding socks_ok_def by blast
qed

lemma FIRST_SEQNO_val: "unat FIRST_SEQNO = 3405691583" "unat (FIRST_SEQNO + 1) = 3405691584" "0xcafebabe + 1 = FIRST_SEQNO"
  by (simp_all add: FIRST_SEQNO_def)

lemma answer_syn_ok:
  assumes s: "tcp_inv s" "socks s n = Some k" and b: "tx_buf k = Some p" "tx_bufs s p = Some b"
    and bo: "circ_ok b" "1 < cb_len b" "cb_len b \<le> 65000" "unat (mss k) \<le> 65000" "head_seqno b = FIRST_SEQNO"
    and own: "\<forall>d k2. d \<noteq> n \<and> socks s d = Some k2 \<and> active k2 \<longrightarrow> tx_buf k2 \<noteq> Some p"
  shows "\<exists>s' k'. answer_syn env n s = Some s' \<and> keeps tidy s s' \<and> socks s' = (socks s)(n \<mapsto> k') \<and> conns s' = conns s \<and>
    sk_state k' = TCP_SYN_RCVD \<and> sk_seqno k' = FIRST_SEQNO + 1 \<and> tx_buf k' = Some p"
proof -
  let ?k1 = "k\<lparr>sk_seqno := FIRST_SEQNO, sk_state := TCP_SYN_RCVD\<rparr>"
  let ?s1 = "s\<lparr>socks := (socks s)(n \<mapsto> ?k1)\<rparr>"
  have g: "good_heap (pkt_heap ?s1)" "socks ?s1 n = Some ?k1" using s(1) by (simp_all add: tcp_inv_def)
  from send_ack_ok [OF g, of env False "TCP_FLAG_ACK OR TCP_FLAG_SYN"] obtain h k2 ms where
    2: "tcplib_send_ack env n False (TCP_FLAG_ACK OR TCP_FLAG_SYN) ?s1 =
      Some (?s1\<lparr>socks := (socks ?s1)(n \<mapsto> k2), pkt_heap := h, sent := sent ?s1 @ ms\<rparr>)" "good_heap h" "same_blocks (pkt_heap ?s1) h"
      "k2 = ?k1 \<or> k2 = no_pending ?k1" by blast
  let ?k3 = "k2\<lparr>sk_seqno := sk_seqno k2 + 1\<rparr>"
  let ?s3 = "s\<lparr>socks := (socks s)(n \<mapsto> ?k3), pkt_heap := h, sent := sent s @ ms\<rparr>"
  have k2: "sk_seqno k2 = FIRST_SEQNO" "sk_state k2 = TCP_SYN_RCVD" "tx_buf k2 = Some p" "mss k2 = mss k"
    using 2(4) b(1) by (auto simp: no_pending_def)
  have "answer_syn env n s = Some ?s3"
    unfolding answer_syn_def FIRST_SEQNO_val(3) using s(2) 2(1) by (simp add: upd_sock_def)
  moreover have "socks_ok ((socks s)(n \<mapsto> ?k3)) (tx_bufs s)"
    using s(1) b bo own k2 FIRST_SEQNO_val by (intro socks_ok_activate [where p = p and b = b]) (simp_all add: tcp_inv_def buf_ok_def)
  then have "keeps tidy s ?s3" using s 2(2,3) by (auto simp: keeps_def tcp_inv_def)
  ultimately show ?thesis using k2 by (intro exI [of _ ?s3] exI [of _ ?k3]) simp
qed

lemma own_buf:
  assumes "tcp_inv s" "socks s c = Some k" "active k" "tx_buf k = Some p"
  shows "\<forall>d k2. d \<noteq> c \<and> socks s d = Some k2 \<and> active k2 \<longrightarrow> tx_buf k2 \<noteq> Some p"
  using assms unfolding tcp_inv_def socks_ok_def by metis

lemma socks_ok_free_buf:
  assumes "socks_ok sk bufs" "\<forall>d k. sk d = Some k \<and> active k \<longrightarrow> tx_buf k \<noteq> Some p"
  shows "socks_ok sk (bufs(p \<mapsto> b))"
  using assms unfolding socks_ok_def sock_ok_def by (metis fun_upd_apply)

lemma init_tx_ok:
  assumes s: "tcp_inv s" "socks s n = Some k" "\<not> active k" "tx_buf k = Some p" "tx_bufs s p = Some b"
    and l: "17 < tx_buf_len k" "tx_buf_len k \<le> 65000" "nat (tx_buf_len k) - 16 \<le> length (cb_data b)"
    and own: "\<forall>d k2. d \<noteq> n \<and> socks s d = Some k2 \<and> active k2 \<longrightarrow> tx_buf k2 \<noteq> Some p"
  shows "\<exists>b'. init_tx n s = Some (s\<lparr>tx_bufs := (tx_bufs s)(p \<mapsto> b')\<rparr>) \<and> keeps tidy s (s\<lparr>tx_bufs := (tx_bufs s)(p \<mapsto> b')\<rparr>) \<and>
    circ_ok b' \<and> cb_len b' = nat (tx_buf_len k) - 16 \<and> head_seqno b' = FIRST_SEQNO"
proof -
  from init_ok [of "tx_buf_len k" b FIRST_SEQNO] l obtain b' where
    b': "circ_buf_init b (tx_buf_len k) FIRST_SEQNO = (b', 0)" "circ_ok b'" "cb_len b' = nat (tx_buf_len k) - 16" "head_seqno b' = FIRST_SEQNO"
    by auto
  have "init_tx n s = Some (s\<lparr>tx_bufs := (tx_bufs s)(p \<mapsto> b')\<rparr>)"
    unfolding init_tx_def FIRST_SEQNO_val(3) using s b'(1) by (simp add: get_buf_def set_buf_def)
  moreover have "tx_buf k2 \<noteq> Some p" if "socks s d = Some k2" "active k2" for d k2
    using own s(2,3) that by (cases "d = n") auto
  then have "keeps tidy s (s\<lparr>tx_bufs := (tx_bufs s)(p \<mapsto> b')\<rparr>)"
    using s(1) socks_ok_free_buf [of "socks s" "tx_bufs s" p b'] by (auto simp: keeps_def tcp_inv_def)
  ultimately show ?thesis using b'(2-4) by blast
qed

text \<open>Steps that change addresses and numbers only.\<close>

definition same_ends :: "bool \<Rightarrow> tcp_state \<Rightarrow> tcp_state \<Rightarrow> bool" where
  "same_ends tidy s s' \<longleftrightarrow> keeps tidy s s' \<and> tx_bufs s' = tx_bufs s \<and>
     (\<forall>d k'. socks s' d = Some k' \<longrightarrow> (\<exists>k. socks s d = Some k \<and> same_tx k k' \<and> tx_buf_len k' = tx_buf_len k))"

lemma same_ends_sock:
  "same_ends tidy s s' \<Longrightarrow> socks s' d = Some k' \<Longrightarrow> \<exists>k. socks s d = Some k \<and> same_tx k k' \<and> tx_buf_len k' = tx_buf_len k"
  by (simp add: same_ends_def)

lemma same_ends_refl: "tcp_inv s \<Longrightarrow> same_ends tidy s s"
  by (simp add: same_ends_def same_tx_def)

lemma same_ends_trans: "same_ends tidy s t \<Longrightarrow> same_ends tidy t u \<Longrightarrow> same_ends tidy s u"
proof -
  assume st: "same_ends tidy s t" and tu: "same_ends tidy t u"
  have "\<exists>k. socks s d = Some k \<and> same_tx k k' \<and> tx_buf_len k' = tx_buf_len k" if d: "socks u d = Some k'" for d k'
  proof -
    obtain k1 where k1: "socks t d = Some k1" "same_tx k1 k'" "tx_buf_len k' = tx_buf_len k1"
      using same_ends_sock [OF tu d] by (elim exE conjE)
    moreover obtain k where "socks s d = Some k" "same_tx k k1" "tx_buf_len k1 = tx_buf_len k"
      using same_ends_sock [OF st k1(1)] by (elim exE conjE)
    ultimately show ?thesis by (simp add: same_tx_def)
  qed
  then show ?thesis using st tu keeps_trans [of tidy s t u] by (simp add: same_ends_def)
qed

lemma same_ends_upd:
  assumes "tcp_inv s" "socks s c = Some k" "same_tx k (f k)" "tx_buf_len (f k) = tx_buf_len k"
  shows "\<exists>s'. upd_sock c f s = Some s' \<and> same_ends tidy s s'"
  using upd_same [where tidy = tidy, OF assms(1,2), of f, OF assms(3)] assms(2-4) by (auto simp: same_ends_def same_tx_def)

lemma same_ends_add:
  assumes "tcp_inv s" "socks s n = Some k"
  shows "same_ends tidy s (conn_add_once n s)"
  using assms by (auto simp: same_ends_def conn_add_once_def keeps_def tcp_inv_def same_tx_def)

lemma same_ends_own:
  assumes "same_ends tidy s s'" "\<forall>d k2. d \<noteq> n \<and> socks s d = Some k2 \<and> active k2 \<longrightarrow> tx_buf k2 \<noteq> Some p"
  shows "\<forall>d k2. d \<noteq> n \<and> socks s' d = Some k2 \<and> active k2 \<longrightarrow> tx_buf k2 \<noteq> Some p"
proof (intro allI impI, elim conjE)
  fix d k2 assume d: "d \<noteq> n" "socks s' d = Some k2" "active k2"
  then obtain k where k: "socks s d = Some k" "same_tx k k2" using same_ends_sock [OF assms(1)] by blast
  then have "active k" "tx_buf k2 = tx_buf k" using d(3) same_tx_ok(1) [OF k(2)] by (simp_all add: same_tx_def)
  then show "tx_buf k2 \<noteq> Some p" using assms(2) d(1) k(1) by auto
qed

lemma same_endsD:
  assumes "same_ends tidy s s'" "socks s n = Some k"
  obtains k' where "socks s' n = Some k'" "same_tx k k'" "tx_buf_len k' = tx_buf_len k"
proof -
  obtain k' where "socks s' n = Some k'" using assms unfolding same_ends_def keeps_def by force
  moreover from this have "same_tx k k'" "tx_buf_len k' = tx_buf_len k" using same_ends_sock [OF assms(1)] assms(2) by fastforce+
  ultimately show ?thesis by (rule that)
qed

lemma link_new_sock:
  assumes s: "tcp_inv s" "socks s c = Some kc" "socks s n = Some k"
  shows "\<exists>s'. (if n \<noteq> c then do {
        s \<leftarrow> upd_sock c (\<lambda>k. k\<lparr>r_ep := zero_ep\<rparr>) s;
        s \<leftarrow> upd_sock n (\<lambda>k. k\<lparr>r_ep := peer\<rparr>) s; Some (conn_add_once n s) }
      else Some s) = Some s' \<and> same_ends tidy s s'"
proof (cases "n = c")
  case True then show ?thesis using same_ends_refl [OF s(1)] by simp
next
  case False
  obtain s1 where 1: "upd_sock c (\<lambda>k. k\<lparr>r_ep := zero_ep\<rparr>) s = Some s1" "same_ends tidy s s1"
    using same_ends_upd [where tidy = tidy, OF s(1,2), of "\<lambda>k. k\<lparr>r_ep := zero_ep\<rparr>"] by (auto simp: same_tx_def)
  obtain k1 where k1: "socks s1 n = Some k1" using same_endsD [OF 1(2) s(3)] by blast
  obtain s2 where 2: "upd_sock n (\<lambda>k. k\<lparr>r_ep := peer\<rparr>) s1 = Some s2" "same_ends tidy s1 s2"
    using same_ends_upd [where tidy = tidy, OF _ k1, of "\<lambda>k. k\<lparr>r_ep := peer\<rparr>"] 1(2) by (auto simp: same_tx_def same_ends_def keeps_def)
  obtain k2 where "socks s2 n = Some k2" using same_endsD [OF 2(2) k1] by blast
  then have "same_ends tidy s2 (conn_add_once n s2)" using 2(2) by (intro same_ends_add) (auto simp: same_ends_def keeps_def)
  then have "same_ends tidy s (conn_add_once n s2)" using 1(2) 2(2) same_ends_trans by blast
  then show ?thesis using False 1(1) 2(1) by simp
qed

text \<open>\<open>accept_syn\<close>: afterwards there is a socket ready for \<open>answer_syn\<close>, or the peer was reset.\<close>

lemma upd_r_ep:
  assumes "tcp_inv s" "socks s c = Some k"
  shows "\<exists>s'. upd_sock c (\<lambda>k. k\<lparr>r_ep := e\<rparr>) s = Some s' \<and> keeps tidy s s' \<and> s' = s\<lparr>socks := (socks s)(c \<mapsto> k\<lparr>r_ep := e\<rparr>)\<rparr>"
  using upd_same [OF assms, of "\<lambda>k. k\<lparr>r_ep := e\<rparr>"] by (simp add: same_tx_def)

lemma accept_syn_ok:
  assumes env: "env_ok tidy env" and s: "tcp_inv s" "socks s c = Some k" "sk_state k = TCP_LISTEN"
  shows "\<exists>s' r. accept_syn env c iph tcph s = Some (s', r) \<and> keeps tidy s s' \<and>
    (\<exists>kc. socks s' c = Some kc \<and> sk_state kc = TCP_LISTEN \<and> (r \<noteq> Some c \<longrightarrow> tx_buf kc = tx_buf k)) \<and>
    (\<forall>n. r = Some n \<longrightarrow> (\<exists>k p b. socks s' n = Some k \<and> tx_buf k = Some p \<and> tx_bufs s' p = Some b \<and> circ_ok b \<and>
       1 < cb_len b \<and> cb_len b \<le> 65000 \<and> unat (mss k) \<le> 65000 \<and> head_seqno b = FIRST_SEQNO \<and>
       (\<forall>d k2. d \<noteq> n \<and> socks s' d = Some k2 \<and> active k2 \<longrightarrow> tx_buf k2 \<noteq> Some p)))"
proof -
  let ?peer = "\<lparr>sin6_port = th_srcport tcph, sin6_addr = ip6_src iph\<rparr>" and ?tk = "tx_buf k"
  obtain s1 where 1: "upd_sock c (\<lambda>k. k\<lparr>r_ep := ?peer\<rparr>) s = Some s1" "keeps tidy s s1" using upd_r_ep [OF s(1,2)] by blast
  have "accept_ok tidy (ext_accept env c ?peer)" using env by (simp add: env_ok_def)
  moreover obtain k1 where k1: "socks s1 c = Some k1" "sk_state k1 = TCP_LISTEN" "tx_buf k1 = tx_buf k"
    using 1(1) s(2,3) by (auto simp: upd_sock_def)
  ultimately obtain s2 r where 2: "ext_accept env c ?peer s1 = Some (s2, r)" "keeps tidy s1 s2"
    and st: "\<And>d k. socks s1 d = Some k \<Longrightarrow> \<exists>k'. socks s2 d = Some k' \<and> sk_state k' = sk_state k \<and> (r \<noteq> Some d \<longrightarrow> tx_buf k' = tx_buf k)"
    and n: "\<And>n. r = Some n \<Longrightarrow> \<exists>k p b. socks s2 n = Some k \<and> \<not> active k \<and> tx_buf k = Some p \<and> tx_bufs s2 p = Some b \<and>
        17 < tx_buf_len k \<and> tx_buf_len k \<le> 65000 \<and> nat (tx_buf_len k) - 16 \<le> length (cb_data b) \<and> unat (mss k) \<le> 65000 \<and>
        (\<forall>d k2. d \<noteq> n \<and> socks s2 d = Some k2 \<and> active k2 \<longrightarrow> tx_buf k2 \<noteq> Some p)"
    using keepsD(1) [OF 1(2)] unfolding accept_ok_def by blast
  obtain kc where kc: "socks s2 c = Some kc" "sk_state kc = TCP_LISTEN" "r \<noteq> Some c \<longrightarrow> tx_buf kc = tx_buf k"
    using st [OF k1(1)] k1(2,3) by auto
  show ?thesis
  proof (cases r)
    case None
    obtain s3 where 3: "upd_sock c (\<lambda>k. k\<lparr>r_ep := zero_ep\<rparr>) s2 = Some s3" "keeps tidy s2 s3" "s3 = s2\<lparr>socks := (socks s2)(c \<mapsto> kc\<lparr>r_ep := zero_ep\<rparr>)\<rparr>"
      using upd_r_ep [OF keepsD(1) [OF 2(2)] kc(1)] by blast
    have g3: "good_heap (pkt_heap s3)" using keepsD(1) [OF 3(2)] by (simp add: tcp_inv_def)
    obtain s4 where 4: "tcplib_send_rst env iph tcph s3 = Some s4" "keeps tidy s3 s4" using send_rst_inv [OF keepsD(1) [OF 3(2)]] by blast
    have "socks s4 = socks s3" using send_rst_ok [OF g3, of env iph tcph] 4(1) by auto
    then have l: "\<exists>kc. socks s4 c = Some kc \<and> sk_state kc = TCP_LISTEN \<and> tx_buf kc = tx_buf k" using 3(3) kc(2,3) None by simp
    have "accept_syn env c iph tcph s = Some (s4, None)"
      using 1(1) 2(1) None 3(1) 4(1) by (simp add: accept_syn_def Let_def)
    moreover have "keeps tidy s s4" using 1(2) 2(2) 3(2) 4(2) keeps_trans by blast
    ultimately show ?thesis using l by (intro exI [of _ s4] exI [of _ None]) simp
  next
    case (Some n)
    obtain k p b where k: "socks s2 n = Some k" "\<not> active k" "tx_buf k = Some p" "tx_bufs s2 p = Some b"
      "17 < tx_buf_len k" "tx_buf_len k \<le> 65000" "nat (tx_buf_len k) - 16 \<le> length (cb_data b)" "unat (mss k) \<le> 65000"
      and own: "\<forall>d k2. d \<noteq> n \<and> socks s2 d = Some k2 \<and> active k2 \<longrightarrow> tx_buf k2 \<noteq> Some p" using n [OF Some] by blast
    obtain s3 where 3: "(if n \<noteq> c then do {
        s \<leftarrow> upd_sock c (\<lambda>k. k\<lparr>r_ep := zero_ep\<rparr>) s2;
        s \<leftarrow> upd_sock n (\<lambda>k. k\<lparr>r_ep := ?peer\<rparr>) s; Some (conn_add_once n s) }
      else Some s2) = Some s3" "same_ends tidy s2 s3" using link_new_sock [OF keepsD(1) [OF 2(2)] kc(1) k(1)] by blast
    obtain k3 where k3: "socks s3 n = Some k3" using same_endsD [OF 3(2) k(1)] by blast
    let ?f = "\<lambda>k. k\<lparr>l_ep := \<lparr>sin6_port = th_dstport tcph, sin6_addr = ip6_dst iph\<rparr>, sk_ackno := ntohl (th_seqno tcph) + 1\<rparr>"
    have "tcp_inv s3" using 3(2) by (simp add: same_ends_def keeps_def)
    then obtain s4 where 4: "upd_sock n ?f s3 = Some s4" "same_ends tidy s3 s4"
      using same_ends_upd [where tidy = tidy, OF _ k3, of ?f] by (auto simp: same_tx_def)
    have e: "same_ends tidy s2 s4" by (rule same_ends_trans [OF 3(2) 4(2)])
    obtain k4 where k4: "socks s4 n = Some k4" "same_tx k k4" "tx_buf_len k4 = tx_buf_len k" using same_endsD [OF e k(1)] by blast
    have s4: "tcp_inv s4" "tx_bufs s4 p = Some b" "keeps tidy s2 s4" using e k(4) by (simp_all add: same_ends_def keeps_def)
    have k4': "\<not> active k4" "tx_buf k4 = Some p" "mss k4 = mss k" using k k4(2) same_tx_ok(1) [OF k4(2)] by (simp_all add: same_tx_def)
    from init_tx_ok [OF s4(1) k4(1) k4'(1,2) s4(2) _ _ _ same_ends_own [OF e own]] k(5-7) k4(3) obtain b' where
      b': "init_tx n s4 = Some (s4\<lparr>tx_bufs := (tx_bufs s4)(p \<mapsto> b')\<rparr>)" "keeps tidy s4 (s4\<lparr>tx_bufs := (tx_bufs s4)(p \<mapsto> b')\<rparr>)"
        "circ_ok b'" "cb_len b' = nat (tx_buf_len k) - 16" "head_seqno b' = FIRST_SEQNO" by auto
    let ?s5 = "s4\<lparr>tx_bufs := (tx_bufs s4)(p \<mapsto> b')\<rparr>"
    have "accept_syn env c iph tcph s = Some (?s5, Some n)"
      using 1(1) 2(1) Some 3(1) 4(1) b'(1) by (cases "n = c") (simp_all add: accept_syn_def Let_def)
    moreover have "keeps tidy s ?s5" using keeps_trans [OF 1(2) keeps_trans [OF 2(2) keeps_trans [OF s4(3) b'(2)]]] .
    moreover have "1 < cb_len b'" "cb_len b' \<le> 65000" using b'(4) k(5,6) by auto
    moreover obtain kc4 where "socks s4 c = Some kc4" "same_tx kc kc4" using same_endsD [OF e kc(1)] by blast
    then have "\<exists>kc. socks ?s5 c = Some kc \<and> sk_state kc = TCP_LISTEN \<and> (r \<noteq> Some c \<longrightarrow> tx_buf kc = ?tk)"
      using kc(2,3) by (simp add: same_tx_def)
    ultimately show ?thesis
      using k4(1) k4' k(8) b'(3,5) same_ends_own [OF e own] Some by (intro exI [of _ ?s5] exI [of _ "Some n"]) simp
  qed
qed

section \<open>The switch\<close>

text \<open>What may be said of a segment for the connection it is for: it acknowledges nothing that
  was not sent, and it is not a SYN with an acknowledgement for a listening socket.\<close>

definition segment_ok :: "tcplib_sock \<Rightarrow> tcp_hdr \<Rightarrow> bool" where
  "segment_ok k tcph \<longleftrightarrow>
     (active k \<longrightarrow> unat (ntohl (th_ackno tcph)) \<le> unat (sk_seqno k) \<or>
        sk_state k = TCP_FIN_WAIT_1 \<and> th_flags tcph AND TCP_FLAG_ACK \<noteq> 0 \<and> ntohl (th_ackno tcph) = sk_seqno k + 1) \<and>
     (sk_state k = TCP_LISTEN \<longrightarrow> th_flags tcph AND TCP_FLAG_SYN = 0 \<or> th_flags tcph AND TCP_FLAG_ACK = 0)"

lemma set_established:
  assumes s: "tcp_inv s" "socks s c = Some k" and k: "active k" and f: "sk_seqno (f k) = sk_seqno k" "tx_buf (f k) = tx_buf k"
    "mss (f k) = mss k" "sk_state (f k) = TCP_ESTABLISHED"
  shows "\<exists>s'. upd_sock c f s = Some s' \<and> keeps tidy s s' \<and> socks s' c = Some (f k)"
proof -
  have "sock_ok (tx_bufs s) k" using s by (auto simp: tcp_inv_def socks_ok_def)
  then have "sock_ok (tx_bufs s) (f k)" using k f by (auto simp: sock_ok_def buf_ok_def)
  then have "socks_ok ((socks s)(c \<mapsto> f k)) (tx_bufs s)" using s k f by (intro socks_ok_upd) (auto simp: tcp_inv_def)
  then show ?thesis using s by (auto simp: upd_sock_def keeps_def tcp_inv_def)
qed

lemma safe_listen:
  assumes env: "env_ok tidy env" and s: "tcp_inv s" "socks s c = Some k" and st: "sk_state k = TCP_LISTEN" and seg: "segment_ok k tcph"
  shows "\<exists>s'. listen_then_established env c iph payload tcph cd s = Some s' \<and> keeps tidy s s'"
proof (cases "th_flags tcph AND TCP_FLAG_SYN = 0")
  case True
  then show ?thesis using send_rst_inv [OF s(1), of env iph tcph] s st
    by (auto simp: listen_then_established_def process_listen_def)
next
  case False
  then have ack: "th_flags tcph AND TCP_FLAG_ACK = 0" using seg st by (simp add: segment_ok_def)
  obtain s1 r where 1: "accept_syn env c iph tcph s = Some (s1, r)" "keeps tidy s s1"
    and kc: "\<exists>kc. socks s1 c = Some kc \<and> sk_state kc = TCP_LISTEN \<and> (r \<noteq> Some c \<longrightarrow> tx_buf kc = tx_buf k)"
    and n: "\<forall>n. r = Some n \<longrightarrow> (\<exists>k p b. socks s1 n = Some k \<and> tx_buf k = Some p \<and> tx_bufs s1 p = Some b \<and> circ_ok b \<and>
       1 < cb_len b \<and> cb_len b \<le> 65000 \<and> unat (mss k) \<le> 65000 \<and> head_seqno b = FIRST_SEQNO \<and>
       (\<forall>d k2. d \<noteq> n \<and> socks s1 d = Some k2 \<and> active k2 \<longrightarrow> tx_buf k2 \<noteq> Some p))"
    using accept_syn_ok [OF env s st, of iph tcph] by blast
  show ?thesis
  proof (cases r)
    case None
    then show ?thesis using 1 False s st by (auto simp: listen_then_established_def process_listen_def)
  next
    case (Some n)
    then obtain kn p b where kn: "socks s1 n = Some kn" "tx_buf kn = Some p" "tx_bufs s1 p = Some b" "circ_ok b"
       "1 < cb_len b" "cb_len b \<le> 65000" "unat (mss kn) \<le> 65000" "head_seqno b = FIRST_SEQNO"
       "\<forall>d k2. d \<noteq> n \<and> socks s1 d = Some k2 \<and> active k2 \<longrightarrow> tx_buf k2 \<noteq> Some p" using n by blast
    obtain s2 k2 where 2: "answer_syn env n s1 = Some s2" "keeps tidy s1 s2" "socks s2 = (socks s1)(n \<mapsto> k2)" "sk_state k2 = TCP_SYN_RCVD"
      using answer_syn_ok [OF keepsD(1) [OF 1(2)] kn, of env] by blast
    have l: "listen_then_established env c iph payload tcph cd s = established env c iph payload tcph cd s2"
      using 1(1) 2(1) Some False ack s(2) st by (simp add: listen_then_established_def process_listen_def)
    obtain k3 where k3: "socks s2 c = Some k3" "sk_state k3 = TCP_LISTEN \<or> sk_state k3 = TCP_SYN_RCVD"
      using kc 2(3,4) by (cases "c = n") auto
    then have "ack_covered k3 tcph" by (auto simp: ack_covered_def)
    then obtain s3 where "established env c iph payload tcph cd s2 = Some s3" "keeps tidy s2 s3"
      using safe_established [OF env keepsD(1) [OF 2(2)] k3(1)] by blast
    then show ?thesis using l keeps_trans [OF 1(2) keeps_trans [OF 2(2)]] by auto
  qed
qed

lemma safe_syn_rcvd:
  assumes env: "env_ok tidy env" and s: "tcp_inv s" "socks s c = Some k" and st: "sk_state k = TCP_SYN_RCVD" and seg: "segment_ok k tcph"
  shows "\<exists>s'. listen_then_established env c iph payload tcph cd s = Some s' \<and> keeps tidy s s'"
proof -
  have ac: "active k" using st by (simp add: active_def)
  obtain p b where b: "tx_buf k = Some p" "tx_bufs s p = Some b" "buf_ok k b" using active_buf [OF s ac] by blast
  have a: "unat (ntohl (th_ackno tcph)) \<le> unat (sk_seqno k)" using seg ac st by (simp add: segment_ok_def)
  have "\<exists>s1 k1. (if th_flags tcph AND TCP_FLAG_SYN \<noteq> 0 then answer_syn env c s else Some s) = Some s1 \<and> keeps tidy s s1 \<and>
      socks s1 c = Some k1 \<and> sk_state k1 = TCP_SYN_RCVD \<and> unat (ntohl (th_ackno tcph)) \<le> unat (sk_seqno k1)"
  proof (cases "th_flags tcph AND TCP_FLAG_SYN = 0")
    case True then show ?thesis using s st a by auto
  next
    case False
    have bo: "circ_ok b" "1 < cb_len b" "cb_len b \<le> 65000" "unat (mss k) \<le> 65000" "head_seqno b = FIRST_SEQNO"
      "unat (sk_seqno k) \<le> unat FIRST_SEQNO + 1" using b(3) st by (simp_all add: buf_ok_def)
    obtain s1 k1 where "answer_syn env c s = Some s1" "keeps tidy s s1" "socks s1 = (socks s)(c \<mapsto> k1)"
      "sk_state k1 = TCP_SYN_RCVD" "sk_seqno k1 = FIRST_SEQNO + 1"
      using answer_syn_ok [OF s b(1,2) bo(1-5) own_buf [OF s ac b(1)], of env] by blast
    then show ?thesis using False a bo(6) FIRST_SEQNO_val by (intro exI [of _ s1] exI [of _ k1]) simp
  qed
  then obtain s1 k1 where 1: "(if th_flags tcph AND TCP_FLAG_SYN \<noteq> 0 then answer_syn env c s else Some s) = Some s1" "keeps tidy s s1"
      "socks s1 c = Some k1" "sk_state k1 = TCP_SYN_RCVD" "unat (ntohl (th_ackno tcph)) \<le> unat (sk_seqno k1)" by blast
  have "\<exists>s2 k2. (if th_flags tcph AND TCP_FLAG_ACK \<noteq> 0 then upd_sock c (\<lambda>k. k\<lparr>sk_state := TCP_ESTABLISHED\<rparr>) s1 else Some s1) = Some s2 \<and>
      keeps tidy s1 s2 \<and> socks s2 c = Some k2 \<and> ack_covered k2 tcph"
    using set_established [where tidy = tidy, OF keepsD(1) [OF 1(2)] 1(3), of "\<lambda>k. k\<lparr>sk_state := TCP_ESTABLISHED\<rparr>"] 1(3-5) keepsD(1) [OF 1(2)]
    by (cases "th_flags tcph AND TCP_FLAG_ACK = 0") (auto simp: active_def ack_covered_def)
  then obtain s2 k2 where 2: "(if th_flags tcph AND TCP_FLAG_ACK \<noteq> 0 then upd_sock c (\<lambda>k. k\<lparr>sk_state := TCP_ESTABLISHED\<rparr>) s1 else Some s1) = Some s2"
      "keeps tidy s1 s2" "socks s2 c = Some k2" "ack_covered k2 tcph" by blast
  obtain s3 where 3: "established env c iph payload tcph cd s2 = Some s3" "keeps tidy s2 s3"
    using safe_established [OF env keepsD(1) [OF 2(2)] 2(3,4)] by blast
  have "process_listen env c iph tcph s = Some (s2, True)"
    using s(2) st 1(1) 2(1) by (cases "th_flags tcph AND TCP_FLAG_SYN = 0") (simp_all add: process_listen_def)
  then have "listen_then_established env c iph payload tcph cd s = Some s3" using 3(1) by (simp add: listen_then_established_def)
  then show ?thesis using keeps_trans [OF 1(2) keeps_trans [OF 2(2) 3(2)]] by blast
qed

lemma safe_fin_wait_1:
  assumes s: "tcp_inv s" "socks s c = Some k" and st: "sk_state k = TCP_FIN_WAIT_1 \<or> sk_state k = TCP_LAST_ACK"
    and seg: "segment_ok k tcph" "sk_state k = TCP_LAST_ACK \<Longrightarrow>
      \<not> (th_flags tcph AND TCP_FLAG_ACK \<noteq> 0 \<and> ntohl (th_ackno tcph) = sk_seqno k + 1)"
  shows "\<exists>s' k'. process_fin_wait_1 c tcph s = Some s' \<and> keeps tidy s s' \<and> socks s' c = Some k' \<and> ack_covered k' tcph"
proof (cases "th_flags tcph AND TCP_FLAG_ACK \<noteq> 0 \<and> ntohl (th_ackno tcph) = sk_seqno k + 1")
  case False
  then show ?thesis using s st seg(1)
    by (intro exI [of _ s] exI [of _ k]) (auto simp: process_fin_wait_1_def ack_covered_def segment_ok_def active_def)
next
  case True
  let ?f = "\<lambda>k. k\<lparr>sk_seqno := sk_seqno k + 1, sk_state := TCP_TIME_WAIT, retx := TCPLIB_TIMEWAIT_LEN\<rparr>"
  let ?g = "\<lambda>k. k\<lparr>retx := TCPLIB_2MSL, sk_state := TCP_FIN_WAIT_2\<rparr>"
  have "\<not> active (?f k)" "\<not> active (?g k)" by (simp_all add: active_def)
  then show ?thesis using upd_inactive [OF s, of ?f] upd_inactive [OF s, of ?g] True s(2)
    by (cases "th_flags tcph AND TCP_FLAG_FIN = 0") (auto simp: process_fin_wait_1_def ack_covered_def)
qed

lemma safe_syn_sent:
  assumes env: "env_ok tidy env" and s: "tcp_inv s" "socks s c = Some k" and st: "sk_state k = TCP_SYN_SENT" and seg: "segment_ok k tcph"
  shows "\<exists>s'. process_syn_sent env c iph payload tcph s = Some s' \<and> keeps tidy s s'"
proof (cases "th_flags tcph AND (TCP_FLAG_SYN OR TCP_FLAG_ACK) = 0")
  case False
  let ?f = "\<lambda>k. k\<lparr>sk_state := TCP_ESTABLISHED, sk_ackno := ntohl (th_seqno tcph) + 1\<rparr>"
  have ac: "active k" using st by (simp add: active_def)
  obtain s1 where 1: "upd_sock c ?f s = Some s1" "keeps tidy s s1" "socks s1 c = Some (?f k)"
    using set_established [OF s ac, of ?f] by auto
  have "ack_covered (?f k) tcph" using seg ac st by (simp add: segment_ok_def ack_covered_def)
  from safe_established [OF env keepsD(1) [OF 1(2)] 1(3) this, of iph payload True] 1(1) False
  show ?thesis using keeps_trans [OF 1(2)] by (auto simp: process_syn_sent_def)
next
  case True
  have "th_flags tcph AND TCP_FLAG_SYN = (th_flags tcph AND (TCP_FLAG_SYN OR TCP_FLAG_ACK)) AND TCP_FLAG_SYN"
    by (rule bit_word_eqI) (auto simp: bit_simps)
  then have "th_flags tcph AND TCP_FLAG_SYN = 0" using True by simp
  then show ?thesis using True send_rst_inv [OF s(1)] by (simp add: process_syn_sent_def)
qed

lemma safe_process_state:
  assumes env: "env_ok tidy env" and s: "tcp_inv s" "socks s c = Some k" and seg: "segment_ok k tcph"
  shows "\<exists>s' rc. process_state env c iph payload tcph s = Some (s', rc) \<and> keeps tidy s s'"
proof -
  have fw: "\<exists>s'. (do { s \<leftarrow> process_fin_wait_1 c tcph s; established env c iph payload tcph False s }) = Some s' \<and> keeps tidy s s'"
    if st: "sk_state k = TCP_FIN_WAIT_1 \<or> sk_state k = TCP_LAST_ACK \<and>
      \<not> (th_flags tcph AND TCP_FLAG_ACK \<noteq> 0 \<and> ntohl (th_ackno tcph) = sk_seqno k + 1)"
  proof -
    have "\<exists>s1 k1. process_fin_wait_1 c tcph s = Some s1 \<and> keeps tidy s s1 \<and> socks s1 c = Some k1 \<and> ack_covered k1 tcph"
    proof -
      have "sk_state k = TCP_FIN_WAIT_1 \<or> sk_state k = TCP_LAST_ACK" using st by blast
      moreover have "\<not> (th_flags tcph AND TCP_FLAG_ACK \<noteq> 0 \<and> ntohl (th_ackno tcph) = sk_seqno k + 1)"
        if "sk_state k = TCP_LAST_ACK" using st that by auto
      ultimately show ?thesis by (rule safe_fin_wait_1 [OF s _ seg])
    qed
    then obtain s1 k1 where 1: "process_fin_wait_1 c tcph s = Some s1" "keeps tidy s s1" "socks s1 c = Some k1" "ack_covered k1 tcph"
      by blast
    from safe_established [OF env keepsD(1) [OF 1(2)] 1(3,4), of iph payload False] 1(1) show ?thesis
      using keeps_trans [OF 1(2)] by auto
  qed
  show ?thesis
  proof (cases "sk_state k")
    case TCP_CLOSED then show ?thesis using s by (simp add: process_state_def Let_def)
  next
    case TCP_LISTEN
    then show ?thesis using safe_listen [OF env s TCP_LISTEN seg, of iph payload False] s by (auto simp: process_state_def Let_def)
  next
    case TCP_SYN_RCVD
    then show ?thesis using safe_syn_rcvd [OF env s TCP_SYN_RCVD seg, of iph payload False] s by (auto simp: process_state_def Let_def)
  next
    case TCP_SYN_SENT
    then show ?thesis using safe_syn_sent [OF env s TCP_SYN_SENT seg, of iph payload] s by (auto simp: process_state_def Let_def)
  next
    case TCP_ESTABLISHED
    then have "ack_covered k tcph" using seg by (simp add: segment_ok_def ack_covered_def active_def)
    then show ?thesis using safe_established [OF env s, of tcph iph payload False] TCP_ESTABLISHED s by (auto simp: process_state_def Let_def)
  next
    case TCP_CLOSE_WAIT
    then have "ack_covered k tcph" by (simp add: ack_covered_def)
    then show ?thesis using safe_established [OF env s, of tcph iph payload False] TCP_CLOSE_WAIT s by (auto simp: process_state_def Let_def)
  next
    case TCP_LAST_ACK
    show ?thesis
    proof (cases "th_flags tcph AND TCP_FLAG_ACK \<noteq> 0 \<and> ntohl (th_ackno tcph) = sk_seqno k + 1")
      case True
      have "safe tidy c (\<lambda>s. do { s \<leftarrow> upd_sock c (\<lambda>k. k\<lparr>sk_state := TCP_CLOSED\<rparr>) s; ext_closedone env c s })"
        using env by (intro safe_rules safe_upd_inactive safe_upcall) (simp_all add: active_def env_ok_def)
      from this s obtain s1 where "(do { s \<leftarrow> upd_sock c (\<lambda>k. k\<lparr>sk_state := TCP_CLOSED\<rparr>) s; ext_closedone env c s }) = Some s1" "keeps tidy s s1"
        by (rule safeE)
      then show ?thesis using True TCP_LAST_ACK s by (simp add: process_state_def Let_def)
    next
      case False
      then show ?thesis using fw TCP_LAST_ACK s by (auto simp: process_state_def Let_def)
    qed
  next
    case TCP_FIN_WAIT_1
    then show ?thesis using fw s by (auto simp: process_state_def Let_def)
  next
    case TCP_FIN_WAIT_2
    have "safe tidy c (\<lambda>s. do { s \<leftarrow> upd_sock c (\<lambda>k. k\<lparr>sk_seqno := sk_seqno k + 1, sk_state := TCP_TIME_WAIT, retx := TCPLIB_TIMEWAIT_LEN\<rparr>) s;
            tcplib_send_ack env c False TCP_FLAG_ACK s })"
      by (intro safe_rules safe_upd_inactive) (simp add: active_def)
    from this s obtain s1 where "(do { s \<leftarrow> upd_sock c (\<lambda>k. k\<lparr>sk_seqno := sk_seqno k + 1, sk_state := TCP_TIME_WAIT, retx := TCPLIB_TIMEWAIT_LEN\<rparr>) s;
            tcplib_send_ack env c False TCP_FLAG_ACK s }) = Some s1" "keeps tidy s s1" by (rule safeE)
    then show ?thesis using TCP_FIN_WAIT_2 s by (cases "th_flags tcph AND TCP_FLAG_FIN = 0") (simp_all add: process_state_def Let_def)
  next
    case TCP_CLOSING then show ?thesis using s by (simp add: process_state_def Let_def)
  next
    case TCP_TIME_WAIT
    from safe_process_ack [OF env] s obtain s1 where "process_ack env c iph tcph s = Some s1" "keeps tidy s s1" by (rule safeE)
    then show ?thesis using TCP_TIME_WAIT s by (simp add: process_state_def Let_def)
  qed
qed

section \<open>The timer\<close>

lemma safe_retx_state:
  assumes env: "env_ok tidy env"
  shows "safe tidy c (retx_state env c)"
proof (rule safeI)
  fix s k assume s: "tcp_inv s" "socks s c = Some k"
  have up: "safe tidy c (upd_sock c (\<lambda>k. k\<lparr>retx := n\<rparr>))" "safe tidy c (upd_sock c (\<lambda>k. k\<lparr>retxcnt := retxcnt k - 1\<rparr>))" for n
    by (rule safe_upd_same, simp add: same_tx_def)+
  have ack: "\<exists>s'. (do { s \<leftarrow> tcplib_send_ack env c fin fl s; upd_sock c (\<lambda>k. k\<lparr>retx := n\<rparr>) s }) = Some s' \<and> keeps tidy s s'" for fin fl n
    using safe_bind [OF safe_send_ack up(1)] s unfolding safe_def by blast
  have cl: "\<exists>s'. (do { s \<leftarrow> upd_sock c (\<lambda>k. k\<lparr>sk_state := TCP_CLOSED\<rparr>) s; ext_closedone env c s }) = Some s' \<and> keeps tidy s s'"
  proof -
    have "safe tidy c (\<lambda>s. do { s \<leftarrow> upd_sock c (\<lambda>k. k\<lparr>sk_state := TCP_CLOSED\<rparr>) s; ext_closedone env c s })"
      using env by (intro safe_rules safe_upd_inactive safe_upcall) (simp_all add: active_def env_ok_def)
    then show ?thesis using s unfolding safe_def by blast
  qed
  have est: "\<exists>s'. retx_state env c s = Some s' \<and> keeps tidy s s'" if st: "sk_state k = TCP_ESTABLISHED"
  proof -
    have ac: "active k" using st by (simp add: active_def)
    obtain p b where b: "tx_buf k = Some p" "tx_bufs s p = Some b" "get_buf c s = Some b" using active_buf [OF s ac] by blast
    show ?thesis
    proof (cases "head_seqno b = sk_seqno k")
      case True
      then show ?thesis using up(2) s st b(3) unfolding safe_def by (simp add: retx_state_def circ_get_seqno_def)
    next
      case False
      obtain f where f: "\<And>k. same_tx k (f k)" "reset_ssthresh c = upd_sock c f" using reset_ssthresh_upd by blast
      have g: "same_tx k (k\<lparr>cwnd := ONE_SEGMENT k\<rparr>)" for k by (simp add: same_tx_def)
      obtain s1 where 1: "upd_sock c f s = Some s1" "keeps tidy s s1" "socks s1 c = Some (f k)" "tx_buf (f k) = Some p"
        "tx_bufs s1 p = Some b" "active (f k)" using upd_same_buf [OF s b(1,2) f(1)] ac by blast
      let ?g = "\<lambda>k. k\<lparr>cwnd := ONE_SEGMENT k\<rparr>"
      obtain s2 where 2: "upd_sock c ?g s1 = Some s2" "keeps tidy s1 s2" "socks s2 c = Some (?g (f k))" "tx_buf (?g (f k)) = Some p"
        "tx_bufs s2 p = Some b" "active (?g (f k))"
        using upd_same_buf [OF keepsD(1) [OF 1(2)] 1(3,4,5) g] 1(6) by blast
      obtain s3 rc where 3: "tcplib_output env c (head_seqno b) s2 = Some (s3, rc)" "keeps tidy s2 s3"
        using safe_output [OF keepsD(1) [OF 2(2)] 2(3,6,4,5)] by blast
      obtain k3 where k3: "socks s3 c = Some k3" using keepsD(2) [OF 3(2) 2(3)] by blast
      from up(1) [of 6] keepsD(1) [OF 3(2)] k3 obtain s4 where 4: "upd_sock c (\<lambda>k. k\<lparr>retx := 6\<rparr>) s3 = Some s4" "keeps tidy s3 s4"
        by (rule safeE)
      have "keeps tidy s s4" using 1(2) 2(2) 3(2) 4(2) keeps_trans by blast
      then show ?thesis using s(2) st b(3) False 1(1) 2(1) 3(1) 4(1) f(2) by (simp add: retx_state_def circ_get_seqno_def)
    qed
  qed
  show "\<exists>s'. retx_state env c s = Some s' \<and> keeps tidy s s'"
    using est ack cl s by (cases "sk_state k") (simp_all add: retx_state_def)
qed

lemma safe_timer_tick:
  assumes env: "env_ok tidy env"
  shows "safe tidy c (timer_tick env c)"
proof -
  let ?tw = "\<lambda>k. k\<lparr>sk_state := TCP_TIME_WAIT, retx := TCPLIB_TIMEWAIT_LEN\<rparr>"
  have e: "safe tidy c (tcplib_retx_expire env c)"
    unfolding tcplib_retx_expire_def
    by (intro safe_rules safe_upd_same safe_retx_state [OF env] safe_upd_inactive) (simp_all add: same_tx_def active_def)
  have "safe tidy c (\<lambda>s. do { s \<leftarrow> (do { k \<leftarrow> socks s c; (if retx k > 0 then do {
        s \<leftarrow> upd_sock c (\<lambda>k. k\<lparr>retx := retx k - 1\<rparr>) s;
        (if retx k - 1 = 0 then tcplib_retx_expire env c s else Some s) }
      else Some s) });
     k \<leftarrow> socks s c;
     (if sk_flags k AND TCP_ACKPENDING \<ge> 2 then tcplib_send_ack env c False TCP_FLAG_ACK s else Some s) })"
    by (intro safe_rules safe_upd_same e) (simp add: same_tx_def)
  moreover have "timer_tick env c = (\<lambda>s. do { s \<leftarrow> (do { k \<leftarrow> socks s c; (if retx k > 0 then do {
        s \<leftarrow> upd_sock c (\<lambda>k. k\<lparr>retx := retx k - 1\<rparr>) s;
        (if retx k - 1 = 0 then tcplib_retx_expire env c s else Some s) }
      else Some s) });
     k \<leftarrow> socks s c;
     (if sk_flags k AND TCP_ACKPENDING \<ge> 2 then tcplib_send_ack env c False TCP_FLAG_ACK s else Some s) })"
    by (rule ext) (simp add: timer_tick_def)
  ultimately show ?thesis by simp
qed

lemma safe_timer_from:
  assumes env: "env_ok tidy env"
  shows "tcp_inv s \<Longrightarrow> \<forall>c\<in>set cs. socks s c \<noteq> None \<Longrightarrow> \<exists>s'. timer_from env cs s = Some s' \<and> keeps tidy s s'"
proof (induction cs arbitrary: s)
  case Nil then show ?case by simp
next
  case (Cons c cs)
  then obtain k where k: "socks s c = Some k" by auto
  from safe_timer_tick [OF env] Cons.prems(1) k obtain s1 where 1: "timer_tick env c s = Some s1" "keeps tidy s s1" by (rule safeE)
  have "\<forall>d\<in>set cs. socks s1 d \<noteq> None" using Cons.prems(2) 1(2) by (auto simp: keeps_def)
  from Cons.IH [OF keepsD(1) [OF 1(2)] this] 1 show ?case using keeps_trans [OF 1(2)] by auto
qed

end
