(* ===== verification/Coap_Uri.thy ===== *)
theory Coap_Uri
  imports Backip_Prelude
begin

text \<open>
  URIs of the CoAP library (\<open>uri.c\<close>, \<open>str.h\<close>).  A \<open>str\<close> is a length and a pointer; the
  pointers of one URI object lead into one block of memory, so a pointer is an offset into the
  memory that goes with the object.  \<open>malloc\<close> is an argument: it answers a size with a block of
  that size, of any contents, or with nothing.
\<close>

section \<open>The code\<close>

record str =
  st_length :: u32
  st_s :: "nat option"

record coap_uri =
  uri_na :: str
  uri_path :: str
  uri_query :: str

definition null_str :: str where
  "null_str = \<lparr>st_length = 0, st_s = None\<rparr>"

definition null_uri :: coap_uri where
  "null_uri = \<lparr>uri_na = null_str, uri_path = null_str, uri_query = null_str\<rparr>"

definition COAP_SET_STR :: "u32 \<Rightarrow> nat \<Rightarrow> str" where
  "COAP_SET_STR l v = \<lparr>st_length = l, st_s = Some v\<rparr>"

definition SIZEOF_URI :: u32 where "SIZEOF_URI = 24"

definition malloc_spec :: "(u32 \<Rightarrow> mem option) \<Rightarrow> bool" where
  "malloc_spec malloc \<longleftrightarrow> (\<forall>n b. malloc n = Some b \<longrightarrow> length b = unat n)"

text \<open>\<open>isalnum\<close> in the C locale, and the loops \<open>while (P(*p)) ++p\<close>, of which \<open>strlen\<close> is one.\<close>

definition isalnum :: "u8 \<Rightarrow> bool" where
  "isalnum c \<longleftrightarrow> (48 \<le> c \<and> c \<le> 57) \<or> (65 \<le> c \<and> c \<le> 90) \<or> (97 \<le> c \<and> c \<le> 122)"

function scan :: "(u8 \<Rightarrow> bool) \<Rightarrow> mem \<Rightarrow> nat \<Rightarrow> nat option" where
  "scan P m p = do { b \<leftarrow> rd m p; if P b then scan P m (p + 1) else Some p }"
  by pat_completeness auto
termination
  by (relation "measure (\<lambda>(_, m, p). length m - p)") (auto simp: rd_def split: if_splits)

declare scan.simps [simp del]

definition strlen :: "mem \<Rightarrow> nat \<Rightarrow> u32 option" where
  "strlen m p = do { q \<leftarrow> scan (\<lambda>c. c \<noteq> 0) m p; Some (of_nat (q - p)) }"

definition COAP_DEFAULT_SCHEME :: "u8 list" where "COAP_DEFAULT_SCHEME = [99, 111, 97, 112]"

definition starts_slashes :: "mem \<Rightarrow> nat \<Rightarrow> bool option" where
  "starts_slashes m p =
     do { b \<leftarrow> rd m p;
          if b \<noteq> 47 then Some False else do { c \<leftarrow> rd m (p + 1); Some (c = 47) } }"

text \<open>The scheme and the network authority: the result is the position of the path, or nothing
  when the scheme is refused.\<close>

definition split_scheme :: "mem \<Rightarrow> nat \<Rightarrow> coap_uri \<Rightarrow> (mem \<times> coap_uri \<times> nat option) option" where
  "split_scheme m s u =
     do { p \<leftarrow> scan isalnum m s;
          c \<leftarrow> rd m p;
          if c \<noteq> 58 then Some (m, u, Some s)
          else do {
            let n = min (p - s) (length COAP_DEFAULT_SCHEME);
            w \<leftarrow> rdn m s n;
            if w \<noteq> take n COAP_DEFAULT_SCHEME then Some (m, u, None)
            else do {
              m \<leftarrow> wr m p 0;
              let p = p + 1;
              na \<leftarrow> starts_slashes m p;
              if na then do {
                let p = p + 2;
                q \<leftarrow> scan (\<lambda>c. c \<noteq> 0 \<and> c \<noteq> 47 \<and> c \<noteq> 63) m p;
                Some (m, u\<lparr>uri_na := COAP_SET_STR (of_nat (q - p)) p\<rparr>, Some q) }
              else Some (m, u, Some p) } } }"

definition split_query :: "mem \<Rightarrow> nat \<Rightarrow> coap_uri \<Rightarrow> (mem \<times> coap_uri) option" where
  "split_query m s u =
     do { c \<leftarrow> rd m s;
          if c = 63 then do {
            m \<leftarrow> wr m s 0;
            let s = s + 1;
            c \<leftarrow> rd m s;
            if c \<noteq> 0 then do { l \<leftarrow> strlen m s; Some (m, u\<lparr>uri_query := COAP_SET_STR l s\<rparr>) }
            else Some (m, u) }
          else Some (m, u) }"

definition split_path :: "mem \<Rightarrow> nat \<Rightarrow> coap_uri \<Rightarrow> (mem \<times> coap_uri) option" where
  "split_path m s u =
     do { c \<leftarrow> rd m s;
          if c = 0 then Some (m, u)
          else do {
            (m, s, u) \<leftarrow> (if c \<noteq> 63 then do {
                (m, s) \<leftarrow> (if c = 47 then do { m \<leftarrow> wr m s 0; Some (m, s + 1) } else Some (m, s));
                Some (m, s, u\<lparr>uri_path := (uri_path u)\<lparr>st_s := Some s\<rparr>\<rparr>) }
              else Some (m, s, u));
            s \<leftarrow> scan (\<lambda>c. c \<noteq> 0 \<and> c \<noteq> 63) m s;
            (m, u) \<leftarrow> split_query m s u;
            case st_s (uri_path u) of None \<Rightarrow> Some (m, u)
            | Some p \<Rightarrow> do { l \<leftarrow> strlen m p; Some (m, u\<lparr>uri_path := (uri_path u)\<lparr>st_length := l\<rparr>\<rparr>) } } }"

definition coap_split_uri :: "mem \<Rightarrow> nat option \<Rightarrow> coap_uri option \<Rightarrow> (mem \<times> coap_uri option \<times> int) option" where
  "coap_split_uri m str_var uri =
     (case (str_var, uri) of
        (Some s, Some _) \<Rightarrow>
          do { (m, u, s) \<leftarrow> split_scheme m s null_uri;
               case s of None \<Rightarrow> Some (m, Some u, -1)
               | Some s \<Rightarrow> do { (m, u) \<leftarrow> split_path m s u; Some (m, Some u, 0) } }
      | _ \<Rightarrow> Some (m, uri, -1))"

text \<open>A URI object with its storage: the size of the block is computed in 32 bits, and the
  storage is what follows the object itself.\<close>

definition coap_new_uri :: "(u32 \<Rightarrow> mem option) \<Rightarrow> mem \<Rightarrow> u32 \<Rightarrow> (mem \<times> coap_uri) option option" where
  "coap_new_uri malloc uri len =
     (case malloc (len + 1 + SIZEOF_URI) of None \<Rightarrow> Some None
      | Some blk \<Rightarrow>
          if length blk < unat SIZEOF_URI then None
          else do {
            let d = drop (unat SIZEOF_URI) blk;
            bs \<leftarrow> rdn uri 0 (unat len);
            d \<leftarrow> wrn d 0 bs;
            d \<leftarrow> wr d (unat len) 0;
            (d, u, r) \<leftarrow> coap_split_uri d (Some 0) (Some null_uri);
            u \<leftarrow> u;
            Some (Some (d, u)) })"

text \<open>One of the three parts is copied behind the others.\<close>

definition clone_part :: "mem \<Rightarrow> str \<Rightarrow> nat \<Rightarrow> mem \<Rightarrow> (mem \<times> str) option" where
  "clone_part src x at d =
     (if st_length x \<noteq> 0 then do {
        p \<leftarrow> st_s x;
        bs \<leftarrow> rdn src p (unat (st_length x));
        d \<leftarrow> wrn d at bs;
        Some (d, \<lparr>st_length = st_length x, st_s = Some at\<rparr>) }
      else Some (d, null_str))"

definition coap_clone_uri ::
  "(u32 \<Rightarrow> mem option) \<Rightarrow> mem \<Rightarrow> coap_uri option \<Rightarrow> (mem \<times> coap_uri) option option" where
  "coap_clone_uri malloc src uri =
     (case uri of None \<Rightarrow> Some None
      | Some u \<Rightarrow>
          (case malloc (st_length (uri_query u) + st_length (uri_na u) + st_length (uri_path u) + SIZEOF_URI + 1) of
             None \<Rightarrow> Some None
           | Some blk \<Rightarrow>
               if length blk < unat SIZEOF_URI then None
               else do {
                 let d = drop (unat SIZEOF_URI) blk;
                 (d, na) \<leftarrow> clone_part src (uri_na u) 0 d;
                 (d, path) \<leftarrow> clone_part src (uri_path u) (unat (st_length (uri_na u))) d;
                 (d, query) \<leftarrow> clone_part src (uri_query u)
                     (unat (st_length (uri_na u)) + unat (st_length (uri_path u))) d;
                 Some (Some (d, \<lparr>uri_na = na, uri_path = path, uri_query = query\<rparr>)) }))"

section \<open>Splitting\<close>

text \<open>The bytes a \<open>str\<close> stands for.\<close>

definition str_bytes :: "mem \<Rightarrow> str \<Rightarrow> u8 list" where
  "str_bytes m x = (case st_s x of None \<Rightarrow> [] | Some p \<Rightarrow> take (unat (st_length x)) (drop p m))"

text \<open>A URI as text: an optional authority behind \<open>coap://\<close>, an optional path behind a slash and
  an optional query behind a question mark.\<close>

definition opt_text :: "u8 list \<Rightarrow> u8 list option \<Rightarrow> u8 list" where
  "opt_text pre x = (case x of None \<Rightarrow> [] | Some t \<Rightarrow> pre @ t)"

definition path_query :: "u8 list option \<Rightarrow> u8 list option \<Rightarrow> u8 list" where
  "path_query path query = opt_text [47] path @ opt_text [63] query"

definition uri_text :: "u8 list option \<Rightarrow> u8 list option \<Rightarrow> u8 list option \<Rightarrow> u8 list" where
  "uri_text na path query =
     opt_text (COAP_DEFAULT_SCHEME @ [58, 47, 47]) na @ path_query path query"

definition part :: "u8 list option \<Rightarrow> u8 list" where
  "part x = (case x of None \<Rightarrow> [] | Some t \<Rightarrow> t)"

lemma scan_stop: "has_at m p (xs @ b # ys) \<Longrightarrow> (\<And>x. x \<in> set xs \<Longrightarrow> P x) \<Longrightarrow> \<not> P b \<Longrightarrow>
    scan P m p = Some (p + length xs)"
  by (induction xs arbitrary: p) (subst scan.simps; auto simp: rd_has_at has_at_Cons)+

lemma strlen_has_at: "has_at m p (xs @ 0 # ys) \<Longrightarrow> 0 \<notin> set xs \<Longrightarrow> strlen m p = Some (of_nat (length xs))"
proof -
  assume h: "has_at m p (xs @ 0 # ys)" and z: "0 \<notin> set xs"
  have "scan (\<lambda>c. c \<noteq> 0) m p = Some (p + length xs)"
    using z by (intro scan_stop [OF h]) auto
  then show ?thesis by (simp add: strlen_def)
qed

lemma has_at_iff: "has_at m p xs \<longleftrightarrow> p + length xs \<le> length m \<and> (\<forall>i < length xs. m ! (p + i) = xs ! i)"
  by (auto simp: has_at_def list_eq_iff_nth_eq)

lemma str_bytes_has_at:
  assumes "has_at m p xs" "length xs < 2 ^ 32"
  shows "str_bytes m \<lparr>st_length = of_nat (length xs), st_s = Some p\<rparr> = xs"
proof -
  have "unat (of_nat (length xs) :: u32) = length xs"
    using assms(2) by (simp add: unsigned_of_nat take_bit_nat_eq_self)
  then show ?thesis using assms(1) by (simp add: str_bytes_def has_at_def)
qed

lemma has_at_update: "has_at m p xs \<Longrightarrow> q < p \<or> p + length xs \<le> q \<Longrightarrow> has_at (m[q := v]) p xs"
  by (auto simp: has_at_iff nth_list_update)

lemma has_at_prefix: "has_at m p (xs @ ys) \<Longrightarrow> has_at m p xs"
  by (simp add: has_at_append)

lemma str_bytes_null [simp]: "str_bytes m null_str = []"
  by (simp add: str_bytes_def null_str_def)

lemma split_query_text:
  assumes h: "has_at m s (opt_text [63] query @ [0])" and z: "0 \<notin> set (part query)"
    and l: "length (part query) < 2 ^ 32" and u: "uri_query u = null_str"
  shows "\<exists>x. split_query m s u = Some (m[s := 0], u\<lparr>uri_query := x\<rparr>) \<and> str_bytes (m[s := 0]) x = part query"
proof (cases "query = None \<or> query = Some []")
  case True
  then show ?thesis
  proof
    assume "query = None"
    with h have "s < length m" "m ! s = 0" by (auto simp: opt_text_def has_at_Cons)
    then have "split_query m s u = Some (m[s := 0], u\<lparr>uri_query := null_str\<rparr>)"
      using u list_update_id [of m s] by (simp add: split_query_def rd_def)
    then show ?thesis using \<open>query = None\<close> by (auto simp: part_def)
  next
    assume q: "query = Some []"
    with h have "s < length m" "m ! s = 63" "s + 1 < length m" "m ! (s + 1) = 0"
      by (auto simp: opt_text_def has_at_Cons)
    then have "split_query m s u = Some (m[s := 0], u\<lparr>uri_query := null_str\<rparr>)"
      using u by (simp add: split_query_def rd_def wr_def)
    then show ?thesis using q by (auto simp: part_def)
  qed
next
  case False
  then obtain b t where q: "query = Some (b # t)" by (cases query; cases "part query") (auto simp: part_def)
  have h1: "has_at (m[s := 0]) (s + 1) ((b # t) @ 0 # [])"
    using h unfolding q opt_text_def by (intro has_at_update) (auto simp: has_at_Cons)
  have h0: "s < length m" "m ! s = 63" "s + 1 < length m" using h by (auto simp: q opt_text_def has_at_Cons)
  have b: "b \<noteq> 0" "0 \<notin> set (b # t)" using z q by (auto simp: part_def)
  have "m[s := 0] ! (s + 1) = b" using h1 by (auto simp: has_at_Cons)
  then have "split_query m s u =
      Some (m[s := 0], u\<lparr>uri_query := COAP_SET_STR (of_nat (length (b # t))) (s + 1)\<rparr>)"
    using h0 b strlen_has_at [OF h1 b(2)] by (simp add: split_query_def rd_def wr_def)
  moreover have "str_bytes (m[s := 0]) (COAP_SET_STR (of_nat (length (b # t))) (s + 1)) = part query"
    unfolding COAP_SET_STR_def using has_at_prefix [OF h1] l by (subst str_bytes_has_at) (auto simp: q part_def)
  ultimately show ?thesis by blast
qed

lemma split_path_text:
  assumes h: "has_at m s (path_query path query @ [0])"
    and zp: "0 \<notin> set (part path)" "63 \<notin> set (part path)" and zq: "0 \<notin> set (part query)"
    and l: "length (part path) < 2 ^ 32" "length (part query) < 2 ^ 32"
    and u: "uri_path u = null_str" "uri_query u = null_str"
  shows "\<exists>m' xp xq. split_path m s u = Some (m', u\<lparr>uri_path := xp, uri_query := xq\<rparr>) \<and>
    str_bytes m' xp = part path \<and> str_bytes m' xq = part query \<and> take s m' = take s m"
proof (cases path)
  case None
  show ?thesis
  proof (cases query)
    case None2: None
    have "split_path m s u = Some (m, u\<lparr>uri_path := null_str, uri_query := null_str\<rparr>)"
      using h u by (simp add: path_query_def opt_text_def None None2 split_path_def rd_has_at)
    then show ?thesis
      by (intro exI [of _ m] exI [of _ null_str]) (simp add: None None2 part_def)
  next
    case (Some t)
    have h0: "has_at m s (opt_text [63] query @ [0])" using h by (simp add: None path_query_def opt_text_def)
    obtain x where x: "split_query m s u = Some (m[s := 0], u\<lparr>uri_query := x\<rparr>)"
        "str_bytes (m[s := 0]) x = part query"
      using split_query_text [OF h0 zq l(2) u(2)] by blast
    have c: "rd m s = Some 63" using h0 by (auto simp: Some opt_text_def rd_has_at)
    have "scan (\<lambda>c. c \<noteq> 0 \<and> c \<noteq> 63) m s = Some s" using c by (subst scan.simps) simp
    then have "split_path m s u = Some (m[s := 0], u\<lparr>uri_path := null_str, uri_query := x\<rparr>)"
      using c x(1) u by (simp add: split_path_def null_str_def)
    then show ?thesis using x(2)
      by (intro exI [of _ "m[s := 0]"] exI [of _ null_str] exI [of _ x]) (simp add: None part_def)
  qed
next
  case (Some t)
  define q where "q = s + 1 + length t"
  have c: "rd m s = Some 47" "s < length m" and hr: "has_at m (s + 1) (t @ opt_text [63] query @ [0])"
    using h by (auto simp: Some path_query_def opt_text_def has_at_Cons rd_def)
  define m1 where "m1 = m[s := 0]"
  have h1: "has_at m1 (s + 1) (t @ opt_text [63] query @ [0])"
    unfolding m1_def by (rule has_at_update [OF hr]) simp
  obtain b ys where bys: "opt_text [63] query @ [0] = b # ys" "\<not> (b \<noteq> 0 \<and> b \<noteq> 63)"
    by (cases query) (auto simp: opt_text_def)
  have sc: "scan (\<lambda>c. c \<noteq> 0 \<and> c \<noteq> 63) m1 (s + 1) = Some q"
    unfolding q_def using h1 zp bys by (intro scan_stop [of _ _ _ b ys]) (auto simp: Some part_def)
  have h2: "has_at m1 q (opt_text [63] query @ [0])" using h1 by (simp add: has_at_append q_def)
  define u1 where "u1 = u\<lparr>uri_path := (uri_path u)\<lparr>st_s := Some (s + 1)\<rparr>\<rparr>"
  have u1: "uri_query u1 = null_str" using u by (simp add: u1_def)
  obtain x where x: "split_query m1 q u1 = Some (m1[q := 0], u1\<lparr>uri_query := x\<rparr>)"
      "str_bytes (m1[q := 0]) x = part query"
    using split_query_text [OF h2 zq l(2) u1] by blast
  have h3: "has_at (m1[q := 0]) (s + 1) (t @ 0 # [])"
  proof -
    have "q < length m1" using h2 by (auto simp: has_at_append has_at_iff bys(1))
    moreover have "has_at (m1[q := 0]) (s + 1) t"
      using h1 by (intro has_at_update) (auto simp: has_at_append q_def)
    ultimately show ?thesis by (simp add: has_at_append has_at_Cons q_def)
  qed
  have sl: "strlen (m1[q := 0]) (s + 1) = Some (of_nat (length t))"
    using h3 zp by (intro strlen_has_at) (auto simp: Some part_def)
  have "split_path m s u = Some (m1[q := 0], u\<lparr>uri_path := COAP_SET_STR (of_nat (length t)) (s + 1), uri_query := x\<rparr>)"
    using c sc x(1) sl u unfolding u1_def m1_def
    by (simp add: split_path_def wr_def COAP_SET_STR_def null_str_def)
  moreover have "str_bytes (m1[q := 0]) (COAP_SET_STR (of_nat (length t)) (s + 1)) = part path"
    unfolding COAP_SET_STR_def using has_at_prefix [OF h3] l(1)
    by (subst str_bytes_has_at) (auto simp: Some part_def)
  moreover have "take s (m1[q := 0]) = take s m" by (simp add: m1_def q_def)
  ultimately show ?thesis using x(2) by blast
qed

lemma split_scheme_none:
  assumes h: "has_at m s (path_query path query @ [0])"
  shows "split_scheme m s u = Some (m, u, Some s)"
proof -
  obtain b ys where b: "path_query path query @ [0] = b # ys" "b = 0 \<or> b = 47 \<or> b = 63"
    by (cases path; cases query) (auto simp: path_query_def opt_text_def)
  have "\<not> isalnum b" "b \<noteq> 58" using b(2) by (auto simp: isalnum_def)
  moreover have "rd m s = Some b" using h b(1) by (simp add: rd_has_at)
  ultimately show ?thesis by (simp add: split_scheme_def scan.simps [of isalnum m s])
qed

lemma length_scheme [simp]: "length COAP_DEFAULT_SCHEME = 4"
  by (simp add: COAP_DEFAULT_SCHEME_def)

lemma has_at_scheme:
  assumes "has_at m s (COAP_DEFAULT_SCHEME @ [58, 47, 47] @ xs)"
  shows "has_at m s COAP_DEFAULT_SCHEME" "m ! (s + 4) = 58" "s + 4 < length m"
    "has_at m (s + 5) ([47, 47] @ xs)" "has_at m (s + 7) xs"
proof -
  have n: "Suc (s + 4) = s + 5" "Suc (s + 5) = s + 6" "Suc (s + 6) = s + 7" by simp_all
  have "has_at m s COAP_DEFAULT_SCHEME" and t: "has_at m (s + 4) (58 # 47 # 47 # xs)"
    using assms by (simp_all add: has_at_append)
  then show "has_at m s COAP_DEFAULT_SCHEME" "m ! (s + 4) = 58" "s + 4 < length m"
    "has_at m (s + 5) ([47, 47] @ xs)" "has_at m (s + 7) xs"
    by (simp_all only: has_at_Cons n append.simps simp_thms)
qed

lemma split_scheme_na:
  assumes h: "has_at m s (COAP_DEFAULT_SCHEME @ [58, 47, 47] @ a @ path_query path query @ [0])"
    and z: "0 \<notin> set a" "47 \<notin> set a" "63 \<notin> set a"
  shows "split_scheme m s u =
    Some (m[s + 4 := 0], u\<lparr>uri_na := COAP_SET_STR (of_nat (length a)) (s + 7)\<rparr>, Some (s + 7 + length a))"
proof -
  obtain b ys where b: "path_query path query @ [0] = b # ys" "b = 0 \<or> b = 47 \<or> b = 63"
    by (cases path; cases query) (auto simp: path_query_def opt_text_def)
  have "scan isalnum m s = Some (s + length COAP_DEFAULT_SCHEME)"
    using h by (intro scan_stop [of _ _ _ 58 "[47, 47] @ a @ b # ys"])
      (auto simp: b(1) COAP_DEFAULT_SCHEME_def isalnum_def)
  then have sc: "scan isalnum m s = Some (s + 4)" by simp
  have colon: "rd m (s + 4) = Some 58" "s + 4 < length m"
    using has_at_scheme [OF h] by (simp_all add: rd_def)
  have word: "rdn m s 4 = Some COAP_DEFAULT_SCHEME"
    using rdn_has_at [OF has_at_scheme(1) [OF h]] by simp
  define m1 where "m1 = m[s + 4 := 0]"
  have h1: "has_at m1 (s + 5) ([47, 47] @ a @ b # ys)"
    using has_at_scheme(4) [OF h] unfolding m1_def b(1) by (intro has_at_update) auto
  have sl: "starts_slashes m1 (s + 5) = Some True"
    using h1 by (simp add: starts_slashes_def has_at_Cons rd_def)
  have "has_at m1 (s + 7) (a @ b # ys)" using h1 by (simp add: has_at_Cons add.commute [of s])
  then have "scan (\<lambda>c. c \<noteq> 0 \<and> c \<noteq> 47 \<and> c \<noteq> 63) m1 (s + 7) = Some (s + 7 + length a)"
    using z b(2) by (intro scan_stop [of _ _ _ b ys]) auto
  then show ?thesis
    using sc colon word sl unfolding m1_def
    by (simp add: split_scheme_def wr_def Let_def add.commute [of s])
qed

text \<open>C22: A URI text splits into the parts it was written from: for every authority without slash or
  question mark, path without question mark and query, each of them optional, \<open>coap_split_uri\<close>
  succeeds inside the memory of the string, and the authority, path and query it stores are the
  bytes of the given ones.\<close>

lemma split_uri_parts:
  assumes h: "has_at m s (uri_text na path query @ [0])" and len: "length m < 2 ^ 32"
    and zn: "0 \<notin> set (part na)" "47 \<notin> set (part na)" "63 \<notin> set (part na)"
    and zp: "0 \<notin> set (part path)" "63 \<notin> set (part path)" and zq: "0 \<notin> set (part query)"
  shows "\<exists>m' u. coap_split_uri m (Some s) (Some u0) = Some (m', Some u, 0) \<and>
    str_bytes m' (uri_na u) = part na \<and> str_bytes m' (uri_path u) = part path \<and>
    str_bytes m' (uri_query u) = part query"
proof -
  have "length (part na) + length (part path) + length (part query) \<le> length (uri_text na path query)"
    by (cases na; cases path; cases query) (auto simp: part_def uri_text_def path_query_def opt_text_def)
  then have l: "length (part na) < 2 ^ 32" "length (part path) < 2 ^ 32" "length (part query) < 2 ^ 32"
    using has_at_len [OF h] len by auto
  note path = split_path_text [OF _ zp zq l(2,3)]
  show ?thesis
  proof (cases na)
    case None
    then have h0: "has_at m s (path_query path query @ [0])" using h by (simp add: uri_text_def opt_text_def)
    obtain m' xp xq where r: "split_path m s null_uri = Some (m', null_uri\<lparr>uri_path := xp, uri_query := xq\<rparr>)"
        "str_bytes m' xp = part path" "str_bytes m' xq = part query"
      using path [OF h0, of null_uri] by (auto simp: null_uri_def)
    have "coap_split_uri m (Some s) (Some u0) = Some (m', Some (null_uri\<lparr>uri_path := xp, uri_query := xq\<rparr>), 0)"
      using split_scheme_none [OF h0] r(1) by (simp add: coap_split_uri_def)
    then show ?thesis using r(2,3) by (simp add: None part_def null_uri_def)
  next
    case (Some a)
    have h0: "has_at m s (COAP_DEFAULT_SCHEME @ [58, 47, 47] @ a @ path_query path query @ [0])"
      using h by (simp add: Some uri_text_def opt_text_def)
    define m1 where "m1 = m[s + 4 := 0]"
    define u1 where "u1 = null_uri\<lparr>uri_na := COAP_SET_STR (of_nat (length a)) (s + 7)\<rparr>"
    have sch: "split_scheme m s null_uri = Some (m1, u1, Some (s + 7 + length a))"
      unfolding m1_def u1_def using zn by (intro split_scheme_na [OF h0]) (auto simp: Some part_def)
    have ha: "has_at m1 (s + 7) (a @ path_query path query @ [0])"
      using has_at_scheme(5) [OF h0] unfolding m1_def by (intro has_at_update) auto
    then have h1: "has_at m1 (s + 7 + length a) (path_query path query @ [0])" by (simp add: has_at_append)
    have u1: "uri_path u1 = null_str" "uri_query u1 = null_str" by (simp_all add: u1_def null_uri_def)
    obtain m' xp xq where r: "split_path m1 (s + 7 + length a) u1 = Some (m', u1\<lparr>uri_path := xp, uri_query := xq\<rparr>)"
        "str_bytes m' xp = part path" "str_bytes m' xq = part query"
        "take (s + 7 + length a) m' = take (s + 7 + length a) m1"
      using path [OF h1 u1] by blast
    have spl: "coap_split_uri m (Some s) (Some u0) = Some (m', Some (u1\<lparr>uri_path := xp, uri_query := xq\<rparr>), 0)"
      using sch r(1) by (simp add: coap_split_uri_def)
    have "length a < 2 ^ 32" using l(1) by (simp add: Some part_def)
    then have ul: "unat (of_nat (length a) :: u32) = length a"
      by (simp add: unsigned_of_nat take_bit_nat_eq_self)
    have "take (length a) (drop (s + 7) m') = drop (s + 7) (take (s + 7 + length a) m')"
      by (simp add: drop_take)
    also have "\<dots> = take (length a) (drop (s + 7) m1)" unfolding r(4) by (simp add: drop_take)
    also have "\<dots> = a" using has_at_prefix [OF ha] by (simp add: has_at_def)
    finally have "str_bytes m' (uri_na u1) = a"
      by (simp only: str_bytes_def u1_def COAP_SET_STR_def null_uri_def coap_uri.simps str.simps ul option.case)
    then show ?thesis using spl r(2,3) by (simp add: Some part_def)
  qed
qed

definition demo_uri :: "u8 list" where
  "demo_uri = uri_text (Some [104]) (Some [115]) (Some [102, 61, 49])"

lemma split_uri_parts_witness:
  "\<exists>m' u. coap_split_uri (demo_uri @ [0]) (Some 0) (Some null_uri) = Some (m', Some u, 0) \<and>
     str_bytes m' (uri_na u) = [104] \<and> str_bytes m' (uri_path u) = [115] \<and>
     str_bytes m' (uri_query u) = [102, 61, 49]"
  using split_uri_parts [of "demo_uri @ [0]" 0 "Some [104]" "Some [115]" "Some [102, 61, 49]" null_uri]
  by (simp add: demo_uri_def part_def has_at_def) (simp add: uri_text_def opt_text_def path_query_def COAP_DEFAULT_SCHEME_def)

section \<open>Copies\<close>

definition str_ok :: "mem \<Rightarrow> str \<Rightarrow> bool" where
  "str_ok m x \<longleftrightarrow> (case st_s x of None \<Rightarrow> st_length x = 0 | Some p \<Rightarrow> p + unat (st_length x) \<le> length m)"

lemma length_str_bytes: "str_ok m x \<Longrightarrow> length (str_bytes m x) = unat (st_length x)"
  by (auto simp: str_ok_def str_bytes_def split: option.splits)

lemma clone_part_copies:
  assumes "str_ok src x" "at + unat (st_length x) \<le> length d"
  shows "\<exists>y. clone_part src x at d = Some (put d at (str_bytes src x), y) \<and>
    (\<forall>m. has_at m at (str_bytes src x) \<longrightarrow> str_bytes m y = str_bytes src x)"
proof (cases "st_length x = 0")
  case True
  then have "str_bytes src x = []" by (simp add: str_bytes_def split: option.split)
  then show ?thesis using True by (intro exI [of _ null_str]) (simp add: clone_part_def)
next
  case False
  then obtain p where p: "st_s x = Some p" "p + unat (st_length x) \<le> length src"
    using assms(1) by (auto simp: str_ok_def split: option.splits)
  have "rdn src p (unat (st_length x)) = Some (str_bytes src x)"
    using p by (simp add: rdn_def str_bytes_def)
  moreover have "wrn d at (str_bytes src x) = Some (put d at (str_bytes src x))"
    using assms by (intro wrn_Some) (simp add: length_str_bytes)
  ultimately show ?thesis
    using False p length_str_bytes [OF assms(1)]
    by (intro exI [of _ "\<lparr>st_length = st_length x, st_s = Some at\<rparr>"])
      (simp add: clone_part_def str_bytes_def has_at_def)
qed

text \<open>\<open>coap_clone_uri\<close> either finds no memory or returns an object whose authority, path and
  query are byte for byte those of the original, with every write inside the new block, as long
  as the three lengths and the object fit 32 bits.\<close>

lemma clone_uri_copies:
  assumes spec: "malloc_spec malloc"
    and ok: "str_ok src (uri_na u)" "str_ok src (uri_path u)" "str_ok src (uri_query u)"
    and fits: "unat (st_length (uri_na u)) + unat (st_length (uri_path u)) + unat (st_length (uri_query u)) + 25 < 2 ^ 32"
  shows "coap_clone_uri malloc src (Some u) = Some None \<or>
    (\<exists>d v. coap_clone_uri malloc src (Some u) = Some (Some (d, v)) \<and>
       str_bytes d (uri_na v) = str_bytes src (uri_na u) \<and>
       str_bytes d (uri_path v) = str_bytes src (uri_path u) \<and>
       str_bytes d (uri_query v) = str_bytes src (uri_query u))"
proof -
  define sz where "sz = st_length (uri_query u) + st_length (uri_na u) + st_length (uri_path u) + SIZEOF_URI + 1"
  let ?na = "str_bytes src (uri_na u)" and ?path = "str_bytes src (uri_path u)" and ?query = "str_bytes src (uri_query u)"
  note len = ok [THEN length_str_bytes]
  have sz: "unat sz = length ?na + length ?path + length ?query + 25"
    using fits unfolding len sz_def SIZEOF_URI_def by (simp add: unat_word_ariths)
  show ?thesis
  proof (cases "malloc sz")
    case None
    then show ?thesis unfolding sz_def by (simp add: coap_clone_uri_def)
  next
    case (Some blk)
    define d where "d = drop (unat SIZEOF_URI) blk"
    have blk: "length blk = unat sz" using spec Some by (auto simp: malloc_spec_def)
    then have d: "length d = length ?na + length ?path + length ?query + 1"
      using sz by (simp add: d_def SIZEOF_URI_def)
    obtain x where x: "clone_part src (uri_na u) 0 d = Some (put d 0 ?na, x)"
        "\<forall>m. has_at m 0 ?na \<longrightarrow> str_bytes m x = ?na"
      using clone_part_copies [OF ok(1), of 0 d] d len by auto
    obtain y where y: "clone_part src (uri_path u) (length ?na) (put d 0 ?na) = Some (put (put d 0 ?na) (length ?na) ?path, y)"
        "\<forall>m. has_at m (length ?na) ?path \<longrightarrow> str_bytes m y = ?path"
      using clone_part_copies [OF ok(2), of "length ?na" "put d 0 ?na"] d len by auto
    have p2: "put (put d 0 ?na) (length ?na) ?path = put d 0 (?na @ ?path)"
      using put_put [of 0 ?na ?path d] d by simp
    obtain z where z: "clone_part src (uri_query u) (length ?na + length ?path) (put d 0 (?na @ ?path)) =
        Some (put (put d 0 (?na @ ?path)) (length ?na + length ?path) ?query, z)"
        "\<forall>m. has_at m (length ?na + length ?path) ?query \<longrightarrow> str_bytes m z = ?query"
      using clone_part_copies [OF ok(3), of "length ?na + length ?path" "put d 0 (?na @ ?path)"] d len by auto
    define r where "r = put d 0 (?na @ ?path @ ?query)"
    have p3: "put (put d 0 (?na @ ?path)) (length ?na + length ?path) ?query = r"
      using put_put [of 0 "?na @ ?path" ?query d] d by (simp add: r_def)
    have "has_at r 0 (?na @ ?path @ ?query)" unfolding r_def using d by simp
    then have at: "has_at r 0 ?na" "has_at r (length ?na) ?path" "has_at r (length ?na + length ?path) ?query"
      by (simp_all add: has_at_append)
    have "\<not> length blk < unat SIZEOF_URI" using blk sz by (simp add: SIZEOF_URI_def)
    then have "coap_clone_uri malloc src (Some u) = Some (Some (r, \<lparr>uri_na = x, uri_path = y, uri_query = z\<rparr>))"
      using Some x(1) y(1) [unfolded p2] z(1) [unfolded p3]
      unfolding len d_def sz_def by (simp add: coap_clone_uri_def)
    then show ?thesis using at x(2) y(2) z(2) by simp
  qed
qed

lemma clone_uri_copies_witness:
  "\<exists>d v. coap_clone_uri (\<lambda>n. Some (replicate (unat n) 7)) [104, 115] (Some \<lparr>uri_na = COAP_SET_STR 1 0,
      uri_path = COAP_SET_STR 1 1, uri_query = null_str\<rparr>) = Some (Some (d, v)) \<and>
     str_bytes d (uri_na v) = [104] \<and> str_bytes d (uri_path v) = [115]"
  using clone_uri_copies [of "\<lambda>n. Some (replicate (unat n) 7)" "[104, 115]"
    "\<lparr>uri_na = COAP_SET_STR 1 0, uri_path = COAP_SET_STR 1 1, uri_query = null_str\<rparr>"]
  by (auto simp: malloc_spec_def str_ok_def COAP_SET_STR_def null_str_def str_bytes_def
      coap_clone_uri_def clone_part_def SIZEOF_URI_def rdn_def wrn_def)

end
