(* ===== verification/Coap_Pdu.thy ===== *)
theory Coap_Pdu
  imports Coap_Uri
begin

text \<open>
  CoAP messages (\<open>pdu.c\<close>, \<open>pdu.h\<close>) and the variable-length integers (\<open>encode.c\<close>).  A PDU object and
  its message are one block: \<open>pdu_mem\<close> is the part of the block from \<open>hdr\<close> on, and the pointers
  \<open>data\<close> and \<open>coap_opt_t *\<close> are offsets from \<open>hdr\<close>.  The bit fields of the header and of an option
  are the bits of their bytes on the little-endian machine.
\<close>

section \<open>Variable-length integers\<close>

function coap_fls_loop :: "u32 \<Rightarrow> nat \<Rightarrow> nat" where
  "coap_fls_loop i n = (if i = 0 then n else coap_fls_loop (drop_bit 1 i) (n + 1))"
  by pat_completeness auto
termination
proof (relation "measure (\<lambda>(i, n). unat i)")
  fix i :: u32 and n :: nat assume "i \<noteq> 0"
  then have "unat i > 0" by (simp add: unat_gt_0)
  then show "((drop_bit 1 i, n + 1), i, n) \<in> measure (\<lambda>(i, n). unat i)"
    by (simp add: drop_bit_eq_div unat_div_distrib)
qed simp

declare coap_fls_loop.simps [simp del]

definition coap_fls :: "u32 \<Rightarrow> nat" where
  "coap_fls i = coap_fls_loop i 0"

fun decode_loop :: "mem \<Rightarrow> nat \<Rightarrow> nat \<Rightarrow> u32 \<Rightarrow> u32 option" where
  "decode_loop buf 0 i n = Some n" |
  "decode_loop buf (Suc k) i n = do { b \<leftarrow> rd buf i; decode_loop buf k (i + 1) (push_bit 8 n + ucast b) }"

definition coap_decode_var_bytes :: "mem \<Rightarrow> u32 \<Rightarrow> u32 option" where
  "coap_decode_var_bytes buf len = decode_loop buf (unat len) 0 0"

fun encode_loop :: "mem \<Rightarrow> nat \<Rightarrow> u32 \<Rightarrow> mem option" where
  "encode_loop buf 0 val = Some buf" |
  "encode_loop buf (Suc i) val = do { buf \<leftarrow> wr buf i (ucast (val AND 255)); encode_loop buf i (drop_bit 8 val) }"

text \<open>The variable \<open>i\<close> of the first loop is an \<open>int\<close>; it starts below \<open>2\<^sup>3\<^sup>1\<close>, so shifting it is
  shifting the unsigned number.\<close>

definition coap_encode_var_bytes :: "mem \<Rightarrow> u32 \<Rightarrow> (mem \<times> nat) option" where
  "coap_encode_var_bytes buf val =
     do { let n = coap_fls_loop (drop_bit 1 val) 0;
          buf \<leftarrow> encode_loop buf (n div 8 + 1) val;
          Some (buf, n div 8 + 1) }"

section \<open>The message\<close>

record coap_pdu =
  pdu_mem :: mem
  pdu_length :: u16
  pdu_data :: nat

definition COAP_MAX_PDU_SIZE :: nat where "COAP_MAX_PDU_SIZE = 700"
definition SIZEOF_HDR :: nat where "SIZEOF_HDR = 4"

definition COAP_OPTION_CONTENT_TYPE :: u8 where "COAP_OPTION_CONTENT_TYPE = 1"
definition COAP_OPTION_URI_AUTHORITY :: u8 where "COAP_OPTION_URI_AUTHORITY = 5"
definition COAP_OPTION_URI_PATH :: u8 where "COAP_OPTION_URI_PATH = 9"
definition COAP_OPTION_SUBSCRIPTION :: u8 where "COAP_OPTION_SUBSCRIPTION = 10"
definition COAP_OPTION_TOKEN :: u8 where "COAP_OPTION_TOKEN = 11"
definition COAP_OPTION_BLOCK :: u8 where "COAP_OPTION_BLOCK = 13"
definition COAP_OPTION_NOOP :: u8 where "COAP_OPTION_NOOP = 14"
definition COAP_OPTION_URI_QUERY :: u8 where "COAP_OPTION_URI_QUERY = 15"

text \<open>The header: \<open>optcnt\<close>, \<open>type\<close> and \<open>version\<close> share byte 0, then the code and the transaction
  id, which is in network byte order.\<close>

definition hdr_optcnt :: "mem \<Rightarrow> u8 option" where
  "hdr_optcnt m = do { b \<leftarrow> rd m 0; Some (b AND 15) }"

definition hdr_set_optcnt :: "mem \<Rightarrow> u8 \<Rightarrow> mem option" where
  "hdr_set_optcnt m v = do { b \<leftarrow> rd m 0; wr m 0 ((b AND 0xF0) OR (v AND 15)) }"

definition hdr_type :: "mem \<Rightarrow> u8 option" where
  "hdr_type m = do { b \<leftarrow> rd m 0; Some (drop_bit 4 b AND 3) }"

definition hdr_set_type :: "mem \<Rightarrow> u8 \<Rightarrow> mem option" where
  "hdr_set_type m v = do { b \<leftarrow> rd m 0; wr m 0 ((b AND 0xCF) OR push_bit 4 (v AND 3)) }"

definition hdr_version :: "mem \<Rightarrow> u8 option" where
  "hdr_version m = do { b \<leftarrow> rd m 0; Some (drop_bit 6 b) }"

definition hdr_set_version :: "mem \<Rightarrow> u8 \<Rightarrow> mem option" where
  "hdr_set_version m v = do { b \<leftarrow> rd m 0; wr m 0 ((b AND 0x3F) OR push_bit 6 v) }"

definition hdr_code :: "mem \<Rightarrow> u8 option" where "hdr_code m = rd m 1"
definition hdr_set_code :: "mem \<Rightarrow> u8 \<Rightarrow> mem option" where "hdr_set_code m v = wr m 1 v"
definition hdr_id :: "mem \<Rightarrow> u16 option" where "hdr_id m = rd16 m 2"
definition hdr_set_id :: "mem \<Rightarrow> u16 \<Rightarrow> mem option" where "hdr_set_id m v = wr16 m 2 v"

text \<open>The macros on options.\<close>

definition COAP_OPT_ISEXTENDED :: "mem \<Rightarrow> nat \<Rightarrow> bool option" where
  "COAP_OPT_ISEXTENDED m opt = do { b \<leftarrow> rd m opt; Some (b AND 15 = 15) }"

definition COAP_OPT_DELTA :: "mem \<Rightarrow> nat \<Rightarrow> u8 option" where
  "COAP_OPT_DELTA m opt = do { b \<leftarrow> rd m opt; Some (drop_bit 4 b) }"

definition COAP_OPT_SETDELTA :: "mem \<Rightarrow> nat \<Rightarrow> u8 \<Rightarrow> mem option" where
  "COAP_OPT_SETDELTA m opt v = do { b \<leftarrow> rd m opt; wr m opt ((b AND 15) OR push_bit 4 v) }"

definition COAP_OPT_LENGTH :: "mem \<Rightarrow> nat \<Rightarrow> nat option" where
  "COAP_OPT_LENGTH m opt =
     do { ext \<leftarrow> COAP_OPT_ISEXTENDED m opt;
          if ext then do { l \<leftarrow> rd m (opt + 1); Some (unat l + 15) }
          else do { b \<leftarrow> rd m opt; Some (unat (b AND 15)) } }"

definition COAP_OPT_SETLENGTH :: "mem \<Rightarrow> nat \<Rightarrow> u32 \<Rightarrow> mem option" where
  "COAP_OPT_SETLENGTH m opt v =
     (if v < 15 then do { b \<leftarrow> rd m opt; wr m opt ((b AND 0xF0) OR (ucast v AND 15)) }
      else do {
        m \<leftarrow> wr m (opt + 1) (ucast (v - 15));
        b \<leftarrow> rd m opt;
        wr m opt ((b AND 0xF0) OR 15) })"

definition COAP_OPT_VALUE :: "mem \<Rightarrow> nat \<Rightarrow> nat option" where
  "COAP_OPT_VALUE m opt = do { ext \<leftarrow> COAP_OPT_ISEXTENDED m opt; Some (opt + (if ext then 2 else 1)) }"

definition COAP_OPT_SIZE :: "mem \<Rightarrow> nat \<Rightarrow> nat option" where
  "COAP_OPT_SIZE m opt =
     do { l \<leftarrow> COAP_OPT_LENGTH m opt; ext \<leftarrow> COAP_OPT_ISEXTENDED m opt;
          Some (l + (if ext then 2 else 1)) }"

section \<open>The operations\<close>

text \<open>A new PDU: the block is zeroed before the header is filled in.  \<open>ok\<close> tells whether
  \<open>malloc\<close> found memory.\<close>

definition coap_new_pdu :: "bool \<Rightarrow> coap_pdu option option" where
  "coap_new_pdu ok =
     (if \<not> ok then Some None
      else do {
        let m = replicate COAP_MAX_PDU_SIZE 0;
        m \<leftarrow> hdr_set_version m 1;
        m \<leftarrow> hdr_set_id m (ntohs (- 1));
        Some (Some \<lparr>pdu_mem = m, pdu_length = of_nat SIZEOF_HDR, pdu_data = SIZEOF_HDR\<rparr>) })"

text \<open>Walking over \<open>cnt\<close> options: the position behind them and the code of the last one.\<close>

fun skip_options :: "nat \<Rightarrow> mem \<Rightarrow> nat \<Rightarrow> u8 \<Rightarrow> (nat \<times> u8) option" where
  "skip_options 0 m opt code = Some (opt, code)" |
  "skip_options (Suc cnt) m opt code =
     do { d \<leftarrow> COAP_OPT_DELTA m opt;
          n \<leftarrow> COAP_OPT_SIZE m opt;
          skip_options cnt m (opt + n) (code + d) }"

definition bump_optcnt :: "mem \<Rightarrow> mem option" where
  "bump_optcnt m = do { c \<leftarrow> hdr_optcnt m; hdr_set_optcnt m (c + 1) }"

definition fence_delta :: "u8 \<Rightarrow> u8" where
  "fence_delta code = COAP_OPTION_NOOP * (code div COAP_OPTION_NOOP + 1) - code"

definition fence_post :: "mem \<Rightarrow> nat \<Rightarrow> u8 \<Rightarrow> (mem \<times> nat \<times> u8) option" where
  "fence_post m opt code =
     do { m \<leftarrow> bump_optcnt m;
          m \<leftarrow> COAP_OPT_SETLENGTH m opt 0;
          m \<leftarrow> COAP_OPT_SETDELTA m opt (fence_delta code);
          d \<leftarrow> COAP_OPT_DELTA m opt;
          n \<leftarrow> COAP_OPT_SIZE m opt;
          Some (m, opt + n, code + d) }"

partial_function (option) fence_posts :: "mem \<Rightarrow> nat \<Rightarrow> u8 \<Rightarrow> u8 \<Rightarrow> (mem \<times> nat \<times> u8) option" where
  "fence_posts m opt type code =
     (if int (unat type) - int (unat code) > 15
      then do { (m, opt, code) \<leftarrow> fence_post m opt code; fence_posts m opt type code }
      else Some (m, opt, code))"

text \<open>Nothing compares the new option with the size of the block: a write outside it is
  \<^term>\<open>None\<close>.\<close>

definition coap_add_option ::
  "coap_pdu option \<Rightarrow> u8 \<Rightarrow> u32 \<Rightarrow> mem \<Rightarrow> (coap_pdu option \<times> int) option" where
  "coap_add_option pdu type len data =
     (case pdu of None \<Rightarrow> Some (None, -1)
      | Some p \<Rightarrow>
          do { let m = pdu_mem p;
               cnt \<leftarrow> hdr_optcnt m;
               (opt, code) \<leftarrow> skip_options (unat cnt) m SIZEOF_HDR 0;
               if type < code then Some (Some p, -1)
               else do {
                 (m, opt, code) \<leftarrow> fence_posts m opt type code;
                 m \<leftarrow> bump_optcnt m;
                 m \<leftarrow> COAP_OPT_SETDELTA m opt (type - code);
                 m \<leftarrow> COAP_OPT_SETLENGTH m opt len;
                 v \<leftarrow> COAP_OPT_VALUE m opt;
                 bs \<leftarrow> rdn data 0 (unat len);
                 m \<leftarrow> wrn m v bs;
                 let e = v + unat len;
                 Some (Some (p\<lparr>pdu_mem := m, pdu_data := e, pdu_length := of_nat e\<rparr>), sint len) } })"

fun check_option_loop :: "nat \<Rightarrow> mem \<Rightarrow> nat \<Rightarrow> u8 \<Rightarrow> u8 \<Rightarrow> nat option option" where
  "check_option_loop 0 m opt code type = Some None" |
  "check_option_loop (Suc cnt) m opt code type =
     (if code < type
      then do { d \<leftarrow> COAP_OPT_DELTA m opt;
                if type = code + d then Some (Some opt)
                else do { n \<leftarrow> COAP_OPT_SIZE m opt;
                          check_option_loop cnt m (opt + n) (code + d) type } }
      else Some None)"

definition coap_check_option :: "coap_pdu option \<Rightarrow> u8 \<Rightarrow> nat option option" where
  "coap_check_option pdu type =
     (case pdu of None \<Rightarrow> Some None
      | Some p \<Rightarrow> do { cnt \<leftarrow> hdr_optcnt (pdu_mem p);
                      check_option_loop (unat cnt) (pdu_mem p) SIZEOF_HDR 0 type })"

definition known_critical :: "u8 list" where
  "known_critical = [COAP_OPTION_CONTENT_TYPE, COAP_OPTION_URI_AUTHORITY, COAP_OPTION_URI_PATH,
     COAP_OPTION_TOKEN, COAP_OPTION_BLOCK, COAP_OPTION_URI_QUERY]"

fun check_critical_loop :: "nat \<Rightarrow> mem \<Rightarrow> nat \<Rightarrow> u8 \<Rightarrow> (nat option \<times> u8) option" where
  "check_critical_loop 0 m opt code = Some (None, 0)" |
  "check_critical_loop (Suc cnt) m opt code =
     do { d \<leftarrow> COAP_OPT_DELTA m opt;
          let code = code + d;
          if code AND 1 \<noteq> 0 \<and> code \<notin> set known_critical then Some (Some opt, code)
          else do { n \<leftarrow> COAP_OPT_SIZE m opt; check_critical_loop cnt m (opt + n) code } }"

definition coap_check_critical :: "coap_pdu option \<Rightarrow> (nat option \<times> u8) option" where
  "coap_check_critical pdu =
     (case pdu of None \<Rightarrow> Some (None, 0)
      | Some p \<Rightarrow> do { cnt \<leftarrow> hdr_optcnt (pdu_mem p);
                      check_critical_loop (unat cnt) (pdu_mem p) SIZEOF_HDR 0 })"

definition coap_add_data :: "coap_pdu option \<Rightarrow> u32 \<Rightarrow> mem \<Rightarrow> (coap_pdu option \<times> int) option" where
  "coap_add_data pdu len data =
     (case pdu of None \<Rightarrow> Some (None, 0)
      | Some p \<Rightarrow>
          if ucast (pdu_length p) + len > of_nat COAP_MAX_PDU_SIZE then Some (Some p, 0)
          else do {
            bs \<leftarrow> rdn data 0 (unat len);
            m \<leftarrow> wrn (pdu_mem p) (unat (pdu_length p)) bs;
            Some (Some (p\<lparr>pdu_mem := m, pdu_length := ucast (ucast (pdu_length p) + len)\<rparr>), 1) })"

definition coap_get_data :: "coap_pdu option \<Rightarrow> nat \<Rightarrow> nat option \<Rightarrow> nat \<times> nat option \<times> int" where
  "coap_get_data pdu len data =
     (case pdu of None \<Rightarrow> (len, data, 0)
      | Some p \<Rightarrow>
          if pdu_data p < unat (pdu_length p) then (unat (pdu_length p) - pdu_data p, Some (pdu_data p), 1)
          else (0, None, 1))"

text \<open>The three parts of the request URI point into the message.\<close>

definition option_str :: "coap_pdu \<Rightarrow> u8 \<Rightarrow> str option" where
  "option_str p type =
     do { opt \<leftarrow> coap_check_option (Some p) type;
          case opt of None \<Rightarrow> Some null_str
          | Some opt \<Rightarrow> do { l \<leftarrow> COAP_OPT_LENGTH (pdu_mem p) opt; v \<leftarrow> COAP_OPT_VALUE (pdu_mem p) opt;
                            Some (COAP_SET_STR (of_nat l) v) } }"

definition coap_get_request_uri :: "coap_pdu option \<Rightarrow> coap_uri option \<Rightarrow> (coap_uri option \<times> int) option" where
  "coap_get_request_uri pdu result =
     (case (pdu, result) of
        (Some p, Some _) \<Rightarrow>
          do { na \<leftarrow> option_str p COAP_OPTION_URI_AUTHORITY;
               path \<leftarrow> option_str p COAP_OPTION_URI_PATH;
               query \<leftarrow> option_str p COAP_OPTION_URI_QUERY;
               Some (Some \<lparr>uri_na = na, uri_path = path, uri_query = query\<rparr>, 1) }
      | _ \<Rightarrow> Some (result, 0))"

end
