(* ===== verification/Coap_Queue.thy ===== *)
theory Coap_Queue
  imports Coap_Pdu
begin

text \<open>
  The state of the CoAP library and its linked lists: \<open>list.c\<close> and the queue functions of \<open>net.c\<close>.
  Every allocated object has an address; an address is never used twice, so that a use of an
  object after it was freed is a lookup of an address that holds nothing, and the computation is
  \<^term>\<open>None\<close>.  Both kinds of list node start with the pointer to the next node, and both files
  have the same insertion, so it is written once over the common part.
\<close>

section \<open>The state\<close>

text \<open>Times are seconds, taken as unbounded integers.\<close>

type_synonym time_t = int

record sockaddr =
  sin6_family :: u16
  sin6_port :: u16
  sin6_flowinfo :: u32
  sin6_addr :: "u8 list"
  sin6_scope_id :: u32

record linked =
  nx :: "nat option"

record coap_queue = linked +
  q_t :: time_t
  q_cnt :: u8
  q_remote :: sockaddr
  q_pdu :: "nat option"

text \<open>The function that a list node runs on its data when it is deleted is \<open>NULL\<close> or
  \<open>coap_free_resource\<close>.\<close>

datatype delete_fn = NoDelete | FreeResource

record coap_list = linked +
  l_data :: "nat option"
  l_delete :: delete_fn

record coap_subscription =
  sub_resource :: u32
  sub_expires :: time_t
  sub_subscriber :: sockaddr
  sub_token :: str

record coap_resource =
  res_uri :: "nat option"
  res_name :: "nat option"
  res_mediatype :: u8
  res_dirty :: bool
  res_writable :: bool
  res_splitphase :: bool
  res_immediately :: u32
  res_etag :: "u8 list"
  res_maxage :: u32
  res_data :: "nat option"

record coap_state =
  cs_queue :: "nat \<Rightarrow> coap_queue option"
  cs_list :: "nat \<Rightarrow> coap_list option"
  cs_pdus :: "nat \<Rightarrow> coap_pdu option"
  cs_subs :: "nat \<Rightarrow> coap_subscription option"
  cs_ress :: "nat \<Rightarrow> coap_resource option"
  cs_uris :: "nat \<Rightarrow> (mem \<times> coap_uri) option"
  cs_blocks :: "nat \<Rightarrow> mem option"
  cs_fresh :: nat
  cs_calls :: nat
  cs_now :: time_t
  cs_sent :: "(sockaddr \<times> u8 list) list"
  sendqueue :: "nat option"
  recvqueue :: "nat option"
  resources :: "nat option"
  subscriptions :: "nat option"

text \<open>The outside world: whether the \<open>n\<close>-th call of \<open>malloc\<close> or \<open>sendto\<close> succeeds, the random
  numbers, and the functions that represent resources.\<close>

record coap_env =
  env_malloc :: "nat \<Rightarrow> bool"
  env_sendto :: "nat \<Rightarrow> bool"
  env_rand :: "nat \<Rightarrow> u16"
  env_data :: "nat \<Rightarrow> mem \<times> coap_uri \<Rightarrow> u16 \<Rightarrow> u8 \<Rightarrow> u32 \<Rightarrow> u16 \<times> u8 list \<times> u32"

definition coap_malloc :: "coap_env \<Rightarrow> coap_state \<Rightarrow> coap_state \<times> nat option" where
  "coap_malloc env s =
     (if env_malloc env (cs_calls s)
      then (s\<lparr>cs_calls := cs_calls s + 1, cs_fresh := cs_fresh s + 1\<rparr>, Some (cs_fresh s))
      else (s\<lparr>cs_calls := cs_calls s + 1\<rparr>, None))"

definition coap_free :: "(nat \<Rightarrow> 'x option) \<Rightarrow> nat option \<Rightarrow> (nat \<Rightarrow> 'x option) option" where
  "coap_free h p =
     (case p of None \<Rightarrow> Some h
      | Some a \<Rightarrow> (case h a of None \<Rightarrow> None | Some _ \<Rightarrow> Some (h(a := None))))"

section \<open>Insertion\<close>

definition set_next :: "nat \<Rightarrow> nat option \<Rightarrow> (nat \<Rightarrow> 'a linked_scheme option) \<Rightarrow> (nat \<Rightarrow> 'a linked_scheme option) option" where
  "set_next a n h = do { c \<leftarrow> h a; Some (h(a \<mapsto> c\<lparr>nx := n\<rparr>)) }"

text \<open>The \<open>do\<close> loop: \<open>p\<close> is the node after which the new one goes.\<close>

partial_function (option) insert_pos ::
  "(nat \<Rightarrow> nat \<Rightarrow> int option) \<Rightarrow> (nat \<Rightarrow> 'a linked_scheme option) \<Rightarrow> nat \<Rightarrow> nat \<Rightarrow> (nat \<times> nat option) option" where
  "insert_pos order h node p =
     do { c \<leftarrow> h p;
          case nx c of None \<Rightarrow> Some (p, None)
          | Some q \<Rightarrow> do { d \<leftarrow> order node q;
                         if d \<ge> 0 then insert_pos order h node q else Some (p, Some q) } }"

definition insert_linked ::
  "(nat \<Rightarrow> nat \<Rightarrow> int option) \<Rightarrow> (nat \<Rightarrow> 'a linked_scheme option) \<Rightarrow> nat option \<Rightarrow> nat option \<Rightarrow>
   ((nat \<Rightarrow> 'a linked_scheme option) \<times> nat option \<times> int) option" where
  "insert_linked order h queue node =
     (case node of None \<Rightarrow> Some (h, queue, 0)
      | Some n \<Rightarrow>
          (case queue of None \<Rightarrow> Some (h, Some n, 1)
           | Some q \<Rightarrow>
               do { d \<leftarrow> order n q;
                    if d < 0 then do { h \<leftarrow> set_next n (Some q) h; Some (h, Some n, 1) }
                    else do {
                      (p, r) \<leftarrow> insert_pos order h n q;
                      h \<leftarrow> set_next n r h;
                      h \<leftarrow> set_next p (Some n) h;
                      Some (h, Some q, 1) } }))"

definition coap_insert_node ::
  "(nat \<Rightarrow> nat \<Rightarrow> int option) \<Rightarrow> (nat \<Rightarrow> coap_queue option) \<Rightarrow> nat option \<Rightarrow> nat option \<Rightarrow>
   ((nat \<Rightarrow> coap_queue option) \<times> nat option \<times> int) option" where
  "coap_insert_node order h queue node = insert_linked order h queue node"

text \<open>The list nodes are ordered by their data.\<close>

definition coap_insert ::
  "(nat option \<Rightarrow> nat option \<Rightarrow> int option) \<Rightarrow> (nat \<Rightarrow> coap_list option) \<Rightarrow> nat option \<Rightarrow> nat option \<Rightarrow>
   ((nat \<Rightarrow> coap_list option) \<times> nat option \<times> int) option" where
  "coap_insert order h queue node =
     insert_linked (\<lambda>a b. do { x \<leftarrow> h a; y \<leftarrow> h b; order (l_data x) (l_data y) }) h queue node"

section \<open>The functions of list.c\<close>

definition coap_free_resource :: "nat option \<Rightarrow> coap_state \<Rightarrow> coap_state option" where
  "coap_free_resource res s =
     (case res of None \<Rightarrow> Some s
      | Some a \<Rightarrow> do {
          r \<leftarrow> cs_ress s a;
          us \<leftarrow> coap_free (cs_uris s) (res_uri r);
          bs \<leftarrow> coap_free (cs_blocks s) (res_name r);
          Some (s\<lparr>cs_uris := us, cs_blocks := bs\<rparr>) })"

text \<open>The data of a node is a resource or a subscription.\<close>

definition free_data :: "nat option \<Rightarrow> coap_state \<Rightarrow> coap_state option" where
  "free_data p s =
     (case p of None \<Rightarrow> Some s
      | Some a \<Rightarrow>
          (case cs_ress s a of
             Some _ \<Rightarrow> Some (s\<lparr>cs_ress := (cs_ress s)(a := None)\<rparr>)
           | None \<Rightarrow> (case cs_subs s a of
               Some _ \<Rightarrow> Some (s\<lparr>cs_subs := (cs_subs s)(a := None)\<rparr>)
             | None \<Rightarrow> None)))"

definition coap_delete :: "nat option \<Rightarrow> coap_state \<Rightarrow> (coap_state \<times> int) option" where
  "coap_delete node s =
     (case node of None \<Rightarrow> Some (s, 0)
      | Some n \<Rightarrow> do {
          c \<leftarrow> cs_list s n;
          s \<leftarrow> (case l_delete c of NoDelete \<Rightarrow> Some s | FreeResource \<Rightarrow> coap_free_resource (l_data c) s);
          s \<leftarrow> free_data (l_data c) s;
          ls \<leftarrow> coap_free (cs_list s) (Some n);
          Some (s\<lparr>cs_list := ls\<rparr>, 1) })"

partial_function (option) coap_delete_list :: "nat option \<Rightarrow> coap_state \<Rightarrow> coap_state option" where
  "coap_delete_list queue s =
     (case queue of None \<Rightarrow> Some s
      | Some q \<Rightarrow> do {
          c \<leftarrow> cs_list s q;
          s \<leftarrow> coap_delete_list (nx c) s;
          (s, r) \<leftarrow> coap_delete (Some q) s;
          Some s })"

definition coap_new_listnode :: "coap_env \<Rightarrow> nat option \<Rightarrow> delete_fn \<Rightarrow> coap_state \<Rightarrow> coap_state \<times> nat option" where
  "coap_new_listnode env data del s =
     (let (s, p) = coap_malloc env s in
      case p of None \<Rightarrow> (s, None)
      | Some a \<Rightarrow> (s\<lparr>cs_list := (cs_list s)(a \<mapsto> \<lparr>nx = None, l_data = data, l_delete = del\<rparr>)\<rparr>, Some a))"

section \<open>The queues of net.c\<close>

definition coap_delete_node :: "nat option \<Rightarrow> coap_state \<Rightarrow> (coap_state \<times> int) option" where
  "coap_delete_node node s =
     (case node of None \<Rightarrow> Some (s, 0)
      | Some n \<Rightarrow> do {
          c \<leftarrow> cs_queue s n;
          ps \<leftarrow> coap_free (cs_pdus s) (q_pdu c);
          qs \<leftarrow> coap_free (cs_queue s) (Some n);
          Some (s\<lparr>cs_pdus := ps, cs_queue := qs\<rparr>, 1) })"

partial_function (option) coap_delete_all :: "nat option \<Rightarrow> coap_state \<Rightarrow> coap_state option" where
  "coap_delete_all queue s =
     (case queue of None \<Rightarrow> Some s
      | Some q \<Rightarrow> do {
          c \<leftarrow> cs_queue s q;
          s \<leftarrow> coap_delete_all (nx c) s;
          (s, r) \<leftarrow> coap_delete_node (Some q) s;
          Some s })"

definition null_addr :: sockaddr where
  "null_addr = \<lparr>sin6_family = 0, sin6_port = 0, sin6_flowinfo = 0, sin6_addr = replicate 16 0, sin6_scope_id = 0\<rparr>"

definition zero_node :: coap_queue where
  "zero_node = \<lparr>nx = None, q_t = 0, q_cnt = 0, q_remote = null_addr, q_pdu = None\<rparr>"

definition coap_new_node :: "coap_env \<Rightarrow> coap_state \<Rightarrow> coap_state \<times> nat option" where
  "coap_new_node env s =
     (let (s, p) = coap_malloc env s in
      case p of None \<Rightarrow> (s, None)
      | Some a \<Rightarrow> (s\<lparr>cs_queue := (cs_queue s)(a \<mapsto> zero_node)\<rparr>, Some a))"

definition coap_peek_next :: "coap_state \<Rightarrow> nat option" where
  "coap_peek_next s = sendqueue s"

definition coap_pop_next :: "coap_state \<Rightarrow> (coap_state \<times> nat option) option" where
  "coap_pop_next s =
     (case sendqueue s of None \<Rightarrow> Some (s, None)
      | Some n \<Rightarrow> do {
          c \<leftarrow> cs_queue s n;
          h \<leftarrow> set_next n None (cs_queue s);
          Some (s\<lparr>sendqueue := nx c, cs_queue := h\<rparr>, Some n) })"

definition order_timestamp :: "(nat \<Rightarrow> coap_queue option) \<Rightarrow> nat \<Rightarrow> nat \<Rightarrow> int option" where
  "order_timestamp h lhs rhs =
     do { l \<leftarrow> h lhs; r \<leftarrow> h rhs; Some (if q_t l < q_t r then -1 else 1) }"

text \<open>The comparison reads the identifier of the left message on both sides.\<close>

definition order_transaction_id :: "coap_state \<Rightarrow> nat \<Rightarrow> nat \<Rightarrow> int option" where
  "order_transaction_id s lhs rhs =
     do { l \<leftarrow> cs_queue s lhs; r \<leftarrow> cs_queue s rhs;
          case (q_pdu l, q_pdu r) of
            (Some p, Some _) \<Rightarrow>
              do { lp \<leftarrow> cs_pdus s p; i \<leftarrow> hdr_id (pdu_mem lp); j \<leftarrow> hdr_id (pdu_mem lp);
                   Some (if i < j then -1 else 1) }
          | _ \<Rightarrow> Some 1 }"

definition node_id :: "coap_state \<Rightarrow> nat \<Rightarrow> u16 option" where
  "node_id s n = do { c \<leftarrow> cs_queue s n; p \<leftarrow> q_pdu c; d \<leftarrow> cs_pdus s p; hdr_id (pdu_mem d) }"

text \<open>The node before the first one behind \<open>p\<close> that has the identifier.\<close>

partial_function (option) find_before :: "coap_state \<Rightarrow> u16 \<Rightarrow> nat \<Rightarrow> (nat \<times> nat option) option" where
  "find_before s tid p =
     do { c \<leftarrow> cs_queue s p;
          case nx c of None \<Rightarrow> Some (p, None)
          | Some q \<Rightarrow> do { i \<leftarrow> node_id s q;
                         if tid \<noteq> i then find_before s tid q else Some (p, Some q) } }"

text \<open>The queue that is changed is given by its head; the new head is a result.\<close>

definition coap_remove_transaction ::
  "nat option \<Rightarrow> u16 \<Rightarrow> coap_state \<Rightarrow> (coap_state \<times> nat option \<times> int) option" where
  "coap_remove_transaction queue tid s =
     (case queue of None \<Rightarrow> Some (s, None, 0)
      | Some q \<Rightarrow>
          do { i \<leftarrow> node_id s q;
               if tid = i then do {
                 c \<leftarrow> cs_queue s q;
                 (s, r) \<leftarrow> coap_delete_node (Some q) s;
                 Some (s, nx c, 1) }
               else do {
                 (p, r) \<leftarrow> find_before s tid q;
                 case r of None \<Rightarrow> Some (s, Some q, 0)
                 | Some x \<Rightarrow> do {
                     c \<leftarrow> cs_queue s x;
                     h \<leftarrow> set_next p (nx c) (cs_queue s);
                     (s, r) \<leftarrow> coap_delete_node (Some x) (s\<lparr>cs_queue := h\<rparr>);
                     Some (s, Some q, 1) } } })"

partial_function (option) coap_find_transaction :: "coap_state \<Rightarrow> u16 \<Rightarrow> nat option \<Rightarrow> nat option option" where
  "coap_find_transaction s tid queue =
     (case queue of None \<Rightarrow> Some None
      | Some q \<Rightarrow> do {
          c \<leftarrow> cs_queue s q;
          hit \<leftarrow> (case q_pdu c of None \<Rightarrow> Some False
                 | Some p \<Rightarrow> do { d \<leftarrow> cs_pdus s p; i \<leftarrow> hdr_id (pdu_mem d); Some (i = tid) });
          if hit then Some (Some q) else coap_find_transaction s tid (nx c) })"

definition coap_can_exit :: "coap_state \<Rightarrow> bool" where
  "coap_can_exit s \<longleftrightarrow> recvqueue s = None \<and> sendqueue s = None"

end
