(* ===== verification/Coap_Lists.thy ===== *)
theory Coap_Lists
  imports Coap_Queue "HOL-Library.Multiset"
begin

text \<open>
  The linked lists of the CoAP library as lists of addresses: insertion puts the node before the
  first one it is smaller than, and unlinking removes one node.  Nothing but the links changes.
\<close>

section \<open>Chains\<close>

definition links :: "(nat \<Rightarrow> 'a linked_scheme option) \<Rightarrow> nat \<Rightarrow> nat option option" where
  "links h a = map_option nx (h a)"

text \<open>What the nodes hold apart from the link.\<close>

definition payload :: "(nat \<Rightarrow> 'a linked_scheme option) \<Rightarrow> nat \<Rightarrow> 'a linked_scheme option" where
  "payload h a = map_option (nx_update (\<lambda>_. None)) (h a)"

fun chain :: "(nat \<Rightarrow> nat option option) \<Rightarrow> nat option \<Rightarrow> nat list \<Rightarrow> nat option \<Rightarrow> bool" where
  "chain l p [] e \<longleftrightarrow> p = e" |
  "chain l p (a # as) e \<longleftrightarrow> p = Some a \<and> (case l a of None \<Rightarrow> False | Some b \<Rightarrow> chain l b as e)"

abbreviation is_list :: "(nat \<Rightarrow> 'a linked_scheme option) \<Rightarrow> nat option \<Rightarrow> nat list \<Rightarrow> bool" where
  "is_list h p xs \<equiv> chain (links h) p xs None"

lemma chain_append: "chain l p (as @ bs) e \<longleftrightarrow> (\<exists>m. chain l p as m \<and> chain l m bs e)"
  by (induction as arbitrary: p) (auto split: option.splits)

lemma chain_ConsD: "chain l p (a # as) e \<Longrightarrow> \<exists>b. p = Some a \<and> l a = Some b \<and> chain l b as e"
  by (auto split: option.splits)

lemma chain_upd [simp]: "a \<notin> set as \<Longrightarrow> chain (l(a := x)) p as e = chain l p as e"
  by (induction as arbitrary: p) (auto split: option.splits)

lemma chain_unique: "chain l p as None \<Longrightarrow> chain l p bs None \<Longrightarrow> as = bs"
proof (induction as arbitrary: p bs)
  case Nil
  then show ?case by (cases bs) auto
next
  case (Cons a as)
  then show ?case by (cases bs) (auto split: option.splits)
qed

lemma chain_not_in: "l a = Some b \<Longrightarrow> chain l b as None \<Longrightarrow> a \<notin> set as"
proof
  assume h: "l a = Some b" "chain l b as None" "a \<in> set as"
  then obtain xs ys where as: "as = xs @ a # ys" by (auto simp: in_set_conv_decomp)
  then have "chain l b ys None" using h by (auto simp: chain_append split: option.splits)
  then have "as = ys" using h(2) by (rule chain_unique [rotated])
  then show False using as by simp
qed

lemma chain_distinct: "chain l p as None \<Longrightarrow> distinct as"
  by (induction as arbitrary: p) (auto split: option.splits dest: chain_not_in)

lemma chain_relink: "chain l p (as @ [a]) e \<Longrightarrow> a \<notin> set as \<Longrightarrow> chain (l(a := Some f)) p (as @ [a]) f"
  by (auto simp: chain_append split: option.splits)

lemma chain_live: "chain l p as e \<Longrightarrow> a \<in> set as \<Longrightarrow> l a \<noteq> None"
  by (induction as arbitrary: p) (auto split: option.splits)

lemma links_upd [simp]: "links (h(a \<mapsto> c)) = (links h)(a \<mapsto> nx c)"
  by (rule ext) (simp add: links_def)

lemma links_del [simp]: "links (h(a := None)) = (links h)(a := None)"
  by (rule ext) (simp add: links_def)

lemma links_live: "links h a \<noteq> None \<longleftrightarrow> h a \<noteq> None"
  by (simp add: links_def)

lemma set_next_run:
  assumes "links h a \<noteq> None"
  shows "\<exists>h'. set_next a n h = Some h' \<and> links h' = (links h)(a \<mapsto> n) \<and> payload h' = payload h \<and>
    (\<forall>b. b \<noteq> a \<longrightarrow> h' b = h b)"
proof -
  from assms obtain c where c: "h a = Some c" by (auto simp: links_def)
  have "payload (h(a \<mapsto> c\<lparr>nx := n\<rparr>)) = payload h" by (rule ext) (simp add: payload_def c)
  then show ?thesis using c by (simp add: set_next_def)
qed

section \<open>Insertion\<close>

text \<open>The specification: before the first element that the new one is smaller than.\<close>

definition ins :: "(nat \<Rightarrow> bool) \<Rightarrow> nat \<Rightarrow> nat list \<Rightarrow> nat list" where
  "ins lt n xs = takeWhile (\<lambda>x. \<not> lt x) xs @ n # dropWhile (\<lambda>x. \<not> lt x) xs"

definition head_of :: "nat list \<Rightarrow> nat option" where
  "head_of xs = (case xs of [] \<Rightarrow> None | x # _ \<Rightarrow> Some x)"

lemma chain_head: "chain l p xs None \<Longrightarrow> p = head_of xs"
  by (cases xs) (auto simp: head_of_def)

lemma insert_pos_list:
  assumes "chain (links h) (Some q) (q # xs) None"
    and "\<And>x. x \<in> set xs \<Longrightarrow> \<exists>d. order n x = Some d \<and> (d < 0 \<longleftrightarrow> lt x)"
  shows "insert_pos order h n q =
    Some (last (q # takeWhile (\<lambda>x. \<not> lt x) xs), head_of (dropWhile (\<lambda>x. \<not> lt x) xs))"
  using assms
proof (induction xs arbitrary: q)
  case Nil
  then show ?case by (subst insert_pos.simps) (auto simp: links_def head_of_def split: option.splits)
next
  case (Cons x xs)
  obtain c where c: "h q = Some c" "nx c = Some x" "chain (links h) (Some x) (x # xs) None"
  proof -
    from Cons(2) obtain m where "links h q = Some m" "chain (links h) m (x # xs) None"
      using chain_ConsD by blast
    then show ?thesis using that by (auto simp: links_def)
  qed
  obtain d where d: "order n x = Some d" "d < 0 \<longleftrightarrow> lt x" using Cons(3) [of x] by auto
  show ?case
  proof (cases "lt x")
    case True
    then show ?thesis using c d by (subst insert_pos.simps) (simp add: head_of_def not_le)
  next
    case False
    have "insert_pos order h n q = insert_pos order h n x"
      using c d False by (subst insert_pos.simps) simp
    then show ?thesis using Cons(1) [OF c(3)] Cons(3) False by simp
  qed
qed

lemma insert_linked_list:
  assumes l: "is_list h p xs" and n: "n \<notin> set xs" "h n = Some c" "nx c = None"
    and ord: "\<And>x. x \<in> set xs \<Longrightarrow> \<exists>d. order n x = Some d \<and> (d < 0 \<longleftrightarrow> lt x)"
  shows "\<exists>h' p'. insert_linked order h p (Some n) = Some (h', p', 1) \<and> is_list h' p' (ins lt n xs) \<and>
    payload h' = payload h \<and> (\<forall>b. b \<notin> set xs \<and> b \<noteq> n \<longrightarrow> h' b = h b)"
proof (cases xs)
  case Nil
  then show ?thesis using l n by (simp add: insert_linked_def ins_def links_def)
next
  case (Cons q ys)
  then have p: "p = Some q" and lq: "chain (links h) (Some q) (q # ys) None" using l by auto
  obtain d where d: "order n q = Some d" "d < 0 \<longleftrightarrow> lt q" using ord Cons by auto
  have ln: "links h n \<noteq> None" using n by (simp add: links_def)
  show ?thesis
  proof (cases "lt q")
    case True
    obtain h' where h': "set_next n (Some q) h = Some h'" "links h' = (links h)(n \<mapsto> Some q)"
        "payload h' = payload h" "\<forall>b. b \<noteq> n \<longrightarrow> h' b = h b"
      using set_next_run [OF ln] by blast
    have i: "ins lt n xs = n # xs" using True by (simp add: ins_def Cons)
    have "is_list h' (Some n) (n # xs)" using h'(2) l n(1) p by simp
    then show ?thesis using h' d True unfolding i p by (simp add: insert_linked_def)
  next
    case False
    define as where "as = takeWhile (\<lambda>x. \<not> lt x) ys"
    define bs where "bs = dropWhile (\<lambda>x. \<not> lt x) ys"
    have ys: "ys = as @ bs" by (simp add: as_def bs_def)
    have i: "ins lt n xs = (q # as) @ n # bs" using False by (simp add: ins_def Cons as_def bs_def)
    have pos: "insert_pos order h n q = Some (last (q # as), head_of bs)"
      using insert_pos_list [OF lq, of order n lt] ord Cons by (simp add: as_def bs_def)
    obtain e where ch: "chain (links h) (Some q) (q # as) e" "chain (links h) e bs None"
      using lq ys chain_append [of "links h" "Some q" "q # as" bs None] by auto
    have e: "e = head_of bs" using chain_head [OF ch(2)] .
    have dis: "distinct (q # as @ bs)" using chain_distinct [OF lq] ys by simp
    obtain cs a where ca: "q # as = cs @ [a]" by (cases "q # as" rule: rev_cases) auto
    have a: "last (q # as) = a" "a \<noteq> n" "a \<notin> set cs" "a \<notin> set bs"
    proof -
      show "last (q # as) = a" unfolding ca by simp
      have "a \<in> set xs" "distinct (cs @ [a] @ bs)"
        using ca Cons ys dis by (metis Un_iff append_Cons append_assoc in_set_conv_decomp set_append, metis append_Cons append_assoc)
      then show "a \<noteq> n" "a \<notin> set cs" "a \<notin> set bs" using n by auto
    qed
    have cn: "n \<notin> set (cs @ [a])" "n \<notin> set bs" using n(1) Cons ys unfolding ca [symmetric] by auto
    obtain h1 where h1: "set_next n (head_of bs) h = Some h1" "links h1 = (links h)(n \<mapsto> head_of bs)"
        "payload h1 = payload h" "\<forall>b. b \<noteq> n \<longrightarrow> h1 b = h b"
      using set_next_run [OF ln] by blast
    have la: "links h1 a \<noteq> None"
      using h1(2) a(2) chain_live [OF ch(1), of a] unfolding ca by simp
    obtain h2 where h2: "set_next a (Some n) h1 = Some h2" "links h2 = (links h1)(a \<mapsto> Some n)"
        "payload h2 = payload h1" "\<forall>b. b \<noteq> a \<longrightarrow> h2 b = h1 b"
      using set_next_run [OF la] by blast
    have "chain ((links h)(a \<mapsto> Some n)) (Some q) (cs @ [a]) (Some n)"
      using chain_relink ch(1) a(3) unfolding ca by blast
    moreover have l2: "links h2 = (links h)(a \<mapsto> Some n, n \<mapsto> head_of bs)"
      unfolding h2(2) h1(2) using a(2) by (rule fun_upd_twist [symmetric])
    ultimately have "chain (links h2) (Some q) (cs @ [a]) (Some n)" using cn(1) by simp
    moreover have "chain (links h2) (Some n) (n # bs) None"
      unfolding l2 using ch(2) cn(2) a(4) e by simp
    ultimately have lst: "is_list h2 (Some q) ((q # as) @ n # bs)" unfolding ca chain_append by blast
    have "insert_linked order h p (Some n) = Some (h2, Some q, 1)"
      using p d False pos h1(1) h2(1) a(1) by (simp add: insert_linked_def)
    moreover have "\<forall>b. b \<notin> set xs \<and> b \<noteq> n \<longrightarrow> h2 b = h b"
      using h1(4) h2(4) a(1) Cons ys ca by (metis last_in_set list.distinct(1) list.set_intros(2) set_ConsD Un_iff set_append list.set_intros(1))
    ultimately show ?thesis using lst h1(3) h2(3) i by auto
  qed
qed

text \<open>Insertion by a key keeps the list sorted, behind the elements of the same key.\<close>

lemma ins_sorted:
  assumes "sorted (map f xs)"
  shows "sorted (map f (ins (\<lambda>x. f n < f x) n xs))"
proof -
  let ?P = "\<lambda>x. \<not> f n < f x"
  have "sorted (map f (takeWhile ?P xs))" "sorted (map f (dropWhile ?P xs))"
    using assms sorted_append [of "map f (takeWhile ?P xs)" "map f (dropWhile ?P xs)"]
    by (simp_all flip: map_append)
  moreover have "f x \<le> f n" if "x \<in> set (takeWhile ?P xs)" for x
    using set_takeWhileD [OF that] by (simp add: not_less)
  moreover have "f n \<le> f x" if "x \<in> set (dropWhile ?P xs)" for x
  proof (cases "dropWhile ?P xs")
    case (Cons z zs)
    then have "f n < f z" using hd_dropWhile [of ?P xs] by simp
    also have "f z \<le> f x" using \<open>sorted (map f (dropWhile ?P xs))\<close> that Cons by auto
    finally show ?thesis by simp
  next
    case Nil
    then show ?thesis using that by (simp only: list.set empty_iff)
  qed
  ultimately show ?thesis by (auto simp: ins_def sorted_append intro: order.trans)
qed

lemma mset_ins: "mset (ins lt n xs) = add_mset n (mset xs)"
proof -
  have "mset (takeWhile (\<lambda>x. \<not> lt x) xs @ dropWhile (\<lambda>x. \<not> lt x) xs) = mset xs" by simp
  then show ?thesis unfolding mset_append by (simp add: ins_def)
qed

lemma set_ins [simp]: "set (ins lt n xs) = insert n (set xs)"
  using mset_ins [of lt n xs] by (metis set_mset_add_mset_insert set_mset_mset)

section \<open>Unlinking\<close>

lemma unlink_head: "chain l p (x # xs) None \<Longrightarrow> chain l (head_of xs) xs None"
  by (auto split: option.splits dest: chain_head)

lemma unlink_after:
  assumes "chain l p (as @ [a] @ x # bs) None"
  shows "chain (l(a := Some (head_of bs))) p (as @ [a] @ bs) None"
proof -
  have d: "distinct (as @ [a] @ x # bs)" using chain_distinct [OF assms] .
  obtain e where e: "chain l p (as @ [a]) e" "chain l e (x # bs) None"
    using assms by (metis append_assoc chain_append)
  have "chain (l(a := Some (head_of bs))) p (as @ [a]) (head_of bs)" using chain_relink [OF e(1)] d by simp
  moreover have "chain (l(a := Some (head_of bs))) (head_of bs) bs None" using unlink_head [OF e(2)] d by simp
  ultimately show ?thesis using chain_append [of _ p "as @ [a]" bs None] by auto
qed

end
