(* ===== verification/Coap_Net.thy ===== *)
theory Coap_Net
  imports Coap_Lists Ip6
begin

text \<open>
  Sending, receiving and dispatching of CoAP messages (\<open>net.c\<close>) and resources, subscriptions and
  notifications (\<open>subscribe.c\<close>), in the build for a PC without debug output.  The context object is
  the state itself, so the checks for a null context are left out.  \<open>coap_tid_t\<close> is an unsigned
  halfword: the value \<open>COAP_INVALID_TID\<close>, which is \<open>-1\<close>, is returned as 65535, and a comparison of
  a result with \<open>-1\<close> is one of integers.
\<close>

definition COAP_INVALID_TID :: int where "COAP_INVALID_TID = -1"
definition COAP_DEFAULT_MAX_RETRANSMIT :: u8 where "COAP_DEFAULT_MAX_RETRANSMIT = 5"
definition COAP_INVALID_HASHKEY :: u32 where "COAP_INVALID_HASHKEY = -1"
definition COAP_MESSAGE_CON :: u8 where "COAP_MESSAGE_CON = 0"
definition COAP_MESSAGE_NON :: u8 where "COAP_MESSAGE_NON = 1"
definition COAP_MESSAGE_ACK :: u8 where "COAP_MESSAGE_ACK = 2"
definition COAP_MESSAGE_RST :: u8 where "COAP_MESSAGE_RST = 3"
definition COAP_RESPONSE_200 :: u8 where "COAP_RESPONSE_200 = 80"
definition COAP_RESPONSE_X_242 :: u8 where "COAP_RESPONSE_X_242 = 242"

definition invalid_tid :: u16 where "invalid_tid = word_of_int COAP_INVALID_TID"

definition is_invalid :: "u16 \<Rightarrow> bool" where
  "is_invalid tid \<longleftrightarrow> int (unat tid) = COAP_INVALID_TID"

section \<open>Sending\<close>

definition new_pdu :: "coap_env \<Rightarrow> coap_state \<Rightarrow> (coap_state \<times> nat option) option" where
  "new_pdu env s =
     (let (s, p) = coap_malloc env s in
      case p of None \<Rightarrow> Some (s, None)
      | Some a \<Rightarrow> do { d \<leftarrow> coap_new_pdu True; d \<leftarrow> d;
                     Some (s\<lparr>cs_pdus := (cs_pdus s)(a \<mapsto> d)\<rparr>, Some a) })"

definition coap_delete_pdu :: "nat option \<Rightarrow> coap_state \<Rightarrow> coap_state option" where
  "coap_delete_pdu p s = do { ps \<leftarrow> coap_free (cs_pdus s) p; Some (s\<lparr>cs_pdus := ps\<rparr>) }"

text \<open>The bytes of the message go to the log of what was sent, if \<open>sendto\<close> succeeds.  The
  identifier of the message is read after the message may have been freed.\<close>

definition coap_send_impl ::
  "coap_env \<Rightarrow> sockaddr \<Rightarrow> nat option \<Rightarrow> bool \<Rightarrow> coap_state \<Rightarrow> (coap_state \<times> u16) option" where
  "coap_send_impl env dst pdu free_pdu s =
     (case pdu of None \<Rightarrow> Some (s, invalid_tid)
      | Some a \<Rightarrow> do {
          p \<leftarrow> cs_pdus s a;
          bs \<leftarrow> rdn (pdu_mem p) 0 (unat (pdu_length p));
          let ok = env_sendto env (cs_calls s);
          let s = s\<lparr>cs_calls := cs_calls s + 1, cs_sent := (if ok then cs_sent s @ [(dst, bs)] else cs_sent s)\<rparr>;
          s \<leftarrow> (if free_pdu then coap_delete_pdu (Some a) s else Some s);
          if \<not> ok then Some (s, invalid_tid)
          else do { p \<leftarrow> cs_pdus s a; i \<leftarrow> hdr_id (pdu_mem p); Some (s, ntohs i) } })"

definition coap_send :: "coap_env \<Rightarrow> sockaddr \<Rightarrow> nat option \<Rightarrow> coap_state \<Rightarrow> (coap_state \<times> u16) option" where
  "coap_send env dst pdu s = coap_send_impl env dst pdu True s"

definition insert_send :: "nat option \<Rightarrow> coap_state \<Rightarrow> (coap_state \<times> int) option" where
  "insert_send node s =
     do { (h, q, r) \<leftarrow> coap_insert_node (order_timestamp (cs_queue s)) (cs_queue s) (sendqueue s) node;
          Some (s\<lparr>cs_queue := h, sendqueue := q\<rparr>, r) }"

definition upd_node :: "nat \<Rightarrow> (coap_queue \<Rightarrow> coap_queue) \<Rightarrow> coap_state \<Rightarrow> coap_state option" where
  "upd_node n f s = do { c \<leftarrow> cs_queue s n; Some (s\<lparr>cs_queue := (cs_queue s)(n \<mapsto> f c)\<rparr>) }"

text \<open>The result of \<open>coap_new_node\<close> is used without a check.\<close>

definition coap_send_confirmed ::
  "coap_env \<Rightarrow> sockaddr \<Rightarrow> nat option \<Rightarrow> coap_state \<Rightarrow> (coap_state \<times> u16) option" where
  "coap_send_confirmed env dst pdu s =
     (case coap_new_node env s of (s, node) \<Rightarrow> do {
        n \<leftarrow> node;
        s \<leftarrow> upd_node n (\<lambda>c. c\<lparr>q_t := cs_now s + 1, q_remote := dst, q_pdu := pdu\<rparr>) s;
        (s, r) \<leftarrow> insert_send (Some n) s;
        if r = 0 then do { (s, r) \<leftarrow> coap_delete_node (Some n) s; Some (s, invalid_tid) }
        else coap_send_impl env dst pdu False s })"

definition coap_retransmit :: "coap_env \<Rightarrow> nat option \<Rightarrow> coap_state \<Rightarrow> (coap_state \<times> u16) option" where
  "coap_retransmit env node s =
     (case node of None \<Rightarrow> Some (s, invalid_tid)
      | Some n \<Rightarrow> do {
          c \<leftarrow> cs_queue s n;
          if q_cnt c < COAP_DEFAULT_MAX_RETRANSMIT then do {
            s \<leftarrow> upd_node n (\<lambda>c. c\<lparr>q_cnt := q_cnt c + 1, q_t := q_t c + 2 ^ unat (q_cnt c + 1)\<rparr>) s;
            (s, r) \<leftarrow> insert_send (Some n) s;
            c \<leftarrow> cs_queue s n;
            coap_send_impl env (q_remote c) (q_pdu c) False s }
          else do { (s, r) \<leftarrow> coap_delete_node (Some n) s; Some (s, invalid_tid) } })"

section \<open>Resources and subscriptions\<close>

definition HMASK :: u32 where "HMASK = drop_bit 1 (- 1)"

fun hash_loop :: "mem \<Rightarrow> nat \<Rightarrow> nat \<Rightarrow> u32 \<Rightarrow> u32 option" where
  "hash_loop m p 0 init = Some init" |
  "hash_loop m p (Suc k) init = do { b \<leftarrow> rd m p; hash_loop m (p + 1) k (push_bit 7 init + init + ucast b) }"

definition hash2 :: "u32 \<Rightarrow> mem \<Rightarrow> nat option \<Rightarrow> u32 \<Rightarrow> u32 option" where
  "hash2 init m s len =
     (case s of None \<Rightarrow> Some (if len \<noteq> 0 then COAP_INVALID_HASHKEY else init AND HMASK)
      | Some p \<Rightarrow> do { h \<leftarrow> hash_loop m p (unat len) init; Some (h AND HMASK) })"

text \<open>The string version; plain characters are signed.\<close>

function hash_str :: "mem \<Rightarrow> nat \<Rightarrow> u32 \<Rightarrow> u32 option" where
  "hash_str m p init =
     do { b \<leftarrow> rd m p;
          if b = 0 then Some (init AND HMASK) else hash_str m (p + 1) (push_bit 7 init + init + scast b) }"
  by pat_completeness auto
termination
  by (relation "measure (\<lambda>(m, p, _). length m - p)") (auto simp: rd_def split: if_splits)

text \<open>A URI is its storage and its object.\<close>

definition coap_uri_hash :: "(mem \<times> coap_uri) option \<Rightarrow> u32 option" where
  "coap_uri_hash uri =
     (case uri of None \<Rightarrow> Some COAP_INVALID_HASHKEY
      | Some (m, u) \<Rightarrow> hash2 0 m (st_s (uri_path u)) (st_length (uri_path u)))"

definition uri_at :: "coap_state \<Rightarrow> nat option \<Rightarrow> (mem \<times> coap_uri) option option" where
  "uri_at s p = (case p of None \<Rightarrow> Some None | Some a \<Rightarrow> do { u \<leftarrow> cs_uris s a; Some (Some u) })"

definition res_key :: "coap_state \<Rightarrow> coap_resource \<Rightarrow> u32 option" where
  "res_key s r = do { u \<leftarrow> uri_at s (res_uri r); coap_uri_hash u }"

definition node_res :: "coap_state \<Rightarrow> nat \<Rightarrow> (coap_list \<times> nat \<times> coap_resource) option" where
  "node_res s n = do { c \<leftarrow> cs_list s n; a \<leftarrow> l_data c; r \<leftarrow> cs_ress s a; Some (c, a, r) }"

definition node_sub :: "coap_state \<Rightarrow> nat \<Rightarrow> (coap_list \<times> nat \<times> coap_subscription) option" where
  "node_sub s n = do { c \<leftarrow> cs_list s n; a \<leftarrow> l_data c; b \<leftarrow> cs_subs s a; Some (c, a, b) }"

partial_function (option) find_resource :: "coap_state \<Rightarrow> u32 \<Rightarrow> nat option \<Rightarrow> nat option option" where
  "find_resource s key node =
     (case node of None \<Rightarrow> Some None
      | Some n \<Rightarrow> do {
          x \<leftarrow> node_res s n;
          k \<leftarrow> res_key s (snd (snd x));
          if key = k then Some (Some (fst (snd x))) else find_resource s key (nx (fst x)) })"

definition coap_get_resource_from_key :: "u32 \<Rightarrow> coap_state \<Rightarrow> nat option option" where
  "coap_get_resource_from_key key s = find_resource s key (resources s)"

definition coap_get_resource :: "(mem \<times> coap_uri) option \<Rightarrow> coap_state \<Rightarrow> nat option option" where
  "coap_get_resource uri s =
     (case uri of None \<Rightarrow> Some None
      | Some u \<Rightarrow> do { k \<leftarrow> coap_uri_hash (Some u); coap_get_resource_from_key k s })"

partial_function (option) coap_check_subscriptions :: "coap_state \<Rightarrow> coap_state option" where
  "coap_check_subscriptions s =
     (case subscriptions s of None \<Rightarrow> Some s
      | Some n \<Rightarrow> do {
          x \<leftarrow> node_sub s n;
          if sub_expires (snd (snd x)) < cs_now s then do {
            y \<leftarrow> coap_delete (Some n) (s\<lparr>subscriptions := nx (fst x)\<rparr>);
            coap_check_subscriptions (fst y) }
          else Some s })"

definition coap_add_resource :: "coap_env \<Rightarrow> nat option \<Rightarrow> coap_state \<Rightarrow> (coap_state \<times> u32) option" where
  "coap_add_resource env resource s =
     (case resource of None \<Rightarrow> Some (s, COAP_INVALID_HASHKEY)
      | Some a \<Rightarrow>
          (case coap_new_listnode env resource FreeResource s of
             (s, None) \<Rightarrow> Some (s, COAP_INVALID_HASHKEY)
           | (s, Some n) \<Rightarrow> do {
               s \<leftarrow> (case resources s of None \<Rightarrow> Some (s\<lparr>resources := Some n\<rparr>)
                    | Some f \<Rightarrow> do { h \<leftarrow> set_next n (Some f) (cs_list s);
                                   Some (s\<lparr>cs_list := h, resources := Some n\<rparr>) });
               r \<leftarrow> cs_ress s a;
               k \<leftarrow> res_key s r;
               Some (s, k) }))"

text \<open>Removing a node: the head of the list or the link of the node before it changes.\<close>

definition unlink_node ::
  "nat option \<Rightarrow> nat option \<Rightarrow> (nat \<Rightarrow> coap_list option) \<Rightarrow> nat option \<Rightarrow> ((nat \<Rightarrow> coap_list option) \<times> nat option) option" where
  "unlink_node prev next h head =
     (case prev of None \<Rightarrow> Some (h, next)
      | Some p \<Rightarrow> do { h \<leftarrow> set_next p next h; Some (h, head) })"

partial_function (option) delete_resource_loop ::
  "u32 \<Rightarrow> nat option \<Rightarrow> nat option \<Rightarrow> coap_state \<Rightarrow> (coap_state \<times> int) option" where
  "delete_resource_loop key prev node s =
     (case node of None \<Rightarrow> Some (s, 0)
      | Some n \<Rightarrow> do {
          x \<leftarrow> node_res s n;
          k \<leftarrow> res_key s (snd (snd x));
          if k = key then do {
            y \<leftarrow> unlink_node prev (nx (fst x)) (cs_list s) (resources s);
            z \<leftarrow> coap_delete (Some n) (s\<lparr>cs_list := fst y, resources := snd y\<rparr>);
            Some (fst z, 1) }
          else delete_resource_loop key (Some n) (nx (fst x)) s })"

definition coap_delete_resource :: "u32 \<Rightarrow> coap_state \<Rightarrow> (coap_state \<times> int) option" where
  "coap_delete_resource key s =
     (if key = COAP_INVALID_HASHKEY then Some (s, 0) else delete_resource_loop key None (resources s) s)"

definition coap_new_subscription ::
  "coap_env \<Rightarrow> (mem \<times> coap_uri) option \<Rightarrow> sockaddr \<Rightarrow> time_t \<Rightarrow> coap_state \<Rightarrow> (coap_state \<times> nat option) option" where
  "coap_new_subscription env resource subscriber expiry s =
     (case resource of None \<Rightarrow> Some (s, None)
      | Some u \<Rightarrow>
          (case coap_malloc env s of
             (s, None) \<Rightarrow> Some (s, None)
           | (s, Some a) \<Rightarrow> do {
               k \<leftarrow> coap_uri_hash (Some u);
               Some (s\<lparr>cs_subs := (cs_subs s)(a \<mapsto> \<lparr>sub_resource = k, sub_expires = expiry,
                  sub_subscriber = subscriber, sub_token = null_str\<rparr>)\<rparr>, Some a) }))"

definition coap_list_push_first ::
  "coap_env \<Rightarrow> nat option \<Rightarrow> nat option \<Rightarrow> delete_fn \<Rightarrow> coap_state \<Rightarrow> (coap_state \<times> nat option \<times> nat option) option" where
  "coap_list_push_first env list data del s =
     (case coap_new_listnode env data del s of
        (s, None) \<Rightarrow> Some (s, list, None)
      | (s, Some n) \<Rightarrow>
          (case list of None \<Rightarrow> Some (s, Some n, Some n)
           | Some f \<Rightarrow> do { h \<leftarrow> set_next n (Some f) (cs_list s); Some (s\<lparr>cs_list := h\<rparr>, Some n, Some n) }))"

definition order_subscription :: "coap_state \<Rightarrow> nat option \<Rightarrow> nat option \<Rightarrow> int option" where
  "order_subscription s a b =
     (case (a, b) of
        (Some x, Some y) \<Rightarrow> do { p \<leftarrow> cs_subs s x; q \<leftarrow> cs_subs s y;
                               Some (if sub_expires p < sub_expires q then -1 else 1) }
      | (None, Some _) \<Rightarrow> Some (-1)
      | _ \<Rightarrow> Some 1)"

text \<open>The bytes of the address structure as they lie in memory.\<close>

definition sockaddr_bytes :: "sockaddr \<Rightarrow> u8 list" where
  "sockaddr_bytes a = [lo8 (sin6_family a), hi8 (sin6_family a), lo8 (sin6_port a), hi8 (sin6_port a)] @
     bytes32 (sin6_flowinfo a) @ sin6_addr a @ bytes32 (sin6_scope_id a)"

definition coap_subscription_hash :: "coap_subscription option \<Rightarrow> u32 option" where
  "coap_subscription_hash subscription =
     (case subscription of None \<Rightarrow> Some COAP_INVALID_HASHKEY
      | Some b \<Rightarrow> hash2 (sub_resource b) (sockaddr_bytes (sub_subscriber b)) (Some 0) 28)"

definition coap_add_subscription :: "coap_env \<Rightarrow> nat option \<Rightarrow> coap_state \<Rightarrow> (coap_state \<times> u32) option" where
  "coap_add_subscription env subscription s =
     (case subscription of None \<Rightarrow> Some (s, COAP_INVALID_HASHKEY)
      | Some a \<Rightarrow>
          (case coap_new_listnode env subscription NoDelete s of
             (s, None) \<Rightarrow> Some (s, COAP_INVALID_HASHKEY)
           | (s, Some n) \<Rightarrow> do {
               (h, q, r) \<leftarrow> coap_insert (order_subscription s) (cs_list s) (subscriptions s) (Some n);
               let s = s\<lparr>cs_list := h, subscriptions := q\<rparr>;
               if r = 0 then do { ls \<leftarrow> coap_free (cs_list s) (Some n); Some (s\<lparr>cs_list := ls\<rparr>, COAP_INVALID_HASHKEY) }
               else do { b \<leftarrow> cs_subs s a; k \<leftarrow> coap_subscription_hash (Some b); Some (s, k) } }))"

definition str_read :: "coap_state \<Rightarrow> str \<Rightarrow> u32 \<Rightarrow> u8 list option" where
  "str_read s x len =
     (if len = 0 then Some []
      else do { a \<leftarrow> st_s x; b \<leftarrow> cs_blocks s a; rdn b 0 (unat len) })"

definition token_differs :: "coap_state \<Rightarrow> str option \<Rightarrow> str \<Rightarrow> bool option" where
  "token_differs s token t =
     (case token of None \<Rightarrow> Some False
      | Some k \<Rightarrow> if st_length k \<noteq> st_length t then Some True
                 else do { x \<leftarrow> str_read s k (st_length k); y \<leftarrow> str_read s t (st_length k); Some (x \<noteq> y) })"

definition same_peer :: "sockaddr \<Rightarrow> sockaddr \<Rightarrow> bool" where
  "same_peer a b \<longleftrightarrow> sin6_port a = sin6_port b \<and> sin6_addr a = sin6_addr b"

partial_function (option) find_subscription_loop ::
  "u32 \<Rightarrow> sockaddr \<Rightarrow> str option \<Rightarrow> nat option \<Rightarrow> coap_state \<Rightarrow> nat option option" where
  "find_subscription_loop key subscriber token node s =
     (case node of None \<Rightarrow> Some None
      | Some n \<Rightarrow> do {
          x \<leftarrow> node_sub s n;
          let b = snd (snd x);
          hit \<leftarrow> (if sub_resource b = key
                 then do { d \<leftarrow> token_differs s token (sub_token b); Some (\<not> d \<and> same_peer subscriber (sub_subscriber b)) }
                 else Some False);
          if hit then Some (Some (fst (snd x)))
          else find_subscription_loop key subscriber token (nx (fst x)) s })"

definition coap_find_subscription :: "u32 \<Rightarrow> sockaddr option \<Rightarrow> str option \<Rightarrow> coap_state \<Rightarrow> nat option option" where
  "coap_find_subscription key subscriber token s =
     (case subscriber of None \<Rightarrow> Some None
      | Some a \<Rightarrow> if key = COAP_INVALID_HASHKEY then Some None
                 else find_subscription_loop key a token (subscriptions s) s)"

partial_function (option) delete_subscription_loop ::
  "u32 \<Rightarrow> sockaddr \<Rightarrow> nat option \<Rightarrow> nat option \<Rightarrow> coap_state \<Rightarrow> (coap_state \<times> int) option" where
  "delete_subscription_loop key subscriber prev node s =
     (case node of None \<Rightarrow> Some (s, 0)
      | Some n \<Rightarrow> do {
          x \<leftarrow> node_sub s n;
          let b = snd (snd x);
          if sub_resource b = key \<and> same_peer subscriber (sub_subscriber b) then do {
            y \<leftarrow> unlink_node prev (nx (fst x)) (cs_list s) (subscriptions s);
            bs \<leftarrow> coap_free (cs_blocks s) (st_s (sub_token b));
            z \<leftarrow> coap_delete (Some n) (s\<lparr>cs_list := fst y, subscriptions := snd y, cs_blocks := bs\<rparr>);
            Some (fst z, 1) }
          else delete_subscription_loop key subscriber (Some n) (nx (fst x)) s })"

definition coap_delete_subscription :: "u32 \<Rightarrow> sockaddr option \<Rightarrow> coap_state \<Rightarrow> (coap_state \<times> int) option" where
  "coap_delete_subscription key subscriber s =
     (case subscriber of None \<Rightarrow> Some (s, 0)
      | Some a \<Rightarrow> if key = COAP_INVALID_HASHKEY then Some (s, 0)
                 else delete_subscription_loop key a None (subscriptions s) s)"

section \<open>Notifications\<close>

definition MMASK :: u32 where "MMASK = 240"

definition pseudofp_encode_down :: "u32 \<Rightarrow> u8" where
  "pseudofp_encode_down v =
     (if v < 128 then ucast v
      else let ls = coap_fls v - 8 in ucast ((drop_bit ls v AND MMASK) + of_nat ls))"

definition upd_pdu :: "nat \<Rightarrow> (coap_pdu \<Rightarrow> coap_pdu option) \<Rightarrow> coap_state \<Rightarrow> coap_state option" where
  "upd_pdu a f s = do { p \<leftarrow> cs_pdus s a; q \<leftarrow> f p; Some (s\<lparr>cs_pdus := (cs_pdus s)(a \<mapsto> q)\<rparr>) }"

definition on_mem :: "(mem \<Rightarrow> mem option) \<Rightarrow> coap_pdu \<Rightarrow> coap_pdu option" where
  "on_mem f p = do { m \<leftarrow> f (pdu_mem p); Some (p\<lparr>pdu_mem := m\<rparr>) }"

definition add_opt :: "u8 \<Rightarrow> u32 \<Rightarrow> mem \<Rightarrow> coap_pdu \<Rightarrow> coap_pdu option" where
  "add_opt type len data p = do { (q, r) \<leftarrow> coap_add_option (Some p) type len data; q }"

definition add_str_opt :: "u8 \<Rightarrow> mem \<Rightarrow> str \<Rightarrow> coap_pdu \<Rightarrow> coap_pdu option" where
  "add_str_opt type m x p =
     (if st_length x = 0 then Some p else do { q \<leftarrow> st_s x; add_opt type (st_length x) (drop q m) p })"

text \<open>The function of the resource writes its representation at the data pointer of the message
  and reports a length.\<close>

definition add_representation :: "coap_env \<Rightarrow> nat \<Rightarrow> mem \<times> coap_uri \<Rightarrow> u8 \<Rightarrow> coap_pdu \<Rightarrow> coap_pdu option" where
  "add_representation env f u ct p =
     do { i \<leftarrow> hdr_id (pdu_mem p);
          let (i, bs, len) = env_data env f u i ct (of_nat COAP_MAX_PDU_SIZE - of_nat (pdu_data p));
          m \<leftarrow> hdr_set_id (pdu_mem p) i;
          m \<leftarrow> wrn m (pdu_data p) bs;
          Some (p\<lparr>pdu_mem := m, pdu_length := pdu_length p + ucast len\<rparr>) }"

definition notify ::
  "coap_env \<Rightarrow> coap_resource \<Rightarrow> coap_subscription \<Rightarrow> u32 \<Rightarrow> u8 \<Rightarrow> coap_state \<Rightarrow> coap_state option" where
  "notify env res sub duration code s =
     do { (s, pdu) \<leftarrow> new_pdu env s;
          case pdu of None \<Rightarrow> Some s
          | Some a \<Rightarrow> do {
              s \<leftarrow> upd_pdu a (on_mem (\<lambda>m. hdr_set_type m COAP_MESSAGE_CON)) s;
              s \<leftarrow> upd_pdu a (on_mem (\<lambda>m. hdr_set_id m (env_rand env (cs_calls s)))) s;
              s \<leftarrow> upd_pdu a (on_mem (\<lambda>m. hdr_set_code m code)) s;
              ua \<leftarrow> res_uri res;
              (um, u) \<leftarrow> cs_uris s ua;
              s \<leftarrow> upd_pdu a (add_str_opt COAP_OPTION_URI_AUTHORITY um (uri_na u)) s;
              s \<leftarrow> upd_pdu a (add_str_opt COAP_OPTION_URI_PATH um (uri_path u)) s;
              s \<leftarrow> upd_pdu a (add_opt COAP_OPTION_SUBSCRIPTION 1 [pseudofp_encode_down duration]) s;
              tok \<leftarrow> str_read s (sub_token sub) (st_length (sub_token sub));
              s \<leftarrow> upd_pdu a (if tok = [] then Some else add_opt COAP_OPTION_TOKEN (st_length (sub_token sub)) tok) s;
              s \<leftarrow> upd_pdu a (add_str_opt COAP_OPTION_URI_QUERY um (uri_query u)) s;
              s \<leftarrow> (case res_data res of None \<Rightarrow> Some s
                   | Some f \<Rightarrow> upd_pdu a (add_representation env f (um, u) (res_mediatype res)) s);
              (s, tid) \<leftarrow> coap_send_confirmed env (sub_subscriber sub) (Some a) s;
              if is_invalid tid then coap_delete_pdu (Some a) s else Some s } }"

partial_function (option) notify_subscribers ::
  "coap_env \<Rightarrow> coap_resource \<Rightarrow> u32 \<Rightarrow> time_t \<Rightarrow> nat option \<Rightarrow> coap_state \<Rightarrow> coap_state option" where
  "notify_subscribers env res key now sub s =
     (case sub of None \<Rightarrow> Some s
      | Some n \<Rightarrow> do {
          x \<leftarrow> node_sub s n;
          let b = snd (snd x);
          s \<leftarrow> (if sub_resource b = key
               then notify env res b (word_of_int (sub_expires b - now)) COAP_RESPONSE_200 s
               else Some s);
          notify_subscribers env res key now (nx (fst x)) s })"

partial_function (option) check_resources ::
  "coap_env \<Rightarrow> time_t \<Rightarrow> nat option \<Rightarrow> coap_state \<Rightarrow> coap_state option" where
  "check_resources env now res s =
     (case res of None \<Rightarrow> Some s
      | Some n \<Rightarrow> do {
          x \<leftarrow> node_res s n;
          let a = fst (snd x);
          let r = snd (snd x);
          s \<leftarrow> (if res_dirty r \<and> res_uri r \<noteq> None then do {
                 key \<leftarrow> res_key s r;
                 s \<leftarrow> notify_subscribers env r key now (subscriptions s) s;
                 Some (s\<lparr>cs_ress := (cs_ress s)(a \<mapsto> r\<lparr>res_dirty := False\<rparr>)\<rparr>) }
               else Some s);
          check_resources env now (nx (fst x)) s })"

definition coap_check_resource_list :: "coap_env \<Rightarrow> coap_state \<Rightarrow> coap_state option" where
  "coap_check_resource_list env s = check_resources env (cs_now s) (resources s) s"

section \<open>Receiving\<close>

text \<open>\<open>recvfrom\<close> gives at most as many bytes as fit the buffer, or fails.\<close>

definition coap_read :: "coap_env \<Rightarrow> (u8 list \<times> sockaddr) option \<Rightarrow> coap_state \<Rightarrow> (coap_state \<times> int) option" where
  "coap_read env rcv s =
     (case rcv of None \<Rightarrow> Some (s, -1)
      | Some (frame, src) \<Rightarrow>
          let buf = take COAP_MAX_PDU_SIZE frame in
          if length buf < SIZEOF_HDR then Some (s, -1)
          else do {
            v \<leftarrow> hdr_version buf;
            if v \<noteq> 1 then Some (s, -1)
            else (case coap_new_node env s of
                (s, None) \<Rightarrow> Some (s, -1)
              | (s, Some n) \<Rightarrow> do {
                  (s, pdu) \<leftarrow> new_pdu env s;
                  s \<leftarrow> upd_node n (\<lambda>c. c\<lparr>q_pdu := pdu\<rparr>) s;
                  case pdu of None \<Rightarrow> do { (s, r) \<leftarrow> coap_delete_node (Some n) s; Some (s, -1) }
                  | Some a \<Rightarrow> do {
                      s \<leftarrow> upd_node n (\<lambda>c. c\<lparr>q_t := cs_now s, q_remote := src\<rparr>) s;
                      s \<leftarrow> upd_pdu a (on_mem (\<lambda>m. wrn m 0 buf)) s;
                      s \<leftarrow> upd_pdu a (\<lambda>p. Some (p\<lparr>pdu_length := of_nat (length buf)\<rparr>)) s;
                      p \<leftarrow> cs_pdus s a;
                      cnt \<leftarrow> hdr_optcnt (pdu_mem p);
                      (opt, code) \<leftarrow> skip_options (unat cnt) (pdu_mem p) SIZEOF_HDR 0;
                      s \<leftarrow> upd_pdu a (\<lambda>p. Some (p\<lparr>pdu_data :=
                             (if unat (pdu_length p) < opt then unat (pdu_length p) else opt)\<rparr>)) s;
                      (h, q, r) \<leftarrow> coap_insert_node (order_transaction_id s) (cs_queue s) (recvqueue s) (Some n);
                      Some (s\<lparr>cs_queue := h, recvqueue := q\<rparr>, 0) } }) })"

text \<open>The error response for an unknown critical option \<open>opt\<close> of the message \<open>d\<close>.\<close>

definition reject_critical :: "coap_env \<Rightarrow> coap_queue \<Rightarrow> coap_pdu \<Rightarrow> u8 \<Rightarrow> nat \<Rightarrow> coap_state \<Rightarrow> coap_state option" where
  "reject_critical env c d type opt s =
     do { (s, response) \<leftarrow> new_pdu env s;
          case response of None \<Rightarrow> Some s
          | Some a \<Rightarrow> do {
              i \<leftarrow> hdr_id (pdu_mem d);
              s \<leftarrow> upd_pdu a (on_mem (\<lambda>m. hdr_set_type m COAP_MESSAGE_RST)) s;
              s \<leftarrow> upd_pdu a (on_mem (\<lambda>m. hdr_set_code m COAP_RESPONSE_X_242)) s;
              s \<leftarrow> upd_pdu a (on_mem (\<lambda>m. hdr_set_id m i)) s;
              l \<leftarrow> COAP_OPT_LENGTH (pdu_mem d) opt;
              v \<leftarrow> COAP_OPT_VALUE (pdu_mem d) opt;
              s \<leftarrow> upd_pdu a (add_opt type (of_nat l) (drop v (pdu_mem d))) s;
              (s, tid) \<leftarrow> coap_send env (q_remote c) (Some a) s;
              if is_invalid tid then coap_delete_pdu (Some a) s else Some s } }"

definition remove_sent :: "u16 \<Rightarrow> coap_state \<Rightarrow> coap_state option" where
  "remove_sent tid s =
     do { (s, q, r) \<leftarrow> coap_remove_transaction (sendqueue s) tid s; Some (s\<lparr>sendqueue := q\<rparr>) }"

text \<open>A reset also ends the subscription that the message belonged to.\<close>

definition reset_subscription :: "u16 \<Rightarrow> sockaddr \<Rightarrow> coap_state \<Rightarrow> coap_state option" where
  "reset_subscription tid remote s =
     do { sent \<leftarrow> coap_find_transaction s tid (sendqueue s);
          case sent of None \<Rightarrow> Some s
          | Some x \<Rightarrow> do {
              c \<leftarrow> cs_queue s x;
              p \<leftarrow> (case q_pdu c of None \<Rightarrow> Some None | Some a \<Rightarrow> do { d \<leftarrow> cs_pdus s a; Some (Some d) });
              (u, r) \<leftarrow> coap_get_request_uri p (Some null_uri);
              if r \<noteq> 0 then do {
                d \<leftarrow> p;
                u \<leftarrow> u;
                key \<leftarrow> coap_uri_hash (Some (pdu_mem d, u));
                (s, r) \<leftarrow> coap_delete_subscription key (Some remote) s;
                Some s }
              else Some s } }"

text \<open>One message; the flag tells whether it goes on to the handler.\<close>

definition dispatch_message :: "coap_env \<Rightarrow> nat \<Rightarrow> coap_state \<Rightarrow> (coap_state \<times> bool) option" where
  "dispatch_message env n s =
     do { c \<leftarrow> cs_queue s n;
          a \<leftarrow> q_pdu c;
          d \<leftarrow> cs_pdus s a;
          type \<leftarrow> hdr_type (pdu_mem d);
          tid \<leftarrow> hdr_id (pdu_mem d);
          if type = COAP_MESSAGE_ACK then do { s \<leftarrow> remove_sent tid s; Some (s, True) }
          else if type = COAP_MESSAGE_RST then do {
            s \<leftarrow> reset_subscription tid (q_remote c) s;
            s \<leftarrow> remove_sent tid s;
            Some (s, True) }
          else do {
            (opt, code) \<leftarrow> coap_check_critical (Some d);
            if type = COAP_MESSAGE_NON then Some (s, code = 0)
            else if code = 0 then Some (s, True)
            else do { opt \<leftarrow> opt; s \<leftarrow> reject_critical env c d code opt s; Some (s, False) } } }"

text \<open>The loop; \<open>handler\<close> is the function that the application registered.\<close>

partial_function (option) coap_dispatch ::
  "coap_env \<Rightarrow> (coap_state \<Rightarrow> nat \<Rightarrow> coap_state option) option \<Rightarrow> coap_state \<Rightarrow> coap_state option" where
  "coap_dispatch env handler s =
     (case recvqueue s of None \<Rightarrow> Some s
      | Some n \<Rightarrow> do {
          c \<leftarrow> cs_queue s n;
          h \<leftarrow> set_next n None (cs_queue s);
          x \<leftarrow> dispatch_message env n (s\<lparr>recvqueue := nx c, cs_queue := h\<rparr>);
          s \<leftarrow> (case handler of None \<Rightarrow> Some (fst x)
               | Some f \<Rightarrow> if snd x then f (fst x) n else Some (fst x));
          y \<leftarrow> coap_delete_node (Some n) s;
          coap_dispatch env handler (fst y) })"

end
