(* ===== verification/Coap_Options.thy ===== *)
theory Coap_Options
  imports Coap_Pdu
begin

text \<open>
  The option list of a CoAP message as an abstract sequence of codes and values, and the
  operations of \<open>Coap_Pdu\<close> on it: adding an option appends (with fence posts where the step is
  above fifteen), checking finds the first option of the code.  The variable-length integers
  of \<open>encode.c\<close> are shown to round-trip.
\<close>

section \<open>Nibbles\<close>

lemma nibble_mask: "(15 :: u8) = mask 4" "(0xF0 :: u8) = push_bit 4 (mask 4)"
  by (simp_all add: mask_eq_exp_minus_1 push_bit_eq_mult)

lemma low_nibble_eq: "l \<le> 15 \<Longrightarrow> l AND mask 4 = (l :: u8)"
proof -
  assume "l \<le> 15"
  then have "unat l < 2 ^ 4" by (simp add: word_le_nat_alt)
  then have "unat (take_bit 4 l) = unat l" by (simp add: unsigned_take_bit_eq take_bit_nat_eq_self)
  then show ?thesis by (simp add: take_bit_eq_mask word_unat_eq_iff)
qed

lemma low_nibble: "l \<le> 15 \<Longrightarrow> (push_bit 4 d OR l) AND 15 = (l :: u8)"
proof -
  assume l: "l \<le> 15"
  have "(push_bit 4 d OR l) AND mask 4 = l AND mask 4"
    by (rule bit_word_eqI) (auto simp: bit_simps)
  then show ?thesis using low_nibble_eq [OF l] by (simp add: nibble_mask)
qed

lemma high_nibble: "l \<le> 15 \<Longrightarrow> d \<le> 15 \<Longrightarrow> drop_bit 4 (push_bit 4 d OR l) = (d :: u8)"
proof -
  assume l: "l \<le> 15" and d: "d \<le> 15"
  have "drop_bit 4 (push_bit 4 (d AND mask 4) OR (l AND mask 4)) = (d AND mask 4 :: u8)"
    by (rule bit_word_eqI) (auto simp: bit_simps)
  then show ?thesis using l d by (simp add: low_nibble_eq)
qed

lemma high_nibble_parts:
  "l \<le> 15 \<Longrightarrow> d \<le> 15 \<Longrightarrow> drop_bit 4 (push_bit 4 d) OR drop_bit 4 l = (d :: u8)"
  "d \<le> 15 \<Longrightarrow> drop_bit 4 (push_bit 4 d) = (d :: u8)"
  using high_nibble [of l d] high_nibble [of 0 d] by (simp_all add: drop_bit_or)

lemma set_low: "(b AND 0xF0) OR l = push_bit 4 (drop_bit 4 b) OR (l :: u8)"
  unfolding nibble_mask by (rule bit_word_eqI) (auto simp: bit_simps)

lemma byte_nibbles: "push_bit 4 (drop_bit 4 b) OR (b AND 15) = (b :: u8)"
  unfolding nibble_mask by (rule bit_word_eqI) (auto simp: bit_simps)

lemma nibble_le: "b AND 15 \<le> (15 :: u8)" "drop_bit 4 b \<le> (15 :: u8)"
proof -
  show "b AND 15 \<le> (15 :: u8)" by (simp add: word_and_le1)
  have "unat b < 256" using unsigned_less [of b] by simp
  then have "unat (drop_bit 4 b) \<le> 15" by (simp add: drop_bit_eq_div unat_div_distrib)
  then show "drop_bit 4 b \<le> (15 :: u8)" by (simp add: word_le_nat_alt)
qed

lemma ucast_nat: "ucast (of_nat k :: u32) = (of_nat k :: u8)"
  by (rule bit_word_eqI) (auto simp: bit_simps bit_of_nat_iff)

lemma ucast_nat16: "ucast (of_nat k :: u32) = (of_nat k :: u16)"
  by (rule bit_word_eqI) (auto simp: bit_simps bit_of_nat_iff)

section \<open>One option\<close>

definition len_nibble :: "nat \<Rightarrow> u8" where
  "len_nibble n = (if n < 15 then of_nat n else 15)"

definition enc_opt :: "u8 \<Rightarrow> u8 list \<Rightarrow> u8 list" where
  "enc_opt d v = (push_bit 4 d OR len_nibble (length v)) #
     (if length v < 15 then [] else [of_nat (length v - 15)]) @ v"

lemma unat_len_nibble: "unat (len_nibble n) = min n 15"
  by (simp add: len_nibble_def unsigned_of_nat take_bit_nat_eq_self)

lemma len_nibble_le [simp]: "len_nibble n \<le> 15"
  by (simp add: word_le_nat_alt unat_len_nibble)

lemma len_nibble_15: "len_nibble n = 15 \<longleftrightarrow> 15 \<le> n"
  by (auto simp: word_unat_eq_iff unat_len_nibble)

lemma length_enc_opt: "length (enc_opt d v) = length v + (if length v < 15 then 1 else 2)"
  by (simp add: enc_opt_def)

lemma read_opt:
  assumes h: "has_at m p (enc_opt d v)" and v: "length v \<le> 270" and d: "d \<le> 15"
  shows "COAP_OPT_DELTA m p = Some d" "COAP_OPT_LENGTH m p = Some (length v)"
    "COAP_OPT_SIZE m p = Some (length (enc_opt d v))"
    "COAP_OPT_VALUE m p = Some (p + (if length v < 15 then 1 else 2))"
    "has_at m (p + (if length v < 15 then 1 else 2)) v"
proof -
  have b: "rd m p = Some (push_bit 4 d OR len_nibble (length v))"
    using h by (simp add: enc_opt_def rd_has_at)
  have ext: "COAP_OPT_ISEXTENDED m p = Some (\<not> length v < 15)"
    using b by (simp add: COAP_OPT_ISEXTENDED_def low_nibble len_nibble_15 not_less)
  show "COAP_OPT_DELTA m p = Some d" using b d by (simp add: COAP_OPT_DELTA_def high_nibble_parts(1))
  show len: "COAP_OPT_LENGTH m p = Some (length v)"
  proof (cases "length v < 15")
    case True
    then show ?thesis using b ext by (simp add: COAP_OPT_LENGTH_def low_nibble unat_len_nibble)
  next
    case False
    then have "rd m (p + 1) = Some (of_nat (length v - 15))"
      using h by (simp add: enc_opt_def has_at_Cons rd_def)
    moreover have "unat (of_nat (length v - 15) :: u8) = length v - 15"
      using v by (simp add: unsigned_of_nat take_bit_nat_eq_self)
    ultimately show ?thesis using ext False by (simp add: COAP_OPT_LENGTH_def)
  qed
  show "COAP_OPT_SIZE m p = Some (length (enc_opt d v))"
    using len ext by (simp add: COAP_OPT_SIZE_def length_enc_opt)
  show "COAP_OPT_VALUE m p = Some (p + (if length v < 15 then 1 else 2))"
    using ext by (simp add: COAP_OPT_VALUE_def)
  show "has_at m (p + (if length v < 15 then 1 else 2)) v"
    using h by (auto simp: enc_opt_def has_at_Cons split: if_splits)
qed

text \<open>Setting the delta and the length, and copying the value, writes exactly the encoding.\<close>

lemma write_opt_enc:
  assumes sp: "p + length (enc_opt d v) \<le> length m" and v: "length v \<le> 270" and d: "d \<le> 15"
  shows "\<exists>m1 m2. COAP_OPT_SETDELTA m p d = Some m1 \<and>
    COAP_OPT_SETLENGTH m1 p (of_nat (length v)) = Some m2 \<and>
    COAP_OPT_VALUE m2 p = Some (p + (if length v < 15 then 1 else 2)) \<and>
    wrn m2 (p + (if length v < 15 then 1 else 2)) v = Some (put m p (enc_opt d v))"
proof -
  define l where "l = len_nibble (length v)"
  have p: "p < length m" using sp by (simp add: length_enc_opt split: if_splits)
  define m1 where "m1 = m[p := push_bit 4 d OR (m ! p AND 15)]"
  have s1: "COAP_OPT_SETDELTA m p d = Some m1"
    using p by (simp add: COAP_OPT_SETDELTA_def rd_def wr_def m1_def or.commute)
  have hd: "(m1 ! p AND 0xF0) OR x = push_bit 4 d OR x" for x
    using p d by (simp add: set_low m1_def high_nibble_parts nibble_le)
  have u: "unat (of_nat (length v) :: u32) = length v"
    using v by (simp add: unsigned_of_nat take_bit_nat_eq_self)
  then have lt: "(of_nat (length v) :: u32) < 15 \<longleftrightarrow> length v < 15" by (simp add: word_less_nat_alt)
  show ?thesis
  proof (cases "length v < 15")
    case True
    define m2 where "m2 = m[p := push_bit 4 d OR l]"
    have "ucast (of_nat (length v) :: u32) = (of_nat (length v) :: u8)" by (rule ucast_nat)
    then have "ucast (of_nat (length v) :: u32) AND 15 = l"
      using True low_nibble [of l 0] len_nibble_le [of "length v"] by (simp add: l_def len_nibble_def)
    then have "COAP_OPT_SETLENGTH m1 p (of_nat (length v)) = Some (m1[p := push_bit 4 d OR l])"
      using p lt True hd by (simp add: COAP_OPT_SETLENGTH_def rd_def wr_def m1_def)
    then have s2: "COAP_OPT_SETLENGTH m1 p (of_nat (length v)) = Some m2" by (simp add: m1_def m2_def)
    have "COAP_OPT_VALUE m2 p = Some (p + 1)"
      using p True by (simp add: COAP_OPT_VALUE_def COAP_OPT_ISEXTENDED_def rd_def m2_def low_nibble l_def len_nibble_15)
    moreover have "wrn m2 (p + 1) v = Some (put m p (enc_opt d v))"
      using sp True by (simp add: wrn_def m2_def enc_opt_def put_Cons l_def)
    ultimately show ?thesis using s1 s2 True by auto
  next
    case False
    define m2 where "m2 = m[p := push_bit 4 d OR l, p + 1 := of_nat (length v - 15)]"
    have p1: "p + 1 < length m" using sp False by (simp add: length_enc_opt)
    have "(of_nat (length v) - 15 :: u32) = of_nat (length v - 15)" using False by (simp add: of_nat_diff)
    then have "ucast (of_nat (length v) - 15 :: u32) = (of_nat (length v - 15) :: u8)"
      by (simp only: ucast_nat)
    then have "COAP_OPT_SETLENGTH m1 p (of_nat (length v)) =
        Some (m1[p + 1 := of_nat (length v - 15), p := push_bit 4 d OR 15])"
      using p p1 lt False hd by (simp add: COAP_OPT_SETLENGTH_def rd_def wr_def m1_def)
    moreover have "m1[p + 1 := of_nat (length v - 15), p := push_bit 4 d OR 15] = m2"
      using False by (simp add: m1_def m2_def l_def len_nibble_def list_update_swap)
    ultimately have s2: "COAP_OPT_SETLENGTH m1 p (of_nat (length v)) = Some m2" by simp
    have "COAP_OPT_VALUE m2 p = Some (p + 2)"
      using p False by (simp add: COAP_OPT_VALUE_def COAP_OPT_ISEXTENDED_def rd_def m2_def low_nibble l_def len_nibble_15)
    moreover have "wrn m2 (p + 2) v = Some (put m p (enc_opt d v))"
      using sp False by (simp add: wrn_def m2_def enc_opt_def put_Cons l_def)
    ultimately show ?thesis using s1 s2 False by auto
  qed
qed

section \<open>The option list\<close>

fun encs :: "u8 \<Rightarrow> (u8 \<times> u8 list) list \<Rightarrow> u8 list" where
  "encs c [] = []" |
  "encs c ((t, v) # xs) = enc_opt (t - c) v @ encs t xs"

fun last_code :: "u8 \<Rightarrow> (u8 \<times> u8 list) list \<Rightarrow> u8" where
  "last_code c [] = c" |
  "last_code c ((t, v) # xs) = last_code t xs"

fun opts_ok :: "u8 \<Rightarrow> (u8 \<times> u8 list) list \<Rightarrow> bool" where
  "opts_ok c [] \<longleftrightarrow> True" |
  "opts_ok c ((t, v) # xs) \<longleftrightarrow> c \<le> t \<and> t - c \<le> 15 \<and> length v \<le> 270 \<and> opts_ok t xs"

lemma encs_append: "encs c (xs @ ys) = encs c xs @ encs (last_code c xs) ys"
  by (induction c xs rule: encs.induct) auto

lemma last_code_append [simp]: "last_code c (xs @ ys) = last_code (last_code c xs) ys"
  by (induction c xs rule: last_code.induct) auto

lemma opts_ok_append: "opts_ok c (xs @ ys) \<longleftrightarrow> opts_ok c xs \<and> opts_ok (last_code c xs) ys"
  by (induction c xs rule: opts_ok.induct) auto

lemma skip_options_list:
  "opts_ok c xs \<Longrightarrow> has_at m p (encs c xs) \<Longrightarrow>
   skip_options (length xs) m p c = Some (p + length (encs c xs), last_code c xs)"
  by (induction c xs arbitrary: p rule: opts_ok.induct) (auto simp: has_at_append read_opt add.assoc)

text \<open>A message that holds the options \<open>xs\<close>: their number is in the header and their encodings
  follow it.\<close>

definition opts_at :: "mem \<Rightarrow> (u8 \<times> u8 list) list \<Rightarrow> bool" where
  "opts_at m xs \<longleftrightarrow> hdr_optcnt m = Some (of_nat (length xs)) \<and> length xs \<le> 15 \<and>
     has_at m SIZEOF_HDR (encs 0 xs) \<and> opts_ok 0 xs"

definition opts_end :: "(u8 \<times> u8 list) list \<Rightarrow> nat" where
  "opts_end xs = SIZEOF_HDR + length (encs 0 xs)"

lemma opts_atD:
  assumes "opts_at m xs"
  shows "hdr_optcnt m = Some (of_nat (length xs))" "unat (of_nat (length xs) :: u8) = length xs"
    "skip_options (length xs) m SIZEOF_HDR 0 = Some (opts_end xs, last_code 0 xs)" "opts_end xs \<le> length m"
  using assms skip_options_list [of 0 xs m SIZEOF_HDR]
  by (auto simp: opts_at_def opts_end_def unsigned_of_nat take_bit_nat_eq_self has_at_len)

text \<open>Writing one more option behind the list and counting it.\<close>

lemma bump_run:
  assumes "m \<noteq> []"
  shows "bump_optcnt m = Some (m[0 := (m ! 0 AND 0xF0) OR ((m ! 0 AND 15) + 1 AND 15)])"
  using assms by (simp add: bump_optcnt_def hdr_optcnt_def hdr_set_optcnt_def rd_def wr_def)

lemma rd_put_below: "q < p \<Longrightarrow> p + length bs \<le> length m \<Longrightarrow> rd (put m p bs) q = rd m q"
  by (simp add: rd_def put_nth)

lemma append_opt:
  assumes o: "opts_at m xs" and ok: "opts_ok 0 (xs @ [(t, v)])" and cnt: "length xs < 15"
    and sp: "opts_end (xs @ [(t, v)]) \<le> length m" and b: "bump_optcnt m = Some m1"
  shows "opts_at (put m1 (opts_end xs) (enc_opt (t - last_code 0 xs) v)) (xs @ [(t, v)])"
proof -
  let ?e = "enc_opt (t - last_code 0 xs) v"
  have ne: "m \<noteq> []" using o by (auto simp: opts_at_def hdr_optcnt_def rd_def split: if_splits)
  have m1: "m1 = m[0 := (m ! 0 AND 0xF0) OR ((m ! 0 AND 15) + 1 AND 15)]"
    using b bump_run [OF ne] by simp
  have en: "opts_end (xs @ [(t, v)]) = opts_end xs + length ?e" by (simp add: opts_end_def encs_append)
  have c: "m ! 0 AND 15 = of_nat (length xs)"
    using o ne by (simp add: opts_at_def hdr_optcnt_def rd_def)
  have "unat (of_nat (length xs + 1) :: u8) = length xs + 1"
    using cnt unfolding unsigned_of_nat by (simp add: take_bit_nat_eq_self del: of_nat_add)
  then have "(of_nat (length xs + 1) :: u8) \<le> 15"
    using cnt by (simp add: word_le_nat_alt del: of_nat_add of_nat_Suc)
  then have "((m ! 0 AND 0xF0) OR ((m ! 0 AND 15) + 1 AND 15)) AND 15 = of_nat (length xs + 1)"
    unfolding set_low c using low_nibble [of "of_nat (length xs + 1)"] low_nibble_eq
    by (simp add: low_nibble nibble_le nibble_mask(1) add.commute)
  then have h: "hdr_optcnt (put m1 (opts_end xs) ?e) = Some (of_nat (length xs + 1))"
  proof -
    have "rd (put m1 (opts_end xs) ?e) 0 = rd m1 0"
      using sp en by (intro rd_put_below) (simp_all add: m1 opts_end_def SIZEOF_HDR_def)
    also have "rd m1 0 = Some (m1 ! 0)" using ne by (simp add: rd_def m1)
    finally show ?thesis
      using \<open>((m ! 0 AND 0xF0) OR ((m ! 0 AND 15) + 1 AND 15)) AND 15 = of_nat (length xs + 1)\<close> ne
      by (simp add: hdr_optcnt_def m1)
  qed
  have sp1: "opts_end xs + length ?e \<le> length m1" using sp by (simp add: en m1)
  have hx: "has_at m1 SIZEOF_HDR (encs 0 xs)"
    unfolding m1 using o by (auto simp: opts_at_def has_at_iff SIZEOF_HDR_def)
  have "has_at (put m1 (opts_end xs) ?e) SIZEOF_HDR (encs 0 xs)"
    using hx sp1 by (auto simp: has_at_iff put_nth opts_end_def)
  moreover have "has_at (put m1 (opts_end xs) ?e) (SIZEOF_HDR + length (encs 0 xs)) ?e"
    using sp1 unfolding opts_end_def by (rule has_at_put)
  ultimately show ?thesis using h ok cnt by (simp add: opts_at_def encs_append has_at_append)
qed

section \<open>Fence posts\<close>

text \<open>The codes of the fence posts between two codes: the multiples of fourteen until the rest of
  the way is at most fifteen.\<close>

lemma fence_delta_nat:
  assumes "unat c + 15 < unat (t :: u8)"
  shows "unat (c + fence_delta c) = 14 * (unat c div 14 + 1)" "fence_delta c \<le> 15"
    "c < c + fence_delta c" "c + fence_delta c - c = fence_delta c"
proof -
  have t: "unat t < 256" using unsigned_less [of t] by simp
  have cd: "unat (c div 14) = unat c div 14" by (simp add: unat_div_distrib)
  have q: "unat c div 14 \<le> 17" using assms t by simp
  then have m: "unat (14 * (c div 14 + 1)) = 14 * (unat c div 14 + 1)"
    by (simp add: unat_word_ariths cd)
  then show s: "unat (c + fence_delta c) = 14 * (unat c div 14 + 1)"
    by (simp add: fence_delta_def COAP_OPTION_NOOP_def)
  have lt: "unat c < 14 * (unat c div 14 + 1)"
    using dividend_less_times_div [of 14 "unat c"] by simp
  then show "c < c + fence_delta c" using s by (simp add: word_less_nat_alt)
  have "unat (fence_delta c) = 14 * (unat c div 14 + 1) - unat c"
    using m lt unfolding fence_delta_def COAP_OPTION_NOOP_def by (subst unat_sub) (auto simp: word_le_nat_alt)
  then show "fence_delta c \<le> 15" using div_mult_mod_eq [of "unat c" 14] by (simp add: word_le_nat_alt)
  show "c + fence_delta c - c = fence_delta c" by simp
qed

function fences :: "u8 \<Rightarrow> u8 \<Rightarrow> (u8 \<times> u8 list) list" where
  "fences c t = (if unat c + 15 < unat t then (c + fence_delta c, []) # fences (c + fence_delta c) t else [])"
  by pat_completeness auto
termination
proof (relation "measure (\<lambda>(c, t). unat t - unat c)")
  fix c t :: u8 assume t: "unat c + 15 < unat t"
  then have "unat c < unat (c + fence_delta c)" using fence_delta_nat(3) [OF t] by (simp add: word_less_nat_alt)
  with t show "((c + fence_delta c, t), c, t) \<in> measure (\<lambda>(c, t). unat t - unat c)" by simp
qed simp

declare fences.simps [simp del]

lemma fence_post_run:
  assumes o: "opts_at m xs" and c: "c = last_code 0 xs" and lt: "unat c + 15 < unat (t :: u8)"
    and cnt: "length xs < 15" and sp: "opts_end xs < length m"
  shows "\<exists>m'. fence_post m (opts_end xs) c = Some (m', opts_end xs + 1, c + fence_delta c) \<and>
    opts_at m' (xs @ [(c + fence_delta c, [])]) \<and> length m' = length m"
proof -
  note fd = fence_delta_nat [OF lt]
  let ?d = "fence_delta c" and ?p = "opts_end xs"
  have ne: "m \<noteq> []" using sp by auto
  obtain m1 where b: "bump_optcnt m = Some m1" "length m1 = length m" using bump_run [OF ne] by simp
  have p: "?p < length m1" using sp b by simp
  have e: "enc_opt ?d [] = [push_bit 4 ?d]" by (simp add: enc_opt_def len_nibble_def)
  have s1: "COAP_OPT_SETLENGTH m1 ?p 0 = Some (m1[?p := push_bit 4 (drop_bit 4 (m1 ! ?p))])"
    using p set_low [of "m1 ! ?p" 0] by (simp add: COAP_OPT_SETLENGTH_def rd_def wr_def)
  have z: "push_bit 4 (drop_bit 4 (m1 ! ?p)) AND 15 = (0 :: u8)"
    using low_nibble [of 0 "drop_bit 4 (m1 ! ?p)"] by simp
  define m2 where "m2 = put m1 ?p (enc_opt ?d [])"
  have s2: "COAP_OPT_SETDELTA (m1[?p := push_bit 4 (drop_bit 4 (m1 ! ?p))]) ?p ?d = Some m2"
    using p z by (simp add: COAP_OPT_SETDELTA_def rd_def wr_def m2_def e put_single)
  have h: "has_at m2 ?p (enc_opt ?d [])" using p unfolding m2_def by (intro has_at_put) (simp add: e)
  have r: "COAP_OPT_DELTA m2 ?p = Some ?d" "COAP_OPT_SIZE m2 ?p = Some 1"
    using read_opt(1,3) [OF h _ fd(2)] by (simp_all add: e)
  have ok: "opts_ok 0 (xs @ [(c + ?d, [])])"
    using o fd(2) less_imp_le [OF fd(3)] c by (simp add: opts_at_def opts_ok_append)
  have "opts_end (xs @ [(c + ?d, [])]) \<le> length m"
    using sp c e by (simp add: opts_end_def encs_append)
  then have "opts_at m2 (xs @ [(c + ?d, [])])"
    using append_opt [OF o ok cnt _ b(1)] c by (simp add: m2_def)
  moreover have "fence_post m ?p c = Some (m2, ?p + 1, c + ?d)"
    using b(1) s1 s2 r by (simp add: fence_post_def)
  moreover have "length m2 = length m" using p b(2) by (simp add: m2_def e)
  ultimately show ?thesis by blast
qed

lemma fence_posts_run:
  assumes "opts_at m xs" "c = last_code 0 xs" "c \<le> t"
    "length xs + length (fences c t) \<le> 15" "opts_end xs + length (fences c t) \<le> length m"
  shows "\<exists>m'. fence_posts m (opts_end xs) t c =
      Some (m', opts_end (xs @ fences c t), last_code 0 (xs @ fences c t)) \<and>
    opts_at m' (xs @ fences c t) \<and> length m' = length m \<and>
    last_code 0 (xs @ fences c t) \<le> t \<and> t - last_code 0 (xs @ fences c t) \<le> 15"
  using assms
proof (induction c t arbitrary: m xs rule: fences.induct)
  case (1 c t)
  have g: "(15 < int (unat t) - int (unat c)) = (unat c + 15 < unat t)" by linarith
  show ?case
  proof (cases "unat c + 15 < unat t")
    case False
    have "unat (t - c) = unat t - unat c" using 1(4) by (intro unat_sub)
    then have "t - c \<le> 15" using False by (simp add: word_le_nat_alt)
    moreover have "fences (last_code 0 xs) t = []" using False 1(3) by (simp add: fences.simps)
    ultimately show ?thesis using 1(2-4) False g by (simp add: fence_posts.simps)
  next
    case True
    let ?x = "(c + fence_delta c, []) :: u8 \<times> u8 list"
    have f: "fences c t = ?x # fences (c + fence_delta c) t" using True by (simp add: fences.simps [of c t])
    note fd = fence_delta_nat [OF True]
    have cnt: "length xs < 15" "opts_end xs < length m" using 1(5,6) by (simp_all add: f)
    obtain m' where m': "fence_post m (opts_end xs) c = Some (m', opts_end xs + 1, c + fence_delta c)"
        "opts_at m' (xs @ [?x])" "length m' = length m"
      using fence_post_run [OF 1(2,3) True cnt] by blast
    have e: "opts_end (xs @ [?x]) = opts_end xs + 1"
      using 1(3) by (simp add: opts_end_def encs_append enc_opt_def)
    have "14 * (unat c div 14 + 1) \<le> unat c + 14" using div_mult_mod_eq [of "unat c" 14] by simp
    then have "c + fence_delta c \<le> t" using fd(1) True by (simp add: word_le_nat_alt)
    then obtain m'' where "fence_posts m' (opts_end (xs @ [?x])) t (c + fence_delta c) =
          Some (m'', opts_end ((xs @ [?x]) @ fences (c + fence_delta c) t), last_code 0 ((xs @ [?x]) @ fences (c + fence_delta c) t))"
        "opts_at m'' ((xs @ [?x]) @ fences (c + fence_delta c) t)" "length m'' = length m'"
        "last_code 0 ((xs @ [?x]) @ fences (c + fence_delta c) t) \<le> t"
        "t - last_code 0 ((xs @ [?x]) @ fences (c + fence_delta c) t) \<le> 15"
      using 1(1) [OF True m'(2)] 1(5,6) m'(3) by (auto simp: f e)
    then show ?thesis using m'(1,3) True g by (simp add: f e fence_posts.simps [of m])
  qed
qed

section \<open>Adding and finding options\<close>

definition pdu_opts :: "coap_pdu \<Rightarrow> (u8 \<times> u8 list) list \<Rightarrow> bool" where
  "pdu_opts p xs \<longleftrightarrow> opts_at (pdu_mem p) xs \<and> length (pdu_mem p) = COAP_MAX_PDU_SIZE \<and>
     pdu_data p = opts_end xs \<and> unat (pdu_length p) = opts_end xs"

lemma new_pdu_opts: "\<exists>p. coap_new_pdu True = Some (Some p) \<and> pdu_opts p []"
  by (simp add: coap_new_pdu_def hdr_set_version_def hdr_set_id_def rd_def wr_def wr16_def wrn_def
      COAP_MAX_PDU_SIZE_def pdu_opts_def opts_at_def opts_end_def SIZEOF_HDR_def hdr_optcnt_def put_Cons put_single)

definition with_fences :: "(u8 \<times> u8 list) list \<Rightarrow> u8 \<Rightarrow> u8 list \<Rightarrow> (u8 \<times> u8 list) list" where
  "with_fences xs t v = xs @ fences (last_code 0 xs) t @ [(t, v)]"

text \<open>A write of an option behind the list, whatever the number of options.\<close>

lemma add_option_write:
  assumes o: "opts_at m xs" and t: "last_code 0 xs \<le> t" "t - last_code 0 xs \<le> 15" and v: "length v \<le> 270"
    and d: "has_at data 0 v" and sp: "opts_end xs + length (enc_opt (t - last_code 0 xs) v) \<le> length m"
    and b: "bump_optcnt m = Some m1"
  shows "\<exists>m2 m3. COAP_OPT_SETDELTA m1 (opts_end xs) (t - last_code 0 xs) = Some m2 \<and>
    COAP_OPT_SETLENGTH m2 (opts_end xs) (of_nat (length v)) = Some m3 \<and>
    COAP_OPT_VALUE m3 (opts_end xs) = Some (opts_end xs + (if length v < 15 then 1 else 2)) \<and>
    rdn data 0 (unat (of_nat (length v) :: u32)) = Some v \<and>
    wrn m3 (opts_end xs + (if length v < 15 then 1 else 2)) v =
      Some (put m1 (opts_end xs) (enc_opt (t - last_code 0 xs) v))"
proof -
  have ne: "m \<noteq> []" using o by (auto simp: opts_at_def hdr_optcnt_def rd_def split: if_splits)
  have "length m1 = length m" using b bump_run [OF ne] by auto
  then have "opts_end xs + length (enc_opt (t - last_code 0 xs) v) \<le> length m1" using sp by simp
  moreover have "unat (of_nat (length v) :: u32) = length v"
    using v by (simp add: unsigned_of_nat take_bit_nat_eq_self)
  ultimately show ?thesis using write_opt_enc [of "opts_end xs" "t - last_code 0 xs" v m1] t v rdn_has_at [OF d] by simp
qed

lemma add_option_appends:
  assumes p: "pdu_opts p xs" and t: "last_code 0 xs \<le> t" and v: "length v \<le> 270" and d: "has_at data 0 v"
    and cnt: "length (with_fences xs t v) \<le> 15" and sp: "opts_end (with_fences xs t v) \<le> COAP_MAX_PDU_SIZE"
  shows "\<exists>p'. coap_add_option (Some p) t (of_nat (length v)) data = Some (Some p', int (length v)) \<and>
    pdu_opts p' (with_fences xs t v)"
proof -
  let ?ys = "xs @ fences (last_code 0 xs) t"
  let ?q = "opts_end ?ys" and ?d = "t - last_code 0 ?ys"
  have o: "opts_at (pdu_mem p) xs" and m: "length (pdu_mem p) = COAP_MAX_PDU_SIZE"
    using p by (simp_all add: pdu_opts_def)
  have w: "with_fences xs t v = ?ys @ [(t, v)]" by (simp add: with_fences_def)
  have e: "opts_end (?ys @ [(t, v)]) = ?q + length (enc_opt ?d v)" by (simp add: opts_end_def encs_append)
  have fl: "length (encs c (fences c t)) = length (fences c t)" for c
    by (induction c t rule: fences.induct) (simp add: fences.simps enc_opt_def split: if_split)
  then have "?q = opts_end xs + length (fences (last_code 0 xs) t)" by (simp add: opts_end_def encs_append)
  then obtain m1 where m1: "fence_posts (pdu_mem p) (opts_end xs) t (last_code 0 xs) = Some (m1, ?q, last_code 0 ?ys)"
      "opts_at m1 ?ys" "length m1 = COAP_MAX_PDU_SIZE" "last_code 0 ?ys \<le> t" "?d \<le> 15"
    using fence_posts_run [OF o refl t] cnt sp m e by (auto simp: w)
  have ne: "m1 \<noteq> []" using m1(3) by (auto simp: COAP_MAX_PDU_SIZE_def)
  obtain m2 where m2: "bump_optcnt m1 = Some m2" "length m2 = length m1" using bump_run [OF ne] by simp
  have spq: "?q + length (enc_opt ?d v) \<le> length m1" using sp e m1(3) by (simp add: w)
  obtain m3 m4 where wr: "COAP_OPT_SETDELTA m2 ?q ?d = Some m3"
      "COAP_OPT_SETLENGTH m3 ?q (of_nat (length v)) = Some m4"
      "COAP_OPT_VALUE m4 ?q = Some (?q + (if length v < 15 then 1 else 2))"
      "rdn data 0 (unat (of_nat (length v) :: u32)) = Some v"
      "wrn m4 (?q + (if length v < 15 then 1 else 2)) v = Some (put m2 ?q (enc_opt ?d v))"
    using add_option_write [OF m1(2,4,5) v d spq m2(1)] by blast
  define p' where "p' = p\<lparr>pdu_mem := put m2 ?q (enc_opt ?d v),
      pdu_data := ?q + (if length v < 15 then 1 else 2) + length v,
      pdu_length := of_nat (?q + (if length v < 15 then 1 else 2) + length v)\<rparr>"
  have u: "unat (of_nat (length v) :: u32) = length v" "sint (of_nat (length v) :: u32) = int (length v)"
    using v by (simp_all add: unsigned_of_nat take_bit_nat_eq_self signed_of_nat signed_take_bit_int_eq_self)
  have "coap_add_option (Some p) t (of_nat (length v)) data = Some (Some p', int (length v))"
    using opts_atD(1-3) [OF o] t m1(1) m2(1) wr u
    by (simp add: coap_add_option_def Let_def p'_def not_less)
  moreover have ok: "opts_ok 0 (?ys @ [(t, v)])"
    using m1(2,4,5) v by (simp add: opts_at_def opts_ok_append)
  have "opts_at (pdu_mem p') (?ys @ [(t, v)])"
    using append_opt [OF m1(2) ok _ _ m2(1)] cnt spq e by (simp add: p'_def w)
  moreover have "unat (of_nat (opts_end (?ys @ [(t, v)])) :: u16) = opts_end (?ys @ [(t, v)])"
    using sp unfolding w by (simp add: unsigned_of_nat take_bit_nat_eq_self COAP_MAX_PDU_SIZE_def)
  moreover have "?q + (if length v < 15 then 1 else 2) + length v = opts_end (?ys @ [(t, v)])"
    unfolding e length_enc_opt by simp
  ultimately show ?thesis
    using spq m2(2) m1(3) unfolding w by (auto simp: pdu_opts_def p'_def)
qed

lemma opts_ok_ge: "opts_ok c xs \<Longrightarrow> t \<in> fst ` set xs \<Longrightarrow> c \<le> t"
  by (induction c xs rule: opts_ok.induct) (auto intro: order.trans)

lemma check_option_list:
  "opts_ok c xs \<Longrightarrow> has_at m p (encs c xs) \<Longrightarrow> c < t \<or> t \<notin> fst ` set xs \<Longrightarrow>
   case map_of xs t of None \<Rightarrow> check_option_loop (length xs) m p c t = Some None
   | Some v \<Rightarrow> \<exists>q w. check_option_loop (length xs) m p c t = Some (Some q) \<and>
       COAP_OPT_LENGTH m q = Some (length v) \<and> COAP_OPT_VALUE m q = Some w \<and> has_at m w v"
proof (induction c xs arbitrary: p rule: opts_ok.induct)
  case (1 c)
  then show ?case by simp
next
  case (2 c a v xs)
  have h: "has_at m p (enc_opt (a - c) v)" "has_at m (p + length (enc_opt (a - c) v)) (encs a xs)"
    using 2(3) by (simp_all add: has_at_append)
  have ok: "a - c \<le> 15" "length v \<le> 270" "opts_ok a xs" using 2(2) by simp_all
  note r = read_opt [OF h(1) ok(2,1)]
  show ?case
  proof (cases "c < t")
    case False
    then have "t \<notin> fst ` set ((a, v) # xs)" using 2(4) by blast
    then have "map_of ((a, v) # xs) t = None" by (simp add: map_of_eq_None_iff)
    then show ?thesis using False by simp
  next
    case True
    show ?thesis
    proof (cases "t = a")
      case eq: True
      then show ?thesis using True r by auto
    next
      case False
      have "t \<in> fst ` set xs \<Longrightarrow> a < t" using opts_ok_ge [OF ok(3), of t] False by (simp add: order.strict_iff_order)
      then have "a < t \<or> t \<notin> fst ` set xs" by blast
      from 2(1) [OF ok(3) h(2) this] show ?thesis using True False r(1,3) by (simp split: option.splits)
    qed
  qed
qed

lemma check_option_pdu:
  assumes "pdu_opts p xs \<or> opts_at (pdu_mem p) xs" "t \<noteq> 0"
  shows "case map_of xs t of None \<Rightarrow> coap_check_option (Some p) t = Some None
   | Some v \<Rightarrow> \<exists>q w. coap_check_option (Some p) t = Some (Some q) \<and>
       COAP_OPT_LENGTH (pdu_mem p) q = Some (length v) \<and> COAP_OPT_VALUE (pdu_mem p) q = Some w \<and>
       has_at (pdu_mem p) w v"
proof -
  have o: "opts_at (pdu_mem p) xs" using assms(1) by (auto simp: pdu_opts_def)
  have "0 < t" using assms(2) by (simp add: word_gt_0)
  have eq: "coap_check_option (Some p) t = check_option_loop (length xs) (pdu_mem p) SIZEOF_HDR 0 t"
    using opts_atD(1,2) [OF o] by (simp add: coap_check_option_def)
  show ?thesis unfolding eq
    using check_option_list [of 0 xs "pdu_mem p" SIZEOF_HDR t] o \<open>0 < t\<close> by (simp add: opts_at_def)
qed

section \<open>Messages\<close>

fun add_options :: "coap_pdu option \<Rightarrow> (u8 \<times> u8 list) list \<Rightarrow> coap_pdu option option" where
  "add_options p [] = Some p" |
  "add_options p ((t, v) # os) =
     do { (p, r) \<leftarrow> coap_add_option p t (of_nat (length v)) v;
          if r < 0 then None else add_options p os }"

text \<open>The options as they stand in the message, fence posts included.\<close>

fun wire :: "(u8 \<times> u8 list) list \<Rightarrow> (u8 \<times> u8 list) list \<Rightarrow> (u8 \<times> u8 list) list" where
  "wire xs [] = xs" |
  "wire xs ((t, v) # os) = wire (with_fences xs t v) os"

fun ascending :: "u8 \<Rightarrow> (u8 \<times> u8 list) list \<Rightarrow> bool" where
  "ascending c [] \<longleftrightarrow> True" |
  "ascending c ((t, v) # os) \<longleftrightarrow> c \<le> t \<and> length v \<le> 270 \<and> ascending t os"

lemma wire_prefix: "\<exists>ys. wire xs os = xs @ ys"
  by (induction xs os rule: wire.induct) (auto simp: with_fences_def)

lemma map_of_fences: "unat t mod 14 \<noteq> 0 \<Longrightarrow> map_of (fences c u) t = None"
proof (induction c u rule: fences.induct)
  case (1 c u)
  then show ?case
    using fence_delta_nat(1) [of c u] by (subst fences.simps) (auto simp flip: mult_Suc_right)
qed

lemma map_of_wire: "unat t mod 14 \<noteq> 0 \<Longrightarrow> map_of (wire xs os) t = map_of (xs @ os) t"
  by (induction xs os rule: wire.induct)
    (auto simp: with_fences_def map_of_fences map_add_def split: option.splits)

lemma last_code_with_fences [simp]: "last_code 0 (with_fences xs t v) = t"
  by (simp add: with_fences_def)

lemma add_options_run:
  assumes "pdu_opts p xs" "ascending (last_code 0 xs) os" "length (wire xs os) \<le> 15"
    "opts_end (wire xs os) \<le> COAP_MAX_PDU_SIZE"
  shows "\<exists>p'. add_options (Some p) os = Some (Some p') \<and> pdu_opts p' (wire xs os)"
  using assms
proof (induction xs os arbitrary: p rule: wire.induct)
  case (1 xs)
  then show ?case by simp
next
  case (2 xs t v os)
  let ?zs = "with_fences xs t v"
  obtain ys where ys: "wire ?zs os = ?zs @ ys" using wire_prefix by blast
  have "length ?zs \<le> 15" "opts_end ?zs \<le> COAP_MAX_PDU_SIZE"
    using 2(4,5) by (simp_all add: ys opts_end_def encs_append)
  moreover have "has_at v 0 v" "last_code 0 xs \<le> t" "length v \<le> 270" using 2(3) by (simp_all add: has_at_def)
  ultimately obtain p' where "coap_add_option (Some p) t (of_nat (length v)) v = Some (Some p', int (length v))"
      "pdu_opts p' ?zs"
    using add_option_appends [OF 2(2)] by blast
  then show ?case using 2(1) [of p'] 2(3-5) by simp
qed

text \<open>C12: A message reads back what was put into it: for options of at most 270 bytes (the
  most that the byte of an extended length can tell), added to a new PDU in ascending order, as many as
  the option count and the PDU hold together with the fence posts, and a payload, not empty, that
  fits, every operation succeeds; \<open>coap_check_option\<close> then finds, for every code that is not
  reserved for fence posts, the first option with that code and its exact bytes, and nothing for
  a code that was not added; \<open>coap_get_data\<close> returns the payload.\<close>

lemma message_roundtrip:
  assumes "ascending 0 os" "length (wire [] os) \<le> 15"
    and fits: "opts_end (wire [] os) + length d \<le> COAP_MAX_PDU_SIZE" and d: "d \<noteq> []"
  shows "\<exists>p0 p1 p2. coap_new_pdu True = Some (Some p0) \<and> add_options (Some p0) os = Some (Some p1) \<and>
    coap_add_data (Some p1) (of_nat (length d)) d = Some (Some p2, 1) \<and>
    (\<forall>t. unat t mod 14 \<noteq> 0 \<longrightarrow>
      (case map_of os t of None \<Rightarrow> coap_check_option (Some p2) t = Some None
       | Some v \<Rightarrow> \<exists>q w. coap_check_option (Some p2) t = Some (Some q) \<and>
           COAP_OPT_LENGTH (pdu_mem p2) q = Some (length v) \<and> COAP_OPT_VALUE (pdu_mem p2) q = Some w \<and>
           has_at (pdu_mem p2) w v)) \<and>
    (\<exists>w. coap_get_data (Some p2) 0 None = (length d, Some w, 1) \<and> has_at (pdu_mem p2) w d)"
proof -
  let ?xs = "wire [] os"
  obtain p0 where p0: "coap_new_pdu True = Some (Some p0)" "pdu_opts p0 []" using new_pdu_opts by blast
  obtain p1 where p1: "add_options (Some p0) os = Some (Some p1)" "pdu_opts p1 ?xs"
    using add_options_run [OF p0(2) _ assms(2)] assms(1) fits by auto
  let ?e = "opts_end ?xs"
  define m where "m = put (pdu_mem p1) ?e d"
  define p2 where "p2 = p1\<lparr>pdu_mem := m, pdu_length := of_nat (?e + length d)\<rparr>"
  have len: "length (pdu_mem p1) = COAP_MAX_PDU_SIZE" "pdu_data p1 = ?e" "unat (pdu_length p1) = ?e"
    and o: "opts_at (pdu_mem p1) ?xs"
    using p1(2) by (simp_all add: pdu_opts_def)
  have n: "?e + length d \<le> 700" using fits by (simp add: COAP_MAX_PDU_SIZE_def)
  have pl: "pdu_length p1 = of_nat ?e" using len(3) by (metis of_nat_unat ucast_id)
  have sum: "(ucast (pdu_length p1) :: u32) + of_nat (length d) = of_nat (?e + length d)"
    using len(3) by (simp add: word_unat_eq_iff unat_word_ariths unsigned_ucast_eq take_bit_eq_mod unsigned_of_nat mod_simps)
  have u: "unat (of_nat (?e + length d) :: u32) = ?e + length d" "unat (of_nat (length d) :: u32) = length d"
    "unat (of_nat (?e + length d) :: u16) = ?e + length d"
    using n by (simp_all add: unsigned_of_nat take_bit_nat_eq_self del: of_nat_add)
  have cut: "ucast ((ucast (pdu_length p1) :: u32) + of_nat (length d)) = (of_nat (?e + length d) :: u16)"
    unfolding sum by (rule ucast_nat16)
  have "\<not> ucast (pdu_length p1) + of_nat (length d) > (of_nat COAP_MAX_PDU_SIZE :: u32)"
    unfolding sum using u(1) n by (simp add: word_less_nat_alt COAP_MAX_PDU_SIZE_def)
  moreover have "rdn d 0 (unat (of_nat (length d) :: u32)) = Some d" using u(2) by (simp add: rdn_def)
  moreover have "wrn (pdu_mem p1) (unat (pdu_length p1)) d = Some m"
    using len n by (simp add: wrn_def m_def COAP_MAX_PDU_SIZE_def)
  ultimately have add: "coap_add_data (Some p1) (of_nat (length d)) d = Some (Some p2, 1)"
    by (simp add: coap_add_data_def p2_def cut del: of_nat_add)
  have d1: "has_at m ?e d" unfolding m_def using len n by (intro has_at_put) (simp add: COAP_MAX_PDU_SIZE_def)
  have "?e \<ge> SIZEOF_HDR" by (simp add: opts_end_def)
  have "rd m 0 = rd (pdu_mem p1) 0"
    unfolding m_def using len n by (intro rd_put_below) (simp_all add: COAP_MAX_PDU_SIZE_def opts_end_def SIZEOF_HDR_def)
  moreover have "has_at m SIZEOF_HDR (encs 0 ?xs)"
    using o len n unfolding m_def
    by (auto simp: opts_at_def has_at_iff put_nth opts_end_def COAP_MAX_PDU_SIZE_def)
  ultimately have o2: "opts_at (pdu_mem p2) ?xs"
    using o by (simp add: opts_at_def hdr_optcnt_def p2_def)
  have "coap_get_data (Some p2) 0 None = (length d, Some ?e, 1)"
    using u(3) len d by (simp add: coap_get_data_def p2_def del: of_nat_add)
  moreover have "has_at (pdu_mem p2) ?e d" using d1 by (simp add: p2_def)
  moreover have "case map_of os t of None \<Rightarrow> coap_check_option (Some p2) t = Some None
       | Some v \<Rightarrow> \<exists>q w. coap_check_option (Some p2) t = Some (Some q) \<and>
           COAP_OPT_LENGTH (pdu_mem p2) q = Some (length v) \<and> COAP_OPT_VALUE (pdu_mem p2) q = Some w \<and>
           has_at (pdu_mem p2) w v" if t: "unat t mod 14 \<noteq> 0" for t
  proof -
    have "t \<noteq> 0" using t by auto
    then show ?thesis using check_option_pdu [of p2 ?xs t] o2 map_of_wire [OF t, of "[]" os] by simp
  qed
  ultimately show ?thesis using p0(1) p1(1) add by blast
qed

definition demo_options :: "(u8 \<times> u8 list) list" where
  "demo_options = [(5, [104]), (9, [115]), (40, [1, 2])]"

lemma message_roundtrip_witness:
  "\<exists>p0 p1 p2 q. coap_new_pdu True = Some (Some p0) \<and> add_options (Some p0) demo_options = Some (Some p1) \<and>
    coap_add_data (Some p1) 1 [7] = Some (Some p2, 1) \<and>
    coap_check_option (Some p2) 40 = Some (Some q) \<and> COAP_OPT_LENGTH (pdu_mem p2) q = Some 2"
proof -
  have f: "fences 5 9 = []" "fences 0 5 = []" "fences 9 40 = [(14, []), (28, [])]"
    by (simp_all add: fences.simps fence_delta_def COAP_OPTION_NOOP_def)
  have w: "wire [] demo_options = [(5, [104]), (9, [115]), (14, []), (28, []), (40, [1, 2])]"
    by (simp add: demo_options_def with_fences_def f)
  have "opts_end (wire [] demo_options) = 13"
    by (simp add: w opts_end_def SIZEOF_HDR_def enc_opt_def)
  then have "opts_end (wire [] demo_options) + length [7::u8] \<le> COAP_MAX_PDU_SIZE"
    by (simp add: COAP_MAX_PDU_SIZE_def)
  moreover have "ascending 0 demo_options" "length (wire [] demo_options) \<le> 15"
    by (simp add: demo_options_def, simp add: w)
  moreover have "map_of demo_options 40 = Some [1, 2]" by (simp add: demo_options_def)
  ultimately obtain p0 p1 p2 where r: "coap_new_pdu True = Some (Some p0)"
      "add_options (Some p0) demo_options = Some (Some p1)" "coap_add_data (Some p1) 1 [7] = Some (Some p2, 1)"
      "\<forall>t. unat t mod 14 \<noteq> 0 \<longrightarrow>
      (case map_of demo_options t of None \<Rightarrow> coap_check_option (Some p2) t = Some None
       | Some v \<Rightarrow> \<exists>q w. coap_check_option (Some p2) t = Some (Some q) \<and>
           COAP_OPT_LENGTH (pdu_mem p2) q = Some (length v) \<and> COAP_OPT_VALUE (pdu_mem p2) q = Some w \<and>
           has_at (pdu_mem p2) w v)"
    using message_roundtrip [of demo_options "[7]"] by auto
  from r(4) [rule_format, of 40] obtain q where "coap_check_option (Some p2) 40 = Some (Some q)"
      "COAP_OPT_LENGTH (pdu_mem p2) q = Some 2"
    using \<open>map_of demo_options 40 = Some [1, 2]\<close> by auto
  then show ?thesis using r(1-3) by blast
qed

text \<open>The count of options has four bits and nothing guards it: adding a sixteenth option to a
  message with fifteen succeeds, and afterwards the message has no options at all, whichever code
  is looked for.\<close>

lemma sixteenth_option_lost:
  assumes p: "pdu_opts p xs" and n: "length xs = 15" and t: "last_code 0 xs \<le> t" "t - last_code 0 xs \<le> 15"
    and v: "length v \<le> 270" and sp: "opts_end xs + length (enc_opt (t - last_code 0 xs) v) \<le> COAP_MAX_PDU_SIZE"
  shows "\<exists>p'. coap_add_option (Some p) t (of_nat (length v)) v = Some (Some p', int (length v)) \<and>
    (\<forall>u. coap_check_option (Some p') u = Some None)"
proof -
  let ?c = "last_code 0 xs" and ?q = "opts_end xs"
  have o: "opts_at (pdu_mem p) xs" and m: "length (pdu_mem p) = COAP_MAX_PDU_SIZE"
    using p by (simp_all add: pdu_opts_def)
  have ne: "pdu_mem p \<noteq> []" using m by (auto simp: COAP_MAX_PDU_SIZE_def)
  have c15: "pdu_mem p ! 0 AND 15 = 15"
    using o ne n by (simp add: opts_at_def hdr_optcnt_def rd_def)
  define m1 where "m1 = (pdu_mem p)[0 := (pdu_mem p ! 0 AND 0xF0) OR 0]"
  have b: "bump_optcnt (pdu_mem p) = Some m1" using bump_run [OF ne] c15 by (simp add: m1_def)
  have hv: "has_at v 0 v" by (simp add: has_at_def)
  obtain m2 m3 where wr: "COAP_OPT_SETDELTA m1 ?q (t - ?c) = Some m2"
      "COAP_OPT_SETLENGTH m2 ?q (of_nat (length v)) = Some m3"
      "COAP_OPT_VALUE m3 ?q = Some (?q + (if length v < 15 then 1 else 2))"
      "rdn v 0 (unat (of_nat (length v) :: u32)) = Some v"
      "wrn m3 (?q + (if length v < 15 then 1 else 2)) v = Some (put m1 ?q (enc_opt (t - ?c) v))"
    using add_option_write [OF o t v hv _ b] sp m by auto
  have nf: "\<not> int (unat t) - int (unat ?c) > 15"
  proof -
    have "unat t \<le> unat ?c + 15" using t unat_sub [OF t(1)] by (simp add: word_le_nat_alt)
    then show ?thesis by linarith
  qed
  then have f: "fence_posts (pdu_mem p) ?q t ?c = Some (pdu_mem p, ?q, ?c)"
    by (simp add: fence_posts.simps [of "pdu_mem p"])
  have u: "unat (of_nat (length v) :: u32) = length v" "sint (of_nat (length v) :: u32) = int (length v)"
    using v by (simp_all add: unsigned_of_nat take_bit_nat_eq_self signed_of_nat signed_take_bit_int_eq_self)
  define p' where "p' = p\<lparr>pdu_mem := put m1 ?q (enc_opt (t - ?c) v),
      pdu_data := ?q + (if length v < 15 then 1 else 2) + length v,
      pdu_length := of_nat (?q + (if length v < 15 then 1 else 2) + length v)\<rparr>"
  have "coap_add_option (Some p) t (of_nat (length v)) v = Some (Some p', int (length v))"
    using opts_atD(1-3) [OF o] t f b wr u
    by (simp add: coap_add_option_def Let_def p'_def not_less)
  moreover have "hdr_optcnt (pdu_mem p') = Some 0"
  proof -
    have "rd (put m1 ?q (enc_opt (t - ?c) v)) 0 = rd m1 0"
      using sp m by (intro rd_put_below) (simp_all add: m1_def opts_end_def SIZEOF_HDR_def)
    also have "rd m1 0 = Some ((pdu_mem p ! 0 AND 0xF0) OR 0)" using ne by (simp add: rd_def m1_def)
    finally show ?thesis
      using low_nibble [of 0 "drop_bit 4 (pdu_mem p ! 0)"] set_low [of "pdu_mem p ! 0" 0]
      by (simp add: hdr_optcnt_def p'_def)
  qed
  then have "\<forall>u. coap_check_option (Some p') u = Some None" by (simp add: coap_check_option_def)
  ultimately show ?thesis by blast
qed

lemma sixteenth_option_lost_witness:
  "\<exists>p p'. pdu_opts p (replicate 15 (5, [])) \<and> coap_add_option (Some p) 5 1 [104] = Some (Some p', 1) \<and>
    coap_check_option (Some p') 5 = Some None"
proof -
  let ?xs = "replicate 15 (5, []) :: (u8 \<times> u8 list) list"
  have f: "fences 0 5 = []" "fences 5 5 = []" by (simp_all add: fences.simps)
  have w: "wire [] ?xs = ?xs" by (simp add: with_fences_def f eval_nat_numeral)
  have e: "opts_end ?xs = 19" "last_code 0 ?xs = 5"
    by (simp_all add: opts_end_def SIZEOF_HDR_def enc_opt_def eval_nat_numeral)
  obtain p0 where p0: "coap_new_pdu True = Some (Some p0)" "pdu_opts p0 []" using new_pdu_opts by blast
  have asc: "ascending 0 ?xs" by (simp add: eval_nat_numeral)
  obtain p where p: "pdu_opts p ?xs"
    using add_options_run [OF p0(2), of ?xs] asc w e by (auto simp: COAP_MAX_PDU_SIZE_def)
  have "opts_end ?xs + length (enc_opt (5 - last_code 0 ?xs) [104 :: u8]) \<le> COAP_MAX_PDU_SIZE"
    unfolding e by (simp add: enc_opt_def COAP_MAX_PDU_SIZE_def)
  then obtain p' where "coap_add_option (Some p) 5 1 [104] = Some (Some p', 1)"
      "\<forall>u. coap_check_option (Some p') u = Some None"
    using sixteenth_option_lost [OF p, of 5 "[104]"] e by auto
  then show ?thesis using p by blast
qed

section \<open>Variable-length integers\<close>

fun be_bytes :: "nat \<Rightarrow> u32 \<Rightarrow> u8 list" where
  "be_bytes 0 v = []" |
  "be_bytes (Suc i) v = be_bytes i (drop_bit 8 v) @ [ucast (v AND 255)]"

lemma length_be_bytes [simp]: "length (be_bytes k v) = k"
  by (induction k v rule: be_bytes.induct) auto

lemma encode_loop_run:
  "k \<le> length buf \<Longrightarrow> encode_loop buf k v = Some (be_bytes k v @ drop k buf)"
proof (induction k arbitrary: buf v)
  case (Suc k)
  have "drop k (buf[k := ucast (v AND 255)]) = ucast (v AND 255) # drop (Suc k) buf"
    using Suc(2) by (simp add: drop_update_swap Cons_nth_drop_Suc [symmetric])
  then show ?case using Suc by (simp add: wr_def)
qed simp

lemma decode_loop_snoc:
  "decode_loop buf (Suc k) p n =
     do { x \<leftarrow> decode_loop buf k p n; b \<leftarrow> rd buf (p + k); Some (push_bit 8 x + ucast b) }"
proof (induction k arbitrary: p n)
  case (Suc k)
  have "decode_loop buf (Suc (Suc k)) p n =
      do { b \<leftarrow> rd buf p; decode_loop buf (Suc k) (p + 1) (push_bit 8 n + ucast b) }" by simp
  also have "\<dots> = do { b \<leftarrow> rd buf p; x \<leftarrow> decode_loop buf k (p + 1) (push_bit 8 n + ucast b);
      b \<leftarrow> rd buf (p + 1 + k); Some (push_bit 8 x + ucast b) }"
    by (simp only: Suc)
  also have "\<dots> = do { x \<leftarrow> decode_loop buf (Suc k) p n; b \<leftarrow> rd buf (p + Suc k); Some (push_bit 8 x + ucast b) }"
    by simp
  finally show ?case .
qed simp

lemma low_byte: "ucast (ucast ((v :: u32) AND 255) :: u8) = (of_nat (unat v mod 256) :: u32)"
proof -
  have m8: "(255 :: u32) = mask 8" by (simp add: mask_eq_exp_minus_1)
  have "ucast (ucast (v AND 255) :: u8) = v AND mask 8"
    unfolding m8 by (intro bit_word_eqI) (auto simp: bit_simps)
  also have "\<dots> = of_nat (unat v mod 256)"
    by (simp add: word_unat_eq_iff unsigned_of_nat take_bit_nat_eq_self flip: take_bit_eq_mask)
      (simp add: unsigned_take_bit_eq take_bit_eq_mod unat_mod_distrib)
  finally show ?thesis .
qed

lemma decode_be_bytes:
  "has_at buf p (be_bytes k v) \<Longrightarrow>
   decode_loop buf k p n = Some (n * 256 ^ k + of_nat (unat v mod 256 ^ k))"
proof (induction k arbitrary: v)
  case (Suc k)
  let ?b = "ucast (v AND 255) :: u8" and ?r = "unat v div 256 mod 256 ^ k"
  have h: "has_at buf p (be_bytes k (drop_bit 8 v))" "rd buf (p + k) = Some ?b"
    using Suc(2) by (simp_all add: has_at_append has_at_Cons rd_def)
  have d: "unat (drop_bit 8 v) = unat v div 256" by (simp add: drop_bit_eq_div unat_div_distrib)
  have m: "unat v mod 256 ^ Suc k = 256 * ?r + unat v mod 256"
    using mod_mult2_eq [of "unat v" 256 "256 ^ k"] by simp
  have "decode_loop buf (Suc k) p n = Some (push_bit 8 (n * 256 ^ k + of_nat ?r) + ucast ?b)"
    unfolding decode_loop_snoc using Suc(1) [OF h(1)] h(2) by (simp add: d)
  also have "push_bit 8 (n * 256 ^ k + of_nat ?r) + ucast ?b = n * 256 ^ Suc k + of_nat (unat v mod 256 ^ Suc k)"
    unfolding low_byte m by (simp add: push_bit_eq_mult algebra_simps del: of_nat_mod)
  finally show ?case .
qed simp

lemma fls_loop_bound: "n \<le> coap_fls_loop i n \<and> unat i < 2 ^ (coap_fls_loop i n - n)"
proof (induction i n rule: coap_fls_loop.induct)
  case (1 i n)
  show ?case
  proof (cases "i = 0")
    case False
    have "n + 1 \<le> coap_fls_loop (drop_bit 1 i) (n + 1)"
      "unat (drop_bit 1 i) < 2 ^ (coap_fls_loop (drop_bit 1 i) (n + 1) - (n + 1))" using 1 [OF False] by simp_all
    moreover define r where "r = coap_fls_loop (drop_bit 1 i) (n + 1) - (n + 1)"
    moreover have "unat (drop_bit 1 i) = unat i div 2" by (simp add: drop_bit_eq_div unat_div_distrib)
    ultimately have "unat i < 2 ^ Suc r" "coap_fls_loop (drop_bit 1 i) (n + 1) - n = Suc r" by auto
    then show ?thesis using False \<open>n + 1 \<le> coap_fls_loop (drop_bit 1 i) (n + 1)\<close>
      by (simp add: coap_fls_loop.simps [of i n])
  qed (simp add: coap_fls_loop.simps)
qed

lemma fls_loop_upper: "unat i < 2 ^ k \<Longrightarrow> coap_fls_loop i n \<le> n + k"
proof (induction i n arbitrary: k rule: coap_fls_loop.induct)
  case (1 i n)
  show ?case
  proof (cases "i = 0")
    case False
    then have "unat i \<noteq> 0" by (simp add: unat_eq_0)
    then obtain j where j: "k = Suc j" using 1(2) by (cases k) auto
    have "unat (drop_bit 1 i) < 2 ^ j" using 1(2) by (simp add: drop_bit_eq_div unat_div_distrib j)
    from 1(1) [OF False this] show ?thesis using False by (simp add: coap_fls_loop.simps [of i n] j)
  qed (simp add: coap_fls_loop.simps)
qed

text \<open>Every 32-bit value is encoded in one to four bytes at the start of the buffer, nothing
  behind them is touched, and decoding these bytes gives the value back.\<close>

lemma var_bytes_roundtrip:
  assumes "4 \<le> length buf"
  shows "\<exists>buf' k. coap_encode_var_bytes buf val = Some (buf', k) \<and> 1 \<le> k \<and> k \<le> 4 \<and>
    drop k buf' = drop k buf \<and> coap_decode_var_bytes buf' (of_nat k) = Some val"
proof -
  define n where "n = coap_fls_loop (drop_bit 1 val) 0"
  define k where "k = n div 8 + 1"
  have half: "unat (drop_bit 1 val) = unat val div 2" by (simp add: drop_bit_eq_div unat_div_distrib)
  have "unat val < 2 ^ 32" using unsigned_less [of val] by simp
  then have "unat (drop_bit 1 val) < 2 ^ 31" unfolding half by simp
  then have "n \<le> 31" using fls_loop_upper [of "drop_bit 1 val" 31 0] by (simp add: n_def)
  then have k: "1 \<le> k" "k \<le> 4" by (simp_all add: k_def)
  have "unat val div 2 < 2 ^ n" using fls_loop_bound [of 0 "drop_bit 1 val"] half by (simp add: n_def)
  then have "unat val < 2 ^ Suc n" by simp
  also have "\<dots> \<le> (2 :: nat) ^ (8 * k)" by (intro power_increasing) (simp_all add: k_def)
  also have "\<dots> = 256 ^ k" by (simp add: power_mult)
  finally have lt: "unat val < 256 ^ k" .
  define buf' where "buf' = be_bytes k val @ drop k buf"
  have "coap_encode_var_bytes buf val = Some (buf', k)"
    using encode_loop_run [of k buf val] assms k
    unfolding coap_encode_var_bytes_def Let_def n_def [symmetric] k_def [symmetric] by (simp add: buf'_def)
  moreover have "has_at buf' 0 (be_bytes k val)" by (simp add: has_at_def buf'_def)
  then have "decode_loop buf' k 0 0 = Some val"
    using decode_be_bytes [of buf' 0 k val 0] lt by simp
  moreover have "unat (of_nat k :: u32) = k" using k by (simp add: unsigned_of_nat take_bit_nat_eq_self)
  ultimately show ?thesis using k by (auto simp: coap_decode_var_bytes_def buf'_def)
qed

lemma var_bytes_roundtrip_witness:
  "\<exists>buf' k. coap_encode_var_bytes [0, 0, 0, 0] 300 = Some (buf', k) \<and> coap_decode_var_bytes buf' (of_nat k) = Some 300"
  using var_bytes_roundtrip [of "[0, 0, 0, 0]" 300] by auto

end
