(* ===== verification/Coap_Sessions.thy ===== *)
theory Coap_Sessions
  imports Coap_Net Coap_Options
begin

text \<open>
  The retransmission queue of the CoAP library over a whole session.  The invariant: the queue is a
  linked list of live nodes in the order of their deadlines, every node owns a live message of
  its own, and nothing lives at an address that was not handed out.
\<close>

section \<open>The invariant\<close>

definition pdu_ok :: "coap_pdu \<Rightarrow> bool" where
  "pdu_ok d \<longleftrightarrow> length (pdu_mem d) = COAP_MAX_PDU_SIZE \<and> unat (pdu_length d) \<le> COAP_MAX_PDU_SIZE"

definition qtime :: "(nat \<Rightarrow> coap_queue option) \<Rightarrow> nat \<Rightarrow> time_t" where
  "qtime h n = (case h n of None \<Rightarrow> 0 | Some c \<Rightarrow> q_t c)"

definition qpdu :: "(nat \<Rightarrow> coap_queue option) \<Rightarrow> nat \<Rightarrow> nat option" where
  "qpdu h n = (case h n of None \<Rightarrow> None | Some c \<Rightarrow> q_pdu c)"

definition live :: "(nat \<Rightarrow> coap_pdu option) \<Rightarrow> (nat \<Rightarrow> coap_queue option) \<Rightarrow> nat \<Rightarrow> bool" where
  "live ps h n \<longleftrightarrow> (\<exists>p d. qpdu h n = Some p \<and> ps p = Some d \<and> pdu_ok d)"

definition sq_inv :: "coap_state \<Rightarrow> nat list \<Rightarrow> bool" where
  "sq_inv s ns \<longleftrightarrow> is_list (cs_queue s) (sendqueue s) ns \<and> sorted (map (qtime (cs_queue s)) ns) \<and>
     (\<forall>n \<in> set ns. live (cs_pdus s) (cs_queue s) n) \<and> distinct (map (qpdu (cs_queue s)) ns) \<and>
     (\<forall>a. cs_fresh s \<le> a \<longrightarrow> cs_queue s a = None \<and> cs_pdus s a = None)"

lemma payload_nodes:
  assumes "payload h' = payload h"
  shows "qtime h' = qtime h" "qpdu h' = qpdu h" "h' a = None \<longleftrightarrow> h a = None"
proof -
  have p: "map_option (nx_update (\<lambda>_. None)) (h' n) = map_option (nx_update (\<lambda>_. None)) (h n)" for n
    using fun_cong [OF assms, of n] by (simp add: payload_def)
  show "h' a = None \<longleftrightarrow> h a = None" using p [of a] by (metis option.map_disc_iff)
  have "qtime h' n = qtime h n \<and> qpdu h' n = qpdu h n" for n
  proof (cases "h n")
    case None
    then show ?thesis using p [of n] by (simp add: qtime_def qpdu_def)
  next
    case (Some c)
    then obtain c' where c': "h' n = Some c'" "nx_update (\<lambda>_. None) c' = nx_update (\<lambda>_. None) c"
      using p [of n] by auto
    have "q_t (nx_update (\<lambda>_. None) c') = q_t (nx_update (\<lambda>_. None) c)"
      "q_pdu (nx_update (\<lambda>_. None) c') = q_pdu (nx_update (\<lambda>_. None) c)"
      unfolding c'(2) by (rule refl)+
    then have "q_t c' = q_t c" "q_pdu c' = q_pdu c" by simp_all
    then show ?thesis using Some c' by (simp add: qtime_def qpdu_def)
  qed
  then show "qtime h' = qtime h" "qpdu h' = qpdu h" by (simp_all add: fun_eq_iff)
qed

lemma live_payload: "payload h' = payload h \<Longrightarrow> live ps h' n = live ps h n"
  by (simp add: live_def payload_nodes(2) [of h' h])

lemma live_node: "live ps h n \<Longrightarrow> h n \<noteq> None"
  by (auto simp: live_def qpdu_def split: option.splits)

lemma liveE:
  assumes "live ps h n"
  obtains c p d where "h n = Some c" "q_pdu c = Some p" "ps p = Some d" "pdu_ok d"
  using assms by (auto simp: live_def qpdu_def split: option.splits)

section \<open>The operations on the queue\<close>

lemma insert_send_ok:
  assumes l: "is_list (cs_queue s) (sendqueue s) ns" and lv: "\<forall>x \<in> set ns. cs_queue s x \<noteq> None"
    and n: "n \<notin> set ns" "cs_queue s n = Some c" "nx c = None"
  shows "\<exists>h q. insert_send (Some n) s = Some (s\<lparr>cs_queue := h, sendqueue := q\<rparr>, 1) \<and>
    is_list h q (ins (\<lambda>x. qtime (cs_queue s) n < qtime (cs_queue s) x) n ns) \<and>
    payload h = payload (cs_queue s) \<and> (\<forall>b. b \<notin> set ns \<and> b \<noteq> n \<longrightarrow> h b = cs_queue s b)"
proof -
  have "\<exists>d. order_timestamp (cs_queue s) n x = Some d \<and> (d < 0 \<longleftrightarrow> qtime (cs_queue s) n < qtime (cs_queue s) x)"
    if "x \<in> set ns" for x
    using lv that n(2) by (auto simp: order_timestamp_def qtime_def)
  from insert_linked_list [where lt = "\<lambda>x. qtime (cs_queue s) n < qtime (cs_queue s) x" and
      order = "order_timestamp (cs_queue s)", OF l n this]
  obtain h q where "insert_linked (order_timestamp (cs_queue s)) (cs_queue s) (sendqueue s) (Some n) = Some (h, q, 1)"
      "is_list h q (ins (\<lambda>x. qtime (cs_queue s) n < qtime (cs_queue s) x) n ns)"
      "payload h = payload (cs_queue s)" "\<forall>b. b \<notin> set ns \<and> b \<noteq> n \<longrightarrow> h b = cs_queue s b"
    by blast
  then show ?thesis
    by (intro exI [of _ h] exI [of _ q]) (simp add: insert_send_def coap_insert_node_def)
qed

lemma send_impl_ok:
  assumes "cs_pdus s a = Some d" "pdu_ok d"
  shows "\<exists>snt tid. coap_send_impl env dst (Some a) False s = Some (s\<lparr>cs_calls := cs_calls s + 1, cs_sent := snt\<rparr>, tid) \<and>
    (env_sendto env (cs_calls s) \<longrightarrow> snt = cs_sent s @ [(dst, take (unat (pdu_length d)) (pdu_mem d))])"
proof -
  let ?bs = "take (unat (pdu_length d)) (pdu_mem d)"
  have r: "rdn (pdu_mem d) 0 (unat (pdu_length d)) = Some ?bs" "\<exists>i. hdr_id (pdu_mem d) = Some i"
    using assms(2) by (simp_all add: rdn_def pdu_ok_def hdr_id_def rd16_def rd_def COAP_MAX_PDU_SIZE_def)
  show ?thesis
  proof (cases "env_sendto env (cs_calls s)")
    case True
    then show ?thesis
      using assms(1) r by (intro exI [of _ "cs_sent s @ [(dst, ?bs)]"]) (auto simp: coap_send_impl_def)
  next
    case False
    then show ?thesis
      using assms(1) r(1) by (intro exI [of _ "cs_sent s"]) (simp add: coap_send_impl_def)
  qed
qed

text \<open>The part of the invariant that insertion restores.\<close>

lemma sq_inv_insert:
  assumes inv: "sq_inv s ns" and n: "n \<notin> set ns" "cs_queue s n = Some c" "nx c = None"
    and lv: "live (cs_pdus s) (cs_queue s) n" and own: "qpdu (cs_queue s) n \<notin> qpdu (cs_queue s) ` set ns"
  shows "\<exists>s' ns'. insert_send (Some n) s = Some (s', 1) \<and> sq_inv s' ns' \<and> set ns' = insert n (set ns) \<and>
    s' = s\<lparr>cs_queue := cs_queue s', sendqueue := sendqueue s'\<rparr> \<and> payload (cs_queue s') = payload (cs_queue s)"
proof -
  let ?ns = "ins (\<lambda>x. qtime (cs_queue s) n < qtime (cs_queue s) x) n ns"
  have lns: "\<forall>x \<in> set ns. cs_queue s x \<noteq> None" using inv by (auto simp: sq_inv_def dest: live_node)
  have l: "is_list (cs_queue s) (sendqueue s) ns" using inv by (simp add: sq_inv_def)
  obtain h q where h: "insert_send (Some n) s = Some (s\<lparr>cs_queue := h, sendqueue := q\<rparr>, 1)"
      "is_list h q ?ns" "payload h = payload (cs_queue s)" "\<forall>b. b \<notin> set ns \<and> b \<noteq> n \<longrightarrow> h b = cs_queue s b"
    using insert_send_ok [OF l lns n] by blast
  note pl = payload_nodes [OF h(3)]
  define s' where "s' = s\<lparr>cs_queue := h, sendqueue := q\<rparr>"
  have "sorted (map (qtime h) ?ns)"
    unfolding pl(1) using inv by (intro ins_sorted) (simp add: sq_inv_def)
  moreover have "distinct (map (qpdu h) ?ns)"
  proof -
    have "mset (map (qpdu h) ?ns) = mset (map (qpdu h) (n # ns))" using mset_ins by (simp add: mset_map)
    moreover have "distinct (map (qpdu h) (n # ns))" unfolding pl(2) using inv own by (simp add: sq_inv_def)
    ultimately show ?thesis by (metis mset_eq_imp_distinct_iff)
  qed
  moreover have "\<forall>x \<in> set ?ns. live (cs_pdus s) h x"
    using inv lv live_payload [OF h(3)] by (auto simp: sq_inv_def)
  moreover have "\<forall>a. cs_fresh s \<le> a \<longrightarrow> h a = None \<and> cs_pdus s a = None"
    using inv pl(3) by (simp add: sq_inv_def)
  ultimately have "sq_inv s' ?ns" using h(2) by (simp add: sq_inv_def s'_def)
  then show ?thesis using h(1,3) by (intro exI [of _ s'] exI [of _ ?ns]) (simp add: s'_def)
qed

lemma sq_inv_calls [simp]: "sq_inv (s\<lparr>cs_calls := k, cs_sent := x\<rparr>) ns = sq_inv s ns"
  by (simp add: sq_inv_def)

text \<open>A change of nodes and messages that the queue does not use.\<close>

lemma sq_inv_off:
  assumes inv: "sq_inv s ns" and n: "n \<notin> set ns" "cs_queue s' = (cs_queue s)(n := x)"
    and q: "sendqueue s' = sendqueue s"
    and ps: "\<And>p. Some p \<in> qpdu (cs_queue s) ` set ns \<Longrightarrow> cs_pdus s' p = cs_pdus s p"
    and fr: "\<forall>a. cs_fresh s' \<le> a \<longrightarrow> cs_queue s' a = None \<and> cs_pdus s' a = None"
  shows "sq_inv s' ns" "qpdu (cs_queue s') ` set ns = qpdu (cs_queue s) ` set ns"
proof -
  have eq: "qtime (cs_queue s') y = qtime (cs_queue s) y" "qpdu (cs_queue s') y = qpdu (cs_queue s) y" if "y \<in> set ns" for y
    using that n by (auto simp: qtime_def qpdu_def)
  have mp: "map (qtime (cs_queue s')) ns = map (qtime (cs_queue s)) ns" "map (qpdu (cs_queue s')) ns = map (qpdu (cs_queue s)) ns"
    using eq by auto
  have "links (cs_queue s') = (links (cs_queue s))(n := map_option nx x)"
    unfolding n(2) by (rule ext) (simp add: links_def)
  then have "is_list (cs_queue s') (sendqueue s') ns" using inv n(1) q by (simp add: sq_inv_def)
  moreover have "live (cs_pdus s') (cs_queue s') y" if "y \<in> set ns" for y
  proof -
    have "live (cs_pdus s) (cs_queue s) y" using inv that by (simp add: sq_inv_def)
    then obtain p d where p: "qpdu (cs_queue s) y = Some p" "cs_pdus s p = Some d" "pdu_ok d" by (auto simp: live_def)
    have "Some p \<in> qpdu (cs_queue s) ` set ns" using that p(1) by (metis image_eqI)
    then show ?thesis using p ps eq(2) [OF that] by (simp add: live_def)
  qed
  moreover have "sorted (map (qtime (cs_queue s')) ns)" "distinct (map (qpdu (cs_queue s')) ns)"
    unfolding mp using inv by (simp_all add: sq_inv_def)
  ultimately show "sq_inv s' ns" using fr by (simp only: sq_inv_def simp_thms Ball_def) blast
  show "qpdu (cs_queue s') ` set ns = qpdu (cs_queue s) ` set ns" using eq(2) by auto
qed

lemma new_pdu_ok:
  assumes "env_malloc env (cs_calls s)"
  shows "\<exists>d. new_pdu env s = Some (s\<lparr>cs_calls := cs_calls s + 1, cs_fresh := cs_fresh s + 1,
      cs_pdus := (cs_pdus s)(cs_fresh s \<mapsto> d)\<rparr>, Some (cs_fresh s))"
  using new_pdu_opts assms by (auto simp: new_pdu_def coap_malloc_def)

lemma fresh_off:
  assumes "sq_inv s ns" "cs_fresh s \<le> a"
  shows "a \<notin> set ns" "Some a \<notin> qpdu (cs_queue s) ` set ns"
proof -
  have z: "cs_queue s a = None" "cs_pdus s a = None" using assms by (simp_all add: sq_inv_def)
  have l: "live (cs_pdus s) (cs_queue s) x" if "x \<in> set ns" for x using assms(1) that by (simp add: sq_inv_def)
  show "a \<notin> set ns" using l live_node z(1) by blast
  show "Some a \<notin> qpdu (cs_queue s) ` set ns"
  proof
    assume "Some a \<in> qpdu (cs_queue s) ` set ns"
    then obtain x where "x \<in> set ns" "qpdu (cs_queue s) x = Some a" by force
    then show False using l [of x] z(2) by (simp add: live_def)
  qed
qed

lemma send_confirmed_ok:
  assumes inv: "sq_inv s ns" and m: "env_malloc env (cs_calls s)"
    and p: "cs_pdus s p = Some d" "pdu_ok d" "Some p \<notin> qpdu (cs_queue s) ` set ns"
  shows "\<exists>s' tid ns'. coap_send_confirmed env dst (Some p) s = Some (s', tid) \<and> sq_inv s' ns' \<and>
    set ns' = insert (cs_fresh s) (set ns)"
proof -
  let ?n = "cs_fresh s"
  define c where "c = zero_node\<lparr>q_t := cs_now s + 1, q_remote := dst, q_pdu := Some p\<rparr>"
  define s1 where "s1 = s\<lparr>cs_calls := cs_calls s + 1, cs_fresh := ?n + 1, cs_queue := (cs_queue s)(?n \<mapsto> c)\<rparr>"
  have nin: "?n \<notin> set ns" using fresh_off(1) [OF inv] by simp
  have pre: "coap_send_confirmed env dst (Some p) s =
      do { (s, r) \<leftarrow> insert_send (Some ?n) s1;
           if r = 0 then do { (s, r) \<leftarrow> coap_delete_node (Some ?n) s; Some (s, invalid_tid) }
           else coap_send_impl env dst (Some p) False s }"
    using m by (simp add: coap_send_confirmed_def coap_new_node_def coap_malloc_def upd_node_def s1_def c_def)
  have fr: "\<forall>a. cs_fresh s1 \<le> a \<longrightarrow> cs_queue s1 a = None \<and> cs_pdus s1 a = None"
    using inv by (simp add: sq_inv_def s1_def)
  have q1: "cs_queue s1 = (cs_queue s)(?n := Some c)" "sendqueue s1 = sendqueue s" "cs_pdus s1 = cs_pdus s"
    by (simp_all add: s1_def)
  have i1: "sq_inv s1 ns" and im: "qpdu (cs_queue s1) ` set ns = qpdu (cs_queue s) ` set ns"
    using sq_inv_off [OF inv nin q1(1,2) _ fr] q1(3) by simp_all
  have n1: "cs_queue s1 ?n = Some c" "nx c = None" "q_pdu c = Some p" by (simp_all add: s1_def c_def zero_node_def)
  have lv: "live (cs_pdus s1) (cs_queue s1) ?n" using n1 p by (auto simp: live_def qpdu_def s1_def)
  have own: "qpdu (cs_queue s1) ?n \<notin> qpdu (cs_queue s1) ` set ns"
    unfolding im using n1 p(3) by (simp add: qpdu_def)
  obtain s2 ns' where s2: "insert_send (Some ?n) s1 = Some (s2, 1)" "sq_inv s2 ns'" "set ns' = insert ?n (set ns)"
      "s2 = s1\<lparr>cs_queue := cs_queue s2, sendqueue := sendqueue s2\<rparr>"
    using sq_inv_insert [OF i1 nin n1(1,2) lv own] by blast
  have "cs_pdus s2 p = Some d" using p by (subst s2(4)) (simp add: s1_def)
  from send_impl_ok [OF this p(2), of env dst] obtain snt tid
    where "coap_send_impl env dst (Some p) False s2 = Some (s2\<lparr>cs_calls := cs_calls s2 + 1, cs_sent := snt\<rparr>, tid)" by blast
  then show ?thesis using s2(1-3) unfolding pre by auto
qed

lemma pop_ok:
  assumes inv: "sq_inv s (n # ns)"
  shows "\<exists>h c. coap_pop_next s = Some (s\<lparr>sendqueue := head_of ns, cs_queue := h\<rparr>, Some n) \<and>
    sq_inv (s\<lparr>sendqueue := head_of ns, cs_queue := h\<rparr>) ns \<and> n \<notin> set ns \<and>
    h n = Some c \<and> nx c = None \<and> payload h = payload (cs_queue s)"
proof -
  have l: "is_list (cs_queue s) (sendqueue s) (n # ns)" using inv by (simp add: sq_inv_def)
  obtain b where b: "sendqueue s = Some n" "links (cs_queue s) n = Some b" "is_list (cs_queue s) b ns"
    using chain_ConsD [OF l] by blast
  obtain c where c: "cs_queue s n = Some c" "nx c = b" using b(2) by (auto simp: links_def)
  have n: "n \<notin> set ns" using chain_distinct [OF l] by simp
  have hb: "b = head_of ns" using chain_head [OF b(3)] .
  define h where "h = (cs_queue s)(n \<mapsto> c\<lparr>nx := None\<rparr>)"
  have pl: "payload h = payload (cs_queue s)" by (rule ext) (simp add: payload_def h_def c)
  have r: "coap_pop_next s = Some (s\<lparr>sendqueue := head_of ns, cs_queue := h\<rparr>, Some n)"
    using b(1) c hb by (simp add: coap_pop_next_def set_next_def h_def)
  have lh: "is_list h (head_of ns) ns" using b(3) n hb by (simp add: h_def)
  have "sq_inv (s\<lparr>sendqueue := head_of ns, cs_queue := h\<rparr>) ns"
    using inv lh live_payload [OF pl] payload_nodes [OF pl]
    by (simp add: sq_inv_def)
  moreover have "h n = Some (c\<lparr>nx := None\<rparr>)" by (simp add: h_def)
  ultimately show ?thesis using r n pl by (intro exI [of _ h] exI [of _ "c\<lparr>nx := None\<rparr>"]) simp
qed

lemma delete_node_ok:
  assumes inv: "sq_inv s ns" and n: "n \<notin> set ns" "cs_queue s n = Some c" "q_pdu c = Some p" "cs_pdus s p = Some d"
    and own: "Some p \<notin> qpdu (cs_queue s) ` set ns"
  shows "\<exists>s'. coap_delete_node (Some n) s = Some (s', 1) \<and> sq_inv s' ns \<and> cs_queue s' n = None \<and> cs_pdus s' p = None \<and>
    s' = s\<lparr>cs_queue := (cs_queue s)(n := None), cs_pdus := (cs_pdus s)(p := None)\<rparr>"
proof -
  define s' where "s' = s\<lparr>cs_queue := (cs_queue s)(n := None), cs_pdus := (cs_pdus s)(p := None)\<rparr>"
  have d: "coap_delete_node (Some n) s = Some (s', 1)"
    using n by (simp add: coap_delete_node_def coap_free_def s'_def)
  have q: "cs_queue s' = (cs_queue s)(n := None)" "sendqueue s' = sendqueue s" by (simp_all add: s'_def)
  have "cs_pdus s' x = cs_pdus s x" if "Some x \<in> qpdu (cs_queue s) ` set ns" for x
    using that own by (auto simp: s'_def)
  moreover have "\<forall>a. cs_fresh s' \<le> a \<longrightarrow> cs_queue s' a = None \<and> cs_pdus s' a = None"
    using inv by (simp add: sq_inv_def s'_def)
  ultimately have "sq_inv s' ns" using sq_inv_off(1) [OF inv n(1) q] by blast
  then show ?thesis using d by (auto simp: s'_def)
qed

text \<open>A node that was taken from the queue is either sent again and put back, or deleted.\<close>

lemma retransmit_ok:
  assumes inv: "sq_inv s ns" and n: "n \<notin> set ns" "cs_queue s n = Some c" "nx c = None"
    and lv: "live (cs_pdus s) (cs_queue s) n" and own: "qpdu (cs_queue s) n \<notin> qpdu (cs_queue s) ` set ns"
  shows "\<exists>s' tid ns'. coap_retransmit env (Some n) s = Some (s', tid) \<and> sq_inv s' ns' \<and>
    set ns' = (if q_cnt c < COAP_DEFAULT_MAX_RETRANSMIT then insert n (set ns) else set ns)"
proof -
  obtain p d where p: "q_pdu c = Some p" "cs_pdus s p = Some d" "pdu_ok d"
    using lv n(2) by (auto simp: live_def qpdu_def)
  show ?thesis
  proof (cases "q_cnt c < COAP_DEFAULT_MAX_RETRANSMIT")
    case False
    have own': "Some p \<notin> qpdu (cs_queue s) ` set ns" using own n(2) p(1) by (simp add: qpdu_def)
    obtain s' where "coap_delete_node (Some n) s = Some (s', 1)" "sq_inv s' ns"
      using delete_node_ok [OF inv n(1,2) p(1,2) own'] by blast
    then show ?thesis using False n(2) by (auto simp: coap_retransmit_def)
  next
    case True
    define c1 where "c1 = c\<lparr>q_cnt := q_cnt c + 1, q_t := q_t c + 2 ^ unat (q_cnt c + 1)\<rparr>"
    define s1 where "s1 = s\<lparr>cs_queue := (cs_queue s)(n \<mapsto> c1)\<rparr>"
    have q1: "cs_queue s1 = (cs_queue s)(n := Some c1)" "sendqueue s1 = sendqueue s" "cs_pdus s1 = cs_pdus s"
      by (simp_all add: s1_def)
    have "n < cs_fresh s" using inv n(2) by (metis not_le option.distinct(1) sq_inv_def)
    then have fr: "\<forall>a. cs_fresh s1 \<le> a \<longrightarrow> cs_queue s1 a = None \<and> cs_pdus s1 a = None"
      using inv by (auto simp: sq_inv_def s1_def)
    have i1: "sq_inv s1 ns" and im: "qpdu (cs_queue s1) ` set ns = qpdu (cs_queue s) ` set ns"
      using sq_inv_off [OF inv n(1) q1(1,2) _ fr] q1(3) by simp_all
    have n1: "cs_queue s1 n = Some c1" "nx c1 = None" "q_pdu c1 = Some p" using n p by (simp_all add: s1_def c1_def)
    have lv1: "live (cs_pdus s1) (cs_queue s1) n" using n1 p by (auto simp: live_def qpdu_def s1_def)
    have own1: "qpdu (cs_queue s1) n \<notin> qpdu (cs_queue s1) ` set ns"
      unfolding im using own n1 n(2) p(1) by (simp add: qpdu_def)
    obtain s2 ns' where s2: "insert_send (Some n) s1 = Some (s2, 1)" "sq_inv s2 ns'" "set ns' = insert n (set ns)"
        "s2 = s1\<lparr>cs_queue := cs_queue s2, sendqueue := sendqueue s2\<rparr>" "payload (cs_queue s2) = payload (cs_queue s1)"
      using sq_inv_insert [OF i1 n(1) n1(1,2) lv1 own1] by blast
    have pd: "cs_pdus s2 p = Some d" using p by (subst s2(4)) (simp add: s1_def)
    obtain c2 where c2: "cs_queue s2 n = Some c2" using payload_nodes(3) [OF s2(5), of n] n1(1) by auto
    have "qpdu (cs_queue s2) n = qpdu (cs_queue s1) n" using payload_nodes(2) [OF s2(5)] by simp
    then have "q_pdu c2 = Some p" using n1 c2 by (simp add: qpdu_def)
    moreover from send_impl_ok [OF pd p(3), of env "q_remote c2"] obtain snt tid
      where "coap_send_impl env (q_remote c2) (Some p) False s2 = Some (s2\<lparr>cs_calls := cs_calls s2 + 1, cs_sent := snt\<rparr>, tid)"
      by blast
    moreover have "upd_node n (\<lambda>c. c\<lparr>q_cnt := q_cnt c + 1, q_t := q_t c + 2 ^ unat (q_cnt c + 1)\<rparr>) s = Some s1"
      using n(2) by (simp add: upd_node_def s1_def c1_def)
    ultimately have "coap_retransmit env (Some n) s = Some (s2\<lparr>cs_calls := cs_calls s2 + 1, cs_sent := snt\<rparr>, tid)"
      using n(2) True s2(1) c2 by (simp add: coap_retransmit_def)
    then show ?thesis using s2(2,3) True by auto
  qed
qed

text \<open>An acknowledgement removes the first node with its identifier.\<close>

lemma node_id_live: "live (cs_pdus s) (cs_queue s) n \<Longrightarrow> \<exists>i. node_id s n = Some i"
  by (erule liveE) (simp add: node_id_def hdr_id_def rd16_def rd_def pdu_ok_def COAP_MAX_PDU_SIZE_def)

lemma find_before_list:
  assumes "chain (links (cs_queue s)) (Some q) (q # xs) None" "\<forall>x \<in> set xs. \<exists>i. node_id s x = Some i"
  shows "find_before s tid q = Some (last (q # takeWhile (\<lambda>x. node_id s x \<noteq> Some tid) xs),
    head_of (dropWhile (\<lambda>x. node_id s x \<noteq> Some tid) xs))"
  using assms
proof (induction xs arbitrary: q)
  case Nil
  then show ?case by (subst find_before.simps) (auto simp: links_def head_of_def split: option.splits)
next
  case (Cons x xs)
  obtain m where "links (cs_queue s) q = Some m" "chain (links (cs_queue s)) m (x # xs) None"
    using chain_ConsD [OF Cons(2)] by blast
  then obtain c where c: "cs_queue s q = Some c" "nx c = Some x" "chain (links (cs_queue s)) (Some x) (x # xs) None"
    by (auto simp: links_def)
  obtain i where i: "node_id s x = Some i" using Cons(3) by auto
  show ?case
  proof (cases "i = tid")
    case True
    then show ?thesis using c i by (subst find_before.simps) (simp add: head_of_def)
  next
    case False
    have "find_before s tid q = find_before s tid x" using c i False by (subst find_before.simps) simp
    then show ?thesis using Cons(1) [OF c(3)] Cons(3) False i by simp
  qed
qed

lemma node_owner:
  assumes inv: "sq_inv s ns" and ns: "ns = as @ x # bs"
  shows "\<exists>c p d. cs_queue s x = Some c \<and> q_pdu c = Some p \<and> cs_pdus s p = Some d \<and> x \<notin> set (as @ bs) \<and>
    Some p \<notin> qpdu (cs_queue s) ` set (as @ bs)"
proof -
  have "live (cs_pdus s) (cs_queue s) x" using inv ns by (simp add: sq_inv_def)
  then obtain c p d where c: "cs_queue s x = Some c" "q_pdu c = Some p" "cs_pdus s p = Some d" by (rule liveE)
  have "distinct ns" using inv chain_distinct by (auto simp: sq_inv_def)
  then have "x \<notin> set (as @ bs)" using ns by simp
  moreover have "qpdu (cs_queue s) x = Some p" using c by (simp add: qpdu_def)
  then have "Some p \<notin> qpdu (cs_queue s) ` set (as @ bs)"
    using inv unfolding ns sq_inv_def by (auto simp: distinct_map)
  ultimately show ?thesis using c by blast
qed

lemma sq_inv_sublist:
  assumes "sq_inv s (as @ x # bs)" "is_list h q (as @ bs)" "payload h = payload (cs_queue s)"
  shows "sq_inv (s\<lparr>cs_queue := h, sendqueue := q\<rparr>) (as @ bs)"
  using assms(1,2) live_payload [OF assms(3)] payload_nodes [OF assms(3)]
  by (auto simp: sq_inv_def sorted_append)

lemma remove_sent_ok:
  fixes tid :: u16
  assumes inv: "sq_inv s ns"
  defines "P \<equiv> \<lambda>x. node_id s x \<noteq> Some tid"
  shows "\<exists>s'. remove_sent tid s = Some s' \<and> sq_inv s' (takeWhile P ns @ tl (dropWhile P ns)) \<and>
    (dropWhile P ns \<noteq> [] \<longrightarrow> cs_queue s' (hd (dropWhile P ns)) = None)"
proof (cases "dropWhile P ns")
  case Nil
  then have nP: "\<forall>x \<in> set ns. P x" by (simp add: dropWhile_eq_Nil_conv)
  then have tw: "takeWhile P ns = ns" by (simp add: takeWhile_eq_all_conv)
  show ?thesis
  proof (cases ns)
    case Nil
    then have "sendqueue s = None" using inv by (simp add: sq_inv_def)
    then have "remove_sent tid s = Some (s\<lparr>sendqueue := None\<rparr>)" "s\<lparr>sendqueue := None\<rparr> = s"
      by (simp_all add: remove_sent_def coap_remove_transaction_def)
    then show ?thesis using inv Nil by simp
  next
    case (Cons q xs)
    then have l: "chain (links (cs_queue s)) (Some q) (q # xs) None" "sendqueue s = Some q"
      using inv by (auto simp: sq_inv_def)
    have ids: "\<forall>x \<in> set (q # xs). \<exists>i. node_id s x = Some i"
      using inv node_id_live Cons by (simp add: sq_inv_def)
    obtain i where i: "node_id s q = Some i" "i \<noteq> tid" using ids nP Cons by (auto simp: P_def)
    have dw: "dropWhile (\<lambda>x. node_id s x \<noteq> Some tid) xs = []"
      using nP Cons by (simp add: P_def dropWhile_eq_Nil_conv)
    have "\<forall>x \<in> set xs. \<exists>i. node_id s x = Some i" using ids by simp
    from find_before_list [OF l(1) this, of tid] have "find_before s tid q = Some (last (q # takeWhile P xs), None)"
      unfolding dw by (simp add: P_def head_of_def)
    then have "remove_sent tid s = Some (s\<lparr>sendqueue := Some q\<rparr>)" "s\<lparr>sendqueue := Some q\<rparr> = s"
      using l i by (simp_all add: remove_sent_def coap_remove_transaction_def)
    then show ?thesis using inv by (simp add: tw Nil)
  qed
next
  case (Cons x zs)
  define as where "as = takeWhile P ns"
  have ns: "ns = as @ x # zs" using takeWhile_dropWhile_id [of P ns] Cons by (simp add: as_def)
  have "\<not> P x" using hd_dropWhile [of P ns] unfolding Cons by simp
  then have nx: "node_id s x = Some tid" by (simp add: P_def)
  obtain c p d where c: "cs_queue s x = Some c" "q_pdu c = Some p" "cs_pdus s p = Some d" "x \<notin> set (as @ zs)"
      "Some p \<notin> qpdu (cs_queue s) ` set (as @ zs)"
    using node_owner [OF inv ns] by blast
  have l: "is_list (cs_queue s) (sendqueue s) (as @ x # zs)" using inv ns by (simp add: sq_inv_def)
  have nc: "nx c = head_of zs"
    using l c(1) by (auto simp: chain_append links_def dest: chain_head)
  show ?thesis
  proof (cases as rule: rev_cases)
    case Nil
    define s1 where "s1 = s\<lparr>cs_queue := cs_queue s, sendqueue := head_of zs\<rparr>"
    have "is_list (cs_queue s) (head_of zs) ([] @ zs)" using unlink_head [of _ "sendqueue s" x zs] l Nil by simp
    then have i1: "sq_inv s1 zs" using sq_inv_sublist [of s "[]" x zs "cs_queue s" "head_of zs"] inv ns Nil by (simp add: s1_def)
    obtain s' where s': "sq_inv s' zs" "cs_queue s' x = None"
        "s' = s1\<lparr>cs_queue := (cs_queue s1)(x := None), cs_pdus := (cs_pdus s1)(p := None)\<rparr>"
      using delete_node_ok [OF i1, of x c p d] c Nil by (auto simp: s1_def)
    have "sendqueue s = Some x" using l Nil by simp
    then have "remove_sent tid s = Some s'"
      using c nx nc unfolding s'(3) s1_def
      by (simp add: remove_sent_def coap_remove_transaction_def coap_delete_node_def coap_free_def)
    then show ?thesis using s' Cons Nil by (simp add: as_def)
  next
    case (snoc cs a)
    have "as \<noteq> []" using snoc by simp
    then obtain q xs where q: "as = q # xs" by (auto simp: neq_Nil_conv)
    have sq: "sendqueue s = Some q" using l q by simp
    have ids: "\<forall>x \<in> set ns. \<exists>i. node_id s x = Some i" using inv node_id_live by (simp add: sq_inv_def)
    have asP: "\<forall>y \<in> set as. P y" by (auto simp: as_def dest: set_takeWhileD)
    obtain i where i: "node_id s q = Some i" "i \<noteq> tid" using ids asP q ns by (auto simp: P_def)
    have tw: "takeWhile P (xs @ x # zs) = xs" "dropWhile P (xs @ x # zs) = x # zs"
      using asP q nx by (simp_all add: P_def)
    have fb: "find_before s tid q = Some (a, Some x)"
      using find_before_list [of s q "xs @ x # zs" tid] l sq q ids ns tw snoc
      by (simp add: P_def head_of_def) (metis last.simps last_snoc)
    have al: "links (cs_queue s) a \<noteq> None" using chain_live [OF l] snoc by simp
    obtain h where h: "set_next a (nx c) (cs_queue s) = Some h" "links h = (links (cs_queue s))(a \<mapsto> nx c)"
        "payload h = payload (cs_queue s)" "\<forall>b. b \<noteq> a \<longrightarrow> h b = cs_queue s b"
      using set_next_run [OF al] by blast
    have lh: "is_list h (sendqueue s) (as @ zs)"
      using unlink_after [of "links (cs_queue s)" "sendqueue s" cs a x zs] l unfolding h(2) nc snoc by simp
    define s1 where "s1 = s\<lparr>cs_queue := h, sendqueue := sendqueue s\<rparr>"
    have i1: "sq_inv s1 (as @ zs)" unfolding s1_def using sq_inv_sublist [OF _ lh h(3)] inv ns by simp
    have hx: "h x = Some c" using h(4) c(1,4) snoc by auto
    have own: "Some p \<notin> qpdu (cs_queue s1) ` set (as @ zs)"
      using c(5) payload_nodes(2) [OF h(3)] by (simp add: s1_def)
    obtain s' where s': "coap_delete_node (Some x) s1 = Some (s', 1)" "sq_inv s' (as @ zs)" "cs_queue s' x = None"
        "s' = s1\<lparr>cs_queue := (cs_queue s1)(x := None), cs_pdus := (cs_pdus s1)(p := None)\<rparr>"
      using delete_node_ok [OF i1 c(4) _ c(2) _ own, of d] hx c(3) by (auto simp: s1_def)
    have s1: "s1 = s\<lparr>cs_queue := h\<rparr>" by (simp add: s1_def)
    have "s'\<lparr>sendqueue := Some q\<rparr> = s'" using sq by (simp add: s'(4) s1_def)
    then have "remove_sent tid s = Some s'"
      using sq i fb c(1) h(1) s'(1) s1 by (simp add: remove_sent_def coap_remove_transaction_def)
    then show ?thesis using s'(2,3) Cons by (simp add: as_def)
  qed
qed

section \<open>Sessions\<close>

text \<open>What an application does with the queue: send a confirmable message, serve the first node when
  it is due (the loop of \<open>client.c\<close> around \<open>coap_retransmit\<close>), take an acknowledgement, let time
  pass.\<close>

datatype coap_op = SendCon sockaddr coap_pdu | Due | Acked u16 | Wait nat

fun coap_exec :: "coap_env \<Rightarrow> coap_op \<Rightarrow> coap_state \<Rightarrow> coap_state option" where
  "coap_exec env (SendCon dst d) s =
     do { (s, p) \<leftarrow> new_pdu env s;
          a \<leftarrow> p;
          s \<leftarrow> upd_pdu a (\<lambda>_. Some d) s;
          (s, tid) \<leftarrow> coap_send_confirmed env dst (Some a) s;
          Some s }" |
  "coap_exec env Due s =
     (case coap_peek_next s of None \<Rightarrow> Some s
      | Some n \<Rightarrow> do {
          c \<leftarrow> cs_queue s n;
          if q_t c \<le> cs_now s then do {
            (s, node) \<leftarrow> coap_pop_next s;
            (s, tid) \<leftarrow> coap_retransmit env node s;
            Some s }
          else Some s })" |
  "coap_exec env (Acked tid) s = remove_sent tid s" |
  "coap_exec env (Wait k) s = Some (s\<lparr>cs_now := cs_now s + int k\<rparr>)"

fun coap_run :: "coap_env \<Rightarrow> coap_op list \<Rightarrow> coap_state \<Rightarrow> coap_state option" where
  "coap_run env [] s = Some s" |
  "coap_run env (x # xs) s = do { s \<leftarrow> coap_exec env x s; coap_run env xs s }"

fun op_ok :: "coap_op \<Rightarrow> bool" where
  "op_ok (SendCon dst d) = pdu_ok d" |
  "op_ok x = True"

lemma send_con_ok:
  assumes inv: "sq_inv s ns" and m: "\<forall>k. env_malloc env k" and d: "pdu_ok d"
  shows "\<exists>s' ns'. coap_exec env (SendCon dst d) s = Some s' \<and> sq_inv s' ns'"
proof -
  let ?a = "cs_fresh s"
  obtain d0 where np: "new_pdu env s = Some (s\<lparr>cs_calls := cs_calls s + 1, cs_fresh := ?a + 1,
      cs_pdus := (cs_pdus s)(?a \<mapsto> d0)\<rparr>, Some ?a)"
    using new_pdu_ok [of env s] m by blast
  define s1 where "s1 = s\<lparr>cs_calls := cs_calls s + 1, cs_fresh := ?a + 1, cs_pdus := (cs_pdus s)(?a \<mapsto> d)\<rparr>"
  note f = fresh_off [OF inv, of ?a]
  have z: "cs_queue s ?a = None" using inv by (simp add: sq_inv_def)
  have q: "cs_queue s1 = (cs_queue s)(?a := None)" "sendqueue s1 = sendqueue s"
    using z by (auto simp: s1_def)
  have "cs_pdus s1 x = cs_pdus s x" if "Some x \<in> qpdu (cs_queue s) ` set ns" for x
    using that f(2) by (auto simp: s1_def)
  moreover have "\<forall>a. cs_fresh s1 \<le> a \<longrightarrow> cs_queue s1 a = None \<and> cs_pdus s1 a = None"
    using inv by (simp add: sq_inv_def s1_def)
  ultimately have i1: "sq_inv s1 ns" and im: "qpdu (cs_queue s1) ` set ns = qpdu (cs_queue s) ` set ns"
    using sq_inv_off [OF inv _ q] f(1) by blast+
  have "env_malloc env (cs_calls s1)" "cs_pdus s1 ?a = Some d" "Some ?a \<notin> qpdu (cs_queue s1) ` set ns"
    using m f(2) im by (simp_all add: s1_def)
  from send_confirmed_ok [OF i1 this(1,2) d this(3)] obtain s' tid ns'
    where "coap_send_confirmed env dst (Some ?a) s1 = Some (s', tid)" "sq_inv s' ns'" by blast
  then show ?thesis using np by (auto simp: upd_pdu_def s1_def)
qed

lemma due_ok:
  assumes inv: "sq_inv s ns"
  shows "\<exists>s' ns'. coap_exec env Due s = Some s' \<and> sq_inv s' ns'"
proof (cases ns)
  case Nil
  then have "sendqueue s = None" using inv by (simp add: sq_inv_def)
  then show ?thesis using inv by (auto simp: coap_peek_next_def)
next
  case (Cons n xs)
  obtain h c where p: "coap_pop_next s = Some (s\<lparr>sendqueue := head_of xs, cs_queue := h\<rparr>, Some n)"
      "sq_inv (s\<lparr>sendqueue := head_of xs, cs_queue := h\<rparr>) xs" "n \<notin> set xs" "h n = Some c" "nx c = None"
      "payload h = payload (cs_queue s)"
    using pop_ok inv Cons by blast
  have q: "sendqueue s = Some n" using inv Cons by (simp add: sq_inv_def)
  obtain c0 where c0: "cs_queue s n = Some c0" using payload_nodes(3) [OF p(6), of n] p(4) by auto
  show ?thesis
  proof (cases "q_t c0 \<le> cs_now s")
    case True
    have lv: "live (cs_pdus s) h n" using inv Cons live_payload [OF p(6)] by (simp add: sq_inv_def)
    have own: "qpdu h n \<notin> qpdu h ` set xs"
      unfolding payload_nodes(2) [OF p(6)] using inv Cons by (simp add: sq_inv_def)
    obtain s' tid ns' where "coap_retransmit env (Some n) (s\<lparr>sendqueue := head_of xs, cs_queue := h\<rparr>) = Some (s', tid)"
        "sq_inv s' ns'"
      using retransmit_ok [OF p(2,3), of c env] p(4,5) lv own by auto
    then show ?thesis using q c0 p(1) True by (auto simp: coap_peek_next_def)
  next
    case False
    then show ?thesis using q c0 inv by (auto simp: coap_peek_next_def)
  qed
qed

lemma exec_ok:
  assumes "sq_inv s ns" "\<forall>k. env_malloc env k" "op_ok x"
  shows "\<exists>s' ns'. coap_exec env x s = Some s' \<and> sq_inv s' ns'"
proof (cases x)
  case (SendCon dst d)
  then show ?thesis using send_con_ok [OF assms(1,2)] assms(3) by simp
next
  case Due
  then show ?thesis using due_ok [OF assms(1)] by simp
next
  case (Acked tid)
  then show ?thesis using remove_sent_ok [OF assms(1), of tid] by auto
next
  case (Wait k)
  then show ?thesis using assms(1) by (auto simp: sq_inv_def)
qed

text \<open>C7: Every session on the retransmission queue is safe while memory lasts: whatever messages are
  sent, whenever time passes, due nodes are served and acknowledgements of any identifiers arrive,
  no step touches a freed or missing object, and afterwards the queue is a list of live nodes in
  the order of their deadlines, each with a live message of its own.\<close>

lemma coap_sessions_safe:
  assumes "sq_inv s ns" "\<forall>k. env_malloc env k" "\<forall>x \<in> set xs. op_ok x"
  shows "\<exists>s' ns'. coap_run env xs s = Some s' \<and> is_list (cs_queue s') (sendqueue s') ns' \<and>
    sorted (map (qtime (cs_queue s')) ns') \<and> (\<forall>n \<in> set ns'. live (cs_pdus s') (cs_queue s') n) \<and>
    distinct (map (qpdu (cs_queue s')) ns')"
  using assms(1,3)
proof (induction xs arbitrary: s ns)
  case Nil
  then show ?case by (auto simp: sq_inv_def)
next
  case (Cons x xs)
  have "op_ok x" using Cons(3) by simp
  then obtain s1 ns1 where "coap_exec env x s = Some s1" "sq_inv s1 ns1"
    using exec_ok [OF Cons(2) assms(2)] by blast
  then show ?case using Cons(1) [of s1 ns1] Cons(3) by simp
qed

definition empty_state :: coap_state where
  "empty_state = \<lparr>cs_queue = (\<lambda>_. None), cs_list = (\<lambda>_. None), cs_pdus = (\<lambda>_. None), cs_subs = (\<lambda>_. None),
     cs_ress = (\<lambda>_. None), cs_uris = (\<lambda>_. None), cs_blocks = (\<lambda>_. None), cs_fresh = 0, cs_calls = 0, cs_now = 0,
     cs_sent = [], sendqueue = None, recvqueue = None, resources = None, subscriptions = None\<rparr>"

definition good_env :: coap_env where
  "good_env = \<lparr>env_malloc = (\<lambda>_. True), env_sendto = (\<lambda>_. True), env_rand = (\<lambda>_. 0),
     env_data = (\<lambda>_ _ i _ _. (i, [], 0))\<rparr>"

definition demo_pdu :: "u16 \<Rightarrow> coap_pdu" where
  "demo_pdu i = \<lparr>pdu_mem = [0x40, 1, lo8 i, hi8 i] @ replicate 696 0, pdu_length = 4, pdu_data = 4\<rparr>"

lemma empty_inv: "sq_inv empty_state []"
  by (simp add: sq_inv_def empty_state_def)

lemma demo_pdu_ok: "pdu_ok (demo_pdu i)"
  by (simp add: pdu_ok_def demo_pdu_def COAP_MAX_PDU_SIZE_def)

lemma coap_sessions_safe_witness:
  "\<exists>s' ns'. coap_run good_env [SendCon null_addr (demo_pdu 1), SendCon null_addr (demo_pdu 2), Wait 4, Due, Acked 2] empty_state = Some s' \<and>
     is_list (cs_queue s') (sendqueue s') ns'"
  using coap_sessions_safe [OF empty_inv, of good_env
    "[SendCon null_addr (demo_pdu 1), SendCon null_addr (demo_pdu 2), Wait 4, Due, Acked 2]"] demo_pdu_ok
  by (auto simp: good_env_def)

section \<open>Giving up\<close>

text \<open>One message in the queue: \<open>k\<close> retransmissions done, the next one due at \<open>t\<close>.\<close>

definition single :: "nat \<Rightarrow> nat \<Rightarrow> coap_pdu \<Rightarrow> sockaddr \<Rightarrow> u8 \<Rightarrow> time_t \<Rightarrow> coap_state \<Rightarrow> bool" where
  "single n p d dst k t s \<longleftrightarrow> sendqueue s = Some n \<and> cs_pdus s p = Some d \<and>
     cs_queue s n = Some \<lparr>nx = None, q_t = t, q_cnt = k, q_remote = dst, q_pdu = Some p\<rparr>"

definition pdu_bytes :: "coap_pdu \<Rightarrow> u8 list" where
  "pdu_bytes d = take (unat (pdu_length d)) (pdu_mem d)"

lemma send_impl_log:
  assumes "cs_pdus s a = Some d" "pdu_ok d" "env_sendto env (cs_calls s)"
  shows "\<exists>tid. coap_send_impl env dst (Some a) False s =
    Some (s\<lparr>cs_calls := cs_calls s + 1, cs_sent := cs_sent s @ [(dst, pdu_bytes d)]\<rparr>, tid)"
  using send_impl_ok [OF assms(1,2), of env dst] assms(3) by (auto simp: pdu_bytes_def)

lemma due_single:
  assumes s: "single n p d dst k t s" and k: "k < 5" and d: "pdu_ok d" and t: "t \<le> cs_now s"
    and snd: "\<forall>j. env_sendto env j"
  shows "\<exists>s'. coap_exec env Due s = Some s' \<and> single n p d dst (k + 1) (t + 2 ^ unat (k + 1)) s' \<and>
    cs_sent s' = cs_sent s @ [(dst, pdu_bytes d)]"
proof -
  define c where "c = \<lparr>nx = None, q_t = t, q_cnt = k, q_remote = dst, q_pdu = Some p\<rparr>"
  define c1 where "c1 = \<lparr>nx = None, q_t = t + 2 ^ unat (k + 1), q_cnt = k + 1, q_remote = dst, q_pdu = Some p\<rparr>"
  have q: "sendqueue s = Some n" "cs_queue s n = Some c" "cs_pdus s p = Some d"
    using s by (simp_all add: single_def c_def)
  define s0 where "s0 = s\<lparr>sendqueue := None, cs_queue := (cs_queue s)(n \<mapsto> c)\<rparr>"
  have pop: "coap_pop_next s = Some (s0, Some n)"
    using q by (simp add: coap_pop_next_def set_next_def s0_def c_def)
  define s1 where "s1 = s\<lparr>sendqueue := Some n, cs_queue := (cs_queue s)(n \<mapsto> c1)\<rparr>"
  have u: "upd_node n (\<lambda>c. c\<lparr>q_cnt := q_cnt c + 1, q_t := q_t c + 2 ^ unat (q_cnt c + 1)\<rparr>) s0 =
      Some (s\<lparr>sendqueue := None, cs_queue := (cs_queue s)(n \<mapsto> c1)\<rparr>)"
    by (simp add: upd_node_def s0_def c_def c1_def)
  have i: "insert_send (Some n) (s\<lparr>sendqueue := None, cs_queue := (cs_queue s)(n \<mapsto> c1)\<rparr>) = Some (s1, 1)"
    by (simp add: insert_send_def coap_insert_node_def insert_linked_def s1_def)
  have "cs_pdus s1 p = Some d" "env_sendto env (cs_calls s1)" using q snd by (simp_all add: s1_def)
  then obtain tid where snd1: "coap_send_impl env dst (Some p) False s1 =
      Some (s1\<lparr>cs_calls := cs_calls s1 + 1, cs_sent := cs_sent s1 @ [(dst, pdu_bytes d)]\<rparr>, tid)"
    using send_impl_log [OF _ d] by blast
  define s2 where "s2 = s1\<lparr>cs_calls := cs_calls s1 + 1, cs_sent := cs_sent s1 @ [(dst, pdu_bytes d)]\<rparr>"
  have f: "cs_queue s0 n = Some c" "cs_queue s1 n = Some c1" "q_cnt c < COAP_DEFAULT_MAX_RETRANSMIT" "q_t c \<le> cs_now s"
    "q_remote c1 = dst" "q_pdu c1 = Some p"
    using k t by (simp_all add: s0_def s1_def c_def c1_def COAP_DEFAULT_MAX_RETRANSMIT_def)
  have "coap_exec env Due s = Some s2"
    using q(1,2) f pop u i snd1 by (simp add: coap_peek_next_def coap_retransmit_def s2_def)
  then show ?thesis using q(3) by (simp add: single_def s2_def s1_def c1_def)
qed

lemma due_last:
  assumes s: "single n p d dst 5 t s" and t: "t \<le> cs_now s"
  shows "\<exists>s'. coap_exec env Due s = Some s' \<and> sendqueue s' = None \<and> cs_queue s' n = None \<and>
    cs_pdus s' p = None \<and> cs_sent s' = cs_sent s"
  using assms
  by (auto simp: single_def coap_peek_next_def coap_pop_next_def set_next_def coap_retransmit_def
      COAP_DEFAULT_MAX_RETRANSMIT_def coap_delete_node_def coap_free_def)

text \<open>A round: the clock goes to the deadline of the first node, which is then served.\<close>

fun rounds :: "coap_env \<Rightarrow> nat \<Rightarrow> coap_state \<Rightarrow> coap_state option" where
  "rounds env 0 s = Some s" |
  "rounds env (Suc k) s =
     do { s \<leftarrow> rounds env k s;
          n \<leftarrow> sendqueue s;
          c \<leftarrow> cs_queue s n;
          coap_exec env Due (s\<lparr>cs_now := q_t c\<rparr>) }"

lemma rounds_single:
  assumes s: "single n p d dst 0 t s" and d: "pdu_ok d" and snd: "\<forall>j. env_sendto env j" and k: "k \<le> 5"
  shows "\<exists>s'. rounds env k s = Some s' \<and> single n p d dst (of_nat k) (t + 2 ^ (k + 1) - 2) s' \<and>
    cs_sent s' = cs_sent s @ replicate k (dst, pdu_bytes d)"
  using k
proof (induction k)
  case 0
  then show ?case using s by simp
next
  case (Suc k)
  then obtain s1 where s1: "rounds env k s = Some s1" "single n p d dst (of_nat k) (t + 2 ^ (k + 1) - 2) s1"
      "cs_sent s1 = cs_sent s @ replicate k (dst, pdu_bytes d)" by auto
  define s2 where "s2 = s1\<lparr>cs_now := t + 2 ^ (k + 1) - 2\<rparr>"
  have q: "sendqueue s1 = Some n" "cs_queue s1 n = Some \<lparr>nx = None, q_t = t + 2 ^ (k + 1) - 2, q_cnt = of_nat k,
      q_remote = dst, q_pdu = Some p\<rparr>" using s1(2) by (simp_all add: single_def)
  have s2: "single n p d dst (of_nat k) (t + 2 ^ (k + 1) - 2) s2" "cs_now s2 = t + 2 ^ (k + 1) - 2"
    using s1(2) by (simp_all add: single_def s2_def)
  have lt: "(of_nat k :: u8) < 5"
    using Suc(2) by (simp add: word_less_nat_alt unsigned_of_nat take_bit_nat_eq_self)
  have "unat (of_nat (k + 1) :: u8) = k + 1"
    using Suc(2) unfolding unsigned_of_nat by (simp add: take_bit_nat_eq_self)
  then have u: "unat (of_nat k + 1 :: u8) = k + 1" by (simp add: add.commute)
  have "t + 2 ^ (k + 1) - 2 \<le> cs_now s2" using s2(2) by simp
  from due_single [OF s2(1) lt d this snd] obtain s3 where s3: "coap_exec env Due s2 = Some s3"
      "single n p d dst (of_nat k + 1) (t + 2 ^ (k + 1) - 2 + 2 ^ (k + 1)) s3"
      "cs_sent s3 = cs_sent s2 @ [(dst, pdu_bytes d)]"
    unfolding u by blast
  have "rounds env (Suc k) s = Some s3" using s1(1) q s3(1) by (simp add: s2_def del: coap_exec.simps)
  moreover have e: "t + 2 ^ (k + 1) - 2 + 2 ^ (k + 1) = t + 2 ^ (Suc k + 1) - 2" by simp
  have "single n p d dst (of_nat (Suc k)) (t + 2 ^ (Suc k + 1) - 2) s3"
    using s3(2) unfolding e by (simp only: of_nat_Suc add.commute)
  moreover have "cs_sent s3 = cs_sent s @ replicate (Suc k) (dst, pdu_bytes d)"
    using s3(3) s1(3) by (simp add: s2_def replicate_append_same)
  ultimately show ?case by blast
qed

text \<open>C18: An unanswered confirmable message is sent exactly six times and then given up: sent at once
  into an empty queue, it is sent again at each deadline, 1, 3, 7, 15 and 31 seconds after the start
  (after k retransmissions the next deadline is 2^(k+1) - 1 seconds after the start), and when the
  sixth deadline passes the queue is empty and the node and the message are freed.\<close>

lemma confirmable_gives_up:
  assumes "sendqueue s = None" and p: "cs_pdus s p = Some d" and d: "pdu_ok d"
    and mal: "env_malloc env (cs_calls s)" and snd: "\<forall>j. env_sendto env j"
  shows "\<exists>s1 tid n. coap_send_confirmed env dst (Some p) s = Some (s1, tid) \<and>
    (\<forall>k \<le> 5. \<exists>s2 c. rounds env k s1 = Some s2 \<and> sendqueue s2 = Some n \<and> cs_queue s2 n = Some c \<and>
       q_t c = cs_now s + 2 ^ (k + 1) - 1 \<and> cs_sent s2 = cs_sent s @ replicate (k + 1) (dst, pdu_bytes d)) \<and>
    (\<exists>s2. rounds env 6 s1 = Some s2 \<and> sendqueue s2 = None \<and> cs_queue s2 n = None \<and> cs_pdus s2 p = None \<and>
       cs_sent s2 = cs_sent s @ replicate 6 (dst, pdu_bytes d))"
proof -
  define n where "n = cs_fresh s"
  define c where "c = \<lparr>nx = None, q_t = cs_now s + 1, q_cnt = 0, q_remote = dst, q_pdu = Some p\<rparr>"
  define s0 where "s0 = s\<lparr>cs_calls := cs_calls s + 1, cs_fresh := n + 1, cs_queue := (cs_queue s)(n \<mapsto> c),
      sendqueue := Some n\<rparr>"
  have "cs_pdus s0 p = Some d" "env_sendto env (cs_calls s0)" using p snd by (simp_all add: s0_def)
  from send_impl_log [OF this(1) d this(2), of dst] obtain tid where
    snd0: "coap_send_impl env dst (Some p) False s0 =
      Some (s0\<lparr>cs_calls := cs_calls s0 + 1, cs_sent := cs_sent s0 @ [(dst, pdu_bytes d)]\<rparr>, tid)" by blast
  define s1 where "s1 = s0\<lparr>cs_calls := cs_calls s0 + 1, cs_sent := cs_sent s0 @ [(dst, pdu_bytes d)]\<rparr>"
  have r1: "coap_send_confirmed env dst (Some p) s = Some (s1, tid)"
    using assms(1) mal snd0 unfolding s1_def
    by (simp add: coap_send_confirmed_def coap_new_node_def coap_malloc_def upd_node_def insert_send_def
        coap_insert_node_def insert_linked_def zero_node_def s0_def n_def c_def)
  have sg: "single n p d dst 0 (cs_now s + 1) s1" using p by (simp add: single_def s1_def s0_def c_def)
  have log: "cs_sent s1 = cs_sent s @ [(dst, pdu_bytes d)]" by (simp add: s1_def s0_def)
  have "\<exists>s2 c. rounds env k s1 = Some s2 \<and> sendqueue s2 = Some n \<and> cs_queue s2 n = Some c \<and>
       q_t c = cs_now s + 2 ^ (k + 1) - 1 \<and> cs_sent s2 = cs_sent s @ replicate (k + 1) (dst, pdu_bytes d)" if "k \<le> 5" for k
    using rounds_single [OF sg d snd that] log by (auto simp: single_def)
  moreover have "\<exists>s2. rounds env 6 s1 = Some s2 \<and> sendqueue s2 = None \<and> cs_queue s2 n = None \<and> cs_pdus s2 p = None \<and>
       cs_sent s2 = cs_sent s @ replicate 6 (dst, pdu_bytes d)"
  proof -
    obtain s5 where s5: "rounds env 5 s1 = Some s5" "single n p d dst 5 (cs_now s + 1 + 2 ^ 6 - 2) s5"
        "cs_sent s5 = cs_sent s @ replicate 6 (dst, pdu_bytes d)"
      using rounds_single [OF sg d snd, of 5] log by (auto simp: numeral_eq_Suc)
    define s5' where "s5' = s5\<lparr>cs_now := cs_now s + 1 + 2 ^ 6 - 2\<rparr>"
    have "single n p d dst 5 (cs_now s + 1 + 2 ^ 6 - 2) s5'" "cs_now s + 1 + 2 ^ 6 - 2 \<le> cs_now s5'"
      using s5(2) by (simp_all add: single_def s5'_def)
    from due_last [OF this, of env] obtain s6 where s6: "coap_exec env Due s5' = Some s6" "sendqueue s6 = None"
        "cs_queue s6 n = None" "cs_pdus s6 p = None" "cs_sent s6 = cs_sent s5'" by blast
    have "rounds env (Suc 5) s1 = Some s6"
      using s5(1,2) s6(1) by (simp only: rounds.simps) (simp add: single_def s5'_def del: coap_exec.simps)
    then show ?thesis using s6 s5(3) by (simp add: s5'_def)
  qed
  ultimately show ?thesis using r1 by blast
qed

lemma confirmable_gives_up_witness:
  "\<exists>s1 tid s2. coap_send_confirmed good_env null_addr (Some 7) (empty_state\<lparr>cs_pdus := [7 \<mapsto> demo_pdu 1]\<rparr>) = Some (s1, tid) \<and>
     rounds good_env 6 s1 = Some s2 \<and> cs_pdus s2 7 = None"
  using confirmable_gives_up [of "empty_state\<lparr>cs_pdus := [7 \<mapsto> demo_pdu 1]\<rparr>" 7 "demo_pdu 1" good_env null_addr] demo_pdu_ok
  by (auto simp: good_env_def empty_state_def)

section \<open>Refused messages\<close>

lemma send_after_free:
  assumes "env_sendto env (cs_calls s)"
  shows "coap_send env dst (Some a) s = None"
proof (cases "cs_pdus s a")
  case (Some p)
  then show ?thesis using assms
    by (cases "rdn (pdu_mem p) 0 (unat (pdu_length p))")
      (simp_all add: coap_send_def coap_send_impl_def coap_delete_pdu_def coap_free_def)
qed (simp add: coap_send_def coap_send_impl_def)

lemma reject_after_free:
  assumes "env_malloc env (cs_calls s)" "\<forall>j. env_sendto env j"
  shows "reject_critical env c d type opt s = None"
proof -
  obtain s1 a where np: "new_pdu env s = Some (s1, Some a)" using new_pdu_ok [OF assms(1)] by blast
  have z: "coap_send env dst (Some a) x = None" for dst x using send_after_free assms(2) by blast
  have b: "x \<bind> (\<lambda>_. None) = None" for x :: "'x option" by (cases x) simp_all
  show ?thesis unfolding reject_critical_def np by (simp add: z b)
qed

text \<open>C34: A received confirmable message with an unknown critical option makes the library use freed
  memory: when memory for the answer is found and it is sent, \<open>coap_dispatch\<close> has no defined result,
  because \<open>coap_send\<close> reads the identifier of the message it has just freed.\<close>

lemma unknown_critical_crashes:
  assumes q: "recvqueue s = Some n" "cs_queue s n = Some c" "q_pdu c = Some a" "cs_pdus s a = Some d"
    and m: "hdr_type (pdu_mem d) = Some COAP_MESSAGE_CON" "coap_check_critical (Some d) = Some (Some opt, code)" "code \<noteq> 0"
    and env: "env_malloc env (cs_calls s)" "\<forall>j. env_sendto env j"
  shows "coap_dispatch env handler s = None"
proof -
  define s1 where "s1 = s\<lparr>recvqueue := nx c, cs_queue := (cs_queue s)(n \<mapsto> c\<lparr>nx := None\<rparr>)\<rparr>"
  have "env_malloc env (cs_calls s1)" using env(1) by (simp add: s1_def)
  then have r: "reject_critical env (c\<lparr>nx := None\<rparr>) d code opt s1 = None" by (rule reject_after_free [OF _ env(2)])
  have f: "cs_queue s1 n = Some (c\<lparr>nx := None\<rparr>)" "cs_pdus s1 a = Some d" using q by (simp_all add: s1_def)
  have "dispatch_message env n s1 = None"
    using f q(3) m r
    by (cases "hdr_id (pdu_mem d)")
      (simp_all add: dispatch_message_def COAP_MESSAGE_CON_def COAP_MESSAGE_ACK_def COAP_MESSAGE_RST_def COAP_MESSAGE_NON_def)
  then show ?thesis using q(1,2) by (subst coap_dispatch.simps) (simp add: set_next_def s1_def)
qed

text \<open>A message with the option 7, which is critical and unknown.\<close>

definition bad_pdu :: coap_pdu where
  "bad_pdu = \<lparr>pdu_mem = [0x41, 1, 0, 1, 0x70] @ replicate 695 0, pdu_length = 5, pdu_data = 5\<rparr>"

definition bad_state :: coap_state where
  "bad_state = empty_state\<lparr>recvqueue := Some 0, cs_queue := [0 \<mapsto> zero_node\<lparr>q_pdu := Some 1\<rparr>], cs_pdus := [1 \<mapsto> bad_pdu],
     cs_fresh := 2\<rparr>"

lemma unknown_critical_crashes_witness:
  "recvqueue bad_state = Some 0 \<and> coap_check_critical (Some bad_pdu) = Some (Some 4, 7) \<and>
     coap_dispatch good_env None bad_state = None"
proof -
  have c: "coap_check_critical (Some bad_pdu) = Some (Some 4, 7)"
    by (simp add: coap_check_critical_def bad_pdu_def hdr_optcnt_def rd_def SIZEOF_HDR_def COAP_OPT_DELTA_def
        known_critical_def COAP_OPTION_CONTENT_TYPE_def COAP_OPTION_URI_AUTHORITY_def COAP_OPTION_URI_PATH_def
        COAP_OPTION_TOKEN_def COAP_OPTION_BLOCK_def COAP_OPTION_URI_QUERY_def)
  have t: "hdr_type (pdu_mem bad_pdu) = Some COAP_MESSAGE_CON"
    by (simp add: hdr_type_def bad_pdu_def rd_def COAP_MESSAGE_CON_def)
  have "coap_dispatch good_env None bad_state = None"
    using unknown_critical_crashes [of bad_state 0 "zero_node\<lparr>q_pdu := Some 1\<rparr>" 1 bad_pdu 4 7 good_env None] c t
    by (simp add: bad_state_def good_env_def)
  then show ?thesis using c by (simp add: bad_state_def)
qed

end
