(* ===== verification/Sf_Message.thy ===== *)
theory Sf_Message
  imports Backip_Prelude
begin

text \<open>
  Bit fields of serial messages (\<open>message.c\<close> of the serial forwarder library): the accessors that
  the generated message classes call to read and write an integer of any width at any bit offset.

  A message is the buffer its \<open>data\<close> pointer designates and the length it was given.  Sizes are
  \<open>size_t\<close> values, natural numbers below \<open>SIZE_MOD\<close>; the sums that can exceed it are reduced
  where the code computes them, the others are bounded by the tests before them.  Shifts by the
  width of their type or more have no defined meaning, nor have signed ones that overflow.  Floats
  are their bit patterns, which is what the unions of the code convert to and from.
\<close>


type_synonym u64 = "64 word"

definition SIZE_MOD :: nat where "SIZE_MOD = 2 ^ 32"

record tmsg =
  tm_data :: mem
  tm_len :: nat

text \<open>The failure hook is a function pointer of the program; what is observed is which function is
  called.\<close>

record fail_state =
  failfn :: "nat option"
  fail_log :: "nat list"

section \<open>Messages and the failure hook\<close>

definition new_tmsg :: "bool \<Rightarrow> mem \<Rightarrow> nat \<Rightarrow> tmsg option" where
  "new_tmsg ok packet len = (if ok then Some \<lparr>tm_data = packet, tm_len = len\<rparr> else None)"

definition reset_tmsg :: "tmsg option \<Rightarrow> mem \<Rightarrow> nat \<Rightarrow> tmsg option" where
  "reset_tmsg msg packet len = (case msg of None \<Rightarrow> None | Some m \<Rightarrow> Some (m\<lparr>tm_data := packet, tm_len := len\<rparr>))"

definition tmsg_fail :: "fail_state \<Rightarrow> fail_state" where
  "tmsg_fail w = (case failfn w of None \<Rightarrow> w | Some f \<Rightarrow> w\<lparr>fail_log := fail_log w @ [f]\<rparr>)"

definition tmsg_set_fail :: "nat option \<Rightarrow> fail_state \<Rightarrow> fail_state \<times> nat option" where
  "tmsg_set_fail fn w = (let oldfn = failfn w in (w\<lparr>failfn := fn\<rparr>, oldfn))"

definition boundsp :: "fail_state \<Rightarrow> tmsg \<Rightarrow> nat \<Rightarrow> nat \<Rightarrow> fail_state \<times> bool" where
  "boundsp w msg offset len =
     (if (offset + len) mod SIZE_MOD \<le> (tm_len msg * 8) mod SIZE_MOD then (w, True)
      else (tmsg_fail w, False))"

section \<open>Shifts\<close>

text \<open>\<open>1 << n\<close> of type \<open>int\<close>, less one.\<close>

definition int_ones :: "nat \<Rightarrow> u32 option" where
  "int_ones n = (if n < 31 then Some (push_bit n 1 - 1) else None)"

definition shl64 :: "u64 \<Rightarrow> nat \<Rightarrow> u64 option" where
  "shl64 x n = (if n < 64 then Some (push_bit n x) else None)"

definition shr64 :: "u64 \<Rightarrow> nat \<Rightarrow> u64 option" where
  "shr64 x n = (if n < 64 then Some (drop_bit n x) else None)"

text \<open>\<open>u2s\<close>: the result has the type \<open>int64_t\<close>; \<open>length - 1\<close> of type \<open>size_t\<close> wraps for 0.\<close>

definition int64_range :: "int \<Rightarrow> bool" where
  "int64_range v \<longleftrightarrow> - (2 ^ 63) \<le> v \<and> v < 2 ^ 63"

definition u2s :: "u64 \<Rightarrow> nat \<Rightarrow> int option" where
  "u2s x len = do {
     s \<leftarrow> shl64 1 ((len + SIZE_MOD - 1) mod SIZE_MOD);
     if x AND s \<noteq> 0 then
       (if len < 63 \<and> int64_range (sint x - 2 ^ len) then Some (sint x - 2 ^ len) else None)
     else Some (sint x) }"

section \<open>Little-endian fields\<close>

function read_ule_loop :: "mem \<Rightarrow> u64 \<Rightarrow> nat \<Rightarrow> nat \<Rightarrow> nat \<Rightarrow> (u64 \<times> nat \<times> nat \<times> nat) option" where
  "read_ule_loop d x byte_offset shift len =
     (if len \<ge> 8 then do {
        b \<leftarrow> rd d byte_offset;
        y \<leftarrow> shl64 (ucast b) shift;
        read_ule_loop d (x OR y) (byte_offset + 1) (shift + 8) (len - 8) }
      else Some (x, byte_offset, shift, len))"
  by pat_completeness auto
termination
  by (relation "measure (\<lambda>(d, x, bo, sh, n). n)") auto

text \<open>The first byte when the field starts after the first bit of the buffer, and the last one.\<close>

definition read_ule_first :: "mem \<Rightarrow> nat \<Rightarrow> nat \<Rightarrow> (u64 \<times> nat \<times> nat \<times> nat) option" where
  "read_ule_first d offset len =
     (let byte_offset = offset div 8; bit_offset = offset mod 8 in
      if offset > 0 then do {
        b \<leftarrow> rd d byte_offset;
        Some (ucast (drop_bit bit_offset b), byte_offset + 1, 8 - bit_offset, len - (8 - bit_offset)) }
      else Some (0, byte_offset, 0, len))"

definition read_ule_last :: "mem \<Rightarrow> u64 \<Rightarrow> nat \<Rightarrow> nat \<Rightarrow> nat \<Rightarrow> u64 option" where
  "read_ule_last d x byte_offset shift len =
     (if len > 0 then do {
        b \<leftarrow> rd d byte_offset;
        ones \<leftarrow> int_ones len;
        y \<leftarrow> shl64 (ucast (ucast b AND ones)) shift;
        Some (x OR y) }
      else Some x)"

definition tmsg_read_ule :: "fail_state \<Rightarrow> tmsg \<Rightarrow> nat \<Rightarrow> nat \<Rightarrow> (fail_state \<times> u64) option" where
  "tmsg_read_ule w msg offset len =
     (let (w, ok) = boundsp w msg offset len in
      if \<not> ok then Some (w, 0)
      else let d = tm_data msg; byte_offset = offset div 8; bit_offset = offset mod 8 in
        if (len + bit_offset) mod SIZE_MOD \<le> 8 then do {
          b \<leftarrow> rd d byte_offset;
          ones \<leftarrow> int_ones len;
          Some (w, ucast (drop_bit bit_offset (ucast b) AND ones)) }
        else do {
          (x, byte_offset, shift, len) \<leftarrow> read_ule_first d offset len;
          (x, byte_offset, shift, len) \<leftarrow> read_ule_loop d x byte_offset shift len;
          x \<leftarrow> read_ule_last d x byte_offset shift len;
          Some (w, x) })"

definition tmsg_read_le :: "fail_state \<Rightarrow> tmsg \<Rightarrow> nat \<Rightarrow> nat \<Rightarrow> (fail_state \<times> int) option" where
  "tmsg_read_le w msg offset len =
     do { (w, x) \<leftarrow> tmsg_read_ule w msg offset len; v \<leftarrow> u2s x len; Some (w, v) }"

function write_ule_loop :: "u64 \<Rightarrow> mem \<Rightarrow> nat \<Rightarrow> nat \<Rightarrow> nat \<Rightarrow> (mem \<times> nat \<times> nat \<times> nat) option" where
  "write_ule_loop x d byte_offset shift len =
     (if len \<ge> 8 then do {
        y \<leftarrow> shr64 x shift;
        d \<leftarrow> wr d byte_offset (ucast y);
        write_ule_loop x d (byte_offset + 1) (shift + 8) (len - 8) }
      else Some (d, byte_offset, shift, len))"
  by pat_completeness auto
termination
  by (relation "measure (\<lambda>(x, d, bo, sh, n). n)") auto

text \<open>The old bits of a byte are kept by the mask; the value is not masked.\<close>

definition write_ule_first :: "mem \<Rightarrow> nat \<Rightarrow> nat \<Rightarrow> u64 \<Rightarrow> (mem \<times> nat \<times> nat \<times> nat) option" where
  "write_ule_first d offset len x =
     (let byte_offset = offset div 8; bit_offset = offset mod 8 in
      if bit_offset > 0 then do {
        b \<leftarrow> rd d byte_offset;
        ones \<leftarrow> int_ones bit_offset;
        d \<leftarrow> wr d byte_offset (ucast (ucast (ucast b AND ones) OR push_bit bit_offset x));
        Some (d, byte_offset + 1, 8 - bit_offset, len - (8 - bit_offset)) }
      else Some (d, byte_offset, 0, len))"

definition write_ule_last :: "u64 \<Rightarrow> mem \<Rightarrow> nat \<Rightarrow> nat \<Rightarrow> nat \<Rightarrow> mem option" where
  "write_ule_last x d byte_offset shift len =
     (if len > 0 then do {
        b \<leftarrow> rd d byte_offset;
        ones \<leftarrow> int_ones len;
        y \<leftarrow> shr64 x shift;
        wr d byte_offset (ucast (ucast (ucast b AND NOT ones) OR y)) }
      else Some d)"

definition write_ule_bytes :: "mem \<Rightarrow> nat \<Rightarrow> nat \<Rightarrow> u64 \<Rightarrow> mem option" where
  "write_ule_bytes d offset len x =
     (let byte_offset = offset div 8; bit_offset = offset mod 8 in
      if (len + bit_offset) mod SIZE_MOD \<le> 8 then do {
        b \<leftarrow> rd d byte_offset;
        ones \<leftarrow> int_ones len;
        wr d byte_offset (ucast (ucast (ucast b AND NOT (push_bit bit_offset ones)) OR push_bit bit_offset x)) }
      else do {
        (d, byte_offset, shift, len) \<leftarrow> write_ule_first d offset len x;
        (d, byte_offset, shift, len) \<leftarrow> write_ule_loop x d byte_offset shift len;
        write_ule_last x d byte_offset shift len })"

definition tmsg_write_ule ::
  "fail_state \<Rightarrow> tmsg \<Rightarrow> nat \<Rightarrow> nat \<Rightarrow> u64 \<Rightarrow> (fail_state \<times> tmsg) option" where
  "tmsg_write_ule w msg offset len x =
     (let (w, ok) = boundsp w msg offset len in
      if \<not> ok then Some (w, msg)
      else do { d \<leftarrow> write_ule_bytes (tm_data msg) offset len x; Some (w, msg\<lparr>tm_data := d\<rparr>) })"

definition tmsg_write_le ::
  "fail_state \<Rightarrow> tmsg \<Rightarrow> nat \<Rightarrow> nat \<Rightarrow> int \<Rightarrow> (fail_state \<times> tmsg) option" where
  "tmsg_write_le w msg offset len v = tmsg_write_ule w msg offset len (word_of_int v)"

section \<open>Big-endian fields\<close>

function read_ube_loop :: "mem \<Rightarrow> u64 \<Rightarrow> nat \<Rightarrow> nat \<Rightarrow> (u64 \<times> nat \<times> nat) option" where
  "read_ube_loop d x byte_offset len =
     (if len \<ge> 8 then do {
        b \<leftarrow> rd d byte_offset;
        y \<leftarrow> shl64 (ucast b) (len - 8);
        read_ube_loop d (x OR y) (byte_offset + 1) (len - 8) }
      else Some (x, byte_offset, len))"
  by pat_completeness auto
termination
  by (relation "measure (\<lambda>(d, x, bo, n). n)") auto

definition read_ube_first :: "mem \<Rightarrow> nat \<Rightarrow> nat \<Rightarrow> (u64 \<times> nat \<times> nat) option" where
  "read_ube_first d offset len =
     (let byte_offset = offset div 8; bit_offset = offset mod 8 in
      if bit_offset > 0 then do {
        b \<leftarrow> rd d byte_offset;
        ones \<leftarrow> int_ones (8 - bit_offset);
        y \<leftarrow> shl64 (ucast (ucast b AND ones)) (len - (8 - bit_offset));
        Some (y, byte_offset + 1, len - (8 - bit_offset)) }
      else Some (0, byte_offset, len))"

definition read_ube_last :: "mem \<Rightarrow> u64 \<Rightarrow> nat \<Rightarrow> nat \<Rightarrow> u64 option" where
  "read_ube_last d x byte_offset len =
     (if len > 0 then do { b \<leftarrow> rd d byte_offset; Some (x OR ucast (drop_bit (8 - len) b)) }
      else Some x)"

definition tmsg_read_ube :: "fail_state \<Rightarrow> tmsg \<Rightarrow> nat \<Rightarrow> nat \<Rightarrow> (fail_state \<times> u64) option" where
  "tmsg_read_ube w msg offset len =
     (let (w, ok) = boundsp w msg offset len in
      if \<not> ok then Some (w, 0)
      else let d = tm_data msg; byte_offset = offset div 8; bit_offset = offset mod 8 in
        if (len + bit_offset) mod SIZE_MOD \<le> 8 then do {
          b \<leftarrow> rd d byte_offset;
          ones \<leftarrow> int_ones len;
          Some (w, ucast (drop_bit (8 - bit_offset - len) (ucast b) AND ones)) }
        else do {
          (x, byte_offset, len) \<leftarrow> read_ube_first d offset len;
          (x, byte_offset, len) \<leftarrow> read_ube_loop d x byte_offset len;
          x \<leftarrow> read_ube_last d x byte_offset len;
          Some (w, x) })"

definition tmsg_read_be :: "fail_state \<Rightarrow> tmsg \<Rightarrow> nat \<Rightarrow> nat \<Rightarrow> (fail_state \<times> int) option" where
  "tmsg_read_be w msg offset len =
     do { (w, x) \<leftarrow> tmsg_read_ube w msg offset len; v \<leftarrow> u2s x len; Some (w, v) }"

function write_ube_loop :: "u64 \<Rightarrow> mem \<Rightarrow> nat \<Rightarrow> nat \<Rightarrow> (mem \<times> nat \<times> nat) option" where
  "write_ube_loop x d byte_offset len =
     (if len \<ge> 8 then do {
        y \<leftarrow> shr64 x (len - 8);
        d \<leftarrow> wr d byte_offset (ucast y);
        write_ube_loop x d (byte_offset + 1) (len - 8) }
      else Some (d, byte_offset, len))"
  by pat_completeness auto
termination
  by (relation "measure (\<lambda>(x, d, bo, n). n)") auto

definition write_ube_first :: "mem \<Rightarrow> nat \<Rightarrow> nat \<Rightarrow> u64 \<Rightarrow> (mem \<times> nat \<times> nat) option" where
  "write_ube_first d offset len x =
     (let byte_offset = offset div 8; bit_offset = offset mod 8 in
      if bit_offset > 0 then do {
        b \<leftarrow> rd d byte_offset;
        mk \<leftarrow> int_ones (8 - bit_offset);
        y \<leftarrow> shr64 x (len - (8 - bit_offset));
        d \<leftarrow> wr d byte_offset (ucast (ucast (ucast b AND NOT mk) OR y));
        Some (d, byte_offset + 1, len - (8 - bit_offset)) }
      else Some (d, byte_offset, len))"

definition write_ube_last :: "u64 \<Rightarrow> mem \<Rightarrow> nat \<Rightarrow> nat \<Rightarrow> mem option" where
  "write_ube_last x d byte_offset len =
     (if len > 0 then do {
        b \<leftarrow> rd d byte_offset;
        mk \<leftarrow> int_ones (8 - len);
        wr d byte_offset (ucast (ucast (ucast b AND mk) OR push_bit (8 - len) x)) }
      else Some d)"

definition write_ube_bytes :: "mem \<Rightarrow> nat \<Rightarrow> nat \<Rightarrow> u64 \<Rightarrow> mem option" where
  "write_ube_bytes d offset len x =
     (let byte_offset = offset div 8; bit_offset = offset mod 8 in
      if (len + bit_offset) mod SIZE_MOD \<le> 8 then do {
        b \<leftarrow> rd d byte_offset;
        ones \<leftarrow> int_ones len;
        let mk = push_bit (8 - bit_offset - len) ones;
        wr d byte_offset (ucast (ucast (ucast b AND NOT mk) OR push_bit (8 - bit_offset - len) x)) }
      else do {
        (d, byte_offset, len) \<leftarrow> write_ube_first d offset len x;
        (d, byte_offset, len) \<leftarrow> write_ube_loop x d byte_offset len;
        write_ube_last x d byte_offset len })"

definition tmsg_write_ube ::
  "fail_state \<Rightarrow> tmsg \<Rightarrow> nat \<Rightarrow> nat \<Rightarrow> u64 \<Rightarrow> (fail_state \<times> tmsg) option" where
  "tmsg_write_ube w msg offset len x =
     (let (w, ok) = boundsp w msg offset len in
      if \<not> ok then Some (w, msg)
      else do { d \<leftarrow> write_ube_bytes (tm_data msg) offset len x; Some (w, msg\<lparr>tm_data := d\<rparr>) })"

definition tmsg_write_be ::
  "fail_state \<Rightarrow> tmsg \<Rightarrow> nat \<Rightarrow> nat \<Rightarrow> int \<Rightarrow> (fail_state \<times> tmsg) option" where
  "tmsg_write_be w msg offset len v = tmsg_write_ube w msg offset len (word_of_int v)"

section \<open>Floats, as bit patterns\<close>

definition tmsg_read_float_le :: "fail_state \<Rightarrow> tmsg \<Rightarrow> nat \<Rightarrow> (fail_state \<times> u32) option" where
  "tmsg_read_float_le w msg offset = do { (w, x) \<leftarrow> tmsg_read_ule w msg offset 32; Some (w, ucast x) }"

definition tmsg_write_float_le :: "fail_state \<Rightarrow> tmsg \<Rightarrow> nat \<Rightarrow> u32 \<Rightarrow> (fail_state \<times> tmsg) option" where
  "tmsg_write_float_le w msg offset f = tmsg_write_ule w msg offset 32 (ucast f)"

definition tmsg_read_float_be :: "fail_state \<Rightarrow> tmsg \<Rightarrow> nat \<Rightarrow> (fail_state \<times> u32) option" where
  "tmsg_read_float_be w msg offset = do { (w, x) \<leftarrow> tmsg_read_ube w msg offset 32; Some (w, ucast x) }"

definition tmsg_write_float_be :: "fail_state \<Rightarrow> tmsg \<Rightarrow> nat \<Rightarrow> u32 \<Rightarrow> (fail_state \<times> tmsg) option" where
  "tmsg_write_float_be w msg offset f = tmsg_write_ube w msg offset 32 (ucast f)"

section \<open>Bits of a buffer\<close>

declare read_ule_loop.simps [simp del] write_ule_loop.simps [simp del]
declare read_ube_loop.simps [simp del] write_ube_loop.simps [simp del]

text \<open>The bits of a buffer, counted from the least significant bit of each byte and from the most
  significant one.\<close>

definition lebit :: "mem \<Rightarrow> nat \<Rightarrow> bool" where
  "lebit d i = bit (d ! (i div 8)) (i mod 8)"

definition bebit :: "mem \<Rightarrow> nat \<Rightarrow> bool" where
  "bebit d i = bit (d ! (i div 8)) (7 - i mod 8)"

text \<open>A field the code is specified for: inside a buffer whose length is the one given and whose
  number of bits is a \<open>size_t\<close>, and no wider than the integer type.\<close>

definition field_ok :: "mem \<Rightarrow> nat \<Rightarrow> nat \<Rightarrow> bool" where
  "field_ok d offset len \<longleftrightarrow>
     offset + len \<le> 8 * length d \<and> 8 * length d < SIZE_MOD \<and> 0 < len \<and> len \<le> 64"

lemma bit_u8_less: "bit (b :: u8) k \<Longrightarrow> k < 8"
  using bit_imp_le_length by fastforce

lemma lebit_byte: "8 * p \<le> i \<Longrightarrow> i < 8 * p + 8 \<Longrightarrow> lebit d i = bit (d ! p) (i - 8 * p)"
  by (auto simp: lebit_def div_nat_eqI minus_div_mult_eq_mod [symmetric] dest!: le_Suc_ex)

lemma bebit_byte: "8 * p \<le> i \<Longrightarrow> i < 8 * p + 8 \<Longrightarrow> bebit d i = bit (d ! p) (7 - (i - 8 * p))"
  by (auto simp: bebit_def dest!: le_Suc_ex)

lemma bit_int_ones: "int_ones n = Some m \<Longrightarrow> bit m k \<longleftrightarrow> k < n"
proof -
  assume "int_ones n = Some m"
  then have "n < 31" "m = mask n"
    by (auto simp: int_ones_def mask_eq_decr_exp push_bit_eq_mult split: if_splits)
  then show ?thesis by (auto simp: bit_simps)
qed

lemma int_ones_Some: "n \<le> 8 \<Longrightarrow> \<exists>m. int_ones n = Some m"
  by (simp add: int_ones_def)

lemma read_ule_loop_spec:
  assumes "shift + len \<le> 64" and "8 * bo + len \<le> 8 * length d"
  shows "\<exists>y. read_ule_loop d x bo shift len =
           Some (y, bo + len div 8, shift + 8 * (len div 8), len mod 8) \<and>
         (\<forall>j. bit y j \<longleftrightarrow> bit x j \<or> shift \<le> j \<and> j < shift + 8 * (len div 8) \<and> lebit d (8 * bo + (j - shift)))"
  using assms
proof (induction d x bo shift len rule: read_ule_loop.induct)
  case (1 d x bo shift len)
  show ?case
  proof (cases "8 \<le> len")
    case False
    then show ?thesis by (subst read_ule_loop.simps) auto
  next
    case True
    then have bnd: "bo < length d" "shift < 64" using "1.prems" by auto
    define x1 where "x1 = x OR push_bit shift (ucast (d ! bo))"
    obtain y where y: "read_ule_loop d x1 (bo + 1) (shift + 8) (len - 8) =
         Some (y, bo + 1 + (len - 8) div 8, shift + 8 + 8 * ((len - 8) div 8), (len - 8) mod 8)"
       and bity: "\<And>j. bit y j \<longleftrightarrow> bit x1 j \<or> shift + 8 \<le> j \<and> j < shift + 8 + 8 * ((len - 8) div 8) \<and>
              lebit d (8 * (bo + 1) + (j - (shift + 8)))"
      using "1.IH" [of "d ! bo" "push_bit shift (ucast (d ! bo))"] "1.prems" True bnd
      by (auto simp: rd_def shl64_def x1_def)
    have len: "len = len - 8 + 8" using True by simp
    have run: "read_ule_loop d x bo shift len =
         Some (y, bo + len div 8, shift + 8 * (len div 8), len mod 8)"
      using True bnd y
      by (subst read_ule_loop.simps) (auto simp: rd_def shl64_def x1_def le_div_geq le_mod_geq)
    have x1: "bit x1 j \<longleftrightarrow> bit x j \<or> shift \<le> j \<and> j < shift + 8 \<and> lebit d (8 * bo + (j - shift))" for j
      using "1.prems" True lebit_byte [of bo "8 * bo + (j - shift)" d]
      by (auto simp: x1_def bit_simps dest: bit_u8_less)
    have "bit y j \<longleftrightarrow> bit x j \<or> shift \<le> j \<and> j < shift + 8 * (len div 8) \<and> lebit d (8 * bo + (j - shift))" for j
    proof -
      have "8 * (bo + 1) + (j - (shift + 8)) = 8 * bo + (j - shift)" if "shift + 8 \<le> j"
        using that by simp
      moreover have "8 * (len div 8) = 8 + 8 * ((len - 8) div 8)"
        using True by (simp add: le_div_geq)
      ultimately show ?thesis
        by (cases "shift + 8 \<le> j") (auto simp: bity x1)
    qed
    with run show ?thesis by blast
  qed
qed

lemma lebit_update: "p < length d \<Longrightarrow>
    lebit (d[p := b]) i = (if 8 * p \<le> i \<and> i < 8 * p + 8 then bit b (i - 8 * p) else lebit d i)"
  by (auto simp: lebit_byte nth_list_update) (auto simp: lebit_def nth_list_update)

lemma bebit_update: "p < length d \<Longrightarrow>
    bebit (d[p := b]) i = (if 8 * p \<le> i \<and> i < 8 * p + 8 then bit b (7 - (i - 8 * p)) else bebit d i)"
  by (auto simp: bebit_byte nth_list_update) (auto simp: bebit_def nth_list_update)

lemma write_ule_loop_spec:
  assumes "shift + len \<le> 64" and "8 * bo + len \<le> 8 * length d"
  shows "\<exists>e. write_ule_loop x d bo shift len =
           Some (e, bo + len div 8, shift + 8 * (len div 8), len mod 8) \<and> length e = length d \<and>
         (\<forall>i. lebit e i \<longleftrightarrow> (if 8 * bo \<le> i \<and> i < 8 * bo + 8 * (len div 8)
                              then bit x (shift + (i - 8 * bo)) else lebit d i))"
  using assms
proof (induction x d bo shift len rule: write_ule_loop.induct)
  case (1 x d bo shift len)
  show ?case
  proof (cases "8 \<le> len")
    case False
    then show ?thesis by (subst write_ule_loop.simps) auto
  next
    case True
    then have bnd: "bo < length d" "shift < 64" using "1.prems" by auto
    define d1 where "d1 = d[bo := ucast (drop_bit shift x)]"
    obtain e where e: "write_ule_loop x d1 (bo + 1) (shift + 8) (len - 8) =
         Some (e, bo + 1 + (len - 8) div 8, shift + 8 + 8 * ((len - 8) div 8), (len - 8) mod 8)"
         "length e = length d1"
       and bite: "\<And>i. lebit e i \<longleftrightarrow> (if 8 * (bo + 1) \<le> i \<and> i < 8 * (bo + 1) + 8 * ((len - 8) div 8)
              then bit x (shift + 8 + (i - 8 * (bo + 1))) else lebit d1 i)"
      using "1.IH" [of "drop_bit shift x" d1] "1.prems" True bnd
      by (auto simp: wr_def shr64_def d1_def)
    have run: "write_ule_loop x d bo shift len =
         Some (e, bo + len div 8, shift + 8 * (len div 8), len mod 8)"
      using True bnd e
      by (subst write_ule_loop.simps) (auto simp: wr_def shr64_def d1_def le_div_geq le_mod_geq)
    have step: "8 * (len div 8) = 8 + 8 * ((len - 8) div 8)"
      using True by (simp add: le_div_geq)
    have "lebit e i \<longleftrightarrow> (if 8 * bo \<le> i \<and> i < 8 * bo + 8 * (len div 8)
                        then bit x (shift + (i - 8 * bo)) else lebit d i)" for i
    proof (cases "8 * (bo + 1) \<le> i")
      case True
      then have "shift + 8 + (i - 8 * (bo + 1)) = shift + (i - 8 * bo)" by simp
      with True bnd show ?thesis
        by (auto simp: bite step d1_def lebit_update)
    next
      case False
      with bnd show ?thesis
        by (auto simp: bite step d1_def lebit_update bit_simps ac_simps)
    qed
    with run e show ?thesis by (auto simp: d1_def)
  qed
qed

lemma read_ube_loop_spec:
  assumes "len \<le> 64" and "8 * bo + len \<le> 8 * length d"
  shows "\<exists>y. read_ube_loop d x bo len = Some (y, bo + len div 8, len mod 8) \<and>
         (\<forall>j. bit y j \<longleftrightarrow> bit x j \<or> len mod 8 \<le> j \<and> j < len \<and> bebit d (8 * bo + (len - 1 - j)))"
  using assms
proof (induction d x bo len rule: read_ube_loop.induct)
  case (1 d x bo len)
  show ?case
  proof (cases "8 \<le> len")
    case False
    then show ?thesis by (subst read_ube_loop.simps) auto
  next
    case True
    then have bnd: "bo < length d" "len - 8 < 64" using "1.prems" by auto
    define x1 where "x1 = x OR push_bit (len - 8) (ucast (d ! bo))"
    obtain y where y: "read_ube_loop d x1 (bo + 1) (len - 8) =
         Some (y, bo + 1 + (len - 8) div 8, (len - 8) mod 8)"
       and bity: "\<And>j. bit y j \<longleftrightarrow> bit x1 j \<or> (len - 8) mod 8 \<le> j \<and> j < len - 8 \<and>
              bebit d (8 * (bo + 1) + (len - 8 - 1 - j))"
      using "1.IH" [of "d ! bo" "push_bit (len - 8) (ucast (d ! bo))"] "1.prems" True bnd
      by (auto simp: rd_def shl64_def x1_def)
    have run: "read_ube_loop d x bo len = Some (y, bo + len div 8, len mod 8)"
      using True bnd y
      by (subst read_ube_loop.simps) (auto simp: rd_def shl64_def x1_def le_div_geq le_mod_geq)
    have x1: "bit x1 j \<longleftrightarrow> bit x j \<or> len - 8 \<le> j \<and> j < len \<and> bebit d (8 * bo + (len - 1 - j))" for j
    proof (cases "len - 8 \<le> j \<and> j < len")
      case jr: True
      then have "7 - (8 * bo + (len - 1 - j) - 8 * bo) = j - (len - 8)"
          "8 * bo \<le> 8 * bo + (len - 1 - j)" "8 * bo + (len - 1 - j) < 8 * bo + 8"
        using True by auto
      then have "bebit d (8 * bo + (len - 1 - j)) = bit (d ! bo) (j - (len - 8))"
        by (metis bebit_byte)
      with "1.prems" True jr show ?thesis by (auto simp: x1_def bit_simps)
    next
      case False
      then show ?thesis
        using "1.prems" True by (auto simp: x1_def bit_simps dest: bit_u8_less)
    qed
    have "bit y j \<longleftrightarrow> bit x j \<or> len mod 8 \<le> j \<and> j < len \<and> bebit d (8 * bo + (len - 1 - j))" for j
    proof -
      have "8 * (bo + 1) + (len - 8 - 1 - j) = 8 * bo + (len - 1 - j)" if "j < len - 8"
        using that by simp
      moreover have "len mod 8 = (len - 8) mod 8" "len mod 8 < 8" "len mod 8 + 8 \<le> len"
        using True by (auto simp: le_mod_geq)
      ultimately show ?thesis
        by (cases "j < len - 8") (auto simp: bity x1)
    qed
    with run show ?thesis by blast
  qed
qed

lemma write_ube_loop_spec:
  assumes "len \<le> 64" and "8 * bo + len \<le> 8 * length d"
  shows "\<exists>e. write_ube_loop x d bo len = Some (e, bo + len div 8, len mod 8) \<and> length e = length d \<and>
         (\<forall>i. bebit e i \<longleftrightarrow> (if 8 * bo \<le> i \<and> i < 8 * bo + 8 * (len div 8)
                              then bit x (len - 1 - (i - 8 * bo)) else bebit d i))"
  using assms
proof (induction x d bo len rule: write_ube_loop.induct)
  case (1 x d bo len)
  show ?case
  proof (cases "8 \<le> len")
    case False
    then show ?thesis by (subst write_ube_loop.simps) auto
  next
    case True
    then have bnd: "bo < length d" "len - 8 < 64" using "1.prems" by auto
    define d1 where "d1 = d[bo := ucast (drop_bit (len - 8) x)]"
    obtain e where e: "write_ube_loop x d1 (bo + 1) (len - 8) =
         Some (e, bo + 1 + (len - 8) div 8, (len - 8) mod 8)"
         "length e = length d1"
       and bite: "\<And>i. bebit e i \<longleftrightarrow> (if 8 * (bo + 1) \<le> i \<and> i < 8 * (bo + 1) + 8 * ((len - 8) div 8)
              then bit x (len - 8 - 1 - (i - 8 * (bo + 1))) else bebit d1 i)"
      using "1.IH" [of "drop_bit (len - 8) x" d1] "1.prems" True bnd
      by (auto simp: wr_def shr64_def d1_def)
    have run: "write_ube_loop x d bo len = Some (e, bo + len div 8, len mod 8)"
      using True bnd e
      by (subst write_ube_loop.simps) (auto simp: wr_def shr64_def d1_def le_div_geq le_mod_geq)
    have step: "8 * (len div 8) = 8 + 8 * ((len - 8) div 8)"
      using True by (simp add: le_div_geq)
    have "bebit e i \<longleftrightarrow> (if 8 * bo \<le> i \<and> i < 8 * bo + 8 * (len div 8)
                        then bit x (len - 1 - (i - 8 * bo)) else bebit d i)" for i
    proof (cases "8 * (bo + 1) \<le> i")
      case True
      then have "len - 8 - 1 - (i - 8 * (bo + 1)) = len - 1 - (i - 8 * bo)" by simp
      with True bnd show ?thesis
        by (auto simp: bite step d1_def bebit_update)
    next
      case False
      then have "7 - (i - 8 * bo) + (len - 8) = len - 1 - (i - 8 * bo)" if "8 * bo \<le> i"
        using that True by simp
      with False bnd show ?thesis
        by (auto simp: bite step d1_def bebit_update bit_simps ac_simps)
    qed
    with run e show ?thesis by (auto simp: d1_def)
  qed
qed

section \<open>What the accessors do, bit by bit\<close>

lemma boundsp_ok:
  assumes "field_ok (tm_data m) off len" and "tm_len m = length (tm_data m)"
  shows "boundsp w m off len = (w, True)"
  using assms by (auto simp: boundsp_def field_ok_def ac_simps)

lemma field_okD:
  assumes "field_ok d off len"
  shows "off div 8 < length d" and "(len + off mod 8) mod SIZE_MOD = len + off mod 8"
    and "8 * (off div 8) + off mod 8 = off" and "off mod 8 < 8"
  using assms by (auto simp: field_ok_def SIZE_MOD_def)

lemma byte_split:
  fixes off :: nat
  obtains p q where "off = 8 * p + q" "q < 8" "off div 8 = p" "off mod 8 = q"
proof (rule that)
  show "off = 8 * (off div 8) + off mod 8" by simp
qed auto

lemma same_byte:
  fixes off j :: nat
  assumes "off mod 8 + j < 8"
  shows "(off + j) div 8 = off div 8" and "(off + j) mod 8 = off mod 8 + j"
proof -
  obtain p q where off: "off = 8 * p + q" "q < 8"
    by (metis mod_less_divisor mult_div_mod_eq zero_less_numeral)
  with assms have "q + j < 8" by simp
  with off show "(off + j) div 8 = off div 8" "(off + j) mod 8 = off mod 8 + j"
    by (simp_all add: add.assoc)
qed

lemma lebit_in_byte: "off mod 8 + j < 8 \<Longrightarrow> lebit d (off + j) = bit (d ! (off div 8)) (off mod 8 + j)"
  by (simp add: lebit_def same_byte)

lemma bebit_in_byte: "off mod 8 + j < 8 \<Longrightarrow> bebit d (off + j) = bit (d ! (off div 8)) (7 - (off mod 8 + j))"
  by (simp add: bebit_def same_byte)

text \<open>Little-endian reading.\<close>

lemma read_ule_first_spec:
  assumes ok: "field_ok d off len" and long: "8 < len + off mod 8"
  obtains x bo sh n where "read_ule_first d off len = Some (x, bo, sh, n)"
    and "sh + n = len" and "8 * bo = off + sh"
    and "\<And>j. bit x j \<longleftrightarrow> j < sh \<and> lebit d (off + j)"
proof (cases "off > 0")
  case False
  with that [of 0 0 0 len] show thesis by (simp add: read_ule_first_def)
next
  case True
  let ?b = "d ! (off div 8)"
  have "bit (ucast (drop_bit (off mod 8) ?b) :: u64) j \<longleftrightarrow> j < 8 - off mod 8 \<and> lebit d (off + j)" for j
    using lebit_in_byte [of off j d] bit_u8_less [of ?b "off mod 8 + j"]
    by (cases "off mod 8 + j < 8") (auto simp: bit_simps)
  moreover have "8 * (off div 8 + 1) = off + (8 - off mod 8)"
    by (rule byte_split [of off]) simp
  moreover have "read_ule_first d off len =
      Some (ucast (drop_bit (off mod 8) ?b), off div 8 + 1, 8 - off mod 8, len - (8 - off mod 8))"
    using True field_okD(1) [OF ok] by (simp add: read_ule_first_def rd_def Let_def)
  moreover have "8 - off mod 8 + (len - (8 - off mod 8)) = len" using long by simp
  ultimately show thesis by (intro that)
qed

lemma read_ule_last_spec:
  assumes "sh + n \<le> 64" "n < 8" "8 * bo + n \<le> 8 * length d" "8 * bo = off + sh"
    and x: "\<And>j. bit x j \<longleftrightarrow> j < sh \<and> lebit d (off + j)"
  obtains y where "read_ule_last d x bo sh n = Some y"
    and "\<And>j. bit y j \<longleftrightarrow> j < sh + n \<and> lebit d (off + j)"
proof (cases "n = 0")
  case True
  with that x show thesis by (simp add: read_ule_last_def)
next
  case False
  obtain ones where ones: "int_ones n = Some ones"
    using int_ones_Some [of n] assms(2) by auto
  define y where "y = x OR push_bit sh (ucast (ucast (d ! bo) AND ones))"
  have "read_ule_last d x bo sh n = Some y"
    using False assms ones by (simp add: read_ule_last_def rd_def shl64_def y_def)
  moreover have "bit y j \<longleftrightarrow> j < sh + n \<and> lebit d (off + j)" for j
  proof -
    have "bit y j \<longleftrightarrow> bit x j \<or> sh \<le> j \<and> j < sh + n \<and> bit (d ! bo) (j - sh)"
      using assms(1,2) by (auto simp: y_def bit_simps bit_int_ones [OF ones])
    moreover have "sh \<le> j \<and> j < sh + n \<Longrightarrow> lebit d (off + j) = bit (d ! bo) (j - sh)"
      using lebit_byte [of bo "off + j" d] assms(2,4) by (simp add: add.commute)
    ultimately show ?thesis by (auto simp: x)
  qed
  ultimately show thesis by (rule that)
qed

lemma tmsg_read_ule_bits:
  assumes ok: "field_ok (tm_data m) off len" "tm_len m = length (tm_data m)"
  shows "\<exists>x. tmsg_read_ule w m off len = Some (w, x) \<and> (\<forall>j. bit x j \<longleftrightarrow> j < len \<and> lebit (tm_data m) (off + j))"
proof -
  let ?d = "tm_data m" and ?p = "off div 8" and ?q = "off mod 8"
  note f = field_okD [OF ok(1)]
  show ?thesis
  proof (cases "len + ?q \<le> 8")
    case True
    obtain ones where ones: "int_ones len = Some ones"
      using True int_ones_Some [of len] by auto
    define x :: u64 where "x = ucast (drop_bit ?q (ucast (?d ! ?p)) AND ones)"
    have "tmsg_read_ule w m off len = Some (w, x)"
      using True f ok ones by (simp add: tmsg_read_ule_def boundsp_ok rd_def x_def)
    moreover have "bit x j \<longleftrightarrow> j < len \<and> lebit ?d (off + j)" for j
      using True ones lebit_in_byte [of off j ?d] bit_u8_less [of "?d ! ?p" "?q + j"]
      by (auto simp: x_def bit_simps bit_int_ones)
    ultimately show ?thesis by blast
  next
    case False
    then obtain x bo sh n where first: "read_ule_first ?d off len = Some (x, bo, sh, n)"
        "sh + n = len" "8 * bo = off + sh" "\<And>j. bit x j \<longleftrightarrow> j < sh \<and> lebit ?d (off + j)"
      using read_ule_first_spec [OF ok(1)] by (metis not_le)
    have len: "sh + n \<le> 64" "8 * bo + n \<le> 8 * length ?d"
      using ok first(2,3) by (auto simp: field_ok_def)
    obtain k r where n: "n = 8 * k + r" "r < 8" "n div 8 = k" "n mod 8 = r" by (rule byte_split)
    obtain y where loop: "read_ule_loop ?d x bo sh n = Some (y, bo + k, sh + 8 * k, r)"
      and bity: "\<And>j. bit y j \<longleftrightarrow> bit x j \<or> sh \<le> j \<and> j < sh + 8 * k \<and> lebit ?d (8 * bo + (j - sh))"
      using read_ule_loop_spec [OF len] n(3,4) by auto
    have "sh + 8 * k + r \<le> 64" "r < 8" "8 * (bo + k) + r \<le> 8 * length ?d" "8 * (bo + k) = off + (sh + 8 * k)"
      using len first(3) n(1,2) by auto
    moreover have "bit y j \<longleftrightarrow> j < sh + 8 * k \<and> lebit ?d (off + j)" for j
      using first(3) by (auto simp: bity first(4))
    ultimately obtain z where last: "read_ule_last ?d y (bo + k) (sh + 8 * k) r = Some z"
      and bitz: "\<And>j. bit z j \<longleftrightarrow> j < sh + 8 * k + r \<and> lebit ?d (off + j)"
      by (rule read_ule_last_spec) blast
    have "tmsg_read_ule w m off len = Some (w, z)"
      using False f ok first(1) loop last by (simp add: tmsg_read_ule_def boundsp_ok)
    moreover have "sh + 8 * k + r = len" using first(2) n(1) by simp
    ultimately show ?thesis using bitz by auto
  qed
qed

text \<open>Little-endian writing.  The exact effect of a write: the bits of the field become those of the
  value, and the bits of the value above the width of the field are or-ed into the rest of the last
  byte the field reaches into.\<close>

definition le_written :: "u64 \<Rightarrow> mem \<Rightarrow> nat \<Rightarrow> nat \<Rightarrow> mem \<Rightarrow> bool" where
  "le_written x d off len e \<longleftrightarrow> length e = length d \<and>
     (\<forall>i. lebit e i \<longleftrightarrow> (if off \<le> i \<and> i < off + len then bit x (i - off)
        else lebit d i \<or> off + len \<le> i \<and> i div 8 = (off + len - 1) div 8 \<and> bit x (i - off)))"

definition le_prefix :: "u64 \<Rightarrow> mem \<Rightarrow> nat \<Rightarrow> nat \<Rightarrow> mem \<Rightarrow> bool" where
  "le_prefix x d off n e \<longleftrightarrow> length e = length d \<and>
     (\<forall>i. lebit e i \<longleftrightarrow> (if off \<le> i \<and> i < off + n then bit x (i - off) else lebit d i))"

lemma le_prefix_nth: "le_prefix x d off n e \<Longrightarrow>
    lebit e i \<longleftrightarrow> (if off \<le> i \<and> i < off + n then bit x (i - off) else lebit d i)"
  by (simp add: le_prefix_def)

lemma write_ule_first_spec:
  assumes ok: "field_ok d off len" and long: "8 < len + off mod 8"
  obtains e bo sh n where "write_ule_first d off len x = Some (e, bo, sh, n)"
    and "sh + n = len" and "8 * bo = off + sh" and "le_prefix x d off sh e"
proof (cases "off mod 8 > 0")
  case False
  then have w: "write_ule_first d off len x = Some (d, off div 8, 0, len)" "8 * (off div 8) = off + 0"
    by (auto simp: write_ule_first_def)
  show thesis by (rule that [OF w(1) _ w(2)]) (auto simp: le_prefix_def)
next
  case True
  obtain p q where pq: "off = 8 * p + q" "q < 8" "off div 8 = p" "off mod 8 = q" by (rule byte_split)
  obtain ones where ones: "int_ones q = Some ones" using int_ones_Some [of q] pq(2) by auto
  define b where "b = (ucast (ucast (ucast (d ! p) AND ones) OR push_bit q x) :: u8)"
  have p: "p < length d" using field_okD(1) [OF ok] pq(3) by simp
  have "write_ule_first d off len x = Some (d[p := b], p + 1, 8 - q, len - (8 - q))"
    using True p pq(3,4) ones by (simp add: write_ule_first_def rd_def wr_def b_def Let_def)
  moreover have "8 - q + (len - (8 - q)) = len" "8 * (p + 1) = off + (8 - q)"
    using long pq by auto
  moreover have "le_prefix x d off (8 - q) (d[p := b])"
  proof -
    have "bit b k \<longleftrightarrow> (if q \<le> k \<and> k < 8 then bit x (k - q) else bit (d ! p) k)" for k
      using ones pq(2) by (auto simp: b_def bit_simps bit_int_ones dest: bit_u8_less)
    then show ?thesis
      using p pq(1,2) by (auto simp: le_prefix_def lebit_update lebit_byte)
  qed
  ultimately show thesis by (rule that)
qed

lemma write_ule_last_spec:
  assumes "sh + n \<le> 64" "n < 8" "8 * bo + n \<le> 8 * length d" "8 * bo = off + sh" "0 < sh + n"
    and pre: "le_prefix x d off sh e"
  obtains e' where "write_ule_last x e bo sh n = Some e'" and "le_written x d off (sh + n) e'"
proof (cases "n = 0")
  case True
  have "lebit e i \<longleftrightarrow> (if off \<le> i \<and> i < off + sh then bit x (i - off)
        else lebit d i \<or> off + sh \<le> i \<and> i div 8 = (off + sh - 1) div 8 \<and> bit x (i - off))" for i
  proof -
    have "0 < bo" using assms(4,5) True by simp
    then have "(8 * bo - 1) div 8 < bo" by (simp add: less_mult_imp_div_less)
    moreover have "bo \<le> i div 8" if "8 * bo \<le> i" using div_le_mono [OF that, of 8] by simp
    ultimately have "(8 * bo - 1) div 8 \<noteq> i div 8" if "8 * bo \<le> i" using that by fastforce
    then show ?thesis using assms(4) by (auto simp: le_prefix_nth [OF pre])
  qed
  with True pre that show thesis by (simp add: write_ule_last_def le_written_def le_prefix_def)
next
  case False
  obtain ones where ones: "int_ones n = Some ones"
    using int_ones_Some [of n] assms(2) by auto
  have len: "length e = length d" using pre by (simp add: le_prefix_def)
  have bo: "bo < length d" "sh < 64" using False assms by auto
  define b where "b = (ucast (ucast (ucast (e ! bo) AND NOT ones) OR drop_bit sh x) :: u8)"
  have "write_ule_last x e bo sh n = Some (e[bo := b])"
    using False bo len ones by (simp add: write_ule_last_def rd_def wr_def shr64_def b_def)
  moreover have "le_written x d off (sh + n) (e[bo := b])"
  proof -
    have b: "bit b k \<longleftrightarrow> k < 8 \<and> (bit x (sh + k) \<or> n \<le> k \<and> bit (e ! bo) k)" for k
      using assms(2) by (auto simp: b_def bit_simps bit_int_ones [OF ones] dest: bit_u8_less)
    have last: "(off + (sh + n) - 1) div 8 = bo"
      using assms(2,4) False by (auto simp: div_nat_eqI)
    have "lebit (e[bo := b]) i \<longleftrightarrow> (if off \<le> i \<and> i < off + (sh + n) then bit x (i - off)
        else lebit d i \<or> off + (sh + n) \<le> i \<and> i div 8 = bo \<and> bit x (i - off))" for i
    proof (cases "8 * bo \<le> i \<and> i < 8 * bo + 8")
      case True
      then have "lebit e i = bit (e ! bo) (i - 8 * bo)" by (simp add: lebit_byte)
      moreover have "sh + (i - 8 * bo) = i - off" "i div 8 = bo"
        using True assms(4) by (auto simp: div_nat_eqI)
      ultimately show ?thesis
        using True bo len assms(4) le_prefix_nth [OF pre, of i] by (auto simp: lebit_update b)
    next
      case False
      then have "i div 8 \<noteq> bo" by auto
      then show ?thesis
        using False bo len assms(2,4) by (auto simp: lebit_update le_prefix_nth [OF pre])
    qed
    then show ?thesis by (simp only: le_written_def last) (simp add: len)
  qed
  ultimately show thesis by (rule that)
qed

lemma write_ule_bytes_bits:
  assumes ok: "field_ok d off len"
  shows "\<exists>e. write_ule_bytes d off len x = Some e \<and> le_written x d off len e"
proof (cases "len + off mod 8 \<le> 8")
  case True
  obtain p q where pq: "off = 8 * p + q" "q < 8" "off div 8 = p" "off mod 8 = q" by (rule byte_split)
  obtain ones where ones: "int_ones len = Some ones"
    using True int_ones_Some [of len] by auto
  define b where "b = (ucast (ucast (ucast (d ! p) AND NOT (push_bit q ones)) OR push_bit q x) :: u8)"
  have p: "p < length d" "0 < len" using field_okD(1) [OF ok] pq(3) ok by (auto simp: field_ok_def)
  have "write_ule_bytes d off len x = Some (d[p := b])"
    using True p pq(3,4) ones field_okD(2) [OF ok]
    by (simp add: write_ule_bytes_def rd_def wr_def b_def Let_def)
  moreover have "le_written x d off len (d[p := b])"
  proof -
    have b: "bit b k \<longleftrightarrow> k < 8 \<and> (q \<le> k \<and> bit x (k - q) \<or> \<not> (q \<le> k \<and> k < q + len) \<and> bit (d ! p) k)" for k
      using True pq(2,4) by (auto simp: b_def bit_simps bit_int_ones [OF ones] dest: bit_u8_less)
    have last: "(off + len - 1) div 8 = p"
      using True pq p(2) by (auto simp: div_nat_eqI)
    have "lebit (d[p := b]) i \<longleftrightarrow> (if off \<le> i \<and> i < off + len then bit x (i - off)
        else lebit d i \<or> off + len \<le> i \<and> i div 8 = p \<and> bit x (i - off))" for i
    proof (cases "8 * p \<le> i \<and> i < 8 * p + 8")
      case in_byte: True
      then obtain k where k: "i = 8 * p + k" "k < 8"
        by (metis add_less_cancel_left le_Suc_ex)
      moreover have "lebit d i = bit (d ! p) k" "i div 8 = p" using k lebit_byte [of p i d] by auto
      ultimately show ?thesis
        using True p pq(1,4) by (auto simp: lebit_update b)
    next
      case False
      then have "i div 8 \<noteq> p" by auto
      then show ?thesis
        using False True p pq(1,2,4) by (auto simp: lebit_update)
    qed
    then show ?thesis by (simp only: le_written_def last) simp
  qed
  ultimately show ?thesis by blast
next
  case False
  then obtain e bo sh n where first: "write_ule_first d off len x = Some (e, bo, sh, n)"
      "sh + n = len" "8 * bo = off + sh" "le_prefix x d off sh e"
    using write_ule_first_spec [OF ok, of x] by (metis not_le)
  have len: "sh + n \<le> 64" "8 * bo + n \<le> 8 * length e" "0 < sh + n"
    using ok first(2-4) by (auto simp: field_ok_def le_prefix_def)
  obtain k r where n: "n = 8 * k + r" "r < 8" "n div 8 = k" "n mod 8 = r" by (rule byte_split)
  obtain e1 where loop: "write_ule_loop x e bo sh n = Some (e1, bo + k, sh + 8 * k, r)"
    and e1: "length e1 = length e" "\<And>i. lebit e1 i \<longleftrightarrow>
      (if 8 * bo \<le> i \<and> i < 8 * bo + 8 * k then bit x (sh + (i - 8 * bo)) else lebit e i)"
    using write_ule_loop_spec [OF len(1,2)] n(3,4) by metis
  have pre: "le_prefix x d off (sh + 8 * k) e1"
    using e1(1) first(3,4) by (auto simp: le_prefix_def e1(2))
  have l: "sh + 8 * k + r \<le> 64" "8 * (bo + k) + r \<le> 8 * length d" "8 * (bo + k) = off + (sh + 8 * k)"
      "0 < sh + 8 * k + r"
    using len first(3,4) n(1) by (auto simp: le_prefix_def)
  obtain e2 where "write_ule_last x e1 (bo + k) (sh + 8 * k) r = Some e2"
      "le_written x d off (sh + 8 * k + r) e2"
    by (rule write_ule_last_spec [OF l(1) n(2) l(2-4) pre])
  moreover have "sh + 8 * k + r = len" using first(2) n(1) by simp
  ultimately have "write_ule_bytes d off len x = Some e2" "le_written x d off len e2"
    using False field_okD(2) [OF ok] first(1) loop by (simp_all add: write_ule_bytes_def)
  then show ?thesis by blast
qed

text \<open>Big-endian reading.\<close>

lemma read_ube_first_spec:
  assumes ok: "field_ok d off len" and long: "8 < len + off mod 8"
  obtains x bo n where "read_ube_first d off len = Some (x, bo, n)"
    and "n \<le> len" and "8 * bo + n = off + len"
    and "\<And>j. bit x j \<longleftrightarrow> n \<le> j \<and> j < len \<and> bebit d (off + len - 1 - j)"
proof (cases "off mod 8 > 0")
  case False
  then have r: "read_ube_first d off len = Some (0, off div 8, len)" "8 * (off div 8) + len = off + len"
    by (auto simp: read_ube_first_def)
  show thesis by (rule that [OF r(1) _ r(2)]) auto
next
  case True
  obtain p q where pq: "off = 8 * p + q" "q < 8" "off div 8 = p" "off mod 8 = q" by (rule byte_split)
  obtain ones where ones: "int_ones (8 - q) = Some ones" using int_ones_Some [of "8 - q"] by auto
  define n where "n = len - (8 - q)"
  define x :: u64 where "x = push_bit n (ucast (ucast (d ! p) AND ones))"
  have p: "p < length d" "n < 64" "n + 8 = len + q"
    using field_okD(1) [OF ok] pq ok long True by (auto simp: field_ok_def n_def)
  have "read_ube_first d off len = Some (x, p + 1, n)"
    using True p pq(3,4) ones by (simp add: read_ube_first_def rd_def shl64_def x_def n_def Let_def)
  moreover have "n \<le> len" "8 * (p + 1) + n = off + len" using p(3) pq(1) by (auto simp: n_def)
  moreover have "bit x j \<longleftrightarrow> n \<le> j \<and> j < len \<and> bebit d (off + len - 1 - j)" for j
  proof (cases "n \<le> j \<and> j < len")
    case True
    then have j: "7 - (off + len - 1 - j - 8 * p) = j - n" "8 * p \<le> off + len - 1 - j"
        "off + len - 1 - j < 8 * p + 8" "j - n < 8 - q" "j < 64"
      using p(3) pq(1,2) ok by (auto simp: field_ok_def)
    then have "bebit d (off + len - 1 - j) = bit (d ! p) (j - n)" by (metis bebit_byte)
    with True j show ?thesis by (auto simp: x_def bit_simps bit_int_ones [OF ones])
  next
    case False
    then show ?thesis using p(3) pq(2) by (auto simp: x_def bit_simps bit_int_ones [OF ones])
  qed
  ultimately show thesis by (rule that)
qed

lemma read_ube_last_spec:
  assumes "r < 8" "r \<le> len" "8 * bo + r = off + len" "off + len \<le> 8 * length d"
    and x: "\<And>j. bit x j \<longleftrightarrow> r \<le> j \<and> j < len \<and> bebit d (off + len - 1 - j)"
  obtains y where "read_ube_last d x bo r = Some y"
    and "\<And>j. bit y j \<longleftrightarrow> j < len \<and> bebit d (off + len - 1 - j)"
proof (cases "r = 0")
  case True
  with that x show thesis by (simp add: read_ube_last_def)
next
  case False
  define y where "y = x OR ucast (drop_bit (8 - r) (d ! bo))"
  have "read_ube_last d x bo r = Some y"
    using False assms by (simp add: read_ube_last_def rd_def y_def)
  moreover have "bit y j \<longleftrightarrow> j < len \<and> bebit d (off + len - 1 - j)" for j
  proof (cases "j < r")
    case True
    then have j: "7 - (off + len - 1 - j - 8 * bo) = 8 - r + j" "8 * bo \<le> off + len - 1 - j"
        "off + len - 1 - j < 8 * bo + 8"
      using assms(1,3) by auto
    then have "bebit d (off + len - 1 - j) = bit (d ! bo) (8 - r + j)" by (metis bebit_byte)
    with True assms(1,2) show ?thesis by (auto simp: y_def x bit_simps)
  next
    case False
    then have "\<not> bit (d ! bo) (8 - r + j)" using bit_u8_less [of "d ! bo" "8 - r + j"] assms(1) by auto
    with False show ?thesis by (auto simp: y_def x bit_simps)
  qed
  ultimately show thesis by (rule that)
qed

lemma tmsg_read_ube_bits:
  assumes ok: "field_ok (tm_data m) off len" "tm_len m = length (tm_data m)"
  shows "\<exists>x. tmsg_read_ube w m off len = Some (w, x) \<and>
     (\<forall>j. bit x j \<longleftrightarrow> j < len \<and> bebit (tm_data m) (off + len - 1 - j))"
proof -
  let ?d = "tm_data m"
  note f = field_okD [OF ok(1)]
  show ?thesis
  proof (cases "len + off mod 8 \<le> 8")
    case True
    obtain p q where pq: "off = 8 * p + q" "q < 8" "off div 8 = p" "off mod 8 = q" by (rule byte_split)
    obtain ones where ones: "int_ones len = Some ones"
      using True int_ones_Some [of len] by auto
    define x :: u64 where "x = ucast (drop_bit (8 - q - len) (ucast (?d ! p)) AND ones)"
    have "tmsg_read_ube w m off len = Some (w, x)"
      using True f ok ones pq(3,4) by (simp add: tmsg_read_ube_def boundsp_ok rd_def x_def)
    moreover have "bit x j \<longleftrightarrow> j < len \<and> bebit ?d (off + len - 1 - j)" for j
    proof (cases "j < len")
      case j: True
      have "7 - (off + len - 1 - j - 8 * p) = 8 - q - len + j" "8 * p \<le> off + len - 1 - j"
          "off + len - 1 - j < 8 * p + 8"
        using j True pq by auto
      then have "bebit ?d (off + len - 1 - j) = bit (?d ! p) (8 - q - len + j)" by (metis bebit_byte)
      with j True pq(2,4) show ?thesis
        by (auto simp: x_def bit_simps bit_int_ones [OF ones] dest: bit_u8_less)
    qed (auto simp: x_def bit_simps bit_int_ones [OF ones])
    ultimately show ?thesis by blast
  next
    case False
    then obtain x bo n where first: "read_ube_first ?d off len = Some (x, bo, n)"
        "n \<le> len" "8 * bo + n = off + len"
        "\<And>j. bit x j \<longleftrightarrow> n \<le> j \<and> j < len \<and> bebit ?d (off + len - 1 - j)"
      using read_ube_first_spec [OF ok(1)] by (metis not_le)
    have len: "n \<le> 64" "8 * bo + n \<le> 8 * length ?d" "off + len \<le> 8 * length ?d"
      using ok first(2,3) by (auto simp: field_ok_def)
    obtain k r where n: "n = 8 * k + r" "r < 8" "n div 8 = k" "n mod 8 = r" by (rule byte_split)
    obtain y where loop: "read_ube_loop ?d x bo n = Some (y, bo + k, r)"
      and bity: "\<And>j. bit y j \<longleftrightarrow> bit x j \<or> r \<le> j \<and> j < n \<and> bebit ?d (8 * bo + (n - 1 - j))"
      using read_ube_loop_spec [OF len(1,2)] n(3,4) by auto
    have y: "bit y j \<longleftrightarrow> r \<le> j \<and> j < len \<and> bebit ?d (off + len - 1 - j)" for j
    proof (cases "j < n")
      case True
      then have "8 * bo + (n - 1 - j) = off + len - 1 - j" using first(3) by auto
      with True show ?thesis using first(2) by (auto simp: bity first(4))
    qed (use n(1) in \<open>auto simp: bity first(4)\<close>)
    have l: "r \<le> len" "8 * (bo + k) + r = off + len" using first(2,3) n(1) by auto
    obtain z where "read_ube_last ?d y (bo + k) r = Some z"
      and bitz: "\<And>j. bit z j \<longleftrightarrow> j < len \<and> bebit ?d (off + len - 1 - j)"
      by (rule read_ube_last_spec [OF n(2) l len(3) y]) blast
    then have "tmsg_read_ube w m off len = Some (w, z)"
      using False f ok first(1) loop by (simp add: tmsg_read_ube_def boundsp_ok)
    with bitz show ?thesis by auto
  qed
qed

text \<open>Big-endian writing: here the bits of the value above the width of the field are or-ed into the
  beginning of the first byte of the field.\<close>

definition be_prefix :: "u64 \<Rightarrow> mem \<Rightarrow> nat \<Rightarrow> nat \<Rightarrow> nat \<Rightarrow> mem \<Rightarrow> bool" where
  "be_prefix x d off len m e \<longleftrightarrow> length e = length d \<and>
     (\<forall>i. bebit e i \<longleftrightarrow> (if off \<le> i \<and> i < off + m then bit x (off + len - 1 - i)
        else bebit d i \<or> i < off \<and> i div 8 = off div 8 \<and> bit x (off + len - 1 - i)))"

definition be_written :: "u64 \<Rightarrow> mem \<Rightarrow> nat \<Rightarrow> nat \<Rightarrow> mem \<Rightarrow> bool" where
  "be_written x d off len e \<longleftrightarrow> be_prefix x d off len len e"

lemma be_prefix_nth: "be_prefix x d off len m e \<Longrightarrow>
    bebit e i \<longleftrightarrow> (if off \<le> i \<and> i < off + m then bit x (off + len - 1 - i)
        else bebit d i \<or> i < off \<and> i div 8 = off div 8 \<and> bit x (off + len - 1 - i))"
  by (simp add: be_prefix_def)

text \<open>One byte that holds the bits \<open>q\<close> up to \<open>q + m\<close> of a field, counted from its most significant bit,
  the last of them being bit \<open>n\<close> of the value.\<close>

lemma be_first_byte:
  assumes "off = 8 * p + q" "q + m \<le> 8" "p < length d" "0 < m" "off + m + n = off + len"
    and b: "\<And>k. bit (b :: u8) k \<longleftrightarrow> k < 8 \<and> (if 8 - q - m \<le> k \<and> k < 8 - q then bit x (n + k - (8 - q - m))
       else bit (d ! p) k \<or> 8 - q \<le> k \<and> bit x (n + k - (8 - q - m)))"
  shows "be_prefix x d off len m (d[p := b])"
proof -
  have p: "off div 8 = p" using assms(1,2,4) by (auto simp: div_nat_eqI)
  have "bebit (d[p := b]) i \<longleftrightarrow> (if off \<le> i \<and> i < off + m then bit x (off + len - 1 - i)
        else bebit d i \<or> i < off \<and> i div 8 = p \<and> bit x (off + len - 1 - i))" for i
  proof (cases "8 * p \<le> i \<and> i < 8 * p + 8")
    case True
    then obtain k where k: "i = 8 * p + k" "k < 8"
      by (metis add_less_cancel_left le_Suc_ex)
    then have ik: "bebit d i = bit (d ! p) (7 - k)" "i div 8 = p" using bebit_byte [of p i d] by auto
    have new: "bebit (d[p := b]) i = bit b (7 - k)" using k assms(3) by (auto simp: bebit_update)
    have place: "8 - q - m \<le> 7 - k \<and> 7 - k < 8 - q \<longleftrightarrow> off \<le> i \<and> i < off + m"
        "8 - q \<le> 7 - k \<longleftrightarrow> i < off" "7 - k < 8"
      using k assms(1,2) by auto
    have val: "n + (7 - k) - (8 - q - m) = off + len - 1 - i" if "i < off + m"
      using k assms(1,2,5) that by auto
    show ?thesis
    proof (cases "off \<le> i")
      case True
      then show ?thesis by (cases "i < off + m") (simp_all only: new b place ik val if_True if_False simp_thms not_less not_le, simp_all)
    next
      case False
      then have "i < off + m" by simp
      with False show ?thesis by (simp only: new b place ik val) simp
    qed
  next
    case False
    then have "i div 8 \<noteq> p" by auto
    then show ?thesis
      using False assms(1,2,3) by (auto simp: bebit_update)
  qed
  then show ?thesis by (simp only: be_prefix_def p) simp
qed

lemma write_ube_first_spec:
  assumes ok: "field_ok d off len" and long: "8 < len + off mod 8"
  obtains e bo n where "write_ube_first d off len x = Some (e, bo, n)"
    and "n \<le> len" and "8 * bo + n = off + len" and "be_prefix x d off len (len - n) e"
proof (cases "off mod 8 > 0")
  case False
  have "i div 8 \<noteq> off div 8" if "i < off" for i
  proof -
    obtain p q where "off = 8 * p + q" "off div 8 = p" "off mod 8 = q" by (rule byte_split)
    with that False have "i < p * 8" "off div 8 = p" by auto
    then show ?thesis using less_mult_imp_div_less by fastforce
  qed
  then have r: "write_ube_first d off len x = Some (d, off div 8, len)" "8 * (off div 8) + len = off + len"
      "be_prefix x d off len (len - len) d"
    using False by (auto simp: write_ube_first_def be_prefix_def)
  show thesis by (rule that [OF r(1) _ r(2,3)]) simp
next
  case True
  obtain p q where pq: "off = 8 * p + q" "q < 8" "off div 8 = p" "off mod 8 = q" by (rule byte_split)
  obtain mk where mk: "int_ones (8 - q) = Some mk" using int_ones_Some [of "8 - q"] by auto
  define n where "n = len - (8 - q)"
  define b where "b = (ucast (ucast (ucast (d ! p) AND NOT mk) OR drop_bit n x) :: u8)"
  have p: "p < length d" "n < 64" "n + 8 = len + q"
    using field_okD(1) [OF ok] pq ok long True by (auto simp: field_ok_def n_def)
  have "write_ube_first d off len x = Some (d[p := b], p + 1, n)"
    using True p pq(3,4) mk by (simp add: write_ube_first_def rd_def wr_def shr64_def b_def n_def Let_def)
  moreover have "n \<le> len" "8 * (p + 1) + n = off + len" using p(3) pq(1,2) by auto
  moreover have "be_prefix x d off len (len - n) (d[p := b])"
  proof (rule be_first_byte [OF pq(1)])
    have ln: "len - n = 8 - q" using p(3) pq(2) by auto
    show "bit b k \<longleftrightarrow> k < 8 \<and> (if 8 - q - (len - n) \<le> k \<and> k < 8 - q then bit x (n + k - (8 - q - (len - n)))
       else bit (d ! p) k \<or> 8 - q \<le> k \<and> bit x (n + k - (8 - q - (len - n))))" for k
      unfolding ln by (auto simp: b_def bit_simps bit_int_ones [OF mk] dest: bit_u8_less)
  qed (use p pq(2) in auto)
  ultimately show thesis by (rule that)
qed

lemma write_ube_last_spec:
  assumes "r < 8" "r \<le> len" "8 * bo + r = off + len" "off + len \<le> 8 * length d" "0 < len"
    and pre: "be_prefix x d off len (len - r) e"
  obtains e' where "write_ube_last x e bo r = Some e'" and "be_written x d off len e'"
proof (cases "r = 0")
  case True
  with pre that show thesis by (simp add: write_ube_last_def be_written_def)
next
  case False
  obtain mk where mk: "int_ones (8 - r) = Some mk" using int_ones_Some [of "8 - r"] by auto
  have len: "length e = length d" using pre by (simp add: be_prefix_def)
  define b where "b = (ucast (ucast (ucast (e ! bo) AND mk) OR push_bit (8 - r) x) :: u8)"
  have bo: "bo < length d" using False assms by auto
  have "write_ube_last x e bo r = Some (e[bo := b])"
    using False bo len mk by (simp add: write_ube_last_def rd_def wr_def b_def)
  moreover have "be_written x d off len (e[bo := b])"
  proof -
    have b: "bit b k \<longleftrightarrow> k < 8 \<and> (if 8 - r \<le> k then bit x (k - (8 - r)) else bit (e ! bo) k)" for k
      using assms(1) by (auto simp: b_def bit_simps bit_int_ones [OF mk] dest: bit_u8_less)
    have "bebit (e[bo := b]) i \<longleftrightarrow> (if off \<le> i \<and> i < off + len then bit x (off + len - 1 - i)
        else bebit d i \<or> i < off \<and> i div 8 = off div 8 \<and> bit x (off + len - 1 - i))" for i
    proof (cases "8 * bo \<le> i \<and> i < 8 * bo + 8")
      case True
      then obtain k where k: "i = 8 * bo + k" "k < 8"
        by (metis add_less_cancel_left le_Suc_ex)
      then have old: "bebit e i = bit (e ! bo) (7 - k)" using bebit_byte [of bo i e] by auto
      have new: "bebit (e[bo := b]) i = bit b (7 - k)" using k bo len by (auto simp: bebit_update)
      have off: "off \<le> i" "\<not> i < off + (len - r)" "8 - r \<le> 7 - k \<longleftrightarrow> i < off + len" "7 - k < 8"
        using k assms(1-3) by auto
      show ?thesis
      proof (cases "i < off + len")
        case True
        then have "7 - k - (8 - r) = off + len - 1 - i" using k assms(1,3) by auto
        then show ?thesis using True off new by (simp add: b)
      next
        case False
        then show ?thesis using off old new be_prefix_nth [OF pre, of i] by (simp add: b)
      qed
    next
      case False
      then have "off \<le> i \<and> i < off + (len - r) \<longleftrightarrow> off \<le> i \<and> i < off + len"
        using assms(1-3) by auto
      moreover have "bebit (e[bo := b]) i = bebit e i" using False bo len by (auto simp: bebit_update)
      ultimately show ?thesis using be_prefix_nth [OF pre, of i] by simp
    qed
    then show ?thesis by (simp add: be_written_def be_prefix_def len)
  qed
  ultimately show thesis by (rule that)
qed

lemma write_ube_bytes_bits:
  assumes ok: "field_ok d off len"
  shows "\<exists>e. write_ube_bytes d off len x = Some e \<and> be_written x d off len e"
proof (cases "len + off mod 8 \<le> 8")
  case True
  obtain p q where pq: "off = 8 * p + q" "q < 8" "off div 8 = p" "off mod 8 = q" by (rule byte_split)
  obtain ones where ones: "int_ones len = Some ones"
    using True int_ones_Some [of len] by auto
  define b where "b = (ucast (ucast (ucast (d ! p) AND NOT (push_bit (8 - q - len) ones))
                         OR push_bit (8 - q - len) x) :: u8)"
  have p: "p < length d" "0 < len" using field_okD(1) [OF ok] pq(3) ok by (auto simp: field_ok_def)
  have "write_ube_bytes d off len x = Some (d[p := b])"
    using True p pq(3,4) ones field_okD(2) [OF ok]
    by (simp add: write_ube_bytes_def rd_def wr_def b_def Let_def)
  moreover have "be_written x d off len (d[p := b])"
    unfolding be_written_def
  proof (rule be_first_byte [OF pq(1)])
    show "bit b k \<longleftrightarrow> k < 8 \<and> (if 8 - q - len \<le> k \<and> k < 8 - q then bit x (0 + k - (8 - q - len))
       else bit (d ! p) k \<or> 8 - q \<le> k \<and> bit x (0 + k - (8 - q - len)))" for k
    proof (cases "k < 8")
      case k: True
      have "k - (8 - q - len) < len \<longleftrightarrow> k < 8 - q" if "8 - q - len \<le> k"
        using that True pq(4) by auto
      moreover have "8 - q - len \<le> k" if "8 - q \<le> k" using that by simp
      ultimately show ?thesis
        using k by (cases "8 - q - len \<le> k") (auto simp: b_def bit_simps bit_int_ones [OF ones])
    qed (auto simp: b_def bit_simps dest: bit_u8_less)
  next
    show "q + len \<le> 8" using True pq(4) by simp
  qed (use p in simp_all)
  ultimately show ?thesis by blast
next
  case False
  then obtain e bo n where first: "write_ube_first d off len x = Some (e, bo, n)"
      "n \<le> len" "8 * bo + n = off + len" "be_prefix x d off len (len - n) e"
    using write_ube_first_spec [OF ok, of x] by (metis not_le)
  have len: "n \<le> 64" "8 * bo + n \<le> 8 * length e" "off + len \<le> 8 * length d" "0 < len"
    using ok first(2-4) by (auto simp: field_ok_def be_prefix_def)
  obtain k r where n: "n = 8 * k + r" "r < 8" "n div 8 = k" "n mod 8 = r" by (rule byte_split)
  obtain e1 where loop: "write_ube_loop x e bo n = Some (e1, bo + k, r)"
    and e1: "length e1 = length e" "\<And>i. bebit e1 i \<longleftrightarrow>
      (if 8 * bo \<le> i \<and> i < 8 * bo + 8 * k then bit x (n - 1 - (i - 8 * bo)) else bebit e i)"
    using write_ube_loop_spec [OF len(1,2)] n(3,4) by metis
  have l: "r \<le> len" "8 * (bo + k) + r = off + len" using first(2,3) n(1) by auto
  have pre: "be_prefix x d off len (len - r) e1"
  proof -
    have "bebit e1 i \<longleftrightarrow> (if off \<le> i \<and> i < off + (len - r) then bit x (off + len - 1 - i)
        else bebit d i \<or> i < off \<and> i div 8 = off div 8 \<and> bit x (off + len - 1 - i))" for i
    proof (cases "8 * bo \<le> i \<and> i < 8 * bo + 8 * k")
      case True
      then have "n - 1 - (i - 8 * bo) = off + len - 1 - i" "off \<le> i" "i < off + (len - r)"
        using first(2,3) n(1) by auto
      with True show ?thesis by (auto simp: e1(2))
    next
      case False
      then have "off \<le> i \<and> i < off + (len - n) \<longleftrightarrow> off \<le> i \<and> i < off + (len - r)"
        using first(2,3) n(1) by auto
      moreover have "bebit e1 i = bebit e i" using False e1(2) by metis
      ultimately show ?thesis using be_prefix_nth [OF first(4), of i] by simp
    qed
    moreover have "length e1 = length d" using e1(1) first(4) by (simp add: be_prefix_def)
    ultimately show ?thesis by (simp add: be_prefix_def)
  qed
  obtain e2 where "write_ube_last x e1 (bo + k) r = Some e2" "be_written x d off len e2"
    by (rule write_ube_last_spec [OF n(2) l len(3,4) pre])
  then have "write_ube_bytes d off len x = Some e2 \<and> be_written x d off len e2"
    using False field_okD(2) [OF ok] first(1) loop by (simp add: write_ube_bytes_def)
  then show ?thesis by blast
qed

section \<open>The contract of the accessors\<close>

text \<open>Both byte orders keep the same contract: the bits of a field have places, reading collects
  them, and writing a value that fits the field sets them and leaves all others alone.\<close>

locale bit_fields =
  fixes mbit :: "mem \<Rightarrow> nat \<Rightarrow> bool"
    and place :: "nat \<Rightarrow> nat \<Rightarrow> nat \<Rightarrow> nat"
    and rdf :: "fail_state \<Rightarrow> tmsg \<Rightarrow> nat \<Rightarrow> nat \<Rightarrow> (fail_state \<times> u64) option"
    and wrf :: "fail_state \<Rightarrow> tmsg \<Rightarrow> nat \<Rightarrow> nat \<Rightarrow> u64 \<Rightarrow> (fail_state \<times> tmsg) option"
  assumes place_in: "j < len \<Longrightarrow> off \<le> place off len j \<and> place off len j < off + len"
    and reads: "field_ok (tm_data m) off len \<Longrightarrow> tm_len m = length (tm_data m) \<Longrightarrow>
      \<exists>x. rdf w m off len = Some (w, x) \<and> (\<forall>j. bit x j \<longleftrightarrow> j < len \<and> mbit (tm_data m) (place off len j))"
    and writes: "field_ok (tm_data m) off len \<Longrightarrow> tm_len m = length (tm_data m) \<Longrightarrow>
      \<exists>e. wrf w m off len x = Some (w, m\<lparr>tm_data := e\<rparr>) \<and> length e = length (tm_data m) \<and>
          (\<forall>j < len. mbit e (place off len j) \<longleftrightarrow> bit x j) \<and>
          (take_bit len x = x \<longrightarrow> (\<forall>i. \<not> (off \<le> i \<and> i < off + len) \<longrightarrow> mbit e i = mbit (tm_data m) i))"
begin

lemma read_eqI:
  assumes "field_ok (tm_data m) off len" "tm_len m = length (tm_data m)"
    and "\<And>j. bit x j \<longleftrightarrow> j < len \<and> mbit (tm_data m) (place off len j)"
  shows "rdf w m off len = Some (w, x)"
proof -
  obtain y where y: "rdf w m off len = Some (w, y)"
      "\<And>j. bit y j \<longleftrightarrow> j < len \<and> mbit (tm_data m) (place off len j)"
    using reads [OF assms(1,2)] by blast
  have "y = x" by (rule bit_word_eqI) (simp only: y(2) assms(3))
  with y(1) show ?thesis by simp
qed

lemma read_written:
  assumes ok: "field_ok (tm_data m) off len" "tm_len m = length (tm_data m)"
    and run: "wrf w m off len x = Some (w', m')"
  shows "w' = w \<and> tm_len m' = tm_len m \<and> length (tm_data m') = length (tm_data m) \<and>
    rdf v m' off len = Some (v, take_bit len x)"
proof -
  obtain e where e: "wrf w m off len x = Some (w, m\<lparr>tm_data := e\<rparr>)" "length e = length (tm_data m)"
      "\<And>j. j < len \<Longrightarrow> mbit e (place off len j) \<longleftrightarrow> bit x j"
    using writes [OF ok] by blast
  then have m': "m' = m\<lparr>tm_data := e\<rparr>" "w' = w" using run by auto
  have "rdf v m' off len = Some (v, take_bit len x)"
    using ok e(2) by (intro read_eqI) (auto simp: m' field_ok_def bit_simps e(3) dest: bit_imp_le_length)
  with m' e(2) show ?thesis by simp
qed

lemma read_elsewhere:
  assumes ok: "field_ok (tm_data m) off len" "tm_len m = length (tm_data m)"
    and fits: "take_bit len x = x" and run: "wrf w m off len x = Some (w', m')"
    and ok2: "field_ok (tm_data m) off2 len2" and disj: "off2 + len2 \<le> off \<or> off + len \<le> off2"
  shows "rdf v m' off2 len2 = rdf v m off2 len2"
proof -
  obtain e where e: "wrf w m off len x = Some (w, m\<lparr>tm_data := e\<rparr>)" "length e = length (tm_data m)"
      "\<And>i. \<not> (off \<le> i \<and> i < off + len) \<Longrightarrow> mbit e i = mbit (tm_data m) i"
    using writes [OF ok] fits by metis
  then have m': "m' = m\<lparr>tm_data := e\<rparr>" using run by auto
  obtain y where y: "rdf v m off2 len2 = Some (v, y)"
      "\<And>j. bit y j \<longleftrightarrow> j < len2 \<and> mbit (tm_data m) (place off2 len2 j)"
    using reads [OF ok2 ok(2)] by blast
  have "mbit e (place off2 len2 j) = mbit (tm_data m) (place off2 len2 j)" if "j < len2" for j
    using place_in [OF that, of off2] disj by (intro e(3)) auto
  then have "rdf v m' off2 len2 = Some (v, y)"
    using ok(2) ok2 e(2) by (intro read_eqI) (auto simp: m' y(2) field_ok_def)
  with y(1) show ?thesis by simp
qed

end

lemma fits_no_high: "take_bit n x = x \<Longrightarrow> n \<le> k \<Longrightarrow> \<not> bit (x :: u64) k"
  by (metis bit_take_bit_iff not_le)

interpretation le: bit_fields lebit "\<lambda>off len j. off + j" tmsg_read_ule tmsg_write_ule
proof
  fix m :: tmsg and off len w and x :: u64
  assume ok: "field_ok (tm_data m) off len" "tm_len m = length (tm_data m)"
  show "\<exists>x. tmsg_read_ule w m off len = Some (w, x) \<and>
      (\<forall>j. bit x j \<longleftrightarrow> j < len \<and> lebit (tm_data m) (off + j))"
    by (rule tmsg_read_ule_bits [OF ok])
  obtain e where e: "write_ule_bytes (tm_data m) off len x = Some e" "le_written x (tm_data m) off len e"
    using write_ule_bytes_bits [OF ok(1)] by blast
  have "\<not> bit x (i - off)" if "take_bit len x = x" "off + len \<le> i" for i
    using fits_no_high [OF that(1)] that(2) by simp
  with e ok show "\<exists>e. tmsg_write_ule w m off len x = Some (w, m\<lparr>tm_data := e\<rparr>) \<and> length e = length (tm_data m) \<and>
          (\<forall>j < len. lebit e (off + j) \<longleftrightarrow> bit x j) \<and>
          (take_bit len x = x \<longrightarrow> (\<forall>i. \<not> (off \<le> i \<and> i < off + len) \<longrightarrow> lebit e i = lebit (tm_data m) i))"
    by (intro exI [of _ e]) (auto simp: tmsg_write_ule_def boundsp_ok le_written_def)
qed auto

interpretation be: bit_fields bebit "\<lambda>off len j. off + len - 1 - j" tmsg_read_ube tmsg_write_ube
proof
  fix m :: tmsg and off len w and x :: u64
  assume ok: "field_ok (tm_data m) off len" "tm_len m = length (tm_data m)"
  show "\<exists>x. tmsg_read_ube w m off len = Some (w, x) \<and>
      (\<forall>j. bit x j \<longleftrightarrow> j < len \<and> bebit (tm_data m) (off + len - 1 - j))"
    by (rule tmsg_read_ube_bits [OF ok])
  obtain e where e: "write_ube_bytes (tm_data m) off len x = Some e" "be_written x (tm_data m) off len e"
    using write_ube_bytes_bits [OF ok(1)] by blast
  have "\<not> bit x (off + len - 1 - i)" if "take_bit len x = x" "i < off" for i
    using fits_no_high [OF that(1)] that(2) by simp
  moreover have "off + len - 1 - (off + len - 1 - j) = j" if "j < len" for j
    using that by simp
  ultimately show "\<exists>e. tmsg_write_ube w m off len x = Some (w, m\<lparr>tm_data := e\<rparr>) \<and> length e = length (tm_data m) \<and>
          (\<forall>j < len. bebit e (off + len - 1 - j) \<longleftrightarrow> bit x j) \<and>
          (take_bit len x = x \<longrightarrow> (\<forall>i. \<not> (off \<le> i \<and> i < off + len) \<longrightarrow> bebit e i = bebit (tm_data m) i))"
    using e ok by (intro exI [of _ e]) (auto simp: tmsg_write_ube_def boundsp_ok be_written_def be_prefix_def)
qed auto

section \<open>Signed fields\<close>

text \<open>The values of a two's complement integer of \<open>len\<close> bits.\<close>

definition signed_range :: "nat \<Rightarrow> int \<Rightarrow> bool" where
  "signed_range len v \<longleftrightarrow> - (2 ^ (len - 1)) \<le> v \<and> v < 2 ^ (len - 1)"

lemma signed_range_bit:
  assumes "signed_range len v" "len - 1 \<le> k"
  shows "bit v k \<longleftrightarrow> v < 0"
proof -
  have v: "signed_take_bit (len - 1) v = v"
    using assms(1) by (simp add: signed_take_bit_int_eq_self signed_range_def)
  have "bit (signed_take_bit (len - 1) v) k \<longleftrightarrow> signed_take_bit (len - 1) v < 0"
    using assms(2) by (simp add: bit_signed_take_bit_iff min_def signed_take_bit_negative_iff)
  then show ?thesis by (simp only: v)
qed

lemma u2s_field:
  assumes "0 < len" "len < 63" "signed_range len v"
  shows "u2s (take_bit len (word_of_int v)) len = Some v"
proof -
  define x :: u64 where "x = take_bit len (word_of_int v)"
  have pw: "(2::int) ^ len = 2 * 2 ^ (len - 1)" using assms(1) by (cases len) auto
  have le: "(2::int) ^ len \<le> 2 ^ 62" using assms(2) by (intro power_increasing) auto
  have "uint x = take_bit len (take_bit 64 v)"
    by (simp add: x_def unsigned_take_bit_eq unsigned_of_int)
  then have ux: "uint x = v mod 2 ^ len"
    using assms(2) by (simp add: take_bit_take_bit min_def take_bit_eq_mod [symmetric])
  have "v mod 2 ^ len = v + 2 ^ len" if "v < 0"
    using that assms(3) pw mod_pos_pos_trivial [of "v + 2 ^ len" "2 ^ len"] by (simp add: signed_range_def)
  moreover have "v mod 2 ^ len = v" if "\<not> v < 0"
    using that assms(3) pw by (intro mod_pos_pos_trivial) (auto simp: signed_range_def)
  ultimately have val: "v mod 2 ^ len = (if v < 0 then v + 2 ^ len else v)" by simp
  have "uint x < 2 ^ len" by (simp add: ux)
  then have "uint x < 2 ^ 62" using le by (rule less_le_trans)
  then have "uint x < 2 ^ 63" by simp
  moreover have "- (2 ^ 63) \<le> uint x" by (rule order.trans [of _ 0]) simp_all
  ultimately have sx: "sint x = uint x"
    by (simp add: sint_uint signed_take_bit_int_eq_self)
  have bit: "x AND push_bit (len - 1) 1 \<noteq> 0 \<longleftrightarrow> v < 0"
  proof -
    have "x AND push_bit (len - 1) 1 \<noteq> 0 \<longleftrightarrow> bit x (len - 1)"
      by (simp add: push_bit_of_1 and_exp_eq_0_iff_not_bit)
    also have "\<dots> \<longleftrightarrow> bit v (len - 1)"
      using assms(1,2) by (auto simp: x_def bit_simps)
    also have "\<dots> \<longleftrightarrow> v < 0" using signed_range_bit [OF assms(3)] by simp
    finally show ?thesis .
  qed
  have sxv: "sint x = (if v < 0 then v + 2 ^ len else v)" by (simp only: sx ux val)
  have n: "(len + SIZE_MOD - 1) mod SIZE_MOD = len - 1" "len - 1 < 64"
    using assms(1,2) by (cases len; simp add: SIZE_MOD_def)+
  have "(2::int) ^ (len - 1) \<le> 2 ^ 62" using assms(2) by (intro power_increasing) auto
  then have rng: "int64_range v" using assms(3) by (auto simp: signed_range_def int64_range_def)
  show ?thesis
  proof (cases "v < 0")
    case True
    then have "x AND push_bit (len - 1) 1 \<noteq> 0" by (simp only: bit)
    moreover have "sint x - 2 ^ len = v" using True sxv by simp
    ultimately show ?thesis
      unfolding x_def [symmetric] u2s_def n(1) using n(2) assms(2) rng by (simp add: shl64_def)
  next
    case False
    then have "\<not> x AND push_bit (len - 1) 1 \<noteq> 0" by (simp only: bit not_False_eq_True)
    moreover have "sint x = v" using False sxv by simp
    ultimately show ?thesis
      unfolding x_def [symmetric] u2s_def n(1) using n(2) by (simp add: shl64_def)
  qed
qed

text \<open>A value of 63 or 64 bits whose sign is negative cannot be converted: the shift of \<open>1LL\<close>
  overflows.\<close>

lemma u2s_wide_negative: "len = 63 \<or> len = 64 \<Longrightarrow> bit x (len - 1) \<Longrightarrow> u2s x len = None"
  by (auto simp: u2s_def shl64_def SIZE_MOD_def push_bit_of_1 and_exp_eq_0_iff_not_bit)

section \<open>Properties\<close>

text \<open>The doc comment's promise for a field out of range: the hook is called once, a read returns 0
  and a write does nothing.\<close>

lemma out_of_range:
  assumes "offset + len < SIZE_MOD" "tm_len m * 8 < SIZE_MOD" "tm_len m * 8 < offset + len"
  shows "tmsg_read_ule w m offset len = Some (tmsg_fail w, 0)"
    and "tmsg_read_ube w m offset len = Some (tmsg_fail w, 0)"
    and "tmsg_write_ule w m offset len x = Some (tmsg_fail w, m)"
    and "tmsg_write_ube w m offset len x = Some (tmsg_fail w, m)"
  using assms by (simp_all add: tmsg_read_ule_def tmsg_read_ube_def tmsg_write_ule_def tmsg_write_ube_def boundsp_def)

lemma take_bit_fits: "unat x < 2 ^ len \<Longrightarrow> take_bit len x = x" for x :: u64
  by (simp add: word_unat_eq_iff unsigned_take_bit_eq take_bit_nat_eq_self)

lemma ule_roundtrip:
  assumes "field_ok (tm_data m) off len" and "tm_len m = length (tm_data m)" and "unat x < 2 ^ len"
  shows "\<exists>m'. tmsg_write_ule w m off len x = Some (w, m') \<and> tmsg_read_ule v m' off len = Some (v, x) \<and>
     (\<forall>off2 len2. field_ok (tm_data m) off2 len2 \<and> (off2 + len2 \<le> off \<or> off + len \<le> off2) \<longrightarrow>
        tmsg_read_ule v m' off2 len2 = tmsg_read_ule v m off2 len2)"
proof -
  note fits = take_bit_fits [OF assms(3)]
  obtain e where run: "tmsg_write_ule w m off len x = Some (w, m\<lparr>tm_data := e\<rparr>)"
    using le.writes [OF assms(1,2)] by blast
  show ?thesis
    using run le.read_written [OF assms(1,2) run] le.read_elsewhere [OF assms(1,2) fits run]
    by (auto simp: fits)
qed

lemma ube_roundtrip:
  assumes "field_ok (tm_data m) off len" and "tm_len m = length (tm_data m)" and "unat x < 2 ^ len"
  shows "\<exists>m'. tmsg_write_ube w m off len x = Some (w, m') \<and> tmsg_read_ube v m' off len = Some (v, x) \<and>
     (\<forall>off2 len2. field_ok (tm_data m) off2 len2 \<and> (off2 + len2 \<le> off \<or> off + len \<le> off2) \<longrightarrow>
        tmsg_read_ube v m' off2 len2 = tmsg_read_ube v m off2 len2)"
proof -
  note fits = take_bit_fits [OF assms(3)]
  obtain e where run: "tmsg_write_ube w m off len x = Some (w, m\<lparr>tm_data := e\<rparr>)"
    using be.writes [OF assms(1,2)] by blast
  show ?thesis
    using run be.read_written [OF assms(1,2) run] be.read_elsewhere [OF assms(1,2) fits run]
    by (auto simp: fits)
qed

text \<open>A read of a negative value of 63 or 64 bits has no defined result.\<close>

lemma wide_negative_undefined:
  assumes "field_ok (tm_data m) off len" and "tm_len m = length (tm_data m)"
    and "len = 63 \<or> len = 64" and "lebit (tm_data m) (off + len - 1)"
  shows "tmsg_read_le w m off len = None"
proof -
  obtain x where x: "tmsg_read_ule w m off len = Some (w, x)"
      "\<And>j. bit x j \<longleftrightarrow> j < len \<and> lebit (tm_data m) (off + j)"
    using le.reads [OF assms(1,2)] by blast
  have "bit x (len - 1)" using assms(3,4) by (auto simp: x(2) add.commute)
  then show ?thesis using x(1) u2s_wide_negative [OF assms(3)] by (simp add: tmsg_read_le_def)
qed

section \<open>Properties\<close>

definition sample_msg :: tmsg where
  "sample_msg = \<lparr>tm_data = [0x12, 0x34, 0x56, 0x78], tm_len = 4\<rparr>"

text \<open>C11: The bit field round trip, in both byte orders.  For every bit offset and every width up to 64
  bits inside the buffer, an unsigned value that fits the width is written without leaving the buffer
  and without a failure, reads back as it was, and reading any field disjoint from it gives what it
  gave before.\<close>

theorem bit_field_roundtrip:
  assumes "field_ok (tm_data m) off len" and "tm_len m = length (tm_data m)" and "unat x < 2 ^ len"
  shows "(\<exists>m'. tmsg_write_ule w m off len x = Some (w, m') \<and> tmsg_read_ule v m' off len = Some (v, x) \<and>
       (\<forall>off2 len2. field_ok (tm_data m) off2 len2 \<and> (off2 + len2 \<le> off \<or> off + len \<le> off2) \<longrightarrow>
          tmsg_read_ule v m' off2 len2 = tmsg_read_ule v m off2 len2)) \<and>
    (\<exists>m'. tmsg_write_ube w m off len x = Some (w, m') \<and> tmsg_read_ube v m' off len = Some (v, x) \<and>
       (\<forall>off2 len2. field_ok (tm_data m) off2 len2 \<and> (off2 + len2 \<le> off \<or> off + len \<le> off2) \<longrightarrow>
          tmsg_read_ube v m' off2 len2 = tmsg_read_ube v m off2 len2))"
  using ule_roundtrip [OF assms] ube_roundtrip [OF assms] by blast

lemma bit_field_roundtrip_witness:
  "\<exists>m'. tmsg_write_ule \<lparr>failfn = None, fail_log = []\<rparr> sample_msg 5 13 0x1ABC = Some (\<lparr>failfn = None, fail_log = []\<rparr>, m') \<and>
     tmsg_read_ule \<lparr>failfn = None, fail_log = []\<rparr> m' 5 13 = Some (\<lparr>failfn = None, fail_log = []\<rparr>, 0x1ABC)"
  using bit_field_roundtrip [of sample_msg 5 13 "0x1ABC" "\<lparr>failfn = None, fail_log = []\<rparr>" "\<lparr>failfn = None, fail_log = []\<rparr>"]
  by (auto simp: sample_msg_def field_ok_def SIZE_MOD_def)

text \<open>C26: The signed round trip: a two's complement value in the range of its field, which has from 1 to 62
  bits and lies inside the message at any bit offset, reads back with its sign in either byte order, and
  no failure is reported.\<close>

theorem signed_roundtrip:
  assumes "field_ok (tm_data m) off len" and "tm_len m = length (tm_data m)"
    and "len < 63" and "signed_range len v"
  shows "(\<exists>m'. tmsg_write_le w m off len v = Some (w, m') \<and> tmsg_read_le u m' off len = Some (u, v)) \<and>
    (\<exists>m'. tmsg_write_be w m off len v = Some (w, m') \<and> tmsg_read_be u m' off len = Some (u, v))"
proof -
  have len: "0 < len" using assms(1) by (simp add: field_ok_def)
  obtain d where d: "tmsg_write_ule w m off len (word_of_int v) = Some (w, m\<lparr>tm_data := d\<rparr>)"
    using le.writes [OF assms(1,2)] by blast
  obtain e where e: "tmsg_write_ube w m off len (word_of_int v) = Some (w, m\<lparr>tm_data := e\<rparr>)"
    using be.writes [OF assms(1,2)] by blast
  show ?thesis
    using d e le.read_written [OF assms(1,2) d, of u] be.read_written [OF assms(1,2) e, of u]
      u2s_field [OF len assms(3,4)]
    by (auto simp: tmsg_write_le_def tmsg_write_be_def tmsg_read_le_def tmsg_read_be_def)
qed

lemma signed_roundtrip_witness:
  "\<exists>m'. tmsg_write_be \<lparr>failfn = None, fail_log = []\<rparr> sample_msg 3 7 (-41) = Some (\<lparr>failfn = None, fail_log = []\<rparr>, m') \<and>
     tmsg_read_be \<lparr>failfn = None, fail_log = []\<rparr> m' 3 7 = Some (\<lparr>failfn = None, fail_log = []\<rparr>, -41)"
  using signed_roundtrip [of sample_msg 3 7 "-41" "\<lparr>failfn = None, fail_log = []\<rparr>" "\<lparr>failfn = None, fail_log = []\<rparr>"]
  by (simp add: sample_msg_def field_ok_def SIZE_MOD_def signed_range_def)

text \<open>C36: A negative value damages its neighbours.  The value is not masked to the width of the field, so
  when a negative value is written to a little-endian field that ends inside a byte, every later bit of
  that byte that is less than 64 bits behind the start of the field becomes one, whatever field it
  belongs to.\<close>

theorem negative_write_spills:
  assumes "field_ok (tm_data m) off len" and "tm_len m = length (tm_data m)"
    and "signed_range len v" and "v < 0"
  shows "\<exists>m'. tmsg_write_le w m off len v = Some (w, m') \<and>
    (\<forall>i. off + len \<le> i \<and> i < off + 64 \<and> i div 8 = (off + len - 1) div 8 \<longrightarrow> lebit (tm_data m') i)"
proof -
  obtain e where e: "write_ule_bytes (tm_data m) off len (word_of_int v) = Some e"
      "le_written (word_of_int v) (tm_data m) off len e"
    using write_ule_bytes_bits [OF assms(1)] by blast
  have "lebit e i" if "off + len \<le> i" "i < off + 64" "i div 8 = (off + len - 1) div 8" for i
  proof -
    have "bit v (i - off)" using signed_range_bit [OF assms(3)] assms(4) that(1) by simp
    then have "bit (word_of_int v :: u64) (i - off)" using that(1,2) by (simp add: bit_simps)
    with that e(2) show ?thesis by (auto simp: le_written_def)
  qed
  with e(1) show ?thesis
    by (auto simp: tmsg_write_le_def tmsg_write_ule_def boundsp_ok assms(1,2))
qed

text \<open>Writing \<open>-1\<close> to the first three bits of the message: the fourth was zero and becomes one.\<close>

lemma negative_write_spills_witness:
  "(\<exists>m'. tmsg_write_le \<lparr>failfn = None, fail_log = []\<rparr> sample_msg 0 3 (-1) = Some (\<lparr>failfn = None, fail_log = []\<rparr>, m') \<and>
      lebit (tm_data m') 3) \<and> \<not> lebit (tm_data sample_msg) 3"
  using negative_write_spills [of sample_msg 0 3 "-1" "\<lparr>failfn = None, fail_log = []\<rparr>"]
  by (auto simp: sample_msg_def field_ok_def SIZE_MOD_def signed_range_def lebit_def)

end
