(* ===== verification/Sf_Serial.thy ===== *)
theory Sf_Serial
  imports Backip_Prelude
begin

text \<open>
  The PC end of the serial line (\<open>serialsource.c\<close> of the serial forwarder library, in the POSIX
  build without debug output): HDLC-like framing with escapes and a checksum, acknowledged packets,
  and the queues of received packets by protocol.

  A packet block is the bytes of its \<open>malloc\<close>ed area; the lists of packets have one owner, so they
  are lists of entries here.  What the operating system answers is a script in the state: the
  outcomes of \<open>read\<close>, \<open>write\<close>, \<open>select\<close>, \<open>fcntl\<close>, \<open>malloc\<close> and \<open>gettimeofday\<close> to come, in their
  order.  Behind the end of these lists every \<open>read\<close> gives the one answer \<open>os_read_end\<close>, writes and
  allocations succeed, and a wait without a deadline for a line that has nothing to read does not
  return.  A function that does not return is \<^term>\<open>None\<close>, like an undefined step; the loops of the
  reader are partial functions, because a read that fails for ever keeps \<open>read_byte\<close> in its loop.
\<close>


section \<open>Data\<close>

definition BUFSIZE :: nat where "BUFSIZE = 256"
definition MTU :: nat where "MTU = 256"
definition ACK_TIMEOUT :: int where "ACK_TIMEOUT = 100000"
definition SYNC_BYTE :: u8 where "SYNC_BYTE = 126"
definition ESCAPE_BYTE :: u8 where "ESCAPE_BYTE = 125"
definition P_ACK :: u8 where "P_ACK = 67"
definition P_PACKET_ACK :: u8 where "P_PACKET_ACK = 68"
definition P_PACKET_NO_ACK :: u8 where "P_PACKET_NO_ACK = 69"

datatype serial_source_msg =
    msg_unknown_packet_type | msg_ack_timeout | msg_sync | msg_too_long | msg_too_short
  | msg_bad_sync | msg_bad_crc | msg_closed | msg_no_memory | msg_unix_error

datatype errno = EAGAIN | EINTR | EOTHER
datatype read_result = ReadBytes mem | ReadErr errno
datatype write_result = Wrote nat | WriteErr errno
datatype select_result = SelReady | SelTimeout | SelErr errno

record os_script =
  os_reads :: "read_result list"
  os_read_end :: read_result
  os_writes :: "write_result list"
  os_selects :: "select_result list"
  os_fcntls :: "bool list"
  os_mallocs :: "bool list"
  os_times :: "(int \<times> int) list"

record packet_entry =
  pe_packet :: mem
  pe_len :: nat

text \<open>The state of a source.  The messages given to the callback and the bytes put on the line are
  kept in the order they appear.\<close>

record serial_source =
  non_blocking :: bool
  has_callback :: bool
  rbuffer :: mem
  bufpos :: nat
  bufused :: nat
  rpacket :: mem
  in_sync :: bool
  escaped :: bool
  rcount :: nat
  rqueue :: "u8 \<Rightarrow> packet_entry list"
  seqno :: u8
  wblock :: mem
  escapeptr :: nat
  wcrc :: u16
  messages :: "serial_source_msg list"
  line :: mem
  script :: os_script

definition new_source :: "bool \<Rightarrow> bool \<Rightarrow> os_script \<Rightarrow> serial_source" where
  "new_source nb cb os =
     \<lparr>non_blocking = nb, has_callback = cb, rbuffer = replicate BUFSIZE 0, bufpos = 0, bufused = 0,
      rpacket = replicate MTU 0, in_sync = False, escaped = False, rcount = 0, rqueue = (\<lambda>_. []),
      seqno = 37, wblock = [], escapeptr = 0, wcrc = 0, messages = [], line = [], script = os\<rparr>"

definition message :: "serial_source_msg \<Rightarrow> serial_source \<Rightarrow> serial_source" where
  "message m s = (if has_callback s then s\<lparr>messages := messages s @ [m]\<rparr> else s)"

section \<open>Calls of the system\<close>

definition os_malloc :: "serial_source \<Rightarrow> serial_source \<times> bool" where
  "os_malloc s = (case os_mallocs (script s) of [] \<Rightarrow> (s, True)
     | ok # r \<Rightarrow> (s\<lparr>script := (script s)\<lparr>os_mallocs := r\<rparr>\<rparr>, ok))"

definition os_fcntl :: "serial_source \<Rightarrow> serial_source \<times> bool" where
  "os_fcntl s = (case os_fcntls (script s) of [] \<Rightarrow> (s, True)
     | ok # r \<Rightarrow> (s\<lparr>script := (script s)\<lparr>os_fcntls := r\<rparr>\<rparr>, ok))"

definition os_time :: "serial_source \<Rightarrow> serial_source \<times> int \<times> int" where
  "os_time s = (case os_times (script s) of [] \<Rightarrow> (s, 0, 0)
     | t # r \<Rightarrow> (s\<lparr>script := (script s)\<lparr>os_times := r\<rparr>\<rparr>, t))"

text \<open>A read returns at most \<open>n\<close> bytes; the rest stays for the next one.\<close>

definition os_read :: "nat \<Rightarrow> serial_source \<Rightarrow> serial_source \<times> read_result" where
  "os_read n s = (case os_reads (script s) of
       [] \<Rightarrow> (s, case os_read_end (script s) of ReadBytes bs \<Rightarrow> ReadBytes (take n bs) | ReadErr e \<Rightarrow> ReadErr e)
     | ReadErr e # r \<Rightarrow> (s\<lparr>script := (script s)\<lparr>os_reads := r\<rparr>\<rparr>, ReadErr e)
     | ReadBytes bs # r \<Rightarrow>
         (s\<lparr>script := (script s)\<lparr>os_reads := (if n < length bs then ReadBytes (drop n bs) # r else r)\<rparr>\<rparr>,
          ReadBytes (take n bs)))"

text \<open>Behind the script the line is ready if a read would not answer that there is nothing.\<close>

definition os_select :: "bool \<Rightarrow> serial_source \<Rightarrow> (serial_source \<times> select_result) option" where
  "os_select deadline s = (case os_selects (script s) of
       r # rs \<Rightarrow> Some (s\<lparr>script := (script s)\<lparr>os_selects := rs\<rparr>\<rparr>, r)
     | [] \<Rightarrow> if os_reads (script s) \<noteq> [] \<or> os_read_end (script s) \<noteq> ReadErr EAGAIN then Some (s, SelReady)
            else if deadline then Some (s, SelTimeout) else None)"

section \<open>Reading and waiting\<close>

text \<open>The blocking read repeats while the line is at its end; the error of a read is a count of
  \<open>-1\<close> with its \<open>errno\<close>.\<close>

partial_function (option) serial_read_blocking ::
  "nat \<Rightarrow> serial_source \<Rightarrow> (serial_source \<times> read_result) option" where
  "serial_read_blocking n s =
     (case os_select False s of None \<Rightarrow> None
      | Some (s, SelErr e) \<Rightarrow> Some (s, ReadErr e)
      | Some (s, _) \<Rightarrow>
          (case os_read n s of
             (s, ReadBytes []) \<Rightarrow> serial_read_blocking n s
           | (s, r) \<Rightarrow> Some (s, r)))"

definition serial_read :: "serial_source \<Rightarrow> bool \<Rightarrow> nat \<Rightarrow> (serial_source \<times> read_result) option" where
  "serial_read s nb n =
     (if nb then (case os_read n s of
          (s, ReadBytes []) \<Rightarrow> Some (s, ReadErr EAGAIN)
        | (s, r) \<Rightarrow> Some (s, r))
      else serial_read_blocking n s)"

text \<open>\<open>read_byte\<close>: the result \<^term>\<open>None\<close> of the pair is \<open>-1\<close>.  Its loop has no other end than
  bytes, a closed line and \<open>EAGAIN\<close>.\<close>

partial_function (option) fill_buffer :: "bool \<Rightarrow> serial_source \<Rightarrow> (serial_source \<times> bool) option" where
  "fill_buffer nb s =
     (case serial_read s nb (length (rbuffer s)) of None \<Rightarrow> None
      | Some (s, ReadBytes bs) \<Rightarrow>
          if bs = [] then Some (message msg_closed s, False)
          else do { b \<leftarrow> wrn (rbuffer s) 0 bs; Some (s\<lparr>rbuffer := b, bufpos := 0, bufused := length bs\<rparr>, True) }
      | Some (s, ReadErr e) \<Rightarrow>
          if e = EAGAIN then Some (s, False)
          else fill_buffer nb (if e \<noteq> EINTR then message msg_unix_error s else s))"

definition read_byte :: "bool \<Rightarrow> serial_source \<Rightarrow> (serial_source \<times> u8 option) option" where
  "read_byte nb s = do {
     (s, ok) \<leftarrow> (if bufpos s \<ge> bufused s then fill_buffer nb s else Some (s, True));
     if ok then do { b \<leftarrow> rd (rbuffer s) (bufpos s); Some (s\<lparr>bufpos := bufpos s + 1\<rparr>, Some b) }
     else Some (s, None) }"

text \<open>\<open>source_wait\<close>: whether there is data.  What \<open>select\<close> does with the timeout is in the script.\<close>

definition time_left :: "int \<times> int \<Rightarrow> int \<times> int \<Rightarrow> int \<times> int" where
  "time_left deadline now =
     (let sec = fst deadline - fst now; usec = snd deadline - snd now in
      if usec < 0 then (sec - 1, usec + 1000000) else (sec, usec))"

function source_wait_loop :: "(int \<times> int) option \<Rightarrow> serial_source \<Rightarrow> (serial_source \<times> bool) option" where
  "source_wait_loop deadline s =
     (case (case deadline of None \<Rightarrow> (s, False)
            | Some d \<Rightarrow> (case os_time s of (s, now) \<Rightarrow> (s, fst (time_left d now) < 0))) of
        (s, True) \<Rightarrow> Some (s, False)
      | (s, False) \<Rightarrow>
          (case os_select (deadline \<noteq> None) s of
             None \<Rightarrow> None
           | Some (s, SelErr e) \<Rightarrow>
               if e = EINTR then source_wait_loop deadline s else Some (message msg_unix_error s, False)
           | Some (s, SelTimeout) \<Rightarrow> Some (s, False)
           | Some (s, SelReady) \<Rightarrow> Some (s, True)))"
  by pat_completeness auto
termination
  by (relation "measure (\<lambda>(d, s). length (os_selects (script s)))")
    (auto simp: os_time_def os_select_def split: list.splits option.splits if_splits prod.splits)

declare source_wait_loop.simps [simp del]

definition source_wait :: "(int \<times> int) option \<Rightarrow> serial_source \<Rightarrow> (serial_source \<times> bool) option" where
  "source_wait deadline s =
     (if bufpos s < bufused s then Some (s, True) else source_wait_loop deadline s)"

section \<open>Writing\<close>

text \<open>The loop over \<open>write\<close>: the bytes still to write and the count so far; the result is that count,
  or \<open>-1\<close>.\<close>

fun source_write_loop :: "write_result list \<Rightarrow> mem \<Rightarrow> int \<Rightarrow> serial_source \<Rightarrow> serial_source \<times> int" where
  "source_write_loop ws [] actual s = (s\<lparr>script := (script s)\<lparr>os_writes := ws\<rparr>\<rparr>, actual)" |
  "source_write_loop [] (b # bs) actual s =
     (s\<lparr>line := line s @ b # bs, script := (script s)\<lparr>os_writes := []\<rparr>\<rparr>, actual + int (length (b # bs)))" |
  "source_write_loop (Wrote n # ws) (b # bs) actual s =
     source_write_loop ws (drop n (b # bs)) (actual + int (length (take n (b # bs))))
       (s\<lparr>line := line s @ take n (b # bs)\<rparr>)" |
  "source_write_loop (WriteErr e # ws) (b # bs) actual s =
     (if e = EINTR then source_write_loop ws (b # bs) actual s
      else (message msg_unix_error (s\<lparr>script := (script s)\<lparr>os_writes := ws\<rparr>\<rparr>), -1))"

definition source_write :: "mem \<Rightarrow> serial_source \<Rightarrow> serial_source \<times> int" where
  "source_write bs s =
     (case os_fcntl s of
        (s, False) \<Rightarrow> (message msg_unix_error s, -1)
      | (s, True) \<Rightarrow>
          (case source_write_loop (os_writes (script s)) bs 0 s of (s, actual) \<Rightarrow>
             (case os_fcntl s of
                (s, ok) \<Rightarrow> (if ok then s else message msg_unix_error s, actual))))"

text \<open>A line on which every read fails: the loop of \<open>read_byte\<close> reports the error again and again and
  does not return, also for a source that must not block.\<close>

lemma fill_buffer_endless:
  assumes "os_reads (script s) = []" "os_read_end (script s) = ReadErr e" "e \<noteq> EAGAIN"
  shows "fill_buffer True s = None"
proof (rule ccontr)
  assume "fill_buffer True s \<noteq> None"
  then obtain r where ret: "fill_buffer True s = Some r" by auto
  let ?P = "\<lambda>nb s (r :: serial_source \<times> bool). nb \<longrightarrow> os_reads (script s) = [] \<longrightarrow> os_read_end (script s) \<noteq> ReadErr e"
  have "?P True s r"
  proof (rule fill_buffer.raw_induct [where P = ?P, OF _ ret])
    fix f nb s r
    assume IH: "\<And>nb s r. f nb s = Some r \<Longrightarrow> ?P nb s r"
      and eq: "(case serial_read s nb (length (rbuffer s)) of None \<Rightarrow> None
      | Some (s, ReadBytes bs) \<Rightarrow>
          if bs = [] then Some (message msg_closed s, False)
          else do { b \<leftarrow> wrn (rbuffer s) 0 bs; Some (s\<lparr>rbuffer := b, bufpos := 0, bufused := length bs\<rparr>, True) }
      | Some (s, ReadErr e) \<Rightarrow>
          if e = EAGAIN then Some (s, False)
          else f nb (if e \<noteq> EINTR then message msg_unix_error s else s)) = Some r"
    show "?P nb s r"
    proof (intro impI notI)
      assume line: "nb" "os_reads (script s) = []" "os_read_end (script s) = ReadErr e"
      let ?t = "if e \<noteq> EINTR then message msg_unix_error s else s"
      have "f nb ?t = Some r" using eq line assms(3) by (simp add: serial_read_def os_read_def)
      from IH [OF this] line show False by (simp add: message_def split: if_splits)
    qed
  qed
  with assms show False by simp
qed

section \<open>Queues of received packets\<close>

definition push_protocol_packet :: "u8 \<Rightarrow> mem \<Rightarrow> u8 \<Rightarrow> serial_source \<Rightarrow> serial_source" where
  "push_protocol_packet type packet len s =
     (case os_malloc s of
        (s, False) \<Rightarrow> message msg_no_memory s
      | (s, True) \<Rightarrow> s\<lparr>rqueue := (rqueue s)(type := rqueue s type @ [\<lparr>pe_packet = packet, pe_len = unat len\<rparr>])\<rparr>)"

definition pop_protocol_packet :: "u8 \<Rightarrow> serial_source \<Rightarrow> serial_source \<times> packet_entry option" where
  "pop_protocol_packet type s =
     (case rqueue s type of [] \<Rightarrow> (s, None)
      | e # es \<Rightarrow> (s\<lparr>rqueue := (rqueue s)(type := es)\<rparr>, Some e))"

definition packet_available :: "serial_source \<Rightarrow> u8 \<Rightarrow> bool" where
  "packet_available s type \<longleftrightarrow> rqueue s type \<noteq> []"

definition serial_source_empty :: "serial_source \<Rightarrow> bool" where
  "serial_source_empty s \<longleftrightarrow> bufpos s \<ge> bufused s \<and> \<not> packet_available s P_PACKET_NO_ACK"

section \<open>Checksum\<close>

definition crc_shift :: "u16 \<Rightarrow> u16" where
  "crc_shift crc = (if crc AND 0x8000 \<noteq> 0 then push_bit 1 crc XOR 0x1021 else push_bit 1 crc)"

definition crc_byte :: "u16 \<Rightarrow> u8 \<Rightarrow> u16" where
  "crc_byte crc b = (crc_shift ^^ 8) (crc XOR push_bit 8 (ucast b))"

fun crc_packet_loop :: "mem \<Rightarrow> nat \<Rightarrow> nat \<Rightarrow> u16 \<Rightarrow> u16 option" where
  "crc_packet_loop data i 0 crc = Some crc" |
  "crc_packet_loop data i (Suc n) crc =
     do { b \<leftarrow> rd data i; crc_packet_loop data (i + 1) n (crc_byte crc b) }"

definition crc_packet :: "mem \<Rightarrow> nat \<Rightarrow> u16 option" where
  "crc_packet data len = crc_packet_loop data 0 len 0"

section \<open>The escaper\<close>

definition escape_add :: "u8 \<Rightarrow> serial_source \<Rightarrow> serial_source option" where
  "escape_add b s =
     do { m \<leftarrow> wr (wblock s) (escapeptr s) b; Some (s\<lparr>wblock := m, escapeptr := escapeptr s + 1\<rparr>) }"

text \<open>The size of the block is an \<open>int\<close>; its bytes have no defined content before they are written.\<close>

definition init_escaper :: "nat \<Rightarrow> serial_source \<Rightarrow> (serial_source \<times> bool) option" where
  "init_escaper count s =
     (if count * 2 + 2 \<ge> 2 ^ 31 then None
      else case os_malloc s of
        (s, False) \<Rightarrow> Some (message msg_no_memory (s\<lparr>wblock := []\<rparr>), False)
      | (s, True) \<Rightarrow> do {
          s \<leftarrow> escape_add SYNC_BYTE (s\<lparr>wblock := replicate (count * 2 + 2) 0, escapeptr := 0, wcrc := 0\<rparr>);
          Some (s, True) })"

definition terminate_escaper :: "serial_source \<Rightarrow> serial_source option" where
  "terminate_escaper s = escape_add SYNC_BYTE s"

definition escape_byte :: "u8 \<Rightarrow> serial_source \<Rightarrow> serial_source option" where
  "escape_byte b s =
     (let s = s\<lparr>wcrc := crc_byte (wcrc s) b\<rparr> in
      if b = SYNC_BYTE \<or> b = ESCAPE_BYTE then do {
        s \<leftarrow> escape_add ESCAPE_BYTE s;
        escape_add (b XOR 0x20) s }
      else escape_add b s)"

definition free_escaper :: "serial_source \<Rightarrow> serial_source" where
  "free_escaper s = s\<lparr>wblock := []\<rparr>"

fun escape_loop :: "mem \<Rightarrow> nat \<Rightarrow> nat \<Rightarrow> serial_source \<Rightarrow> serial_source option" where
  "escape_loop packet i 0 s = Some s" |
  "escape_loop packet i (Suc n) s =
     do { b \<leftarrow> rd packet i; s \<leftarrow> escape_byte b s; escape_loop packet (i + 1) n s }"

definition write_framed_packet ::
  "u8 \<Rightarrow> u8 \<Rightarrow> mem \<Rightarrow> nat \<Rightarrow> serial_source \<Rightarrow> (serial_source \<times> int) option" where
  "write_framed_packet packet_type first_byte packet count s = do {
     (s, ok) \<leftarrow> init_escaper (count + 4) s;
     if \<not> ok then Some (s, -1)
     else do {
       s \<leftarrow> escape_byte packet_type s;
       s \<leftarrow> escape_byte first_byte s;
       s \<leftarrow> escape_loop packet 0 count s;
       let crc = wcrc s;
       s \<leftarrow> escape_byte (lo8 crc) s;
       s \<leftarrow> escape_byte (hi8 crc) s;
       s \<leftarrow> terminate_escaper s;
       bs \<leftarrow> rdn (wblock s) 0 (escapeptr s);
       case source_write bs s of (s, n) \<Rightarrow> Some (free_escaper s, if n < 0 then -1 else 0) } }"

section \<open>Frames\<close>

definition process_packet :: "mem \<Rightarrow> nat \<Rightarrow> serial_source \<Rightarrow> serial_source option" where
  "process_packet packet len s = do {
     packet_type \<leftarrow> rd packet 0;
     (s, packet_type, offset) \<leftarrow>
       (if packet_type = P_PACKET_ACK then do {
          b \<leftarrow> rd packet 1;
          (s, r) \<leftarrow> write_framed_packet P_ACK b [] 0 s;
          Some (s, P_PACKET_NO_ACK, 2) }
        else Some (s, packet_type, 1));
     bs \<leftarrow> (if offset \<le> len then rdn packet offset (len - offset) else None);
     packet \<leftarrow> wrn packet 0 bs;
     Some (push_protocol_packet packet_type packet (word_of_nat (len - offset)) s) }"

definition store_byte :: "u8 \<Rightarrow> serial_source \<Rightarrow> (serial_source \<times> bool) option" where
  "store_byte b s =
     do { m \<leftarrow> wr (rpacket s) (rcount s) b; Some (s\<lparr>rpacket := m, rcount := rcount s + 1\<rparr>, False) }"

definition end_of_frame :: "serial_source \<Rightarrow> (serial_source \<times> bool) option" where
  "end_of_frame s =
     (let count = rcount s; s = s\<lparr>rcount := 0\<rparr> in
      if count < 4 then Some (s, False)
      else case os_malloc s of
        (s, False) \<Rightarrow> Some (message msg_no_memory s, False)
      | (s, True) \<Rightarrow> do {
          received \<leftarrow> rdn (rpacket s) 0 (count - 2);
          l \<leftarrow> rd (rpacket s) (count - 2);
          h \<leftarrow> rd (rpacket s) (count - 1);
          computed_crc \<leftarrow> crc_packet received (count - 2);
          if le16 l h = computed_crc then do {
            s \<leftarrow> process_packet received (count - 2) s;
            Some (s, True) }
          else Some (message msg_bad_crc s, False) })"

text \<open>The body of the loop of \<open>read_and_process\<close> for a byte that was read; whether the function
  returns.\<close>

definition receive_byte :: "u8 \<Rightarrow> serial_source \<Rightarrow> (serial_source \<times> bool) option" where
  "receive_byte b s =
     (if \<not> in_sync s then
        (if b = SYNC_BYTE then
           Some ((message msg_sync (s\<lparr>in_sync := True\<rparr>))\<lparr>rcount := 0, escaped := False\<rparr>, False)
         else Some (s, False))
      else if rcount s \<ge> MTU then Some ((message msg_too_long s)\<lparr>in_sync := False\<rparr>, False)
      else if escaped s then
        (if b = SYNC_BYTE then Some ((message msg_bad_sync s)\<lparr>in_sync := False\<rparr>, False)
         else store_byte (b XOR 0x20) (s\<lparr>escaped := False\<rparr>))
      else if b = ESCAPE_BYTE then Some (s\<lparr>escaped := True\<rparr>, False)
      else if b = SYNC_BYTE then end_of_frame s
      else store_byte b s)"

partial_function (option) read_and_process :: "bool \<Rightarrow> serial_source \<Rightarrow> serial_source option" where
  "read_and_process nb s = do {
     (s, b) \<leftarrow> read_byte nb s;
     case b of None \<Rightarrow> Some s
     | Some b \<Rightarrow> do {
         (s, stop) \<leftarrow> receive_byte b s;
         if stop then Some s else read_and_process nb s } }"

lemma persistent_error_endless:
  assumes "bufused s \<le> bufpos s" "os_reads (script s) = []" "os_read_end (script s) = ReadErr e" "e \<noteq> EAGAIN"
  shows "read_and_process True s = None"
  using assms by (subst read_and_process.simps) (simp add: read_byte_def fill_buffer_endless)

section \<open>The interface\<close>

text \<open>The packet that is returned and its length; \<^term>\<open>None\<close> in the pair is a null pointer.\<close>

partial_function (option) read_serial_loop :: "serial_source \<Rightarrow> (serial_source \<times> (mem \<times> nat) option) option" where
  "read_serial_loop s =
     (case pop_protocol_packet P_PACKET_NO_ACK s of
        (s, Some e) \<Rightarrow> Some (s, Some (pe_packet e, pe_len e))
      | (s, None) \<Rightarrow>
          if non_blocking s \<and> serial_source_empty s then Some (s, None)
          else do {
            (s, r) \<leftarrow> source_wait None s;
            s \<leftarrow> read_and_process (non_blocking s) s;
            read_serial_loop s })"

definition read_serial_packet :: "serial_source \<Rightarrow> (serial_source \<times> (mem \<times> nat) option) option" where
  "read_serial_packet s = do { s \<leftarrow> read_and_process True s; read_serial_loop s }"

definition add_timeval :: "int \<times> int \<Rightarrow> int \<Rightarrow> int \<times> int" where
  "add_timeval tv us =
     (let sec = fst tv + us div 1000000; usec = snd tv + us mod 1000000 in
      if usec > 1000000 then (sec + 1, usec - 1000000) else (sec, usec))"

partial_function (option) await_ack :: "int \<times> int \<Rightarrow> serial_source \<Rightarrow> (serial_source \<times> int) option" where
  "await_ack deadline s = do {
     s \<leftarrow> read_and_process True s;
     case pop_protocol_packet P_ACK s of
       (s, Some e) \<Rightarrow> do {
         acked \<leftarrow> rd (pe_packet e) 0;
         if acked = seqno s then Some (s, 0) else await_ack deadline s }
     | (s, None) \<Rightarrow> do {
         (s, ready) \<leftarrow> source_wait (Some deadline) s;
         if \<not> ready then Some (s, 1) else await_ack deadline s } }"

definition write_serial_packet :: "mem \<Rightarrow> nat \<Rightarrow> serial_source \<Rightarrow> (serial_source \<times> int) option" where
  "write_serial_packet packet len s = do {
     let s = s\<lparr>seqno := seqno s + 1\<rparr>;
     (s, r) \<leftarrow> write_framed_packet P_PACKET_ACK (seqno s) packet len s;
     if r < 0 then Some (s, -1)
     else case os_time s of (s, now) \<Rightarrow> await_ack (add_timeval now ACK_TIMEOUT) s }"

end
