(* ===== verification/Sf_Codec.thy ===== *)
theory Sf_Codec
  imports Sf_Serial
begin

text \<open>
  What the two ends of the serial line promise each other: the frame that carries a list of bytes,
  and an abstract receiver that is a function of the bytes received so far.  The theorem about noise
  is one about these; \<open>Sf_Receive\<close> shows that the code implements them.
\<close>


section \<open>Frames\<close>

definition crc_list :: "mem \<Rightarrow> u16" where
  "crc_list bs = foldl crc_byte 0 bs"

definition esc :: "u8 \<Rightarrow> mem" where
  "esc b = (if b = SYNC_BYTE \<or> b = ESCAPE_BYTE then [ESCAPE_BYTE, b XOR 0x20] else [b])"

definition with_crc :: "mem \<Rightarrow> mem" where
  "with_crc f = f @ [lo8 (crc_list f), hi8 (crc_list f)]"

definition frame :: "mem \<Rightarrow> mem" where
  "frame f = SYNC_BYTE # concat (map esc (with_crc f)) @ [SYNC_BYTE]"

section \<open>The abstract receiver\<close>

type_synonym rx = "bool \<times> bool \<times> mem"

definition crc_valid :: "mem \<Rightarrow> bool" where
  "crc_valid acc \<longleftrightarrow> 4 \<le> length acc \<and>
     le16 (acc ! (length acc - 2)) (acc ! (length acc - 1)) = crc_list (take (length acc - 2) acc)"

text \<open>In step, escape seen, bytes of the frame so far; the second result is a frame accepted.\<close>

fun rx_step :: "rx \<Rightarrow> u8 \<Rightarrow> rx \<times> mem option" where
  "rx_step (sync, e, acc) b =
     (if \<not> sync then (if b = SYNC_BYTE then (True, False, []) else (False, e, acc), None)
      else if MTU \<le> length acc then ((False, e, acc), None)
      else if e then (if b = SYNC_BYTE then (False, e, acc) else (True, False, acc @ [b XOR 0x20]), None)
      else if b = ESCAPE_BYTE then ((True, True, acc), None)
      else if b = SYNC_BYTE then
        ((True, False, []), if crc_valid acc then Some (take (length acc - 2) acc) else None)
      else ((True, False, acc @ [b]), None))"

fun rx_state :: "rx \<Rightarrow> mem \<Rightarrow> rx" where
  "rx_state r [] = r" |
  "rx_state r (b # bs) = rx_state (fst (rx_step r b)) bs"

fun rx_frames :: "rx \<Rightarrow> mem \<Rightarrow> mem list" where
  "rx_frames r [] = []" |
  "rx_frames r (b # bs) =
     (case rx_step r b of (r', None) \<Rightarrow> rx_frames r' bs | (r', Some f) \<Rightarrow> f # rx_frames r' bs)"

lemma rx_state_append [simp]: "rx_state r (xs @ ys) = rx_state (rx_state r xs) ys"
  by (induction xs arbitrary: r) auto

lemma rx_frames_append [simp]: "rx_frames r (xs @ ys) = rx_frames r xs @ rx_frames (rx_state r xs) ys"
  by (induction xs arbitrary: r) (auto split: prod.splits option.splits)

lemma rx_step_accept: "rx_step r b = (r', Some f) \<Longrightarrow> 2 \<le> length f \<and> length f + 2 < MTU"
  by (cases r) (auto simp: crc_valid_def split: if_splits)

text \<open>Every frame that is accepted is shorter than the buffer: one that fills it is refused before its
  last flag is looked at.\<close>

lemma rx_frames_fit: "f \<in> set (rx_frames r bs) \<Longrightarrow> 2 \<le> length f \<and> length f + 2 < MTU"
proof (induction bs arbitrary: r)
  case (Cons b bs)
  obtain r' q where st: "rx_step r b = (r', q)" by (cases "rx_step r b")
  with Cons.prems show ?case using Cons.IH [of r'] rx_step_accept [of r b r'] by (cases q) auto
qed simp

lemma sync_not_escape [simp]: "SYNC_BYTE \<noteq> ESCAPE_BYTE" "ESCAPE_BYTE \<noteq> SYNC_BYTE"
  by (simp_all add: SYNC_BYTE_def ESCAPE_BYTE_def)

lemma unescape: "(b XOR 0x20) XOR 0x20 = (b :: u8)"
  by (simp add: xor.assoc)

lemma escaped_not_sync: "b = SYNC_BYTE \<or> b = ESCAPE_BYTE \<Longrightarrow> b XOR 0x20 \<noteq> SYNC_BYTE"
  by (auto simp: SYNC_BYTE_def ESCAPE_BYTE_def)

text \<open>Escaped bytes are collected, as long as there is room.\<close>

lemma rx_escaped_byte:
  assumes "length acc < MTU"
  shows "rx_state (True, False, acc) (esc b) = (True, False, acc @ [b])"
    and "rx_frames (True, False, acc) (esc b) = []"
  using assms escaped_not_sync [of b] by (auto simp: esc_def unescape)

lemma rx_escaped:
  assumes "length acc + length xs \<le> MTU"
  shows "rx_state (True, False, acc) (concat (map esc xs)) = (True, False, acc @ xs) \<and>
    rx_frames (True, False, acc) (concat (map esc xs)) = []"
  using assms by (induction xs arbitrary: acc) (auto simp: rx_escaped_byte)

lemma crc_valid_with_crc: "2 \<le> length f \<Longrightarrow> crc_valid (with_crc f)"
  by (simp add: crc_valid_def with_crc_def nth_append)

text \<open>A receiver that is in step and between frames.\<close>

abbreviation ready :: rx where
  "ready \<equiv> (True, False, [])"

definition frame_fits :: "mem \<Rightarrow> bool" where
  "frame_fits f \<longleftrightarrow> 2 \<le> length f \<and> length f + 2 < MTU"

lemma rx_frame:
  assumes "frame_fits f"
  shows "rx_frames ready (frame f) = [f] \<and> rx_state ready (frame f) = ready"
proof -
  have fit: "length [] + length (with_crc f) \<le> MTU" "length (with_crc f) < MTU" "2 \<le> length f"
    using assms by (auto simp: frame_fits_def with_crc_def)
  have start: "rx_step ready SYNC_BYTE = (ready, None)"
    by (simp add: crc_valid_def MTU_def)
  have "take (length (with_crc f) - 2) (with_crc f) = f" by (simp add: with_crc_def)
  then show ?thesis
    using fit(2) rx_escaped [OF fit(1)] crc_valid_with_crc [OF fit(3)]
    by (simp add: frame_def start del: rx_step.simps) simp
qed

lemma rx_frames_of_frames:
  "\<forall>f \<in> set fs. frame_fits f \<Longrightarrow>
   rx_frames ready (concat (map frame fs)) = fs \<and> rx_state ready (concat (map frame fs)) = ready"
  by (induction fs) (auto simp: rx_frame)

text \<open>Two flags in a row put any receiver in step, whatever it was doing; the second accepts nothing.\<close>

lemma two_flags:
  shows "rx_state r [SYNC_BYTE, SYNC_BYTE] = ready" and "rx_frames (rx_state r [SYNC_BYTE]) [SYNC_BYTE] = []"
  by (cases r; auto simp: crc_valid_def MTU_def)+

lemma frame_first: "frame f = SYNC_BYTE # tl (frame f)"
  by (simp add: frame_def)

lemma frame_last: "frame f = butlast (frame f) @ [SYNC_BYTE]"
  by (simp add: frame_def)

text \<open>A frame that arrives behind a flag is accepted.\<close>

lemma rx_frame_after_flag:
  assumes "frame_fits f" and "r = rx_state r0 [SYNC_BYTE]"
  shows "rx_frames r (frame f) = [f] \<and> rx_state r (frame f) = ready"
proof -
  have "rx_state r [SYNC_BYTE] = ready" using two_flags(1) [of r0] assms(2) by simp
  moreover have "rx_state ready [SYNC_BYTE] = ready" by (simp add: crc_valid_def MTU_def)
  ultimately have st: "rx_state r [SYNC_BYTE] = rx_state ready [SYNC_BYTE]" by simp
  have fr: "rx_frames r [SYNC_BYTE] = []" "rx_frames ready [SYNC_BYTE] = []"
    using two_flags(2) [of r0] assms(2) by (auto simp: crc_valid_def MTU_def)
  have split: "frame f = [SYNC_BYTE] @ tl (frame f)" using frame_first by simp
  have "rx_frames r (frame f) = rx_frames ready (frame f)" "rx_state r (frame f) = rx_state ready (frame f)"
    by (subst (1 2) split; simp only: rx_frames_append rx_state_append st fr)+
  with rx_frame [OF assms(1)] show ?thesis by simp
qed

text \<open>A receiver that has no frame begun: in step and between frames, or out of step.\<close>

definition between :: "rx \<Rightarrow> bool" where
  "between r \<longleftrightarrow> r = ready \<or> \<not> fst r"

lemma rx_frame_between:
  assumes "frame_fits f" "between r"
  shows "rx_frames r (frame f) = [f] \<and> rx_state r (frame f) = ready"
proof -
  have start: "rx_state ready [SYNC_BYTE] = ready" "rx_frames ready [SYNC_BYTE] = []"
    by (simp_all add: crc_valid_def MTU_def)
  have st: "rx_state r [SYNC_BYTE] = ready" "rx_frames r [SYNC_BYTE] = []"
    using assms(2) start by (cases r; auto simp: between_def)+
  have split: "frame f = [SYNC_BYTE] @ tl (frame f)" using frame_first by simp
  have "rx_frames r (frame f) = rx_frames ready (frame f)" "rx_state r (frame f) = rx_state ready (frame f)"
    by (subst (1 2) split; simp only: rx_frames_append rx_state_append st start)+
  with rx_frame [OF assms(1)] show ?thesis by simp
qed

lemma noise_then_frames:
  assumes "\<forall>f \<in> set fs. frame_fits f"
  shows "\<exists>pre. rx_frames r (noise @ frame f @ concat (map frame fs)) = pre @ fs"
proof (cases fs)
  case Nil
  then show ?thesis by simp
next
  case (Cons f2 fs2)
  define r0 where "r0 = rx_state r (noise @ butlast (frame f))"
  have "noise @ frame f = (noise @ butlast (frame f)) @ [SYNC_BYTE]"
    by (subst frame_last) simp
  then have r1: "rx_state r (noise @ frame f) = rx_state r0 [SYNC_BYTE]"
    by (simp only: rx_state_append r0_def)
  have "rx_frames (rx_state r0 [SYNC_BYTE]) (frame f2 @ concat (map frame fs2)) = f2 # fs2"
    using rx_frame_after_flag [of f2 _ r0] rx_frames_of_frames [of fs2] assms Cons
    by (simp del: rx_state.simps)
  then have "rx_frames r ((noise @ frame f) @ concat (map frame fs)) = rx_frames r (noise @ frame f) @ fs"
    by (simp only: rx_frames_append r1 Cons list.map concat.simps)
  then show ?thesis by auto
qed

end
