(* ===== verification/Sf_Receive.thy ===== *)
theory Sf_Receive
  imports Sf_Codec
begin

text \<open>
  The writer of the source puts exactly the frame of its bytes on the line and stays inside the block
  it allocated; the reader implements the abstract receiver.
\<close>


section \<open>The escaper\<close>

lemma length_esc: "length (concat (map esc xs)) \<le> 2 * length xs"
  by (induction xs) (auto simp: esc_def)

text \<open>Only the fields of the escaper differ.\<close>

definition wkeep :: "serial_source \<Rightarrow> serial_source \<Rightarrow> bool" where
  "wkeep s s' \<longleftrightarrow> s' = s\<lparr>wblock := wblock s', escapeptr := escapeptr s', wcrc := wcrc s'\<rparr>"

lemma wkeep_refl [simp]: "wkeep s s"
  by (simp add: wkeep_def)

lemma wkeep_trans: "wkeep s t \<Longrightarrow> wkeep t u \<Longrightarrow> wkeep s u"
  by (cases s; cases t; cases u) (simp add: wkeep_def)

text \<open>The bytes \<open>xs\<close> have been escaped into a block that has room for \<open>n\<close>.\<close>

definition writing :: "nat \<Rightarrow> mem \<Rightarrow> serial_source \<Rightarrow> bool" where
  "writing n xs s \<longleftrightarrow> length (wblock s) = 2 * n + 2 \<and> escapeptr s = Suc (length (concat (map esc xs))) \<and>
     take (escapeptr s) (wblock s) = SYNC_BYTE # concat (map esc xs) \<and> wcrc s = crc_list xs"

lemma escape_add_spec:
  assumes "escapeptr s < length (wblock s)"
  obtains m where "escape_add b s = Some (s\<lparr>wblock := m, escapeptr := Suc (escapeptr s)\<rparr>)"
    and "length m = length (wblock s)" and "take (Suc (escapeptr s)) m = take (escapeptr s) (wblock s) @ [b]"
proof (rule that)
  show "escape_add b s = Some (s\<lparr>wblock := (wblock s)[escapeptr s := b], escapeptr := Suc (escapeptr s)\<rparr>)"
    using assms by (simp add: escape_add_def wr_def)
qed (use assms in \<open>simp_all add: take_Suc_conv_app_nth\<close>)

lemma escape_byte_spec:
  assumes w: "writing n xs s" and room: "length xs < n"
  obtains s' where "escape_byte b s = Some s'" and "writing n (xs @ [b]) s'" and "wkeep s s'"
proof -
  define t where "t = s\<lparr>wcrc := crc_byte (wcrc s) b\<rparr>"
  have ptr: "escapeptr t + 1 < length (wblock t)" "escapeptr t = Suc (length (concat (map esc xs)))"
      "take (escapeptr t) (wblock t) = SYNC_BYTE # concat (map esc xs)" "length (wblock t) = 2 * n + 2"
    using w room length_esc [of xs] by (auto simp: writing_def t_def)
  have crc: "wcrc t = crc_list (xs @ [b])" using w by (simp add: writing_def t_def crc_list_def)
  have keep: "wkeep s (t\<lparr>wblock := m, escapeptr := p\<rparr>)" for m p by (simp add: wkeep_def t_def)
  show thesis
  proof (cases "b = SYNC_BYTE \<or> b = ESCAPE_BYTE")
    case False
    then have e: "escape_byte b s = escape_add b t" "esc b = [b]"
      by (auto simp: escape_byte_def t_def esc_def Let_def)
    obtain m where "escape_add b t = Some (t\<lparr>wblock := m, escapeptr := Suc (escapeptr t)\<rparr>)"
        "length m = length (wblock t)" "take (Suc (escapeptr t)) m = take (escapeptr t) (wblock t) @ [b]"
      using escape_add_spec [of t b] ptr(1) by auto
    with e ptr crc keep show thesis by (intro that) (auto simp: writing_def)
  next
    case True
    then have e: "escape_byte b s = do { s \<leftarrow> escape_add ESCAPE_BYTE t; escape_add (b XOR 0x20) s }"
        "esc b = [ESCAPE_BYTE, b XOR 0x20]"
      by (auto simp: escape_byte_def t_def esc_def Let_def)
    obtain m where m: "escape_add ESCAPE_BYTE t = Some (t\<lparr>wblock := m, escapeptr := Suc (escapeptr t)\<rparr>)"
        "length m = length (wblock t)" "take (Suc (escapeptr t)) m = take (escapeptr t) (wblock t) @ [ESCAPE_BYTE]"
      using escape_add_spec [of t ESCAPE_BYTE] ptr(1) by auto
    define t1 where "t1 = t\<lparr>wblock := m, escapeptr := Suc (escapeptr t)\<rparr>"
    have "escapeptr t1 < length (wblock t1)" using ptr(1) m(2) by (simp add: t1_def)
    then obtain k where k: "escape_add (b XOR 0x20) t1 = Some (t1\<lparr>wblock := k, escapeptr := Suc (escapeptr t1)\<rparr>)"
        "length k = length (wblock t1)" "take (Suc (escapeptr t1)) k = take (escapeptr t1) (wblock t1) @ [b XOR 0x20]"
      by (rule escape_add_spec)
    have "escape_byte b s = Some (t\<lparr>wblock := k, escapeptr := Suc (Suc (escapeptr t))\<rparr>)"
      using e(1) m(1) k(1) by (simp add: t1_def)
    moreover have "writing n (xs @ [b]) (t\<lparr>wblock := k, escapeptr := Suc (Suc (escapeptr t))\<rparr>)"
      using k m ptr crc e(2) by (simp add: writing_def t1_def)
    ultimately show thesis using keep by (rule that)
  qed
qed

lemma escape_loop_spec:
  assumes "writing n xs s" "length xs + k \<le> n" "i + k \<le> length p"
  shows "\<exists>s'. escape_loop p i k s = Some s' \<and> writing n (xs @ take k (drop i p)) s' \<and> wkeep s s'"
  using assms
proof (induction k arbitrary: i xs s)
  case 0
  then show ?case by simp
next
  case (Suc k)
  have i: "i < length p" using Suc.prems(3) by simp
  obtain s1 where s1: "escape_byte (p ! i) s = Some s1" "writing n (xs @ [p ! i]) s1" "wkeep s s1"
    using escape_byte_spec [OF Suc.prems(1), of "p ! i"] Suc.prems(2) by auto
  obtain s2 where s2: "escape_loop p (i + 1) k s1 = Some s2"
      "writing n ((xs @ [p ! i]) @ take k (drop (i + 1) p)) s2" "wkeep s1 s2"
    using Suc.IH [OF s1(2), of "i + 1"] Suc.prems(2,3) by auto
  have "take (Suc k) (drop i p) = p ! i # take k (drop (i + 1) p)"
    using i by (simp add: Cons_nth_drop_Suc [symmetric])
  then show ?case
    using s1(1) s2 i wkeep_trans [OF s1(3) s2(3)] by (simp add: rd_def)
qed

text \<open>The result of \<open>write_framed_packet\<close>: without memory nothing is written; otherwise the frame is
  given to \<open>source_write\<close>.\<close>

definition no_writer :: "serial_source \<Rightarrow> serial_source" where
  "no_writer s = s\<lparr>wblock := [], escapeptr := 0, wcrc := 0\<rparr>"

lemma wkeep_no_writer: "wkeep s s' \<Longrightarrow> no_writer s' = no_writer s"
  by (cases s; cases s') (simp add: wkeep_def no_writer_def)

lemma write_framed_packet_spec:
  assumes "count \<le> length p" "2 * count + 10 < 2 ^ 31"
  shows "\<exists>s1. os_malloc s = (s1, False) \<and> write_framed_packet ty b p count s =
            Some ((message msg_no_memory (s1\<lparr>wblock := []\<rparr>)), -1) \<or>
         os_malloc s = (s1, True) \<and> (\<exists>s2. wkeep s1 s2 \<and> write_framed_packet ty b p count s =
            (case source_write (frame (ty # b # take count p)) s2 of (s3, n) \<Rightarrow>
               Some (free_escaper s3, if n < 0 then -1 else 0)))"
proof -
  obtain s1 ok where os: "os_malloc s = (s1, ok)" by (cases "os_malloc s")
  show ?thesis
  proof (cases ok)
    case False
    then show ?thesis using os assms(2) by (auto simp: write_framed_packet_def init_escaper_def)
  next
    case True
    let ?n = "count + 4"
    define t where "t = s1\<lparr>wblock := replicate (?n * 2 + 2) 0, escapeptr := 0, wcrc := 0\<rparr>"
    obtain t1 where t1: "init_escaper ?n s = Some (t1, True)" "writing ?n [] t1" "wkeep s1 t1"
    proof -
      obtain m where "escape_add SYNC_BYTE t = Some (t\<lparr>wblock := m, escapeptr := Suc (escapeptr t)\<rparr>)"
          "length m = length (wblock t)" "take (Suc (escapeptr t)) m = take (escapeptr t) (wblock t) @ [SYNC_BYTE]"
        by (rule escape_add_spec [of t SYNC_BYTE]) (simp_all add: t_def)
      then show thesis
        using True os assms(2) by (intro that) (auto simp: init_escaper_def t_def writing_def wkeep_def crc_list_def)
    qed
    obtain t2 where t2: "escape_byte ty t1 = Some t2" "writing ?n [ty] t2" "wkeep t1 t2"
      using escape_byte_spec [OF t1(2), of ty] by auto
    obtain t3 where t3: "escape_byte b t2 = Some t3" "writing ?n [ty, b] t3" "wkeep t2 t3"
      using escape_byte_spec [OF t2(2), of b] by auto
    let ?f = "ty # b # take count p"
    obtain t4 where t4: "escape_loop p 0 count t3 = Some t4" "writing ?n ?f t4" "wkeep t3 t4"
      using escape_loop_spec [OF t3(2), of count 0 p] assms(1) by auto
    have crc: "wcrc t4 = crc_list ?f" using t4(2) by (simp add: writing_def)
    obtain t5 where t5: "escape_byte (lo8 (crc_list ?f)) t4 = Some t5" "writing ?n (?f @ [lo8 (crc_list ?f)]) t5" "wkeep t4 t5"
      using escape_byte_spec [OF t4(2), of "lo8 (crc_list ?f)"] assms(1) by auto
    obtain t6 where t6: "escape_byte (hi8 (crc_list ?f)) t5 = Some t6" "writing ?n (with_crc ?f) t6" "wkeep t5 t6"
      using escape_byte_spec [OF t5(2), of "hi8 (crc_list ?f)"] assms(1) by (auto simp: with_crc_def)
    have "escapeptr t6 < length (wblock t6)"
      using t6(2) length_esc [of "with_crc ?f"] assms(1) by (simp add: writing_def with_crc_def del: map_append)
    then obtain m where m: "escape_add SYNC_BYTE t6 = Some (t6\<lparr>wblock := m, escapeptr := Suc (escapeptr t6)\<rparr>)"
        "length m = length (wblock t6)" "take (Suc (escapeptr t6)) m = take (escapeptr t6) (wblock t6) @ [SYNC_BYTE]"
      by (rule escape_add_spec)
    define t7 where "t7 = t6\<lparr>wblock := m, escapeptr := Suc (escapeptr t6)\<rparr>"
    have "wkeep t6 t7" by (simp add: wkeep_def t7_def)
    then have keep: "wkeep s1 t7" using t1(3) t2(3) t3(3) t4(3) t5(3) t6(3) wkeep_trans by blast
    have "take (escapeptr t6) (wblock t6) = SYNC_BYTE # concat (map esc (with_crc ?f))"
      using t6(2) unfolding writing_def by blast
    with m(3) have "take (escapeptr t7) (wblock t7) = frame ?f"
      by (simp only: t7_def frame_def serial_source.simps) simp
    then have bs: "rdn (wblock t7) 0 (escapeptr t7) = Some (frame ?f)"
      using m(2) \<open>escapeptr t6 < length (wblock t6)\<close> by (simp add: rdn_def t7_def)
    have "write_framed_packet ty b p count s =
        (case source_write (frame ?f) t7 of (s3, n) \<Rightarrow> Some (free_escaper s3, if n < 0 then -1 else 0))"
      using t1(1) t2(1) t3(1) t4(1) t5(1) t6(1) m(1) bs crc
      by (simp add: write_framed_packet_def terminate_escaper_def t7_def [symmetric] Let_def)
    with keep True os show ?thesis by (intro exI [of _ s1] disjI2 conjI exI [of _ t7]) simp_all
  qed
qed

section \<open>What writing leaves alone\<close>

text \<open>Writing changes the escaper, the line, the messages and the answers of the system that are not
  input.\<close>

definition okeep :: "serial_source \<Rightarrow> serial_source \<Rightarrow> bool" where
  "okeep s s' \<longleftrightarrow> s' = s\<lparr>wblock := wblock s', escapeptr := escapeptr s', wcrc := wcrc s',
       messages := messages s', line := line s', script := script s'\<rparr> \<and>
     os_reads (script s') = os_reads (script s) \<and> os_read_end (script s') = os_read_end (script s) \<and>
     os_selects (script s') = os_selects (script s) \<and>
     os_times (script s') = os_times (script s)"

lemma okeep_refl [simp]: "okeep s s"
  by (simp add: okeep_def)

lemma okeep_trans: "okeep s t \<Longrightarrow> okeep t u \<Longrightarrow> okeep s u"
  by (cases s; cases t; cases u) (simp add: okeep_def)

lemma wkeep_okeep: "wkeep s s' \<Longrightarrow> okeep s s'"
  by (cases s; cases s') (simp add: okeep_def wkeep_def)

lemma okeep_message [simp]: "okeep s (message m s)"
  by (simp add: okeep_def message_def)

lemma okeep_free [simp]: "okeep s (free_escaper s)" "okeep s (s\<lparr>wblock := m\<rparr>)"
  by (simp_all add: okeep_def free_escaper_def)

lemma okeep_script: "os_reads r = os_reads (script s) \<Longrightarrow> os_read_end r = os_read_end (script s) \<Longrightarrow> os_selects r = os_selects (script s) \<Longrightarrow> os_times r = os_times (script s) \<Longrightarrow>
    okeep s (s\<lparr>line := l, script := r\<rparr>) \<and> okeep s (s\<lparr>script := r\<rparr>)"
  by (simp add: okeep_def)

lemma okeep_line: "okeep s (s\<lparr>line := l\<rparr>)"
  by (simp add: okeep_def)

lemma okeep_malloc: "os_malloc s = (s', ok) \<Longrightarrow> okeep s s'"
  by (auto simp: os_malloc_def okeep_def split: list.splits)

lemma okeep_fcntl: "os_fcntl s = (s', ok) \<Longrightarrow> okeep s s'"
  by (auto simp: os_fcntl_def okeep_def split: list.splits)

lemma okeep_write_loop: "source_write_loop ws bs n s = (s', k) \<Longrightarrow> okeep s s'"
proof (induction ws bs n s rule: source_write_loop.induct)
  case (3 n ws b bs actual s)
  then show ?case using okeep_trans [OF okeep_line] by simp
next
  case (4 e ws b bs actual s)
  then show ?case
    using okeep_trans [OF _ okeep_message] okeep_script by (auto split: if_splits)
qed (auto intro: okeep_script [THEN conjunct1] okeep_script [THEN conjunct2])

lemma okeep_source_write:
  assumes "source_write bs s = (s', n)"
  shows "okeep s s'"
proof -
  obtain s1 k where f1: "os_fcntl s = (s1, k)" by (cases "os_fcntl s")
  obtain s2 a where w: "source_write_loop (os_writes (script s1)) bs 0 s1 = (s2, a)"
    by (cases "source_write_loop (os_writes (script s1)) bs 0 s1")
  obtain s3 k3 where f2: "os_fcntl s2 = (s3, k3)" by (cases "os_fcntl s2")
  have "okeep s s1" "okeep s1 s2" "okeep s2 s3"
    using okeep_fcntl [OF f1] okeep_write_loop [OF w] okeep_fcntl [OF f2] .
  then have "okeep s s1" "okeep s s3" using okeep_trans by blast+
  then show ?thesis
    using assms f1 w f2 okeep_trans [OF _ okeep_message]
    by (auto simp: source_write_def split: bool.splits if_splits)
qed

lemma write_framed_packet_total:
  assumes "count \<le> length p" "2 * count + 10 < 2 ^ 31"
  obtains s' r where "write_framed_packet ty b p count s = Some (s', r)" and "okeep s s'"
proof -
  obtain s1 where s1: "os_malloc s = (s1, False) \<and> write_framed_packet ty b p count s =
            Some ((message msg_no_memory (s1\<lparr>wblock := []\<rparr>)), -1) \<or>
         os_malloc s = (s1, True) \<and> (\<exists>s2. wkeep s1 s2 \<and> write_framed_packet ty b p count s =
            (case source_write (frame (ty # b # take count p)) s2 of (s3, n) \<Rightarrow>
               Some (free_escaper s3, if n < 0 then -1 else 0)))"
    using write_framed_packet_spec [OF assms, of s ty b] by blast
  then have k1: "okeep s s1" using okeep_malloc by blast
  from s1 show thesis
  proof (elim disjE conjE exE)
    assume "write_framed_packet ty b p count s = Some ((message msg_no_memory (s1\<lparr>wblock := []\<rparr>)), -1)"
    moreover have "okeep s (message msg_no_memory (s1\<lparr>wblock := []\<rparr>))"
      using k1 okeep_trans okeep_free(2) okeep_message by blast
    ultimately show thesis by (rule that)
  next
    fix s2
    assume w: "wkeep s1 s2" and run: "write_framed_packet ty b p count s =
            (case source_write (frame (ty # b # take count p)) s2 of (s3, n) \<Rightarrow>
               Some (free_escaper s3, if n < 0 then -1 else 0))"
    obtain s3 n where s3: "source_write (frame (ty # b # take count p)) s2 = (s3, n)"
      by (cases "source_write (frame (ty # b # take count p)) s2")
    have "okeep s (free_escaper s3)"
      using k1 wkeep_okeep [OF w] okeep_source_write [OF s3] okeep_trans okeep_free(1) by blast
    with run s3 show thesis by (intro that) simp_all
  qed
qed

section \<open>The invariant of a source\<close>

definition entry_ok :: "packet_entry \<Rightarrow> bool" where
  "entry_ok e \<longleftrightarrow> pe_len e \<le> length (pe_packet e) \<and> pe_packet e \<noteq> []"

text \<open>The last condition is on the system: behind the answers of the script there is no more input.  (With
  an error that stays, no reader returns: \<open>persistent_error_endless\<close>.)\<close>

definition source_inv :: "serial_source \<Rightarrow> bool" where
  "source_inv s \<longleftrightarrow> length (rbuffer s) = BUFSIZE \<and> length (rpacket s) = MTU \<and>
     bufpos s \<le> bufused s \<and> bufused s \<le> BUFSIZE \<and> rcount s \<le> MTU \<and>
     (\<forall>ty. \<forall>e \<in> set (rqueue s ty). entry_ok e) \<and> os_read_end (script s) = ReadErr EAGAIN"

lemma new_source_inv: "os_read_end os = ReadErr EAGAIN \<Longrightarrow> source_inv (new_source nb cb os)"
  by (simp add: source_inv_def new_source_def)

lemma okeep_fields:
  "okeep s s' \<Longrightarrow> rbuffer s' = rbuffer s \<and> rpacket s' = rpacket s \<and> bufpos s' = bufpos s \<and> bufused s' = bufused s \<and>
     rcount s' = rcount s \<and> rqueue s' = rqueue s \<and> in_sync s' = in_sync s \<and> escaped s' = escaped s \<and>
     seqno s' = seqno s \<and> non_blocking s' = non_blocking s \<and> has_callback s' = has_callback s \<and>
     os_reads (script s') = os_reads (script s) \<and> os_read_end (script s') = os_read_end (script s) \<and>
     os_selects (script s') = os_selects (script s) \<and>
     os_times (script s') = os_times (script s)"
  by (cases s; cases s') (simp add: okeep_def)

lemma okeep_inv: "okeep s s' \<Longrightarrow> source_inv s' = source_inv s"
  using okeep_fields by (simp add: source_inv_def)

text \<open>Processing received bytes leaves the input alone.\<close>

definition input_kept :: "serial_source \<Rightarrow> serial_source \<Rightarrow> bool" where
  "input_kept s s' \<longleftrightarrow> rbuffer s' = rbuffer s \<and> bufpos s' = bufpos s \<and> bufused s' = bufused s \<and>
     os_reads (script s') = os_reads (script s) \<and> os_read_end (script s') = os_read_end (script s) \<and>
     os_selects (script s') = os_selects (script s) \<and>
     os_times (script s') = os_times (script s) \<and> seqno s' = seqno s \<and> non_blocking s' = non_blocking s"

lemma okeep_input: "okeep s s' \<Longrightarrow> input_kept s s'"
  using okeep_fields [of s s'] by (simp add: input_kept_def)

lemma input_kept_trans: "input_kept s t \<Longrightarrow> input_kept t u \<Longrightarrow> input_kept s u"
  by (simp add: input_kept_def)

text \<open>At most one entry is added to one of the queues.\<close>

definition pushed_one :: "serial_source \<Rightarrow> serial_source \<Rightarrow> bool" where
  "pushed_one s s' \<longleftrightarrow> (\<exists>ty e. entry_ok e \<and> rqueue s' = (rqueue s)(ty := rqueue s ty @ [e])) \<or> rqueue s' = rqueue s"

definition decoder_kept :: "serial_source \<Rightarrow> serial_source \<Rightarrow> bool" where
  "decoder_kept s s' \<longleftrightarrow> in_sync s' = in_sync s \<and> escaped s' = escaped s \<and> rcount s' = rcount s \<and> rpacket s' = rpacket s"

lemma push_spec:
  assumes "unat len \<le> length p" "p \<noteq> []" "push_protocol_packet ty p len s = s'"
  shows "input_kept s s' \<and> pushed_one s s' \<and> decoder_kept s s'"
proof -
  obtain s1 ok where os: "os_malloc s = (s1, ok)" by (cases "os_malloc s")
  have k: "okeep s s1" "okeep s (message msg_no_memory s1)"
    using okeep_malloc [OF os] okeep_trans okeep_message by blast+
  show ?thesis
  proof (cases ok)
    case False
    then show ?thesis
      using assms os okeep_input [OF k(2)] okeep_fields [OF k(2)]
      by (auto simp: push_protocol_packet_def pushed_one_def decoder_kept_def)
  next
    case True
    let ?e = "\<lparr>pe_packet = p, pe_len = unat len\<rparr>"
    have s': "s' = s1\<lparr>rqueue := (rqueue s1)(ty := rqueue s1 ty @ [?e])\<rparr>"
      using True assms(3) os by (simp add: push_protocol_packet_def)
    have "entry_ok ?e" using assms(1,2) by (simp add: entry_ok_def)
    then show ?thesis
      using okeep_fields [OF k(1)] unfolding s' pushed_one_def input_kept_def decoder_kept_def by auto
  qed
qed

lemma process_packet_total:
  assumes "2 \<le> length p"
  obtains s' where "process_packet p (length p) s = Some s'" and "input_kept s s'" and "pushed_one s s'"
    and "decoder_kept s s'"
proof -
  have small: "unat (word_of_nat (length p - k) :: u8) \<le> length p" for k
    by (rule order.trans [OF _ diff_le_self [of "length p" k]]) (simp add: unat_of_nat)
  show thesis
  proof (cases "p ! 0 = P_PACKET_ACK")
    case True
    obtain s1 r where w: "write_framed_packet P_ACK (p ! 1) [] 0 s = Some (s1, r)" "okeep s s1"
      by (rule write_framed_packet_total [of 0 "[]" P_ACK "p ! 1" s]) simp_all
    define q where "q = put p 0 (drop 2 p)"
    have q: "length q = length p" "q \<noteq> []" using assms by (auto simp: q_def put_def)
    define s' where "s' = push_protocol_packet P_PACKET_NO_ACK q (word_of_nat (length p - 2)) s1"
    have k: "input_kept s1 s' \<and> pushed_one s1 s' \<and> decoder_kept s1 s'"
      by (rule push_spec [of "word_of_nat (length p - 2)" q P_PACKET_NO_ACK]) (use small q in \<open>simp_all add: s'_def\<close>)
    have "Suc (Suc (length p - 2)) = length p" using assms by simp
    moreover have "p \<noteq> []" using assms by (metis list.size(3) not_numeral_le_zero)
    ultimately have "process_packet p (length p) s = Some s'"
      using True w(1) assms by (simp add: process_packet_def rd_def rdn_def wrn_def q_def s'_def)
    moreover have "input_kept s s'" using k okeep_input [OF w(2)] input_kept_trans by blast
    moreover have "pushed_one s s'" "decoder_kept s s'"
      using k okeep_fields [OF w(2)] by (simp_all add: pushed_one_def decoder_kept_def)
    ultimately show thesis by (rule that)
  next
    case False
    define q where "q = put p 0 (drop 1 p)"
    have ne: "0 < length p" using assms by linarith
    have "length q = length p" using ne by (simp add: q_def put_def)
    then have q: "length q = length p" "q \<noteq> []" using ne by auto
    define s' where "s' = push_protocol_packet (p ! 0) q (word_of_nat (length p - 1)) s"
    have k: "input_kept s s' \<and> pushed_one s s' \<and> decoder_kept s s'"
      by (rule push_spec [of "word_of_nat (length p - 1)" q "p ! 0"]) (use small q in \<open>simp_all add: s'_def\<close>)
    have "process_packet p (length p) s = Some s'"
      using False assms ne by (simp add: process_packet_def rd_def rdn_def wrn_def q_def s'_def)
    with k that show thesis by blast
  qed
qed

lemma crc_packet_loop_list:
  "i + n \<le> length d \<Longrightarrow> crc_packet_loop d i n c = Some (foldl crc_byte c (take n (drop i d)))"
  by (induction n arbitrary: i c) (auto simp: rd_def Cons_nth_drop_Suc [symmetric])

lemma crc_packet_list: "crc_packet d (length d) = Some (crc_list d)"
  by (simp add: crc_packet_def crc_packet_loop_list crc_list_def)

section \<open>One byte received\<close>

text \<open>Any byte, in any state that satisfies the invariant and whatever the system answers.\<close>

lemma store_byte_spec:
  assumes "rcount s < length (rpacket s)"
  obtains m where "store_byte b s = Some (s\<lparr>rpacket := m, rcount := Suc (rcount s)\<rparr>, False)"
    and "length m = length (rpacket s)" and "take (Suc (rcount s)) m = take (rcount s) (rpacket s) @ [b]"
proof (rule that)
  show "store_byte b s = Some (s\<lparr>rpacket := (rpacket s)[rcount s := b], rcount := Suc (rcount s)\<rparr>, False)"
    using assms by (simp add: store_byte_def wr_def)
qed (use assms in \<open>simp_all add: take_Suc_conv_app_nth\<close>)

lemma pushed_one_inv: "pushed_one s s' \<Longrightarrow> (\<forall>ty. \<forall>e \<in> set (rqueue s ty). entry_ok e) \<Longrightarrow>
    \<forall>ty. \<forall>e \<in> set (rqueue s' ty). entry_ok e"
  by (auto simp: pushed_one_def split: if_splits)

lemma end_of_frame_total:
  assumes inv: "source_inv s"
  obtains s' stop where "end_of_frame s = Some (s', stop)" and "input_kept s s'" and "pushed_one s s'"
    and "decoder_kept (s\<lparr>rcount := 0\<rparr>) s'"
proof -
  let ?s = "s\<lparr>rcount := 0\<rparr>"
  have k0: "input_kept s ?s" "pushed_one s ?s" by (simp_all add: input_kept_def pushed_one_def)
  show thesis
  proof (cases "rcount s < 4")
    case True
    with k0 that [of ?s False] show thesis by (simp add: end_of_frame_def decoder_kept_def)
  next
    case False
    obtain s1 ok where os: "os_malloc ?s = (s1, ok)" by (cases "os_malloc ?s")
    note k1 = okeep_fields [OF okeep_malloc [OF os]]
    show thesis
    proof (cases ok)
      case nomem: False
      have "okeep ?s (message msg_no_memory s1)"
        using okeep_malloc [OF os] okeep_trans okeep_message by blast
      note k2 = okeep_fields [OF this]
      have "end_of_frame s = Some (message msg_no_memory s1, False)"
        using False nomem os by (simp add: end_of_frame_def Let_def)
      then show thesis
        by (rule that) (use k2 in \<open>simp_all add: input_kept_def pushed_one_def decoder_kept_def\<close>)
    next
      case True
      let ?n = "rcount s - 2"
      have len: "length (rpacket s) = MTU" "rcount s \<le> MTU" using inv by (simp_all add: source_inv_def)
      define f where "f = take ?n (rpacket s)"
      have f: "length f = ?n" "2 \<le> length f" using len False by (auto simp: f_def)
      obtain s2 where s2: "process_packet f (length f) s1 = Some s2" "input_kept s1 s2" "pushed_one s1 s2" "decoder_kept s1 s2"
        using process_packet_total [OF f(2)] by blast
      have "okeep s1 (message msg_bad_crc s1)" by simp
      note k3 = okeep_fields [OF this]
      let ?ok = "le16 (rpacket s ! ?n) (rpacket s ! (rcount s - 1)) = crc_list f"
      have "?n < MTU" "rcount s - Suc 0 < MTU" using len False by auto
      then have "end_of_frame s = (if ?ok then Some (s2, True) else Some (message msg_bad_crc s1, False))"
        using False True os len k1 s2(1) crc_packet_list [of f] f(1)
        by (simp add: end_of_frame_def rdn_def rd_def f_def [symmetric] Let_def)
      moreover have "input_kept s s2 \<and> pushed_one s s2 \<and> decoder_kept ?s s2"
        using s2(2-4) k1 by (simp add: input_kept_def pushed_one_def decoder_kept_def)
      moreover have "input_kept s (message msg_bad_crc s1) \<and> pushed_one s (message msg_bad_crc s1) \<and>
          decoder_kept ?s (message msg_bad_crc s1)"
        using k1 k3 by (simp add: input_kept_def pushed_one_def decoder_kept_def)
      ultimately show thesis using that by (cases ?ok) simp_all
    qed
  qed
qed

lemma store_total:
  assumes "source_inv s" "rcount s < MTU"
  shows "\<exists>s'. store_byte b (s\<lparr>escaped := e\<rparr>) = Some (s', False) \<and> input_kept s s' \<and> pushed_one s s' \<and> source_inv s'"
proof -
  let ?t = "s\<lparr>escaped := e\<rparr>"
  have "rcount ?t < length (rpacket ?t)" using assms by (simp add: source_inv_def)
  then obtain m where "store_byte b ?t = Some (?t\<lparr>rpacket := m, rcount := Suc (rcount ?t)\<rparr>, False)" "length m = length (rpacket ?t)"
    by (rule store_byte_spec)
  with assms show ?thesis by (auto simp: input_kept_def pushed_one_def source_inv_def)
qed

lemma receive_byte_total:
  assumes inv: "source_inv s"
  shows "\<exists>s' stop. receive_byte b s = Some (s', stop) \<and> input_kept s s' \<and> pushed_one s s' \<and> source_inv s'"
proof -
  have "input_kept s s' \<and> pushed_one s s' \<and> source_inv s'"
    if "s' = s\<lparr>in_sync := a, rcount := c, escaped := e, messages := ms\<rparr>" "c \<le> MTU" for s' a c e ms
    using that inv by (simp add: input_kept_def pushed_one_def source_inv_def)
  note plain = this
  consider (out) "\<not> in_sync s" | (long) "in_sync s" "MTU \<le> rcount s"
    | (esc_sync) "in_sync s" "rcount s < MTU" "escaped s" "b = SYNC_BYTE"
    | (esc) "in_sync s" "rcount s < MTU" "escaped s" "b \<noteq> SYNC_BYTE"
    | (start) "in_sync s" "rcount s < MTU" "\<not> escaped s" "b = ESCAPE_BYTE"
    | (fin) "in_sync s" "rcount s < MTU" "\<not> escaped s" "b = SYNC_BYTE"
    | (data) "in_sync s" "rcount s < MTU" "\<not> escaped s" "b \<noteq> ESCAPE_BYTE" "b \<noteq> SYNC_BYTE"
    by (meson not_le)
  then show ?thesis
  proof cases
    case fin
    then have run: "receive_byte b s = end_of_frame s" by (simp add: receive_byte_def)
    obtain s' stop where s': "end_of_frame s = Some (s', stop)" "input_kept s s'" "pushed_one s s'" "decoder_kept (s\<lparr>rcount := 0\<rparr>) s'"
      using end_of_frame_total [OF inv] by blast
    then have "source_inv s'"
      using inv pushed_one_inv [OF s'(3)] by (simp add: source_inv_def input_kept_def decoder_kept_def)
    with run s' show ?thesis by auto
  next
    case esc
    then have "receive_byte b s = store_byte (b XOR 0x20) (s\<lparr>escaped := False\<rparr>)" by (simp add: receive_byte_def)
    with store_total [OF inv esc(2)] show ?thesis by metis
  next
    case data
    then have "receive_byte b s = store_byte b s" by (simp add: receive_byte_def)
    moreover have "s\<lparr>escaped := escaped s\<rparr> = s" by simp
    ultimately show ?thesis using store_total [OF inv data(2), of b "escaped s"] by metis
  qed (use inv in \<open>auto simp: receive_byte_def message_def input_kept_def pushed_one_def source_inv_def\<close>)
qed

section \<open>The reader implements the abstract receiver\<close>

text \<open>The system grants memory and takes what is written.\<close>

definition quiet :: "serial_source \<Rightarrow> bool" where
  "quiet s \<longleftrightarrow> os_mallocs (script s) = [] \<and> os_writes (script s) = [] \<and> os_fcntls (script s) = []"

definition rx_of :: "serial_source \<Rightarrow> rx" where
  "rx_of s = (in_sync s, escaped s, take (rcount s) (rpacket s))"

definition in_queue :: "serial_source \<Rightarrow> u8 \<Rightarrow> mem list" where
  "in_queue s ty = map (\<lambda>e. take (pe_len e) (pe_packet e)) (rqueue s ty)"

text \<open>What a frame brings: the queue it goes to, its payload, and the acknowledgement it asks for.\<close>

definition proto :: "mem \<Rightarrow> u8" where
  "proto f = (if f ! 0 = P_PACKET_ACK then P_PACKET_NO_ACK else f ! 0)"

definition frame_payload :: "mem \<Rightarrow> mem" where
  "frame_payload f = (if f ! 0 = P_PACKET_ACK then drop 2 f else drop 1 f)"

definition reply :: "mem \<Rightarrow> mem" where
  "reply f = (if f ! 0 = P_PACKET_ACK then frame [P_ACK, f ! 1] else [])"

definition delivered :: "mem \<Rightarrow> serial_source \<Rightarrow> serial_source \<Rightarrow> bool" where
  "delivered f s s' \<longleftrightarrow> line s' = line s @ reply f \<and>
     in_queue s' = (in_queue s)(proto f := in_queue s (proto f) @ [frame_payload f])"

lemma quiet_malloc: "quiet s \<Longrightarrow> os_malloc s = (s, True)"
  by (simp add: quiet_def os_malloc_def)

lemma quiet_source_write:
  assumes "quiet s" "bs \<noteq> []"
  shows "source_write bs s = (s\<lparr>line := line s @ bs\<rparr>, int (length bs))"
proof -
  obtain b r where bs: "bs = b # r" using assms(2) by (cases bs) auto
  have "(script s)\<lparr>os_writes := []\<rparr> = script s" using assms(1) by (simp add: quiet_def)
  then show ?thesis
    using assms(1) by (simp add: source_write_def os_fcntl_def quiet_def bs)
qed

lemma quiet_write:
  assumes "quiet s" "count \<le> length p" "2 * count + 10 < 2 ^ 31"
  obtains s' where "write_framed_packet ty b p count s = Some (s', 0)" and "okeep s s'" and "quiet s'"
    and "line s' = line s @ frame (ty # b # take count p)"
proof -
  obtain s2 where s2: "wkeep s s2" "write_framed_packet ty b p count s =
      (case source_write (frame (ty # b # take count p)) s2 of (s3, n) \<Rightarrow> Some (free_escaper s3, if n < 0 then -1 else 0))"
    using write_framed_packet_spec [OF assms(2,3), of s ty b] quiet_malloc [OF assms(1)] by auto
  have q: "quiet s2" "line s2 = line s" using s2(1) assms(1) unfolding wkeep_def quiet_def
    by (metis serial_source.select_convs(16,17) serial_source.surjective serial_source.update_convs(12,13,14))+
  let ?s' = "free_escaper (s2\<lparr>line := line s2 @ frame (ty # b # take count p)\<rparr>)"
  have ne: "frame (ty # b # take count p) \<noteq> []" by (simp add: frame_def)
  have "write_framed_packet ty b p count s = Some (?s', 0)"
    by (simp add: s2(2) quiet_source_write [OF q(1) ne])
  moreover have "okeep s ?s'" using wkeep_okeep [OF s2(1)] okeep_line okeep_free(1) okeep_trans by blast
  ultimately show thesis by (rule that) (use q in \<open>simp_all add: free_escaper_def quiet_def\<close>)
qed

lemma quiet_push:
  assumes "quiet s"
  shows "push_protocol_packet ty p len s =
    s\<lparr>rqueue := (rqueue s)(ty := rqueue s ty @ [\<lparr>pe_packet = p, pe_len = unat len\<rparr>])\<rparr>"
  by (simp add: push_protocol_packet_def quiet_malloc [OF assms])

lemma take_put_front: "length bs \<le> length m \<Longrightarrow> take (length bs) (put m 0 bs) = bs"
  by (simp add: put_def)

lemma process_packet_quiet:
  assumes q: "quiet s" and len: "2 \<le> length f" "length f < 256"
  shows "\<exists>s'. process_packet f (length f) s = Some s' \<and> quiet s' \<and> delivered f s s'"
proof (cases "f ! 0 = P_PACKET_ACK")
  case True
  obtain s1 where s1: "write_framed_packet P_ACK (f ! 1) [] 0 s = Some (s1, 0)" "okeep s s1" "quiet s1"
      "line s1 = line s @ frame (P_ACK # f ! 1 # take 0 [])"
    by (rule quiet_write [OF q, of 0 "[]" P_ACK "f ! 1"]) simp_all
  let ?e = "\<lparr>pe_packet = put f 0 (drop 2 f), pe_len = length f - 2\<rparr>"
  let ?s' = "s1\<lparr>rqueue := (rqueue s1)(P_PACKET_NO_ACK := rqueue s1 P_PACKET_NO_ACK @ [?e])\<rparr>"
  have n: "unat (word_of_nat (length f - 2) :: u8) = length f - 2" "0 < length f"
    using len by (simp_all add: unat_of_nat del: of_nat_diff length_greater_0_conv)
  have "process_packet f (length f) s = Some ?s'"
    using True len s1(1) n by (simp add: process_packet_def rd_def rdn_def wrn_def quiet_push [OF s1(3)] del: of_nat_diff)
  moreover have "delivered f s ?s'"
    using True s1(4) len okeep_fields [OF s1(2)] take_put_front [of "drop 2 f" f]
    by (auto simp: delivered_def reply_def proto_def frame_payload_def in_queue_def fun_eq_iff)
  ultimately show ?thesis using s1(3) by (simp add: quiet_def)
next
  case False
  let ?e = "\<lparr>pe_packet = put f 0 (drop 1 f), pe_len = length f - 1\<rparr>"
  let ?s' = "s\<lparr>rqueue := (rqueue s)(f ! 0 := rqueue s (f ! 0) @ [?e])\<rparr>"
  have n: "unat (word_of_nat (length f - 1) :: u8) = length f - 1" "0 < length f"
    using len by (simp_all add: unat_of_nat del: of_nat_diff length_greater_0_conv)
  have "process_packet f (length f) s = Some ?s'"
    using False len n by (simp add: process_packet_def rd_def rdn_def wrn_def quiet_push [OF q] del: of_nat_diff)
  moreover have "delivered f s ?s'"
    using False len take_put_front [of "drop 1 f" f]
    by (auto simp: delivered_def reply_def proto_def frame_payload_def in_queue_def fun_eq_iff)
  ultimately show ?thesis using q by (simp add: quiet_def)
qed

text \<open>The effect of one byte, as the abstract receiver sees it.\<close>

definition rx_effect :: "rx \<times> mem option \<Rightarrow> serial_source \<Rightarrow> serial_source \<Rightarrow> bool \<Rightarrow> bool" where
  "rx_effect r s s' stop \<longleftrightarrow> quiet s' \<and> rx_of s' = fst r \<and>
     (case snd r of None \<Rightarrow> \<not> stop \<and> in_queue s' = in_queue s \<and> line s' = line s
      | Some f \<Rightarrow> stop \<and> delivered f s s')"

lemma crc_valid_of:
  assumes "length m = MTU" "n \<le> MTU" "4 \<le> n"
  shows "crc_valid (take n m) \<longleftrightarrow> le16 (m ! (n - 2)) (m ! (n - 1)) = crc_list (take (n - 2) m)"
  using assms by (simp add: crc_valid_def min_def)

lemma quiet_messages [simp]: "quiet (message m s) = quiet s"
  by (simp add: message_def quiet_def)

lemma message_fields [simp]:
  "in_sync (message m s) = in_sync s" "escaped (message m s) = escaped s" "rcount (message m s) = rcount s"
  "rpacket (message m s) = rpacket s" "rqueue (message m s) = rqueue s" "line (message m s) = line s"
  by (simp_all add: message_def)

lemma end_of_frame_refines:
  assumes inv: "source_inv s" and q: "quiet s" and st: "in_sync s" "\<not> escaped s" "rcount s < MTU"
  shows "\<exists>s' stop. end_of_frame s = Some (s', stop) \<and> rx_effect (rx_step (rx_of s) SYNC_BYTE) s s' stop"
proof -
  let ?s = "s\<lparr>rcount := 0\<rparr>" and ?n = "rcount s"
  have len: "length (rpacket s) = MTU" using inv by (simp add: source_inv_def)
  have q0: "quiet ?s" using q by (simp add: quiet_def)
  have acc: "length (take ?n (rpacket s)) = ?n" using len st(3) by simp
  have step: "rx_step (rx_of s) SYNC_BYTE =
      (ready, if crc_valid (take ?n (rpacket s)) then Some (take (?n - 2) (rpacket s)) else None)"
    using st len by (simp add: rx_of_def min_def)
  show ?thesis
  proof (cases "?n < 4")
    case True
    then have "\<not> crc_valid (take ?n (rpacket s))" by (simp add: crc_valid_def)
    moreover have "end_of_frame s = Some (?s, False)" using True by (simp add: end_of_frame_def Let_def)
    ultimately show ?thesis using q0 st by (auto simp: step rx_effect_def rx_of_def in_queue_def)
  next
    case False
    define f where "f = take (?n - 2) (rpacket s)"
    have f: "length f = ?n - 2" "2 \<le> length f" "length f < 256"
      using len st(3) False by (auto simp: f_def MTU_def)
    obtain s2 where s2: "process_packet f (length f) ?s = Some s2" "quiet s2" "delivered f ?s s2"
      using process_packet_quiet [OF q0 f(2,3)] by blast
    obtain t where t: "process_packet f (length f) ?s = Some t" "decoder_kept ?s t"
      using process_packet_total [OF f(2)] by blast
    have dk: "decoder_kept ?s s2" using s2(1) t by simp
    let ?ok = "crc_valid (take ?n (rpacket s))"
    have ok: "?ok \<longleftrightarrow> le16 (rpacket s ! (?n - 2)) (rpacket s ! (?n - 1)) = crc_list f"
      using crc_valid_of [of "rpacket s" ?n] len st(3) False by (simp add: f_def)
    have bounds: "?n - 2 < MTU" "?n - Suc 0 < MTU" using st(3) by auto
    have run: "end_of_frame s = (if ?ok then Some (s2, True) else Some (message msg_bad_crc ?s, False))"
      using False len bounds s2(1) crc_packet_list [of f] f(1)
      by (simp add: end_of_frame_def quiet_malloc [OF q0] rdn_def rd_def f_def [symmetric] ok Let_def)
    show ?thesis
    proof (cases ?ok)
      case True
      have "rx_of s2 = ready" using dk st by (simp add: rx_of_def decoder_kept_def)
      moreover have "in_queue ?s = in_queue s" by (simp add: in_queue_def fun_eq_iff)
      then have "delivered f s s2" using s2(3) by (simp add: delivered_def)
      ultimately show ?thesis using run True s2(2)
        by (intro exI [of _ s2] exI [of _ True]) (simp add: step rx_effect_def f_def [symmetric])
    next
      case False
      then show ?thesis using run q0 st by (auto simp: step rx_effect_def rx_of_def in_queue_def)
    qed
  qed
qed

lemma store_byte_refines:
  assumes inv: "source_inv s" and q: "quiet s" and st: "in_sync s" "rcount s < MTU"
  shows "\<exists>s'. store_byte b (s\<lparr>escaped := False\<rparr>) = Some (s', False) \<and>
    rx_effect ((True, False, take (rcount s) (rpacket s) @ [b]), None) s s' False"
proof -
  let ?t = "s\<lparr>escaped := False\<rparr>"
  have "rcount ?t < length (rpacket ?t)" using inv st by (simp add: source_inv_def)
  then obtain m where "store_byte b ?t = Some (?t\<lparr>rpacket := m, rcount := Suc (rcount ?t)\<rparr>, False)"
      "take (Suc (rcount ?t)) m = take (rcount ?t) (rpacket ?t) @ [b]"
    by (rule store_byte_spec)
  then show ?thesis using q st by (auto simp: rx_effect_def rx_of_def quiet_def in_queue_def)
qed

lemma receive_byte_refines:
  assumes inv: "source_inv s" and q: "quiet s"
  shows "\<exists>s' stop. receive_byte b s = Some (s', stop) \<and> rx_effect (rx_step (rx_of s) b) s s' stop"
proof -
  have len: "length (rpacket s) = MTU" "rcount s \<le> MTU" using inv by (simp_all add: source_inv_def)
  then have acc: "length (take (rcount s) (rpacket s)) = rcount s" by simp
  consider (out) "\<not> in_sync s" | (long) "in_sync s" "MTU \<le> rcount s"
    | (esc_sync) "in_sync s" "rcount s < MTU" "escaped s" "b = SYNC_BYTE"
    | (esc) "in_sync s" "rcount s < MTU" "escaped s" "b \<noteq> SYNC_BYTE"
    | (start) "in_sync s" "rcount s < MTU" "\<not> escaped s" "b = ESCAPE_BYTE"
    | (fin) "in_sync s" "rcount s < MTU" "\<not> escaped s" "b = SYNC_BYTE"
    | (data) "in_sync s" "rcount s < MTU" "\<not> escaped s" "b \<noteq> ESCAPE_BYTE" "b \<noteq> SYNC_BYTE"
    by (meson not_le)
  then show ?thesis
  proof cases
    case fin
    then show ?thesis using end_of_frame_refines [OF inv q] by (simp add: receive_byte_def)
  next
    case esc
    then have "rx_step (rx_of s) b = ((True, False, take (rcount s) (rpacket s) @ [b XOR 0x20]), None)"
        "receive_byte b s = store_byte (b XOR 0x20) (s\<lparr>escaped := False\<rparr>)"
      using len by (simp_all add: rx_of_def receive_byte_def)
    with store_byte_refines [OF inv q esc(1,2)] show ?thesis by metis
  next
    case data
    then have "rx_step (rx_of s) b = ((True, False, take (rcount s) (rpacket s) @ [b]), None)"
        "receive_byte b s = store_byte b s"
      using len by (simp_all add: rx_of_def receive_byte_def)
    moreover have "s\<lparr>escaped := False\<rparr> = s" using data(3) by simp
    ultimately show ?thesis using store_byte_refines [OF inv q data(1,2), of b] by metis
  qed (use q len in \<open>auto simp: receive_byte_def rx_effect_def rx_of_def in_queue_def quiet_def message_def\<close>)
qed

end
