(* ===== verification/Sf_Sessions.thy ===== *)
theory Sf_Sessions
  imports Sf_Receive
begin

text \<open>
  Sessions on a serial source: every operation of a source that does not block returns, whatever the
  system answers before its input ends, and keeps the invariant; the packets it returns are those the abstract receiver
  accepts; and a packet that is written on one end is returned on the other and acknowledged.
\<close>


section \<open>The input of a source\<close>

fun bytes_of :: "read_result \<Rightarrow> mem" where
  "bytes_of (ReadBytes bs) = bs" |
  "bytes_of (ReadErr e) = []"

definition input :: "serial_source \<Rightarrow> mem" where
  "input s = concat (map bytes_of (os_reads (script s)))"

text \<open>The bytes that were received and not yet looked at: those in the buffer and those to come.\<close>

definition pending :: "serial_source \<Rightarrow> mem" where
  "pending s = drop (bufpos s) (take (bufused s) (rbuffer s)) @ input s"

text \<open>The input arrives without errors, in pieces that are not empty.\<close>

definition clean :: "serial_source \<Rightarrow> bool" where
  "clean s \<longleftrightarrow> (\<forall>r \<in> set (os_reads (script s)). \<exists>bs. bs \<noteq> [] \<and> r = ReadBytes bs)"

lemma input_kept_pending: "input_kept s s' \<Longrightarrow> pending s' = pending s"
  by (simp add: input_kept_def pending_def input_def)

lemma input_kept_clean: "input_kept s s' \<Longrightarrow> clean s' = clean s"
  by (simp add: input_kept_def clean_def)

text \<open>Filling the buffer changes the buffer, the input and the messages.\<close>

definition fill_kept :: "serial_source \<Rightarrow> serial_source \<Rightarrow> bool" where
  "fill_kept s s' \<longleftrightarrow> rx_of s' = rx_of s \<and> rpacket s' = rpacket s \<and> rcount s' = rcount s \<and> rqueue s' = rqueue s \<and>
     seqno s' = seqno s \<and> non_blocking s' = non_blocking s \<and> line s' = line s \<and> quiet s' = quiet s \<and>
     os_selects (script s') = os_selects (script s) \<and> os_times (script s') = os_times (script s)"

lemma fill_kept_refl [simp]: "fill_kept s s"
  by (simp add: fill_kept_def)

lemma fill_kept_trans: "fill_kept s t \<Longrightarrow> fill_kept t u \<Longrightarrow> fill_kept s u"
  by (simp add: fill_kept_def)

lemma fill_kept_message: "fill_kept s (message m s)"
  by (simp add: fill_kept_def message_def rx_of_def quiet_def)

lemma fill_buffer_spec:
  assumes "source_inv s" "bufused s \<le> bufpos s"
  shows "\<exists>s' ok. fill_buffer True s = Some (s', ok) \<and> source_inv s' \<and> fill_kept s s' \<and> pending s' = pending s \<and>
    length (os_reads (script s')) \<le> length (os_reads (script s)) \<and>
    (ok \<longrightarrow> bufpos s' < bufused s') \<and>
    (\<not> ok \<longrightarrow> bufused s' \<le> bufpos s' \<and> (os_reads (script s) \<noteq> [] \<longrightarrow> length (os_reads (script s')) < length (os_reads (script s)))) \<and>
    (clean s \<longrightarrow> clean s' \<and> (\<not> ok \<longrightarrow> pending s = []))"
  using assms
proof (induction "os_reads (script s)" arbitrary: s)
  case Nil
  then have "fill_buffer True s = Some (s, False)"
    by (subst fill_buffer.simps) (simp add: serial_read_def os_read_def source_inv_def)
  with Nil show ?case by (intro exI [of _ s] exI [of _ False]) (simp add: pending_def input_def)
next
  case (Cons r rs)
  have buf: "length (rbuffer s) = BUFSIZE" "BUFSIZE > 0" using Cons.prems by (simp_all add: source_inv_def BUFSIZE_def)
  note reads = Cons.hyps(2) [symmetric]
  let ?t = "s\<lparr>script := (script s)\<lparr>os_reads := rs\<rparr>\<rparr>"
  have pend: "pending s = bytes_of r @ input ?t"
    using Cons.prems(2) reads by (simp add: pending_def input_def)
  consider (err) e where "r = ReadErr e" "e \<noteq> EAGAIN" | (again) "r = ReadErr EAGAIN" | (empty) "r = ReadBytes []"
    | (data) bs where "r = ReadBytes bs" "bs \<noteq> []"
    by (cases r) auto
  then show ?case
  proof cases
    case err
    let ?u = "if e \<noteq> EINTR then message msg_unix_error ?t else ?t"
    have u: "rs = os_reads (script ?u)" "source_inv ?u" "bufused ?u \<le> bufpos ?u" "fill_kept s ?u" "pending ?u = pending s"
      using Cons.prems pend err reads by (auto simp: source_inv_def fill_kept_def message_def pending_def input_def rx_of_def quiet_def)
    have "fill_buffer True s = fill_buffer True ?u"
      using err reads by (subst fill_buffer.simps) (simp add: serial_read_def os_read_def)
    moreover have "\<not> clean s" using err reads by (auto simp: clean_def)
    moreover obtain s' ok where "fill_buffer True ?u = Some (s', ok)" "source_inv s'" "fill_kept ?u s'" "pending s' = pending ?u"
        "length (os_reads (script s')) \<le> length (os_reads (script ?u))" "ok \<longrightarrow> bufpos s' < bufused s'"
        "\<not> ok \<longrightarrow> bufused s' \<le> bufpos s'"
      using Cons.hyps(1) [OF u(1-3)] by blast
    ultimately show ?thesis using u fill_kept_trans [OF u(4)] reads by fastforce
  next
    case again
    then have "fill_buffer True s = Some (?t, False)"
      using reads by (subst fill_buffer.simps) (simp add: serial_read_def os_read_def)
    moreover have "\<not> clean s" using again reads by (auto simp: clean_def)
    moreover have "source_inv ?t" "fill_kept s ?t" "pending ?t = pending s"
      using Cons.prems pend again by (auto simp: source_inv_def fill_kept_def pending_def rx_of_def quiet_def)
    ultimately show ?thesis using Cons.prems(2) reads by (intro exI [of _ ?t] exI [of _ False]) simp
  next
    case empty
    then have "fill_buffer True s = Some (?t, False)"
      using reads buf by (subst fill_buffer.simps) (simp add: serial_read_def os_read_def)
    moreover have "\<not> clean s" using empty reads by (auto simp: clean_def)
    moreover have "source_inv ?t" "fill_kept s ?t" "pending ?t = pending s"
      using Cons.prems pend empty by (auto simp: source_inv_def fill_kept_def pending_def rx_of_def quiet_def)
    ultimately show ?thesis using Cons.prems(2) reads by (intro exI [of _ ?t] exI [of _ False]) simp
  next
    case data
    define rs' where "rs' = (if BUFSIZE < length bs then ReadBytes (drop BUFSIZE bs) # rs else rs)"
    define got where "got = take BUFSIZE bs"
    have got: "got \<noteq> []" "length got \<le> BUFSIZE" "bs @ concat (map bytes_of rs) = got @ concat (map bytes_of rs')"
      using data(2) buf by (auto simp: got_def rs'_def)
    let ?s' = "s\<lparr>script := (script s)\<lparr>os_reads := rs'\<rparr>, rbuffer := put (rbuffer s) 0 got, bufpos := 0, bufused := length got\<rparr>"
    have rd: "serial_read s True BUFSIZE = Some (s\<lparr>script := (script s)\<lparr>os_reads := rs'\<rparr>\<rparr>, ReadBytes got)"
      using data reads got(1) by (auto simp: serial_read_def os_read_def rs'_def got_def split: list.split)
    have "fill_buffer True s = Some (?s', True)"
      using got buf rd by (subst fill_buffer.simps) (simp add: wrn_def)
    moreover have "source_inv ?s'" using Cons.prems(1) got(2) buf by (simp add: source_inv_def)
    moreover have "fill_kept s ?s'" by (simp add: fill_kept_def rx_of_def quiet_def)
    moreover have "pending ?s' = pending s"
      using got buf data pend by (simp add: pending_def input_def put_def)
    moreover have "clean ?s'" if "clean s"
      using that reads by (auto simp: clean_def rs'_def)
    moreover have "length rs' \<le> length (os_reads (script s))" using reads by (simp add: rs'_def)
    ultimately show ?thesis using got(1) by (intro exI [of _ ?s'] exI [of _ True]) simp
  qed
qed

text \<open>Reading one byte: the next of the input, or nothing.\<close>

lemma read_byte_spec:
  assumes "source_inv s"
  shows "\<exists>s' r. read_byte True s = Some (s', r) \<and> source_inv s' \<and> fill_kept s s' \<and>
    length (os_reads (script s')) \<le> length (os_reads (script s)) \<and>
    (case r of Some b \<Rightarrow> pending s = b # pending s'
     | None \<Rightarrow> pending s' = pending s \<and> bufused s' \<le> bufpos s' \<and> bufused s \<le> bufpos s \<and>
         (os_reads (script s) \<noteq> [] \<longrightarrow> length (os_reads (script s')) < length (os_reads (script s)))) \<and>
    (clean s \<longrightarrow> clean s' \<and> (r = None \<longrightarrow> pending s = []))"
proof -
  have take_one: thesis if inv: "source_inv t" and t: "bufpos t < bufused t"
    and "\<And>b u. u = t\<lparr>bufpos := bufpos t + 1\<rparr> \<Longrightarrow> rd (rbuffer t) (bufpos t) = Some b \<Longrightarrow> source_inv u \<Longrightarrow> fill_kept t u \<Longrightarrow>
        pending t = b # pending u \<Longrightarrow> clean u = clean t \<Longrightarrow> os_reads (script u) = os_reads (script t) \<Longrightarrow> thesis" for t thesis
  proof (rule that(3) [OF refl])
    have p: "bufpos t < length (take (bufused t) (rbuffer t))" using inv t by (simp add: source_inv_def)
    show "rd (rbuffer t) (bufpos t) = Some (rbuffer t ! bufpos t)" using p by (simp add: rd_def)
    show "pending t = rbuffer t ! bufpos t # pending (t\<lparr>bufpos := bufpos t + 1\<rparr>)"
      using p t by (simp add: pending_def input_def Cons_nth_drop_Suc [symmetric])
  qed (use inv t in \<open>simp_all add: source_inv_def fill_kept_def rx_of_def quiet_def clean_def\<close>)
  show ?thesis
  proof (cases "bufused s \<le> bufpos s")
    case False
    then have "bufpos s < bufused s" by simp
    from take_one [OF assms this] show ?thesis
      using False by (fastforce simp: read_byte_def)
  next
    case True
    obtain t ok where t: "fill_buffer True s = Some (t, ok)" "source_inv t" "fill_kept s t" "pending t = pending s"
        "length (os_reads (script t)) \<le> length (os_reads (script s))" "ok \<longrightarrow> bufpos t < bufused t"
        "\<not> ok \<longrightarrow> bufused t \<le> bufpos t \<and> (os_reads (script s) \<noteq> [] \<longrightarrow> length (os_reads (script t)) < length (os_reads (script s)))"
        "clean s \<longrightarrow> clean t \<and> (\<not> ok \<longrightarrow> pending s = [])"
      using fill_buffer_spec [OF assms True] by blast
    show ?thesis
    proof (cases ok)
      case no: False
      then have "read_byte True s = Some (t, None)" using True t(1) by (simp add: read_byte_def)
      with t True no show ?thesis by simp
    next
      case yes: True
      from t(6) yes have "bufpos t < bufused t" by simp
      then obtain b u where u: "u = t\<lparr>bufpos := bufpos t + 1\<rparr>" "rd (rbuffer t) (bufpos t) = Some b" "source_inv u" "fill_kept t u"
          "pending t = b # pending u" "clean u = clean t" "os_reads (script u) = os_reads (script t)"
        by (rule take_one [OF t(2)])
      have "read_byte True s = Some (u, Some b)" using True yes t(1) u(1,2) by (simp add: read_byte_def)
      with u t yes fill_kept_trans [OF t(3) u(4)] show ?thesis by simp
    qed
  qed
qed

section \<open>Reading returns\<close>

text \<open>What every part of a session keeps and consumes: the invariant, the mode and the sequence
  number, and every queue grows by at most the bytes that are consumed.\<close>

definition session_step :: "serial_source \<Rightarrow> serial_source \<Rightarrow> bool" where
  "session_step s s' \<longleftrightarrow> source_inv s' \<and> seqno s' = seqno s \<and> non_blocking s' = non_blocking s \<and>
     length (pending s') \<le> length (pending s) \<and>
     length (os_reads (script s')) \<le> length (os_reads (script s)) \<and>
     length (os_selects (script s')) \<le> length (os_selects (script s)) \<and>
     (\<forall>ty. length (rqueue s' ty) + length (pending s') \<le> length (rqueue s ty) + length (pending s))"

lemma session_step_refl: "source_inv s \<Longrightarrow> session_step s s"
  by (simp add: session_step_def)

lemma session_step_trans: "session_step s t \<Longrightarrow> session_step t u \<Longrightarrow> session_step s u"
  by (simp add: session_step_def) (meson le_trans)

lemma pushed_one_length: "pushed_one s s' \<Longrightarrow> length (rqueue s' ty) \<le> Suc (length (rqueue s ty))"
  by (auto simp: pushed_one_def)

text \<open>There is something to consume: bytes in the buffer, or an answer of \<open>read\<close> to come.\<close>

definition has_input :: "serial_source \<Rightarrow> bool" where
  "has_input s \<longleftrightarrow> bufpos s < bufused s \<or> os_reads (script s) \<noteq> []"

lemma read_and_process_total:
  assumes "source_inv s"
  shows "\<exists>s'. read_and_process True s = Some s' \<and> session_step s s' \<and>
    (has_input s \<longrightarrow> length (pending s') + length (os_reads (script s')) < length (pending s) + length (os_reads (script s))) \<and>
    (bufpos s < bufused s \<longrightarrow> length (pending s') < length (pending s))"
  using assms
proof (induction "length (pending s)" arbitrary: s rule: less_induct)
  case less
  obtain t r where t: "read_byte True s = Some (t, r)" "source_inv t" "fill_kept s t"
      "length (os_reads (script t)) \<le> length (os_reads (script s))"
      "case r of Some b \<Rightarrow> pending s = b # pending t
       | None \<Rightarrow> pending t = pending s \<and> bufused t \<le> bufpos t \<and> bufused s \<le> bufpos s \<and>
           (os_reads (script s) \<noteq> [] \<longrightarrow> length (os_reads (script t)) < length (os_reads (script s)))"
    using read_byte_spec [OF less.prems] by blast
  have step1: "session_step s t"
    using t by (auto simp: session_step_def fill_kept_def split: option.splits)
  show ?case
  proof (cases r)
    case None
    then have "read_and_process True s = Some t" using t(1) by (subst read_and_process.simps) simp
    with step1 t(5) None show ?thesis by (auto simp: has_input_def)
  next
    case (Some b)
    obtain u stop where u: "receive_byte b t = Some (u, stop)" "input_kept t u" "pushed_one t u" "source_inv u"
      using receive_byte_total [OF t(2)] by blast
    have pend: "pending s = b # pending u" "length (pending u) < length (pending s)"
      using t(5) Some input_kept_pending [OF u(2)] by auto
    have step2: "session_step s u"
    proof -
      have "length (rqueue u ty) \<le> Suc (length (rqueue s ty))" for ty
        using pushed_one_length [OF u(3)] t(3) by (simp add: fill_kept_def)
      then show ?thesis
        using u(2,4) t(3,4) pend by (simp add: session_step_def input_kept_def fill_kept_def)
    qed
    have reads: "length (os_reads (script u)) \<le> length (os_reads (script s))"
      using step2 by (simp add: session_step_def)
    show ?thesis
    proof (cases stop)
      case True
      then have "read_and_process True s = Some u" using t(1) Some u(1) by (subst read_and_process.simps) simp
      with step2 pend reads show ?thesis by auto
    next
      case False
      then have run: "read_and_process True s = read_and_process True u"
        using t(1) Some u(1) by (subst read_and_process.simps) simp
      obtain v where v: "read_and_process True u = Some v" "session_step u v"
        using less.hyps [OF pend(2) u(4)] by blast
      then have "length (pending v) \<le> length (pending u)" "length (os_reads (script v)) \<le> length (os_reads (script u))"
        by (simp_all add: session_step_def)
      with run v(1) session_step_trans [OF step2 v(2)] pend(2) reads show ?thesis by auto
    qed
  qed
qed

lemma pop_spec:
  assumes "source_inv s" "pop_protocol_packet ty s = (s', r)"
  shows "session_step s s' \<and> pending s' = pending s \<and> has_input s' = has_input s \<and> bufpos s' = bufpos s \<and> bufused s' = bufused s \<and>
    os_reads (script s') = os_reads (script s) \<and> os_selects (script s') = os_selects (script s) \<and>
    (case r of None \<Rightarrow> s' = s \<and> rqueue s ty = []
     | Some e \<Rightarrow> entry_ok e \<and> length (rqueue s' ty) < length (rqueue s ty))"
proof (cases "rqueue s ty")
  case Nil
  with assms show ?thesis by (auto simp: pop_protocol_packet_def session_step_refl)
next
  case (Cons e es)
  have all: "\<forall>e \<in> set (rqueue s ty'). entry_ok e" for ty' using assms(1) by (simp add: source_inv_def)
  have s': "s' = s\<lparr>rqueue := (rqueue s)(ty := es)\<rparr>" "r = Some e"
    using assms(2) Cons by (auto simp: pop_protocol_packet_def)
  have "entry_ok e" "\<forall>e \<in> set es. entry_ok e" using all [of ty] Cons by simp_all
  moreover from this have "source_inv s'" using assms(1) all unfolding s' by (simp add: source_inv_def)
  ultimately show ?thesis
    using Cons s' by (auto simp: session_step_def has_input_def pending_def input_def)
qed

text \<open>A source that does not block: \<open>read_serial_packet\<close> returns, with a packet or without.\<close>

lemma read_serial_loop_total:
  assumes "source_inv s" "non_blocking s"
  shows "\<exists>s' p. read_serial_loop s = Some (s', p) \<and> session_step s s' \<and>
    (\<forall>bs n. p = Some (bs, n) \<longrightarrow> n \<le> length bs)"
  using assms
proof (induction "length (pending s)" arbitrary: s rule: less_induct)
  case less
  obtain t r where t: "pop_protocol_packet P_PACKET_NO_ACK s = (t, r)" by (cases "pop_protocol_packet P_PACKET_NO_ACK s")
  note p = pop_spec [OF less.prems(1) t]
  have inv: "source_inv t" "non_blocking t" using p less.prems(2) by (auto simp: session_step_def)
  show ?case
  proof (cases r)
    case (Some e)
    then show ?thesis using t p by (subst read_serial_loop.simps) (simp add: entry_ok_def)
  next
    case None
    show ?thesis
    proof (cases "serial_source_empty t")
      case True
      then show ?thesis
        using t p None inv(2) less.prems(1) session_step_refl by (subst read_serial_loop.simps) simp
    next
      case False
      then have buf: "bufpos t < bufused t" using p None by (auto simp: serial_source_empty_def packet_available_def)
      obtain u where u: "read_and_process True t = Some u" "session_step t u" "length (pending u) < length (pending t)"
        using read_and_process_total [OF inv(1)] buf by blast
      have run: "read_serial_loop s = read_serial_loop u"
        using t None False inv(2) buf u(1) by (subst read_serial_loop.simps) (simp add: source_wait_def)
      have step: "session_step s u" using p u(2) session_step_trans by blast
      have "length (pending u) < length (pending s)" "source_inv u" "non_blocking u"
        using u(2,3) p inv(2) unfolding session_step_def by simp_all
      then obtain v q where v: "read_serial_loop u = Some (v, q)" "session_step u v" "\<forall>bs n. q = Some (bs, n) \<longrightarrow> n \<le> length bs"
        using less.hyps by blast
      show ?thesis
        using run v(1,3) session_step_trans [OF step v(2)] by (intro exI [of _ v] exI [of _ q]) simp
    qed
  qed
qed

lemma read_serial_packet_total:
  assumes "source_inv s" "non_blocking s"
  shows "\<exists>s' p. read_serial_packet s = Some (s', p) \<and> session_step s s' \<and>
    (\<forall>bs n. p = Some (bs, n) \<longrightarrow> n \<le> length bs)"
proof -
  obtain t where t: "read_and_process True s = Some t" "session_step s t"
    using read_and_process_total [OF assms(1)] by blast
  then have "source_inv t" "non_blocking t" using assms(2) by (simp_all add: session_step_def)
  then obtain u p where u: "read_serial_loop t = Some (u, p)" "session_step t u" "\<forall>bs n. p = Some (bs, n) \<longrightarrow> n \<le> length bs"
    using read_serial_loop_total by blast
  have "read_serial_packet s = Some (u, p)" using t(1) u(1) by (simp add: read_serial_packet_def)
  with u(3) session_step_trans [OF t(2) u(2)] show ?thesis
    by (intro exI [of _ u] exI [of _ p]) simp
qed

section \<open>Writing returns\<close>

lemma okeep_step: "okeep s s' \<Longrightarrow> source_inv s \<Longrightarrow> session_step s s'"
  using okeep_fields [of s s'] okeep_inv [of s s'] by (simp add: session_step_def pending_def input_def)

text \<open>Waiting with a deadline.\<close>

definition wait_result :: "serial_source \<Rightarrow> serial_source \<Rightarrow> bool \<Rightarrow> bool" where
  "wait_result s t r \<longleftrightarrow> session_step s t \<and> pending t = pending s \<and> rqueue t = rqueue s \<and>
     os_reads (script t) = os_reads (script s) \<and> bufpos t = bufpos s \<and> bufused t = bufused s \<and>
     (r \<longrightarrow> has_input t \<or> length (os_selects (script t)) < length (os_selects (script s)))"

lemma wait_result_less:
  assumes "wait_result t u r" "session_step s t" "pending t = pending s" "rqueue t = rqueue s"
    "os_reads (script t) = os_reads (script s)" "bufpos t = bufpos s" "bufused t = bufused s"
    "length (os_selects (script t)) < length (os_selects (script s))"
  shows "wait_result s u r"
proof -
  have "session_step t u" "length (os_selects (script u)) \<le> length (os_selects (script t))"
    using assms(1) unfolding wait_result_def session_step_def by blast+
  then show ?thesis
    using assms session_step_trans [of s t u] unfolding wait_result_def by simp
qed

lemma source_wait_loop_total:
  assumes "source_inv s" "deadline = Some d"
  shows "\<exists>t r. source_wait_loop deadline s = Some (t, r) \<and> wait_result s t r"
  using assms
proof (induction deadline s rule: source_wait_loop.induct)
  case (1 deadline s)
  obtain t now where t: "os_time s = (t, now)" by (cases "os_time s")
  have kt: "session_step s t" "pending t = pending s" "rqueue t = rqueue s" "os_reads (script t) = os_reads (script s)"
      "bufpos t = bufpos s" "bufused t = bufused s" "os_selects (script t) = os_selects (script s)" "source_inv t"
    using t "1.prems"(1)
    by (auto simp: os_time_def session_step_def source_inv_def pending_def input_def split: list.splits)
  show ?case
  proof (cases "fst (time_left d now) < 0")
    case True
    then have "source_wait_loop deadline s = Some (t, False)"
      using "1.prems"(2) t by (subst source_wait_loop.simps) simp
    with kt show ?thesis by (intro exI [of _ t] exI [of _ False]) (simp add: wait_result_def)
  next
    case False
    show ?thesis
    proof (cases "os_selects (script t)")
      case Nil
      then have "source_wait_loop deadline s =
          (if os_reads (script t) \<noteq> [] then Some (t, True) else Some (t, False))"
        using "1.prems"(2) t False kt(8) by (subst source_wait_loop.simps) (simp add: os_select_def source_inv_def)
      with kt show ?thesis
        by (intro exI [of _ t] exI [of _ "os_reads (script t) \<noteq> []"]) (simp add: wait_result_def has_input_def)
    next
      case (Cons q qs)
      define u where "u = t\<lparr>script := (script t)\<lparr>os_selects := qs\<rparr>\<rparr>"
      have qs: "length qs < length (os_selects (script s))" using Cons kt(7) by (metis length_Cons lessI)
      have sel: "os_select True t = Some (u, q)" using Cons by (simp add: os_select_def u_def)
      have ku: "session_step s u" "pending u = pending s" "rqueue u = rqueue s" "os_reads (script u) = os_reads (script s)"
          "bufpos u = bufpos s" "bufused u = bufused s" "length (os_selects (script u)) < length (os_selects (script s))" "source_inv u"
        using kt qs by (simp_all add: session_step_def source_inv_def u_def pending_def input_def)
      show ?thesis
      proof (cases "q = SelErr EINTR")
        case True
        have run: "source_wait_loop deadline s = source_wait_loop deadline u"
          using "1.prems"(2) t False sel True by (subst source_wait_loop.simps) simp
        obtain v r where v: "source_wait_loop deadline u = Some (v, r)" "wait_result u v r"
          using "1.IH" [of t False "(u, q)" u q EINTR] "1.prems"(2) t False sel True ku(8) by auto
        have "wait_result s v r" by (rule wait_result_less [OF v(2) ku(1-7)])
        with run v(1) show ?thesis by auto
      next
        case no: False
        let ?w = "message msg_unix_error u"
        have "okeep u ?w" by simp
        then have kw: "session_step s ?w" "pending ?w = pending s" "rqueue ?w = rqueue s" "os_reads (script ?w) = os_reads (script s)"
            "bufpos ?w = bufpos s" "bufused ?w = bufused s"
          using ku okeep_step [of u ?w] session_step_trans okeep_fields [of u ?w]
          by (auto simp: pending_def input_def)
        have "source_wait_loop deadline s = (case q of SelErr e \<Rightarrow> Some (?w, False) | SelTimeout \<Rightarrow> Some (u, False)
            | SelReady \<Rightarrow> Some (u, True))"
          using "1.prems"(2) t False sel no by (subst source_wait_loop.simps) (simp split: select_result.split)
        with ku kw show ?thesis by (cases q) (auto simp: wait_result_def)
      qed
    qed
  qed
qed

lemma source_wait_total:
  assumes "source_inv s"
  shows "\<exists>t r. source_wait (Some d) s = Some (t, r) \<and> wait_result s t r"
proof (cases "bufpos s < bufused s")
  case True
  with assms show ?thesis
    by (intro exI [of _ s] exI [of _ True]) (simp add: source_wait_def wait_result_def session_step_refl has_input_def)
next
  case False
  with source_wait_loop_total [OF assms refl] show ?thesis by (simp add: source_wait_def)
qed

definition await_size :: "serial_source \<Rightarrow> nat" where
  "await_size s = 2 * length (pending s) + length (os_reads (script s)) + length (os_selects (script s)) +
     length (rqueue s P_ACK)"

lemma await_size_mono: "session_step s t \<Longrightarrow> await_size t \<le> await_size s"
proof -
  assume st: "session_step s t"
  then have "length (rqueue t P_ACK) + length (pending t) \<le> length (rqueue s P_ACK) + length (pending s)"
    unfolding session_step_def by blast
  moreover have "length (pending t) \<le> length (pending s)" "length (os_reads (script t)) \<le> length (os_reads (script s))"
      "length (os_selects (script t)) \<le> length (os_selects (script s))"
    using st unfolding session_step_def by blast+
  ultimately show ?thesis by (simp add: await_size_def)
qed

lemma await_size_less:
  assumes st: "session_step s t" and "length (pending t) + length (os_reads (script t)) < length (pending s) + length (os_reads (script s))"
  shows "await_size t < await_size s"
proof -
  have "length (rqueue t P_ACK) + length (pending t) \<le> length (rqueue s P_ACK) + length (pending s)"
      "length (os_selects (script t)) \<le> length (os_selects (script s))"
    using st unfolding session_step_def by blast+
  with assms(2) show ?thesis by (simp add: await_size_def)
qed

lemma await_ack_total:
  assumes "source_inv s"
  shows "\<exists>s' r. await_ack d s = Some (s', r) \<and> source_inv s' \<and> non_blocking s' = non_blocking s \<and> r \<in> {0, 1}"
  using assms
proof (induction "2 * await_size s + (if has_input s then 0 else 1)" arbitrary: s rule: less_induct)
  case less
  obtain s1 where s1: "read_and_process True s = Some s1" "session_step s s1"
      "has_input s \<longrightarrow> length (pending s1) + length (os_reads (script s1)) < length (pending s) + length (os_reads (script s))"
    using read_and_process_total [OF less.prems] by blast
  have inv1: "source_inv s1" using s1(2) by (simp add: session_step_def)
  have size1: "await_size s1 \<le> await_size s" "has_input s \<longrightarrow> await_size s1 < await_size s"
    using await_size_mono [OF s1(2)] await_size_less [OF s1(2)] s1(3) by blast+
  obtain s2 r where s2: "pop_protocol_packet P_ACK s1 = (s2, r)" by (cases "pop_protocol_packet P_ACK s1")
  note p = pop_spec [OF inv1 s2]
  have inv2: "source_inv s2" using p by (simp add: session_step_def)
  have nb: "non_blocking s2 = non_blocking s" "seqno s2 = seqno s" using p s1(2) by (auto simp: session_step_def)
  show ?case
  proof (cases r)
    case (Some e)
    then have e: "entry_ok e" "length (rqueue s2 P_ACK) < length (rqueue s1 P_ACK)" using p by auto
    then obtain b where b: "rd (pe_packet e) 0 = Some b" by (auto simp: entry_ok_def rd_def)
    have size2: "await_size s2 < await_size s1" using p e(2) by (simp add: await_size_def)
    show ?thesis
    proof (cases "b = seqno s2")
      case True
      then show ?thesis using s1(1) s2 Some b inv2 nb by (subst await_ack.simps) simp
    next
      case False
      then have "await_ack d s = await_ack d s2"
        using s1(1) s2 Some b by (subst await_ack.simps) simp
      then show ?thesis using less.hyps [of s2] size1(1) size2 inv2 nb by auto
    qed
  next
    case None
    then have eq: "s2 = s1" using p by simp
    obtain t ready where t: "source_wait (Some d) s1 = Some (t, ready)" "wait_result s1 t ready"
      using source_wait_total [OF inv1] by blast
    have invt: "source_inv t" "non_blocking t = non_blocking s" using t(2) nb eq by (auto simp: wait_result_def session_step_def)
    show ?thesis
    proof (cases ready)
      case False
      then show ?thesis using s1(1) s2 None eq t(1) invt by (subst await_ack.simps) simp
    next
      case True
      then have run: "await_ack d s = await_ack d t"
        using s1(1) s2 None eq t(1) by (subst await_ack.simps) simp
      have sel: "length (os_selects (script t)) \<le> length (os_selects (script s1))"
        using t(2) unfolding wait_result_def session_step_def by blast
      have szt: "await_size t \<le> await_size s1" "\<not> has_input t \<longrightarrow> await_size t < await_size s1"
        using t(2) True sel unfolding wait_result_def await_size_def by auto
      have "2 * await_size t + (if has_input t then 0 else 1) < 2 * await_size s + (if has_input s then 0 else 1)"
        using szt size1 by (cases "has_input t"; cases "has_input s") auto
      from less.hyps [OF this invt(1)] show ?thesis using run invt(2) by simp
    qed
  qed
qed

lemma write_serial_packet_total:
  assumes "source_inv s" "len \<le> length packet" "len < 2 ^ 30 - 5"
  shows "\<exists>s' r. write_serial_packet packet len s = Some (s', r) \<and> source_inv s' \<and> non_blocking s' = non_blocking s \<and>
     r \<in> {-1, 0, 1}"
proof -
  let ?s = "s\<lparr>seqno := seqno s + 1\<rparr>"
  have inv0: "source_inv ?s" using assms(1) by (simp add: source_inv_def)
  have len: "2 * len + 10 < 2 ^ 31" using assms(3) by simp
  obtain t r where t: "write_framed_packet P_PACKET_ACK (seqno ?s) packet len ?s = Some (t, r)" "okeep ?s t"
    by (rule write_framed_packet_total [OF assms(2) len])
  have invt: "source_inv t" "non_blocking t = non_blocking s"
    using okeep_inv [OF t(2)] okeep_fields [OF t(2)] inv0 by auto
  obtain u now where u: "os_time t = (u, now)" by (cases "os_time t")
  then have invu: "source_inv u" "non_blocking u = non_blocking s"
    using invt by (auto simp: os_time_def source_inv_def split: list.splits)
  obtain v q where v: "await_ack (add_timeval now ACK_TIMEOUT) u = Some (v, q)" "source_inv v"
      "non_blocking v = non_blocking u" "q \<in> {0, 1}"
    using await_ack_total [OF invu(1)] by blast
  have "write_serial_packet packet len s = (if r < 0 then Some (t, -1) else Some (v, q))"
    using t(1) u v(1) by (simp add: write_serial_packet_def)
  with invt invu(2) v(2-4) show ?thesis by auto
qed

section \<open>What a source reads\<close>

text \<open>The frames that the bytes still to be looked at will complete, and the packets among them.\<close>

definition stream :: "serial_source \<Rightarrow> mem list" where
  "stream s = rx_frames (rx_of s) (pending s)"

definition packets :: "mem list \<Rightarrow> mem list" where
  "packets fs = map frame_payload (filter (\<lambda>f. proto f = P_PACKET_NO_ACK) fs)"

definition outstanding :: "serial_source \<Rightarrow> mem list" where
  "outstanding s = in_queue s P_PACKET_NO_ACK @ packets (stream s)"

definition acks :: "serial_source \<Rightarrow> mem list" where
  "acks s = in_queue s P_ACK @ map frame_payload (filter (\<lambda>f. proto f = P_ACK) (stream s))"

text \<open>The bytes on the line once all acknowledgements that are due are sent.\<close>

definition due_line :: "serial_source \<Rightarrow> mem" where
  "due_line s = line s @ concat (map reply (stream s))"

definition good :: "serial_source \<Rightarrow> bool" where
  "good s \<longleftrightarrow> source_inv s \<and> quiet s \<and> clean s"

text \<open>Nothing that is to come is lost or added.\<close>

definition conserved :: "serial_source \<Rightarrow> serial_source \<Rightarrow> bool" where
  "conserved s s' \<longleftrightarrow> outstanding s' = outstanding s \<and> acks s' = acks s \<and> due_line s' = due_line s"

lemma conserved_trans: "conserved s t \<Longrightarrow> conserved t u \<Longrightarrow> conserved s u"
  by (simp add: conserved_def)

lemma conserved_refl [simp]: "conserved s s"
  by (simp add: conserved_def)

lemma delivered_conserved:
  assumes "delivered f s s'" "stream s = f # stream s'"
  shows "conserved s s'"
  using assms
  by (auto simp: conserved_def outstanding_def acks_def due_line_def packets_def delivered_def P_ACK_def P_PACKET_NO_ACK_def)

lemma same_conserved: "in_queue s' = in_queue s \<Longrightarrow> line s' = line s \<Longrightarrow> stream s' = stream s \<Longrightarrow> conserved s s'"
  by (simp add: conserved_def outstanding_def acks_def due_line_def)

text \<open>Waits and clocks have no script: a wait ends when there is input, and no time passes.\<close>

definition patient :: "serial_source \<Rightarrow> bool" where
  "patient s \<longleftrightarrow> os_selects (script s) = [] \<and> os_times (script s) = []"

lemma patient_kept: "input_kept s t \<or> fill_kept s t \<or> okeep s t \<Longrightarrow> patient t = patient s"
  using okeep_fields [of s t] by (auto simp: patient_def input_kept_def fill_kept_def)

lemma read_and_process_refines:
  assumes "good s"
  shows "\<exists>s'. read_and_process True s = Some s' \<and> good s' \<and> conserved s s' \<and>
    (stream s = [] \<longrightarrow> pending s' = [] \<and> in_queue s' = in_queue s) \<and>
    (stream s \<noteq> [] \<longrightarrow> stream s' = tl (stream s) \<and> delivered (hd (stream s)) s s') \<and>
    (pending s \<noteq> [] \<longrightarrow> length (pending s') < length (pending s)) \<and> patient s' = patient s"
  using assms
proof (induction "length (pending s)" arbitrary: s rule: less_induct)
  case less
  have inv: "source_inv s" "quiet s" "clean s" using less.prems by (simp_all add: good_def)
  obtain t r where t: "read_byte True s = Some (t, r)" "source_inv t" "fill_kept s t" "clean t"
      "case r of Some b \<Rightarrow> pending s = b # pending t | None \<Rightarrow> pending t = pending s" "r = None \<longrightarrow> pending s = []"
    using read_byte_spec [OF inv(1)] inv(3) by (auto split: option.splits) 
  have st: "quiet t" "rx_of t = rx_of s" "in_queue t = in_queue s" "line t = line s"
    using t(3) inv(2) by (simp_all add: fill_kept_def in_queue_def fun_eq_iff)
  have pt: "patient t = patient s" using patient_kept t(3) by blast
  show ?case
  proof (cases r)
    case None
    then have "read_and_process True s = Some t" "pending s = []" "pending t = []"
      using t by (auto intro: read_and_process.simps [THEN trans])
    moreover from this have "stream t = []" "stream s = []" by (simp_all add: stream_def)
    ultimately show ?thesis using t(2,4) st pt by (auto simp: good_def intro: same_conserved)
  next
    case (Some b)
    have pend: "pending s = b # pending t" using t(5) Some by simp
    obtain u stop where u: "receive_byte b t = Some (u, stop)" "input_kept t u" "source_inv u"
      using receive_byte_total [OF t(2)] by blast
    then have eff: "rx_effect (rx_step (rx_of s) b) t u stop"
      using receive_byte_refines [OF t(2) st(1), of b] st(2) by auto
    have pu: "pending s = b # pending u" "length (pending u) < length (pending s)" "clean u"
      using pend input_kept_pending [OF u(2)] input_kept_clean [OF u(2)] t(4) by auto
    have ptu: "patient u = patient s" using patient_kept u(2) pt by blast
    have gu: "good u" using u(3) pu(3) eff by (simp add: good_def rx_effect_def)
    have su: "stream s = (case snd (rx_step (rx_of s) b) of None \<Rightarrow> stream u | Some f \<Rightarrow> f # stream u)"
      using eff by (simp add: stream_def pu(1) rx_effect_def split: prod.splits option.splits)
    show ?thesis
    proof (cases "snd (rx_step (rx_of s) b)")
      case (Some f)
      then have "stop" "delivered f s u" "stream s = f # stream u"
        using eff su st by (auto simp: rx_effect_def delivered_def)
      moreover have "read_and_process True s = Some u"
        using t(1) \<open>r = Some b\<close> u(1) \<open>stop\<close> by (subst read_and_process.simps) simp
      ultimately show ?thesis using gu pu ptu delivered_conserved by simp
    next
      case none: None
      then have un: "\<not> stop" "in_queue u = in_queue s" "line u = line s" "stream u = stream s"
        using eff su st by (auto simp: rx_effect_def)
      then have cu: "conserved s u" by (intro same_conserved) simp_all
      obtain v where v: "read_and_process True u = Some v" "good v" "conserved u v"
          "stream u = [] \<longrightarrow> pending v = [] \<and> in_queue v = in_queue u"
          "stream u \<noteq> [] \<longrightarrow> stream v = tl (stream u) \<and> delivered (hd (stream u)) u v"
          "pending u \<noteq> [] \<longrightarrow> length (pending v) < length (pending u)" "patient v = patient u"
        using less.hyps [OF pu(2) gu] by blast
      have "session_step u v"
        using read_and_process_total [OF u(3)] v(1) by auto
      then have "length (pending v) \<le> length (pending u)" by (simp add: session_step_def)
      moreover have "read_and_process True s = Some v"
        using t(1) \<open>r = Some b\<close> u(1) un(1) v(1) by (subst read_and_process.simps) simp
      ultimately show ?thesis
        using v conserved_trans [OF cu v(3)] un pu(2) ptu by (simp add: delivered_def)
    qed
  qed
qed

text \<open>The packet a call of \<open>read_serial_packet\<close> returns is the next one outstanding.\<close>

fun received :: "(mem \<times> nat) option \<Rightarrow> mem list" where
  "received None = []" |
  "received (Some (bs, n)) = [take n bs]"

definition read_result_ok :: "serial_source \<Rightarrow> serial_source \<Rightarrow> (mem \<times> nat) option \<Rightarrow> bool" where
  "read_result_ok s s' r \<longleftrightarrow> good s' \<and> non_blocking s' \<and> outstanding s = received r @ outstanding s' \<and>
     acks s' = acks s \<and> due_line s' = due_line s \<and> length (pending s') \<le> length (pending s) \<and>
     length (in_queue s' P_PACKET_NO_ACK) + length (pending s') \<le> length (in_queue s P_PACKET_NO_ACK) + length (pending s) \<and>
     (in_queue s P_PACKET_NO_ACK \<noteq> [] \<longrightarrow>
        length (in_queue s' P_PACKET_NO_ACK) + length (pending s') < length (in_queue s P_PACKET_NO_ACK) + length (pending s)) \<and>
     (r = None \<longrightarrow> in_queue s' P_PACKET_NO_ACK = [])"

lemma pop_refines:
  assumes "good s" "non_blocking s" "pop_protocol_packet P_PACKET_NO_ACK s = (s', Some e)"
  shows "read_result_ok s s' (Some (pe_packet e, pe_len e))"
proof -
  have inv: "source_inv s" "quiet s" "clean s" using assms(1) by (simp_all add: good_def)
  note p = pop_spec [OF inv(1) assms(3)]
  obtain es where s': "s' = s\<lparr>rqueue := (rqueue s)(P_PACKET_NO_ACK := es)\<rparr>" "rqueue s P_PACKET_NO_ACK = e # es"
    using assms(3) by (auto simp: pop_protocol_packet_def split: list.splits)
  then have q: "in_queue s P_PACKET_NO_ACK = take (pe_len e) (pe_packet e) # in_queue s' P_PACKET_NO_ACK" "in_queue s' P_ACK = in_queue s P_ACK"
    by (simp_all add: in_queue_def P_ACK_def P_PACKET_NO_ACK_def)
  have same: "pending s' = pending s" "rx_of s' = rx_of s" "line s' = line s"
    using p s'(1) by (simp_all add: rx_of_def)
  then have st: "stream s' = stream s" by (simp add: stream_def)
  have "good s'" using inv p s'(1) by (simp add: good_def session_step_def quiet_def clean_def)
  then show ?thesis
    using q same st assms(2) s'(1)
    by (simp add: read_result_ok_def outstanding_def acks_def due_line_def)
qed

lemma read_serial_loop_refines:
  assumes "good s" "non_blocking s"
  shows "\<exists>s' r. read_serial_loop s = Some (s', r) \<and> read_result_ok s s' r"
  using assms
proof (induction "length (pending s)" arbitrary: s rule: less_induct)
  case less
  have inv: "source_inv s" using less.prems by (simp add: good_def)
  obtain t q where t: "pop_protocol_packet P_PACKET_NO_ACK s = (t, q)" by (cases "pop_protocol_packet P_PACKET_NO_ACK s")
  show ?case
  proof (cases q)
    case (Some e)
    then have "read_serial_loop s = Some (t, Some (pe_packet e, pe_len e))"
      using t by (subst read_serial_loop.simps) simp
    with pop_refines [OF less.prems] t Some show ?thesis by blast
  next
    case None
    then have eq: "t = s" "rqueue s P_PACKET_NO_ACK = []" using pop_spec [OF inv t] by auto
    then have empty: "in_queue s P_PACKET_NO_ACK = []" by (simp add: in_queue_def)
    show ?thesis
    proof (cases "serial_source_empty s")
      case True
      then have "read_serial_loop s = Some (s, None)"
        using t None eq less.prems(2) by (subst read_serial_loop.simps) simp
      with less.prems empty show ?thesis by (auto simp: read_result_ok_def)
    next
      case False
      then have buf: "bufpos s < bufused s" using eq by (auto simp: serial_source_empty_def packet_available_def)
      obtain u where u: "read_and_process True s = Some u" "good u" "conserved s u"
        using read_and_process_refines [OF less.prems(1)] by blast
      have st: "session_step s u" "length (pending u) < length (pending s)"
        using read_and_process_total [OF inv] u(1) buf by auto
      then have nb: "non_blocking u" and grow: "length (rqueue u P_PACKET_NO_ACK) + length (pending u) \<le> length (pending s)"
        using less.prems(2) eq(2) unfolding session_step_def by (auto, metis add_0 list.size(3))
      have run: "read_serial_loop s = read_serial_loop u"
        using t None eq False less.prems(2) buf u(1) by (subst read_serial_loop.simps) (simp add: source_wait_def)
      obtain v r where v: "read_serial_loop u = Some (v, r)" "read_result_ok u v r"
        using less.hyps [OF st(2) u(2) nb] by blast
      have "read_result_ok s v r"
        using v(2) u(3) grow st(2) empty by (simp add: read_result_ok_def conserved_def in_queue_def)
      with run v(1) show ?thesis by auto
    qed
  qed
qed

definition to_read :: "serial_source \<Rightarrow> nat" where
  "to_read s = length (pending s) + length (in_queue s P_PACKET_NO_ACK)"

lemma read_serial_packet_refines:
  assumes "good s" "non_blocking s"
  shows "\<exists>s' r. read_serial_packet s = Some (s', r) \<and> good s' \<and> non_blocking s' \<and>
    outstanding s = received r @ outstanding s' \<and> acks s' = acks s \<and> due_line s' = due_line s \<and>
    to_read s' \<le> to_read s \<and> (to_read s \<noteq> 0 \<longrightarrow> to_read s' < to_read s)"
proof -
  have inv: "source_inv s" using assms by (simp add: good_def)
  obtain t where t: "read_and_process True s = Some t" "good t" "conserved s t"
      "pending s \<noteq> [] \<longrightarrow> length (pending t) < length (pending s)"
    using read_and_process_refines [OF assms(1)] by blast
  have st: "session_step s t" using read_and_process_total [OF inv] t(1) by auto
  then have nb: "non_blocking t" using assms(2) by (simp add: session_step_def)
  have grow: "length (rqueue t P_PACKET_NO_ACK) + length (pending t) \<le> length (rqueue s P_PACKET_NO_ACK) + length (pending s)"
    using st unfolding session_step_def by blast
  obtain u r where u: "read_serial_loop t = Some (u, r)" "read_result_ok t u r"
    using read_serial_loop_refines [OF t(2) nb] by blast
  have "read_serial_packet s = Some (u, r)" using t(1) u(1) by (simp add: read_serial_packet_def)
  moreover have "length (pending u) + length (in_queue u P_PACKET_NO_ACK) < length (pending s) + length (in_queue s P_PACKET_NO_ACK)"
    if "length (pending s) + length (in_queue s P_PACKET_NO_ACK) \<noteq> 0"
  proof (cases "in_queue t P_PACKET_NO_ACK = []")
    case False
    then show ?thesis using u(2) grow by (simp add: read_result_ok_def in_queue_def)
  next
    case True
    show ?thesis
    proof (cases "pending s = []")
      case False
      then show ?thesis using t(4) u(2) True by (simp add: read_result_ok_def)
    next
      case nil: True
      then have "pending t = []" using st by (simp add: session_step_def)
      then have "outstanding t = []" using True by (simp add: outstanding_def stream_def packets_def)
      then have "in_queue s P_PACKET_NO_ACK = []" using t(3) by (simp add: conserved_def outstanding_def)
      with nil that show ?thesis by simp
    qed
  qed
  moreover have "length (pending u) + length (in_queue u P_PACKET_NO_ACK) \<le> length (pending s) + length (in_queue s P_PACKET_NO_ACK)"
    using u(2) grow by (simp add: read_result_ok_def in_queue_def)
  ultimately show ?thesis
    using u(2) t(3) by (simp add: read_result_ok_def conserved_def to_read_def)
qed

text \<open>A program that calls \<open>read_serial_packet\<close> again and again.\<close>

fun poll :: "nat \<Rightarrow> serial_source \<Rightarrow> (serial_source \<times> mem list) option" where
  "poll 0 s = Some (s, [])" |
  "poll (Suc n) s = do {
     (s, r) \<leftarrow> read_serial_packet s;
     (s, ps) \<leftarrow> poll n s;
     Some (s, received r @ ps) }"

lemma poll_refines:
  assumes "good s" "non_blocking s" "to_read s \<le> n"
  shows "\<exists>s'. poll n s = Some (s', outstanding s) \<and> good s' \<and> line s' = due_line s \<and> pending s' = [] \<and>
    in_queue s' P_PACKET_NO_ACK = [] \<and> acks s' = acks s"
  using assms
proof (induction n arbitrary: s)
  case 0
  then show ?case by (simp add: outstanding_def stream_def packets_def due_line_def to_read_def)
next
  case (Suc n)
  obtain t r where t: "read_serial_packet s = Some (t, r) \<and> good t \<and> non_blocking t \<and>
    outstanding s = received r @ outstanding t \<and> acks t = acks s \<and> due_line t = due_line s \<and>
    to_read t \<le> to_read s \<and> (to_read s \<noteq> 0 \<longrightarrow> to_read t < to_read s)"
    using read_serial_packet_refines [OF Suc.prems(1,2)] by (elim exE) (rule that)
  then have small: "to_read t \<le> n" using Suc.prems(3) by (cases "to_read s = 0") auto
  have gt: "good t" "non_blocking t" using t by simp_all
  obtain u where u: "poll n t = Some (u, outstanding t) \<and> good u \<and> line u = due_line t \<and> pending u = [] \<and>
      in_queue u P_PACKET_NO_ACK = [] \<and> acks u = acks t"
    using Suc.IH [OF gt small] by (elim exE) (rule that)
  show ?case using t u by (intro exI [of _ u]) simp
qed

section \<open>What a source writes\<close>

lemma acks_nonempty:
  assumes "\<forall>a \<in> set (in_queue s P_ACK). a \<noteq> []"
  shows "\<forall>a \<in> set (acks s). a \<noteq> []"
proof -
  have "frame_payload f \<noteq> []" if "f \<in> set (stream s)" "proto f = P_ACK" for f
  proof -
    have "2 \<le> length f" using that(1) rx_frames_fit unfolding stream_def by blast
    then show ?thesis
      using that(2) by (auto simp: frame_payload_def proto_def P_ACK_def P_PACKET_NO_ACK_def split: if_splits)
  qed
  with assms show ?thesis unfolding acks_def by fastforce
qed

lemma no_input_pending: "\<not> has_input s \<Longrightarrow> pending s = []"
  by (simp add: has_input_def pending_def input_def min.coboundedI2)

lemma patient_wait:
  assumes "patient s" "source_inv s" "\<not> fst (time_left d (0, 0)) < 0"
  shows "source_wait (Some d) s = Some (s, has_input s)"
  using assms
  by (auto simp: source_wait_def has_input_def source_wait_loop.simps [of "Some d" s] os_time_def os_select_def patient_def source_inv_def)

lemma pop_ack:
  assumes "good s" "pop_protocol_packet P_ACK s = (t, Some e)"
  shows "good t \<and> patient t = patient s \<and> stream t = stream s \<and> line t = line s \<and> seqno t = seqno s \<and>
    acks s = take (pe_len e) (pe_packet e) # acks t \<and> await_size t < await_size s"
proof -
  have inv: "source_inv s" "quiet s" "clean s" using assms(1) by (simp_all add: good_def)
  note p = pop_spec [OF inv(1) assms(2)]
  obtain es where t: "t = s\<lparr>rqueue := (rqueue s)(P_ACK := es)\<rparr>" "rqueue s P_ACK = e # es"
    using assms(2) by (auto simp: pop_protocol_packet_def split: list.splits)
  have st: "stream t = stream s" using p t(1) by (simp add: stream_def rx_of_def)
  have "acks s = take (pe_len e) (pe_packet e) # acks t"
    using t(2) by (simp only: acks_def in_queue_def st) (simp add: t(1))
  moreover have "good t" using inv p t(1) by (simp add: good_def session_step_def quiet_def clean_def)
  ultimately show ?thesis using st t p by (simp add: patient_def await_size_def)
qed

text \<open>The wait for an acknowledgement succeeds if and only if one with the right number arrives.\<close>

lemma await_ack_refines:
  assumes "good s" "patient s" "\<forall>a \<in> set (acks s). a \<noteq> []" "\<not> fst (time_left d (0, 0)) < 0"
  shows "\<exists>s'. await_ack d s = Some (s', if seqno s \<in> hd ` set (acks s) then 0 else 1) \<and> good s' \<and>
    due_line s' = due_line s \<and> (\<exists>k. stream s' = drop k (stream s)) \<and> patient s' \<and> set (acks s') \<subseteq> set (acks s)"
  using assms(1-3)
proof (induction "2 * await_size s + (if has_input s then 0 else 1)" arbitrary: s rule: less_induct)
  case less
  have inv: "source_inv s" using less.prems by (simp add: good_def)
  obtain s1 where s1: "read_and_process True s = Some s1" "good s1" "conserved s s1"
      "stream s = [] \<longrightarrow> pending s1 = []" "stream s \<noteq> [] \<longrightarrow> stream s1 = tl (stream s)" "patient s1 = patient s"
    using read_and_process_refines [OF less.prems(1)] by blast
  have tot: "session_step s s1"
      "has_input s \<longrightarrow> length (pending s1) + length (os_reads (script s1)) < length (pending s) + length (os_reads (script s))"
    using read_and_process_total [OF inv] s1(1) by auto
  have seq: "seqno s1 = seqno s" and inv1: "source_inv s1" using tot(1) by (simp_all add: session_step_def)
  have size1: "await_size s1 \<le> await_size s" "has_input s \<longrightarrow> await_size s1 < await_size s"
    using await_size_mono [OF tot(1)] await_size_less [OF tot(1)] tot(2) by blast+
  have str1: "\<exists>k. stream s1 = drop k (stream s)"
  proof (cases "stream s = []")
    case True
    then show ?thesis using s1(4) by (simp add: stream_def)
  next
    case False
    then have "stream s1 = drop 1 (stream s)" using s1(5) by (simp add: drop_Suc)
    then show ?thesis by blast
  qed
  have ack1: "acks s1 = acks s" "due_line s1 = due_line s" using s1(3) by (simp_all add: conserved_def)
  obtain s2 r where s2: "pop_protocol_packet P_ACK s1 = (s2, r)" by (cases "pop_protocol_packet P_ACK s1")
  show ?case
  proof (cases r)
    case (Some e)
    note p = pop_ack [OF s1(2), of s2 e]
    have e: "acks s = take (pe_len e) (pe_packet e) # acks s2" "take (pe_len e) (pe_packet e) \<noteq> []"
      using p s2 Some ack1(1) less.prems(3) by auto
    define b where "b = hd (take (pe_len e) (pe_packet e))"
    have b: "rd (pe_packet e) 0 = Some b" using e(2) by (auto simp: rd_def b_def hd_conv_nth)
    have heads: "hd ` set (acks s) = insert b (hd ` set (acks s2))" by (simp add: e(1) b_def)
    have k2: "seqno s2 = seqno s" "good s2" "patient s2" "stream s2 = stream s1" "line s2 = line s1"
      using p s2 Some s1(6) less.prems(2) seq by auto
    show ?thesis
    proof (cases "b = seqno s2")
      case True
      then have "await_ack d s = Some (s2, 0)"
        using s1(1) s2 Some b by (subst await_ack.simps) simp
      with True k2 heads str1 ack1(2) e(1) show ?thesis by (auto simp: due_line_def)
    next
      case False
      then have run: "await_ack d s = await_ack d s2"
        using s1(1) s2 Some b by (subst await_ack.simps) simp
      have "2 * await_size s2 + (if has_input s2 then 0 else 1) < 2 * await_size s + (if has_input s then 0 else 1)"
        using size1(1) p s2 Some by auto
      from less.hyps [OF this k2(2,3)] obtain v where v: "await_ack d s2 = Some (v, if seqno s2 \<in> hd ` set (acks s2) then 0 else 1)"
          "good v" "due_line v = due_line s2" "\<exists>k. stream v = drop k (stream s2)" "patient v" "set (acks v) \<subseteq> set (acks s2)"
        using less.prems(3) e(1) by auto
      have "due_line v = due_line s" using v(3) k2 ack1(2) by (simp add: due_line_def)
      moreover have "\<exists>k. stream v = drop k (stream s)" using v(4) str1 k2(4) by (metis drop_drop)
      moreover have "seqno s2 \<in> hd ` set (acks s2) \<longleftrightarrow> seqno s \<in> hd ` set (acks s)"
        using False heads k2(1) by auto
      ultimately show ?thesis using run v(1,2,5,6) e(1) by auto
    qed
  next
    case None
    then have eq: "s2 = s1" "rqueue s1 P_ACK = []" using pop_spec [OF inv1 s2] by auto
    have w: "source_wait (Some d) s1 = Some (s1, has_input s1)"
      using patient_wait inv1 s1(6) less.prems(2) assms(4) by simp
    show ?thesis
    proof (cases "has_input s1")
      case True
      then have run: "await_ack d s = await_ack d s1"
        using s1(1) s2 None eq w by (subst await_ack.simps) simp
      have "2 * await_size s1 + (if has_input s1 then 0 else 1) < 2 * await_size s + (if has_input s then 0 else 1)"
        using size1 True by (cases "has_input s") auto
      from less.hyps [OF this s1(2)] obtain v where v: "await_ack d s1 = Some (v, if seqno s1 \<in> hd ` set (acks s1) then 0 else 1)"
          "good v" "due_line v = due_line s1" "\<exists>k. stream v = drop k (stream s1)" "patient v" "set (acks v) \<subseteq> set (acks s1)"
        using less.prems(2,3) s1(6) ack1(1) by auto
      have "\<exists>k. stream v = drop k (stream s)" using v(4) str1 by (metis drop_drop)
      with run v seq ack1 show ?thesis by simp
    next
      case False
      then have "pending s1 = []" using no_input_pending by blast
      then have "acks s1 = []" using eq(2) by (simp add: acks_def in_queue_def stream_def)
      moreover have "await_ack d s = Some (s1, 1)"
        using s1(1) s2 None eq w False by (subst await_ack.simps) simp
      ultimately show ?thesis using s1(2,6) ack1 str1 less.prems(2) by simp
    qed
  qed
qed

lemma okeep_refines:
  assumes "okeep s t" "good s" "quiet t"
  shows "good t \<and> stream t = stream s \<and> in_queue t = in_queue s \<and> acks t = acks s \<and> patient t = patient s \<and> seqno t = seqno s"
proof -
  note k = okeep_fields [OF assms(1)]
  have "stream t = stream s" using k by (simp add: stream_def rx_of_def pending_def input_def)
  moreover have "in_queue t = in_queue s" using k by (simp add: in_queue_def fun_eq_iff)
  moreover have "good t" using assms okeep_inv [OF assms(1)] k by (simp add: good_def clean_def)
  ultimately show ?thesis using k patient_kept assms(1) by (simp add: acks_def)
qed

lemma write_serial_packet_refines:
  assumes "good s" "patient s" "\<forall>a \<in> set (in_queue s P_ACK). a \<noteq> []" "len \<le> length packet" "len < 2 ^ 30 - 5"
  shows "\<exists>s'. write_serial_packet packet len s =
      Some (s', if seqno s + 1 \<in> hd ` set (acks s) then 0 else 1) \<and> good s' \<and>
    due_line s' = line s @ frame (P_PACKET_ACK # (seqno s + 1) # take len packet) @ concat (map reply (stream s)) \<and>
    (\<exists>k. stream s' = drop k (stream s)) \<and> patient s' \<and> set (acks s') \<subseteq> set (acks s)"
proof -
  let ?s = "s\<lparr>seqno := seqno s + 1\<rparr>"
  have s0: "good ?s" "quiet ?s" "patient ?s" "stream ?s = stream s" "in_queue ?s = in_queue s" "acks ?s = acks s"
    using assms(1,2)
    by (auto simp: good_def source_inv_def quiet_def clean_def patient_def stream_def rx_of_def pending_def input_def
        in_queue_def acks_def)
  have len: "2 * len + 10 < 2 ^ 31" using assms(5) by simp
  obtain t where t: "write_framed_packet P_PACKET_ACK (seqno s + 1) packet len ?s = Some (t, 0)" "okeep ?s t" "quiet t"
      "line t = line ?s @ frame (P_PACKET_ACK # (seqno s + 1) # take len packet)"
    by (rule quiet_write [OF s0(2) assms(4) len])
  note kt = okeep_refines [OF t(2) s0(1) t(3)]
  have time: "os_time t = (t, 0, 0)" using kt s0(3) by (simp add: os_time_def patient_def)
  let ?d = "add_timeval (0, 0) ACK_TIMEOUT"
  have d: "\<not> fst (time_left ?d (0, 0)) < 0" by (simp add: add_timeval_def ACK_TIMEOUT_def time_left_def Let_def)
  have gt: "good t" "patient t" using kt s0(3) by simp_all
  have ne: "\<forall>a \<in> set (acks t). a \<noteq> []"
    by (rule acks_nonempty) (use kt s0(5) assms(3) in simp)
  obtain u where u: "await_ack ?d t = Some (u, if seqno t \<in> hd ` set (acks t) then 0 else 1) \<and> good u \<and>
    due_line u = due_line t \<and> (\<exists>k. stream u = drop k (stream t)) \<and> patient u \<and> set (acks u) \<subseteq> set (acks t)"
    using await_ack_refines [OF gt ne d] by (elim exE) (rule that)
  have "write_serial_packet packet len s = Some (u, if seqno s + 1 \<in> hd ` set (acks s) then 0 else 1)"
    using t(1) time u kt s0(6) by (simp add: write_serial_packet_def)
  moreover have "due_line u = line s @ frame (P_PACKET_ACK # (seqno s + 1) # take len packet) @ concat (map reply (stream s))"
    using u t(4) kt s0(4) by (simp add: due_line_def)
  ultimately show ?thesis using u kt s0(4,6) by (intro exI [of _ u]) simp
qed

section \<open>Properties\<close>

text \<open>The calls of a program that uses a source: reading, and writing packets.\<close>

datatype serial_op = ReadPacket | WritePacket mem

fun run_op :: "serial_op \<Rightarrow> serial_source \<Rightarrow> serial_source option" where
  "run_op ReadPacket s = do { (s, r) \<leftarrow> read_serial_packet s; Some s }" |
  "run_op (WritePacket p) s = do { (s, r) \<leftarrow> write_serial_packet p (length p) s; Some s }"

fun run_ops :: "serial_op list \<Rightarrow> serial_source \<Rightarrow> serial_source option" where
  "run_ops [] s = Some s" |
  "run_ops (op # ops) s = do { s \<leftarrow> run_op op s; run_ops ops s }"

fun serial_op_ok :: "serial_op \<Rightarrow> bool" where
  "serial_op_ok ReadPacket = True" |
  "serial_op_ok (WritePacket p) = (length p < 2 ^ 30 - 5)"

lemma run_op_total:
  assumes "source_inv s" "non_blocking s" "serial_op_ok op"
  shows "\<exists>s'. run_op op s = Some s' \<and> source_inv s' \<and> non_blocking s'"
proof (cases op)
  case ReadPacket
  obtain s' p where "read_serial_packet s = Some (s', p)" "session_step s s'"
    using read_serial_packet_total [OF assms(1,2)] by blast
  with ReadPacket assms(2) show ?thesis by (simp add: session_step_def)
next
  case (WritePacket p)
  then obtain s' r where "write_serial_packet p (length p) s = Some (s', r)" "source_inv s'" "non_blocking s' = non_blocking s"
    using write_serial_packet_total [OF assms(1), of "length p" p] assms(3) by auto
  with WritePacket assms(2) show ?thesis by simp
qed

text \<open>C6: Every session on a serial line that does not block, and whose input and errors come to an end,
  returns and stays in its buffers.  From a new source on, the system gives any finite sequences of
  answers to \<open>read\<close> (any bytes, empty reads, any errors), \<open>write\<close>, \<open>select\<close>, \<open>fcntl\<close>, \<open>malloc\<close> and
  \<open>gettimeofday\<close>; behind them \<open>read\<close> answers \<open>EAGAIN\<close>, a wait for an acknowledgement runs into its
  timeout, and the other calls succeed.  Then in whatever order packets (of less than \<open>2 ^ 30 - 5\<close>
  bytes) are read and written, every call returns: no access leaves the receive buffers, the block of
  the escaper or a packet, and the invariant of the source holds at the end.  (That the errors of \<open>read\<close>
  come to an end is needed: with an error other than \<open>EAGAIN\<close> that stays, the reader does not return,
  \<open>persistent_error_endless\<close>.)\<close>

theorem serial_sessions_safe:
  assumes "list_all serial_op_ok ops" "os_read_end os = ReadErr EAGAIN"
  shows "\<exists>s'. run_ops ops (new_source True callback os) = Some s' \<and> source_inv s'"
proof -
  have "\<exists>s'. run_ops ops s = Some s' \<and> source_inv s'" if "source_inv s" "non_blocking s" for s
    using assms(1) that
  proof (induction ops arbitrary: s)
    case (Cons op ops)
    then show ?case using run_op_total [of s op] by auto
  qed simp
  moreover have "non_blocking (new_source True callback os)" by (simp add: new_source_def)
  ultimately show ?thesis using new_source_inv assms(2) by blast
qed

definition no_script :: os_script where
  "no_script = \<lparr>os_reads = [], os_read_end = ReadErr EAGAIN, os_writes = [], os_selects = [], os_fcntls = [], os_mallocs = [], os_times = []\<rparr>"

text \<open>A line that fails in the middle of a frame, and no memory for the second packet.\<close>

lemma serial_sessions_safe_witness:
  "\<exists>s'. run_ops [ReadPacket, WritePacket [1, 126], ReadPacket, WritePacket []]
     (new_source True True (no_script\<lparr>os_reads := [ReadBytes [126, 68, 125], ReadErr EINTR, ReadBytes [], ReadErr EOTHER, ReadBytes [126]],
        os_writes := [Wrote 2, WriteErr EOTHER], os_mallocs := [True, False]\<rparr>)) = Some s' \<and> source_inv s'"
  by (rule serial_sessions_safe) (simp_all add: no_script_def)

text \<open>C10: The reader implements the abstract receiver.  On a source that does not block, with the bytes
  cut into pieces in any way, memory granted and writes taken, calling \<open>read_serial_packet\<close> often enough
  returns exactly the data packets that were queued and those the abstract receiver accepts from the
  bytes, in their order, and puts one acknowledgement on the line for each packet that asks for it.\<close>

theorem reader_refines_receiver:
  assumes "good s" "non_blocking s" "to_read s \<le> n"
  shows "\<exists>s'. poll n s = Some (s', in_queue s P_PACKET_NO_ACK @ packets (rx_frames (rx_of s) (pending s))) \<and>
    line s' = line s @ concat (map reply (rx_frames (rx_of s) (pending s)))"
  using poll_refines [OF assms] by (auto simp: outstanding_def stream_def due_line_def)

definition split_frame :: serial_source where
  "split_frame = new_source True False (no_script\<lparr>os_reads :=
     [ReadBytes (take 3 (frame [68, 9, 1, 126])), ReadBytes (drop 3 (frame [68, 9, 1, 126]))]\<rparr>)"

lemma split_frame_facts:
  "good split_frame" "non_blocking split_frame" "rx_of split_frame = (False, False, [])"
  "pending split_frame = frame [68, 9, 1, 126]" "in_queue split_frame ty = []" "line split_frame = []"
proof -
  have "length (frame [68, 9, 1, 126]) \<ge> 5"
    by (simp add: frame_def with_crc_def esc_def)
  moreover have "source_inv split_frame" by (simp add: split_frame_def new_source_inv no_script_def)
  ultimately show "good split_frame"
    by (auto simp: good_def) (auto simp: split_frame_def quiet_def clean_def no_script_def new_source_def)
qed (simp_all add: split_frame_def new_source_def rx_of_def pending_def input_def no_script_def in_queue_def)

lemma reader_refines_receiver_witness:
  "\<exists>s'. poll (length (frame [68, 9, 1, 126])) split_frame = Some (s', [[1, 126]]) \<and> line s' = frame [67, 9]"
proof -
  have "rx_frames (False, False, []) (frame [68, 9, 1, 126]) = [[68, 9, 1, 126]]"
    by (rule rx_frame_between [THEN conjunct1]) (simp_all add: frame_fits_def MTU_def between_def)
  then show ?thesis
    using reader_refines_receiver [of split_frame "length (frame [68, 9, 1, 126])"] split_frame_facts
    by (simp add: to_read_def packets_def proto_def frame_payload_def reply_def P_PACKET_ACK_def P_ACK_def)
qed

text \<open>C35: Noise costs at most one frame.  On a line that does not block, with memory granted and no
  errors, whatever the reader has seen before and whatever bytes arrive,
  if they are followed by frames that fit the buffer, all packets but the first of them are returned,
  in their order.\<close>

theorem noise_costs_one_frame:
  assumes "good s" "non_blocking s" "to_read s \<le> n"
    and "pending s = noise @ frame f @ concat (map frame fs)" and "\<forall>f \<in> set fs. frame_fits f"
  shows "\<exists>s' before. poll n s = Some (s', before @ packets fs)"
proof -
  obtain pre where "rx_frames (rx_of s) (pending s) = pre @ fs"
    using noise_then_frames [OF assms(5), of "rx_of s" noise f] assms(4) by auto
  then have "outstanding s = (in_queue s P_PACKET_NO_ACK @ packets pre) @ packets fs"
    by (simp add: outstanding_def stream_def packets_def)
  with poll_refines [OF assms(1-3)] show ?thesis by metis
qed

definition noisy :: serial_source where
  "noisy = new_source True False (no_script\<lparr>os_reads :=
     [ReadBytes ([126, 1, 125] @ frame [69, 5] @ frame [69, 6, 7])]\<rparr>)"

lemma noise_costs_one_frame_witness:
  "\<exists>s' before. poll (to_read noisy) noisy = Some (s', before @ [[6, 7]])"
proof -
  have g: "good noisy" "non_blocking noisy"
    by (simp_all add: good_def noisy_def new_source_inv quiet_def clean_def no_script_def)
      (simp_all add: new_source_def)
  have p: "pending noisy = [126, 1, 125] @ frame [69, 5] @ concat (map frame [[69, 6, 7]])"
    by (simp add: noisy_def new_source_def pending_def input_def)
  have "packets [[69, 6, 7]] = [[6, 7]]"
    by (simp add: packets_def proto_def frame_payload_def P_PACKET_ACK_def P_PACKET_NO_ACK_def)
  then show ?thesis
    using noise_costs_one_frame [OF g order_refl p] by (simp add: frame_fits_def MTU_def)
qed

text \<open>C5: Acknowledged delivery.  Two sources are connected: each receives what the other puts on the
  line.  Both are between frames, have memory and a line without errors, and the reader does not
  block; no acknowledgement waits at the writer and no packet at the reader.  Then writing a packet of up to 251 bytes succeeds with result 0 on one end, the other end
  returns exactly that packet, and nothing else is on the line than the frame of the packet in one
  direction and its acknowledgement in the other.\<close>

theorem acknowledged_delivery:
  assumes a: "good a" "patient a" "in_queue a P_ACK = []" "between (rx_of a)"
    and b: "good b" "non_blocking b" "in_queue b P_PACKET_NO_ACK = []" "between (rx_of b)" "to_read b \<le> n"
    and p: "length p \<le> 251"
    and wires: "pending b = frame (P_PACKET_ACK # (seqno a + 1) # p)" "pending a = frame [P_ACK, seqno a + 1]"
  shows "\<exists>a' b'. write_serial_packet p (length p) a = Some (a', 0) \<and> line a' = line a @ pending b \<and>
    poll n b = Some (b', [p]) \<and> line b' = line b @ pending a"
proof -
  let ?f = "P_PACKET_ACK # (seqno a + 1) # p" and ?g = "[P_ACK, seqno a + 1]"
  have fit: "frame_fits ?f" "frame_fits ?g" using p by (simp_all add: frame_fits_def MTU_def)
  have types: "P_ACK \<noteq> P_PACKET_ACK" "P_PACKET_NO_ACK \<noteq> P_ACK" "P_PACKET_ACK \<noteq> P_ACK" "P_PACKET_NO_ACK \<noteq> P_PACKET_ACK"
    by (simp_all add: P_ACK_def P_PACKET_ACK_def P_PACKET_NO_ACK_def)
  have sa: "stream a = [?g]" and sb: "stream b = [?f]"
    using rx_frame_between [OF fit(2) a(4)] rx_frame_between [OF fit(1) b(4)] wires by (simp_all add: stream_def)
  have "acks a = [[seqno a + 1]]" using a(3) sa types by (simp add: acks_def proto_def frame_payload_def)
  moreover have "length p < 2 ^ 30 - 5" using p by simp
  ultimately obtain a' k where a': "write_serial_packet p (length p) a = Some (a', 0)"
      "due_line a' = line a @ pending b" "stream a' = drop k (stream a)"
    using write_serial_packet_refines [OF a(1,2), of "length p" p] a(3) sa types wires(1)
    by (auto simp: reply_def)
  have "concat (map reply (stream a')) = []"
    using a'(3) sa types by (cases k) (auto simp: reply_def)
  then have "line a' = line a @ pending b" using a'(2) by (simp only: due_line_def append_Nil2)
  moreover have "outstanding b = [p]" "due_line b = line b @ pending a"
    using b(3) sb types wires(2) by (simp_all add: outstanding_def packets_def due_line_def proto_def frame_payload_def reply_def)
  ultimately show ?thesis using a'(1) poll_refines [OF b(1,2,5)] by metis
qed

definition sender :: serial_source where
  "sender = new_source False False (no_script\<lparr>os_reads := [ReadBytes (frame [P_ACK, 38])]\<rparr>)"

definition receiver :: serial_source where
  "receiver = new_source True False (no_script\<lparr>os_reads := [ReadBytes (frame [P_PACKET_ACK, 38, 10, 20])]\<rparr>)"

lemma frame_nonempty [simp]: "frame f \<noteq> []"
  by (simp add: frame_def)

lemma acknowledged_delivery_witness:
  "\<exists>a' b'. write_serial_packet [10, 20] 2 sender = Some (a', 0) \<and> line a' = frame [P_PACKET_ACK, 38, 10, 20] \<and>
    poll (length (frame [P_PACKET_ACK, 38, 10, 20])) receiver = Some (b', [[10, 20]]) \<and> line b' = frame [P_ACK, 38]"
proof -
  have g: "good sender" "patient sender" "good receiver"
    by (simp_all add: good_def sender_def receiver_def new_source_inv quiet_def clean_def patient_def no_script_def)
      (simp_all add: new_source_def)
  have f: "in_queue sender P_ACK = []" "between (rx_of sender)" "non_blocking receiver" "in_queue receiver P_PACKET_NO_ACK = []"
      "between (rx_of receiver)" "to_read receiver \<le> length (frame [P_PACKET_ACK, 38, 10, 20])" "seqno sender = 37"
      "pending receiver = frame [P_PACKET_ACK, 38, 10, 20]" "pending sender = frame [P_ACK, 38]" "line sender = []" "line receiver = []"
    by (simp_all add: sender_def receiver_def new_source_def in_queue_def between_def rx_of_def to_read_def pending_def input_def)
  show ?thesis
    using acknowledged_delivery [OF g(1,2) f(1,2) g(3) f(3-6), of "[10, 20]"] f(7-11) by (simp add: numeral_2_eq_2)
qed

end
