(* ===== verification/Sf_Source.thy ===== *)
theory Sf_Source
  imports Backip_Prelude
begin

text \<open>
  Packets over a stream socket (\<open>sfsource.c\<close>): reads and writes that go on until all bytes are
  transferred, the exchange of versions, and packets behind a length byte.  The socket is what
  \<open>read\<close> and \<open>write\<close> answer in turn, then a line that is at its end and takes everything; opening it
  is left out.
\<close>


section \<open>The socket\<close>

text \<open>\<open>SockEof\<close> is a count of 0; an error is \<open>-1\<close> with \<open>EINTR\<close> or another number.\<close>

datatype sock_in = SockBytes mem | SockEof | SockIntr | SockErr
datatype sock_out = SockTook nat | SockBusy | SockFail

record sock =
  sk_in :: "sock_in list"
  sk_out :: "sock_out list"
  sk_sent :: mem

section \<open>Transfers\<close>

text \<open>The loop of \<open>saferead\<close>: the answers to come, the bytes wanted, and those already read; the result
  is the count, or \<open>-1\<close>.  What a read does not take stays for the next one.\<close>

function saferead_loop :: "sock_in list \<Rightarrow> nat \<Rightarrow> mem \<Rightarrow> sock_in list \<times> int \<times> mem" where
  "saferead_loop ins count got =
     (if count = 0 then (ins, int (length got), got)
      else case ins of
        [] \<Rightarrow> (ins, int (length got), got)
      | SockIntr # r \<Rightarrow> saferead_loop r count got
      | SockErr # r \<Rightarrow> (r, -1, got)
      | SockEof # r \<Rightarrow> (r, int (length got), got)
      | SockBytes bs # r \<Rightarrow>
          if bs = [] then (r, int (length got), got)
          else if count < length bs then
            saferead_loop (SockBytes (drop count bs) # r) 0 (got @ take count bs)
          else saferead_loop r (count - length bs) (got @ bs))"
  by pat_completeness auto
termination
  by (relation "measure (\<lambda>(ins, count, got). length ins + count)") auto

definition saferead :: "nat \<Rightarrow> sock \<Rightarrow> sock \<times> int \<times> mem" where
  "saferead count s = (case saferead_loop (sk_in s) count [] of (ins, n, got) \<Rightarrow> (s\<lparr>sk_in := ins\<rparr>, n, got))"

fun safewrite_loop :: "sock_out list \<Rightarrow> mem \<Rightarrow> int \<Rightarrow> mem \<Rightarrow> sock_out list \<times> int \<times> mem" where
  "safewrite_loop outs [] actual sent = (outs, actual, sent)" |
  "safewrite_loop [] (b # bs) actual sent = ([], actual + int (length (b # bs)), sent @ b # bs)" |
  "safewrite_loop (SockBusy # r) (b # bs) actual sent = safewrite_loop r (b # bs) actual sent" |
  "safewrite_loop (SockFail # r) (b # bs) actual sent = (r, -1, sent)" |
  "safewrite_loop (SockTook n # r) (b # bs) actual sent =
     safewrite_loop r (drop n (b # bs)) (actual + int (length (take n (b # bs)))) (sent @ take n (b # bs))"

definition safewrite :: "mem \<Rightarrow> sock \<Rightarrow> sock \<times> int" where
  "safewrite bs s =
     (case safewrite_loop (sk_out s) bs 0 (sk_sent s) of (outs, n, sent) \<Rightarrow> (s\<lparr>sk_out := outs, sk_sent := sent\<rparr>, n))"

section \<open>The protocol\<close>

text \<open>Characters are signed: the comparison of versions is one of signed bytes.\<close>

definition init_sf_source :: "sock \<Rightarrow> sock \<times> int" where
  "init_sf_source s =
     (case safewrite [0x55, 0x20] s of (s, n) \<Rightarrow>
        if n \<noteq> 2 then (s, -1)
        else case saferead 2 s of (s, n, check) \<Rightarrow>
          if n \<noteq> 2 then (s, -1)
          else if check ! 0 \<noteq> 0x55 then (s, -1)
          else let version = sint (check ! 1);
                   version = (if sint (0x20 :: u8) < version then sint (0x20 :: u8) else version)
               in if version = sint (0x20 :: u8) then (s, 0) else (s, -1))"

text \<open>Whether \<open>malloc\<close> succeeds is a parameter.  The result is the block and the length.\<close>

definition read_sf_packet :: "bool \<Rightarrow> sock \<Rightarrow> sock \<times> (mem \<times> nat) option" where
  "read_sf_packet ok s =
     (case saferead 1 s of (s, n, l) \<Rightarrow>
        if n \<noteq> 1 then (s, None)
        else if \<not> ok then (s, None)
        else case saferead (unat (l ! 0)) s of (s, n, packet) \<Rightarrow>
          if n \<noteq> int (unat (l ! 0)) then (s, None) else (s, Some (packet, unat (l ! 0))))"

text \<open>The length is cut to a byte; \<^term>\<open>None\<close> when the packet is shorter than it says.\<close>

definition write_sf_packet :: "mem \<Rightarrow> nat \<Rightarrow> sock \<Rightarrow> (sock \<times> int) option" where
  "write_sf_packet packet len s =
     (let l = word_of_nat len :: u8 in
      case safewrite [l] s of (s, n) \<Rightarrow>
        if n \<noteq> 1 then Some (s, -1)
        else do {
          bs \<leftarrow> rdn packet 0 (unat l);
          case safewrite bs s of (s, n) \<Rightarrow> Some (s, if n \<noteq> int (unat l) then -1 else 0) })"

section \<open>Transfers are complete\<close>

declare saferead_loop.simps [simp del]

fun in_bytes :: "sock_in list \<Rightarrow> mem" where
  "in_bytes [] = []" |
  "in_bytes (SockBytes bs # r) = bs @ in_bytes r" |
  "in_bytes (q # r) = in_bytes r"

text \<open>The input is bytes in pieces, with interruptions.\<close>

fun open_in :: "sock_in list \<Rightarrow> bool" where
  "open_in [] = True" |
  "open_in (SockBytes bs # r) \<longleftrightarrow> bs \<noteq> [] \<and> open_in r" |
  "open_in (SockIntr # r) = open_in r" |
  "open_in (q # r) = False"

definition open_out :: "sock \<Rightarrow> bool" where
  "open_out s \<longleftrightarrow> SockFail \<notin> set (sk_out s)"

lemma saferead_loop_spec:
  "open_in ins \<Longrightarrow> count \<le> length (in_bytes ins) \<Longrightarrow>
   \<exists>r. saferead_loop ins count got = (r, int (length got + count), got @ take count (in_bytes ins)) \<and>
     open_in r \<and> in_bytes r = drop count (in_bytes ins)"
proof (induction ins count got rule: saferead_loop.induct)
  case (1 ins count got)
  show ?case
  proof (cases "count = 0")
    case True
    then show ?thesis using "1.prems"(1) by (subst saferead_loop.simps) simp
  next
    case False
    then obtain q r where ins: "ins = q # r" using "1.prems"(2) by (cases ins) auto
    show ?thesis
    proof (cases q)
      case (SockBytes bs)
      then have bs: "bs \<noteq> []" "open_in r" using "1.prems"(1) ins by auto
      show ?thesis
      proof (cases "count < length bs")
        case True
        then show ?thesis
          using False ins SockBytes bs "1.prems" saferead_loop.simps [of _ 0]
          by (subst saferead_loop.simps) simp
      next
        case long: False
        then have "count - length bs \<le> length (in_bytes r)" using "1.prems"(2) ins SockBytes by simp
        then obtain t where "saferead_loop r (count - length bs) (got @ bs) =
            (t, int (length (got @ bs) + (count - length bs)), (got @ bs) @ take (count - length bs) (in_bytes r))"
            "open_in t" "in_bytes t = drop (count - length bs) (in_bytes r)"
          using "1.IH"(2) False ins SockBytes bs long by auto
        then show ?thesis using False ins SockBytes bs long by (subst saferead_loop.simps) simp
      qed
    next
      case SockIntr
      then show ?thesis
        using "1.IH"(3) "1.prems" False ins by (subst saferead_loop.simps) simp
    qed (use "1.prems"(1) ins in auto)
  qed
qed

lemma saferead_spec:
  assumes "open_in (sk_in s)" "count \<le> length (in_bytes (sk_in s))"
  obtains s' where "saferead count s = (s', int count, take count (in_bytes (sk_in s)))"
    and "open_in (sk_in s')" and "in_bytes (sk_in s') = drop count (in_bytes (sk_in s))"
    and "sk_out s' = sk_out s" and "sk_sent s' = sk_sent s"
  using saferead_loop_spec [OF assms, of "[]"] by (auto simp: saferead_def)

lemma safewrite_loop_spec:
  "SockFail \<notin> set outs \<Longrightarrow>
   \<exists>r. safewrite_loop outs bs n sent = (r, n + int (length bs), sent @ bs) \<and> SockFail \<notin> set r"
proof (induction outs bs n sent rule: safewrite_loop.induct)
  case (5 k r b bs actual sent)
  then show ?case by (auto simp flip: of_nat_add simp: add.assoc)
qed auto

lemma safewrite_spec:
  assumes "open_out s"
  obtains s' where "safewrite bs s = (s', int (length bs))" and "open_out s'" and "sk_sent s' = sk_sent s @ bs"
    and "sk_in s' = sk_in s"
  using safewrite_loop_spec [of "sk_out s" bs 0 "sk_sent s"] assms by (auto simp: safewrite_def open_out_def)

section \<open>Packets\<close>

definition sf_frame :: "mem \<Rightarrow> mem" where
  "sf_frame p = word_of_nat (length p) # p"

lemma write_sf_packet_spec:
  assumes "open_out s" "length p < 256"
  obtains s' where "write_sf_packet p (length p) s = Some (s', 0)" and "open_out s'"
    and "sk_sent s' = sk_sent s @ sf_frame p" and "sk_in s' = sk_in s"
proof -
  have len: "unat (word_of_nat (length p) :: u8) = length p"
    using assms(2) by (simp add: unat_of_nat)
  obtain s1 where s1: "safewrite [word_of_nat (length p)] s = (s1, 1)" "open_out s1"
      "sk_sent s1 = sk_sent s @ [word_of_nat (length p)]" "sk_in s1 = sk_in s"
    using safewrite_spec [OF assms(1), of "[word_of_nat (length p)]"] by auto
  obtain s2 where s2: "safewrite p s1 = (s2, int (length p))" "open_out s2" "sk_sent s2 = sk_sent s1 @ p" "sk_in s2 = sk_in s1"
    by (rule safewrite_spec [OF s1(2)])
  have "write_sf_packet p (length p) s = Some (s2, 0)"
    using s1(1) s2(1) by (simp add: write_sf_packet_def len rdn_def)
  then show thesis by (rule that) (use s1 s2 in \<open>simp_all add: sf_frame_def\<close>)
qed

lemma read_sf_packet_spec:
  assumes "open_in (sk_in s)" "in_bytes (sk_in s) = sf_frame p @ rest" "length p < 256"
  obtains s' where "read_sf_packet True s = (s', Some (p, length p))" and "open_in (sk_in s')"
    and "in_bytes (sk_in s') = rest"
proof -
  have len: "unat (word_of_nat (length p) :: u8) = length p"
    using assms(3) by (simp add: unat_of_nat)
  obtain s1 where s1: "saferead 1 s = (s1, 1, [word_of_nat (length p)])" "open_in (sk_in s1)" "in_bytes (sk_in s1) = p @ rest"
    using saferead_spec [OF assms(1), of 1] assms(2) by (auto simp: sf_frame_def)
  obtain s2 where s2: "saferead (length p) s1 = (s2, int (length p), p)" "open_in (sk_in s2)" "in_bytes (sk_in s2) = rest"
    using saferead_spec [OF s1(2), of "length p"] s1(3) by auto
  have "read_sf_packet True s = (s2, Some (p, length p))"
    using s1(1) s2(1) len by (simp add: read_sf_packet_def uint_nat del: of_nat_unat)
  with s2 show thesis by (intro that)
qed

text \<open>Programs that write and read one packet after the other.\<close>

fun write_packets :: "mem list \<Rightarrow> sock \<Rightarrow> (sock \<times> int list) option" where
  "write_packets [] s = Some (s, [])" |
  "write_packets (p # ps) s = do {
     (s, r) \<leftarrow> write_sf_packet p (length p) s;
     (s, rs) \<leftarrow> write_packets ps s;
     Some (s, r # rs) }"

fun read_packets :: "nat \<Rightarrow> sock \<Rightarrow> sock \<times> (mem \<times> nat) option list" where
  "read_packets 0 s = (s, [])" |
  "read_packets (Suc n) s =
     (case read_sf_packet True s of (s, r) \<Rightarrow>
        (case read_packets n s of (s, rs) \<Rightarrow> (s, r # rs)))"

lemma write_packets_spec:
  "open_out s \<Longrightarrow> \<forall>p \<in> set ps. length p < 256 \<Longrightarrow>
   \<exists>s'. write_packets ps s = Some (s', replicate (length ps) 0) \<and> open_out s' \<and>
     sk_sent s' = sk_sent s @ concat (map sf_frame ps) \<and> sk_in s' = sk_in s"
proof (induction ps arbitrary: s)
  case (Cons p ps)
  obtain s1 where s1: "write_sf_packet p (length p) s = Some (s1, 0)" "open_out s1"
      "sk_sent s1 = sk_sent s @ sf_frame p" "sk_in s1 = sk_in s"
    using write_sf_packet_spec [OF Cons.prems(1), of p] Cons.prems(2) by auto
  with Cons.IH [of s1] Cons.prems(2) show ?case by auto
qed simp

lemma read_packets_spec:
  "open_in (sk_in s) \<Longrightarrow> in_bytes (sk_in s) = concat (map sf_frame ps) @ rest \<Longrightarrow> \<forall>p \<in> set ps. length p < 256 \<Longrightarrow>
   \<exists>s'. read_packets (length ps) s = (s', map (\<lambda>p. Some (p, length p)) ps) \<and> in_bytes (sk_in s') = rest"
proof (induction ps arbitrary: s)
  case (Cons p ps)
  obtain s1 where s1: "read_sf_packet True s = (s1, Some (p, length p))" "open_in (sk_in s1)"
      "in_bytes (sk_in s1) = concat (map sf_frame ps) @ rest"
    using read_sf_packet_spec [OF Cons.prems(1), of p "concat (map sf_frame ps) @ rest"] Cons.prems(2,3) by auto
  with Cons.IH [of s1] Cons.prems(3) show ?case by auto
qed simp

text \<open>The exchange of versions: what the code accepts is a \<open>U\<close> and any version whose signed character
  is not below the space.\<close>

lemma init_sf_source_result:
  assumes "open_out s" "open_in (sk_in s)" "in_bytes (sk_in s) = c # v # rest"
  obtains s' where "init_sf_source s = (s', if c = 0x55 \<and> 0x20 \<le> sint v then 0 else -1)"
    and "sk_sent s' = sk_sent s @ [0x55, 0x20]" and "open_out s'" and "open_in (sk_in s')" and "in_bytes (sk_in s') = rest"
proof -
  obtain s1 where s1: "safewrite [0x55, 0x20] s = (s1, 2)" "open_out s1" "sk_sent s1 = sk_sent s @ [0x55, 0x20]" "sk_in s1 = sk_in s"
    using safewrite_spec [OF assms(1), of "[0x55, 0x20]"] by auto
  obtain s2 where s2: "saferead 2 s1 = (s2, 2, [c, v])" "open_in (sk_in s2)" "in_bytes (sk_in s2) = rest"
      "sk_out s2 = sk_out s1" "sk_sent s2 = sk_sent s1"
    using saferead_spec [of s1 2] assms(2,3) s1(4) by (auto simp: take_Cons' drop_Cons')
  have "init_sf_source s = (s2, if c = 0x55 \<and> 0x20 \<le> sint v then 0 else -1)"
    using s1(1) s2(1) by (simp add: init_sf_source_def Let_def)
  then show thesis by (rule that) (use s1 s2 in \<open>simp_all add: open_out_def\<close>)
qed

text \<open>A packet longer than a length byte can say is cut, and the write reports success.\<close>

lemma long_packet_cut:
  assumes "open_out s" "length p = len" "256 \<le> len"
  obtains s' where "write_sf_packet p len s = Some (s', 0)"
    and "sk_sent s' = sk_sent s @ sf_frame (take (len mod 256) p)"
proof -
  have len: "unat (word_of_nat len :: u8) = len mod 256" by (simp add: unat_of_nat)
  have "len mod 256 < 256" by simp
  then have small: "len mod 256 \<le> length p" using assms(2,3) by linarith
  have n: "length (take (len mod 256) p) = len mod 256" using small by simp
  have w: "(word_of_nat len :: u8) = word_of_nat (length (take (len mod 256) p))"
    by (simp only: n word_unat_eq_iff unat_of_nat) simp
  obtain s1 where s1: "safewrite [word_of_nat len] s = (s1, 1)" "open_out s1" "sk_sent s1 = sk_sent s @ [word_of_nat len]"
    using safewrite_spec [OF assms(1), of "[word_of_nat len]"] by auto
  obtain s2 where s2: "safewrite (take (len mod 256) p) s1 = (s2, int (len mod 256))" "sk_sent s2 = sk_sent s1 @ take (len mod 256) p"
    using safewrite_spec [OF s1(2), of "take (len mod 256) p"] n by metis
  have "write_sf_packet p len s = Some (s2, 0)"
    using s1(1) s2(1) small by (simp add: write_sf_packet_def len rdn_def)
  then show thesis by (rule that) (use s1 s2 w in \<open>simp_all add: sf_frame_def\<close>)
qed

section \<open>Property\<close>

text \<open>C37: Two ends of a socket agree on the protocol and on the packets.  However the transfers are cut
  into pieces and interrupted (but never failing), if the reader receives what the writer sends, the exchange of versions
  succeeds on both ends, every write of a packet of up to 255 bytes succeeds, and the reader gets the
  packets with their lengths in their order.\<close>

theorem sf_packets_roundtrip:
  assumes "open_out a" "open_in (sk_in a)" "sk_sent a = []" "in_bytes (sk_in a) = [0x55, 0x20]"
    and "open_out b" "open_in (sk_in b)"
    and "in_bytes (sk_in b) = [0x55, 0x20] @ concat (map sf_frame ps)" and "\<forall>p \<in> set ps. length p < 256"
  shows "\<exists>a1 a2 b1 b2. init_sf_source a = (a1, 0) \<and> write_packets ps a1 = Some (a2, replicate (length ps) 0) \<and>
    sk_sent a2 = in_bytes (sk_in b) \<and> init_sf_source b = (b1, 0) \<and>
    read_packets (length ps) b1 = (b2, map (\<lambda>p. Some (p, length p)) ps)"
proof -
  have v: "(0x20 :: int) \<le> sint (0x20 :: u8)" by simp
  obtain a1 where a1: "init_sf_source a = (a1, 0)" "sk_sent a1 = [0x55, 0x20]" "open_out a1"
    using init_sf_source_result [OF assms(1,2), of "0x55" "0x20" "[]"] assms(3,4) v by auto
  obtain b1 where b1: "init_sf_source b = (b1, 0)" "open_in (sk_in b1)" "in_bytes (sk_in b1) = concat (map sf_frame ps)"
    using init_sf_source_result [OF assms(5,6), of "0x55" "0x20"] assms(7) v by auto
  obtain a2 where a2: "write_packets ps a1 = Some (a2, replicate (length ps) 0)" "sk_sent a2 = in_bytes (sk_in b)"
    using write_packets_spec [OF a1(3) assms(8)] a1(2) assms(7) by auto
  obtain b2 where "read_packets (length ps) b1 = (b2, map (\<lambda>p. Some (p, length p)) ps)"
    using read_packets_spec [OF b1(2), of ps "[]"] b1(3) assms(8) by auto
  with a1 a2 b1 show ?thesis by blast
qed

lemma sf_packets_roundtrip_witness:
  "\<exists>a1 a2 b1 b2. init_sf_source \<lparr>sk_in = [SockBytes [0x55], SockBytes [0x20]], sk_out = [SockTook 1, SockBusy], sk_sent = []\<rparr> = (a1, 0) \<and>
    write_packets [[7, 8], []] a1 = Some (a2, [0, 0]) \<and> sk_sent a2 = [0x55, 0x20, 2, 7, 8, 0] \<and>
    init_sf_source \<lparr>sk_in = [SockBytes [0x55, 0x20, 2], SockIntr, SockBytes [7, 8, 0]], sk_out = [], sk_sent = []\<rparr> = (b1, 0) \<and>
    read_packets 2 b1 = (b2, [Some ([7, 8], 2), Some ([], 0)])"
  using sf_packets_roundtrip
    [of "\<lparr>sk_in = [SockBytes [0x55], SockBytes [0x20]], sk_out = [SockTook 1, SockBusy], sk_sent = []\<rparr>"
        "\<lparr>sk_in = [SockBytes [0x55, 0x20, 2], SockIntr, SockBytes [7, 8, 0]], sk_out = [], sk_sent = []\<rparr>" "[[7, 8], []]"]
  by (simp add: open_out_def sf_frame_def numeral_2_eq_2)

end
