(* ===== verification/Ip_Text.thy ===== *)
theory Ip_Text
  imports Ieee154
begin

text \<open>
  The text form of IPv6 addresses and the address helpers of \<open>utility.c\<close>: \<open>inet_pton6\<close>,
  \<open>inet_ntop6\<close>, \<open>ieee154_hashaddr\<close> and \<open>ip_memcpy\<close>.

  A string is a zero-terminated run of bytes of a memory, \<open>char\<close> is signed and \<open>int\<close> has 32 bits.  A
  pointer before the first byte of its object and a shift of an \<open>int\<close> out of its range are undefined.
\<close>

definition CHAR_COLON :: u8 where "CHAR_COLON = 58"

definition TO_CHAR :: "u16 \<Rightarrow> u8" where
  "TO_CHAR x = (if x < 10 then 48 + ucast x else 97 + (ucast x - 10))"

definition CHAR_VAL :: "u8 \<Rightarrow> int" where
  "CHAR_VAL c =
     (if 48 \<le> sint c \<and> sint c \<le> 57 then sint c - 48
      else if 65 \<le> sint c \<and> sint c \<le> 70 then sint c - 65 + 10
      else sint c - 97 + 10)"

section \<open>Reading an address\<close>

text \<open>The first loop.  The result is the address with the place of the second colon of a \<open>::\<close> (or the
  end of an empty string), or without a place when the function returns from the loop.  \<open>block\<close> never
  exceeds a byte, as the access to the address fails before.\<close>

function pton_front :: "mem \<Rightarrow> nat \<Rightarrow> u16 \<Rightarrow> nat \<Rightarrow> mem \<Rightarrow> (mem \<times> nat option) option" where
  "pton_front m p cur block dest =
     (if p \<ge> length m then None
      else let c = m ! p in
        if c = 0 then Some (dest, Some p)
        else do {
          (cur, block, dest) \<leftarrow>
            (if c \<noteq> CHAR_COLON then Some (push_bit 4 cur OR word_of_int (CHAR_VAL c), block, dest)
             else do { d \<leftarrow> wr16 dest (2 * block) (htons cur); Some (0, block + 1, d) });
          n \<leftarrow> rd m (p + 1);
          if n = 0 then do { d \<leftarrow> wr16 dest (2 * block) (htons cur); Some (d, None) }
          else if c = CHAR_COLON \<and> n = CHAR_COLON then Some (dest, Some (p + 1))
          else pton_front m (p + 1) cur block dest })"
  by pat_completeness auto
termination
  by (relation "measure (\<lambda>(m, p, cur, block, dest). length m - p)") auto

function str_end :: "mem \<Rightarrow> nat \<Rightarrow> nat option" where
  "str_end m p =
     (if p \<ge> length m then None else if m ! p = 0 then Some p else str_end m (p + 1))"
  by pat_completeness auto
termination
  by (relation "measure (\<lambda>(m, p). length m - p)") auto

text \<open>The second loop, which fills the address from its end.\<close>

definition shl_int :: "int \<Rightarrow> nat \<Rightarrow> int option" where
  "shl_int v n = (if 0 \<le> v \<and> n < 32 \<and> v * 2 ^ n < 2 ^ 31 then Some (v * 2 ^ n) else None)"

function pton_back :: "mem \<Rightarrow> nat \<Rightarrow> nat \<Rightarrow> u16 \<Rightarrow> nat \<Rightarrow> u8 \<Rightarrow> mem \<Rightarrow> mem option" where
  "pton_back m addr p cur shift block dest =
     (if p \<le> addr then Some dest
      else do {
        c \<leftarrow> rd m p;
        (cur, shift, block, dest) \<leftarrow>
          (if c \<noteq> CHAR_COLON then do {
             v \<leftarrow> shl_int (CHAR_VAL c) shift;
             Some (cur OR word_of_int v, shift + 4, block, dest) }
           else do { d \<leftarrow> wr16 dest (2 * unat block) (htons cur); Some (0, 0, block - 1, d) });
        n \<leftarrow> rd m (p - 1);
        if c = CHAR_COLON \<and> n = CHAR_COLON then Some dest
        else pton_back m addr (p - 1) cur shift block dest })"
  by pat_completeness auto
termination
  by (relation "measure (\<lambda>(m, addr, p, cur, shift, block, dest). p)") auto

declare pton_front.simps [simp del] str_end.simps [simp del] pton_back.simps [simp del]

definition pton_parse :: "mem \<Rightarrow> nat \<Rightarrow> mem \<Rightarrow> mem option" where
  "pton_parse m addr dest = do {
     (dest, hit) \<leftarrow> pton_front m addr 0 0 dest;
     case hit of None \<Rightarrow> Some dest
     | Some p \<Rightarrow> do {
         p \<leftarrow> str_end m p;
         if p = 0 then None else pton_back m addr (p - 1) 0 0 7 dest } }"

text \<open>A null pointer in either argument leaves the address as it is.\<close>

definition inet_pton6 :: "mem \<Rightarrow> nat option \<Rightarrow> mem option \<Rightarrow> mem option option" where
  "inet_pton6 m addr dest =
     (case (addr, dest) of
        (Some a, Some d) \<Rightarrow> do {
          d \<leftarrow> wrn d 0 (replicate 16 0);
          d \<leftarrow> pton_parse m a d;
          Some (Some d) }
      | _ \<Rightarrow> Some dest)"

section \<open>Printing an address\<close>

fun ntop_digits :: "nat list \<Rightarrow> nat \<Rightarrow> u16 \<Rightarrow> mem \<Rightarrow> nat \<Rightarrow> (mem \<times> nat) option" where
  "ntop_digits [] compressed block m buf = Some (m, buf)" |
  "ntop_digits (i # is) compressed block m buf =
     (if drop_bit i 0xffff < block \<or> (compressed = 2 \<and> i = 16)
      then do {
        m \<leftarrow> wr m buf (TO_CHAR (drop_bit (16 - i) block AND 0xf));
        ntop_digits is compressed block m (buf + 1) }
      else ntop_digits is compressed block m buf)"

definition ntop_group :: "in6_addr \<Rightarrow> nat \<Rightarrow> nat \<Rightarrow> mem \<Rightarrow> nat \<Rightarrow> (nat \<times> mem \<times> nat) option" where
  "ntop_group addr j compressed m buf = do {
     (m, buf) \<leftarrow> ntop_digits [4, 8, 12, 16] compressed (ntohs (s6_addr16 addr j)) m buf;
     (compressed, m, buf) \<leftarrow>
       (if s6_addr16 addr j = 0 \<and> compressed = 0 then do { m \<leftarrow> wr m buf CHAR_COLON; Some (1, m, buf + 1) }
        else Some (compressed, m, buf));
     let compressed = (if s6_addr16 addr j \<noteq> 0 \<and> compressed = 1 then 2 else compressed);
     (m, buf) \<leftarrow>
       (if j < 7 \<and> compressed \<noteq> 1 then do { m \<leftarrow> wr m buf CHAR_COLON; Some (m, buf + 1) }
        else Some (m, buf));
     Some (compressed, m, buf) }"

text \<open>The loop leaves at \<open>done\<close> when fewer than eight bytes are left (\<open>buf > end - 8\<close>).\<close>

fun ntop_loop :: "in6_addr \<Rightarrow> nat list \<Rightarrow> nat \<Rightarrow> nat \<Rightarrow> mem \<Rightarrow> nat \<Rightarrow> (mem \<times> nat) option" where
  "ntop_loop addr [] end compressed m buf =
     (if compressed = 1 then do { m \<leftarrow> wr m buf CHAR_COLON; Some (m, buf + 1) } else Some (m, buf))" |
  "ntop_loop addr (j # js) end compressed m buf =
     (if end < buf + 8 then Some (m, buf)
      else do {
        (compressed, m, buf) \<leftarrow> ntop_group addr j compressed m buf;
        ntop_loop addr js end compressed m buf })"

definition inet_ntop6 :: "in6_addr \<Rightarrow> mem \<Rightarrow> nat \<Rightarrow> nat \<Rightarrow> (mem \<times> nat) option" where
  "inet_ntop6 addr m buf cnt = do {
     (m, p) \<leftarrow> ntop_loop addr [0..<8] (buf + cnt) 0 m buf;
     m \<leftarrow> wr m p 0;
     Some (m, p + 1 - buf) }"

section \<open>Other helpers\<close>

fun sum_words :: "nat \<Rightarrow> mem \<Rightarrow> nat \<Rightarrow> u16 \<Rightarrow> u16 option" where
  "sum_words 0 d p hash = Some hash" |
  "sum_words (Suc n) d p hash = do { w \<leftarrow> rd16 d p; sum_words n d (p + 2) (hash + w) }"

definition ieee154_hashaddr :: "ieee154_addr \<Rightarrow> u16 option" where
  "ieee154_hashaddr addr =
     (if ieee_mode addr = IEEE154_ADDR_SHORT then Some (i_saddr addr)
      else if ieee_mode addr = IEEE154_ADDR_EXT then sum_words 4 (ieee_addr addr) 0 0
      else Some 0)"

text \<open>\<open>ip_memcpy\<close> inside one memory; the result is \<open>dst0\<close>.\<close>

fun memcpy_loop :: "nat \<Rightarrow> mem \<Rightarrow> nat \<Rightarrow> nat \<Rightarrow> mem option" where
  "memcpy_loop 0 m dst src = Some m" |
  "memcpy_loop (Suc len) m dst src =
     do { b \<leftarrow> rd m src; m \<leftarrow> wr m dst b; memcpy_loop len m (dst + 1) (src + 1) }"

definition ip_memcpy :: "mem \<Rightarrow> nat \<Rightarrow> nat \<Rightarrow> u16 \<Rightarrow> (mem \<times> nat) option" where
  "ip_memcpy m dst0 src0 len = do { m \<leftarrow> memcpy_loop (unat len) m dst0 src0; Some (m, dst0) }"

section \<open>The text that is printed\<close>

definition hex_digits :: "nat \<Rightarrow> u16 \<Rightarrow> u8 list" where
  "hex_digits c g = map (\<lambda>i. TO_CHAR (drop_bit (16 - i) g AND 0xf))
     (filter (\<lambda>i. drop_bit i 0xffff < g \<or> (c = 2 \<and> i = 16)) [4, 8, 12, 16])"

definition next_state :: "nat \<Rightarrow> u16 \<Rightarrow> nat" where
  "next_state c g = (if g = 0 \<and> c = 0 then 1 else if g \<noteq> 0 \<and> c = 1 then 2 else c)"

definition group_text :: "bool \<Rightarrow> nat \<Rightarrow> u16 \<Rightarrow> u8 list" where
  "group_text fin c g = hex_digits c g @ (if g = 0 \<and> c = 0 then [CHAR_COLON] else []) @
     (if \<not> fin \<and> next_state c g \<noteq> 1 then [CHAR_COLON] else [])"

fun addr_text :: "nat \<Rightarrow> u16 list \<Rightarrow> u8 list" where
  "addr_text c [] = (if c = 1 then [CHAR_COLON] else [])" |
  "addr_text c (g # gs) = group_text (gs = []) c g @ addr_text (next_state c g) gs"

definition groups :: "in6_addr \<Rightarrow> nat \<Rightarrow> u16 list" where
  "groups a j = map (\<lambda>k. ntohs (s6_addr16 a k)) [j..<8]"

lemma ntop_digits_put:
  "buf + length is \<le> length m \<Longrightarrow> ntop_digits is c g m buf =
     Some (put m buf (map (\<lambda>i. TO_CHAR (drop_bit (16 - i) g AND 0xf)) (filter (\<lambda>i. drop_bit i 0xffff < g \<or> (c = 2 \<and> i = 16)) is)),
       buf + length (filter (\<lambda>i. drop_bit i 0xffff < g \<or> (c = 2 \<and> i = 16)) is))"
proof (induction "is" arbitrary: m buf)
  case (Cons i "is")
  let ?p = "\<lambda>i. drop_bit i 0xffff < g \<or> (c = 2 \<and> i = 16)" and ?ch = "\<lambda>i. TO_CHAR (drop_bit (16 - i) g AND 0xf)"
  have l: "length (filter ?p is) \<le> length is" by simp
  show ?case
  proof (cases "?p i")
    case True
    have "put m buf (?ch i # map ?ch (filter ?p is)) = put (m[buf := ?ch i]) (Suc buf) (map ?ch (filter ?p is))"
    proof (rule put_Cons)
      show "buf + length (?ch i # map ?ch (filter ?p is)) \<le> length m"
        unfolding length_Cons length_map using l Cons.prems [unfolded length_Cons] by linarith
    qed
    with True Cons.prems Cons.IH [of "buf + 1" "m[buf := ?ch i]"] show ?thesis
      by (simp only: ntop_digits.simps filter.simps if_True list.map list.size wr_Some) simp
  next
    case False
    with Cons.prems Cons.IH [of buf m] show ?thesis
      by (simp only: ntop_digits.simps filter.simps if_False list.size)
  qed
qed simp

declare ntop_digits.simps [simp del]

lemma length_hex_digits: "length (hex_digits c g) \<le> 4"
  by (simp add: hex_digits_def)

lemma ntop_digits_hex:
  "buf + 4 \<le> length m \<Longrightarrow> ntop_digits [4, 8, 12, 16] c g m buf = Some (put m buf (hex_digits c g), buf + length (hex_digits c g))"
  using ntop_digits_put [of buf "[4, 8, 12, 16]" m c g] by (simp only: hex_digits_def length_map list.size)

lemma wr_after: "p = buf + length xs \<Longrightarrow> buf + length xs < length m \<Longrightarrow> wr (put m buf xs) p b = Some (put m buf (xs @ [b]))"
  by (simp add: wr_Some put_put [of _ _ "[b]", symmetric] put_single)

lemma htons_0_iff [simp]: "htons x = 0 \<longleftrightarrow> x = 0"
  by (metis htons_htons le16_eq_0 htons_le16 le16_lo8_hi8)

lemma ntop_group_put:
  assumes "buf + 6 \<le> length m"
  shows "ntop_group a j c m buf =
    Some (next_state c (ntohs (s6_addr16 a j)), put m buf (group_text (\<not> j < 7) c (ntohs (s6_addr16 a j))),
      buf + length (group_text (\<not> j < 7) c (ntohs (s6_addr16 a j))))"
proof -
  define w where "w = s6_addr16 a j"
  have l: "length (hex_digits k v) \<le> 4" for k v by (rule length_hex_digits)
  have l2: "buf + length (hex_digits k v) + 2 \<le> length m" for k v using l [of k v] assms by simp
  have d: "ntop_digits [4, 8, 12, 16] k v m buf =
      Some (put m buf (hex_digits k v), buf + length (hex_digits k v))" for k v
    using assms by (intro ntop_digits_hex) simp
  show ?thesis
    using l2 [of c "ntohs w"] unfolding ntop_group_def w_def [symmetric]
    by (cases "w = 0"; cases "c = 0"; cases "c = 1"; cases "j < 7")
      (simp_all add: d wr_after group_text_def next_state_def)
qed

lemma length_group_text: "length (group_text l c g) \<le> 5"
  using length_hex_digits [of c g] by (auto simp: group_text_def next_state_def hex_digits_def)

lemma groups_Cons: "j < 8 \<Longrightarrow> groups a j = ntohs (s6_addr16 a j) # groups a (Suc j)"
  by (simp add: groups_def upt_conv_Cons)

lemma groups_8 [simp]: "groups a 8 = []"
  by (simp add: groups_def)

lemma groups_eq_Nil [simp]: "groups a j = [] \<longleftrightarrow> 8 \<le> j"
  by (simp add: groups_def)

lemma put_put_at: "q = p + length xs \<Longrightarrow> p + length xs + length ys \<le> length m \<Longrightarrow>
    put (put m p xs) q ys = put m p (xs @ ys)"
  by (simp add: put_put)

text \<open>With enough room the loop prints the text of all groups; with any room it stays inside.\<close>

lemma ntop_loop_text:
  "j \<le> 8 \<Longrightarrow> buf + 5 * (8 - j) + 3 \<le> end \<Longrightarrow> end \<le> length m \<Longrightarrow>
   ntop_loop a [j..<8] end c m buf =
     Some (put m buf (addr_text c (groups a j)), buf + length (addr_text c (groups a j))) \<and>
   length (addr_text c (groups a j)) \<le> 5 * (8 - j) + 1"
proof (induction "8 - j" arbitrary: j c m buf)
  case 0
  then show ?case by (auto simp: wr_Some put_single)
next
  case (Suc n)
  let ?g = "ntohs (s6_addr16 a j)" and ?t = "group_text (\<not> j < 7) c (ntohs (s6_addr16 a j))"
  have len: "length ?t \<le> 5" by (rule length_group_text)
  have j: "j < 8" "n = 8 - Suc j" using Suc by auto
  have lst: "(groups a (Suc j) = []) = (\<not> j < 7)" by auto
  have step: "ntop_group a j c m buf = Some (next_state c ?g, put m buf ?t, buf + length ?t)"
    using Suc.prems j by (intro ntop_group_put) auto
  have more: "5 * (8 - j) = 5 + 5 * (8 - Suc j)" using j by simp
  then have buf: "\<not> end < buf + 8" using Suc.prems by simp
  have room: "buf + length ?t + 5 * (8 - Suc j) + 3 \<le> end" using Suc.prems j len by auto
  have "length (put m buf ?t) = length m" using room Suc.prems by simp
  then have ih: "ntop_loop a [Suc j..<8] end (next_state c ?g) (put m buf ?t) (buf + length ?t) =
      Some (put (put m buf ?t) (buf + length ?t) (addr_text (next_state c ?g) (groups a (Suc j))),
        buf + length ?t + length (addr_text (next_state c ?g) (groups a (Suc j)))) \<and>
      length (addr_text (next_state c ?g) (groups a (Suc j))) \<le> 5 * (8 - Suc j) + 1"
    using Suc.hyps(1) [OF j(2), of "buf + length ?t" "put m buf ?t" "next_state c ?g"] room Suc.prems j by simp
  have full: "addr_text c (groups a j) = ?t @ addr_text (next_state c ?g) (groups a (Suc j))"
    using groups_Cons [OF j(1), of a] lst by simp
  show ?case
    using ih step j(1) len room buf Suc.prems(3)
    by (simp add: full upt_conv_Cons put_put more split del: if_split)
qed

lemma ntop_loop_inside:
  "buf + 1 \<le> end \<Longrightarrow> (js = [] \<Longrightarrow> buf + 2 \<le> end) \<Longrightarrow> end \<le> length m \<Longrightarrow>
   \<exists>t. ntop_loop a js end c m buf = Some (put m buf t, buf + length t) \<and> buf + length t + 1 \<le> end"
proof (induction js arbitrary: c m buf)
  case Nil
  then show ?case
    by (cases "c = 1") (auto simp: wr_Some put_single intro: exI [of _ "[CHAR_COLON]"] exI [of _ "[]"])
next
  case (Cons j js)
  let ?g = "ntohs (s6_addr16 a j)" and ?t = "group_text (\<not> j < 7) c (ntohs (s6_addr16 a j))"
  have len: "length ?t \<le> 5" by (rule length_group_text)
  show ?case
  proof (cases "end < buf + 8")
    case True
    with Cons.prems show ?thesis by (intro exI [of _ "[]"]) simp
  next
    case False
    then have step: "ntop_group a j c m buf = Some (next_state c ?g, put m buf ?t, buf + length ?t)"
      using Cons.prems by (intro ntop_group_put) auto
    obtain t where t: "ntop_loop a js end (next_state c ?g) (put m buf ?t) (buf + length ?t) =
        Some (put (put m buf ?t) (buf + length ?t) t, buf + length ?t + length t)"
        "buf + length ?t + length t + 1 \<le> end"
      using Cons.IH [of "buf + length ?t" "put m buf ?t" "next_state c ?g"] False Cons.prems len by auto
    with step False Cons.prems show ?thesis by (intro exI [of _ "?t @ t"]) (simp add: put_put add.assoc)
  qed
qed

lemma inet_ntop6_text:
  assumes "43 \<le> cnt" "buf + cnt \<le> length m"
  shows "inet_ntop6 a m buf cnt =
    Some (put m buf (addr_text 0 (groups a 0) @ [0]), length (addr_text 0 (groups a 0)) + 1) \<and>
    length (addr_text 0 (groups a 0)) + 1 \<le> cnt"
  using ntop_loop_text [of 0 buf "buf + cnt" m a 0] assms
  by (auto simp: inet_ntop6_def wr_after)

section \<open>Digits and their value\<close>

definition digit_val :: "u8 \<Rightarrow> u16" where
  "digit_val c = word_of_int (CHAR_VAL c)"

definition hex_char :: "u8 \<Rightarrow> bool" where
  "hex_char c \<longleftrightarrow> c \<noteq> 0 \<and> c \<noteq> CHAR_COLON \<and> 0 \<le> CHAR_VAL c \<and> CHAR_VAL c < 16"

definition hex_val :: "u8 list \<Rightarrow> u16" where
  "hex_val ds = foldl (\<lambda>cur c. push_bit 4 cur OR digit_val c) 0 ds"

lemma hex_val_simps [simp]: "hex_val [] = 0" "hex_val (ds @ [c]) = push_bit 4 (hex_val ds) OR digit_val c"
  by (simp_all add: hex_val_def)

lemma to_char_small:
  "\<forall>k \<in> set [0..<16]. hex_char (TO_CHAR (word_of_nat k)) \<and> digit_val (TO_CHAR (word_of_nat k)) = word_of_nat k"
  by code_simp

lemma to_char_nibble: "hex_char (TO_CHAR (x AND 0xf)) \<and> digit_val (TO_CHAR (x AND 0xf)) = x AND 0xf"
proof -
  have "x AND 0xf \<le> 15" by (simp add: word_and_le1)
  then have "unat (x AND 0xf) \<in> set [0..<16]" by (simp add: word_le_nat_alt)
  from bspec [OF to_char_small this] show ?thesis by simp
qed

lemma hex_char_digits: "c \<in> set (hex_digits k g) \<Longrightarrow> hex_char c"
  using to_char_nibble by (auto simp: hex_digits_def)

lemma append_nibble: "push_bit 4 (drop_bit (k + 4) g) OR (drop_bit k g AND 0xf) = (drop_bit k g :: u16)"
proof -
  have "push_bit 4 (drop_bit (k + 4) g) OR (drop_bit k g AND mask 4) = drop_bit k g"
    by (rule bit_word_eqI) (auto simp: bit_simps)
  then show ?thesis by (simp add: mask_eq_exp_minus_1)
qed

lemma leading_zero: "k \<in> {4, 8, 12, 16} \<Longrightarrow> drop_bit k 0xffff < g \<longleftrightarrow> drop_bit (16 - k) (g :: u16) \<noteq> 0"
proof -
  have z: "(drop_bit n g = 0) = (unat g < 2 ^ n)" for n
    by (simp only: word_unat_eq_iff unat_drop_bit_eq unat_0) (simp add: drop_bit_eq_div div_eq_0_iff)
  have "(0xfff < g) = (\<not> unat g < 2 ^ 12)" "(0xff < g) = (\<not> unat g < 2 ^ 8)"
    "(0xf < g) = (\<not> unat g < 2 ^ 4)" "(0 < g) = (\<not> unat g < 2 ^ 0)"
    by (simp_all only: word_less_nat_alt) (simp_all, linarith+)
  then show "k \<in> {4, 8, 12, 16} \<Longrightarrow> ?thesis"
    unfolding z by (elim insertE) simp_all
qed

lemma hex_val_snoc_if:
  assumes "k \<in> {4, 8, 12, 16}" "n = 16 - k" "hex_val xs = drop_bit (n + 4) g" "drop_bit k 0xffff < g \<Longrightarrow> b"
  shows "hex_val (xs @ (if b then [TO_CHAR (drop_bit n g AND 0xf)] else [])) = drop_bit n g"
proof (cases b)
  case True
  then show ?thesis using append_nibble [of n g] assms(3) to_char_nibble [of "drop_bit n g"] by simp
next
  case False
  then have z: "drop_bit n g = 0" using leading_zero [OF assms(1), of g] assms(2,4) by blast
  have "drop_bit (n + 4) g = drop_bit 4 (drop_bit n g)" by (simp add: add.commute)
  then show ?thesis using False z assms(3) by simp
qed

lemma hex_val_digits: "hex_val (hex_digits c g) = g"
proof -
  let ?p = "\<lambda>i. drop_bit i 0xffff < g \<or> (c = 2 \<and> i = 16)" and ?ch = "\<lambda>n. TO_CHAR (drop_bit n g AND 0xf)"
  define ds1 where "ds1 = [] @ (if ?p 4 then [?ch 12] else [])"
  define ds2 where "ds2 = ds1 @ (if ?p 8 then [?ch 8] else [])"
  define ds3 where "ds3 = ds2 @ (if ?p 12 then [?ch 4] else [])"
  define ds4 where "ds4 = ds3 @ (if ?p 16 then [?ch 0] else [])"
  have start: "drop_bit 16 g = 0"
    by (rule bit_word_eqI) (auto simp: bit_simps dest: bit_imp_le_length)
  have "hex_val ds1 = drop_bit 12 g"
    unfolding ds1_def by (rule hex_val_snoc_if [of 4]) (simp_all add: start)
  then have "hex_val ds2 = drop_bit 8 g"
    unfolding ds2_def by (intro hex_val_snoc_if [of 8]) simp_all
  then have "hex_val ds3 = drop_bit 4 g"
    unfolding ds3_def by (intro hex_val_snoc_if [of 12]) simp_all
  then have "hex_val ds4 = drop_bit 0 g"
    unfolding ds4_def by (intro hex_val_snoc_if [of 16]) simp_all
  moreover have "hex_digits c g = ds4"
    by (simp add: hex_digits_def ds1_def ds2_def ds3_def ds4_def)
  ultimately show ?thesis by simp
qed

lemma hex_digits_nonempty: "g \<noteq> 0 \<or> c = 2 \<Longrightarrow> hex_digits c g \<noteq> []"
  using leading_zero [of 16 g] by (auto simp: hex_digits_def)

lemma hex_digits_state: "g \<noteq> 0 \<Longrightarrow> hex_digits c g = hex_digits 2 g"
  using leading_zero [of 16 g] by (auto simp: hex_digits_def)

section \<open>Groups as bytes\<close>

definition group_bytes :: "u16 list \<Rightarrow> mem" where
  "group_bytes gs = concat (map (\<lambda>g. [hi8 g, lo8 g]) gs)"

lemma group_bytes_simps [simp]:
  "group_bytes [] = []" "group_bytes (g # gs) = hi8 g # lo8 g # group_bytes gs"
  "group_bytes (xs @ ys) = group_bytes xs @ group_bytes ys"
  by (simp_all add: group_bytes_def)

lemma length_group_bytes [simp]: "length (group_bytes gs) = 2 * length gs"
  by (induction gs) auto

lemma wr16_group:
  assumes "k = length xs"
  shows "wr16 (group_bytes (xs @ x # ys)) (2 * k) (htons g) = Some (group_bytes (xs @ g # ys))"
  using assms by (simp add: wr16_Some list_update_append)

lemma wr16_group_out: "length gs \<le> k \<Longrightarrow> wr16 (group_bytes gs) (2 * k) g = None"
  by (simp add: wr16_def wrn_def)

lemma bytes_of_groups: "addr_ok a \<Longrightarrow> group_bytes (groups a 0) = a"
  by (erule addr_cases) (simp add: groups_def s6_addr16_def upt_rec)

lemma zero_groups: "group_bytes (replicate n 0) = replicate (2 * n) 0"
  by (induction n) (auto simp: hi8_def lo8_def)

section \<open>Reading digits and groups\<close>

lemma pton_front_digits:
  "has_at m p (ds @ [x]) \<Longrightarrow> \<forall>c \<in> set ds. hex_char c \<Longrightarrow> x \<noteq> 0 \<Longrightarrow>
   pton_front m p cur k d =
     pton_front m (p + length ds) (foldl (\<lambda>cur c. push_bit 4 cur OR digit_val c) cur ds) k d"
proof (induction ds arbitrary: p cur)
  case (Cons c ds)
  have n: "m ! (p + 1) \<noteq> 0" "p + 1 < length m"
    using Cons.prems by (cases ds; auto simp: has_at_Cons hex_char_def)+
  have "pton_front m p cur k d = pton_front m (p + 1) (push_bit 4 cur OR digit_val c) k d"
    using Cons.prems n by (subst pton_front.simps) (simp add: has_at_Cons hex_char_def rd_Some digit_val_def)
  then show ?case using Cons.IH [of "p + 1"] Cons.prems by (simp add: has_at_Cons)
qed simp

lemma pton_front_colon:
  assumes "has_at m p [CHAR_COLON, y]" "y \<noteq> 0" "k = length xs" "d = group_bytes (xs @ x # ys)"
  shows "pton_front m p cur k d =
    (if y = CHAR_COLON then Some (group_bytes (xs @ cur # ys), Some (p + 1))
     else pton_front m (p + 1) 0 (k + 1) (group_bytes (xs @ cur # ys)))"
  using assms by (subst pton_front.simps) (simp add: has_at_Cons rd_Some wr16_group CHAR_COLON_def del: group_bytes_simps)

lemma pton_front_group:
  assumes "has_at m p (hex_digits c g @ [CHAR_COLON, y])" "y \<noteq> 0" "k = length xs" "d = group_bytes (xs @ x # ys)"
  shows "pton_front m p 0 k d =
    (if y = CHAR_COLON then Some (group_bytes (xs @ g # ys), Some (p + length (hex_digits c g) + 1))
     else pton_front m (p + length (hex_digits c g) + 1) 0 (k + 1) (group_bytes (xs @ g # ys)))"
proof -
  have "has_at m p ((hex_digits c g @ [CHAR_COLON]) @ [y])" using assms(1) by simp
  then have h: "has_at m p (hex_digits c g @ [CHAR_COLON])" by (simp only: has_at_append)
  have "pton_front m p 0 k d = pton_front m (p + length (hex_digits c g)) g k d"
    using pton_front_digits [OF h _ _, of 0 k d] hex_char_digits hex_val_digits [of c g]
    by (simp add: hex_val_def CHAR_COLON_def)
  then show ?thesis
    using pton_front_colon [of m "p + length (hex_digits c g)" y k xs d x ys g] assms
    by (simp add: has_at_append del: group_bytes_simps)
qed

text \<open>The last group, at the end of the string.\<close>

lemma pton_front_last:
  assumes "has_at m p (hex_digits c g @ [0])" "hex_digits c g \<noteq> []" "k = length xs" "d = group_bytes (xs @ x # ys)"
  shows "pton_front m p 0 k d = Some (group_bytes (xs @ g # ys), None)"
proof -
  obtain ds e where de: "hex_digits c g = ds @ [e]" using assms(2) by (metis rev_exhaust)
  have hx: "\<forall>c \<in> set ds. hex_char c" "hex_char e" using hex_char_digits [of _ c g] de by auto
  have "has_at m p ((ds @ [e]) @ [0])" using assms(1) de by simp
  then have h: "has_at m p (ds @ [e])" "has_at m (p + length ds) [e, 0]" by (simp_all add: has_at_append has_at_Cons)
  have "pton_front m p 0 k d = pton_front m (p + length ds) (hex_val ds) k d"
    using pton_front_digits [OF h(1) hx(1), of 0 k d] hx(2) by (simp add: hex_val_def hex_char_def)
  also have "\<dots> = Some (group_bytes (xs @ (push_bit 4 (hex_val ds) OR digit_val e) # ys), None)"
    using h(2) hx(2) assms(3,4)
    by (subst pton_front.simps) (simp add: has_at_Cons rd_Some wr16_group hex_char_def digit_val_def del: group_bytes_simps)
  also have "push_bit 4 (hex_val ds) OR digit_val e = g" using hex_val_digits [of c g] de by simp
  finally show ?thesis .
qed

lemma str_end_at: "has_at m p (t @ [0]) \<Longrightarrow> 0 \<notin> set t \<Longrightarrow> str_end m p = Some (p + length t)"
proof (induction t arbitrary: p)
  case Nil
  then show ?case by (subst str_end.simps) (simp add: has_at_Cons)
next
  case (Cons c t)
  then show ?case by (subst str_end.simps) (simp add: has_at_Cons)
qed

text \<open>The groups of a text without \<open>::\<close>, read from the front.\<close>

lemma addr_text_2: "addr_text 2 (g # gs) = hex_digits 2 g @ (if gs = [] then [] else CHAR_COLON # addr_text 2 gs)"
  by (auto simp: group_text_def next_state_def)

lemma addr_text_2_Nil [simp]: "addr_text 2 [] = []"
  by simp

declare addr_text.simps [simp del]

lemma hex_digits_Cons: obtains c ds where "hex_digits 2 g = c # ds" "hex_char c" "\<forall>c \<in> set ds. hex_char c"
  using hex_digits_nonempty [of g 2] hex_char_digits [of _ 2 g] by (cases "hex_digits 2 g") auto

lemma addr_text_2_Cons:
  assumes "gs \<noteq> []"
  obtains c t where "addr_text 2 gs = c # t" "hex_char c"
proof -
  obtain g gs' where gs: "gs = g # gs'" using assms by (cases gs) auto
  obtain c ds where "hex_digits 2 g = c # ds" "hex_char c" by (rule hex_digits_Cons)
  with gs show thesis using that by (simp add: addr_text_2)
qed

lemma pton_front_groups:
  "has_at m p (addr_text 2 gs @ [0]) \<Longrightarrow> gs \<noteq> [] \<Longrightarrow> k = length xs \<Longrightarrow> length zs = length gs \<Longrightarrow>
   pton_front m p 0 k (group_bytes (xs @ zs @ ys)) = Some (group_bytes (xs @ gs @ ys), None)"
proof (induction gs arbitrary: p k xs zs)
  case (Cons g gs)
  obtain z zs' where zs: "zs = z # zs'" "length zs' = length gs" using Cons.prems(4) by (cases zs) auto
  show ?case
  proof (cases "gs = []")
    case True
    then show ?thesis using pton_front_last [of m p 2 g k xs _ z ys] Cons.prems zs hex_digits_nonempty [of g 2]
      by (simp add: addr_text_2 del: group_bytes_simps)
  next
    case False
    obtain c t where t: "addr_text 2 gs = c # t" "hex_char c" using False by (rule addr_text_2_Cons)
    have all: "has_at m p ((hex_digits 2 g @ [CHAR_COLON, c]) @ t @ [0])"
      using Cons.prems(1) False t by (simp add: addr_text_2)
    then have h: "has_at m p (hex_digits 2 g @ [CHAR_COLON, c])" by (simp only: has_at_append)
    have "has_at m p ((hex_digits 2 g @ [CHAR_COLON]) @ addr_text 2 gs @ [0])"
      using all t by simp
    then have h2: "has_at m (p + length (hex_digits 2 g) + 1) (addr_text 2 gs @ [0])"
      by (subst (asm) has_at_append) simp
    have "pton_front m p 0 k (group_bytes (xs @ zs @ ys)) =
        pton_front m (p + length (hex_digits 2 g) + 1) 0 (k + 1) (group_bytes ((xs @ [g]) @ zs' @ ys))"
      using pton_front_group [OF h _ Cons.prems(3), of _ z "zs' @ ys"] t(2) zs
      by (simp add: hex_char_def del: group_bytes_simps)
    also have "\<dots> = Some (group_bytes ((xs @ [g]) @ gs @ ys), None)"
      using Cons.IH [OF h2 False, of "k + 1" "xs @ [g]" zs'] Cons.prems(3) zs by (simp del: group_bytes_simps)
    finally show ?thesis by simp
  qed
qed simp

definition prefix_text :: "u16 list \<Rightarrow> u8 list" where
  "prefix_text gs = concat (map (\<lambda>g. hex_digits 2 g @ [CHAR_COLON]) gs)"

lemma prefix_text_simps [simp]:
  "prefix_text [] = []" "prefix_text (g # gs) = hex_digits 2 g @ CHAR_COLON # prefix_text gs"
  by (simp_all add: prefix_text_def)

lemma pton_front_prefix:
  "has_at m p (prefix_text gs @ [CHAR_COLON]) \<Longrightarrow> gs \<noteq> [] \<Longrightarrow> k = length xs \<Longrightarrow> length zs = length gs \<Longrightarrow>
   pton_front m p 0 k (group_bytes (xs @ zs @ ys)) =
     Some (group_bytes (xs @ gs @ ys), Some (p + length (prefix_text gs)))"
proof (induction gs arbitrary: p k xs zs)
  case (Cons g gs)
  obtain z zs' where zs: "zs = z # zs'" "length zs' = length gs" using Cons.prems(4) by (cases zs) auto
  show ?case
  proof (cases "gs = []")
    case True
    then show ?thesis using pton_front_group [of m p 2 g CHAR_COLON k xs _ z ys] Cons.prems zs
      by (simp add: CHAR_COLON_def del: group_bytes_simps)
  next
    case False
    then obtain g' gs' where gs: "gs = g' # gs'" by (cases gs) auto
    obtain c t where t: "hex_digits 2 g' = c # t" "hex_char c" by (rule hex_digits_Cons)
    have all: "has_at m p ((hex_digits 2 g @ [CHAR_COLON, c]) @ t @ CHAR_COLON # prefix_text gs' @ [CHAR_COLON])"
      using Cons.prems(1) gs t by simp
    then have h: "has_at m p (hex_digits 2 g @ [CHAR_COLON, c])" by (simp only: has_at_append)
    have "has_at m p ((hex_digits 2 g @ [CHAR_COLON]) @ prefix_text gs @ [CHAR_COLON])"
      using Cons.prems(1) by simp
    then have h2: "has_at m (p + length (hex_digits 2 g) + 1) (prefix_text gs @ [CHAR_COLON])"
      by (subst (asm) has_at_append) simp
    have "pton_front m p 0 k (group_bytes (xs @ zs @ ys)) =
        pton_front m (p + length (hex_digits 2 g) + 1) 0 (k + 1) (group_bytes ((xs @ [g]) @ zs' @ ys))"
      using pton_front_group [OF h _ Cons.prems(3), of _ z "zs' @ ys"] t(2) zs
      by (simp add: hex_char_def del: group_bytes_simps)
    also have "\<dots> = Some (group_bytes ((xs @ [g]) @ gs @ ys), Some (p + length (hex_digits 2 g) + 1 + length (prefix_text gs)))"
      using Cons.IH [OF h2 False, of "k + 1" "xs @ [g]" zs'] Cons.prems(3) zs by (simp del: group_bytes_simps)
    finally show ?thesis by (simp add: add.commute add.left_commute)
  qed
qed simp

section \<open>Reading from the end\<close>

lemma shl_digit: "hex_char c \<Longrightarrow> k \<le> 3 \<Longrightarrow> shl_int (CHAR_VAL c) (4 * k) = Some (CHAR_VAL c * 2 ^ (4 * k))"
proof -
  assume c: "hex_char c" and k: "k \<le> 3"
  then have "(2 :: int) ^ (4 * k) \<le> 2 ^ 12" by (intro power_increasing) auto
  then have "CHAR_VAL c * 2 ^ (4 * k) \<le> 15 * 2 ^ 12"
    using c by (intro mult_mono) (auto simp: hex_char_def)
  with c k show ?thesis by (simp add: shl_int_def hex_char_def)
qed

lemma pton_back_digits:
  "has_at m q (x # ds) \<Longrightarrow> \<forall>c \<in> set ds. hex_char c \<Longrightarrow> a \<le> q \<Longrightarrow> k + length ds \<le> 4 \<Longrightarrow>
   pton_back m a (q + length ds) cur (4 * k) b d =
     pton_back m a q (cur OR push_bit (4 * k) (hex_val ds)) (4 * (k + length ds)) b d"
proof (induction ds arbitrary: cur k rule: rev_induct)
  case (snoc c ds)
  have h: "has_at m q (x # ds)" "m ! (q + length ds + 1) = c" "q + length ds + 1 < length m"
    using snoc.prems(1) has_at_append [of m q "x # ds" "[c]"] by (simp_all add: has_at_Cons)
  have c: "hex_char c" "c \<noteq> CHAR_COLON" using snoc.prems(2) by (simp_all add: hex_char_def)
  have "pton_back m a (q + length (ds @ [c])) cur (4 * k) b d =
      pton_back m a (q + length ds) (cur OR word_of_int (CHAR_VAL c * 2 ^ (4 * k))) (4 * (k + 1)) b d"
    using snoc.prems h(2,3) c shl_digit [OF c(1), of k]
    by (subst pton_back.simps) (simp add: rd_Some add.commute)
  also have "\<dots> = pton_back m a q ((cur OR word_of_int (CHAR_VAL c * 2 ^ (4 * k))) OR push_bit (4 * (k + 1)) (hex_val ds))
      (4 * (k + 1 + length ds)) b d"
    using snoc.IH [OF h(1), of "k + 1"] snoc.prems by simp
  also have "word_of_int (CHAR_VAL c * 2 ^ (4 * k)) = (push_bit (4 * k) (digit_val c) :: u16)"
    by (simp add: digit_val_def push_bit_eq_mult)
  also have "(cur OR push_bit (4 * k) (digit_val c)) OR push_bit (4 * (k + 1)) (hex_val ds) =
      cur OR push_bit (4 * k) (hex_val (ds @ [c]))"
    by (simp add: push_bit_or add.commute or.assoc or.commute or.left_commute)
  finally show ?case by (simp add: add.commute add.left_commute)
qed simp

lemma pton_back_colon:
  assumes "has_at m q [x, CHAR_COLON]" "a \<le> q" "unat b = length xs"
  shows "pton_back m a (q + 1) cur s b (group_bytes (xs @ z # ys)) =
    (if x = CHAR_COLON then Some (group_bytes (xs @ cur # ys))
     else pton_back m a q 0 0 (b - 1) (group_bytes (xs @ cur # ys)))"
  using assms by (subst pton_back.simps) (simp add: has_at_Cons rd_Some wr16_group del: group_bytes_simps)

lemma pton_back_group:
  assumes "has_at m q (x # CHAR_COLON # hex_digits 2 g)" "a \<le> q" "unat b = length xs"
  shows "pton_back m a (q + 1 + length (hex_digits 2 g)) 0 0 b (group_bytes (xs @ z # ys)) =
    (if x = CHAR_COLON then Some (group_bytes (xs @ g # ys))
     else pton_back m a q 0 0 (b - 1) (group_bytes (xs @ g # ys)))"
proof -
  have h: "has_at m (q + 1) (CHAR_COLON # hex_digits 2 g)" "has_at m q [x, CHAR_COLON]"
    using assms(1) by (auto simp: has_at_Cons dest: has_at_len)
  show ?thesis
    using pton_back_digits [OF h(1), of a 0 0 b "group_bytes (xs @ z # ys)"] hex_char_digits [of _ 2 g]
      length_hex_digits [of 2 g] assms(2) hex_val_digits [of 2 g]
      pton_back_colon [OF h(2) assms(2,3), of g _ z ys]
    by (simp del: group_bytes_simps)
qed

lemma addr_text_2_snoc: "gs \<noteq> [] \<Longrightarrow> addr_text 2 (gs @ [g]) = addr_text 2 gs @ CHAR_COLON # hex_digits 2 g"
  by (induction gs) (auto simp: addr_text_2)

lemma addr_text_2_last: "gs \<noteq> [] \<Longrightarrow> \<exists>t c. addr_text 2 gs = t @ [c] \<and> hex_char c"
proof (induction gs)
  case (Cons g gs)
  show ?case
  proof (cases "gs = []")
    case True
    obtain t c where "hex_digits 2 g = t @ [c]" using hex_digits_nonempty [of g 2] by (metis rev_exhaust)
    with True hex_char_digits [of c 2 g] show ?thesis by (simp add: addr_text_2)
  qed (use Cons in \<open>auto simp: addr_text_2 intro: exI [of _ "_ # _"] exI [of _ "_ @ _"]\<close>)
qed simp

lemma pton_back_groups:
  "has_at m q (CHAR_COLON # CHAR_COLON # addr_text 2 gs) \<Longrightarrow> gs \<noteq> [] \<Longrightarrow> a \<le> q \<Longrightarrow>
   unat b + 1 = length (xs @ zs) \<Longrightarrow> length zs = length gs \<Longrightarrow>
   pton_back m a (q + 1 + length (addr_text 2 gs)) 0 0 b (group_bytes (xs @ zs @ ys)) = Some (group_bytes (xs @ gs @ ys))"
proof (induction gs arbitrary: b zs ys rule: rev_induct)
  case (snoc g gs)
  obtain zs' z where zs: "zs = zs' @ [z]" "length zs' = length gs" using snoc.prems(5) by (cases zs rule: rev_cases) auto
  show ?case
  proof (cases "gs = []")
    case True
    then show ?thesis using pton_back_group [of m q CHAR_COLON g a b xs z ys] snoc.prems zs
      by (simp add: addr_text_2 del: group_bytes_simps)
  next
    case False
    obtain t c where t: "addr_text 2 gs = t @ [c]" "hex_char c" using addr_text_2_last [OF False] by blast
    define p where "p = q + 1 + length (addr_text 2 gs)"
    have "has_at m q ((CHAR_COLON # CHAR_COLON # t) @ c # CHAR_COLON # hex_digits 2 g)"
      using snoc.prems(1) False t by (simp add: addr_text_2_snoc)
    then have h: "has_at m p (c # CHAR_COLON # hex_digits 2 g)"
      by (subst (asm) has_at_append) (simp add: p_def t)
    have h2: "has_at m q (CHAR_COLON # CHAR_COLON # addr_text 2 gs)"
      using snoc.prems(1) has_at_append [of m q "CHAR_COLON # CHAR_COLON # addr_text 2 gs"] False
      by (simp add: addr_text_2_snoc)
    have "0 < length gs" using False by simp
    then have b: "unat (b - 1) + 1 = length (xs @ zs')" "unat b = length (xs @ zs')"
      using snoc.prems(4) zs by (simp_all add: unat_minus_one unat_gt_0 flip: unat_gt_0)
    have "pton_back m a (q + 1 + length (addr_text 2 (gs @ [g]))) 0 0 b (group_bytes (xs @ zs @ ys)) =
        pton_back m a (p + 1 + length (hex_digits 2 g)) 0 0 b (group_bytes ((xs @ zs') @ z # ys))"
      using False zs by (simp add: addr_text_2_snoc p_def add.assoc del: group_bytes_simps)
    also have "\<dots> = pton_back m a p 0 0 (b - 1) (group_bytes ((xs @ zs') @ g # ys))"
      using pton_back_group [OF h, of a b "xs @ zs'" z ys] snoc.prems(3) t(2) b(2)
      by (simp add: p_def hex_char_def del: group_bytes_simps)
    also have "\<dots> = Some (group_bytes (xs @ gs @ g # ys))"
      using snoc.IH [OF h2 False snoc.prems(3) b(1) zs(2), of "g # ys"] by (simp add: p_def del: group_bytes_simps)
    finally show ?thesis by simp
  qed
qed simp

section \<open>What is read back\<close>

lemma addr_text_nonzero: "0 \<notin> set gs \<Longrightarrow> addr_text 0 gs = addr_text 2 gs"
  by (induction gs) (simp_all add: addr_text.simps group_text_def next_state_def hex_digits_state [of _ 0])

lemma addr_text_zero: "0 \<notin> set gs \<Longrightarrow> addr_text 0 (gs @ 0 # hs) = prefix_text gs @ CHAR_COLON # addr_text 1 hs"
proof (induction gs)
  case Nil
  then show ?case by (simp add: addr_text.simps group_text_def next_state_def hex_digits_def)
next
  case (Cons g gs)
  then show ?case by (simp add: addr_text.simps group_text_def next_state_def hex_digits_state [of _ 0])
qed

lemma addr_text_1: "addr_text 1 gs = (if dropWhile (\<lambda>g. g = 0) gs = [] then [CHAR_COLON] else addr_text 2 (dropWhile (\<lambda>g. g = 0) gs))"
proof (induction gs)
  case (Cons g gs)
  show ?case
  proof (cases "g = 0")
    case True
    then have "hex_digits 1 g = []" by (simp add: hex_digits_def)
    with True Cons show ?thesis by (simp add: addr_text.simps group_text_def next_state_def)
  next
    case False
    then show ?thesis
      by (simp add: addr_text.simps group_text_def next_state_def hex_digits_state [of g 1] hex_digits_state [of g "Suc 0"])
  qed
qed (simp add: addr_text.simps)

lemma text_no_zero: "0 \<notin> set (hex_digits c g)" "0 \<notin> set (prefix_text gs)" "0 \<notin> set (addr_text 2 gs)"
proof -
  show h: "0 \<notin> set (hex_digits c g)" for c g using hex_char_digits [of 0 c g] by (auto simp: hex_char_def)
  show "0 \<notin> set (prefix_text gs)" using h by (auto simp: prefix_text_def CHAR_COLON_def)
  show "0 \<notin> set (addr_text 2 gs)" using h by (induction gs) (auto simp: addr_text_2 CHAR_COLON_def)
qed

lemma inet_pton6_parse:
  "length d = 16 \<Longrightarrow> pton_parse m a (group_bytes (replicate 8 0)) = Some d' \<Longrightarrow>
   inet_pton6 m (Some a) (Some d) = Some (Some d')"
  by (simp add: inet_pton6_def wrn_def put_def zero_groups)

text \<open>No zero group: the text is read from the front.\<close>

lemma parse_no_zero:
  assumes "length gs = 8" "0 \<notin> set gs" "has_at m a (addr_text 0 gs @ [0])"
  shows "pton_parse m a (group_bytes (replicate 8 0)) = Some (group_bytes gs)"
proof -
  have "gs \<noteq> []" using assms(1) by auto
  then have "pton_front m a 0 0 (group_bytes (replicate 8 0)) = Some (group_bytes gs, None)"
    using pton_front_groups [of m a gs 0 "[]" "replicate 8 0" "[]"] assms addr_text_nonzero [OF assms(2)]
    by (simp del: group_bytes_simps)
  then show ?thesis by (simp add: pton_parse_def)
qed

text \<open>A zero group behind others: both loops share the work.\<close>

lemma parse_middle:
  assumes len: "length gs + z + length hs = 8" and z: "0 < z" and gs: "gs \<noteq> []"
    and at: "has_at m a (prefix_text gs @ CHAR_COLON # (if hs = [] then [CHAR_COLON] else addr_text 2 hs) @ [0])"
  shows "pton_parse m a (group_bytes (replicate 8 0)) = Some (group_bytes (gs @ replicate z 0 @ hs))"
proof -
  define p where "p = a + length (prefix_text gs)"
  define t where "t = (if hs = [] then [CHAR_COLON] else addr_text 2 hs)"
  let ?zs = "replicate (length gs) 0 :: u16 list" and ?ys = "replicate (z + length hs) 0 :: u16 list"
  have "has_at m a ((prefix_text gs @ [CHAR_COLON]) @ t @ [0])" using at by (simp add: t_def)
  then have front: "has_at m a (prefix_text gs @ [CHAR_COLON])" by (simp only: has_at_append)
  have n: "8 = length gs + (z + length hs)" using len by simp
  have zeros: "replicate 8 (0 :: u16) = [] @ ?zs @ ?ys"
    by (subst n) (simp add: replicate_add)
  have f: "pton_front m a 0 0 (group_bytes (replicate 8 0)) = Some (group_bytes (gs @ ?ys), Some p)"
    using pton_front_prefix [OF front gs, of 0 "[]" ?zs ?ys]
    unfolding zeros p_def by (simp del: group_bytes_simps)
  have tail: "has_at m p ((CHAR_COLON # t) @ [0])"
    using at by (simp add: has_at_append p_def t_def)
  moreover have "0 \<notin> set (CHAR_COLON # t)" using text_no_zero(3) [of hs] by (auto simp: t_def CHAR_COLON_def)
  ultimately have e: "str_end m p = Some (p + length (CHAR_COLON # t))" by (rule str_end_at)
  obtain g gs' where snoc: "gs = gs' @ [g]" using gs by (metis rev_exhaust)
  then have p: "p \<noteq> 0" "a \<le> p - 1" by (auto simp: p_def prefix_text_def)
  have "prefix_text gs = (prefix_text gs' @ hex_digits 2 g) @ [CHAR_COLON]" using snoc by (simp add: prefix_text_def)
  then have "has_at m a ((prefix_text gs' @ hex_digits 2 g) @ CHAR_COLON # CHAR_COLON # t @ [0])" "p - 1 = a + length (prefix_text gs' @ hex_digits 2 g)"
    using at by (simp_all add: t_def p_def)
  then have b: "has_at m (p - 1) (CHAR_COLON # CHAR_COLON # t @ [0])" by (simp only: has_at_append)
  have "pton_back m a (p + length t) 0 0 7 (group_bytes (gs @ ?ys)) = Some (group_bytes (gs @ replicate z 0 @ hs))"
  proof (cases "hs = []")
    case True
    then obtain z' where z': "z = Suc z'" "length gs + z' = 7" using len z True by (cases z) auto
    have "has_at m p [CHAR_COLON, CHAR_COLON]" using tail True has_at_append [of m p "[CHAR_COLON, CHAR_COLON]" "[0]"] by (simp add: t_def)
    moreover have "group_bytes (gs @ ?ys) = group_bytes ((gs @ replicate z' 0) @ 0 # [])"
      using True z' by (simp add: replicate_append_same)
    ultimately show ?thesis
      using pton_back_colon [of m p CHAR_COLON a 7 "gs @ replicate z' 0" 0 0 0 "[]"] True z'
      by (simp add: t_def p_def replicate_append_same del: group_bytes_simps)
  next
    case False
    have "has_at m (p - 1) (CHAR_COLON # CHAR_COLON # addr_text 2 hs)"
      using b False has_at_append [of m "p - 1" "CHAR_COLON # CHAR_COLON # addr_text 2 hs" "[0]"] by (simp add: t_def)
    moreover have "unat (7 :: u8) + 1 = length ((gs @ replicate z 0) @ replicate (length hs) 0)" using len by simp
    ultimately have "pton_back m a (p - 1 + 1 + length (addr_text 2 hs)) 0 0 7
        (group_bytes ((gs @ replicate z 0) @ replicate (length hs) 0 @ [])) = Some (group_bytes ((gs @ replicate z 0) @ hs @ []))"
      by (intro pton_back_groups [OF _ False p(2)]) simp_all
    then show ?thesis using p(1) False by (simp add: t_def replicate_add del: group_bytes_simps)
  qed
  then show ?thesis using f e by (simp add: pton_parse_def add.commute)
qed

text \<open>The first group is zero.\<close>

lemma parse_all_zero:
  assumes "has_at m a [CHAR_COLON, CHAR_COLON, 0]"
  shows "pton_parse m a (group_bytes (replicate 8 0)) = Some (group_bytes (replicate 8 0))"
proof -
  have h: "has_at m a [CHAR_COLON, CHAR_COLON]" "has_at m (a + 1) ([CHAR_COLON] @ [0])"
    using assms by (auto simp: has_at_Cons)
  have r: "replicate 8 (0 :: u16) = 0 # replicate 7 0" "replicate 8 (0 :: u16) = replicate 7 0 @ [0]"
    by (simp_all add: eval_nat_numeral)
  have "pton_front m a 0 0 (group_bytes (replicate 8 0)) = Some (group_bytes (replicate 8 0), Some (a + 1))"
    using pton_front_colon [OF h(1), of 0 "[]" _ 0 "replicate 7 0" 0] by (simp add: CHAR_COLON_def r(1) del: group_bytes_simps)
  moreover have "str_end m (a + 1) = Some (a + 2)" using str_end_at [OF h(2)] by (simp add: CHAR_COLON_def)
  moreover have "pton_back m a (a + 1) 0 0 7 (group_bytes (replicate 8 0)) = Some (group_bytes (replicate 8 0))"
    using pton_back_colon [OF h(1), of a 7 "replicate 7 0" 0 0 0 "[]"] by (simp add: r(2) del: group_bytes_simps)
  ultimately show ?thesis by (simp add: pton_parse_def)
qed

lemma parse_leading_zero:
  assumes "z + length hs = 7" "hs \<noteq> []" "has_at m a (CHAR_COLON # addr_text 2 hs @ [0])"
  shows "pton_parse m a (group_bytes (replicate 8 0)) = Some (group_bytes (0 # hs @ replicate z 0))"
proof -
  obtain c t where t: "addr_text 2 hs = c # t" "hex_char c" using assms(2) by (rule addr_text_2_Cons)
  have h: "has_at m a [CHAR_COLON, c]" "has_at m (a + 1) (addr_text 2 hs @ [0])"
    using assms(3) t by (auto simp: has_at_Cons dest: has_at_len)
  have n: "8 = Suc (length hs + z)" using assms(1) by simp
  have r: "replicate 8 (0 :: u16) = 0 # (replicate (length hs) 0 @ replicate z 0)"
    by (subst n) (simp add: replicate_add)
  have "pton_front m a 0 0 (group_bytes (replicate 8 0)) =
      pton_front m (a + 1) 0 1 (group_bytes ([0] @ replicate (length hs) 0 @ replicate z 0))"
    using pton_front_colon [OF h(1), of 0 "[]" _ 0 "replicate (length hs) 0 @ replicate z 0" 0] t(2)
    by (simp add: hex_char_def r del: group_bytes_simps)
  also have "\<dots> = Some (group_bytes ([0] @ hs @ replicate z 0), None)"
    by (rule pton_front_groups [OF h(2) assms(2)]) simp_all
  finally show ?thesis by (simp add: pton_parse_def)
qed

lemma length_groups [simp]: "length (groups a 0) = 8"
  by (simp add: groups_def)

lemma group_bytes_inject [simp]: "group_bytes xs = group_bytes ys \<longleftrightarrow> xs = ys"
proof
  have "length xs = length ys" if "group_bytes xs = group_bytes ys"
    using arg_cong [OF that, of length] by simp
  then show "group_bytes xs = group_bytes ys \<Longrightarrow> xs = ys"
  proof (induction xs ys rule: list_induct2')
    case (4 x xs y ys)
    then show ?case by (simp del: length_group_bytes) (metis htons_htons le16_lo8_hi8 length_group_bytes nat_mult_eq_cancel1 zero_less_numeral)
  qed auto
qed simp

text \<open>What the reader makes of the printed text: the address itself, unless the first two groups are
  zero and another is not.\<close>

lemma parse_text:
  assumes "length gs = 8" "has_at m a (addr_text 0 gs @ [0])"
  shows "\<exists>gs'. pton_parse m a (group_bytes (replicate 8 0)) = Some (group_bytes gs') \<and>
    (gs' = gs \<longleftrightarrow> gs ! 0 \<noteq> 0 \<or> gs ! 1 \<noteq> 0 \<or> gs = replicate 8 0)"
proof (cases "0 \<in> set gs")
  case False
  then have "gs ! 0 \<noteq> 0" using assms(1) by (metis nth_mem zero_less_numeral)
  with parse_no_zero [OF assms(1) False assms(2)] show ?thesis by blast
next
  case True
  then obtain pre rest where pre: "gs = pre @ 0 # rest" "0 \<notin> set pre" by (meson split_list_first)
  define hs where "hs = dropWhile (\<lambda>g. g = 0) rest"
  define k where "k = length (takeWhile (\<lambda>g. g = 0) rest)"
  have zs: "takeWhile (\<lambda>g. g = 0) rest = replicate k 0"
    unfolding k_def by (induction rest) auto
  have rest: "rest = replicate k 0 @ hs" unfolding hs_def zs [symmetric] by simp
  then have gs: "gs = pre @ replicate (Suc k) 0 @ hs" using pre by simp
  then have len: "length pre + Suc k + length hs = 8" using assms(1) by simp
  have shown: "addr_text 0 gs = prefix_text pre @ CHAR_COLON # (if hs = [] then [CHAR_COLON] else addr_text 2 hs)"
    using addr_text_zero [OF pre(2), of rest] pre(1) addr_text_1 [of rest] by (simp add: hs_def)
  show ?thesis
  proof (cases "pre = []")
    case False
    have "gs ! 0 \<noteq> 0" using pre False by (cases pre) auto
    moreover have "pton_parse m a (group_bytes (replicate 8 0)) = Some (group_bytes gs)"
      using parse_middle [of pre "Suc k" hs m a] False len assms(2) gs shown by simp
    ultimately show ?thesis by blast
  next
    case nopre: True
    show ?thesis
    proof (cases "hs = []")
      case True
      then have k: "Suc k = 8" using nopre len by simp
      have "gs = replicate 8 0" unfolding gs k using nopre True by simp
      with parse_all_zero [of m a] assms(2) shown nopre True show ?thesis by auto
    next
      case False
      have n0: "hd hs \<noteq> 0" using False hd_dropWhile [of "\<lambda>g. g = 0" rest] by (simp add: hs_def)
      have p: "pton_parse m a (group_bytes (replicate 8 0)) = Some (group_bytes (0 # hs @ replicate k 0))"
        using parse_leading_zero [of k hs m a] len nopre False assms(2) shown by simp
      have nz: "gs \<noteq> replicate 8 0" using gs nopre False n0
        by (metis append_Cons append_Nil hd_in_set in_set_replicate list.distinct(1) set_append Un_iff)
      have "0 # hs @ replicate k 0 = gs \<longleftrightarrow> gs ! 1 \<noteq> 0"
      proof (cases k)
        case 0
        with gs nopre False n0 show ?thesis by (cases hs) auto
      next
        case (Suc j)
        with gs nopre False n0 show ?thesis by (cases hs) auto
      qed
      moreover have "gs ! 0 = 0" using gs nopre by simp
      ultimately show ?thesis using p nz by blast
    qed
  qed
qed

section \<open>Copying\<close>

lemma memcpy_loop_put:
  "src + n \<le> length m \<Longrightarrow> dst + n \<le> length m \<Longrightarrow> dst \<le> src \<or> src + n \<le> dst \<Longrightarrow>
   memcpy_loop n m dst src = Some (put m dst (take n (drop src m)))"
proof (induction n arbitrary: m dst src)
  case (Suc n)
  let ?m = "m[dst := m ! src]"
  have "take n (drop (src + 1) ?m) = take n (drop (src + 1) m)"
    using Suc.prems by (auto intro!: nth_equalityI simp: nth_list_update)
  moreover have "take (Suc n) (drop src m) = m ! src # take n (drop (src + 1) m)"
    using Suc.prems(1) by (simp add: take_Suc_conv_app_nth Cons_nth_drop_Suc [symmetric])
  moreover have "dst + 1 \<le> src + 1 \<or> src + 1 + n \<le> dst + 1" using Suc.prems(3) by linarith
  note ih = Suc.IH [OF _ _ this, of ?m]
  ultimately show ?case
    using Suc.prems ih
    by (simp add: rd_Some wr_Some put_Cons)
qed simp

text \<open>The copy is that of the source as it was, if the areas are apart or the target is not behind.\<close>

lemma ip_memcpy_copies:
  assumes "src + unat len \<le> length m" "dst + unat len \<le> length m" "dst \<le> src \<or> src + unat len \<le> dst"
  shows "ip_memcpy m dst src len = Some (put m dst (take (unat len) (drop src m)), dst)"
  using memcpy_loop_put [OF assms] by (simp add: ip_memcpy_def)

section \<open>Properties\<close>

lemma groups_nth: "j < 8 \<Longrightarrow> groups a 0 ! j = ntohs (s6_addr16 a j)"
  by (simp add: groups_def)

lemma zero_addr: "addr_ok a \<Longrightarrow> groups a 0 = replicate 8 0 \<longleftrightarrow> a = replicate 16 0"
  using bytes_of_groups [of a] zero_groups [of 8] group_bytes_inject [of "groups a 0" "replicate 8 0"]
  by (simp del: group_bytes_inject)

text \<open>C14: Text of an address.  With 43 bytes of room \<open>inet_ntop6\<close> prints every address inside its buffer and
  \<open>inet_pton6\<close> reads the text without leaving the string or the address.  It reads back the address that
  was printed, except for the addresses that begin with two zero groups and are not all zero: their
  text starts with one colon instead of two, and they are read as another address.\<close>

theorem inet_text_roundtrip:
  assumes "addr_ok a" and "addr_ok d" and "43 \<le> cnt" and "buf + cnt \<le> length m"
  shows "\<exists>m' n a'. inet_ntop6 a m buf cnt = Some (m', n) \<and> n \<le> cnt \<and>
    inet_pton6 m' (Some buf) (Some d) = Some (Some a') \<and>
    (a' = a \<longleftrightarrow> s6_addr16 a 0 \<noteq> 0 \<or> s6_addr16 a 1 \<noteq> 0 \<or> a = replicate 16 0)"
proof -
  let ?t = "addr_text 0 (groups a 0) @ [0]"
  have p: "inet_ntop6 a m buf cnt = Some (put m buf ?t, length ?t)" "length ?t \<le> cnt"
    using inet_ntop6_text [OF assms(3,4), of a] by simp_all
  then have "has_at (put m buf ?t) buf ?t" using assms(4) by simp
  then obtain gs where gs: "pton_parse (put m buf ?t) buf (group_bytes (replicate 8 0)) = Some (group_bytes gs)"
      "gs = groups a 0 \<longleftrightarrow> groups a 0 ! 0 \<noteq> 0 \<or> groups a 0 ! 1 \<noteq> 0 \<or> groups a 0 = replicate 8 0"
    using parse_text [of "groups a 0"] by auto
  have "group_bytes gs = a \<longleftrightarrow> gs = groups a 0"
    using bytes_of_groups [OF assms(1)] group_bytes_inject by metis
  then have "group_bytes gs = a \<longleftrightarrow> s6_addr16 a 0 \<noteq> 0 \<or> s6_addr16 a 1 \<noteq> 0 \<or> a = replicate 16 0"
    using gs(2) by (simp add: groups_nth zero_addr [OF assms(1)])
  then show ?thesis
    using p inet_pton6_parse [OF _ gs(1)] assms(2) unfolding addr_ok_def by blast
qed

text \<open>\<open>fe80::1\<close> is read back, the loopback address \<open>::1\<close> is printed as \<open>:1\<close> and is not.\<close>

lemma inet_text_roundtrip_witness:
  "(\<exists>m' n. inet_ntop6 ([0xfe, 0x80] @ replicate 13 0 @ [1]) (replicate 50 9) 2 46 = Some (m', n) \<and>
     inet_pton6 m' (Some 2) (Some (replicate 16 7)) = Some (Some ([0xfe, 0x80] @ replicate 13 0 @ [1]))) \<and>
   (\<exists>m' n a'. inet_ntop6 (replicate 15 0 @ [1]) (replicate 50 9) 2 46 = Some (m', n) \<and>
     inet_pton6 m' (Some 2) (Some (replicate 16 7)) = Some (Some a') \<and> a' \<noteq> replicate 15 0 @ [1])"
proof
  show "\<exists>m' n. inet_ntop6 ([0xfe, 0x80] @ replicate 13 0 @ [1]) (replicate 50 9) 2 46 = Some (m', n) \<and>
     inet_pton6 m' (Some 2) (Some (replicate 16 7)) = Some (Some ([0xfe, 0x80] @ replicate 13 0 @ [1]))"
    using inet_text_roundtrip [of "[0xfe, 0x80] @ replicate 13 0 @ [1]" "replicate 16 7" 46 2 "replicate 50 9"]
    by (auto simp: addr_ok_def s6_addr16_def)
  show "\<exists>m' n a'. inet_ntop6 (replicate 15 0 @ [1]) (replicate 50 9) 2 46 = Some (m', n) \<and>
     inet_pton6 m' (Some 2) (Some (replicate 16 7)) = Some (Some a') \<and> a' \<noteq> replicate 15 0 @ [1]"
    using inet_text_roundtrip [of "replicate 15 0 @ [1]" "replicate 16 7" 46 2 "replicate 50 9"]
    by (auto simp: addr_ok_def s6_addr16_def nth_append numeral_eq_Suc)
qed

text \<open>Whatever room it is given, at least one byte, \<open>inet_ntop6\<close> writes nothing outside it: the result is
  a string that ends inside the buffer, its length with the zero is returned, and every other byte of
  the memory is as before.\<close>

theorem inet_ntop6_inside:
  assumes "1 \<le> cnt" and "buf + cnt \<le> length m"
  shows "\<exists>m' n. inet_ntop6 a m buf cnt = Some (m', n) \<and> 1 \<le> n \<and> n \<le> cnt \<and> m' ! (buf + n - 1) = 0 \<and>
    length m' = length m \<and> (\<forall>i. i < buf \<or> buf + n \<le> i \<longrightarrow> m' ! i = m ! i)"
proof -
  have "[0..<8] \<noteq> []" by simp
  then obtain t where t: "ntop_loop a [0..<8] (buf + cnt) 0 m buf = Some (put m buf t, buf + length t)"
      "buf + length t + 1 \<le> buf + cnt"
    using ntop_loop_inside [of buf "buf + cnt" "[0..<8]" m a 0] assms by auto
  then have "inet_ntop6 a m buf cnt = Some (put m buf (t @ [0]), length t + 1)"
    using assms by (simp add: inet_ntop6_def wr_after)
  moreover have "put m buf (t @ [0]) ! i = (if buf \<le> i \<and> i < buf + (length t + 1) then (t @ [0]) ! (i - buf) else m ! i)" for i
    using t(2) assms by (simp add: put_nth)
  ultimately show ?thesis using t(2) assms by (simp add: not_less)
qed

lemma inet_ntop6_inside_witness:
  "\<exists>m' n. inet_ntop6 [0xfe, 0x80, 1, 2, 3, 4, 5, 6, 7, 8, 9, 10, 11, 12, 13, 14] (replicate 12 9) 1 11 = Some (m', n) \<and>
    n \<le> 11 \<and> m' ! 0 = 9 \<and> m' ! n = 0"
proof -
  obtain m' n where h: "inet_ntop6 [0xfe, 0x80, 1, 2, 3, 4, 5, 6, 7, 8, 9, 10, 11, 12, 13, 14] (replicate 12 9) 1 11 = Some (m', n)"
      "n \<le> 11" "m' ! (1 + n - 1) = 0" "\<forall>i. i < 1 \<or> 1 + n \<le> i \<longrightarrow> m' ! i = replicate 12 9 ! i"
    using inet_ntop6_inside [of 11 1 "replicate 12 9"
      "[0xfe, 0x80, 1, 2, 3, 4, 5, 6, 7, 8, 9, 10, 11, 12, 13, 14]"] by auto
  from h(4) have "m' ! 0 = replicate 12 9 ! 0" by blast
  with h show ?thesis by simp
qed

text \<open>A text of nine groups is written behind the address: \<open>1:1:1:1:1:1:1:1:1\<close>.\<close>

lemma nine_groups_overflow:
  "inet_pton6 (concat (replicate 8 [49, 58]) @ [49, 0]) (Some 0) (Some (replicate 16 0)) = None"
  by code_simp

text \<open>A group of nine digits behind a \<open>::\<close> shifts an \<open>int\<close> by its width: \<open>1::000000000\<close>.\<close>

lemma nine_digits_undefined:
  "inet_pton6 ([49, 58, 58] @ replicate 9 48 @ [0]) (Some 0) (Some (replicate 16 0)) = None"
  by code_simp

end
