(* ===== verification/Dip_Sort.thy ===== *)
theory Dip_Sort
  imports Backip_Prelude "HOL-Library.Multiset"
begin

text \<open>
  The \<open>qsort\<close> that the dissemination protocol DIP carries (\<open>tos/lib/net/dip/qsort.c\<close>): Bentley and
  McIlroy's quicksort with a partition into four areas and insertion sort for short arrays.

  The array is the list of its elements, each an object of \<open>es\<close> bytes.  All pointers of the code are
  the start of the array plus a multiple of \<open>es\<close>, so a pointer is an index here and \<open>p += es\<close> is the
  next one; the byte counts \<open>r\<close>, \<open>d\<close> are counts of elements.  \<open>swapfunc\<close> exchanges runs of bytes,
  and all its calls exchange runs of elements.  An access outside the array is \<^term>\<open>None\<close>.  The
  comparison is a parameter; the two comparisons that DIP passes are at the end.
\<close>

section \<open>Accesses\<close>

definition elem :: "'a list \<Rightarrow> nat \<Rightarrow> 'a option" where
  "elem xs i = (if i < length xs then Some (xs ! i) else None)"

definition cmp_at :: "('a \<Rightarrow> 'a \<Rightarrow> int) \<Rightarrow> 'a list \<Rightarrow> nat \<Rightarrow> nat \<Rightarrow> int option" where
  "cmp_at cmp xs i j = do { x \<leftarrow> elem xs i; y \<leftarrow> elem xs j; Some (cmp x y) }"

text \<open>The loop tests its count at the end, so it exchanges at least once.\<close>

function swapfunc :: "'a list \<Rightarrow> nat \<Rightarrow> nat \<Rightarrow> nat \<Rightarrow> 'a list option" where
  "swapfunc xs pi pj n =
     (case (elem xs pi, elem xs pj) of
        (Some x, Some y) \<Rightarrow>
          let xs = xs[pi := y, pj := x] in
          if n > 1 then swapfunc xs (pi + 1) (pj + 1) (n - 1) else Some xs
      | _ \<Rightarrow> None)"
  by pat_completeness auto
termination
  by (relation "measure (\<lambda>(xs, pi, pj, n). n)") auto

definition swap_at :: "'a list \<Rightarrow> nat \<Rightarrow> nat \<Rightarrow> 'a list option" where
  "swap_at xs i j = swapfunc xs i j 1"

definition vecswap :: "'a list \<Rightarrow> nat \<Rightarrow> nat \<Rightarrow> nat \<Rightarrow> 'a list option" where
  "vecswap xs i j n = (if n > 0 then swapfunc xs i j n else Some xs)"

definition med3 :: "('a \<Rightarrow> 'a \<Rightarrow> int) \<Rightarrow> 'a list \<Rightarrow> nat \<Rightarrow> nat \<Rightarrow> nat \<Rightarrow> nat option" where
  "med3 cmp xs a b c = do {
     r \<leftarrow> cmp_at cmp xs a b;
     if r < 0 then do {
       r \<leftarrow> cmp_at cmp xs b c;
       if r < 0 then Some b else do { r \<leftarrow> cmp_at cmp xs a c; Some (if r < 0 then c else a) } }
     else do {
       r \<leftarrow> cmp_at cmp xs b c;
       if r > 0 then Some b else do { r \<leftarrow> cmp_at cmp xs a c; Some (if r < 0 then a else c) } } }"

section \<open>Insertion sort\<close>

fun sift_down :: "('a \<Rightarrow> 'a \<Rightarrow> int) \<Rightarrow> nat \<Rightarrow> nat \<Rightarrow> 'a list \<Rightarrow> 'a list option" where
  "sift_down cmp a 0 xs = Some xs" |
  "sift_down cmp a (Suc p) xs =
     (if Suc p > a then do {
        r \<leftarrow> cmp_at cmp xs p (Suc p);
        if r > 0 then do { xs \<leftarrow> swap_at xs (Suc p) p; sift_down cmp a p xs } else Some xs }
      else Some xs)"

function insertion_sort :: "('a \<Rightarrow> 'a \<Rightarrow> int) \<Rightarrow> nat \<Rightarrow> nat \<Rightarrow> nat \<Rightarrow> 'a list \<Rightarrow> 'a list option" where
  "insertion_sort cmp a n pm xs =
     (if pm < a + n then do { xs \<leftarrow> sift_down cmp a pm xs; insertion_sort cmp a n (pm + 1) xs } else Some xs)"
  by pat_completeness auto
termination
  by (relation "measure (\<lambda>(cmp, a, n, pm, xs). a + n - pm)") auto

section \<open>Partition\<close>

definition choose_pivot :: "('a \<Rightarrow> 'a \<Rightarrow> int) \<Rightarrow> nat \<Rightarrow> nat \<Rightarrow> 'a list \<Rightarrow> nat option" where
  "choose_pivot cmp a n xs =
     (let pm = a + n div 2 in
      if n > 7 then do {
        let pl = a;
        let pn = a + (n - 1);
        (pl, pm, pn) \<leftarrow>
          (if n > 40 then do {
             let d = n div 8;
             pl \<leftarrow> med3 cmp xs pl (pl + d) (pl + 2 * d);
             pm \<leftarrow> med3 cmp xs (pm - d) pm (pm + d);
             pn \<leftarrow> med3 cmp xs (pn - 2 * d) (pn - d) pn;
             Some (pl, pm, pn) }
           else Some (pl, pm, pn));
        med3 cmp xs pl pm pn }
      else Some pm)"

function scan_up ::
  "('a \<Rightarrow> 'a \<Rightarrow> int) \<Rightarrow> nat \<Rightarrow> nat \<Rightarrow> nat \<Rightarrow> nat \<Rightarrow> bool \<Rightarrow> 'a list \<Rightarrow> ('a list \<times> nat \<times> nat \<times> bool) option" where
  "scan_up cmp a pa pb pc swap_cnt xs =
     (if pb \<le> pc then
        (case cmp_at cmp xs pb a of
           None \<Rightarrow> None
         | Some r \<Rightarrow>
             if r \<le> 0 then
               (if r = 0 then
                  (case swap_at xs pa pb of
                     None \<Rightarrow> None
                   | Some xs \<Rightarrow> scan_up cmp a (pa + 1) (pb + 1) pc True xs)
                else scan_up cmp a pa (pb + 1) pc swap_cnt xs)
             else Some (xs, pa, pb, swap_cnt))
      else Some (xs, pa, pb, swap_cnt))"
  by pat_completeness auto
termination
  by (relation "measure (\<lambda>(cmp, a, pa, pb, pc, swap_cnt, xs). Suc pc - pb)") auto

text \<open>A pointer that is moved down is never the first one of the array, as \<open>pb\<close> is behind it.\<close>

function scan_down ::
  "('a \<Rightarrow> 'a \<Rightarrow> int) \<Rightarrow> nat \<Rightarrow> nat \<Rightarrow> nat \<Rightarrow> nat \<Rightarrow> bool \<Rightarrow> 'a list \<Rightarrow> ('a list \<times> nat \<times> nat \<times> bool) option" where
  "scan_down cmp a pb pc pd swap_cnt xs =
     (if pb \<le> pc then
        (case cmp_at cmp xs pc a of
           None \<Rightarrow> None
         | Some r \<Rightarrow>
             if r \<ge> 0 then
               (if pc = 0 then None
                else if r = 0 then
                  (case swap_at xs pc pd of
                     None \<Rightarrow> None
                   | Some xs \<Rightarrow> scan_down cmp a pb (pc - 1) (pd - 1) True xs)
                else scan_down cmp a pb (pc - 1) pd swap_cnt xs)
             else Some (xs, pc, pd, swap_cnt))
      else Some (xs, pc, pd, swap_cnt))"
  by pat_completeness auto
termination
  by (relation "measure (\<lambda>(cmp, a, pb, pc, pd, swap_cnt, xs). pc)") auto

declare swapfunc.simps [simp del] insertion_sort.simps [simp del] scan_up.simps [simp del] scan_down.simps [simp del]

partial_function (option) part_loop ::
  "('a \<Rightarrow> 'a \<Rightarrow> int) \<Rightarrow> nat \<Rightarrow> nat \<Rightarrow> nat \<Rightarrow> nat \<Rightarrow> nat \<Rightarrow> bool \<Rightarrow> 'a list \<Rightarrow>
   ('a list \<times> nat \<times> nat \<times> nat \<times> nat \<times> bool) option" where
  "part_loop cmp a pa pb pc pd swap_cnt xs = do {
     (xs, pa, pb, swap_cnt) \<leftarrow> scan_up cmp a pa pb pc swap_cnt xs;
     (xs, pc, pd, swap_cnt) \<leftarrow> scan_down cmp a pb pc pd swap_cnt xs;
     if pb > pc then Some (xs, pa, pb, pc, pd, swap_cnt)
     else do {
       xs \<leftarrow> swap_at xs pb pc;
       part_loop cmp a pa (pb + 1) (pc - 1) pd True xs } }"

text \<open>The function; \<open>goto loop\<close> is the last call.\<close>

partial_function (option) qsort :: "('a \<Rightarrow> 'a \<Rightarrow> int) \<Rightarrow> nat \<Rightarrow> nat \<Rightarrow> 'a list \<Rightarrow> 'a list option" where
  "qsort cmp a n xs =
     (if n < 7 then insertion_sort cmp a n (a + 1) xs
      else do {
        pm \<leftarrow> choose_pivot cmp a n xs;
        xs \<leftarrow> swap_at xs a pm;
        (xs, pa, pb, pc, pd, swap_cnt) \<leftarrow>
          part_loop cmp a (a + 1) (a + 1) (a + (n - 1)) (a + (n - 1)) False xs;
        if \<not> swap_cnt then insertion_sort cmp a n (a + 1) xs
        else do {
          let pn = a + n;
          let r = min (pa - a) (pb - pa);
          xs \<leftarrow> vecswap xs a (pb - r) r;
          let r = min (pd - pc) (pn - pd - 1);
          xs \<leftarrow> vecswap xs pb (pn - r) r;
          xs \<leftarrow> (if pb - pa > 1 then qsort cmp a (pb - pa) xs else Some xs);
          if pd - pc > 1 then qsort cmp (pn - (pd - pc)) (pd - pc) xs else Some xs } })"

section \<open>Rearranging a part of the array\<close>

text \<open>\<open>perm_in a n xs ys\<close>: the array \<open>ys\<close> is \<open>xs\<close> with the elements of the part rearranged.\<close>

definition perm_in :: "nat \<Rightarrow> nat \<Rightarrow> 'a list \<Rightarrow> 'a list \<Rightarrow> bool" where
  "perm_in a n xs ys \<longleftrightarrow> length ys = length xs \<and> mset ys = mset xs \<and> (\<forall>i. i < a \<or> a + n \<le> i \<longrightarrow> ys ! i = xs ! i)"

lemma perm_in_refl [simp]: "perm_in a n xs xs"
  by (simp add: perm_in_def)

lemma perm_in_trans: "perm_in a n xs ys \<Longrightarrow> perm_in a n ys zs \<Longrightarrow> perm_in a n xs zs"
  by (simp add: perm_in_def)

lemma perm_in_length: "perm_in a n xs ys \<Longrightarrow> length ys = length xs"
  by (simp add: perm_in_def)

lemma perm_in_outside: "perm_in a n xs ys \<Longrightarrow> i < a \<or> a + n \<le> i \<Longrightarrow> ys ! i = xs ! i"
  by (auto simp: perm_in_def)

lemma perm_inI:
  "length ys = length xs \<Longrightarrow> mset ys = mset xs \<Longrightarrow> (\<And>i. i < a \<or> a + n \<le> i \<Longrightarrow> ys ! i = xs ! i) \<Longrightarrow> perm_in a n xs ys"
  by (simp add: perm_in_def)

lemma perm_in_mono: "perm_in b k xs ys \<Longrightarrow> a \<le> b \<Longrightarrow> b + k \<le> a + n \<Longrightarrow> perm_in a n xs ys"
  by (rule perm_inI) (simp add: perm_in_def, simp add: perm_in_def, rule perm_in_outside, assumption, linarith)

lemma exchange_nth:
  "i < length xs \<Longrightarrow> j < length xs \<Longrightarrow>
   xs[i := xs ! j, j := xs ! i] ! k = (if k = i then xs ! j else if k = j then xs ! i else xs ! k)"
  by (cases "k = j"; cases "k = i") simp_all

lemma perm_in_swap:
  assumes "a \<le> i" "i < a + n" "a \<le> j" "j < a + n" "a + n \<le> length xs"
  shows "perm_in a n xs (xs[i := xs ! j, j := xs ! i])"
proof (rule perm_inI)
  show "mset (xs[i := xs ! j, j := xs ! i]) = mset xs"
    using mset_swap [of j xs i] assms by (cases "i = j") (simp_all add: list_update_swap)
  show "xs[i := xs ! j, j := xs ! i] ! k = xs ! k" if "k < a \<or> a + n \<le> k" for k
  proof -
    have "k \<noteq> i" "k \<noteq> j" using that assms by auto
    then show ?thesis by simp
  qed
qed simp

text \<open>A property of all elements of the part is kept.\<close>

lemma part_mset:
  assumes "perm_in a n xs ys"
  shows "mset (take n (drop a ys)) = mset (take n (drop a xs))"
proof -
  have split: "mset zs = mset (take a zs) + mset (take n (drop a zs)) + mset (drop (a + n) zs)" for zs :: "'a list"
    by (metis append_take_drop_id drop_drop mset_append add.commute add.left_commute)
  have "take a ys = take a xs" "drop (a + n) ys = drop (a + n) xs"
    using perm_in_length [OF assms] by (auto intro!: nth_equalityI perm_in_outside [OF assms])
  then show ?thesis using split [of xs] split [of ys] assms by (simp add: perm_in_def)
qed

lemma perm_in_all:
  assumes "perm_in a n xs ys" "a + n \<le> length xs" "\<forall>i. a \<le> i \<and> i < a + n \<longrightarrow> P (xs ! i)"
  shows "\<forall>i. a \<le> i \<and> i < a + n \<longrightarrow> P (ys ! i)"
proof -
  let ?seg = "\<lambda>zs. take n (drop a zs)"
  have set_eq: "set (?seg ys) = set (?seg xs)" using part_mset [OF assms(1)] by (rule mset_eq_setD)
  have mem: "z \<in> set (?seg zs) \<longleftrightarrow> (\<exists>i. a \<le> i \<and> i < a + n \<and> z = zs ! i)" if "length zs = length xs" for z zs
  proof
    assume "z \<in> set (?seg zs)"
    then obtain k where "k < n" "z = zs ! (a + k)" using that assms(2) by (auto simp: in_set_conv_nth)
    then show "\<exists>i. a \<le> i \<and> i < a + n \<and> z = zs ! i" by (intro exI [of _ "a + k"]) simp
  next
    assume "\<exists>i. a \<le> i \<and> i < a + n \<and> z = zs ! i"
    then obtain i where i: "a \<le> i" "i < a + n" "z = zs ! i" by blast
    then show "z \<in> set (?seg zs)" using that assms(2) by (auto simp: in_set_conv_nth intro!: exI [of _ "i - a"])
  qed
  show ?thesis
  proof (intro allI impI)
    fix i assume "a \<le> i \<and> i < a + n"
    then have "ys ! i \<in> set (?seg ys)" using mem [OF perm_in_length [OF assms(1)], of "ys ! i"] by blast
    then show "P (ys ! i)" using set_eq mem [of xs "ys ! i"] assms(3) by auto
  qed
qed

lemma swap_at_Some: "i < length xs \<Longrightarrow> j < length xs \<Longrightarrow> swap_at xs i j = Some (xs[i := xs ! j, j := xs ! i])"
  by (simp add: swap_at_def swapfunc.simps elem_def)

lemma cmp_at_Some: "i < length xs \<Longrightarrow> j < length xs \<Longrightarrow> cmp_at cmp xs i j = Some (cmp (xs ! i) (xs ! j))"
  by (simp add: cmp_at_def elem_def)

text \<open>Two areas that do not overlap are exchanged.\<close>

lemma swapfunc_run:
  "pi + n \<le> pj \<Longrightarrow> pj + n \<le> length xs \<Longrightarrow> 0 < n \<Longrightarrow>
   \<exists>ys. swapfunc xs pi pj n = Some ys \<and> length ys = length xs \<and> mset ys = mset xs \<and>
     (\<forall>k. ys ! k = (if pi \<le> k \<and> k < pi + n then xs ! (k + (pj - pi))
        else if pj \<le> k \<and> k < pj + n then xs ! (k - (pj - pi)) else xs ! k))"
proof (induction n arbitrary: pi pj xs)
  case (Suc n)
  let ?xs = "xs[pi := xs ! pj, pj := xs ! pi]"
  have l: "pi < length xs" "pj < length xs" "pi \<noteq> pj" using Suc.prems by auto
  have m: "mset ?xs = mset xs" using l by (simp add: mset_swap)
  show ?case
  proof (cases "n = 0")
    case True
    have "swapfunc xs pi pj (Suc n) = Some ?xs"
      using True l by (subst swapfunc.simps) (simp add: elem_def)
    moreover have "?xs ! k = (if pi \<le> k \<and> k < pi + Suc n then xs ! (k + (pj - pi))
        else if pj \<le> k \<and> k < pj + Suc n then xs ! (k - (pj - pi)) else xs ! k)" for k
      unfolding exchange_nth [OF l(1,2)] using True l(3) Suc.prems(1) by auto
    ultimately show ?thesis using m by (intro exI [of _ ?xs]) simp
  next
    case False
    then obtain ys where ys: "swapfunc ?xs (pi + 1) (pj + 1) n = Some ys" "length ys = length xs" "mset ys = mset xs"
       "\<forall>k. ys ! k = (if pi + 1 \<le> k \<and> k < pi + 1 + n then ?xs ! (k + (pj - pi))
        else if pj + 1 \<le> k \<and> k < pj + 1 + n then ?xs ! (k - (pj - pi)) else ?xs ! k)"
      using Suc.IH [of "pi + 1" "pj + 1" ?xs] Suc.prems m by auto
    have "swapfunc xs pi pj (Suc n) = Some ys"
      using l False ys(1) by (subst swapfunc.simps) (simp add: elem_def)
    moreover have "ys ! k = (if pi \<le> k \<and> k < pi + Suc n then xs ! (k + (pj - pi))
        else if pj \<le> k \<and> k < pj + Suc n then xs ! (k - (pj - pi)) else xs ! k)" for k
      unfolding ys(4) [rule_format, of k] exchange_nth [OF l(1,2)] using l(3) Suc.prems(1) by auto
    ultimately show ?thesis using ys(2,3) by blast
  qed
qed simp

section \<open>Comparisons\<close>

text \<open>The part from \<open>a\<close> on with \<open>n\<close> elements is sorted.\<close>

definition sorted_in :: "('a \<Rightarrow> 'a \<Rightarrow> int) \<Rightarrow> nat \<Rightarrow> nat \<Rightarrow> 'a list \<Rightarrow> bool" where
  "sorted_in cmp a n xs \<longleftrightarrow> (\<forall>i j. a \<le> i \<and> i < j \<and> j < a + n \<longrightarrow> cmp (xs ! i) (xs ! j) \<le> 0)"

text \<open>Sifting: the part up to \<open>hi\<close> is sorted but for the element at \<open>p\<close>, which is not above its
  successors.\<close>

definition hole_sorted :: "('a \<Rightarrow> 'a \<Rightarrow> int) \<Rightarrow> nat \<Rightarrow> nat \<Rightarrow> nat \<Rightarrow> 'a list \<Rightarrow> bool" where
  "hole_sorted cmp a p hi xs \<longleftrightarrow>
     (\<forall>i j. a \<le> i \<and> i < j \<and> j \<le> hi \<and> j \<noteq> p \<longrightarrow> cmp (xs ! i) (xs ! j) \<le> 0)"

text \<open>What \<open>qsort\<close> needs of the comparison: it is the sign of a total preorder.\<close>

locale comparator =
  fixes cmp :: "'a \<Rightarrow> 'a \<Rightarrow> int"
  assumes opposite: "cmp x y < 0 \<longleftrightarrow> cmp y x > 0"
    and trans: "cmp x y \<le> 0 \<Longrightarrow> cmp y z \<le> 0 \<Longrightarrow> cmp x z \<le> 0"
begin

lemma refl [simp]: "cmp x x = 0"
  using opposite [of x x] by linarith

lemma linear: "cmp x y > 0 \<Longrightarrow> cmp y x \<le> 0"
  using opposite [of y x] by linarith

lemma zero_sym: "cmp x y = 0 \<longleftrightarrow> cmp y x = 0"
  using opposite [of x y] opposite [of y x] by linarith

lemma less_le: "cmp x v < 0 \<Longrightarrow> cmp y v \<ge> 0 \<Longrightarrow> cmp x y \<le> 0"
  using trans [of x v y] opposite [of y v] opposite [of v y] by linarith

lemma le_greater: "cmp x v \<le> 0 \<Longrightarrow> cmp y v > 0 \<Longrightarrow> cmp x y \<le> 0"
  using trans [of x v y] opposite [of v y] by linarith

lemma equal_le: "cmp x v = 0 \<Longrightarrow> cmp y v = 0 \<Longrightarrow> cmp x y \<le> 0"
  using trans [of x v y] zero_sym [of y v] by linarith

lemma sorted_inD: "sorted_in cmp a n xs \<Longrightarrow> a \<le> i \<Longrightarrow> i \<le> j \<Longrightarrow> j < a + n \<Longrightarrow> cmp (xs ! i) (xs ! j) \<le> 0"
  by (cases "i = j") (auto simp: sorted_in_def)

lemma sift_down_sorts:
  "a \<le> p \<Longrightarrow> p \<le> hi \<Longrightarrow> hi < length xs \<Longrightarrow> hole_sorted cmp a p hi xs \<Longrightarrow>
   \<exists>ys. sift_down cmp a p xs = Some ys \<and> perm_in a (Suc hi - a) xs ys \<and> sorted_in cmp a (Suc hi - a) ys"
proof (induction p arbitrary: xs)
  case 0
  then show ?case by (auto simp: hole_sorted_def sorted_in_def)
next
  case (Suc p)
  have l: "p < length xs" "Suc p < length xs" using Suc.prems by auto
  have hole: "\<And>i j. a \<le> i \<Longrightarrow> i < j \<Longrightarrow> j \<le> hi \<Longrightarrow> j \<noteq> Suc p \<Longrightarrow> cmp (xs ! i) (xs ! j) \<le> 0"
    using Suc.prems(4) by (simp add: hole_sorted_def)
  show ?case
  proof (cases "a < Suc p \<and> cmp (xs ! p) (xs ! Suc p) > 0")
    case True
    let ?ys = "xs[Suc p := xs ! p, p := xs ! Suc p]"
    have le: "cmp (xs ! Suc p) (xs ! p) \<le> 0" using True linear by blast
    have "hole_sorted cmp a p hi ?ys"
      unfolding hole_sorted_def
    proof (intro allI impI)
      fix i j assume ij: "a \<le> i \<and> i < j \<and> j \<le> hi \<and> j \<noteq> p"
      have n: "?ys ! k = (if k = Suc p then xs ! p else if k = p then xs ! Suc p else xs ! k)" for k
        by (rule exchange_nth [OF l(2,1)])
      show "cmp (?ys ! i) (?ys ! j) \<le> 0"
        unfolding n using True ij hole [of i p] hole [of i j] hole [of p j] hole [of "Suc p" j] le
        by (cases "j = Suc p"; cases "i = p"; cases "i = Suc p") auto
    qed
    then obtain zs where zs: "sift_down cmp a p ?ys = Some zs" "perm_in a (Suc hi - a) ?ys zs"
        "sorted_in cmp a (Suc hi - a) zs"
      using Suc.IH [of ?ys] Suc.prems True by auto
    have "perm_in a (Suc hi - a) xs ?ys"
      by (rule perm_in_swap) (use Suc.prems True in auto)
    with zs show ?thesis using True l by (auto simp: cmp_at_Some swap_at_Some intro: perm_in_trans)
  next
    case False
    have "sorted_in cmp a (Suc hi - a) xs"
      unfolding sorted_in_def
    proof (intro allI impI)
      fix i j assume ij: "a \<le> i \<and> i < j \<and> j < a + (Suc hi - a)"
      then have hi: "j \<le> hi" by linarith
      show "cmp (xs ! i) (xs ! j) \<le> 0"
      proof (cases "j = Suc p")
        case True
        then have "a \<le> p" using ij by linarith
        then have "cmp (xs ! p) (xs ! Suc p) \<le> 0" using False by (metis le_imp_less_Suc linorder_not_less)
        moreover have "cmp (xs ! i) (xs ! p) \<le> 0"
          using ij True hole [of i p] Suc.prems(2) by (cases "i = p") auto
        ultimately show ?thesis using trans True by blast
      qed (use ij hi hole in blast)
    qed
    then show ?thesis using False l by (auto simp: cmp_at_Some)
  qed
qed

lemma insertion_sort_sorts:
  "a < pm \<Longrightarrow> a + n \<le> length xs \<Longrightarrow> sorted_in cmp a (pm - a) xs \<Longrightarrow>
   \<exists>ys. insertion_sort cmp a n pm xs = Some ys \<and> perm_in a n xs ys \<and> sorted_in cmp a n ys"
proof (induction "a + n - pm" arbitrary: pm xs)
  case 0
  then have "sorted_in cmp a n xs" by (auto simp: sorted_in_def)
  with 0 show ?case by (subst insertion_sort.simps) auto
next
  case (Suc k)
  then have pm: "pm < a + n" by linarith
  have "hole_sorted cmp a pm pm xs"
    using Suc.prems(1,3) by (auto simp: hole_sorted_def sorted_in_def)
  then obtain ys where ys: "sift_down cmp a pm xs = Some ys" "perm_in a (Suc pm - a) xs ys" "sorted_in cmp a (Suc pm - a) ys"
    using sift_down_sorts [of a pm pm xs] Suc.prems pm by auto
  have p: "perm_in a n xs ys" by (rule perm_in_mono [OF ys(2)]) (use pm Suc.prems in auto)
  have k: "k = a + n - (pm + 1)" using Suc.hyps(2) by linarith
  obtain zs where "insertion_sort cmp a n (pm + 1) ys = Some zs" "perm_in a n ys zs" "sorted_in cmp a n zs"
    using Suc.hyps(1) [OF k, of ys] Suc.prems ys perm_in_length [OF p] by auto
  with ys p pm show ?case by (subst insertion_sort.simps) (auto intro: perm_in_trans)
qed

lemma insertion_sort_total:
  "a + n \<le> length xs \<Longrightarrow> \<exists>ys. insertion_sort cmp a n (a + 1) xs = Some ys \<and> perm_in a n xs ys \<and> sorted_in cmp a n ys"
  by (rule insertion_sort_sorts) (auto simp: sorted_in_def)

text \<open>The partition.  The areas of the invariant: equal, less, not looked at, greater, equal.\<close>

definition areas :: "nat \<Rightarrow> nat \<Rightarrow> nat \<Rightarrow> nat \<Rightarrow> nat \<Rightarrow> nat \<Rightarrow> 'a list \<Rightarrow> bool" where
  "areas a n pa pb pc pd xs \<longleftrightarrow>
     a < pa \<and> pa \<le> pb \<and> pb \<le> pc + 1 \<and> pc \<le> pd \<and> pd < a + n \<and> a + n \<le> length xs \<and>
     (\<forall>i. a \<le> i \<and> i < pa \<longrightarrow> cmp (xs ! i) (xs ! a) = 0) \<and>
     (\<forall>i. pa \<le> i \<and> i < pb \<longrightarrow> cmp (xs ! i) (xs ! a) < 0) \<and>
     (\<forall>i. pc < i \<and> i \<le> pd \<longrightarrow> cmp (xs ! i) (xs ! a) > 0) \<and>
     (\<forall>i. pd < i \<and> i < a + n \<longrightarrow> cmp (xs ! i) (xs ! a) = 0)"

lemma areas_bounds:
  "areas a n pa pb pc pd xs \<Longrightarrow> a < pa \<and> pa \<le> pb \<and> pb \<le> pc + 1 \<and> pc \<le> pd \<and> pd < a + n \<and> a + n \<le> length xs"
  by (simp add: areas_def)

lemma areas_nth:
  assumes "areas a n pa pb pc pd xs"
  shows "a \<le> i \<Longrightarrow> i < pa \<Longrightarrow> cmp (xs ! i) (xs ! a) = 0" "pa \<le> i \<Longrightarrow> i < pb \<Longrightarrow> cmp (xs ! i) (xs ! a) < 0"
    "pc < i \<Longrightarrow> i \<le> pd \<Longrightarrow> cmp (xs ! i) (xs ! a) > 0" "pd < i \<Longrightarrow> i < a + n \<Longrightarrow> cmp (xs ! i) (xs ! a) = 0"
  using assms by (simp_all add: areas_def)

lemma areas_less_up:
  "areas a n pa pb pc pd xs \<Longrightarrow> pb \<le> pc \<Longrightarrow> cmp (xs ! pb) (xs ! a) < 0 \<Longrightarrow> areas a n pa (pb + 1) pc pd xs"
  by (auto simp: areas_def less_Suc_eq)

lemma areas_greater_down:
  "areas a n pa pb pc pd xs \<Longrightarrow> pb \<le> pc \<Longrightarrow> cmp (xs ! pc) (xs ! a) > 0 \<Longrightarrow> areas a n pa pb (pc - 1) pd xs"
proof -
  assume as: "areas a n pa pb pc pd xs" "pb \<le> pc" and g: "cmp (xs ! pc) (xs ! a) > 0"
  note b = areas_bounds [OF as(1)] and v = areas_nth [OF as(1)]
  have "cmp (xs ! i) (xs ! a) > 0" if "pc - 1 < i" "i \<le> pd" for i
    using that g v(3) [of i] by (cases "i = pc") auto
  with b v(1,2,4) as(2) show ?thesis by (simp add: areas_def) linarith
qed

lemma areas_equal_up:
  assumes "areas a n pa pb pc pd xs" "pb \<le> pc" "cmp (xs ! pb) (xs ! a) = 0"
  shows "areas a n (pa + 1) (pb + 1) pc pd (xs[pa := xs ! pb, pb := xs ! pa])"
proof -
  note b = areas_bounds [OF assms(1)] and v = areas_nth [OF assms(1)]
  have l: "pa < length xs" "pb < length xs" using b assms(2) by auto
  note n = exchange_nth [OF l]
  have a: "xs[pa := xs ! pb, pb := xs ! pa] ! a = xs ! a" using b unfolding n by auto
  show ?thesis
    unfolding areas_def a
  proof (intro conjI allI impI)
    fix i assume "a \<le> i \<and> i < pa + 1"
    then show "cmp (xs[pa := xs ! pb, pb := xs ! pa] ! i) (xs ! a) = 0"
      unfolding n using v(1) [of i] assms(3) b by (cases "i = pa") auto
  next
    fix i assume "pa + 1 \<le> i \<and> i < pb + 1"
    then show "cmp (xs[pa := xs ! pb, pb := xs ! pa] ! i) (xs ! a) < 0"
      unfolding n using v(2) [of i] v(2) [of pa] b by (cases "i = pb") auto
  next
    fix i assume "pc < i \<and> i \<le> pd"
    then show "cmp (xs[pa := xs ! pb, pb := xs ! pa] ! i) (xs ! a) > 0"
      unfolding n using v(3) [of i] b assms(2) by auto
  next
    fix i assume "pd < i \<and> i < a + n"
    then show "cmp (xs[pa := xs ! pb, pb := xs ! pa] ! i) (xs ! a) = 0"
      unfolding n using v(4) [of i] b assms(2) by auto
  qed (use b assms(2) in auto)
qed

lemma areas_equal_down:
  assumes "areas a n pa pb pc pd xs" "pb \<le> pc" "cmp (xs ! pc) (xs ! a) = 0"
  shows "areas a n pa pb (pc - 1) (pd - 1) (xs[pc := xs ! pd, pd := xs ! pc])"
proof -
  note b = areas_bounds [OF assms(1)] and v = areas_nth [OF assms(1)]
  have l: "pc < length xs" "pd < length xs" using b assms(2) by auto
  note n = exchange_nth [OF l]
  have a: "xs[pc := xs ! pd, pd := xs ! pc] ! a = xs ! a" using b assms(2) unfolding n by auto
  show ?thesis
    unfolding areas_def a
  proof (intro conjI allI impI)
    fix i assume "a \<le> i \<and> i < pa"
    then show "cmp (xs[pc := xs ! pd, pd := xs ! pc] ! i) (xs ! a) = 0"
      unfolding n using v(1) [of i] b assms(2) by auto
  next
    fix i assume "pa \<le> i \<and> i < pb"
    then show "cmp (xs[pc := xs ! pd, pd := xs ! pc] ! i) (xs ! a) < 0"
      unfolding n using v(2) [of i] b assms(2) by auto
  next
    fix i assume "pc - 1 < i \<and> i \<le> pd - 1"
    then show "cmp (xs[pc := xs ! pd, pd := xs ! pc] ! i) (xs ! a) > 0"
      unfolding n using v(3) [of i] v(3) [of pd] b assms(2) by (cases "i = pc") auto
  next
    fix i assume "pd - 1 < i \<and> i < a + n"
    then show "cmp (xs[pc := xs ! pd, pd := xs ! pc] ! i) (xs ! a) = 0"
      unfolding n using v(4) [of i] assms(2,3) b by (cases "i = pd") auto
  qed (use b assms(2) in auto)
qed

lemma areas_swap:
  assumes "areas a n pa pb pc pd xs" "pb < pc" "cmp (xs ! pb) (xs ! a) > 0" "cmp (xs ! pc) (xs ! a) < 0"
  shows "areas a n pa (pb + 1) (pc - 1) pd (xs[pb := xs ! pc, pc := xs ! pb])"
proof -
  note b = areas_bounds [OF assms(1)] and v = areas_nth [OF assms(1)]
  have l: "pb < length xs" "pc < length xs" using b assms(2) by auto
  note n = exchange_nth [OF l]
  have a: "xs[pb := xs ! pc, pc := xs ! pb] ! a = xs ! a" using b assms(2) unfolding n by auto
  show ?thesis
    unfolding areas_def a
  proof (intro conjI allI impI)
    fix i assume "a \<le> i \<and> i < pa"
    then show "cmp (xs[pb := xs ! pc, pc := xs ! pb] ! i) (xs ! a) = 0"
      unfolding n using v(1) [of i] b assms(2) by auto
  next
    fix i assume "pa \<le> i \<and> i < pb + 1"
    then show "cmp (xs[pb := xs ! pc, pc := xs ! pb] ! i) (xs ! a) < 0"
      unfolding n using v(2) [of i] b assms(2,4) by (cases "i = pb") auto
  next
    fix i assume "pc - 1 < i \<and> i \<le> pd"
    then show "cmp (xs[pb := xs ! pc, pc := xs ! pb] ! i) (xs ! a) > 0"
      unfolding n using v(3) [of i] b assms(2,3) by (cases "i = pc") auto
  next
    fix i assume "pd < i \<and> i < a + n"
    then show "cmp (xs[pb := xs ! pc, pc := xs ! pb] ! i) (xs ! a) = 0"
      unfolding n using v(4) [of i] b assms(2) by auto
  qed (use b assms(2) in auto)
qed

lemma scan_up_areas:
  "areas a n pa pb pc pd xs \<Longrightarrow>
   \<exists>ys pa' pb' sw'. scan_up cmp a pa pb pc sw xs = Some (ys, pa', pb', sw') \<and>
     areas a n pa' pb' pc pd ys \<and> perm_in a n xs ys \<and> pb \<le> pb' \<and>
     (pb' \<le> pc \<longrightarrow> cmp (ys ! pb') (ys ! a) > 0)"
proof (induction "Suc pc - pb" arbitrary: pa pb sw xs rule: less_induct)
  case less
  note b = areas_bounds [OF less.prems]
  show ?case
  proof (cases "pb \<le> pc \<and> cmp (xs ! pb) (xs ! a) \<le> 0")
    case False
    then show ?thesis using less.prems b by (subst scan_up.simps) (auto simp: cmp_at_Some)
  next
    case True
    have l: "pa < length xs" "pb < length xs" "a < length xs" using b True by auto
    have m: "Suc pc - (pb + 1) < Suc pc - pb" using True by auto
    show ?thesis
    proof (cases "cmp (xs ! pb) (xs ! a) = 0")
      case True2: True
      let ?ys = "xs[pa := xs ! pb, pb := xs ! pa]"
      obtain zs pa' pb' sw' where z: "scan_up cmp a (pa + 1) (pb + 1) pc True ?ys = Some (zs, pa', pb', sw')"
          "areas a n pa' pb' pc pd zs" "perm_in a n ?ys zs" "pb + 1 \<le> pb'" "pb' \<le> pc \<longrightarrow> cmp (zs ! pb') (zs ! a) > 0"
        using less.hyps [OF m areas_equal_up [OF less.prems _ True2]] True by blast
      have "perm_in a n xs ?ys" by (rule perm_in_swap) (use b True in auto)
      then have "perm_in a n xs zs" using z(3) by (rule perm_in_trans)
      with z True True2 l show ?thesis by (subst scan_up.simps) (auto simp: cmp_at_Some swap_at_Some)
    next
      case False
      then have "cmp (xs ! pb) (xs ! a) < 0" using True by linarith
      then obtain zs pa' pb' sw' where z: "scan_up cmp a pa (pb + 1) pc sw xs = Some (zs, pa', pb', sw')"
          "areas a n pa' pb' pc pd zs" "perm_in a n xs zs" "pb + 1 \<le> pb'" "pb' \<le> pc \<longrightarrow> cmp (zs ! pb') (zs ! a) > 0"
        using less.hyps [OF m areas_less_up [OF less.prems]] True by blast
      with True False l show ?thesis by (subst scan_up.simps) (auto simp: cmp_at_Some)
    qed
  qed
qed

lemma scan_down_areas:
  "areas a n pa pb pc pd xs \<Longrightarrow> (pb \<le> pc \<longrightarrow> cmp (xs ! pb) (xs ! a) > 0) \<Longrightarrow>
   \<exists>ys pc' pd' sw'. scan_down cmp a pb pc pd sw xs = Some (ys, pc', pd', sw') \<and>
     areas a n pa pb pc' pd' ys \<and> perm_in a n xs ys \<and> pc' \<le> pc \<and>
     (pb \<le> pc' \<longrightarrow> pb < pc' \<and> cmp (ys ! pb) (ys ! a) > 0 \<and> cmp (ys ! pc') (ys ! a) < 0)"
proof (induction pc arbitrary: pd sw xs rule: less_induct)
  case (less pc)
  note b = areas_bounds [OF less.prems(1)]
  show ?case
  proof (cases "pb \<le> pc \<and> cmp (xs ! pc) (xs ! a) \<ge> 0")
    case False
    then show ?thesis using less.prems b by (subst scan_down.simps) (auto simp: cmp_at_Some le_less)
  next
    case True
    have l: "pc < length xs" "pd < length xs" "a < length xs" "pc \<noteq> 0" using b True by auto
    have m: "pc - 1 < pc" using l by simp
    show ?thesis
    proof (cases "cmp (xs ! pc) (xs ! a) = 0")
      case True2: True
      then have ne: "pb \<noteq> pc" using less.prems(2) True by auto
      let ?ys = "xs[pc := xs ! pd, pd := xs ! pc]"
      have "?ys ! pb = xs ! pb" "?ys ! a = xs ! a" unfolding exchange_nth [OF l(1,2)] using b ne True by auto
      then have "pb \<le> pc - 1 \<longrightarrow> cmp (?ys ! pb) (?ys ! a) > 0" using less.prems(2) True by simp
      then obtain zs pc' pd' sw' where z: "scan_down cmp a pb (pc - 1) (pd - 1) True ?ys = Some (zs, pc', pd', sw')"
          "areas a n pa pb pc' pd' zs" "perm_in a n ?ys zs" "pc' \<le> pc - 1"
          "pb \<le> pc' \<longrightarrow> pb < pc' \<and> cmp (zs ! pb) (zs ! a) > 0 \<and> cmp (zs ! pc') (zs ! a) < 0"
        using less.IH [OF m areas_equal_down [OF less.prems(1) _ True2]] True by blast
      have "perm_in a n xs ?ys" by (rule perm_in_swap) (use b True in auto)
      then have "perm_in a n xs zs" using z(3) by (rule perm_in_trans)
      with z True True2 l show ?thesis by (subst scan_down.simps) (auto simp: cmp_at_Some swap_at_Some)
    next
      case False
      then have g: "cmp (xs ! pc) (xs ! a) > 0" using True by linarith
      have "pb \<le> pc - 1 \<longrightarrow> cmp (xs ! pb) (xs ! a) > 0" using less.prems(2) True by simp
      then obtain zs pc' pd' sw' where z: "scan_down cmp a pb (pc - 1) pd sw xs = Some (zs, pc', pd', sw')"
          "areas a n pa pb pc' pd' zs" "perm_in a n xs zs" "pc' \<le> pc - 1"
          "pb \<le> pc' \<longrightarrow> pb < pc' \<and> cmp (zs ! pb) (zs ! a) > 0 \<and> cmp (zs ! pc') (zs ! a) < 0"
        using less.IH [OF m areas_greater_down [OF less.prems(1) _ g]] True by blast
      with True False l show ?thesis by (subst scan_down.simps) (auto simp: cmp_at_Some)
    qed
  qed
qed

lemma part_loop_areas:
  "areas a n pa pb pc pd xs \<Longrightarrow>
   \<exists>ys pa' pb' pc' pd' sw'. part_loop cmp a pa pb pc pd sw xs = Some (ys, pa', pb', pc', pd', sw') \<and>
     areas a n pa' pb' pc' pd' ys \<and> perm_in a n xs ys \<and> pc' < pb'"
proof (induction "Suc pc - pb" arbitrary: pa pb pc pd sw xs rule: less_induct)
  case less
  obtain ys pa1 pb1 sw1 where u: "scan_up cmp a pa pb pc sw xs = Some (ys, pa1, pb1, sw1)"
      "areas a n pa1 pb1 pc pd ys" "perm_in a n xs ys" "pb \<le> pb1" "pb1 \<le> pc \<longrightarrow> cmp (ys ! pb1) (ys ! a) > 0"
    using scan_up_areas [OF less.prems] by blast
  obtain zs pc1 pd1 sw2 where d: "scan_down cmp a pb1 pc pd sw1 ys = Some (zs, pc1, pd1, sw2)"
      "areas a n pa1 pb1 pc1 pd1 zs" "perm_in a n ys zs" "pc1 \<le> pc"
      "pb1 \<le> pc1 \<longrightarrow> pb1 < pc1 \<and> cmp (zs ! pb1) (zs ! a) > 0 \<and> cmp (zs ! pc1) (zs ! a) < 0"
    using scan_down_areas [OF u(2,5)] by blast
  have p: "perm_in a n xs zs" using u(3) d(3) by (rule perm_in_trans)
  show ?case
  proof (cases "pb1 > pc1")
    case True
    with u(1) d(1,2) p show ?thesis by (subst part_loop.simps) auto
  next
    case False
    then have c: "pb1 < pc1" "cmp (zs ! pb1) (zs ! a) > 0" "cmp (zs ! pc1) (zs ! a) < 0" using d(5) by auto
    note b = areas_bounds [OF d(2)]
    let ?ws = "zs[pb1 := zs ! pc1, pc1 := zs ! pb1]"
    have m: "Suc (pc1 - 1) - (pb1 + 1) < Suc pc - pb" using c(1) u(4) d(4) by linarith
    obtain vs pa' pb' pc' pd' sw' where v: "part_loop cmp a pa1 (pb1 + 1) (pc1 - 1) pd1 True ?ws = Some (vs, pa', pb', pc', pd', sw')"
        "areas a n pa' pb' pc' pd' vs" "perm_in a n ?ws vs" "pc' < pb'"
      using less.hyps [OF m areas_swap [OF d(2) c]] by blast
    have "perm_in a n zs ?ws" by (rule perm_in_swap) (use b c in auto)
    then have "perm_in a n xs vs" using p v(3) by (meson perm_in_trans)
    moreover have "swap_at zs pb1 pc1 = Some ?ws" by (rule swap_at_Some) (use b c in auto)
    ultimately show ?thesis using u(1) d(1) v c(1) by (subst part_loop.simps) auto
  qed
qed

text \<open>The equal elements are moved from the ends to the middle.\<close>

definition three_areas :: "'a \<Rightarrow> nat \<Rightarrow> nat \<Rightarrow> nat \<Rightarrow> nat \<Rightarrow> 'a list \<Rightarrow> bool" where
  "three_areas v a b c d xs \<longleftrightarrow>
     (\<forall>i. a \<le> i \<and> i < b \<longrightarrow> cmp (xs ! i) v < 0) \<and> (\<forall>i. b \<le> i \<and> i < c \<longrightarrow> cmp (xs ! i) v = 0) \<and>
     (\<forall>i. c \<le> i \<and> i < d \<longrightarrow> cmp (xs ! i) v > 0)"

lemma three_areas_sorted:
  assumes "three_areas v a (a + m) (a + n - g) (a + n) xs" "m + g \<le> n"
    and "sorted_in cmp a m xs" "sorted_in cmp (a + n - g) g xs"
  shows "sorted_in cmp a n xs"
  unfolding sorted_in_def
proof (intro allI impI)
  fix i j assume ij: "a \<le> i \<and> i < j \<and> j < a + n"
  have v: "cmp (xs ! k) v < 0" if "a \<le> k" "k < a + m" for k using assms(1) that by (simp add: three_areas_def)
  have e: "cmp (xs ! k) v = 0" if "a + m \<le> k" "k < a + n - g" for k using assms(1) that by (simp add: three_areas_def)
  have w: "cmp (xs ! k) v > 0" if "a + n - g \<le> k" "k < a + n" for k using assms(1) that by (simp add: three_areas_def)
  consider "j < a + m" | "i < a + m" "a + m \<le> j" | "a + m \<le> i" "j < a + n - g"
    | "a + m \<le> i" "i < a + n - g" "a + n - g \<le> j" | "a + n - g \<le> i" by linarith
  then show "cmp (xs ! i) (xs ! j) \<le> 0"
  proof cases
    case 1
    then show ?thesis using ij assms(3) by (simp add: sorted_in_def)
  next
    case 2
    then have "cmp (xs ! j) v \<ge> 0" using e [of j] w [of j] ij by linarith
    then show ?thesis using v [of i] 2 ij less_le by blast
  next
    case 3
    then show ?thesis using e [of i] e [of j] ij equal_le by simp
  next
    case 4
    then show ?thesis using e [of i] w [of j] ij le_greater [of "xs ! i" v "xs ! j"] by simp
  next
    case 5
    then show ?thesis using ij assms(2,4) by (simp add: sorted_in_def)
  qed
qed

end

lemma vecswap_run:
  "pi + n \<le> pj \<Longrightarrow> pj + n \<le> length xs \<Longrightarrow>
   \<exists>ys. vecswap xs pi pj n = Some ys \<and> length ys = length xs \<and> mset ys = mset xs \<and>
     (\<forall>k. ys ! k = (if pi \<le> k \<and> k < pi + n then xs ! (k + (pj - pi))
        else if pj \<le> k \<and> k < pj + n then xs ! (k - (pj - pi)) else xs ! k))"
  using swapfunc_run [of pi n pj xs] by (auto simp: vecswap_def)

lemma med3_in:
  "a < length xs \<Longrightarrow> b < length xs \<Longrightarrow> c < length xs \<Longrightarrow> \<exists>k \<in> {a, b, c}. med3 cmp xs a b c = Some k"
  by (simp add: med3_def cmp_at_Some)

lemma choose_pivot_in:
  assumes "7 \<le> n" "a + n \<le> length xs"
  shows "\<exists>pm. choose_pivot cmp a n xs = Some pm \<and> a \<le> pm \<and> pm < a + n"
proof (cases "n > 40")
  case True
  define d where "d = n div 8"
  have d: "4 * d \<le> n div 2" "n div 2 + d < n" "0 < d" "2 * d < n" using True by (simp_all add: d_def)
  have l: "a + n div 2 - d < length xs" "a + n div 2 < length xs" "a + n div 2 + d < length xs" using assms d by linarith+
  obtain pl where pl: "med3 cmp xs a (a + d) (a + 2 * d) = Some pl" "pl \<in> {a, a + d, a + 2 * d}"
    using med3_in [of a xs "a + d" "a + 2 * d" cmp] assms d by auto
  obtain pm where pm: "med3 cmp xs (a + n div 2 - d) (a + n div 2) (a + n div 2 + d) = Some pm"
      "pm \<in> {a + n div 2 - d, a + n div 2, a + n div 2 + d}"
    using med3_in [of "a + n div 2 - d" xs "a + n div 2" "a + n div 2 + d" cmp] l by auto
  have h: "a + (n - 1) - 2 * d < length xs" "a + (n - 1) - d < length xs" "a + (n - 1) < length xs" using assms by simp_all
  obtain pn where pn: "med3 cmp xs (a + (n - 1) - 2 * d) (a + (n - 1) - d) (a + (n - 1)) = Some pn"
      "pn \<in> {a + (n - 1) - 2 * d, a + (n - 1) - d, a + (n - 1)}"
    using med3_in [of "a + (n - 1) - 2 * d" xs "a + (n - 1) - d" "a + (n - 1)" cmp] h by auto
  have "a \<le> pl \<and> pl < a + n" using pl(2) d by auto
  moreover have "d \<le> n div 2" "n div 2 < n" using d by linarith+
  then have "a \<le> pm \<and> pm < a + n" using pm(2) d(2) by auto
  moreover have "2 * d \<le> n - 1" "d \<le> n - 1" "0 < n" using d by linarith+
  then have "a \<le> pn \<and> pn < a + n" using pn(2) by auto
  ultimately have r: "k \<in> {pl, pm, pn} \<Longrightarrow> a \<le> k \<and> k < a + n" for k by blast
  then obtain k where "med3 cmp xs pl pm pn = Some k" "k \<in> {pl, pm, pn}"
    using med3_in [of pl xs pm pn cmp] r [of pl] r [of pm] r [of pn] assms(2) by (metis insert_iff order_less_le_trans)
  with True r pl(1) pm(1) pn(1) show ?thesis by (auto simp: choose_pivot_def Let_def d_def [symmetric])
next
  case False
  obtain k where "n > 7 \<longrightarrow> med3 cmp xs a (a + n div 2) (a + (n - 1)) = Some k \<and> k \<in> {a, a + n div 2, a + (n - 1)}"
  proof -
    have "a + n div 2 < length xs" "a + (n - 1) < length xs" "a < length xs" using assms by simp_all
    then show thesis using med3_in [of a xs "a + n div 2" "a + (n - 1)" cmp] that by blast
  qed
  with False assms show ?thesis by (auto simp: choose_pivot_def Let_def)
qed

context comparator
begin

lemma equal_to_middle:
  assumes ar: "areas a n pa pb pc pd xs" and pb: "pb = pc + 1"
  shows "\<exists>ys zs. vecswap xs a (pb - min (pa - a) (pb - pa)) (min (pa - a) (pb - pa)) = Some ys \<and>
    vecswap ys pb (a + n - min (pd - pc) (a + n - pd - 1)) (min (pd - pc) (a + n - pd - 1)) = Some zs \<and>
    perm_in a n xs zs \<and> three_areas (xs ! a) a (a + (pb - pa)) (a + n - (pd - pc)) (a + n) zs"
proof -
  note b = areas_bounds [OF ar] and v = areas_nth [OF ar]
  define r where "r = min (pa - a) (pb - pa)"
  define t where "t = min (pd - pc) (a + n - pd - 1)"
  have r: "a + r \<le> pb - r" "r \<le> pa - a" "r \<le> pb - pa" "r = pa - a \<or> r = pb - pa" "pb - r + r = pb"
    using b by (auto simp: r_def)
  have t: "pb + t \<le> a + n - t" "t \<le> pd - pc" "t \<le> a + n - pd - 1" "t = pd - pc \<or> t = a + n - pd - 1" "a + n - t + t = a + n"
    using b pb by (auto simp: t_def)
  obtain ys where ys: "vecswap xs a (pb - r) r = Some ys" "length ys = length xs" "mset ys = mset xs"
      "\<And>k. ys ! k = (if a \<le> k \<and> k < a + r then xs ! (k + (pb - r - a))
        else if pb - r \<le> k \<and> k < pb - r + r then xs ! (k - (pb - r - a)) else xs ! k)"
    using vecswap_run [OF r(1), of xs] r(5) b pb by auto
  obtain zs where zs: "vecswap ys pb (a + n - t) t = Some zs" "length zs = length xs" "mset zs = mset xs"
      "\<And>k. zs ! k = (if pb \<le> k \<and> k < pb + t then ys ! (k + (a + n - t - pb))
        else if a + n - t \<le> k \<and> k < a + n - t + t then ys ! (k - (a + n - t - pb)) else ys ! k)"
    using vecswap_run [OF t(1), of ys] t(5) b ys(2,3) by auto
  have high: "ys ! k = xs ! k" if "pb \<le> k" for k
    unfolding ys(4) using that r b by auto
  have low: "zs ! k = ys ! k" if "k < pb" for k
    unfolding zs(4) using that t b by auto
  have "perm_in a n xs zs"
  proof (rule perm_inI)
    fix i assume "i < a \<or> a + n \<le> i"
    then show "zs ! i = xs ! i"
    proof
      assume i: "i < a"
      then have "zs ! i = ys ! i" by (intro low) (use b in linarith)
      moreover have "\<not> a \<le> i" "\<not> pb - r \<le> i" using i r(1) by linarith+
      ultimately show ?thesis by (simp add: ys(4))
    next
      assume i: "a + n \<le> i"
      then have "\<not> i < pb + t" "\<not> i < a + n - t + t" "pb \<le> i" using t(1,5) by linarith+
      then show ?thesis using high [of i] by (simp add: zs(4))
    qed
  qed (use zs in simp_all)
  moreover have "three_areas (xs ! a) a (a + (pb - pa)) (a + n - (pd - pc)) (a + n) zs"
    unfolding three_areas_def
  proof (intro conjI allI impI)
    fix i assume i: "a \<le> i \<and> i < a + (pb - pa)"
    have "zs ! i = ys ! i" by (rule low) (use i b in linarith)
    also have "cmp \<dots> (xs ! a) < 0"
    proof (cases "i < a + r")
      case True
      then have "ys ! i = xs ! (i + (pb - r - a))" using i by (simp add: ys(4))
      moreover have "pa \<le> i + (pb - r - a)" "i + (pb - r - a) < pb" using True i r b by linarith+
      ultimately show ?thesis using v(2) [of "i + (pb - r - a)"] by simp
    next
      case False
      then have "r = pa - a" using i r(4) by linarith
      then have "pa \<le> i" "i < pb - r" using False i b by linarith+
      then have "ys ! i = xs ! i" using False by (simp add: ys(4))
      then show ?thesis using v(2) [of i] \<open>pa \<le> i\<close> \<open>i < pb - r\<close> by simp
    qed
    finally show "cmp (zs ! i) (xs ! a) < 0" .
  next
    fix i assume i: "a + (pb - pa) \<le> i \<and> i < a + n - (pd - pc)"
    show "cmp (zs ! i) (xs ! a) = 0"
    proof (cases "i < pb")
      case True
      then have z: "zs ! i = ys ! i" by (rule low)
      show ?thesis
      proof (cases "pb - r \<le> i")
        case True2: True
        have "ys ! i = xs ! (i - (pb - r - a))" using True True2 r(1,5) by (auto simp: ys(4))
        then show ?thesis using z v(1) [of "i - (pb - r - a)"] True True2 r b by simp
      next
        case False
        then have "r = pb - pa" using i r(4) b by linarith
        then have "i < pa" "a + r \<le> i" using False i b by linarith+
        then show ?thesis using z v(1) [of i] False i by (simp add: ys(4))
      qed
    next
      case False
      show ?thesis
      proof (cases "i < pb + t")
        case True
        then have "zs ! i = xs ! (i + (a + n - t - pb))" using False t(1) high [of "i + (a + n - t - pb)"] by (simp add: zs(4))
        then show ?thesis using v(4) [of "i + (a + n - t - pb)"] True False t b by simp
      next
        case False2: False
        then have "t = pd - pc" using i t(4) b pb by linarith
        then have "pd < i" "i < a + n - t" using False2 i b pb by linarith+
        then have "zs ! i = xs ! i" using False False2 high [of i] by (simp add: zs(4))
        then show ?thesis using v(4) [of i] \<open>pd < i\<close> \<open>i < a + n - t\<close> by simp
      qed
    qed
  next
    fix i assume i: "a + n - (pd - pc) \<le> i \<and> i < a + n"
    have pi: "pb \<le> i" using i b pb by linarith
    show "cmp (zs ! i) (xs ! a) > 0"
    proof (cases "a + n - t \<le> i")
      case True
      then have "zs ! i = xs ! (i - (a + n - t - pb))"
        using i t(1,5) high [of "i - (a + n - t - pb)"] by (auto simp: zs(4))
      moreover have "pb + (a + n - t - pb) = a + n - t" using t(1) by simp
      then have "pb \<le> i - (a + n - t - pb)" "i - (a + n - t - pb) < pb + t" using True i t(5) by linarith+
      then have "pc < i - (a + n - t - pb)" "i - (a + n - t - pb) \<le> pd" using t(2) pb b by linarith+
      ultimately show ?thesis using v(3) [of "i - (a + n - t - pb)"] by simp
    next
      case False
      then have "t = a + n - pd - 1" using i t(4) by linarith
      then have "i \<le> pd" "pb + t \<le> i" using False i b pb by linarith+
      then have "zs ! i = xs ! i" using False high [of i] pi by (simp add: zs(4))
      then show ?thesis using v(3) [of i] \<open>i \<le> pd\<close> pi pb by simp
    qed
  qed
  ultimately show ?thesis using ys(1) zs(1) by (auto simp: r_def t_def)
qed

lemma three_areas_perm:
  assumes "perm_in b k xs ys" "b + k \<le> length xs" "three_areas v a c d e xs"
    and "b = a \<and> b + k = c \<or> b = d \<and> b + k = e" "c \<le> d" "a \<le> c" "d \<le> e"
  shows "three_areas v a c d e ys"
  using assms(4)
proof
  assume bk: "b = a \<and> b + k = c"
  have "\<forall>i. b \<le> i \<and> i < b + k \<longrightarrow> cmp (ys ! i) v < 0"
    by (rule perm_in_all [OF assms(1,2)]) (use assms(3) bk in \<open>simp add: three_areas_def\<close>)
  then show ?thesis using bk assms(3,5,7) perm_in_outside [OF assms(1)] by (auto simp: three_areas_def)
next
  assume bk: "b = d \<and> b + k = e"
  have "\<forall>i. b \<le> i \<and> i < b + k \<longrightarrow> cmp (ys ! i) v > 0"
    by (rule perm_in_all [OF assms(1,2)]) (use assms(3) bk in \<open>simp add: three_areas_def\<close>)
  then show ?thesis using bk assms(3,5,6) perm_in_outside [OF assms(1)] by (auto simp: three_areas_def)
qed

lemma qsort_total:
  "a + n \<le> length xs \<Longrightarrow> \<exists>ys. qsort cmp a n xs = Some ys \<and> perm_in a n xs ys \<and> sorted_in cmp a n ys"
proof (induction n arbitrary: a xs rule: less_induct)
  case (less n)
  show ?case
  proof (cases "n < 7")
    case True
    then show ?thesis using insertion_sort_total [OF less.prems] by (subst qsort.simps) simp
  next
    case False
    obtain pm where pm: "choose_pivot cmp a n xs = Some pm" "a \<le> pm" "pm < a + n"
      using choose_pivot_in [of n a xs cmp] less.prems False by auto
    let ?xs = "xs[a := xs ! pm, pm := xs ! a]"
    have sw: "swap_at xs a pm = Some ?xs" by (rule swap_at_Some) (use pm less.prems in auto)
    have p0: "perm_in a n xs ?xs" by (rule perm_in_swap) (use pm less.prems False in auto)
    have "areas a n (a + 1) (a + 1) (a + (n - 1)) (a + (n - 1)) ?xs"
      using less.prems False by (auto simp: areas_def less_Suc_eq)
    then obtain ys pa pb pc pd cnt where part:
        "part_loop cmp a (a + 1) (a + 1) (a + (n - 1)) (a + (n - 1)) False ?xs = Some (ys, pa, pb, pc, pd, cnt)"
        "areas a n pa pb pc pd ys" "perm_in a n ?xs ys" "pc < pb"
      using part_loop_areas by blast
    have p1: "perm_in a n xs ys" using p0 part(3) by (rule perm_in_trans)
    note b = areas_bounds [OF part(2)]
    show ?thesis
    proof (cases cnt)
      case False2: False
      have "a + n \<le> length ys" using b by blast
      then obtain zs where "insertion_sort cmp a n (a + 1) ys = Some zs" "perm_in a n ys zs" "sorted_in cmp a n zs"
        using insertion_sort_total by blast
      with False False2 pm sw part(1) p1 show ?thesis by (subst qsort.simps) (auto intro: perm_in_trans)
    next
      case True
      define m where "m = pb - pa"
      define g where "g = pd - pc"
      have pb: "pb = pc + 1" using part(4) b by linarith
      obtain us vs where mv: "vecswap ys a (pb - min (pa - a) (pb - pa)) (min (pa - a) (pb - pa)) = Some us"
          "vecswap us pb (a + n - min (pd - pc) (a + n - pd - 1)) (min (pd - pc) (a + n - pd - 1)) = Some vs"
          "perm_in a n ys vs" "three_areas (ys ! a) a (a + m) (a + n - g) (a + n) vs"
        using equal_to_middle [OF part(2) pb] by (auto simp: m_def g_def)
      have sz: "m + g < n" "g \<le> n" using b pb by (auto simp: m_def g_def)
      have lv: "length vs = length xs" using perm_in_length [OF mv(3)] perm_in_length [OF p1] by simp
      obtain ws where ws: "(if m > 1 then qsort cmp a m vs else Some vs) = Some ws" "perm_in a m vs ws" "sorted_in cmp a m ws"
      proof (cases "m > 1")
        case True
        with less.IH [of m a vs] sz lv less.prems that show thesis by auto
      next
        case False
        then have "sorted_in cmp a m vs" by (auto simp: sorted_in_def)
        with False that show thesis by simp
      qed
      have w3: "three_areas (ys ! a) a (a + m) (a + n - g) (a + n) ws"
        by (rule three_areas_perm [OF ws(2) _ mv(4)]) (use sz lv less.prems in auto)
      have lw: "length ws = length xs" using perm_in_length [OF ws(2)] lv by simp
      obtain zs where zs: "(if g > 1 then qsort cmp (a + n - g) g ws else Some ws) = Some zs" "perm_in (a + n - g) g ws zs"
          "sorted_in cmp (a + n - g) g zs"
      proof (cases "g > 1")
        case True
        with less.IH [of g "a + n - g" ws] sz lw less.prems that show thesis by auto
      next
        case False
        then have "sorted_in cmp (a + n - g) g ws" by (auto simp: sorted_in_def)
        with False that show thesis by simp
      qed
      have z3: "three_areas (ys ! a) a (a + m) (a + n - g) (a + n) zs"
        by (rule three_areas_perm [OF zs(2) _ w3]) (use sz lw less.prems in auto)
      have "sorted_in cmp a m zs"
        using ws(3) perm_in_outside [OF zs(2)] sz by (auto simp: sorted_in_def)
      then have "sorted_in cmp a n zs" using three_areas_sorted [OF z3 _ _ zs(3)] sz by simp
      moreover have "perm_in a n vs ws" "perm_in a n ws zs"
        using perm_in_mono [OF ws(2), of a n] perm_in_mono [OF zs(2), of a n] sz by auto
      then have "perm_in a n xs zs" using p1 mv(3) by (meson perm_in_trans)
      moreover have "qsort cmp a n xs = Some zs"
        using False True pm(1) sw part(1) mv(1,2) ws(1) [unfolded m_def] zs(1) [unfolded g_def]
        by (subst qsort.simps) (simp add: m_def g_def Let_def split del: if_split)
      ultimately show ?thesis by blast
    qed
  qed
qed

end

section \<open>The comparisons of DIP\<close>

text \<open>\<open>lessThan\<close> of \<open>DipVersionP\<close> sorts keys upwards, \<open>myComparator\<close> of \<open>DipVectorP\<close> sorts pairs downwards by
  their estimate.\<close>

record dip_pair =
  pair_key :: u16
  pair_estimate :: u8

definition lessThan :: "u16 \<Rightarrow> u16 \<Rightarrow> int" where
  "lessThan x y = (if x < y then -1 else if x > y then 1 else 0)"

definition myComparator :: "dip_pair \<Rightarrow> dip_pair \<Rightarrow> int" where
  "myComparator x y =
     (if pair_estimate x < pair_estimate y then 1 else if pair_estimate x > pair_estimate y then -1 else 0)"

interpretation keys: comparator lessThan
  by unfold_locales (auto simp: lessThan_def split: if_splits)

interpretation pairs: comparator myComparator
  by unfold_locales (auto simp: myComparator_def split: if_splits)

section \<open>Properties\<close>

text \<open>C13: Sorting.  For every comparison that is the sign of a total preorder and every part of an array,
  \<open>qsort\<close> returns, it never leaves the array and changes nothing outside the part, the elements of the
  part are a rearrangement of what they were, and they are in order.\<close>

theorem qsort_sorts:
  assumes "comparator cmp" and "a + n \<le> length xs"
  shows "\<exists>ys. qsort cmp a n xs = Some ys \<and> length ys = length xs \<and>
    take a ys = take a xs \<and> drop (a + n) ys = drop (a + n) xs \<and>
    mset (take n (drop a ys)) = mset (take n (drop a xs)) \<and>
    sorted_wrt (\<lambda>x y. cmp x y \<le> 0) (take n (drop a ys))"
proof -
  obtain ys where ys: "qsort cmp a n xs = Some ys" "perm_in a n xs ys" "sorted_in cmp a n ys"
    using comparator.qsort_total [OF assms] by blast
  have l: "length ys = length xs" using ys(2) by (rule perm_in_length)
  have out: "take a ys = take a xs" "drop (a + n) ys = drop (a + n) xs"
    using assms(2) l by (auto intro!: nth_equalityI perm_in_outside [OF ys(2)])
  have "sorted_wrt (\<lambda>x y. cmp x y \<le> 0) (take n (drop a ys))"
    using ys(3) l assms(2) by (auto simp: sorted_wrt_iff_nth_less sorted_in_def)
  with ys(1) l out part_mset [OF ys(2)] show ?thesis by blast
qed

text \<open>The middle of an array of keys, long enough for a partition.\<close>

lemma qsort_sorts_witness:
  "\<exists>ys. qsort lessThan 1 8 [9, 5, 3, 8, 3, 1, 9, 2, 3, 0] = Some ys \<and>
    take 1 ys = [9] \<and> drop 9 ys = [0] \<and> sorted_wrt (\<lambda>x y. lessThan x y \<le> 0) (take 8 (drop 1 ys))"
  using qsort_sorts [OF keys.comparator_axioms, of 1 8 "[9, 5, 3, 8, 3, 1, 9, 2, 3, 0]"] by auto

end
