(* ===== verification/Sim_Gain.thy ===== *)
theory Sim_Gain
  imports Sim_Queue
begin

text \<open>
  The gain table of the simulator's radio model (\<open>sim_gain.c\<close>): for every node a chain of links to the
  nodes that hear it, and the noise parameters of the node.

  A \<open>double\<close> is its 64-bit representation, as the table only stores and returns it; the sampling of
  noise, which computes with it, is left out.  The chains have one owner, so a pointer to a link is the
  chain from it on.  The arrays have an element for every node from 0 to
  \<open>TOSSIM_MAX_NODES\<close>; node numbers are \<open>int\<close>, and any other index is an access outside the array,
  \<^term>\<open>None\<close>.  The functions cut a number above \<open>TOSSIM_MAX_NODES\<close> to it before they index.
\<close>

type_synonym double = "64 word"

definition TOSSIM_MAX_NODES :: int where "TOSSIM_MAX_NODES = 1000"

record gain_entry =
  ge_mote :: int
  ge_gain :: double

record gain_state =
  gs_sim :: sim_state
  connectivity :: "nat \<Rightarrow> gain_entry list"
  localNoise :: "nat \<Rightarrow> double \<times> double"
  sensitivity :: double

section \<open>Operations\<close>

text \<open>The bounds of the two arrays.\<close>

definition gain_slot :: "int \<Rightarrow> nat option" where
  "gain_slot i = (if 0 \<le> i \<and> i \<le> TOSSIM_MAX_NODES then Some (nat i) else None)"

definition gain_at_node :: "int \<Rightarrow> gain_state \<Rightarrow> gain_state" where
  "gain_at_node node s = s\<lparr>gs_sim := sim_set_node (word_of_int node) (gs_sim s)\<rparr>"

text \<open>The element whose chain \<open>sim_gain_first\<close> returns.\<close>

definition first_slot :: "int \<Rightarrow> nat option" where
  "first_slot src = (if src > TOSSIM_MAX_NODES then gain_slot TOSSIM_MAX_NODES else gain_slot src)"

definition sim_gain_first :: "int \<Rightarrow> gain_state \<Rightarrow> gain_entry list option" where
  "sim_gain_first src s = do { i \<leftarrow> first_slot src; Some (connectivity s i) }"

definition sim_gain_next :: "gain_entry list \<Rightarrow> gain_entry list option" where
  "sim_gain_next link = (case link of [] \<Rightarrow> None | e # es \<Rightarrow> Some es)"

text \<open>\<open>malloc\<close> succeeds or not; the code does not test its result.\<close>

definition sim_gain_allocate_link :: "bool \<Rightarrow> int \<Rightarrow> gain_entry option" where
  "sim_gain_allocate_link ok mote = (if ok then Some \<lparr>ge_mote = mote, ge_gain = 0xC16312D000000000\<rparr> else None)"

text \<open>The walk to the first link to \<open>dest\<close>, and the store through it.\<close>

fun store_gain :: "int \<Rightarrow> double \<Rightarrow> gain_entry list \<Rightarrow> gain_entry list option" where
  "store_gain dest g [] = None" |
  "store_gain dest g (e # es) =
     (if ge_mote e = dest then Some (e\<lparr>ge_mote := dest, ge_gain := g\<rparr> # es)
      else map_option ((#) e) (store_gain dest g es))"

text \<open>A gain that is found is stored through the chain, a new link is put in front of \<open>connectivity[src]\<close>.\<close>

definition sim_gain_add :: "bool \<Rightarrow> int \<Rightarrow> int \<Rightarrow> double \<Rightarrow> gain_state \<Rightarrow> gain_state option" where
  "sim_gain_add ok src dest gain s = do {
     let temp = sim_node (gs_sim s);
     let src = (if src > TOSSIM_MAX_NODES then TOSSIM_MAX_NODES else src);
     let s = gain_at_node src s;
     chain \<leftarrow> sim_gain_first src s;
     s \<leftarrow>
       (case store_gain dest gain chain of
          Some chain \<Rightarrow> do { i \<leftarrow> first_slot src; Some (s\<lparr>connectivity := (connectivity s)(i := chain)\<rparr>) }
        | None \<Rightarrow> do {
            e \<leftarrow> sim_gain_allocate_link ok dest;
            i \<leftarrow> gain_slot src;
            Some (s\<lparr>connectivity := (connectivity s)(i := e\<lparr>ge_mote := dest, ge_gain := gain\<rparr> # connectivity s i)\<rparr>) });
     Some (s\<lparr>gs_sim := sim_set_node temp (gs_sim s)\<rparr>) }"

fun find_gain :: "int \<Rightarrow> gain_entry list \<Rightarrow> double option" where
  "find_gain dest [] = None" |
  "find_gain dest (e # es) = (if ge_mote e = dest then Some (ge_gain e) else find_gain dest es)"

definition sim_gain_value :: "int \<Rightarrow> int \<Rightarrow> gain_state \<Rightarrow> (gain_state \<times> double) option" where
  "sim_gain_value src dest s = do {
     let temp = sim_node (gs_sim s);
     let s = gain_at_node src s;
     chain \<leftarrow> sim_gain_first src s;
     let s = s\<lparr>gs_sim := sim_set_node temp (gs_sim s)\<rparr>;
     Some (s, case find_gain dest chain of Some g \<Rightarrow> g | None \<Rightarrow> 0x3FF0000000000000) }"

definition sim_gain_connected :: "int \<Rightarrow> int \<Rightarrow> gain_state \<Rightarrow> (gain_state \<times> bool) option" where
  "sim_gain_connected src dest s = do {
     let temp = sim_node (gs_sim s);
     let s = gain_at_node src s;
     chain \<leftarrow> sim_gain_first src s;
     Some (s\<lparr>gs_sim := sim_set_node temp (gs_sim s)\<rparr>, find_gain dest chain \<noteq> None) }"

fun unlink_all :: "int \<Rightarrow> gain_entry list \<Rightarrow> gain_entry list" where
  "unlink_all dest [] = []" |
  "unlink_all dest (e # es) = (if ge_mote e = dest then unlink_all dest es else e # unlink_all dest es)"

text \<open>\<open>connectivity[src]\<close> is stored to when the link in front goes; a later one is unlinked in the chain.\<close>

definition sim_gain_remove :: "int \<Rightarrow> int \<Rightarrow> gain_state \<Rightarrow> gain_state option" where
  "sim_gain_remove src dest s = do {
     let temp = sim_node (gs_sim s);
     let src = (if src > TOSSIM_MAX_NODES then TOSSIM_MAX_NODES else src);
     let s = gain_at_node src s;
     chain \<leftarrow> sim_gain_first src s;
     i \<leftarrow> (if chain \<noteq> [] \<and> ge_mote (hd chain) = dest then gain_slot src else first_slot src);
     let s = s\<lparr>connectivity := (connectivity s)(i := unlink_all dest chain)\<rparr>;
     Some (s\<lparr>gs_sim := sim_set_node temp (gs_sim s)\<rparr>) }"

definition sim_gain_set_noise_floor :: "int \<Rightarrow> double \<Rightarrow> double \<Rightarrow> gain_state \<Rightarrow> gain_state option" where
  "sim_gain_set_noise_floor node mean width s = do {
     let node = (if node > TOSSIM_MAX_NODES then TOSSIM_MAX_NODES else node);
     i \<leftarrow> gain_slot node;
     Some (s\<lparr>localNoise := (localNoise s)(i := (mean, width))\<rparr>) }"

definition sim_gain_noise_mean :: "int \<Rightarrow> gain_state \<Rightarrow> double option" where
  "sim_gain_noise_mean node s = do {
     let node = (if node > TOSSIM_MAX_NODES then TOSSIM_MAX_NODES else node);
     i \<leftarrow> gain_slot node;
     Some (fst (localNoise s i)) }"

definition sim_gain_noise_range :: "int \<Rightarrow> gain_state \<Rightarrow> double option" where
  "sim_gain_noise_range node s = do {
     let node = (if node > TOSSIM_MAX_NODES then TOSSIM_MAX_NODES else node);
     i \<leftarrow> gain_slot node;
     Some (snd (localNoise s i)) }"

definition sim_gain_set_sensitivity :: "double \<Rightarrow> gain_state \<Rightarrow> gain_state" where
  "sim_gain_set_sensitivity v s = s\<lparr>sensitivity := v\<rparr>"

definition sim_gain_sensitivity :: "gain_state \<Rightarrow> double" where
  "sim_gain_sensitivity s = sensitivity s"

section \<open>The table as a map\<close>

text \<open>The contract: a finite map from pairs of nodes to gains.\<close>

definition links :: "gain_state \<Rightarrow> nat \<times> int \<Rightarrow> double option" where
  "links s p = find_gain (snd p) (connectivity s (fst p))"

definition node_consistent :: "gain_state \<Rightarrow> bool" where
  "node_consistent s \<longleftrightarrow> TOS_NODE_ID (gs_sim s) = ucast (current_node (gs_sim s))"

locale gain_map =
  fixes slot :: "int \<Rightarrow> nat option"
    and add :: "int \<Rightarrow> int \<Rightarrow> double \<Rightarrow> 's \<Rightarrow> 's option"
    and remove :: "int \<Rightarrow> int \<Rightarrow> 's \<Rightarrow> 's option"
    and table :: "'s \<Rightarrow> nat \<times> int \<Rightarrow> double option"
    and keeps :: "'s \<Rightarrow> 's \<Rightarrow> bool"
  assumes add_law: "keeps s0 s \<Longrightarrow> slot i = Some k \<Longrightarrow>
      \<exists>s'. add i d g s = Some s' \<and> keeps s0 s' \<and> table s' = (table s)((k, d) \<mapsto> g)"
    and remove_law: "keeps s0 s \<Longrightarrow> slot i = Some k \<Longrightarrow>
      \<exists>s'. remove i d s = Some s' \<and> keeps s0 s' \<and> table s' = (table s)((k, d) := None)"
begin

text \<open>One update: \<^term>\<open>Some g\<close> adds a link, \<^term>\<open>None\<close> removes it.\<close>

lemma update_law:
  "keeps s0 s \<Longrightarrow> slot i = Some k \<Longrightarrow>
   \<exists>s'. (case v of Some g \<Rightarrow> add i d g s | None \<Rightarrow> remove i d s) = Some s' \<and> keeps s0 s' \<and> table s' = (table s)((k, d) := v)"
  using add_law [of s0 s i k d] remove_law [of s0 s i k d] by (cases v) auto

end

lemma store_gain_find:
  "(case store_gain d g es of Some es' \<Rightarrow> find_gain d es \<noteq> None \<and> find_gain x es' = (if x = d then Some g else find_gain x es)
    | None \<Rightarrow> find_gain d es = None)"
  by (induction es) (auto split: option.splits)

lemma unlink_all_find: "find_gain x (unlink_all d es) = (if x = d then None else find_gain x es)"
  by (induction es) auto

lemma slot_clamp: "first_slot (if src > TOSSIM_MAX_NODES then TOSSIM_MAX_NODES else src) = first_slot src"
    "gain_slot (if src > TOSSIM_MAX_NODES then TOSSIM_MAX_NODES else src) = first_slot src"
  by (simp_all add: first_slot_def)

definition same_sim :: "gain_state \<Rightarrow> gain_state \<Rightarrow> bool" where
  "same_sim s0 s \<longleftrightarrow> node_consistent s0 \<and> gs_sim s = gs_sim s0 \<and> localNoise s = localNoise s0 \<and> sensitivity s = sensitivity s0"

lemma node_restored:
  "node_consistent s \<Longrightarrow> sim_set_node (sim_node (gs_sim s)) (sim_set_node n (gs_sim s)) = gs_sim s"
  by (cases "gs_sim s") (simp add: node_consistent_def sim_node_def sim_set_node_def)

lemma add_links:
  assumes "same_sim s0 s" "first_slot src = Some i"
  shows "\<exists>s'. sim_gain_add True src d g s = Some s' \<and> same_sim s0 s' \<and> links s' = (links s)((i, d) \<mapsto> g)"
proof -
  let ?src = "if src > TOSSIM_MAX_NODES then TOSSIM_MAX_NODES else src"
  have n: "node_consistent s" using assms(1) by (simp add: same_sim_def node_consistent_def)
  obtain es where es: "store_gain d g (connectivity s i) = Some es \<or>
      store_gain d g (connectivity s i) = None \<and> es = \<lparr>ge_mote = d, ge_gain = g\<rparr> # connectivity s i"
    by (cases "store_gain d g (connectivity s i)") auto
  then have f: "find_gain x es = (if x = d then Some g else find_gain x (connectivity s i))" for x
    using store_gain_find [where d = d and g = g and es = "connectivity s i" and x = x] by auto
  have c: "first_slot ?src = Some i" "gain_slot ?src = Some i" using assms(2) slot_clamp [of src] by simp_all
  have "sim_gain_add True src d g s = Some (s\<lparr>connectivity := (connectivity s)(i := es)\<rparr>)"
    using es c node_restored [OF n] unfolding sim_gain_add_def Let_def
    by (auto simp only: sim_gain_first_def) (simp_all add: gain_at_node_def sim_gain_allocate_link_def)
  moreover have "links (s\<lparr>connectivity := (connectivity s)(i := es)\<rparr>) = (links s)((i, d) \<mapsto> g)"
    by (rule ext) (auto simp: links_def f)
  ultimately show ?thesis using assms(1) by (simp add: same_sim_def)
qed

lemma remove_links:
  assumes "same_sim s0 s" "first_slot src = Some i"
  shows "\<exists>s'. sim_gain_remove src d s = Some s' \<and> same_sim s0 s' \<and> links s' = (links s)((i, d) := None)"
proof -
  let ?src = "if src > TOSSIM_MAX_NODES then TOSSIM_MAX_NODES else src"
  have n: "node_consistent s" using assms(1) by (simp add: same_sim_def node_consistent_def)
  have c: "first_slot ?src = Some i" "gain_slot ?src = Some i" using assms(2) slot_clamp [of src] by simp_all
  have "sim_gain_remove src d s = Some (s\<lparr>connectivity := (connectivity s)(i := unlink_all d (connectivity s i))\<rparr>)"
    using c node_restored [OF n] unfolding sim_gain_remove_def Let_def
    by (simp only: sim_gain_first_def) (simp add: gain_at_node_def)
  moreover have "links (s\<lparr>connectivity := (connectivity s)(i := unlink_all d (connectivity s i))\<rparr>) = (links s)((i, d) := None)"
    by (rule ext) (auto simp: links_def unlink_all_find)
  ultimately show ?thesis using assms(1) by (simp add: same_sim_def)
qed

interpretation gains: gain_map first_slot "sim_gain_add True" sim_gain_remove links same_sim
  by unfold_locales (blast intro: add_links, blast intro: remove_links)

section \<open>Property\<close>

text \<open>Runs of updates, on the table and on the map.\<close>

fun update_gains :: "(int \<times> int \<times> double option) list \<Rightarrow> gain_state \<Rightarrow> gain_state option" where
  "update_gains [] s = Some s" |
  "update_gains ((i, d, v) # us) s =
     do { s \<leftarrow> (case v of Some g \<Rightarrow> sim_gain_add True i d g s | None \<Rightarrow> sim_gain_remove i d s); update_gains us s }"

definition link_key :: "int \<Rightarrow> int \<Rightarrow> nat \<times> int" where
  "link_key src dest = (nat (min src TOSSIM_MAX_NODES), dest)"

fun update_map :: "(int \<times> int \<times> double option) list \<Rightarrow> (nat \<times> int \<Rightarrow> double option) \<Rightarrow> nat \<times> int \<Rightarrow> double option" where
  "update_map [] t = t" |
  "update_map ((i, d, v) # us) t = update_map us (t(link_key i d := v))"

lemma first_slot_key: "0 \<le> i \<Longrightarrow> first_slot i = Some (fst (link_key i d))"
  by (simp add: first_slot_def gain_slot_def link_key_def TOSSIM_MAX_NODES_def)

lemma update_gains_map:
  "same_sim s0 s \<Longrightarrow> \<forall>(i, d, v) \<in> set us. 0 \<le> i \<Longrightarrow>
   \<exists>s'. update_gains us s = Some s' \<and> same_sim s0 s' \<and> links s' = update_map us (links s)"
proof (induction us arbitrary: s)
  case (Cons u us)
  obtain i d v where u: "u = (i, d, v)" by (cases u) auto
  then have "first_slot i = Some (fst (link_key i d))" using Cons.prems(2) first_slot_key by simp
  from gains.update_law [OF Cons.prems(1) this, where v = v and d = d] Cons.IH Cons.prems(2) u
  show ?case by (fastforce simp: link_key_def)
qed simp

text \<open>C38: The gain table is a map.  After any run of additions and removals of links, in any order and with
  repetitions, \<open>sim_gain_value\<close> and \<open>sim_gain_connected\<close> answer for every pair of nodes what the map
  from pairs to gains answers after the same run, where numbers of senders above \<open>TOSSIM_MAX_NODES\<close>
  stand for that node and a missing link has the gain 1.0; none of them indexes the table outside its
  bounds; and all of them, the queries included, leave the simulator on the node it was at.  Senders are
  numbered from 0, memory for a link is granted, and the simulator's two names of the current node agree
  at the start.\<close>

theorem gain_table_is_map:
  assumes "node_consistent s" and "\<forall>(i, d, v) \<in> set us. 0 \<le> i" and "0 \<le> src"
  shows "\<exists>s'. update_gains us s = Some s' \<and> gs_sim s' = gs_sim s \<and>
    sim_gain_value src dest s' =
      Some (s', case update_map us (links s) (link_key src dest) of Some g \<Rightarrow> g | None \<Rightarrow> 0x3FF0000000000000) \<and>
    sim_gain_connected src dest s' = Some (s', update_map us (links s) (link_key src dest) \<noteq> None)"
proof -
  have "same_sim s s" using assms(1) by (simp add: same_sim_def)
  then obtain s' where s': "update_gains us s = Some s'" "same_sim s s'" "links s' = update_map us (links s)"
    using update_gains_map assms(2) by blast
  have n: "node_consistent s'" "gs_sim s' = gs_sim s" using s'(2) by (simp_all add: same_sim_def node_consistent_def)
  have "find_gain dest (connectivity s' (fst (link_key src dest))) = update_map us (links s) (link_key src dest)"
    using fun_cong [OF s'(3), of "link_key src dest"] by (simp add: links_def link_key_def)
  with s'(1) n first_slot_key [OF assms(3), of dest] node_restored [OF n(1)] show ?thesis
    by (simp add: sim_gain_value_def sim_gain_connected_def sim_gain_first_def gain_at_node_def)
qed

definition empty_gains :: gain_state where
  "empty_gains = \<lparr>gs_sim = \<lparr>eventHeap = init_heap (\<lambda>_. init_node), sim_events = (\<lambda>_. None), sim_blocks = {},
     sim_ticks = 0, current_node = 0, TOS_NODE_ID = 0, sim_seed = 1\<rparr>,
     connectivity = (\<lambda>_. []), localNoise = (\<lambda>_. (0, 0)), sensitivity = 0x4010000000000000\<rparr>"

text \<open>Node 2000 is node 1000; the second gain of a link replaces the first, and removal takes it away.\<close>

lemma gain_table_is_map_witness:
  "\<exists>s'. update_gains [(1, 2, Some 7), (2000, 2, Some 8), (1, 2, Some 9), (3, 4, Some 5), (3, 4, None)] empty_gains = Some s' \<and>
    sim_gain_value 1000 2 s' = Some (s', 8)"
  using gain_table_is_map [of empty_gains "[(1, 2, Some 7), (2000, 2, Some 8), (1, 2, Some 9), (3, 4, Some 5), (3, 4, None)]" 1000 2]
  by (auto simp: node_consistent_def empty_gains_def link_key_def TOSSIM_MAX_NODES_def)

text \<open>A negative sender is an access in front of the array.\<close>

lemma negative_node_undefined: "src < 0 \<Longrightarrow> sim_gain_value src dest s = None \<and> sim_gain_add ok src dest g s = None"
  by (auto simp: sim_gain_value_def sim_gain_add_def sim_gain_first_def first_slot_def gain_slot_def TOSSIM_MAX_NODES_def)

end
