(* ===== verification/Tun_Hc1.thy ===== *)
theory Tun_Hc1
  imports Backip_Prelude
begin

text \<open>
  Header compression of the tunnel daemon (\<open>serial_tun.c\<close>): IPv6 and UDP headers in the HC1 and HC2
  forms of RFC 4944, in the subset the daemon has.

  A packet is in a buffer from an offset on; \<open>int\<close> lengths are integers.  The block that
  \<open>lowpan_decompress\<close> allocates is given by its first \<open>new_len\<close> bytes; those behind them have no
  content and are not used.
\<close>

section \<open>Constants\<close>

definition DISPATCH_COMPRESSED_IPV6 :: u8 where "DISPATCH_COMPRESSED_IPV6 = 0x42"
definition IP6_VERSION :: u8 where "IP6_VERSION = 0x60"
definition IP6_VERSION_MASK :: u8 where "IP6_VERSION_MASK = 0xf0"
definition NEXT_HEADER_TCP :: u8 where "NEXT_HEADER_TCP = 6"
definition NEXT_HEADER_UDP :: u8 where "NEXT_HEADER_UDP = 17"
definition NEXT_HEADER_ICMP6 :: u8 where "NEXT_HEADER_ICMP6 = 58"
definition HC1_SRC_PREFIX_MASK :: u8 where "HC1_SRC_PREFIX_MASK = 0x80"
definition HC1_SRC_PREFIX_LINKLOCAL :: u8 where "HC1_SRC_PREFIX_LINKLOCAL = 0x80"
definition HC1_SRC_IFACEID_MASK :: u8 where "HC1_SRC_IFACEID_MASK = 0x40"
definition HC1_DST_PREFIX_MASK :: u8 where "HC1_DST_PREFIX_MASK = 0x20"
definition HC1_DST_PREFIX_LINKLOCAL :: u8 where "HC1_DST_PREFIX_LINKLOCAL = 0x20"
definition HC1_DST_IFACEID_MASK :: u8 where "HC1_DST_IFACEID_MASK = 0x10"
definition HC1_INLINE :: u8 where "HC1_INLINE = 0"
definition HC1_TCFL_ZERO :: u8 where "HC1_TCFL_ZERO = 0x08"
definition HC1_NEXTHDR_MASK :: u8 where "HC1_NEXTHDR_MASK = 0x06"
definition HC1_NEXTHDR_UDP :: u8 where "HC1_NEXTHDR_UDP = 0x02"
definition HC1_NEXTHDR_ICMP :: u8 where "HC1_NEXTHDR_ICMP = 0x04"
definition HC1_NEXTHDR_TCP :: u8 where "HC1_NEXTHDR_TCP = 0x06"
definition HC1_HC2_MASK :: u8 where "HC1_HC2_MASK = 0x01"
definition HC1_HC2_PRESENT :: u8 where "HC1_HC2_PRESENT = 0x01"
definition HC1_HC2_NONE :: u8 where "HC1_HC2_NONE = 0"
definition HC2_UDP_SRC_PORT_MASK :: u8 where "HC2_UDP_SRC_PORT_MASK = 0x80"
definition HC2_UDP_DST_PORT_MASK :: u8 where "HC2_UDP_DST_PORT_MASK = 0x40"
definition HC2_UDP_LEN_MASK :: u8 where "HC2_UDP_LEN_MASK = 0x20"

lemmas hc1_defs = DISPATCH_COMPRESSED_IPV6_def IP6_VERSION_def IP6_VERSION_MASK_def
  NEXT_HEADER_TCP_def NEXT_HEADER_UDP_def NEXT_HEADER_ICMP6_def
  HC1_SRC_PREFIX_MASK_def HC1_SRC_PREFIX_LINKLOCAL_def HC1_SRC_IFACEID_MASK_def
  HC1_DST_PREFIX_MASK_def HC1_DST_PREFIX_LINKLOCAL_def HC1_DST_IFACEID_MASK_def
  HC1_INLINE_def HC1_TCFL_ZERO_def HC1_NEXTHDR_MASK_def HC1_NEXTHDR_UDP_def HC1_NEXTHDR_ICMP_def
  HC1_NEXTHDR_TCP_def HC1_HC2_MASK_def HC1_HC2_PRESENT_def HC1_HC2_NONE_def
  HC2_UDP_SRC_PORT_MASK_def HC2_UDP_DST_PORT_MASK_def HC2_UDP_LEN_MASK_def

text \<open>The fields of the headers are at these offsets: \<open>plen\<close> 4, \<open>nxt_hdr\<close> 6, \<open>hlim\<close> 7, the addresses 8
  and 24, the UDP header 40.\<close>

definition ipv6_addr_is_linklocal_unicast :: "mem \<Rightarrow> bool" where
  "ipv6_addr_is_linklocal_unicast addr \<longleftrightarrow>
     addr ! 0 = 0xFE \<and> addr ! 1 = 0x80 \<and> addr ! 2 = 0 \<and> addr ! 3 = 0 \<and>
     addr ! 4 = 0 \<and> addr ! 5 = 0 \<and> addr ! 6 = 0 \<and> addr ! 7 = 0"

section \<open>Compression\<close>

text \<open>An address: the bits of the encoding and the bytes that follow; the interface identifier is always
  inline.\<close>

definition compress_addr :: "u8 \<Rightarrow> mem \<Rightarrow> u8 \<times> mem" where
  "compress_addr linklocal addr =
     (if ipv6_addr_is_linklocal_unicast addr then (linklocal OR HC1_INLINE, drop 8 addr)
      else (HC1_INLINE OR HC1_INLINE, take 8 addr @ drop 8 addr))"

definition compress_next :: "u8 \<Rightarrow> u8 \<times> mem" where
  "compress_next nxt =
     (if nxt = NEXT_HEADER_UDP then (HC1_NEXTHDR_UDP, [])
      else if nxt = NEXT_HEADER_ICMP6 then (HC1_NEXTHDR_ICMP, [])
      else if nxt = NEXT_HEADER_TCP then (HC1_NEXTHDR_TCP, [])
      else (HC1_INLINE, [nxt]))"

definition lowpan_compress :: "mem \<Rightarrow> nat \<Rightarrow> int \<Rightarrow> (mem \<times> nat \<times> int) option" where
  "lowpan_compress buf begin len = do {
     vtc \<leftarrow> rd buf begin;
     if vtc AND IP6_VERSION_MASK \<noteq> IP6_VERSION then Some (buf, begin, len)
     else do {
       nxt \<leftarrow> rd buf (begin + 6);
       let hc1 = (if nxt = NEXT_HEADER_UDP then HC1_HC2_PRESENT else HC1_HC2_NONE);
       let hc2 = (if nxt = NEXT_HEADER_UDP then [0] else [] :: mem);
       hlim \<leftarrow> rd buf (begin + 7);
       src \<leftarrow> rdn buf (begin + 8) 16;
       let (bits, src) = compress_addr HC1_SRC_PREFIX_LINKLOCAL src;
       let hc1 = hc1 OR bits;
       dst \<leftarrow> rdn buf (begin + 24) 16;
       let (bits, dst) = compress_addr HC1_DST_PREFIX_LINKLOCAL dst;
       let hc1 = hc1 OR bits OR HC1_TCFL_ZERO;
       let (bits, nh) = compress_next nxt;
       let hc1 = hc1 OR bits;
       if hc1 AND HC1_HC2_MASK = HC1_HC2_PRESENT \<and> hc1 AND HC1_NEXTHDR_MASK = HC1_NEXTHDR_UDP
       then do {
         udp \<leftarrow> rdn buf (begin + 40) 8;
         let new = DISPATCH_COMPRESSED_IPV6 # hc1 # hc2 @ hlim # src @ dst @ nh @ udp;
         let begin = begin + 48 - length new;
         buf \<leftarrow> wrn buf begin new;
         Some (buf, begin, len + int (length new) - 48) }
       else do {
         let new = DISPATCH_COMPRESSED_IPV6 # hc1 # hc2 @ hlim # src @ dst @ nh;
         let begin = begin + 40 - length new;
         buf \<leftarrow> wrn buf begin new;
         Some (buf, begin, len + int (length new) - 40) } } }"

section \<open>Decompression\<close>

text \<open>Reading \<open>n\<close> bytes moves the pointer and shortens the length.\<close>

definition take_in :: "nat \<Rightarrow> mem \<Rightarrow> nat \<Rightarrow> int \<Rightarrow> (mem \<times> nat \<times> int) option" where
  "take_in n m p len = do { bs \<leftarrow> rdn m p n; Some (bs, p + n, len - int n) }"

definition expand_addr :: "bool \<Rightarrow> bool \<Rightarrow> mem \<Rightarrow> nat \<Rightarrow> int \<Rightarrow> (mem \<times> nat \<times> int) option" where
  "expand_addr prefix_inline iid_inline m p len = do {
     (prefix, p, len) \<leftarrow> (if prefix_inline then take_in 8 m p len else Some ([0xFE, 0x80, 0, 0, 0, 0, 0, 0], p, len));
     (iid, p, len) \<leftarrow> (if iid_inline then take_in 8 m p len else Some (replicate 8 0, p, len));
     Some (prefix @ iid, p, len) }"

definition expand_next :: "u8 \<Rightarrow> mem \<Rightarrow> nat \<Rightarrow> int \<Rightarrow> (u8 \<times> nat \<times> int) option" where
  "expand_next hc1 m p len =
     (let nh = hc1 AND HC1_NEXTHDR_MASK in
      if nh = HC1_INLINE then do { b \<leftarrow> rd m p; Some (b, p + 1, len - 1) }
      else if nh = HC1_NEXTHDR_UDP then Some (NEXT_HEADER_UDP, p, len)
      else if nh = HC1_NEXTHDR_ICMP then Some (NEXT_HEADER_ICMP6, p, len)
      else if nh = HC1_NEXTHDR_TCP then Some (NEXT_HEADER_TCP, p, len)
      else Some (0, p, len))"

definition expand_port :: "bool \<Rightarrow> mem \<Rightarrow> nat \<Rightarrow> int \<Rightarrow> (mem \<times> nat \<times> int) option" where
  "expand_port inline m p len = (if inline then take_in 2 m p len else Some ([0, 0], p, len))"

text \<open>The remaining bytes are copied; a negative length is an enormous one for \<open>memcpy\<close>.\<close>

definition rest_of :: "mem \<Rightarrow> nat \<Rightarrow> int \<Rightarrow> mem option" where
  "rest_of m p len = (if len < 0 then None else rdn m p (nat len))"

definition ip6_header :: "u16 \<Rightarrow> u8 \<Rightarrow> u8 \<Rightarrow> mem \<Rightarrow> mem \<Rightarrow> mem" where
  "ip6_header plen nxt hlim src dst = [0 OR IP6_VERSION, 0, 0, 0, lo8 plen, hi8 plen, nxt, hlim] @ src @ dst"

text \<open>The result is missing when there is no memory for the block.\<close>

definition lowpan_decompress :: "bool \<Rightarrow> mem \<Rightarrow> nat \<Rightarrow> int \<Rightarrow> (mem \<times> int) option option" where
  "lowpan_decompress memory m p len =
     (if \<not> memory then Some None
      else do {
        hc1 \<leftarrow> rd m p;
        let (p, len) = (p + 1, len - 1);
        (hc2, p, len) \<leftarrow> (if hc1 AND HC1_HC2_MASK = HC1_HC2_PRESENT
          then do { b \<leftarrow> rd m p; Some (b, p + 1, len - 1) } else Some (0, p, len));
        hlim \<leftarrow> rd m p;
        let (p, len) = (p + 1, len - 1);
        (src, p, len) \<leftarrow> expand_addr (hc1 AND HC1_SRC_PREFIX_MASK = HC1_INLINE) (hc1 AND HC1_SRC_IFACEID_MASK = HC1_INLINE) m p len;
        (dst, p, len) \<leftarrow> expand_addr (hc1 AND HC1_DST_PREFIX_MASK = HC1_INLINE) (hc1 AND HC1_DST_IFACEID_MASK = HC1_INLINE) m p len;
        (nxt, p, len) \<leftarrow> expand_next hc1 m p len;
        if hc1 AND HC1_HC2_MASK = HC1_HC2_PRESENT \<and> hc1 AND HC1_NEXTHDR_MASK = HC1_NEXTHDR_UDP
        then do {
          (sport, p, len) \<leftarrow> expand_port (hc2 AND HC2_UDP_SRC_PORT_MASK = HC1_INLINE) m p len;
          (dport, p, len) \<leftarrow> expand_port (hc2 AND HC2_UDP_DST_PORT_MASK = HC1_INLINE) m p len;
          (ulen, p, len) \<leftarrow> (if hc2 AND HC2_UDP_LEN_MASK = HC1_INLINE then take_in 2 m p len
             else Some (let l = word_of_int (len - 2 + 8) :: u16 in [lo8 l, hi8 l], p, len));
          (chksum, p, len) \<leftarrow> take_in 2 m p len;
          data \<leftarrow> rest_of m p len;
          let plen = htons (word_of_int (len + 8));
          Some (Some (ip6_header plen nxt hlim src dst @ sport @ dport @ ulen @ chksum @ data, len + 48)) }
        else do {
          data \<leftarrow> rest_of m p len;
          Some (Some (ip6_header (htons (word_of_int len)) nxt hlim src dst @ data, len + 40)) } })"

section \<open>Compressed packets\<close>

text \<open>A packet by its parts; \<open>front\<close> is what precedes the next header: the version, the traffic class,
  the flow label and the payload length.  \<open>lowpan_compress\<close> looks at the version alone.\<close>

definition ip6_packet :: "mem \<Rightarrow> u8 \<Rightarrow> u8 \<Rightarrow> mem \<Rightarrow> mem \<Rightarrow> mem \<Rightarrow> mem" where
  "ip6_packet front nxt hlim src dst body = front @ [nxt, hlim] @ src @ dst @ body"

definition front_ok :: "mem \<Rightarrow> bool" where
  "front_ok front \<longleftrightarrow> length front = 6 \<and> front ! 0 AND IP6_VERSION_MASK = IP6_VERSION"

text \<open>What the encoding carries of that: traffic class and flow label are zero and the payload length
  is that of the body.  The body holds a whole header if it is UDP.\<close>

definition plain_front :: "nat \<Rightarrow> mem" where
  "plain_front n = [IP6_VERSION, 0, 0, 0, lo8 (htons (word_of_nat n)), hi8 (htons (word_of_nat n))]"

definition plain_packet :: "u8 \<Rightarrow> u8 \<Rightarrow> mem \<Rightarrow> mem \<Rightarrow> mem \<Rightarrow> mem" where
  "plain_packet nxt hlim src dst body = ip6_header (htons (word_of_nat (length body))) nxt hlim src dst @ body"

definition packet_ok :: "u8 \<Rightarrow> mem \<Rightarrow> mem \<Rightarrow> mem \<Rightarrow> bool" where
  "packet_ok nxt src dst body \<longleftrightarrow> length src = 16 \<and> length dst = 16 \<and> length body < 2 ^ 16 \<and>
     (nxt = NEXT_HEADER_UDP \<longrightarrow> 8 \<le> length body)"

definition hc1_bits :: "u8 \<Rightarrow> mem \<Rightarrow> mem \<Rightarrow> u8" where
  "hc1_bits nxt src dst =
     (if nxt = NEXT_HEADER_UDP then HC1_HC2_PRESENT else HC1_HC2_NONE) OR fst (compress_addr HC1_SRC_PREFIX_LINKLOCAL src) OR
     fst (compress_addr HC1_DST_PREFIX_LINKLOCAL dst) OR HC1_TCFL_ZERO OR fst (compress_next nxt)"

definition hc1_header :: "u8 \<Rightarrow> u8 \<Rightarrow> mem \<Rightarrow> mem \<Rightarrow> mem" where
  "hc1_header nxt hlim src dst =
     DISPATCH_COMPRESSED_IPV6 # hc1_bits nxt src dst # (if nxt = NEXT_HEADER_UDP then [0] else []) @
     hlim # snd (compress_addr HC1_SRC_PREFIX_LINKLOCAL src) @ snd (compress_addr HC1_DST_PREFIX_LINKLOCAL dst) @
     snd (compress_next nxt)"

lemma bits_cases:
  assumes "length src = 16" "length dst = 16"
  shows "hc1_bits nxt src dst AND HC1_HC2_MASK = (if nxt = NEXT_HEADER_UDP then HC1_HC2_PRESENT else HC1_HC2_NONE)"
    "hc1_bits nxt src dst AND HC1_NEXTHDR_MASK = fst (compress_next nxt)"
    "hc1_bits nxt src dst AND HC1_SRC_PREFIX_MASK = HC1_INLINE \<longleftrightarrow> \<not> ipv6_addr_is_linklocal_unicast src"
    "hc1_bits nxt src dst AND HC1_DST_PREFIX_MASK = HC1_INLINE \<longleftrightarrow> \<not> ipv6_addr_is_linklocal_unicast dst"
    "hc1_bits nxt src dst AND HC1_SRC_IFACEID_MASK = HC1_INLINE" "hc1_bits nxt src dst AND HC1_DST_IFACEID_MASK = HC1_INLINE"
  by (simp_all add: hc1_bits_def compress_addr_def compress_next_def hc1_defs)

lemma take_in_at:
  assumes "has_at m p (xs @ ys)" "length xs = n"
  shows "take_in n m p len = Some (xs, p + n, len - int n)" "has_at m (p + n) ys"
  using assms rdn_has_at [of m p xs] by (auto simp: take_in_def has_at_append)

lemma linklocal_prefix:
  assumes "ipv6_addr_is_linklocal_unicast a" "length a = 16"
  shows "[0xFE, 0x80, 0, 0, 0, 0, 0, 0] @ drop 8 a = a"
proof -
  have "take 8 a = [0xFE, 0x80, 0, 0, 0, 0, 0, 0]"
    using assms by (intro nth_equalityI)
      (auto simp: ipv6_addr_is_linklocal_unicast_def less_Suc_eq numeral_eq_Suc nth_Cons')
  then show ?thesis by (metis append_take_drop_id)
qed

lemma expand_addr_at:
  assumes "has_at m p (snd (compress_addr ll a) @ ys)" "length a = 16"
  defines "n \<equiv> length (snd (compress_addr ll a))"
  shows "expand_addr (\<not> ipv6_addr_is_linklocal_unicast a) True m p len = Some (a, p + n, len - int n)"
    "has_at m (p + n) ys"
proof -
  note at = assms(1) [unfolded compress_addr_def]
  show "expand_addr (\<not> ipv6_addr_is_linklocal_unicast a) True m p len = Some (a, p + n, len - int n)"
  proof (cases "ipv6_addr_is_linklocal_unicast a")
    case True
    then show ?thesis
      using take_in_at(1) [of m p "drop 8 a" ys 8 len] at assms(2) linklocal_prefix [OF True]
      by (simp add: expand_addr_def n_def compress_addr_def)
  next
    case False
    then have "has_at m p ((take 8 a @ drop 8 a) @ ys)" using at by simp
    then have "has_at m p (take 8 a @ drop 8 a @ ys)" by (simp only: append_assoc)
    then have "take_in 8 m p len = Some (take 8 a, p + 8, len - 8)" "has_at m (p + 8) (drop 8 a @ ys)"
      using take_in_at [of m p "take 8 a" "drop 8 a @ ys" 8] assms(2) by simp_all
    with take_in_at(1) [OF this(2), of 8 "len - 8"] False show ?thesis
      using assms(2) by (simp add: expand_addr_def n_def compress_addr_def)
  qed
  show "has_at m (p + n) ys" using assms(1) by (simp add: n_def has_at_append)
qed

lemma expand_next_at:
  assumes "has_at m p (snd (compress_next nxt) @ ys)" "hc1 AND HC1_NEXTHDR_MASK = fst (compress_next nxt)"
  defines "n \<equiv> length (snd (compress_next nxt))"
  shows "expand_next hc1 m p len = Some (nxt, p + n, len - int n)" "has_at m (p + n) ys"
proof -
  show "expand_next hc1 m p len = Some (nxt, p + n, len - int n)"
    using assms(1,2) by (auto simp: expand_next_def n_def compress_next_def hc1_defs Let_def rd_has_at)
  show "has_at m (p + n) ys" using assms(1) by (simp add: n_def has_at_append)
qed

lemma rest_of_at: "has_at m p ys \<Longrightarrow> rest_of m p (int (length ys)) = Some ys"
  by (simp add: rest_of_def rdn_has_at)

lemma hc1_nexthdr_udp [simp]: "fst (compress_next nxt) = HC1_NEXTHDR_UDP \<longleftrightarrow> nxt = NEXT_HEADER_UDP"
  by (simp add: compress_next_def hc1_defs)

text \<open>Decompression of a compressed packet.\<close>

lemma decompress_plain:
  assumes ok: "packet_ok nxt src dst body" and at: "has_at m p (tl (hc1_header nxt hlim src dst) @ body)"
  shows "lowpan_decompress True m p (int (length (tl (hc1_header nxt hlim src dst) @ body))) =
    Some (Some (plain_packet nxt hlim src dst body, int (40 + length body)))"
proof -
  let ?c = "hc1_bits nxt src dst" and ?hc2 = "if nxt = NEXT_HEADER_UDP then [0] else [] :: mem"
  let ?s = "snd (compress_addr HC1_SRC_PREFIX_LINKLOCAL src)" and ?d = "snd (compress_addr HC1_DST_PREFIX_LINKLOCAL dst)"
    and ?n = "snd (compress_next nxt)"
  have len: "length src = 16" "length dst = 16" using ok by (simp_all add: packet_ok_def)
  note bits = bits_cases [OF len, of nxt]
  define p1 where "p1 = p + 1 + length ?hc2"
  define len0 where "len0 = int (length (tl (hc1_header nxt hlim src dst) @ body))"
  define len1 where "len1 = len0 - 1 - int (length ?hc2) - 1"
  have at1: "has_at m (p1 + 1) (?s @ ?d @ ?n @ body)" and hlim: "rd m p1 = Some hlim" and c: "rd m p = Some ?c"
    and hc2: "nxt = NEXT_HEADER_UDP \<Longrightarrow> rd m (p + 1) = Some 0"
    using at by (auto simp: hc1_header_def has_at_append has_at_Cons rd_def p1_def split: if_splits)
  note s = expand_addr_at [OF at1 len(1)]
  note d = expand_addr_at [OF s(2) len(2)]
  note n = expand_next_at [OF d(2) bits(2)]
  have rest: "len1 - int (length ?s) - int (length ?d) - int (length ?n) = int (length body)"
    by (simp add: len1_def len0_def hc1_header_def)
  show ?thesis
  proof (cases "nxt = NEXT_HEADER_UDP")
    case False
    then have "p1 = p + 1" "len1 = len0 - 2" by (simp_all add: p1_def len1_def)
    moreover have "HC1_HC2_NONE \<noteq> HC1_HC2_PRESENT" by (simp add: hc1_defs)
    ultimately show ?thesis
      unfolding len0_def [symmetric]
      using c hlim s(1) [of len1] d(1) [of "len1 - int (length ?s)"] n(1) [of "len1 - int (length ?s) - int (length ?d)"]
        rest rest_of_at [OF n(2)] bits False
      by (simp add: lowpan_decompress_def plain_packet_def Let_def)
  next
    case True
    then have p1: "p1 = p + 2" "len1 = len0 - 3" "?n = []" by (simp_all add: p1_def len1_def compress_next_def)
    have "8 \<le> length body" using ok True by (simp add: packet_ok_def)
    define q where "q = p1 + 1 + length ?s + length ?d"
    obtain a b u k data where body: "body = a @ b @ u @ k @ data" "length a = 2" "length b = 2" "length u = 2" "length k = 2"
    proof
      show "body = take 2 body @ take 2 (drop 2 body) @ take 2 (drop 4 body) @ take 2 (drop 6 body) @ drop 8 body"
        by (simp flip: take_add add: append_assoc [symmetric] drop_drop del: append_assoc) 
    qed (use \<open>8 \<le> length body\<close> in simp_all)
    have at2: "has_at m q (a @ b @ u @ k @ data)" using n(2) body(1) p1(3) by (simp add: q_def add.assoc)
    note t1 = take_in_at [OF at2 body(2)]
    note t2 = take_in_at [OF t1(2) body(3)]
    note t3 = take_in_at [OF t2(2) body(4)]
    note t4 = take_in_at [OF t3(2) body(5)]
    have q: "Suc (Suc (Suc (p + (length ?s + length ?d)))) = q" "Suc (Suc (Suc (p + length ?s + length ?d))) = q"
      "int (length body) - 8 = int (length data)" "HC1_INLINE = 0"
      using p1(1) body by (simp_all add: q_def HC1_INLINE_def)
    have w: "word_of_int (int (length data)) + 8 = (word_of_nat (length body) :: u16)"
      using body by simp
    show ?thesis
      unfolding len0_def [symmetric]
      using c hlim hc2 s(1) [of len1] d(1) [of "len1 - int (length ?s)"] n(1) [of "len1 - int (length ?s) - int (length ?d)"]
        rest rest_of_at [OF t4(2)] bits True p1 q w body(1) [symmetric]
        t1(1) [of "int (length body)"] t2(1) [of "int (length body) - 2"] t3(1) [of "int (length body) - 4"]
        t4(1) [of "int (length body) - 6"]
      by (simp add: lowpan_decompress_def plain_packet_def Let_def expand_port_def)
  qed
qed

text \<open>Compression replaces the headers by the compressed ones.\<close>

lemma has_at_after_put:
  "has_at m (p + length xs) ys \<Longrightarrow> p + length xs = q \<Longrightarrow> has_at (put m p xs) p (xs @ ys)"
  by (auto simp: has_at_append has_at_def put_def)

lemma hc1_header_length: "length src = 16 \<Longrightarrow> length dst = 16 \<Longrightarrow> length (hc1_header nxt hlim src dst) \<le> 36"
  by (auto simp: hc1_header_def compress_addr_def compress_next_def)

lemma plain_packet_ip6:
  "plain_packet nxt hlim src dst body = ip6_packet (plain_front (length body)) nxt hlim src dst body"
  by (simp add: plain_packet_def ip6_header_def ip6_packet_def plain_front_def)

lemma ip6_packet_fields:
  assumes at: "has_at buf p (ip6_packet front nxt hlim src dst body)" and len: "length src = 16" "length dst = 16"
    and front: "front_ok front"
  shows "rd buf p = Some (front ! 0)" "rd buf (p + 6) = Some nxt" "rd buf (p + 7) = Some hlim"
    "rdn buf (p + 8) 16 = Some src" "rdn buf (p + 24) 16 = Some dst" "has_at buf (p + 40) body"
proof -
  have f6: "length front = 6" using front by (simp add: front_ok_def)
  have "has_at buf p ((front @ [nxt, hlim]) @ src @ dst @ body)" using at by (simp add: ip6_packet_def)
  then have h: "has_at buf p (front @ [nxt, hlim])" "has_at buf (p + 8) src"
      "has_at buf (p + 24) dst" "has_at buf (p + 40) body"
    using len f6 unfolding has_at_append by (simp_all add: eval_nat_numeral)
  have "(front @ [nxt, hlim]) ! 0 = front ! 0" using f6 by (simp add: nth_append)
  then show "rd buf p = Some (front ! 0)" "rd buf (p + 6) = Some nxt" "rd buf (p + 7) = Some hlim"
    using has_at_nth [OF h(1), of 0] has_at_nth [OF h(1), of 6] has_at_nth [OF h(1), of 7] has_at_len [OF h(1)] f6
    by (simp_all add: rd_def nth_append)
  show "rdn buf (p + 8) 16 = Some src" "rdn buf (p + 24) 16 = Some dst" "has_at buf (p + 40) body"
    using rdn_has_at h(2-4) len by metis+
qed

lemma compress_plain:
  assumes ok: "packet_ok nxt src dst body" and front: "front_ok front"
    and at: "has_at buf p (ip6_packet front nxt hlim src dst body)"
  defines "h \<equiv> hc1_header nxt hlim src dst"
  shows "\<exists>buf'. lowpan_compress buf p (int (40 + length body)) =
      Some (buf', p + 40 - length h, int (length (h @ body))) \<and>
    has_at buf' (p + 40 - length h) (h @ body) \<and> length buf' = length buf"
proof -
  have len: "length src = 16" "length dst = 16" using ok by (simp_all add: packet_ok_def)
  note f = ip6_packet_fields [OF at len front]
  note bits = bits_cases [OF len, of nxt]
  have hl: "length h \<le> 36" using hc1_header_length len by (simp add: h_def)
  have ver: "front ! 0 AND IP6_VERSION_MASK = IP6_VERSION" using front by (simp add: front_ok_def)
  have bits_eq: "hc1_bits nxt src dst = (((if nxt = NEXT_HEADER_UDP then HC1_HC2_PRESENT else HC1_HC2_NONE) OR
      fst (compress_addr HC1_SRC_PREFIX_LINKLOCAL src)) OR fst (compress_addr HC1_DST_PREFIX_LINKLOCAL dst) OR
      HC1_TCFL_ZERO) OR fst (compress_next nxt)"
    by (simp add: hc1_bits_def or.assoc)
  show ?thesis
  proof (cases "nxt = NEXT_HEADER_UDP")
    case True
    then have b8: "8 \<le> length body" using ok by (simp add: packet_ok_def)
    have at: "has_at buf (p + 40) (take 8 body)" "has_at buf (p + 48) (drop 8 body)"
      using f(6) has_at_append [of buf "p + 40" "take 8 body" "drop 8 body"] b8 by (simp_all add: add.commute)
    have udp: "rdn buf (p + 40) 8 = Some (take 8 body)" using rdn_has_at [OF at(1)] b8 by simp
    let ?new = "h @ take 8 body" and ?q = "p + 40 - length h"
    have fits: "?q + length ?new = p + 48" "p + 48 \<le> length buf" "p + 48 - length ?new = ?q"
      using hl b8 has_at_len [OF at(2)] by simp_all
    have "has_at (put buf ?q ?new) ?q (?new @ drop 8 body)"
      by (rule has_at_after_put) (use at(2) fits in simp_all)
    then have "has_at (put buf ?q ?new) ?q (h @ body)" by simp
    moreover have "lowpan_compress buf p (int (40 + length body)) = Some (put buf ?q ?new, ?q, int (length (h @ body)))"
      using f(1-5) ver bits(1,2) True fits udp b8 bits_eq [symmetric]
      by (simp add: lowpan_compress_def split_beta Let_def h_def hc1_header_def wrn_def)
    ultimately show ?thesis using fits by auto
  next
    case False
    let ?q = "p + 40 - length h"
    have fits: "?q + length h = p + 40" "p + 40 \<le> length buf"
      using hl has_at_len [OF f(6)] by simp_all
    have "has_at (put buf ?q h) ?q (h @ body)"
      by (rule has_at_after_put) (use f(6) fits in simp_all)
    moreover have "lowpan_compress buf p (int (40 + length body)) = Some (put buf ?q h, ?q, int (length (h @ body)))"
      using f(1-5) ver bits(1,2) False fits bits_eq [symmetric]
      by (simp add: lowpan_compress_def split_beta Let_def h_def hc1_header_def wrn_def)
    ultimately show ?thesis using fits by auto
  qed
qed

text \<open>C15: What header compression keeps.  For an IPv6 packet of any addresses and any next header (with
  a whole header of 8 bytes behind it if that is UDP) and a body of less than \<open>2 ^ 16\<close> bytes, the
  compressed form starts with the dispatch byte, is at least four bytes shorter and stays in the buffer;
  it decompresses, when there is memory, to the packet with traffic class and flow label set to zero
  and the payload length set to that of the body: to exactly the packet if it had these.\<close>

theorem hc1_roundtrip:
  assumes "packet_ok nxt src dst body" "front_ok front" "has_at buf p (ip6_packet front nxt hlim src dst body)"
  shows "\<exists>buf' q n. lowpan_compress buf p (int (40 + length body)) = Some (buf', q, n) \<and>
    length buf' = length buf \<and> rd buf' q = Some DISPATCH_COMPRESSED_IPV6 \<and> n + 4 \<le> int (40 + length body) \<and>
    lowpan_decompress True buf' (q + 1) (n - 1) =
      Some (Some (ip6_packet (plain_front (length body)) nxt hlim src dst body, int (40 + length body)))"
proof -
  have len: "length src = 16" "length dst = 16" using assms(1) by (simp_all add: packet_ok_def)
  define h where "h = hc1_header nxt hlim src dst"
  obtain buf' where c: "lowpan_compress buf p (int (40 + length body)) = Some (buf', p + 40 - length h, int (length (h @ body)))"
      "has_at buf' (p + 40 - length h) (h @ body)" "length buf' = length buf"
    using compress_plain [OF assms] by (auto simp: h_def)
  have h: "h = DISPATCH_COMPRESSED_IPV6 # tl h" by (simp add: h_def hc1_header_def)
  then have at: "has_at buf' (p + 40 - length h) (DISPATCH_COMPRESSED_IPV6 # tl h @ body)"
    using c(2) by (metis append_Cons)
  have "int (length (h @ body)) - 1 = int (length (tl h @ body))" using h by (cases h) auto
  moreover have "length h \<le> 36" using hc1_header_length len by (simp add: h_def)
  ultimately show ?thesis
    using c(1,3) at plain_packet_ip6 decompress_plain [OF assms(1), of buf' "p + 40 - length h + 1" hlim]
    by (simp add: has_at_Cons rd_def h_def)
qed

definition ping :: mem where
  "ping = ip6_packet [0x6B, 1, 2, 3, 0, 9] NEXT_HEADER_ICMP6 64 ([0xFE, 0x80] @ replicate 14 0) (replicate 16 7) [128, 0, 1, 2]"

lemma hc1_roundtrip_witness:
  "\<exists>buf' q n. lowpan_compress ping 0 44 = Some (buf', q, n) \<and> n + 4 \<le> 44 \<and>
    lowpan_decompress True buf' (q + 1) (n - 1) =
      Some (Some (ip6_packet [0x60, 0, 0, 0, 0, 4] NEXT_HEADER_ICMP6 64 ([0xFE, 0x80] @ replicate 14 0) (replicate 16 7) [128, 0, 1, 2], 44))"
proof -
  have "plain_front (length [128 :: u8, 0, 1, 2]) = [0x60, 0, 0, 0, 0, 4]" by (simp add: plain_front_def IP6_VERSION_def htons_def lo8_def hi8_def)
  then show ?thesis
    using hc1_roundtrip [of NEXT_HEADER_ICMP6 "[0xFE, 0x80] @ replicate 14 0" "replicate 16 7" "[128, 0, 1, 2]" "[0x6B, 1, 2, 3, 0, 9]" ping 0 64]
    by (auto simp: packet_ok_def front_ok_def hc1_defs has_at_def ping_def ip6_packet_def)
qed

end
