(* ===== verification/Tun_Daemon.thy ===== *)
theory Tun_Daemon
  imports Sf_Sessions Tun_Hc1
begin

text \<open>
  The tunnel daemon (\<open>serial_tun.c\<close>, \<open>tun_dev.c\<close>): IPv6 packets of a tunnel device are compressed,
  cut into link frames and written to the serial source as active messages, and active messages of
  the serial source are put together, decompressed and written to the tunnel device.

  The reassembly buffers have one owner, the list \<open>fragments\<close>; a pointer to one is its index there.
  The link is the serial source of \<open>Sf_Serial\<close>.  The outcomes of the daemon's own system calls
  are scripts in its state; behind the end of a script allocations and writes succeed, the clock is 0
  and the tunnel device has no packet.  Debug output and the pause between two fragments are left out.
\<close>

section \<open>Data\<close>

definition LOWPAN_MTU :: nat where "LOWPAN_MTU = 1280"
definition LOWPAN_OVERHEAD :: nat where "LOWPAN_OVERHEAD = 17"
definition LINK_DATA_MTU :: int where "LINK_DATA_MTU = 100"
definition FRAG_TIMEOUT :: int where "FRAG_TIMEOUT = 60"
definition DISPATCH_UNCOMPRESSED_IPV6 :: u8 where "DISPATCH_UNCOMPRESSED_IPV6 = 0x41"
definition DISPATCH_FIRST_FRAG :: u8 where "DISPATCH_FIRST_FRAG = 0xC0"
definition DISPATCH_SUBSEQ_FRAG :: u8 where "DISPATCH_SUBSEQ_FRAG = 0xE0"
definition DISPATCH_FRAG_MASK :: u8 where "DISPATCH_FRAG_MASK = 0xF8"
definition DISPATCH_BC0 :: u8 where "DISPATCH_BC0 = 0x50"
definition DISPATCH_MESH :: u8 where "DISPATCH_MESH = 0x80"
definition DISPATCH_MESH_MASK :: u8 where "DISPATCH_MESH_MASK = 0xC0"
definition DISPATCH_MESH_O_FLAG :: u8 where "DISPATCH_MESH_O_FLAG = 0x20"
definition DISPATCH_MESH_F_FLAG :: u8 where "DISPATCH_MESH_F_FLAG = 0x10"

lemmas dispatch_defs = DISPATCH_UNCOMPRESSED_IPV6_def DISPATCH_COMPRESSED_IPV6_def DISPATCH_FIRST_FRAG_def
  DISPATCH_SUBSEQ_FRAG_def DISPATCH_FRAG_MASK_def DISPATCH_BC0_def DISPATCH_MESH_def DISPATCH_MESH_MASK_def
  DISPATCH_MESH_O_FLAG_def DISPATCH_MESH_F_FLAG_def

text \<open>The union in \<open>struct hw_addr\<close> with its tag: the bytes of the member that the tag selects.\<close>

datatype hw_addr = HW_ADDR_SHORT mem | HW_ADDR_LONG mem

record frag_info =
  fi_offset :: u8
  fi_len :: u8

record lowpan_pkt =
  p_buf :: mem
  p_len :: u16
  p_dgram_tag :: u16
  p_dgram_size :: u16
  p_frag_timeout :: int
  p_frag_list :: "frag_info list"
  p_hw_src :: hw_addr
  p_hw_dst :: hw_addr

datatype tun_event = TunBytes mem | TunErr

record tunnel =
  ser_src :: serial_source
  own_hw_addr :: hw_addr
  g_dgram_tag :: u16
  fragments :: "lowpan_pkt list"
  tun_reads :: "tun_event list"
  tun_writes :: "bool list"
  tun_out :: "mem list"
  tun_mallocs :: "bool list"
  tun_times :: "int list"

text \<open>The state in which \<open>main\<close> starts the tunnel.\<close>

definition start_tunnel :: "serial_source \<Rightarrow> tun_event list \<Rightarrow> tunnel" where
  "start_tunnel s reads =
     \<lparr>ser_src = s, own_hw_addr = HW_ADDR_SHORT [0x00, 0x12], g_dgram_tag = 0, fragments = [], tun_reads = reads,
      tun_writes = [], tun_out = [], tun_mallocs = [], tun_times = []\<rparr>"

section \<open>Calls of the system\<close>

definition tun_malloc :: "tunnel \<Rightarrow> tunnel \<times> bool" where
  "tun_malloc t = (case tun_mallocs t of [] \<Rightarrow> (t, True) | ok # r \<Rightarrow> (t\<lparr>tun_mallocs := r\<rparr>, ok))"

definition tun_time :: "tunnel \<Rightarrow> tunnel \<times> int" where
  "tun_time t = (case tun_times t of [] \<Rightarrow> (t, 0) | now # r \<Rightarrow> (t\<lparr>tun_times := r\<rparr>, now))"

text \<open>A read takes one packet from the device, cut off behind \<open>n\<close> bytes.\<close>

definition tun_fd_read :: "nat \<Rightarrow> tunnel \<Rightarrow> tunnel \<times> tun_event" where
  "tun_fd_read n t = (case tun_reads t of [] \<Rightarrow> (t, TunErr)
     | TunErr # r \<Rightarrow> (t\<lparr>tun_reads := r\<rparr>, TunErr)
     | TunBytes bs # r \<Rightarrow> (t\<lparr>tun_reads := r\<rparr>, TunBytes (take n bs)))"

definition tun_fd_write :: "mem \<Rightarrow> tunnel \<Rightarrow> tunnel \<times> int" where
  "tun_fd_write bs t = (case tun_writes t of [] \<Rightarrow> (t\<lparr>tun_out := tun_out t @ [bs]\<rparr>, int (length bs))
     | True # r \<Rightarrow> (t\<lparr>tun_out := tun_out t @ [bs], tun_writes := r\<rparr>, int (length bs))
     | False # r \<Rightarrow> (t\<lparr>tun_writes := r\<rparr>, -1))"

section \<open>The tunnel device\<close>

text \<open>\<open>struct tun_pi\<close> with the protocol \<open>ETH_P_IPV6\<close> in network order.\<close>

definition tun_pi :: mem where
  "tun_pi = [0, 0, 0x86, 0xDD]"

definition tun_write :: "mem \<Rightarrow> nat \<Rightarrow> int \<Rightarrow> tunnel \<Rightarrow> (tunnel \<times> int) option" where
  "tun_write m p len t =
     (case tun_malloc t of
        (t, False) \<Rightarrow> Some (t, -1)
      | (t, True) \<Rightarrow>
          if len < 0 then None
          else do { bs \<leftarrow> rdn m p (nat len); Some (tun_fd_write (tun_pi @ bs) t) })"

definition tun_read :: "mem \<Rightarrow> nat \<Rightarrow> nat \<Rightarrow> tunnel \<Rightarrow> (tunnel \<times> mem \<times> int) option" where
  "tun_read m p len t =
     (case tun_malloc t of
        (t, False) \<Rightarrow> Some (t, m, -1)
      | (t, True) \<Rightarrow>
          (case tun_fd_read (len + 4) t of
             (t, TunErr) \<Rightarrow> Some (t, m, -1)
           | (t, TunBytes bs) \<Rightarrow>
               if 4 \<le> length bs then do { m \<leftarrow> wrn m p (drop 4 bs); Some (t, m, int (length bs) - 4) }
               else Some (t, m, -1)))"

section \<open>Addresses and reassembly buffers\<close>

definition increment_g_dgram_tag :: "tunnel \<Rightarrow> tunnel" where
  "increment_g_dgram_tag t =
     (let tmp = ntohs (g_dgram_tag t); tmp = (if tmp = 0xFFFF then 0 else tmp + 1) in t\<lparr>g_dgram_tag := htons tmp\<rparr>)"

text \<open>Whether the comparison gives 0.\<close>

fun cmp_hw_addr :: "hw_addr \<Rightarrow> hw_addr \<Rightarrow> bool" where
  "cmp_hw_addr (HW_ADDR_SHORT a) (HW_ADDR_SHORT b) = (take 2 a = take 2 b)" |
  "cmp_hw_addr (HW_ADDR_LONG a) (HW_ADDR_LONG b) = (a = b)" |
  "cmp_hw_addr _ _ = False"

fun hw_addr_is_broadcat :: "hw_addr \<Rightarrow> bool" where
  "hw_addr_is_broadcat (HW_ADDR_SHORT a) = (a ! 0 = 0xFF \<and> a ! 1 = 0xFF)" |
  "hw_addr_is_broadcat (HW_ADDR_LONG a) = False"

fun addr_bytes :: "hw_addr \<Rightarrow> mem" where
  "addr_bytes (HW_ADDR_SHORT a) = a" |
  "addr_bytes (HW_ADDR_LONG a) = a"

definition new_pkt :: "hw_addr \<Rightarrow> hw_addr \<Rightarrow> u16 \<Rightarrow> u16 \<Rightarrow> int \<Rightarrow> lowpan_pkt" where
  "new_pkt src dst dsize tag timeout =
     \<lparr>p_buf = replicate (LOWPAN_MTU + LOWPAN_OVERHEAD) 0, p_len = 0, p_dgram_tag = tag, p_dgram_size = dsize,
      p_frag_timeout = timeout, p_frag_list = [], p_hw_src = src, p_hw_dst = dst\<rparr>"

definition free_lowpan_pkt :: "nat \<Rightarrow> tunnel \<Rightarrow> tunnel" where
  "free_lowpan_pkt i t = t\<lparr>fragments := take i (fragments t) @ drop (Suc i) (fragments t)\<rparr>"

fun find_fragment :: "lowpan_pkt list \<Rightarrow> hw_addr \<Rightarrow> hw_addr \<Rightarrow> u16 \<Rightarrow> u16 \<Rightarrow> nat option" where
  "find_fragment [] src dst dsize tag = None" |
  "find_fragment (p # ps) src dst dsize tag =
     (if p_dgram_tag p = tag \<and> p_dgram_size p = dsize \<and> cmp_hw_addr (p_hw_src p) src \<and> cmp_hw_addr (p_hw_dst p) dst
      then Some 0 else map_option Suc (find_fragment ps src dst dsize tag))"

section \<open>From the tunnel to the serial line\<close>

definition serial_output_am_payload :: "mem \<Rightarrow> nat \<Rightarrow> int \<Rightarrow> tunnel \<Rightarrow> (tunnel \<times> int) option" where
  "serial_output_am_payload buf p len t =
     (if len > LINK_DATA_MTU then Some (t, -1)
      else do {
        src \<leftarrow> rdn (addr_bytes (own_hw_addr t)) 0 2;
        let n = (word_of_int (min len LINK_DATA_MTU) :: u8);
        let am = [0, lo8 (htons 0xFFFF), hi8 (htons 0xFFFF), src ! 0, src ! 1, n, 0, 0x41] @ replicate 100 0;
        data \<leftarrow> rdn buf p (unat n);
        am \<leftarrow> wrn am 8 data;
        (s, r) \<leftarrow> write_serial_packet am (unat n + 8) (ser_src t);
        Some (t\<lparr>ser_src := s\<rparr>, if r < 0 then -1 else int (unat n) + 8) })"

text \<open>The fields of a fragment header; the dispatch bits share a byte with the size.\<close>

definition put_frag_hdr :: "mem \<Rightarrow> nat \<Rightarrow> u16 \<Rightarrow> u8 \<Rightarrow> u16 \<Rightarrow> mem option" where
  "put_frag_hdr buf p dsize dispatch tag = do {
     buf \<leftarrow> wr16 buf p dsize;
     b \<leftarrow> rd buf p;
     buf \<leftarrow> wr buf p (b OR dispatch);
     wr16 buf (p + 2) tag }"

text \<open>The length of a fragment that is followed by another one is a multiple of 8.\<close>

definition subseq_frag_len :: "int \<Rightarrow> u8" where
  "subseq_frag_len len =
     (let space = LINK_DATA_MTU - 4 - 1 in
      if len \<le> space then word_of_int len
      else (let l = word_of_int space :: u8 in l - l mod 8))"

lemma subseq_frag_len_uint: "0 < len \<Longrightarrow> uint (subseq_frag_len len) = (if len \<le> 95 then len else 88)"
proof -
  assume "0 < len"
  then have "len \<le> 95 \<Longrightarrow> uint (word_of_int len :: u8) = len"
    by (simp add: uint_word_of_int_eq take_bit_int_eq_self)
  then show ?thesis by (simp add: subseq_frag_len_def LINK_DATA_MTU_def Let_def)
qed

function tun_input_loop :: "mem \<Rightarrow> nat \<Rightarrow> int \<Rightarrow> u8 \<Rightarrow> u16 \<Rightarrow> tunnel \<Rightarrow> tunnel option" where
  "tun_input_loop buf begin len offset dsize t =
     (if len \<le> 0 then Some t
      else do {
        buf \<leftarrow> wr buf (begin - 1) offset;
        buf \<leftarrow> put_frag_hdr buf (begin - 5) dsize DISPATCH_SUBSEQ_FRAG (g_dgram_tag t);
        let frag_len = subseq_frag_len len;
        (t, r) \<leftarrow> serial_output_am_payload buf (begin - 5) (int (unat frag_len) + 5) t;
        tun_input_loop buf (begin + unat frag_len) (len - int (unat frag_len)) (offset + frag_len div 8) dsize t })"
  by pat_completeness auto
termination
  by (relation "measure (\<lambda>(buf, begin, len, _). nat len)") (auto simp: subseq_frag_len_uint)

declare tun_input_loop.simps [simp del]

text \<open>The buffer on the stack has some content before it is written.  The result tells whether there
  may be more to read.\<close>

definition tun_input :: "mem \<Rightarrow> tunnel \<Rightarrow> (tunnel \<times> int) option" where
  "tun_input stack t = do {
     (t, buf, len) \<leftarrow> tun_read stack LOWPAN_OVERHEAD LOWPAN_MTU t;
     if len \<le> 0 then Some (t, 0)
     else do {
       (buf, begin, len) \<leftarrow> lowpan_compress buf LOWPAN_OVERHEAD len;
       if len > LINK_DATA_MTU then do {
         let t = increment_g_dgram_tag t;
         let dgram_size = htons (word_of_int len);
         buf \<leftarrow> put_frag_hdr buf (begin - 4) dgram_size DISPATCH_FIRST_FRAG (g_dgram_tag t);
         let space = (word_of_int (LINK_DATA_MTU - 4) :: u8);
         let frag_len = space - space mod 8;
         (t, r) \<leftarrow> serial_output_am_payload buf (begin - 4) (int (unat frag_len) + 4) t;
         if r < 0 then Some (t, -1)
         else do {
           t \<leftarrow> tun_input_loop buf (begin + unat frag_len) (len - int (unat frag_len)) (frag_len div 8) dgram_size t;
           Some (t, 1) } }
       else do {
         (t, r) \<leftarrow> serial_output_am_payload buf begin len t;
         Some (t, 1) } } }"

section \<open>From the serial line to the tunnel\<close>

definition serial_input_ipv6_uncompressed :: "mem \<Rightarrow> nat \<Rightarrow> int \<Rightarrow> tunnel \<Rightarrow> (tunnel \<times> int) option" where
  "serial_input_ipv6_uncompressed m p len t = tun_write m p len t"

definition serial_input_ipv6_compressed :: "mem \<Rightarrow> nat \<Rightarrow> int \<Rightarrow> tunnel \<Rightarrow> (tunnel \<times> int) option" where
  "serial_input_ipv6_compressed m p len t =
     (case tun_malloc t of (t, memory) \<Rightarrow> do {
        r \<leftarrow> lowpan_decompress memory m p len;
        case r of None \<Rightarrow> Some (t, 0) | Some (new_buf, new_len) \<Rightarrow> tun_write new_buf 0 new_len t })"

definition serial_input_layer3 :: "mem \<Rightarrow> nat \<Rightarrow> int \<Rightarrow> tunnel \<Rightarrow> (tunnel \<times> int) option" where
  "serial_input_layer3 m p len t =
     (if len \<le> 0 then Some (t, 1)
      else do {
        d \<leftarrow> rd m p;
        if d = DISPATCH_UNCOMPRESSED_IPV6 then serial_input_ipv6_uncompressed m (p + 1) (len - 1) t
        else if d = DISPATCH_COMPRESSED_IPV6 then serial_input_ipv6_compressed m (p + 1) (len - 1) t
        else tun_write m (p + 1) (len - 1) t })"

text \<open>The optional headers.  An address with its pointer and length behind it.\<close>

definition mesh_address :: "bool \<Rightarrow> mem \<Rightarrow> nat \<Rightarrow> int \<Rightarrow> (hw_addr \<times> nat \<times> int) option" where
  "mesh_address long m p len =
     (if long then do { a \<leftarrow> rdn m p 8; Some (HW_ADDR_LONG a, p + 8, len - 8) }
      else do { a \<leftarrow> rdn m p 2; Some (HW_ADDR_SHORT a, p + 2, len - 2) })"

text \<open>The inner \<^term>\<open>None\<close> discards the packet.\<close>

definition mesh_header :: "hw_addr \<Rightarrow> hw_addr \<Rightarrow> hw_addr \<Rightarrow> mem \<Rightarrow> nat \<Rightarrow> int \<Rightarrow>
    (hw_addr \<times> hw_addr \<times> nat \<times> int) option option" where
  "mesh_header own src dst m p len = do {
     d \<leftarrow> rd m p;
     if d AND DISPATCH_MESH_MASK \<noteq> DISPATCH_MESH then Some (Some (src, dst, p, len))
     else if d AND 0x0F = 0 then Some None
     else do {
       (dst, p, len) \<leftarrow> mesh_address (d AND DISPATCH_MESH_F_FLAG \<noteq> 0) m (p + 1) (len - 1);
       if \<not> cmp_hw_addr dst own \<and> \<not> hw_addr_is_broadcat dst then Some None
       else do {
         (src, p, len) \<leftarrow> mesh_address (d AND DISPATCH_MESH_O_FLAG \<noteq> 0) m p len;
         Some (Some (src, dst, p, len)) } } }"

definition broadcast_header :: "mem \<Rightarrow> nat \<Rightarrow> int \<Rightarrow> (nat \<times> int) option" where
  "broadcast_header m p len =
     do { d \<leftarrow> rd m p; if d = DISPATCH_BC0 then Some (p + 2, len - 2) else Some (p, len) }"

text \<open>Reassembly: the check of a fragment against those that arrived, in their list.\<close>

datatype frag_check = FragDuplicate | FragOverlap | FragFresh

fun check_overlap :: "u8 \<Rightarrow> int \<Rightarrow> frag_info list \<Rightarrow> frag_check" where
  "check_overlap offset len [] = FragFresh" |
  "check_overlap offset len (p # ps) =
     (if offset = fi_offset p \<and> len = int (unat (fi_len p)) then FragDuplicate
      else if offset = fi_offset p \<and> len < int (unat (fi_len p)) \<or>
        fi_offset p < offset \<and> unat offset < unat (fi_offset p) + unat (fi_len p) div 8 then FragOverlap
      else check_overlap offset len ps)"

fun insert_frag :: "frag_info \<Rightarrow> frag_info list \<Rightarrow> frag_info list" where
  "insert_frag p [] = [p]" |
  "insert_frag p [q] = [p, q]" |
  "insert_frag p (q # r # rest) =
     (if fi_offset q < fi_offset p then p # q # r # rest else q # insert_frag p (r # rest))"

fun check_last :: "u8 \<Rightarrow> frag_info list \<Rightarrow> bool" where
  "check_last offset [] = True" |
  "check_last offset (p # ps) =
     (if offset = 0 then True
      else if unat (fi_offset p) + unat (fi_len p) div 8 \<noteq> unat offset then False
      else check_last (fi_offset p) ps)"

text \<open>The buffer a fragment goes to; \<^term>\<open>None\<close> discards the fragment.\<close>

definition reassembly_buffer :: "hw_addr \<Rightarrow> hw_addr \<Rightarrow> u16 \<Rightarrow> u16 \<Rightarrow> u8 \<Rightarrow> int \<Rightarrow> tunnel \<Rightarrow> tunnel \<times> nat option" where
  "reassembly_buffer src dst dsize tag offset len t =
     (case find_fragment (fragments t) src dst dsize tag of
        Some i \<Rightarrow>
          (case check_overlap offset len (p_frag_list (fragments t ! i)) of
             FragDuplicate \<Rightarrow> (t, None)
           | FragFresh \<Rightarrow> (t, Some i)
           | FragOverlap \<Rightarrow> (case tun_time t of (t, now) \<Rightarrow>
               (t\<lparr>fragments := (fragments t)[i := (fragments t ! i)\<lparr>p_frag_list := [], p_frag_timeout := now + FRAG_TIMEOUT\<rparr>]\<rparr>,
                Some i)))
      | None \<Rightarrow>
          (case tun_malloc t of
             (t, False) \<Rightarrow> (t, None)
           | (t, True) \<Rightarrow> (case tun_time t of (t, now) \<Rightarrow>
               (t\<lparr>fragments := new_pkt src dst dsize tag (now + FRAG_TIMEOUT) # fragments t\<rparr>, Some 0))))"

text \<open>The copy of a fragment and its entry in the list; the result tells whether the datagram is
  complete.\<close>

definition frag_reassemble :: "nat \<Rightarrow> u16 \<Rightarrow> u8 \<Rightarrow> mem \<Rightarrow> nat \<Rightarrow> int \<Rightarrow> tunnel \<Rightarrow> (tunnel \<times> bool) option" where
  "frag_reassemble i dsize offset m p len t =
     (if len < 0 then None
      else do {
        data \<leftarrow> rdn m p (nat len);
        let pkt = fragments t ! i;
        buf \<leftarrow> wrn (p_buf pkt) (LOWPAN_OVERHEAD + unat offset * 8) data;
        let (t, ok) = tun_malloc t;
        let frag_list = (if ok then insert_frag \<lparr>fi_offset = offset, fi_len = word_of_int len\<rparr> (p_frag_list pkt)
                         else p_frag_list pkt);
        Some (t\<lparr>fragments := (fragments t)[i := pkt\<lparr>p_buf := buf, p_frag_list := frag_list\<rparr>]\<rparr>,
              offset \<noteq> 0 \<and> check_last (word_of_nat (unat (ntohs dsize) div 8)) frag_list) })"

definition fragment_input :: "hw_addr \<Rightarrow> hw_addr \<Rightarrow> u8 \<Rightarrow> mem \<Rightarrow> nat \<Rightarrow> int \<Rightarrow> tunnel \<Rightarrow> tunnel option" where
  "fragment_input src dst d m p len t = do {
     dsize \<leftarrow> rd16 m p;
     tag \<leftarrow> rd16 m (p + 2);
     let dsize = dsize AND htons 0x07FF;
     let (p, len) = (p + 4, len - 4);
     (offset, p, len) \<leftarrow> (if d AND DISPATCH_FRAG_MASK = DISPATCH_SUBSEQ_FRAG
       then do { b \<leftarrow> rd m p; Some (b, p + 1, len - 1) } else Some (0, p, len));
     case reassembly_buffer src dst dsize tag offset len t of
       (t, None) \<Rightarrow> Some t
     | (t, Some i) \<Rightarrow> do {
         (t, last_frag) \<leftarrow> frag_reassemble i dsize offset m p len t;
         if last_frag then do {
           let t = t\<lparr>fragments := (fragments t)[i := (fragments t ! i)\<lparr>p_len := ntohs dsize\<rparr>]\<rparr>;
           (t, r) \<leftarrow> serial_input_layer3 (p_buf (fragments t ! i)) LOWPAN_OVERHEAD (int (unat (p_len (fragments t ! i)))) t;
           Some (free_lowpan_pkt i t) }
         else Some t } }"

text \<open>An active message in its block.\<close>

definition am_input :: "mem \<Rightarrow> tunnel \<Rightarrow> tunnel option" where
  "am_input m t = do {
     src \<leftarrow> rdn m 3 2;
     dst \<leftarrow> rdn m 1 2;
     n \<leftarrow> rd m 5;
     r \<leftarrow> mesh_header (own_hw_addr t) (HW_ADDR_SHORT src) (HW_ADDR_SHORT dst) m 8 (int (unat n));
     case r of None \<Rightarrow> Some t
     | Some (src, dst, p, len) \<Rightarrow> do {
         (p, len) \<leftarrow> broadcast_header m p len;
         d \<leftarrow> rd m p;
         if d AND DISPATCH_FRAG_MASK = DISPATCH_FIRST_FRAG \<or> d AND DISPATCH_FRAG_MASK = DISPATCH_SUBSEQ_FRAG
         then fragment_input src dst d m p len t
         else do { (t, r) \<leftarrow> serial_input_layer3 m p len t; Some t } } }"

text \<open>Whether a packet was read.\<close>

definition serial_input :: "tunnel \<Rightarrow> (tunnel \<times> bool) option" where
  "serial_input t = do {
     (s, r) \<leftarrow> read_serial_packet (ser_src t);
     let t = t\<lparr>ser_src := s\<rparr>;
     case r of None \<Rightarrow> Some (t, False)
     | Some (ser_data, ser_len) \<Rightarrow>
         if ser_len = 0 then Some (t, False)
         else do { t \<leftarrow> am_input ser_data t; Some (t, True) } }"

section \<open>The main loop\<close>

definition timer_fired :: "tunnel \<Rightarrow> tunnel" where
  "timer_fired t = (case tun_time t of (t, now) \<Rightarrow>
     t\<lparr>fragments := filter (\<lambda>p. \<not> p_frag_timeout p > now) (fragments t)\<rparr>)"

text \<open>\<open>while (tun_input())\<close> and \<open>while (serial_input())\<close>, and one turn of \<open>serial_tunnel\<close> behind
  \<open>select\<close>.  The content that the buffer on the stack has in a call is any function of the state.\<close>

partial_function (option) tun_inputs :: "(tunnel \<Rightarrow> mem) \<Rightarrow> tunnel \<Rightarrow> tunnel option" where
  "tun_inputs stack t = do {
     (t, r) \<leftarrow> tun_input (stack t) t;
     if r \<noteq> 0 then tun_inputs stack t else Some t }"

partial_function (option) serial_inputs :: "tunnel \<Rightarrow> tunnel option" where
  "serial_inputs t = do {
     (t, r) \<leftarrow> serial_input t;
     if r then serial_inputs t else Some t }"

definition tunnel_turn :: "bool \<Rightarrow> bool \<Rightarrow> (tunnel \<Rightarrow> mem) \<Rightarrow> tunnel \<Rightarrow> tunnel option" where
  "tunnel_turn tun_ready ser_ready stack t = do {
     t \<leftarrow> (if tun_ready then tun_inputs stack t else Some t);
     if ser_ready then serial_inputs t else Some t }"

end
