(* ===== verification/Tun_Send.thy ===== *)
theory Tun_Send
  imports Tun_Daemon
begin

text \<open>
  What the daemon puts on the serial line for a packet of the tunnel device: the active messages of
  the link frames of its datagram, each in a data frame of the serial protocol.
\<close>

section \<open>The frames of a datagram\<close>

definition am_packet :: "hw_addr \<Rightarrow> mem \<Rightarrow> mem" where
  "am_packet own d = [0, 0xFF, 0xFF, addr_bytes own ! 0, addr_bytes own ! 1, word_of_nat (length d), 0, 0x41] @ d"

text \<open>A header of a fragment of a datagram of \<open>n\<close> bytes.\<close>

definition frag_hdr :: "u8 \<Rightarrow> nat \<Rightarrow> u16 \<Rightarrow> mem" where
  "frag_hdr dispatch n tag = [hi8 (word_of_nat n) OR dispatch, lo8 (word_of_nat n), lo8 tag, hi8 tag]"

text \<open>The fragments behind the first one, from offset \<open>8 * k\<close> on.\<close>

function later_fragments :: "u16 \<Rightarrow> nat \<Rightarrow> nat \<Rightarrow> mem \<Rightarrow> mem list" where
  "later_fragments tag n k rest =
     (if rest = [] then []
      else if length rest \<le> 95 then [frag_hdr DISPATCH_SUBSEQ_FRAG n tag @ word_of_nat k # rest]
      else (frag_hdr DISPATCH_SUBSEQ_FRAG n tag @ word_of_nat k # take 88 rest) # later_fragments tag n (k + 11) (drop 88 rest))"
  by pat_completeness auto
termination
  by (relation "measure (\<lambda>(tag, n, k, rest). length rest)") auto

declare later_fragments.simps [simp del]

definition datagram_frames :: "u16 \<Rightarrow> mem \<Rightarrow> mem list" where
  "datagram_frames tag d =
     (if length d \<le> 100 then [d]
      else (frag_hdr DISPATCH_FIRST_FRAG (length d) tag @ take 96 d) # later_fragments tag (length d) 12 (drop 96 d))"

text \<open>The serial frames that carry packets, with their sequence numbers.\<close>

definition data_frames :: "u8 list \<Rightarrow> mem list \<Rightarrow> mem list" where
  "data_frames qs ps = map2 (\<lambda>q p. P_PACKET_ACK # q # p) qs ps"

definition sent :: "serial_source \<Rightarrow> serial_source \<Rightarrow> mem list \<Rightarrow> bool" where
  "sent s s' ps \<longleftrightarrow> (\<exists>qs. length qs = length ps \<and> line s' = line s @ concat (map frame (data_frames qs ps)))"

lemma sent_Nil: "sent s s []"
  by (simp add: sent_def data_frames_def)

lemma sent_append: "sent s t ps \<Longrightarrow> sent t u qs \<Longrightarrow> sent s u (ps @ qs)"
  unfolding sent_def data_frames_def
  by (elim exE, rename_tac a b, rule_tac x = "a @ b" in exI) simp

text \<open>A source on which nothing else is written: no acknowledgements are due.\<close>

definition link_free :: "serial_source \<Rightarrow> bool" where
  "link_free s \<longleftrightarrow> good s \<and> patient s \<and> (\<forall>a \<in> set (acks s). a \<noteq> []) \<and> concat (map reply (stream s)) = []"

lemma write_free:
  assumes "link_free s" "len \<le> length packet" "len < 2 ^ 30 - 5"
  shows "\<exists>s' r. write_serial_packet packet len s = Some (s', r) \<and> 0 \<le> r \<and> link_free s' \<and> sent s s' [take len packet]"
proof -
  have free: "good s" "patient s" "\<forall>a \<in> set (acks s). a \<noteq> []" "\<And>k. concat (map reply (drop k (stream s))) = []"
    using assms(1) unfolding link_free_def by (auto dest: in_set_dropD)
  then have "\<forall>a \<in> set (in_queue s P_ACK). a \<noteq> []" by (simp add: acks_def)
  then obtain s' where s': "write_serial_packet packet len s = Some (s', if seqno s + 1 \<in> hd ` set (acks s) then 0 else 1)"
      "good s'" "due_line s' = line s @ frame (P_PACKET_ACK # (seqno s + 1) # take len packet) @ concat (map reply (stream s))"
      "\<exists>k. stream s' = drop k (stream s)" "patient s'" "set (acks s') \<subseteq> set (acks s)"
    using write_serial_packet_refines [OF free(1,2) _ assms(2,3)] by blast
  have none: "concat (map reply (stream s')) = []" "concat (map reply (stream s)) = []"
    using s'(4) free(4) [of 0] free(4) by auto
  then have "link_free s'" using s' free(3) by (auto simp: link_free_def)
  have "line s' = line s @ frame (P_PACKET_ACK # (seqno s + 1) # take len packet)"
    using s'(3) by (simp only: due_line_def none append_Nil2)
  then have "sent s s' [take len packet]"
    unfolding sent_def data_frames_def by (intro exI [of _ "[seqno s + 1]"]) simp
  with s'(1) \<open>link_free s'\<close> show ?thesis by auto
qed

section \<open>Sending\<close>

lemma bytes_FFFF: "lo8 0xFFFF = 0xFF" "hi8 0xFFFF = 0xFF"
  by (simp_all add: lo8_def hi8_def)

lemma send_one:
  assumes "link_free (ser_src t)" "has_at buf p d" "length d \<le> 100" "2 \<le> length (addr_bytes (own_hw_addr t))"
  shows "\<exists>s r. serial_output_am_payload buf p (int (length d)) t = Some (t\<lparr>ser_src := s\<rparr>, r) \<and> 0 \<le> r \<and>
    link_free s \<and> sent (ser_src t) s [am_packet (own_hw_addr t) d]"
proof -
  let ?a = "addr_bytes (own_hw_addr t)" and ?n = "word_of_int (int (length d)) :: u8"
  define h where "h = [0, 0xFF, 0xFF, ?a ! 0, ?a ! 1, ?n, 0, 0x41]"
  have h8: "length h = 8" by (simp add: h_def)
  have n: "unat ?n = length d" using assms(3) by (simp add: unat_of_nat)
  have a: "rdn ?a 0 2 = Some [?a ! 0, ?a ! 1]"
    using assms(4) by (cases ?a; cases "tl ?a") (auto simp: rdn_def)
  have w: "wrn (h @ replicate 100 0) 8 d = Some (h @ d @ replicate (100 - length d) 0)"
    using assms(3) by (simp add: wrn_def put_def h8)
  have t: "take (length d + 8) (h @ d @ replicate (100 - length d) 0) = am_packet (own_hw_addr t) d"
    by (simp add: am_packet_def h8) (simp add: h_def)
  obtain s r where s: "write_serial_packet (h @ d @ replicate (100 - length d) 0) (length d + 8) (ser_src t) = Some (s, r)"
      "0 \<le> r" "link_free s" "sent (ser_src t) s [am_packet (own_hw_addr t) d]"
    using write_free [OF assms(1), of "length d + 8" "h @ d @ replicate (100 - length d) 0"] assms(3) h8 unfolding t by auto
  have "serial_output_am_payload buf p (int (length d)) t = Some (t\<lparr>ser_src := s\<rparr>, int (length d) + 8)"
    using assms(3) a n w s(1,2) rdn_has_at [OF assms(2)]
    by (simp add: serial_output_am_payload_def LINK_DATA_MTU_def Let_def h_def bytes_FFFF)
  with s show ?thesis by auto
qed

lemma put_frag_hdr_Some:
  "p + 4 \<le> length buf \<Longrightarrow> put_frag_hdr buf p (htons (word_of_nat n)) d tag = Some (put buf p (frag_hdr d n tag))"
  by (simp add: put_frag_hdr_def wr16_Some rd_def wr_def frag_hdr_def put_Cons put_single list_update_swap)

lemma has_at_put_cons: "has_at m (p + length xs) ys \<Longrightarrow> has_at (put m p xs) p (xs @ ys)"
  by (auto simp: has_at_append has_at_put_below dest: has_at_len)

text \<open>One later fragment, whose header is written in front of its bytes.\<close>

lemma send_fragment:
  fixes off :: u8 and n :: nat
  assumes "link_free (ser_src t)" "has_at buf begin d" "length d \<le> 95" "5 \<le> begin" "2 \<le> length (addr_bytes (own_hw_addr t))"
  defines "f \<equiv> frag_hdr DISPATCH_SUBSEQ_FRAG n (g_dgram_tag t) @ off # d"
  shows "\<exists>buf' s r. (do { b \<leftarrow> wr buf (begin - 1) off;
      b \<leftarrow> put_frag_hdr b (begin - 5) (htons (word_of_nat n)) DISPATCH_SUBSEQ_FRAG (g_dgram_tag t);
      (t, r) \<leftarrow> serial_output_am_payload b (begin - 5) (int (length d) + 5) t; Some (b, t) }) = Some (buf', t\<lparr>ser_src := s\<rparr>) \<and>
    (\<forall>ys. has_at buf begin ys \<longrightarrow> has_at buf' begin ys) \<and> link_free s \<and> sent (ser_src t) s [am_packet (own_hw_addr t) f]"
proof -
  let ?b1 = "put buf (begin - 1) [off]" and ?h = "frag_hdr DISPATCH_SUBSEQ_FRAG n (g_dgram_tag t)"
  let ?b2 = "put ?b1 (begin - 5) ?h"
  have room: "begin \<le> length buf" using has_at_len [OF assms(2)] by simp
  have h4: "length ?h = 4" by (simp add: frag_hdr_def)
  have b1: "wr buf (begin - 1) off = Some ?b1" using room assms(4) by (simp add: wr_def put_single)
  have b2: "put_frag_hdr ?b1 (begin - 5) (htons (word_of_nat n)) DISPATCH_SUBSEQ_FRAG (g_dgram_tag t) = Some ?b2"
    using room assms(4) by (intro put_frag_hdr_Some) simp
  have kept: "has_at ?b2 begin ys" if "has_at buf begin ys" for ys
    using that assms(4) h4 by (intro has_at_put_below) auto
  have "has_at ?b1 (begin - 1) ([off] @ d)"
    using assms(2,4) by (intro has_at_put_cons) simp
  then have "has_at ?b2 (begin - 5) f"
    using h4 assms(4) unfolding f_def by (intro has_at_put_cons) simp
  moreover have "length f \<le> 100" "int (length f) = int (length d) + 5" using assms(3) h4 by (simp_all add: f_def)
  ultimately obtain s r where s: "serial_output_am_payload ?b2 (begin - 5) (int (length d) + 5) t = Some (t\<lparr>ser_src := s\<rparr>, r)"
      "link_free s" "sent (ser_src t) s [am_packet (own_hw_addr t) f]"
    using send_one [OF assms(1) _ _ assms(5), of ?b2 "begin - 5" f] by auto
  show ?thesis
    by (intro exI [of _ ?b2] exI [of _ s]) (use b1 b2 s kept in simp)
qed

lemma tun_input_loop_sends:
  assumes "link_free (ser_src t)" "has_at buf begin rest" "5 \<le> begin" "2 \<le> length (addr_bytes (own_hw_addr t))"
  shows "\<exists>s. tun_input_loop buf begin (int (length rest)) (word_of_nat k) (htons (word_of_nat n)) t = Some (t\<lparr>ser_src := s\<rparr>) \<and>
    link_free s \<and> sent (ser_src t) s (map (am_packet (own_hw_addr t)) (later_fragments (g_dgram_tag t) n k rest))"
  using assms
proof (induction "length rest" arbitrary: buf "begin" rest k t rule: less_induct)
  case less
  show ?case
  proof (cases "rest = []")
    case True
    then show ?thesis
      using less.prems(1) sent_Nil by (intro exI [of _ "ser_src t"]) (simp add: tun_input_loop.simps later_fragments.simps)
  next
    case False
    define m where "m = (if length rest \<le> 95 then length rest else 88)"
    have m: "unat (subseq_frag_len (int (length rest))) = m" "0 < m" "m \<le> length rest" "m \<le> 95"
      using False by (auto simp: m_def unat_eq_nat_uint subseq_frag_len_uint)
    have at: "has_at buf begin (take m rest @ drop m rest)" using less.prems(2) by simp
    let ?d = "take m rest"
    have d: "has_at buf begin ?d" "length ?d = m"
      using at m(3) by (simp_all add: has_at_append del: append_take_drop_id)
    obtain buf' s where s: "(do { b \<leftarrow> wr buf (begin - 1) (word_of_nat k);
        b \<leftarrow> put_frag_hdr b (begin - 5) (htons (word_of_nat n)) DISPATCH_SUBSEQ_FRAG (g_dgram_tag t);
        (t, r) \<leftarrow> serial_output_am_payload b (begin - 5) (int m + 5) t; Some (b, t) }) = Some (buf', t\<lparr>ser_src := s\<rparr>)"
        "\<And>ys. has_at buf begin ys \<Longrightarrow> has_at buf' begin ys" "link_free s"
        "sent (ser_src t) s [am_packet (own_hw_addr t) (frag_hdr DISPATCH_SUBSEQ_FRAG n (g_dgram_tag t) @ word_of_nat k # ?d)]"
      using send_fragment [OF less.prems(1) d(1) _ less.prems(3,4), of "word_of_nat k" n] d(2) m(4) by auto
    have at': "has_at buf' (begin + m) (drop m rest)"
      using s(2) [OF at] d(2) by (simp add: has_at_append del: append_take_drop_id)
    have len: "int (length (drop m rest)) = int (length rest) - int m" using m(3) by simp
    define k' where "k' = k + m div 8"
    have off: "word_of_nat k + subseq_frag_len (int (length rest)) div 8 = (word_of_nat k' :: u8)"
    proof -
      have "unat (subseq_frag_len (int (length rest)) div 8) = m div 8" using m(1) by (simp add: unat_div)
      then have "subseq_frag_len (int (length rest)) div 8 = word_of_nat (m div 8)" by (metis of_nat_unat ucast_id)
      then show ?thesis by (simp add: k'_def)
    qed
    obtain s' where s': "tun_input_loop buf' (begin + m) (int (length rest) - int m) (word_of_nat k') (htons (word_of_nat n)) (t\<lparr>ser_src := s\<rparr>) =
          Some (t\<lparr>ser_src := s'\<rparr>)"
        "link_free s'" "sent s s' (map (am_packet (own_hw_addr t)) (later_fragments (g_dgram_tag t) n k' (drop m rest)))"
      using less.hyps [of "drop m rest" "t\<lparr>ser_src := s\<rparr>" buf' "begin + m" k'] s(3) at' less.prems(3,4) m len by auto
    have frags: "later_fragments (g_dgram_tag t) n k rest =
        (frag_hdr DISPATCH_SUBSEQ_FRAG n (g_dgram_tag t) @ word_of_nat k # ?d) # later_fragments (g_dgram_tag t) n k' (drop m rest)"
      using False by (subst later_fragments.simps) (simp add: m_def k'_def later_fragments.simps [of _ _ _ "[]"])
    have run: "tun_input_loop buf begin (int (length rest)) (word_of_nat k) (htons (word_of_nat n)) t =
        tun_input_loop buf' (begin + m) (int (length rest) - int m) (word_of_nat k') (htons (word_of_nat n)) (t\<lparr>ser_src := s\<rparr>)"
      using s(1) m(1) off False
      by (subst tun_input_loop.simps) (auto simp: Let_def split: Option.bind_splits prod.splits)
    show ?thesis
      using s' run sent_append [OF s(4) s'(3)] by (auto simp: frags)
  qed
qed

text \<open>The first fragment, whose header overwrites what is in front of the datagram.\<close>

lemma send_first_fragment:
  assumes "link_free (ser_src t)" "has_at buf begin d" "96 \<le> length d" "4 \<le> begin" "2 \<le> length (addr_bytes (own_hw_addr t))"
  shows "\<exists>buf' s r. put_frag_hdr buf (begin - 4) (htons (word_of_nat n)) DISPATCH_FIRST_FRAG (g_dgram_tag t) = Some buf' \<and>
      serial_output_am_payload buf' (begin - 4) 100 t = Some (t\<lparr>ser_src := s\<rparr>, r) \<and> 0 \<le> r \<and>
    has_at buf' (begin + 96) (drop 96 d) \<and> link_free s \<and>
    sent (ser_src t) s [am_packet (own_hw_addr t) (frag_hdr DISPATCH_FIRST_FRAG n (g_dgram_tag t) @ take 96 d)]"
proof -
  let ?h = "frag_hdr DISPATCH_FIRST_FRAG n (g_dgram_tag t)"
  let ?b = "put buf (begin - 4) ?h"
  have at: "has_at buf begin (take 96 d @ drop 96 d)" using assms(2) by simp
  then have parts: "has_at buf begin (take 96 d)" "has_at buf (begin + 96) (drop 96 d)"
    using assms(3) by (simp_all add: has_at_append min_absorb2 del: append_take_drop_id)
  have h4: "length ?h = 4" by (simp add: frag_hdr_def)
  have b: "put_frag_hdr buf (begin - 4) (htons (word_of_nat n)) DISPATCH_FIRST_FRAG (g_dgram_tag t) = Some ?b"
    using has_at_len [OF assms(2)] assms(4) by (intro put_frag_hdr_Some) simp
  have "has_at ?b (begin - 4) (?h @ take 96 d)"
    using parts(1) h4 assms(4) by (intro has_at_put_cons) simp
  moreover have "length (?h @ take 96 d) = 100" using h4 assms(3) by simp
  ultimately obtain s r where "serial_output_am_payload ?b (begin - 4) 100 t = Some (t\<lparr>ser_src := s\<rparr>, r)" "0 \<le> r"
      "link_free s" "sent (ser_src t) s [am_packet (own_hw_addr t) (?h @ take 96 d)]"
    using send_one [OF assms(1) _ _ assms(5), of ?b "begin - 4" "?h @ take 96 d"] by auto
  moreover have "has_at ?b (begin + 96) (drop 96 d)"
    using parts(2) h4 by (intro has_at_put_below) simp_all
  ultimately show ?thesis using b by blast
qed

lemma first_frag_len: "(word_of_int (LINK_DATA_MTU - 4) :: u8) - word_of_int (LINK_DATA_MTU - 4) mod 8 = 96"
  by (simp add: LINK_DATA_MTU_def)

lemma tun_input_sends:
  assumes t: "link_free (ser_src t)" "2 \<le> length (addr_bytes (own_hw_addr t))" "tun_mallocs t = []"
      "tun_reads t = TunBytes (pi @ ip6_packet front nxt hlim src dst body) # reads" "length pi = 4"
    and p: "packet_ok nxt src dst body" "front_ok front" "40 + length body \<le> LOWPAN_MTU" and stack: "length stack = LOWPAN_MTU + LOWPAN_OVERHEAD"
  defines "d \<equiv> hc1_header nxt hlim src dst @ body"
  shows "\<exists>g s. tun_input stack t = Some (t\<lparr>tun_reads := reads, g_dgram_tag := g, ser_src := s\<rparr>, 1) \<and> link_free s \<and>
    sent (ser_src t) s (map (am_packet (own_hw_addr t)) (datagram_frames g d))"
proof -
  let ?p = "ip6_packet front nxt hlim src dst body"
  have len: "length src = 16" "length dst = 16" using p(1) by (simp_all add: packet_ok_def)
  have plen: "length ?p = 40 + length body" using len p(2) by (simp add: ip6_packet_def front_ok_def)
  define h where "h = hc1_header nxt hlim src dst"
  have h36: "length h \<le> 36" using hc1_header_length len by (simp add: h_def)
  define t1 where "t1 = t\<lparr>tun_reads := reads\<rparr>"
  have rd: "tun_read stack LOWPAN_OVERHEAD LOWPAN_MTU t = Some (t1, put stack LOWPAN_OVERHEAD ?p, int (40 + length body))"
    using t(3-5) p(3) plen stack by (simp add: tun_read_def tun_malloc_def tun_fd_read_def wrn_def t1_def)
  have at: "has_at (put stack LOWPAN_OVERHEAD ?p) LOWPAN_OVERHEAD ?p" using p(3) plen stack by simp
  obtain buf where buf: "lowpan_compress (put stack LOWPAN_OVERHEAD ?p) LOWPAN_OVERHEAD (int (40 + length body)) =
      Some (buf, LOWPAN_OVERHEAD + 40 - length h, int (length d))" "has_at buf (LOWPAN_OVERHEAD + 40 - length h) d"
    using compress_plain [OF p(1,2) at] by (auto simp: h_def d_def)
  define bg where "bg = LOWPAN_OVERHEAD + 40 - length h"
  have bg: "5 \<le> bg" using h36 by (simp add: bg_def LOWPAN_OVERHEAD_def)
  note buf = buf [folded bg_def]
  have t1: "link_free (ser_src t1)" "2 \<le> length (addr_bytes (own_hw_addr t1))" "own_hw_addr t1 = own_hw_addr t" "ser_src t1 = ser_src t"
    using t(1,2) by (simp_all add: t1_def)
  show ?thesis
  proof (cases "length d \<le> 100")
    case True
    obtain s r where s: "serial_output_am_payload buf bg (int (length d)) t1 = Some (t1\<lparr>ser_src := s\<rparr>, r)" "link_free s"
        "sent (ser_src t) s [am_packet (own_hw_addr t) d]"
      using send_one [OF t1(1) buf(2) True t1(2)] t1(3,4) by auto
    then have "tun_input stack t = Some (t1\<lparr>ser_src := s\<rparr>, 1)"
      using rd buf(1) True by (simp add: tun_input_def LINK_DATA_MTU_def)
    moreover have "t1\<lparr>ser_src := s\<rparr> = t\<lparr>tun_reads := reads, g_dgram_tag := g_dgram_tag t, ser_src := s\<rparr>" by (simp add: t1_def)
    ultimately show ?thesis using s True by (intro exI [of _ "g_dgram_tag t"] exI [of _ s]) (simp add: datagram_frames_def)
  next
    case False
    define t2 where "t2 = increment_g_dgram_tag t1"
    define g where "g = g_dgram_tag t2"
    have t2: "t2 = t\<lparr>tun_reads := reads, g_dgram_tag := g\<rparr>"
      by (simp add: t2_def g_def t1_def increment_g_dgram_tag_def Let_def)
    have free: "link_free (ser_src t2)" "2 \<le> length (addr_bytes (own_hw_addr t2))" using t(1,2) by (simp_all add: t2)
    let ?n = "length d"
    have n96: "96 \<le> length d" "4 \<le> bg" using False bg by simp_all
    obtain b s r where s: "put_frag_hdr buf (bg - 4) (htons (word_of_nat ?n)) DISPATCH_FIRST_FRAG g = Some b"
        "serial_output_am_payload b (bg - 4) 100 t2 = Some (t2\<lparr>ser_src := s\<rparr>, r)" "0 \<le> r"
        "has_at b (bg + 96) (drop 96 d)" "link_free s"
        "sent (ser_src t) s [am_packet (own_hw_addr t) (frag_hdr DISPATCH_FIRST_FRAG ?n g @ take 96 d)]"
      using send_first_fragment [OF free(1) buf(2) n96 free(2), of ?n] by (auto simp: t2)
    have rest: "int (length (drop 96 d)) = int ?n - 96" using False by simp
    obtain s' where s': "tun_input_loop b (bg + 96) (int ?n - 96) 12 (htons (word_of_nat ?n)) (t2\<lparr>ser_src := s\<rparr>) = Some (t2\<lparr>ser_src := s'\<rparr>)"
        "link_free s'" "sent s s' (map (am_packet (own_hw_addr t)) (later_fragments g ?n 12 (drop 96 d)))"
      using tun_input_loop_sends [of "t2\<lparr>ser_src := s\<rparr>" b "bg + 96" "drop 96 d" 12 ?n] s(4,5) free(2) rest
      by (auto simp: t2)
    have "tun_input stack t = Some (t2\<lparr>ser_src := s'\<rparr>, 1)"
      using rd buf(1) False s(1-3) s'(1) first_frag_len
      by (simp add: tun_input_def LINK_DATA_MTU_def t2_def [symmetric] g_def [symmetric] Let_def)
    then show ?thesis
      using s'(2) sent_append [OF s(6) s'(3)] False
      by (intro exI [of _ g] exI [of _ s']) (simp add: t2 datagram_frames_def)
  qed
qed

end
