(* ===== verification/Tun_Recv.thy ===== *)
theory Tun_Recv
  imports Tun_Send
begin

text \<open>
  What the daemon does with the frames of a datagram that arrive on the serial line, and the two ends
  put together.
\<close>

section \<open>The serial source\<close>

text \<open>When only data frames are to come, a read returns the next packet.\<close>

definition only_data :: "serial_source \<Rightarrow> bool" where
  "only_data s \<longleftrightarrow> good s \<and> non_blocking s \<and> (\<forall>f \<in> set (stream s). proto f = P_PACKET_NO_ACK)"

lemma read_next:
  assumes "only_data s" "outstanding s = p # ps"
  shows "\<exists>s' m n. read_serial_packet s = Some (s', Some (m, n)) \<and> only_data s' \<and> take n m = p \<and> outstanding s' = ps"
proof -
  have g: "good s" "non_blocking s" using assms(1) by (simp_all add: only_data_def)
  obtain t where t: "read_and_process True s = Some t" "good t" "conserved s t"
      "stream s = [] \<longrightarrow> in_queue t = in_queue s"
      "stream s \<noteq> [] \<longrightarrow> stream t = tl (stream s) \<and> delivered (hd (stream s)) s t"
      "stream s = [] \<longrightarrow> pending t = []"
    using read_and_process_refines [OF g(1)] by blast
  have "session_step s t" using read_and_process_total [of s] t(1) g(1) by (auto simp: good_def)
  then have nb: "non_blocking t" using g(2) by (simp add: session_step_def)
  have "in_queue t P_PACKET_NO_ACK \<noteq> []"
  proof (cases "stream s = []")
    case True
    then show ?thesis using t(4) assms(2) by (simp add: outstanding_def packets_def)
  next
    case False
    then have "proto (hd (stream s)) = P_PACKET_NO_ACK" using assms(1) by (simp add: only_data_def)
    then show ?thesis using t(5) False by (simp add: delivered_def)
  qed
  then obtain e es where e: "rqueue t P_PACKET_NO_ACK = e # es" by (cases "rqueue t P_PACKET_NO_ACK") (auto simp: in_queue_def)
  define u where "u = t\<lparr>rqueue := (rqueue t)(P_PACKET_NO_ACK := es)\<rparr>"
  have pop: "pop_protocol_packet P_PACKET_NO_ACK t = (u, Some e)" by (simp add: pop_protocol_packet_def e u_def)
  have "read_serial_packet s = Some (u, Some (pe_packet e, pe_len e))"
    using t(1) pop by (simp add: read_serial_packet_def read_serial_loop.simps)
  moreover have ok: "read_result_ok t u (Some (pe_packet e, pe_len e))"
    using pop_refines [OF t(2) nb pop] .
  moreover have "stream u = stream t" by (simp add: u_def stream_def pending_def input_def rx_of_def)
  moreover have "set (stream t) \<subseteq> set (stream s)"
    using t(5,6) by (cases "stream s") (auto simp: stream_def)
  ultimately show ?thesis
    using assms t(3) by (intro exI [of _ u]) (auto simp: only_data_def read_result_ok_def conserved_def)
qed

lemma read_none:
  assumes "only_data s" "outstanding s = []"
  shows "\<exists>s'. read_serial_packet s = Some (s', None)"
proof -
  obtain s' r where "read_serial_packet s = Some (s', r)" "outstanding s = received r @ outstanding s'"
    using read_serial_packet_refines [of s] assms(1) by (auto simp: only_data_def)
  with assms(2) show ?thesis by (cases r) auto
qed

text \<open>Bytes of a packet are bytes of its block.\<close>

lemma take_has_at: "take n m = p \<Longrightarrow> has_at m 0 p"
  by (auto simp: has_at_def min_def)

section \<open>The active message\<close>

definition am_src :: "hw_addr \<Rightarrow> hw_addr" where
  "am_src own = HW_ADDR_SHORT [addr_bytes own ! 0, addr_bytes own ! 1]"

definition everyone :: hw_addr where
  "everyone = HW_ADDR_SHORT [0xFF, 0xFF]"

lemma am_input_frame:
  assumes at: "has_at m 0 (am_packet own f)" and f: "f = d # ds" "length f \<le> 100"
    and d: "d AND DISPATCH_MESH_MASK \<noteq> DISPATCH_MESH" "d \<noteq> DISPATCH_BC0"
  shows "am_input m t =
    (if d AND DISPATCH_FRAG_MASK = DISPATCH_FIRST_FRAG \<or> d AND DISPATCH_FRAG_MASK = DISPATCH_SUBSEQ_FRAG
     then fragment_input (am_src own) everyone d m 8 (int (length f)) t
     else do { (t, r) \<leftarrow> serial_input_layer3 m 8 (int (length f)) t; Some t })"
    "has_at m 8 f"
proof -
  have at: "has_at m 0 ([0] @ [0xFF, 0xFF] @ [addr_bytes own ! 0, addr_bytes own ! 1] @ [word_of_nat (length f)] @ [0, 0x41] @ f)"
    using at by (simp add: am_packet_def)
  have parts: "has_at m 1 [0xFF, 0xFF]" "has_at m 3 [addr_bytes own ! 0, addr_bytes own ! 1]"
      "has_at m 5 [word_of_nat (length f)]" "has_at m 8 f"
    using at unfolding has_at_append by (simp_all add: eval_nat_numeral)
  have n: "uint (word_of_nat (length f) :: u8) = int (length f)" using f(2) by (simp add: unsigned_of_nat take_bit_nat_eq_self)
  have rds: "rdn m 1 2 = Some [0xFF, 0xFF]" "rdn m 3 2 = Some [addr_bytes own ! 0, addr_bytes own ! 1]"
      "rd m 5 = Some (word_of_nat (length f))" "rd m 8 = Some d"
    using rdn_has_at [OF parts(1)] rdn_has_at [OF parts(2)] rd_has_at parts(3,4) f(1) by (auto simp: numeral_2_eq_2)
  show "am_input m t =
    (if d AND DISPATCH_FRAG_MASK = DISPATCH_FIRST_FRAG \<or> d AND DISPATCH_FRAG_MASK = DISPATCH_SUBSEQ_FRAG
     then fragment_input (am_src own) everyone d m 8 (int (length f)) t
     else do { (t, r) \<leftarrow> serial_input_layer3 m 8 (int (length f)) t; Some t })"
    using rds n d by (simp add: am_input_def mesh_header_def broadcast_header_def am_src_def everyone_def)
  show "has_at m 8 f" by (rule parts(4))
qed

section \<open>Datagrams\<close>

lemma layer3_delivers:
  assumes "packet_ok nxt src dst body" "has_at m p (hc1_header nxt hlim src dst @ body)"
    and "tun_mallocs t = []" "tun_writes t = []"
  shows "\<exists>r. serial_input_layer3 m p (int (length (hc1_header nxt hlim src dst @ body))) t =
    Some (t\<lparr>tun_out := tun_out t @ [tun_pi @ plain_packet nxt hlim src dst body]\<rparr>, r)"
proof -
  let ?h = "hc1_header nxt hlim src dst" and ?p = "plain_packet nxt hlim src dst body"
  obtain xs where h: "?h = DISPATCH_COMPRESSED_IPV6 # xs" by (simp add: hc1_header_def)
  have at: "has_at m p (DISPATCH_COMPRESSED_IPV6 # xs @ body)" using assms(2) h by simp
  have "lowpan_decompress True m (p + 1) (int (length (xs @ body))) = Some (Some (?p, int (40 + length body)))"
    using decompress_plain [OF assms(1), of m "p + 1" hlim] at by (simp add: has_at_Cons h)
  moreover have "length ?p = 40 + length body"
    using assms(1) by (simp add: plain_packet_def ip6_header_def packet_ok_def)
  moreover have "rd m p = Some DISPATCH_COMPRESSED_IPV6" using at by (simp add: has_at_Cons rd_def)
  moreover have "DISPATCH_COMPRESSED_IPV6 \<noteq> DISPATCH_UNCOMPRESSED_IPV6" by (simp add: dispatch_defs)
  ultimately show ?thesis
    using assms(3,4) by (simp add: h serial_input_layer3_def serial_input_ipv6_compressed_def tun_malloc_def tun_write_def
        rdn_def tun_fd_write_def)
qed

section \<open>Reassembly\<close>

text \<open>The list of the fragments that arrived covers \<open>8 * k\<close> bytes without a gap.\<close>

fun chain :: "nat \<Rightarrow> frag_info list \<Rightarrow> bool" where
  "chain k [] = (k = 0)" |
  "chain k (p # ps) = (unat (fi_offset p) < k \<and> unat (fi_offset p) + unat (fi_len p) div 8 = k \<and> chain (unat (fi_offset p)) ps)"

lemma chain_fresh: "chain k ps \<Longrightarrow> k \<le> unat off \<Longrightarrow> check_overlap off len ps = FragFresh"
  by (induction ps arbitrary: k) (auto simp: word_less_nat_alt)

lemma chain_insert: "chain k ps \<Longrightarrow> unat (fi_offset p) = k \<Longrightarrow> insert_frag p ps = p # ps"
  by (cases ps rule: list.exhaust; cases "tl ps") (auto simp: word_less_nat_alt)

lemma chain_last: "chain (unat off) ps \<Longrightarrow> check_last off ps"
  by (induction ps arbitrary: off) auto

text \<open>A buffer in which a datagram \<open>d\<close> is put together and \<open>8 * k\<close> bytes have arrived.\<close>

definition assembling :: "hw_addr \<Rightarrow> u16 \<Rightarrow> mem \<Rightarrow> nat \<Rightarrow> lowpan_pkt \<Rightarrow> bool" where
  "assembling src tag d k q \<longleftrightarrow> p_dgram_tag q = tag \<and> p_dgram_size q = htons (word_of_nat (length d)) \<and>
     p_hw_src q = src \<and> p_hw_dst q = everyone \<and> length (p_buf q) = LOWPAN_MTU + LOWPAN_OVERHEAD \<and>
     has_at (p_buf q) LOWPAN_OVERHEAD (take (8 * k) d) \<and> chain k (p_frag_list q)"

lemma assembling_new: "assembling src tag d 0 (new_pkt src everyone (htons (word_of_nat (length d))) tag timeout)"
  by (simp add: assembling_def new_pkt_def)

lemma cmp_refl: "cmp_hw_addr a a"
  by (cases a) auto

lemma find_assembling:
  "assembling src tag d k q \<Longrightarrow> find_fragment (q # old) src everyone (htons (word_of_nat (length d))) tag = Some 0"
  by (simp add: assembling_def cmp_refl)

lemma has_at_put_above:
  "has_at m p ys \<Longrightarrow> p + length ys \<le> q \<Longrightarrow> q + length xs \<le> length m \<Longrightarrow> has_at (put m q xs) p ys"
  by (auto simp: has_at_def put_def drop_take)

lemma reassemble_step:
  assumes q: "assembling src tag d k q" "fragments t = q # old" and no_fail: "tun_mallocs t = []"
    and data: "has_at m p (take l (drop (8 * k) d))" "8 * k + l \<le> length d" "0 < l" "l \<le> 96"
    and d: "length d \<le> LOWPAN_MTU" "8 \<le> length d"
  shows "\<exists>q'. frag_reassemble 0 (htons (word_of_nat (length d))) (word_of_nat k) m p (int l) t =
      Some (t\<lparr>fragments := q' # old\<rparr>, k \<noteq> 0 \<and> k + l div 8 = length d div 8) \<and>
    (8 \<le> l \<longrightarrow> 8 dvd l \<longrightarrow> assembling src tag d (k + l div 8) q') \<and> has_at (p_buf q') LOWPAN_OVERHEAD (take (8 * k + l) d)"
proof -
  let ?data = "take l (drop (8 * k) d)" and ?n = "length d"
  let ?new = "\<lparr>fi_offset = word_of_nat k, fi_len = word_of_int (int l)\<rparr>"
  let ?b = "put (p_buf q) (LOWPAN_OVERHEAD + k * 8) ?data"
  let ?q = "q\<lparr>p_buf := ?b, p_frag_list := ?new # p_frag_list q\<rparr>"
  have small: "k < 256" "?n < 2 ^ 16" "?n div 8 < 256" using data d(1) by (simp_all add: LOWPAN_MTU_def)
  have words: "unat (word_of_nat k :: u8) = k" "unat (word_of_int (int l) :: u8) = l"
      "unat (word_of_nat ?n :: u16) = ?n" "unat (word_of_nat (?n div 8) :: u8) = ?n div 8"
    using small data(4) by (simp_all add: unat_of_nat)
  have ld: "length ?data = l" using data(2) by simp
  have room: "LOWPAN_OVERHEAD + k * 8 + l \<le> length (p_buf q)" using q(1) data(2) d(1) by (simp add: assembling_def)
  have at: "rdn m p l = Some ?data" using rdn_has_at [OF data(1)] ld by simp
  have chain: "chain k (p_frag_list q)" using q(1) by (simp add: assembling_def)
  have ins: "insert_frag ?new (p_frag_list q) = ?new # p_frag_list q" using chain_insert [OF chain] words by simp
  have last: "check_last (word_of_nat (?n div 8)) (?new # p_frag_list q) \<longleftrightarrow> k + l div 8 = ?n div 8"
  proof -
    have "word_of_nat (?n div 8) \<noteq> (0 :: u8)" using words(4) d(2) by (auto simp: unat_eq_zero)
    then show ?thesis using words chain_last [of "word_of_nat k" "p_frag_list q"] chain by auto
  qed
  have run: "frag_reassemble 0 (htons (word_of_nat ?n)) (word_of_nat k) m p (int l) t =
      Some (t\<lparr>fragments := ?q # old\<rparr>, k \<noteq> 0 \<and> k + l div 8 = ?n div 8)"
  proof -
    have "(word_of_nat k :: u8) = 0 \<longleftrightarrow> k = 0" using words(1) by (auto simp: unat_eq_zero)
    moreover have "unat (htons (htons (word_of_nat ?n))) div 8 = ?n div 8" using words(3) by simp
    ultimately show ?thesis
      using q(2) no_fail at ins last words(1) room ld
      by (simp add: frag_reassemble_def tun_malloc_def wrn_def del: check_last.simps htons_htons)
  qed
  have filled: "has_at ?b LOWPAN_OVERHEAD (take (8 * k + l) d)"
  proof -
    have "has_at ?b LOWPAN_OVERHEAD (take (8 * k) d)"
      using q(1) data(2) room ld by (intro has_at_put_above) (simp_all add: assembling_def)
    moreover have "has_at ?b (LOWPAN_OVERHEAD + k * 8) ?data" using room ld by simp
    moreover have "length (take (8 * k) d) = k * 8" using data(2) by simp
    ultimately show ?thesis by (simp only: take_add has_at_append)
  qed
  have "assembling src tag d (k + l div 8) ?q" if "8 \<le> l" "8 dvd l"
    using that q(1) filled words room ld chain by (auto simp: assembling_def mult.commute)
  with run filled show ?thesis by (intro exI [of _ ?q]) simp
qed

section \<open>Fragments\<close>

lemma low_bits:
  assumes "(x :: u8) < 8"
  shows "x AND 7 = x" "(x OR 0xC0) AND 0xF8 = 0xC0" "(x OR 0xE0) AND 0xF8 = 0xE0" "(x OR 0xC0) AND 7 = x" "(x OR 0xE0) AND 7 = x"
    "(x OR 0xC0) AND 0xC0 \<noteq> 0x80" "(x OR 0xE0) AND 0xC0 \<noteq> 0x80" "x OR 0xC0 \<noteq> 0x50" "x OR 0xE0 \<noteq> 0x50"
proof -
  have "unat x < 8" using assms by (simp add: word_less_nat_alt)
  moreover have "x = word_of_nat (unat x)" by simp
  ultimately have "x \<in> word_of_nat ` {0, 1, 2, 3, 4, 5, 6, 7}" by (intro image_eqI [of _ _ "unat x"]) auto
  then show "x AND 7 = x" "(x OR 0xC0) AND 0xF8 = 0xC0" "(x OR 0xE0) AND 0xF8 = 0xE0" "(x OR 0xC0) AND 7 = x" "(x OR 0xE0) AND 7 = x"
      "(x OR 0xC0) AND 0xC0 \<noteq> 0x80" "(x OR 0xE0) AND 0xC0 \<noteq> 0x80" "x OR 0xC0 \<noteq> 0x50" "x OR 0xE0 \<noteq> 0x50"
    by auto
qed

lemma le16_and: "le16 a b AND le16 c d = le16 (a AND c) (b AND d)"
  by (rule bit_word_eqI) (auto simp: le16_def bit_simps dest: bit_imp_le_length)

lemma size_mask: "htons 0x07FF = le16 0x07 0xFF"
  by (simp add: htons_def le16_def)

lemma hi8_less: "n < 2048 \<Longrightarrow> hi8 (word_of_nat n) < 8"
proof -
  assume "n < 2048"
  then have "256 * unat (hi8 (word_of_nat n)) + unat (lo8 (word_of_nat n)) = n"
    using unat_le16 [of "lo8 (word_of_nat n)" "hi8 (word_of_nat n)"] by (simp add: unat_of_nat)
  with \<open>n < 2048\<close> show ?thesis by (simp add: word_less_nat_alt)
qed

definition frag_dispatch :: "u8 \<Rightarrow> bool" where
  "frag_dispatch disp \<longleftrightarrow> disp = DISPATCH_FIRST_FRAG \<or> disp = DISPATCH_SUBSEQ_FRAG"

lemma dispatch_bits:
  assumes "n < 2048" "frag_dispatch disp"
  defines "d \<equiv> hi8 (word_of_nat n) OR disp"
  shows "d AND DISPATCH_FRAG_MASK = disp" "d AND DISPATCH_MESH_MASK \<noteq> DISPATCH_MESH" "d \<noteq> DISPATCH_BC0" "d AND 7 = hi8 (word_of_nat n)"
  using low_bits [OF hi8_less [OF assms(1)]] assms(2) by (auto simp: d_def dispatch_defs frag_dispatch_def)

lemma frag_hdr_reads:
  assumes "has_at m p (frag_hdr disp n tag @ xs)" "n < 2048" "frag_dispatch disp"
  shows "do { a \<leftarrow> rd16 m p; b \<leftarrow> rd16 m (p + 2); Some (a AND htons 0x07FF, b) } = Some (htons (word_of_nat n), tag)"
    "has_at m (p + 4) xs"
proof -
  let ?w = "word_of_nat n :: u16"
  have at: "has_at m p ([hi8 ?w OR disp, lo8 ?w] @ [lo8 tag, hi8 tag] @ xs)" using assms(1) by (simp add: frag_hdr_def)
  have "has_at m p [hi8 ?w OR disp, lo8 ?w]" "has_at m (p + 2) [lo8 tag, hi8 tag]" "has_at m (p + 4) xs"
    using at unfolding has_at_append by (simp_all add: eval_nat_numeral)
  then have reads: "rd16 m p = Some (le16 (hi8 ?w OR disp) (lo8 ?w))" "rd16 m (p + 2) = Some tag"
    by (simp_all add: rd16_def has_at_Cons rd_def)
  have "(0xFF :: u8) = - 1" by simp
  then have "lo8 ?w AND 0xFF = lo8 ?w" by (simp only: and.right_neutral)
  moreover have "htons ?w = le16 (hi8 ?w) (lo8 ?w)" by (metis htons_le16 le16_lo8_hi8)
  ultimately show "do { a \<leftarrow> rd16 m p; b \<leftarrow> rd16 m (p + 2); Some (a AND htons 0x07FF, b) } = Some (htons ?w, tag)"
    using reads dispatch_bits(4) [OF assms(2,3)] by (simp add: size_mask le16_and)
  show "has_at m (p + 4) xs" by fact
qed

text \<open>A fragment that arrives, up to its reassembly.\<close>

lemma am_input_fragment:
  assumes "has_at m 0 (am_packet own (frag_hdr disp n tag @ xs))" "n < 2048" "frag_dispatch disp" "length xs \<le> 96"
  defines "dsz \<equiv> htons (word_of_nat n) :: u16"
  shows "am_input m t = do {
     (offset, p, len) \<leftarrow> (if disp = DISPATCH_SUBSEQ_FRAG
       then do { b \<leftarrow> rd m 12; Some (b, 13, int (length xs) - 1) } else Some (0, 12, int (length xs)));
     case reassembly_buffer (am_src own) everyone dsz tag offset len t of
       (t, None) \<Rightarrow> Some t
     | (t, Some i) \<Rightarrow> do {
         (t, last_frag) \<leftarrow> frag_reassemble i dsz offset m p len t;
         if last_frag then do {
           let t = t\<lparr>fragments := (fragments t)[i := (fragments t ! i)\<lparr>p_len := ntohs dsz\<rparr>]\<rparr>;
           (t, r) \<leftarrow> serial_input_layer3 (p_buf (fragments t ! i)) LOWPAN_OVERHEAD (int (unat (p_len (fragments t ! i)))) t;
           Some (free_lowpan_pkt i t) }
         else Some t } }" (is "_ = ?rhs")
    "has_at m 12 xs"
proof -
  let ?d = "hi8 (word_of_nat n) OR disp"
  let ?ds = "lo8 (word_of_nat n) # lo8 tag # hi8 tag # xs"
  note bits = dispatch_bits [OF assms(2,3)]
  have f: "frag_hdr disp n tag @ xs = ?d # ?ds" "length (frag_hdr disp n tag @ xs) \<le> 100"
    using assms(4) by (simp_all add: frag_hdr_def)
  note am = am_input_frame [OF assms(1) f bits(2,3)]
  note reads = frag_hdr_reads [OF am(2) assms(2,3)]
  obtain a where a: "rd16 m 8 = Some a" "rd16 m 10 = Some tag" "a AND htons 0x07FF = dsz"
    using reads(1) by (auto simp: dsz_def split: Option.bind_splits)
  have len: "int (length (frag_hdr disp n tag @ xs)) - 4 = int (length xs)" by (simp add: frag_hdr_def)
  have "disp = DISPATCH_FIRST_FRAG \<or> disp = DISPATCH_SUBSEQ_FRAG" using assms(3) by (simp add: frag_dispatch_def)
  then have "am_input m t = fragment_input (am_src own) everyone ?d m 8 (int (length (frag_hdr disp n tag @ xs))) t"
    using am(1) bits(1) by simp
  also have "\<dots> = ?rhs"
    using a len bits(1) by (simp add: fragment_input_def)
  finally show "am_input m t = ?rhs" .
  show "has_at m 12 xs" using reads(2) by simp
qed

lemma tun_time_eq: "\<exists>ts now. tun_time t = (t\<lparr>tun_times := ts\<rparr>, now)"
  by (cases t) (auto simp: tun_time_def split: list.splits)

lemma receive_first:
  assumes "has_at m 0 (am_packet own (frag_hdr DISPATCH_FIRST_FRAG (length d) tag @ take 96 d))"
    and d: "100 < length d" "length d \<le> LOWPAN_MTU"
    and new: "find_fragment (fragments t) (am_src own) everyone (htons (word_of_nat (length d))) tag = None"
    and no_fail: "tun_mallocs t = []"
  shows "\<exists>q ts. am_input m t = Some (t\<lparr>fragments := q # fragments t, tun_times := ts\<rparr>) \<and> assembling (am_src own) tag d 12 q"
proof -
  let ?size = "htons (word_of_nat (length d)) :: u16"
  have n: "length d < 2048" "frag_dispatch DISPATCH_FIRST_FRAG" "length (take 96 d) \<le> 96" "length (take 96 d) = 96"
      "DISPATCH_FIRST_FRAG \<noteq> DISPATCH_SUBSEQ_FRAG"
    using d by (simp_all add: LOWPAN_MTU_def frag_dispatch_def dispatch_defs)
  note am = am_input_fragment(1) [OF assms(1) n(1-3), of t] am_input_fragment(2) [OF assms(1) n(1-3)]
  obtain ts now where now: "tun_time t = (t\<lparr>tun_times := ts\<rparr>, now)" using tun_time_eq by blast
  define q where "q = new_pkt (am_src own) everyone ?size tag (now + FRAG_TIMEOUT)"
  define t2 where "t2 = t\<lparr>tun_times := ts, fragments := q # fragments t\<rparr>"
  have buf: "reassembly_buffer (am_src own) everyone ?size tag 0 96 t = (t2, Some 0)"
    using new no_fail now by (simp add: reassembly_buffer_def tun_malloc_def t2_def q_def)
  have asm: "assembling (am_src own) tag d 0 q" using assembling_new by (simp add: q_def)
  have t2: "fragments t2 = q # fragments t" "tun_mallocs t2 = []" using no_fail by (simp_all add: t2_def)
  obtain q' where q': "frag_reassemble 0 ?size 0 m 12 96 t2 = Some (t2\<lparr>fragments := q' # fragments t\<rparr>, False)"
      "assembling (am_src own) tag d 12 q'"
    using reassemble_step [OF asm t2, of m 12 96] am(2) d by auto
  have "am_input m t = Some (t2\<lparr>fragments := q' # fragments t\<rparr>)"
    using am(1) n(4,5) buf q'(1) by simp
  then show ?thesis using q'(2) by (intro exI [of _ q'] exI [of _ ts]) (simp add: t2_def)
qed

text \<open>A later fragment; with the last one the datagram goes up.\<close>

lemma receive_later:
  assumes at: "has_at m 0 (am_packet own (frag_hdr DISPATCH_SUBSEQ_FRAG (length d) tag @ word_of_nat k # take l (drop (8 * k) d)))"
    and d: "100 < length d" "length d \<le> LOWPAN_MTU" and l: "0 < l" "l \<le> 95" "8 * k + l \<le> length d" "k \<noteq> 0"
    and q: "assembling (am_src own) tag d k q" "fragments t = q # old" and no_fail: "tun_mallocs t = []"
  shows "\<exists>q'. am_input m t =
      (if k + l div 8 = length d div 8 then do {
         (t, r) \<leftarrow> serial_input_layer3 (p_buf q') LOWPAN_OVERHEAD (int (length d))
           (t\<lparr>fragments := q'\<lparr>p_len := word_of_nat (length d)\<rparr> # old\<rparr>);
         Some (free_lowpan_pkt 0 t) }
       else Some (t\<lparr>fragments := q' # old\<rparr>)) \<and>
    (8 \<le> l \<longrightarrow> 8 dvd l \<longrightarrow> assembling (am_src own) tag d (k + l div 8) q') \<and>
    has_at (p_buf q') LOWPAN_OVERHEAD (take (8 * k + l) d)"
proof -
  let ?size = "htons (word_of_nat (length d)) :: u16" and ?data = "take l (drop (8 * k) d)"
  have n: "length d < 2048" "frag_dispatch DISPATCH_SUBSEQ_FRAG" "length (word_of_nat k # ?data) \<le> 96" "length ?data = l"
    using d l by (simp_all add: LOWPAN_MTU_def frag_dispatch_def)
  note am = am_input_fragment(1) [OF at n(1-3), of t] am_input_fragment(2) [OF at n(1-3)]
  have data: "rd m 12 = Some (word_of_nat k)" "has_at m 13 ?data" using am(2) by (simp_all add: has_at_Cons rd_def)
  have k: "unat (word_of_nat k :: u8) = k" using l d by (simp add: unat_of_nat LOWPAN_MTU_def)
  have "check_overlap (word_of_nat k) (int l) (p_frag_list q) = FragFresh"
    using chain_fresh [of k "p_frag_list q"] k q(1) by (simp add: assembling_def)
  then have buf: "reassembly_buffer (am_src own) everyone ?size tag (word_of_nat k) (int l) t = (t, Some 0)"
    using find_assembling [OF q(1)] q(2) by (simp add: reassembly_buffer_def del: find_fragment.simps)
  have n8: "8 \<le> length d" "l \<le> 96" using d l by simp_all
  obtain q' where q': "frag_reassemble 0 ?size (word_of_nat k) m 13 (int l) t = Some (t\<lparr>fragments := q' # old\<rparr>, k + l div 8 = length d div 8)"
      "8 \<le> l \<longrightarrow> 8 dvd l \<longrightarrow> assembling (am_src own) tag d (k + l div 8) q'" "has_at (p_buf q') LOWPAN_OVERHEAD (take (8 * k + l) d)"
    using reassemble_step [OF q no_fail data(2) l(3,1) n8(2) d(2) n8(1)] l(4) by auto
  have len: "uint (word_of_nat (length d) :: u16) = int (length d)"
    using d(2) by (simp add: unsigned_of_nat take_bit_nat_eq_self LOWPAN_MTU_def)
  show ?thesis
    using am(1) data(1) buf q' n(4) len by (intro exI [of _ q']) simp
qed

section \<open>A datagram\<close>

lemma serial_input_next:
  assumes "only_data (ser_src t)" "outstanding (ser_src t) = p # ps" "p \<noteq> []"
  shows "\<exists>s m. serial_input t = do { t \<leftarrow> am_input m (t\<lparr>ser_src := s\<rparr>); Some (t, True) } \<and> only_data s \<and>
    outstanding s = ps \<and> has_at m 0 p"
proof -
  obtain s m n where s: "read_serial_packet (ser_src t) = Some (s, Some (m, n))" "only_data s" "take n m = p" "outstanding s = ps"
    using read_next [OF assms(1,2)] by blast
  then have "n \<noteq> 0" using assms(3) by auto
  with s show ?thesis by (intro exI [of _ s] exI [of _ m]) (simp add: serial_input_def take_has_at)
qed

lemma serial_inputs_done:
  assumes "only_data (ser_src t)" "outstanding (ser_src t) = []"
  shows "\<exists>s. serial_inputs t = Some (t\<lparr>ser_src := s\<rparr>)"
  using read_none [OF assms] by (auto simp: serial_inputs.simps serial_input_def)

lemma am_packet_nonempty [simp]: "am_packet own f \<noteq> []"
  by (simp add: am_packet_def)

lemma later_fragments_received:
  assumes p: "packet_ok nxt src dst body" and d: "d = hc1_header nxt hlim src dst @ body" "100 < length d" "length d \<le> LOWPAN_MTU"
    and t: "only_data (ser_src t)" "outstanding (ser_src t) = map (am_packet own) (later_fragments tag (length d) k (drop (8 * k) d)) @ ps"
    and k: "k \<noteq> 0" "8 * k < length d"
    and q: "assembling (am_src own) tag d k q" "fragments t = q # old" and no_fail: "tun_mallocs t = []" "tun_writes t = []"
  shows "\<exists>s. serial_inputs t =
      serial_inputs (t\<lparr>ser_src := s, fragments := old, tun_out := tun_out t @ [tun_pi @ plain_packet nxt hlim src dst body]\<rparr>) \<and>
    only_data s \<and> outstanding s = ps"
  using t k q no_fail
proof (induction "length d - 8 * k" arbitrary: t k q rule: less_induct)
  case less
  let ?rest = "drop (8 * k) d"
  define l where "l = (if length ?rest \<le> 95 then length ?rest else 88)"
  have l: "0 < l" "l \<le> 95" "8 * k + l \<le> length d" using less.prems(4) by (auto simp: l_def)
  have split: "later_fragments tag (length d) k ?rest =
      (frag_hdr DISPATCH_SUBSEQ_FRAG (length d) tag @ word_of_nat k # take l ?rest) # later_fragments tag (length d) (k + l div 8) (drop l ?rest)"
    using less.prems(4) by (subst later_fragments.simps) (simp add: l_def later_fragments.simps [of _ _ _ "[]"])
  obtain s m where s: "serial_input t = do { t \<leftarrow> am_input m (t\<lparr>ser_src := s\<rparr>); Some (t, True) }" "only_data s"
      "outstanding s = map (am_packet own) (later_fragments tag (length d) (k + l div 8) (drop l ?rest)) @ ps"
      "has_at m 0 (am_packet own (frag_hdr DISPATCH_SUBSEQ_FRAG (length d) tag @ word_of_nat k # take l ?rest))"
    using serial_input_next [OF less.prems(1)] less.prems(2) split by fastforce
  let ?t = "t\<lparr>ser_src := s\<rparr>"
  have asm: "assembling (am_src own) tag d k q" "fragments ?t = q # old" "tun_mallocs ?t = []" using less.prems by simp_all
  obtain q' where q': "am_input m ?t = (if k + l div 8 = length d div 8 then do {
         (t, r) \<leftarrow> serial_input_layer3 (p_buf q') LOWPAN_OVERHEAD (int (length d))
           (?t\<lparr>fragments := q'\<lparr>p_len := word_of_nat (length d)\<rparr> # old\<rparr>);
         Some (free_lowpan_pkt 0 t) }
       else Some (?t\<lparr>fragments := q' # old\<rparr>))"
      "8 \<le> l \<longrightarrow> 8 dvd l \<longrightarrow> assembling (am_src own) tag d (k + l div 8) q'" "has_at (p_buf q') LOWPAN_OVERHEAD (take (8 * k + l) d)"
    using receive_later [OF s(4) d(2,3) l less.prems(3) asm] by blast
  show ?case
  proof (cases "length ?rest \<le> 95")
    case True
    then have l': "8 * k + l = length d" using less.prems(4) by (simp add: l_def)
    then have "k + l div 8 = length d div 8" by (metis div_mult_self4 mult.commute zero_neq_numeral)
    moreover have "has_at (p_buf q') LOWPAN_OVERHEAD (hc1_header nxt hlim src dst @ body)" using q'(3) l' d(1) by simp
    note up = layer3_delivers [OF p this, of "?t\<lparr>fragments := q'\<lparr>p_len := word_of_nat (length d)\<rparr> # old\<rparr>"]
    ultimately have am: "am_input m ?t = Some (?t\<lparr>fragments := old, tun_out := tun_out t @ [tun_pi @ plain_packet nxt hlim src dst body]\<rparr>)"
      using q'(1) less.prems(7,8) d(1) up by (auto simp: free_lowpan_pkt_def)
    have "outstanding s = ps" using s(3) l' by (simp add: later_fragments.simps)
    then show ?thesis
      using s(1,2) am by (intro exI [of _ s], subst serial_inputs.simps) simp
  next
    case False
    then have l': "l = 88" "k + 12 \<le> length d div 8" by (auto simp: l_def)
    have am: "am_input m ?t = Some (?t\<lparr>fragments := q' # old\<rparr>)" using q'(1) l' by simp
    let ?u = "?t\<lparr>fragments := q' # old\<rparr>"
    have "drop l ?rest = drop (8 * (k + 11)) d" using l'(1) by (simp add: add.commute)
    then have out: "outstanding (ser_src ?u) = map (am_packet own) (later_fragments tag (length d) (k + 11) (drop (8 * (k + 11)) d)) @ ps"
      using s(3) l'(1) by simp
    have more: "length d - 8 * (k + 11) < length d - 8 * k" "8 * (k + 11) < length d" "k + 11 \<noteq> 0"
      using False by auto
    have "assembling (am_src own) tag d (k + 11) q'" using q'(2) l'(1) by simp
    then obtain s' where "serial_inputs ?u =
        serial_inputs (?u\<lparr>ser_src := s', fragments := old, tun_out := tun_out ?u @ [tun_pi @ plain_packet nxt hlim src dst body]\<rparr>)"
        "only_data s'" "outstanding s' = ps"
      using less.hyps [OF more(1) _ out more(3,2)] s(2) less.prems(7,8) by auto
    then show ?thesis
      using s(1) am by (subst serial_inputs.simps) auto
  qed
qed

lemma later_fragments_length: "f \<in> set (later_fragments tag n k rest) \<Longrightarrow> length f \<le> 100"
proof (induction tag n k rest rule: later_fragments.induct)
  case (1 tag n k rest)
  then show ?case
    by (subst (asm) (2) later_fragments.simps) (auto simp: frag_hdr_def split: if_splits)
qed

lemma datagram_frames_length: "f \<in> set (datagram_frames tag d) \<Longrightarrow> length f \<le> 100"
  using later_fragments_length by (auto simp: datagram_frames_def frag_hdr_def split: if_splits)

lemma datagram_received:
  assumes p: "packet_ok nxt src dst body" and d: "d = hc1_header nxt hlim src dst @ body" "length d \<le> LOWPAN_MTU"
    and t: "only_data (ser_src t)" "outstanding (ser_src t) = map (am_packet own) (datagram_frames tag d) @ ps"
    and new: "\<And>n. find_fragment (fragments t) (am_src own) everyone n tag = None"
    and no_fail: "tun_mallocs t = []" "tun_writes t = []"
  shows "\<exists>s ts. serial_inputs t =
      serial_inputs (t\<lparr>tun_times := ts, ser_src := s, tun_out := tun_out t @ [tun_pi @ plain_packet nxt hlim src dst body]\<rparr>) \<and>
    only_data s \<and> outstanding s = ps"
proof (cases "length d \<le> 100")
  case True
  then have "outstanding (ser_src t) = am_packet own d # ps" using t(2) by (simp add: datagram_frames_def)
  then obtain s m where s: "serial_input t = do { t \<leftarrow> am_input m (t\<lparr>ser_src := s\<rparr>); Some (t, True) }" "only_data s"
      "outstanding s = ps" "has_at m 0 (am_packet own d)"
    using serial_input_next [OF t(1)] by fastforce
  obtain xs where h: "d = DISPATCH_COMPRESSED_IPV6 # xs" using d(1) by (simp add: hc1_header_def)
  have bits: "DISPATCH_COMPRESSED_IPV6 AND DISPATCH_MESH_MASK \<noteq> DISPATCH_MESH" "DISPATCH_COMPRESSED_IPV6 \<noteq> DISPATCH_BC0"
      "DISPATCH_COMPRESSED_IPV6 AND DISPATCH_FRAG_MASK \<noteq> DISPATCH_FIRST_FRAG"
      "DISPATCH_COMPRESSED_IPV6 AND DISPATCH_FRAG_MASK \<noteq> DISPATCH_SUBSEQ_FRAG"
    by (simp_all add: dispatch_defs)
  let ?t = "t\<lparr>ser_src := s\<rparr>" let ?u = "?t\<lparr>tun_out := tun_out t @ [tun_pi @ plain_packet nxt hlim src dst body]\<rparr>"
  have at: "has_at m 8 (hc1_header nxt hlim src dst @ body)" using am_input_frame(2) [OF s(4) h True bits(1,2)] d(1) by simp
  obtain r where "serial_input_layer3 m 8 (int (length d)) ?t = Some (?u, r)"
    using layer3_delivers [OF p at, of ?t] no_fail d(1) by auto
  then have "am_input m ?t = Some ?u" using am_input_frame(1) [OF s(4) h True bits(1,2), of ?t] bits(3,4) by simp
  then show ?thesis
    using s(1-3) by (intro exI [of _ s] exI [of _ "tun_times t"], subst serial_inputs.simps) simp
next
  case False
  let ?first = "frag_hdr DISPATCH_FIRST_FRAG (length d) tag @ take 96 d"
  obtain s m where s: "serial_input t = do { t \<leftarrow> am_input m (t\<lparr>ser_src := s\<rparr>); Some (t, True) }" "only_data s"
      "outstanding s = map (am_packet own) (later_fragments tag (length d) 12 (drop 96 d)) @ ps" "has_at m 0 (am_packet own ?first)"
    using serial_input_next [OF t(1)] t(2) False by (fastforce simp: datagram_frames_def)
  let ?t = "t\<lparr>ser_src := s\<rparr>"
  have big: "100 < length d" using False by simp
  obtain q ts where q: "am_input m ?t = Some (?t\<lparr>fragments := q # fragments t, tun_times := ts\<rparr>)" "assembling (am_src own) tag d 12 q"
    using receive_first [OF s(4) big d(2), of ?t] new no_fail by auto
  let ?u = "?t\<lparr>fragments := q # fragments t, tun_times := ts\<rparr>"
  obtain s' where "serial_inputs ?u =
      serial_inputs (?u\<lparr>ser_src := s', fragments := fragments t, tun_out := tun_out ?u @ [tun_pi @ plain_packet nxt hlim src dst body]\<rparr>)"
      "only_data s'" "outstanding s' = ps"
    using later_fragments_received [OF p d(1) big d(2), of ?u own tag 12 ps q "fragments t"] s(2,3) q(2) no_fail big by auto
  then show ?thesis
    using s(1) q(1) by (intro exI [of _ s'] exI [of _ ts], subst serial_inputs.simps) simp
qed

end
