(* ===== verification/Tun_Props.thy ===== *)
theory Tun_Props
  imports Tun_Recv
begin

text \<open>
  The properties of the tunnel daemon: what two daemons at the ends of a serial line do for a packet,
  and what the daemon does with frames that no such daemon sends.
\<close>

section \<open>From tunnel to tunnel\<close>

text \<open>A daemon that can receive from the sender \<open>own\<close>: between two frames, with memory, and with no
  datagram of this sender begun.\<close>

definition receiver_ready :: "hw_addr \<Rightarrow> tunnel \<Rightarrow> bool" where
  "receiver_ready own t \<longleftrightarrow> good (ser_src t) \<and> non_blocking (ser_src t) \<and> in_queue (ser_src t) P_PACKET_NO_ACK = [] \<and>
     between (rx_of (ser_src t)) \<and> tun_mallocs t = [] \<and> tun_writes t = [] \<and>
     (\<forall>q \<in> set (fragments t). \<not> cmp_hw_addr (p_hw_src q) (am_src own))"

lemma no_fragment_found:
  "\<forall>q \<in> set qs. \<not> cmp_hw_addr (p_hw_src q) src \<Longrightarrow> find_fragment qs src dst n tag = None"
  by (induction qs) auto

lemma rx_data_frames:
  assumes "between r" "\<forall>f \<in> set fs. frame_fits f"
  shows "rx_frames r (concat (map frame fs)) = fs"
proof (cases fs)
  case (Cons f gs)
  then show ?thesis
    using rx_frame_between [of f r] rx_frames_of_frames [of gs] assms by simp
qed simp

lemma data_frames_facts:
  assumes "length qs = length ps"
  shows "packets (data_frames qs ps) = ps" "\<forall>f \<in> set (data_frames qs ps). proto f = P_PACKET_NO_ACK"
    "\<forall>p \<in> set ps. length p \<le> 108 \<Longrightarrow> \<forall>f \<in> set (data_frames qs ps). frame_fits f"
  using assms
  by (induction qs ps rule: list_induct2)
    (auto simp: data_frames_def packets_def proto_def frame_payload_def frame_fits_def MTU_def)

lemma am_packets_fit: "\<forall>p \<in> set (map (am_packet own) (datagram_frames tag d)). length p \<le> 108"
  using datagram_frames_length by (fastforce simp: am_packet_def)

text \<open>The packets that the tunnel takes: IPv6, up to 1280 bytes, and a whole header in UDP.  What the
  other end gets of one: traffic class and flow label are zero, and the payload length is that of the
  bytes behind the header.\<close>

definition tunnel_packet :: "mem \<Rightarrow> bool" where
  "tunnel_packet p \<longleftrightarrow> 40 \<le> length p \<and> length p \<le> LOWPAN_MTU \<and> p ! 0 AND IP6_VERSION_MASK = IP6_VERSION \<and>
     (p ! 6 = NEXT_HEADER_UDP \<longrightarrow> 48 \<le> length p)"

definition carried :: "mem \<Rightarrow> mem" where
  "carried p = plain_front (length p - 40) @ drop 6 p"

text \<open>A packet with zero traffic class and flow label and the right payload length is carried as it is.\<close>

lemma carried_same: "take 6 p = plain_front (length p - 40) \<Longrightarrow> carried p = p"
  unfolding carried_def by (metis append_take_drop_id)

definition datagram_of :: "mem \<Rightarrow> mem" where
  "datagram_of p = hc1_header (p ! 6) (p ! 7) (take 16 (drop 8 p)) (take 16 (drop 24 p)) @ drop 40 p"

lemma tunnel_packet_parts:
  assumes "tunnel_packet p"
  shows "p = ip6_packet (take 6 p) (p ! 6) (p ! 7) (take 16 (drop 8 p)) (take 16 (drop 24 p)) (drop 40 p)"
    "carried p = plain_packet (p ! 6) (p ! 7) (take 16 (drop 8 p)) (take 16 (drop 24 p)) (drop 40 p)"
    "packet_ok (p ! 6) (take 16 (drop 8 p)) (take 16 (drop 24 p)) (drop 40 p)" "front_ok (take 6 p)"
    "40 + length (drop 40 p) \<le> LOWPAN_MTU" "length (datagram_of p) \<le> LOWPAN_MTU"
proof -
  have p: "40 \<le> length p" "length p \<le> LOWPAN_MTU"
    using assms by (simp_all add: tunnel_packet_def)
  show "packet_ok (p ! 6) (take 16 (drop 8 p)) (take 16 (drop 24 p)) (drop 40 p)" "front_ok (take 6 p)"
    using assms by (auto simp: packet_ok_def front_ok_def tunnel_packet_def LOWPAN_MTU_def)
  show "40 + length (drop 40 p) \<le> LOWPAN_MTU" using p by simp
  show "length (datagram_of p) \<le> LOWPAN_MTU"
    using hc1_header_length [of "take 16 (drop 8 p)" "take 16 (drop 24 p)" "p ! 6" "p ! 7"] p(1,2) by (simp add: datagram_of_def)
  have two: "take 2 (drop 6 p) = [p ! 6, p ! 7]"
    by (rule nth_equalityI) (use p(1) in \<open>auto simp: less_Suc_eq numeral_eq_Suc\<close>)
  have "drop 6 p = take 2 (drop 6 p) @ take 16 (drop 8 p) @ take 16 (drop 24 p) @ drop 40 p"
    using append_take_drop_id [of 2 "drop 6 p"] append_take_drop_id [of 16 "drop 8 p"]
      append_take_drop_id [of 16 "drop 24 p"] by simp
  then have rest: "drop 6 p = [p ! 6, p ! 7] @ take 16 (drop 8 p) @ take 16 (drop 24 p) @ drop 40 p"
    using two by simp
  then show "p = ip6_packet (take 6 p) (p ! 6) (p ! 7) (take 16 (drop 8 p)) (take 16 (drop 24 p)) (drop 40 p)"
    using append_take_drop_id [of 6 p] unfolding ip6_packet_def by simp
  show "carried p = plain_packet (p ! 6) (p ! 7) (take 16 (drop 8 p)) (take 16 (drop 24 p)) (drop 40 p)"
    using rest by (simp add: carried_def plain_packet_ip6 ip6_packet_def)
qed

definition packet_frames :: "hw_addr \<Rightarrow> u16 \<Rightarrow> mem \<Rightarrow> mem list" where
  "packet_frames own g p = map (am_packet own) (datagram_frames g (datagram_of p))"

lemma tun_inputs_sends:
  assumes "link_free (ser_src t)" "2 \<le> length (addr_bytes (own_hw_addr t))" "tun_mallocs t = []"
    and "tun_reads t = map (\<lambda>p. TunBytes (pi @ p)) ps" "length pi = 4" "\<forall>p \<in> set ps. tunnel_packet p"
    and "\<And>t. length (stack t) = LOWPAN_MTU + LOWPAN_OVERHEAD"
  shows "\<exists>g s gs. tun_inputs stack t = Some (t\<lparr>tun_reads := [], g_dgram_tag := g, ser_src := s\<rparr>) \<and> length gs = length ps \<and>
    sent (ser_src t) s (concat (map2 (packet_frames (own_hw_addr t)) gs ps))"
  using assms(1-4,6)
proof (induction ps arbitrary: t)
  case Nil
  then have "tun_input (stack t) t = Some (t, 0)"
    by (simp add: tun_input_def tun_read_def tun_malloc_def tun_fd_read_def)
  then have "tun_inputs stack t = Some t" by (simp add: tun_inputs.simps)
  moreover have "t = t\<lparr>tun_reads := [], g_dgram_tag := g_dgram_tag t, ser_src := ser_src t\<rparr>" using Nil.prems(4) by simp
  ultimately show ?case
    using sent_Nil by (intro exI [of _ "g_dgram_tag t"] exI [of _ "ser_src t"] exI [of _ "[]"]) simp
next
  case (Cons p ps)
  have "tunnel_packet p" using Cons.prems by simp
  note parts = tunnel_packet_parts [OF this]
  have "tun_reads t = TunBytes (pi @ ip6_packet (take 6 p) (p ! 6) (p ! 7) (take 16 (drop 8 p)) (take 16 (drop 24 p)) (drop 40 p)) #
      map (\<lambda>p. TunBytes (pi @ p)) ps"
    using Cons.prems(4) parts(1) by simp
  from tun_input_sends [OF Cons.prems(1-3) this assms(5) parts(3-5) assms(7) [of t]] obtain g s where
    s: "tun_input (stack t) t = Some (t\<lparr>tun_reads := map (\<lambda>p. TunBytes (pi @ p)) ps, g_dgram_tag := g, ser_src := s\<rparr>, 1)" "link_free s"
      "sent (ser_src t) s (packet_frames (own_hw_addr t) g p)"
    by (auto simp: packet_frames_def datagram_of_def)
  let ?u = "t\<lparr>tun_reads := map (\<lambda>p. TunBytes (pi @ p)) ps, g_dgram_tag := g, ser_src := s\<rparr>"
  obtain g' s' gs where u: "tun_inputs stack ?u = Some (?u\<lparr>tun_reads := [], g_dgram_tag := g', ser_src := s'\<rparr>)" "length gs = length ps"
      "sent s s' (concat (map2 (packet_frames (own_hw_addr t)) gs ps))"
    using Cons.IH [of ?u] s(2) Cons.prems by auto
  show ?case
    using s(1) u sent_append [OF s(3) u(3)]
    by (intro exI [of _ g'] exI [of _ s'] exI [of _ "g # gs"], subst tun_inputs.simps) simp
qed

lemma packets_received:
  assumes "length gs = length ps" "\<forall>p \<in> set ps. tunnel_packet p"
    and "only_data (ser_src t)" "outstanding (ser_src t) = concat (map2 (packet_frames own) gs ps)"
    and "\<forall>q \<in> set (fragments t). \<not> cmp_hw_addr (p_hw_src q) (am_src own)" "tun_mallocs t = []" "tun_writes t = []"
  shows "\<exists>s ts. serial_inputs t = Some (t\<lparr>tun_times := ts, ser_src := s, tun_out := tun_out t @ map (\<lambda>p. tun_pi @ carried p) ps\<rparr>)"
  using assms
proof (induction gs ps arbitrary: t rule: list_induct2)
  case Nil
  then show ?case using serial_inputs_done [of t] by (fastforce intro: exI [of _ "tun_times t"])
next
  case (Cons g gs p ps)
  have "tunnel_packet p" using Cons.prems by simp
  note parts = tunnel_packet_parts [OF this]
  have out: "outstanding (ser_src t) = map (am_packet own) (datagram_frames g (datagram_of p)) @ concat (map2 (packet_frames own) gs ps)"
    using Cons.prems(3) by (simp add: packet_frames_def)
  obtain s ts where s: "serial_inputs t = serial_inputs (t\<lparr>tun_times := ts, ser_src := s, tun_out := tun_out t @ [tun_pi @ carried p]\<rparr>)"
      "only_data s" "outstanding s = concat (map2 (packet_frames own) gs ps)"
    using datagram_received [OF parts(3) datagram_of_def parts(6) Cons.prems(2) out no_fragment_found [OF Cons.prems(4)] Cons.prems(5,6)]
      parts(2) by auto
  let ?u = "t\<lparr>tun_times := ts, ser_src := s, tun_out := tun_out t @ [tun_pi @ carried p]\<rparr>"
  obtain s' ts' where "serial_inputs ?u = Some (?u\<lparr>tun_times := ts', ser_src := s', tun_out := tun_out ?u @ map (\<lambda>p. tun_pi @ carried p) ps\<rparr>)"
    using Cons.IH [of ?u] s(2,3) Cons.prems by auto
  then show ?case using s(1) by (intro exI [of _ s'] exI [of _ ts']) simp
qed

text \<open>C2: The tunnel delivers.  Let a daemon find any number of IPv6 packets at its tunnel device, each
  with a whole IPv6 header, at most 1280 bytes, and a whole UDP header if the next header is UDP.  With a
  link-layer address of its own, with memory, and a serial source that does not block, has nothing to read and writes without errors, it
  writes in one turn of its main loop some bytes to its serial line, whatever was on its stack, and
  reads the device empty.  Let any daemon get these bytes, in whatever pieces, on a serial source
  between two frames, with memory and with no datagram of this sender begun.  At the end of its turn it
  has written these packets, in their order, to its own tunnel device and keeps nothing of them; of
  each packet every byte is the same but those of traffic class and flow label, which are zero, and
  those of the payload length, which is that of the bytes behind the header (\<open>carried\<close>; so a packet that
  had zeros and the right length there is delivered exactly, \<open>carried_same\<close>).\<close>

theorem tunnel_delivers:
  assumes a: "link_free (ser_src a)" "2 \<le> length (addr_bytes (own_hw_addr a))" "tun_mallocs a = []"
      "tun_reads a = map (\<lambda>p. TunBytes (pi @ p)) ps" "length pi = 4"
    and p: "\<forall>p \<in> set ps. tunnel_packet p" and stack: "\<forall>t. length (stack t) = LOWPAN_MTU + LOWPAN_OVERHEAD"
  shows "\<exists>a' w. tunnel_turn True False stack a = Some a' \<and> tun_reads a' = [] \<and> line (ser_src a') = line (ser_src a) @ w \<and>
    (\<forall>b. receiver_ready (own_hw_addr a) b \<and> pending (ser_src b) = w \<longrightarrow>
      (\<exists>b'. tunnel_turn False True stack b = Some b' \<and> tun_out b' = tun_out b @ map (\<lambda>p. tun_pi @ carried p) ps \<and>
        fragments b' = fragments b))"
proof -
  obtain g s gs where s: "tun_inputs stack a = Some (a\<lparr>tun_reads := [], g_dgram_tag := g, ser_src := s\<rparr>)" "length gs = length ps"
      "sent (ser_src a) s (concat (map2 (packet_frames (own_hw_addr a)) gs ps))"
    using tun_inputs_sends [OF a p, of stack] stack by blast
  let ?fs = "concat (map2 (packet_frames (own_hw_addr a)) gs ps)"
  obtain qs where qs: "length qs = length ?fs" "line s = line (ser_src a) @ concat (map frame (data_frames qs ?fs))"
    using s(3) by (auto simp: sent_def)
  have "\<forall>f \<in> set ?fs. length f \<le> 108" using am_packets_fit by (fastforce simp: packet_frames_def)
  then have fits: "\<forall>f \<in> set (data_frames qs ?fs). frame_fits f" by (rule data_frames_facts(3) [OF qs(1)])
  have "\<exists>b'. tunnel_turn False True stack b = Some b' \<and> tun_out b' = tun_out b @ map (\<lambda>p. tun_pi @ carried p) ps \<and> fragments b' = fragments b"
    if b: "receiver_ready (own_hw_addr a) b" "pending (ser_src b) = concat (map frame (data_frames qs ?fs))" for b
  proof -
    have st: "stream (ser_src b) = data_frames qs ?fs"
      using rx_data_frames [OF _ fits] b by (simp add: stream_def receiver_ready_def)
    then have "only_data (ser_src b)" "outstanding (ser_src b) = ?fs"
      using b(1) data_frames_facts(1,2) [OF qs(1)] by (simp_all add: only_data_def receiver_ready_def outstanding_def)
    then show ?thesis
      using packets_received [OF s(2) p, of b "own_hw_addr a"] b(1) by (fastforce simp: receiver_ready_def tunnel_turn_def)
  qed
  then show ?thesis using s(1) qs(2) by (intro exI conjI) (auto simp: tunnel_turn_def)
qed

lemma length_tun_pi [simp]: "length tun_pi = 4"
  by (simp add: tun_pi_def)

definition quiet_source :: "bool \<Rightarrow> mem \<Rightarrow> serial_source" where
  "quiet_source callback w = new_source True callback (no_script\<lparr>os_reads := map (\<lambda>b. ReadBytes [b]) w\<rparr>)"

lemma quiet_source_facts:
  "good (quiet_source c w)" "patient (quiet_source c w)" "non_blocking (quiet_source c w)" "in_queue (quiet_source c w) ty = []"
  "rx_of (quiet_source c w) = (False, False, [])" "pending (quiet_source c w) = w"
proof -
  have "concat (map (bytes_of \<circ> (\<lambda>b. ReadBytes [b])) w) = w" by (induction w) simp_all
  then show "pending (quiet_source c w) = w" by (simp add: quiet_source_def new_source_def pending_def input_def no_script_def)
  have "clean (quiet_source c w)" unfolding clean_def by (auto simp: quiet_source_def new_source_def)
  then show "good (quiet_source c w)" "patient (quiet_source c w)"
    by (simp_all add: good_def quiet_source_def new_source_inv quiet_def patient_def no_script_def) (simp_all add: new_source_def)
qed (simp_all add: quiet_source_def new_source_def in_queue_def rx_of_def)

text \<open>A packet of 300 bytes, in four fragments, and a short one, with a flow label and a wrong length;
  the bytes arrive one by one.\<close>

definition big_packet :: mem where
  "big_packet = [0x60, 0, 0, 0, 1, 4, NEXT_HEADER_ICMP6, 64] @ [0xFE, 0x80] @ replicate 14 0 @ replicate 16 7 @ replicate 260 5"

definition small_packet :: mem where
  "small_packet = [0x6B, 1, 2, 3, 0, 9, NEXT_HEADER_UDP, 64] @ replicate 32 3 @ [1, 2, 3, 4, 0, 8, 5, 6]"

definition small_carried :: mem where
  "small_carried = [0x60, 0, 0, 0, 0, 8, NEXT_HEADER_UDP, 64] @ replicate 32 3 @ [1, 2, 3, 4, 0, 8, 5, 6]"

lemma example_packets: "tunnel_packet big_packet" "tunnel_packet small_packet"
  by (simp_all add: tunnel_packet_def big_packet_def small_packet_def LOWPAN_MTU_def hc1_defs)

lemma example_carried: "carried big_packet = big_packet" "carried small_packet = small_carried"
  by (simp_all add: carried_def big_packet_def small_packet_def small_carried_def plain_front_def IP6_VERSION_def
      lo8_def hi8_def htons_def)

lemma tunnel_delivers_witness:
  "\<exists>w a' b'. tunnel_turn True False (\<lambda>_. replicate 1297 9)
      (start_tunnel (quiet_source True []) [TunBytes (tun_pi @ big_packet), TunBytes (tun_pi @ small_packet)]) = Some a' \<and>
    line (ser_src a') = w \<and>
    tunnel_turn False True (\<lambda>_. replicate 1297 9) (start_tunnel (quiet_source True w) []) = Some b' \<and>
    tun_out b' = [tun_pi @ big_packet, tun_pi @ small_carried]"
proof -
  let ?a = "start_tunnel (quiet_source True []) [TunBytes (tun_pi @ big_packet), TunBytes (tun_pi @ small_packet)]"
  let ?st = "\<lambda>_ :: tunnel. replicate 1297 9"
  note f = quiet_source_facts [of True]
  have "stream (quiet_source True []) = []" using f by (simp add: stream_def)
  then have free: "link_free (ser_src ?a)" using f by (simp add: link_free_def start_tunnel_def acks_def)
  have "\<exists>a' w. tunnel_turn True False ?st ?a = Some a' \<and> tun_reads a' = [] \<and> line (ser_src a') = line (ser_src ?a) @ w \<and>
      (\<forall>b. receiver_ready (own_hw_addr ?a) b \<and> pending (ser_src b) = w \<longrightarrow>
        (\<exists>b'. tunnel_turn False True ?st b = Some b' \<and> tun_out b' = tun_out b @ map (\<lambda>p. tun_pi @ carried p) [big_packet, small_packet] \<and>
          fragments b' = fragments b))"
    by (rule tunnel_delivers [OF free, where pi = tun_pi])
      (simp_all add: start_tunnel_def LOWPAN_MTU_def LOWPAN_OVERHEAD_def example_packets)
  then obtain a' w where w: "tunnel_turn True False ?st ?a = Some a'" "line (ser_src a') = line (ser_src ?a) @ w"
      "\<And>b. receiver_ready (own_hw_addr ?a) b \<Longrightarrow> pending (ser_src b) = w \<Longrightarrow>
        \<exists>b'. tunnel_turn False True ?st b = Some b' \<and> tun_out b' = tun_out b @ map (\<lambda>p. tun_pi @ carried p) [big_packet, small_packet]" by blast
  let ?b = "start_tunnel (quiet_source True w) []"
  have "receiver_ready (own_hw_addr ?a) ?b" "pending (ser_src ?b) = w"
    using f by (simp_all add: receiver_ready_def start_tunnel_def between_def)
  then obtain b' where "tunnel_turn False True ?st ?b = Some b'" "tun_out b' = [tun_pi @ big_packet, tun_pi @ small_carried]"
    using w(3) [of ?b] example_carried by (auto simp: start_tunnel_def)
  moreover have "line (ser_src ?a) = []" by (simp add: start_tunnel_def quiet_source_def new_source_def)
  ultimately show ?thesis using w(1,2) by auto
qed

section \<open>Frames of others\<close>

lemma has_at_whole: "has_at m 0 m"
  by (simp add: has_at_def)

lemma take_in_len: "take_in n m p len = Some (a, p', len') \<Longrightarrow> len' \<le> len"
  by (auto simp: take_in_def split: Option.bind_splits)

lemma expand_addr_len: "expand_addr x y m p len = Some (a, p', len') \<Longrightarrow> len' \<le> len"
  by (fastforce simp: expand_addr_def split: Option.bind_splits if_splits dest: take_in_len)

lemma expand_next_len: "expand_next c m p len = Some (a, p', len') \<Longrightarrow> len' \<le> len"
  by (auto simp: expand_next_def Let_def split: Option.bind_splits if_splits)

lemma expand_port_len: "expand_port x m p len = Some (a, p', len') \<Longrightarrow> len' \<le> len"
  by (auto simp: expand_port_def split: if_splits dest: take_in_len)

lemma rest_of_len: "rest_of m p len = Some bs \<Longrightarrow> 0 \<le> len"
  by (simp add: rest_of_def split: if_splits)

lemmas decompress_lens = take_in_len expand_addr_len expand_next_len expand_port_len rest_of_len

lemma decompress_needs_two_bytes: "lowpan_decompress True m p len = Some r \<Longrightarrow> 2 \<le> len"
  by (auto simp: lowpan_decompress_def Let_def split: Option.bind_splits if_splits prod.splits dest!: decompress_lens)

text \<open>C40: No frame is checked for its length.  An active message with a compressed packet of less
  than two bytes behind the dispatch byte makes the daemon copy a negative number of bytes, which is
  undefined, whatever follows in the block and in every state in which the block for the packet is
  granted (the allocation precedes the reads).\<close>

theorem truncated_frame_undefined:
  assumes "has_at m 0 (am_packet own (DISPATCH_COMPRESSED_IPV6 # xs))" "length xs < 2" "snd (tun_malloc t)"
  shows "am_input m t = None"
proof -
  let ?f = "DISPATCH_COMPRESSED_IPV6 # xs"
  have bits: "DISPATCH_COMPRESSED_IPV6 AND DISPATCH_MESH_MASK \<noteq> DISPATCH_MESH" "DISPATCH_COMPRESSED_IPV6 \<noteq> DISPATCH_BC0"
      "DISPATCH_COMPRESSED_IPV6 AND DISPATCH_FRAG_MASK \<noteq> DISPATCH_FIRST_FRAG"
      "DISPATCH_COMPRESSED_IPV6 AND DISPATCH_FRAG_MASK \<noteq> DISPATCH_SUBSEQ_FRAG"
      "DISPATCH_COMPRESSED_IPV6 \<noteq> DISPATCH_UNCOMPRESSED_IPV6"
    by (simp_all add: dispatch_defs)
  have "length ?f \<le> 100" using assms(2) by simp
  note am = am_input_frame [OF assms(1) refl this bits(1,2)]
  have "lowpan_decompress True m 9 (int (length xs)) = None"
    using decompress_needs_two_bytes [of m 9 "int (length xs)"] assms(2) by (cases "lowpan_decompress True m 9 (int (length xs))") auto
  moreover have "rd m 8 = Some DISPATCH_COMPRESSED_IPV6" using am(2) by (simp add: has_at_Cons rd_def)
  moreover obtain u where "tun_malloc t = (u, True)" using assms(3) by (cases "tun_malloc t") auto
  ultimately show ?thesis
    using am(1) [of t] bits(3-5)
    by (simp add: serial_input_layer3_def serial_input_ipv6_compressed_def)
qed

lemma truncated_frame_undefined_witness:
  "am_input (am_packet (HW_ADDR_SHORT [0, 0x12]) [DISPATCH_COMPRESSED_IPV6, 0xFF] @ replicate 50 0)
     ((start_tunnel (quiet_source True []) [])\<lparr>tun_mallocs := [True, False]\<rparr>) = None"
  by (rule truncated_frame_undefined [of _ "HW_ADDR_SHORT [0, 0x12]" "[0xFF]"])
    (simp_all add: has_at_def start_tunnel_def tun_malloc_def)

text \<open>C39: A datagram counts as complete when its fragments reach down to the last of the list, not to
  its beginning.  The last fragment alone, of a datagram of which nothing else has arrived, makes the
  daemon write a packet of zeros followed by the bytes of the fragment to the tunnel device (when
  memory is granted and the device takes it).\<close>

theorem lone_fragment_delivered:
  assumes at: "has_at m 0 (am_packet own (frag_hdr DISPATCH_SUBSEQ_FRAG n tag @ word_of_nat k # data))"
    and n: "8 * k + length data = n" "100 < n" "n \<le> LOWPAN_MTU" "0 < length data" "length data \<le> 95"
    and t: "\<forall>q \<in> set (fragments t). \<not> cmp_hw_addr (p_hw_src q) (am_src own)" "tun_mallocs t = []" "tun_writes t = []"
  shows "\<exists>ts. am_input m t = Some (t\<lparr>tun_times := ts, tun_out := tun_out t @ [tun_pi @ replicate (8 * k - 1) 0 @ data]\<rparr>)"
proof -
  let ?size = "htons (word_of_nat n) :: u16"
  have k: "0 < k" "k < 256" "n < 2048" "n div 8 < 256" using n by (simp_all add: LOWPAN_MTU_def)
  have f: "frag_dispatch DISPATCH_SUBSEQ_FRAG" "length (word_of_nat k # data) \<le> 96" using n by (simp_all add: frag_dispatch_def)
  note am = am_input_fragment(1) [OF at k(3) f, of t] am_input_fragment(2) [OF at k(3) f]
  have rds: "rd m 12 = Some (word_of_nat k)" "rdn m 13 (length data) = Some data"
    using am(2) rdn_has_at [of m 13 data] by (simp_all add: has_at_Cons rd_def)
  have words: "unat (word_of_nat k :: u8) = k" "unat (word_of_int (int (length data)) :: u8) = length data"
      "unat (word_of_nat (n div 8) :: u8) = n div 8" "unat (word_of_nat n :: u16) = n" "uint (word_of_nat n :: u16) = int n"
    using k n(5) by (simp_all add: unat_of_nat unsigned_of_nat take_bit_nat_eq_self)
  obtain ts now where now: "tun_time t = (t\<lparr>tun_times := ts\<rparr>, now)" using tun_time_eq by blast
  define q where "q = new_pkt (am_src own) everyone ?size tag (now + FRAG_TIMEOUT)"
  let ?t = "t\<lparr>tun_times := ts, fragments := q # fragments t\<rparr>"
  have buf: "reassembly_buffer (am_src own) everyone ?size tag (word_of_nat k) (int (length data)) t = (?t, Some 0)"
    using no_fragment_found [OF t(1)] t(2) now by (simp add: reassembly_buffer_def tun_malloc_def q_def)
  let ?new = "\<lparr>fi_offset = word_of_nat k, fi_len = word_of_int (int (length data))\<rparr>"
  let ?b = "put (replicate (LOWPAN_MTU + LOWPAN_OVERHEAD) 0) (LOWPAN_OVERHEAD + k * 8) data"
  let ?q = "q\<lparr>p_buf := ?b, p_frag_list := [?new]\<rparr>"
  have room: "LOWPAN_OVERHEAD + k * 8 + length data \<le> LOWPAN_MTU + LOWPAN_OVERHEAD" using n(1,3) by simp
  have last: "check_last (word_of_nat (n div 8)) [?new]"
    using words n(1) by simp
  have nz: "(word_of_nat k :: u8) \<noteq> 0" using words(1) k(1) by auto
  have run: "frag_reassemble 0 ?size (word_of_nat k) m 13 (int (length data)) ?t = Some (?t\<lparr>fragments := ?q # fragments t\<rparr>, True)"
    using rds(2) t(2) room words(1,4) last nz
    by (simp add: frag_reassemble_def tun_malloc_def wrn_def q_def new_pkt_def del: check_last.simps)
  let ?u = "?t\<lparr>fragments := ?q\<lparr>p_len := word_of_nat n\<rparr> # fragments t\<rparr>"
  have zero: "rd ?b LOWPAN_OVERHEAD = Some 0"
    using room k(1) by (simp add: rd_def put_nth LOWPAN_MTU_def)
  have bytes: "rdn ?b (LOWPAN_OVERHEAD + 1) (n - 1) = Some (replicate (8 * k - 1) 0 @ data)"
  proof -
    have "LOWPAN_OVERHEAD + k * 8 = LOWPAN_OVERHEAD + 1 + (8 * k - 1)" using k(1) by simp
    then show ?thesis
      using room n(1) k(1) by (auto simp: rdn_def put_def min_absorb1)
  qed
  have up: "serial_input_layer3 ?b LOWPAN_OVERHEAD (int n) ?u = Some (tun_fd_write (tun_pi @ replicate (8 * k - 1) 0 @ data) ?u)"
    using zero bytes n(2) t(2) by (simp add: serial_input_layer3_def dispatch_defs tun_write_def tun_malloc_def nat_diff_distrib)
  have "am_input m t = Some (free_lowpan_pkt 0 (fst (tun_fd_write (tun_pi @ replicate (8 * k - 1) 0 @ data) ?u)))"
    using am(1) rds(1) buf run words(5) up by (simp add: split_beta)
  then show ?thesis using t(3) by (intro exI [of _ ts]) (simp add: tun_fd_write_def free_lowpan_pkt_def)
qed

lemma lone_fragment_delivered_witness:
  "\<exists>ts. am_input (am_packet (HW_ADDR_SHORT [0, 0x12]) (frag_hdr DISPATCH_SUBSEQ_FRAG 101 5 @ word_of_nat 12 # [1, 2, 3, 4, 5]))
     (start_tunnel (quiet_source True []) []) =
   Some ((start_tunnel (quiet_source True []) [])\<lparr>tun_times := ts, tun_out := [tun_pi @ replicate 95 0 @ [1, 2, 3, 4, 5]]\<rparr>)"
  using lone_fragment_delivered [of _ "HW_ADDR_SHORT [0, 0x12]" 101 5 12 "[1, 2, 3, 4, 5]" "start_tunnel (quiet_source True []) []", OF has_at_whole]
  by (simp add: LOWPAN_MTU_def start_tunnel_def)

text \<open>A fragment is never put behind the last one of the list, whatever its offset; and the timer frees
  the datagrams whose time has not come.\<close>

lemma insert_frag_nonempty [simp]: "insert_frag p fs \<noteq> []"
  by (induction p fs rule: insert_frag.induct) auto

lemma last_fragment_stays: "fs \<noteq> [] \<Longrightarrow> last (insert_frag p fs) = last fs"
  by (induction p fs rule: insert_frag.induct) auto

lemma timer_frees_the_live:
  assumes "tun_times t = now # ts"
  shows "set (fragments (timer_fired t)) = {q \<in> set (fragments t). p_frag_timeout q \<le> now}"
  using assms by (auto simp: timer_fired_def tun_time_def)

end
