(* ===== verification/Spec2Isabelle.thy ===== *)
theory Spec2Isabelle
  imports Cksum Lowpan_Session Sim_Queue Tcp_Props Coap_Sessions Sf_Message Sf_Sessions Sf_Source
    Ip_Text Dip_Sort Sim_Gain Tun_Props
begin

text \<open>
  Verification of the C core of \<open>backip\<close>, a TinyOS tree for IPv6 over low-power radios.

  \<^bold>\<open>The program.\<close>  The tree holds operating-system components in nesC, and C libraries that these
  components and the tools on a PC link.  The development models the C libraries that carry the
  network stack, the event core of the simulator, the PC end of the serial line and a tunnel over it:

  \<^item> \<open>support/sdk/c/blip/lib6lowpan\<close>: IPv6 packets, their compression to IEEE 802.15.4 frames,
    fragmentation and reassembly, the checksum and the packet heap;
  \<^item> \<open>support/sdk/c/blip/libtcp\<close>: TCP over these packets, with a circular transmit buffer;
  \<^item> \<open>support/sdk/c/coap\<close>: CoAP messages, URIs, retransmission, resources and subscriptions;
  \<^item> \<open>tos/lib/tossim\<close>: the priority heap, event queue, main loop and gain table of the simulator;
  \<^item> \<open>tos/lib/net/dip/qsort.c\<close>: the sort of the dissemination protocol DIP;
  \<^item> \<open>support/sdk/c/sf\<close>: bit fields of messages, packets over the serial line to a mote, and packets over a
    socket to a serial forwarder;
  \<^item> \<open>support/sdk/c/6lowpan/serial_tun\<close>: the daemon that carries IPv6 packets between a tunnel device and
    the serial line.

  A packet to be sent is a header and a scatter list (\<open>struct ip6_packet\<close>).  \<open>lowpan_frag_get\<close> turns it
  into frames, using the IEEE 802.15.4 header, header compression and the fragment headers; on the
  other side \<open>lowpan_recon_start\<close> and \<open>lowpan_recon_add\<close> rebuild it.  TCP builds its segments in
  blocks of the packet heap, hands them down with a checksum, and keeps unacknowledged bytes in
  the circular buffer.  CoAP is independent of TCP: it has messages on the C heap and sends them as
  datagrams.  The simulator runs handlers from an event queue that is a priority heap.
  A program on the PC reads and writes packets with \<open>read_serial_packet\<close> and \<open>write_serial_packet\<close>, or
  over a socket with their counterparts of \<open>sfsource.c\<close>, and takes fields out of them with \<open>message.c\<close>.
  The tunnel daemon compresses the packets of its device with an HC1 coder of its own, cuts them into
  active messages and hands these to \<open>write_serial_packet\<close>; what \<open>read_serial_packet\<close> returns it puts
  together and writes to the device.
  DIP sorts its keys and its estimates with two comparisons of its own.

  \<^bold>\<open>Theories and the code they model.\<close>

  \<^item> \<open>Backip_Prelude\<close>: words, byte memory, byte order (\<open>nwbyte.h\<close>); \<open>Ip6\<close>: the types of \<open>ip.h\<close>;
    \<open>Iovec\<close>: the scatter lists of \<open>iovec.c\<close>.
  \<^item> \<open>Cksum\<close>: \<open>in_cksum\<close> and \<open>msg_cksum\<close>, equal to the ones' complement sum of the data.
  \<^item> \<open>Ip_Malloc\<close>: the packet heap as a byte array, its refinement to a list of blocks (locale
    \<open>packet_heap\<close>), sessions of allocations and frees.
  \<^item> \<open>Ieee154\<close>: \<open>pack_ieee154_header\<close> and its inverse.  \<open>Lowpan_Headers\<close>: the accessors of
    \<open>lib6lowpan_4944.c\<close> for mesh, broadcast and fragment headers.
  \<^item> \<open>Iphc_Pack\<close>, \<open>Iphc_Unpack\<close>: both directions of header compression in \<open>lib6lowpan.c\<close>;
    \<open>Iphc_Roundtrip\<close>: decompression inverts compression.
  \<^item> \<open>Lowpan_Frag\<close>: \<open>lib6lowpan_frag.c\<close>; \<open>Lowpan_Session\<close>: a whole datagram from sender to receiver.
  \<^item> \<open>Circ_Buf\<close>: \<open>circ.c\<close> and its refinement to a byte queue (locale \<open>stream_buffer\<close>).
    \<open>Tcp\<close>, \<open>Tcp_Process\<close>: \<open>tcplib.c\<close>, data and sending, then receiving, calls of the application and
    timers; \<open>Tcp_Inv\<close>, \<open>Tcp_Safe\<close>: the invariant and its preservation; \<open>Tcp_Props\<close>: runs.
  \<^item> \<open>Coap_Uri\<close>: \<open>uri.c\<close>.  \<open>Coap_Pdu\<close>: \<open>pdu.c\<close> and \<open>encode.c\<close>; \<open>Coap_Options\<close>: messages as option
    lists.  \<open>Coap_Queue\<close>: \<open>list.c\<close> and the queues of \<open>net.c\<close>; \<open>Coap_Lists\<close>: the linked lists as lists.
    \<open>Coap_Net\<close>: sending, receiving and dispatching of \<open>net.c\<close>, and \<open>subscribe.c\<close>;
    \<open>Coap_Sessions\<close>: runs of the retransmission queue.
  \<^item> \<open>Sim_Heap\<close>: \<open>heap.c\<close> and its refinement to a multiset (locale \<open>priority_queue\<close>).
    \<open>Sim_Queue\<close>: \<open>sim_event_queue.c\<close> and \<open>sim_tossim.c\<close>, the event loop and the random numbers.
    \<open>Sim_Gain\<close>: \<open>sim_gain.c\<close> and its refinement to a map (locale \<open>gain_map\<close>).
  \<^item> \<open>Ip_Text\<close>: the text of addresses and the helpers of \<open>utility.c\<close>.  \<open>Dip_Sort\<close>: \<open>qsort.c\<close> over any
    comparison that is a total preorder (locale \<open>comparator\<close>, interpreted on those of DIP).
  \<^item> \<open>Sf_Message\<close>: \<open>message.c\<close>, its fields as bits of the buffer (locale \<open>bit_fields\<close>, for both byte orders).
    \<open>Sf_Serial\<close>: \<open>serialsource.c\<close>; \<open>Sf_Codec\<close>: frames as lists and the abstract receiver of the protocol;
    \<open>Sf_Receive\<close>: the writer produces frames, the reader implements the abstract receiver byte by byte;
    \<open>Sf_Sessions\<close>: whole reads and writes and sequences of them.  \<open>Sf_Source\<close>: \<open>sfsource.c\<close>.
  \<^item> \<open>Tun_Hc1\<close>: the coder of \<open>serial_tun.c\<close>.  \<open>Tun_Daemon\<close>: the rest of it and \<open>tun_dev.c\<close>, over the serial
    source of \<open>Sf_Serial\<close>.  \<open>Tun_Send\<close>: the frames of a datagram and that they are what is written;
    \<open>Tun_Recv\<close>: reassembly of them; \<open>Tun_Props\<close>: both ends together, and frames of others.

  \<^bold>\<open>How code becomes definitions.\<close>  Integers are words of their width (\<open>u8\<close>, \<open>u16\<close>, \<open>u32\<close>), so
  wrap-around is that of the code; \<open>int\<close> and pointers have 32 bits and the machine is little
  endian.  Memory is a list of bytes, a pointer into it an offset; objects whose lifetime
  matters (events, sockets, CoAP nodes and messages) live in a store indexed by address.  State is
  passed explicitly and returned.  Every definition returns an option: \<^term>\<open>None\<close> stands for
  behaviour that C does not define (access outside an object or of a freed one, null pointer) or, for
  the loops defined by \<^theory_text>\<open>partial_function\<close>, for not returning.  A theorem that a function
  returns \<open>Some\<close> is a theorem of memory safety and termination.  \<open>NULL\<close> and \<open>-1\<close> are ordinary results.

  \<^bold>\<open>What the lemmas show.\<close>
  \<^item> Round trips: every header format, option list, URI and variable-length integer that is written
    is read back; \<open>Lowpan_Session\<close> composes compression, fragmentation and reassembly;
    bit fields are read back in both byte orders, packets over sockets and serial lines arrive;
    \<open>Tun_Props\<close> composes compression, fragmentation, serial framing and their inverses to a tunnel;
    the text of an address is read back but for the addresses that are printed wrongly.
  \<^item> Refinements: the packet heap to a block list with first fit and coalescing, the circular
    buffer to a queue, the array heap to a multiset, linked lists to sorted lists,
    chains of links to a map, quicksort to a sorted rearrangement,
    the serial reader to a receiver of frames that loses at most one frame to noise.
  \<^item> Safety of runs: sessions of the packet heap (but for the load of the two bytes behind it), of TCP
    with arriving segments that do not hit the errors shown beside it, of reassembly with any frames,
    of the event loop, of the CoAP queue and of a serial line whose errors come to an end never leave
    their objects.  TCP writes its packets byte by byte into their blocks of the packet heap and gives
    every block back.
  \<^item> Termination: an unanswered TCP connection attempt and an unanswered CoAP message are given up
    after the documented number of retries, and not earlier.
  \<^item> Errors and bounds: which inputs are refused, and the inputs on which the code is wrong, each
    with a concrete instance.

  \<^bold>\<open>Parameters and fuel.\<close>  The context table of header compression, the upcalls of TCP
  (\<open>tcplib_extern_*\<close>, \<open>tcplib_accept\<close>), the handlers of events and messages, the functions of CoAP
  resources, and the results of \<open>malloc\<close>, \<open>sendto\<close>, \<open>recvfrom\<close> and \<open>rand\<close> are arguments; what a theorem
  needs of them is a named hypothesis (\<open>env_ok\<close>, \<open>malloc_spec\<close>, handlers that keep the invariant).
  The serial line and the sockets read the answers of the system from a script in their state
  (\<open>os_script\<close>, \<open>sock\<close>, \<open>tunnel\<close>); behind its end the read of a serial line gives the answer
  the script names for ever (\<open>os_read_end\<close>: no input, or an error that stays), a socket has no input, and
  writes and allocations succeed.  The two bytes behind the packet heap, which \<open>ip_malloc\<close> loads when it
  refuses a request, are an argument of its operations (\<open>behind\<close>); the theorems say where they are needed.
  The content of an uninitialised buffer on the stack is a function of the state.
  Loops bounded by their data are recursive functions with a measure; the searches of the packet
  heap and of linked lists, the chains of headers and the loops of TCP, CoAP and the serial line are partial functions,
  and the theorems that they return \<open>Some\<close> prove that they end.  Only the transfer of a datagram in
  \<open>Lowpan_Session\<close>, which is not code but a run of the two sides, has fuel: one unit per byte of the
  packet is enough, as every frame carries at least one byte.

  \<^bold>\<open>Not modelled.\<close>  nesC components (drivers, routing, \<open>Bcp\<close>, the IP stack around the libraries) are in
  another language.  Debug output (\<open>iov_print\<close>, \<open>circ_buf_dump\<close>, \<open>coap_show_pdu\<close> and the like), socket
  set-up, and the opening and configuration of tunnel devices are input and output.  Headers of chips and the USB and CMSIS
  libraries of the SAM3U are vendored register definitions, \<open>tossim_wrap.cxx\<close> is generated,
  \<open>hashtable.c\<close> is third party.  Opening a serial port, its baud rates, the Windows build, connecting
  a socket and the programs of \<open>support/sdk/c/sf\<close> (\<open>sf\<close>, \<open>seriallisten\<close> and the like) are system
  set-up and printing.  The remaining C of \<open>tossim\<close> (noise and packet models, the sampling of noise
  in \<open>sim_gain.c\<close>, logging) computes on floating-point numbers or formats text.  The parsing and
  printing of link-layer addresses in \<open>utility.c\<close> is left to the C library.
\<close>

end
